(* ===== verification/Pedigree_Prelude.thy ===== *)
theory Pedigree_Prelude
  imports Main "HOL-Library.Word"
begin

text \<open>
  Shared vocabulary of the Pedigree development: the fixed-width integer types of
  \<^verbatim>\<open>processor/types.h\<close>, the list searches that the kernel's iterator loops perform, and
  the generic facts on lists and words that the component theories use.  The collection
  \<open>word_nat\<close> gathers the rules that move a question about machine words to the natural
  numbers they denote, under the side conditions that exclude wrap-around.
\<close>

named_theorems word_nat \<open>machine-word operations read as operations on natural numbers\<close>

type_synonym u8 = "8 word"
type_synonym u16 = "16 word"
type_synonym u32 = "32 word"
type_synonym u64 = "64 word"

section \<open>Searches made by iterator loops\<close>

text \<open>
  A loop of the form \<^verbatim>\<open>for (; cur != end; ++cur) if (P(*cur)) { ... erase(cur); break; }\<close>
  takes the first element that satisfies \<open>P\<close> out of the list.
\<close>

fun take_first :: "('a \<Rightarrow> bool) \<Rightarrow> 'a list \<Rightarrow> ('a \<times> 'a list) option" where
  "take_first P [] = None"
| "take_first P (x # xs) =
     (if P x then Some (x, xs)
      else (case take_first P xs of None \<Rightarrow> None | Some (y, ys) \<Rightarrow> Some (y, x # ys)))"

lemma take_first_None: "take_first P xs = None \<longleftrightarrow> (\<forall>x \<in> set xs. \<not> P x)"
  by (induction xs) (auto split: option.splits)

lemma take_first_Some:
  "take_first P xs = Some (y, ys) \<Longrightarrow>
     \<exists>us vs. xs = us @ y # vs \<and> ys = us @ vs \<and> P y \<and> (\<forall>u \<in> set us. \<not> P u)"
proof (induction xs arbitrary: ys)
  case Nil
  then show ?case by simp
next
  case (Cons x xs)
  show ?case
  proof (cases "P x")
    case True
    with Cons.prems show ?thesis
      by (intro exI [of _ "[]"] exI [of _ xs]) simp
  next
    case False
    with Cons.prems obtain ys' where
      rec: "take_first P xs = Some (y, ys')" and ys: "ys = x # ys'"
      by (auto split: option.splits)
    from Cons.IH [OF rec] obtain us vs where
      "xs = us @ y # vs" "ys' = us @ vs" "P y" "\<forall>u \<in> set us. \<not> P u"
      by blast
    with False ys show ?thesis
      by (intro exI [of _ "x # us"] exI [of _ vs]) simp
  qed
qed

lemma take_first_SomeE:
  assumes "take_first P xs = Some (y, ys)"
  obtains us vs where "xs = us @ y # vs" "ys = us @ vs" "P y" "\<forall>u \<in> set us. \<not> P u"
  using take_first_Some [OF assms] by blast

text \<open>A symmetric relation that holds between all pairs of a list survives deletion and is
  rebuilt by insertion anywhere.\<close>

lemma sorted_wrt_mid:
  assumes "\<And>a b. R a b \<Longrightarrow> R b a"
  shows "sorted_wrt R (us @ y # vs) \<longleftrightarrow> sorted_wrt R (us @ vs) \<and> (\<forall>x \<in> set us \<union> set vs. R x y)"
  using assms by (auto simp: sorted_wrt_append)

lemma sorted_wrt_pair:
  assumes "\<And>a b. R a b \<Longrightarrow> R b a"
  shows "sorted_wrt R xs \<Longrightarrow> x \<in> set xs \<Longrightarrow> y \<in> set xs \<Longrightarrow> R x y \<or> x = y"
  using assms by (induction xs) auto

lemma sorted_wrt_rev_sym:
  assumes "\<And>a b. R a b \<Longrightarrow> R b a"
  shows "sorted_wrt R (rev xs) \<longleftrightarrow> sorted_wrt R xs"
proof -
  have "(\<lambda>x y. R y x) = R"
    using assms by (intro ext) blast
  then show ?thesis by (simp add: sorted_wrt_rev)
qed

section \<open>Words read as natural numbers\<close>

lemma unat_add_no_wrap [word_nat]:
  fixes a b :: "'a::len word"
  assumes "unat a + unat b < 2 ^ LENGTH('a)"
  shows "unat (a + b) = unat a + unat b"
  using assms by (simp add: unat_word_ariths)

lemma unat_sub_no_wrap [word_nat]:
  fixes a b :: "'a::len word"
  assumes "b \<le> a"
  shows "unat (a - b) = unat a - unat b"
  using assms by (rule unat_sub)

lemma word_eq_unat: "a = b \<longleftrightarrow> unat a = unat b"
  for a b :: "'a::len word"
  by (auto simp: word_unat_eq_iff)

lemma unat_pos_iff: "0 < unat a \<longleftrightarrow> a \<noteq> 0"
  for a :: "'a::len word"
  by (simp add: unat_gt_0)

end
