(* ===== verification/Linked_List.thy ===== *)
theory Linked_List
  imports Pedigree_Prelude "HOL-Library.Monad_Syntax"
begin

text \<open>
  \<^verbatim>\<open>List<T>\<close> (\<^verbatim>\<open>system/include/utilities/List.h\<close>) and its \<open>void*\<close> specialisation
  (\<^verbatim>\<open>system/kernel/utilities/List.cc\<close>): a doubly linked list of heap-allocated nodes.  The code
  mutates the nodes through pointers, so the model carries the store: a list object owns a map
  from addresses to nodes, and \<open>new\<close> takes the next address that was never used.  Every
  operation returns an option; \<open>None\<close> is a dereference of the null pointer or of a node that is
  not allocated.

  The abstraction of a list object is the HOL list of its values.  The interface
  \<open>sequence\<close> states what clients rely on, and is interpreted on the pointer operations here.
\<close>

section \<open>Nodes and list objects\<close>

type_synonym ptr = "nat option"

record 'a list_node =
  m_Next :: ptr
  m_Previous :: ptr
  node_value :: 'a

type_synonym 'a store = "nat \<rightharpoonup> 'a list_node"

record 'a List =
  m_Count :: nat
  m_First :: ptr
  m_Last :: ptr
  nodes :: "'a store"
  fresh :: nat

definition node_at :: "'a store \<Rightarrow> ptr \<Rightarrow> 'a list_node option" where
  "node_at h p = Option.bind p h"

definition set_next :: "'a store \<Rightarrow> ptr \<Rightarrow> ptr \<Rightarrow> 'a store option" where
  "set_next h p q = do { a \<leftarrow> p; n \<leftarrow> h a; Some (h(a \<mapsto> n\<lparr>m_Next := q\<rparr>)) }"

definition set_previous :: "'a store \<Rightarrow> ptr \<Rightarrow> ptr \<Rightarrow> 'a store option" where
  "set_previous h p q = do { a \<leftarrow> p; n \<leftarrow> h a; Some (h(a \<mapsto> n\<lparr>m_Previous := q\<rparr>)) }"

definition List_new :: "'a List" where
  "List_new = \<lparr>m_Count = 0, m_First = None, m_Last = None, nodes = (\<lambda>_. None), fresh = 0\<rparr>"

definition List_count :: "'a List \<Rightarrow> nat" where
  "List_count l = m_Count l"

section \<open>Operations\<close>

definition List_pushBack :: "'a \<Rightarrow> 'a List \<Rightarrow> 'a List option" where
  "List_pushBack v l =
     (let a = fresh l;
          h = (nodes l)(a \<mapsto> \<lparr>m_Next = None, m_Previous = m_Last l, node_value = v\<rparr>);
          l1 = l\<lparr>m_Count := Suc (m_Count l), m_Last := Some a, fresh := Suc a\<rparr>
      in if m_Last l = None then Some (l1\<lparr>m_First := Some a, nodes := h\<rparr>)
         else do { h' \<leftarrow> set_next h (m_Last l) (Some a); Some (l1\<lparr>nodes := h'\<rparr>) })"

definition List_pushFront :: "'a \<Rightarrow> 'a List \<Rightarrow> 'a List option" where
  "List_pushFront v l =
     (let a = fresh l;
          h = (nodes l)(a \<mapsto> \<lparr>m_Next = m_First l, m_Previous = None, node_value = v\<rparr>);
          l1 = l\<lparr>m_Count := Suc (m_Count l), m_First := Some a, fresh := Suc a\<rparr>
      in if m_First l = None then Some (l1\<lparr>m_Last := Some a, nodes := h\<rparr>)
         else do { h' \<leftarrow> set_previous h (m_First l) (Some a); Some (l1\<lparr>nodes := h'\<rparr>) })"

text \<open>The part that both versions of \<open>popBack\<close> share once they hold the last node.\<close>

definition unlink_last :: "nat \<Rightarrow> 'a List \<Rightarrow> ('a \<times> 'a List) option" where
  "unlink_last a l = do {
     n \<leftarrow> nodes l a;
     h \<leftarrow> (if m_Previous n \<noteq> None then set_next (nodes l) (m_Previous n) None else Some (nodes l));
     n' \<leftarrow> h a;
     Some (node_value n',
       l\<lparr>m_Count := m_Count l - 1, m_Last := m_Previous n,
         m_First := (if m_Previous n \<noteq> None then m_First l else None),
         nodes := h(a := None)\<rparr>) }"

definition unlink_first :: "nat \<Rightarrow> 'a List \<Rightarrow> ('a \<times> 'a List) option" where
  "unlink_first a l = do {
     n \<leftarrow> nodes l a;
     h \<leftarrow> (if m_Next n \<noteq> None then set_previous (nodes l) (m_Next n) None else Some (nodes l));
     n' \<leftarrow> h a;
     Some (node_value n',
       l\<lparr>m_Count := m_Count l - 1, m_First := m_Next n,
         m_Last := (if m_Next n \<noteq> None then m_Last l else None),
         nodes := h(a := None)\<rparr>) }"

text \<open>
  The generic \<open>popBack\<close> and \<open>popFront\<close> return 0 on an empty list.  If only one of the two
  end pointers is null (which no well-formed list has), the code clears the other end, counts
  down and returns 0 as well.
\<close>

definition List_popBack :: "'a::zero List \<Rightarrow> ('a \<times> 'a List) option" where
  "List_popBack l =
     (if m_Last l = None \<and> m_First l = None then Some (0, l)
      else case m_Last l of
        None \<Rightarrow> Some (0, l\<lparr>m_First := None, m_Count := m_Count l - 1\<rparr>)
      | Some a \<Rightarrow> unlink_last a l)"

definition List_popFront :: "'a::zero List \<Rightarrow> ('a \<times> 'a List) option" where
  "List_popFront l =
     (if m_Last l = None \<and> m_First l = None then Some (0, l)
      else case m_First l of
        None \<Rightarrow> Some (0, l\<lparr>m_Last := None, m_Count := m_Count l - 1\<rparr>)
      | Some a \<Rightarrow> unlink_first a l)"

text \<open>The \<open>void*\<close> versions dereference the end pointer without a test.\<close>

definition List_void_popBack :: "'a List \<Rightarrow> ('a \<times> 'a List) option" where
  "List_void_popBack l = do { a \<leftarrow> m_Last l; unlink_last a l }"

definition List_void_popFront :: "'a List \<Rightarrow> ('a \<times> 'a List) option" where
  "List_void_popFront l = do { a \<leftarrow> m_First l; unlink_first a l }"

text \<open>\<open>erase\<close> through an iterator: unlink the node, return the iterator to the next one.\<close>

definition List_erase :: "nat \<Rightarrow> 'a List \<Rightarrow> (ptr \<times> 'a List) option" where
  "List_erase a l = do {
     n \<leftarrow> nodes l a;
     h1 \<leftarrow> (if m_Previous n = None then Some (nodes l) else set_next (nodes l) (m_Previous n) (m_Next n));
     h2 \<leftarrow> (if m_Next n = None then Some h1 else set_previous h1 (m_Next n) (m_Previous n));
     Some (m_Next n,
       l\<lparr>m_Count := m_Count l - 1,
         m_First := (if m_Previous n = None then m_Next n else m_First l),
         m_Last := (if m_Next n = None then m_Previous n else m_Last l),
         nodes := h2(a := None)\<rparr>) }"

text \<open>\<open>erase\<close> through a reverse iterator, as written: the tests on \<open>m_Next\<close> and
  \<open>m_Previous\<close> update \<open>m_First\<close> and \<open>m_Last\<close> the other way round.\<close>

definition List_erase_reverse :: "nat \<Rightarrow> 'a List \<Rightarrow> (ptr \<times> 'a List) option" where
  "List_erase_reverse a l = do {
     n \<leftarrow> nodes l a;
     h1 \<leftarrow> (if m_Next n = None then Some (nodes l) else set_previous (nodes l) (m_Next n) (m_Previous n));
     h2 \<leftarrow> (if m_Previous n = None then Some h1 else set_next h1 (m_Previous n) (m_Next n));
     Some (m_Previous n,
       l\<lparr>m_Count := m_Count l - 1,
         m_First := (if m_Next n = None then m_Previous n else m_First l),
         m_Last := (if m_Previous n = None then m_Next n else m_Last l),
         nodes := h2(a := None)\<rparr>) }"

text \<open>The iterator's \<open>++\<close> (\<^verbatim>\<open>Iterator.h\<close>): stay at the end, or follow \<open>m_Next\<close>; and the
  iterator reached from \<open>begin()\<close> by \<open>i\<close> increments.\<close>

definition Iterator_next :: "'a store \<Rightarrow> ptr \<Rightarrow> ptr option" where
  "Iterator_next h it = (case it of None \<Rightarrow> Some None | Some a \<Rightarrow> map_option m_Next (h a))"

fun Iterator_advance :: "'a store \<Rightarrow> nat \<Rightarrow> ptr \<Rightarrow> ptr option" where
  "Iterator_advance h 0 it = Some it"
| "Iterator_advance h (Suc i) it = do { it' \<leftarrow> Iterator_next h it; Iterator_advance h i it' }"

definition List_at :: "'a List \<Rightarrow> nat \<Rightarrow> ptr option" where
  "List_at l i = Iterator_advance (nodes l) i (m_First l)"

fun clear_loop :: "nat \<Rightarrow> ptr \<Rightarrow> 'a store \<Rightarrow> 'a store option" where
  "clear_loop 0 cur h = Some h"
| "clear_loop (Suc i) cur h = do { a \<leftarrow> cur; n \<leftarrow> h a; clear_loop i (m_Next n) (h(a := None)) }"

definition List_clear :: "'a List \<Rightarrow> 'a List option" where
  "List_clear l = do {
     h \<leftarrow> clear_loop (m_Count l) (m_First l) (nodes l);
     Some (l\<lparr>m_Count := 0, m_First := None, m_Last := None, nodes := h\<rparr>) }"

text \<open>Walking a list with a forward iterator until it equals \<open>end()\<close>, the null pointer; the
  result is undefined when the walk meets a dangling pointer or never ends.\<close>

partial_function (option) List_iterate :: "'a store \<Rightarrow> ptr \<Rightarrow> 'a list option" where
  "List_iterate h cur =
     (case cur of
        None \<Rightarrow> Some []
      | Some a \<Rightarrow> Option.bind (h a) (\<lambda>n. Option.bind (List_iterate h (m_Next n)) (\<lambda>vs. Some (node_value n # vs))))"

declare List_iterate.simps [code]

text \<open>Appending values one after the other with a push operation, as the copy loops do.\<close>

fun push_all :: "('a \<Rightarrow> 'l \<Rightarrow> 'l option) \<Rightarrow> 'a list \<Rightarrow> 'l \<Rightarrow> 'l option" where
  "push_all push [] l = Some l"
| "push_all push (v # vs) l = do { l' \<leftarrow> push v l; push_all push vs l' }"

text \<open>Taking \<open>n\<close> values off one after the other, as the bulk readers do.\<close>

fun pop_n :: "('l \<Rightarrow> ('a \<times> 'l) option) \<Rightarrow> nat \<Rightarrow> 'l \<Rightarrow> ('a list \<times> 'l) option" where
  "pop_n pop 0 l = Some ([], l)"
| "pop_n pop (Suc n) l = do { (v, l') \<leftarrow> pop l; (vs, l'') \<leftarrow> pop_n pop n l'; Some (v # vs, l'') }"

definition List_assign :: "'a List \<Rightarrow> 'a List \<Rightarrow> 'a List option" where
  "List_assign x l = do {
     l1 \<leftarrow> (if m_Count l \<noteq> 0 then List_clear l else Some l);
     vs \<leftarrow> List_iterate (nodes x) (m_First x);
     push_all List_pushBack vs l1 }"

definition List_copy :: "'a List \<Rightarrow> 'a List option" where
  "List_copy x = List_assign x List_new"

section \<open>Linked segments\<close>

text \<open>\<open>dls h p prev as q\<close>: from \<open>p\<close>, reached from \<open>prev\<close>, the nodes \<open>as\<close> are linked in both
  directions and the last one continues to \<open>q\<close>.\<close>

fun dls :: "'a store \<Rightarrow> ptr \<Rightarrow> ptr \<Rightarrow> nat list \<Rightarrow> ptr \<Rightarrow> bool" where
  "dls h p prev [] q \<longleftrightarrow> p = q"
| "dls h p prev (a # as) q \<longleftrightarrow> p = Some a \<and>
     (case h a of None \<Rightarrow> False | Some n \<Rightarrow> m_Previous n = prev \<and> dls h (m_Next n) (Some a) as q)"

definition last_ptr :: "ptr \<Rightarrow> nat list \<Rightarrow> ptr" where
  "last_ptr prev as = (if as = [] then prev else Some (last as))"

lemma last_ptr_simps [simp]:
  "last_ptr prev [] = prev"
  "last_ptr prev (a # as) = last_ptr (Some a) as"
  "last_ptr prev (as @ [a]) = Some a"
  by (auto simp: last_ptr_def)

lemma last_ptr_append [simp]: "last_ptr prev (as @ bs) = last_ptr (last_ptr prev as) bs"
  by (auto simp: last_ptr_def)

lemma dls_append:
  "dls h p prev (as @ bs) q \<longleftrightarrow> (\<exists>r. dls h p prev as r \<and> dls h r (last_ptr prev as) bs q)"
  by (induction as arbitrary: p prev) (auto split: option.splits)

lemma dls_frame [simp]: "a \<notin> set as \<Longrightarrow> dls (h(a := x)) p prev as q = dls h p prev as q"
  by (induction as arbitrary: p prev) (auto split: option.splits)

lemma dls_first: "dls h p prev as q \<Longrightarrow> as \<noteq> [] \<Longrightarrow> p = Some (hd as)"
  by (cases as) auto

lemma dls_set_first_previous:
  assumes "dls h p prev (a # as) q" "a \<notin> set as"
  shows "\<exists>n. h a = Some n \<and> set_previous h (Some a) r = Some (h(a \<mapsto> n\<lparr>m_Previous := r\<rparr>))
    \<and> dls (h(a \<mapsto> n\<lparr>m_Previous := r\<rparr>)) p r (a # as) q"
  using assms by (auto simp: set_previous_def split: option.splits)

lemma dls_set_last_next:
  assumes "dls h p prev (as @ [a]) q" "a \<notin> set as"
  shows "\<exists>n. h a = Some n \<and> set_next h (Some a) r = Some (h(a \<mapsto> n\<lparr>m_Next := r\<rparr>))
    \<and> dls (h(a \<mapsto> n\<lparr>m_Next := r\<rparr>)) p prev (as @ [a]) r"
  using assms by (auto simp: set_next_def dls_append split: option.splits)

lemma dls_cong:
  assumes "\<And>a. a \<in> set as \<Longrightarrow> h' a = h a"
  shows "dls h' p prev as q = dls h p prev as q"
  using assms by (induction as arbitrary: p prev) (auto split: option.splits)

lemma dls_dom: "dls h p prev as q \<Longrightarrow> set as \<subseteq> dom h"
  by (induction as arbitrary: p prev) (auto split: option.splits)

section \<open>Well-formed lists and their contents\<close>

definition wf_list :: "'a List \<Rightarrow> nat list \<Rightarrow> bool" where
  "wf_list l as \<longleftrightarrow> dls (nodes l) (m_First l) None as None \<and> m_Last l = last_ptr None as \<and> distinct as
     \<and> m_Count l = length as \<and> dom (nodes l) = set as \<and> (\<forall>a \<in> set as. a < fresh l)"

definition List_inv :: "'a List \<Rightarrow> bool" where
  "List_inv l \<longleftrightarrow> (\<exists>as. wf_list l as)"

definition List_contents :: "'a List \<Rightarrow> 'a list" where
  "List_contents l = (case List_iterate (nodes l) (m_First l) of None \<Rightarrow> [] | Some vs \<Rightarrow> vs)"

definition values_of :: "'a store \<Rightarrow> nat list \<Rightarrow> 'a list" where
  "values_of h as = map (\<lambda>a. node_value (the (h a))) as"

lemma iterate_dls: "dls h p prev as None \<Longrightarrow> List_iterate h p = Some (values_of h as)"
proof (induction as arbitrary: p prev)
  case Nil
  then show ?case by (simp add: List_iterate.simps values_of_def)
next
  case (Cons a as)
  then obtain n where "p = Some a" "h a = Some n" "dls h (m_Next n) (Some a) as None"
    by (auto split: option.splits)
  with Cons.IH show ?case by (simp add: List_iterate.simps [of h "Some a"] values_of_def)
qed

lemma wf_contents: "wf_list l as \<Longrightarrow> List_contents l = values_of (nodes l) as"
  using iterate_dls [of "nodes l" "m_First l" None as] by (simp add: wf_list_def List_contents_def)

lemma wf_first: "wf_list l as \<Longrightarrow> m_First l = (if as = [] then None else Some (hd as))"
  using dls_first by (fastforce simp: wf_list_def)

lemma wf_ends_None: "wf_list l as \<Longrightarrow> m_Last l = None \<longleftrightarrow> as = []"
  by (auto simp: wf_list_def last_ptr_def)

lemma values_of_simps [simp]:
  "values_of h [] = []"
  "values_of h (a # as) = node_value (the (h a)) # values_of h as"
  "values_of h (as @ bs) = values_of h as @ values_of h bs"
  by (auto simp: values_of_def)

lemma values_of_links [simp]:
  "h a = Some n \<Longrightarrow> values_of (h(a \<mapsto> n\<lparr>m_Next := r\<rparr>)) as = values_of h as"
  "h a = Some n \<Longrightarrow> values_of (h(a \<mapsto> n\<lparr>m_Previous := r\<rparr>)) as = values_of h as"
  by (auto simp: values_of_def)

lemma values_of_frame [simp]: "a \<notin> set as \<Longrightarrow> values_of (h(a := x)) as = values_of h as"
  by (auto simp: values_of_def)

lemma length_contents: "wf_list l as \<Longrightarrow> length (List_contents l) = length as"
  by (simp add: wf_contents values_of_def)

section \<open>The operations on well-formed lists\<close>

lemma wf_new: "wf_list List_new []"
  by (simp add: wf_list_def List_new_def)

lemma pushBack_wf:
  assumes wf: "wf_list l as"
  shows "\<exists>l'. List_pushBack v l = Some l' \<and> wf_list l' (as @ [fresh l]) \<and>
    List_contents l' = List_contents l @ [v]"
proof -
  let ?a = "fresh l"
  let ?h = "(nodes l)(?a \<mapsto> \<lparr>m_Next = None, m_Previous = m_Last l, node_value = v\<rparr>)"
  have new: "?a \<notin> set as" using wf by (auto simp: wf_list_def)
  show ?thesis
  proof (cases as rule: rev_cases)
    case Nil
    then have "List_pushBack v l = Some (l\<lparr>m_Count := Suc (m_Count l), m_Last := Some ?a, fresh := Suc ?a,
        m_First := Some ?a, nodes := ?h\<rparr>)" (is "_ = Some ?l'")
      using wf by (simp add: List_pushBack_def wf_ends_None Let_def)
    moreover have "wf_list ?l' (as @ [?a])"
      using wf Nil by (auto simp: wf_list_def)
    ultimately show ?thesis
      using wf_contents [of ?l' "as @ [?a]"] wf_contents [OF wf] Nil by simp
  next
    case (snoc bs b)
    have last: "m_Last l = Some b" and seg: "dls ?h (m_First l) None (bs @ [b]) None" and "b \<notin> set bs"
      using wf new snoc by (simp_all add: wf_list_def)
    then obtain n where n: "?h b = Some n" "set_next ?h (Some b) (Some ?a) = Some (?h(b \<mapsto> n\<lparr>m_Next := Some ?a\<rparr>))"
      and seg': "dls (?h(b \<mapsto> n\<lparr>m_Next := Some ?a\<rparr>)) (m_First l) None (bs @ [b]) (Some ?a)"
      using dls_set_last_next by blast
    let ?h' = "?h(b \<mapsto> n\<lparr>m_Next := Some ?a\<rparr>)"
    have "List_pushBack v l = Some (l\<lparr>m_Count := Suc (m_Count l), m_Last := Some ?a, fresh := Suc ?a,
        nodes := ?h'\<rparr>)" (is "_ = Some ?l'")
      using last n by (simp add: List_pushBack_def Let_def)
    moreover have "dls ?h' (m_First l) None ((bs @ [b]) @ [?a]) None"
      unfolding dls_append [of _ _ _ "bs @ [b]"] using seg' new snoc last by (intro exI [of _ "Some ?a"]) auto
    then have "wf_list ?l' (as @ [?a])"
      using wf snoc n(1) new by (auto simp: wf_list_def)
    ultimately show ?thesis
      using wf_contents [of ?l' "as @ [?a]"] wf_contents [OF wf] new n(1) snoc by auto
  qed
qed

lemma pushFront_wf:
  assumes wf: "wf_list l as"
  shows "\<exists>l'. List_pushFront v l = Some l' \<and> wf_list l' (fresh l # as) \<and>
    List_contents l' = v # List_contents l"
proof -
  let ?a = "fresh l"
  let ?h = "(nodes l)(?a \<mapsto> \<lparr>m_Next = m_First l, m_Previous = None, node_value = v\<rparr>)"
  have new: "?a \<notin> set as" using wf by (auto simp: wf_list_def)
  show ?thesis
  proof (cases as)
    case Nil
    then have "List_pushFront v l = Some (l\<lparr>m_Count := Suc (m_Count l), m_First := Some ?a, fresh := Suc ?a,
        m_Last := Some ?a, nodes := ?h\<rparr>)" (is "_ = Some ?l'")
      using wf wf_first [OF wf] by (simp add: List_pushFront_def Let_def)
    moreover have "wf_list ?l' (?a # as)"
      using wf Nil wf_first [OF wf] by (auto simp: wf_list_def)
    ultimately show ?thesis
      using wf_contents [of ?l' "?a # as"] wf_contents [OF wf] Nil by simp
  next
    case (Cons b bs)
    have first: "m_First l = Some b" and seg: "dls ?h (m_First l) None (b # bs) None" and "b \<notin> set bs"
      using wf new Cons wf_first [OF wf] dls_frame [of ?a as "nodes l"]
      by (simp_all add: wf_list_def del: dls_frame dls.simps)
    then obtain n where n: "?h b = Some n" "set_previous ?h (Some b) (Some ?a) = Some (?h(b \<mapsto> n\<lparr>m_Previous := Some ?a\<rparr>))"
      and seg': "dls (?h(b \<mapsto> n\<lparr>m_Previous := Some ?a\<rparr>)) (m_First l) (Some ?a) (b # bs) None"
      using dls_set_first_previous by blast
    let ?h' = "?h(b \<mapsto> n\<lparr>m_Previous := Some ?a\<rparr>)"
    have "List_pushFront v l = Some (l\<lparr>m_Count := Suc (m_Count l), m_First := Some ?a, fresh := Suc ?a,
        nodes := ?h'\<rparr>)" (is "_ = Some ?l'")
      using first n by (simp add: List_pushFront_def Let_def)
    moreover have "?a \<noteq> b" using new Cons by auto
    then have "dls ?h' (Some ?a) None (?a # b # bs) None"
      using seg' first by simp
    then have "wf_list ?l' (?a # as)"
      using wf Cons n(1) new by (auto simp: wf_list_def)
    ultimately show ?thesis
      using wf_contents [of ?l' "?a # as"] wf_contents [OF wf] new n(1) Cons by auto
  qed
qed

text \<open>Taking the node between \<open>us\<close> and \<open>vs\<close> out: the neighbours are linked to each other.\<close>

definition first_ptr :: "nat list \<Rightarrow> ptr" where
  "first_ptr vs = (if vs = [] then None else Some (hd vs))"

lemma first_ptr_simps [simp]: "first_ptr [] = None" "first_ptr (v # vs) = Some v"
  by (auto simp: first_ptr_def)

definition bridge :: "'a store \<Rightarrow> nat list \<Rightarrow> nat list \<Rightarrow> 'a store" where
  "bridge h us vs =
     (let h1 = (if us = [] then h else h(last us \<mapsto> (the (h (last us)))\<lparr>m_Next := first_ptr vs\<rparr>))
      in if vs = [] then h1 else h1(hd vs \<mapsto> (the (h1 (hd vs)))\<lparr>m_Previous := last_ptr None us\<rparr>))"

lemma dls_split_node:
  assumes "dls h p None (us @ a # vs) None"
  shows "\<exists>n. h a = Some n \<and> m_Previous n = last_ptr None us \<and> m_Next n = first_ptr vs
    \<and> dls h p None us (Some a) \<and> dls h (first_ptr vs) (Some a) vs None"
proof -
  obtain r where r: "dls h p None us r" "dls h r (last_ptr None us) (a # vs) None"
    using assms by (auto simp: dls_append)
  then obtain n where "r = Some a" "h a = Some n" "m_Previous n = last_ptr None us"
    and vs: "dls h (m_Next n) (Some a) vs None"
    by (auto split: option.splits)
  moreover have "m_Next n = first_ptr vs" using vs by (cases vs) auto
  ultimately show ?thesis using r(1) by simp
qed

lemma dls_relink_next:
  assumes "dls h p prev us q" "distinct us" "us \<noteq> []"
  shows "dls (h(last us \<mapsto> (the (h (last us)))\<lparr>m_Next := r\<rparr>)) p prev us r"
proof -
  obtain xs x where us: "us = xs @ [x]" using assms(3) by (cases us rule: rev_cases) auto
  with dls_set_last_next [of h p prev xs x q r] assms show ?thesis by auto
qed

lemma dls_relink_previous:
  assumes "dls h p prev vs q" "distinct vs" "vs \<noteq> []"
  shows "dls (h(hd vs \<mapsto> (the (h (hd vs)))\<lparr>m_Previous := r\<rparr>)) p r vs q"
proof -
  obtain x xs where vs: "vs = x # xs" using assms(3) by (cases vs) auto
  with dls_set_first_previous [of h p prev x xs q r] assms show ?thesis by auto
qed

lemma dls_bridge:
  assumes seg: "dls h p None (us @ a # vs) None" and dist: "distinct (us @ a # vs)"
  shows "dls (bridge h us vs) (if us = [] then first_ptr vs else p) None (us @ vs) None"
proof -
  define h1 where "h1 = (if us = [] then h else h(last us \<mapsto> (the (h (last us)))\<lparr>m_Next := first_ptr vs\<rparr>))"
  have us: "dls h p None us (Some a)" and vs: "dls h (first_ptr vs) (Some a) vs None"
    using dls_split_node [OF seg] by blast+
  have us1: "dls h1 (if us = [] then first_ptr vs else p) None us (first_ptr vs)"
    using dls_relink_next [OF us, of "first_ptr vs"] dist by (auto simp: h1_def)
  have "us \<noteq> [] \<Longrightarrow> last us \<notin> set vs" using dist last_in_set [of us] by (simp, blast)
  then have vs1: "dls h1 (first_ptr vs) (Some a) vs None"
    using vs by (auto simp: h1_def)
  have hd: "vs \<noteq> [] \<Longrightarrow> hd vs \<notin> set us" using dist by (cases vs) auto
  have br: "bridge h us vs =
    (if vs = [] then h1 else h1(hd vs \<mapsto> (the (h1 (hd vs)))\<lparr>m_Previous := last_ptr None us\<rparr>))"
    by (simp only: bridge_def h1_def Let_def)
  show ?thesis
  proof (cases "vs = []")
    case True
    then show ?thesis unfolding br using us1 by auto
  next
    case False
    let ?h2 = "h1(hd vs \<mapsto> (the (h1 (hd vs)))\<lparr>m_Previous := last_ptr None us\<rparr>)"
    have "dls ?h2 (first_ptr vs) (last_ptr None us) vs None"
      using dls_relink_previous [OF vs1 _ False] dist by simp
    moreover have "dls ?h2 (if us = [] then first_ptr vs else p) None us (first_ptr vs)"
      using us1 hd [OF False] by simp
    ultimately show ?thesis
      unfolding br using False by (auto simp: dls_append)
  qed
qed

lemma bridge_dom: "dls h p None (us @ a # vs) None \<Longrightarrow> dom (bridge h us vs) = dom h"
  using dls_dom [of h p None "us @ a # vs" None] by (cases us rule: rev_cases; cases vs) (auto simp: bridge_def Let_def)

lemma bridge_values:
  "dls h p None (us @ a # vs) None \<Longrightarrow> node_value (the (bridge h us vs b)) = node_value (the (h b))"
  by (cases us rule: rev_cases; cases vs) (auto simp: bridge_def Let_def)

lemma set_next_at: "h a = Some n \<Longrightarrow> set_next h (Some a) q = Some (h(a \<mapsto> n\<lparr>m_Next := q\<rparr>))"
  by (simp add: set_next_def)

lemma set_previous_at: "h a = Some n \<Longrightarrow> set_previous h (Some a) q = Some (h(a \<mapsto> n\<lparr>m_Previous := q\<rparr>))"
  by (simp add: set_previous_def)

lemma erase_wf:
  assumes wf: "wf_list l (us @ a # vs)"
  shows "\<exists>l'. List_erase a l = Some (first_ptr vs, l') \<and> wf_list l' (us @ vs)
    \<and> List_contents l' = values_of (nodes l) (us @ vs)"
proof -
  let ?h = "nodes l"
  have seg: "dls ?h (m_First l) None (us @ a # vs) None" and dist: "distinct (us @ a # vs)"
    using wf by (auto simp: wf_list_def)
  obtain n where n: "?h a = Some n" "m_Previous n = last_ptr None us" "m_Next n = first_ptr vs"
    using dls_split_node [OF seg] by blast
  have dom: "set us \<subseteq> dom ?h" "set vs \<subseteq> dom ?h" using dls_dom [OF seg] by auto
  define l' where "l' = l\<lparr>m_Count := m_Count l - 1,
         m_First := (if us = [] then first_ptr vs else m_First l),
         m_Last := (if vs = [] then last_ptr None us else m_Last l),
         nodes := (bridge ?h us vs)(a := None)\<rparr>"
  have "List_erase a l = Some (first_ptr vs, l')"
    using n dom dist unfolding List_erase_def l'_def
    by (cases us rule: rev_cases; cases vs) (auto simp: bridge_def Let_def set_next_at set_previous_at)
  moreover have "wf_list l' (us @ vs)"
    using wf dls_bridge [OF seg dist] bridge_dom [OF seg] dist
    by (auto simp: wf_list_def l'_def last_ptr_def)
  moreover have "values_of (nodes l') (us @ vs) = values_of ?h (us @ vs)"
    using bridge_values [OF seg] dist by (auto simp: l'_def values_of_def)
  ultimately show ?thesis by (auto simp: wf_contents)
qed

text \<open>The pop operations unlink an end node exactly as \<open>erase\<close> does.\<close>

lemma unlink_last_erase:
  assumes "nodes l a = Some n" "m_Next n = None" "m_Previous n \<noteq> Some a"
  shows "unlink_last a l = map_option (\<lambda>(_, l'). (node_value n, l')) (List_erase a l)"
  using assms by (cases "m_Previous n") (auto simp: unlink_last_def List_erase_def set_next_def split: bind_splits)

lemma unlink_first_erase:
  assumes "nodes l a = Some n" "m_Previous n = None" "m_Next n \<noteq> Some a"
  shows "unlink_first a l = map_option (\<lambda>(_, l'). (node_value n, l')) (List_erase a l)"
  using assms by (cases "m_Next n") (auto simp: unlink_first_def List_erase_def set_previous_def split: bind_splits)

lemma unlink_last_wf:
  assumes wf: "wf_list l (us @ [a])"
  shows "\<exists>l'. unlink_last a l = Some (last (List_contents l), l') \<and> wf_list l' us
    \<and> List_contents l' = butlast (List_contents l)"
proof -
  have seg: "dls (nodes l) (m_First l) None (us @ [a]) None" and dist: "distinct (us @ [a])"
    using wf by (auto simp: wf_list_def)
  obtain n where n: "nodes l a = Some n" "m_Previous n = last_ptr None us" "m_Next n = None"
    using dls_split_node [OF seg] by auto
  have "m_Previous n \<noteq> Some a" using n dist by (auto simp: last_ptr_def split: if_splits)
  with erase_wf [OF wf] n wf_contents [OF wf] show ?thesis
    by (auto simp: unlink_last_erase)
qed

lemma unlink_first_wf:
  assumes wf: "wf_list l (a # vs)"
  shows "\<exists>l'. unlink_first a l = Some (hd (List_contents l), l') \<and> wf_list l' vs
    \<and> List_contents l' = tl (List_contents l)"
proof -
  have seg: "dls (nodes l) (m_First l) None ([] @ a # vs) None" and dist: "distinct (a # vs)"
    using wf by (auto simp: wf_list_def)
  obtain n where n: "nodes l a = Some n" "m_Previous n = None" "m_Next n = first_ptr vs"
    using dls_split_node [OF seg] by auto
  have "m_Next n \<noteq> Some a" using n dist by (cases vs) auto
  with erase_wf [of l "[]" a vs] wf n wf_contents [OF wf] show ?thesis
    by (auto simp: unlink_first_erase)
qed

lemma clear_loop_dls:
  "dls h p prev as None \<Longrightarrow> distinct as \<Longrightarrow> clear_loop (length as) p h = Some (h |` (- set as))"
proof (induction as arbitrary: p prev h)
  case Nil
  then show ?case by (simp add: restrict_map_def)
next
  case (Cons a as)
  then obtain n where n: "p = Some a" "h a = Some n" "dls h (m_Next n) (Some a) as None" "a \<notin> set as"
    by (auto split: option.splits)
  have d: "distinct as" using Cons.prems(2) by simp
  from n(3,4) have "dls (h(a := None)) (m_Next n) (Some a) as None" by simp
  from Cons.IH [OF this d]
  have "clear_loop (length as) (m_Next n) (h(a := None)) = Some (h(a := None) |` (- set as))" .
  moreover have "h(a := None) |` (- set as) = h |` (- set (a # as))"
    by (auto simp: restrict_map_def)
  ultimately show ?case using n by simp
qed

lemma clear_wf:
  assumes wf: "wf_list l as"
  shows "\<exists>l'. List_clear l = Some l' \<and> wf_list l' []"
proof -
  have "clear_loop (m_Count l) (m_First l) (nodes l) = Some (nodes l |` (- set as))"
    using clear_loop_dls [of "nodes l" "m_First l" None as] wf by (simp add: wf_list_def)
  moreover have "nodes l |` (- set as) = (\<lambda>_. None)"
  proof
    fix x show "(nodes l |` (- set as)) x = None"
      using wf by (cases "x \<in> set as") (auto simp: wf_list_def restrict_map_def)
  qed
  ultimately show ?thesis using wf by (simp add: List_clear_def wf_list_def)
qed

section \<open>The interface of a sequence container\<close>

locale sequence =
  fixes inv :: "'l \<Rightarrow> bool"
    and contents :: "'l \<Rightarrow> 'a::zero list"
    and empty :: 'l
    and count :: "'l \<Rightarrow> nat"
    and push_back push_front :: "'a \<Rightarrow> 'l \<Rightarrow> 'l option"
    and pop_front pop_back :: "'l \<Rightarrow> ('a \<times> 'l) option"
    and clear :: "'l \<Rightarrow> 'l option"
  assumes empty: "inv empty" "contents empty = []"
    and count: "inv l \<Longrightarrow> count l = length (contents l)"
    and push_back: "inv l \<Longrightarrow> \<exists>l'. push_back v l = Some l' \<and> inv l' \<and> contents l' = contents l @ [v]"
    and push_front: "inv l \<Longrightarrow> \<exists>l'. push_front v l = Some l' \<and> inv l' \<and> contents l' = v # contents l"
    and pop_front: "inv l \<Longrightarrow> contents l \<noteq> [] \<Longrightarrow>
      \<exists>l'. pop_front l = Some (hd (contents l), l') \<and> inv l' \<and> contents l' = tl (contents l)"
    and pop_back: "inv l \<Longrightarrow> contents l \<noteq> [] \<Longrightarrow>
      \<exists>l'. pop_back l = Some (last (contents l), l') \<and> inv l' \<and> contents l' = butlast (contents l)"
    and pop_empty: "inv l \<Longrightarrow> contents l = [] \<Longrightarrow> pop_front l = Some (0, l) \<and> pop_back l = Some (0, l)"
    and clear: "inv l \<Longrightarrow> \<exists>l'. clear l = Some l' \<and> inv l' \<and> contents l' = []"
begin

lemma push_all_back:
  "inv l \<Longrightarrow> \<exists>l'. push_all push_back vs l = Some l' \<and> inv l' \<and> contents l' = contents l @ vs"
proof (induction vs arbitrary: l)
  case (Cons v vs)
  from push_back [OF Cons.prems] obtain l' where
    "push_back v l = Some l'" "inv l'" "contents l' = contents l @ [v]" by blast
  with Cons.IH [of l'] show ?case by auto
qed simp

lemma pop_n_front:
  "inv l \<Longrightarrow> n \<le> length (contents l) \<Longrightarrow>
     \<exists>l'. pop_n pop_front n l = Some (take n (contents l), l') \<and> inv l' \<and> contents l' = drop n (contents l)"
proof (induction n arbitrary: l)
  case (Suc n)
  then obtain v vs where c: "contents l = v # vs" by (cases "contents l") auto
  with pop_front [OF Suc.prems(1)] obtain l' where
    "pop_front l = Some (v, l')" "inv l'" "contents l' = vs" by auto
  with Suc.IH [of l'] Suc.prems(2) c show ?case by fastforce
qed simp

text \<open>First in, first out.\<close>

lemma fifo:
  assumes "inv l"
  shows "\<exists>l' l''. push_all push_back vs l = Some l' \<and> pop_n pop_front (count l + length vs) l' = Some (contents l @ vs, l'')
    \<and> inv l'' \<and> contents l'' = []"
proof -
  obtain l' where l': "push_all push_back vs l = Some l'" "inv l'" "contents l' = contents l @ vs"
    using push_all_back [OF assms] by blast
  with pop_n_front [of l' "count l + length vs"] count [OF assms] show ?thesis by auto
qed

end

lemma List_invE:
  assumes "List_inv l"
  obtains as where "wf_list l as"
  using assms by (auto simp: List_inv_def)

interpretation llist: sequence List_inv List_contents List_new List_count List_pushBack List_pushFront
  List_popFront List_popBack List_clear
proof
  show "List_inv List_new" "List_contents List_new = []"
    using wf_new wf_contents [OF wf_new] by (auto simp: List_inv_def)
next
  fix l :: "'a List" and v :: 'a
  assume "List_inv l"
  then obtain as where wf: "wf_list l as" by (rule List_invE)
  have nil: "List_contents l = [] \<longleftrightarrow> as = []" using length_contents [OF wf] by auto
  show "List_count l = length (List_contents l)"
    using wf length_contents [OF wf] by (simp add: List_count_def wf_list_def)
  show "\<exists>l'. List_pushBack v l = Some l' \<and> List_inv l' \<and> List_contents l' = List_contents l @ [v]"
    using pushBack_wf [OF wf, of v] unfolding List_inv_def by blast
  show "\<exists>l'. List_pushFront v l = Some l' \<and> List_inv l' \<and> List_contents l' = v # List_contents l"
    using pushFront_wf [OF wf, of v] unfolding List_inv_def by blast
  show "\<exists>l'. List_clear l = Some l' \<and> List_inv l' \<and> List_contents l' = []"
    using clear_wf [OF wf] wf_contents by (fastforce simp: List_inv_def)
  show "List_popFront l = Some (0, l) \<and> List_popBack l = Some (0, l)" if "List_contents l = []"
    using that nil wf_first [OF wf] wf_ends_None [OF wf] by (simp add: List_popFront_def List_popBack_def)
  show "\<exists>l'. List_popFront l = Some (hd (List_contents l), l') \<and> List_inv l' \<and> List_contents l' = tl (List_contents l)"
    if "List_contents l \<noteq> []"
  proof -
    from that nil obtain a vs where as: "as = a # vs" by (cases as) auto
    with unlink_first_wf [of l a vs] wf wf_first [OF wf] show ?thesis
      by (auto simp: List_popFront_def List_inv_def)
  qed
  show "\<exists>l'. List_popBack l = Some (last (List_contents l), l') \<and> List_inv l' \<and> List_contents l' = butlast (List_contents l)"
    if "List_contents l \<noteq> []"
  proof -
    from that nil obtain us a where as: "as = us @ [a]" by (cases as rule: rev_cases) auto
    with wf have "m_Last l = Some a" by (simp add: wf_list_def)
    with as unlink_last_wf [of l us a] wf show ?thesis
      by (auto simp: List_popBack_def List_inv_def)
  qed
qed

section \<open>Properties of the list class\<close>

text \<open>Values pushed at the back come out at the front in the order they went in, after
  whatever the list held before, and the list is then empty again.\<close>

theorem List_fifo:
  assumes "List_inv l"
  shows "\<exists>l' l''. push_all List_pushBack vs l = Some l' \<and>
    pop_n List_popFront (List_count l + length vs) l' = Some (List_contents l @ vs, l'') \<and>
    List_inv l'' \<and> List_contents l'' = []"
  by (rule llist.fifo [OF assms])

theorem List_fifo_witness:
  "\<exists>l' l''. push_all List_pushBack [3, 1, 2] (List_new :: int List) = Some l' \<and>
    pop_n List_popFront (List_count (List_new :: int List) + length [3::int, 1, 2]) l' =
      Some (List_contents (List_new :: int List) @ [3, 1, 2], l'') \<and>
    List_inv l'' \<and> List_contents l'' = []"
  using List_fifo [OF llist.empty(1), of "[3, 1, 2]"] .

lemma advance_dls:
  "dls h p prev (us @ a # vs) q \<Longrightarrow> Iterator_advance h (length us) p = Some (Some a)"
  by (induction us arbitrary: p prev) (auto simp: Iterator_next_def split: option.splits)

lemma advance_Suc:
  "Iterator_advance h (Suc i) p = do { it \<leftarrow> Iterator_advance h i p; Iterator_next h it }"
proof (induction i arbitrary: p)
  case (Suc i)
  have "Iterator_advance h (Suc (Suc i)) p = do { it \<leftarrow> Iterator_next h p; Iterator_advance h (Suc i) it }"
    by (rule Iterator_advance.simps)
  also have "\<dots> = do { it \<leftarrow> Iterator_next h p; it' \<leftarrow> Iterator_advance h i it; Iterator_next h it' }"
    by (simp only: Suc.IH)
  also have "\<dots> = do { it \<leftarrow> Iterator_advance h (Suc i) p; Iterator_next h it }"
    by (cases "Iterator_next h p") simp_all
  finally show ?case .
next
  case 0
  show ?case by (cases "Iterator_next h p") simp_all
qed

lemma List_at_wf:
  assumes wf: "wf_list l (us @ a # vs)"
  shows "List_at l (length us) = Some (Some a)" "List_at l (Suc (length us)) = Some (first_ptr vs)"
proof -
  have seg: "dls (nodes l) (m_First l) None (us @ a # vs) None" using wf by (simp add: wf_list_def)
  show at: "List_at l (length us) = Some (Some a)"
    using advance_dls [OF seg] by (simp add: List_at_def)
  obtain n where "nodes l a = Some n" "m_Next n = first_ptr vs"
    using dls_split_node [OF seg] by blast
  with at show "List_at l (Suc (length us)) = Some (first_ptr vs)"
    by (simp only: List_at_def advance_Suc) (simp add: Iterator_next_def)
qed

lemma wf_split_at:
  assumes "wf_list l as" "i < length (List_contents l)"
  shows "\<exists>us a vs. as = us @ a # vs \<and> length us = i"
  using assms length_contents [OF assms(1)] id_take_nth_drop [of i as] by (metis length_take min.absorb4)

lemma List_at_end: "List_inv l \<Longrightarrow> List_at l (length (List_contents l)) = Some None"
proof -
  assume "List_inv l"
  then obtain as where wf: "wf_list l as" by (rule List_invE)
  show ?thesis
  proof (cases as rule: rev_cases)
    case Nil
    with wf wf_first [OF wf] wf_contents [OF wf] show ?thesis by (simp add: List_at_def)
  next
    case (snoc us a)
    with wf List_at_wf(2) [of l us a "[]"] length_contents [OF wf] show ?thesis by simp
  qed
qed

text \<open>The iterator at position \<open>i\<close>: the node it points to, its value, and erasing it.\<close>

lemma List_erase_at:
  assumes "List_inv l" "i < length (List_contents l)"
  shows "\<exists>a n it l'. List_at l i = Some (Some a) \<and> nodes l a = Some n \<and> node_value n = List_contents l ! i \<and>
    List_at l (Suc i) = Some it \<and> m_Next n = it \<and> List_erase a l = Some (it, l') \<and> List_inv l' \<and>
    List_contents l' = take i (List_contents l) @ drop (Suc i) (List_contents l)"
proof -
  from assms(1) obtain as where wf: "wf_list l as" by (rule List_invE)
  obtain us a vs where as: "as = us @ a # vs" "length us = i"
    using wf_split_at [OF wf assms(2)] by blast
  obtain n where n: "nodes l a = Some n" "m_Next n = first_ptr vs"
    using dls_split_node [of "nodes l" "m_First l" us a vs] wf as by (auto simp: wf_list_def)
  have "take i (List_contents l) @ drop (Suc i) (List_contents l) = values_of (nodes l) (us @ vs)"
    using wf_contents [OF wf] as by (simp add: values_of_def)
  moreover have "List_contents l ! i = node_value n"
    using wf_contents [OF wf] as n by (auto simp: values_of_def nth_append)
  ultimately show ?thesis
    using erase_wf [of l us a vs] List_at_wf [of l us a vs] wf as n by (fastforce simp: List_inv_def)
qed

lemma List_new_inv [simp]: "List_inv List_new" "List_contents List_new = []"
  using wf_new wf_contents [OF wf_new] by (auto simp: List_inv_def)

lemma List_pushBack_inv:
  "List_inv l \<Longrightarrow> \<exists>l'. List_pushBack v l = Some l' \<and> List_inv l' \<and> List_contents l' = List_contents l @ [v]"
  using pushBack_wf [of l _ v] unfolding List_inv_def by blast

lemma List_clear_inv: "List_inv l \<Longrightarrow> \<exists>l'. List_clear l = Some l' \<and> List_inv l' \<and> List_contents l' = []"
  using clear_wf wf_contents by (fastforce simp: List_inv_def)

lemma List_iterate_inv: "List_inv l \<Longrightarrow> List_iterate (nodes l) (m_First l) = Some (List_contents l)"
  using iterate_dls wf_contents by (fastforce simp: List_inv_def wf_list_def)

text \<open>Erasing through the iterator at position \<open>i\<close> removes exactly the \<open>i\<close>-th value, returns
  the iterator that stood at position \<open>i + 1\<close>, and leaves a well-formed list in which no node leaks.\<close>

theorem List_erase_correct:
  assumes "List_inv l" "i < length (List_contents l)"
  shows "\<exists>a it l'. List_at l i = Some (Some a) \<and> List_at l (Suc i) = Some it \<and>
    List_erase a l = Some (it, l') \<and> List_inv l' \<and>
    List_contents l' = take i (List_contents l) @ drop (Suc i) (List_contents l)"
  using List_erase_at [OF assms] by blast

theorem List_erase_correct_witness:
  "\<exists>l. push_all List_pushBack [5, 6, 7] List_new = Some l \<and>
     (\<exists>a it l'. List_at l 1 = Some (Some a) \<and> List_at l (Suc 1) = Some it \<and>
       List_erase a l = Some (it, l') \<and> List_inv l' \<and> List_contents l' = [5::int, 7])"
proof -
  obtain l where l: "push_all List_pushBack [5::int, 6, 7] List_new = Some l" "List_inv l"
    "List_contents l = [5, 6, 7]"
    using llist.push_all_back [OF llist.empty(1), of "[5::int, 6, 7]"] by (auto simp: llist.empty(2))
  with List_erase_correct [of l 1] show ?thesis by auto
qed

text \<open>Assignment makes the target an independent list with the values of the source,
  whatever the target held.\<close>

theorem List_assign_correct:
  fixes x l :: "'a::zero List"
  assumes "List_inv x" "List_inv l"
  shows "\<exists>l'. List_assign x l = Some l' \<and> List_inv l' \<and> List_contents l' = List_contents x"
proof -
  obtain as bs where wf: "wf_list x as" "wf_list l bs" using assms by (auto simp: List_inv_def)
  have iter: "List_iterate (nodes x) (m_First x) = Some (List_contents x)"
    using iterate_dls [of "nodes x" "m_First x" None as] wf_contents [OF wf(1)] wf(1)
    by (simp add: wf_list_def)
  have "\<exists>l1. (if m_Count l \<noteq> 0 then List_clear l else Some l) = Some l1 \<and> List_inv l1 \<and> List_contents l1 = []"
    using llist.clear [OF assms(2)] llist.count [OF assms(2)] assms(2) by (auto simp: List_count_def)
  then obtain l1 where "(if m_Count l \<noteq> 0 then List_clear l else Some l) = Some l1" "List_inv l1" "List_contents l1 = []"
    by blast
  with iter llist.push_all_back [of l1 "List_contents x"] show ?thesis
    by (simp add: List_assign_def)
qed

theorem List_assign_correct_witness:
  "\<exists>l'. List_assign (List_new :: int List) List_new = Some l' \<and> List_inv l' \<and>
    List_contents l' = List_contents (List_new :: int List)"
  using List_assign_correct [OF llist.empty(1) llist.empty(1)] .

lemma wf_ends_allocated:
  assumes "wf_list l bs" "nodes l a = None"
  shows "m_First l \<noteq> Some a \<and> m_Last l \<noteq> Some a"
proof -
  have "a \<notin> set bs" using assms by (auto simp: wf_list_def)
  then show ?thesis
    using assms(1) wf_first [OF assms(1)] hd_in_set [of bs] last_in_set [of bs]
    by (auto simp: wf_list_def last_ptr_def)
qed

text \<open>Erasing through a reverse iterator keeps the list well-formed only when the node is
  neither the first nor the last one, or is the only one, and then removes exactly that value.
  At either end of a longer list the end pointer that should move is left on the deleted node.\<close>

theorem List_erase_reverse_ok_iff:
  assumes "wf_list l (us @ a # vs)" "List_erase_reverse a l = Some (it, l')"
  shows "(List_inv l' \<longleftrightarrow> (us = [] \<longleftrightarrow> vs = [])) \<and>
    (List_inv l' \<longrightarrow> List_contents l' =
       take (length us) (List_contents l) @ drop (Suc (length us)) (List_contents l))"
proof -
  let ?h = "nodes l"
  have seg: "dls ?h (m_First l) None (us @ a # vs) None" and dist: "distinct (us @ a # vs)"
    using assms(1) by (auto simp: wf_list_def)
  obtain n where n: "?h a = Some n" "m_Previous n = last_ptr None us" "m_Next n = first_ptr vs"
    using dls_split_node [OF seg] by blast
  have del: "nodes l' a = None"
    using assms(2) n by (auto simp: List_erase_reverse_def split: bind_splits if_splits)
  have ends: "m_First l' = (if vs = [] then last_ptr None us else m_First l)"
    "m_Last l' = (if us = [] then first_ptr vs else m_Last l)"
    using assms(2) n by (auto simp: List_erase_reverse_def first_ptr_def last_ptr_def split: bind_splits if_splits)
  have none: "List_inv l' \<Longrightarrow> m_First l' \<noteq> Some a \<and> m_Last l' \<noteq> Some a"
    using del by (elim List_invE) (rule wf_ends_allocated)
  have first: "m_First l = Some (hd (us @ [a]))" "m_Last l = Some (last (a # vs))"
    using wf_first [OF assms(1)] assms(1) by (cases us; auto simp: wf_list_def last_ptr_def)+
  show ?thesis
  proof (cases "us = [] \<longleftrightarrow> vs = []")
    case True
    then have same: "List_erase_reverse a l = map_option (\<lambda>(_, l'). (last_ptr None us, l')) (List_erase a l)"
      using n dist dls_dom [OF seg]
      by (cases us rule: rev_cases; cases vs)
        (auto simp: List_erase_reverse_def List_erase_def set_next_at set_previous_at fun_upd_twist)
    with erase_wf [OF assms(1)] assms(2) True wf_contents [OF assms(1)] show ?thesis
      by (auto simp: List_inv_def values_of_def)
  next
    case False
    with ends first none show ?thesis by auto
  qed
qed

theorem List_erase_reverse_ok_iff_witness:
  "\<exists>l it l'. push_all List_pushBack [5::int, 6] List_new = Some l \<and>
    List_erase_reverse 1 l = Some (it, l') \<and> \<not> List_inv l'"
proof -
  obtain l l1 where l1: "List_pushBack (5::int) List_new = Some l1" "wf_list l1 [0]"
    and l: "List_pushBack 6 l1 = Some l" "wf_list l [0, fresh l1]"
    using pushBack_wf [OF wf_new, of "5::int"] pushBack_wf [of _ "[0]" "6::int"]
    by (fastforce simp: List_new_def)
  have "fresh l1 = 1" using l1(1) by (auto simp: List_pushBack_def List_new_def)
  then have wf: "wf_list l ([0] @ 1 # [])" using l(2) by simp
  obtain n where n: "nodes l 1 = Some n" "m_Previous n = Some 0" "m_Next n = None"
    using dls_split_node [of "nodes l" "m_First l" "[0]" 1 "[]"] wf by (auto simp: wf_list_def)
  obtain m where "nodes l 0 = Some m" using wf by (auto simp: wf_list_def split: option.splits)
  with n obtain it l' where "List_erase_reverse 1 l = Some (it, l')"
    by (simp add: List_erase_reverse_def set_next_at)
  moreover from List_erase_reverse_ok_iff [OF wf this] have "\<not> List_inv l'" by simp
  ultimately show ?thesis using l1(1) l(1) by auto
qed

end
