(* ===== verification/Range_List.thy ===== *)
theory Range_List
  imports Linked_List
begin

text \<open>
  \<^verbatim>\<open>RangeList<T>\<close> (\<^verbatim>\<open>system/include/utilities/RangeList.h\<close>), the free-list allocator behind the
  kernel's physical and virtual address allocators.  The element type \<open>T\<close> is any
  unsigned machine integer, so the model is polymorphic in the word width.  The list of
  owned \<open>Range*\<close> objects is the list of their values in list order: every object is
  reachable from one list node only, and the code deletes it together with the node.

  \<open>erase\<close> through a forward iterator removes the value (\<open>List_erase_correct\<close>); through a
  reverse iterator it does so only away from the ends of the list
  (\<open>List_erase_reverse_ok_iff\<close>), and otherwise leaves a dangling end pointer.  The reverse
  allocation loop therefore returns its list as an option, \<open>None\<close> for the damaged list.

  The abstract specification is a set of natural numbers, the addresses that are free.
  \<open>free\<close>, \<open>allocate\<close> and \<open>allocateSpecific\<close> are proved to be union and difference on
  that set, and to keep the list free of overlapping and of adjacent ranges.
\<close>

section \<open>The class\<close>

record 't range =
  address :: 't
  length_of :: 't

record 't RangeList =
  m_List :: "'t range list"
  m_bReverse :: bool

abbreviation Range :: "'a::len word \<Rightarrow> 'a word \<Rightarrow> 'a word range" where
  "Range a l \<equiv> \<lparr>address = a, length_of = l\<rparr>"

text \<open>Constructors: with an order only, and with a preexisting range.\<close>

definition RangeList_empty :: "bool \<Rightarrow> 'a::len word RangeList" where
  "RangeList_empty bReverse = \<lparr>m_List = [], m_bReverse = bReverse\<rparr>"

definition RangeList_init :: "'a::len word \<Rightarrow> 'a word \<Rightarrow> bool \<Rightarrow> 'a word RangeList" where
  "RangeList_init a l bReverse = \<lparr>m_List = [Range a l], m_bReverse = bReverse\<rparr>"

text \<open>The copy constructor walks the other list and pushes a copy of every range.\<close>

fun copy_ranges :: "'a::len word range list \<Rightarrow> 'a word range list \<Rightarrow> 'a word range list" where
  "copy_ranges acc [] = acc"
| "copy_ranges acc (r # rs) = copy_ranges (acc @ [Range (address r) (length_of r)]) rs"

definition RangeList_copy :: "'a::len word RangeList \<Rightarrow> 'a word RangeList" where
  "RangeList_copy other =
     \<lparr>m_List = copy_ranges [] (m_List other), m_bReverse = m_bReverse other\<rparr>"

definition RangeList_size :: "'a::len word RangeList \<Rightarrow> nat" where
  "RangeList_size rl = length (m_List rl)"

definition RangeList_getRange :: "'a::len word RangeList \<Rightarrow> nat \<Rightarrow> 'a word range" where
  "RangeList_getRange rl index =
     (if RangeList_size rl \<le> index then Range 0 0 else m_List rl ! index)"

definition RangeList_clear :: "'a::len word RangeList \<Rightarrow> 'a word RangeList" where
  "RangeList_clear rl = rl\<lparr>m_List := []\<rparr>"

text \<open>
  \<open>free\<close>: the first loop absorbs the range that ends where the freed one starts, the second
  loop the range that starts where the (grown) freed one ends; the result goes to the back.
\<close>

definition absorb_preceding ::
  "'a::len word range \<Rightarrow> 'a word range list \<Rightarrow> 'a word range \<times> 'a word range list" where
  "absorb_preceding f rs =
     (case take_first (\<lambda>r. address r + length_of r = address f) rs of
        None \<Rightarrow> (f, rs)
      | Some (r, rs') \<Rightarrow> (Range (address r) (length_of f + length_of r), rs'))"

definition absorb_following ::
  "'a::len word range \<Rightarrow> 'a word range list \<Rightarrow> 'a word range \<times> 'a word range list" where
  "absorb_following f rs =
     (case take_first (\<lambda>r. address r = address f + length_of f) rs of
        None \<Rightarrow> (f, rs)
      | Some (r, rs') \<Rightarrow> (Range (address f) (length_of f + length_of r), rs'))"

definition RangeList_free ::
  "'a::len word RangeList \<Rightarrow> 'a word \<Rightarrow> 'a word \<Rightarrow> 'a word RangeList" where
  "RangeList_free rl a l =
     (let (f, xs) = absorb_preceding (Range a l) (m_List rl);
          (f', xs') = absorb_following f xs
      in rl\<lparr>m_List := xs' @ [f']\<rparr>)"

text \<open>The forward loop of \<open>allocate\<close>: first fit, cut from the low end.\<close>

fun allocate_loop :: "'a::len word \<Rightarrow> 'a word range list \<Rightarrow> ('a word \<times> 'a word range list) option" where
  "allocate_loop l [] = None"
| "allocate_loop l (r # rs) =
     (if l \<le> length_of r
      then Some (address r,
             (let r' = Range (address r + l) (length_of r - l)
              in if length_of r' = 0 then rs else r' # rs))
      else map_option (map_prod id ((#) r)) (allocate_loop l rs))"

text \<open>The reverse loop of \<open>allocate\<close>: first fit from the back, cut from the high end.  The list
  handed over is the list seen through the reverse iterator, and \<open>passed\<close> tells whether the
  iterator has moved already.  A range that is used up is erased through the reverse iterator,
  which is safe for the only range or for one between two others.\<close>

fun allocate_reverse_loop ::
  "bool \<Rightarrow> 'a::len word \<Rightarrow> 'a word range list \<Rightarrow> ('a word \<times> 'a word range list option) option" where
  "allocate_reverse_loop passed l [] = None"
| "allocate_reverse_loop passed l (r # rs) =
     (if l \<le> length_of r
      then Some (address r + (length_of r - l),
             (let r' = Range (address r) (length_of r - l)
              in if length_of r' = 0 then (if passed \<longleftrightarrow> rs \<noteq> [] then Some rs else None)
                 else Some (r' # rs)))
      else map_option (map_prod id (map_option ((#) r))) (allocate_reverse_loop True l rs))"

definition RangeList_allocate ::
  "'a::len word RangeList \<Rightarrow> 'a word \<Rightarrow> ('a word \<times> 'a word RangeList option) option" where
  "RangeList_allocate rl l =
     (if m_bReverse rl
      then (case allocate_reverse_loop False l (rev (m_List rl)) of
              None \<Rightarrow> None
            | Some (a, xs) \<Rightarrow> Some (a, map_option (\<lambda>xs. rl\<lparr>m_List := rev xs\<rparr>) xs))
      else (case allocate_loop l (m_List rl) of
              None \<Rightarrow> None
            | Some (a, xs) \<Rightarrow> Some (a, Some (rl\<lparr>m_List := xs\<rparr>))))"

text \<open>
  The loop of \<open>allocateSpecific\<close>: the four cases of the code in order.  The last one
  pushes the upper remainder to the back of the list while the iterator still points at the
  lower one, so the loop returns the remainder to push beside the updated list.
\<close>

fun allocateSpecific_loop ::
  "'a::len word \<Rightarrow> 'a word \<Rightarrow> 'a word range list \<Rightarrow> ('a word range list \<times> 'a word range list) option" where
  "allocateSpecific_loop a l [] = None"
| "allocateSpecific_loop a l (r # rs) =
     (if address r = a \<and> length_of r = l then Some (rs, [])
      else if address r = a \<and> l < length_of r
        then Some (Range (address r + l) (length_of r - l) # rs, [])
      else if address r < a \<and> address r + length_of r = a + l
        then Some (Range (address r) (length_of r - l) # rs, [])
      else if address r < a \<and> a + l < address r + length_of r
        then Some (Range (address r) (a - address r) # rs,
                   [Range (a + l) (address r + length_of r - a - l)])
      else map_option (map_prod ((#) r) id) (allocateSpecific_loop a l rs))"

definition RangeList_allocateSpecific ::
  "'a::len word RangeList \<Rightarrow> 'a word \<Rightarrow> 'a word \<Rightarrow> bool \<times> 'a word RangeList" where
  "RangeList_allocateSpecific rl a l =
     (case allocateSpecific_loop a l (m_List rl) of
        None \<Rightarrow> (False, rl)
      | Some (xs, pushed) \<Rightarrow> (True, rl\<lparr>m_List := xs @ pushed\<rparr>))"

section \<open>Abstract view and invariant\<close>

definition rstart :: "'a::len word range \<Rightarrow> nat" where
  "rstart r = unat (address r)"

definition rend :: "'a::len word range \<Rightarrow> nat" where
  "rend r = unat (address r) + unat (length_of r)"

definition range_set :: "'a::len word range \<Rightarrow> nat set" where
  "range_set r = {rstart r..<rend r}"

definition free_set :: "'a::len word range list \<Rightarrow> nat set" where
  "free_set rs = (\<Union>r \<in> set rs. range_set r)"

text \<open>A range is proper when it is not empty and its end is a representable address.\<close>

definition range_ok :: "'a::len word range \<Rightarrow> bool" where
  "range_ok r \<longleftrightarrow> 0 < unat (length_of r) \<and> rend r < 2 ^ LENGTH('a)"

text \<open>Two ranges are apart when they neither overlap nor touch.\<close>

definition apart :: "'a::len word range \<Rightarrow> 'a word range \<Rightarrow> bool" where
  "apart r s \<longleftrightarrow> rend r < rstart s \<or> rend s < rstart r"

definition ranges_inv :: "'a::len word range list \<Rightarrow> bool" where
  "ranges_inv rs \<longleftrightarrow> (\<forall>r \<in> set rs. range_ok r) \<and> sorted_wrt apart rs"

definition RangeList_inv :: "'a::len word RangeList \<Rightarrow> bool" where
  "RangeList_inv rl \<longleftrightarrow> ranges_inv (m_List rl)"

abbreviation free_addresses :: "'a::len word RangeList \<Rightarrow> nat set" where
  "free_addresses rl \<equiv> free_set (m_List rl)"

abbreviation span :: "'a::len word \<Rightarrow> 'a word \<Rightarrow> nat set" where
  "span a l \<equiv> {unat a..<unat a + unat l}"

lemmas range_defs = rstart_def rend_def range_set_def range_ok_def apart_def

section \<open>Library lemmas\<close>

lemma apart_sym: "apart r s \<Longrightarrow> apart s r"
  by (auto simp: apart_def)

lemma free_set_simps [simp]:
  "free_set [] = {}"
  "free_set (r # rs) = range_set r \<union> free_set rs"
  "free_set (xs @ ys) = free_set xs \<union> free_set ys"
  "free_set (rev xs) = free_set xs"
  by (auto simp: free_set_def)

lemma ranges_inv_Nil [simp]: "ranges_inv []"
  by (simp add: ranges_inv_def)

lemma ranges_inv_mid:
  "ranges_inv (us @ r # vs) \<longleftrightarrow>
     ranges_inv (us @ vs) \<and> range_ok r \<and> (\<forall>s \<in> set us \<union> set vs. apart s r)"
  unfolding ranges_inv_def using sorted_wrt_mid [of apart us r vs, OF apart_sym] by auto

lemma ranges_inv_Cons:
  "ranges_inv (r # rs) \<longleftrightarrow> ranges_inv rs \<and> range_ok r \<and> (\<forall>s \<in> set rs. apart s r)"
  using ranges_inv_mid [of "[]" r rs] by simp

lemma ranges_inv_snoc:
  "ranges_inv (rs @ [r]) \<longleftrightarrow> ranges_inv rs \<and> range_ok r \<and> (\<forall>s \<in> set rs. apart s r)"
  using ranges_inv_mid [of rs r "[]"] by simp

lemma ranges_inv_rev [simp]: "ranges_inv (rev rs) = ranges_inv rs"
  unfolding ranges_inv_def using sorted_wrt_rev_sym [of apart rs, OF apart_sym] by auto

lemma apart_disjoint: "apart r s \<Longrightarrow> range_set r \<inter> range_set s = {}"
  by (auto simp: range_defs)

lemma apart_free_set: "\<forall>s \<in> set rs. apart s r \<Longrightarrow> free_set rs \<inter> range_set r = {}"
  using apart_disjoint by (fastforce simp: free_set_def)

text \<open>Sub-ranges stay apart from what the whole range was apart from.\<close>

lemma apart_sub:
  assumes "apart s r" "rstart r \<le> rstart r'" "rend r' \<le> rend r"
  shows "apart s r'"
  using assms by (auto simp: apart_def)

lemma apart_sub_all:
  assumes "\<forall>s \<in> set rs. apart s r" "rstart r \<le> rstart r'" "rend r' \<le> rend r"
  shows "\<forall>s \<in> set rs. apart s r'"
  using assms apart_sub by blast


lemma ranges_inv_replace:
  assumes "ranges_inv (us @ r # vs)" "range_ok r'" "rstart r \<le> rstart r'" "rend r' \<le> rend r"
  shows "ranges_inv (us @ r' # vs)"
  using assms apart_sub by (fastforce simp: ranges_inv_mid)

lemma range_ok_end:
  fixes r :: "'a::len word range"
  assumes "range_ok r"
  shows "unat (address r + length_of r) = rend r"
  using assms by (auto simp: range_ok_def rend_def intro!: unat_add_no_wrap)

section \<open>Freeing\<close>

text \<open>Where the freed block \<open>f\<close> stands with respect to the list: proper, and disjoint
  from every free range.\<close>

definition freeable :: "'a::len word range \<Rightarrow> 'a word range list \<Rightarrow> bool" where
  "freeable f rs \<longleftrightarrow> ranges_inv rs \<and> range_ok f \<and> (\<forall>s \<in> set rs. rend s \<le> rstart f \<or> rend f \<le> rstart s)"

lemma ranges_inv_ok: "ranges_inv rs \<Longrightarrow> s \<in> set rs \<Longrightarrow> range_ok s"
  by (simp add: ranges_inv_def)

lemma disjoint_intervals:
  fixes a b c d :: nat
  assumes "{a..<b} \<inter> {c..<d} = {}" "a < b" "c < d"
  shows "b \<le> c \<or> d \<le> a"
proof (rule ccontr)
  assume "\<not> (b \<le> c \<or> d \<le> a)"
  then have "max a c \<in> {a..<b} \<inter> {c..<d}" using assms(2,3) by auto
  with assms(1) show False by blast
qed

lemma freeableI:
  assumes "ranges_inv rs" "range_ok f" "range_set f \<inter> free_set rs = {}"
  shows "freeable f rs"
  unfolding freeable_def
proof (intro conjI ballI)
  fix s assume s: "s \<in> set rs"
  with assms(3) have "range_set s \<inter> range_set f = {}" by (auto simp: free_set_def)
  then show "rend s \<le> rstart f \<or> rend f \<le> rstart s"
    using disjoint_intervals [of "rstart s" "rend s" "rstart f" "rend f"]
      ranges_inv_ok [OF assms(1) s] assms(2)
    by (auto simp: range_defs)
qed (use assms in auto)

lemma range_ok_less: "range_ok r \<Longrightarrow> rstart r < rend r"
  by (simp add: range_defs)

lemma ranges_inv_less: "ranges_inv rs \<Longrightarrow> s \<in> set rs \<Longrightarrow> rstart s < rend s"
  by (rule range_ok_less, rule ranges_inv_ok)

text \<open>Joining two touching ranges.\<close>

lemma range_join:
  fixes r f :: "'a::len word range"
  assumes "range_ok r" "range_ok f" "rend r = rstart f"
  defines "j \<equiv> Range (address r) (length_of f + length_of r)"
  shows "rstart j = rstart r" "rend j = rend f" "range_ok j"
    "range_set j = range_set r \<union> range_set f"
proof -
  have "unat (length_of f + length_of r) = unat (length_of f) + unat (length_of r)"
    using assms by (intro unat_add_no_wrap) (auto simp: range_defs)
  then show bounds: "rstart j = rstart r" "rend j = rend f"
    using assms(3) by (auto simp: range_defs j_def)
  then show "range_ok j" "range_set j = range_set r \<union> range_set f"
    using assms(1-3) range_ok_less [OF assms(1)] range_ok_less [OF assms(2)]
    by (auto simp: range_ok_def range_set_def rend_def rstart_def)
qed

lemma freeable_mid:
  "freeable f (us @ r # vs) \<longleftrightarrow>
     freeable f (us @ vs) \<and> range_ok r \<and> (\<forall>s \<in> set us \<union> set vs. apart s r)
       \<and> (rend r \<le> rstart f \<or> rend f \<le> rstart r)"
  by (auto simp: freeable_def ranges_inv_mid)

lemma absorb_preceding_spec:
  assumes fr: "freeable f rs" and ab: "absorb_preceding f rs = (f', rs')"
  shows "freeable f' rs' \<and> (\<forall>s \<in> set rs'. rend s \<noteq> rstart f')
    \<and> range_set f' \<union> free_set rs' = range_set f \<union> free_set rs"
proof (cases "take_first (\<lambda>r. address r + length_of r = address f) rs")
  case None
  then have "\<forall>s \<in> set rs. address s + length_of s \<noteq> address f"
    by (simp add: take_first_None)
  then have "\<forall>s \<in> set rs. rend s \<noteq> rstart f"
    using fr range_ok_end by (metis freeable_def ranges_inv_ok rstart_def word_eq_unat)
  with None assms show ?thesis by (simp add: absorb_preceding_def)
next
  case (Some p)
  then obtain r xs where p: "take_first (\<lambda>r. address r + length_of r = address f) rs = Some (r, xs)"
    by (cases p) auto
  then obtain us vs where rs: "rs = us @ r # vs" "xs = us @ vs"
    and eq: "address r + length_of r = address f"
    by (elim take_first_SomeE)
  have f': "f' = Range (address r) (length_of f + length_of r)" "rs' = us @ vs"
    using p ab rs by (auto simp: absorb_preceding_def)
  have r: "freeable f (us @ vs)" "range_ok r" "\<forall>s \<in> set us \<union> set vs. apart s r" "range_ok f"
    using fr by (simp_all add: rs freeable_mid, simp add: freeable_def)
  have "rend r = rstart f"
    using range_ok_end [OF r(2)] eq by (simp add: rstart_def)
  note join = range_join [OF r(2,4) this, folded f'(1)] this
  have "(rend s \<le> rstart f' \<or> rend f' \<le> rstart s) \<and> rend s \<noteq> rstart f'"
    if s: "s \<in> set (us @ vs)" for s
  proof -
    have "rstart s < rend s" "apart s r" "rend s \<le> rstart f \<or> rend f \<le> rstart s"
      using s r ranges_inv_less [of "us @ vs" s] by (auto simp: freeable_def)
    with join range_ok_less [OF r(2)] range_ok_less [OF r(4)] show ?thesis
      by (auto simp: apart_def)
  qed
  with r(1) join show ?thesis
    by (auto simp: freeable_def f'(2) rs)
qed

lemma absorb_following_spec:
  assumes fr: "freeable f rs" and left: "\<forall>s \<in> set rs. rend s \<noteq> rstart f"
    and ab: "absorb_following f rs = (f', rs')"
  shows "ranges_inv (rs' @ [f']) \<and> range_set f' \<union> free_set rs' = range_set f \<union> free_set rs"
proof (cases "take_first (\<lambda>r. address r = address f + length_of f) rs")
  case None
  have ok: "range_ok f" "ranges_inv rs" using fr by (auto simp: freeable_def)
  from None have "\<forall>s \<in> set rs. address s \<noteq> address f + length_of f"
    by (simp add: take_first_None)
  then have "\<forall>s \<in> set rs. rstart s \<noteq> rend f"
    using range_ok_end [OF ok(1)] by (metis rstart_def word_eq_unat)
  with left fr have "\<forall>s \<in> set rs. apart s f"
    by (fastforce simp: freeable_def apart_def)
  with None ab ok show ?thesis by (simp add: absorb_following_def ranges_inv_snoc)
next
  case (Some p)
  then obtain r xs where p: "take_first (\<lambda>r. address r = address f + length_of f) rs = Some (r, xs)"
    by (cases p) auto
  then obtain us vs where rs: "rs = us @ r # vs" "xs = us @ vs"
    and eq: "address r = address f + length_of f"
    by (elim take_first_SomeE)
  have f': "f' = Range (address f) (length_of r + length_of f)" "rs' = us @ vs"
    using p ab rs by (auto simp: absorb_following_def add.commute)
  have r: "freeable f (us @ vs)" "range_ok r" "\<forall>s \<in> set us \<union> set vs. apart s r" "range_ok f"
    using fr by (simp_all add: rs freeable_mid, simp add: freeable_def)
  have "rend f = rstart r"
    using range_ok_end [OF r(4)] eq by (simp add: rstart_def)
  note join = range_join [OF r(4,2) this, folded f'(1)] this
  have "apart s f'" if s: "s \<in> set (us @ vs)" for s
  proof -
    have "rstart s < rend s" "apart s r" "rend s \<le> rstart f \<or> rend f \<le> rstart s" "rend s \<noteq> rstart f"
      using s r left ranges_inv_less [of "us @ vs" s] by (auto simp: freeable_def rs)
    with join range_ok_less [OF r(2)] range_ok_less [OF r(4)] show ?thesis
      by (auto simp: apart_def)
  qed
  with r(1) join ranges_inv_snoc [of "us @ vs" f'] show ?thesis
    by (auto simp: freeable_def f'(2) rs)
qed

lemma free_spec:
  fixes a l :: "'a::len word"
  assumes "RangeList_inv rl" "l \<noteq> 0" "unat a + unat l < 2 ^ LENGTH('a)"
    and "span a l \<inter> free_addresses rl = {}"
  shows "RangeList_inv (RangeList_free rl a l) \<and>
    free_addresses (RangeList_free rl a l) = free_addresses rl \<union> span a l"
proof -
  obtain f xs where pre: "absorb_preceding (Range a l) (m_List rl) = (f, xs)" by fastforce
  obtain f' xs' where fol: "absorb_following f xs = (f', xs')" by fastforce
  have "freeable (Range a l) (m_List rl)"
    using assms by (intro freeableI) (auto simp: RangeList_inv_def range_defs unat_gt_0)
  note p = absorb_preceding_spec [OF this pre]
  then have q: "ranges_inv (xs' @ [f']) \<and> range_set f' \<union> free_set xs' = range_set f \<union> free_set xs"
    using absorb_following_spec [OF _ _ fol] by blast
  have "m_List (RangeList_free rl a l) = xs' @ [f']"
    by (simp add: RangeList_free_def pre fol)
  with p q show ?thesis
    by (auto simp: RangeList_inv_def range_set_def rstart_def rend_def)
qed

text \<open>C1: freeing a block that is proper, does not wrap around and is not free already makes
  exactly its addresses free, and keeps the list without overlapping or adjacent ranges.\<close>

theorem RangeList_free_correct:
  fixes a l :: "'a::len word"
  assumes "RangeList_inv rl" "l \<noteq> 0" "unat a + unat l < 2 ^ LENGTH('a)"
    and "span a l \<inter> free_addresses rl = {}"
  shows "RangeList_inv (RangeList_free rl a l) \<and>
    free_addresses (RangeList_free rl a l) = free_addresses rl \<union> span a l"
  by (rule free_spec [OF assms])

theorem RangeList_free_correct_witness:
  "RangeList_inv (RangeList_free (RangeList_init (0x1000 :: u32) 0x1000 False) 0x2000 0x800) \<and>
   free_addresses (RangeList_free (RangeList_init (0x1000 :: u32) 0x1000 False) 0x2000 0x800) =
     free_addresses (RangeList_init (0x1000 :: u32) 0x1000 False) \<union> span (0x2000 :: u32) 0x800"
  by (rule RangeList_free_correct)
     (auto simp: RangeList_init_def RangeList_inv_def ranges_inv_def range_defs)

section \<open>First-fit allocation\<close>

text \<open>Both loops pick the first range that is long enough and replace it by what is left.\<close>

lemma allocate_loop_Some:
  "allocate_loop l rs = Some (a, rs') \<Longrightarrow>
     \<exists>us r vs. rs = us @ r # vs \<and> (\<forall>u \<in> set us. \<not> l \<le> length_of u) \<and> l \<le> length_of r \<and> a = address r
       \<and> rs' = us @ (if length_of r - l = 0 then [] else [Range (address r + l) (length_of r - l)]) @ vs"
proof (induction rs arbitrary: rs')
  case (Cons x xs)
  show ?case
  proof (cases "l \<le> length_of x")
    case True
    with Cons.prems show ?thesis
      by (intro exI [of _ "[]"] exI [of _ x] exI [of _ xs]) (auto simp: Let_def)
  next
    case False
    with Cons.prems obtain ys where "allocate_loop l xs = Some (a, ys)" "rs' = x # ys" by auto
    with Cons.IH False show ?thesis
      by (metis append_Cons set_ConsD)
  qed
qed simp

lemma allocate_reverse_loop_Some:
  "allocate_reverse_loop passed l rs = Some (a, res) \<Longrightarrow>
     \<exists>us r vs. rs = us @ r # vs \<and> (\<forall>u \<in> set us. \<not> l \<le> length_of u) \<and> l \<le> length_of r
       \<and> a = address r + (length_of r - l)
       \<and> res = (if length_of r - l = 0 \<and> (passed \<or> us \<noteq> []) \<noteq> (vs \<noteq> []) then None
            else Some (us @ (if length_of r - l = 0 then [] else [Range (address r) (length_of r - l)]) @ vs))"
proof (induction rs arbitrary: passed res)
  case (Cons x xs)
  show ?case
  proof (cases "l \<le> length_of x")
    case True
    with Cons.prems show ?thesis
      by (intro exI [of _ "[]"] exI [of _ x] exI [of _ xs]) (auto simp: Let_def)
  next
    case False
    with Cons.prems obtain ys where ys: "allocate_reverse_loop True l xs = Some (a, ys)"
      "res = map_option ((#) x) ys" by auto
    from Cons.IH [OF ys(1)] obtain us r vs where d: "xs = us @ r # vs" "\<forall>u \<in> set us. \<not> l \<le> length_of u"
      "l \<le> length_of r" "a = address r + (length_of r - l)"
      "ys = (if length_of r - l = 0 \<and> vs = [] then None
            else Some (us @ (if length_of r - l = 0 then [] else [Range (address r) (length_of r - l)]) @ vs))"
      by auto
    show ?thesis
      by (rule exI [of _ "x # us"], rule exI [of _ r], rule exI [of _ vs]) (use False d ys(2) in auto)
  qed
qed simp

lemma allocate_loop_None:
  "allocate_loop l rs = None \<longleftrightarrow> (\<forall>r \<in> set rs. length_of r < l)"
  by (induction rs) auto

lemma allocate_reverse_loop_None:
  "allocate_reverse_loop passed l rs = None \<longleftrightarrow> (\<forall>r \<in> set rs. length_of r < l)"
  by (induction rs arbitrary: passed) auto

text \<open>Cutting a block off one end of a range.\<close>

lemma cut_low:
  fixes r :: "'a::len word range"
  assumes "range_ok r" "l \<le> length_of r"
  defines "r' \<equiv> Range (address r + l) (length_of r - l)"
  shows "rstart r' = rstart r + unat l" "rend r' = rend r"
proof -
  have "unat l \<le> unat (length_of r)" using assms(2) by (simp add: word_le_nat_alt)
  then show "rstart r' = rstart r + unat l" "rend r' = rend r"
    using assms by (auto simp: range_defs word_nat unat_sub)
qed

lemma cut_high:
  fixes r :: "'a::len word range"
  assumes "range_ok r" "l \<le> length_of r"
  shows "rend (Range (address r) (length_of r - l)) = rend r - unat l"
    "unat (address r + (length_of r - l)) = rend r - unat l"
proof -
  have "unat l \<le> unat (length_of r)" using assms(2) by (simp add: word_le_nat_alt)
  then show "rend (Range (address r) (length_of r - l)) = rend r - unat l"
    "unat (address r + (length_of r - l)) = rend r - unat l"
    using assms by (auto simp: range_defs word_nat unat_sub)
qed

text \<open>Replacing one range of a well-formed list by the part \<open>r'\<close> of it that is left after \<open>B\<close>
  is cut out, unless nothing is left.\<close>

lemma cut_out:
  fixes r r' :: "'a::len word range"
  assumes inv: "ranges_inv (us @ r # vs)"
    and B: "B \<subseteq> range_set r"
    and r': "rstart r \<le> rstart r'" "rend r' \<le> rend r" "range_set r' = range_set r - B"
  shows "ranges_inv (us @ (if length_of r' = 0 then [] else [r']) @ vs) \<and> B \<subseteq> free_set (us @ r # vs)
    \<and> free_set (us @ (if length_of r' = 0 then [] else [r']) @ vs) = free_set (us @ r # vs) - B"
proof -
  have disj: "free_set (us @ vs) \<inter> range_set r = {}"
    using inv by (intro apart_free_set) (auto simp: ranges_inv_mid)
  have "range_ok r'" if "length_of r' \<noteq> 0"
    using that r'(2) inv by (auto simp: ranges_inv_mid range_ok_def unat_gt_0)
  then have "ranges_inv (us @ (if length_of r' = 0 then [] else [r']) @ vs)"
    using inv ranges_inv_replace [OF inv _ r'(1,2)] by (auto simp: ranges_inv_mid)
  moreover have "free_set (if length_of r' = 0 then [] else [r']) = range_set r - B"
    unfolding r'(3) [symmetric] by (auto simp: range_defs)
  ultimately show ?thesis using B disj by (simp add: Un_Diff) blast
qed

lemma allocate_loop_correct:
  fixes l :: "'a::len word"
  assumes inv: "ranges_inv rs" and alloc: "allocate_loop l rs = Some (a, rs')"
  shows "ranges_inv rs' \<and> span a l \<subseteq> free_set rs \<and> free_set rs' = free_set rs - span a l"
proof -
  obtain us r vs where rs: "rs = us @ r # vs" and le: "l \<le> length_of r" and a: "a = address r"
    and rs': "rs' = us @ (if length_of r - l = 0 then [] else [Range (address r + l) (length_of r - l)]) @ vs"
    using allocate_loop_Some [OF alloc] by blast
  define r' where "r' = Range (address r + l) (length_of r - l)"
  have ok: "range_ok r" using inv by (auto simp: rs intro: ranges_inv_ok)
  have le': "unat l \<le> unat (length_of r)" using le by (simp add: word_le_nat_alt)
  note cut = cut_low [OF ok le, folded r'_def]
  have "rend r = rstart r + unat (length_of r)" "unat a = rstart r"
    by (simp_all add: a rend_def rstart_def)
  then have sets: "range_set r' = range_set r - span a l" "span a l \<subseteq> range_set r"
    using cut le' by (auto simp: range_set_def)
  have rs'': "rs' = us @ (if length_of r' = 0 then [] else [r']) @ vs"
    by (simp add: rs' r'_def)
  show ?thesis
    unfolding rs rs'' using inv cut sets by (intro cut_out) (simp_all add: rs)
qed

lemma allocate_reverse_loop_correct:
  fixes l :: "'a::len word"
  assumes inv: "ranges_inv rs" and alloc: "allocate_reverse_loop False l rs = Some (a, res)"
  shows "span a l \<subseteq> free_set rs \<and>
    (case res of None \<Rightarrow> 1 < length rs \<and> (hd rs = Range a l \<or> last rs = Range a l)
     | Some rs' \<Rightarrow> ranges_inv rs' \<and> free_set rs' = free_set rs - span a l)"
proof -
  obtain us r vs where rs: "rs = us @ r # vs" and le: "l \<le> length_of r"
    and a: "a = address r + (length_of r - l)"
    and res: "res = (if length_of r - l = 0 \<and> (us \<noteq> []) \<noteq> (vs \<noteq> []) then None
       else Some (us @ (if length_of r - l = 0 then [] else [Range (address r) (length_of r - l)]) @ vs))"
    using allocate_reverse_loop_Some [OF alloc] by auto
  define r' where "r' = Range (address r) (length_of r - l)"
  have ok: "range_ok r" using inv by (auto simp: rs intro: ranges_inv_ok)
  have le': "unat l \<le> unat (length_of r)" using le by (simp add: word_le_nat_alt)
  have start: "rstart r' = rstart r" by (simp add: r'_def rstart_def)
  note cut = cut_high [OF ok le, folded r'_def a]
  have "rend r = rstart r + unat (length_of r)"
    by (simp add: rend_def rstart_def)
  then have sets: "range_set r' = range_set r - span a l" "span a l \<subseteq> range_set r"
    using cut start le' by (auto simp: range_set_def)
  have res': "res = (if length_of r - l = 0 \<and> (us \<noteq> []) \<noteq> (vs \<noteq> []) then None
      else Some (us @ (if length_of r' = 0 then [] else [r']) @ vs))"
    by (simp add: res r'_def)
  have "ranges_inv (us @ (if length_of r' = 0 then [] else [r']) @ vs) \<and> span a l \<subseteq> free_set (us @ r # vs)
    \<and> free_set (us @ (if length_of r' = 0 then [] else [r']) @ vs) = free_set (us @ r # vs) - span a l"
    using inv cut start sets by (intro cut_out) (simp_all add: rs)
  moreover have "r = Range a l" if "length_of r - l = 0" using that a by (cases r) auto
  ultimately show ?thesis
    unfolding res' rs by (auto split: if_splits)
qed

lemma allocate_spec:
  fixes rl :: "'a::len word RangeList"
  assumes "RangeList_inv rl" "RangeList_allocate rl l = Some (a, res)"
  shows "span a l \<subseteq> free_addresses rl \<and>
    (case res of
       Some rl' \<Rightarrow> RangeList_inv rl' \<and> free_addresses rl' = free_addresses rl - span a l
     | None \<Rightarrow> m_bReverse rl \<and> 1 < RangeList_size rl \<and>
         (hd (m_List rl) = Range a l \<or> last (m_List rl) = Range a l))"
proof (cases "m_bReverse rl")
  case True
  with assms obtain xs where xs: "allocate_reverse_loop False l (rev (m_List rl)) = Some (a, xs)"
    and res: "res = map_option (\<lambda>xs. rl\<lparr>m_List := rev xs\<rparr>) xs"
    by (auto simp: RangeList_allocate_def split: option.splits)
  have "ranges_inv (rev (m_List rl))" using assms(1) by (simp add: RangeList_inv_def)
  from allocate_reverse_loop_correct [OF this xs] True show ?thesis
    by (auto simp: res RangeList_inv_def RangeList_size_def hd_rev last_rev split: option.splits)
next
  case False
  with assms obtain xs where "allocate_loop l (m_List rl) = Some (a, xs)"
    and "res = Some (rl\<lparr>m_List := xs\<rparr>)"
    by (auto simp: RangeList_allocate_def split: option.splits)
  with allocate_loop_correct [of "m_List rl" l a xs] assms(1) show ?thesis
    by (simp add: RangeList_inv_def)
qed

text \<open>C5: an allocation hands out addresses that were all free; in forward order, and in reverse
  order unless a range at an end of the list is used up while others remain, it removes exactly
  those from the free set and keeps the invariant.\<close>

theorem RangeList_allocate_correct:
  fixes rl :: "'a::len word RangeList"
  assumes "RangeList_inv rl" "RangeList_allocate rl l = Some (a, res)"
  shows "span a l \<subseteq> free_addresses rl \<and>
    (case res of
       Some rl' \<Rightarrow> RangeList_inv rl' \<and> free_addresses rl' = free_addresses rl - span a l
     | None \<Rightarrow> m_bReverse rl \<and> 1 < RangeList_size rl \<and>
         (hd (m_List rl) = Range a l \<or> last (m_List rl) = Range a l))"
  by (rule allocate_spec [OF assms])

text \<open>allocation fails exactly when no single free range is long enough.\<close>

theorem RangeList_allocate_fails_iff:
  "RangeList_allocate rl l = None \<longleftrightarrow> (\<forall>r \<in> set (m_List rl). length_of r < l)"
  using allocate_loop_None [of l "m_List rl"] allocate_reverse_loop_None [of False l "rev (m_List rl)"]
  by (auto simp: RangeList_allocate_def split: option.splits)

theorem RangeList_allocate_fails_iff_witness:
  "RangeList_allocate (RangeList_init (0x1000 :: u32) 0x100 False) 0x200 = None"
  using RangeList_allocate_fails_iff [of "RangeList_init (0x1000 :: u32) 0x100 False" "0x200"]
  by (simp add: RangeList_init_def)

theorem RangeList_allocate_correct_witness:
  "span (0x1800 :: u32) 0x400 \<subseteq> free_addresses (RangeList_init (0x1000 :: u32) 0xC00 True) \<and>
   RangeList_inv (RangeList_init (0x1000 :: u32) 0x800 True) \<and>
   free_addresses (RangeList_init (0x1000 :: u32) 0x800 True) =
     free_addresses (RangeList_init (0x1000 :: u32) 0xC00 True) - span (0x1800 :: u32) 0x400"
  using RangeList_allocate_correct [of "RangeList_init (0x1000 :: u32) 0xC00 True" "0x400"
      "0x1800" "Some (RangeList_init 0x1000 0x800 True)"]
  by (auto simp: RangeList_init_def RangeList_inv_def ranges_inv_def range_defs RangeList_allocate_def)

section \<open>Allocation at a given address\<close>

text \<open>For a request that does not wrap around, the four tests of the loop body together say
  that the request lies inside the range.\<close>

lemma span_subset_iff:
  assumes "l \<noteq> 0"
  shows "span a l \<subseteq> range_set r \<longleftrightarrow> rstart r \<le> unat a \<and> unat a + unat l \<le> rend r"
proof -
  have "unat a < unat a + unat l" using assms by (simp add: unat_gt_0)
  then show ?thesis
    using ivl_subset [of "unat a" "unat a + unat l" "rstart r" "rend r"] by (auto simp: range_set_def)
qed

text \<open>What the loop body leaves of the range it takes the request from.\<close>

definition residue :: "'a::len word \<Rightarrow> 'a word \<Rightarrow> 'a word range \<Rightarrow> 'a word range list \<Rightarrow> bool" where
  "residue a l r ps \<longleftrightarrow> span a l \<subseteq> range_set r \<and> ranges_inv ps \<and> free_set ps = range_set r - span a l \<and>
     (\<forall>s \<in> set ps. rstart r \<le> rstart s \<and> rend s \<le> rend r)"

definition request_in :: "'a::len word \<Rightarrow> 'a word \<Rightarrow> 'a word range \<Rightarrow> bool" where
  "request_in a l r \<longleftrightarrow> range_ok r \<and> l \<noteq> 0 \<and> unat a + unat l < 2 ^ LENGTH('a)
     \<and> rstart r \<le> unat a \<and> unat a + unat l \<le> rend r"

lemma request_inD:
  fixes r :: "'a::len word range"
  assumes "request_in a l r"
  shows "range_ok r" "unat (a + l) = unat a + unat l" "unat (address r + length_of r) = rend r"
    "0 < unat l" "rstart r \<le> unat a" "unat a + unat l \<le> rend r"
    "rend r = rstart r + unat (length_of r)" "rend r < 2 ^ LENGTH('a)" "l \<le> length_of r"
  using assms range_ok_end [of r]
  by (auto simp: request_in_def word_nat unat_gt_0 word_le_nat_alt range_ok_def rend_def rstart_def)

lemma residueI:
  fixes r :: "'a::len word range"
  assumes "request_in a l r" "ranges_inv ps" "free_set ps = {rstart r..<unat a} \<union> {unat a + unat l..<rend r}"
    "\<forall>s \<in> set ps. rstart r \<le> rstart s \<and> rend s \<le> rend r"
  shows "residue a l r ps"
  using request_inD(4-6) [OF assms(1)] assms by (auto simp: residue_def range_set_def request_in_def)

lemma ranges_inv_single: "ranges_inv [p] \<longleftrightarrow> range_ok p"
  by (simp add: ranges_inv_def)

lemma range_okI: "rstart p < rend p \<Longrightarrow> rend p < 2 ^ LENGTH('a) \<Longrightarrow> range_ok p"
  for p :: "'a::len word range"
  by (auto simp: range_ok_def rend_def rstart_def)

lemma allocateSpecific_low:
  assumes req: "request_in a l r" and "rstart r = unat a" "unat a + unat l < rend r"
  shows "allocateSpecific_loop a l (r # rs) = Some (Range (address r + l) (length_of r - l) # rs, [])"
    and "residue a l r [Range (address r + l) (length_of r - l)]"
proof -
  note d = request_inD [OF req]
  have "address r = a" "l < length_of r" "length_of r \<noteq> l"
    using assms d(7) by (auto simp: word_eq_unat word_less_nat_alt rstart_def)
  then show "allocateSpecific_loop a l (r # rs) = Some (Range (address r + l) (length_of r - l) # rs, [])"
    by simp
  show "residue a l r [Range (address r + l) (length_of r - l)]"
    using assms d cut_low [OF d(1,9)]
    by (intro residueI) (auto simp: ranges_inv_single range_set_def intro!: range_okI)
qed

lemma allocateSpecific_high:
  assumes req: "request_in a l r" and "rstart r < unat a" "unat a + unat l = rend r"
  shows "allocateSpecific_loop a l (r # rs) = Some (Range (address r) (length_of r - l) # rs, [])"
    and "residue a l r [Range (address r) (length_of r - l)]"
proof -
  note d = request_inD [OF req]
  have "address r < a" "address r + length_of r = a + l" "address r \<noteq> a"
    using assms d(2,3) by (auto simp: word_eq_unat word_less_nat_alt rstart_def)
  then show "allocateSpecific_loop a l (r # rs) = Some (Range (address r) (length_of r - l) # rs, [])"
    by simp
  have "rstart (Range (address r) (length_of r - l)) = rstart r" by (simp add: rstart_def)
  then show "residue a l r [Range (address r) (length_of r - l)]"
    using assms d cut_high(1) [OF d(1,9)]
    by (intro residueI) (auto simp: ranges_inv_single range_set_def intro!: range_okI)
qed

lemma allocateSpecific_middle:
  fixes r :: "'a::len word range"
  assumes req: "request_in a l r" and mid: "rstart r < unat a" "unat a + unat l < rend r"
  defines "lo \<equiv> Range (address r) (a - address r)"
    and "up \<equiv> Range (a + l) (address r + length_of r - a - l)"
  shows "allocateSpecific_loop a l (r # rs) = Some (lo # rs, [up])"
    and "residue a l r [lo, up]"
proof -
  note d = request_inD [OF req]
  have c: "address r < a" "address r + length_of r \<noteq> a + l" "address r \<noteq> a" "a + l < address r + length_of r"
    using mid d(2,3) by (auto simp: word_eq_unat word_less_nat_alt rstart_def)
  then show "allocateSpecific_loop a l (r # rs) = Some (lo # rs, [up])"
    by (simp add: lo_def up_def)
  have "unat (address r + length_of r - (a + l)) = rend r - (unat a + unat l)"
    using d(2,3) c(4) by (subst unat_sub) (auto simp: word_le_nat_alt word_less_nat_alt)
  then have "rstart lo = rstart r" "rend lo = unat a" "rstart up = unat a + unat l" "rend up = rend r"
    using c(1) mid d(2) by (auto simp: lo_def up_def rstart_def rend_def unat_sub diff_diff_add)
  then show "residue a l r [lo, up]"
    using mid d by (intro residueI [OF req]) (auto simp: ranges_inv_def apart_def range_set_def intro!: range_okI)
qed

lemma allocateSpecific_hit:
  assumes req: "request_in a l r"
  shows "\<exists>lo up. allocateSpecific_loop a l (r # rs) = Some (lo @ rs, up) \<and> residue a l r (lo @ up)"
proof -
  note d = request_inD [OF req]
  consider (whole) "rstart r = unat a" "unat a + unat l = rend r"
    | (low) "rstart r = unat a" "unat a + unat l < rend r"
    | (high) "rstart r < unat a" "unat a + unat l = rend r"
    | (middle) "rstart r < unat a" "unat a + unat l < rend r"
    using d(5,6) by linarith
  then show ?thesis
  proof cases
    case whole
    then have "address r = a" "length_of r = l"
      using d(7) by (auto simp: word_eq_unat rstart_def)
    moreover have "residue a l r []" using whole by (intro residueI [OF req]) auto
    ultimately show ?thesis by (intro exI [of _ "[]"]) simp
  next
    case low
    with allocateSpecific_low [OF req] show ?thesis by (metis append_Cons append_Nil append_Nil2)
  next
    case high
    with allocateSpecific_high [OF req] show ?thesis by (metis append_Cons append_Nil append_Nil2)
  next
    case middle
    with allocateSpecific_middle [OF req] show ?thesis by (metis append_Cons append_Nil)
  qed
qed

lemma allocateSpecific_miss:
  fixes r :: "'a::len word range"
  assumes "range_ok r" "l \<noteq> 0" "unat a + unat l < 2 ^ LENGTH('a)" "\<not> request_in a l r"
  shows "allocateSpecific_loop a l (r # rs) = map_option (map_prod ((#) r) id) (allocateSpecific_loop a l rs)"
proof -
  have "unat (a + l) = unat a + unat l" "unat (address r + length_of r) = rend r"
    using assms by (auto simp: word_nat range_ok_end)
  then have "\<not> (address r = a \<and> length_of r = l)" "\<not> (address r = a \<and> l < length_of r)"
    "\<not> (address r < a \<and> address r + length_of r = a + l)" "\<not> (address r < a \<and> a + l < address r + length_of r)"
    using assms by (auto simp: request_in_def word_less_nat_alt word_eq_unat rstart_def rend_def)
  then show ?thesis by (simp only: allocateSpecific_loop.simps if_False)
qed

lemma allocateSpecific_loop_cases:
  fixes a l :: "'a::len word"
  assumes "\<forall>r \<in> set rs. range_ok r" "l \<noteq> 0" "unat a + unat l < 2 ^ LENGTH('a)"
  shows "(\<forall>r \<in> set rs. \<not> request_in a l r) \<and> allocateSpecific_loop a l rs = None
    \<or> (\<exists>us r vs lo up. rs = us @ r # vs \<and> request_in a l r \<and> residue a l r (lo @ up)
         \<and> allocateSpecific_loop a l rs = Some (us @ lo @ vs, up))"
  using assms(1)
proof (induction rs)
  case (Cons r rs)
  show ?case
  proof (cases "request_in a l r")
    case True
    from allocateSpecific_hit [OF this, of rs] True show ?thesis by (metis append_Nil)
  next
    case False
    have step: "allocateSpecific_loop a l (r # rs) =
      map_option (map_prod ((#) r) id) (allocateSpecific_loop a l rs)"
      using allocateSpecific_miss [OF _ assms(2,3) False] Cons.prems by simp
    have "\<forall>r \<in> set rs. range_ok r" using Cons.prems by simp
    from Cons.IH [OF this] show ?thesis
    proof (elim disjE exE conjE)
      fix us q vs lo up
      assume "rs = us @ q # vs" "request_in a l q" "residue a l q (lo @ up)"
         "allocateSpecific_loop a l rs = Some (us @ lo @ vs, up)"
      then show ?thesis
        unfolding step
        by (intro disjI2, rule_tac x = "r # us" in exI, rule_tac x = q in exI, rule_tac x = vs in exI) auto
    qed (use False step in auto)
  qed
qed simp

lemma residue_insert:
  assumes inv: "ranges_inv (us @ r # vs)" and res: "residue a l r (lo @ up)"
  shows "ranges_inv (us @ lo @ vs @ up) \<and> free_set (us @ lo @ vs @ up) = free_set (us @ r # vs) - span a l"
proof
  have ap: "apart s p \<and> apart p s" if "s \<in> set us \<union> set vs" "p \<in> set lo \<union> set up" for s p
    using that inv res apart_sub [of s r p] apart_sym [of s p] by (auto simp: ranges_inv_mid residue_def)
  have "ranges_inv (us @ vs)" "ranges_inv (lo @ up)"
    using inv res by (simp_all add: ranges_inv_mid residue_def)
  then show "ranges_inv (us @ lo @ vs @ up)"
    using ap by (auto simp: ranges_inv_def sorted_wrt_append)
  have disj: "free_set (us @ vs) \<inter> range_set r = {}"
    using inv by (intro apart_free_set) (auto simp: ranges_inv_mid)
  have "free_set lo \<union> free_set up = range_set r - span a l" "span a l \<subseteq> range_set r"
    using res by (auto simp: residue_def)
  with disj show "free_set (us @ lo @ vs @ up) = free_set (us @ r # vs) - span a l"
    by (simp only: free_set_simps) blast
qed

text \<open>Ranges of a well-formed list do not touch, so a contiguous block that is free lies inside
  a single range.\<close>

lemma free_block_in_range:
  assumes inv: "ranges_inv rs" and sub: "{x..<x + n} \<subseteq> free_set rs" and n: "0 < n"
  shows "\<exists>r \<in> set rs. rstart r \<le> x \<and> x + n \<le> rend r"
  using sub n
proof (induction n)
  case (Suc n)
  show ?case
  proof (cases "n = 0")
    case True
    with Suc.prems show ?thesis by (auto simp: free_set_def range_set_def)
  next
    case False
    have "{x..<x + n} \<subseteq> free_set rs" using Suc.prems(1) by auto
    with Suc.IH False obtain r where r: "r \<in> set rs" "rstart r \<le> x" "x + n \<le> rend r" by auto
    have "x + n \<in> free_set rs" using Suc.prems(1) by auto
    then obtain s where s: "s \<in> set rs" "rstart s \<le> x + n" "x + n < rend s"
      by (auto simp: free_set_def range_set_def)
    have "apart r s \<or> r = s"
      using inv r(1) s(1) sorted_wrt_pair [of apart rs, OF apart_sym] by (auto simp: ranges_inv_def)
    with r s have "r = s" using False by (auto simp: apart_def)
    with r s show ?thesis by auto
  qed
qed simp

text \<open>C20: an allocation at a given address succeeds exactly when the whole block is free; it
  then removes exactly the block from the free set and keeps the invariant, and otherwise it
  changes nothing.\<close>

theorem RangeList_allocateSpecific_correct:
  fixes a l :: "'a::len word"
  assumes inv: "RangeList_inv rl" and l: "l \<noteq> 0" and nowrap: "unat a + unat l < 2 ^ LENGTH('a)"
    and res: "RangeList_allocateSpecific rl a l = (ok, rl')"
  shows "(ok \<longleftrightarrow> span a l \<subseteq> free_addresses rl) \<and> RangeList_inv rl' \<and>
    free_addresses rl' = (if ok then free_addresses rl - span a l else free_addresses rl) \<and>
    (\<not> ok \<longrightarrow> rl' = rl)"
proof -
  have rs: "ranges_inv (m_List rl)" "\<forall>r \<in> set (m_List rl). range_ok r"
    using inv by (auto simp: RangeList_inv_def ranges_inv_def)
  have pos: "0 < unat l" using l by (simp add: unat_gt_0)
  from allocateSpecific_loop_cases [OF rs(2) l nowrap] show ?thesis
  proof (elim disjE exE conjE)
    assume none: "\<forall>r \<in> set (m_List rl). \<not> request_in a l r" and "allocateSpecific_loop a l (m_List rl) = None"
    then have "ok = False" "rl' = rl" using res by (auto simp: RangeList_allocateSpecific_def)
    moreover have "\<not> span a l \<subseteq> free_addresses rl"
      using free_block_in_range [OF rs(1), of "unat a" "unat l"] pos none rs(2) l nowrap
      by (auto simp: request_in_def)
    ultimately show ?thesis using inv by simp
  next
    fix us r vs lo up
    assume r: "m_List rl = us @ r # vs" "residue a l r (lo @ up)"
      and "allocateSpecific_loop a l (m_List rl) = Some (us @ lo @ vs, up)"
    then have "ok = True" "m_List rl' = us @ lo @ vs @ up"
      using res by (auto simp: RangeList_allocateSpecific_def)
    moreover have "span a l \<subseteq> free_addresses rl" using r by (auto simp: residue_def)
    ultimately show ?thesis
      using residue_insert [of us r vs a l lo up] r rs(1) by (auto simp: RangeList_inv_def)
  qed
qed

theorem RangeList_allocateSpecific_correct_witness:
  "(True \<longleftrightarrow> span (0x1400 :: u32) 0x100 \<subseteq> free_addresses (RangeList_init (0x1000 :: u32) 0x1000 False)) \<and>
   RangeList_inv \<lparr>m_List = [Range 0x1000 0x400, Range (0x1500 :: u32) 0xB00], m_bReverse = False\<rparr>"
  using RangeList_allocateSpecific_correct [of "RangeList_init (0x1000 :: u32) 0x1000 False" "0x100" "0x1400"
      True "\<lparr>m_List = [Range 0x1000 0x400, Range 0x1500 0xB00], m_bReverse = False\<rparr>"]
  by (auto simp: RangeList_init_def RangeList_inv_def ranges_inv_def range_defs RangeList_allocateSpecific_def)

end
