(* ===== verification/Semaphore_Sync.thy ===== *)
theory Semaphore_Sync
  imports Pedigree_Prelude
begin

text \<open>
  \<^verbatim>\<open>Semaphore\<close> (\<^verbatim>\<open>system/kernel/core/process/Semaphore.cc\<close>) and the \<^verbatim>\<open>Mutex\<close> built on it.
  \<open>tryAcquire\<close>, \<open>removeThread\<close> and \<open>release\<close> are functions on the semaphore and on the
  scheduler's view of the threads.  \<open>acquire\<close> blocks, so it is a step relation: every thread has
  a program counter for the points of \<open>acquire\<close> and \<open>release\<close> between which other threads can
  run.  The relation is parameterised by whether other processors run while the
  \<open>m_BeingModified\<close> spinlock is held (on one processor the spinlock disables interrupts) and by
  whether \<open>sleep\<close> may find pending events to handle.
\<close>

datatype ThreadStatus = Ready | Running | Sleeping | Zombie | AwaitingJoin | Suspended

type_synonym thread = nat

record Semaphore =
  m_Counter :: int
  m_Queue :: "thread option list"

text \<open>Conversion to \<open>ssize_t\<close>.\<close>

definition to_ssize :: "int \<Rightarrow> int" where
  "to_ssize x = (x + 2 ^ 63) mod 2 ^ 64 - 2 ^ 63"

definition Semaphore_new :: "nat \<Rightarrow> Semaphore" where
  "Semaphore_new nInitialValue = \<lparr>m_Counter = to_ssize (int nInitialValue), m_Queue = []\<rparr>"

definition Mutex_new :: "bool \<Rightarrow> Semaphore" where
  "Mutex_new bLocked = Semaphore_new (if bLocked then 0 else 1)"

text \<open>\<open>tryAcquire\<close>: the compare-and-swap can fail when another thread changed the counter
  after it was read; \<open>unchanged\<close> is its outcome.\<close>

definition Semaphore_tryAcquire :: "bool \<Rightarrow> nat \<Rightarrow> Semaphore \<Rightarrow> bool \<times> Semaphore" where
  "Semaphore_tryAcquire unchanged n s =
     (let v = m_Counter s
      in if v - to_ssize (int n) < 0 then (False, s)
         else if unchanged then (True, s\<lparr>m_Counter := to_ssize (v - int n)\<rparr>)
         else (False, s))"

definition Semaphore_removeThread :: "thread \<Rightarrow> Semaphore \<Rightarrow> Semaphore" where
  "Semaphore_removeThread t s =
     (case take_first (\<lambda>q. q = Some t) (m_Queue s) of
        None \<Rightarrow> s
      | Some (_, qs) \<Rightarrow> s\<lparr>m_Queue := qs\<rparr>)"

text \<open>The loop of \<open>release\<close> that empties the queue: null entries, threads no longer scheduled
  and zombies are dropped, sleeping ones are to be woken, the others stay pending.\<close>

fun release_loop ::
  "(thread \<Rightarrow> bool) \<Rightarrow> (thread \<Rightarrow> ThreadStatus) \<Rightarrow> thread option list \<Rightarrow> thread option list \<Rightarrow> thread list
     \<Rightarrow> thread option list \<times> thread list" where
  "release_loop sched st [] pending wake = (pending, wake)"
| "release_loop sched st (None # qs) pending wake = release_loop sched st qs pending wake"
| "release_loop sched st (Some t # qs) pending wake =
     (if \<not> sched t then release_loop sched st qs pending wake
      else if st t \<noteq> Sleeping
        then (if st t = Zombie then release_loop sched st qs pending wake
              else release_loop sched st qs (pending @ [Some t]) wake)
      else release_loop sched st qs pending (wake @ [t]))"

fun wake_threads :: "thread list \<Rightarrow> (thread \<Rightarrow> ThreadStatus) \<Rightarrow> (thread \<Rightarrow> ThreadStatus)" where
  "wake_threads [] st = st"
| "wake_threads (t # ts) st = wake_threads ts (st(t := Ready))"

definition Semaphore_add :: "nat \<Rightarrow> Semaphore \<Rightarrow> Semaphore" where
  "Semaphore_add n s = s\<lparr>m_Counter := to_ssize (m_Counter s + int n)\<rparr>"

definition Semaphore_release ::
  "(thread \<Rightarrow> bool) \<Rightarrow> nat \<Rightarrow> Semaphore \<Rightarrow> (thread \<Rightarrow> ThreadStatus) \<Rightarrow> Semaphore \<times> (thread \<Rightarrow> ThreadStatus)" where
  "Semaphore_release sched n s st =
     (let s1 = Semaphore_add n s
      in if m_Queue s1 = [] then (s1, st)
         else (let (pending, wake) = release_loop sched st (m_Queue s1) [] []
               in (s1\<lparr>m_Queue := pending\<rparr>, wake_threads wake st)))"

definition Semaphore_getValue :: "Semaphore \<Rightarrow> int" where
  "Semaphore_getValue s = m_Counter s"

section \<open>The operations as functions\<close>

lemma to_ssize_id: "- (2 ^ 63) \<le> x \<Longrightarrow> x < 2 ^ 63 \<Longrightarrow> to_ssize x = x"
  by (simp add: to_ssize_def)

text \<open>Taking \<open>n\<close> items succeeds exactly when at least \<open>n\<close> are there (and nobody interfered),
  takes exactly \<open>n\<close>, and never makes the counter negative; otherwise nothing changes.\<close>

theorem Semaphore_tryAcquire_correct:
  assumes "0 \<le> m_Counter s" "m_Counter s < 2 ^ 63" "n < 2 ^ 63"
    and "Semaphore_tryAcquire unchanged n s = (ok, s')"
  shows "(ok \<longleftrightarrow> unchanged \<and> int n \<le> m_Counter s) \<and>
    m_Counter s' = m_Counter s - (if ok then int n else 0) \<and> 0 \<le> m_Counter s' \<and> m_Queue s' = m_Queue s"
proof -
  have n: "to_ssize (int n) = int n" using assms(3) by (simp add: to_ssize_def)
  have "to_ssize (m_Counter s - int n) = m_Counter s - int n" if "int n \<le> m_Counter s"
    using that assms(1,2) by (intro to_ssize_id) auto
  with n assms show ?thesis
    by (auto simp: Semaphore_tryAcquire_def Let_def split: if_splits)
qed

theorem Semaphore_tryAcquire_correct_witness:
  "(True \<longleftrightarrow> True \<and> int 2 \<le> m_Counter (Semaphore_new 5)) \<and>
   m_Counter \<lparr>m_Counter = 3, m_Queue = []\<rparr> = m_Counter (Semaphore_new 5) - (if True then int 2 else 0) \<and>
   0 \<le> m_Counter \<lparr>m_Counter = 3, m_Queue = []\<rparr> \<and>
   m_Queue \<lparr>m_Counter = 3, m_Queue = []\<rparr> = m_Queue (Semaphore_new 5)"
  by (rule Semaphore_tryAcquire_correct [where unchanged = True])
    (simp_all add: Semaphore_new_def Semaphore_tryAcquire_def to_ssize_def)

lemma release_loop_spec:
  "release_loop sched st qs pending wake =
     (pending @ filter (\<lambda>q. \<exists>t. q = Some t \<and> sched t \<and> st t \<noteq> Sleeping \<and> st t \<noteq> Zombie) qs,
      wake @ [t. Some t \<leftarrow> qs, sched t \<and> st t = Sleeping])"
  by (induction sched st qs pending wake rule: release_loop.induct) auto

lemma wake_threads_apply: "wake_threads ts st t = (if t \<in> set ts then Ready else st t)"
  by (induction ts arbitrary: st) auto

text \<open>After a release no scheduled thread of the queue sleeps any more, no other thread's
  status changes, and the threads left in the queue are exactly its scheduled threads that were
  neither asleep nor dead.\<close>

theorem Semaphore_release_wakes:
  assumes "Semaphore_release sched n s st = (s', st')"
  shows "m_Counter s' = to_ssize (m_Counter s + int n) \<and>
    (\<forall>t. st' t = (if Some t \<in> set (m_Queue s) \<and> sched t \<and> st t = Sleeping then Ready else st t)) \<and>
    (\<forall>t. Some t \<in> set (m_Queue s') \<longleftrightarrow>
       Some t \<in> set (m_Queue s) \<and> sched t \<and> st t \<noteq> Sleeping \<and> st t \<noteq> Zombie)"
  using assms
  by (auto simp: Semaphore_release_def Semaphore_add_def Let_def release_loop_spec wake_threads_apply split: if_splits option.splits)

theorem Semaphore_release_wakes_witness:
  "m_Counter \<lparr>m_Counter = 1, m_Queue = [Some 3]\<rparr> = to_ssize (m_Counter \<lparr>m_Counter = 0, m_Queue = [Some 2, Some 3]\<rparr> + int 1) \<and>
   (\<forall>t. ((\<lambda>t. if t = 3 then Suspended else Sleeping)(2 := Ready)) t =
      (if Some t \<in> set (m_Queue \<lparr>m_Counter = 0, m_Queue = [Some 2, Some (3::nat)]\<rparr>) \<and> True \<and>
          (if t = 3 then Suspended else Sleeping) = Sleeping
       then Ready else if t = 3 then Suspended else Sleeping)) \<and>
   (\<forall>t. Some t \<in> set (m_Queue \<lparr>m_Counter = 1, m_Queue = [Some (3::nat)]\<rparr>) \<longleftrightarrow>
      Some t \<in> set (m_Queue \<lparr>m_Counter = 0, m_Queue = [Some 2, Some 3]\<rparr>) \<and> True \<and>
      (if t = 3 then Suspended else Sleeping) \<noteq> Sleeping \<and> (if t = 3 then Suspended else Sleeping) \<noteq> Zombie)"
  by (rule Semaphore_release_wakes [of "\<lambda>_. True"])
    (simp add: Semaphore_release_def Semaphore_add_def to_ssize_def fun_upd_def)

section \<open>Blocking: threads that acquire and release\<close>

text \<open>Where a thread stands in \<open>acquire\<close> or \<open>release\<close>.  The number is that of the items
  it asks for or gives; \<open>Leaving\<close> and \<open>Returning\<close> carry the result of \<open>acquire\<close>.\<close>

datatype sem_pc =
    Idle
  | FastTry nat nat       \<comment> \<open>at the \<open>tryAcquire\<close> before the loop, with so many more to come\<close>
  | Trying nat            \<comment> \<open>at the \<open>tryAcquire\<close> that starts an iteration, without the spinlock\<close>
  | WantLock nat          \<comment> \<open>about to take \<open>m_BeingModified\<close>\<close>
  | Locked nat            \<comment> \<open>holds it, about to check again\<close>
  | Enqueue nat           \<comment> \<open>holds it, the check failed, about to join the queue\<close>
  | Enqueued nat          \<comment> \<open>holds it, in the queue, about to sleep\<close>
  | Handling nat          \<comment> \<open>inside \<open>sleep\<close>, handling events without the spinlock\<close>
  | Dozing nat            \<comment> \<open>spinlock taken again after the events, about to sleep\<close>
  | Asleep nat            \<comment> \<open>descheduled\<close>
  | Leaving bool nat      \<comment> \<open>about to take itself off the queue\<close>
  | Returning bool nat    \<comment> \<open>about to return the result of \<open>acquire\<close>\<close>
  | Releasing nat         \<comment> \<open>\<open>release\<close> called, about to add to the counter\<close>
  | Released              \<comment> \<open>counter incremented, about to look at the queue\<close>
  | Waking "thread list"  \<comment> \<open>queue emptied, threads still to be made ready\<close>

text \<open>\<open>taken\<close> is what the calls of \<open>acquire\<close> that returned true were asked for, \<open>given\<close> what
  \<open>release\<close> was called with: the books of the callers, kept when a call returns and when one
  is made, whatever the code does with the counter in between.\<close>

record sem_state =
  sem :: Semaphore
  lock_holder :: "thread option"
  pcs :: "thread \<Rightarrow> sem_pc"
  status_of :: "thread \<Rightarrow> ThreadStatus"
  taken :: int
  given :: int

abbreviation goto :: "thread \<Rightarrow> sem_pc \<Rightarrow> sem_state \<Rightarrow> sem_state" where
  "goto t p s \<equiv> s\<lparr>pcs := (pcs s)(t := p)\<rparr>"

definition can_take :: "nat \<Rightarrow> sem_state \<Rightarrow> bool" where
  "can_take n s = fst (Semaphore_tryAcquire True n (sem s))"

definition take_items :: "nat \<Rightarrow> sem_state \<Rightarrow> sem_state" where
  "take_items n s = s\<lparr>sem := snd (Semaphore_tryAcquire True n (sem s))\<rparr>"

definition leave_queue :: "thread \<Rightarrow> sem_state \<Rightarrow> sem_state" where
  "leave_queue t s = s\<lparr>sem := Semaphore_removeThread t (sem s)\<rparr>"

text \<open>A thread can move when it is not held up by the spinlock: on one processor nobody but the
  holder runs.\<close>

definition can_run :: "bool \<Rightarrow> thread \<Rightarrow> sem_state \<Rightarrow> bool" where
  "can_run mp t s \<longleftrightarrow> mp \<or> lock_holder s = None \<or> lock_holder s = Some t"

text \<open>Ten tries before the loop on a multiprocessor build, one otherwise.  A \<open>tryAcquire\<close> that
  fails although the items are there has lost its compare-and-swap.  Nobody asks for \<open>2 ^ 63\<close>
  items or more at once, which \<open>tryAcquire\<close> would read as a negative number.\<close>

inductive sem_step :: "bool \<Rightarrow> bool \<Rightarrow> sem_state \<Rightarrow> sem_state \<Rightarrow> bool" for mp ev where
  begin_acquire: "pcs s t = Idle \<Longrightarrow> can_run mp t s \<Longrightarrow> n < 2 ^ 63 \<Longrightarrow>
    sem_step mp ev s (goto t (FastTry (if mp then 9 else 0) n) s)"
| fast_ok: "pcs s t = FastTry k n \<Longrightarrow> can_run mp t s \<Longrightarrow> can_take n s \<Longrightarrow>
    sem_step mp ev s (goto t (Returning True n) (take_items n s))"
| fast_again: "pcs s t = FastTry (Suc k) n \<Longrightarrow> can_run mp t s \<Longrightarrow> sem_step mp ev s (goto t (FastTry k n) s)"
| fast_fail: "pcs s t = FastTry 0 n \<Longrightarrow> can_run mp t s \<Longrightarrow> sem_step mp ev s (goto t (Trying n) s)"
| try_ok: "pcs s t = Trying n \<Longrightarrow> can_run mp t s \<Longrightarrow> can_take n s \<Longrightarrow>
    sem_step mp ev s (goto t (Leaving True n) (take_items n s))"
| try_fail: "pcs s t = Trying n \<Longrightarrow> can_run mp t s \<Longrightarrow> sem_step mp ev s (goto t (WantLock n) s)"
| lock: "pcs s t = WantLock n \<Longrightarrow> lock_holder s = None \<Longrightarrow>
    sem_step mp ev s (goto t (Locked n) (s\<lparr>lock_holder := Some t\<rparr>))"
| recheck_ok: "pcs s t = Locked n \<Longrightarrow> can_take n s \<Longrightarrow>
    sem_step mp ev s (goto t (Leaving True n) (take_items n (s\<lparr>lock_holder := None\<rparr>)))"
| leave: "pcs s t = Leaving r n \<Longrightarrow> lock_holder s = None \<Longrightarrow>
    sem_step mp ev s (goto t (Returning r n) (leave_queue t s))"
| return: "pcs s t = Returning r n \<Longrightarrow> can_run mp t s \<Longrightarrow>
    sem_step mp ev s (goto t Idle (s\<lparr>taken := taken s + (if r then int n else 0)\<rparr>))"
| recheck_fail: "pcs s t = Locked n \<Longrightarrow> mp \<or> \<not> can_take n s \<Longrightarrow>
    sem_step mp ev s (goto t (Enqueue n) s)"
| enqueue: "pcs s t = Enqueue n \<Longrightarrow>
    sem_step mp ev s (goto t (Enqueued n) (s\<lparr>sem := (sem s)\<lparr>m_Queue := m_Queue (sem s) @ [Some t]\<rparr>\<rparr>))"
| events: "pcs s t = Enqueued n \<Longrightarrow> ev \<Longrightarrow>
    sem_step mp ev s (goto t (Handling n) (s\<lparr>lock_holder := None\<rparr>))"
| events_done: "pcs s t = Handling n \<Longrightarrow> lock_holder s = None \<Longrightarrow>
    sem_step mp ev s (goto t (Dozing n) (s\<lparr>lock_holder := Some t\<rparr>))"
| sleep: "pcs s t = Enqueued n \<or> pcs s t = Dozing n \<Longrightarrow>
    sem_step mp ev s (goto t (Asleep n) (s\<lparr>lock_holder := None, status_of := (status_of s)(t := Sleeping)\<rparr>))"
| woken: "pcs s t = Asleep n \<Longrightarrow> status_of s t \<noteq> Sleeping \<Longrightarrow> lock_holder s = None \<Longrightarrow>
    sem_step mp ev s (goto t (Trying n) (leave_queue t s))"
| interrupted: "pcs s t = Asleep n \<Longrightarrow> can_run mp t s \<Longrightarrow>
    sem_step mp ev s (goto t (Leaving False n) (s\<lparr>status_of := (status_of s)(t := Ready)\<rparr>))"
| begin_release: "pcs s t = Idle \<Longrightarrow> can_run mp t s \<Longrightarrow>
    sem_step mp ev s (goto t (Releasing n) (s\<lparr>given := given s + int n\<rparr>))"
| release: "pcs s t = Releasing n \<Longrightarrow> can_run mp t s \<Longrightarrow>
    sem_step mp ev s (goto t Released (s\<lparr>sem := Semaphore_add n (sem s)\<rparr>))"
| release_none: "pcs s t = Released \<Longrightarrow> can_run mp t s \<Longrightarrow> m_Queue (sem s) = [] \<Longrightarrow>
    sem_step mp ev s (goto t Idle s)"
| release_queue: "pcs s t = Released \<Longrightarrow> lock_holder s = None \<Longrightarrow> m_Queue (sem s) \<noteq> [] \<Longrightarrow>
    release_loop (\<lambda>_. True) (status_of s) (m_Queue (sem s)) [] [] = (pending, wake) \<Longrightarrow>
    sem_step mp ev s (goto t (Waking wake) (s\<lparr>sem := (sem s)\<lparr>m_Queue := pending\<rparr>\<rparr>))"
| wake_one: "pcs s t = Waking (u # us) \<Longrightarrow> can_run mp t s \<Longrightarrow>
    sem_step mp ev s (goto t (Waking us) (s\<lparr>status_of := (status_of s)(u := Ready)\<rparr>))"
| wake_done: "pcs s t = Waking [] \<Longrightarrow> can_run mp t s \<Longrightarrow> sem_step mp ev s (goto t Idle s)"

definition sem_init :: "nat \<Rightarrow> sem_state" where
  "sem_init n = \<lparr>sem = Semaphore_new n, lock_holder = None, pcs = (\<lambda>_. Idle),
     status_of = (\<lambda>_. Running), taken = 0, given = 0\<rparr>"

inductive sem_reachable :: "bool \<Rightarrow> bool \<Rightarrow> nat \<Rightarrow> sem_state \<Rightarrow> bool" for mp ev n0 where
  start: "sem_reachable mp ev n0 (sem_init n0)"
| step: "sem_reachable mp ev n0 s \<Longrightarrow> sem_step mp ev s s' \<Longrightarrow> sem_reachable mp ev n0 s'"

subsection \<open>The counter and the requests\<close>

lemma removeThread_counter [simp]: "m_Counter (Semaphore_removeThread t s) = m_Counter s"
  by (simp add: Semaphore_removeThread_def split: option.splits)

fun request :: "sem_pc \<Rightarrow> nat" where
  "request (FastTry k n) = n"
| "request (Trying n) = n"
| "request (WantLock n) = n"
| "request (Locked n) = n"
| "request (Enqueue n) = n"
| "request (Enqueued n) = n"
| "request (Handling n) = n"
| "request (Dozing n) = n"
| "request (Asleep n) = n"
| "request p = 0"

definition width_inv :: "sem_state \<Rightarrow> bool" where
  "width_inv s \<longleftrightarrow> - (2 ^ 63) \<le> m_Counter (sem s) \<and> m_Counter (sem s) < 2 ^ 63 \<and> (\<forall>t. request (pcs s t) < 2 ^ 63)"

lemma can_take_iff: "n < 2 ^ 63 \<Longrightarrow> can_take n s \<longleftrightarrow> int n \<le> m_Counter (sem s)"
  by (simp add: can_take_def Semaphore_tryAcquire_def Let_def to_ssize_def)

lemma leave_queue_simps [simp]:
  "pcs (leave_queue t s) = pcs s" "lock_holder (leave_queue t s) = lock_holder s"
  "status_of (leave_queue t s) = status_of s" "m_Counter (sem (leave_queue t s)) = m_Counter (sem s)"
  "taken (leave_queue t s) = taken s" "given (leave_queue t s) = given s"
  by (simp_all add: leave_queue_def)

lemma take_items_simps [simp]:
  "pcs (take_items n s) = pcs s" "lock_holder (take_items n s) = lock_holder s"
  "status_of (take_items n s) = status_of s" "m_Queue (sem (take_items n s)) = m_Queue (sem s)"
  "taken (take_items n s) = taken s" "given (take_items n s) = given s"
  by (simp_all add: take_items_def Semaphore_tryAcquire_def Let_def)

lemma take_items_counter:
  "m_Counter (sem (take_items n s)) = (if can_take n s then to_ssize (m_Counter (sem s) - int n) else m_Counter (sem s))"
  by (simp add: take_items_def can_take_def Semaphore_tryAcquire_def Let_def)

lemma can_take_unlock [simp]: "can_take n (s\<lparr>lock_holder := l\<rparr>) = can_take n s"
  by (simp add: can_take_def)

lemma take_items_le:
  assumes "width_inv s" "n < 2 ^ 63" "can_take n s"
  shows "m_Counter (sem (take_items n s)) = m_Counter (sem s) - int n"
  using assms unfolding take_items_counter can_take_iff [OF assms(2)] width_inv_def by (simp add: to_ssize_id)

lemma to_ssize_range: "- (2 ^ 63) \<le> to_ssize x" "to_ssize x < 2 ^ 63"
proof -
  have "0 \<le> (x + 2 ^ 63) mod 2 ^ 64" "(x + 2 ^ 63) mod 2 ^ 64 < 2 ^ 64" by simp_all
  then show "- (2 ^ 63) \<le> to_ssize x" "to_ssize x < 2 ^ 63" by (simp_all add: to_ssize_def)
qed

lemma width_goto:
  assumes "width_inv s" "pcs s1 = pcs s" "request p < 2 ^ 63 \<or> request p = request (pcs s t)"
    and "m_Counter (sem s1) = m_Counter (sem s) \<or> (\<exists>x. m_Counter (sem s1) = to_ssize x)"
  shows "width_inv (goto t p s1)"
proof -
  have "request (pcs (goto t p s1) u) < 2 ^ 63" for u
    using assms(1-3) by (cases "u = t") (auto simp: width_inv_def)
  moreover have "- (2 ^ 63) \<le> m_Counter (sem s1)" "m_Counter (sem s1) < 2 ^ 63"
    using assms(1,4) to_ssize_range by (auto simp only: width_inv_def)
  ultimately show ?thesis by (simp add: width_inv_def)
qed

lemma take_items_counter_cases:
  "m_Counter (sem (take_items n s)) = m_Counter (sem s) \<or> (\<exists>x. m_Counter (sem (take_items n s)) = to_ssize x)"
  by (auto simp: take_items_counter)

lemma sem_step_width_inv: "sem_step mp ev s s' \<Longrightarrow> width_inv s \<Longrightarrow> width_inv s'"
proof (induction rule: sem_step.induct)
  case (sleep s t n)
  then show ?case by (intro width_goto [of s]) auto
next
  case (recheck_ok s t n)
  then show ?case using take_items_counter_cases [of n "s\<lparr>lock_holder := None\<rparr>"]
    by (intro width_goto [of s]) simp_all
next
  case (release s t n)
  then show ?case by (intro width_goto [of s]) (auto simp: Semaphore_add_def)
qed (rule width_goto, assumption, simp, simp, simp add: take_items_counter_cases)+

lemma reachable_width_inv: "sem_reachable mp ev n0 s \<Longrightarrow> width_inv s"
proof (induction rule: sem_reachable.induct)
  case start
  show ?case using to_ssize_range [of "int n0"] by (simp add: width_inv_def sem_init_def Semaphore_new_def)
qed (rule sem_step_width_inv)

subsection \<open>No item is handed out twice\<close>

text \<open>Items on their way: those of an \<open>acquire\<close> that will return true, and those of a \<open>release\<close>
  that has been called but has not added them yet.\<close>

fun moving :: "sem_pc \<Rightarrow> int" where
  "moving (Leaving True n) = int n"
| "moving (Returning True n) = int n"
| "moving (Releasing n) = int n"
| "moving p = 0"

definition in_flight :: "sem_state \<Rightarrow> int" where
  "in_flight s = (\<Sum>t | pcs s t \<noteq> Idle. moving (pcs s t))"

text \<open>What the callers' books leave for the counter.\<close>

definition balance :: "nat \<Rightarrow> sem_state \<Rightarrow> int" where
  "balance n0 s = int n0 + given s - taken s - in_flight s"

lemma in_flight_goto:
  assumes "finite {t. pcs s t \<noteq> Idle}" "pcs s' = (pcs s)(t := p)"
  shows "finite {t. pcs s' t \<noteq> Idle}" "in_flight s' = in_flight s - moving (pcs s t) + moving p"
proof -
  let ?A = "insert t {t. pcs s t \<noteq> Idle}"
  have fin: "finite ?A" using assms(1) by simp
  show "finite {t. pcs s' t \<noteq> Idle}" by (rule finite_subset [OF _ fin]) (auto simp: assms(2))
  have all: "in_flight r = (\<Sum>u \<in> ?A. moving (pcs r u))" if "{u. pcs r u \<noteq> Idle} \<subseteq> ?A" for r
    unfolding in_flight_def by (rule sum.mono_neutral_left [OF fin that]) auto
  have "in_flight s = moving (pcs s t) + (\<Sum>u \<in> ?A - {t}. moving (pcs s u))"
    using all [of s] sum.remove [OF fin, of t "\<lambda>u. moving (pcs s u)"] by auto
  moreover have "{u. pcs s' u \<noteq> Idle} \<subseteq> ?A" by (auto simp: assms(2))
  then have "in_flight s' = moving p + (\<Sum>u \<in> ?A - {t}. moving (pcs s' u))"
    using all [of s'] sum.remove [OF fin, of t "\<lambda>u. moving (pcs s' u)"] by (simp add: assms(2))
  moreover have "(\<Sum>u \<in> ?A - {t}. moving (pcs s' u)) = (\<Sum>u \<in> ?A - {t}. moving (pcs s u))"
    by (rule sum.cong) (auto simp: assms(2))
  ultimately show "in_flight s' = in_flight s - moving (pcs s t) + moving p" by simp
qed

lemma moving_nonneg [simp]: "0 \<le> moving p"
  by (induction p rule: moving.induct) auto

lemma in_flight_nonneg [simp]: "0 \<le> in_flight s"
  unfolding in_flight_def by (rule sum_nonneg) simp

text \<open>As long as fewer than \<open>2 ^ 63\<close> items are in play the balance is not negative.\<close>

definition books_ok :: "nat \<Rightarrow> sem_state \<Rightarrow> bool" where
  "books_ok n0 s \<longleftrightarrow> finite {t. pcs s t \<noteq> Idle} \<and> m_Counter (sem s) = to_ssize (balance n0 s) \<and> 0 \<le> taken s \<and> 0 \<le> given s \<and>
     (int n0 + given s < 2 ^ 63 \<longrightarrow> 0 \<le> balance n0 s)"

lemma to_ssize_add: "to_ssize (to_ssize x + y) = to_ssize (x + y)" "to_ssize (to_ssize x - y) = to_ssize (x - y)"
proof -
  have "((x + 2 ^ 63) mod 2 ^ 64 + y) mod 2 ^ 64 = (x + 2 ^ 63 + y) mod 2 ^ 64" for y :: int
    by (rule mod_add_left_eq)
  from this [of y] this [of "- y"] show "to_ssize (to_ssize x + y) = to_ssize (x + y)" "to_ssize (to_ssize x - y) = to_ssize (x - y)"
    unfolding to_ssize_def by (simp_all add: algebra_simps)
qed

text \<open>A step that keeps the counter and the balance.\<close>

lemma books_same:
  assumes "books_ok n0 s" "pcs s' = (pcs s)(t := p)" "m_Counter (sem s') = m_Counter (sem s)"
    and "taken s' = taken s" "given s' = given s" "moving p = moving (pcs s t)"
  shows "books_ok n0 s'"
proof -
  have fin: "finite {t. pcs s t \<noteq> Idle}" using assms(1) by (simp add: books_ok_def)
  note fl = in_flight_goto [OF fin assms(2)]
  have "balance n0 s' = balance n0 s" by (simp add: balance_def fl(2) assms)
  with assms fl(1) show ?thesis by (simp add: books_ok_def)
qed

lemma books_take:
  assumes "books_ok n0 s" "width_inv s" "can_take n s" "n < 2 ^ 63" "pcs s' = (pcs s)(t := p)"
    and "sem s' = sem (take_items n s)" "taken s' = taken s" "given s' = given s" "moving p = int n" "moving (pcs s t) = 0"
  shows "books_ok n0 s'"
proof -
  have fin: "finite {t. pcs s t \<noteq> Idle}" using assms(1) by (simp add: books_ok_def)
  note fl = in_flight_goto [OF fin assms(5)]
  have b: "balance n0 s' = balance n0 s - int n" by (simp add: balance_def fl(2) assms)
  have c: "m_Counter (sem s) = to_ssize (balance n0 s)" using assms(1) by (simp add: books_ok_def)
  have "m_Counter (sem s') = to_ssize (balance n0 s')"
    using assms(3) unfolding assms(6) take_items_counter b c by (simp add: to_ssize_add)
  moreover have "0 \<le> balance n0 s'" if small: "int n0 + given s' < 2 ^ 63"
  proof -
    have "0 \<le> balance n0 s" using assms(1,8) small by (simp add: books_ok_def)
    moreover have "0 \<le> taken s" using assms(1) by (simp add: books_ok_def)
    then have "balance n0 s < 2 ^ 63" using small assms(8) in_flight_nonneg [of s] unfolding balance_def by linarith
    ultimately have "to_ssize (balance n0 s) = balance n0 s" by (intro to_ssize_id) simp_all
    with can_take_iff [OF assms(4), of s] assms(3) c b show ?thesis by simp
  qed
  ultimately show ?thesis using assms fl(1) by (simp add: books_ok_def)
qed

lemma books_moved:
  assumes "books_ok n0 s" "pcs s' = (pcs s)(t := p)" "sem s' = sem s" "0 \<le> taken s'" "given s \<le> given s'"
    and "given s' - taken s' - moving p = given s - taken s - moving (pcs s t)"
  shows "books_ok n0 s'"
proof -
  have fin: "finite {t. pcs s t \<noteq> Idle}" using assms(1) by (simp add: books_ok_def)
  note fl = in_flight_goto [OF fin assms(2)]
  have "balance n0 s' = balance n0 s" using assms(6) by (simp add: balance_def fl(2))
  with assms fl(1) show ?thesis by (simp add: books_ok_def)
qed

lemma sem_step_books_ok:
  assumes "sem_step mp ev s s'" "width_inv s" "books_ok n0 s"
  shows "books_ok n0 s'"
  using assms(1)
proof (cases rule: sem_step.cases)
  case (fast_ok t k n)
  moreover have "n < 2 ^ 63" using assms(2) fast_ok(2) by (metis width_inv_def request.simps(1))
  ultimately show ?thesis using assms(2,3) by (intro books_take [of n0 s n s' t "Returning True n"]) simp_all
next
  case (try_ok t n)
  moreover have "n < 2 ^ 63" using assms(2) try_ok(2) by (metis width_inv_def request.simps(2))
  ultimately show ?thesis using assms(2,3) by (intro books_take [of n0 s n s' t "Leaving True n"]) simp_all
next
  case (recheck_ok t n)
  moreover have "n < 2 ^ 63" using assms(2) recheck_ok(2) by (metis width_inv_def request.simps(4))
  ultimately show ?thesis using assms(2,3)
    by (intro books_take [of n0 s n s' t "Leaving True n"]) (simp_all add: take_items_def)
next
  case (return t r n)
  then show ?thesis using assms(3) by (intro books_moved [of n0 s s' t Idle]) (auto simp: books_ok_def)
next
  case (begin_release t n)
  then show ?thesis using assms(3) by (intro books_moved [of n0 s s' t "Releasing n"]) (auto simp: books_ok_def)
next
  case (release t n)
  have fin: "finite {t. pcs s t \<noteq> Idle}" using assms(3) by (simp add: books_ok_def)
  have "pcs s' = (pcs s)(t := Released)" using release by simp
  note fl = in_flight_goto [OF fin this]
  have "given s' = given s" "taken s' = taken s" using release(1) by simp_all
  then have "balance n0 s' = balance n0 s + int n" unfolding balance_def fl(2) by (simp add: release(2))
  with release assms(3) fl(1) show ?thesis by (simp add: books_ok_def Semaphore_add_def to_ssize_add)
next
  case (leave t r n)
  then show ?thesis using assms(3)
    by (cases r; intro books_same [of n0 s s' t "Returning r n"]) simp_all
qed (use assms(3) in \<open>(auto elim!: books_same)\<close>)

lemma reachable_books_ok: "sem_reachable mp ev n0 s \<Longrightarrow> books_ok n0 s"
proof (induction rule: sem_reachable.induct)
  case start
  show ?case by (simp add: books_ok_def balance_def in_flight_def sem_init_def Semaphore_new_def)
next
  case (step s s')
  then show ?case using sem_step_books_ok reachable_width_inv by blast
qed

text \<open>C35: In every interleaving of \<open>acquire\<close> and \<open>release\<close>, on any number of processors, the counter
  is (as an \<open>ssize_t\<close>) what the calls account for: the initial items and those that \<open>release\<close> was called
  with, less those of the \<open>acquire\<close>s that returned true and those on their way.  While fewer than \<open>2 ^ 63\<close>
  items are in play, no more are handed out than there are.\<close>

theorem sem_conservation:
  assumes "sem_reachable mp ev n0 s"
  shows "m_Counter (sem s) = to_ssize (int n0 + given s - taken s - in_flight s) \<and>
    (int n0 + given s < 2 ^ 63 \<longrightarrow> 0 \<le> m_Counter (sem s) \<and> taken s + in_flight s \<le> int n0 + given s)"
proof -
  have b: "books_ok n0 s" using assms by (rule reachable_books_ok)
  have "0 \<le> to_ssize (balance n0 s)" if small: "int n0 + given s < 2 ^ 63"
  proof -
    have "0 \<le> balance n0 s" "0 \<le> taken s" using b small by (simp_all add: books_ok_def)
    moreover have "balance n0 s < 2 ^ 63"
      using calculation(2) small in_flight_nonneg [of s] unfolding balance_def by linarith
    ultimately have "0 \<le> balance n0 s" "balance n0 s < 2 ^ 63" by blast+
    then show ?thesis by (simp add: to_ssize_id)
  qed
  with b show ?thesis by (auto simp: books_ok_def balance_def)
qed

text \<open>Thread 1 has acquired one of three items, thread 2 is about to give two.\<close>

definition sem_example :: sem_state where
  "sem_example = (sem_init 3)\<lparr>sem := (Semaphore_new 3)\<lparr>m_Counter := 2\<rparr>, taken := 1, given := 2, pcs := (\<lambda>_. Idle)(2 := Releasing 2)\<rparr>"

lemma sem_example_reachable: "sem_reachable False False 3 sem_example"
proof -
  let ?i = "sem_init 3" and ?c = "(Semaphore_new 3)\<lparr>m_Counter := 2\<rparr>"
  note s = sem_init_def can_run_def can_take_def take_items_def Semaphore_tryAcquire_def Semaphore_new_def to_ssize_def fun_upd_idem
  have "sem_reachable False False 3 (goto 1 (FastTry 0 1) ?i)"
    using sem_reachable.step [OF sem_reachable.start [of False False 3] sem_step.begin_acquire [of _ 1 False 1]] by (simp add: s)
  then have "sem_reachable False False 3 (goto 1 (Returning True 1) (?i\<lparr>sem := ?c\<rparr>))"
    using sem_reachable.step [OF _ sem_step.fast_ok [of "goto 1 (FastTry 0 1) ?i" 1 0 1]] by (simp add: s)
  then have "sem_reachable False False 3 (?i\<lparr>sem := ?c, taken := 1\<rparr>)"
    using sem_reachable.step [OF _ sem_step.return [of "goto 1 (Returning True 1) (?i\<lparr>sem := ?c\<rparr>)" 1 True 1]] by (simp add: s)
  then show ?thesis
    using sem_reachable.step [OF _ sem_step.begin_release [of "?i\<lparr>sem := ?c, taken := 1\<rparr>" 2 False False 2]]
    by (simp add: s sem_example_def)
qed

theorem sem_conservation_witness:
  "m_Counter (sem sem_example) = to_ssize (int 3 + given sem_example - taken sem_example - in_flight sem_example) \<and>
   0 \<le> m_Counter (sem sem_example) \<and> taken sem_example + in_flight sem_example \<le> int 3 + given sem_example"
proof -
  have "int 3 + given sem_example < 2 ^ 63" by (simp add: sem_example_def)
  with sem_conservation [OF sem_example_reachable] show ?thesis by blast
qed

subsection \<open>Wake-ups on one processor\<close>

fun holds_lock :: "sem_pc \<Rightarrow> bool" where
  "holds_lock (Locked n) = True"
| "holds_lock (Enqueue n) = True"
| "holds_lock (Enqueued n) = True"
| "holds_lock (Dozing n) = True"
| "holds_lock p = False"

definition lock_inv :: "sem_state \<Rightarrow> bool" where
  "lock_inv s \<longleftrightarrow> (\<forall>t. holds_lock (pcs s t) \<longleftrightarrow> lock_holder s = Some t)"

lemma sem_step_lock_inv: "sem_step mp ev s s' \<Longrightarrow> lock_inv s \<Longrightarrow> lock_inv s'"
proof (induction rule: sem_step.induct)
  case (sleep s t n)
  then show ?case unfolding lock_inv_def by (auto split: if_splits)
qed (unfold lock_inv_def, (force split: if_splits)+)

definition in_queue :: "thread \<Rightarrow> sem_state \<Rightarrow> bool" where
  "in_queue t s \<longleftrightarrow> Some t \<in> set (m_Queue (sem s))"

definition to_be_woken :: "thread \<Rightarrow> sem_state \<Rightarrow> bool" where
  "to_be_woken t s \<longleftrightarrow> (\<exists>u ts. pcs s u = Waking ts \<and> t \<in> set ts)"

definition sleeping :: "thread \<Rightarrow> nat \<Rightarrow> sem_state \<Rightarrow> bool" where
  "sleeping t n s \<longleftrightarrow> pcs s t = Asleep n \<and> status_of s t = Sleeping"

lemma removeThread_other: "t \<noteq> u \<Longrightarrow> Some t \<in> set (m_Queue (Semaphore_removeThread u s)) \<longleftrightarrow> Some t \<in> set (m_Queue s)"
  by (auto simp: Semaphore_removeThread_def split: option.splits elim!: take_first_SomeE)

lemma in_queue_leave [simp]: "t \<noteq> u \<Longrightarrow> in_queue t (leave_queue u s) \<longleftrightarrow> in_queue t s"
  by (simp add: in_queue_def leave_queue_def removeThread_other)

text \<open>A sleeping thread is in the queue, or some releasing thread is about to wake it.\<close>

definition queued_inv :: "sem_state \<Rightarrow> bool" where
  "queued_inv s \<longleftrightarrow> (\<forall>t n. pcs s t = Enqueued n \<longrightarrow> in_queue t s) \<and>
     (\<forall>t n. sleeping t n s \<longrightarrow> in_queue t s \<or> to_be_woken t s) \<and>
     (\<forall>t n. pcs s t \<noteq> Handling n \<and> pcs s t \<noteq> Dozing n)"

text \<open>A step of thread \<open>t\<close> that wakes nobody, empties no queue slot of others and leaves \<open>t\<close> in
  the queue if it goes to sleep.\<close>

definition quiet_step :: "thread \<Rightarrow> sem_state \<Rightarrow> sem_state \<Rightarrow> bool" where
  "quiet_step t s s' \<longleftrightarrow> (\<forall>u. u \<noteq> t \<longrightarrow> pcs s' u = pcs s u \<and> status_of s' u = status_of s u \<and>
       (in_queue u s \<longrightarrow> in_queue u s')) \<and>
     (\<forall>n. pcs s' t = Enqueued n \<or> pcs s' t = Asleep n \<longrightarrow> in_queue t s') \<and>
     (\<forall>n. pcs s' t \<noteq> Handling n \<and> pcs s' t \<noteq> Dozing n) \<and>
     (\<forall>ts. pcs s t = Waking ts \<longrightarrow> ts = [])"

lemma quiet_to_be_woken: "quiet_step t s s' \<Longrightarrow> to_be_woken u s \<Longrightarrow> to_be_woken u s'"
  unfolding to_be_woken_def quiet_step_def by (metis emptyE list.set(1))

lemma quiet_queued_inv:
  assumes "quiet_step t s s'" "queued_inv s"
  shows "queued_inv s'"
proof -
  have "in_queue u s'" if "pcs s' u = Enqueued n" for u n
    using that assms by (cases "u = t") (auto simp: quiet_step_def queued_inv_def)
  moreover have "in_queue u s' \<or> to_be_woken u s'" if "sleeping u n s'" for u n
  proof (cases "u = t")
    case True
    with that assms(1) show ?thesis by (auto simp: quiet_step_def sleeping_def)
  next
    case False
    with that assms(1) have "sleeping u n s" by (auto simp: quiet_step_def sleeping_def)
    with assms(2) have "in_queue u s \<or> to_be_woken u s" by (auto simp: queued_inv_def)
    with False assms(1) quiet_to_be_woken [OF assms(1)] show ?thesis by (auto simp: quiet_step_def)
  qed
  moreover have "pcs s' u \<noteq> Handling n \<and> pcs s' u \<noteq> Dozing n" for u n
    using assms by (cases "u = t") (auto simp: quiet_step_def queued_inv_def)
  ultimately show ?thesis by (auto simp: queued_inv_def)
qed

text \<open>Without events every step is quiet, or wakes one thread, or empties the queue.\<close>

definition wake_step :: "sem_state \<Rightarrow> sem_state \<Rightarrow> bool" where
  "wake_step s s' \<longleftrightarrow> (\<exists>t u us. pcs s t = Waking (u # us) \<and>
     s' = goto t (Waking us) (s\<lparr>status_of := (status_of s)(u := Ready)\<rparr>))"

definition empty_step :: "sem_state \<Rightarrow> sem_state \<Rightarrow> bool" where
  "empty_step s s' \<longleftrightarrow> (\<exists>t pending wake. pcs s t = Released \<and> lock_holder s = None \<and>
     release_loop (\<lambda>_. True) (status_of s) (m_Queue (sem s)) [] [] = (pending, wake) \<and>
     s' = goto t (Waking wake) (s\<lparr>sem := (sem s)\<lparr>m_Queue := pending\<rparr>\<rparr>))"

lemmas quiet_simps = quiet_step_def Semaphore_add_def in_queue_def leave_queue_def removeThread_other

lemma sem_step_kinds:
  assumes "sem_step mp False s s'" "queued_inv s"
  shows "(\<exists>t. quiet_step t s s') \<or> wake_step s s' \<or> empty_step s s'"
  using assms(1)
proof (cases rule: sem_step.cases)
  case (sleep t n)
  with assms(2) have "pcs s t = Enqueued n" by (auto simp: queued_inv_def)
  with sleep assms(2) have "quiet_step t s s'"
    by (auto simp: quiet_step_def in_queue_def queued_inv_def)
  then show ?thesis by blast
next
  case (events_done t n)
  with assms(2) show ?thesis by (auto simp: queued_inv_def)
next
  case (wake_one t u us)
  then show ?thesis by (auto simp: wake_step_def)
next
  case (release_queue t pending wake)
  then show ?thesis by (auto simp: empty_step_def)
qed (rule disjI1, force simp: quiet_simps)+

lemma wake_queued_inv: "wake_step s s' \<Longrightarrow> queued_inv s \<Longrightarrow> queued_inv s'"
  unfolding wake_step_def queued_inv_def sleeping_def to_be_woken_def in_queue_def
  by (elim exE conjE) (auto split: if_splits, (metis list.set_intros set_ConsD sem_pc.inject(13))+)

lemma empty_queued_inv:
  assumes "empty_step s s'" "queued_inv s" "lock_inv s"
  shows "queued_inv s'"
proof -
  from assms(1) obtain t pending wake where t: "pcs s t = Released" "lock_holder s = None"
    and r: "release_loop (\<lambda>_. True) (status_of s) (m_Queue (sem s)) [] [] = (pending, wake)"
    and s': "s' = goto t (Waking wake) (s\<lparr>sem := (sem s)\<lparr>m_Queue := pending\<rparr>\<rparr>)"
    by (auto simp: empty_step_def)
  have noenq: "pcs s u \<noteq> Enqueued n" for u n
    using t(2) assms(3) unfolding lock_inv_def by (metis holds_lock.simps(3) option.distinct(1))
  have woken: "to_be_woken u s'" if "sleeping u n s'" for u n
  proof (cases "in_queue u s")
    case True
    with that r s' have "u \<in> set wake"
      by (auto simp: sleeping_def in_queue_def release_loop_spec split: if_splits)
    then show ?thesis by (auto simp: s' to_be_woken_def)
  next
    case False
    with that assms(2) s' have "to_be_woken u s"
      by (auto simp: queued_inv_def sleeping_def split: if_splits)
    then obtain v ts where "pcs s v = Waking ts" "u \<in> set ts" by (auto simp: to_be_woken_def)
    with t(1) have "pcs s' v = Waking ts" "u \<in> set ts" by (auto simp: s')
    then show ?thesis by (auto simp: to_be_woken_def)
  qed
  show ?thesis unfolding queued_inv_def
    using noenq woken assms(2) by (auto simp: s' queued_inv_def)
qed

lemma sem_step_queued_inv:
  "sem_step mp False s s' \<Longrightarrow> queued_inv s \<Longrightarrow> lock_inv s \<Longrightarrow> queued_inv s'"
  using sem_step_kinds quiet_queued_inv wake_queued_inv empty_queued_inv by blast

text \<open>A thread that joins the queue or sleeps in it lacks items, or a wake-up is under way.\<close>

definition lacks_inv :: "sem_state \<Rightarrow> bool" where
  "lacks_inv s \<longleftrightarrow> (\<forall>t n. pcs s t = Enqueue n \<or> pcs s t = Enqueued n \<longrightarrow> m_Counter (sem s) < int n)"

definition awaited :: "thread \<Rightarrow> nat \<Rightarrow> sem_state \<Rightarrow> bool" where
  "awaited t n s \<longleftrightarrow> m_Counter (sem s) < int n \<or> (\<exists>u. pcs s u = Released) \<or> to_be_woken t s"

definition awaited_inv :: "sem_state \<Rightarrow> bool" where
  "awaited_inv s \<longleftrightarrow> (\<forall>t n. sleeping t n s \<longrightarrow> awaited t n s)"

lemma lock_inv_owner: "lock_inv s \<Longrightarrow> holds_lock (pcs s t) \<Longrightarrow> lock_holder s = Some t"
  by (simp add: lock_inv_def)

lemma lock_inv_free: "lock_inv s \<Longrightarrow> lock_holder s = None \<Longrightarrow> \<not> holds_lock (pcs s t)"
  by (simp add: lock_inv_def)

lemma sem_step_lacks_inv:
  assumes "sem_step False False s s'" "lock_inv s" "lacks_inv s" "width_inv s"
  shows "lacks_inv s'"
proof -
  have "m_Counter (sem s') < int n" if e: "pcs s' t = Enqueue n \<or> pcs s' t = Enqueued n" for t n
  proof (cases "pcs s' t = pcs s t")
    case True
    with e have "holds_lock (pcs s t)" by (metis holds_lock.simps(2,3))
    with assms(2) have own: "lock_holder s = Some t" by (rule lock_inv_owner)
    have only: "u = t" if "pcs s u = Locked m" for u m
      using lock_inv_owner [OF assms(2), of u] own that by simp
    have "m_Counter (sem s) < int n" using e True assms(3) by (auto simp: lacks_inv_def)
    moreover have "m_Counter (sem s') = m_Counter (sem s)"
      using assms(1) own True e
      by (cases rule: sem_step.cases) (simp_all add: can_run_def split: if_splits, auto dest: only)
    ultimately show ?thesis by simp
  next
    case False
    have few: "m_Counter (sem s) < int m" if "pcs s u = Locked m" "\<not> can_take m s" for u m
    proof -
      have "m < 2 ^ 63" using assms(4) that(1) by (metis width_inv_def request.simps(4))
      then show ?thesis using that(2) by (simp add: can_take_iff)
    qed
    from assms(1) False e show ?thesis
    proof (cases rule: sem_step.cases)
      case (recheck_fail u m)
      with False e few show ?thesis by (auto split: if_splits)
    next
      case (enqueue u m)
      with False e assms(3) show ?thesis by (auto simp: lacks_inv_def split: if_splits)
    qed (auto split: if_splits)
  qed
  then show ?thesis by (auto simp: lacks_inv_def)
qed

lemma awaited_mono:
  assumes "awaited t n s" "m_Counter (sem s') \<le> m_Counter (sem s)"
    and "\<And>u. pcs s u = Released \<Longrightarrow> pcs s' u = Released"
    and "\<And>u ts. pcs s u = Waking ts \<Longrightarrow> ts \<noteq> [] \<Longrightarrow> pcs s' u = Waking ts"
  shows "awaited t n s'"
  using assms(1) unfolding awaited_def
proof (elim disjE exE)
  assume "to_be_woken t s"
  then obtain u ts where "pcs s u = Waking ts" "t \<in> set ts" by (auto simp: to_be_woken_def)
  with assms(4) [of u ts] show "m_Counter (sem s') < int n \<or> (\<exists>u. pcs s' u = Released) \<or> to_be_woken t s'"
    by (force simp: to_be_woken_def)
qed (use assms(2,3) in auto)

lemma wake_other:
  assumes "to_be_woken t s" "pcs s u = Waking (v # vs)" "t \<noteq> v" "pcs s' = (pcs s)(u := Waking vs)"
  shows "to_be_woken t s'"
proof -
  obtain w ts where w: "pcs s w = Waking ts" "t \<in> set ts" using assms(1) by (auto simp: to_be_woken_def)
  show ?thesis
  proof (cases "w = u")
    case True
    with w assms(2,3) have "t \<in> set vs" by auto
    with assms(4) show ?thesis by (auto simp: to_be_woken_def)
  next
    case False
    with w assms(4) show ?thesis by (auto simp: to_be_woken_def)
  qed
qed

lemma sem_step_awaited_inv:
  assumes "sem_step False False s s'" "lock_inv s" "queued_inv s" "lacks_inv s" "awaited_inv s" "queued_inv s'" "width_inv s"
  shows "awaited_inv s'"
proof -
  have "awaited t n s'" if sl: "sleeping t n s'" for t n
  proof -
    have calm: "awaited t n s'" if "sleeping t n s" "m_Counter (sem s') \<le> m_Counter (sem s)"
        "\<And>u. pcs s u = Released \<Longrightarrow> pcs s' u = Released"
        "\<And>u ts. pcs s u = Waking ts \<Longrightarrow> ts \<noteq> [] \<Longrightarrow> pcs s' u = Waking ts"
      by (rule awaited_mono [of t n s]) (use that assms(5) in \<open>simp_all add: awaited_inv_def\<close>)
    have less: "m_Counter (sem (take_items m s)) \<le> m_Counter (sem s)" if "m = request (pcs s u)" "can_take m s" for u m
      using take_items_le [OF assms(7) _ that(2)] assms(7) by (simp add: width_inv_def that(1))
    from assms(1) show ?thesis
    proof (cases rule: sem_step.cases)
      case (fast_ok u k m)
      with sl have "sleeping t n s" by (simp add: sleeping_def split: if_splits)
      moreover have "m_Counter (sem s') \<le> m_Counter (sem s)" using less [of m u] fast_ok by simp
      ultimately show ?thesis using fast_ok by (intro calm) auto
    next
      case (try_ok u m)
      with sl have "sleeping t n s" by (simp add: sleeping_def split: if_splits)
      moreover have "m_Counter (sem s') \<le> m_Counter (sem s)" using less [of m u] try_ok by simp
      ultimately show ?thesis using try_ok by (intro calm) auto
    next
      case (recheck_ok u m)
      with sl have "sleeping t n s" by (simp add: sleeping_def split: if_splits)
      moreover have "m_Counter (sem s') \<le> m_Counter (sem s)"
        using less [of m u] recheck_ok by (simp add: take_items_counter)
      ultimately show ?thesis using recheck_ok by (intro calm) auto
    next
      case (sleep u m)
      have "awaited t n s"
      proof (cases "t = u")
        case True
        with sleep sl assms(3,4) show ?thesis
          by (auto simp: sleeping_def awaited_def lacks_inv_def queued_inv_def)
      next
        case False
        with sleep sl assms(5) show ?thesis by (auto simp: sleeping_def awaited_inv_def)
      qed
      then show ?thesis using sleep by (rule_tac awaited_mono) auto
    next
      case (release u m)
      then have "pcs s' u = Released" by simp
      then show ?thesis by (auto simp: awaited_def)
    next
      case (release_none u)
      with sl assms(6) show ?thesis by (auto simp: queued_inv_def awaited_def in_queue_def)
    next
      case (release_queue u pending wake)
      with sl have "sleeping t n s" by (auto simp: sleeping_def split: if_splits)
      moreover have "u \<noteq> t" using release_queue sl by (auto simp: sleeping_def)
      moreover have "\<not> in_queue t s'"
        using release_queue sl by (auto simp: in_queue_def release_loop_spec sleeping_def split: if_splits)
      ultimately show ?thesis using sl assms(6) by (auto simp: queued_inv_def awaited_def)
    next
      case (wake_one u v vs)
      with sl have "sleeping t n s" "t \<noteq> v" by (auto simp: sleeping_def split: if_splits)
      with assms(5) have "awaited t n s" by (simp add: awaited_inv_def)
      with wake_one \<open>t \<noteq> v\<close> show ?thesis
        using wake_other [of t s u v vs s'] by (force simp: awaited_def)
    qed (rule calm; use sl in \<open>simp add: sleeping_def split: if_splits; fastforce\<close>)+
  qed
  then show ?thesis by (simp add: awaited_inv_def)
qed

lemma sem_reachable_invs:
  "sem_reachable False False n0 s \<Longrightarrow> lock_inv s \<and> queued_inv s \<and> lacks_inv s \<and> awaited_inv s \<and> width_inv s"
proof (induction rule: sem_reachable.induct)
  case start
  show ?case using reachable_width_inv [OF sem_reachable.start]
    by (simp add: sem_init_def lock_inv_def queued_inv_def lacks_inv_def awaited_inv_def sleeping_def)
next
  case (step s s')
  then show ?case
    by (meson sem_step_lock_inv sem_step_queued_inv sem_step_lacks_inv sem_step_awaited_inv sem_step_width_inv)
qed

text \<open>Short names for the states of a run with at most one waiting thread (1) and one
  releasing thread (2).\<close>

abbreviation sem_at :: "int \<Rightarrow> thread option list \<Rightarrow> thread option \<Rightarrow> sem_pc \<Rightarrow> sem_pc \<Rightarrow> ThreadStatus \<Rightarrow> int \<Rightarrow> sem_state" where
  "sem_at c q l p1 p2 st1 g \<equiv> \<lparr>sem = \<lparr>m_Counter = c, m_Queue = q\<rparr>, lock_holder = l,
     pcs = (\<lambda>_. Idle)(1 := p1, 2 := p2), status_of = (\<lambda>_. Running)(1 := st1), taken = 0, given = g\<rparr>"

lemma fun_upd_const [simp]: "(\<lambda>_. c)(x := c) = (\<lambda>_. c)"
  by auto

lemma reach_init: "sem_reachable mp ev 0 (sem_at 0 [] None Idle Idle Running 0)"
  using sem_reachable.start [of mp ev 0] by (simp add: sem_init_def Semaphore_new_def to_ssize_def)

lemma reach_step:
  "sem_reachable mp ev n s \<Longrightarrow> sem_step mp ev s s1 \<Longrightarrow> s1 = s' \<Longrightarrow> sem_reachable mp ev n s'"
  by (auto intro: sem_reachable.step)

lemmas run_simps = can_run_def can_take_def Semaphore_tryAcquire_def Semaphore_add_def to_ssize_def Let_def fun_upd_twist

lemma reach_trying: "sem_reachable mp ev 0 (sem_at 0 [] None (FastTry k 1) Idle Running 0) \<Longrightarrow>
    sem_reachable mp ev 0 (sem_at 0 [] None (Trying 1) Idle Running 0)"
proof (induction k)
  case 0
  then show ?case by (rule reach_step [OF _ sem_step.fast_fail [of _ 1]]) (auto simp: run_simps fun_eq_iff)
next
  case (Suc k)
  then have "sem_reachable mp ev 0 (sem_at 0 [] None (FastTry k 1) Idle Running 0)"
    by (intro reach_step [OF Suc.prems sem_step.fast_again [of _ 1]]) (auto simp: run_simps fun_eq_iff)
  then show ?case by (rule Suc.IH)
qed

lemma reach_enqueue: "sem_reachable mp ev 0 (sem_at 0 [] (Some 1) (Enqueue 1) Idle Running 0)"
proof -
  have "sem_reachable mp ev 0 (sem_at 0 [] None (FastTry (if mp then 9 else 0) 1) Idle Running 0)"
    by (rule reach_step [OF reach_init sem_step.begin_acquire [of _ 1 _ 1]]) (simp_all add: run_simps)
  from reach_trying [OF this] have "sem_reachable mp ev 0 (sem_at 0 [] None (WantLock 1) Idle Running 0)"
    by (rule reach_step [OF _ sem_step.try_fail [of _ 1]]) (simp_all add: run_simps)
  then have "sem_reachable mp ev 0 (sem_at 0 [] (Some 1) (Locked 1) Idle Running 0)"
    by (rule reach_step [OF _ sem_step.lock [of _ 1]]) (simp_all add: run_simps)
  then show ?thesis
    by (rule reach_step [OF _ sem_step.recheck_fail [of _ 1]]) (simp_all add: run_simps)
qed

lemma reach_enqueued: "sem_reachable mp ev 0 (sem_at 0 [Some 1] (Some 1) (Enqueued 1) Idle Running 0)"
  by (rule reach_step [OF reach_enqueue sem_step.enqueue [of _ 1]]) (simp_all add: run_simps)

lemma reach_release:
  assumes "sem_reachable mp ev 0 (sem_at 0 q l p Idle st 0)" "mp \<or> l = None"
  shows "sem_reachable mp ev 0 (sem_at 1 q l p Released st 1)"
proof -
  have "sem_reachable mp ev 0 (sem_at 0 q l p (Releasing 1) st 1)"
    using assms(2) by (intro reach_step [OF assms(1) sem_step.begin_release [of _ 2 _ _ 1]]) (auto simp: run_simps)
  then show ?thesis
    by (rule reach_step [OF _ sem_step.release [of _ 2 1]]) (use assms(2) in \<open>auto simp: run_simps\<close>)
qed

lemma reach_woken_soon: "sem_reachable mp ev 0 (sem_at 1 [Some 1] None (Asleep 1) Released Sleeping 1)"
proof -
  have "sem_reachable mp ev 0 (sem_at 0 [Some 1] None (Asleep 1) Idle Sleeping 0)"
    by (rule reach_step [OF reach_enqueued sem_step.sleep [of _ 1 1]]) (simp_all add: run_simps)
  then show ?thesis by (rule reach_release) simp
qed

text \<open>C21: On one processor, and when threads have no events to handle, no wake-up is lost: whenever
  a thread sleeps for \<open>n\<close> items and \<open>n\<close> items are there, some \<open>release\<close> is still about to look at
  the queue or to wake that thread.\<close>

theorem sem_no_lost_wakeup:
  assumes "sem_reachable False False n0 s" "pcs s t = Asleep n" "status_of s t = Sleeping"
    and "int n \<le> m_Counter (sem s)"
  shows "(\<exists>u. pcs s u = Released) \<or> (\<exists>u ts. pcs s u = Waking ts \<and> t \<in> set ts)"
proof -
  have "awaited t n s"
    using sem_reachable_invs [OF assms(1)] assms(2,3) by (simp add: awaited_inv_def sleeping_def)
  with assms(4) show ?thesis by (auto simp: awaited_def to_be_woken_def)
qed

theorem sem_no_lost_wakeup_witness:
  "(\<exists>u. pcs (sem_at 1 [Some 1] None (Asleep 1) Released Sleeping 1) u = Released) \<or>
   (\<exists>u ts. pcs (sem_at 1 [Some 1] None (Asleep 1) Released Sleeping 1) u = Waking ts \<and> 1 \<in> set ts)"
  by (rule sem_no_lost_wakeup [OF reach_woken_soon, of _ 1]) simp_all

text \<open>On several processors a wake-up can be lost: \<open>release\<close> looks at \<open>m_Queue.count()\<close> without
  the spinlock, so it can miss a thread that has found too few items but has not joined the queue
  yet.  The run ends with the item there, thread 1 asleep waiting for it, and nobody else active.\<close>

theorem sem_lost_wakeup_multiprocessor:
  "\<exists>s. sem_reachable True False 0 s \<and> pcs s = (\<lambda>_. Idle)(1 := Asleep 1) \<and>
     status_of s 1 = Sleeping \<and> m_Counter (sem s) = 1"
proof -
  have "sem_reachable True False 0 (sem_at 1 [] (Some 1) (Enqueue 1) Released Running 1)"
    using reach_release [OF reach_enqueue] by simp
  then have "sem_reachable True False 0 (sem_at 1 [] (Some 1) (Enqueue 1) Idle Running 1)"
    by (rule reach_step [OF _ sem_step.release_none [of _ 2]]) (simp_all add: run_simps)
  then have "sem_reachable True False 0 (sem_at 1 [Some 1] (Some 1) (Enqueued 1) Idle Running 1)"
    by (rule reach_step [OF _ sem_step.enqueue [of _ 1]]) (simp_all add: run_simps)
  then have "sem_reachable True False 0 (sem_at 1 [Some 1] None (Asleep 1) Idle Sleeping 1)"
    by (rule reach_step [OF _ sem_step.sleep [of _ 1 1]]) (simp_all add: run_simps)
  then show ?thesis by (rule_tac x = "sem_at 1 [Some 1] None (Asleep 1) Idle Sleeping 1" in exI) auto
qed

text \<open>So it can on one processor when \<open>sleep\<close> finds events to handle: it gives up the spinlock,
  a \<open>release\<close> meanwhile finds the thread queued but not asleep and leaves it pending, and the
  thread then sleeps without looking at the counter again.\<close>

theorem sem_lost_wakeup_events:
  "\<exists>s. sem_reachable False True 0 s \<and> pcs s = (\<lambda>_. Idle)(1 := Asleep 1) \<and>
     status_of s 1 = Sleeping \<and> m_Counter (sem s) = 1"
proof -
  have "sem_reachable False True 0 (sem_at 0 [Some 1] None (Handling 1) Idle Running 0)"
    by (rule reach_step [OF reach_enqueued sem_step.events [of _ 1]]) (simp_all add: run_simps)
  then have "sem_reachable False True 0 (sem_at 1 [Some 1] None (Handling 1) Released Running 1)"
    by (rule reach_release) simp
  then have "sem_reachable False True 0 (sem_at 1 [Some 1] None (Handling 1) (Waking []) Running 1)"
    by (rule reach_step [OF _ sem_step.release_queue [of _ 2 "[Some 1]" "[]"]]) (simp_all add: run_simps)
  then have "sem_reachable False True 0 (sem_at 1 [Some 1] None (Handling 1) Idle Running 1)"
    by (rule reach_step [OF _ sem_step.wake_done [of _ 2]]) (simp_all add: run_simps)
  then have "sem_reachable False True 0 (sem_at 1 [Some 1] (Some 1) (Dozing 1) Idle Running 1)"
    by (rule reach_step [OF _ sem_step.events_done [of _ 1]]) (simp_all add: run_simps)
  then have "sem_reachable False True 0 (sem_at 1 [Some 1] None (Asleep 1) Idle Sleeping 1)"
    by (rule reach_step [OF _ sem_step.sleep [of _ 1 1]]) (simp_all add: run_simps)
  then show ?thesis by (rule_tac x = "sem_at 1 [Some 1] None (Asleep 1) Idle Sleeping 1" in exI) auto
qed

end
