(* ===== verification/Ring_Buffer.thy ===== *)
theory Ring_Buffer
  imports Linked_List Semaphore_Sync "HOL-Library.Monad_Syntax"
begin

text \<open>
  \<^verbatim>\<open>RingBuffer<T>\<close> (\<^verbatim>\<open>system/include/utilities/RingBuffer.h\<close>): a bounded queue made of a
  \<open>List<T>\<close>, a semaphore counting the values that can be read, one counting the free slots, and
  a mutex over the list of threads to be told of changes.  The operations are the calls of one
  thread at a time; \<open>None\<close> is a call that blocks for ever (or dereferences a dangling pointer),
  and a flag per blocking call says whether a wait is interrupted.  The interleaving inside
  \<open>acquire\<close> and \<open>release\<close> is the subject of \<^verbatim>\<open>Semaphore_Sync\<close>.
\<close>

text \<open>\<open>acquire\<close> as one caller sees it: it takes the items at once, or waits until interrupted.\<close>

definition Semaphore_acquire :: "bool \<Rightarrow> nat \<Rightarrow> Semaphore \<Rightarrow> (bool \<times> Semaphore) option" where
  "Semaphore_acquire interrupted n s =
     (let (ok, s') = Semaphore_tryAcquire True n s
      in if ok then Some (True, s') else if interrupted then Some (False, s) else None)"

abbreviation sem_release :: "nat \<Rightarrow> Semaphore \<Rightarrow> Semaphore" where
  "sem_release n s \<equiv> fst (Semaphore_release (\<lambda>_. True) n s (\<lambda>_. Running))"

record MonitorTarget =
  pThread :: thread
  pEvent :: nat

record 'a RingBuffer =
  m_RingSize :: nat
  m_ReadSem :: Semaphore
  m_WriteSem :: Semaphore
  m_Ring :: "'a List"
  m_Lock :: Semaphore
  m_MonitorTargets :: "MonitorTarget List"

datatype WaitType = Reading | Writing

definition RingBuffer_new :: "nat \<Rightarrow> 'a RingBuffer" where
  "RingBuffer_new ringSize = \<lparr>m_RingSize = ringSize, m_ReadSem = Semaphore_new 0,
     m_WriteSem = Semaphore_new ringSize, m_Ring = List_new, m_Lock = Mutex_new False,
     m_MonitorTargets = List_new\<rparr>"

text \<open>\<open>notifyMonitors\<close> sends every registered event, then forgets the registrations.\<close>

definition RingBuffer_notifyMonitors ::
  "bool \<Rightarrow> 'a RingBuffer \<Rightarrow> ((thread \<times> nat) list \<times> 'a RingBuffer) option" where
  "RingBuffer_notifyMonitors i rb = do {
     (_, lck) \<leftarrow> Semaphore_acquire i 1 (m_Lock rb);
     targets \<leftarrow> List_iterate (nodes (m_MonitorTargets rb)) (m_First (m_MonitorTargets rb));
     l \<leftarrow> List_clear (m_MonitorTargets rb);
     Some (map (\<lambda>mt. (pThread mt, pEvent mt)) targets,
           rb\<lparr>m_MonitorTargets := l, m_Lock := sem_release 1 lck\<rparr>) }"

definition RingBuffer_write_one ::
  "bool \<Rightarrow> bool \<Rightarrow> 'a \<Rightarrow> 'a RingBuffer \<Rightarrow> ((thread \<times> nat) list \<times> 'a RingBuffer) option" where
  "RingBuffer_write_one i j obj rb = do {
     (_, ws) \<leftarrow> Semaphore_acquire i 1 (m_WriteSem rb);
     r \<leftarrow> List_pushBack obj (m_Ring rb);
     RingBuffer_notifyMonitors j
       (rb\<lparr>m_WriteSem := ws, m_Ring := r, m_ReadSem := sem_release 1 (m_ReadSem rb)\<rparr>) }"

text \<open>The bulk operations transfer at most \<open>m_RingSize\<close> objects; the caller's array \<open>obj\<close> must
  hold that many.\<close>

definition RingBuffer_write ::
  "bool \<Rightarrow> bool \<Rightarrow> 'a list \<Rightarrow> nat \<Rightarrow> 'a RingBuffer \<Rightarrow> (nat \<times> (thread \<times> nat) list \<times> 'a RingBuffer) option" where
  "RingBuffer_write i j obj n rb =
     (let n = (if n > m_RingSize rb then m_RingSize rb else n)
      in do {
        (_, ws) \<leftarrow> Semaphore_acquire i n (m_WriteSem rb);
        r \<leftarrow> (if n \<le> length obj then push_all List_pushBack (take n obj) (m_Ring rb) else None);
        (ev, rb') \<leftarrow> RingBuffer_notifyMonitors j
          (rb\<lparr>m_WriteSem := ws, m_Ring := r, m_ReadSem := sem_release n (m_ReadSem rb)\<rparr>);
        Some (n, ev, rb') })"

definition RingBuffer_read_one ::
  "bool \<Rightarrow> bool \<Rightarrow> 'a::zero RingBuffer \<Rightarrow> ('a \<times> (thread \<times> nat) list \<times> 'a RingBuffer) option" where
  "RingBuffer_read_one i j rb = do {
     (_, rs) \<leftarrow> Semaphore_acquire i 1 (m_ReadSem rb);
     (ret, r) \<leftarrow> List_popFront (m_Ring rb);
     (ev, rb') \<leftarrow> RingBuffer_notifyMonitors j
       (rb\<lparr>m_ReadSem := rs, m_Ring := r, m_WriteSem := sem_release 1 (m_WriteSem rb)\<rparr>);
     Some (ret, ev, rb') }"

definition RingBuffer_read ::
  "bool \<Rightarrow> bool \<Rightarrow> nat \<Rightarrow> 'a::zero RingBuffer \<Rightarrow> ('a list \<times> (thread \<times> nat) list \<times> 'a RingBuffer) option" where
  "RingBuffer_read i j n rb =
     (let n = (if n > m_RingSize rb then m_RingSize rb else n)
      in do {
        (_, rs) \<leftarrow> Semaphore_acquire i n (m_ReadSem rb);
        (out, r) \<leftarrow> pop_n List_popFront n (m_Ring rb);
        (ev, rb') \<leftarrow> RingBuffer_notifyMonitors j
          (rb\<lparr>m_ReadSem := rs, m_Ring := r, m_WriteSem := sem_release n (m_WriteSem rb)\<rparr>);
        Some (out, ev, rb') })"

definition RingBuffer_dataReady :: "'a RingBuffer \<Rightarrow> bool" where
  "RingBuffer_dataReady rb \<longleftrightarrow> Semaphore_getValue (m_ReadSem rb) > 0"

definition RingBuffer_canWrite :: "'a RingBuffer \<Rightarrow> bool" where
  "RingBuffer_canWrite rb \<longleftrightarrow> Semaphore_getValue (m_WriteSem rb) > 0"

definition RingBuffer_waitFor :: "bool \<Rightarrow> WaitType \<Rightarrow> 'a RingBuffer \<Rightarrow> (bool \<times> 'a RingBuffer) option" where
  "RingBuffer_waitFor i w rb =
     (case w of
        Reading \<Rightarrow> do {
          (ok, s) \<leftarrow> Semaphore_acquire i 1 (m_ReadSem rb);
          Some (if ok then (True, rb\<lparr>m_ReadSem := sem_release 1 s\<rparr>) else (False, rb\<lparr>m_ReadSem := s\<rparr>)) }
      | Writing \<Rightarrow> do {
          (ok, s) \<leftarrow> Semaphore_acquire i 1 (m_WriteSem rb);
          Some (if ok then (True, rb\<lparr>m_WriteSem := sem_release 1 s\<rparr>) else (False, rb\<lparr>m_WriteSem := s\<rparr>)) })"

definition RingBuffer_monitor :: "bool \<Rightarrow> thread \<Rightarrow> nat \<Rightarrow> 'a RingBuffer \<Rightarrow> 'a RingBuffer option" where
  "RingBuffer_monitor j t e rb = do {
     (_, lck) \<leftarrow> Semaphore_acquire j 1 (m_Lock rb);
     l \<leftarrow> List_pushBack \<lparr>pThread = t, pEvent = e\<rparr> (m_MonitorTargets rb);
     Some (rb\<lparr>m_MonitorTargets := l, m_Lock := sem_release 1 lck\<rparr>) }"

text \<open>The loop of \<open>cullMonitorTargets\<close>.  The boolean of the result says whether the loop ended
  at \<open>end()\<close>; the early \<open>return\<close> inside it skips the release of the mutex.\<close>

partial_function (option) cull_loop ::
  "thread \<Rightarrow> ptr \<Rightarrow> MonitorTarget List \<Rightarrow> (bool \<times> MonitorTarget List) option" where
  "cull_loop t it l =
     (case it of
        None \<Rightarrow> Some (True, l)
      | Some a \<Rightarrow> Option.bind (nodes l a) (\<lambda>n.
          if pThread (node_value n) = t
          then Option.bind (List_erase a l) (\<lambda>(_, l').
            case m_First l' of
              None \<Rightarrow> Some (False, l')
            | Some b \<Rightarrow> Option.bind (Iterator_next (nodes l') (Some b)) (\<lambda>it'. cull_loop t it' l'))
          else Option.bind (Iterator_next (nodes l) (Some a)) (\<lambda>it'. cull_loop t it' l)))"

declare cull_loop.simps [code]

definition RingBuffer_cullMonitorTargets :: "bool \<Rightarrow> thread \<Rightarrow> 'a RingBuffer \<Rightarrow> 'a RingBuffer option" where
  "RingBuffer_cullMonitorTargets j t rb = do {
     (_, lck) \<leftarrow> Semaphore_acquire j 1 (m_Lock rb);
     (at_end, l) \<leftarrow> cull_loop t (m_First (m_MonitorTargets rb)) (m_MonitorTargets rb);
     Some (rb\<lparr>m_MonitorTargets := l, m_Lock := (if at_end then sem_release 1 lck else lck)\<rparr>) }"

section \<open>The invariant\<close>

definition sem_is :: "int \<Rightarrow> Semaphore \<Rightarrow> bool" where
  "sem_is c s \<longleftrightarrow> m_Counter s = c \<and> m_Queue s = []"

lemma acquire_sem_is:
  assumes "sem_is c s" "0 \<le> c" "c < 2 ^ 63" "n < 2 ^ 63"
  shows "int n \<le> c \<Longrightarrow> \<exists>s'. Semaphore_acquire i n s = Some (True, s') \<and> sem_is (c - int n) s'"
    and "c < int n \<Longrightarrow> Semaphore_acquire i n s = (if i then Some (False, s) else None)"
proof -
  have n: "to_ssize (int n) = int n" using assms(4) by (simp add: to_ssize_def)
  show "Semaphore_acquire i n s = (if i then Some (False, s) else None)" if "c < int n"
    using that n assms by (simp add: Semaphore_acquire_def Semaphore_tryAcquire_def sem_is_def)
  assume le: "int n \<le> c"
  with assms have "to_ssize (c - int n) = c - int n" by (intro to_ssize_id) auto
  with le n assms show "\<exists>s'. Semaphore_acquire i n s = Some (True, s') \<and> sem_is (c - int n) s'"
    by (simp add: Semaphore_acquire_def Semaphore_tryAcquire_def sem_is_def)
qed

lemma release_sem_is: "sem_is c s \<Longrightarrow> 0 \<le> c \<Longrightarrow> c + int n < 2 ^ 63 \<Longrightarrow> sem_is (c + int n) (sem_release n s)"
  by (simp add: sem_is_def Semaphore_release_def Semaphore_add_def to_ssize_id)

definition rb_contents :: "'a RingBuffer \<Rightarrow> 'a list" where
  "rb_contents rb = List_contents (m_Ring rb)"

definition rb_inv :: "'a RingBuffer \<Rightarrow> bool" where
  "rb_inv rb \<longleftrightarrow> List_inv (m_Ring rb) \<and> List_inv (m_MonitorTargets rb) \<and> m_RingSize rb < 2 ^ 63 \<and>
     length (rb_contents rb) \<le> m_RingSize rb \<and>
     sem_is (int (length (rb_contents rb))) (m_ReadSem rb) \<and>
     sem_is (int (m_RingSize rb) - int (length (rb_contents rb))) (m_WriteSem rb) \<and>
     sem_is 1 (m_Lock rb)"

lemma rb_new:
  "n < 2 ^ 63 \<Longrightarrow> rb_inv (RingBuffer_new n :: 'a RingBuffer) \<and> rb_contents (RingBuffer_new n :: 'a RingBuffer) = []"
  by (simp add: rb_inv_def RingBuffer_new_def rb_contents_def sem_is_def Semaphore_new_def Mutex_new_def
      to_ssize_def)

text \<open>The events of the registered targets, in the order of registration.\<close>

definition rb_targets :: "'a RingBuffer \<Rightarrow> (thread \<times> nat) list" where
  "rb_targets rb = map (\<lambda>mt. (pThread mt, pEvent mt)) (List_contents (m_MonitorTargets rb))"

lemma notify_ok:
  assumes "List_inv (m_MonitorTargets rb)" "sem_is 1 (m_Lock rb)"
  shows "\<exists>l k. RingBuffer_notifyMonitors j rb = Some (rb_targets rb, rb\<lparr>m_MonitorTargets := l, m_Lock := k\<rparr>) \<and>
    List_inv l \<and> List_contents l = [] \<and> sem_is 1 k"
proof -
  obtain lck where "Semaphore_acquire j 1 (m_Lock rb) = Some (True, lck)" "sem_is 0 lck"
    using acquire_sem_is(1) [OF assms(2), of 1 j] by auto
  moreover have "sem_is 1 (sem_release 1 lck)" if "sem_is 0 lck"
    using release_sem_is [OF that, of 1] by simp
  moreover obtain l where "List_clear (m_MonitorTargets rb) = Some l" "List_inv l" "List_contents l = []"
    using List_clear_inv [OF assms(1)] by blast
  ultimately show ?thesis
    using List_iterate_inv [OF assms(1)] by (auto simp: RingBuffer_notifyMonitors_def rb_targets_def)
qed

abbreviation clamp :: "'a RingBuffer \<Rightarrow> nat \<Rightarrow> nat" where
  "clamp rb n \<equiv> min n (m_RingSize rb)"

text \<open>What the two directions share: the semaphores and the ring are exchanged, then the
  monitors are notified.\<close>

lemma exchange_ok:
  assumes inv: "rb_inv rb" and r: "List_inv r" "length (List_contents r) \<le> m_RingSize rb"
    and rs: "sem_is (int (length (List_contents r))) rs"
    and ws: "sem_is (int (m_RingSize rb) - int (length (List_contents r))) ws"
    and rb1: "rb1 = rb\<lparr>m_WriteSem := ws, m_Ring := r, m_ReadSem := rs\<rparr>"
  shows "\<exists>rb'. RingBuffer_notifyMonitors j rb1 = Some (rb_targets rb, rb') \<and> rb_inv rb' \<and>
    rb_contents rb' = List_contents r \<and> rb_targets rb' = [] \<and> m_RingSize rb' = m_RingSize rb"
proof -
  obtain l k where n: "RingBuffer_notifyMonitors j rb1 = Some (rb_targets rb1, rb1\<lparr>m_MonitorTargets := l, m_Lock := k\<rparr>)"
      "List_inv l" "List_contents l = []" "sem_is 1 k"
    using notify_ok [of rb1 j] inv by (auto simp: rb_inv_def rb1)
  have "rb_targets rb1 = rb_targets rb" by (simp add: rb_targets_def rb1)
  moreover have "rb_inv (rb1\<lparr>m_MonitorTargets := l, m_Lock := k\<rparr>)"
    using n r rs ws inv by (simp add: rb_inv_def rb_contents_def rb1)
  ultimately show ?thesis using n(1,3) by (simp add: rb_contents_def rb_targets_def rb1)
qed

lemma rb_sems:
  assumes "rb_inv rb"
  shows "n \<le> m_RingSize rb \<Longrightarrow> n + length (rb_contents rb) \<le> m_RingSize rb \<Longrightarrow>
      \<exists>ws. Semaphore_acquire i n (m_WriteSem rb) = Some (True, ws) \<and>
        sem_is (int (m_RingSize rb) - int (length (rb_contents rb) + n)) ws"
    and "n \<le> length (rb_contents rb) \<Longrightarrow>
      \<exists>rs. Semaphore_acquire i n (m_ReadSem rb) = Some (True, rs) \<and> sem_is (int (length (rb_contents rb) - n)) rs"
    and "n \<le> m_RingSize rb \<Longrightarrow> n + length (rb_contents rb) > m_RingSize rb \<Longrightarrow>
      Semaphore_acquire i n (m_WriteSem rb) = (if i then Some (False, m_WriteSem rb) else None)"
    and "n \<le> m_RingSize rb \<Longrightarrow> n > length (rb_contents rb) \<Longrightarrow>
      Semaphore_acquire i n (m_ReadSem rb) = (if i then Some (False, m_ReadSem rb) else None)"
proof -
  have b: "length (rb_contents rb) \<le> m_RingSize rb" "m_RingSize rb < 2 ^ 63"
    and s: "sem_is (int (length (rb_contents rb))) (m_ReadSem rb)"
      "sem_is (int (m_RingSize rb) - int (length (rb_contents rb))) (m_WriteSem rb)"
    using assms by (simp_all add: rb_inv_def)
  show "\<exists>ws. Semaphore_acquire i n (m_WriteSem rb) = Some (True, ws) \<and>
        sem_is (int (m_RingSize rb) - int (length (rb_contents rb) + n)) ws"
    if "n \<le> m_RingSize rb" "n + length (rb_contents rb) \<le> m_RingSize rb"
    using acquire_sem_is(1) [OF s(2), of n i] b that by (simp add: algebra_simps)
  show "\<exists>rs. Semaphore_acquire i n (m_ReadSem rb) = Some (True, rs) \<and> sem_is (int (length (rb_contents rb) - n)) rs"
    if "n \<le> length (rb_contents rb)"
    using acquire_sem_is(1) [OF s(1), of n i] b that by (simp add: of_nat_diff)
  show "Semaphore_acquire i n (m_WriteSem rb) = (if i then Some (False, m_WriteSem rb) else None)"
    if "n \<le> m_RingSize rb" "n + length (rb_contents rb) > m_RingSize rb"
    using acquire_sem_is(2) [OF s(2), of n i] b that by simp
  show "Semaphore_acquire i n (m_ReadSem rb) = (if i then Some (False, m_ReadSem rb) else None)"
    if "n \<le> m_RingSize rb" "n > length (rb_contents rb)"
    using acquire_sem_is(2) [OF s(1), of n i] b that by simp
qed

lemma clamp_if: "(if n > m_RingSize rb then m_RingSize rb else n) = clamp rb n"
  by simp

lemma write_ok:
  fixes rb :: "'a::zero RingBuffer"
  assumes inv: "rb_inv rb" and n: "clamp rb n \<le> length obj"
    and room: "clamp rb n + length (rb_contents rb) \<le> m_RingSize rb"
  shows "\<exists>rb'. RingBuffer_write i j obj n rb = Some (clamp rb n, rb_targets rb, rb') \<and> rb_inv rb' \<and>
    rb_contents rb' = rb_contents rb @ take (clamp rb n) obj \<and> rb_targets rb' = [] \<and> m_RingSize rb' = m_RingSize rb"
proof -
  define m where "m = clamp rb n"
  obtain ws where ws: "Semaphore_acquire i m (m_WriteSem rb) = Some (True, ws)"
      "sem_is (int (m_RingSize rb) - int (length (rb_contents rb) + m)) ws"
    using rb_sems(1) [OF inv, of m i] room by (auto simp: m_def)
  obtain r where r: "push_all List_pushBack (take m obj) (m_Ring rb) = Some r" "List_inv r"
      "List_contents r = rb_contents rb @ take m obj"
    using llist.push_all_back [of "m_Ring rb" "take m obj"] inv by (auto simp: rb_inv_def rb_contents_def)
  have len: "length (List_contents r) = length (rb_contents rb) + m" using r(3) n by (simp add: m_def)
  have rs: "sem_is (int (length (List_contents r))) (sem_release m (m_ReadSem rb))"
    using release_sem_is [of _ "m_ReadSem rb" m] inv room by (simp add: rb_inv_def len m_def)
  have ws': "sem_is (int (m_RingSize rb) - int (length (List_contents r))) ws" using ws len by simp
  have bound: "length (List_contents r) \<le> m_RingSize rb" using room len by (simp add: m_def)
  from exchange_ok [OF inv r(2) bound rs ws' refl, of j] ws(1) r n show ?thesis
    by (auto simp: RingBuffer_write_def clamp_if m_def [symmetric])
qed

lemma read_ok:
  fixes rb :: "'a::zero RingBuffer"
  assumes inv: "rb_inv rb" and enough: "clamp rb n \<le> length (rb_contents rb)"
  shows "\<exists>rb'. RingBuffer_read i j n rb = Some (take (clamp rb n) (rb_contents rb), rb_targets rb, rb') \<and> rb_inv rb' \<and>
    rb_contents rb' = drop (clamp rb n) (rb_contents rb) \<and> rb_targets rb' = [] \<and> m_RingSize rb' = m_RingSize rb"
proof -
  define m where "m = clamp rb n"
  have m: "m \<le> length (rb_contents rb)" "length (rb_contents rb) \<le> m_RingSize rb"
    using enough inv by (simp_all add: m_def rb_inv_def)
  obtain rs where rs: "Semaphore_acquire i m (m_ReadSem rb) = Some (True, rs)"
      "sem_is (int (length (rb_contents rb) - m)) rs"
    using rb_sems(2) [OF inv m(1), of i] by blast
  obtain r where r: "pop_n List_popFront m (m_Ring rb) = Some (take m (rb_contents rb), r)" "List_inv r"
      "List_contents r = drop m (rb_contents rb)"
    using llist.pop_n_front [of "m_Ring rb" m] inv m by (auto simp: rb_inv_def rb_contents_def)
  have len: "length (List_contents r) = length (rb_contents rb) - m" using r(3) by simp
  have rs': "sem_is (int (length (List_contents r))) rs" using rs(2) len by simp
  have ws: "sem_is (int (m_RingSize rb) - int (length (List_contents r))) (sem_release m (m_WriteSem rb))"
    using release_sem_is [of "int (m_RingSize rb) - int (length (rb_contents rb))" "m_WriteSem rb" m] inv m(1)
    by (simp add: rb_inv_def len of_nat_diff algebra_simps)
  have bound: "length (List_contents r) \<le> m_RingSize rb" using m len by simp
  have swap: "rb\<lparr>m_ReadSem := rs, m_Ring := r, m_WriteSem := sem_release m (m_WriteSem rb)\<rparr> =
    rb\<lparr>m_WriteSem := sem_release m (m_WriteSem rb), m_Ring := r, m_ReadSem := rs\<rparr>" by simp
  from exchange_ok [OF inv r(2) bound rs' ws swap, of j] rs(1) r show ?thesis
    by (auto simp: RingBuffer_read_def clamp_if m_def [symmetric])
qed

lemma write_blocks:
  assumes "rb_inv rb" "clamp rb n + length (rb_contents rb) > m_RingSize rb"
  shows "RingBuffer_write False j obj n rb = None"
  using rb_sems(3) [of rb "clamp rb n" False] assms by (simp add: RingBuffer_write_def clamp_if)

lemma read_blocks:
  assumes "rb_inv rb" "clamp rb n > length (rb_contents rb)"
  shows "RingBuffer_read False j n rb = None"
  using rb_sems(4) [of rb "clamp rb n" False] assms by (simp add: RingBuffer_read_def clamp_if)

text \<open>The operations on one object are the bulk ones for a count of one.\<close>

lemma write_one_bulk:
  "m_RingSize rb \<ge> 1 \<Longrightarrow> RingBuffer_write_one i j x rb = map_option snd (RingBuffer_write i j [x] 1 rb)"
  by (auto simp: RingBuffer_write_one_def RingBuffer_write_def map_option_case split: Option.bind_splits prod.splits)

lemma read_one_bulk:
  "m_RingSize rb \<ge> 1 \<Longrightarrow>
     RingBuffer_read_one i j rb = map_option (\<lambda>(out, ev, rb'). (hd out, ev, rb')) (RingBuffer_read i j 1 rb)"
  by (auto simp: RingBuffer_read_one_def RingBuffer_read_def map_option_case split: Option.bind_splits prod.splits)

section \<open>A bounded first-in first-out queue\<close>

text \<open>A history of calls by one thread after another; blocked calls make it \<open>None\<close>.\<close>

datatype 'a rb_op = WriteOne 'a | Write "'a list" | ReadOne | Read nat | Monitor thread nat

fun rb_exec :: "'a::zero rb_op \<Rightarrow> 'a RingBuffer \<Rightarrow> ('a list \<times> 'a RingBuffer) option" where
  "rb_exec (WriteOne x) rb = map_option (\<lambda>(_, rb'). ([], rb')) (RingBuffer_write_one False False x rb)"
| "rb_exec (Write xs) rb = map_option (\<lambda>(_, _, rb'). ([], rb')) (RingBuffer_write False False xs (length xs) rb)"
| "rb_exec ReadOne rb = map_option (\<lambda>(x, _, rb'). ([x], rb')) (RingBuffer_read_one False False rb)"
| "rb_exec (Read n) rb = map_option (\<lambda>(xs, _, rb'). (xs, rb')) (RingBuffer_read False False n rb)"
| "rb_exec (Monitor t e) rb = map_option (\<lambda>rb'. ([], rb')) (RingBuffer_monitor False t e rb)"

fun rb_run :: "'a::zero rb_op list \<Rightarrow> 'a RingBuffer \<Rightarrow> ('a list \<times> 'a RingBuffer) option" where
  "rb_run [] rb = Some ([], rb)"
| "rb_run (c # cs) rb = do { (out, rb') \<leftarrow> rb_exec c rb; (outs, rb'') \<leftarrow> rb_run cs rb'; Some (out @ outs, rb'') }"

text \<open>The objects an operation puts in, for a buffer of the given size.\<close>

fun written :: "nat \<Rightarrow> 'a rb_op \<Rightarrow> 'a list" where
  "written k (WriteOne x) = [x]"
| "written k (Write xs) = take k xs"
| "written k _ = []"

definition rb_grows :: "'a list \<Rightarrow> 'a list \<Rightarrow> 'a RingBuffer \<Rightarrow> 'a RingBuffer \<Rightarrow> bool" where
  "rb_grows ins outs rb rb' \<longleftrightarrow> rb_inv rb' \<and> m_RingSize rb' = m_RingSize rb \<and>
     rb_contents rb @ ins = outs @ rb_contents rb'"

lemma rb_grows_trans:
  assumes "rb_grows i1 o1 rb rb1" "rb_grows i2 o2 rb1 rb'"
  shows "rb_grows (i1 @ i2) (o1 @ o2) rb rb'"
  using assms unfolding rb_grows_def by (metis append.assoc)

lemma write_grows:
  fixes rb :: "'a::zero RingBuffer"
  assumes "RingBuffer_write False j xs (length xs) rb = Some (k, ev, rb')" "rb_inv rb"
  shows "rb_grows (take (m_RingSize rb) xs) [] rb rb'"
proof (cases "clamp rb (length xs) + length (rb_contents rb) \<le> m_RingSize rb")
  case True
  with write_ok [OF assms(2) _ True, of xs False j] assms(1) show ?thesis
    by (auto simp: rb_grows_def min_def)
qed (use write_blocks [OF assms(2)] assms(1) in simp)

lemma read_grows:
  fixes rb :: "'a::zero RingBuffer"
  assumes "RingBuffer_read False j n rb = Some (out, ev, rb')" "rb_inv rb"
  shows "rb_grows [] out rb rb' \<and> length out = clamp rb n"
proof (cases "clamp rb n \<le> length (rb_contents rb)")
  case True
  with read_ok [OF assms(2) True, of False j] assms(1) show ?thesis
    by (auto simp: rb_grows_def)
qed (use read_blocks [OF assms(2), of n j] assms(1) in \<open>simp add: not_le\<close>)

lemma monitor_ok:
  assumes "rb_inv rb"
  shows "\<exists>rb'. RingBuffer_monitor j t e rb = Some rb' \<and> rb_grows [] [] rb rb' \<and>
    rb_targets rb' = rb_targets rb @ [(t, e)]"
proof -
  have "sem_is 1 (m_Lock rb)" "List_inv (m_MonitorTargets rb)" using assms by (simp_all add: rb_inv_def)
  then obtain lck l where "Semaphore_acquire j 1 (m_Lock rb) = Some (True, lck)" "sem_is 0 lck"
    "List_pushBack \<lparr>pThread = t, pEvent = e\<rparr> (m_MonitorTargets rb) = Some l" "List_inv l"
    "List_contents l = List_contents (m_MonitorTargets rb) @ [\<lparr>pThread = t, pEvent = e\<rparr>]"
    using acquire_sem_is(1) [of 1 "m_Lock rb" 1 j] List_pushBack_inv [of "m_MonitorTargets rb" "\<lparr>pThread = t, pEvent = e\<rparr>"]
    by auto
  with release_sem_is [of 0 lck 1] assms show ?thesis
    by (auto simp: RingBuffer_monitor_def rb_grows_def rb_inv_def rb_contents_def rb_targets_def)
qed

lemma exec_grows:
  fixes rb :: "'a::zero RingBuffer"
  assumes "rb_exec c rb = Some (out, rb')" "rb_inv rb" "m_RingSize rb \<ge> 1"
  shows "rb_grows (written (m_RingSize rb) c) out rb rb'"
proof (cases c)
  case (WriteOne x)
  with assms obtain k ev where "RingBuffer_write False False [x] (length [x]) rb = Some (k, ev, rb')" "out = []"
    by (auto simp: write_one_bulk)
  from write_grows [OF this(1) assms(2)] this(2) WriteOne assms(3) show ?thesis by simp
next
  case (Write xs)
  with assms(1) write_grows [OF _ assms(2)] show ?thesis by auto
next
  case ReadOne
  with assms obtain xs ev where "RingBuffer_read False False 1 rb = Some (xs, ev, rb')" "out = [hd xs]"
    by (auto simp: read_one_bulk)
  from read_grows [OF this(1) assms(2)] this(2) ReadOne assms(3) show ?thesis
    by (cases xs) (auto simp: min_absorb1)
next
  case (Read n)
  with assms(1) read_grows [OF _ assms(2)] show ?thesis by auto
next
  case (Monitor t e)
  with assms(1) monitor_ok [OF assms(2), of False t e] show ?thesis by auto
qed

text \<open>C40: Whatever calls are made, as long as none of them is interrupted: the objects that came out,
  followed by those still inside, are the objects that went in, in the same order, and the buffer
  never holds more than its size.\<close>

theorem RingBuffer_fifo:
  fixes rb :: "'a::zero RingBuffer"
  assumes "rb_inv rb" "m_RingSize rb \<ge> 1" "rb_run cs rb = Some (outs, rb')"
  shows "rb_inv rb' \<and> length (rb_contents rb') \<le> m_RingSize rb \<and>
    rb_contents rb @ concat (map (written (m_RingSize rb)) cs) = outs @ rb_contents rb'"
proof -
  from assms have "rb_grows (concat (map (written (m_RingSize rb)) cs)) outs rb rb'"
  proof (induction cs arbitrary: rb outs)
    case Nil
    then show ?case by (simp add: rb_grows_def)
  next
    case (Cons c cs)
    then obtain o1 rb1 o2 where "rb_exec c rb = Some (o1, rb1)" "rb_run cs rb1 = Some (o2, rb')" "outs = o1 @ o2"
      by (auto split: Option.bind_splits)
    with exec_grows [of c rb o1 rb1] Cons.IH [of rb1 o2] Cons.prems
      rb_grows_trans [of "written (m_RingSize rb) c" o1 rb rb1] show ?case
      by (auto simp: rb_grows_def)
  qed
  then show ?thesis by (auto simp: rb_grows_def rb_inv_def)
qed

theorem RingBuffer_fifo_witness:
  "\<exists>rb'. rb_run [Write [1, 2], WriteOne 3, Read 2] (RingBuffer_new 3 :: int RingBuffer) = Some ([1, 2], rb') \<and>
     rb_inv rb' \<and> length (rb_contents rb') \<le> 3 \<and> rb_contents rb' = [3]"
proof -
  let ?rb = "RingBuffer_new 3 :: int RingBuffer"
  let ?cs = "[Write [1, 2], WriteOne 3, Read 2] :: int rb_op list"
  have new: "rb_inv ?rb" "rb_contents ?rb = []" "m_RingSize ?rb = 3"
    using rb_new [of 3, where ?'a = int] by (simp_all add: RingBuffer_new_def)
  have "map_option fst (rb_run ?cs ?rb) = Some [1, 2]" by code_simp
  then obtain rb' where run: "rb_run ?cs ?rb = Some ([1, 2], rb')" by auto
  show ?thesis using RingBuffer_fifo [OF new(1) _ run] new run by simp
qed

text \<open>A write or read that would exceed the capacity, or read more than there is, blocks; it
  takes effect in full or not at all.\<close>

theorem RingBuffer_transfer_iff:
  fixes rb :: "'a::zero RingBuffer"
  assumes "rb_inv rb" "min n (m_RingSize rb) \<le> length obj"
  shows "(RingBuffer_write False j obj n rb = None \<longleftrightarrow>
      m_RingSize rb < min n (m_RingSize rb) + length (rb_contents rb)) \<and>
    (RingBuffer_read False j n rb = None \<longleftrightarrow> length (rb_contents rb) < min n (m_RingSize rb)) \<and>
    RingBuffer_canWrite rb = (length (rb_contents rb) < m_RingSize rb) \<and>
    RingBuffer_dataReady rb = (rb_contents rb \<noteq> [])"
proof (intro conjI)
  show "RingBuffer_write False j obj n rb = None \<longleftrightarrow> m_RingSize rb < min n (m_RingSize rb) + length (rb_contents rb)"
    using write_ok [OF assms, of False j] write_blocks [OF assms(1), of n j obj] by fastforce
  show "RingBuffer_read False j n rb = None \<longleftrightarrow> length (rb_contents rb) < min n (m_RingSize rb)"
    using read_ok [OF assms(1), of n False j] read_blocks [OF assms(1), of n j] by fastforce
qed (use assms(1) in \<open>simp_all add: rb_inv_def RingBuffer_canWrite_def RingBuffer_dataReady_def
    Semaphore_getValue_def sem_is_def\<close>)

theorem RingBuffer_transfer_iff_witness:
  "(RingBuffer_write False False [1, 2] 2 (RingBuffer_new 5 :: int RingBuffer) = None \<longleftrightarrow>
      m_RingSize (RingBuffer_new 5 :: int RingBuffer) <
        min 2 (m_RingSize (RingBuffer_new 5 :: int RingBuffer)) + length (rb_contents (RingBuffer_new 5 :: int RingBuffer))) \<and>
    (RingBuffer_read False False 2 (RingBuffer_new 5 :: int RingBuffer) = None \<longleftrightarrow>
      length (rb_contents (RingBuffer_new 5 :: int RingBuffer)) < min 2 (m_RingSize (RingBuffer_new 5 :: int RingBuffer))) \<and>
    RingBuffer_canWrite (RingBuffer_new 5 :: int RingBuffer) =
      (length (rb_contents (RingBuffer_new 5 :: int RingBuffer)) < m_RingSize (RingBuffer_new 5 :: int RingBuffer)) \<and>
    RingBuffer_dataReady (RingBuffer_new 5 :: int RingBuffer) = (rb_contents (RingBuffer_new 5 :: int RingBuffer) \<noteq> [])"
  by (rule RingBuffer_transfer_iff) (use rb_new [of 5, where ?'a = int] in \<open>simp_all add: RingBuffer_new_def\<close>)

text \<open>The buffer ignores the result of \<open>acquire\<close>.  A write whose wait for a free slot is
  interrupted adds its object all the same: a buffer of size one then holds two objects, and more
  are announced for reading than the size allows.\<close>

theorem RingBuffer_interrupted_overflow:
  "\<exists>rb1 rb2 ev. RingBuffer_write_one False False 7 (RingBuffer_new 1 :: int RingBuffer) = Some ([], rb1) \<and>
     RingBuffer_write_one True False 8 rb1 = Some (ev, rb2) \<and>
     m_RingSize rb2 = 1 \<and> rb_contents rb2 = [7, 8] \<and> m_Counter (m_ReadSem rb2) = 2"
proof -
  let ?w = "RingBuffer_write_one False False 7 (RingBuffer_new 1 :: int RingBuffer)"
  have "map_option (\<lambda>(ev, rb). (ev, map_option (\<lambda>(ev', rb'). (m_RingSize rb', rb_contents rb', m_Counter (m_ReadSem rb')))
      (RingBuffer_write_one True False 8 rb))) ?w = Some ([], Some (1, [7, 8], 2))" by code_simp
  then show ?thesis by auto
qed

section \<open>Culling monitor targets\<close>

lemma List_next_at:
  assumes "List_inv l" "i < length (List_contents l)"
  shows "\<exists>a n it. List_at l i = Some (Some a) \<and> nodes l a = Some n \<and> node_value n = List_contents l ! i \<and>
    List_at l (Suc i) = Some it \<and> Iterator_next (nodes l) (Some a) = Some it"
  using List_erase_at [OF assms] by (fastforce simp: Iterator_next_def)

abbreviation other :: "thread \<Rightarrow> MonitorTarget \<Rightarrow> bool" where
  "other t mt \<equiv> pThread mt \<noteq> t"

lemma filter_drop_erase:
  assumes "i < length c" "\<not> P (c ! i)" "i \<ge> 1"
  shows "hd (take i c @ drop (Suc i) c) = hd c"
    and "filter P (tl (take i c @ drop (Suc i) c)) = filter P (tl c)"
proof -
  have c: "c = take i c @ c ! i # drop (Suc i) c" using assms(1) by (rule id_take_nth_drop)
  have ne: "take i c \<noteq> []" using assms by auto
  show "hd (take i c @ drop (Suc i) c) = hd c" using ne by (cases c; cases i) auto
  have "filter P (tl c) = filter P (tl (take i c @ c ! i # drop (Suc i) c))" using c by simp
  then show "filter P (tl (take i c @ drop (Suc i) c)) = filter P (tl c)" using ne assms(2) by simp
qed

lemma cull_loop_at:
  assumes "List_inv l" "1 \<le> i" "i \<le> length (List_contents l)" "List_at l i = Some it"
    and "\<And>k. 1 \<le> k \<Longrightarrow> k < i \<Longrightarrow> other t (List_contents l ! k)"
  shows "\<exists>l'. cull_loop t it l = Some (True, l') \<and> List_inv l' \<and>
    List_contents l' = hd (List_contents l) # filter (other t) (tl (List_contents l))"
  using assms
proof (induction "(length (List_contents l), length (List_contents l) - i)" arbitrary: l i it
    rule: wf_induct_rule [OF wf_lex_prod [OF wf_less wf_less]])
  case less: 1
  let ?c = "List_contents l"
  show ?case
  proof (cases "i = length ?c")
    case True
    then have "it = None" using less.prems(4) List_at_end [OF less.prems(1)] by simp
    moreover have "filter (other t) (tl ?c) = tl ?c"
    proof (rule filter_True, rule ballI)
      fix x assume "x \<in> set (tl ?c)"
      then obtain k where "k < length (tl ?c)" "x = tl ?c ! k" by (auto simp: in_set_conv_nth)
      then have "x = ?c ! Suc k" "Suc k < length ?c" by (auto simp: nth_tl)
      then show "other t x" using less.prems(5) [of "Suc k"] True by simp
    qed
    moreover have "?c \<noteq> []" using True less.prems(2) by auto
    ultimately show ?thesis using less.prems(1) by (subst cull_loop.simps) auto
  next
    case False
    then have i: "i < length ?c" using less.prems(3) by simp
    obtain a n it' l' where at: "it = Some a" "nodes l a = Some n" "node_value n = ?c ! i"
      "List_at l (Suc i) = Some it'" "Iterator_next (nodes l) (Some a) = Some it'"
      and er: "List_erase a l = Some (it', l')" "List_inv l'" "List_contents l' = take i ?c @ drop (Suc i) ?c"
      using List_erase_at [OF less.prems(1) i] less.prems(4) by (auto simp: Iterator_next_def)
    show ?thesis
    proof (cases "other t (?c ! i)")
      case True
      have "\<exists>l'. cull_loop t it' l = Some (True, l') \<and> List_inv l' \<and> List_contents l' = hd ?c # filter (other t) (tl ?c)"
        by (rule less.hyps [OF _ less.prems(1) _ _ at(4)]) (use i less.prems(2,5) True in \<open>auto simp: less_Suc_eq\<close>)
      with at True show ?thesis by (subst cull_loop.simps) simp
    next
      case hit: False
      have ne: "0 < length (List_contents l')" using er(3) i less.prems(2) by simp
      obtain b it2 where b: "m_First l' = Some b" "List_at l' (Suc 0) = Some it2"
        "Iterator_next (nodes l') (Some b) = Some it2"
        using List_next_at [OF er(2) ne] by (auto simp: List_at_def)
      have "\<exists>l2. cull_loop t it2 l' = Some (True, l2) \<and> List_inv l2 \<and>
          List_contents l2 = hd (List_contents l') # filter (other t) (tl (List_contents l'))"
        by (rule less.hyps [OF _ er(2) _ _ b(2)]) (use er(3) i ne in auto)
      with filter_drop_erase [of i ?c "other t"] i hit less.prems(2) er at b show ?thesis
        by (subst cull_loop.simps) simp
    qed
  qed
qed

text \<open>The targets that are left: the loop restarts at \<open>begin()\<close> after an erasure, but then
  still executes \<open>it++\<close>, so the target that has become the first one is not looked at.\<close>

fun cull_kept :: "thread \<Rightarrow> MonitorTarget list \<Rightarrow> MonitorTarget list" where
  "cull_kept t [] = []"
| "cull_kept t [x] = (if other t x then [x] else [])"
| "cull_kept t (x # y # ys) = (if other t x then x # filter (other t) (y # ys) else y # filter (other t) ys)"

lemma cull_loop_ok:
  assumes "List_inv l"
  shows "\<exists>l'. cull_loop t (m_First l) l = Some (\<not> (\<exists>x. List_contents l = [x] \<and> \<not> other t x), l') \<and> List_inv l' \<and>
    List_contents l' = cull_kept t (List_contents l)"
proof (cases "List_contents l")
  case Nil
  then have "m_First l = None" using List_at_end [OF assms] by (simp add: List_at_def)
  with Nil assms show ?thesis by (subst cull_loop.simps) simp
next
  case (Cons x xs)
  then obtain a n it l1 where a: "m_First l = Some a" "nodes l a = Some n" "node_value n = x"
    "List_at l 1 = Some it" "Iterator_next (nodes l) (Some a) = Some it"
    and er: "List_erase a l = Some (it, l1)" "List_inv l1" "List_contents l1 = xs"
    using List_erase_at [OF assms, of 0] by (auto simp: List_at_def Iterator_next_def)
  show ?thesis
  proof (cases "other t x")
    case True
    with cull_loop_at [OF assms _ _ a(4), of t] Cons a show ?thesis
      by (subst cull_loop.simps) (cases xs, auto)
  next
    case hit: False
    show ?thesis
    proof (cases xs)
      case Nil
      then have "m_First l1 = None" using List_at_end [OF er(2)] er(3) by (simp add: List_at_def)
      with Nil Cons a er hit show ?thesis by (subst cull_loop.simps) simp
    next
      case ys: (Cons y ys)
      obtain b it2 where b: "m_First l1 = Some b" "List_at l1 (Suc 0) = Some it2"
        "Iterator_next (nodes l1) (Some b) = Some it2"
        using List_next_at [OF er(2), of 0] er(3) ys by (auto simp: List_at_def)
      with cull_loop_at [OF er(2), of 1 it2 t] Cons a er hit ys show ?thesis
        by (subst cull_loop.simps) simp
    qed
  qed
qed

text \<open>\<open>cullMonitorTargets\<close> always returns.  It keeps every target of the other threads, in
  order, and at most one target of the given thread, which is then the first.  It leaves the mutex
  free, except when the only target belonged to the thread: then the early \<open>return\<close> leaves it
  locked.\<close>

theorem RingBuffer_cullMonitorTargets_correct:
  assumes "rb_inv rb"
  shows "\<exists>rb'. RingBuffer_cullMonitorTargets j t rb = Some rb' \<and>
    rb_targets rb' = map (\<lambda>mt. (pThread mt, pEvent mt)) (cull_kept t (List_contents (m_MonitorTargets rb))) \<and>
    filter (\<lambda>(u, _). u \<noteq> t) (rb_targets rb') = filter (\<lambda>(u, _). u \<noteq> t) (rb_targets rb) \<and>
    (\<forall>k < length (rb_targets rb'). fst (rb_targets rb' ! k) = t \<longrightarrow> k = 0) \<and>
    m_Counter (m_Lock rb') = (if \<exists>e. rb_targets rb = [(t, e)] then 0 else 1)"
proof -
  obtain lck where lck: "Semaphore_acquire j 1 (m_Lock rb) = Some (True, lck)" "sem_is 0 lck"
    using acquire_sem_is(1) [of 1 "m_Lock rb" 1 j] assms by (auto simp: rb_inv_def)
  let ?c = "List_contents (m_MonitorTargets rb)"
  let ?b = "\<not> (\<exists>x. ?c = [x] \<and> \<not> other t x)"
  obtain l where l: "cull_loop t (m_First (m_MonitorTargets rb)) (m_MonitorTargets rb) = Some (?b, l)"
    "List_inv l" "List_contents l = cull_kept t ?c"
    using cull_loop_ok [of "m_MonitorTargets rb" t] assms by (auto simp: rb_inv_def)
  let ?rb = "rb\<lparr>m_MonitorTargets := l, m_Lock := (if ?b then sem_release 1 lck else lck)\<rparr>"
  have res: "RingBuffer_cullMonitorTargets j t rb = Some ?rb"
    using lck(1) l(1) by (simp add: RingBuffer_cullMonitorTargets_def)
  have b: "?b \<longleftrightarrow> \<not> (\<exists>e. rb_targets rb = [(t, e)])" by (auto simp: rb_targets_def)
  have "m_Counter (m_Lock ?rb) = (if ?b then 1 else 0)"
    using lck(2) release_sem_is [OF lck(2), of 1] by (simp add: sem_is_def)
  with b have cnt: "m_Counter (m_Lock ?rb) = (if \<exists>e. rb_targets rb = [(t, e)] then 0 else 1)" by presburger
  have kept: "filter (other t) (cull_kept t c) = filter (other t) c"
    "\<And>k. k < length (cull_kept t c) \<Longrightarrow> \<not> other t (cull_kept t c ! k) \<Longrightarrow> k = 0" for c
  proof -
    show "filter (other t) (cull_kept t c) = filter (other t) c"
      by (induction t c rule: cull_kept.induct) auto
    fix k assume k: "k < length (cull_kept t c)" "\<not> other t (cull_kept t c ! k)"
    have "\<forall>x \<in> set (tl (cull_kept t c)). other t x"
      by (induction t c rule: cull_kept.induct) auto
    with k show "k = 0" by (cases "cull_kept t c"; cases k) auto
  qed
  have f: "filter (\<lambda>(u, _). u \<noteq> t) (map (\<lambda>mt. (pThread mt, pEvent mt)) c) =
    map (\<lambda>mt. (pThread mt, pEvent mt)) (filter (other t) c)" for c
    by (induction c) auto
  show ?thesis
    by (rule exI [of _ ?rb], intro conjI allI impI)
      (use res cnt in \<open>simp_all add: rb_targets_def l(3) f kept(1)\<close>, use kept(2) [of _ ?c] in blast)
qed

theorem RingBuffer_cullMonitorTargets_correct_witness:
  "\<exists>rb rb'. RingBuffer_monitor False 1 5 (RingBuffer_new 2 :: int RingBuffer) = Some rb \<and>
     RingBuffer_cullMonitorTargets False 1 rb = Some rb' \<and> rb_targets rb = [(1, 5)] \<and> rb_targets rb' = [] \<and>
     m_Counter (m_Lock rb') = 0"
proof -
  have new: "rb_inv (RingBuffer_new 2 :: int RingBuffer)" "rb_targets (RingBuffer_new 2 :: int RingBuffer) = []"
    using rb_new [of 2, where ?'a = int] by (simp_all add: rb_targets_def RingBuffer_new_def)
  obtain rb where rb: "RingBuffer_monitor False 1 5 (RingBuffer_new 2 :: int RingBuffer) = Some rb" "rb_inv rb"
    "rb_targets rb = [(1, 5)]"
    using monitor_ok [OF new(1), of False 1 5] new(2) by (auto simp: rb_grows_def)
  then have "cull_kept 1 (List_contents (m_MonitorTargets rb)) = []" by (auto simp: rb_targets_def)
  with RingBuffer_cullMonitorTargets_correct [OF rb(2), of False 1] rb show ?thesis by auto
qed

text \<open>The consequence: once a buffer's only monitor is culled, every later read, write or
  registration blocks for ever, whatever the buffer holds.\<close>

theorem RingBuffer_cull_deadlock:
  fixes rb :: "'a::zero RingBuffer"
  assumes "rb_inv rb" "rb_targets rb = [(t, e)]" "RingBuffer_cullMonitorTargets j t rb = Some rb'"
  shows "RingBuffer_write_one i False x rb' = None \<and> RingBuffer_read_one i False rb' = None \<and>
    RingBuffer_monitor False u f rb' = None"
proof -
  obtain lck where lck: "Semaphore_acquire j 1 (m_Lock rb) = Some (True, lck)" "sem_is 0 lck"
    using acquire_sem_is(1) [of 1 "m_Lock rb" 1 j] assms(1) by (auto simp: rb_inv_def)
  have "\<exists>x. List_contents (m_MonitorTargets rb) = [x] \<and> \<not> other t x"
    using assms(2) by (auto simp: rb_targets_def)
  with cull_loop_ok [of "m_MonitorTargets rb" t] assms(1,3) lck(1) have "m_Lock rb' = lck"
    by (auto simp: rb_inv_def RingBuffer_cullMonitorTargets_def)
  then have "Semaphore_acquire False 1 (m_Lock rb') = None"
    using acquire_sem_is(2) [OF lck(2), of 1 False] by simp
  then show ?thesis
    by (simp add: RingBuffer_write_one_def RingBuffer_read_one_def RingBuffer_monitor_def
        RingBuffer_notifyMonitors_def bind_eq_None_conv split_def)
qed

theorem RingBuffer_cull_deadlock_witness:
  "\<exists>rb rb'. RingBuffer_monitor False 1 5 (RingBuffer_new 2 :: int RingBuffer) = Some rb \<and>
     RingBuffer_cullMonitorTargets False 1 rb = Some rb' \<and> RingBuffer_write_one False False 3 rb' = None"
proof -
  have new: "rb_inv (RingBuffer_new 2 :: int RingBuffer)" "rb_targets (RingBuffer_new 2 :: int RingBuffer) = []"
    using rb_new [of 2, where ?'a = int] by (simp_all add: rb_targets_def RingBuffer_new_def)
  obtain rb where rb: "RingBuffer_monitor False 1 5 (RingBuffer_new 2 :: int RingBuffer) = Some rb" "rb_inv rb"
    "rb_targets rb = [(1, 5)]"
    using monitor_ok [OF new(1), of False 1 5] new(2) by (auto simp: rb_grows_def)
  have "RingBuffer_cullMonitorTargets False 1 rb \<noteq> None"
    using cull_loop_ok [of "m_MonitorTargets rb" 1] acquire_sem_is(1) [of 1 "m_Lock rb" 1 False] rb(2)
    by (auto simp: RingBuffer_cullMonitorTargets_def rb_inv_def)
  then obtain rb' where "RingBuffer_cullMonitorTargets False 1 rb = Some rb'" by blast
  with RingBuffer_cull_deadlock [OF rb(2,3) this, of False 3] rb(1) show ?thesis by blast
qed

end
