(* ===== verification/AVL_Tree.thy ===== *)
theory AVL_Tree
  imports Pedigree_Prelude "HOL-Library.Monad_Syntax"
begin

text \<open>
  \<^verbatim>\<open>Tree<K, E>\<close> (\<^verbatim>\<open>system/include/utilities/Tree.h\<close>), the kernel's dictionary: an AVL tree whose
  nodes store a height that is recomputed on the way up.  Nodes are values of a datatype; the
  parent pointers, which the code uses to walk back to the root, are the recursion.  A rotation
  around a missing child dereferences null in the code and is \<open>None\<close> here.  The element type has
  a zero, the value that \<open>lookup\<close> returns for absent keys.
\<close>

datatype ('k, 'e) node =
    Null
  | Node (leftChild: "('k, 'e) node") (key: 'k) (element: 'e) (stored: nat) (rightChild: "('k, 'e) node")

record ('k, 'e) Tree =
  root :: "('k, 'e) node"
  nItems :: nat

definition Tree_new :: "('k, 'e) Tree" where
  "Tree_new = \<lparr>root = Null, nItems = 0\<rparr>"

definition Tree_count :: "('k, 'e) Tree \<Rightarrow> nat" where
  "Tree_count t = nItems t"

section \<open>Heights and rotations\<close>

text \<open>The stored height, which \<open>height\<close> reads through the child pointers, and \<open>height\<close> itself,
  which recomputes and stores it.\<close>

fun stored_height :: "('k, 'e) node \<Rightarrow> nat" where
  "stored_height Null = 0"
| "stored_height (Node l k e h r) = h"

fun Tree_height :: "('k, 'e) node \<Rightarrow> nat \<times> ('k, 'e) node" where
  "Tree_height Null = (0, Null)"
| "Tree_height (Node l k e h r) =
     (let tempL = stored_height l + 1; tempR = stored_height r + 1; h' = (if tempL > tempR then tempL else tempR)
      in (h', Node l k e h' r))"

fun Tree_balanceFactor :: "('k, 'e) node \<Rightarrow> int \<times> ('k, 'e) node" where
  "Tree_balanceFactor Null = (0, Null)"
| "Tree_balanceFactor (Node l k e h r) =
     (let (hr, r') = Tree_height r; (hl, l') = Tree_height l in (int hr - int hl, Node l' k e h r'))"

fun Tree_rotateLeft :: "('k, 'e) node \<Rightarrow> ('k, 'e) node option" where
  "Tree_rotateLeft (Node a k e h (Node b ky ey hy c)) = Some (Node (Node a k e h b) ky ey hy c)"
| "Tree_rotateLeft _ = None"

fun Tree_rotateRight :: "('k, 'e) node \<Rightarrow> ('k, 'e) node option" where
  "Tree_rotateRight (Node (Node a ky ey hy b) k e h c) = Some (Node a ky ey hy (Node b k e h c))"
| "Tree_rotateRight _ = None"

text \<open>Replacing a child, as the assignments through the parent pointer do.\<close>

fun set_left :: "('k, 'e) node \<Rightarrow> ('k, 'e) node \<Rightarrow> ('k, 'e) node" where
  "set_left l' (Node l k e h r) = Node l' k e h r"
| "set_left l' Null = Null"

fun set_right :: "('k, 'e) node \<Rightarrow> ('k, 'e) node \<Rightarrow> ('k, 'e) node" where
  "set_right r' (Node l k e h r) = Node l k e h r'"
| "set_right r' Null = Null"

definition Tree_rebalanceNode :: "('k, 'e) node \<Rightarrow> ('k, 'e) node option" where
  "Tree_rebalanceNode n =
     (let (balance, n) = Tree_balanceFactor n
      in if balance < -1 then
           (let (bl, l) = Tree_balanceFactor (leftChild n); n = set_left l n
            in if bl > 0 then do { l' \<leftarrow> Tree_rotateLeft l; Tree_rotateRight (set_left l' n) }
               else Tree_rotateRight n)
         else if balance > 1 then
           (let (br, r) = Tree_balanceFactor (rightChild n); n = set_right r n
            in if br < 0 then do { r' \<leftarrow> Tree_rotateRight r; Tree_rotateLeft (set_right r' n) }
               else Tree_rotateLeft n)
         else Some n)"

text \<open>One position of the walk towards the root: while the node there is out of balance it is
  rebalanced, and the next node, its new parent, is the one that took its position.\<close>

partial_function (option) walk_up :: "('k, 'e) node \<Rightarrow> ('k, 'e) node option" where
  "walk_up n =
     (let (b, n') = Tree_balanceFactor n
      in if b < -1 \<or> b > 1 then Option.bind (Tree_rebalanceNode n') walk_up else Some n')"

declare walk_up.simps [code]

section \<open>Operations\<close>

fun lookup_node :: "'k::linorder \<Rightarrow> ('k, 'e::zero) node \<Rightarrow> 'e" where
  "lookup_node x Null = 0"
| "lookup_node x (Node l k e h r) =
     (if k = x then e else if k > x then lookup_node x l else lookup_node x r)"

definition Tree_lookup :: "'k::linorder \<Rightarrow> ('k, 'e::zero) Tree \<Rightarrow> 'e" where
  "Tree_lookup x t = lookup_node x (root t)"

fun insert_node :: "'k::linorder \<Rightarrow> 'e \<Rightarrow> ('k, 'e) node \<Rightarrow> ('k, 'e) node option" where
  "insert_node x v Null = Some (Node Null x v 0 Null)"
| "insert_node x v (Node l k e h r) =
     (if x > k then do { r' \<leftarrow> insert_node x v r; walk_up (Node l k e h r') }
      else do { l' \<leftarrow> insert_node x v l; walk_up (Node l' k e h r) })"

definition Tree_insert :: "'k::linorder \<Rightarrow> 'e::zero \<Rightarrow> ('k, 'e) Tree \<Rightarrow> ('k, 'e) Tree option" where
  "Tree_insert x v t =
     (if Tree_lookup x t \<noteq> 0 then Some t
      else do { n \<leftarrow> insert_node x v (root t); Some \<lparr>root = n, nItems = nItems t + 1\<rparr> })"

text \<open>\<open>remove\<close> rotates the node down until it is a leaf, prunes it, and walks up.  The rotations
  of one round are followed by the next round below and, when that is done, by the walk through
  the nodes that were rotated above it.\<close>

lemma size_height [simp]: "size (snd (Tree_height n)) = size n"
  by (cases n) (simp_all add: Let_def)

function rotate_down :: "('k, 'e) node \<Rightarrow> ('k, 'e) node option" where
  "rotate_down Null = None"
| "rotate_down (Node l k e h r) =
     (if l = Null \<and> r = Null then Some Null
      else (let (hl, l1) = Tree_height l; (hr, r1) = Tree_height r
            in if hl = 0 then
                 (case r1 of
                    Null \<Rightarrow> None
                  | Node b ky ey hy c \<Rightarrow>
                      do { n \<leftarrow> rotate_down (Node l1 k e h b); walk_up (Node n ky ey hy c) })
               else if hr = 0 then
                 (case l1 of
                    Null \<Rightarrow> None
                  | Node a ky ey hy b \<Rightarrow>
                      do { n \<leftarrow> rotate_down (Node b k e h r1); walk_up (Node a ky ey hy n) })
               else
                 (case (l1, r1) of
                    (Node a kl el hl' b, Node c kr er hr' d) \<Rightarrow>
                      do { n \<leftarrow> rotate_down (Node b k e h c);
                           if hl \<le> hr
                           then do { m \<leftarrow> walk_up (Node n kr er hr' d); walk_up (Node a kl el hl' m) }
                           else do { m \<leftarrow> walk_up (Node a kl el hl' n); walk_up (Node m kr er hr' d) } }
                  | _ \<Rightarrow> None)))"
  by pat_completeness auto
termination
proof (relation "measure size", goal_cases)
  case (2 l k e h r x hl l1 y hr r1 b ky ey hy c)
  then have "size l1 = size l" "size r1 = size r" by (metis size_height snd_conv)+
  with 2 show ?case by simp
next
  case (3 l k e h r x hl l1 y hr r1 a ky ey hy b)
  then have "size l1 = size l" "size r1 = size r" by (metis size_height snd_conv)+
  with 3 show ?case by simp
next
  case (4 l k e h r x hl l1 y hr r1 z u a kl el hl' b c kr er hr' d)
  then have "size l1 = size l" "size r1 = size r" by (metis size_height snd_conv)+
  moreover have "l1 = Node a kl el hl' b" "r1 = Node c kr er hr' d" using 4 by simp_all
  ultimately show ?case by simp
qed simp

declare rotate_down.simps [simp del]

fun remove_node :: "'k::linorder \<Rightarrow> ('k, 'e) node \<Rightarrow> ('k, 'e) node option" where
  "remove_node x Null = None"
| "remove_node x (Node l k e h r) =
     (if k = x then rotate_down (Node l k e h r)
      else if k > x then do { l' \<leftarrow> remove_node x l; walk_up (Node l' k e h r) }
      else do { r' \<leftarrow> remove_node x r; walk_up (Node l k e h r') })"

fun find_node :: "'k::linorder \<Rightarrow> ('k, 'e) node \<Rightarrow> bool" where
  "find_node x Null = False"
| "find_node x (Node l k e h r) = (if k = x then True else if k > x then find_node x l else find_node x r)"

definition Tree_remove :: "'k::linorder \<Rightarrow> ('k, 'e) Tree \<Rightarrow> ('k, 'e) Tree option" where
  "Tree_remove x t =
     (if \<not> find_node x (root t) then Some t
      else do { n \<leftarrow> remove_node x (root t); Some \<lparr>root = n, nItems = nItems t - 1\<rparr> })"

definition Tree_clear :: "('k, 'e) Tree \<Rightarrow> ('k, 'e) Tree" where
  "Tree_clear t = \<lparr>root = Null, nItems = 0\<rparr>"

text \<open>\<open>traverseNode_Insert\<close>, which the copy constructor and the assignment use.\<close>

fun traverseNode_Insert :: "('k::linorder, 'e::zero) node \<Rightarrow> ('k, 'e) Tree \<Rightarrow> ('k, 'e) Tree option" where
  "traverseNode_Insert Null t = Some t"
| "traverseNode_Insert (Node l k e h r) t = do {
     t1 \<leftarrow> Tree_insert k e t;
     t2 \<leftarrow> traverseNode_Insert l t1;
     traverseNode_Insert r t2 }"

definition Tree_assign :: "('k::linorder, 'e::zero) Tree \<Rightarrow> ('k, 'e) Tree \<Rightarrow> ('k, 'e) Tree option" where
  "Tree_assign x t = traverseNode_Insert (root x) (Tree_clear t)"

definition Tree_copy :: "('k::linorder, 'e::zero) Tree \<Rightarrow> ('k, 'e) Tree option" where
  "Tree_copy x = traverseNode_Insert (root x) Tree_new"

section \<open>Heights\<close>

fun ht :: "('k, 'e) node \<Rightarrow> nat" where
  "ht Null = 0"
| "ht (Node l k e h r) = Suc (max (ht l) (ht r))"

text \<open>\<open>exact\<close>: every stored height is right.  \<open>below\<close>: all of them but the root's.  \<open>near\<close>: all
  of them but the root's and its children's, which is what \<open>balanceFactor\<close> needs.\<close>

fun exact :: "('k, 'e) node \<Rightarrow> bool" where
  "exact Null = True"
| "exact (Node l k e h r) \<longleftrightarrow> exact l \<and> exact r \<and> h = Suc (max (ht l) (ht r))"

fun below :: "('k, 'e) node \<Rightarrow> bool" where
  "below Null = True"
| "below (Node l k e h r) \<longleftrightarrow> exact l \<and> exact r"

fun near :: "('k, 'e) node \<Rightarrow> bool" where
  "near Null = True"
| "near (Node l k e h r) \<longleftrightarrow> below l \<and> below r"

lemma exact_below: "exact n \<Longrightarrow> below n"
  by (cases n) auto

lemma below_near: "below n \<Longrightarrow> near n"
  by (cases n) (auto simp: exact_below)

lemma exact_stored: "exact n \<Longrightarrow> stored_height n = ht n"
  by (cases n) auto

fun entries :: "('k, 'e) node \<Rightarrow> ('k \<times> 'e) list" where
  "entries Null = []"
| "entries (Node l k e h r) = entries l @ (k, e) # entries r"

text \<open>The tree without its stored heights, which is all that recomputing heights keeps.\<close>

fun strip :: "('k, 'e) node \<Rightarrow> ('k, 'e) node" where
  "strip Null = Null"
| "strip (Node l k e h r) = Node (strip l) k e 0 (strip r)"

lemma strip_idem [simp]: "strip (strip n) = strip n"
  by (induction n) simp_all

lemma strip_ht: "strip n' = strip n \<Longrightarrow> ht n' = ht n"
proof -
  have "ht (strip n) = ht n" for n :: "('a, 'b) node" by (induction n) auto
  then show "strip n' = strip n \<Longrightarrow> ht n' = ht n" by metis
qed

lemma strip_entries: "strip n' = strip n \<Longrightarrow> entries n' = entries n"
proof -
  have "entries (strip n) = entries n" for n :: "('a, 'b) node" by (induction n) auto
  then show "strip n' = strip n \<Longrightarrow> entries n' = entries n" by metis
qed

lemma strip_Null [simp]: "strip n = Null \<longleftrightarrow> n = Null" "Null = strip n \<longleftrightarrow> n = Null"
  by (cases n; simp)+

lemma strip_Node: "strip n = Node l k e h r \<longleftrightarrow> (\<exists>l' h' r'. n = Node l' k e h' r' \<and> strip l' = l \<and> strip r' = r \<and> h = 0)"
  by (cases n) auto

lemma height_below:
  assumes "below n"
  shows "\<exists>n'. Tree_height n = (ht n, n') \<and> exact n' \<and> strip n' = strip n"
  using assms by (cases n) (auto simp: exact_stored max_def)

lemma balance_near:
  assumes "near (Node l k e h r)"
  shows "\<exists>l' r'. Tree_balanceFactor (Node l k e h r) = (int (ht r) - int (ht l), Node l' k e h r') \<and>
    exact l' \<and> exact r' \<and> strip l' = strip l \<and> strip r' = strip r"
proof -
  have "below l" "below r" using assms by simp_all
  with height_below [of l] height_below [of r] show ?thesis by fastforce
qed

text \<open>The shapes that rebalancing a left-heavy and a right-heavy node gives.\<close>

lemma rebalance_left:
  assumes near: "near (Node l k e h r)" and heavy: "ht l \<ge> ht r + 2"
    and l: "l = Node a kl el hl b"
  shows "ht b \<le> ht a \<Longrightarrow> \<exists>n'. Tree_rebalanceNode (Node l k e h r) = Some n' \<and> near n' \<and>
      strip n' = strip (Node a kl el 0 (Node b k e 0 r))"
    and "ht a < ht b \<Longrightarrow> b = Node x kb eb hb y \<Longrightarrow> \<exists>n'. Tree_rebalanceNode (Node l k e h r) = Some n' \<and> near n' \<and>
      strip n' = strip (Node (Node a kl el 0 x) kb eb 0 (Node y k e 0 r))"
proof -
  obtain l1 r1 where 1: "Tree_balanceFactor (Node l k e h r) = (int (ht r) - int (ht l), Node l1 k e h r1)"
    "exact l1" "exact r1" "strip l1 = strip l" "strip r1 = strip r"
    using balance_near [OF near] by blast
  obtain a1 h1 b1 where l1: "l1 = Node a1 kl el h1 b1" "strip a1 = strip a" "strip b1 = strip b"
    using 1(4) l by (auto simp: strip_Node)
  have "near l1" using 1(2) by (simp add: exact_below below_near)
  with balance_near [of a1 kl el h1 b1] l1 obtain a2 b2 where
    2: "Tree_balanceFactor l1 = (int (ht b) - int (ht a), Node a2 kl el h1 b2)"
    "exact a2" "exact b2" "strip a2 = strip a" "strip b2 = strip b"
    using strip_ht [of a1 a] strip_ht [of b1 b] by auto
  show "\<exists>n'. Tree_rebalanceNode (Node l k e h r) = Some n' \<and> near n' \<and> strip n' = strip (Node a kl el 0 (Node b k e 0 r))"
    if "ht b \<le> ht a"
    using 1 2 heavy that by (auto simp: Tree_rebalanceNode_def exact_below)
  show "\<exists>n'. Tree_rebalanceNode (Node l k e h r) = Some n' \<and> near n' \<and>
      strip n' = strip (Node (Node a kl el 0 x) kb eb 0 (Node y k e 0 r))"
    if c: "ht a < ht b" "b = Node x kb eb hb y"
  proof -
    obtain x2 h2 y2 where "b2 = Node x2 kb eb h2 y2" "strip x2 = strip x" "strip y2 = strip y"
      using 2(5) c(2) by (auto simp: strip_Node)
    with 1 2 heavy c show ?thesis by (auto simp: Tree_rebalanceNode_def exact_below)
  qed
qed

lemma rebalance_right:
  assumes near: "near (Node l k e h r)" and heavy: "ht r \<ge> ht l + 2"
    and r: "r = Node a kr er hr b"
  shows "ht a \<le> ht b \<Longrightarrow> \<exists>n'. Tree_rebalanceNode (Node l k e h r) = Some n' \<and> near n' \<and>
      strip n' = strip (Node (Node l k e 0 a) kr er 0 b)"
    and "ht b < ht a \<Longrightarrow> a = Node x ka ea ha y \<Longrightarrow> \<exists>n'. Tree_rebalanceNode (Node l k e h r) = Some n' \<and> near n' \<and>
      strip n' = strip (Node (Node l k e 0 x) ka ea 0 (Node y kr er 0 b))"
proof -
  obtain l1 r1 where 1: "Tree_balanceFactor (Node l k e h r) = (int (ht r) - int (ht l), Node l1 k e h r1)"
    "exact l1" "exact r1" "strip l1 = strip l" "strip r1 = strip r"
    using balance_near [OF near] by blast
  obtain a1 h1 b1 where r1: "r1 = Node a1 kr er h1 b1" "strip a1 = strip a" "strip b1 = strip b"
    using 1(5) r by (auto simp: strip_Node)
  have "near r1" using 1(3) by (simp add: exact_below below_near)
  with balance_near [of a1 kr er h1 b1] r1 obtain a2 b2 where
    2: "Tree_balanceFactor r1 = (int (ht b) - int (ht a), Node a2 kr er h1 b2)"
    "exact a2" "exact b2" "strip a2 = strip a" "strip b2 = strip b"
    using strip_ht [of a1 a] strip_ht [of b1 b] by auto
  show "\<exists>n'. Tree_rebalanceNode (Node l k e h r) = Some n' \<and> near n' \<and> strip n' = strip (Node (Node l k e 0 a) kr er 0 b)"
    if "ht a \<le> ht b"
    using 1 2 heavy that by (auto simp: Tree_rebalanceNode_def exact_below)
  show "\<exists>n'. Tree_rebalanceNode (Node l k e h r) = Some n' \<and> near n' \<and>
      strip n' = strip (Node (Node l k e 0 x) ka ea 0 (Node y kr er 0 b))"
    if c: "ht b < ht a" "a = Node x ka ea ha y"
  proof -
    obtain x2 h2 y2 where "a2 = Node x2 ka ea h2 y2" "strip x2 = strip x" "strip y2 = strip y"
      using 2(4) c(2) by (auto simp: strip_Node)
    with 1 2 heavy c show ?thesis by (auto simp: Tree_rebalanceNode_def exact_below)
  qed
qed

section \<open>The walk towards the root\<close>

definition balanced :: "('k, 'e) node \<Rightarrow> bool" where
  "balanced n \<longleftrightarrow> \<bar>int (ht (rightChild n)) - int (ht (leftChild n))\<bar> \<le> 1"

definition taller :: "('k, 'e) node \<Rightarrow> nat" where
  "taller n = max (ht (leftChild n)) (ht (rightChild n))"

lemma strip_children:
  assumes "strip n' = strip n" "n \<noteq> Null"
  shows "ht (leftChild n') = ht (leftChild n)" "ht (rightChild n') = ht (rightChild n)" "n' \<noteq> Null"
proof -
  obtain l k e h r where n: "n = Node l k e h r" using assms(2) by (cases n) auto
  with assms(1) obtain l' h' r' where n': "n' = Node l' k e h' r'" "strip l' = strip l" "strip r' = strip r"
    by (auto simp: strip_Node)
  show "ht (leftChild n') = ht (leftChild n)" using n n' strip_ht [of l' l] by simp
  show "ht (rightChild n') = ht (rightChild n)" using n n' strip_ht [of r' r] by simp
  show "n' \<noteq> Null" using n' by simp
qed

lemma strip_balanced: "strip n' = strip n \<Longrightarrow> n \<noteq> Null \<Longrightarrow> balanced n' = balanced n"
  using strip_children [of n' n] by (simp add: balanced_def)

lemma strip_taller: "strip n' = strip n \<Longrightarrow> n \<noteq> Null \<Longrightarrow> taller n' = taller n"
  using strip_children [of n' n] by (simp add: taller_def)

text \<open>Rebalancing keeps the entries and leaves the position in balance or its children lower.\<close>

lemma rebalance_ok:
  assumes near: "near n" and n: "n \<noteq> Null" "\<not> balanced n"
  shows "\<exists>n'. Tree_rebalanceNode n = Some n' \<and> near n' \<and> n' \<noteq> Null \<and> entries n' = entries n \<and>
    (balanced n' \<or> taller n' < taller n)"
proof -
  obtain l k e h r where nn: "n = Node l k e h r" using n(1) by (cases n) auto
  have finish: ?thesis if "Tree_rebalanceNode n = Some n'" "near n'" "strip n' = strip m" "m \<noteq> Null"
    "entries m = entries n" "balanced m \<or> taller m < taller n" for n' m
    using that strip_entries [OF that(3)] strip_balanced [OF that(3,4)] strip_taller [OF that(3,4)] strip_children(3) [OF that(3,4)]
    by auto
  consider "ht l \<ge> ht r + 2" | "ht r \<ge> ht l + 2" using n(2) nn
    by (simp add: balanced_def) linarith
  then show ?thesis
  proof cases
    case 1
    then obtain a kl el hl b where l: "l = Node a kl el hl b" by (cases l) auto
    show ?thesis
    proof (cases "ht b \<le> ht a")
      case True
      from rebalance_left(1) [OF near [unfolded nn] 1 l True] obtain n' where
        "Tree_rebalanceNode n = Some n'" "near n'" "strip n' = strip (Node a kl el 0 (Node b k e 0 r))"
        unfolding nn by blast
      then show ?thesis by (rule finish) (use nn l 1 True in \<open>auto simp: balanced_def taller_def\<close>)
    next
      case False
      then obtain x kb eb hb y where b: "b = Node x kb eb hb y" by (cases b) auto
      from False rebalance_left(2) [OF near [unfolded nn] 1 l _ b] obtain n' where
        "Tree_rebalanceNode n = Some n'" "near n'" "strip n' = strip (Node (Node a kl el 0 x) kb eb 0 (Node y k e 0 r))"
        unfolding nn by auto
      then show ?thesis by (rule finish) (use nn l b 1 False in \<open>auto simp: balanced_def taller_def\<close>)
    qed
  next
    case 2
    then obtain a kr er hr b where r: "r = Node a kr er hr b" by (cases r) auto
    show ?thesis
    proof (cases "ht a \<le> ht b")
      case True
      from rebalance_right(1) [OF near [unfolded nn] 2 r True] obtain n' where
        "Tree_rebalanceNode n = Some n'" "near n'" "strip n' = strip (Node (Node l k e 0 a) kr er 0 b)"
        unfolding nn by blast
      then show ?thesis by (rule finish) (use nn r 2 True in \<open>auto simp: balanced_def taller_def\<close>)
    next
      case False
      then obtain x ka ea ha y where b: "a = Node x ka ea ha y" by (cases a) auto
      from False rebalance_right(2) [OF near [unfolded nn] 2 r _ b] obtain n' where
        "Tree_rebalanceNode n = Some n'" "near n'" "strip n' = strip (Node (Node l k e 0 x) ka ea 0 (Node y kr er 0 b))"
        unfolding nn by auto
      then show ?thesis by (rule finish) (use nn r b 2 False in \<open>auto simp: balanced_def taller_def\<close>)
    qed
  qed
qed

lemma walk_step:
  assumes "near n" "n \<noteq> Null"
  shows "\<exists>n'. strip n' = strip n \<and> below n' \<and> n' \<noteq> Null \<and>
    walk_up n = (if balanced n then Some n' else Option.bind (Tree_rebalanceNode n') walk_up)"
proof -
  obtain l k e h r where n: "n = Node l k e h r" using assms(2) by (cases n) auto
  with balance_near [of l k e h r] assms(1) obtain l' r' where
    b: "Tree_balanceFactor n = (int (ht r) - int (ht l), Node l' k e h r')" "exact l'" "exact r'"
      "strip l' = strip l" "strip r' = strip r" by blast
  have "walk_up n = (if balanced n then Some (Node l' k e h r') else Option.bind (Tree_rebalanceNode (Node l' k e h r')) walk_up)"
    by (subst walk_up.simps, subst b(1)) (auto simp: n balanced_def)
  with b n show ?thesis by (intro exI [of _ "Node l' k e h r'"]) simp
qed

lemma walk_up_ok:
  "near n \<Longrightarrow> n \<noteq> Null \<Longrightarrow> \<exists>n'. walk_up n = Some n' \<and> below n' \<and> n' \<noteq> Null \<and> entries n' = entries n \<and> balanced n'"
proof (induction "taller n" arbitrary: n rule: less_induct)
  case less
  obtain n1 where n1: "strip n1 = strip n" "below n1" "n1 \<noteq> Null"
    "walk_up n = (if balanced n then Some n1 else Option.bind (Tree_rebalanceNode n1) walk_up)"
    using walk_step [OF less.prems] by blast
  note same = strip_entries [OF n1(1)] strip_balanced [OF n1(1) less.prems(2)] strip_taller [OF n1(1) less.prems(2)]
  show ?case
  proof (cases "balanced n")
    case True
    with n1 same show ?thesis by auto
  next
    case False
    obtain n2 where n2: "Tree_rebalanceNode n1 = Some n2" "near n2" "n2 \<noteq> Null" "entries n2 = entries n"
      "balanced n2 \<or> taller n2 < taller n"
      using rebalance_ok [OF below_near [OF n1(2)] n1(3)] False same by auto
    have "\<exists>n'. walk_up n2 = Some n' \<and> below n' \<and> n' \<noteq> Null \<and> entries n' = entries n2 \<and> balanced n'"
    proof (cases "balanced n2")
      case True
      with walk_step [OF n2(2,3)] n2(3) show ?thesis using strip_entries strip_balanced by fastforce
    next
      case False
      with n2(5) show ?thesis by (intro less.hyps [OF _ n2(2,3)]) simp
    qed
    with n1(4) n2 False show ?thesis by simp
  qed
qed

section \<open>Balance\<close>

fun avl :: "('k, 'e) node \<Rightarrow> bool" where
  "avl Null = True"
| "avl (Node l k e h r) \<longleftrightarrow> avl l \<and> avl r \<and> ht l \<le> ht r + 1 \<and> ht r \<le> ht l + 1"

lemma strip_avl: "strip n' = strip n \<Longrightarrow> avl n' = avl n"
proof -
  have "avl (strip n) = avl n" for n :: "('a, 'b) node"
    by (induction n) (simp_all add: strip_ht [OF strip_idem])
  then show "strip n' = strip n \<Longrightarrow> avl n' = avl n" by metis
qed

text \<open>When the subtrees are AVL trees whose heights differ by at most two, one rebalancing is
  enough, and it lowers the tree by at most one.\<close>

lemma walk_up_via:
  assumes near: "near n" "n \<noteq> Null" "\<not> balanced n"
    and reb: "\<And>n1. strip n1 = strip n \<Longrightarrow> below n1 \<Longrightarrow> \<exists>n2. Tree_rebalanceNode n1 = Some n2 \<and> near n2 \<and> strip n2 = strip m"
    and m: "m \<noteq> Null" "balanced m"
  shows "\<exists>n'. walk_up n = Some n' \<and> strip n' = strip m"
proof -
  obtain n1 where n1: "strip n1 = strip n" "below n1" "walk_up n = Option.bind (Tree_rebalanceNode n1) walk_up"
    using walk_step [OF near(1,2)] near(3) by auto
  obtain n2 where n2: "Tree_rebalanceNode n1 = Some n2" "near n2" "strip n2 = strip m"
    using reb [OF n1(1,2)] by blast
  have "n2 \<noteq> Null" "balanced n2" using strip_children(3) [OF n2(3) m(1)] strip_balanced [OF n2(3) m(1)] m(2) by auto
  with walk_step [OF n2(2)] n1(3) n2 show ?thesis by auto
qed

lemma walk_up_avl:
  assumes n: "n = Node l k e h r" and near: "near n" and avl: "avl l" "avl r"
    and diff: "ht l \<le> ht r + 2" "ht r \<le> ht l + 2"
  shows "\<exists>n'. walk_up n = Some n' \<and> avl n' \<and> ht n' \<le> ht n \<and> ht n \<le> ht n' + 1 \<and>
    (balanced n \<longrightarrow> ht n' = ht n)"
proof -
  have nn: "n \<noteq> Null" using n by simp
  have finish: ?thesis if "\<exists>n'. walk_up n = Some n' \<and> strip n' = strip m" "avl m" "ht m \<le> ht n" "ht n \<le> ht m + 1"
    "balanced n \<longrightarrow> ht m = ht n" for m
    using that strip_avl strip_ht by metis
  consider "balanced n" | "\<not> balanced n" "ht l = ht r + 2" | "\<not> balanced n" "ht r = ht l + 2"
    using diff n by (simp add: balanced_def) linarith
  then show ?thesis
  proof cases
    case 1
    with walk_step [OF near nn] have "\<exists>n'. walk_up n = Some n' \<and> strip n' = strip n" by auto
    then show ?thesis by (rule finish) (use 1 avl n in \<open>auto simp: balanced_def\<close>)
  next
    case 2
    then obtain a kl el hl b where l: "l = Node a kl el hl b" by (cases l) auto
    define m where "m = (if ht b \<le> ht a then Node a kl el 0 (Node b k e 0 r)
      else Node (Node a kl el 0 (leftChild b)) (key b) (element b) 0 (Node (rightChild b) k e 0 r))"
    have "\<exists>n'. walk_up n = Some n' \<and> strip n' = strip m"
    proof (rule walk_up_via [OF near nn 2(1)])
      fix n1 assume n1: "strip n1 = strip n" "below n1"
      obtain l1 h1 r1 where e1: "n1 = Node l1 k e h1 r1" "strip l1 = strip l" "strip r1 = strip r"
        using n1(1) n by (auto simp: strip_Node)
      obtain a1 hl1 b1 where l1: "l1 = Node a1 kl el hl1 b1" "strip a1 = strip a" "strip b1 = strip b"
        using e1(2) l by (auto simp: strip_Node)
      have hts: "ht l1 \<ge> ht r1 + 2" "ht a1 = ht a" "ht b1 = ht b"
        using 2(2) strip_ht [OF e1(2)] strip_ht [OF e1(3)] strip_ht [OF l1(2)] strip_ht [OF l1(3)] by simp_all
      show "\<exists>n2. Tree_rebalanceNode n1 = Some n2 \<and> near n2 \<and> strip n2 = strip m"
      proof (cases "ht b \<le> ht a")
        case True
        with rebalance_left(1) [OF below_near [OF n1(2), unfolded e1(1)] hts(1) l1(1)] hts(2,3) l1 e1 show ?thesis
          by (auto simp: m_def)
      next
        case False
        then obtain x kb eb hb y where b: "b = Node x kb eb hb y" by (cases b) auto
        then obtain x1 hb1 y1 where b1: "b1 = Node x1 kb eb hb1 y1" "strip x1 = strip x" "strip y1 = strip y"
          using l1(3) by (auto simp: strip_Node)
        from rebalance_left(2) [OF below_near [OF n1(2), unfolded e1(1)] hts(1) l1(1) _ b1(1)] False hts(2,3) l1 e1 b b1
        show ?thesis by (auto simp: m_def)
      qed
    qed (use avl l 2 n in \<open>auto simp: m_def balanced_def; cases b; auto\<close>)+
    then show ?thesis
      by (rule finish) (use avl l 2 n in \<open>auto simp: m_def balanced_def; cases b; auto\<close>)+
  next
    case 3
    then obtain a kr er hr b where r: "r = Node a kr er hr b" by (cases r) auto
    define m where "m = (if ht a \<le> ht b then Node (Node l k e 0 a) kr er 0 b
      else Node (Node l k e 0 (leftChild a)) (key a) (element a) 0 (Node (rightChild a) kr er 0 b))"
    have "\<exists>n'. walk_up n = Some n' \<and> strip n' = strip m"
    proof (rule walk_up_via [OF near nn 3(1)])
      fix n1 assume n1: "strip n1 = strip n" "below n1"
      obtain l1 h1 r1 where e1: "n1 = Node l1 k e h1 r1" "strip l1 = strip l" "strip r1 = strip r"
        using n1(1) n by (auto simp: strip_Node)
      obtain a1 hr1 b1 where r1: "r1 = Node a1 kr er hr1 b1" "strip a1 = strip a" "strip b1 = strip b"
        using e1(3) r by (auto simp: strip_Node)
      have hts: "ht r1 \<ge> ht l1 + 2" "ht a1 = ht a" "ht b1 = ht b"
        using 3(2) strip_ht [OF e1(2)] strip_ht [OF e1(3)] strip_ht [OF r1(2)] strip_ht [OF r1(3)] by simp_all
      show "\<exists>n2. Tree_rebalanceNode n1 = Some n2 \<and> near n2 \<and> strip n2 = strip m"
      proof (cases "ht a \<le> ht b")
        case True
        with rebalance_right(1) [OF below_near [OF n1(2), unfolded e1(1)] hts(1) r1(1)] hts(2,3) r1 e1 show ?thesis
          by (auto simp: m_def)
      next
        case False
        then obtain x ka ea ha y where a: "a = Node x ka ea ha y" by (cases a) auto
        then obtain x1 ha1 y1 where a1: "a1 = Node x1 ka ea ha1 y1" "strip x1 = strip x" "strip y1 = strip y"
          using r1(2) by (auto simp: strip_Node)
        from rebalance_right(2) [OF below_near [OF n1(2), unfolded e1(1)] hts(1) r1(1) _ a1(1)] False hts(2,3) r1 e1 a a1
        show ?thesis by (auto simp: m_def)
      qed
    qed (use avl r 3 n in \<open>auto simp: m_def balanced_def; cases a; auto\<close>)+
    then show ?thesis
      by (rule finish) (use avl r 3 n in \<open>auto simp: m_def balanced_def; cases a; auto\<close>)+
  qed
qed

section \<open>Insertion and removal\<close>

definition keys :: "('k, 'e) node \<Rightarrow> 'k list" where
  "keys n = map fst (entries n)"

lemma keys_simps [simp]: "keys Null = []" "keys (Node l k e h r) = keys l @ k # keys r"
  by (simp_all add: keys_def)

definition strict :: "('k::linorder, 'e) node \<Rightarrow> bool" where
  "strict n \<longleftrightarrow> sorted_wrt (<) (keys n)"

lemma strict_Node:
  "strict (Node l k e h r) \<longleftrightarrow> strict l \<and> strict r \<and> (\<forall>x \<in> set (keys l). x < k) \<and> (\<forall>x \<in> set (keys r). k < x)"
  by (auto simp: strict_def sorted_wrt_append) (meson order.strict_trans)

lemma keys_entries: "entries n' = entries n \<Longrightarrow> keys n' = keys n"
  by (simp add: keys_def)

lemma set_keys: "set (keys n) = fst ` set (entries n)"
  by (simp add: keys_def)

lemma insert_node_ok:
  "below n \<Longrightarrow> strict n \<Longrightarrow> x \<notin> set (keys n) \<Longrightarrow>
     \<exists>n'. insert_node x v n = Some n' \<and> below n' \<and> strict n' \<and> set (entries n') = insert (x, v) (set (entries n))"
proof (induction n)
  case Null
  then show ?case by (simp add: strict_def)
next
  case (Node l k e h r)
  have kx: "x \<noteq> k" using Node.prems(3) by auto
  have walk: "\<exists>n'. walk_up m = Some n' \<and> below n' \<and> strict n' \<and> set (entries n') = insert (x, v) (set (entries (Node l k e h r)))"
    if "near m" "m \<noteq> Null" "strict m" "set (entries m) = insert (x, v) (set (entries (Node l k e h r)))" for m
    using walk_up_ok [OF that(1,2)] that(3,4) keys_entries by (fastforce simp: strict_def)
  show ?case
  proof (cases "x > k")
    case True
    obtain r' where r': "insert_node x v r = Some r'" "below r'" "strict r'" "set (entries r') = insert (x, v) (set (entries r))"
      using Node.IH(2) Node.prems by (auto simp: exact_below strict_Node)
    have "strict (Node l k e h r')" using r' True Node.prems(2) by (auto simp: strict_Node set_keys)
    with walk [of "Node l k e h r'"] r' True Node.prems(1) show ?thesis by (auto simp: exact_below)
  next
    case False
    obtain l' where l': "insert_node x v l = Some l'" "below l'" "strict l'" "set (entries l') = insert (x, v) (set (entries l))"
      using Node.IH(1) Node.prems by (auto simp: exact_below strict_Node)
    have "strict (Node l' k e h r)" using l' False kx Node.prems(2) by (auto simp: strict_Node set_keys)
    with walk [of "Node l' k e h r"] l' False Node.prems(1) show ?thesis by (auto simp: exact_below)
  qed
qed

lemma insert_node_avl:
  "below n \<Longrightarrow> avl n \<Longrightarrow> insert_node x v n = Some n' \<Longrightarrow> strict n \<Longrightarrow> x \<notin> set (keys n) \<Longrightarrow>
     avl n' \<and> ht n \<le> ht n' \<and> ht n' \<le> ht n + 1"
proof (induction n arbitrary: n')
  case (Node l k e h r)
  have subs: "below l" "below r" "strict l" "strict r" "avl l" "avl r" "x \<notin> set (keys l)" "x \<notin> set (keys r)"
    using Node.prems by (auto simp: exact_below strict_Node)
  show ?case
  proof (cases "x > k")
    case True
    obtain r' where r': "insert_node x v r = Some r'" "below r'" using insert_node_ok [OF subs(2,4,8)] by blast
    have h: "avl r'" "ht r \<le> ht r'" "ht r' \<le> ht r + 1" using Node.IH(2) [OF subs(2,6) r'(1) subs(4,8)] by auto
    have "near (Node l k e h r')" using r'(2) subs(1) by simp
    from walk_up_avl [OF refl this subs(5) h(1)] h Node.prems(2,3) True r'(1) show ?thesis
      by (auto simp: balanced_def)
  next
    case False
    obtain l' where l': "insert_node x v l = Some l'" "below l'" using insert_node_ok [OF subs(1,3,7)] by blast
    have h: "avl l'" "ht l \<le> ht l'" "ht l' \<le> ht l + 1" using Node.IH(1) [OF subs(1,5) l'(1) subs(3,7)] by auto
    have "near (Node l' k e h r)" using l'(2) subs(2) by simp
    from walk_up_avl [OF refl this h(1) subs(6)] h Node.prems(2,3) False l'(1) show ?thesis
      by (auto simp: balanced_def)
  qed
qed auto

lemma height_exact_zero: "exact l \<Longrightarrow> \<exists>l1. Tree_height l = (ht l, l1) \<and> exact l1 \<and> strip l1 = strip l"
  using height_below exact_below by blast

lemma rotate_down_ok:
  "n = Node l k e h r \<Longrightarrow> below n \<Longrightarrow> \<exists>n'. rotate_down n = Some n' \<and> below n' \<and> entries n' = entries l @ entries r"
proof (induction "size n" arbitrary: n l k e h r rule: less_induct)
  case less
  have sizes: "size l1 = size l" if "strip l1 = strip l" for l l1 :: "('a, 'b) node"
  proof -
    have "size (strip m) = size m" for m :: "('a, 'b) node" by (induction m) auto
    with that show ?thesis by metis
  qed
  obtain l1 r1 where L: "Tree_height l = (ht l, l1)" "exact l1" "strip l1 = strip l"
    and R: "Tree_height r = (ht r, r1)" "exact r1" "strip r1 = strip r"
    using height_exact_zero [of l] height_exact_zero [of r] less.prems by auto
  have ents: "entries l1 = entries l" "entries r1 = entries r" using L R strip_entries by blast+
  have sz: "size l1 = size l" "size r1 = size r" using L R sizes by blast+
  have walk: "\<exists>n'. walk_up m = Some n' \<and> below n' \<and> entries n' = xs"
    if "near m" "m \<noteq> Null" "entries m = xs" for m xs
    using walk_up_ok [OF that(1,2)] that(3) by auto
  consider "l = Null" "r = Null" | "l = Null" "r \<noteq> Null" | "l \<noteq> Null" "r = Null" | "l \<noteq> Null" "r \<noteq> Null" by blast
  then show ?case
  proof cases
    case 1
    then show ?thesis using less.prems by (simp add: rotate_down.simps)
  next
    case 2
    then obtain b ky ey hy c where r1: "r1 = Node b ky ey hy c" using R(3) by (cases r1) auto
    obtain n1 where n1: "rotate_down (Node l1 k e h b) = Some n1" "below n1" "entries n1 = entries l1 @ entries b"
      using less.hyps [OF _ refl, of l1 k e h b] L(2) R(2) r1 sz less.prems(1) by auto
    obtain n' where "walk_up (Node n1 ky ey hy c) = Some n'" "below n'" "entries n' = entries l @ entries r"
      using walk [of "Node n1 ky ey hy c" "entries l @ entries r"] n1 r1 R(2) ents by (auto simp: exact_below)
    with 2 n1 r1 L R show ?thesis by (subst less.prems(1), subst rotate_down.simps) simp
  next
    case 3
    then obtain a ky ey hy b where l1: "l1 = Node a ky ey hy b" using L(3) by (cases l1) auto
    obtain n1 where n1: "rotate_down (Node b k e h r1) = Some n1" "below n1" "entries n1 = entries b @ entries r1"
      using less.hyps [OF _ refl, of b k e h r1] L(2) R(2) l1 sz less.prems(1) by auto
    obtain n' where "walk_up (Node a ky ey hy n1) = Some n'" "below n'" "entries n' = entries l @ entries r"
      using walk [of "Node a ky ey hy n1" "entries l @ entries r"] n1 l1 L(2) ents by (auto simp: exact_below)
    moreover have "ht l \<noteq> 0" using 3 by (cases l) auto
    ultimately show ?thesis using 3 n1 l1 L R by (subst less.prems(1), subst rotate_down.simps) simp
  next
    case 4
    then obtain a kl el hl b c kr er hr d where l1: "l1 = Node a kl el hl b" and r1: "r1 = Node c kr er hr d"
      using L(3) R(3) by (cases l1; cases r1) auto
    have pos: "ht l \<noteq> 0" "ht r \<noteq> 0" using 4 by (cases l; cases r; auto)+
    obtain n1 where n1: "rotate_down (Node b k e h c) = Some n1" "below n1" "entries n1 = entries b @ entries c"
      using less.hyps [OF _ refl, of b k e h c] L(2) R(2) l1 r1 sz less.prems(1) by auto
    obtain m where m: "walk_up (Node n1 kr er hr d) = Some m" "below m" "entries m = entries b @ entries r1"
      using walk [of "Node n1 kr er hr d" "entries b @ entries r1"] n1 r1 R(2) by (auto simp: exact_below)
    obtain n' where n': "walk_up (Node a kl el hl m) = Some n'" "below n'" "entries n' = entries l @ entries r"
      using walk [of "Node a kl el hl m" "entries l @ entries r"] m l1 L(2) ents by (auto simp: exact_below)
    obtain m2 where m2: "walk_up (Node a kl el hl n1) = Some m2" "below m2" "entries m2 = entries l1 @ entries c"
      using walk [of "Node a kl el hl n1" "entries l1 @ entries c"] n1 l1 L(2) by (auto simp: exact_below)
    obtain n2 where n2: "walk_up (Node m2 kr er hr d) = Some n2" "below n2" "entries n2 = entries l @ entries r"
      using walk [of "Node m2 kr er hr d" "entries l @ entries r"] m2 r1 R(2) ents by (auto simp: exact_below)
    from 4 pos n1 m n' m2 n2 l1 r1 L R show ?thesis
      by (subst less.prems(1), subst rotate_down.simps) (cases "ht l \<le> ht r"; simp)
  qed
qed

lemma find_node_iff: "strict n \<Longrightarrow> find_node x n \<longleftrightarrow> x \<in> set (keys n)"
  by (induction n) (auto simp: strict_Node)

lemma remove_node_ok:
  "below n \<Longrightarrow> strict n \<Longrightarrow> x \<in> set (keys n) \<Longrightarrow>
     \<exists>n'. remove_node x n = Some n' \<and> below n' \<and> entries n' = filter (\<lambda>p. fst p \<noteq> x) (entries n)"
proof (induction n)
  case (Node l k e h r)
  have others: "filter (\<lambda>p. fst p \<noteq> y) (entries m) = entries m" if "y \<notin> set (keys m)" for m :: "('a, 'b) node" and y
    using that by (auto simp: filter_id_conv set_keys)
  have walk: "\<exists>n'. walk_up m = Some n' \<and> below n' \<and> entries n' = xs"
    if "near m" "m \<noteq> Null" "entries m = xs" for m :: "('a, 'b) node" and xs
    using walk_up_ok [OF that(1,2)] that(3) by auto
  consider "k = x" | "x < k" | "k < x" by fastforce
  then show ?case
  proof cases
    case 1
    have "x \<notin> set (keys l)" "x \<notin> set (keys r)" using 1 Node.prems(2) by (auto simp: strict_Node)
    with 1 rotate_down_ok [OF refl Node.prems(1)] others [of x] show ?thesis by simp
  next
    case 2
    have "x \<notin> set (keys r)" "x \<in> set (keys l)" using 2 Node.prems by (auto simp: strict_Node dest: order.asym)
    moreover from this Node.IH(1) Node.prems obtain l' where l': "remove_node x l = Some l'" "below l'"
      "entries l' = filter (\<lambda>p. fst p \<noteq> x) (entries l)" by (auto simp: exact_below strict_Node)
    ultimately show ?thesis
      using walk [of "Node l' k e h r" "entries l' @ (k, e) # entries r"] 2 Node.prems(1) others [of x r]
      by (auto simp: exact_below)
  next
    case 3
    have "x \<notin> set (keys l)" "x \<in> set (keys r)" using 3 Node.prems by (auto simp: strict_Node dest: order.asym)
    moreover from this Node.IH(2) Node.prems obtain r' where r': "remove_node x r = Some r'" "below r'"
      "entries r' = filter (\<lambda>p. fst p \<noteq> x) (entries r)" by (auto simp: exact_below strict_Node)
    ultimately show ?thesis
      using walk [of "Node l k e h r'" "entries l @ (k, e) # entries r'"] 3 Node.prems(1) others [of x l]
      by (auto simp: exact_below)
  qed
qed simp

section \<open>The interface of a dictionary\<close>

locale dictionary =
  fixes inv :: "'t \<Rightarrow> bool"
    and dict :: "'t \<Rightarrow> 'k \<Rightarrow> 'e::zero option"
    and empty :: 't
    and count :: "'t \<Rightarrow> nat"
    and lookup :: "'k \<Rightarrow> 't \<Rightarrow> 'e"
    and insert :: "'k \<Rightarrow> 'e \<Rightarrow> 't \<Rightarrow> 't option"
    and remove :: "'k \<Rightarrow> 't \<Rightarrow> 't option"
  assumes empty: "inv empty" "dict empty x = None"
    and nonzero: "inv t \<Longrightarrow> dict t x \<noteq> Some 0"
    and count: "inv t \<Longrightarrow> finite (dom (dict t)) \<and> count t = card (dom (dict t))"
    and lookup: "inv t \<Longrightarrow> lookup x t = (case dict t x of None \<Rightarrow> 0 | Some e \<Rightarrow> e)"
    and insert: "inv t \<Longrightarrow> v \<noteq> 0 \<Longrightarrow>
      \<exists>t'. insert x v t = Some t' \<and> inv t' \<and> dict t' = (if dict t x = None then (dict t)(x \<mapsto> v) else dict t)"
    and remove: "inv t \<Longrightarrow> \<exists>t'. remove x t = Some t' \<and> inv t' \<and> dict t' = (dict t)(x := None)"
begin

fun insert_all :: "('k \<times> 'e) list \<Rightarrow> 't \<Rightarrow> 't option" where
  "insert_all [] t = Some t"
| "insert_all ((x, v) # ps) t = do { t' \<leftarrow> insert x v t; insert_all ps t' }"

text \<open>Inserting pairs one after the other: the first value of a key wins.\<close>

lemma insert_all_dict:
  "inv t \<Longrightarrow> 0 \<notin> snd ` set ps \<Longrightarrow>
     \<exists>t'. insert_all ps t = Some t' \<and> inv t' \<and> dict t' = map_of ps ++ dict t"
proof (induction ps arbitrary: t)
  case (Cons p ps)
  obtain x v where p: "p = (x, v)" by (cases p)
  obtain t1 where t1: "insert x v t = Some t1" "inv t1" "dict t1 = (if dict t x = None then (dict t)(x \<mapsto> v) else dict t)"
    using insert [of t v x] Cons.prems p by auto
  obtain t2 where t2: "insert_all ps t1 = Some t2" "inv t2" "dict t2 = map_of ps ++ dict t1"
    using Cons.IH [OF t1(2)] Cons.prems(2) by auto
  have "dict t2 = map_of (p # ps) ++ dict t"
    by (rule ext) (auto simp: t2(3) t1(3) p map_add_def split: option.splits)
  with t1(1) t2(1,2) show ?case by (simp add: p del: fun_upd_apply map_of.simps)
qed simp

lemma insert_lookup:
  assumes "inv t" "v \<noteq> 0" "insert x v t = Some t'"
  shows "lookup y t' = (if y = x \<and> lookup x t = 0 then v else lookup y t)"
proof -
  have "inv t'" "dict t' = (if dict t x = None then (dict t)(x \<mapsto> v) else dict t)"
    using insert [OF assms(1,2), of x] assms(3) by auto
  moreover have "dict t x = None \<longleftrightarrow> lookup x t = 0"
    using lookup [OF assms(1), of x] nonzero [OF assms(1), of x] by (auto split: option.splits)
  ultimately show ?thesis using lookup assms(1) by (auto split: option.splits)
qed

lemma remove_lookup:
  assumes "inv t" "remove x t = Some t'"
  shows "lookup y t' = (if y = x then 0 else lookup y t)"
  using remove [OF assms(1), of x] assms lookup by auto

lemma remove_count:
  assumes "inv t" "remove x t = Some t'"
  shows "count t' = (if lookup x t = 0 then count t else count t - 1)"
proof -
  have t': "inv t'" "dict t' = (dict t)(x := None)" using remove [OF assms(1), of x] assms(2) by auto
  have "dict t x = None \<longleftrightarrow> lookup x t = 0"
    using lookup [OF assms(1), of x] nonzero [OF assms(1), of x] by (auto split: option.splits)
  moreover have "dom (dict t') = dom (dict t) - {x}" using t'(2) by auto
  ultimately show ?thesis using count [OF assms(1)] count [OF t'(1)] by (auto simp: card_Diff_singleton_if domIff)
qed

end

definition Tree_dict :: "('k::linorder, 'e) Tree \<Rightarrow> 'k \<Rightarrow> 'e option" where
  "Tree_dict t = map_of (entries (root t))"

definition Tree_inv :: "('k::linorder, 'e::zero) Tree \<Rightarrow> bool" where
  "Tree_inv t \<longleftrightarrow> below (root t) \<and> strict (root t) \<and> nItems t = length (entries (root t)) \<and>
     0 \<notin> snd ` set (entries (root t))"

lemma strict_distinct: "strict n \<Longrightarrow> distinct (keys n)"
  by (simp add: strict_def strict_sorted_iff)

lemma map_of_strict: "strict n \<Longrightarrow> map_of (entries n) x = Some e \<longleftrightarrow> (x, e) \<in> set (entries n)"
  using strict_distinct [of n] by (simp add: keys_def)

lemma lookup_node_map: "strict n \<Longrightarrow> lookup_node x n = (case map_of (entries n) x of None \<Rightarrow> 0 | Some e \<Rightarrow> e)"
proof (induction n)
  case (Node l k e h r)
  have no: "y \<notin> set (keys m) \<Longrightarrow> map_of (entries m) y = None" for y and m :: "('a, 'b) node"
    by (simp add: map_of_eq_None_iff keys_def)
  have "strict l" "strict r" "x < k \<Longrightarrow> x \<notin> set (keys r)" "k < x \<Longrightarrow> x \<notin> set (keys l)" "k \<notin> set (keys l)"
    using Node.prems by (auto simp: strict_Node dest: order.asym)
  with Node.IH no [of x r] no [of x l] show ?case
    by (auto simp: map_add_def split: option.splits)
qed simp

lemma insert_entries_map:
  assumes "strict n" "strict n'" "x \<notin> set (keys n)" "set (entries n') = insert (x, v) (set (entries n))"
  shows "map_of (entries n') = (map_of (entries n))(x \<mapsto> v)"
proof (rule ext)
  fix y
  have none: "map_of (entries n) x = None" using assms(3) by (simp add: map_of_eq_None_iff keys_def)
  show "map_of (entries n') y = ((map_of (entries n))(x \<mapsto> v)) y"
  proof (cases "map_of (entries n') y")
    case None
    then have "y \<notin> fst ` set (entries n')" by (simp add: map_of_eq_None_iff)
    with assms(4) have "y \<noteq> x" "y \<notin> fst ` set (entries n)" by auto
    then show ?thesis using None by (simp add: map_of_eq_None_iff [symmetric])
  next
    case (Some e)
    then have "(y, e) \<in> set (entries n')" using map_of_strict [OF assms(2)] by simp
    with assms(1,3,4) Some map_of_strict [OF assms(1), of y e] show ?thesis by (auto simp: set_keys image_iff)
  qed
qed

lemma map_of_filter_key: "map_of (filter (\<lambda>p. fst p \<noteq> x) xs) = (map_of xs)(x := None)"
  by (induction xs) (auto simp: fun_eq_iff)

interpretation avl: dictionary Tree_inv Tree_dict Tree_new Tree_count Tree_lookup Tree_insert Tree_remove
proof
  fix t :: "('k::linorder, 'e::zero) Tree" and x :: 'k and v :: 'e
  show "Tree_inv (Tree_new :: ('k, 'e) Tree)" "Tree_dict (Tree_new :: ('k, 'e) Tree) x = None"
    by (simp_all add: Tree_inv_def Tree_new_def Tree_dict_def strict_def)
  assume inv: "Tree_inv t"
  then have below: "below (root t)" and strict: "strict (root t)" and items: "nItems t = length (entries (root t))"
    and nz: "0 \<notin> snd ` set (entries (root t))" by (simp_all add: Tree_inv_def)
  show "Tree_dict t x \<noteq> Some 0" using nz map_of_SomeD [of "entries (root t)" x 0] by (force simp: Tree_dict_def)
  show look: "Tree_lookup x t = (case Tree_dict t x of None \<Rightarrow> 0 | Some e \<Rightarrow> e)"
    using lookup_node_map [OF strict] by (simp add: Tree_lookup_def Tree_dict_def)
  have card: "finite (dom (map_of (entries n))) \<and> length (entries n) = card (dom (map_of (entries n)))"
    if "strict n" for n :: "('k, 'e) node"
    using distinct_card [OF strict_distinct [OF that]] by (simp add: dom_map_of_conv_image_fst keys_def)
  show "finite (dom (Tree_dict t)) \<and> Tree_count t = card (dom (Tree_dict t))"
    using card [OF strict] items by (simp add: Tree_dict_def Tree_count_def)
  show "\<exists>t'. Tree_insert x v t = Some t' \<and> Tree_inv t' \<and> Tree_dict t' = (if Tree_dict t x = None then (Tree_dict t)(x \<mapsto> v) else Tree_dict t)"
    if "v \<noteq> 0"
  proof (cases "Tree_dict t x")
    case None
    then have nx: "x \<notin> set (keys (root t))" by (simp add: Tree_dict_def map_of_eq_None_iff keys_def)
    obtain n where n: "insert_node x v (root t) = Some n" "below n" "strict n" "set (entries n) = insert (x, v) (set (entries (root t)))"
      using insert_node_ok [OF below strict nx] by blast
    have map: "map_of (entries n) = (map_of (entries (root t)))(x \<mapsto> v)" using insert_entries_map [OF strict n(3) nx n(4)] .
    have "length (entries n) = Suc (length (entries (root t)))"
      using card [OF n(3)] card [OF strict] map None by (simp add: Tree_dict_def domIff)
    moreover have "Tree_lookup x t = 0" using look None by simp
    ultimately show ?thesis
      using n map None items nz that by (auto simp: Tree_insert_def Tree_inv_def Tree_dict_def)
  next
    case (Some e)
    then have "Tree_lookup x t \<noteq> 0" using look \<open>Tree_dict t x \<noteq> Some 0\<close> by auto
    with Some inv show ?thesis by (simp add: Tree_insert_def)
  qed
  show "\<exists>t'. Tree_remove x t = Some t' \<and> Tree_inv t' \<and> Tree_dict t' = (Tree_dict t)(x := None)"
  proof (cases "x \<in> set (keys (root t))")
    case True
    obtain n where n: "remove_node x (root t) = Some n" "below n" "entries n = filter (\<lambda>p. fst p \<noteq> x) (entries (root t))"
      using remove_node_ok [OF below strict True] by blast
    have k: "keys n = filter (\<lambda>y. y \<noteq> x) (keys (root t))" by (simp add: keys_def n(3) filter_map comp_def)
    then have "strict n" using strict by (simp add: strict_def sorted_wrt_filter)
    moreover have "map_of (entries n) = (map_of (entries (root t)))(x := None)"
      by (simp add: n(3) map_of_filter_key)
    moreover have "length (entries n) = length (entries (root t)) - 1"
      using card [OF \<open>strict n\<close>] card [OF strict] True calculation(2)
      by (simp add: dom_map_of_conv_image_fst set_keys)
    ultimately show ?thesis
      using n True find_node_iff [OF strict] items nz by (auto simp: Tree_remove_def Tree_inv_def Tree_dict_def)
  next
    case False
    then have "(Tree_dict t)(x := None) = Tree_dict t"
      by (auto simp: Tree_dict_def map_of_eq_None_iff keys_def fun_upd_idem_iff)
    with False find_node_iff [OF strict] inv show ?thesis by (simp add: Tree_remove_def)
  qed
qed

section \<open>Properties of the dictionary\<close>

lemma Tree_insert_balance:
  assumes "Tree_inv t" "avl (root t)" "Tree_insert x v t = Some t'"
  shows "avl (root t')"
proof (cases "Tree_lookup x t = 0")
  case True
  then have "Tree_dict t x = None" using avl.lookup [OF assms(1), of x] avl.nonzero [OF assms(1), of x] by (auto split: option.splits)
  then have "x \<notin> set (keys (root t))" by (simp add: Tree_dict_def map_of_eq_None_iff keys_def)
  with assms insert_node_avl [of "root t" x v] True show ?thesis
    by (auto simp: Tree_insert_def Tree_inv_def split: Option.bind_splits)
qed (use assms in \<open>simp add: Tree_insert_def\<close>)

text \<open>The dictionary, its order and its heights survive every operation.  Inserting a non-null
  element returns (the walk ends and no rotation meets a null child), adds the key unless it is
  there, changes no other key, and keeps the tree an AVL tree.\<close>

theorem Tree_insert_correct:
  fixes t :: "('k::linorder, 'e::zero) Tree"
  assumes "Tree_inv t" "v \<noteq> 0"
  shows "\<exists>t'. Tree_insert x v t = Some t' \<and> Tree_inv t' \<and> (avl (root t) \<longrightarrow> avl (root t')) \<and>
    (\<forall>y. Tree_lookup y t' = (if y = x \<and> Tree_lookup x t = 0 then v else Tree_lookup y t)) \<and>
    Tree_count t' = (if Tree_lookup x t = 0 then Tree_count t + 1 else Tree_count t)"
proof -
  obtain t' where t': "Tree_insert x v t = Some t'" "Tree_inv t'" using avl.insert [OF assms] by blast
  moreover have "Tree_count t' = (if Tree_lookup x t = 0 then Tree_count t + 1 else Tree_count t)"
    using t'(1) by (auto simp: Tree_insert_def Tree_count_def split: if_splits Option.bind_splits)
  ultimately show ?thesis
    using Tree_insert_balance [OF assms(1) _ t'(1)] avl.insert_lookup [OF assms t'(1)] by blast
qed

abbreviation small_tree :: "(int, int) Tree" where
  "small_tree \<equiv> \<lparr>root = Node Null 4 40 0 (Node Null 6 60 1 Null), nItems = 2\<rparr>"

lemma small_tree_inv: "Tree_inv small_tree" "avl (root small_tree)"
  unfolding Tree_inv_def strict_def by simp_all

theorem Tree_insert_correct_witness:
  "\<exists>t'. Tree_insert 7 70 small_tree = Some t' \<and> Tree_inv t' \<and> (avl (root small_tree) \<longrightarrow> avl (root t')) \<and>
    (\<forall>y. Tree_lookup y t' = (if y = 7 \<and> Tree_lookup 7 small_tree = 0 then 70 else Tree_lookup y small_tree)) \<and>
    Tree_count t' = (if Tree_lookup 7 small_tree = 0 then Tree_count small_tree + 1 else Tree_count small_tree)"
  by (rule Tree_insert_correct [OF small_tree_inv(1)]) simp

text \<open>Removing a key returns, removes exactly that key, and keeps order and heights.\<close>

theorem Tree_remove_correct:
  fixes t :: "('k::linorder, 'e::zero) Tree"
  assumes "Tree_inv t"
  shows "\<exists>t'. Tree_remove x t = Some t' \<and> Tree_inv t' \<and>
    (\<forall>y. Tree_lookup y t' = (if y = x then 0 else Tree_lookup y t)) \<and>
    Tree_count t' = (if Tree_lookup x t = 0 then Tree_count t else Tree_count t - 1)"
  using avl.remove [OF assms, of x] avl.remove_lookup [OF assms] avl.remove_count [OF assms] by blast

theorem Tree_remove_correct_witness:
  "\<exists>t'. Tree_remove 4 small_tree = Some t' \<and> Tree_inv t' \<and>
    (\<forall>y. Tree_lookup y t' = (if y = 4 then 0 else Tree_lookup y small_tree)) \<and>
    Tree_count t' = (if Tree_lookup 4 small_tree = 0 then Tree_count small_tree else Tree_count small_tree - 1)"
  by (rule Tree_remove_correct [OF small_tree_inv(1)])

text \<open>But removal does not keep the tree an AVL tree: one rotation per position is not enough once
  the removed node has been rotated down.  After seven insertions, the removal of key 4 leaves a
  node whose subtrees differ in height by two.\<close>

fun insert_keys :: "int list \<Rightarrow> (int, int) Tree \<Rightarrow> (int, int) Tree option" where
  "insert_keys [] t = Some t"
| "insert_keys (x # xs) t = do { t' \<leftarrow> Tree_insert x 1 t; insert_keys xs t' }"

theorem Tree_remove_unbalanced:
  "\<exists>t t'. insert_keys [6, 4, 0, 5, 2, 3, 1] Tree_new = Some t \<and> avl (root t) \<and>
     Tree_remove 4 t = Some t' \<and> \<not> avl (root t')"
proof -
  have "map_option (\<lambda>t. (avl (root t), map_option (\<lambda>t'. avl (root t')) (Tree_remove 4 t)))
      (insert_keys [6, 4, 0, 5, 2, 3, 1] Tree_new) = Some (True, Some False)"
    by code_simp
  then show ?thesis by auto
qed

text \<open>A null element is not counted as present: the key is inserted a second time, as a node that
  a later removal of the key uncovers.\<close>

theorem Tree_null_element_duplicates:
  "\<exists>t t'. insert_keys [5] Tree_new = Some t \<and>
     Option.bind (Tree_insert 7 0 t) (Tree_insert 7 9) = Some t' \<and> Tree_count t' = 3 \<and>
     keys (root t') = [5, 7, 7]"
proof -
  have "map_option (\<lambda>t. map_option (\<lambda>t'. (Tree_count t', keys (root t'))) (Option.bind (Tree_insert 7 0 t) (Tree_insert 7 9)))
      (insert_keys [5] Tree_new) = Some (Some (3, [5, 7, 7]))"
    by code_simp
  then show ?thesis by auto
qed

text \<open>Copying inserts the nodes in preorder and gives a dictionary with the same contents.\<close>

fun preorder :: "('k, 'e) node \<Rightarrow> ('k \<times> 'e) list" where
  "preorder Null = []"
| "preorder (Node l k e h r) = (k, e) # preorder l @ preorder r"

lemma set_preorder: "set (preorder n) = set (entries n)"
  by (induction n) auto

lemma length_preorder: "length (preorder n) = length (entries n)"
  by (induction n) auto

lemma insert_all_append:
  "avl.insert_all (ps @ qs) t = Option.bind (avl.insert_all ps t) (avl.insert_all qs)"
  by (induction ps t rule: avl.insert_all.induct) (auto split: Option.bind_splits)

lemma traverse_insert_all: "traverseNode_Insert n t = avl.insert_all (preorder n) t"
  by (induction n arbitrary: t) (auto simp: insert_all_append bind_assoc intro!: bind_option_cong)

lemma map_of_preorder: "strict n \<Longrightarrow> map_of (preorder n) = map_of (entries n)"
proof -
  assume s: "strict n"
  have "distinct (map fst (entries n))" using strict_distinct [OF s] by (simp add: keys_def)
  moreover have "distinct (map fst (preorder n))"
    using calculation set_preorder [of n] length_preorder [of n]
    by (metis card_distinct distinct_card length_map list.set_map)
  ultimately show ?thesis using set_preorder [of n] by (intro map_of_inject_set [THEN iffD2]) auto
qed

theorem Tree_copy_correct:
  fixes x t :: "('k::linorder, 'e::zero) Tree"
  assumes "Tree_inv x"
  shows "\<exists>a b. Tree_copy x = Some a \<and> Tree_inv a \<and> Tree_assign x t = Some b \<and> Tree_inv b \<and>
    (\<forall>k. Tree_lookup k a = Tree_lookup k x \<and> Tree_lookup k b = Tree_lookup k x)"
proof -
  have "0 \<notin> snd ` set (preorder (root x))" "map_of (preorder (root x)) = Tree_dict x"
    using assms map_of_preorder [of "root x"] by (simp_all add: Tree_inv_def set_preorder Tree_dict_def)
  with avl.insert_all_dict [OF avl.empty(1), of "preorder (root x)"] obtain a where
    a: "avl.insert_all (preorder (root x)) (Tree_new :: ('k, 'e) Tree) = Some a" "Tree_inv a" "Tree_dict a = Tree_dict x ++ Tree_dict Tree_new"
    by auto
  then have "Tree_dict a = Tree_dict x" by (auto simp: avl.empty(2) map_add_def fun_eq_iff split: option.splits)
  moreover have "Tree_clear t = Tree_new" by (simp add: Tree_clear_def Tree_new_def)
  ultimately show ?thesis
    using a(1,2) avl.lookup [OF a(2)] avl.lookup [OF assms] by (auto simp: Tree_copy_def Tree_assign_def traverse_insert_all)
qed

theorem Tree_copy_correct_witness:
  "\<exists>a b. Tree_copy small_tree = Some a \<and> Tree_inv a \<and> Tree_assign small_tree Tree_new = Some b \<and> Tree_inv b \<and>
    (\<forall>k. Tree_lookup k a = Tree_lookup k small_tree \<and> Tree_lookup k b = Tree_lookup k small_tree)"
  by (rule Tree_copy_correct [OF small_tree_inv(1)])

section \<open>Iteration\<close>

text \<open>\<open>IteratorNode\<close> walks the tree with the current and the previous node.  A node pointer is the
  path to the node from the root; the null pointer is \<open>None\<close>.\<close>

datatype dir = L | R

type_synonym node_ptr = "dir list option"

fun node_at :: "('k, 'e) node \<Rightarrow> dir list \<Rightarrow> ('k, 'e) node" where
  "node_at n [] = n"
| "node_at n (L # p) = node_at (leftChild n) p"
| "node_at n (R # p) = node_at (rightChild n) p"

definition left_ptr :: "('k, 'e) node \<Rightarrow> dir list \<Rightarrow> node_ptr" where
  "left_ptr n p = (if leftChild (node_at n p) = Null then None else Some (p @ [L]))"

definition right_ptr :: "('k, 'e) node \<Rightarrow> dir list \<Rightarrow> node_ptr" where
  "right_ptr n p = (if rightChild (node_at n p) = Null then None else Some (p @ [R]))"

definition parent_ptr :: "dir list \<Rightarrow> node_ptr" where
  "parent_ptr p = (if p = [] then None else Some (butlast p))"

partial_function (option) traverseNext :: "('k, 'e) node \<Rightarrow> node_ptr \<Rightarrow> node_ptr \<Rightarrow> (node_ptr \<times> node_ptr) option" where
  "traverseNext n pNode pPrev =
     (case pNode of
        None \<Rightarrow> Some (None, pPrev)
      | Some p \<Rightarrow>
          if pPrev = parent_ptr p \<and> left_ptr n p \<noteq> None then traverseNext n (left_ptr n p) (Some p)
          else if (left_ptr n p \<noteq> None \<and> pPrev = left_ptr n p \<or> left_ptr n p = None \<and> pPrev \<noteq> Some p)
                  \<and> pPrev \<noteq> right_ptr n p
          then Some (Some p, Some p)
          else if pPrev = Some p \<and> right_ptr n p \<noteq> None then traverseNext n (right_ptr n p) (Some p)
          else traverseNext n (parent_ptr p) (Some p))"

text \<open>\<open>begin()\<close>, which resets the iterator, and the values met from there until \<open>end()\<close>.\<close>

definition Tree_begin :: "('k, 'e) Tree \<Rightarrow> (node_ptr \<times> node_ptr) option" where
  "Tree_begin t =
     (let pNode = (if root t = Null then None else Some [])
      in if nItems t > 1 then traverseNext (root t) pNode None else Some (pNode, None))"

partial_function (option) iterate_from :: "('k, 'e) node \<Rightarrow> node_ptr \<Rightarrow> node_ptr \<Rightarrow> ('k \<times> 'e) list option" where
  "iterate_from n pNode pPrev =
     (case pNode of
        None \<Rightarrow> Some []
      | Some p \<Rightarrow> Option.bind (traverseNext n pNode pPrev) (\<lambda>(pNode', pPrev').
          Option.bind (iterate_from n pNode' pPrev') (\<lambda>xs. Some ((key (node_at n p), element (node_at n p)) # xs))))"

declare traverseNext.simps [code] iterate_from.simps [code]

definition Tree_iterate :: "('k, 'e) Tree \<Rightarrow> ('k \<times> 'e) list option" where
  "Tree_iterate t = do { (pNode, pPrev) \<leftarrow> Tree_begin t; iterate_from (root t) pNode pPrev }"

lemma node_at_append: "node_at n (p @ q) = node_at (node_at n p) q"
  by (induction n p rule: node_at.induct) auto

lemma parent_ptr_snoc [simp]: "parent_ptr (p @ [d]) = Some p"
  by (simp add: parent_ptr_def)

lemma parent_not_self [simp]: "parent_ptr p \<noteq> Some p" "parent_ptr p \<noteq> Some (p @ [d])"
  by (auto simp: parent_ptr_def) (metis length_butlast less_irrefl_nat length_greater_0_conv diff_less zero_less_one,
      metis append_self_conv length_append_singleton length_butlast less_not_refl2 diff_le_self le_imp_less_Suc)

text \<open>The rest of the iteration from a state whose value has not been delivered yet.\<close>

definition resume :: "('k, 'e) node \<Rightarrow> node_ptr \<Rightarrow> node_ptr \<Rightarrow> ('k \<times> 'e) list option" where
  "resume n pNode pPrev = do { (p, q) \<leftarrow> traverseNext n pNode pPrev; iterate_from n p q }"

lemma resume_turn:
  assumes "node_at n p = Node l k e h r"
  shows "resume n (Some p) (Some p) = (if r = Null then resume n (parent_ptr p) (Some p) else resume n (Some (p @ [R])) (Some p))"
    and "l \<noteq> Null \<Longrightarrow> resume n (Some p) (parent_ptr p) = resume n (Some (p @ [L])) (Some p)"
    and "l \<noteq> Null \<Longrightarrow> resume n (Some p) (Some (p @ [L])) = map_option (Cons (k, e)) (resume n (Some p) (Some p))"
    and "l = Null \<Longrightarrow> p \<noteq> [] \<or> r \<noteq> Null \<Longrightarrow> resume n (Some p) (parent_ptr p) = map_option (Cons (k, e)) (resume n (Some p) (Some p))"
    and "r \<noteq> Null \<Longrightarrow> resume n (Some p) (Some (p @ [R])) = resume n (parent_ptr p) (Some p)"
proof -
  have ptrs: "left_ptr n p = (if l = Null then None else Some (p @ [L]))" "right_ptr n p = (if r = Null then None else Some (p @ [R]))"
    using assms by (simp_all add: left_ptr_def right_ptr_def)
  have parent_None: "parent_ptr p = None \<longleftrightarrow> p = []" by (simp add: parent_ptr_def)
  have stop: "resume n (Some p) q = map_option (Cons (k, e)) (resume n (Some p) (Some p))"
    if "traverseNext n (Some p) q = Some (Some p, Some p)" for q
    using that assms unfolding resume_def
    by (simp add: iterate_from.simps [of n "Some p"] map_conv_bind_option split_def comp_def bind_assoc)
  show "resume n (Some p) (Some p) = (if r = Null then resume n (parent_ptr p) (Some p) else resume n (Some (p @ [R])) (Some p))"
    unfolding resume_def by (subst traverseNext.simps) (simp add: ptrs not_sym [OF parent_not_self(1)] eq_commute)
  show "l \<noteq> Null \<Longrightarrow> resume n (Some p) (parent_ptr p) = resume n (Some (p @ [L])) (Some p)"
    unfolding resume_def by (subst traverseNext.simps) (simp add: ptrs)
  show "l \<noteq> Null \<Longrightarrow> resume n (Some p) (Some (p @ [L])) = map_option (Cons (k, e)) (resume n (Some p) (Some p))"
    by (rule stop, subst traverseNext.simps) (auto simp: ptrs dest: sym [THEN notE [OF parent_not_self(2)]])
  show "l = Null \<Longrightarrow> p \<noteq> [] \<or> r \<noteq> Null \<Longrightarrow> resume n (Some p) (parent_ptr p) = map_option (Cons (k, e)) (resume n (Some p) (Some p))"
    by (rule stop, subst traverseNext.simps) (auto simp: ptrs parent_None)
  show "r \<noteq> Null \<Longrightarrow> resume n (Some p) (Some (p @ [R])) = resume n (parent_ptr p) (Some p)"
    unfolding resume_def
    by (subst traverseNext.simps) (auto simp: ptrs dest: sym [THEN notE [OF parent_not_self(2)]])
qed

lemma map_option_append: "map_option ((@) xs) (map_option ((@) ys) m) = map_option ((@) (xs @ ys)) m"
  by (cases m) simp_all

lemma map_option_Cons: "map_option (Cons x) m = map_option ((@) [x]) m"
  by (cases m) simp_all

lemma resume_subtree:
  "node_at n p = m \<Longrightarrow> m \<noteq> Null \<Longrightarrow> p \<noteq> [] \<or> leftChild m \<noteq> Null \<or> rightChild m \<noteq> Null \<Longrightarrow>
     resume n (Some p) (parent_ptr p) = map_option ((@) (entries m)) (resume n (parent_ptr p) (Some p))"
proof (induction m arbitrary: p)
  case (Node l k e h r)
  note turn = resume_turn [OF Node.prems(1)]
  have children: "node_at n (p @ [L]) = l" "node_at n (p @ [R]) = r"
    using Node.prems(1) by (simp_all add: node_at_append)
  have left: "resume n (Some p) (parent_ptr p) = map_option ((@) (entries l @ [(k, e)])) (resume n (Some p) (Some p))"
  proof (cases "l = Null")
    case True
    with turn(4) Node.prems(3) show ?thesis by (simp add: map_option_Cons)
  next
    case False
    with Node.IH(1) [OF children(1)] turn(2,3) show ?thesis
      by (simp add: map_option_Cons map_option_append)
  qed
  have "resume n (Some p) (Some p) = map_option ((@) (entries r)) (resume n (parent_ptr p) (Some p))"
  proof (cases "r = Null")
    case True
    with turn(1) show ?thesis by (cases "resume n (parent_ptr p) (Some p)") simp_all
  next
    case False
    with Node.IH(2) [OF children(2)] turn(1,5) show ?thesis by simp
  qed
  then show ?case
    unfolding left by (cases "resume n (parent_ptr p) (Some p)") simp_all
qed simp

text \<open>Iterating from \<open>begin()\<close> ends and delivers every entry once, in the order of the keys.\<close>

theorem Tree_iterate_correct:
  fixes t :: "('k::linorder, 'e::zero) Tree"
  assumes "Tree_inv t"
  shows "Tree_iterate t = Some (entries (root t)) \<and> sorted_wrt (<) (map fst (entries (root t)))"
proof -
  have items: "nItems t = length (entries (root t))" using assms by (simp add: Tree_inv_def)
  have over: "resume n None q = Some []" for n :: "('k, 'e) node" and q
    by (simp add: resume_def traverseNext.simps iterate_from.simps)
  have "Tree_iterate t = Some (entries (root t))"
  proof (cases "root t")
    case Null
    with items show ?thesis by (simp add: Tree_iterate_def Tree_begin_def iterate_from.simps)
  next
    case (Node l k e h r)
    show ?thesis
    proof (cases "l = Null \<and> r = Null")
      case True
      with Node items over [of "root t" "Some []"] show ?thesis
        by (simp add: Tree_iterate_def Tree_begin_def iterate_from.simps [of _ "Some []"] traverseNext.simps [of _ "Some []"]
            traverseNext.simps [of _ None] iterate_from.simps [of _ None] left_ptr_def right_ptr_def parent_ptr_def)
    next
      case False
      then have "nItems t > 1" using items Node by (cases l; cases r) auto
      with Node resume_subtree [of "root t" "[]" "root t"] False over show ?thesis
        by (simp add: Tree_iterate_def Tree_begin_def resume_def parent_ptr_def)
    qed
  qed
  with assms show ?thesis by (simp add: Tree_inv_def strict_def keys_def)
qed

theorem Tree_iterate_correct_witness:
  "Tree_iterate small_tree = Some (entries (root small_tree)) \<and> sorted_wrt (<) (map fst (entries (root small_tree)))"
  by (rule Tree_iterate_correct [OF small_tree_inv(1)])

end
