(* ===== verification/C_Memory.thy ===== *)
theory C_Memory
  imports Pedigree_Prelude "HOL-Library.Word"
begin

unbundle bit_operations_syntax

text \<open>
  The kernel's memory primitives, \<^verbatim>\<open>system/kernel/core/lib/memory.c\<close>: \<open>memset\<close> and its wide
  variants, \<open>memcpy\<close> with its alignment, block and SSE2 paths, \<open>memmove\<close> and \<open>memcmp\<close>.  Memory is
  a function from addresses to bytes; addresses are natural numbers, so a region never wraps
  around the end of the address space.  \<open>X64\<close> is the preprocessor symbol; the SSE block copies
  load all registers before they store any, as the instruction sequences do.
\<close>

type_synonym addr = nat
type_synonym mem = "addr \<Rightarrow> u8"

section \<open>Instructions\<close>

definition load :: "nat \<Rightarrow> addr \<Rightarrow> mem \<Rightarrow> u8 list" where
  "load w s m = map (\<lambda>i. m (s + i)) [0..<w]"

definition store :: "addr \<Rightarrow> u8 list \<Rightarrow> mem \<Rightarrow> mem" where
  "store d bs m = (\<lambda>a. if d \<le> a \<and> a < d + length bs then bs ! (a - d) else m a)"

text \<open>The bytes of a word in memory, lowest first.\<close>

definition le_bytes :: "'a::len word \<Rightarrow> u8 list" where
  "le_bytes v = map (\<lambda>i. ucast (drop_bit (8 * i) v)) [0..<LENGTH('a) div 8]"

text \<open>Numbers in memory, lowest byte first.\<close>

fun nat_le :: "nat \<Rightarrow> nat \<Rightarrow> u8 list" where
  "nat_le 0 n = []"
| "nat_le (Suc k) n = of_nat n # nat_le k (n div 256)"

fun le_nat :: "u8 list \<Rightarrow> nat" where
  "le_nat [] = 0"
| "le_nat (b # bs) = unat b + 256 * le_nat bs"

fun rep_stos :: "u8 list \<Rightarrow> nat \<Rightarrow> addr \<Rightarrow> mem \<Rightarrow> mem" where
  "rep_stos bs 0 d m = m"
| "rep_stos bs (Suc n) d m = rep_stos bs n (d + length bs) (store d bs m)"

fun rep_movs :: "nat \<Rightarrow> nat \<Rightarrow> addr \<Rightarrow> addr \<Rightarrow> mem \<Rightarrow> mem" where
  "rep_movs w 0 d s m = m"
| "rep_movs w (Suc n) d s m = rep_movs w n (d + w) (s + w) (store d (load w s m) m)"

text \<open>A run of \<open>*p1++ = *p2++\<close>, as the fall-through \<open>switch\<close> statements execute it.\<close>

fun copy_bytes :: "nat \<Rightarrow> addr \<Rightarrow> addr \<Rightarrow> mem \<Rightarrow> mem" where
  "copy_bytes 0 d s m = m"
| "copy_bytes (Suc k) d s m = copy_bytes k (d + 1) (s + 1) (m(d := m s))"

text \<open>One iteration of the SSE2 loops: eight 16-byte registers are loaded, then stored.\<close>

definition sse2_block :: "addr \<Rightarrow> addr \<Rightarrow> mem \<Rightarrow> mem" where
  "sse2_block p1 p2 m =
     (let xmm = map (\<lambda>r. load 16 (p2 + 16 * r) m) [0..<8]
      in fold (\<lambda>r. store (p1 + 16 * r) (xmm ! r)) [0..<8] m)"

fun sse2_blocks :: "nat \<Rightarrow> addr \<Rightarrow> addr \<Rightarrow> mem \<Rightarrow> mem" where
  "sse2_blocks 0 p1 p2 m = m"
| "sse2_blocks (Suc i) p1 p2 m = sse2_blocks i (p1 + 128) (p2 + 128) (sse2_block p1 p2 m)"

definition sse2_src_unaligned_memcpy :: "addr \<Rightarrow> addr \<Rightarrow> nat \<Rightarrow> mem \<Rightarrow> mem" where
  "sse2_src_unaligned_memcpy s1 s2 n m = (if n = 0 then m else sse2_blocks (n div 2 ^ 7) s1 s2 m)"

definition sse2_unaligned_memcpy :: "addr \<Rightarrow> addr \<Rightarrow> nat \<Rightarrow> mem \<Rightarrow> mem" where
  "sse2_unaligned_memcpy s1 s2 n m = (if n = 0 then m else sse2_blocks (n div 2 ^ 7) s1 s2 m)"

definition sse2_aligned_memcpy :: "addr \<Rightarrow> addr \<Rightarrow> nat \<Rightarrow> mem \<Rightarrow> mem" where
  "sse2_aligned_memcpy s1 s2 n m = (if n = 0 then m else sse2_blocks (n div 2 ^ 7) s1 s2 m)"

section \<open>Filling\<close>

text \<open>The fill words of \<open>memset_nonzero\<close>, built by shifting and or-ing the byte.\<close>

definition fill64 :: "u8 \<Rightarrow> u64" where
  "fill64 c = (let c64 = ucast c in push_bit 56 c64 OR push_bit 48 c64 OR push_bit 40 c64 OR push_bit 32 c64 OR
     push_bit 24 c64 OR push_bit 16 c64 OR push_bit 8 c64 OR c64)"

definition fill32 :: "u8 \<Rightarrow> u32" where
  "fill32 c = (let c32 = ucast c in push_bit 24 c32 OR push_bit 16 c32 OR push_bit 8 c32 OR c32)"

definition fill16 :: "u8 \<Rightarrow> u16" where
  "fill16 c = (let c16 = ucast c in push_bit 8 c16 OR c16)"

text \<open>How many bytes the odd-length branch stores before looking at \<open>n\<close> again.\<close>

definition memset_step :: "bool \<Rightarrow> nat \<Rightarrow> nat" where
  "memset_step X64 n =
     (let q = 8 - n mod 8; d = 4 - n mod 4; w = 2 - n mod 2
      in if n > 8
         then (if X64 \<and> q < d \<and> q < w then q else if d < w then d else if w < d then w else n)
         else n)"

lemma memset_step_pos [simp]: "0 < n \<Longrightarrow> 0 < memset_step X64 n"
  by (simp add: memset_step_def Let_def)

function memset_loop :: "bool \<Rightarrow> u8 \<Rightarrow> nat \<Rightarrow> addr \<Rightarrow> mem \<Rightarrow> mem" where
  "memset_loop X64 c n p m =
     (if n = 0 then m
      else if X64 \<and> n mod 8 = 0 then rep_stos (le_bytes (fill64 c)) (n div 8) p m
      else if n mod 4 = 0 then rep_stos (le_bytes (fill32 c)) (n div 4) p m
      else if n mod 2 = 0 then rep_stos (le_bytes (fill16 c)) (n div 2) p m
      else (let nBytes = memset_step X64 n
            in memset_loop X64 c (n - nBytes) (p + nBytes) (rep_stos [c] nBytes p m)))"
  by pat_completeness auto
termination
  by (relation "measure (\<lambda>(X64, c, n, p, m). n)") auto

declare memset_loop.simps [simp del]

definition memset_nonzero :: "bool \<Rightarrow> addr \<Rightarrow> int \<Rightarrow> nat \<Rightarrow> mem \<Rightarrow> mem" where
  "memset_nonzero X64 buf c n m =
     (if n = 0 then m
      else (let c = word_of_int c
            in if n = 1 then m(buf := c) else memset_loop X64 c n buf m))"

definition memset :: "bool \<Rightarrow> addr \<Rightarrow> int \<Rightarrow> nat \<Rightarrow> mem \<Rightarrow> mem" where
  "memset X64 buf c n m = memset_nonzero X64 buf c n m"

definition wmemset :: "addr \<Rightarrow> int \<Rightarrow> nat \<Rightarrow> mem \<Rightarrow> mem" where
  "wmemset buf c n m = (if n = 0 then m else rep_stos (le_bytes (word_of_int c :: u16)) n buf m)"

definition dmemset :: "addr \<Rightarrow> u32 \<Rightarrow> nat \<Rightarrow> mem \<Rightarrow> mem" where
  "dmemset buf c n m = (if n = 0 then m else rep_stos (le_bytes c) n buf m)"

definition qmemset :: "addr \<Rightarrow> u64 \<Rightarrow> nat \<Rightarrow> mem \<Rightarrow> mem" where
  "qmemset buf c len m = rep_stos (le_bytes c) len buf m"

section \<open>Copying\<close>

text \<open>The path for up to \<open>SSE_THRESHOLD\<close> bytes: a few bytes one by one, otherwise align the
  destination, move whole machine words, and finish the tail.\<close>

definition memcpy_small :: "bool \<Rightarrow> addr \<Rightarrow> addr \<Rightarrow> nat \<Rightarrow> mem \<Rightarrow> mem" where
  "memcpy_small X64 p1 p2 n m =
     (let w = (if X64 then 8 else 4)
      in if n < w then copy_bytes n p1 p2 m
         else (let off = (w - p1 mod w) mod w;
                   m1 = copy_bytes off p1 p2 m;
                   n1 = n - off;
                   blocks = n1 div w;
                   m2 = (if blocks = 0 then m1 else rep_movs w blocks (p1 + off) (p2 + off) m1);
                   tl = n1 mod w
               in copy_bytes tl (p1 + off + w * blocks) (p2 + off + w * blocks) m2))"

text \<open>\<open>can_sse\<close> is the static flag, \<open>cr0_em\<close> the \<open>EM\<close> bit read from \<open>CR0\<close>; the result also
  has the flag's new value.\<close>

definition memcpy_sse :: "bool \<Rightarrow> addr \<Rightarrow> addr \<Rightarrow> nat \<Rightarrow> mem \<Rightarrow> mem" where
  "memcpy_sse X64 p1 p2 n m =
     (let p1Align = p1 mod 16; p2Align = p2 mod 16
      in if p1Align = 0 \<and> p2Align = 0
         then (let m1 = sse2_aligned_memcpy p1 p2 n m;
                   cnt = 128 * (n div 128)
               in if n mod 128 = 0 then m1 else memcpy_small X64 (p1 + cnt) (p2 + cnt) (n mod 128) m1)
         else (let distance = 16 - p1Align;
                   k = (if distance \<le> 15 then distance else 0);
                   m0 = copy_bytes k p1 p2 m;
                   q1 = p1 + k; q2 = p2 + k; n1 = n - k;
                   m1 = sse2_src_unaligned_memcpy q1 q2 n1 m0;
                   cnt = 128 * (n1 div 128)
               in if n1 mod 128 = 0 then m1 else memcpy_small X64 (q1 + cnt) (q2 + cnt) (n1 mod 128) m1))"

definition SSE_THRESHOLD :: nat where
  "SSE_THRESHOLD = 524288"

definition memcpy :: "bool \<Rightarrow> bool \<Rightarrow> bool \<Rightarrow> addr \<Rightarrow> addr \<Rightarrow> nat \<Rightarrow> mem \<Rightarrow> bool \<times> mem" where
  "memcpy X64 can_sse cr0_em s1 s2 n m =
     (if n = 0 then (can_sse, m)
      else (let sse = (can_sse \<or> \<not> cr0_em)
            in (sse, if sse \<and> n > SSE_THRESHOLD then memcpy_sse X64 s1 s2 n m else memcpy_small X64 s1 s2 n m)))"

definition memcpy_gcc :: "addr \<Rightarrow> addr \<Rightarrow> nat \<Rightarrow> mem \<Rightarrow> mem" where
  "memcpy_gcc s1 s2 n m = copy_bytes n s1 s2 m"

text \<open>The backward loops of \<open>memmove\<close>: \<open>d\<close> and \<open>s\<close> are \<open>dest8\<close> and \<open>src8\<close>.  The first one
  stops when \<open>(dest8 - 1) % 4\<close> is zero.\<close>

fun back_align :: "nat \<Rightarrow> addr \<Rightarrow> addr \<Rightarrow> mem \<Rightarrow> nat \<times> addr \<times> addr \<times> mem" where
  "back_align 0 d s m = (0, d, s, m)"
| "back_align (Suc n) d s m =
     (if (d - 1) mod 4 \<noteq> 0 then back_align n (d - 1) (s - 1) (m(d - 1 := m (s - 1)))
      else (Suc n, d, s, m))"

fun back_words :: "nat \<Rightarrow> addr \<Rightarrow> addr \<Rightarrow> mem \<Rightarrow> mem" where
  "back_words 0 d s m = m"
| "back_words (Suc k) d s m = back_words k (d - 4) (s - 4) (store (d - 4) (load 4 (s - 4) m) m)"

fun back_bytes :: "nat \<Rightarrow> addr \<Rightarrow> addr \<Rightarrow> mem \<Rightarrow> mem" where
  "back_bytes 0 d s m = m"
| "back_bytes (Suc n) d s m = back_bytes n (d - 1) (s - 1) (m(d - 1 := m (s - 1)))"

definition memmove :: "bool \<Rightarrow> bool \<Rightarrow> bool \<Rightarrow> addr \<Rightarrow> addr \<Rightarrow> nat \<Rightarrow> mem \<Rightarrow> mem" where
  "memmove X64 can_sse cr0_em s1 s2 n m =
     (if s1 \<le> s2 then snd (memcpy X64 can_sse cr0_em s1 s2 n m)
      else (let (n1, d, s, m1) = back_align n (s1 + n) (s2 + n) m;
                k = n1 div 4;
                m2 = back_words k d s m1
            in back_bytes (n1 mod 4) (d - 4 * k) (s - 4 * k) m2))"

text \<open>\<open>memcmp\<close> compares as plain \<open>char\<close>, which is signed on the supported processors.\<close>

fun memcmp_loop :: "nat \<Rightarrow> addr \<Rightarrow> addr \<Rightarrow> mem \<Rightarrow> int" where
  "memcmp_loop 0 a b m = 0"
| "memcmp_loop (Suc n) a b m =
     (if sint (m a) < sint (m b) then -1
      else if sint (m a) > sint (m b) then 1
      else memcmp_loop n (a + 1) (b + 1) m)"

definition memcmp :: "addr \<Rightarrow> addr \<Rightarrow> nat \<Rightarrow> mem \<Rightarrow> int" where
  "memcmp p1 p2 len m = memcmp_loop len p1 p2 m"

section \<open>What a fill and a copy do\<close>

text \<open>\<open>moved d s n m\<close>: the memory in which the \<open>n\<close> bytes at \<open>d\<close> are those \<open>m\<close> has at \<open>s\<close>.
  \<open>filled bs d n m\<close>: the pattern \<open>bs\<close> repeated over \<open>n\<close> bytes at \<open>d\<close>.\<close>

definition moved :: "addr \<Rightarrow> addr \<Rightarrow> nat \<Rightarrow> mem \<Rightarrow> mem" where
  "moved d s n m = (\<lambda>a. if d \<le> a \<and> a < d + n then m (s + (a - d)) else m a)"

definition filled :: "u8 list \<Rightarrow> addr \<Rightarrow> nat \<Rightarrow> mem \<Rightarrow> mem" where
  "filled bs d n m = (\<lambda>a. if d \<le> a \<and> a < d + n then bs ! ((a - d) mod length bs) else m a)"

text \<open>A forward copy is safe when the source does not start below an overlapping destination.\<close>

definition forward_safe :: "addr \<Rightarrow> addr \<Rightarrow> nat \<Rightarrow> bool" where
  "forward_safe d s n \<longleftrightarrow> d \<le> s \<or> s + n \<le> d"

named_theorems mem_defs

lemma length_nat_le [simp]: "length (nat_le k n) = k"
  by (induction k arbitrary: n) simp_all

lemma nat_le_0: "nat_le k 0 = replicate k 0"
  by (induction k) simp_all

lemma le_nat_0: "le_nat (replicate k 0) = 0"
  by (induction k) simp_all

lemma le_nat_nat_le: "le_nat (nat_le k n) = n mod 256 ^ k"
proof (induction k arbitrary: n)
  case (Suc k)
  have "n mod 256 ^ Suc k = n mod 256 + 256 * (n div 256 mod 256 ^ k)" by (simp add: mod_mult2_eq)
  with Suc show ?case by (simp add: unat_of_nat take_bit_eq_mod)
qed simp

lemma load_store_same [simp]: "load (length bs) d (store d bs m) = bs"
  by (auto simp: load_def store_def intro: nth_equalityI)

lemma load_store_other: "d + w \<le> e \<or> e + length bs \<le> d \<Longrightarrow> load w d (store e bs m) = load w d m"
  by (auto simp: load_def store_def)

lemma load_upd_other: "a < d \<or> d + w \<le> a \<Longrightarrow> load w d (m(a := v)) = load w d m"
  by (auto simp: load_def)

lemmas [mem_defs] = moved_def store_def load_def forward_safe_def

lemma moved_0 [simp]: "moved d s 0 m = m"
  by (auto simp: moved_def fun_eq_iff)

lemma moved_append:
  assumes "forward_safe d s (k + n)"
  shows "moved (d + k) (s + k) n (moved d s k m) = moved d s (k + n) m"
  using assms by (auto simp: moved_def forward_safe_def fun_eq_iff)

lemma store_load: "store d (load w s m) m = moved d s w m"
  by (auto simp: mem_defs fun_eq_iff)

lemma forward_safe_mono: "forward_safe d s n \<Longrightarrow> k \<le> n \<Longrightarrow> forward_safe d s k"
  by (auto simp: forward_safe_def)

lemma forward_safe_shift: "forward_safe d s (k + n) \<Longrightarrow> forward_safe (d + k) (s + k) n"
  by (auto simp: forward_safe_def)

lemma rep_movs_moved: "forward_safe d s (w * n) \<Longrightarrow> rep_movs w n d s m = moved d s (w * n) m"
proof (induction n arbitrary: d s m)
  case (Suc n)
  have "forward_safe (d + w) (s + w) (w * n)"
    using Suc.prems by (intro forward_safe_shift) simp
  then show ?case using Suc.IH moved_append [of d s w "w * n" m] Suc.prems by (simp add: store_load)
qed simp

lemma copy_byte: "m(d := m s) = moved d s 1 m"
  by (auto simp: moved_def fun_eq_iff)

lemma copy_bytes_rep: "copy_bytes k d s m = rep_movs 1 k d s m"
  by (induction k arbitrary: d s m) (simp_all add: store_load copy_byte)

lemma copy_bytes_moved: "forward_safe d s k \<Longrightarrow> copy_bytes k d s m = moved d s k m"
  using rep_movs_moved [of d s 1 k m] by (simp add: copy_bytes_rep)

lemma store_registers:
  "fold (\<lambda>r. store (p1 + 16 * r) (load 16 (p2 + 16 * r) m)) [0..<k] m = moved p1 p2 (16 * k) m"
proof (induction k)
  case (Suc k)
  have "store (p1 + 16 * k) (load 16 (p2 + 16 * k) m) (moved p1 p2 (16 * k) m) = moved p1 p2 (16 * Suc k) m"
    by (auto simp: mem_defs fun_eq_iff)
  with Suc.IH show ?case by simp
qed simp

lemma sse2_block_moved: "sse2_block p1 p2 m = moved p1 p2 128 m"
proof -
  have "sse2_block p1 p2 m = fold (\<lambda>r. store (p1 + 16 * r) (load 16 (p2 + 16 * r) m)) [0..<8] m"
    unfolding sse2_block_def Let_def by (rule fold_cong) auto
  then show ?thesis using store_registers [of p1 p2 m 8] by simp
qed

lemma sse2_blocks_moved: "forward_safe p1 p2 (128 * i) \<Longrightarrow> sse2_blocks i p1 p2 m = moved p1 p2 (128 * i) m"
proof (induction i arbitrary: p1 p2 m)
  case (Suc i)
  have "forward_safe (p1 + 128) (p2 + 128) (128 * i)"
    using Suc.prems by (intro forward_safe_shift) simp
  then show ?case
    using Suc.IH moved_append [of p1 p2 128 "128 * i" m] Suc.prems by (simp add: sse2_block_moved)
qed simp

lemma memcpy_small_moved:
  assumes "forward_safe p1 p2 n"
  shows "memcpy_small X64 p1 p2 n m = moved p1 p2 n m"
proof -
  define w :: nat where "w = (if X64 then 8 else 4)"
  have "0 < w" by (simp add: w_def)
  show ?thesis
  proof (cases "n < w")
    case True
    with assms show ?thesis by (simp add: memcpy_small_def w_def [symmetric] copy_bytes_moved)
  next
    case False
    define off where "off = (w - p1 mod w) mod w"
    define b where "b = (n - off) div w"
    define t where "t = (n - off) mod w"
    have "off < w" using \<open>0 < w\<close> by (simp add: off_def)
    then have n: "off + w * b + t = n" using False by (simp add: b_def t_def)
    then have n': "off + (w * b + t) = n" by simp
    have safe: "forward_safe p1 p2 off" "forward_safe (p1 + off) (p2 + off) (w * b)"
      "forward_safe (p1 + off + w * b) (p2 + off + w * b) t" "forward_safe p1 p2 (off + w * b)"
      using assms n forward_safe_mono forward_safe_shift [of p1 p2 off "w * b"]
        forward_safe_shift [of p1 p2 "off + w * b" t] by (simp_all add: forward_safe_def)
    have "memcpy_small X64 p1 p2 n m =
        copy_bytes t (p1 + off + w * b) (p2 + off + w * b) (rep_movs w b (p1 + off) (p2 + off) (copy_bytes off p1 p2 m))"
      using False by (simp add: memcpy_small_def w_def [symmetric] Let_def off_def b_def t_def)
    also have "\<dots> = moved (p1 + (off + w * b)) (p2 + (off + w * b)) t (moved p1 p2 (off + w * b) m)"
      using safe by (simp add: copy_bytes_moved rep_movs_moved moved_append add.assoc)
    also have "\<dots> = moved p1 p2 n m"
      using assms n by (simp add: moved_append)
    finally show ?thesis .
  qed
qed

lemma memcpy_tail:
  assumes "forward_safe p1 p2 n"
  shows "(if n mod 128 = 0 then moved p1 p2 (128 * (n div 128)) m
     else memcpy_small X64 (p1 + 128 * (n div 128)) (p2 + 128 * (n div 128)) (n mod 128) (moved p1 p2 (128 * (n div 128)) m))
   = moved p1 p2 n m"
proof -
  have n: "128 * (n div 128) + n mod 128 = n" by simp
  have "forward_safe (p1 + 128 * (n div 128)) (p2 + 128 * (n div 128)) (n mod 128)"
    using assms by (intro forward_safe_shift) simp
  then show ?thesis
    using moved_append [of p1 p2 "128 * (n div 128)" "n mod 128" m] assms n
    by (cases "n mod 128 = 0") (simp_all add: memcpy_small_moved)
qed

lemma memcpy_sse_moved:
  assumes "forward_safe p1 p2 n" "16 \<le> n"
  shows "memcpy_sse X64 p1 p2 n m = moved p1 p2 n m"
proof (cases "p1 mod 16 = 0 \<and> p2 mod 16 = 0")
  case True
  have "sse2_aligned_memcpy p1 p2 n m = moved p1 p2 (128 * (n div 128)) m"
    using sse2_blocks_moved [of p1 p2 "n div 128" m] forward_safe_mono [OF assms(1), of "128 * (n div 128)"] assms(2)
    by (simp add: sse2_aligned_memcpy_def)
  with True memcpy_tail [OF assms(1), of m X64] show ?thesis by (simp add: memcpy_sse_def Let_def)
next
  case False
  define k where "k = (if 16 - p1 mod 16 \<le> 15 then 16 - p1 mod 16 else 0)"
  have k: "k \<le> 15" "k + (n - k) = n" using assms(2) by (auto simp: k_def)
  have safe: "forward_safe p1 p2 k" "forward_safe (p1 + k) (p2 + k) (n - k)"
    using assms(1) k forward_safe_mono forward_safe_shift [of p1 p2 k "n - k"] by auto
  have "sse2_src_unaligned_memcpy (p1 + k) (p2 + k) (n - k) m0 = moved (p1 + k) (p2 + k) (128 * ((n - k) div 128)) m0" for m0
    using sse2_blocks_moved [of "p1 + k" "p2 + k" "(n - k) div 128" m0]
      forward_safe_mono [OF safe(2), of "128 * ((n - k) div 128)"] k(1) assms(2)
    by (simp add: sse2_src_unaligned_memcpy_def)
  then have "memcpy_sse X64 p1 p2 n m = moved (p1 + k) (p2 + k) (n - k) (moved p1 p2 k m)"
    using memcpy_tail [OF safe(2), of "moved p1 p2 k m" X64]
    unfolding memcpy_sse_def Let_def if_not_P [OF False] k_def [symmetric] copy_bytes_moved [OF safe(1)]
    by (simp only:)
  then show ?thesis using moved_append [of p1 p2 k "n - k" m] assms(1) k(2) by simp
qed

lemma memcpy_moved:
  "forward_safe s1 s2 n \<Longrightarrow> snd (memcpy X64 can_sse cr0_em s1 s2 n m) = moved s1 s2 n m"
  by (simp add: memcpy_def Let_def memcpy_sse_moved memcpy_small_moved SSE_THRESHOLD_def)

section \<open>Backward copies\<close>

lemma moved_back:
  assumes "s < d" "k + n \<le> s"
  shows "moved (d - k - n) (s - k - n) n (moved (d - k) (s - k) k m) = moved (d - k - n) (s - k - n) (k + n) m"
  using assms by (auto simp: moved_def fun_eq_iff)

lemma back_bytes_moved: "s < d \<Longrightarrow> n \<le> s \<Longrightarrow> back_bytes n d s m = moved (d - n) (s - n) n m"
proof (induction n arbitrary: d s m)
  case (Suc n)
  have "back_bytes (Suc n) d s m = moved (d - 1 - n) (s - 1 - n) n (moved (d - 1) (s - 1) 1 m)"
    using Suc.IH [of "s - 1" "d - 1"] Suc.prems by (simp add: copy_byte)
  then show ?case using moved_back [of s d 1 n m] Suc.prems by simp
qed simp

lemma back_words_moved: "s < d \<Longrightarrow> 4 * n \<le> s \<Longrightarrow> back_words n d s m = moved (d - 4 * n) (s - 4 * n) (4 * n) m"
proof (induction n arbitrary: d s m)
  case (Suc n)
  have "back_words (Suc n) d s m = moved (d - 4 - 4 * n) (s - 4 - 4 * n) (4 * n) (moved (d - 4) (s - 4) 4 m)"
    using Suc.IH [of "s - 4" "d - 4"] Suc.prems by (simp add: store_load)
  then show ?case using moved_back [of s d 4 "4 * n" m] Suc.prems by simp
qed simp

lemma back_align_moved:
  "s < d \<Longrightarrow> n \<le> s \<Longrightarrow> \<exists>k \<le> n. back_align n d s m = (n - k, d - k, s - k, moved (d - k) (s - k) k m)"
proof (induction n arbitrary: d s m)
  case (Suc n)
  show ?case
  proof (cases "(d - 1) mod 4 = 0")
    case True
    then show ?thesis by (intro exI [of _ 0]) simp
  next
    case False
    have "s - 1 < d - 1" "n \<le> s - 1" using Suc.prems by simp_all
    from Suc.IH [OF this, of "m(d - 1 := m (s - 1))"]
    obtain k where k: "k \<le> n" "back_align n (d - 1) (s - 1) (m(d - 1 := m (s - 1))) =
        (n - k, d - 1 - k, s - 1 - k, moved (d - 1 - k) (s - 1 - k) k (m(d - 1 := m (s - 1))))"
      by blast
    have "moved (d - 1 - k) (s - 1 - k) k (moved (d - 1) (s - 1) 1 m) = moved (d - 1 - k) (s - 1 - k) (Suc k) m"
      using moved_back [of s d 1 k m] Suc.prems k(1) by simp
    with k False show ?thesis by (intro exI [of _ "Suc k"]) (simp add: copy_byte)
  qed
qed simp

lemma memmove_moved: "memmove X64 can_sse cr0_em s1 s2 n m = moved s1 s2 n m"
proof (cases "s1 \<le> s2")
  case True
  then show ?thesis by (simp add: memmove_def memcpy_moved forward_safe_def)
next
  case False
  obtain k where k: "k \<le> n"
    "back_align n (s1 + n) (s2 + n) m = (n - k, s1 + n - k, s2 + n - k, moved (s1 + n - k) (s2 + n - k) k m)"
    using back_align_moved [of "s2 + n" "s1 + n" n m] False by auto
  define b where "b = (n - k) div 4"
  define t where "t = (n - k) mod 4"
  have n: "k + 4 * b + t = n" using k(1) by (simp add: b_def t_def)
  have "memmove X64 can_sse cr0_em s1 s2 n m = back_bytes t (s1 + n - k - 4 * b) (s2 + n - k - 4 * b)
      (back_words b (s1 + n - k) (s2 + n - k) (moved (s1 + n - k) (s2 + n - k) k m))"
    using False k by (simp add: memmove_def b_def t_def Let_def)
  also have "\<dots> = moved s1 s2 t (moved (s1 + t) (s2 + t) (4 * b) (moved (s1 + n - k) (s2 + n - k) k m))"
    using back_words_moved [of "s2 + n - k" "s1 + n - k" b] back_bytes_moved [of "s2 + t" "s1 + t" t] False n
    by (auto simp: algebra_simps)
  also have "\<dots> = moved s1 s2 n m"
    using False n by (auto simp: moved_def fun_eq_iff)
  finally show ?thesis .
qed

section \<open>Fills\<close>

lemma filled_0 [simp]: "filled bs d 0 m = m"
  by (auto simp: filled_def fun_eq_iff)

lemma filled_append:
  assumes "k mod length bs = 0"
  shows "filled bs (d + k) n (filled bs d k m) = filled bs d (k + n) m"
proof -
  have "(a - (d + k)) mod length bs = (a - d) mod length bs" if "d + k \<le> a" for a
  proof -
    have "(a - d) mod length bs = (k + (a - (d + k))) mod length bs" using that by simp
    also have "\<dots> = (k mod length bs + (a - (d + k))) mod length bs" by (simp only: mod_add_left_eq)
    finally show ?thesis using assms by simp
  qed
  then show ?thesis by (auto simp: filled_def fun_eq_iff)
qed

lemma store_filled: "store d bs m = filled bs d (length bs) m"
  by (auto simp: store_def filled_def fun_eq_iff)

lemma rep_stos_filled: "rep_stos bs n d m = filled bs d (length bs * n) m"
proof (induction n arbitrary: d m)
  case (Suc n)
  then show ?case using filled_append [of "length bs" bs d "length bs * n" m] by (simp add: store_filled)
qed simp

lemma filled_replicate: "0 < k \<Longrightarrow> filled (replicate k c) d n m = filled [c] d n m"
  by (auto simp: filled_def fun_eq_iff)

lemma le_bytes_fill:
  "le_bytes (fill64 c) = replicate 8 c" "le_bytes (fill32 c) = replicate 4 c" "le_bytes (fill16 c) = replicate 2 c"
proof -
  have byte: "ucast (drop_bit (8 * i) (fill64 c)) = c" if "i < 8" for i
  proof (rule bit_word_eqI)
    fix k assume "k < LENGTH(8)"
    then have k: "k < 8" by simp
    have "i \<in> {0,1,2,3,4,5,6,7}" using that by auto
    then show "bit (ucast (drop_bit (8 * i) (fill64 c)) :: u8) k = bit c k"
      using k by (elim insertE) (auto simp: fill64_def Let_def bit_simps dest: bit_imp_le_length)
  qed
  have byte32: "ucast (drop_bit (8 * i) (fill32 c)) = c" if "i < 4" for i
  proof (rule bit_word_eqI)
    fix k assume "k < LENGTH(8)"
    then have k: "k < 8" by simp
    have "i \<in> {0,1,2,3}" using that by auto
    then show "bit (ucast (drop_bit (8 * i) (fill32 c)) :: u8) k = bit c k"
      using k by (elim insertE) (auto simp: fill32_def Let_def bit_simps dest: bit_imp_le_length)
  qed
  have byte16: "ucast (drop_bit (8 * i) (fill16 c)) = c" if "i < 2" for i
  proof (rule bit_word_eqI)
    fix k assume "k < LENGTH(8)"
    then have k: "k < 8" by simp
    have "i \<in> {0,1}" using that by auto
    then show "bit (ucast (drop_bit (8 * i) (fill16 c)) :: u8) k = bit c k"
      using k by (elim insertE) (auto simp: fill16_def Let_def bit_simps dest: bit_imp_le_length)
  qed
  show "le_bytes (fill64 c) = replicate 8 c" "le_bytes (fill32 c) = replicate 4 c" "le_bytes (fill16 c) = replicate 2 c"
    using byte byte32 byte16 by (auto intro!: nth_equalityI simp: le_bytes_def)
qed

lemma memset_loop_filled: "memset_loop X64 c n p m = filled [c] p n m"
proof (induction X64 c n p m rule: memset_loop.induct)
  case (1 X64 c n p m)
  consider "n = 0" | "0 < n" "X64" "n mod 8 = 0" | "0 < n" "\<not> (X64 \<and> n mod 8 = 0)" "n mod 4 = 0"
    | "0 < n" "\<not> (X64 \<and> n mod 8 = 0)" "n mod 4 \<noteq> 0" "n mod 2 = 0"
    | "0 < n" "\<not> (X64 \<and> n mod 8 = 0)" "n mod 4 \<noteq> 0" "n mod 2 \<noteq> 0"
    by linarith
  then show ?case
  proof cases
    case 5
    have le: "memset_step X64 n \<le> n" using 5 by (auto simp: memset_step_def Let_def)
    have "memset_loop X64 c n p m = filled [c] (p + memset_step X64 n) (n - memset_step X64 n)
        (filled [c] p (memset_step X64 n) m)"
      using 5 "1.IH" by (subst memset_loop.simps) (auto simp: Let_def rep_stos_filled)
    then show ?thesis using filled_append [of "memset_step X64 n" "[c]" p "n - memset_step X64 n" m] le by simp
  qed (subst memset_loop.simps, auto simp: rep_stos_filled le_bytes_fill filled_replicate)+
qed

section \<open>Properties\<close>

text \<open>C2: \<open>memmove\<close> is correct for every overlap of source and destination, whatever the alignment,
  the word size, and whether SSE is in use: the destination afterwards holds the bytes the source
  held before, and no other byte changes.\<close>

theorem memmove_correct:
  "memmove X64 can_sse cr0_em s1 s2 n m =
     (\<lambda>a. if s1 \<le> a \<and> a < s1 + n then m (s2 + (a - s1)) else m a)"
  by (simp add: memmove_moved moved_def)

text \<open>C6: \<open>memcpy\<close> agrees with the byte-by-byte loop \<open>memcpy_gcc\<close>, and copies exactly, when the
  regions are disjoint or the destination starts at or below the source.\<close>

theorem memcpy_correct:
  assumes "s1 \<le> s2 \<or> s2 + n \<le> s1"
  shows "snd (memcpy X64 can_sse cr0_em s1 s2 n m) = memcpy_gcc s1 s2 n m \<and>
    snd (memcpy X64 can_sse cr0_em s1 s2 n m) =
      (\<lambda>a. if s1 \<le> a \<and> a < s1 + n then m (s2 + (a - s1)) else m a)"
  using assms memcpy_moved [of s1 s2 n] copy_bytes_moved [of s1 s2 n]
  by (simp add: forward_safe_def memcpy_gcc_def moved_def)

theorem memcpy_correct_witness:
  "snd (memcpy True False False 3 100 600000 (\<lambda>a. of_nat a)) = memcpy_gcc 3 100 600000 (\<lambda>a. of_nat a) \<and>
   snd (memcpy True False False 3 100 600000 (\<lambda>a. of_nat a)) =
     (\<lambda>a. if 3 \<le> a \<and> a < 3 + 600000 then of_nat (100 + (a - 3)) else of_nat a)"
  by (rule memcpy_correct) simp

text \<open>\<open>memset\<close> stores the low byte of its argument into exactly the \<open>n\<close> bytes of the buffer,
  whichever store width its loop picks.\<close>

theorem memset_correct:
  "memset X64 buf c n m = (\<lambda>a. if buf \<le> a \<and> a < buf + n then word_of_int c else m a)"
  by (auto simp: memset_def memset_nonzero_def memset_loop_filled filled_def fun_eq_iff Let_def)

text \<open>The wide fills repeat the little-endian bytes of their argument.\<close>

lemma rep_stos_at:
  "bs \<noteq> [] \<Longrightarrow> rep_stos bs n d m a =
     (if d \<le> a \<and> a < d + length bs * n then bs ! ((a - d) mod length bs) else m a)"
  by (simp add: rep_stos_filled filled_def)

theorem wide_memset_correct:
  "wmemset buf c n m a = (if buf \<le> a \<and> a < buf + 2 * n
      then ucast (drop_bit (8 * ((a - buf) mod 2)) (word_of_int c :: u16)) else m a) \<and>
   dmemset buf c32 n m a = (if buf \<le> a \<and> a < buf + 4 * n
      then ucast (drop_bit (8 * ((a - buf) mod 4)) c32) else m a) \<and>
   qmemset buf c64 n m a = (if buf \<le> a \<and> a < buf + 8 * n
      then ucast (drop_bit (8 * ((a - buf) mod 8)) c64) else m a)"
  by (auto simp: wmemset_def dmemset_def qmemset_def rep_stos_at le_bytes_def)

text \<open>\<open>memcmp\<close> is zero exactly on equal regions; otherwise its sign is that of the first
  difference, the bytes being compared as signed numbers.\<close>

theorem memcmp_correct:
  "memcmp p1 p2 len m =
     (case find (\<lambda>i. m (p1 + i) \<noteq> m (p2 + i)) [0..<len] of
        None \<Rightarrow> 0
      | Some i \<Rightarrow> if m (p1 + i) <s m (p2 + i) then -1 else 1)"
proof -
  have upt: "[0..<Suc n] = 0 # map Suc [0..<n]" for n
    by (simp add: map_Suc_upt upt_conv_Cons del: upt_Suc)
  have fm: "find P (map f xs) = map_option f (find (P \<circ> f) xs)" for P :: "nat \<Rightarrow> bool" and f :: "nat \<Rightarrow> nat" and xs
    by (induction xs) auto
  show ?thesis unfolding memcmp_def
  proof (induction len arbitrary: p1 p2)
    case (Suc len)
    have ne: "m p1 = m p2 \<longleftrightarrow> sint (m p1) = sint (m p2)" by (simp add: sint_word_ariths word_eq_iff_signed)
    show ?case
      unfolding upt memcmp_loop.simps Suc.IH
      by (auto simp: fm comp_def word_sless_alt ne split: option.splits)
  qed simp
qed

end
