(* ===== verification/C_String.thy ===== *)
theory C_String
  imports C_Memory "HOL-Library.Monad_Syntax"
begin

text \<open>
  The kernel's C string functions, \<^verbatim>\<open>system/kernel/core/lib/string.c\<close>, over the byte memory of
  \<^verbatim>\<open>C_Memory\<close>.  A loop that runs until it meets a NUL byte may not end, so such loops are
  \<open>partial_function (option)\<close>; the theorems show that they return on NUL-terminated strings.
\<close>

section \<open>The functions\<close>

partial_function (option) strlen_loop :: "mem \<Rightarrow> addr \<Rightarrow> nat \<Rightarrow> nat option" where
  "strlen_loop m src i = (if m src = 0 then Some i else strlen_loop m (src + 1) (i + 1))"

definition strlen :: "mem \<Rightarrow> addr \<Rightarrow> nat option" where
  "strlen m src = strlen_loop m src 0"

partial_function (option) strcpy_loop :: "mem \<Rightarrow> addr \<Rightarrow> addr \<Rightarrow> int \<Rightarrow> (int \<times> mem) option" where
  "strcpy_loop m dest src n =
     (if m src = 0 then Some (n, m(dest := 0))
      else strcpy_loop (m(dest := m src)) (dest + 1) (src + 1) (n + 1))"

definition strcpy :: "addr \<Rightarrow> addr \<Rightarrow> mem \<Rightarrow> (int \<times> mem) option" where
  "strcpy dest src m = strcpy_loop m dest src 0"

text \<open>The loops with a count stop when it reaches zero; a negative one does not stop them.\<close>

partial_function (option) strncpy_loop :: "mem \<Rightarrow> addr \<Rightarrow> addr \<Rightarrow> int \<Rightarrow> int \<Rightarrow> (int \<times> mem) option" where
  "strncpy_loop m dest src len n =
     (if m src = 0 \<or> len = 0 then Some (n, m(dest := 0))
      else strncpy_loop (m(dest := m src)) (dest + 1) (src + 1) (len - 1) (n + 1))"

definition strncpy :: "addr \<Rightarrow> addr \<Rightarrow> int \<Rightarrow> mem \<Rightarrow> (int \<times> mem) option" where
  "strncpy dest src len m = strncpy_loop m dest src len 0"

partial_function (option) strcmp_loop :: "mem \<Rightarrow> addr \<Rightarrow> addr \<Rightarrow> int option" where
  "strcmp_loop m p1 p2 =
     (if m p1 \<noteq> 0 \<and> m p2 \<noteq> 0
      then (if m p1 \<noteq> m p2 then Some 1 else strcmp_loop m (p1 + 1) (p2 + 1))
      else if (m p1 = 0 \<and> m p2 \<noteq> 0) \<or> (m p1 \<noteq> 0 \<and> m p2 = 0) then Some 1 else Some 0)"

definition strcmp :: "addr \<Rightarrow> addr \<Rightarrow> mem \<Rightarrow> int option" where
  "strcmp p1 p2 m = strcmp_loop m p1 p2"

partial_function (option) strncmp_loop :: "mem \<Rightarrow> addr \<Rightarrow> addr \<Rightarrow> int \<Rightarrow> int option" where
  "strncmp_loop m p1 p2 n =
     (if m p1 \<noteq> 0 \<and> m p2 \<noteq> 0 \<and> n \<noteq> 0
      then (if m p1 \<noteq> m p2 then Some 1 else strncmp_loop m (p1 + 1) (p2 + 1) (n - 1))
      else if n \<noteq> 0 \<and> ((m p1 = 0 \<and> m p2 \<noteq> 0) \<or> (m p1 \<noteq> 0 \<and> m p2 = 0)) then Some 1 else Some 0)"

definition strncmp :: "addr \<Rightarrow> addr \<Rightarrow> int \<Rightarrow> mem \<Rightarrow> int option" where
  "strncmp p1 p2 n m = strncmp_loop m p1 p2 n"

partial_function (option) cat_loop :: "mem \<Rightarrow> addr \<Rightarrow> addr \<Rightarrow> mem option" where
  "cat_loop m d s = (if m s = 0 then Some (m(d := 0)) else cat_loop (m(d := m s)) (d + 1) (s + 1))"

definition strcat :: "addr \<Rightarrow> addr \<Rightarrow> mem \<Rightarrow> mem option" where
  "strcat dest src m = do { di \<leftarrow> strlen m dest; cat_loop m (dest + di) src }"

partial_function (option) ncat_loop :: "mem \<Rightarrow> addr \<Rightarrow> addr \<Rightarrow> int \<Rightarrow> mem option" where
  "ncat_loop m d s n =
     (if m s = 0 \<or> n = 0 then Some (m(d := 0)) else ncat_loop (m(d := m s)) (d + 1) (s + 1) (n - 1))"

definition strncat :: "addr \<Rightarrow> addr \<Rightarrow> int \<Rightarrow> mem \<Rightarrow> mem option" where
  "strncat dest src n m = do { di \<leftarrow> strlen m dest; ncat_loop m (dest + di) src n }"

text \<open>The character classes take a \<open>char\<close>; \<open>c\<close> is its (signed) value.\<close>

definition isspace :: "int \<Rightarrow> bool" where
  "isspace c \<longleftrightarrow> c = 32 \<or> c = 10 \<or> c = 13 \<or> c = 9"

definition isupper :: "int \<Rightarrow> bool" where
  "isupper c \<longleftrightarrow> c \<ge> 65 \<and> c \<le> 90"

definition islower :: "int \<Rightarrow> bool" where
  "islower c \<longleftrightarrow> c \<ge> 97 \<and> c \<le> 122"

definition isdigit :: "int \<Rightarrow> bool" where
  "isdigit c \<longleftrightarrow> c \<ge> 48 \<and> c \<le> 57"

definition isalpha :: "int \<Rightarrow> bool" where
  "isalpha c \<longleftrightarrow> isupper c \<or> islower c \<or> isdigit c"

text \<open>\<open>strtoul\<close>: the states of the loops are the current character \<open>c\<close> and the pointer \<open>s\<close>
  past it.  \<open>'l\<close> is the width of \<open>unsigned long\<close>.\<close>

partial_function (option) skip_space :: "mem \<Rightarrow> addr \<Rightarrow> (int \<times> addr) option" where
  "skip_space m s = (if isspace (sint (m s)) then skip_space m (s + 1) else Some (sint (m s), s + 1))"

definition strtoul_digit :: "int \<Rightarrow> int option" where
  "strtoul_digit c = (if isdigit c then Some (c - 48)
     else if isalpha c then Some (c - (if isupper c then 65 - 10 else 97 - 10)) else None)"

partial_function (option) strtoul_loop ::
  "mem \<Rightarrow> int \<Rightarrow> 'l::len word \<Rightarrow> int \<Rightarrow> 'l word \<Rightarrow> int \<Rightarrow> int \<Rightarrow> addr \<Rightarrow> ('l word \<times> int \<times> addr) option" where
  "strtoul_loop m base cutoff cutlim acc any c s =
     (case strtoul_digit c of
        None \<Rightarrow> Some (acc, any, s)
      | Some d \<Rightarrow>
          if d \<ge> base then Some (acc, any, s)
          else if any < 0 \<or> acc > cutoff \<or> (acc = cutoff \<and> d > cutlim)
          then strtoul_loop m base cutoff cutlim acc (-1) (sint (m s)) (s + 1)
          else strtoul_loop m base cutoff cutlim (acc * word_of_int base + word_of_int d) 1 (sint (m s)) (s + 1))"

text \<open>The result is the value and the end pointer.\<close>

definition strtoul :: "addr \<Rightarrow> int \<Rightarrow> mem \<Rightarrow> ('l::len word \<times> addr) option" where
  "strtoul nptr base m = do {
     (c, s) \<leftarrow> skip_space m nptr;
     let (neg, c, s) = (if c = 45 then (True, sint (m s), s + 1)
                        else if c = 43 then (False, sint (m s), s + 1) else (False, c, s));
     let (base, c, s) = (if (base = 0 \<or> base = 16) \<and> c = 48 \<and> (sint (m s) = 120 \<or> sint (m s) = 88)
                         then (16, sint (m (s + 1)), s + 2) else (base, c, s));
     let base = (if base = 0 then (if c = 48 then 8 else 10) else base);
     let cutoff = (-1 :: 'l word) div word_of_int base;
     let cutlim = uint ((-1 :: 'l word) mod word_of_int base);
     (acc, any, s) \<leftarrow> strtoul_loop m base cutoff cutlim 0 0 c s;
     Some (if any < 0 then -1 else if neg then - acc else acc, if any \<noteq> 0 then s - 1 else nptr) }"

fun strrchr_loop :: "mem \<Rightarrow> addr \<Rightarrow> int \<Rightarrow> nat \<Rightarrow> addr option" where
  "strrchr_loop m str target 0 = (if sint (m str) = target then Some str else None)"
| "strrchr_loop m str target (Suc i) =
     (if sint (m (str + Suc i)) = target then Some (str + Suc i) else strrchr_loop m str target i)"

definition strrchr :: "addr \<Rightarrow> int \<Rightarrow> mem \<Rightarrow> addr option option" where
  "strrchr str target m = do { n \<leftarrow> strlen m str; Some (strrchr_loop m str target n) }"

text \<open>\<open>strchr\<close> evaluates \<open>strlen\<close> before every iteration; memory does not change meanwhile.\<close>

fun strchr_loop :: "mem \<Rightarrow> addr \<Rightarrow> int \<Rightarrow> nat \<Rightarrow> nat \<Rightarrow> addr option" where
  "strchr_loop m str target i 0 = None"
| "strchr_loop m str target i (Suc k) =
     (if sint (m (str + i)) = target then Some (str + i) else strchr_loop m str target (i + 1) k)"

definition strchr :: "addr \<Rightarrow> int \<Rightarrow> mem \<Rightarrow> addr option option" where
  "strchr str target m = do { n \<leftarrow> strlen m str; Some (strchr_loop m str target 0 n) }"

lemmas [code] = strlen_loop.simps strcpy_loop.simps strncpy_loop.simps strcmp_loop.simps strncmp_loop.simps
  cat_loop.simps ncat_loop.simps skip_space.simps strtoul_loop.simps

section \<open>NUL-terminated strings in memory\<close>

fun cstr :: "mem \<Rightarrow> addr \<Rightarrow> u8 list \<Rightarrow> bool" where
  "cstr m p [] \<longleftrightarrow> m p = 0"
| "cstr m p (c # s) \<longleftrightarrow> m p = c \<and> c \<noteq> 0 \<and> cstr m (p + 1) s"

text \<open>Where a copy of \<open>k\<close> bytes, lowest address first, never overwrites what it has still to read.\<close>

definition copy_safe :: "addr \<Rightarrow> addr \<Rightarrow> nat \<Rightarrow> bool" where
  "copy_safe d s k \<longleftrightarrow> d \<le> s \<or> s + k < d"

lemma cstr_frame: "cstr m p s \<Longrightarrow> a < p \<or> p + length s < a \<Longrightarrow> cstr (m(a := v)) p s"
  by (induction s arbitrary: p) auto

lemma cstr_append: "cstr m p (s @ t) \<longleftrightarrow> 0 \<notin> set s \<and> (\<forall>i < length s. m (p + i) = s ! i) \<and> cstr m (p + length s) t"
proof (induction s arbitrary: p)
  case (Cons c s)
  have "(\<forall>i < Suc (length s). m (p + i) = (c # s) ! i) \<longleftrightarrow> m p = c \<and> (\<forall>i < length s. m (Suc p + i) = s ! i)"
    by (auto simp: less_Suc_eq_0_disj)
  with Cons.IH [of "p + 1"] show ?case by auto
qed simp

lemma cstr_nth: "cstr m p s \<Longrightarrow> i < length s \<Longrightarrow> m (p + i) = s ! i"
  using cstr_append [of m p s "[]"] by simp

lemma cstr_end: "cstr m p s \<Longrightarrow> m (p + length s) = 0"
  using cstr_append [of m p s "[]"] by simp

lemma cstr_nonzero: "cstr m p s \<Longrightarrow> 0 \<notin> set s"
  using cstr_append [of m p s "[]"] by simp

lemma cstr_unique: "cstr m p s \<Longrightarrow> cstr m p t \<Longrightarrow> s = t"
proof (induction s arbitrary: p t)
  case (Cons c s)
  then show ?case by (cases t) auto
qed (metis cstr.elims(2) cstr.simps(1))

lemma store_Cons: "store d (c # bs) m = store (d + 1) bs (m(d := c))"
  by (auto simp: store_def fun_eq_iff nth_Cons')

lemma store_Nil [simp]: "store d [] m = m"
  by (auto simp: store_def fun_eq_iff)

lemma store_one: "store d [c] m = m(d := c)"
  by (simp add: store_Cons)

lemma cstr_store: "0 \<notin> set s \<Longrightarrow> cstr (store d (s @ [0]) m) d s"
proof (induction s arbitrary: d m)
  case (Cons c s)
  have "store (d + 1) (s @ [0]) (m(d := c)) d = c" by (simp add: store_def)
  with Cons show ?case by (simp add: store_Cons)
qed (simp add: store_one)

lemma strlen_loop_cstr: "cstr m p s \<Longrightarrow> strlen_loop m p i = Some (i + length s)"
  by (induction s arbitrary: p i) (simp_all add: strlen_loop.simps)

lemma strlen_cstr: "cstr m p s \<Longrightarrow> strlen m p = Some (length s)"
  by (simp add: strlen_def strlen_loop_cstr)

text \<open>The copying loops, with the count that bounds them (a negative one bounds nothing).\<close>

definition limit :: "int \<Rightarrow> u8 list \<Rightarrow> u8 list" where
  "limit n s = (if n < 0 then s else take (nat n) s)"

lemma limit_Cons: "limit n (c # s) = (if n = 0 then [] else c # limit (n - 1) s)"
  by (auto simp: limit_def take_Cons' nat_diff_distrib)

lemma limit_Nil [simp]: "limit n [] = []" "limit 0 s = []"
  by (simp_all add: limit_def)

lemma copy_safe_step: "copy_safe d s (Suc k) \<Longrightarrow> copy_safe (d + 1) (s + 1) k"
  by (auto simp: copy_safe_def)

lemma cstr_step:
  assumes "cstr m src (c # s)" "copy_safe dest src (length (c # s))"
  shows "cstr (m(dest := c)) (src + 1) s"
  using assms by (auto simp: copy_safe_def intro!: cstr_frame)

lemma ncat_loop_cstr:
  "cstr m src s \<Longrightarrow> copy_safe dest src (length s) \<Longrightarrow>
     ncat_loop m dest src n = Some (store dest (limit n s @ [0]) m)"
proof (induction s arbitrary: m dest src n)
  case (Cons c s)
  have c: "m src = c" "c \<noteq> 0" using Cons.prems(1) by simp_all
  have "copy_safe (dest + 1) (src + 1) (length s)" using Cons.prems(2) by (intro copy_safe_step) simp
  from Cons.IH [OF cstr_step [OF Cons.prems] this] c show ?case
    by (subst ncat_loop.simps) (auto simp: limit_Cons store_Cons simp del: fun_upd_apply)
qed (simp add: ncat_loop.simps store_one)

lemma strncpy_loop_cstr:
  "cstr m src s \<Longrightarrow> copy_safe dest src (length s) \<Longrightarrow>
     strncpy_loop m dest src len n = Some (n + int (length (limit len s)), store dest (limit len s @ [0]) m)"
proof (induction s arbitrary: m dest src len n)
  case (Cons c s)
  have c: "m src = c" "c \<noteq> 0" using Cons.prems(1) by simp_all
  have "copy_safe (dest + 1) (src + 1) (length s)" using Cons.prems(2) by (intro copy_safe_step) simp
  from Cons.IH [OF cstr_step [OF Cons.prems] this] c show ?case
    by (subst strncpy_loop.simps) (auto simp: limit_Cons store_Cons simp del: fun_upd_apply)
qed (simp add: strncpy_loop.simps store_one)

text \<open>The unbounded loops are the bounded ones with a negative bound.\<close>

lemma strcpy_loop_cstr:
  "cstr m src s \<Longrightarrow> copy_safe dest src (length s) \<Longrightarrow>
     strcpy_loop m dest src n = Some (n + int (length s), store dest (s @ [0]) m)"
proof (induction s arbitrary: m dest src n)
  case (Cons c s)
  have c: "m src = c" "c \<noteq> 0" using Cons.prems(1) by simp_all
  have "copy_safe (dest + 1) (src + 1) (length s)" using Cons.prems(2) by (intro copy_safe_step) simp
  from Cons.IH [OF cstr_step [OF Cons.prems] this] c show ?case
    by (subst strcpy_loop.simps) (auto simp: limit_Cons store_Cons simp del: fun_upd_apply)
qed (simp add: strcpy_loop.simps store_one)

lemma cat_loop_cstr:
  "cstr m src s \<Longrightarrow> copy_safe dest src (length s) \<Longrightarrow> cat_loop m dest src = Some (store dest (s @ [0]) m)"
proof (induction s arbitrary: m dest src)
  case (Cons c s)
  have c: "m src = c" "c \<noteq> 0" using Cons.prems(1) by simp_all
  have "copy_safe (dest + 1) (src + 1) (length s)" using Cons.prems(2) by (intro copy_safe_step) simp
  from Cons.IH [OF cstr_step [OF Cons.prems] this] c show ?case
    by (subst cat_loop.simps) (auto simp: limit_Cons store_Cons simp del: fun_upd_apply)
qed (simp add: cat_loop.simps store_one)

section \<open>Copying and comparing\<close>

text \<open>Copying a string: \<open>strcpy\<close> and \<open>strncpy\<close> return, write the (bounded) string and a
  terminator at the destination, touch nothing else, and return the number of characters.  The
  bounded copy writes the terminator after the last character, so up to \<open>len + 1\<close> bytes.\<close>

theorem strcpy_strncpy_correct:
  assumes "cstr m src s" "dest \<le> src \<or> src + length s < dest" "0 \<le> len"
  shows "strcpy dest src m = Some (int (length s), store dest (s @ [0]) m) \<and>
    strncpy dest src len m = Some (min (int (length s)) len, store dest (take (nat len) s @ [0]) m)"
  using strcpy_loop_cstr [of m src s dest 0] strncpy_loop_cstr [of m src s dest len 0] assms
  by (auto simp: strcpy_def strncpy_def copy_safe_def limit_def)

abbreviation abc_mem :: mem where
  "abc_mem \<equiv> (\<lambda>_. 0)(10 := 97, 11 := 98, 12 := 99)"

theorem strcpy_strncpy_correct_witness:
  "strcpy 20 10 abc_mem = Some (int (length [97, 98, 99 :: u8]), store 20 ([97, 98, 99] @ [0]) abc_mem) \<and>
   strncpy 20 10 2 abc_mem = Some (min (int (length [97, 98, 99 :: u8])) 2, store 20 (take (nat 2) [97, 98, 99] @ [0]) abc_mem)"
  by (rule strcpy_strncpy_correct) simp_all

lemma cat_cstr:
  assumes "cstr m dest s" "0 \<notin> set t"
  shows "cstr (store (dest + length s) (t @ [0]) m) dest (s @ t)"
  unfolding cstr_append using assms cstr_nonzero [OF assms(1)] cstr_nth [OF assms(1)] cstr_store [of t "dest + length s" m]
  by (auto simp: store_def)

text \<open>Concatenation: when the source does not overlap the destination string and the room after
  it, the destination then holds both strings one after the other.\<close>

theorem strcat_strncat_correct:
  assumes "cstr m dest s" "cstr m src t" "dest + length s \<le> src \<or> src + length t < dest + length s" "0 \<le> n"
  shows "\<exists>m1 m2. strcat dest src m = Some m1 \<and> cstr m1 dest (s @ t) \<and>
    strncat dest src n m = Some m2 \<and> cstr m2 dest (s @ take (nat n) t) \<and>
    (\<forall>a. a < dest \<or> dest + length s + length t < a \<longrightarrow> m1 a = m a \<and> m2 a = m a)"
proof -
  have safe: "copy_safe (dest + length s) src (length t)" using assms(3) by (simp add: copy_safe_def)
  have nz: "0 \<notin> set t" "0 \<notin> set (take (nat n) t)"
    using cstr_nonzero [OF assms(2)] in_set_takeD by fast+
  have frame: "store (dest + length s) (u @ [0]) m a = m a"
    if "length u \<le> length t" "a < dest \<or> dest + length s + length t < a" for u a
    using that by (auto simp: store_def)
  show ?thesis
    using cat_loop_cstr [OF assms(2) safe] ncat_loop_cstr [OF assms(2) safe, of n] assms(1,4)
      cat_cstr [OF assms(1) nz(1)] cat_cstr [OF assms(1) nz(2)]
    by (simp add: strcat_def strncat_def strlen_cstr limit_def frame)
qed

theorem strcat_strncat_correct_witness:
  "\<exists>m1 m2. strcat 20 10 (abc_mem(20 := 120)) = Some m1 \<and> cstr m1 20 ([120] @ [97, 98, 99]) \<and>
    strncat 20 10 2 (abc_mem(20 := 120)) = Some m2 \<and> cstr m2 20 ([120] @ take (nat 2) [97, 98, 99]) \<and>
    (\<forall>a. a < 20 \<or> 20 + length [120 :: u8] + length [97, 98, 99 :: u8] < a \<longrightarrow>
      m1 a = (abc_mem(20 := 120)) a \<and> m2 a = (abc_mem(20 := 120)) a)"
  by (rule strcat_strncat_correct) simp_all

text \<open>The comparisons only tell equal from different: \<open>strcmp\<close> is 0 for equal strings and 1
  otherwise, and \<open>strncmp\<close> likewise for the first \<open>n\<close> characters.\<close>

lemma strcmp_loop_cstr:
  "cstr m p s \<Longrightarrow> cstr m q t \<Longrightarrow> strcmp_loop m p q = Some (if s = t then 0 else 1)"
proof (induction s arbitrary: p q t)
  case Nil
  then show ?case by (cases t) (auto simp: strcmp_loop.simps)
next
  case (Cons c s)
  then show ?case by (cases t) (auto simp: strcmp_loop.simps [of m p q])
qed

lemma strncmp_loop_cstr:
  "cstr m p s \<Longrightarrow> cstr m q t \<Longrightarrow> strncmp_loop m p q n = Some (if limit n s = limit n t then 0 else 1)"
proof (induction s arbitrary: p q t n)
  case Nil
  then show ?case by (cases t) (auto simp: strncmp_loop.simps limit_Cons)
next
  case (Cons c s)
  then show ?case by (cases t) (auto simp: strncmp_loop.simps [of m p q] limit_Cons)
qed

theorem strcmp_strncmp_correct:
  assumes "cstr m p s" "cstr m q t" "0 \<le> n"
  shows "strcmp p q m = Some (if s = t then 0 else 1) \<and>
    strncmp p q n m = Some (if take (nat n) s = take (nat n) t then 0 else 1)"
  using strcmp_loop_cstr [OF assms(1,2)] strncmp_loop_cstr [OF assms(1,2), of n] assms(3)
  by (simp add: strcmp_def strncmp_def limit_def)

theorem strcmp_strncmp_correct_witness:
  "strcmp 10 11 abc_mem = Some (if [97, 98, 99 :: u8] = [98, 99] then 0 else 1) \<and>
   strncmp 10 11 0 abc_mem = Some (if take (nat 0) [97, 98, 99 :: u8] = take (nat 0) [98, 99] then 0 else 1)"
  by (rule strcmp_strncmp_correct) simp_all

text \<open>Searching: \<open>strchr\<close> returns the first position of a character of the string, \<open>strrchr\<close>
  the last, counting the terminator, which \<open>strchr\<close> never finds.\<close>

lemma strrchr_loop_spec:
  "strrchr_loop m str target n =
     (if \<exists>i \<le> n. sint (m (str + i)) = target then Some (str + Max {i. i \<le> n \<and> sint (m (str + i)) = target}) else None)"
proof (induction n)
  case 0
  have "{i. i = 0 \<and> sint (m (str + i)) = target} = {0}" if "sint (m str) = target" using that by auto
  then show ?case by auto
next
  case (Suc n)
  have fin: "finite {i. i \<le> k \<and> sint (m (str + i)) = target}" for k
    by (rule finite_subset [of _ "{..k}"]) auto
  show ?case
  proof (cases "sint (m (str + Suc n)) = target")
    case True
    then have "Max {i. i \<le> Suc n \<and> sint (m (str + i)) = target} = Suc n"
      using fin by (intro Max_eqI) auto
    with True show ?thesis by auto
  next
    case False
    then have "i \<le> Suc n \<and> sint (m (str + i)) = target \<longleftrightarrow> i \<le> n \<and> sint (m (str + i)) = target" for i
      by (auto simp: le_Suc_eq)
    with False Suc.IH show ?thesis by (simp only: strrchr_loop.simps if_False)
  qed
qed

lemma strchr_loop_spec:
  "strchr_loop m str target i k = map_option (\<lambda>j. str + j) (find (\<lambda>j. sint (m (str + j)) = target) [i..<i + k])"
  by (induction k arbitrary: i) (simp_all add: upt_conv_Cons del: upt_Suc)

theorem strchr_strrchr_correct:
  assumes "cstr m str s"
  shows "strchr str target m = Some (map_option (\<lambda>j. str + j) (find (\<lambda>j. sint (s ! j) = target) [0..<length s])) \<and>
    strrchr str target m = Some (if \<exists>i \<le> length s. sint ((s @ [0]) ! i) = target
      then Some (str + Max {i. i \<le> length s \<and> sint ((s @ [0]) ! i) = target}) else None)"
proof -
  have at: "m (str + i) = (s @ [0]) ! i" if "i \<le> length s" for i
    using that cstr_nth [OF assms] cstr_end [OF assms] by (auto simp: nth_append le_less)
  have "find (\<lambda>j. sint (m (str + j)) = target) [0..<length s] = find (\<lambda>j. sint (s ! j) = target) [0..<length s]"
    using cstr_nth [OF assms] by (intro find_cong) auto
  moreover have "(i \<le> length s \<and> sint (m (str + i)) = target) = (i \<le> length s \<and> sint ((s @ [0]) ! i) = target)" for i
    using at by auto
  ultimately show ?thesis
    using strlen_cstr [OF assms] by (simp add: strchr_def strrchr_def strchr_loop_spec strrchr_loop_spec)
qed

theorem strchr_strrchr_correct_witness:
  "strchr 10 98 abc_mem = Some (map_option (\<lambda>j. 10 + j) (find (\<lambda>j. sint ([97, 98, 99 :: u8] ! j) = 98) [0..<length [97, 98, 99 :: u8]])) \<and>
   strrchr 10 98 abc_mem = Some (if \<exists>i \<le> length [97, 98, 99 :: u8]. sint (([97, 98, 99 :: u8] @ [0]) ! i) = 98
      then Some (10 + Max {i. i \<le> length [97, 98, 99 :: u8] \<and> sint (([97, 98, 99 :: u8] @ [0]) ! i) = 98}) else None)"
  by (rule strchr_strrchr_correct) simp

section \<open>Parsing numbers\<close>

definition bytes_at :: "mem \<Rightarrow> addr \<Rightarrow> u8 list \<Rightarrow> bool" where
  "bytes_at m p bs \<longleftrightarrow> (\<forall>i < length bs. m (p + i) = bs ! i)"

lemma bytes_at_Cons [simp]: "bytes_at m p (c # bs) \<longleftrightarrow> m p = c \<and> bytes_at m (p + 1) bs"
  by (auto simp: bytes_at_def less_Suc_eq_0_disj)

lemma bytes_at_Nil [simp]: "bytes_at m p []"
  by (simp add: bytes_at_def)

lemma bytes_at_append [simp]: "bytes_at m p (as @ bs) \<longleftrightarrow> bytes_at m p as \<and> bytes_at m (p + length as) bs"
  by (induction as arbitrary: p) auto

definition digit_in :: "int \<Rightarrow> u8 \<Rightarrow> bool" where
  "digit_in base c \<longleftrightarrow> (case strtoul_digit (sint c) of None \<Rightarrow> False | Some d \<Rightarrow> d < base)"

definition digit_value :: "u8 \<Rightarrow> int" where
  "digit_value c = (case strtoul_digit (sint c) of None \<Rightarrow> 0 | Some d \<Rightarrow> d)"

definition num_value :: "int \<Rightarrow> int \<Rightarrow> u8 list \<Rightarrow> int" where
  "num_value base acc ds = foldl (\<lambda>v c. v * base + digit_value c) acc ds"

lemma num_value_simps [simp]:
  "num_value base acc [] = acc" "num_value base acc (c # ds) = num_value base (acc * base + digit_value c) ds"
  by (simp_all add: num_value_def)

lemma digit_value_nonneg: "0 \<le> digit_value c"
  by (auto simp: digit_value_def strtoul_digit_def isdigit_def isalpha_def isupper_def islower_def split: option.splits)

lemma num_value_mono: "1 \<le> base \<Longrightarrow> 0 \<le> acc \<Longrightarrow> acc \<le> num_value base acc ds"
proof (induction ds arbitrary: acc)
  case (Cons c ds)
  have "acc \<le> acc * base" using Cons.prems by (simp add: mult_le_cancel_left1)
  then have "acc \<le> acc * base + digit_value c" using digit_value_nonneg [of c] by linarith
  also have "\<dots> \<le> num_value base (acc * base + digit_value c) ds"
    using Cons.IH [OF Cons.prems(1)] \<open>acc \<le> acc * base + digit_value c\<close> Cons.prems(2) by simp
  finally show ?case by simp
qed simp

text \<open>The overflow test of the loop, in terms of the value it guards.\<close>

lemma cutoff_test:
  fixes M b a d :: int
  assumes "0 < b" "0 \<le> d" "d < b"
  shows "a > M div b \<or> (a = M div b \<and> d > M mod b) \<longleftrightarrow> a * b + d > M"
proof -
  have M: "M = b * (M div b) + M mod b" by simp
  have r: "0 \<le> M mod b" "M mod b < b" using assms(1) by simp_all
  consider "a < M div b" | "a = M div b" | "a > M div b" by linarith
  then show ?thesis
  proof cases
    case 1
    then have "b * (a + 1) \<le> b * (M div b)" using assms(1) by (intro mult_left_mono) auto
    then have "a * b + b \<le> b * (M div b)" by (simp add: algebra_simps)
    then have "a * b + d \<le> M" using assms M r by linarith
    with 1 show ?thesis by auto
  next
    case 2
    then have "a * b + d > M \<longleftrightarrow> d > M mod b" using M by (metis add_less_cancel_left mult.commute)
    with 2 show ?thesis by auto
  next
    case 3
    then have "b * (M div b + 1) \<le> b * a" using assms(1) by (intro mult_left_mono) auto
    then have "b * (M div b) + b \<le> a * b" by (simp add: algebra_simps)
    then have "a * b + d > M" using assms M r by linarith
    with 3 show ?thesis by auto
  qed
qed

abbreviation ulong_max :: "'l::len itself \<Rightarrow> int" where
  "ulong_max _ \<equiv> 2 ^ LENGTH('l) - 1"

lemma uint_minus_1: "uint (-1 :: 'l::len word) = ulong_max TYPE('l)"
  by (simp add: unsigned_minus_1_eq_mask mask_eq_exp_minus_1)

locale radix =
  fixes base :: int and width :: "'l::len itself"
  assumes base: "2 \<le> base" "base \<le> 36" and width: "8 \<le> LENGTH('l)"
begin

lemma base_uint: "uint (word_of_int base :: 'l word) = base"
proof -
  have "(2::int) ^ 8 \<le> 2 ^ LENGTH('l)" using width by (intro power_increasing) auto
  then show ?thesis using base by (simp add: uint_word_of_int)
qed

lemma cutoff_uint: "uint ((-1 :: 'l word) div word_of_int base) = ulong_max TYPE('l) div base"
  by (simp only: uint_div_distrib uint_minus_1 base_uint)

lemma cutlim_uint: "uint ((-1 :: 'l word) mod word_of_int base) = ulong_max TYPE('l) mod base"
  by (simp only: uint_mod_distrib uint_minus_1 base_uint)

lemma loop_overflowed:
  fixes acc cutoff :: "'l word"
  assumes "bytes_at m p (ds @ [t])" "\<forall>c \<in> set ds. digit_in base c" "\<not> digit_in base t"
  shows "strtoul_loop m base cutoff cutlim acc (-1) (sint (m p)) (p + 1) = Some (acc, -1, p + length ds + 1)"
  using assms
proof (induction ds arbitrary: p)
  case Nil
  then show ?case by (subst strtoul_loop.simps) (auto simp: digit_in_def split: option.splits)
next
  case (Cons c ds)
  then show ?case
    by (subst strtoul_loop.simps) (auto simp: digit_in_def split: option.splits)
qed

lemma loop_value:
  fixes acc :: "'l word"
  assumes "bytes_at m p (ds @ [t])" "\<forall>c \<in> set ds. digit_in base c" "\<not> digit_in base t" "0 \<le> any"
  defines "V \<equiv> num_value base (uint acc) ds"
  shows "\<exists>acc'. strtoul_loop m base ((-1) div word_of_int base) (ulong_max TYPE('l) mod base) acc any (sint (m p)) (p + 1) =
      Some (acc', if V > ulong_max TYPE('l) then -1 else if ds = [] then any else 1, p + length ds + 1) \<and>
    (V \<le> ulong_max TYPE('l) \<longrightarrow> uint acc' = V)"
  using assms(1-4) unfolding V_def
proof (induction ds arbitrary: p acc any)
  case Nil
  have le: "\<not> ulong_max TYPE('l) < uint x" for x :: "'l word" using uint_bounded [of x] by linarith
  from Nil show ?case by (subst strtoul_loop.simps) (auto simp: digit_in_def le split: option.splits)
next
  case (Cons c ds)
  let ?M = "ulong_max TYPE('l)"
  obtain d where d: "strtoul_digit (sint c) = Some d" "d < base" using Cons.prems(2) by (auto simp: digit_in_def split: option.splits)
  then have dv: "digit_value c = d" "0 \<le> d" using digit_value_nonneg [of c] by (auto simp: digit_value_def)
  let ?next = "acc * word_of_int base + word_of_int d"
  have test: "(acc > (-1) div word_of_int base \<or> (acc = (-1) div word_of_int base \<and> d > ?M mod base)) \<longleftrightarrow>
      uint acc * base + d > ?M"
    using cutoff_test [where b = base and d = d and a = "uint acc" and M = ?M] base dv(2) d(2)
    by (simp add: word_less_def word_uint_eq_iff cutoff_uint)
  show ?case
  proof (cases "uint acc * base + d > ?M")
    case True
    have "num_value base (uint acc * base + d) ds > ?M"
      using num_value_mono [of base "uint acc * base + d" ds] True base dv(2) by simp
    with True loop_overflowed [of m "p + 1" ds t] Cons.prems d dv test show ?thesis
      by (subst strtoul_loop.simps) auto
  next
    case False
    have nu: "uint ?next = uint acc * base + d"
      using False base dv(2) by (simp add: uint_word_arith_bintrs take_bit_eq_mod uint_word_of_int mod_simps mult_nonneg_nonneg)
    have "\<exists>acc'. strtoul_loop m base ((-1) div word_of_int base) (?M mod base) ?next 1 (sint (m (p + 1))) (p + 1 + 1) =
        Some (acc', if num_value base (uint ?next) ds > ?M then -1 else if ds = [] then 1 else 1, p + 1 + length ds + 1) \<and>
      (num_value base (uint ?next) ds \<le> ?M \<longrightarrow> uint acc' = num_value base (uint ?next) ds)"
      using Cons.prems by (intro Cons.IH) auto
    with False Cons.prems d dv test nu show ?thesis
      by (subst strtoul_loop.simps) auto
  qed
qed

end

text \<open>The bases \<open>strtoul\<close> selects by itself, for a 64-bit \<open>unsigned long\<close>.\<close>

interpretation octal: radix 8 "TYPE(64)"
  by unfold_locales simp_all

interpretation decimal: radix 10 "TYPE(64)"
  by unfold_locales simp_all

interpretation hexadecimal: radix 16 "TYPE(64)"
  by unfold_locales simp_all

lemma skip_space_bytes:
  "bytes_at m p (ws @ [c]) \<Longrightarrow> \<forall>w \<in> set ws. isspace (sint w) \<Longrightarrow> \<not> isspace (sint c) \<Longrightarrow>
     skip_space m p = Some (sint c, p + length ws + 1)"
  by (induction ws arbitrary: p) (auto simp: skip_space.simps)

text \<open>How the base argument, the prefix and the first digit determine the base in use.\<close>

definition base_used :: "int \<Rightarrow> u8 list \<Rightarrow> u8 list \<Rightarrow> u8 \<Rightarrow> int \<Rightarrow> bool" where
  "base_used arg pre ds t base \<longleftrightarrow>
     (pre = [48, 120] \<or> pre = [48, 88]) \<and> (arg = 0 \<or> arg = 16) \<and> base = 16 \<or>
     pre = [] \<and> (2 \<le> arg \<and> arg \<le> 36 \<and> base = arg \<or> arg = 0 \<and> base = (if hd ds = 48 then 8 else 10)) \<and>
       (ds = [48] \<longrightarrow> t \<noteq> 120 \<and> t \<noteq> 88)"

definition sign_neg :: "u8 list \<Rightarrow> bool" where
  "sign_neg sg \<longleftrightarrow> sg = [45]"

lemma digit_in_not_sign:
  "digit_in base c \<Longrightarrow> sint c \<noteq> 45 \<and> sint c \<noteq> 43 \<and> \<not> isspace (sint c)"
  by (auto simp: digit_in_def strtoul_digit_def isdigit_def isalpha_def isupper_def islower_def isspace_def
      split: option.splits if_splits)

lemma sint_lit: "sint (c :: u8) = 48 \<longleftrightarrow> c = 48" "sint (c :: u8) = 120 \<longleftrightarrow> c = 120" "sint (c :: u8) = 88 \<longleftrightarrow> c = 88"
  "sint (c :: u8) = 45 \<longleftrightarrow> c = 45" "sint (c :: u8) = 43 \<longleftrightarrow> c = 43"
proof -
  have inj: "sint c = sint d \<longleftrightarrow> c = d" for d by (auto intro: signed_word_eqI)
  show "sint c = 48 \<longleftrightarrow> c = 48" "sint c = 120 \<longleftrightarrow> c = 120" "sint c = 88 \<longleftrightarrow> c = 88" "sint c = 45 \<longleftrightarrow> c = 45"
    "sint c = 43 \<longleftrightarrow> c = 43"
    using inj [of 48] inj [of 120] inj [of 88] inj [of 45] inj [of 43] by simp_all
qed

lemma digit_in_not_x: "digit_in base c \<Longrightarrow> base \<le> 16 \<Longrightarrow> c \<noteq> 120 \<and> c \<noteq> 88"
  by (auto simp: digit_in_def strtoul_digit_def isdigit_def isalpha_def isupper_def islower_def)

definition after_sign :: "mem \<Rightarrow> int \<Rightarrow> addr \<Rightarrow> bool \<times> int \<times> addr" where
  "after_sign m c s = (if c = 45 then (True, sint (m s), s + 1)
     else if c = 43 then (False, sint (m s), s + 1) else (False, c, s))"

definition after_prefix :: "mem \<Rightarrow> int \<Rightarrow> int \<Rightarrow> addr \<Rightarrow> int \<times> int \<times> addr" where
  "after_prefix m base c s = (if (base = 0 \<or> base = 16) \<and> c = 48 \<and> (sint (m s) = 120 \<or> sint (m s) = 88)
     then (16, sint (m (s + 1)), s + 2) else (base, c, s))"

lemma strtoul_stages:
  "strtoul nptr base m = do {
     (c, s) \<leftarrow> skip_space m nptr;
     let (neg, c, s) = after_sign m c s;
     let (base, c, s) = after_prefix m base c s;
     let base = (if base = 0 then (if c = 48 then 8 else 10) else base);
     (acc, any, s) \<leftarrow> strtoul_loop m base ((-1 :: 'l::len word) div word_of_int base)
        (uint ((-1 :: 'l word) mod word_of_int base)) 0 0 c s;
     Some (if any < 0 then -1 else if neg then - acc else acc, if any \<noteq> 0 then s - 1 else nptr) }"
  unfolding strtoul_def after_sign_def after_prefix_def Let_def by (rule refl)

lemma after_sign_bytes:
  assumes "bytes_at m p (sg @ c # rest)" "sg = [] \<or> sg = [43] \<or> sg = [45]" "c \<noteq> 43" "c \<noteq> 45"
  shows "after_sign m (sint (m p)) (p + 1) = (sign_neg sg, sint c, p + length sg + 1)"
  using assms by (auto simp: after_sign_def sign_neg_def sint_lit)

lemma after_prefix_bytes:
  assumes "base_used arg pre ds t base" "bytes_at m p (pre @ ds @ [t])" "ds \<noteq> []" "\<forall>c \<in> set ds. digit_in base c"
  shows "\<exists>b. after_prefix m arg (sint (m p)) (p + 1) = (b, sint (hd ds), p + length pre + 1) \<and>
    (if b = 0 then (if sint (hd ds) = 48 then 8 else 10) else b) = base"
proof (cases "pre = []")
  case True
  obtain d ds' where ds: "ds = d # ds'" using assms(3) by (cases ds) auto
  have no: "m (p + 1) \<noteq> 120 \<and> m (p + 1) \<noteq> 88" if "arg = 0 \<or> arg = 16" "d = 48"
  proof (cases ds')
    case Nil
    with True that ds assms(1,2) show ?thesis by (simp add: base_used_def)
  next
    case (Cons e es)
    with True that ds assms(1,2,4) digit_in_not_x [of base e] show ?thesis by (auto simp: base_used_def)
  qed
  have "after_prefix m arg (sint (m p)) (p + 1) = (arg, sint (hd ds), p + length pre + 1)"
    using no True ds assms(2) by (auto simp: after_prefix_def sint_lit)
  with True assms(1) show ?thesis by (auto simp: base_used_def sint_lit)
next
  case False
  with assms show ?thesis by (cases ds) (auto simp: base_used_def after_prefix_def)
qed

lemma base_used_radix: "base_used arg pre ds t base \<Longrightarrow> 2 \<le> base \<and> base \<le> 36"
  by (auto simp: base_used_def)

lemma strtoul_value:
  fixes m :: mem
  assumes "bytes_at m nptr (ws @ sg @ pre @ ds @ [t])"
    and "\<forall>w \<in> set ws. isspace (sint w)" "sg = [] \<or> sg = [43] \<or> sg = [45]"
    and "base_used arg pre ds t base" "ds \<noteq> []" "\<forall>c \<in> set ds. digit_in base c" "\<not> digit_in base t"
    and "8 \<le> LENGTH('l::len)"
  shows "strtoul nptr arg m =
    Some ((if num_value base 0 ds \<ge> 2 ^ LENGTH('l) then -1
           else if sign_neg sg then - word_of_int (num_value base 0 ds) else word_of_int (num_value base 0 ds)) :: 'l word,
      nptr + length ws + length sg + length pre + length ds)"
proof -
  let ?q = "nptr + length ws"
  let ?r = "?q + length sg"
  let ?V = "num_value base 0 ds"
  have rad: "radix TYPE('l) base"
    using base_used_radix [OF assms(4)] assms(8) by unfold_locales auto
  obtain c rest where c: "pre @ ds @ [t] = c # rest" "sint c \<noteq> 45" "sint c \<noteq> 43" "\<not> isspace (sint c)"
  proof (cases "pre = []")
    case True
    with assms(5,6) digit_in_not_sign that show ?thesis by (cases ds) auto
  next
    case False
    with assms(4) that [of 48] show ?thesis by (auto simp: base_used_def isspace_def)
  qed
  have at: "bytes_at m nptr ws" "bytes_at m ?q (sg @ c # rest)" "bytes_at m ?r (pre @ ds @ [t])"
    "bytes_at m (?r + length pre) (ds @ [t])"
    using assms(1) c(1) [symmetric] by (simp_all add: add.assoc)
  have "bytes_at m nptr (ws @ [m ?q])" using at(1) by simp
  then have sk: "skip_space m nptr = Some (sint (m ?q), ?q + 1)"
    by (rule skip_space_bytes) (use assms(2,3) at(2) c(4) in \<open>auto simp: isspace_def\<close>)
  have sg: "after_sign m (sint (m ?q)) (?q + 1) = (sign_neg sg, sint c, ?r + 1)"
    by (rule after_sign_bytes [OF at(2) assms(3)]) (use c(2,3) in auto)
  have "m ?r = c" using at(3) c(1) by simp
  with after_prefix_bytes [OF assms(4) at(3) assms(5,6)] obtain b where
    pre: "after_prefix m arg (sint c) (?r + 1) = (b, sint (hd ds), ?r + length pre + 1)"
      "(if b = 0 then (if sint (hd ds) = 48 then 8 else 10) else b) = base" by auto
  have hd: "m (?r + length pre) = hd ds" using at(4) assms(5) by (cases ds) auto
  obtain acc where acc: "strtoul_loop m base ((-1) div word_of_int base) (uint ((-1 :: 'l word) mod word_of_int base))
      (0 :: 'l word) 0 (sint (hd ds)) (?r + length pre + 1) =
      Some (acc, if ?V > ulong_max TYPE('l) then -1 else 1, ?r + length pre + length ds + 1)"
    "?V \<le> ulong_max TYPE('l) \<Longrightarrow> uint acc = ?V"
    using radix.loop_value [OF rad at(4) assms(6,7), of 0 0] assms(5) hd
    by (auto simp: radix.cutlim_uint [OF rad])
  have "acc = word_of_int ?V" if "?V \<le> ulong_max TYPE('l)" using acc(2) [OF that] by (metis word_of_int_uint)
  then show ?thesis
    by (simp only: strtoul_stages sk Option.bind.bind_lunit prod.case Let_def sg pre acc(1)) (auto simp: not_le)
qed

text \<open>C31: \<open>strtoul\<close> on white space, an optional sign, an optional prefix and digits, up to a byte
  that is not a digit: the value of the digits, its negation modulo the word size after a minus
  sign, or the largest number when it does not fit; the end pointer is after the last digit.\<close>

theorem strtoul_correct:
  fixes m :: mem
  assumes "bytes_at m nptr (ws @ sg @ pre @ ds @ [t])"
    and "\<forall>w \<in> set ws. isspace (sint w)" "sg = [] \<or> sg = [43] \<or> sg = [45]"
    and "base_used arg pre ds t base" "ds \<noteq> []" "\<forall>c \<in> set ds. digit_in base c" "\<not> digit_in base t"
    and "8 \<le> LENGTH('l::len)"
  shows "strtoul nptr arg m =
    Some ((if num_value base 0 ds \<ge> 2 ^ LENGTH('l) then -1
           else if sign_neg sg then - word_of_int (num_value base 0 ds) else word_of_int (num_value base 0 ds)) :: 'l word,
      nptr + length ws + length sg + length pre + length ds)"
  by (rule strtoul_value [OF assms])

text \<open>The digits \<open>0x1F\<close> after a blank and a minus sign, with base 0 chosen by the caller.\<close>

abbreviation hex_mem :: mem where
  "hex_mem \<equiv> (\<lambda>_. 0)(10 := 32, 11 := 45, 12 := 48, 13 := 120, 14 := 49, 15 := 70)"

theorem strtoul_correct_witness:
  "strtoul 10 0 hex_mem =
    Some ((if num_value 16 0 [49, 70] \<ge> 2 ^ LENGTH(64) then -1
           else if sign_neg [45] then - word_of_int (num_value 16 0 [49, 70]) else word_of_int (num_value 16 0 [49, 70])) :: u64,
      10 + length [32 :: u8] + length [45 :: u8] + length [48 :: u8, 120] + length [49 :: u8, 70])"
  by (rule strtoul_correct [of _ _ "[32]" "[45]" "[48, 120]" "[49, 70]" 0])
    (simp_all add: isspace_def base_used_def digit_in_def strtoul_digit_def isdigit_def isalpha_def isupper_def islower_def)

end
