(* ===== verification/C_Printf.thy ===== *)
theory C_Printf
  imports C_String
begin

text \<open>
  Formatted output, \<^verbatim>\<open>system/kernel/core/lib/vsprintf.c\<close> (and the generator of
  \<^verbatim>\<open>random.c\<close>).  The output buffer is the list of bytes written so far and the format is the
  list of its bytes before the terminator, so \<open>*fmt\<close> is 0 at the end of the list.  \<open>number\<close> takes
  a 32-bit \<open>int\<close>; field widths and precisions are unbounded integers.  An argument of the wrong
  kind, undefined in C, gives \<open>None\<close>.
\<close>

section \<open>The random number generator\<close>

definition random_seed :: "u64 \<Rightarrow> u64" where
  "random_seed seed = seed"

definition random_next :: "u64 \<Rightarrow> u64 \<times> u64" where
  "random_next g_Seed = (let s = g_Seed * 6364136223846793005 + 1442695040888963407 in (s, s))"

section \<open>Numbers\<close>

record fmt_flags =
  ZEROPAD :: bool
  SIGN :: bool
  PLUS :: bool
  SPACE :: bool
  LEFT :: bool
  SPECIAL :: bool
  SMALL :: bool

definition no_flags :: fmt_flags where
  "no_flags = \<lparr>ZEROPAD = False, SIGN = False, PLUS = False, SPACE = False, LEFT = False, SPECIAL = False, SMALL = False\<rparr>"

text \<open>The digit strings, indexed from 0 to 35.\<close>

definition digit_char :: "bool \<Rightarrow> nat \<Rightarrow> u8" where
  "digit_char small d = of_nat (if d < 10 then 48 + d else if small then 97 + (d - 10) else 65 + (d - 10))"

text \<open>The loop over \<open>do_div\<close>, which divides the 32-bit number as unsigned: the digits, lowest
  first, as they are stored into \<open>tmp\<close>.\<close>

function div_loop :: "bool \<Rightarrow> nat \<Rightarrow> nat \<Rightarrow> u8 list" where
  "div_loop small base num =
     (if num = 0 \<or> base < 2 then [] else digit_char small (num mod base) # div_loop small base (num div base))"
  by pat_completeness auto
termination
  by (relation "measure (\<lambda>(small, base, num). num)") auto

declare div_loop.simps [simp del]

text \<open>\<open>while (size-- > 0) *str++ = ch;\<close>: the bytes written and the value left in \<open>size\<close>.\<close>

definition pad_loop :: "u8 \<Rightarrow> int \<Rightarrow> u8 list \<times> int" where
  "pad_loop ch sz = (replicate (nat sz) ch, if sz > 0 then -1 else sz - 1)"

text \<open>\<open>number\<close>: the bytes it writes, or \<open>None\<close> where it returns the null pointer.\<close>

definition number :: "u32 \<Rightarrow> int \<Rightarrow> int \<Rightarrow> int \<Rightarrow> fmt_flags \<Rightarrow> u8 list option" where
  "number num base width precision fl =
     (let fl = (if LEFT fl then fl\<lparr>ZEROPAD := False\<rparr> else fl)
      in if base < 2 \<or> base > 36 then None
         else
          (let c = (if ZEROPAD fl then 48 else 32);
               neg = (SIGN fl \<and> sint num < 0);
               sgn_ch = (if neg then 45 else if PLUS fl then 43 else if SPACE fl then 32 else (0 :: u8));
               num = (if neg then - num else num);
               width = (if sgn_ch \<noteq> 0 then width - 1 else width);
               width = (if SPECIAL fl then (if base = 16 then width - 2 else if base = 8 then width - 1 else width) else width);
               tmp = (if num = 0 then [48] else div_loop (SMALL fl) (nat base) (unat num));
               i = int (length tmp);
               precision = (if i > precision then i else precision);
               width = width - precision;
               (p1, width) = (if \<not> (ZEROPAD fl \<or> LEFT fl) then pad_loop 32 width else ([], width));
               s = (if sgn_ch \<noteq> 0 then [sgn_ch] else []);
               sp = (if SPECIAL fl then (if base = 8 then [48] else if base = 16 then [48, digit_char (SMALL fl) 33] else []) else []);
               (p2, width) = (if \<not> LEFT fl then pad_loop c width else ([], width));
               zs = replicate (nat (precision - i)) 48;
               (p3, width) = pad_loop 32 width
           in Some (p1 @ s @ sp @ p2 @ zs @ rev tmp @ p3)))"

section \<open>Format strings\<close>

definition is_digit :: "u8 \<Rightarrow> bool" where
  "is_digit c \<longleftrightarrow> 48 \<le> sint c \<and> sint c \<le> 57"

fun skip_atoi :: "u8 list \<Rightarrow> int \<Rightarrow> int \<times> u8 list" where
  "skip_atoi [] i = (i, [])"
| "skip_atoi (c # s) i = (if is_digit c then skip_atoi s (i * 10 + sint c - 48) else (i, c # s))"

definition cur :: "u8 list \<Rightarrow> u8" where
  "cur fmt = (case fmt of [] \<Rightarrow> 0 | c # _ \<Rightarrow> c)"

text \<open>The loop at the label \<open>repeat\<close>, from the character after the percent sign.\<close>

fun parse_flags :: "u8 list \<Rightarrow> fmt_flags \<Rightarrow> fmt_flags \<times> u8 list" where
  "parse_flags [] fl = (fl, [])"
| "parse_flags (c # s) fl =
     (if c = 45 then parse_flags s (fl\<lparr>LEFT := True\<rparr>)
      else if c = 43 then parse_flags s (fl\<lparr>PLUS := True\<rparr>)
      else if c = 32 then parse_flags s (fl\<lparr>SPACE := True\<rparr>)
      else if c = 35 then parse_flags s (fl\<lparr>SPECIAL := True\<rparr>)
      else if c = 48 then parse_flags s (fl\<lparr>ZEROPAD := True\<rparr>)
      else (fl, c # s))"

datatype vararg = ArgInt u32 | ArgULong u64 | ArgStr "u8 list" | ArgPtr u64 | ArgIntPtr nat

fun va_int :: "vararg list \<Rightarrow> (u32 \<times> vararg list) option" where
  "va_int (ArgInt w # as) = Some (w, as)"
| "va_int _ = None"

text \<open>A number argument, fetched as \<open>unsigned long\<close> and passed on as \<open>int\<close>.\<close>

fun va_num :: "vararg list \<Rightarrow> (u32 \<times> vararg list) option" where
  "va_num (ArgInt w # as) = Some (w, as)"
| "va_num (ArgULong w # as) = Some (ucast w, as)"
| "va_num _ = None"

fun va_ptr :: "vararg list \<Rightarrow> (u32 \<times> vararg list) option" where
  "va_ptr (ArgPtr w # as) = Some (ucast w, as)"
| "va_ptr _ = None"

fun va_str :: "vararg list \<Rightarrow> (u8 list \<times> vararg list) option" where
  "va_str (ArgStr s # as) = Some (s, as)"
| "va_str _ = None"

fun va_intptr :: "vararg list \<Rightarrow> (nat \<times> vararg list) option" where
  "va_intptr (ArgIntPtr p # as) = Some (p, as)"
| "va_intptr _ = None"

text \<open>The field width; a \<open>*\<close> takes it from the arguments and leaves \<open>fmt\<close> where it is.\<close>

definition parse_width ::
  "u8 list \<Rightarrow> vararg list \<Rightarrow> fmt_flags \<Rightarrow> (int \<times> fmt_flags \<times> u8 list \<times> vararg list) option" where
  "parse_width fmt args fl =
     (if is_digit (cur fmt) then (let (w, fmt') = skip_atoi fmt 0 in Some (w, fl, fmt', args))
      else if cur fmt = 42 then do {
        (w, args') \<leftarrow> va_int args;
        Some (if sint w < 0 then (- sint w, fl\<lparr>LEFT := True\<rparr>, fmt, args') else (sint w, fl, fmt, args')) }
      else Some (-1, fl, fmt, args))"

definition parse_precision :: "u8 list \<Rightarrow> vararg list \<Rightarrow> (int \<times> u8 list \<times> vararg list) option" where
  "parse_precision fmt args =
     (if cur fmt = 46 then
        (let fmt = tl fmt
         in if is_digit (cur fmt) then (let (p, fmt') = skip_atoi fmt 0 in Some (max p 0, fmt', args))
            else if cur fmt = 42 then do {
              (p, args') \<leftarrow> va_int args;
              Some (max (sint p) 0, fmt, args') }
            else Some (0, fmt, args))
      else Some (-1, fmt, args))"

definition parse_qualifier :: "u8 list \<Rightarrow> u8 list" where
  "parse_qualifier fmt = (if cur fmt = 104 \<or> cur fmt = 108 \<or> cur fmt = 76 then tl fmt else fmt)"

text \<open>\<open>while (--width > 0)\<close> of the character conversion, and \<open>while (len < width--)\<close> of the
  string conversion.\<close>

definition char_pad :: "int \<Rightarrow> u8 list \<times> int" where
  "char_pad w = (replicate (nat (w - 1)) 32, if w > 1 then 0 else w - 1)"

definition str_pad :: "int \<Rightarrow> int \<Rightarrow> u8 list \<times> int" where
  "str_pad len w = (replicate (nat (w - len)) 32, if len < w then len - 1 else w - 1)"

text \<open>What one conversion writes: the bytes, the arguments left, and the stores made by \<open>%n\<close>;
  \<open>pos\<close> is \<open>str - buf\<close>.\<close>

definition convert ::
  "u8 \<Rightarrow> fmt_flags \<Rightarrow> int \<Rightarrow> int \<Rightarrow> nat \<Rightarrow> vararg list \<Rightarrow> (u8 list \<times> vararg list \<times> (nat \<times> nat) list) option" where
  "convert ch fl width prec pos args =
     (if ch = 99 then do {
        (w, args') \<leftarrow> va_int args;
        let (p1, width) = (if \<not> LEFT fl then char_pad width else ([], width));
        let (p2, width) = char_pad width;
        Some (p1 @ ucast w # p2, args', []) }
      else if ch = 115 then do {
        (s, args') \<leftarrow> va_str args;
        let len = int (length s);
        let len = (if prec < 0 then len else if len > prec then prec else len);
        let (p1, width) = (if \<not> LEFT fl then str_pad len width else ([], width));
        let (p2, width) = str_pad len width;
        Some (p1 @ take (nat len) s @ p2, args', []) }
      else if ch = 111 then do {
        (w, args') \<leftarrow> va_num args; out \<leftarrow> number w 8 width prec fl; Some (out, args', []) }
      else if ch = 112 then do {
        (w, args') \<leftarrow> va_ptr args;
        let (width, fl) = (if width = -1 then (8, fl\<lparr>ZEROPAD := True\<rparr>) else (width, fl));
        out \<leftarrow> number w 16 width prec fl; Some (out, args', []) }
      else if ch = 120 then do {
        (w, args') \<leftarrow> va_num args; out \<leftarrow> number w 16 width prec (fl\<lparr>SMALL := True\<rparr>); Some (out, args', []) }
      else if ch = 88 then do {
        (w, args') \<leftarrow> va_num args; out \<leftarrow> number w 16 width prec fl; Some (out, args', []) }
      else if ch = 100 \<or> ch = 105 then do {
        (w, args') \<leftarrow> va_num args; out \<leftarrow> number w 10 width prec (fl\<lparr>SIGN := True\<rparr>); Some (out, args', []) }
      else if ch = 117 then do {
        (w, args') \<leftarrow> va_num args; out \<leftarrow> number w 10 width prec fl; Some (out, args', []) }
      else if ch = 110 then do {
        (p, args') \<leftarrow> va_intptr args; Some ([], args', [(p, pos)]) }
      else Some ((if ch \<noteq> 37 then [37] else []) @ (if ch \<noteq> 0 then [ch] else []), args, []))"

text \<open>The main loop.  At the end of the format the conversion steps back, so that the loop stops
  there.\<close>

lemma parse_flags_length: "length (snd (parse_flags s fl)) \<le> length s"
  by (induction s fl rule: parse_flags.induct) auto

lemma skip_atoi_length: "length (snd (skip_atoi s i)) \<le> length s"
  by (induction s i rule: skip_atoi.induct) auto

function vsprintf_loop ::
  "u8 list \<Rightarrow> vararg list \<Rightarrow> u8 list \<Rightarrow> (nat \<times> nat) list \<Rightarrow> (u8 list \<times> (nat \<times> nat) list) option" where
  "vsprintf_loop [] args out ns = Some (out, ns)"
| "vsprintf_loop (c # fmt) args out ns =
     (if c \<noteq> 37 then vsprintf_loop fmt args (out @ [c]) ns
      else (let (fl, f1) = parse_flags fmt no_flags
            in case parse_width f1 args fl of
                 None \<Rightarrow> None
               | Some (width, fl, f2, args2) \<Rightarrow>
                   (case parse_precision f2 args2 of
                      None \<Rightarrow> None
                    | Some (prec, f3, args3) \<Rightarrow>
                        (let f4 = parse_qualifier f3
                         in case convert (cur f4) fl width prec (length out) args3 of
                              None \<Rightarrow> None
                            | Some (bs, args4, ns') \<Rightarrow> vsprintf_loop (tl f4) args4 (out @ bs) (ns @ ns')))))"
  by pat_completeness auto

lemma parse_width_length:
  "parse_width fmt args fl = Some (w, fl', fmt', args') \<Longrightarrow> length fmt' \<le> length fmt"
  using skip_atoi_length [of fmt 0] by (auto simp: parse_width_def bind_eq_Some_conv split: if_splits prod.splits)

lemma parse_precision_length:
  "parse_precision fmt args = Some (p, fmt', args') \<Longrightarrow> length fmt' \<le> length fmt"
  using skip_atoi_length [of "tl fmt" 0]
  by (auto simp: parse_precision_def Let_def bind_eq_Some_conv split: if_splits prod.splits)

lemma parse_qualifier_length: "length (parse_qualifier fmt) \<le> length fmt"
  by (auto simp: parse_qualifier_def)

termination vsprintf_loop
proof (relation "measure (\<lambda>(fmt, args, out, ns). length fmt)", goal_cases)
  case (3 c fmt args out ns x fl f1 y width z fl' w f2 args2 u prec v f3 args3 f4 t bs q args4 ns')
  then have eqs: "parse_flags fmt no_flags = (fl, f1)" "parse_width f1 args fl = Some (width, fl', f2, args2)"
    "parse_precision f2 args2 = Some (prec, f3, args3)" "f4 = parse_qualifier f3" by simp_all
  have "length (tl f4) \<le> length f3" using parse_qualifier_length [of f3] eqs(4) by simp
  also have "\<dots> \<le> length f2" using eqs(3) by (rule parse_precision_length)
  also have "\<dots> \<le> length f1" using eqs(2) by (rule parse_width_length)
  also have "\<dots> \<le> length fmt" using parse_flags_length [of fmt no_flags] eqs(1) by simp
  finally have "length (tl f4) \<le> length fmt" .
  then show ?case by simp
qed auto

definition vsprintf :: "u8 list \<Rightarrow> vararg list \<Rightarrow> (u8 list \<times> int \<times> (nat \<times> nat) list) option" where
  "vsprintf fmt args = do {
     (out, ns) \<leftarrow> vsprintf_loop fmt args [] [];
     Some (out @ [0], int (length out), ns) }"

section \<open>The digits of a number\<close>

lemma num_value_snoc: "num_value base acc (ds @ [c]) = num_value base acc ds * base + digit_value c"
  by (simp add: num_value_def)

lemma digit_char_parses:
  assumes "d < 36"
  shows "strtoul_digit (sint (digit_char small d)) = Some (int d)"
proof -
  have "list_all (\<lambda>d. \<forall>b \<in> set [True, False]. strtoul_digit (sint (digit_char b d)) = Some (int d)) [0..<36]"
    by code_simp
  then show ?thesis using assms by (cases small) (auto simp: list_all_iff)
qed

lemma digit_char_value: "d < 36 \<Longrightarrow> digit_value (digit_char small d) = int d"
  by (simp add: digit_value_def digit_char_parses)

lemma digit_char_in: "d < base \<Longrightarrow> base \<le> 36 \<Longrightarrow> digit_in (int base) (digit_char small d)"
  by (simp add: digit_in_def digit_char_parses)

lemma div_loop_value:
  assumes "2 \<le> base" "base \<le> 36"
  shows "num_value (int base) 0 (rev (div_loop small base n)) = int n"
proof (induction n rule: less_induct)
  case (less n)
  show ?case
  proof (cases "n = 0")
    case False
    then have "n div base < n" using assms by simp
    with less.IH False assms show ?thesis
      by (subst div_loop.simps) (simp add: num_value_snoc digit_char_value order.strict_trans2 [OF mod_less_divisor] flip: of_nat_mult of_nat_add)
  qed (simp add: div_loop.simps)
qed

lemma div_loop_digits:
  assumes "2 \<le> base" "base \<le> 36"
  shows "\<forall>c \<in> set (div_loop small base n). digit_in (int base) c"
proof (induction n rule: less_induct)
  case (less n)
  have "digit_in (int base) (digit_char small (n mod base))" using assms by (intro digit_char_in) auto
  with less.IH [of "n div base"] assms show ?case by (subst div_loop.simps) auto
qed

lemma div_loop_length: "n < 2 ^ k \<Longrightarrow> length (div_loop small base n) \<le> k"
proof (induction k arbitrary: n)
  case (Suc k)
  have "n div base < 2 ^ k" if "2 \<le> base"
  proof -
    have "n div base \<le> n div 2" using that by (rule div_le_mono2 [rotated]) simp
    also have "\<dots> < 2 ^ k" using Suc.prems by (simp add: less_mult_imp_div_less)
    finally show ?thesis .
  qed
  with Suc.IH show ?case by (subst div_loop.simps) auto
qed (simp add: div_loop.simps)

lemma div_loop_nonempty: "n \<noteq> 0 \<Longrightarrow> 2 \<le> base \<Longrightarrow> div_loop small base n \<noteq> []"
  by (subst div_loop.simps) auto

text \<open>The value of the argument, the sign and the prefix that go before the digits.\<close>

definition printed_value :: "fmt_flags \<Rightarrow> u32 \<Rightarrow> int" where
  "printed_value fl num = (if SIGN fl then sint num else uint num)"

definition sign_text :: "fmt_flags \<Rightarrow> u32 \<Rightarrow> u8 list" where
  "sign_text fl num = (if printed_value fl num < 0 then [45] else if PLUS fl then [43] else if SPACE fl then [32] else [])"

definition prefix_text :: "fmt_flags \<Rightarrow> int \<Rightarrow> u8 list" where
  "prefix_text fl base = (if SPECIAL fl \<and> base = 8 then [48]
     else if SPECIAL fl \<and> base = 16 then [48, digit_char (SMALL fl) 33] else [])"

definition magnitude_digits :: "fmt_flags \<Rightarrow> nat \<Rightarrow> u32 \<Rightarrow> u8 list" where
  "magnitude_digits fl base num =
     (let n = (if SIGN fl \<and> sint num < 0 then - num else num)
      in if n = 0 then [48] else rev (div_loop (SMALL fl) base (unat n)))"

lemma sint_uint_if: "sint (w :: 'a::len word) = uint w - (if sint w < 0 then 2 ^ LENGTH('a) else 0)"
proof -
  have "sint w = uint w - 2 ^ LENGTH('a) * of_bool (bit (uint w) (LENGTH('a) - 1))"
    using signed_take_bit_eq_take_bit_minus [of "LENGTH('a) - 1" "uint w"] uint_bounded [of w]
    by (simp add: sint_uint take_bit_int_eq_self)
  then show ?thesis using uint_bounded [of w] uint_ge_0 [of w] by (auto split: if_splits)
qed

lemma unat_neg_sint: "sint (w :: u32) < 0 \<Longrightarrow> int (unat (- w)) = - sint w"
proof -
  assume neg: "sint w < 0"
  have s: "sint w = uint w - 2 ^ 32" using neg sint_uint_if [of w] by simp
  have "w \<noteq> 0" using neg by auto
  then have "uint (- w) = 2 ^ 32 - uint w"
    using uint_bounded [of w] by (simp add: uint_word_ariths zmod_zminus1_eq_if uint_0_iff)
  with s show ?thesis by simp
qed

lemma magnitude_value:
  assumes "2 \<le> base" "base \<le> 36"
  shows "num_value (int base) 0 (magnitude_digits fl base num) = \<bar>printed_value fl num\<bar>"
    and "magnitude_digits fl base num \<noteq> []"
    and "\<forall>c \<in> set (magnitude_digits fl base num). digit_in (int base) c"
    and "length (magnitude_digits fl base num) \<le> 32"
proof -
  define n where "n = (if SIGN fl \<and> sint num < 0 then - num else num)"
  have md: "magnitude_digits fl base num = (if n = 0 then [48] else rev (div_loop (SMALL fl) base (unat n)))"
    by (simp add: magnitude_digits_def n_def)
  have zero: "(48::u8) = digit_char False 0" by (simp add: digit_char_def)
  have dz: "digit_value 48 = 0" "digit_in (int base) 48"
    using digit_char_value [of 0 False] digit_char_in [of 0 base False] assms zero by auto
  have v: "int (unat n) = \<bar>printed_value fl num\<bar>"
  proof (cases "SIGN fl \<and> sint num < 0")
    case True
    then show ?thesis using unat_neg_sint [of num] by (simp add: n_def printed_value_def)
  next
    case False
    then have "SIGN fl \<Longrightarrow> sint num = uint num"
      using sint_uint_if [of num] by auto
    with False show ?thesis by (auto simp: n_def printed_value_def)
  qed
  have len: "length (div_loop (SMALL fl) base (unat n)) \<le> 32"
    using unsigned_less [of n] by (intro div_loop_length) simp
  show "num_value (int base) 0 (magnitude_digits fl base num) = \<bar>printed_value fl num\<bar>"
    using v div_loop_value [OF assms, of "SMALL fl" "unat n"] dz by (auto simp: md)
  show "magnitude_digits fl base num \<noteq> []"
    using div_loop_nonempty [of "unat n" base "SMALL fl"] assms(1) unat_eq_zero [of n] by (auto simp: md)
  show "\<forall>c \<in> set (magnitude_digits fl base num). digit_in (int base) c"
    using dz(2) div_loop_digits [OF assms, of "SMALL fl" "unat n"] by (simp add: md)
  show "length (magnitude_digits fl base num) \<le> 32" using len by (simp add: md)
qed

lemma number_parts:
  assumes "2 \<le> base" "base \<le> 36"
  shows "number num base width prec fl =
    (let ds = magnitude_digits fl (nat base) num;
         k = max prec (int (length ds));
         w = width - int (length (sign_text fl num)) - int (length (prefix_text fl base)) - k
     in Some (replicate (if ZEROPAD fl \<or> LEFT fl then 0 else nat w) 32 @ sign_text fl num @ prefix_text fl base @
          replicate (if ZEROPAD fl \<and> \<not> LEFT fl then nat w else 0) 48 @ replicate (nat (k - int (length ds))) 48 @ ds @
          replicate (if LEFT fl then nat w else 0) 32))"
proof -
  let ?neg = "SIGN fl \<and> sint num < 0"
  have neg: "?neg \<longleftrightarrow> printed_value fl num < 0" by (auto simp: printed_value_def)
  define sgn_ch :: u8 where "sgn_ch = (if ?neg then 45 else if PLUS fl then 43 else if SPACE fl then 32 else 0)"
  have sg: "(if sgn_ch \<noteq> 0 then [sgn_ch] else []) = sign_text fl num"
    "(if sgn_ch \<noteq> 0 then x - 1 else x) = x - int (length (sign_text fl num))" for x
    by (auto simp: sgn_ch_def sign_text_def neg)
  have sp: "(if SPECIAL fl then (if base = 16 then x - 2 else if base = 8 then x - 1 else x) else x) =
      x - int (length (prefix_text fl base))" for x
    by (auto simp: prefix_text_def)
  define tmp where "tmp = (if (if ?neg then - num else num) = 0 then [48]
    else div_loop (SMALL fl) (nat base) (unat (if ?neg then - num else num)))"
  have tmp: "rev tmp = magnitude_digits fl (nat base) num" by (auto simp: tmp_def magnitude_digits_def)
  have len: "length tmp = length (magnitude_digits fl (nat base) num)" by (simp flip: tmp)
  have lft: "(if LEFT fl then fl\<lparr>ZEROPAD := False\<rparr> else fl) = fl\<lparr>ZEROPAD := ZEROPAD fl \<and> \<not> LEFT fl\<rparr>"
    by (cases fl) auto
  have sel: "SIGN (fl\<lparr>ZEROPAD := b\<rparr>) = SIGN fl" "PLUS (fl\<lparr>ZEROPAD := b\<rparr>) = PLUS fl"
    "SPACE (fl\<lparr>ZEROPAD := b\<rparr>) = SPACE fl" "LEFT (fl\<lparr>ZEROPAD := b\<rparr>) = LEFT fl"
    "SPECIAL (fl\<lparr>ZEROPAD := b\<rparr>) = SPECIAL fl" "SMALL (fl\<lparr>ZEROPAD := b\<rparr>) = SMALL fl"
    "ZEROPAD (fl\<lparr>ZEROPAD := b\<rparr>) = b" for b by simp_all
  have nb: "(base < 2 \<or> base > 36) = False" using assms by auto
  have mx: "(if int (length tmp) > prec then int (length tmp) else prec) = max prec (int (length tmp))" by auto
  show ?thesis
    unfolding number_def lft Let_def nb if_False
    by (simp only: sel sgn_ch_def [symmetric] tmp_def [symmetric] sg sp mx tmp len)
      (cases "LEFT fl"; cases "ZEROPAD fl"; simp add: pad_loop_def prefix_text_def len)
qed

text \<open>\<open>number\<close> puts together blanks, sign, prefix, zeros, digits and blanks.  The digits are those
  of the value in the base, at most 32 of them (the buffer \<open>tmp\<close> has room for 36); at least
  \<open>precision\<close> digits are written; and the field is exactly as wide as asked, or as the text.\<close>

theorem number_correct:
  assumes "2 \<le> base" "base \<le> 36"
  shows "\<exists>l z ds r. number num base width prec fl =
      Some (replicate l 32 @ sign_text fl num @ prefix_text fl base @ replicate z 48 @ ds @ replicate r 32) \<and>
    ds \<noteq> [] \<and> length ds \<le> 32 \<and> (\<forall>c \<in> set ds. digit_in base c) \<and>
    num_value base 0 ds = \<bar>printed_value fl num\<bar> \<and> prec \<le> int (z + length ds) \<and> (LEFT fl \<longrightarrow> l = 0) \<and>
    int (l + length (sign_text fl num) + length (prefix_text fl base) + z + length ds + r) =
      max width (int (length (sign_text fl num) + length (prefix_text fl base)) + max prec (int (length ds)))"
proof -
  define b where "b = nat base"
  have b: "2 \<le> b" "b \<le> 36" "base = int b" using assms by (auto simp: b_def)
  define ds where "ds = magnitude_digits fl b num"
  note mag = magnitude_value [OF b(1,2), of fl num, folded ds_def b(3)]
  define k where "k = max prec (int (length ds))"
  define w where "w = width - int (length (sign_text fl num)) - int (length (prefix_text fl base)) - k"
  define z0 where "z0 = nat (k - int (length ds))"
  define l where "l = (if ZEROPAD fl \<or> LEFT fl then 0 else nat w)"
  define z where "z = (if ZEROPAD fl \<and> \<not> LEFT fl then nat w + z0 else z0)"
  define r where "r = (if LEFT fl then nat w else 0)"
  have "number num base width prec fl =
      Some (replicate l 32 @ sign_text fl num @ prefix_text fl base @ replicate z 48 @ ds @ replicate r 32)"
    unfolding number_parts [OF assms] Let_def ds_def [symmetric, unfolded b_def]
    by (auto simp: k_def w_def l_def z_def z0_def r_def ds_def b_def replicate_add)
  moreover have "prec \<le> int (z + length ds)" by (auto simp: z_def z0_def k_def)
  moreover have "int (l + length (sign_text fl num) + length (prefix_text fl base) + z + length ds + r) =
      max width (int (length (sign_text fl num) + length (prefix_text fl base)) + max prec (int (length ds)))"
    by (auto simp: l_def z_def r_def w_def z0_def k_def)
  moreover have "LEFT fl \<longrightarrow> l = 0" by (simp add: l_def)
  ultimately show ?thesis using mag by (intro exI conjI)
qed

theorem number_correct_witness:
  "\<exists>l z ds r. number (-5) 10 6 3 (no_flags\<lparr>SIGN := True\<rparr>) =
      Some (replicate l 32 @ sign_text (no_flags\<lparr>SIGN := True\<rparr>) (-5) @ prefix_text (no_flags\<lparr>SIGN := True\<rparr>) 10 @
        replicate z 48 @ ds @ replicate r 32) \<and>
    ds \<noteq> [] \<and> length ds \<le> 32 \<and> (\<forall>c \<in> set ds. digit_in 10 c) \<and>
    num_value 10 0 ds = \<bar>printed_value (no_flags\<lparr>SIGN := True\<rparr>) (-5)\<bar> \<and> 3 \<le> int (z + length ds) \<and>
    (LEFT (no_flags\<lparr>SIGN := True\<rparr>) \<longrightarrow> l = 0) \<and>
    int (l + length (sign_text (no_flags\<lparr>SIGN := True\<rparr>) (-5)) + length (prefix_text (no_flags\<lparr>SIGN := True\<rparr>) 10) +
        z + length ds + r) =
      max 6 (int (length (sign_text (no_flags\<lparr>SIGN := True\<rparr>) (-5)) + length (prefix_text (no_flags\<lparr>SIGN := True\<rparr>) 10)) +
        max 3 (int (length ds)))"
  by (rule number_correct) simp_all

section \<open>Properties of the formatter\<close>

lemma no_flags_sel [simp]:
  "ZEROPAD no_flags = False" "SIGN no_flags = False" "PLUS no_flags = False" "SPACE no_flags = False"
  "LEFT no_flags = False" "SPECIAL no_flags = False" "SMALL no_flags = False"
  by (simp_all add: no_flags_def)

lemma vsprintf_loop_plain:
  "37 \<notin> set pre \<Longrightarrow> vsprintf_loop (pre @ fmt) args out ns = vsprintf_loop fmt args (out @ pre) ns"
  by (induction pre arbitrary: out) (auto simp: Let_def)

lemma plain_spec:
  assumes "c \<in> {99, 115, 111, 112, 120, 88, 100, 105, 117, 110}"
  shows "parse_flags (c # fmt) no_flags = (no_flags, c # fmt)" "parse_width (c # fmt) args no_flags = Some (-1, no_flags, c # fmt, args)"
    "parse_precision (c # fmt) args = Some (-1, c # fmt, args)" "parse_qualifier (c # fmt) = c # fmt"
  using assms by (auto simp: parse_width_def parse_precision_def parse_qualifier_def cur_def is_digit_def)

lemma vsprintf_loop_spec:
  assumes "c \<in> {99, 115, 111, 112, 120, 88, 100, 105, 117, 110}"
  shows "vsprintf_loop (37 # c # fmt) args out ns =
    (case convert c no_flags (-1) (-1) (length out) args of None \<Rightarrow> None
     | Some (bs, args', ns') \<Rightarrow> vsprintf_loop fmt args' (out @ bs) (ns @ ns'))"
  by (simp add: plain_spec [OF assms] Let_def cur_def del: parse_flags.simps split: option.splits)

lemma number_plain:
  assumes "2 \<le> base" "base \<le> 36" "\<not> PLUS fl" "\<not> SPACE fl" "\<not> SPECIAL fl"
  shows "number num base (-1) (-1) fl = Some ((if printed_value fl num < 0 then [45] else []) @ magnitude_digits fl (nat base) num)"
  using assms by (simp add: number_parts Let_def sign_text_def prefix_text_def)

text \<open>A format with one conversion: the text around it is copied, and a plain \<open>%d\<close> prints the
  sign and the decimal digits of its argument, \<open>%u\<close> those of the unsigned value, \<open>%x\<close> the
  hexadecimal ones and \<open>%s\<close> the string.\<close>

theorem vsprintf_one_conversion:
  assumes "37 \<notin> set pre" "37 \<notin> set post"
  shows "\<exists>d u x. vsprintf (pre @ [37, 100] @ post) [ArgInt w] =
      Some (pre @ (if sint w < 0 then [45] else []) @ d @ post @ [0],
        int (length pre + (if sint w < 0 then 1 else 0) + length d + length post), []) \<and>
    num_value 10 0 d = \<bar>sint w\<bar> \<and>
    vsprintf (pre @ [37, 117] @ post) [ArgInt w] = Some (pre @ u @ post @ [0], int (length pre + length u + length post), []) \<and>
    num_value 10 0 u = uint w \<and>
    vsprintf (pre @ [37, 120] @ post) [ArgInt w] = Some (pre @ x @ post @ [0], int (length pre + length x + length post), []) \<and>
    num_value 16 0 x = uint w \<and>
    vsprintf (pre @ [37, 115] @ post) [ArgStr s] = Some (pre @ s @ post @ [0], int (length pre + length s + length post), [])"
proof -
  let ?d = "magnitude_digits (no_flags\<lparr>SIGN := True\<rparr>) 10 w"
  let ?u = "magnitude_digits no_flags 10 w"
  let ?x = "magnitude_digits (no_flags\<lparr>SMALL := True\<rparr>) 16 w"
  have post: "vsprintf_loop post args out ns = Some (out @ post, ns)" for args out ns
    using vsprintf_loop_plain [OF assms(2), of "[]"] by simp
  have vals: "num_value 10 0 ?d = \<bar>sint w\<bar>" "num_value 10 0 ?u = uint w" "num_value 16 0 ?x = uint w"
    using magnitude_value(1) [of 10 "no_flags\<lparr>SIGN := True\<rparr>" w] magnitude_value(1) [of 10 no_flags w]
      magnitude_value(1) [of 16 "no_flags\<lparr>SMALL := True\<rparr>" w] by (simp_all add: printed_value_def)
  show ?thesis
    by (rule exI [of _ ?d], rule exI [of _ ?u], rule exI [of _ ?x])
      (simp del: vsprintf_loop.simps add: vsprintf_def vsprintf_loop_plain [OF assms(1)] vsprintf_loop_spec
        convert_def number_plain vals printed_value_def post str_pad_def)
qed

theorem vsprintf_one_conversion_witness:
  "\<exists>d u x. vsprintf ([120] @ [37, 100] @ [33]) [ArgInt (-7)] =
      Some ([120] @ (if sint (-7 :: u32) < 0 then [45] else []) @ d @ [33] @ [0],
        int (length [120 :: u8] + (if sint (-7 :: u32) < 0 then 1 else 0) + length d + length [33 :: u8]), []) \<and>
    num_value 10 0 d = \<bar>sint (-7 :: u32)\<bar> \<and>
    vsprintf ([120] @ [37, 117] @ [33]) [ArgInt (-7)] =
      Some ([120] @ u @ [33] @ [0], int (length [120 :: u8] + length u + length [33 :: u8]), []) \<and>
    num_value 10 0 u = uint (-7 :: u32) \<and>
    vsprintf ([120] @ [37, 120] @ [33]) [ArgInt (-7)] =
      Some ([120] @ x @ [33] @ [0], int (length [120 :: u8] + length x + length [33 :: u8]), []) \<and>
    num_value 16 0 x = uint (-7 :: u32) \<and>
    vsprintf ([120] @ [37, 115] @ [33]) [ArgStr [97]] =
      Some ([120] @ [97] @ [33] @ [0], int (length [120 :: u8] + length [97 :: u8] + length [33 :: u8]), [])"
  by (rule vsprintf_one_conversion) simp_all

text \<open>A \<open>*\<close> takes the field width from the arguments but is not skipped: the conversion after it is
  printed as text, and the argument meant for it stays unused.\<close>

theorem vsprintf_star_unskipped:
  "vsprintf [37, 42, 100] [ArgInt 5, ArgInt w] = Some ([37, 42, 100, 0], 3, [])"
  by (simp add: vsprintf_def parse_width_def parse_precision_def parse_qualifier_def convert_def cur_def
      is_digit_def no_flags_def Let_def)

text \<open>What the formatter and the parser share: the printed digits of an unsigned number.\<close>

lemma vsprintf_unsigned:
  "vsprintf [37, 117] [ArgInt w] = Some (magnitude_digits no_flags 10 w @ [0], int (length (magnitude_digits no_flags 10 w)), [])"
  by (simp del: vsprintf_loop.simps(2) add: vsprintf_def vsprintf_loop_spec convert_def number_plain printed_value_def)

lemma vsprintf_hex:
  "vsprintf [37, 120] [ArgInt w] = Some (magnitude_digits (no_flags\<lparr>SMALL := True\<rparr>) 16 w @ [0],
     int (length (magnitude_digits (no_flags\<lparr>SMALL := True\<rparr>) 16 w)), [])"
  by (simp del: vsprintf_loop.simps(2) add: vsprintf_def vsprintf_loop_spec convert_def number_plain printed_value_def)

lemma nul_not_digit: "\<not> digit_in base 0"
  by (simp add: digit_in_def strtoul_digit_def isdigit_def isalpha_def isupper_def islower_def)

end
