(* ===== verification/Static_String.thy ===== *)
theory Static_String
  imports C_String
begin

text \<open>
  \<^verbatim>\<open>StaticString<N>\<close> (\<^verbatim>\<open>system/include/utilities/StaticString.h\<close>): a string in a fixed buffer.
  The object at address \<open>p\<close> is the \<open>N\<close> bytes of \<open>m_pData\<close> followed by the eight bytes of
  \<open>m_Length\<close> (the sizes in use, 32 to 1024, need no padding in between), and its operations are
  the calls of the C string functions on that memory.  An operation is \<open>None\<close> when such a call does
  not return.
\<close>

section \<open>The object\<close>

definition m_Length :: "nat \<Rightarrow> addr \<Rightarrow> mem \<Rightarrow> nat" where
  "m_Length N p m = le_nat (load 8 (p + N) m)"

definition set_Length :: "nat \<Rightarrow> addr \<Rightarrow> nat \<Rightarrow> mem \<Rightarrow> mem" where
  "set_Length N p n m = store (p + N) (nat_le 8 n) m"

definition StaticString_new :: "nat \<Rightarrow> addr \<Rightarrow> mem \<Rightarrow> mem" where
  "StaticString_new N p m = (set_Length N p 0 m)(p := 0)"

text \<open>The end of the constructors, the assignment and \<open>append\<close>: cut the string to the buffer.\<close>

definition cut_to_buffer :: "nat \<Rightarrow> addr \<Rightarrow> mem \<Rightarrow> mem" where
  "cut_to_buffer N p m =
     (if m_Length N p m \<ge> N then (set_Length N p (N - 1) m)(p + (N - 1) := 0) else m)"

definition StaticString_from :: "nat \<Rightarrow> addr \<Rightarrow> addr \<Rightarrow> mem \<Rightarrow> mem option" where
  "StaticString_from N p pSrc m = do {
     n \<leftarrow> strlen m pSrc;
     (_, m2) \<leftarrow> strncpy p pSrc (int N) (set_Length N p n m);
     Some (cut_to_buffer N p m2) }"

definition StaticString_copy :: "nat \<Rightarrow> nat \<Rightarrow> addr \<Rightarrow> addr \<Rightarrow> mem \<Rightarrow> mem option" where
  "StaticString_copy N N2 p src m = do {
     (_, m2) \<leftarrow> strncpy p src (int N) (set_Length N p (m_Length N2 src m) m);
     Some (cut_to_buffer N p m2) }"

definition StaticString_assign :: "nat \<Rightarrow> addr \<Rightarrow> addr \<Rightarrow> mem \<Rightarrow> mem option" where
  "StaticString_assign N p str m = do {
     n \<leftarrow> strlen m str;
     (_, m2) \<leftarrow> strncpy p str (int N) (set_Length N p n m);
     Some (cut_to_buffer N p m2) }"

definition StaticString_clear :: "nat \<Rightarrow> addr \<Rightarrow> mem \<Rightarrow> mem" where
  "StaticString_clear N p m = (set_Length N p 0 m)(p := 0)"

section \<open>Queries\<close>

definition StaticString_eq :: "addr \<Rightarrow> addr \<Rightarrow> mem \<Rightarrow> bool option" where
  "StaticString_eq p pStr m = map_option (\<lambda>r. r = 0) (strcmp p pStr m)"

fun last_loop :: "mem \<Rightarrow> addr \<Rightarrow> u8 \<Rightarrow> nat \<Rightarrow> int" where
  "last_loop m p search 0 = (if m p = search then 0 else -1)"
| "last_loop m p search (Suc i) = (if m (p + Suc i) = search then int (Suc i) else last_loop m p search i)"

definition StaticString_last :: "nat \<Rightarrow> addr \<Rightarrow> u8 \<Rightarrow> mem \<Rightarrow> int" where
  "StaticString_last N p search m = last_loop m p search (m_Length N p m)"

fun first_loop :: "mem \<Rightarrow> addr \<Rightarrow> u8 \<Rightarrow> nat \<Rightarrow> nat \<Rightarrow> int" where
  "first_loop m p search i 0 = -1"
| "first_loop m p search i (Suc k) = (if m (p + i) = search then int i else first_loop m p search (i + 1) k)"

definition StaticString_first :: "nat \<Rightarrow> addr \<Rightarrow> u8 \<Rightarrow> mem \<Rightarrow> int" where
  "StaticString_first N p search m = first_loop m p search 0 (m_Length N p m)"

fun contains_loop :: "mem \<Rightarrow> addr \<Rightarrow> addr \<Rightarrow> nat \<Rightarrow> nat \<Rightarrow> nat \<Rightarrow> bool option" where
  "contains_loop m p other itslen i 0 = Some False"
| "contains_loop m p other itslen i (Suc k) = do {
     r \<leftarrow> strncmp (p + i) other (int itslen) m;
     if r = 0 then Some True else contains_loop m p other itslen (i + 1) k }"

definition StaticString_contains :: "nat \<Rightarrow> addr \<Rightarrow> addr \<Rightarrow> mem \<Rightarrow> bool option" where
  "StaticString_contains N p other m = do {
     itslen \<leftarrow> strlen m other;
     if itslen \<ge> m_Length N p m then map_option (\<lambda>r. r = 0) (strcmp p other m)
     else contains_loop m p other itslen 0 (m_Length N p m - itslen + 1) }"

definition StaticString_intValue :: "addr \<Rightarrow> int \<Rightarrow> mem \<Rightarrow> u32 option" where
  "StaticString_intValue p nBase m = do {
     (ret, pEnd) \<leftarrow> strtoul p nBase m;
     Some (if pEnd = p then -1 else ucast (ret :: u64)) }"

definition StaticString_uintptrValue :: "addr \<Rightarrow> int \<Rightarrow> mem \<Rightarrow> u64 option" where
  "StaticString_uintptrValue p nBase m = do {
     (ret, pEnd) \<leftarrow> strtoul p nBase m;
     Some (if pEnd = p then -1 else ret) }"

section \<open>Updates\<close>

definition StaticString_stripLast :: "nat \<Rightarrow> addr \<Rightarrow> mem \<Rightarrow> mem" where
  "StaticString_stripLast N p m =
     (if m_Length N p m \<noteq> 0 then (set_Length N p (m_Length N p m - 1) m)(p + (m_Length N p m - 1) := 0) else m)"

definition StaticString_truncate :: "nat \<Rightarrow> addr \<Rightarrow> nat \<Rightarrow> mem \<Rightarrow> mem" where
  "StaticString_truncate N p len m =
     (if len > m_Length N p m then m else (set_Length N p len m)(p + len := 0))"

text \<open>\<open>left\<close> and \<open>right\<close> fill a new object at \<open>q\<close>, the string they return.\<close>

definition StaticString_left :: "nat \<Rightarrow> addr \<Rightarrow> addr \<Rightarrow> nat \<Rightarrow> mem \<Rightarrow> mem option" where
  "StaticString_left N q p n m = do {
     (_, m2) \<leftarrow> strncpy q p (int n) (StaticString_new N q m);
     Some (m2(q + n := 0)) }"

definition StaticString_right :: "nat \<Rightarrow> addr \<Rightarrow> addr \<Rightarrow> nat \<Rightarrow> mem \<Rightarrow> mem option" where
  "StaticString_right N q p n m = do {
     (_, m2) \<leftarrow> strncpy q (p + (m_Length N p m - n)) (int n) (StaticString_new N q m);
     Some (m2(q + n := 0)) }"

text \<open>\<open>stripFirst\<close> moves the characters from position \<open>n\<close> on, the terminator included, to the front.\<close>

partial_function (option) strip_loop :: "mem \<Rightarrow> addr \<Rightarrow> nat \<Rightarrow> nat \<Rightarrow> mem option" where
  "strip_loop m p n i =
     (if m (p + i) \<noteq> 0 then strip_loop (m(p + (i - n) := m (p + i))) p n (i + 1)
      else Some (m(p + (i - n) := 0)))"

declare strip_loop.simps [code]

definition StaticString_stripFirst :: "nat \<Rightarrow> addr \<Rightarrow> nat \<Rightarrow> mem \<Rightarrow> mem option" where
  "StaticString_stripFirst N p n m =
     (if n > m_Length N p m then Some (set_Length N p 0 (m(p := 0)))
      else do {
        m1 \<leftarrow> strip_loop m p n n;
        Some (set_Length N p (m_Length N p m1 - n) m1) })"

text \<open>The padding loop of \<open>append\<close> and \<open>pad\<close> reads \<open>length()\<close> in every iteration.\<close>

fun StaticString_padding :: "nat \<Rightarrow> addr \<Rightarrow> u8 \<Rightarrow> nat \<Rightarrow> nat \<Rightarrow> mem \<Rightarrow> mem" where
  "StaticString_padding N p c i 0 m = m(p + (i + m_Length N p m) := 0)"
| "StaticString_padding N p c i (Suc k) m = StaticString_padding N p c (i + 1) k (m(p + (i + m_Length N p m) := c))"

definition StaticString_pad :: "nat \<Rightarrow> addr \<Rightarrow> nat \<Rightarrow> u8 \<Rightarrow> mem \<Rightarrow> mem" where
  "StaticString_pad N p nLen c m =
     (if nLen > m_Length N p m
      then (let k = nLen - m_Length N p m; m1 = StaticString_padding N p c 0 k m
            in set_Length N p (m_Length N p m1 + (nLen - m_Length N p m1)) m1)
      else m)"

definition StaticString_append :: "nat \<Rightarrow> addr \<Rightarrow> addr \<Rightarrow> nat \<Rightarrow> u8 \<Rightarrow> mem \<Rightarrow> mem option" where
  "StaticString_append N p str nLen c m = do {
     length2 \<leftarrow> strlen m str;
     let m1 = (if nLen > length2
               then (let m' = StaticString_padding N p c 0 (nLen - length2) m
                     in set_Length N p (m_Length N p m' + (nLen - length2)) m')
               else m);
     m2 \<leftarrow> strncat p str (int N - int (m_Length N p m1)) m1;
     Some (cut_to_buffer N p (set_Length N p (m_Length N p m2 + length2) m2)) }"

text \<open>The digits that \<open>appendInteger\<close> builds; it swaps them in place afterwards.\<close>

function int_digits :: "nat \<Rightarrow> nat \<Rightarrow> u8 list" where
  "int_digits base n =
     (let tmp = n mod base; n' = n div base; c = (if tmp < 10 then of_nat (48 + tmp) else of_nat (97 + (tmp - 10)))
      in if n' \<noteq> 0 \<and> base \<ge> 2 then c # int_digits base n' else [c])"
  by pat_completeness auto
termination
proof (relation "measure snd", goal_cases)
  case (2 base n tmp n' c)
  then have "0 < n" by (cases n) auto
  with 2 show ?case by (simp add: div_less_dividend)
qed simp

declare int_digits.simps [simp del]

fun swap_loop :: "nat \<Rightarrow> nat \<Rightarrow> u8 list \<Rightarrow> u8 list" where
  "swap_loop i 0 s = s"
| "swap_loop i (Suc k) s = swap_loop (i + 1) k (s[i := s ! (length s - i - 1), length s - i - 1 := s ! i])"

text \<open>\<open>buf\<close> is the address of the local array \<open>pStr\<close>.\<close>

definition StaticString_appendInteger :: "nat \<Rightarrow> addr \<Rightarrow> addr \<Rightarrow> nat \<Rightarrow> nat \<Rightarrow> nat \<Rightarrow> u8 \<Rightarrow> mem \<Rightarrow> mem option" where
  "StaticString_appendInteger N p buf nInt nRadix nLen c m =
     (let ds = int_digits nRadix nInt; s = swap_loop 0 (length ds div 2) ds
      in StaticString_append N p buf nLen c (store buf (s @ [0]) m))"

text \<open>The signed versions append a minus sign (a string literal at \<open>neg_lit\<close>) and negate.\<close>

definition StaticString_appendSigned ::
  "nat \<Rightarrow> addr \<Rightarrow> addr \<Rightarrow> addr \<Rightarrow> 'a::len word \<Rightarrow> nat \<Rightarrow> nat \<Rightarrow> u8 \<Rightarrow> mem \<Rightarrow> mem option" where
  "StaticString_appendSigned N p buf neg_lit nInt nRadix nLen c m =
     (if sint nInt < 0
      then do {
        m1 \<leftarrow> StaticString_append N p neg_lit 0 32 m;
        StaticString_appendInteger N p buf (unat (- nInt)) nRadix nLen c m1 }
      else StaticString_appendInteger N p buf (unat nInt) nRadix nLen c m)"

definition StaticString_appendChar :: "nat \<Rightarrow> addr \<Rightarrow> addr \<Rightarrow> u8 \<Rightarrow> nat \<Rightarrow> u8 \<Rightarrow> mem \<Rightarrow> mem option" where
  "StaticString_appendChar N p buf ch nLen c m =
     StaticString_append N p buf nLen c (m(buf := ch, buf + 1 := 0))"

section \<open>The length field\<close>

lemma Length_set [simp]: "n < 2 ^ 64 \<Longrightarrow> m_Length N p (set_Length N p n m) = n"
proof -
  have "load 8 (p + N) (set_Length N p n m) = nat_le 8 n"
    unfolding set_Length_def by (metis length_nat_le load_store_same)
  then show "n < 2 ^ 64 \<Longrightarrow> m_Length N p (set_Length N p n m) = n"
    by (simp add: m_Length_def le_nat_nat_le)
qed

lemma set_Length_other: "a < p + N \<or> p + N + 8 \<le> a \<Longrightarrow> set_Length N p n m a = m a"
  by (auto simp: set_Length_def store_def)

lemma Length_cong: "(\<And>a. p + N \<le> a \<Longrightarrow> a < p + N + 8 \<Longrightarrow> m' a = m a) \<Longrightarrow> m_Length N p m' = m_Length N p m"
  by (auto simp: m_Length_def load_def intro!: arg_cong [where f = le_nat])

lemma cstr_cong: "(\<And>a. p \<le> a \<Longrightarrow> a \<le> p + length s \<Longrightarrow> m' a = m a) \<Longrightarrow> cstr m' p s = cstr m p s"
proof (induction s arbitrary: p)
  case (Cons c s)
  have "m' p = m p" by (rule Cons.prems) auto
  moreover have "cstr m' (p + 1) s = cstr m (p + 1) s" by (rule Cons.IH) (auto intro: Cons.prems)
  ultimately show ?case by simp
qed simp

section \<open>Strings that fit\<close>

text \<open>The object at \<open>p\<close> holds the string \<open>s\<close>; and a region apart from the object.\<close>

definition holds :: "nat \<Rightarrow> addr \<Rightarrow> mem \<Rightarrow> u8 list \<Rightarrow> bool" where
  "holds N p m s \<longleftrightarrow> cstr m p s \<and> length s < N \<and> m_Length N p m = length s \<and> N < 2 ^ 32"

definition apart :: "nat \<Rightarrow> addr \<Rightarrow> addr \<Rightarrow> nat \<Rightarrow> bool" where
  "apart N p q k \<longleftrightarrow> q + k < p \<or> p + N + 8 \<le> q"

lemma holds_set_Length:
  assumes "cstr m p s" "length s < N" "N < 2 ^ 32"
  shows "holds N p (set_Length N p (length s) m) s"
proof -
  have "cstr (set_Length N p (length s) m) p s"
    using cstr_cong [of p s "set_Length N p (length s) m" m] assms(1,2) by (simp add: set_Length_other)
  then show ?thesis using assms by (simp add: holds_def)
qed

lemma holds_frame:
  assumes "holds N p m s" "\<And>a. p \<le> a \<Longrightarrow> a < p + N + 8 \<Longrightarrow> m' a = m a"
  shows "holds N p m' s"
proof -
  have "m_Length N p m' = m_Length N p m" by (rule Length_cong) (use assms(2) in auto)
  moreover have "cstr m' p s = cstr m p s" by (rule cstr_cong) (use assms in \<open>auto simp: holds_def\<close>)
  ultimately show ?thesis using assms(1) by (simp add: holds_def)
qed

lemma cut_fits: "holds N p m s \<Longrightarrow> cut_to_buffer N p m = m"
  by (simp add: cut_to_buffer_def holds_def)

lemma from_fits:
  assumes "cstr m q s" "length s < N" "N < 2 ^ 32" "apart N p q (length s)"
  shows "\<exists>m'. StaticString_from N p q m = Some m' \<and> StaticString_assign N p q m = Some m' \<and> holds N p m' s \<and>
    (\<forall>a. a < p \<or> p + N + 8 \<le> a \<longrightarrow> m' a = m a)"
proof -
  let ?m1 = "set_Length N p (length s) m"
  have "cstr ?m1 q s = cstr m q s" by (rule cstr_cong) (use assms(4) in \<open>auto simp: set_Length_other apart_def\<close>)
  with assms(1) have q: "cstr ?m1 q s" by simp
  have "copy_safe p q (length s)" using assms(4) by (auto simp: apart_def copy_safe_def)
  with strncpy_loop_cstr [OF q] assms(2) have cp: "strncpy p q (int N) ?m1 = Some (int (length s), store p (s @ [0]) ?m1)"
    by (simp add: strncpy_def limit_def)
  let ?m2 = "store p (s @ [0]) ?m1"
  have "cstr ?m2 p s" using cstr_store cstr_nonzero [OF assms(1)] by blast
  moreover have "m_Length N p ?m2 = length s"
    using Length_cong [of p N ?m2 ?m1] assms(2,3) by (auto simp: store_def)
  ultimately have h: "holds N p ?m2 s" using assms(2,3) by (simp add: holds_def)
  have "\<forall>a. a < p \<or> p + N + 8 \<le> a \<longrightarrow> ?m2 a = m a"
    using assms(2) by (auto simp: store_def set_Length_other)
  with cp h strlen_cstr [OF assms(1)] cut_fits [OF h] show ?thesis
    by (simp add: StaticString_from_def StaticString_assign_def)
qed

lemma padding_store:
  "m_Length N p m = n \<Longrightarrow> n + i + k < N \<Longrightarrow>
     StaticString_padding N p c i k m = store (p + n + i) (replicate k c @ [0]) m"
proof (induction k arbitrary: i m)
  case 0
  then show ?case by (simp add: store_one add_ac)
next
  case (Suc k)
  have "m_Length N p (m(p + (i + n) := c)) = n"
    using Length_cong [of p N "m(p + (i + n) := c)" m] Suc.prems by simp
  with Suc.IH [of _ "i + 1"] Suc.prems show ?case by (simp add: store_Cons add_ac)
qed

text \<open>Writing characters and a terminator after the string, then adjusting the length.\<close>

lemma extend_fits:
  assumes "holds N p m s" "0 \<notin> set u" "length s + length u < N"
  defines "m1 \<equiv> store (p + length s) (u @ [0]) m"
  shows "m_Length N p m1 = length s" "cstr m1 p (s @ u)"
    and "holds N p (set_Length N p (length s + length u) m1) (s @ u)"
    and "\<And>a. a < p \<or> p + N + 8 \<le> a \<Longrightarrow> set_Length N p (length s + length u) m1 a = m a"
proof -
  show "m_Length N p m1 = length s"
    using Length_cong [of p N m1 m] assms(1,3) by (auto simp: m1_def store_def holds_def)
  show cs: "cstr m1 p (s @ u)"
    using cat_cstr [of m p s u] assms(1,2) by (simp add: m1_def holds_def)
  then show "holds N p (set_Length N p (length s + length u) m1) (s @ u)"
    using holds_set_Length [of m1 p "s @ u" N] assms(1,3) by (simp add: holds_def)
  show "set_Length N p (length s + length u) m1 a = m a" if "a < p \<or> p + N + 8 \<le> a" for a
    using that assms(3) by (auto simp: set_Length_other m1_def store_def)
qed

lemma append_fits:
  assumes h: "holds N p m s" and t: "cstr m q t" "apart N p q (length t)" and c: "c \<noteq> 0"
    and room: "length s + (nLen - length t) + length t < N"
  defines "u \<equiv> replicate (nLen - length t) c"
  shows "\<exists>m'. StaticString_append N p q nLen c m = Some m' \<and> holds N p m' (s @ u @ t) \<and>
    (\<forall>a. a < p \<or> p + N + 8 \<le> a \<longrightarrow> m' a = m a)"
proof -
  define m1 where "m1 = (if nLen > length t
    then (let m' = StaticString_padding N p c 0 (nLen - length t) m
          in set_Length N p (m_Length N p m' + (nLen - length t)) m') else m)"
  have u: "0 \<notin> set u" "length s + length u < N" using c room by (auto simp: u_def)
  have pad: "StaticString_padding N p c 0 (nLen - length t) m = store (p + length s) (u @ [0]) m"
    using padding_store [of N p m "length s" 0 "nLen - length t" c] h room by (simp add: holds_def u_def)
  have m1: "holds N p m1 (s @ u) \<and> (\<forall>a. a < p \<or> p + N + 8 \<le> a \<longrightarrow> m1 a = m a)"
  proof (cases "nLen > length t")
    case True
    with extend_fits(1,3,4) [OF h u] pad show ?thesis by (simp add: m1_def u_def Let_def)
  qed (use h in \<open>simp add: m1_def u_def\<close>)
  then have h1: "holds N p m1 (s @ u)" and f1: "\<And>a. a < p \<or> p + N + 8 \<le> a \<Longrightarrow> m1 a = m a" by auto
  have "cstr m1 q t = cstr m q t" by (rule cstr_cong) (use f1 t(2) in \<open>auto simp: apart_def\<close>)
  with t(1) have t1: "cstr m1 q t" by simp
  have len: "length (s @ u) + length t < N" using room by (simp add: u_def)
  define n where "n = int N - int (length (s @ u))"
  have safe: "copy_safe (p + length (s @ u)) q (length t)" using t(2) len by (auto simp: apart_def copy_safe_def)
  have lim: "limit n t = t" using len by (simp add: limit_def n_def)
  have "strncat p q (int N - int (m_Length N p m1)) m1 = Some (store (p + length (s @ u)) (t @ [0]) m1)"
    using ncat_loop_cstr [OF t1 safe, of n] strlen_cstr [of m1 p "s @ u"] h1 lim
    by (simp add: strncat_def holds_def n_def)
  moreover note ext = extend_fits [OF h1 cstr_nonzero [OF t1] len]
  moreover have "holds N p (set_Length N p (length (s @ u) + length t) (store (p + length (s @ u)) (t @ [0]) m1)) (s @ u @ t)"
    using ext(3) by simp
  ultimately have "StaticString_append N p q nLen c m =
      Some (set_Length N p (length (s @ u) + length t) (store (p + length (s @ u)) (t @ [0]) m1))"
    using strlen_cstr [OF t(1)] cut_fits by (simp add: StaticString_append_def m1_def [symmetric])
  with ext(3,4) f1 show ?thesis by auto
qed

lemma strip_loop_cstr:
  assumes "cstr m (p + i) t" "n \<le> i"
  shows "strip_loop m p n i = Some (store (p + (i - n)) (t @ [0]) m)"
  using assms
proof (induction t arbitrary: i m)
  case Nil
  then show ?case by (simp add: strip_loop.simps store_one del: fun_upd_apply)
next
  case (Cons c t)
  have "cstr (m(p + (i - n) := c)) (p + (i + 1)) t"
    using Cons.prems by (intro cstr_frame) auto
  moreover have "n \<le> i + 1" using Cons.prems(2) by simp
  ultimately have
    "strip_loop (m(p + (i - n) := c)) p n (i + 1) = Some (store (p + (i + 1 - n)) (t @ [0]) (m(p + (i - n) := c)))"
    by (rule Cons.IH)
  with Cons.prems show ?case
    by (subst strip_loop.simps) (simp add: store_Cons Suc_diff_le del: fun_upd_apply)
qed

lemma cstr_drop: "cstr m p s \<Longrightarrow> n \<le> length s \<Longrightarrow> cstr m (p + n) (drop n s)"
  using cstr_append [of m p "take n s" "drop n s"] by (simp add: min_absorb2)

lemma cstr_cut:
  assumes "cstr m p s" "n \<le> length s"
  shows "cstr (m(p + n := 0)) p (take n s)"
proof -
  have "0 \<notin> set (take n s)" using cstr_nonzero [OF assms(1)] in_set_takeD by fast
  moreover have "\<forall>i < length (take n s). m (p + i) = take n s ! i" using cstr_nth [OF assms(1)] by simp
  ultimately show ?thesis
    using cstr_append [of "m(p + n := 0)" p "take n s" "[]"] assms(2) by (auto simp: min_absorb2)
qed

lemma cut_holds:
  assumes "holds N p m s" "n \<le> length s"
  shows "holds N p ((set_Length N p n m)(p + n := 0)) (take n s)"
proof -
  have "cstr (set_Length N p n m) p s = cstr m p s"
    by (rule cstr_cong) (use assms(1) in \<open>auto simp: set_Length_other holds_def\<close>)
  then have "cstr ((set_Length N p n m)(p + n := 0)) p (take n s)"
    using assms by (intro cstr_cut) (simp_all add: holds_def)
  moreover have "m_Length N p ((set_Length N p n m)(p + n := 0)) = n"
    using Length_cong [of p N "(set_Length N p n m)(p + n := 0)" "set_Length N p n m"] assms by (simp add: holds_def)
  ultimately show ?thesis using assms by (simp add: holds_def)
qed

section \<open>Properties\<close>

text \<open>As long as everything fits, the operations are those on strings: construction, assignment,
  appending with padding, cutting at either end; and nothing outside the object changes.\<close>

theorem StaticString_fits:
  assumes "cstr m q s" "length s < N" "N < 2 ^ 32" "q + length s < p \<or> p + N + 8 \<le> q"
    and "cstr m r t" "r + length t < p \<or> p + N + 8 \<le> r" "c \<noteq> 0"
    and "length s + (nLen - length t) + length t < N" "n \<le> length s"
  shows "\<exists>m1 m2 m3. StaticString_from N p q m = Some m1 \<and> cstr m1 p s \<and> m_Length N p m1 = length s \<and>
    StaticString_append N p r nLen c m1 = Some m2 \<and>
    cstr m2 p (s @ replicate (nLen - length t) c @ t) \<and>
    m_Length N p m2 = length s + (nLen - length t) + length t \<and>
    StaticString_stripFirst N p n m1 = Some m3 \<and> cstr m3 p (drop n s) \<and> m_Length N p m3 = length s - n \<and>
    cstr (StaticString_truncate N p n m1) p (take n s) \<and> m_Length N p (StaticString_truncate N p n m1) = n \<and>
    (\<forall>a. a < p \<or> p + N + 8 \<le> a \<longrightarrow> m1 a = m a \<and> m2 a = m a)"
proof -
  obtain m1 where m1: "StaticString_from N p q m = Some m1" "holds N p m1 s" "\<forall>a. a < p \<or> p + N + 8 \<le> a \<longrightarrow> m1 a = m a"
    using from_fits [OF assms(1-3)] assms(4) by (auto simp: apart_def)
  have "cstr m1 r t = cstr m r t" by (rule cstr_cong) (use m1(3) assms(6) in auto)
  with append_fits [OF m1(2), of r t c nLen] assms(5-8) obtain m2 where
    m2: "StaticString_append N p r nLen c m1 = Some m2" "holds N p m2 (s @ replicate (nLen - length t) c @ t)"
      "\<forall>a. a < p \<or> p + N + 8 \<le> a \<longrightarrow> m2 a = m1 a" by (auto simp: apart_def)
  have "\<exists>m3. StaticString_stripFirst N p n m1 = Some m3 \<and> holds N p m3 (drop n s)"
  proof -
    define m' where "m' = store p (drop n s @ [0]) m1"
    have "strip_loop m1 p n n = Some m'"
      using strip_loop_cstr [of m1 p n "drop n s" n] cstr_drop [of m1 p s n] m1(2) assms(9) by (simp add: holds_def m'_def)
    moreover have "m_Length N p m' = m_Length N p m1"
      by (rule Length_cong) (use assms(2) in \<open>auto simp: m'_def store_def\<close>)
    moreover have "0 \<notin> set (drop n s)" using cstr_nonzero [OF assms(1)] in_set_dropD by fast
    then have "cstr m' p (drop n s)" unfolding m'_def by (rule cstr_store)
    then have "holds N p (set_Length N p (length (drop n s)) m') (drop n s)"
      using assms(2,3) by (intro holds_set_Length) auto
    ultimately show ?thesis using m1(2) assms(9) by (simp add: StaticString_stripFirst_def holds_def)
  qed
  then obtain m3 where "StaticString_stripFirst N p n m1 = Some m3" "holds N p m3 (drop n s)" by blast
  moreover have "holds N p (StaticString_truncate N p n m1) (take n s)"
    using cut_holds [OF m1(2) assms(9)] m1(2) assms(9) by (simp add: StaticString_truncate_def holds_def)
  ultimately show ?thesis using m1 m2 assms(9) by (auto simp: holds_def)
qed

theorem StaticString_fits_witness:
  "\<exists>m1 m2 m3. StaticString_from 32 100 10 abc_mem = Some m1 \<and> cstr m1 100 [97, 98, 99] \<and>
    m_Length 32 100 m1 = length [97, 98, 99 :: u8] \<and>
    StaticString_append 32 100 11 4 45 m1 = Some m2 \<and>
    cstr m2 100 ([97, 98, 99] @ replicate (4 - length [98, 99 :: u8]) 45 @ [98, 99]) \<and>
    m_Length 32 100 m2 = length [97, 98, 99 :: u8] + (4 - length [98, 99 :: u8]) + length [98, 99 :: u8] \<and>
    StaticString_stripFirst 32 100 1 m1 = Some m3 \<and> cstr m3 100 (drop 1 [97, 98, 99]) \<and>
    m_Length 32 100 m3 = length [97, 98, 99 :: u8] - 1 \<and>
    cstr (StaticString_truncate 32 100 1 m1) 100 (take 1 [97, 98, 99]) \<and>
    m_Length 32 100 (StaticString_truncate 32 100 1 m1) = 1 \<and>
    (\<forall>a. a < 100 \<or> 100 + 32 + 8 \<le> a \<longrightarrow> m1 a = abc_mem a \<and> m2 a = abc_mem a)"
  by (rule StaticString_fits) simp_all

text \<open>A source that does not fit is meant to be cut to \<open>N - 1\<close> characters.  But the kernel's
  \<open>strncpy\<close> writes its terminator at index \<open>N\<close>, over the lowest byte of \<open>m_Length\<close>: for a source
  of \<open>N\<close> to 255 characters the length reads as zero, the test for cutting fails, and the buffer is
  left full of characters without a terminator.\<close>

theorem StaticString_from_overflow:
  assumes "cstr m q s" "N \<le> length s" "length s < 256" "q + length s < p \<or> p + N + 8 \<le> q" "0 < N"
  shows "\<exists>m'. StaticString_from N p q m = Some m' \<and> m_Length N p m' = 0 \<and>
    (\<forall>i < N. m' (p + i) = s ! i \<and> m' (p + i) \<noteq> 0)"
proof -
  let ?m1 = "set_Length N p (length s) m"
  let ?m2 = "store p (take N s @ [0]) ?m1"
  have "cstr ?m1 q s = cstr m q s" by (rule cstr_cong) (use assms(4) in \<open>auto simp: set_Length_other\<close>)
  then have q: "cstr ?m1 q s" using assms(1) by simp
  have "copy_safe p q (length s)" using assms(2,4) by (auto simp: copy_safe_def)
  with strncpy_loop_cstr [OF q, of p "int N" 0] assms(2)
  have cp: "\<exists>k. strncpy p q (int N) ?m1 = Some (k, ?m2)" by (simp add: strncpy_def limit_def)
  have le: "nat_le 8 (length s) = of_nat (length s) # replicate 7 0"
    using nat_le.simps(2) [of 7 "length s"] assms(3) by (simp add: nat_le_0)
  have "?m2 (p + N + i) = 0" if "i < 8" for i
  proof (cases "i = 0")
    case True
    then show ?thesis using assms(2) by (simp add: store_def nth_append min_absorb2)
  next
    case False
    then have "?m2 (p + N + i) = ?m1 (p + N + i)" using assms(2) by (simp add: store_def)
    also have "\<dots> = nat_le 8 (length s) ! i" using that by (simp add: set_Length_def store_def)
    also have "\<dots> = 0" using that False by (simp add: le nth_Cons')
    finally show ?thesis .
  qed
  then have "load 8 (p + N) ?m2 = replicate 8 0" by (auto simp: load_def intro: nth_equalityI)
  then have len: "m_Length N p ?m2 = 0" by (simp add: m_Length_def le_nat_0)
  have all: "\<forall>i < N. ?m2 (p + i) = s ! i \<and> ?m2 (p + i) \<noteq> 0"
  proof (intro allI impI)
    fix i assume "i < N"
    then have "i < length s" using assms(2) by simp
    then have "s ! i \<noteq> 0" using nth_mem [of i s] cstr_nonzero [OF assms(1)] by metis
    then show "?m2 (p + i) = s ! i \<and> ?m2 (p + i) \<noteq> 0"
      using \<open>i < N\<close> assms(2) by (auto simp: store_def nth_append min_def)
  qed
  have "cut_to_buffer N p ?m2 = ?m2" using len assms(5) by (simp add: cut_to_buffer_def)
  then have "StaticString_from N p q m = Some ?m2"
    using cp strlen_cstr [OF assms(1)] by (auto simp: StaticString_from_def)
  with len all show ?thesis by blast
qed

text \<open>\<open>left\<close> copies the characters but never sets the length of the string it returns.\<close>

theorem StaticString_left_length:
  assumes "cstr m p s" "n \<le> length s" "n < N" "p + length s < q \<or> q + N + 8 \<le> p"
  shows "\<exists>m'. StaticString_left N q p n m = Some m' \<and> cstr m' q (take n s) \<and> m_Length N q m' = 0"
proof -
  let ?m0 = "StaticString_new N q m"
  let ?m2 = "store q (take n s @ [0]) ?m0"
  have "cstr ?m0 p s = cstr m p s"
    by (rule cstr_cong) (use assms in \<open>auto simp: StaticString_new_def set_Length_other\<close>)
  then have p: "cstr ?m0 p s" using assms(1) by simp
  have "copy_safe q p (length s)" using assms by (auto simp: copy_safe_def)
  with strncpy_loop_cstr [OF p, of q "int n" 0] assms(2)
  have cp: "\<exists>k. strncpy q p (int n) ?m0 = Some (k, ?m2)" by (simp add: strncpy_def limit_def)
  have z: "0 \<notin> set (take n s)" using cstr_nonzero [OF assms(1)] in_set_takeD by fast
  have c2: "cstr ?m2 q (take n s)" using z by (rule cstr_store)
  have "cstr (?m2(q + n := 0)) q (take n s)"
    using cstr_cut [OF c2, of n] assms(2) by simp
  moreover have "m_Length N q (?m2(q + n := 0)) = m_Length N q (set_Length N q 0 m)"
    by (rule Length_cong) (use assms in \<open>auto simp: store_def StaticString_new_def\<close>)
  ultimately show ?thesis using cp by (auto simp: StaticString_left_def)
qed

abbreviation long_mem :: mem where
  "long_mem \<equiv> store 10 (replicate 40 97 @ [0]) (\<lambda>_. 0)"

theorem StaticString_from_overflow_witness:
  "\<exists>m'. StaticString_from 32 100 10 long_mem = Some m' \<and> m_Length 32 100 m' = 0 \<and>
    (\<forall>i < 32. m' (100 + i) = replicate 40 97 ! i \<and> m' (100 + i) \<noteq> 0)"
  by (rule StaticString_from_overflow) (simp_all add: cstr_store)

theorem StaticString_left_length_witness:
  "\<exists>m'. StaticString_left 32 200 10 2 abc_mem = Some m' \<and> cstr m' 200 (take 2 [97, 98, 99]) \<and> m_Length 32 200 m' = 0"
  by (rule StaticString_left_length) simp_all

text \<open>\<open>contains\<close> decides whether the other string occurs in this one.\<close>

lemma contains_loop_spec:
  assumes "cstr m p s" "cstr m q t" "length t \<le> length s" "i + k \<le> length s - length t + 1"
  shows "contains_loop m p q (length t) i k = Some (\<exists>j. i \<le> j \<and> j < i + k \<and> take (length t) (drop j s) = t)"
  using assms(4)
proof (induction k arbitrary: i)
  case (Suc k)
  have "cstr m (p + i) (drop i s)" using cstr_drop [OF assms(1)] assms(3) Suc.prems by simp
  with strncmp_loop_cstr [of m "p + i" "drop i s" q t "int (length t)"] assms(2)
  have "strncmp (p + i) q (int (length t)) m = Some (if take (length t) (drop i s) = t then 0 else 1)"
    by (simp add: strncmp_def limit_def)
  moreover have "(\<exists>j. i \<le> j \<and> j < i + Suc k \<and> P j) \<longleftrightarrow> P i \<or> (\<exists>j. i + 1 \<le> j \<and> j < i + 1 + k \<and> P j)" for P
  proof -
    have "i \<le> j \<and> j < i + Suc k \<and> P j \<longleftrightarrow> j = i \<and> P i \<or> i + 1 \<le> j \<and> j < i + 1 + k \<and> P j" for j
      by (cases "j = i") auto
    then show ?thesis by (simp only: ex_disj_distrib simp_thms)
  qed
  ultimately show ?case using Suc.IH [of "i + 1"] Suc.prems by simp
qed simp

theorem StaticString_contains_correct:
  assumes "cstr m p s" "m_Length N p m = length s" "cstr m q t"
  shows "StaticString_contains N p q m = Some (\<exists>u v. s = u @ t @ v)"
proof (cases "length t \<ge> length s")
  case True
  have "(\<exists>u v. s = u @ t @ v) \<longleftrightarrow> s = t"
  proof
    assume "\<exists>u v. s = u @ t @ v"
    then obtain u v where "s = u @ t @ v" by blast
    with True show "s = t" by simp
  qed (metis append_Nil append_Nil2)
  with True assms strcmp_loop_cstr [OF assms(1,3)] show ?thesis
    by (simp add: StaticString_contains_def strlen_cstr strcmp_def)
next
  case False
  have "(\<exists>u v. s = u @ t @ v) \<longleftrightarrow> (\<exists>j. j < length s - length t + 1 \<and> take (length t) (drop j s) = t)"
  proof
    assume "\<exists>u v. s = u @ t @ v"
    then obtain u v where "s = u @ t @ v" by blast
    then show "\<exists>j. j < length s - length t + 1 \<and> take (length t) (drop j s) = t"
      by (intro exI [of _ "length u"]) simp
  next
    assume "\<exists>j. j < length s - length t + 1 \<and> take (length t) (drop j s) = t"
    then obtain j where "take (length t) (drop j s) = t" by blast
    then have "s = take j s @ t @ drop (length t) (drop j s)" by (metis append_take_drop_id)
    then show "\<exists>u v. s = u @ t @ v" by blast
  qed
  with False assms contains_loop_spec [OF assms(1,3), of 0 "length s - length t + 1"] show ?thesis
    by (simp add: StaticString_contains_def strlen_cstr)
qed

theorem StaticString_contains_correct_witness:
  "StaticString_contains 20 10 11 ((set_Length 20 10 3 abc_mem)) = Some (\<exists>u v. [97, 98, 99 :: u8] = u @ [98, 99] @ v)"
  by (rule StaticString_contains_correct) (simp_all add: set_Length_other)

end
