(* ===== verification/Tcp_Buffer.thy ===== *)
theory Tcp_Buffer
  imports Pedigree_Prelude
begin

text \<open>
  The byte streams of a TCP endpoint: \<open>TcpBuffer\<close> (\<^verbatim>\<open>modules/system/network-stack/TcpMisc.h\<close>,
  \<^verbatim>\<open>TcpMisc.cc\<close>) and the part of \<open>TcpEndpoint\<close> (\<^verbatim>\<open>TcpEndpoint.cc\<close>) that moves received data from
  the shadow stream to the stream that \<open>recv\<close> reads.  A source buffer is the list of its bytes; a
  destination buffer is the list of the bytes written to it.
\<close>

record TcpBuffer =
  m_Buffer :: "u8 list option"
  m_BufferSize :: nat
  m_DataSize :: nat
  m_Reader :: nat
  m_Writer :: nat

text \<open>\<open>memcpy\<close> into and out of the buffer.\<close>

definition blit :: "nat \<Rightarrow> 'a list \<Rightarrow> 'a list \<Rightarrow> 'a list" where
  "blit at xs buf = take at buf @ xs @ drop (at + length xs) buf"

definition bytes_from :: "nat \<Rightarrow> nat \<Rightarrow> 'a list \<Rightarrow> 'a list" where
  "bytes_from at n buf = take n (drop at buf)"

section \<open>Operations\<close>

text \<open>\<open>setSize\<close> takes fresh memory, here zero, of one byte more than the size.  Given 0, as the
  destructor does, it frees the old memory only.\<close>

definition TcpBuffer_setSize :: "nat \<Rightarrow> TcpBuffer \<Rightarrow> TcpBuffer" where
  "TcpBuffer_setSize newBufferSize b =
     (if newBufferSize \<noteq> 0
      then b\<lparr>m_BufferSize := newBufferSize, m_Buffer := Some (replicate (newBufferSize + 1) 0)\<rparr>
      else b\<lparr>m_Buffer := map_option (\<lambda>_. []) (m_Buffer b)\<rparr>)"

definition TcpBuffer_sized :: "nat \<Rightarrow> TcpBuffer" where
  "TcpBuffer_sized n =
     TcpBuffer_setSize n \<lparr>m_Buffer = None, m_BufferSize = 0, m_DataSize = 0, m_Reader = 0, m_Writer = 0\<rparr>"

definition TcpBuffer_new :: TcpBuffer where
  "TcpBuffer_new = TcpBuffer_sized 32768"

definition TcpBuffer_getDataSize :: "TcpBuffer \<Rightarrow> nat" where
  "TcpBuffer_getDataSize b = m_DataSize b"

definition TcpBuffer_getSize :: "TcpBuffer \<Rightarrow> nat" where
  "TcpBuffer_getSize b = m_BufferSize b"

definition TcpBuffer_getRemainingSize :: "TcpBuffer \<Rightarrow> nat" where
  "TcpBuffer_getRemainingSize b = m_BufferSize b - m_DataSize b"

definition TcpBuffer_write :: "u8 list \<Rightarrow> TcpBuffer \<Rightarrow> nat \<times> TcpBuffer" where
  "TcpBuffer_write buffer b =
     (case m_Buffer b of
        None \<Rightarrow> (0, b)
      | Some mem \<Rightarrow>
          if m_BufferSize b = 0 \<or> m_DataSize b \<ge> m_BufferSize b then (0, b)
          else
            (let n0 = length buffer;
                 n1 = (if n0 + m_DataSize b > m_BufferSize b then m_BufferSize b - m_DataSize b else n0);
                 nBytes = (if n1 > m_BufferSize b then m_BufferSize b else n1)
             in if nBytes = 0 then (0, b)
                else if m_Writer b + nBytes < m_BufferSize b
                then (nBytes, b\<lparr>m_Buffer := Some (blit (m_Writer b) (take nBytes buffer) mem),
                                m_Writer := m_Writer b + nBytes, m_DataSize := m_DataSize b + nBytes\<rparr>)
                else
                  (let normal = m_BufferSize b - m_Writer b;
                       o0 = (m_Writer b + nBytes) mod m_BufferSize b;
                       overlap = (if o0 \<ge> m_Reader b \<and> m_Reader b \<noteq> 0 then m_Reader b - 1
                                  else if m_Reader b = 0 \<and> m_DataSize b = 0 then 0 else o0);
                       mem1 = (if normal \<noteq> 0 then blit (m_Writer b) (take normal buffer) mem else mem);
                       mem2 = (if overlap \<noteq> 0 then blit 0 (take overlap buffer) mem1 else mem1)
                   in (normal + overlap,
                       b\<lparr>m_Buffer := Some mem2, m_Writer := (if overlap \<noteq> 0 then overlap else m_Writer b),
                         m_DataSize := m_DataSize b + (normal + overlap)\<rparr>))))"

definition TcpBuffer_read :: "nat \<Rightarrow> bool \<Rightarrow> TcpBuffer \<Rightarrow> u8 list \<times> TcpBuffer" where
  "TcpBuffer_read n bDoNotMove b =
     (case m_Buffer b of
        None \<Rightarrow> ([], b)
      | Some mem \<Rightarrow>
          if m_BufferSize b = 0 then ([], b)
          else
            (let n1 = (if n > m_BufferSize b then m_BufferSize b else n);
                 nBytes = (if n1 > m_DataSize b then m_DataSize b else n1)
             in if nBytes = 0 then ([], b)
                else if m_Reader b + nBytes < m_BufferSize b
                then
                  (if m_Writer b = 0 \<and> m_Reader b = 0 then ([], b)
                   else if m_Writer b = m_Reader b \<and> m_DataSize b = 0 then ([], b)
                   else (bytes_from (m_Reader b) nBytes mem,
                         if bDoNotMove then b
                         else b\<lparr>m_Reader := m_Reader b + nBytes, m_DataSize := m_DataSize b - nBytes\<rparr>))
                else
                  (let normal = m_BufferSize b - m_Reader b;
                       o0 = (m_Reader b + nBytes) mod m_BufferSize b;
                       overlap = (if o0 \<ge> m_Writer b \<and> m_Writer b \<noteq> 0 then m_Writer b - 1
                                  else if m_Writer b = 0 then 0 else o0)
                   in (bytes_from (m_Reader b) normal mem @ bytes_from 0 overlap mem,
                       b\<lparr>m_Reader := (if overlap \<noteq> 0 then overlap else m_Reader b),
                         m_DataSize := (if normal + overlap > m_DataSize b then 0
                                        else m_DataSize b - (normal + overlap))\<rparr>))))"

section \<open>Byte streams\<close>

text \<open>A sequence of writes and reads, and the bytes that the reads deliver.\<close>

datatype stream_op = WriteOp "u8 list" | ReadOp nat

fun written :: "stream_op list \<Rightarrow> u8 list" where
  "written [] = []"
| "written (WriteOp d # ops) = d @ written ops"
| "written (ReadOp n # ops) = written ops"

fun run_stream ::
  "(u8 list \<Rightarrow> 'b \<Rightarrow> nat \<times> 'b) \<Rightarrow> (nat \<Rightarrow> 'b \<Rightarrow> u8 list \<times> 'b) \<Rightarrow> stream_op list \<Rightarrow> 'b \<Rightarrow> u8 list \<times> 'b" where
  "run_stream wr rd [] b = ([], b)"
| "run_stream wr rd (WriteOp d # ops) b = run_stream wr rd ops (snd (wr d b))"
| "run_stream wr rd (ReadOp n # ops) b =
     (let (xs, b') = rd n b; (ys, b'') = run_stream wr rd ops b' in (xs @ ys, b''))"

text \<open>The contract of a stream: \<open>holds b r s\<close> says that \<open>b\<close> holds the unread bytes \<open>s\<close> and still
  takes fewer than \<open>r\<close> bytes.\<close>

locale byte_stream =
  fixes holds :: "'b \<Rightarrow> nat \<Rightarrow> u8 list \<Rightarrow> bool"
    and wr :: "u8 list \<Rightarrow> 'b \<Rightarrow> nat \<times> 'b"
    and rd :: "nat \<Rightarrow> 'b \<Rightarrow> u8 list \<times> 'b"
  assumes wr_holds: "holds b r s \<Longrightarrow> length d < r \<Longrightarrow> fst (wr d b) = length d \<and> holds (snd (wr d b)) (r - length d) (s @ d)"
    and rd_holds: "holds b r s \<Longrightarrow> fst (rd n b) = take n s \<and> holds (snd (rd n b)) r (drop n s)"
begin

lemma run_fifo:
  "holds b r s \<Longrightarrow> length (written ops) < r \<Longrightarrow>
     (case run_stream wr rd ops b of (out, b') \<Rightarrow>
        \<exists>rest. s @ written ops = out @ rest \<and> holds b' (r - length (written ops)) rest)"
proof (induction ops arbitrary: b r s)
  case (Cons op ops)
  show ?case
  proof (cases op)
    case (WriteOp d)
    with Cons.prems wr_holds [of b r s d]
    have "holds (snd (wr d b)) (r - length d) (s @ d)" "length (written ops) < r - length d" by auto
    from Cons.IH [OF this] WriteOp show ?thesis by (simp add: add.commute)
  next
    case (ReadOp n)
    obtain xs b' where rd: "rd n b = (xs, b')" by (cases "rd n b")
    with rd_holds [OF Cons.prems(1), of n] have h: "xs = take n s" "holds b' r (drop n s)" by auto
    from Cons.IH [OF h(2)] Cons.prems(2) ReadOp obtain out b'' rest where
      "run_stream wr rd ops b' = (out, b'')" "drop n s @ written ops = out @ rest"
      "holds b'' (r - length (written ops)) rest" by (auto split: prod.splits)
    moreover from this(2) have "s @ written ops = (take n s @ out) @ rest"
      by (metis append.assoc append_take_drop_id)
    ultimately show ?thesis using ReadOp rd h(1) by simp
  qed
qed simp

end

section \<open>A buffer before it wraps\<close>

definition linear :: "TcpBuffer \<Rightarrow> nat \<Rightarrow> u8 list \<Rightarrow> bool" where
  "linear b r s \<longleftrightarrow> (\<exists>mem. m_Buffer b = Some mem \<and> length mem = m_BufferSize b + 1 \<and>
     m_Reader b + length s = m_Writer b \<and> m_DataSize b = length s \<and>
     m_Writer b + r = m_BufferSize b \<and> 0 < r \<and> bytes_from (m_Reader b) (length s) mem = s)"

lemma slice_blit:
  "at + length s \<le> length mem \<Longrightarrow> bytes_from at (length s) mem = s \<Longrightarrow>
     bytes_from at (length s + length d) (blit (at + length s) d mem) = s @ d"
proof -
  assume a: "at + length s \<le> length mem" "bytes_from at (length s) mem = s"
  have "drop at (take (at + length s) mem) = s" using a(2) by (simp add: bytes_from_def drop_take)
  with a(1) show ?thesis by (simp add: bytes_from_def blit_def)
qed

lemma length_blit: "at + length xs \<le> length buf \<Longrightarrow> length (blit at xs buf) = length buf"
  by (simp add: blit_def)

lemma linear_new: "0 < n \<Longrightarrow> linear (TcpBuffer_sized n) n []"
  by (simp add: linear_def TcpBuffer_sized_def TcpBuffer_setSize_def bytes_from_def)

lemma linear_write:
  assumes "linear b r s" "length d < r"
  shows "fst (TcpBuffer_write d b) = length d \<and> linear (snd (TcpBuffer_write d b)) (r - length d) (s @ d)"
proof -
  obtain mem where mem: "m_Buffer b = Some mem" "length mem = m_BufferSize b + 1"
    "m_Reader b + length s = m_Writer b" "m_DataSize b = length s" "m_Writer b + r = m_BufferSize b"
    "bytes_from (m_Reader b) (length s) mem = s" using assms(1) by (auto simp: linear_def)
  have "bytes_from (m_Reader b) (length s + length d) (blit (m_Writer b) d mem) = s @ d"
    using slice_blit [of "m_Reader b" s mem d] mem by simp
  moreover have "length (blit (m_Writer b) d mem) = m_BufferSize b + 1"
    using length_blit [of "m_Writer b" d mem] mem assms(2) by simp
  ultimately show ?thesis using mem assms
    by (cases "d = []") (auto simp: TcpBuffer_write_def Let_def linear_def)
qed

lemma slice_take: "n \<le> k \<Longrightarrow> bytes_from at k mem = s \<Longrightarrow> bytes_from at n mem = take n s"
  by (auto simp: bytes_from_def min_def)

lemma slice_drop: "n \<le> k \<Longrightarrow> bytes_from at k mem = s \<Longrightarrow> bytes_from (at + n) (k - n) mem = drop n s"
  by (auto simp: bytes_from_def drop_take add.commute)

lemma linear_read:
  assumes "linear b r s"
  shows "fst (TcpBuffer_read n False b) = take n s \<and> linear (snd (TcpBuffer_read n False b)) r (drop n s)"
proof -
  obtain mem where mem: "m_Buffer b = Some mem" "length mem = m_BufferSize b + 1"
    "m_Reader b + length s = m_Writer b" "m_DataSize b = length s" "m_Writer b + r = m_BufferSize b" "0 < r"
    "bytes_from (m_Reader b) (length s) mem = s" using assms(1) by (auto simp: linear_def)
  let ?k = "min n (length s)"
  have k: "bytes_from (m_Reader b) ?k mem = take n s" "bytes_from (m_Reader b + ?k) (length s - ?k) mem = drop n s"
    using slice_take [of ?k "length s" "m_Reader b" mem s] slice_drop [of ?k "length s" "m_Reader b" mem s] mem(7)
    by (auto simp: min_def)
  show ?thesis
  proof (cases "?k = 0")
    case True
    with mem assms show ?thesis by (auto simp: TcpBuffer_read_def Let_def min_def split: if_splits)
  next
    case False
    have "TcpBuffer_read n False b =
        (bytes_from (m_Reader b) ?k mem, b\<lparr>m_Reader := m_Reader b + ?k, m_DataSize := m_DataSize b - ?k\<rparr>)"
      using mem False by (auto simp: TcpBuffer_read_def Let_def min_def)
    with k mem False show ?thesis by (cases "n \<le> length s") (auto simp: linear_def min_def)
  qed
qed

interpretation tcpbuf: byte_stream linear TcpBuffer_write "\<lambda>n. TcpBuffer_read n False"
  by unfold_locales (simp_all add: linear_write linear_read)


section \<open>Endpoints\<close>

text \<open>The part of \<open>TcpEndpoint\<close> that \<open>TcpManager\<close> uses.  \<open>m_IncomingConnections\<close> holds the
  endpoints waiting for \<open>accept\<close>, as their numbers, and \<open>notified\<close> counts the rounds in which the
  sockets of the endpoint were told of a change.\<close>

record TcpEndpoint =
  ep_ConnId :: nat
  m_IncomingConnections :: "nat list"
  m_IncomingConnectionCount :: nat
  m_DataStream :: TcpBuffer
  m_ShadowDataStream :: TcpBuffer
  notified :: nat

definition TcpEndpoint_new :: "nat \<Rightarrow> TcpEndpoint" where
  "TcpEndpoint_new connId =
     \<lparr>ep_ConnId = connId, m_IncomingConnections = [], m_IncomingConnectionCount = 0,
      m_DataStream = TcpBuffer_new, m_ShadowDataStream = TcpBuffer_new, notified = 0\<rparr>"

text \<open>\<open>depositPayload\<close>; \<open>payload\<close> is \<open>None\<close> for the null pointer.  The sequence number it is
  given is not used.\<close>

definition depositPayload :: "nat \<Rightarrow> u8 list option \<Rightarrow> bool \<Rightarrow> TcpEndpoint \<Rightarrow> nat \<times> TcpEndpoint" where
  "depositPayload nBytes payload push ep =
     (if nBytes > 0xFFFF then (0, ep)
      else
        (let (ret, shadow) =
               (case payload of
                  None \<Rightarrow> (0, m_ShadowDataStream ep)
                | Some p \<Rightarrow> if nBytes \<noteq> 0 then TcpBuffer_write (take nBytes p) (m_ShadowDataStream ep)
                            else (0, m_ShadowDataStream ep));
             sz = TcpBuffer_getDataSize shadow
         in if push \<and> sz \<noteq> 0
            then (if sz > TcpBuffer_getSize shadow then (0, ep\<lparr>m_ShadowDataStream := shadow\<rparr>)
                  else
                    (let (buff, shadow') = TcpBuffer_read sz False shadow;
                         (_, stream) = TcpBuffer_write buff (m_DataStream ep)
                     in (ret, ep\<lparr>m_ShadowDataStream := shadow', m_DataStream := stream, notified := notified ep + 1\<rparr>)))
            else (ret, ep\<lparr>m_ShadowDataStream := shadow\<rparr>)))"

text \<open>\<open>recv\<close> without blocking: \<open>Inl\<close> is a failure, with the value it returns.  \<open>closing\<close> is the test
  \<^verbatim>\<open>getState(m_ConnId) > FIN_WAIT_2\<close>.\<close>

definition dataReady :: "TcpEndpoint \<Rightarrow> bool" where
  "dataReady ep \<longleftrightarrow> TcpBuffer_getDataSize (m_DataStream ep) \<noteq> 0"

definition TcpEndpoint_recv :: "bool \<Rightarrow> nat \<Rightarrow> bool \<Rightarrow> TcpEndpoint \<Rightarrow> (int + u8 list) \<times> TcpEndpoint" where
  "TcpEndpoint_recv closing maxSize bPeek ep =
     (if maxSize = 0 \<and> \<not> bPeek then (Inl (-1), ep)
      else if dataReady ep
      then (let (bs, stream) = TcpBuffer_read maxSize bPeek (m_DataStream ep)
            in (Inr bs, ep\<lparr>m_DataStream := stream\<rparr>))
      else if closing then (Inr [], ep)
      else (Inl (-1), ep))"

definition addIncomingConnection :: "nat \<Rightarrow> TcpEndpoint \<Rightarrow> TcpEndpoint" where
  "addIncomingConnection conn ep =
     ep\<lparr>m_IncomingConnections := m_IncomingConnections ep @ [conn],
        m_IncomingConnectionCount := m_IncomingConnectionCount ep + 1,
        notified := notified ep + 1\<rparr>"

text \<open>\<open>accept\<close> on a listening endpoint, once the semaphore lets it through.\<close>

definition TcpEndpoint_accept :: "TcpEndpoint \<Rightarrow> (nat \<times> TcpEndpoint) option" where
  "TcpEndpoint_accept ep =
     (if m_IncomingConnectionCount ep = 0 then None
      else case m_IncomingConnections ep of
             [] \<Rightarrow> Some (0, ep\<lparr>m_IncomingConnectionCount := m_IncomingConnectionCount ep - 1\<rparr>)
           | e # es \<Rightarrow> Some (e, ep\<lparr>m_IncomingConnections := es,
                                   m_IncomingConnectionCount := m_IncomingConnectionCount ep - 1\<rparr>))"

lemma linear_sizes:
  "linear b r s \<Longrightarrow> TcpBuffer_getDataSize b = length s \<and> TcpBuffer_getSize b \<ge> length s \<and>
     TcpBuffer_getRemainingSize b \<ge> r"
  by (auto simp: linear_def TcpBuffer_getDataSize_def TcpBuffer_getSize_def TcpBuffer_getRemainingSize_def)

lemma deposit_linear:
  assumes "linear (m_ShadowDataStream ep) r s" "linear (m_DataStream ep) r' s'" "length d < r" "length d \<le> 0xFFFF"
    and "push \<longrightarrow> length (s @ d) < r'"
  shows "\<exists>ep'. depositPayload (length d) (Some d) push ep = (length d, ep') \<and>
    linear (m_ShadowDataStream ep') (r - length d) (if push then [] else s @ d) \<and>
    linear (m_DataStream ep') (if push then r' - length (s @ d) else r') (if push then s' @ s @ d else s') \<and>
    ep_ConnId ep' = ep_ConnId ep \<and> m_IncomingConnections ep' = m_IncomingConnections ep"
proof -
  obtain shadow where sh: "(if d = [] then (0, m_ShadowDataStream ep) else TcpBuffer_write d (m_ShadowDataStream ep)) = (length d, shadow)"
    "linear shadow (r - length d) (s @ d)"
  proof (cases "d = []")
    case True
    with that assms(1) show ?thesis by simp
  next
    case False
    with that tcpbuf.wr_holds [OF assms(1,3)] show ?thesis
      by (cases "TcpBuffer_write d (m_ShadowDataStream ep)") simp
  qed
  obtain bs shadow' where rd: "TcpBuffer_read (length (s @ d)) False shadow = (bs, shadow')" "bs = s @ d" "linear shadow' (r - length d) []"
    using tcpbuf.rd_holds [OF sh(2), of "length (s @ d)"] by (cases "TcpBuffer_read (length (s @ d)) False shadow") auto
  have wr: "\<exists>k stream. TcpBuffer_write (s @ d) (m_DataStream ep) = (k, stream) \<and> linear stream (r' - length (s @ d)) (s' @ s @ d)" if push
    using tcpbuf.wr_holds [OF assms(2), of "s @ d"] assms(5) that by (cases "TcpBuffer_write (s @ d) (m_DataStream ep)") auto
  show ?thesis
  proof (cases "push \<and> s @ d \<noteq> []")
    case True
    with wr obtain k stream where w: "TcpBuffer_write (s @ d) (m_DataStream ep) = (k, stream)" "linear stream (r' - length (s @ d)) (s' @ s @ d)"
      by blast
    have "(if length d \<noteq> 0 then TcpBuffer_write (take (length d) d) (m_ShadowDataStream ep) else (0, m_ShadowDataStream ep)) = (length d, shadow)"
      using sh(1) by auto
    with True w rd linear_sizes [OF sh(2)] assms(4) show ?thesis
      by (simp add: depositPayload_def Let_def)
  next
    case False
    have "(if length d \<noteq> 0 then TcpBuffer_write (take (length d) d) (m_ShadowDataStream ep) else (0, m_ShadowDataStream ep)) = (length d, shadow)"
      using sh(1) by auto
    moreover have "\<not> (push \<and> TcpBuffer_getDataSize shadow \<noteq> 0)" using False linear_sizes [OF sh(2)] by auto
    ultimately show ?thesis using False sh(2) assms(1,2,4)
      by (cases push) (auto simp: depositPayload_def Let_def)
  qed
qed

section \<open>Properties of the buffer\<close>

text \<open>As long as the bytes written in all are fewer than the buffer is long, the buffer is a
  first-in first-out stream: what the reads deliver, followed by what is left, is what was written.\<close>

theorem TcpBuffer_fifo:
  assumes "length (written ops) < n" "run_stream TcpBuffer_write (\<lambda>k. TcpBuffer_read k False) ops (TcpBuffer_sized n) = (out, b)"
  shows "\<exists>rest. written ops = out @ rest \<and> TcpBuffer_getDataSize b = length rest \<and>
    TcpBuffer_getRemainingSize b = n - length rest \<and>
    fst (TcpBuffer_read (length rest) False b) = rest"
proof -
  have "0 < n" using assms(1) by simp
  from tcpbuf.run_fifo [OF linear_new [OF this] assms(1)] assms(2) obtain rest where
    r: "written ops = out @ rest" "linear b (n - length (written ops)) rest" by auto
  have "m_BufferSize b = n"
  proof -
    have wr: "m_BufferSize (snd (TcpBuffer_write d c)) = m_BufferSize c" for d c
      by (simp add: TcpBuffer_write_def Let_def split: option.split)
    have rd: "m_BufferSize (snd (TcpBuffer_read k p c)) = m_BufferSize c" for k p c
      by (simp add: TcpBuffer_read_def Let_def split: option.split)
    have "m_BufferSize (snd (run_stream TcpBuffer_write (\<lambda>k. TcpBuffer_read k False) ops c)) = m_BufferSize c" for c
    proof (induction ops arbitrary: c)
      case (Cons op ops)
      show ?case using Cons.IH wr rd [of _ False c]
        by (cases op) (auto split: prod.split, metis snd_conv)
    qed simp
    from this [of "TcpBuffer_sized n"] assms(2) \<open>0 < n\<close> show ?thesis
      by (simp add: TcpBuffer_sized_def TcpBuffer_setSize_def)
  qed
  with r linear_read [OF r(2), of "length rest"] show ?thesis
    by (auto simp: linear_def TcpBuffer_getDataSize_def TcpBuffer_getRemainingSize_def)
qed

theorem TcpBuffer_fifo_witness:
  "\<exists>rest. written [WriteOp [1, 2, 3], ReadOp 2, WriteOp [4]] = [1, 2] @ rest \<and>
    TcpBuffer_getDataSize (snd (run_stream TcpBuffer_write (\<lambda>k. TcpBuffer_read k False) [WriteOp [1, 2, 3], ReadOp 2, WriteOp [4]] (TcpBuffer_sized 8))) = length rest \<and>
    TcpBuffer_getRemainingSize (snd (run_stream TcpBuffer_write (\<lambda>k. TcpBuffer_read k False) [WriteOp [1, 2, 3], ReadOp 2, WriteOp [4]] (TcpBuffer_sized 8))) = 8 - length rest \<and>
    fst (TcpBuffer_read (length rest) False (snd (run_stream TcpBuffer_write (\<lambda>k. TcpBuffer_read k False) [WriteOp [1, 2, 3], ReadOp 2, WriteOp [4]] (TcpBuffer_sized 8)))) = rest"
  by (rule TcpBuffer_fifo) (simp, code_simp)

lemma blit_front: "length xs \<le> length mem \<Longrightarrow> blit 0 xs mem = xs @ drop (length xs) mem"
  by (simp add: blit_def)

lemma drop_replicate_Cons [simp]: "drop n (x # replicate n x) = [x]"
  by (simp add: replicate_Suc [symmetric] drop_replicate del: replicate_Suc) simp

text \<open>At the end of the buffer the stream breaks.  A write that reaches the end exactly does not
  move the writer to the front: after the buffer has been filled in two writes and emptied, the
  next byte is stored at one place and read at another, where the first byte still is.\<close>

theorem TcpBuffer_end_corrupts:
  assumes "xs \<noteq> []" "ys \<noteq> []" "length ys \<noteq> 1"
  shows "fst (run_stream TcpBuffer_write (\<lambda>k. TcpBuffer_read k False)
      [WriteOp xs, WriteOp ys, ReadOp (length xs + length ys), WriteOp [y], ReadOp 1]
      (TcpBuffer_sized (length xs + length ys))) = xs @ ys @ [hd xs]"
proof -
  let ?n = "length xs + length ys"
  define b0 where "b0 = TcpBuffer_sized ?n"
  define b1 where "b1 = b0\<lparr>m_Buffer := Some (xs @ replicate (length ys + 1) 0), m_Writer := length xs, m_DataSize := length xs\<rparr>"
  define b2 where "b2 = b1\<lparr>m_Buffer := Some (xs @ ys @ [0]), m_DataSize := ?n\<rparr>"
  define b3 where "b3 = b2\<lparr>m_DataSize := 0\<rparr>"
  define b4 where "b4 = b3\<lparr>m_Buffer := Some (xs @ [y] @ drop 1 (ys @ [0])), m_Writer := length xs + 1, m_DataSize := 1\<rparr>"
  have len: "0 < length xs" "1 < length ys" "ys \<noteq> []" using assms by (cases xs; cases ys; cases "tl ys"; auto)+
  have w1: "TcpBuffer_write xs b0 = (length xs, b1)"
    using len by (simp add: b1_def b0_def TcpBuffer_write_def TcpBuffer_sized_def TcpBuffer_setSize_def blit_front Let_def
        drop_replicate del: replicate_Suc)
  have w2: "snd (TcpBuffer_write ys b1) = b2"
    using len by (simp add: b2_def b1_def b0_def TcpBuffer_write_def TcpBuffer_sized_def TcpBuffer_setSize_def blit_def Let_def
        drop_replicate)
  have r3: "TcpBuffer_read ?n False b2 = (xs @ ys, b3)"
    using len by (simp add: b3_def b2_def b1_def b0_def TcpBuffer_read_def TcpBuffer_sized_def TcpBuffer_setSize_def
        bytes_from_def Let_def)
  have w4: "snd (TcpBuffer_write [y] b3) = b4"
    using len by (simp add: b4_def b3_def b2_def b1_def b0_def TcpBuffer_write_def TcpBuffer_sized_def TcpBuffer_setSize_def
        blit_def Let_def)
  have r5: "fst (TcpBuffer_read 1 False b4) = [hd xs]"
    using len by (cases xs) (simp_all add: b4_def b3_def b2_def b1_def b0_def TcpBuffer_read_def TcpBuffer_sized_def
        TcpBuffer_setSize_def bytes_from_def Let_def)
  show ?thesis using w1 w2 r3 w4 r5
    by (cases "TcpBuffer_read 1 False b4") (simp add: b0_def [symmetric])
qed

theorem TcpBuffer_end_corrupts_witness:
  "fst (run_stream TcpBuffer_write (\<lambda>k. TcpBuffer_read k False)
      [WriteOp [1, 2], WriteOp [3, 4], ReadOp (length [1 :: u8, 2] + length [3 :: u8, 4]), WriteOp [5], ReadOp 1]
      (TcpBuffer_sized (length [1 :: u8, 2] + length [3 :: u8, 4]))) = [1, 2] @ [3, 4] @ [hd [1, 2]]"
  by (rule TcpBuffer_end_corrupts) simp_all

text \<open>A buffer filled by a single write gives nothing to a read of fewer bytes.\<close>

theorem TcpBuffer_full_unreadable:
  assumes "k < length xs"
  shows "fst (run_stream TcpBuffer_write (\<lambda>k. TcpBuffer_read k False) [WriteOp xs, ReadOp k] (TcpBuffer_sized (length xs))) = [] \<and>
    TcpBuffer_getDataSize (snd (run_stream TcpBuffer_write (\<lambda>k. TcpBuffer_read k False) [WriteOp xs, ReadOp k] (TcpBuffer_sized (length xs)))) = length xs"
proof -
  let ?b0 = "TcpBuffer_sized (length xs)"
  let ?b1 = "?b0\<lparr>m_Buffer := Some (xs @ [0]), m_DataSize := length xs\<rparr>"
  have "0 < length xs" "xs \<noteq> []" using assms by auto
  then have "snd (TcpBuffer_write xs ?b0) = ?b1"
    by (simp add: TcpBuffer_write_def TcpBuffer_sized_def TcpBuffer_setSize_def Let_def blit_def drop_replicate)
  moreover have "TcpBuffer_read k False ?b1 = ([], ?b1)"
    using assms by (cases xs) (auto simp: TcpBuffer_read_def TcpBuffer_sized_def TcpBuffer_setSize_def Let_def)
  ultimately show ?thesis by (simp add: TcpBuffer_getDataSize_def)
qed

theorem TcpBuffer_full_unreadable_witness:
  "fst (run_stream TcpBuffer_write (\<lambda>k. TcpBuffer_read k False) [WriteOp [1, 2, 3], ReadOp 2] (TcpBuffer_sized (length [1 :: u8, 2, 3]))) = [] \<and>
    TcpBuffer_getDataSize (snd (run_stream TcpBuffer_write (\<lambda>k. TcpBuffer_read k False) [WriteOp [1, 2, 3], ReadOp 2] (TcpBuffer_sized (length [1 :: u8, 2, 3])))) = length [1 :: u8, 2, 3]"
  by (rule TcpBuffer_full_unreadable) simp

section \<open>Properties of the endpoint\<close>

text \<open>Received bytes reach the application in order: deposits without the push flag gather in the
  shadow stream, a deposit with it makes everything available, and \<open>recv\<close> then returns it.\<close>

theorem deposit_recv:
  assumes "linear (m_ShadowDataStream ep) r s" "linear (m_DataStream ep) r' []"
    and "length d < r" "length (s @ d) < r'" "length d \<le> 0xFFFF" "s @ d \<noteq> []"
  shows "\<exists>ep' ep''. depositPayload (length d) (Some d) True ep = (length d, ep') \<and>
    TcpEndpoint_recv closing (length (s @ d)) False ep' = (Inr (s @ d), ep'') \<and> \<not> dataReady ep''"
proof -
  obtain ep' where ep': "depositPayload (length d) (Some d) True ep = (length d, ep')"
    "linear (m_DataStream ep') (r' - length (s @ d)) (s @ d)"
    using deposit_linear [OF assms(1,2,3,5), of True] assms(4) by auto
  obtain bs str where rd: "TcpBuffer_read (length (s @ d)) False (m_DataStream ep') = (bs, str)"
    by (cases "TcpBuffer_read (length (s @ d)) False (m_DataStream ep')")
  with tcpbuf.rd_holds [OF ep'(2), of "length (s @ d)"] have "bs = s @ d" "linear str (r' - length (s @ d)) []" by auto
  with rd ep' linear_sizes [OF ep'(2)] linear_sizes [of str] assms(6) show ?thesis
    by (simp add: TcpEndpoint_recv_def dataReady_def)
qed

theorem deposit_recv_witness:
  "\<exists>ep' ep''. depositPayload (length [1 :: u8, 2]) (Some [1, 2]) True (TcpEndpoint_new 1) = (length [1 :: u8, 2], ep') \<and>
    TcpEndpoint_recv False (length ([] @ [1 :: u8, 2])) False ep' = (Inr ([] @ [1, 2]), ep'') \<and> \<not> dataReady ep''"
  by (rule deposit_recv [of _ 32768 _ 32768]) (simp_all add: TcpEndpoint_new_def TcpBuffer_new_def linear_new)

text \<open>When the stream of the application is full, a push empties the shadow stream into nothing:
  the bytes are gone, although \<open>depositPayload\<close> reports them as taken.\<close>

theorem deposit_loses:
  assumes "linear (m_ShadowDataStream ep) r s" "length d < r" "length d \<le> 0xFFFF" "d \<noteq> []"
    and "m_DataSize (m_DataStream ep) = m_BufferSize (m_DataStream ep)"
  shows "\<exists>ep'. depositPayload (length d) (Some d) True ep = (length d, ep') \<and>
    m_DataStream ep' = m_DataStream ep \<and> TcpBuffer_getDataSize (m_ShadowDataStream ep') = 0"
proof -
  obtain shadow where sh: "TcpBuffer_write d (m_ShadowDataStream ep) = (length d, shadow)" "linear shadow (r - length d) (s @ d)"
    using tcpbuf.wr_holds [OF assms(1,2)] by (cases "TcpBuffer_write d (m_ShadowDataStream ep)") auto
  obtain bs shadow' where rd: "TcpBuffer_read (length (s @ d)) False shadow = (bs, shadow')" "linear shadow' (r - length d) []"
    using tcpbuf.rd_holds [OF sh(2), of "length (s @ d)"] by (cases "TcpBuffer_read (length (s @ d)) False shadow") auto
  have "snd (TcpBuffer_write bs (m_DataStream ep)) = m_DataStream ep"
    using assms(5) by (auto simp: TcpBuffer_write_def split: option.split)
  then show ?thesis using sh rd assms(3,4) linear_sizes [OF sh(2)] linear_sizes [OF rd(2)]
    by (cases "TcpBuffer_write bs (m_DataStream ep)") (simp add: depositPayload_def Let_def)
qed

theorem deposit_loses_witness:
  "\<exists>ep'. depositPayload (length [1 :: u8, 2]) (Some [1, 2]) True
        ((TcpEndpoint_new 1)\<lparr>m_DataStream := TcpBuffer_new\<lparr>m_DataSize := 32768\<rparr>\<rparr>) = (length [1 :: u8, 2], ep') \<and>
    m_DataStream ep' = TcpBuffer_new\<lparr>m_DataSize := 32768\<rparr> \<and> TcpBuffer_getDataSize (m_ShadowDataStream ep') = 0"
  using deposit_loses [of "((TcpEndpoint_new 1)\<lparr>m_DataStream := TcpBuffer_new\<lparr>m_DataSize := 32768\<rparr>\<rparr>)" 32768 "[]" "[1, 2]"]
  by (simp add: TcpEndpoint_new_def TcpBuffer_new_def linear_new) (simp add: TcpBuffer_sized_def TcpBuffer_setSize_def)

end
