(* ===== verification/Tcp_State.thy ===== *)
theory Tcp_State
  imports Tcp_Buffer "HOL-Library.Monad_Syntax"
begin

unbundle bit_operations_syntax

text \<open>
  Connections: \<open>Tcp\<close> (\<^verbatim>\<open>modules/system/network-stack/Tcp.h\<close>) and \<open>StateBlock\<close>
  (\<^verbatim>\<open>TcpStateBlock.h\<close>), the state of one connection with its segment queue and its timer.
  Sequence numbers are 32-bit words and are compared as unsigned numbers, as the code does.  What is
  sent is a list of packets; the hardware, routing and checksum below \<open>Tcp::send\<close> are not modelled.
\<close>

section \<open>States and flags\<close>

datatype TcpState =
  IGNORED | LISTEN | SYN_SENT | SYN_RECEIVED | ESTABLISHED | FIN_WAIT_1 | FIN_WAIT_2 |
  CLOSE_WAIT | CLOSING | LAST_ACK | TIME_WAIT | CLOSED | UNKNOWN

fun TcpState_value :: "TcpState \<Rightarrow> nat" where
  "TcpState_value IGNORED = 0"
| "TcpState_value LISTEN = 1"
| "TcpState_value SYN_SENT = 2"
| "TcpState_value SYN_RECEIVED = 3"
| "TcpState_value ESTABLISHED = 4"
| "TcpState_value FIN_WAIT_1 = 5"
| "TcpState_value FIN_WAIT_2 = 6"
| "TcpState_value CLOSE_WAIT = 7"
| "TcpState_value CLOSING = 8"
| "TcpState_value LAST_ACK = 9"
| "TcpState_value TIME_WAIT = 10"
| "TcpState_value CLOSED = 11"
| "TcpState_value UNKNOWN = 12"

lemma TcpState_value_inj: "TcpState_value a = TcpState_value b \<longleftrightarrow> a = b"
  by (cases a; cases b) simp_all

text \<open>The code compares states by the values of the enumeration.\<close>

instantiation TcpState :: linorder
begin

definition less_eq_TcpState :: "TcpState \<Rightarrow> TcpState \<Rightarrow> bool" where
  "less_eq_TcpState a b \<longleftrightarrow> TcpState_value a \<le> TcpState_value b"

definition less_TcpState :: "TcpState \<Rightarrow> TcpState \<Rightarrow> bool" where
  "less_TcpState a b \<longleftrightarrow> TcpState_value a < TcpState_value b"

instance
  by standard (auto simp: less_eq_TcpState_def less_TcpState_def TcpState_value_inj)

end

definition FIN :: u8 where "FIN = 1"
definition SYN :: u8 where "SYN = 2"
definition RST :: u8 where "RST = 4"
definition PSH :: u8 where "PSH = 8"
definition ACK :: u8 where "ACK = 16"
definition URG :: u8 where "URG = 32"

lemmas flag_defs = FIN_def SYN_def RST_def PSH_def ACK_def URG_def

definition flag :: "u8 \<Rightarrow> u8 \<Rightarrow> bool" where
  "flag flags f \<longleftrightarrow> flags AND f \<noteq> 0"

section \<open>Segments and packets\<close>

record Segment =
  s_seq :: u32
  s_ack :: u32
  s_len :: u32
  s_wnd :: u32
  s_up :: u32
  s_flags :: u8
  s_payload :: "u8 list option"
  s_nBytes :: nat

text \<open>What \<open>Tcp::send\<close> puts on the wire.  A packet with the SYN flag carries the option for a
  maximum segment size of 1460 bytes.\<close>

record packet =
  p_dest :: u32
  p_srcPort :: u16
  p_destPort :: u16
  p_seq :: u32
  p_ack :: u32
  p_flags :: u8
  p_window :: u16
  p_mss :: "u16 option"
  p_payload :: "u8 list"

definition Tcp_send ::
  "u32 \<Rightarrow> u16 \<Rightarrow> u16 \<Rightarrow> u32 \<Rightarrow> u32 \<Rightarrow> u8 \<Rightarrow> u16 \<Rightarrow> nat \<Rightarrow> u8 list option \<Rightarrow> packet" where
  "Tcp_send dest srcPort destPort seqNumber ackNumber flags window nBytes payload =
     \<lparr>p_dest = dest, p_srcPort = srcPort, p_destPort = destPort, p_seq = seqNumber, p_ack = ackNumber,
      p_flags = flags, p_window = window,
      p_mss = (if flag flags SYN then Some 1460 else None),
      p_payload = (case payload of Some d \<Rightarrow> take nBytes d | None \<Rightarrow> [])\<rparr>"

section \<open>The state block\<close>

record StateBlock =
  currentState :: TcpState
  localPort :: u16
  remoteIp :: u32
  remotePort :: u16
  iss :: u32
  snd_nxt :: u32
  snd_una :: u32
  snd_wnd :: u32
  snd_up :: u32
  snd_wl1 :: u32
  snd_wl2 :: u32
  rcv_nxt :: u32
  rcv_wnd :: u32
  rcv_up :: u32
  irs :: u32
  seg_seq :: u32
  seg_ack :: u32
  seg_len :: u32
  seg_wnd :: u32
  seg_up :: u32
  seg_prc :: u32
  fin_ack :: bool
  fin_seq :: u32
  tcp_mss :: u32
  numEndpointPackets :: u32
  waitState :: nat
  endpoint :: nat
  connId :: nat
  retransmitQueue :: "Segment list"
  waitingForTimeout :: bool
  didTimeout :: bool
  timeoutWait :: nat
  useWaitSem :: bool
  m_Nanoseconds :: u64
  m_Seconds :: u64
  m_Timeout :: u32

definition StateBlock_new :: StateBlock where
  "StateBlock_new =
     \<lparr>currentState = CLOSED, localPort = 0, remoteIp = 0, remotePort = 0,
      iss = 0, snd_nxt = 0, snd_una = 0, snd_wnd = 0, snd_up = 0, snd_wl1 = 0, snd_wl2 = 0,
      rcv_nxt = 0, rcv_wnd = 0, rcv_up = 0, irs = 0,
      seg_seq = 0, seg_ack = 0, seg_len = 0, seg_wnd = 0, seg_up = 0, seg_prc = 0,
      fin_ack = False, fin_seq = 0, tcp_mss = 536, numEndpointPackets = 0,
      waitState = 0, endpoint = 0, connId = 0, retransmitQueue = [],
      waitingForTimeout = False, didTimeout = False, timeoutWait = 0, useWaitSem = True,
      m_Nanoseconds = 0, m_Seconds = 0, m_Timeout = 10\<rparr>"

definition resetTimer :: "u32 \<Rightarrow> StateBlock \<Rightarrow> StateBlock" where
  "resetTimer timeout b = b\<lparr>m_Nanoseconds := 0, m_Seconds := 0, m_Timeout := timeout, didTimeout := False\<rparr>"

text \<open>\<open>ackSegment\<close> works on the queue.  A segment that the acknowledgement splits gets a new block
  of memory for the rest of its payload, but all \<open>nBytes\<close> are copied into it: where these are
  more than the rest the code writes past the block, and the result is \<open>None\<close>.\<close>

fun ackSegment :: "u32 \<Rightarrow> Segment list \<Rightarrow> Segment list option" where
  "ackSegment segAck [] = Some []"
| "ackSegment segAck (seg # queue) =
     (if s_seq seg + s_len seg \<le> segAck then ackSegment segAck queue
      else if segAck \<ge> s_seq seg
      then
        (let nBytesAcked = segAck - s_seq seg;
             splitSeg = seg\<lparr>s_seq := s_seq seg + nBytesAcked, s_len := s_len seg - nBytesAcked\<rparr>
         in case s_payload seg of
              None \<Rightarrow> Some (splitSeg # queue)
            | Some p \<Rightarrow>
                if s_nBytes seg = 0 then Some (splitSeg # queue)
                else if s_nBytes seg > unat (s_len splitSeg) then None
                else Some (splitSeg\<lparr>s_payload := Some (take (s_nBytes seg) p)\<rparr> # queue))
      else ackSegment segAck queue)"

text \<open>Sending one segment.\<close>

definition send_one :: "Segment \<Rightarrow> StateBlock \<Rightarrow> Segment \<times> packet" where
  "send_one seg b =
     (let seg = (if s_flags seg AND ACK = 0 then seg\<lparr>s_ack := 0\<rparr> else seg)
      in (seg, Tcp_send (remoteIp b) (localPort b) (remotePort b) (s_seq seg) (s_ack seg) (s_flags seg)
                 (ucast (s_wnd seg)) (s_nBytes seg) (s_payload seg)))"

text \<open>Sending a buffer, in segments of at most \<open>tcp_mss\<close> bytes.  \<open>remaining\<close> is the room in the
  endpoint's shadow stream.  With a segment size of 0 the loop does not end, which is \<open>None\<close>.\<close>

definition segment_at :: "u8 \<Rightarrow> nat \<Rightarrow> u8 list option \<Rightarrow> nat \<Rightarrow> nat \<Rightarrow> StateBlock \<Rightarrow> Segment" where
  "segment_at flags nBytes payload offset segmentSize b =
     \<lparr>s_seq = seg_seq b, s_ack = rcv_nxt b, s_len = of_nat segmentSize, s_wnd = snd_wnd b, s_up = 0,
      s_flags = flags,
      s_payload = (case payload of
                     None \<Rightarrow> None
                   | Some d \<Rightarrow> if nBytes \<noteq> 0 then Some (take segmentSize (drop offset d)) else None),
      s_nBytes = unat (of_nat segmentSize :: u32)\<rparr>"

definition send_chunk ::
  "u8 \<Rightarrow> nat \<Rightarrow> u8 list option \<Rightarrow> bool \<Rightarrow> nat \<Rightarrow> nat \<Rightarrow> StateBlock \<Rightarrow> u8 \<times> StateBlock \<times> packet" where
  "send_chunk flags nBytes payload addToRetransmitQueue remaining offset b =
     (let final = offset + unat (tcp_mss b) \<ge> nBytes;
          segmentSize = (if final then nBytes - offset else unat (tcp_mss b));
          flags' = (if final \<and> nBytes \<noteq> 0 then flags OR PSH else flags);
          b1 = b\<lparr>seg_seq := snd_nxt b, snd_nxt := snd_nxt b + of_nat segmentSize, snd_wnd := of_nat remaining\<rparr>;
          (seg, p) = send_one (segment_at flags' nBytes payload offset segmentSize b1) b1
      in (flags', if addToRetransmitQueue then b1\<lparr>retransmitQueue := retransmitQueue b1 @ [seg]\<rparr> else b1, p))"

partial_function (option) send_loop ::
  "u8 \<Rightarrow> nat \<Rightarrow> u8 list option \<Rightarrow> bool \<Rightarrow> nat \<Rightarrow> nat \<Rightarrow> StateBlock \<Rightarrow> (StateBlock \<times> packet list) option" where
  "send_loop flags nBytes payload addToRetransmitQueue remaining offset b =
     (if offset < (if nBytes = 0 then 1 else nBytes)
      then
        (let (flags', b2, p) = send_chunk flags nBytes payload addToRetransmitQueue remaining offset b
         in do {
              (b3, ps) \<leftarrow> send_loop flags' nBytes payload addToRetransmitQueue remaining (offset + unat (tcp_mss b)) b2;
              Some (b3, p # ps) })
      else Some (b, []))"

declare send_loop.simps [code]

definition sendSegment ::
  "u8 \<Rightarrow> nat \<Rightarrow> u8 list option \<Rightarrow> bool \<Rightarrow> nat \<Rightarrow> StateBlock \<Rightarrow> (StateBlock \<times> packet list) option" where
  "sendSegment flags nBytes payload addToRetransmitQueue remaining b =
     send_loop flags nBytes payload addToRetransmitQueue remaining 0 b"

text \<open>The timer, called with the nanoseconds since its last call.  The result says what is sent and
  whether a thread is started that removes the connection.\<close>

definition StateBlock_timer :: "u64 \<Rightarrow> StateBlock \<Rightarrow> StateBlock \<times> packet list \<times> bool" where
  "StateBlock_timer delta b =
     (if \<not> waitingForTimeout b \<or> \<not> m_Seconds b < ucast (m_Timeout b) then (b, [], False)
      else
        (let b1 = b\<lparr>m_Nanoseconds := m_Nanoseconds b + delta\<rparr>;
             b2 = (if m_Nanoseconds b1 \<ge> 1000000000
                   then b1\<lparr>m_Seconds := m_Seconds b1 + 1, m_Nanoseconds := m_Nanoseconds b1 - 1000000000\<rparr> else b1)
         in if \<not> m_Seconds b2 \<ge> ucast (m_Timeout b2) then (b2, [], False)
            else
              (let b3 = b2\<lparr>waitingForTimeout := False, didTimeout := True,
                          timeoutWait := (if useWaitSem b2 then timeoutWait b2 + 1 else timeoutWait b2)\<rparr>
               in case retransmitQueue b3 of
                    seg # rest \<Rightarrow>
                      (let (seg', p) = send_one seg b3
                       in (resetTimer 10 (b3\<lparr>retransmitQueue := seg' # rest\<rparr>), [p], False))
                  | [] \<Rightarrow> if currentState b3 = TIME_WAIT then (b3\<lparr>currentState := CLOSED\<rparr>, [], True)
                          else (b3, [], False))))"

section \<open>The retransmission queue\<close>

lemma ackSegment_acked:
  "\<forall>seg \<in> set xs. s_seq seg + s_len seg \<le> a \<Longrightarrow> ackSegment a (xs @ ys) = ackSegment a ys"
  by (induction xs) auto

text \<open>An acknowledgement at a segment boundary removes exactly the segments that end at or before
  it.\<close>

theorem ackSegment_boundary:
  assumes "\<forall>seg \<in> set xs. s_seq seg + s_len seg \<le> a"
    and "s_seq y = a" "a < a + s_len y" "s_payload y = Some d" "length d = s_nBytes y" "s_nBytes y \<le> unat (s_len y)"
  shows "ackSegment a xs = Some [] \<and> ackSegment a (xs @ y # ys) = Some (y # ys)"
  using ackSegment_acked [OF assms(1), of "[]"] ackSegment_acked [OF assms(1), of "y # ys"] assms(2-6)
  by (auto simp: Let_def)

abbreviation seg_of :: "u32 \<Rightarrow> u8 list \<Rightarrow> Segment" where
  "seg_of n d \<equiv> \<lparr>s_seq = n, s_ack = 7, s_len = of_nat (length d), s_wnd = 100, s_up = 0, s_flags = 24,
     s_payload = Some d, s_nBytes = length d\<rparr>"

theorem ackSegment_boundary_witness:
  "ackSegment 12 [seg_of 10 [1, 2]] = Some [] \<and>
   ackSegment 12 ([seg_of 10 [1, 2]] @ seg_of 12 [3, 4] # [seg_of 14 [5]]) = Some (seg_of 12 [3, 4] # [seg_of 14 [5]])"
  by (rule ackSegment_boundary [where d = "[3, 4]"]) simp_all

text \<open>An acknowledgement older than everything in the queue, such as a duplicate that arrives
  late, empties the queue: each segment is taken off, found not acknowledged, and not put back.
  One that falls inside a segment makes the code write past the memory it takes for the rest.\<close>

theorem ackSegment_loses:
  assumes "\<forall>seg \<in> set queue. a < s_seq seg \<and> a < s_seq seg + s_len seg"
    and "s_seq y < b" "b < s_seq y + s_len y" "s_payload y = Some d" "s_nBytes y = unat (s_len y)"
  shows "ackSegment a queue = Some [] \<and> ackSegment b (y # ys) = None"
proof
  show "ackSegment a queue = Some []"
    using assms(1) by (induction queue) auto
  have "unat (s_len y - (b - s_seq y)) < unat (s_len y)"
  proof -
    have "b - s_seq y < s_len y" using assms(2,3) by uint_arith
    moreover have "0 < b - s_seq y" using assms(2) by uint_arith
    ultimately have "s_len y - (b - s_seq y) < s_len y" by uint_arith
    then show ?thesis by (simp add: word_less_nat_alt)
  qed
  with assms(2-5) show "ackSegment b (y # ys) = None" by (auto simp: Let_def)
qed

theorem ackSegment_loses_witness:
  "ackSegment 9 [seg_of 10 [1, 2], seg_of 12 [3, 4]] = Some [] \<and> ackSegment 11 (seg_of 10 [1, 2] # []) = None"
  by (rule ackSegment_loses [where d = "[1, 2]"]) simp_all

section \<open>Sending\<close>

definition sent_from :: "StateBlock \<Rightarrow> u8 \<Rightarrow> nat \<Rightarrow> u8 list \<Rightarrow> packet list \<Rightarrow> bool" where
  "sent_from b flags m d ps \<longleftrightarrow>
     concat (map p_payload ps) = d \<and>
     (\<forall>p \<in> set ps. 0 < length (p_payload p) \<and> length (p_payload p) \<le> m \<and> p_ack p = rcv_nxt b) \<and>
     (\<forall>i < length ps. p_seq (ps ! i) = snd_nxt b + of_nat (i * m) \<and>
        p_flags (ps ! i) = (if Suc i = length ps then flags OR PSH else flags))"

lemma unat_small: "n \<le> unat (w :: u32) \<Longrightarrow> unat (of_nat n :: u32) = n"
  by (metis le_unat_uoi)

lemma send_one_data:
  assumes "s_flags seg AND ACK \<noteq> 0"
  shows "send_one seg b = (seg, Tcp_send (remoteIp b) (localPort b) (remotePort b) (s_seq seg) (s_ack seg) (s_flags seg)
    (ucast (s_wnd seg)) (s_nBytes seg) (s_payload seg))"
  using assms by (simp add: send_one_def)

lemma ack_or_psh: "flags AND ACK \<noteq> 0 \<Longrightarrow> (flags OR PSH) AND ACK \<noteq> 0"
  by (simp add: flag_defs bit.conj_disj_distrib2)

lemma send_loop_spec:
  assumes "tcp_mss b \<noteq> 0" "flags AND ACK \<noteq> 0" "offset < length d"
  shows "\<exists>b' ps q. send_loop flags (length d) (Some d) True remaining offset b = Some (b', ps) \<and>
    sent_from b flags (unat (tcp_mss b)) (drop offset d) ps \<and>
    snd_nxt b' = snd_nxt b + of_nat (length d - offset) \<and>
    retransmitQueue b' = retransmitQueue b @ q \<and>
    map (\<lambda>s. (s_seq s, s_payload s)) q = map (\<lambda>p. (p_seq p, Some (p_payload p))) ps \<and>
    currentState b' = currentState b \<and> waitingForTimeout b' = waitingForTimeout b"
  using assms
proof (induction "length d - offset" arbitrary: offset b rule: less_induct)
  case less
  let ?m = "unat (tcp_mss b)"
  have m: "0 < ?m" using less.prems(1) by (simp add: unat_gt_0)
  let ?k = "if offset + ?m \<ge> length d then length d - offset else ?m"
  let ?fl = "if offset + ?m \<ge> length d then flags OR PSH else flags"
  have k: "0 < ?k" "?k \<le> ?m" "offset + ?k \<le> length d" using m less.prems(3) by auto
  define b1 where "b1 = b\<lparr>seg_seq := snd_nxt b, snd_nxt := snd_nxt b + of_nat ?k, snd_wnd := of_nat remaining\<rparr>"
  define seg where "seg = segment_at ?fl (length d) (Some d) offset ?k b1"
  define p where "p = snd (send_one seg b1)"
  define b2 where "b2 = b1\<lparr>retransmitQueue := retransmitQueue b1 @ [seg]\<rparr>"
  have d: "d \<noteq> []" using less.prems(3) by auto
  have fl: "?fl AND ACK \<noteq> 0" using less.prems(2) ack_or_psh by simp
  have seg: "s_seq seg = snd_nxt b" "s_payload seg = Some (take ?k (drop offset d))" "s_flags seg = ?fl"
    "s_nBytes seg = ?k" "s_ack seg = rcv_nxt b"
    using d k(2) by (simp_all add: seg_def segment_at_def b1_def unat_small)
  have one: "send_one seg b1 = (seg, p)" unfolding p_def
    using send_one_data [of seg b1] fl seg(3) by simp
  have p: "p_seq p = snd_nxt b" "p_payload p = take ?k (drop offset d)" "p_flags p = ?fl" "p_ack p = rcv_nxt b"
    using send_one_data [of seg b1] fl seg one by (auto simp: Tcp_send_def)
  have lp: "length (take ?k (drop offset d)) = ?k" using k by simp
  have step: "send_loop flags (length d) (Some d) True remaining offset b =
      (case send_loop ?fl (length d) (Some d) True remaining (offset + ?m) b2 of
         None \<Rightarrow> None | Some (b3, ps) \<Rightarrow> Some (b3, p # ps))"
  proof -
    have "send_chunk flags (length d) (Some d) True remaining offset b = (?fl, b2, p)"
      using d one by (simp add: send_chunk_def Let_def b1_def seg_def b2_def)
    with less.prems(3) d show ?thesis by (subst send_loop.simps) (simp split: option.split)
  qed
  have keep: "tcp_mss b2 = tcp_mss b" "rcv_nxt b2 = rcv_nxt b" "snd_nxt b2 = snd_nxt b + of_nat ?k"
    "retransmitQueue b2 = retransmitQueue b @ [seg]" "currentState b2 = currentState b"
    "waitingForTimeout b2 = waitingForTimeout b" by (simp_all add: b2_def b1_def)
  show ?case
  proof (cases "offset + ?m \<ge> length d")
    case True
    then have "send_loop ?fl (length d) (Some d) True remaining (offset + ?m) b2 = Some (b2, [])"
      using d by (subst send_loop.simps) simp
    with step have "send_loop flags (length d) (Some d) True remaining offset b = Some (b2, [p])" by simp
    moreover have "sent_from b flags ?m (drop offset d) [p]"
      using p True k lp by (auto simp: sent_from_def)
    ultimately show ?thesis using keep True seg p by (intro exI [of _ b2] exI [of _ "[p]"] exI [of _ "[seg]"]) simp
  next
    case False
    then have lt: "length d - (offset + ?m) < length d - offset" "offset + ?m < length d" using m by auto
    have prem: "tcp_mss b2 \<noteq> 0" "?fl AND ACK \<noteq> 0" using keep less.prems(1) fl by simp_all
    from less.hyps [OF lt(1) prem(1) less.prems(2) lt(2)] False keep obtain b' ps q where IH:
      "send_loop ?fl (length d) (Some d) True remaining (offset + ?m) b2 = Some (b', ps)"
      "sent_from b2 flags ?m (drop (offset + ?m) d) ps"
      "snd_nxt b' = snd_nxt b2 + of_nat (length d - (offset + ?m))"
      "retransmitQueue b' = retransmitQueue b2 @ q"
      "map (\<lambda>s. (s_seq s, s_payload s)) q = map (\<lambda>p. (p_seq p, Some (p_payload p))) ps"
      "currentState b' = currentState b" "waitingForTimeout b' = waitingForTimeout b" by auto
    have "sent_from b flags ?m (drop offset d) (p # ps)"
    proof -
      have "concat (map p_payload (p # ps)) = drop offset d"
        using IH(2) p(2) False by (simp add: sent_from_def) (metis append_take_drop_id drop_drop add.commute)
      moreover have "ps \<noteq> []" using IH(2) lt(2) by (auto simp: sent_from_def)
      ultimately show ?thesis using IH(2) p False k lp keep
        by (auto simp: sent_from_def nth_Cons less_Suc_eq_0_disj algebra_simps split: nat.split)
    qed
    moreover have "snd_nxt b' = snd_nxt b + of_nat (length d - offset)"
    proof -
      have "length d - offset = ?m + (length d - (offset + ?m))" using lt(2) by simp
      then have "(of_nat (length d - offset) :: u32) = of_nat ?m + of_nat (length d - (offset + ?m))"
        by (metis of_nat_add)
      with IH(3) keep False show ?thesis by (simp add: algebra_simps)
    qed
    ultimately show ?thesis using step IH keep seg p
      by (intro exI [of _ b'] exI [of _ "p # ps"] exI [of _ "seg # q"]) simp
  qed
qed

text \<open>\<open>sendSegment\<close> cuts the data into consecutive segments of at most \<open>tcp_mss\<close> bytes that
  together are the data, pushes the last one, advances \<open>snd_nxt\<close> by their length and queues exactly
  what it sends.\<close>

theorem sendSegment_correct:
  assumes "tcp_mss b \<noteq> 0" "flags AND ACK \<noteq> 0" "d \<noteq> []"
  shows "\<exists>b' ps q. sendSegment flags (length d) (Some d) True remaining b = Some (b', ps) \<and>
    concat (map p_payload ps) = d \<and>
    (\<forall>p \<in> set ps. 0 < length (p_payload p) \<and> length (p_payload p) \<le> unat (tcp_mss b) \<and> p_ack p = rcv_nxt b) \<and>
    (\<forall>i < length ps. p_seq (ps ! i) = snd_nxt b + of_nat (i * unat (tcp_mss b)) \<and>
       p_flags (ps ! i) = (if Suc i = length ps then flags OR PSH else flags)) \<and>
    snd_nxt b' = snd_nxt b + of_nat (length d) \<and>
    retransmitQueue b' = retransmitQueue b @ q \<and>
    map (\<lambda>s. (s_seq s, s_payload s)) q = map (\<lambda>p. (p_seq p, Some (p_payload p))) ps"
  using send_loop_spec [OF assms(1,2), of 0 d remaining] assms(3)
  unfolding sendSegment_def sent_from_def by auto

abbreviation open_block :: StateBlock where
  "open_block \<equiv> StateBlock_new\<lparr>currentState := ESTABLISHED, snd_nxt := 100, snd_una := 100, rcv_nxt := 50, tcp_mss := 2\<rparr>"

theorem sendSegment_correct_witness:
  "\<exists>b' ps q. sendSegment ACK (length [1 :: u8, 2, 3]) (Some [1, 2, 3]) True 1000 open_block = Some (b', ps) \<and>
    concat (map p_payload ps) = [1, 2, 3] \<and>
    (\<forall>p \<in> set ps. 0 < length (p_payload p) \<and> length (p_payload p) \<le> unat (tcp_mss open_block) \<and> p_ack p = rcv_nxt open_block) \<and>
    (\<forall>i < length ps. p_seq (ps ! i) = snd_nxt open_block + of_nat (i * unat (tcp_mss open_block)) \<and>
       p_flags (ps ! i) = (if Suc i = length ps then ACK OR PSH else ACK)) \<and>
    snd_nxt b' = snd_nxt open_block + of_nat (length [1 :: u8, 2, 3]) \<and>
    retransmitQueue b' = retransmitQueue open_block @ q \<and>
    map (\<lambda>s. (s_seq s, s_payload s)) q = map (\<lambda>p. (p_seq p, Some (p_payload p))) ps"
  by (rule sendSegment_correct) (simp_all add: ACK_def)

text \<open>With a segment size of 0, which the peer can choose in its SYN, sending never ends.\<close>

lemma send_loop_stuck:
  "send_loop flags nBytes payload add remaining offset b = Some r \<Longrightarrow>
     \<not> (tcp_mss b = 0 \<and> offset < (if nBytes = 0 then 1 else nBytes))"
proof (induction flags nBytes payload add remaining offset b r rule: send_loop.raw_induct [rotated, consumes 1, case_names step])
  case (step rec flags nBytes payload add remaining offset b r)
  obtain fl b2 p where c: "send_chunk flags nBytes payload add remaining offset b = (fl, b2, p)"
    by (cases "send_chunk flags nBytes payload add remaining offset b")
  then have "tcp_mss b2 = tcp_mss b" by (auto simp: send_chunk_def Let_def split: prod.splits if_splits)
  show ?case
  proof
    assume z: "tcp_mss b = 0 \<and> offset < (if nBytes = 0 then 1 else nBytes)"
    with step.hyps c obtain r' where "rec fl nBytes payload add remaining offset b2 = Some r'"
      by (auto simp: bind_eq_Some_conv)
    from step.IH [OF this] z \<open>tcp_mss b2 = tcp_mss b\<close> show False by simp
  qed
qed

theorem sendSegment_mss_zero:
  assumes "tcp_mss b = 0"
  shows "sendSegment flags nBytes payload add remaining b = None"
  using send_loop_stuck [of flags nBytes payload add remaining 0 b] assms
  by (cases "sendSegment flags nBytes payload add remaining b") (auto simp: sendSegment_def split: if_splits)

theorem sendSegment_mss_zero_witness:
  "sendSegment ACK 3 (Some [1, 2, 3]) True 1000 (open_block\<lparr>tcp_mss := 0\<rparr>) = None"
  by (rule sendSegment_mss_zero) simp

section \<open>The timer\<close>

text \<open>The timer retransmits only while \<open>waitingForTimeout\<close> is set, and clears it when it fires.\<close>

lemma timer_idle: "\<not> waitingForTimeout b \<Longrightarrow> StateBlock_timer delta b = (b, [], False)"
  by (simp add: StateBlock_timer_def)

lemma timer_state:
  assumes "StateBlock_timer delta b = (b', ps, freed)"
  shows "(currentState b' = currentState b \<or> currentState b = TIME_WAIT \<and> currentState b' = CLOSED \<and> freed) \<and>
    (ps \<noteq> [] \<longrightarrow> \<not> waitingForTimeout b')"
  using assms by (auto simp: StateBlock_timer_def Let_def resetTimer_def split: if_splits list.splits prod.splits)

end
