(* ===== verification/Handle_Tree.thy ===== *)
theory Handle_Tree
  imports AVL_Tree
begin

text \<open>
  \<^verbatim>\<open>Tree<StateBlockHandle, V*>\<close> (\<^verbatim>\<open>modules/system/network-stack/TcpMisc.h\<close> and \<^verbatim>\<open>TcpMisc.cc\<close>), the
  dictionary in which \<open>TcpManager\<close> keeps its connections.  Its rotations and its rebalancing are a
  copy of those of \<^verbatim>\<open>Tree.h\<close>, so their definitions are those of \<open>AVL_Tree\<close>; what is its own are the
  comparisons of handles.  The comparison \<open>>\<close> begins with \<^verbatim>\<open>return true\<close>, so every key is greater
  than every other, and the lemmas below show what this makes of the tree.
\<close>

record StateBlockHandle =
  h_localPort :: u16
  h_remotePort :: u16
  h_remoteIp :: u32
  h_listen :: bool

definition StateBlockHandle_new :: StateBlockHandle where
  "StateBlockHandle_new = \<lparr>h_localPort = 0, h_remotePort = 0, h_remoteIp = 0, h_listen = False\<rparr>"

text \<open>\<open>handle_eq n a\<close> is the code's \<^verbatim>\<open>n == a\<close>; the argument decides which fields are compared.\<close>

definition handle_eq :: "StateBlockHandle \<Rightarrow> StateBlockHandle \<Rightarrow> bool" where
  "handle_eq n a =
     (if h_listen a then (if h_listen n then h_localPort n = h_localPort a else False)
      else h_localPort n = h_localPort a \<and> h_remoteIp n = h_remoteIp a \<and> h_remotePort n = h_remotePort a)"

definition handle_gt :: "StateBlockHandle \<Rightarrow> StateBlockHandle \<Rightarrow> bool" where
  "handle_gt n a = True"

type_synonym 'e handle_tree = "(StateBlockHandle, 'e) Tree"

section \<open>Operations\<close>

fun handle_lookup_node :: "StateBlockHandle \<Rightarrow> (StateBlockHandle, 'e::zero) node \<Rightarrow> 'e" where
  "handle_lookup_node x Null = 0"
| "handle_lookup_node x (Node l k e h r) =
     (if handle_eq k x then e
      else if handle_gt x k then handle_lookup_node x r
      else handle_lookup_node x l)"

definition handle_lookup :: "StateBlockHandle \<Rightarrow> 'e::zero handle_tree \<Rightarrow> 'e" where
  "handle_lookup x t = handle_lookup_node x (root t)"

fun handle_insert_node ::
  "StateBlockHandle \<Rightarrow> 'e \<Rightarrow> (StateBlockHandle, 'e) node \<Rightarrow> (StateBlockHandle, 'e) node option" where
  "handle_insert_node x v Null = Some (Node Null x v 0 Null)"
| "handle_insert_node x v (Node l k e h r) =
     (if handle_gt x k then do { r' \<leftarrow> handle_insert_node x v r; walk_up (Node l k e h r') }
      else do { l' \<leftarrow> handle_insert_node x v l; walk_up (Node l' k e h r) })"

definition handle_insert :: "StateBlockHandle \<Rightarrow> 'e::zero \<Rightarrow> 'e handle_tree \<Rightarrow> 'e handle_tree option" where
  "handle_insert x v t =
     (if handle_lookup x t \<noteq> 0 then Some t
      else do { n \<leftarrow> handle_insert_node x v (root t); Some \<lparr>root = n, nItems = nItems t + 1\<rparr> })"

fun handle_find_node :: "StateBlockHandle \<Rightarrow> (StateBlockHandle, 'e) node \<Rightarrow> bool" where
  "handle_find_node x Null = False"
| "handle_find_node x (Node l k e h r) =
     (if handle_eq k x then True
      else if handle_gt k x then handle_find_node x l
      else handle_find_node x r)"

fun handle_remove_node :: "StateBlockHandle \<Rightarrow> (StateBlockHandle, 'e) node \<Rightarrow> (StateBlockHandle, 'e) node option" where
  "handle_remove_node x Null = None"
| "handle_remove_node x (Node l k e h r) =
     (if handle_eq k x then rotate_down (Node l k e h r)
      else if handle_gt k x then do { l' \<leftarrow> handle_remove_node x l; walk_up (Node l' k e h r) }
      else do { r' \<leftarrow> handle_remove_node x r; walk_up (Node l k e h r') })"

definition handle_remove :: "StateBlockHandle \<Rightarrow> 'e handle_tree \<Rightarrow> 'e handle_tree option" where
  "handle_remove x t =
     (if \<not> handle_find_node x (root t) then Some t
      else do { n \<leftarrow> handle_remove_node x (root t); Some \<lparr>root = n, nItems = nItems t - 1\<rparr> })"

definition handle_clear :: "'e handle_tree \<Rightarrow> 'e handle_tree" where
  "handle_clear t = \<lparr>root = Null, nItems = 0\<rparr>"

text \<open>The copy constructor and the assignment insert the nodes of the other tree, each before its
  children.\<close>

fun handle_traverse_insert :: "(StateBlockHandle, 'e::zero) node \<Rightarrow> 'e handle_tree \<Rightarrow> 'e handle_tree option" where
  "handle_traverse_insert Null t = Some t"
| "handle_traverse_insert (Node l k e h r) t = do {
     t \<leftarrow> handle_insert k e t;
     t \<leftarrow> handle_traverse_insert l t;
     handle_traverse_insert r t }"

definition handle_copy :: "'e::zero handle_tree \<Rightarrow> 'e handle_tree option" where
  "handle_copy x = handle_traverse_insert (root x) \<lparr>root = Null, nItems = 0\<rparr>"

definition handle_assign :: "'e::zero handle_tree \<Rightarrow> 'e handle_tree \<Rightarrow> 'e handle_tree option" where
  "handle_assign x t = handle_traverse_insert (root x) (handle_clear t)"

section \<open>What the comparisons make of the tree\<close>

lemma handle_gt [simp]: "handle_gt x y"
  by (simp add: handle_gt_def)

lemma handle_eq_refl [simp]: "handle_eq x x"
  by (simp add: handle_eq_def)

lemma handle_eq_connected: "\<not> h_listen a \<Longrightarrow> \<not> h_listen b \<Longrightarrow> handle_eq a b \<longleftrightarrow> a = b"
  by (auto simp: handle_eq_def)

text \<open>Only the right spine is ever searched by \<open>lookup\<close>, and only the left spine by \<open>remove\<close>.\<close>

fun right_spine :: "('k, 'e) node \<Rightarrow> ('k \<times> 'e) list" where
  "right_spine Null = []"
| "right_spine (Node l k e h r) = (k, e) # right_spine r"

fun left_spine :: "('k, 'e) node \<Rightarrow> ('k \<times> 'e) list" where
  "left_spine Null = []"
| "left_spine (Node l k e h r) = (k, e) # left_spine l"

lemma handle_lookup_spine:
  "handle_lookup_node x n = (case find (\<lambda>(k, e). handle_eq k x) (right_spine n) of None \<Rightarrow> 0 | Some (k, e) \<Rightarrow> e)"
  by (induction n) auto

lemma handle_find_spine: "handle_find_node x n \<longleftrightarrow> (\<exists>(k, e) \<in> set (left_spine n). handle_eq k x)"
  by (induction n) auto

text \<open>The trees that one, two and three insertions build.\<close>

definition empty_tree :: "'e handle_tree" where
  "empty_tree = \<lparr>root = Null, nItems = 0\<rparr>"

abbreviation one_tree :: "StateBlockHandle \<Rightarrow> 'e \<Rightarrow> 'e handle_tree" where
  "one_tree a u \<equiv> \<lparr>root = Node Null a u 0 Null, nItems = 1\<rparr>"

lemma insert_one [simp]: "handle_insert a u empty_tree = Some (one_tree a u)"
  by (simp add: handle_insert_def handle_lookup_def empty_tree_def)

lemma insert_two:
  "\<not> handle_eq a b \<Longrightarrow>
     handle_insert b v (one_tree a u) = Some \<lparr>root = Node Null a u 0 (Node Null b v 1 Null), nItems = 2\<rparr>"
  by (simp add: handle_insert_def handle_lookup_def walk_up.simps Let_def)

lemma insert_three:
  "\<not> handle_eq a c \<Longrightarrow> \<not> handle_eq b c \<Longrightarrow>
     \<exists>n. handle_insert c w \<lparr>root = Node Null a u 0 (Node Null b v 1 Null), nItems = 2\<rparr> = Some \<lparr>root = n, nItems = 3\<rparr> \<and>
       right_spine n = [(b, v), (c, w)]"
  by (simp add: handle_insert_def handle_lookup_def walk_up.simps Let_def Tree_rebalanceNode_def)

section \<open>Properties\<close>

text \<open>With three connections the first one is lost: the insertion of the third rotates it into
  the left subtree, where \<open>lookup\<close> never goes, although the tree counts three items.\<close>

theorem handle_tree_forgets:
  assumes "\<not> h_listen a" "\<not> h_listen b" "\<not> h_listen c" "a \<noteq> b" "a \<noteq> c" "b \<noteq> c"
  shows "\<exists>t1 t2 t3. handle_insert a u empty_tree = Some t1 \<and> handle_insert b v t1 = Some t2 \<and>
    handle_insert c w t2 = Some t3 \<and> Tree_count t3 = 3 \<and>
    handle_lookup a t2 = u \<and> handle_lookup b t2 = v \<and>
    handle_lookup a t3 = 0 \<and> handle_lookup b t3 = v \<and> handle_lookup c t3 = w"
proof -
  have ne: "\<not> handle_eq a b" "\<not> handle_eq a c" "\<not> handle_eq b c" "\<not> handle_eq b a" "\<not> handle_eq c a" "\<not> handle_eq c b"
    using assms by (auto simp: handle_eq_connected)
  obtain n where n: "handle_insert c w \<lparr>root = Node Null a u 0 (Node Null b v 1 Null), nItems = 2\<rparr> = Some \<lparr>root = n, nItems = 3\<rparr>"
    "right_spine n = [(b, v), (c, w)]" using insert_three [OF ne(2,3)] by blast
  with ne insert_two [OF ne(1), where u = u and v = v] show ?thesis
    by (simp add: handle_lookup_def handle_lookup_spine Tree_count_def)
qed

abbreviation conn :: "u16 \<Rightarrow> StateBlockHandle" where
  "conn p \<equiv> \<lparr>h_localPort = 80, h_remotePort = p, h_remoteIp = 0x0A000001, h_listen = False\<rparr>"

theorem handle_tree_forgets_witness:
  "\<exists>t1 t2 t3. handle_insert (conn 1001) (7 :: nat) empty_tree = Some t1 \<and> handle_insert (conn 1002) 8 t1 = Some t2 \<and>
    handle_insert (conn 1003) 9 t2 = Some t3 \<and> Tree_count t3 = 3 \<and>
    handle_lookup (conn 1001) t2 = 7 \<and> handle_lookup (conn 1002) t2 = 8 \<and>
    handle_lookup (conn 1001) t3 = 0 \<and> handle_lookup (conn 1002) t3 = 8 \<and> handle_lookup (conn 1003) t3 = 9"
  by (rule handle_tree_forgets) simp_all

text \<open>With two connections the second one cannot be removed: \<open>remove\<close> looks for it in the left
  subtree of the first, and returns with the entry still in the tree.\<close>

theorem handle_tree_keeps:
  assumes "\<not> h_listen a" "\<not> h_listen b" "a \<noteq> b"
  shows "\<exists>t1 t2. handle_insert a u empty_tree = Some t1 \<and> handle_insert b v t1 = Some t2 \<and>
    handle_remove b t2 = Some t2 \<and> handle_lookup b t2 = v"
proof -
  have "\<not> handle_eq a b" using assms by (simp add: handle_eq_connected)
  then show ?thesis
    using insert_two [of a b v u] by (simp add: handle_remove_def handle_lookup_def)
qed

theorem handle_tree_keeps_witness:
  "\<exists>t1 t2. handle_insert (conn 1001) (7 :: nat) empty_tree = Some t1 \<and> handle_insert (conn 1002) 8 t1 = Some t2 \<and>
    handle_remove (conn 1002) t2 = Some t2 \<and> handle_lookup (conn 1002) t2 = 8"
  by (rule handle_tree_keeps) simp_all

end
