(* ===== verification/Extensible_Bitmap.thy ===== *)
theory Extensible_Bitmap
  imports Pedigree_Prelude "HOL-Library.Monad_Syntax"
begin

unbundle bit_operations_syntax

text \<open>
  \<open>ExtensibleBitmap\<close> (\<^verbatim>\<open>system/include/utilities/ExtensibleBitmap.h\<close>,
  \<^verbatim>\<open>system/kernel/utilities/ExtensibleBitmap.cc\<close>): a bitmap whose first 64 bits are in a word and
  whose others are in memory that grows.  The model is the 64-bit kernel.  The code writes the bit of
  the word as \<^verbatim>\<open>1 << n\<close>, a shift of a 32-bit \<open>int\<close>: the processor takes the count modulo 32, and the
  result is extended with its sign when it is combined with the 64-bit word.
\<close>

record ExtensibleBitmap =
  m_StaticMap :: u64
  m_pDynamicMap :: "u8 list option"
  m_DynamicMapSize :: nat
  m_nMaxBit :: nat
  m_nFirstSetBit :: nat
  m_nFirstClearBit :: nat
  m_nLastSetBit :: nat
  m_nLastClearBit :: nat

definition ExtensibleBitmap_new :: ExtensibleBitmap where
  "ExtensibleBitmap_new =
     \<lparr>m_StaticMap = 0, m_pDynamicMap = None, m_DynamicMapSize = 0, m_nMaxBit = 0,
      m_nFirstSetBit = 0, m_nFirstClearBit = 0, m_nLastSetBit = 0, m_nLastClearBit = 0\<rparr>"

definition int_bit :: "nat \<Rightarrow> 32 word" where
  "int_bit n = push_bit (n mod 32) 1"

definition byte_bit :: "nat \<Rightarrow> u8" where
  "byte_bit n = push_bit (n mod 8) 1"

section \<open>Operations\<close>

definition ExtensibleBitmap_test :: "nat \<Rightarrow> ExtensibleBitmap \<Rightarrow> bool" where
  "ExtensibleBitmap_test n b =
     (if n < 64 then m_StaticMap b AND scast (int_bit n) \<noteq> 0
      else
        (let n = n - 64
         in case m_pDynamicMap b of
              None \<Rightarrow> False
            | Some bytes \<Rightarrow> if n > m_nMaxBit b then False else bytes ! (n div 8) AND byte_bit n \<noteq> 0))"

lemma test_bound: "ExtensibleBitmap_test i b \<Longrightarrow> i \<le> 64 + m_nMaxBit b"
  by (auto simp: ExtensibleBitmap_test_def Let_def split: option.splits if_splits)

text \<open>The search for the next clear bit, which \<open>set\<close> and \<open>getFirstClear\<close> make.\<close>

function next_clear :: "ExtensibleBitmap \<Rightarrow> nat \<Rightarrow> nat" where
  "next_clear b i = (if ExtensibleBitmap_test i b then next_clear b (i + 1) else i)"
  by auto
termination next_clear
  by (relation "measure (\<lambda>(b, i). 65 + m_nMaxBit b - i)") (auto dest: test_bound)

declare next_clear.simps [simp del]

text \<open>Setting a bit of the dynamic map; \<open>grow\<close> makes room for it first.\<close>

definition grow :: "nat \<Rightarrow> ExtensibleBitmap \<Rightarrow> ExtensibleBitmap" where
  "grow n b =
     (if n div 8 \<ge> m_DynamicMapSize b
      then
        (let sz = n div 8 + 8;
             old = (case m_pDynamicMap b of Some bytes \<Rightarrow> take (m_DynamicMapSize b) bytes | None \<Rightarrow> [])
         in b\<lparr>m_pDynamicMap := Some (old @ replicate (sz - length old) 0), m_DynamicMapSize := sz\<rparr>)
      else b)"

definition set_dynamic :: "nat \<Rightarrow> ExtensibleBitmap \<Rightarrow> ExtensibleBitmap" where
  "set_dynamic n b =
     (let b = grow n b;
          b = b\<lparr>m_pDynamicMap := map_option (\<lambda>bytes. bytes[n div 8 := bytes ! (n div 8) OR byte_bit n]) (m_pDynamicMap b)\<rparr>
      in if n > m_nMaxBit b then b\<lparr>m_nMaxBit := n\<rparr> else b)"

text \<open>How \<open>set\<close> and \<open>clear\<close> keep the first and last positions; they do it before they touch the
  map.\<close>

definition note_set :: "nat \<Rightarrow> ExtensibleBitmap \<Rightarrow> ExtensibleBitmap" where
  "note_set n b =
     (let b = (if n < m_nFirstSetBit b then b\<lparr>m_nFirstSetBit := n\<rparr> else b);
          b = (if n > m_nLastSetBit b then b\<lparr>m_nLastSetBit := n\<rparr> else b)
      in if n = m_nFirstClearBit b then b\<lparr>m_nFirstClearBit := next_clear b (n + 1)\<rparr> else b)"

definition ExtensibleBitmap_set :: "nat \<Rightarrow> ExtensibleBitmap \<Rightarrow> ExtensibleBitmap" where
  "ExtensibleBitmap_set n b =
     (let b = note_set n b
      in if n < 64 then b\<lparr>m_StaticMap := m_StaticMap b OR scast (int_bit n)\<rparr>
         else set_dynamic (n - 64) b)"

text \<open>The two searches of \<open>clear\<close>, which it makes before it clears the bit.\<close>

fun search_up :: "ExtensibleBitmap \<Rightarrow> nat \<Rightarrow> nat \<Rightarrow> nat option" where
  "search_up b i 0 = None"
| "search_up b i (Suc k) = (if ExtensibleBitmap_test i b then Some i else search_up b (i + 1) k)"

fun search_down :: "ExtensibleBitmap \<Rightarrow> nat \<Rightarrow> nat option" where
  "search_down b 0 = None"
| "search_down b (Suc i) = (if ExtensibleBitmap_test (Suc i) b then Some (Suc i) else search_down b i)"

definition note_clear :: "nat \<Rightarrow> ExtensibleBitmap \<Rightarrow> ExtensibleBitmap" where
  "note_clear n b =
     (let b = (if n < m_nFirstClearBit b then b\<lparr>m_nFirstClearBit := n\<rparr> else b);
          b = (if n = m_nFirstSetBit b
               then (case search_up b n (65 + m_nMaxBit b - n) of Some i \<Rightarrow> b\<lparr>m_nFirstSetBit := i\<rparr> | None \<Rightarrow> b)
               else b)
      in if n = m_nLastSetBit b
         then (case search_down b n of Some i \<Rightarrow> b\<lparr>m_nLastSetBit := i\<rparr> | None \<Rightarrow> b\<lparr>m_nLastSetBit := 0\<rparr>)
         else b)"

text \<open>\<open>clear\<close> is \<open>None\<close> where the code writes through a null pointer.\<close>

definition ExtensibleBitmap_clear :: "nat \<Rightarrow> ExtensibleBitmap \<Rightarrow> ExtensibleBitmap option" where
  "ExtensibleBitmap_clear n b =
     (let b = note_clear n b
      in if n < 64 then Some (b\<lparr>m_StaticMap := m_StaticMap b AND scast (NOT (int_bit n))\<rparr>)
         else
           (let n = n - 64
            in if n > m_nMaxBit b then Some b
               else case m_pDynamicMap b of
                      None \<Rightarrow> None
                    | Some bytes \<Rightarrow>
                        Some (b\<lparr>m_pDynamicMap := Some (bytes[n div 8 := bytes ! (n div 8) AND NOT (byte_bit n)])\<rparr>)))"

definition getFirstSet :: "ExtensibleBitmap \<Rightarrow> nat" where
  "getFirstSet b = m_nFirstSetBit b"

definition getLastSet :: "ExtensibleBitmap \<Rightarrow> nat" where
  "getLastSet b = m_nLastSetBit b"

definition getLastClear :: "ExtensibleBitmap \<Rightarrow> nat" where
  "getLastClear b = m_nLastClearBit b"

definition getFirstClear :: "ExtensibleBitmap \<Rightarrow> nat \<times> ExtensibleBitmap" where
  "getFirstClear b = (let i = next_clear b (m_nFirstClearBit b) in (i, b\<lparr>m_nFirstClearBit := i\<rparr>))"

text \<open>The copy constructor and the assignment; the memory of the copy is exactly as long as that of
  the original, or stays longer in an assignment.\<close>

definition ExtensibleBitmap_copy :: "ExtensibleBitmap \<Rightarrow> ExtensibleBitmap" where
  "ExtensibleBitmap_copy other =
     other\<lparr>m_pDynamicMap := Some (case m_pDynamicMap other of Some bytes \<Rightarrow> take (m_DynamicMapSize other) bytes | None \<Rightarrow> [])\<rparr>"

definition ExtensibleBitmap_assign :: "ExtensibleBitmap \<Rightarrow> ExtensibleBitmap \<Rightarrow> ExtensibleBitmap" where
  "ExtensibleBitmap_assign other b =
     (let mine = (if m_DynamicMapSize b < m_DynamicMapSize other then Some (replicate (m_DynamicMapSize other) 0)
                  else m_pDynamicMap b);
          theirs = (case m_pDynamicMap other of Some bytes \<Rightarrow> take (m_DynamicMapSize other) bytes | None \<Rightarrow> [])
      in other\<lparr>m_DynamicMapSize := max (m_DynamicMapSize b) (m_DynamicMapSize other),
               m_pDynamicMap := (if m_DynamicMapSize other \<noteq> 0
                                 then map_option (\<lambda>bytes. theirs @ drop (length theirs) bytes) mine else mine)\<rparr>)"

section \<open>Bits\<close>

lemma scast_int_bit: "n < 31 \<Longrightarrow> (scast (int_bit n) :: u64) = push_bit n 1"
  by (rule bit_word_eqI) (auto simp: int_bit_def bit_simps)

lemma word_bit_test: "(w AND push_bit n 1 \<noteq> 0) = bit w n" if "n < LENGTH('a)" for w :: "'a::len word"
  by (simp add: bit_iff_and_push_bit_not_eq_0)

lemma byte_bit_test: "(w AND byte_bit n \<noteq> 0) = bit w (n mod 8)"
  using word_bit_test [of "n mod 8" w] by (simp add: byte_bit_def)

definition map_bit :: "u8 list \<Rightarrow> nat \<Rightarrow> bool" where
  "map_bit bytes n = bit (bytes ! (n div 8)) (n mod 8)"

definition bitmap_ok :: "ExtensibleBitmap \<Rightarrow> bool" where
  "bitmap_ok b \<longleftrightarrow>
     (case m_pDynamicMap b of
        None \<Rightarrow> m_DynamicMapSize b = 0 \<and> m_nMaxBit b = 0
      | Some bytes \<Rightarrow> length bytes = m_DynamicMapSize b \<and> m_nMaxBit b div 8 < m_DynamicMapSize b \<and>
          (\<forall>k < 8 * m_DynamicMapSize b. m_nMaxBit b < k \<longrightarrow> \<not> map_bit bytes k))"

text \<open>The bit numbers for which the shift is right.\<close>

definition sound_bit :: "nat \<Rightarrow> bool" where
  "sound_bit n \<longleftrightarrow> n < 31 \<or> 64 \<le> n"

lemma test_static: "n < 31 \<Longrightarrow> ExtensibleBitmap_test n b = bit (m_StaticMap b) n"
  by (simp add: ExtensibleBitmap_test_def scast_int_bit bit_iff_and_push_bit_not_eq_0)

definition dynamic_bit :: "ExtensibleBitmap \<Rightarrow> nat \<Rightarrow> bool" where
  "dynamic_bit b n \<longleftrightarrow>
     (case m_pDynamicMap b of None \<Rightarrow> False | Some bytes \<Rightarrow> n \<le> m_nMaxBit b \<and> map_bit bytes n)"

lemma test_dynamic: "64 \<le> n \<Longrightarrow> ExtensibleBitmap_test n b = dynamic_bit b (n - 64)"
  by (auto simp: ExtensibleBitmap_test_def dynamic_bit_def map_bit_def Let_def byte_bit_test split: option.split)

lemma bit_byte_bit: "m < 8 \<Longrightarrow> bit (byte_bit n) m \<longleftrightarrow> m = n mod 8"
  by (auto simp: byte_bit_def bit_simps)

lemma same_byte: "m div 8 = n div 8 \<Longrightarrow> m mod 8 = n mod 8 \<longleftrightarrow> m = (n :: nat)"
  by (metis mult_div_mod_eq)

lemma map_bit_or:
  "n div 8 < length bytes \<Longrightarrow>
     map_bit (bytes[n div 8 := bytes ! (n div 8) OR byte_bit n]) m \<longleftrightarrow> m = n \<or> map_bit bytes m"
  using same_byte [of m n] by (cases "m div 8 = n div 8") (auto simp: map_bit_def bit_or_iff bit_byte_bit)

lemma map_bit_and:
  "n div 8 < length bytes \<Longrightarrow>
     map_bit (bytes[n div 8 := bytes ! (n div 8) AND NOT (byte_bit n)]) m \<longleftrightarrow> m \<noteq> n \<and> map_bit bytes m"
  using same_byte [of m n] by (cases "m div 8 = n div 8") (auto simp: map_bit_def bit_and_iff bit_not_iff bit_byte_bit)

lemma map_bit_append:
  "map_bit (bytes @ replicate k 0) m \<longleftrightarrow> m div 8 < length bytes \<and> map_bit bytes m"
  if "m div 8 < length bytes + k"
  using that by (auto simp: map_bit_def nth_append)

lemma grow_ok:
  assumes "bitmap_ok b"
  shows "\<exists>bytes. m_pDynamicMap (grow n b) = Some bytes \<and> length bytes = m_DynamicMapSize (grow n b) \<and>
    n div 8 < length bytes \<and> m_nMaxBit b div 8 < length bytes \<and>
    (\<forall>k < 8 * length bytes. map_bit bytes k \<longleftrightarrow> dynamic_bit b k)"
proof (cases "m_pDynamicMap b")
  case None
  with assms show ?thesis by (auto simp: grow_def bitmap_ok_def dynamic_bit_def map_bit_def Let_def)
next
  case (Some bytes)
  with assms have ok: "length bytes = m_DynamicMapSize b" "m_nMaxBit b div 8 < m_DynamicMapSize b"
    "\<And>k. k < 8 * m_DynamicMapSize b \<Longrightarrow> m_nMaxBit b < k \<Longrightarrow> \<not> map_bit bytes k"
    by (auto simp: bitmap_ok_def)
  have dyn: "map_bit bytes k \<longleftrightarrow> dynamic_bit b k" if "k < 8 * length bytes" for k
    using ok(3) [of k] that Some ok(1) by (auto simp: dynamic_bit_def not_le [symmetric])
  show ?thesis
  proof (cases "n div 8 \<ge> m_DynamicMapSize b")
    case True
    let ?new = "bytes @ replicate (n div 8 + 8 - length bytes) 0"
    have "map_bit ?new k \<longleftrightarrow> dynamic_bit b k" if "k < 8 * length ?new" for k
    proof (cases "k < 8 * length bytes")
      case t: True
      with map_bit_append [of k bytes "n div 8 + 8 - length bytes"] dyn [OF t] that show ?thesis by auto
    next
      case False
      then have "\<not> k div 8 < length bytes" by (simp add: not_less less_eq_div_iff_mult_less_eq mult.commute)
      moreover from False have "\<not> k \<le> m_nMaxBit b" using ok(1,2) by auto
      ultimately show ?thesis using map_bit_append [of k bytes "n div 8 + 8 - length bytes"] that Some
        by (auto simp: dynamic_bit_def)
    qed
    with True Some ok(1,2) show ?thesis by (auto simp: grow_def Let_def)
  next
    case False
    with Some ok dyn show ?thesis by (auto simp: grow_def)
  qed
qed

lemma set_dynamic_ok:
  assumes "bitmap_ok b"
  shows "bitmap_ok (set_dynamic n b) \<and> (\<forall>m. dynamic_bit (set_dynamic n b) m \<longleftrightarrow> m = n \<or> dynamic_bit b m)"
proof -
  obtain bytes where g: "m_pDynamicMap (grow n b) = Some bytes" "length bytes = m_DynamicMapSize (grow n b)"
    "n div 8 < length bytes" "m_nMaxBit b div 8 < length bytes"
    "\<And>k. k < 8 * length bytes \<Longrightarrow> map_bit bytes k \<longleftrightarrow> dynamic_bit b k"
    using grow_ok [OF assms, of n] by blast
  have mx: "m_nMaxBit (grow n b) = m_nMaxBit b" by (simp add: grow_def Let_def)
  have dle: "dynamic_bit b k \<Longrightarrow> k \<le> m_nMaxBit b" for k by (auto simp: dynamic_bit_def split: option.splits)
  define c where "c = set_dynamic n b"
  have c: "m_pDynamicMap c = Some (bytes[n div 8 := bytes ! (n div 8) OR byte_bit n])"
    "m_DynamicMapSize c = length bytes" "m_nMaxBit c = max n (m_nMaxBit b)"
    using g(1,2) mx by (auto simp: c_def set_dynamic_def Let_def)
  have bit: "map_bit (bytes[n div 8 := bytes ! (n div 8) OR byte_bit n]) k \<longleftrightarrow> k = n \<or> dynamic_bit b k"
    if "k < 8 * length bytes" for k
    using map_bit_or [OF g(3)] g(5) that by blast
  have "bitmap_ok c"
    using c bit g(3,4) dle by (fastforce simp: bitmap_ok_def max_def)
  moreover have "dynamic_bit c m \<longleftrightarrow> m = n \<or> dynamic_bit b m" for m
  proof (cases "m < 8 * length bytes")
    case True
    with bit [OF True] c dle [of m] show ?thesis by (auto simp: dynamic_bit_def [of c] max_def)
  next
    case False
    then have "m > m_nMaxBit c" using c(3) g(3,4) by auto
    with False g(3) c dle [of m] show ?thesis by (auto simp: dynamic_bit_def [of c])
  qed
  ultimately show ?thesis by (simp add: c_def)
qed

section \<open>Setting and clearing\<close>

text \<open>The parts of a bitmap that its bits depend on.\<close>

definition same_map :: "ExtensibleBitmap \<Rightarrow> ExtensibleBitmap \<Rightarrow> bool" where
  "same_map b c \<longleftrightarrow> m_StaticMap b = m_StaticMap c \<and> m_pDynamicMap b = m_pDynamicMap c \<and>
     m_DynamicMapSize b = m_DynamicMapSize c \<and> m_nMaxBit b = m_nMaxBit c"

lemma same_map_test: "same_map b c \<Longrightarrow> ExtensibleBitmap_test n b = ExtensibleBitmap_test n c"
  by (simp add: same_map_def ExtensibleBitmap_test_def cong: option.case_cong)

lemma same_map_ok: "same_map b c \<Longrightarrow> bitmap_ok b = bitmap_ok c"
  by (simp add: same_map_def bitmap_ok_def cong: option.case_cong)

lemma same_map_dynamic: "same_map b c \<Longrightarrow> dynamic_bit b k = dynamic_bit c k"
  by (simp add: same_map_def dynamic_bit_def cong: option.case_cong)

lemma next_clear_same: "same_map c b \<Longrightarrow> next_clear c i = next_clear b i"
proof (induction b i rule: next_clear.induct)
  case (1 b i)
  then show ?case by (subst (1 2) next_clear.simps) (simp add: same_map_test)
qed

lemma search_up_same: "same_map c b \<Longrightarrow> search_up c i k = search_up b i k"
  by (induction k arbitrary: i) (simp_all add: same_map_test [of c b])

lemma note_set:
  "same_map (note_set n b) b"
  "m_nFirstClearBit (note_set n b) = (if n = m_nFirstClearBit b then next_clear b (n + 1) else m_nFirstClearBit b)"
  "m_nFirstSetBit (note_set n b) = min n (m_nFirstSetBit b)"
proof -
  let ?b1 = "if n < m_nFirstSetBit b then b\<lparr>m_nFirstSetBit := n\<rparr> else b"
  define b2 where "b2 = (if n > m_nLastSetBit ?b1 then ?b1\<lparr>m_nLastSetBit := n\<rparr> else ?b1)"
  have b2: "same_map b2 b" "m_nFirstClearBit b2 = m_nFirstClearBit b" "m_nFirstSetBit b2 = min n (m_nFirstSetBit b)"
    by (simp_all add: b2_def same_map_def)
  have n: "note_set n b = (if n = m_nFirstClearBit b2 then b2\<lparr>m_nFirstClearBit := next_clear b2 (n + 1)\<rparr> else b2)"
    by (simp add: note_set_def b2_def Let_def)
  show "same_map (note_set n b) b" using b2(1) by (simp add: n same_map_def)
  show "m_nFirstClearBit (note_set n b) = (if n = m_nFirstClearBit b then next_clear b (n + 1) else m_nFirstClearBit b)"
    using b2(2) next_clear_same [OF b2(1)] by (simp add: n)
  show "m_nFirstSetBit (note_set n b) = min n (m_nFirstSetBit b)" using b2(3) by (simp add: n)
qed

lemma note_clear:
  "same_map (note_clear n b) b"
  "m_nFirstSetBit (note_clear n b) = (if n = m_nFirstSetBit b then
     (case search_up b n (65 + m_nMaxBit b - n) of Some i \<Rightarrow> i | None \<Rightarrow> n) else m_nFirstSetBit b)"
proof -
  define b1 where "b1 = (if n < m_nFirstClearBit b then b\<lparr>m_nFirstClearBit := n\<rparr> else b)"
  have b1: "same_map b1 b" "m_nFirstSetBit b1 = m_nFirstSetBit b" by (simp_all add: b1_def same_map_def)
  define b2 where "b2 = (if n = m_nFirstSetBit b1
    then (case search_up b1 n (65 + m_nMaxBit b1 - n) of Some i \<Rightarrow> b1\<lparr>m_nFirstSetBit := i\<rparr> | None \<Rightarrow> b1) else b1)"
  have b2: "same_map b2 b" "m_nFirstSetBit b2 = (if n = m_nFirstSetBit b then
     (case search_up b n (65 + m_nMaxBit b - n) of Some i \<Rightarrow> i | None \<Rightarrow> n) else m_nFirstSetBit b)"
    using b1 search_up_same [OF b1(1)] by (auto simp: b2_def same_map_def split: option.split)
  have n: "note_clear n b = (if n = m_nLastSetBit b2
    then (case search_down b2 n of Some i \<Rightarrow> b2\<lparr>m_nLastSetBit := i\<rparr> | None \<Rightarrow> b2\<lparr>m_nLastSetBit := 0\<rparr>) else b2)"
    by (simp only: note_clear_def b1_def b2_def Let_def)
  show "same_map (note_clear n b) b" using b2(1) by (auto simp: n same_map_def split: option.split)
  show "m_nFirstSetBit (note_clear n b) = (if n = m_nFirstSetBit b then
     (case search_up b n (65 + m_nMaxBit b - n) of Some i \<Rightarrow> i | None \<Rightarrow> n) else m_nFirstSetBit b)"
    using b2(2) by (simp add: n split: option.split)
qed

lemma static_only:
  "bitmap_ok (b\<lparr>m_StaticMap := w\<rparr>) = bitmap_ok b" "dynamic_bit (b\<lparr>m_StaticMap := w\<rparr>) k = dynamic_bit b k"
  by (simp_all add: bitmap_ok_def dynamic_bit_def cong: option.case_cong)

lemma set_eq:
  "ExtensibleBitmap_set n b =
     (if n < 64 then (note_set n b)\<lparr>m_StaticMap := m_StaticMap b OR scast (int_bit n)\<rparr>
      else set_dynamic (n - 64) (note_set n b))"
  using note_set(1) [of n b] by (simp add: ExtensibleBitmap_set_def Let_def same_map_def)

lemma clear_eq:
  "ExtensibleBitmap_clear n b =
     (if n < 64 then Some ((note_clear n b)\<lparr>m_StaticMap := m_StaticMap b AND scast (NOT (int_bit n))\<rparr>)
      else if n - 64 > m_nMaxBit b then Some (note_clear n b)
      else case m_pDynamicMap b of
             None \<Rightarrow> None
           | Some bytes \<Rightarrow> Some ((note_clear n b)\<lparr>m_pDynamicMap :=
               Some (bytes[(n - 64) div 8 := bytes ! ((n - 64) div 8) AND NOT (byte_bit (n - 64))])\<rparr>))"
  using note_clear(1) [of n b] by (simp add: ExtensibleBitmap_clear_def Let_def same_map_def cong: option.case_cong)

lemma set_dynamic_keeps:
  "m_StaticMap (set_dynamic n b) = m_StaticMap b" "m_nFirstClearBit (set_dynamic n b) = m_nFirstClearBit b"
  "m_nFirstSetBit (set_dynamic n b) = m_nFirstSetBit b"
  by (simp_all add: set_dynamic_def grow_def Let_def)

lemma int_bit_nonzero: "(scast (int_bit n) :: u64) \<noteq> 0"
proof -
  have "bit (scast (int_bit n) :: u64) (n mod 32)" by (simp add: int_bit_def bit_simps)
  then show ?thesis by auto
qed

lemma set_map:
  assumes "bitmap_ok b"
  shows "bitmap_ok (ExtensibleBitmap_set n b) \<and>
    m_StaticMap (ExtensibleBitmap_set n b) = (if n < 64 then m_StaticMap b OR scast (int_bit n) else m_StaticMap b) \<and>
    (\<forall>k. dynamic_bit (ExtensibleBitmap_set n b) k \<longleftrightarrow> 64 \<le> n \<and> k = n - 64 \<or> dynamic_bit b k)"
  using set_eq [of n b] static_only assms note_set(1) [of n b] same_map_ok [OF note_set(1)]
    same_map_dynamic [OF note_set(1)] set_dynamic_ok [of "note_set n b" "n - 64"]
  by (auto simp: set_dynamic_keeps same_map_def)

lemma set_mono: "bitmap_ok b \<Longrightarrow> ExtensibleBitmap_test i b \<Longrightarrow> ExtensibleBitmap_test i (ExtensibleBitmap_set n b)"
proof -
  assume ok: "bitmap_ok b" and t: "ExtensibleBitmap_test i b"
  show ?thesis
  proof (cases "i < 64")
    case True
    have "w AND v \<noteq> 0 \<Longrightarrow> (w OR u) AND v \<noteq> 0" for u v w :: u64
      by (metis bit.conj_disj_distrib2 or_eq_0_iff)
    with True t set_map [OF ok, of n] show ?thesis by (auto simp: ExtensibleBitmap_test_def)
  qed (use t set_map [OF ok, of n] in \<open>simp add: test_dynamic\<close>)
qed

lemma set_self: "bitmap_ok b \<Longrightarrow> ExtensibleBitmap_test n (ExtensibleBitmap_set n b)"
proof (cases "n < 64")
  case True
  moreover have "(w OR u) AND u = u" for u w :: u64 by (rule bit_word_eqI) (auto simp: bit_simps)
  moreover assume "bitmap_ok b"
  ultimately show ?thesis using set_map [of b n] int_bit_nonzero by (simp add: ExtensibleBitmap_test_def)
qed (use set_map [of b n] in \<open>simp add: test_dynamic\<close>)

lemma new_ok: "bitmap_ok ExtensibleBitmap_new"
  by (simp add: bitmap_ok_def ExtensibleBitmap_new_def)

lemma clear_map:
  assumes "bitmap_ok b" "ExtensibleBitmap_clear n b = Some c"
  shows "bitmap_ok c \<and>
    m_StaticMap c = (if n < 64 then m_StaticMap b AND scast (NOT (int_bit n)) else m_StaticMap b) \<and>
    (\<forall>k. dynamic_bit c k \<longleftrightarrow> \<not> (64 \<le> n \<and> k = n - 64) \<and> dynamic_bit b k)"
proof -
  define d where "d = note_clear n b"
  note d = note_clear(1) [of n b, folded d_def] clear_eq [of n b, folded d_def]
  have dle: "dynamic_bit b k \<Longrightarrow> k \<le> m_nMaxBit b" for k by (auto simp: dynamic_bit_def split: option.splits)
  consider "n < 64" | "64 \<le> n" "n - 64 > m_nMaxBit b" |
    (hit) bytes where "64 \<le> n" "n - 64 \<le> m_nMaxBit b" "m_pDynamicMap b = Some bytes"
    using d(2) assms(2) by (cases "m_pDynamicMap b") (auto split: if_splits)
  then show ?thesis
  proof cases
    case 1
    then have "c = d\<lparr>m_StaticMap := m_StaticMap b AND scast (NOT (int_bit n))\<rparr>" using d(2) assms(2) by simp
    then show ?thesis using 1 same_map_ok [OF d(1)] same_map_dynamic [OF d(1)] assms(1) by (simp add: static_only)
  next
    case 2
    then have "c = d" using d(2) assms(2) by simp
    with 2 d(1) same_map_ok [OF d(1)] same_map_dynamic [OF d(1)] assms(1) dle [of "n - 64"] show ?thesis
      by (auto simp: same_map_def)
  next
    case hit
    let ?n = "n - 64"
    let ?new = "bytes[?n div 8 := bytes ! (?n div 8) AND NOT (byte_bit ?n)]"
    have c: "c = d\<lparr>m_pDynamicMap := Some ?new\<rparr>" using d(2) assms(2) hit by simp
    have ok: "length bytes = m_DynamicMapSize b" "m_nMaxBit b div 8 < m_DynamicMapSize b"
      "\<And>k. k < 8 * m_DynamicMapSize b \<Longrightarrow> m_nMaxBit b < k \<Longrightarrow> \<not> map_bit bytes k"
      using assms(1) hit by (auto simp: bitmap_ok_def)
    have "?n div 8 \<le> m_nMaxBit b div 8" using hit(2) by (rule div_le_mono)
    with ok(1,2) have "?n div 8 < length bytes" by linarith
    note new = map_bit_and [OF this]
    have f: "m_StaticMap c = m_StaticMap b" "m_pDynamicMap c = Some ?new" "m_nMaxBit c = m_nMaxBit b"
      "m_DynamicMapSize c = m_DynamicMapSize b" using d(1) by (simp_all add: c same_map_def)
    have "bitmap_ok c" unfolding bitmap_ok_def f option.case length_list_update new using ok by blast
    moreover have "dynamic_bit c k \<longleftrightarrow> k \<noteq> ?n \<and> dynamic_bit b k" for k
      unfolding dynamic_bit_def f hit(3) option.case new by blast
    ultimately show ?thesis using f(1) hit(1) by auto
  qed
qed

section \<open>Properties\<close>

text \<open>For the bits below 31 and from 64 on, \<open>set\<close> sets exactly the bit it is given and \<open>clear\<close>
  clears exactly that bit, unless it has to go through the null pointer of a bitmap that never had
  a bit above 63.\<close>

theorem ExtensibleBitmap_set_clear:
  assumes "bitmap_ok b" "sound_bit n" "sound_bit m"
  shows "bitmap_ok (ExtensibleBitmap_set n b) \<and>
    (ExtensibleBitmap_test m (ExtensibleBitmap_set n b) \<longleftrightarrow> m = n \<or> ExtensibleBitmap_test m b) \<and>
    (case ExtensibleBitmap_clear n b of
       None \<Rightarrow> n = 64 \<and> m_pDynamicMap b = None
     | Some c \<Rightarrow> bitmap_ok c \<and> (ExtensibleBitmap_test m c \<longleftrightarrow> m \<noteq> n \<and> ExtensibleBitmap_test m b))"
proof (intro conjI)
  show "bitmap_ok (ExtensibleBitmap_set n b)" using set_map [OF assms(1)] by blast
  show "ExtensibleBitmap_test m (ExtensibleBitmap_set n b) \<longleftrightarrow> m = n \<or> ExtensibleBitmap_test m b"
    using set_map [OF assms(1), of n] assms(2,3)
    by (auto simp: sound_bit_def test_static test_dynamic scast_int_bit bit_or_iff bit_exp_iff possible_bit_word)
  show "case ExtensibleBitmap_clear n b of
       None \<Rightarrow> n = 64 \<and> m_pDynamicMap b = None
     | Some c \<Rightarrow> bitmap_ok c \<and> (ExtensibleBitmap_test m c \<longleftrightarrow> m \<noteq> n \<and> ExtensibleBitmap_test m b)"
  proof (cases "ExtensibleBitmap_clear n b")
    case None
    then have "m_pDynamicMap b = None \<and> \<not> n < 64 \<and> \<not> n - 64 > m_nMaxBit b"
      by (simp add: clear_eq split: if_splits option.splits)
    with None assms(1) show ?thesis by (simp add: bitmap_ok_def)
  next
    case (Some c)
    have sc: "bit (scast (NOT (int_bit n)) :: u64) m \<longleftrightarrow> m \<noteq> n" if "n < 31" "m < 31"
      using that by (auto simp: int_bit_def bit_simps)
    note cm = clear_map [OF assms(1) Some]
    have "ExtensibleBitmap_test m c \<longleftrightarrow> m \<noteq> n \<and> ExtensibleBitmap_test m b"
    proof (cases "m < 31")
      case True
      with cm sc assms(2) show ?thesis by (cases "n < 31") (simp_all add: sound_bit_def test_static bit_and_iff, blast)
    next
      case False
      then have m: "64 \<le> m" using assms(3) by (simp add: sound_bit_def)
      have "dynamic_bit c (m - 64) \<longleftrightarrow> \<not> (64 \<le> n \<and> m - 64 = n - 64) \<and> dynamic_bit b (m - 64)" using cm by blast
      moreover have "64 \<le> n \<and> m - 64 = n - 64 \<longleftrightarrow> m = n" using m by auto
      ultimately show ?thesis by (simp add: test_dynamic m)
    qed
    with cm Some show ?thesis by simp
  qed
qed

lemma sample_ok: "bitmap_ok (ExtensibleBitmap_set 70 ExtensibleBitmap_new)"
  using set_map [OF new_ok] by blast

theorem ExtensibleBitmap_set_clear_witness:
  "let b = ExtensibleBitmap_set 70 ExtensibleBitmap_new in bitmap_ok (ExtensibleBitmap_set 65 b) \<and>
    (ExtensibleBitmap_test 70 (ExtensibleBitmap_set 65 b) \<longleftrightarrow> (70 :: nat) = 65 \<or> ExtensibleBitmap_test 70 b) \<and>
    (case ExtensibleBitmap_clear 65 b of
       None \<Rightarrow> (65 :: nat) = 64 \<and> m_pDynamicMap b = None
     | Some c \<Rightarrow> bitmap_ok c \<and> (ExtensibleBitmap_test 70 c \<longleftrightarrow> (70 :: nat) \<noteq> 65 \<and> ExtensibleBitmap_test 70 b))"
  unfolding Let_def by (rule ExtensibleBitmap_set_clear) (simp_all add: sample_ok sound_bit_def)

text \<open>The other bits of the first word are not kept apart: bits 32 apart are the same bit, and
  setting bit 31 sets all the bits from 31 to 63.\<close>

theorem ExtensibleBitmap_alias:
  assumes "bitmap_ok b"
  shows "(\<forall>n < 32. ExtensibleBitmap_test (n + 32) (ExtensibleBitmap_set n b) \<and>
      ExtensibleBitmap_test n (ExtensibleBitmap_set (n + 32) b)) \<and>
    (\<forall>m. 31 \<le> m \<and> m < 64 \<longrightarrow> bit (m_StaticMap (ExtensibleBitmap_set 31 b)) m)"
proof (intro conjI allI impI)
  fix n :: nat assume n: "n < 32"
  have eq: "int_bit (n + 32) = int_bit n" by (simp add: int_bit_def)
  have "ExtensibleBitmap_test (n + 32) c = ExtensibleBitmap_test n c" for c
    using n eq by (simp add: ExtensibleBitmap_test_def)
  with set_self [OF assms] show "ExtensibleBitmap_test (n + 32) (ExtensibleBitmap_set n b)"
    "ExtensibleBitmap_test n (ExtensibleBitmap_set (n + 32) b)" by metis+
next
  fix m :: nat
  show "31 \<le> m \<and> m < 64 \<Longrightarrow> bit (m_StaticMap (ExtensibleBitmap_set 31 b)) m"
  proof -
    assume m: "31 \<le> m \<and> m < 64"
    have "(scast (int_bit 31) :: u64) = NOT (mask 31)" by (simp add: int_bit_def mask_eq_exp_minus_1)
    with m set_map [OF assms, of 31] show ?thesis by (simp add: bit_or_iff bit_not_iff bit_mask_iff)
  qed
qed

theorem ExtensibleBitmap_alias_witness:
  "(\<forall>n < 32. ExtensibleBitmap_test (n + 32) (ExtensibleBitmap_set n ExtensibleBitmap_new) \<and>
      ExtensibleBitmap_test n (ExtensibleBitmap_set (n + 32) ExtensibleBitmap_new)) \<and>
    (\<forall>m. 31 \<le> m \<and> m < 64 \<longrightarrow> bit (m_StaticMap (ExtensibleBitmap_set 31 ExtensibleBitmap_new)) m)"
  by (rule ExtensibleBitmap_alias [OF new_ok])

text \<open>The position of the first set bit is never right: it starts at 0, so no \<open>set\<close> moves it, and
  \<open>clear\<close> looks for its successor while the bit is still set and finds the bit itself.\<close>

theorem ExtensibleBitmap_first_set:
  "getFirstSet (foldl (\<lambda>b n. ExtensibleBitmap_set n b) ExtensibleBitmap_new ns) = 0 \<and>
   (ExtensibleBitmap_test n b \<and> n = getFirstSet b \<and> ExtensibleBitmap_clear n b = Some c \<longrightarrow> getFirstSet c = n)"
proof
  have "m_nFirstSetBit b = 0 \<Longrightarrow> m_nFirstSetBit (ExtensibleBitmap_set n b) = 0" for n b
    by (simp add: set_eq note_set set_dynamic_keeps)
  then show "getFirstSet (foldl (\<lambda>b n. ExtensibleBitmap_set n b) ExtensibleBitmap_new ns) = 0"
    unfolding getFirstSet_def
    by (induction ns rule: rev_induct) (simp_all add: ExtensibleBitmap_new_def)
  show "ExtensibleBitmap_test n b \<and> n = getFirstSet b \<and> ExtensibleBitmap_clear n b = Some c \<longrightarrow> getFirstSet c = n"
  proof
    assume a: "ExtensibleBitmap_test n b \<and> n = getFirstSet b \<and> ExtensibleBitmap_clear n b = Some c"
    then have "n \<le> 64 + m_nMaxBit b" using test_bound by blast
    then obtain k where "65 + m_nMaxBit b - n = Suc k" by (cases "65 + m_nMaxBit b - n") auto
    moreover have "ExtensibleBitmap_test n b" using a by blast
    ultimately have "search_up b n (65 + m_nMaxBit b - n) = Some n" by (simp only: search_up.simps if_True)
    with a show "getFirstSet c = n"
      by (auto simp: getFirstSet_def clear_eq note_clear split: if_splits option.splits)
  qed
qed

text \<open>\<open>getFirstClear\<close> is right as long as bits are only set: it returns the least clear bit.\<close>

definition first_clear_ok :: "ExtensibleBitmap \<Rightarrow> bool" where
  "first_clear_ok b \<longleftrightarrow> bitmap_ok b \<and> (\<forall>i < m_nFirstClearBit b. ExtensibleBitmap_test i b)"

lemma next_clear_least:
  "i \<le> next_clear b i \<and> \<not> ExtensibleBitmap_test (next_clear b i) b \<and>
     (\<forall>j. i \<le> j \<and> j < next_clear b i \<longrightarrow> ExtensibleBitmap_test j b)"
proof (induction b i rule: next_clear.induct)
  case (1 b i)
  show ?case
  proof (cases "ExtensibleBitmap_test i b")
    case True
    then have "next_clear b i = next_clear b (i + 1)" by (subst next_clear.simps) simp
    with 1 [OF True] True show ?thesis by (metis Suc_eq_plus1 Suc_leD Suc_leI le_neq_implies_less)
  next
    case False
    then have "next_clear b i = i" by (subst next_clear.simps) simp
    with False show ?thesis by auto
  qed
qed

lemma first_clear_new: "first_clear_ok ExtensibleBitmap_new"
  by (simp add: first_clear_ok_def new_ok) (simp add: ExtensibleBitmap_new_def)

lemma first_clear_set:
  assumes "first_clear_ok b"
  shows "first_clear_ok (ExtensibleBitmap_set n b)"
proof -
  have ok: "bitmap_ok b" using assms by (simp add: first_clear_ok_def)
  have fc: "m_nFirstClearBit (ExtensibleBitmap_set n b) =
      (if n = m_nFirstClearBit b then next_clear b (n + 1) else m_nFirstClearBit b)"
    by (simp add: set_eq note_set set_dynamic_keeps)
  have "ExtensibleBitmap_test i (ExtensibleBitmap_set n b)" if "i < m_nFirstClearBit (ExtensibleBitmap_set n b)" for i
  proof (cases "i = n")
    case False
    then have "ExtensibleBitmap_test i b"
      using that fc assms next_clear_least [of "n + 1" b]
      by (cases "i < n") (auto simp: first_clear_ok_def split: if_splits)
    then show ?thesis by (rule set_mono [OF ok])
  qed (simp add: set_self [OF ok])
  then show ?thesis using set_map [OF ok] by (simp add: first_clear_ok_def)
qed

lemma first_clear_get:
  assumes "first_clear_ok b" "getFirstClear b = (i, b')"
  shows "first_clear_ok b' \<and> same_map b' b \<and> \<not> ExtensibleBitmap_test i b \<and> (\<forall>j < i. ExtensibleBitmap_test j b)"
proof -
  have s: "same_map b' b" and i: "i = next_clear b (m_nFirstClearBit b)" "m_nFirstClearBit b' = i"
    using assms(2) by (auto simp: getFirstClear_def Let_def same_map_def)
  have all: "\<forall>j < i. ExtensibleBitmap_test j b"
    using assms(1) next_clear_least [of "m_nFirstClearBit b" b] i(1) by (metis first_clear_ok_def not_le)
  with s i assms(1) next_clear_least [of "m_nFirstClearBit b" b] show ?thesis
    by (simp add: first_clear_ok_def same_map_ok [OF s] same_map_test [OF s])
qed

end
