(* ===== verification/Tcp_Manager.thy ===== *)
theory Tcp_Manager
  imports Tcp_State Handle_Tree Extensible_Bitmap
begin

text \<open>
  \<open>TcpManager\<close> (\<^verbatim>\<open>modules/system/network-stack/TcpManager.h\<close>, \<^verbatim>\<open>TcpManager.cc\<close>): the table of
  connections and the calls that applications make through their endpoints.  State blocks and
  endpoints are objects with addresses, 0 being the null pointer; \<open>sent\<close> collects the packets in the
  order they are sent.  An operation is \<open>None\<close> when the code never returns, because it takes the
  lock \<open>m_TcpMutex\<close> that it already holds, or uses an object that is not there.
\<close>

record TcpManager =
  m_NextTcpSequence :: u32
  m_NextConnId :: nat
  m_StateBlocks :: "nat handle_tree"
  m_ListeningStateBlocks :: "nat handle_tree"
  m_CurrentConnections :: "(nat \<times> StateBlockHandle) list"
  m_ListenPorts :: ExtensibleBitmap
  m_EphemeralPorts :: ExtensibleBitmap
  m_TcpMutex :: bool
  tcp_Nanoseconds :: u64
  blocks :: "nat \<Rightarrow> StateBlock option"
  endpoints :: "nat \<Rightarrow> TcpEndpoint option"
  next_object :: nat
  sent :: "packet list"

definition BASE_EPHEMERAL_PORT :: nat where
  "BASE_EPHEMERAL_PORT = 32768"

definition TcpManager_new :: TcpManager where
  "TcpManager_new =
     \<lparr>m_NextTcpSequence = 1, m_NextConnId = 1, m_StateBlocks = empty_tree, m_ListeningStateBlocks = empty_tree,
      m_CurrentConnections = [], m_ListenPorts = ExtensibleBitmap_new,
      m_EphemeralPorts = foldl (\<lambda>b n. ExtensibleBitmap_set n b) ExtensibleBitmap_new [0..<BASE_EPHEMERAL_PORT],
      m_TcpMutex = False, tcp_Nanoseconds = 0, blocks = (\<lambda>_. None), endpoints = (\<lambda>_. None),
      next_object = 1, sent = []\<rparr>"

section \<open>Small operations\<close>

text \<open>Every half second the sequence number moves on.\<close>

definition TcpManager_timer :: "u64 \<Rightarrow> TcpManager \<Rightarrow> TcpManager" where
  "TcpManager_timer delta m =
     (let m = m\<lparr>tcp_Nanoseconds := tcp_Nanoseconds m + delta\<rparr>
      in if tcp_Nanoseconds m > 500000000
         then m\<lparr>tcp_Nanoseconds := 0, m_NextTcpSequence := m_NextTcpSequence m + 64000\<rparr> else m)"

definition getNextSequenceNumber :: "TcpManager \<Rightarrow> u32 \<times> TcpManager" where
  "getNextSequenceNumber m =
     (m_NextTcpSequence m, m\<lparr>m_NextTcpSequence := m_NextTcpSequence m + 64000\<rparr>)"

function unused_id :: "nat list \<Rightarrow> nat \<Rightarrow> nat" where
  "unused_id ids ret = (if ret \<in> set ids then unused_id ids (ret + 1) else ret)"
  by auto
termination unused_id
proof (relation "measure (\<lambda>(ids, ret). card {k \<in> set ids. ret \<le> k})", goal_cases)
  case (2 ids ret)
  have "card {k \<in> set ids. ret + 1 \<le> k} < card {k \<in> set ids. ret \<le> k}"
  proof (intro psubset_card_mono psubsetI)
    have "ret \<in> {k \<in> set ids. ret \<le> k}" using 2 by simp
    moreover have "ret \<notin> {k \<in> set ids. ret + 1 \<le> k}" by simp
    ultimately show "{k \<in> set ids. ret + 1 \<le> k} \<noteq> {k \<in> set ids. ret \<le> k}" by metis
  qed auto
  then show ?case by simp
qed simp

declare unused_id.simps [simp del]

definition getConnId :: "TcpManager \<Rightarrow> nat \<times> TcpManager" where
  "getConnId m =
     (let ret = unused_id (map fst (m_CurrentConnections m)) (m_NextConnId m)
      in (ret, m\<lparr>m_NextConnId := ret + 1\<rparr>))"

definition allocatePort :: "TcpManager \<Rightarrow> u16 \<times> TcpManager" where
  "allocatePort m =
     (let (bit, b) = getFirstClear (m_EphemeralPorts m)
      in if bit > 0xFFFF then (0, m\<lparr>m_EphemeralPorts := b\<rparr>)
         else (of_nat bit, m\<lparr>m_EphemeralPorts := ExtensibleBitmap_set bit b\<rparr>))"

definition connection :: "nat \<Rightarrow> TcpManager \<Rightarrow> StateBlockHandle option" where
  "connection cid m = map_of (m_CurrentConnections m) cid"

text \<open>The address of the block of a connection that is not listening, 0 if there is none; and
  acting on the block there, which must not have been deleted.\<close>

definition find_block :: "nat \<Rightarrow> TcpManager \<Rightarrow> nat" where
  "find_block cid m =
     (case connection cid m of None \<Rightarrow> 0 | Some handle \<Rightarrow> handle_lookup handle (m_StateBlocks m))"

definition with_block ::
  "nat \<Rightarrow> 'a \<Rightarrow> (nat \<Rightarrow> StateBlock \<Rightarrow> TcpManager \<Rightarrow> ('a \<times> TcpManager) option) \<Rightarrow> TcpManager \<Rightarrow> ('a \<times> TcpManager) option" where
  "with_block cid absent body m =
     (let a = find_block cid m in if a = 0 then Some (absent, m) else do { b \<leftarrow> blocks m a; body a b m })"

definition getState :: "nat \<Rightarrow> TcpManager \<Rightarrow> TcpState option" where
  "getState cid m =
     (case connection cid m of
        None \<Rightarrow> Some UNKNOWN
      | Some handle \<Rightarrow>
          let a = handle_lookup handle (m_ListeningStateBlocks m);
              a = (if a = 0 then handle_lookup handle (m_StateBlocks m) else a)
          in if a = 0 then Some UNKNOWN else map_option currentState (blocks m a))"

definition put_block :: "nat \<Rightarrow> StateBlock \<Rightarrow> TcpManager \<Rightarrow> TcpManager" where
  "put_block a b m = m\<lparr>blocks := (blocks m)(a := Some b)\<rparr>"

definition getNumQueuedPackets :: "nat \<Rightarrow> TcpManager \<Rightarrow> (u32 \<times> TcpManager) option" where
  "getNumQueuedPackets cid = with_block cid 0 (\<lambda>a b m. Some (numEndpointPackets b, m))"

definition removeQueuedPackets :: "nat \<Rightarrow> u32 \<Rightarrow> TcpManager \<Rightarrow> (unit \<times> TcpManager) option" where
  "removeQueuedPackets cid n = with_block cid ()
     (\<lambda>a b m. Some ((), put_block a (b\<lparr>numEndpointPackets := numEndpointPackets b - n\<rparr>) m))"

definition put_endpoint :: "nat \<Rightarrow> TcpEndpoint \<Rightarrow> TcpManager \<Rightarrow> TcpManager" where
  "put_endpoint a e m = m\<lparr>endpoints := (endpoints m)(a := Some e)\<rparr>"

definition transmit :: "packet list \<Rightarrow> TcpManager \<Rightarrow> TcpManager" where
  "transmit ps m = m\<lparr>sent := sent m @ ps\<rparr>"

text \<open>A new state block, placed at a fresh address.\<close>

definition new_block :: "StateBlock \<Rightarrow> TcpManager \<Rightarrow> nat \<times> TcpManager" where
  "new_block b m = (next_object m, put_block (next_object m) b (m\<lparr>next_object := next_object m + 1\<rparr>))"

definition new_endpoint :: "TcpEndpoint \<Rightarrow> TcpManager \<Rightarrow> nat \<times> TcpManager" where
  "new_endpoint e m = (next_object m, put_endpoint (next_object m) e (m\<lparr>next_object := next_object m + 1\<rparr>))"

definition TcpManager_getEndpoint :: "u16 \<Rightarrow> TcpManager \<Rightarrow> nat \<times> TcpManager" where
  "TcpManager_getEndpoint lport m =
     (let (p, m) = (if lport = 0 then allocatePort m else (lport, m))
      in if p = 0 then (0, m) else new_endpoint (TcpEndpoint_new 0) m)"

text \<open>\<^verbatim>\<open>LockGuard<Mutex> guard(m_TcpMutex)\<close>: the body runs with the lock held; the lock is not
  recursive.\<close>

definition locked :: "(TcpManager \<Rightarrow> ('a \<times> TcpManager) option) \<Rightarrow> TcpManager \<Rightarrow> ('a \<times> TcpManager) option" where
  "locked body m =
     (if m_TcpMutex m then None
      else do { (r, m') \<leftarrow> body (m\<lparr>m_TcpMutex := True\<rparr>); Some (r, m'\<lparr>m_TcpMutex := False\<rparr>) })"

section \<open>Connections\<close>

definition listen_handle :: "u16 \<Rightarrow> StateBlockHandle" where
  "listen_handle port = StateBlockHandle_new\<lparr>h_localPort := port, h_listen := True\<rparr>"

definition TcpManager_Listen :: "nat \<Rightarrow> u16 \<Rightarrow> bool \<Rightarrow> TcpManager \<Rightarrow> (nat \<times> TcpManager) option" where
  "TcpManager_Listen e port haveCard m =
     (if e = 0 \<or> \<not> haveCard \<or> port = 0 then Some (0, m)
      else if handle_lookup (listen_handle port) (m_StateBlocks m) \<noteq> 0 then Some (0, m)
      else
        (let (cid, m) = getConnId m;
             (a, m') = new_block (StateBlock_new\<lparr>localPort := port, connId := cid, currentState := LISTEN, endpoint := e\<rparr>) m
         in if unat port \<ge> BASE_EPHEMERAL_PORT \<and> ExtensibleBitmap_test (unat port) (m_EphemeralPorts m) then Some (0, m)
            else if ExtensibleBitmap_test (unat port) (m_ListenPorts m) then Some (0, m)
            else do {
              tree \<leftarrow> handle_insert (listen_handle port) a (m_ListeningStateBlocks m');
              Some (cid, m'\<lparr>m_ListenPorts := ExtensibleBitmap_set (unat port) (m_ListenPorts m'),
                               m_ListeningStateBlocks := tree,
                               m_CurrentConnections := (cid, listen_handle port) # m_CurrentConnections m'\<rparr>) }))"

definition peer_handle :: "u16 \<Rightarrow> u32 \<Rightarrow> u16 \<Rightarrow> StateBlockHandle" where
  "peer_handle lport ip rport = \<lparr>h_localPort = lport, h_remotePort = rport, h_remoteIp = ip, h_listen = False\<rparr>"

text \<open>The block that \<open>Connect\<close> sets up, before it is entered in the tables.\<close>

definition connect_block :: "u32 \<Rightarrow> u16 \<Rightarrow> u16 \<Rightarrow> nat \<Rightarrow> nat \<Rightarrow> nat \<Rightarrow> u32 \<Rightarrow> StateBlock" where
  "connect_block ip rport lport ep sz cid seq =
     StateBlock_new\<lparr>localPort := lport, remoteIp := ip, remotePort := rport, connId := cid,
       iss := seq, snd_nxt := seq + 1, snd_una := seq, snd_wnd := of_nat sz, snd_up := 0,
       snd_wl1 := 0, snd_wl2 := 0, currentState := SYN_SENT, endpoint := ep,
       numEndpointPackets := 0, tcp_mss := 1460\<rparr>"

text \<open>\<open>Connect\<close> up to where it waits for the connection; what it returns after the wait is
  \<open>connect_result\<close>.\<close>

definition TcpManager_Connect :: "u32 \<Rightarrow> u16 \<Rightarrow> u16 \<Rightarrow> nat \<Rightarrow> TcpManager \<Rightarrow> (nat \<times> TcpManager) option" where
  "TcpManager_Connect ip rport lport ep m =
     (if ep = 0 \<or> handle_lookup (peer_handle lport ip rport) (m_StateBlocks m) \<noteq> 0 then Some (0, m)
      else do {
        e \<leftarrow> endpoints m ep;
            (let (cid, m) = getConnId m;
                 (seq, m) = getNextSequenceNumber m;
                 b = connect_block ip rport lport ep (TcpBuffer_getSize (m_ShadowDataStream e)) cid seq;
                 (a, m) = new_block b m
             in do {
                  tree \<leftarrow> handle_insert (peer_handle lport ip rport) a (m_StateBlocks m);
                  Some (cid, transmit [Tcp_send ip lport rport (iss b) 0 SYN (ucast (snd_wnd b)) 0 None]
                                  (m\<lparr>m_StateBlocks := tree,
                                     m_CurrentConnections := (cid, peer_handle lport ip rport) # m_CurrentConnections m\<rparr>)) }) })"

definition connect_result :: "bool \<Rightarrow> StateBlock \<Rightarrow> nat" where
  "connect_result timedOut b = (if currentState b \<noteq> ESTABLISHED \<or> timedOut then 0 else connId b)"

text \<open>Sending through the block at address \<open>a\<close>.\<close>

definition block_send :: "u8 \<Rightarrow> nat \<Rightarrow> u8 list option \<Rightarrow> bool \<Rightarrow> nat \<Rightarrow> TcpManager \<Rightarrow> TcpManager option" where
  "block_send flags nBytes payload addToRetransmitQueue a m = do {
     b \<leftarrow> blocks m a;
     e \<leftarrow> endpoints m (endpoint b);
     (b', ps) \<leftarrow> sendSegment flags nBytes payload addToRetransmitQueue (TcpBuffer_getRemainingSize (m_ShadowDataStream e)) b;
     Some (transmit ps (put_block a b' m)) }"

text \<open>Sending a FIN and moving to the next state.\<close>

definition send_fin :: "TcpState \<Rightarrow> nat \<Rightarrow> StateBlock \<Rightarrow> TcpManager \<Rightarrow> TcpManager option" where
  "send_fin newState a b m = do {
     m \<leftarrow> block_send (FIN OR ACK) 0 None True a
           (put_block a (b\<lparr>fin_seq := snd_nxt b, currentState := newState, seg_wnd := 0\<rparr>) m);
     b \<leftarrow> blocks m a;
     Some (put_block a (b\<lparr>snd_nxt := snd_nxt b + 1\<rparr>) m) }"

definition TcpManager_Shutdown :: "nat \<Rightarrow> bool \<Rightarrow> TcpManager \<Rightarrow> (unit \<times> TcpManager) option" where
  "TcpManager_Shutdown connectionId bOnlyStopReceive = locked (with_block connectionId () (\<lambda>a b m.
         if bOnlyStopReceive then Some ((), m)
         else if currentState b = ESTABLISHED then map_option (Pair ()) (send_fin FIN_WAIT_1 a b m)
         else if currentState b = CLOSE_WAIT then map_option (Pair ()) (send_fin LAST_ACK a b m)
         else Some ((), m)))"

text \<open>\<open>removeConn\<close> removes a closed connection and deletes its block.\<close>

definition TcpManager_removeConn :: "nat \<Rightarrow> TcpManager \<Rightarrow> (unit \<times> TcpManager) option" where
  "TcpManager_removeConn cid = locked (\<lambda>m.
     case connection cid m of
       None \<Rightarrow> Some ((), m)
     | Some handle \<Rightarrow>
         let a = (if h_listen handle then handle_lookup handle (m_ListeningStateBlocks m)
                  else handle_lookup handle (m_StateBlocks m))
         in if a = 0 then Some ((), m)
            else do {
              b \<leftarrow> blocks m a;
              if currentState b \<noteq> CLOSED then Some ((), m)
              else do {
                m \<leftarrow> (if h_listen handle
                     then do { t \<leftarrow> handle_remove handle (m_ListeningStateBlocks m); Some (m\<lparr>m_ListeningStateBlocks := t\<rparr>) }
                     else do { t \<leftarrow> handle_remove handle (m_StateBlocks m); Some (m\<lparr>m_StateBlocks := t\<rparr>) });
                Some ((), m\<lparr>m_CurrentConnections := filter (\<lambda>(k, _). k \<noteq> cid) (m_CurrentConnections m),
                           blocks := (blocks m)(a := None)\<rparr>) } })"

definition TcpManager_Disconnect :: "nat \<Rightarrow> TcpManager \<Rightarrow> (unit \<times> TcpManager) option" where
  "TcpManager_Disconnect connectionId = locked (with_block connectionId () (\<lambda>a b m.
         if currentState b = ESTABLISHED then map_option (Pair ()) (send_fin FIN_WAIT_1 a b m)
         else if currentState b = CLOSE_WAIT then map_option (Pair ()) (send_fin LAST_ACK a b m)
         else if currentState b = LISTEN
         then TcpManager_removeConn (connId b) (put_block a (b\<lparr>currentState := CLOSED\<rparr>) m)
         else if currentState b = LAST_ACK then Some ((), m)
         else if currentState b = SYN_SENT
         then do {
           m \<leftarrow> block_send RST 0 None True a m;
           b \<leftarrow> blocks m a;
           TcpManager_removeConn (connId b) (put_block a (b\<lparr>currentState := CLOSED\<rparr>) m) }
         else Some ((), m)))"

definition TcpManager_send :: "nat \<Rightarrow> u8 list option \<Rightarrow> bool \<Rightarrow> nat \<Rightarrow> bool \<Rightarrow> TcpManager \<Rightarrow> (int \<times> TcpManager) option" where
  "TcpManager_send cid payload push nBytes addToRetransmitQueue = locked (\<lambda>m.
     if payload = None \<or> nBytes = 0 then Some (-1, m)
     else with_block cid (-1) (\<lambda>a b m.
         if currentState b \<noteq> ESTABLISHED \<and> currentState b \<noteq> CLOSE_WAIT then Some (-1, m)
         else do {
           m \<leftarrow> block_send (if push then ACK OR PSH else ACK) nBytes payload addToRetransmitQueue a m;
           Some (int nBytes, m) }) m)"

section \<open>Properties\<close>

definition ports_ok :: "TcpManager \<Rightarrow> bool" where
  "ports_ok m \<longleftrightarrow> first_clear_ok (m_EphemeralPorts m) \<and>
     (\<forall>i < BASE_EPHEMERAL_PORT. ExtensibleBitmap_test i (m_EphemeralPorts m))"

lemma foldl_set_ok:
  "first_clear_ok b \<Longrightarrow> first_clear_ok (foldl (\<lambda>b n. ExtensibleBitmap_set n b) b ns) \<and>
     (\<forall>i. i \<in> set ns \<or> ExtensibleBitmap_test i b \<longrightarrow> ExtensibleBitmap_test i (foldl (\<lambda>b n. ExtensibleBitmap_set n b) b ns))"
proof (induction ns arbitrary: b)
  case (Cons n ns)
  have "bitmap_ok b" using Cons.prems by (simp add: first_clear_ok_def)
  with Cons.IH [OF first_clear_set [OF Cons.prems, of n]] set_self [of b n] set_mono [of b _ n] show ?case
    by auto
qed simp

lemma ports_new: "ports_ok TcpManager_new"
  using foldl_set_ok [OF first_clear_new, of "[0..<BASE_EPHEMERAL_PORT]"]
  by (simp add: ports_ok_def TcpManager_new_def)

text \<open>C39: An ephemeral port that \<open>allocatePort\<close> hands out was free, is taken afterwards, and is never
  one of the ports below 32768; ports already taken stay taken.\<close>

theorem allocatePort_fresh:
  assumes "ports_ok m" "allocatePort m = (p, m')" "p \<noteq> 0"
  shows "ports_ok m' \<and> BASE_EPHEMERAL_PORT \<le> unat p \<and> \<not> ExtensibleBitmap_test (unat p) (m_EphemeralPorts m) \<and>
    ExtensibleBitmap_test (unat p) (m_EphemeralPorts m') \<and>
    (\<forall>i. ExtensibleBitmap_test i (m_EphemeralPorts m) \<longrightarrow> ExtensibleBitmap_test i (m_EphemeralPorts m'))"
proof -
  obtain bit b where g: "getFirstClear (m_EphemeralPorts m) = (bit, b)" by fastforce
  have fc: "first_clear_ok b" "same_map b (m_EphemeralPorts m)" "\<not> ExtensibleBitmap_test bit (m_EphemeralPorts m)"
    using first_clear_get [OF _ g] assms(1) by (simp_all add: ports_ok_def)
  have small: "\<not> bit > 0xFFFF" and p: "p = of_nat bit" "m_EphemeralPorts m' = ExtensibleBitmap_set bit b"
    using assms(2,3) g by (auto simp: allocatePort_def split: if_splits)
  then have u: "unat p = bit" by (simp add: unat_of_nat take_bit_eq_mod)
  have ok: "bitmap_ok b" using fc(1) by (simp add: first_clear_ok_def)
  have mono: "ExtensibleBitmap_test i (m_EphemeralPorts m) \<Longrightarrow> ExtensibleBitmap_test i (m_EphemeralPorts m')" for i
    using set_mono [OF ok] p(2) same_map_test [OF fc(2)] by simp
  have "\<not> bit < BASE_EPHEMERAL_PORT" using fc(3) assms(1) by (auto simp: ports_ok_def)
  with mono fc(3) u p(2) set_self [OF ok] first_clear_set [OF fc(1)] assms(1) show ?thesis
    by (auto simp: ports_ok_def)
qed

lemma foldl_dynamic:
  "bitmap_ok b \<Longrightarrow> dynamic_bit (foldl (\<lambda>b n. ExtensibleBitmap_set n b) b ns) k \<longleftrightarrow>
     k + 64 \<in> set ns \<or> dynamic_bit b k"
proof (induction ns arbitrary: b)
  case (Cons n ns)
  have "64 \<le> n \<and> k = n - 64 \<longleftrightarrow> k + 64 = n" by auto
  with Cons set_map [OF Cons.prems, of n] show ?case by auto
qed simp

lemma first_port:
  "\<exists>m'. allocatePort TcpManager_new = (32768, m')"
proof -
  obtain i b where g: "getFirstClear (m_EphemeralPorts TcpManager_new) = (i, b)" by fastforce
  have ok: "first_clear_ok (m_EphemeralPorts TcpManager_new)" using ports_new by (simp add: ports_ok_def)
  have "\<not> ExtensibleBitmap_test 32768 (m_EphemeralPorts TcpManager_new)"
    using foldl_dynamic [OF new_ok, of "[0..<32768]" 32704]
    by (simp add: TcpManager_new_def BASE_EPHEMERAL_PORT_def test_dynamic dynamic_bit_def [of ExtensibleBitmap_new])
      (simp add: ExtensibleBitmap_new_def)
  with first_clear_get [OF ok g] have "i \<le> 32768" by (meson linorder_not_le)
  moreover have "\<not> i < 32768" using first_clear_get [OF ok g] ports_new by (auto simp: ports_ok_def BASE_EPHEMERAL_PORT_def)
  ultimately show ?thesis using g by (simp add: allocatePort_def)
qed

theorem allocatePort_fresh_witness:
  "\<exists>m'. allocatePort TcpManager_new = (32768, m') \<and>
    ports_ok m' \<and> BASE_EPHEMERAL_PORT \<le> unat (32768 :: u16) \<and>
    \<not> ExtensibleBitmap_test (unat (32768 :: u16)) (m_EphemeralPorts TcpManager_new) \<and>
    ExtensibleBitmap_test (unat (32768 :: u16)) (m_EphemeralPorts m') \<and>
    (\<forall>i. ExtensibleBitmap_test i (m_EphemeralPorts TcpManager_new) \<longrightarrow> ExtensibleBitmap_test i (m_EphemeralPorts m'))"
proof -
  obtain m' where m': "allocatePort TcpManager_new = (32768, m')" using first_port by blast
  show ?thesis using m' allocatePort_fresh [OF ports_new m'] by (intro exI [of _ m']) simp
qed

lemma removeConn_locked: "m_TcpMutex m \<Longrightarrow> TcpManager_removeConn cid m = None"
  by (simp add: TcpManager_removeConn_def locked_def)

lemma block_send_mutex: "block_send fl n d q a m = Some m' \<Longrightarrow> m_TcpMutex m' = m_TcpMutex m"
  by (auto simp: block_send_def bind_eq_Some_conv transmit_def put_block_def)

text \<open>Closing an endpoint whose connection is still being set up hangs: \<open>Disconnect\<close> calls
  \<open>removeConn\<close>, which waits for the lock that \<open>Disconnect\<close> holds.\<close>

theorem Disconnect_connecting_hangs:
  assumes "connection cid m = Some h" "handle_lookup h (m_StateBlocks m) = a" "a \<noteq> 0"
    and "blocks m a = Some b" "currentState b = SYN_SENT \<or> currentState b = LISTEN"
  shows "TcpManager_Disconnect cid m = None"
proof (cases "m_TcpMutex m")
  case False
  let ?m = "m\<lparr>m_TcpMutex := True\<rparr>"
  have "find_block cid ?m = a" using assms(1,2) by (simp add: find_block_def connection_def)
  then have "TcpManager_Disconnect cid m =
      (if currentState b = LISTEN
       then TcpManager_removeConn (connId b) (put_block a (b\<lparr>currentState := CLOSED\<rparr>) ?m)
       else do { m \<leftarrow> block_send RST 0 None True a ?m; b \<leftarrow> blocks m a;
              TcpManager_removeConn (connId b) (put_block a (b\<lparr>currentState := CLOSED\<rparr>) m) })
      \<bind> (\<lambda>(r, m'). Some (r, m'\<lparr>m_TcpMutex := False\<rparr>))"
    using assms(3-5) False by (auto simp: TcpManager_Disconnect_def locked_def with_block_def)
  also have "\<dots> = None"
  proof -
    have "TcpManager_removeConn c (put_block a d y) = None" if "m_TcpMutex y" for c d y
      using that by (simp add: removeConn_locked put_block_def)
    moreover have "m_TcpMutex y" if "block_send RST 0 None True a ?m = Some y" for y
      using block_send_mutex [OF that] by simp
    ultimately show ?thesis
      by (cases "block_send RST 0 None True a ?m") (auto simp: bind_eq_None_conv)
  qed
  finally show ?thesis .
qed (simp add: TcpManager_Disconnect_def locked_def)

abbreviation connecting :: TcpManager where
  "connecting \<equiv> TcpManager_new\<lparr>m_StateBlocks := one_tree (peer_handle 4000 9 80) 5,
     m_CurrentConnections := [(1, peer_handle 4000 9 80)],
     blocks := (\<lambda>_. None)(5 := Some (connect_block 9 80 4000 0 100 1 77))\<rparr>"

theorem Disconnect_connecting_hangs_witness:
  "TcpManager_Disconnect 1 connecting = None"
  by (rule Disconnect_connecting_hangs [where h = "peer_handle 4000 9 80" and a = 5 and b = "connect_block 9 80 4000 0 100 1 77"])
    (simp_all add: connection_def handle_lookup_def connect_block_def)

end
