(* ===== verification/Tcp_Receive.thy ===== *)
theory Tcp_Receive
  imports Tcp_Manager
begin

text \<open>
  \<open>TcpManager::receive\<close> (\<^verbatim>\<open>modules/system/network-stack/TcpManagerReceive.cc\<close>): the segment arrival
  processing of RFC 793.  The function is a sequence of stages on the state block of the connection;
  a stage says whether the next one follows, whether the \<^verbatim>\<open>switch\<close> is left, or whether the function
  returns, and is \<open>None\<close> where the code does not return or uses memory it may not use.  \<open>ok\<close> says
  which packets \<open>Tcp::send\<close> finds a route for.
\<close>

record tcp_segment =
  t_from :: u32
  t_srcPort :: u16
  t_destPort :: u16
  t_seq :: u32
  t_ack :: u32
  t_flags :: u8
  t_win :: u16
  t_urg :: u16
  t_offset :: nat
  t_bytes :: "nat \<Rightarrow> u8"
  t_payload :: "u8 list"

text \<open>\<open>Next\<close>: go on; \<open>Break\<close>: leave the switch; \<open>Return\<close>: leave the function.\<close>

datatype flow = Next | Break | Return

record rx =
  mgr :: TcpManager
  address :: nat
  sb :: StateBlock
  acked :: bool

type_synonym stage = "rx \<Rightarrow> (flow \<times> rx) option"

definition then_stage :: "stage \<Rightarrow> stage \<Rightarrow> stage" where
  "then_stage f g x = do { (w, y) \<leftarrow> f x; if w = Next then g y else Some (w, y) }"

text \<open>Sending a packet to where the segment came from; and sending an acknowledgement that is noted
  in \<open>alreadyAck\<close> when it was sent.\<close>

definition reply :: "(packet \<Rightarrow> bool) \<Rightarrow> tcp_segment \<Rightarrow> u32 \<Rightarrow> u32 \<Rightarrow> u8 \<Rightarrow> u16 \<Rightarrow> rx \<Rightarrow> rx" where
  "reply ok s sq ac fl wnd x =
     (let p = Tcp_send (t_from s) (t_destPort s) (t_srcPort s) sq ac fl wnd 0 None
      in if ok p then x\<lparr>mgr := transmit [p] (mgr x)\<rparr> else x)"

definition reply_ack :: "(packet \<Rightarrow> bool) \<Rightarrow> tcp_segment \<Rightarrow> u32 \<Rightarrow> rx \<Rightarrow> rx" where
  "reply_ack ok s ac x =
     (let p = Tcp_send (t_from s) (t_destPort s) (t_srcPort s) (snd_nxt (sb x)) ac ACK (ucast (snd_wnd (sb x))) 0 None
      in if ok p then x\<lparr>mgr := transmit [p] (mgr x), acked := True\<rparr> else x)"

section \<open>The segment\<close>

text \<open>The options of a SYN: the loop reads the byte at the offset before it compares the offset with
  the length of the header, and goes on by the length that the option gives.\<close>

partial_function (option) mss_options :: "(nat \<Rightarrow> u8) \<Rightarrow> nat \<Rightarrow> nat \<Rightarrow> u32 \<Rightarrow> u32 option" where
  "mss_options bytes headerLength offset mss =
     (if bytes offset \<noteq> 0 \<and> offset < headerLength
      then
        (let len = (if bytes offset = 1 then 1 else unat (bytes (offset + 1)));
             mss' = (if bytes offset = 2
                     then push_bit 8 (ucast (bytes (offset + 2))) OR ucast (bytes (offset + 3)) else mss)
         in mss_options bytes headerLength (offset + len) mss')
      else Some mss)"

declare mss_options.simps [code]

definition parse_options :: "tcp_segment \<Rightarrow> u32 \<Rightarrow> u32 option" where
  "parse_options s mss =
     (if flag (t_flags s) SYN \<and> t_offset s * 4 > 20 then mss_options (t_bytes s) (t_offset s * 4) 20 mss
      else Some mss)"

definition fill_segment :: "tcp_segment \<Rightarrow> StateBlock \<Rightarrow> StateBlock" where
  "fill_segment s b =
     b\<lparr>seg_seq := t_seq s, seg_ack := t_ack s, seg_len := of_nat (length (t_payload s)),
       seg_wnd := ucast (t_win s), seg_up := ucast (t_urg s), seg_prc := 0, rcv_wnd := ucast (t_win s)\<rparr>"

definition note_window :: "TcpManager \<Rightarrow> StateBlock \<Rightarrow> StateBlock option" where
  "note_window m b =
     (if endpoint b = 0 then Some b
      else do {
        e \<leftarrow> endpoints m (endpoint b);
        Some (b\<lparr>snd_wnd := of_nat (TcpBuffer_getRemainingSize (m_ShadowDataStream e))\<rparr>) })"

section \<open>CLOSED, LISTEN and SYN-SENT\<close>

definition rx_closed :: "(packet \<Rightarrow> bool) \<Rightarrow> tcp_segment \<Rightarrow> stage" where
  "rx_closed ok s x =
     Some (Return,
       if flag (t_flags s) RST then x
       else if flag (t_flags s) ACK then reply ok s (t_ack s) 0 RST 0 x
       else reply ok s 0 (t_seq s + 1) (RST OR ACK) 0 x)"

text \<open>The block that a SYN to a listening block makes.\<close>

definition accept_block :: "tcp_segment \<Rightarrow> u32 \<Rightarrow> nat \<Rightarrow> u32 \<Rightarrow> StateBlock \<Rightarrow> StateBlock" where
  "accept_block s mss cid sq b =
     StateBlock_new\<lparr>connId := cid, localPort := t_destPort s, remotePort := t_srcPort s, remoteIp := t_from s,
       iss := sq, snd_nxt := sq + 1, snd_una := sq, snd_wnd := 16384, snd_up := 0, snd_wl1 := 0, snd_wl2 := 0,
       irs := seg_seq b, rcv_nxt := seg_seq b + 1, rcv_wnd := seg_wnd b, rcv_up := 0, tcp_mss := mss,
       seg_seq := seg_seq b + 1, currentState := SYN_RECEIVED, endpoint := endpoint b, numEndpointPackets := 0\<rparr>"

definition segment_handle :: "tcp_segment \<Rightarrow> StateBlockHandle" where
  "segment_handle s = peer_handle (t_destPort s) (t_from s) (t_srcPort s)"

definition rx_listen :: "(packet \<Rightarrow> bool) \<Rightarrow> tcp_segment \<Rightarrow> u32 \<Rightarrow> stage" where
  "rx_listen ok s mss x =
     (if flag (t_flags s) RST then Some (Break, x)
      else if flag (t_flags s) ACK then Some (Break, reply ok s (seg_ack (sb x)) 0 RST 0 x)
      else if flag (t_flags s) SYN
      then
        (let (cid, m) = getConnId (mgr x);
             (sq, m) = getNextSequenceNumber m;
             b = accept_block s mss cid sq (sb x);
             (a, m) = new_block b m
         in do {
              tree \<leftarrow> handle_insert (segment_handle s) a (m_StateBlocks m);
              let m = m\<lparr>m_StateBlocks := tree, m_CurrentConnections := (cid, segment_handle s) # m_CurrentConnections m\<rparr>;
              Some (Break, reply ok s (iss b) (rcv_nxt b) (SYN OR ACK) (ucast (snd_wnd b)) (x\<lparr>mgr := m\<rparr>)) })
      else Some (Break, x))"

definition rx_syn_sent :: "(packet \<Rightarrow> bool) \<Rightarrow> tcp_segment \<Rightarrow> u32 \<Rightarrow> stage" where
  "rx_syn_sent ok s mss x =
     (let b = sb x; fl = t_flags s
      in if flag fl ACK \<and> (seg_ack b \<le> iss b \<or> seg_ack b > snd_nxt b) \<and> \<not> flag fl RST
         then Some (Break, reply ok s (seg_ack b) 0 RST 0 x)
         else if flag fl ACK \<and> \<not> (snd_una b \<le> seg_ack b \<and> seg_ack b \<le> snd_nxt b) then Some (Break, x)
         else if flag fl RST \<and> flag fl ACK then Some (Break, x\<lparr>sb := b\<lparr>currentState := CLOSED\<rparr>\<rparr>)
         else if flag fl SYN \<and> flag fl ACK
         then
           (let b = b\<lparr>rcv_nxt := seg_seq b + 1, irs := seg_seq b, snd_una := seg_ack b\<rparr>
            in if snd_una b > iss b
               then (let b = b\<lparr>currentState := ESTABLISHED, tcp_mss := mss\<rparr>
                     in Some (Break, reply ok s (snd_nxt b) (rcv_nxt b) ACK (ucast (snd_wnd b)) (x\<lparr>sb := b\<rparr>)))
               else (let b = b\<lparr>currentState := SYN_RECEIVED\<rparr>
                     in Some (Break, reply ok s (iss b) (rcv_nxt b) (SYN OR ACK) (ucast (snd_wnd b)) (x\<lparr>sb := b\<rparr>))))
         else Some (Break, x))"

section \<open>The synchronised states\<close>

definition refuse_syn :: "(packet \<Rightarrow> bool) \<Rightarrow> tcp_segment \<Rightarrow> stage" where
  "refuse_syn ok s x =
     (if flag (t_flags s) SYN
      then Some (Break, reply ok s (snd_nxt (sb x)) (rcv_nxt (sb x)) (ACK OR RST) (ucast (snd_wnd (sb x))) x)
      else Some (Next, x))"

text \<open>The four tests of the receive window.\<close>

definition acceptable :: "StateBlock \<Rightarrow> bool" where
  "acceptable b =
     (if seg_len b = 0 \<and> rcv_wnd b = 0 then seg_seq b = rcv_nxt b
      else if seg_len b = 0 then rcv_nxt b \<le> seg_seq b \<and> seg_seq b < rcv_nxt b + rcv_wnd b
      else if rcv_wnd b = 0 then False
      else rcv_nxt b \<le> seg_seq b \<and> seg_seq b < rcv_nxt b + rcv_wnd b \<or>
           rcv_nxt b \<le> seg_seq b + seg_len b - 1 \<and> seg_seq b + seg_len b - 1 < rcv_nxt b + rcv_wnd b)"

definition check_window :: "(packet \<Rightarrow> bool) \<Rightarrow> tcp_segment \<Rightarrow> stage" where
  "check_window ok s x =
     (if acceptable (sb x) then Some (Next, x)
      else Some (Break, reply ok s (snd_nxt (sb x)) (rcv_nxt (sb x)) ACK (ucast (snd_wnd (sb x))) x))"

definition check_rst :: "tcp_segment \<Rightarrow> stage" where
  "check_rst s x =
     (if flag (t_flags s) RST then Some (Break, x\<lparr>sb := (sb x)\<lparr>currentState := CLOSED\<rparr>\<rparr>)
      else Some (Next, x))"

text \<open>The acknowledgement of a segment for a connection that is established or beyond.\<close>

definition note_fin :: "tcp_segment \<Rightarrow> StateBlock \<Rightarrow> StateBlock" where
  "note_fin s b =
     (let b = (if currentState b = ESTABLISHED \<and> flag (t_flags s) FIN then b\<lparr>currentState := CLOSE_WAIT\<rparr> else b)
      in if currentState b = FIN_WAIT_1 \<and> t_flags s AND (FIN OR ACK) = FIN then b\<lparr>currentState := CLOSING\<rparr> else b)"

definition note_una :: "StateBlock \<Rightarrow> StateBlock" where
  "note_una b =
     (let b = (if snd_una b < seg_ack b \<and> seg_ack b \<le> snd_nxt b then b\<lparr>snd_una := seg_ack b\<rparr> else b);
          b = resetTimer 10 b
      in if snd_una b \<ge> snd_nxt b then b\<lparr>waitingForTimeout := False\<rparr> else b)"

definition note_wnd :: "StateBlock \<Rightarrow> StateBlock" where
  "note_wnd b =
     (if snd_una b < seg_ack b \<and> seg_ack b \<le> snd_nxt b \<and>
         (snd_wl1 b < seg_seq b \<or> snd_wl1 b = seg_seq b \<and> snd_wl2 b \<le> seg_ack b)
      then b\<lparr>snd_wnd := seg_wnd b, snd_wl1 := seg_seq b, snd_wl2 := seg_ack b\<rparr> else b)"

definition note_fin_acked :: "StateBlock \<Rightarrow> StateBlock" where
  "note_fin_acked b =
     (if fin_seq b \<le> seg_ack b
      then (if currentState b = FIN_WAIT_1 \<or> currentState b = FIN_WAIT_2
            then b\<lparr>currentState := FIN_WAIT_2, fin_ack := True\<rparr>
            else if currentState b = CLOSING \<or> currentState b = LAST_ACK
            then b\<lparr>currentState := CLOSED, fin_ack := True\<rparr>
            else b)
      else b)"

definition established_ack :: "(packet \<Rightarrow> bool) \<Rightarrow> tcp_segment \<Rightarrow> rx \<Rightarrow> rx" where
  "established_ack ok s x =
     (if seg_ack (sb x) < snd_una (sb x) then x
      else
        (let b = note_una (note_fin s (sb x)); x = x\<lparr>sb := b\<rparr>
         in if seg_ack b > snd_nxt b then reply_ack ok s (seg_seq b) x
            else x\<lparr>sb := note_fin_acked (note_wnd b)\<rparr>))"

text \<open>The last step of a passive open: a new endpoint for the connection, which the listening
  endpoint's \<open>accept\<close> will return.\<close>

definition establish :: "(packet \<Rightarrow> bool) \<Rightarrow> tcp_segment \<Rightarrow> stage" where
  "establish ok s x =
     (let b = sb x
      in if \<not> (snd_una b \<le> seg_ack b \<and> seg_ack b \<le> snd_nxt b) then Some (Next, reply ok s (seg_ack b) 0 RST 0 x)
         else if endpoint b = 0 then Some (Return, x)
         else
           (let (e, m) = new_endpoint (TcpEndpoint_new (connId b)) (mgr x)
            in do {
                 parent \<leftarrow> endpoints m (endpoint b);
                 let m = put_endpoint (endpoint b) (addIncomingConnection e parent) m;
                 Some (Next, established_ack ok s (x\<lparr>mgr := m, sb := b\<lparr>endpoint := e, currentState := ESTABLISHED\<rparr>\<rparr>)) }))"

definition ack_switch :: "(packet \<Rightarrow> bool) \<Rightarrow> tcp_segment \<Rightarrow> stage" where
  "ack_switch ok s x =
     (case currentState (sb x) of
        SYN_RECEIVED \<Rightarrow> establish ok s x
      | ESTABLISHED \<Rightarrow> Some (Next, established_ack ok s x)
      | FIN_WAIT_1 \<Rightarrow> Some (Next, established_ack ok s x)
      | FIN_WAIT_2 \<Rightarrow> Some (Next, established_ack ok s x)
      | CLOSE_WAIT \<Rightarrow> Some (Next, established_ack ok s x)
      | CLOSING \<Rightarrow> Some (Next, established_ack ok s x)
      | LAST_ACK \<Rightarrow>
          Some (Next, if fin_seq (sb x) + 1 = seg_ack (sb x)
                      then x\<lparr>sb := (sb x)\<lparr>currentState := CLOSED, fin_ack := True\<rparr>\<rparr> else x)
      | TIME_WAIT \<Rightarrow> Some (Next, x\<lparr>sb := (resetTimer 120 (sb x))\<lparr>waitingForTimeout := True\<rparr>\<rparr>)
      | _ \<Rightarrow> Some (Next, x))"

definition process_ack :: "(packet \<Rightarrow> bool) \<Rightarrow> tcp_segment \<Rightarrow> stage" where
  "process_ack ok s x =
     (if flag (t_flags s) ACK
      then do {
        queue \<leftarrow> ackSegment (seg_ack (sb x)) (retransmitQueue (sb x));
        (w, y) \<leftarrow> ack_switch ok s (x\<lparr>sb := (sb x)\<lparr>retransmitQueue := queue\<rparr>\<rparr>);
        if w = Next \<and> currentState (sb y) = CLOSED then Some (Break, y) else Some (w, y) }
      else Some (Next, x))"

definition deposit_data :: "(packet \<Rightarrow> bool) \<Rightarrow> tcp_segment \<Rightarrow> rx \<Rightarrow> rx option" where
  "deposit_data ok s x =
     (let b = sb x
      in if endpoint b = 0 then Some (x\<lparr>sb := b\<lparr>numEndpointPackets := numEndpointPackets b + 1\<rparr>\<rparr>)
         else do {
           e \<leftarrow> endpoints (mgr x) (endpoint b);
           let room = TcpBuffer_getRemainingSize (m_ShadowDataStream e);
           let b = (if unat (seg_len b) > room then b\<lparr>seg_len := of_nat room\<rparr> else b);
           let (winChange, e') = depositPayload (unat (seg_len b)) (Some (t_payload s)) (flag (t_flags s) PSH) e;
           let b = b\<lparr>rcv_nxt := rcv_nxt b + of_nat winChange\<rparr>;
           let winChange = (if winChange > unat (rcv_wnd b) then unat (rcv_wnd b) else winChange);
           let b = b\<lparr>snd_wnd := snd_wnd b - of_nat winChange\<rparr>;
           let x = reply_ack ok s (rcv_nxt b) (x\<lparr>mgr := put_endpoint (endpoint b) e' (mgr x), sb := b\<rparr>);
           Some (x\<lparr>sb := b\<lparr>numEndpointPackets := numEndpointPackets b + 1\<rparr>\<rparr>) })"

definition process_payload :: "(packet \<Rightarrow> bool) \<Rightarrow> tcp_segment \<Rightarrow> stage" where
  "process_payload ok s x =
     (let b = sb x
      in if currentState b = ESTABLISHED \<or> currentState b = FIN_WAIT_1 \<or> currentState b = FIN_WAIT_2
         then (if seg_seq b < rcv_nxt b then Some (Next, reply_ack ok s (rcv_nxt b) x)
               else if seg_seq b > rcv_nxt b then Some (Next, reply_ack ok s (rcv_nxt b) x)
               else if seg_len b \<noteq> 0 then do { y \<leftarrow> deposit_data ok s x; Some (Next, y) }
               else Some (Next, x))
         else Some (Next, x))"

text \<open>The 2 minute timeout of TIME-WAIT.\<close>

definition start_time_wait :: "StateBlock \<Rightarrow> StateBlock" where
  "start_time_wait b = (resetTimer 120 (b\<lparr>currentState := TIME_WAIT\<rparr>))\<lparr>waitingForTimeout := True\<rparr>"

definition fin_switch :: "StateBlock \<Rightarrow> StateBlock" where
  "fin_switch b =
     (case currentState b of
        SYN_RECEIVED \<Rightarrow> b\<lparr>currentState := CLOSE_WAIT\<rparr>
      | ESTABLISHED \<Rightarrow> b\<lparr>currentState := CLOSE_WAIT\<rparr>
      | FIN_WAIT_1 \<Rightarrow> if fin_ack b then start_time_wait b else b\<lparr>currentState := CLOSING\<rparr>
      | FIN_WAIT_2 \<Rightarrow> start_time_wait b
      | TIME_WAIT \<Rightarrow> start_time_wait b
      | _ \<Rightarrow> b)"

definition push_endpoint :: "rx \<Rightarrow> rx option" where
  "push_endpoint x =
     (if endpoint (sb x) = 0 then Some x
      else do {
        e \<leftarrow> endpoints (mgr x) (endpoint (sb x));
        Some (x\<lparr>mgr := put_endpoint (endpoint (sb x)) (snd (depositPayload 0 None True e)) (mgr x)\<rparr>) })"

definition process_fin :: "(packet \<Rightarrow> bool) \<Rightarrow> tcp_segment \<Rightarrow> stage" where
  "process_fin ok s x =
     (if \<not> flag (t_flags s) FIN then Some (Break, x)
      else if currentState (sb x) \<in> {CLOSED, LISTEN, SYN_SENT, TIME_WAIT} then Some (Break, x)
      else do {
        x \<leftarrow> push_endpoint x;
        let x = x\<lparr>sb := (sb x)\<lparr>rcv_nxt := seg_seq (sb x) + 1\<rparr>\<rparr>;
        let x = (if acked x then x else reply_ack ok s (rcv_nxt (sb x)) x);
        Some (Break, x\<lparr>sb := fin_switch (sb x)\<rparr>) })"

definition rx_synchronised :: "(packet \<Rightarrow> bool) \<Rightarrow> tcp_segment \<Rightarrow> stage" where
  "rx_synchronised ok s =
     then_stage (refuse_syn ok s)
       (then_stage (check_window ok s)
         (then_stage (check_rst s)
           (then_stage (process_ack ok s)
             (then_stage (process_payload ok s) (process_fin ok s)))))"

definition rx_time_wait :: stage where
  "rx_time_wait x = Some (Break, x\<lparr>sb := (resetTimer 120 (sb x))\<lparr>waitingForTimeout := True\<rparr>\<rparr>)"

section \<open>The whole function\<close>

definition rx_switch :: "(packet \<Rightarrow> bool) \<Rightarrow> tcp_segment \<Rightarrow> u32 \<Rightarrow> stage" where
  "rx_switch ok s mss x =
     (case currentState (sb x) of
        CLOSED \<Rightarrow> rx_closed ok s x
      | LISTEN \<Rightarrow> rx_listen ok s mss x
      | SYN_SENT \<Rightarrow> rx_syn_sent ok s mss x
      | TIME_WAIT \<Rightarrow> rx_time_wait x
      | IGNORED \<Rightarrow> Some (Break, x)
      | UNKNOWN \<Rightarrow> Some (Break, x)
      | _ \<Rightarrow> rx_synchronised ok s x)"

text \<open>What follows the switch: the waiters learn of a new state, and a connection that its user has
  already closed is removed.  The block is written back first.\<close>

definition tell_change :: "TcpState \<Rightarrow> rx \<Rightarrow> rx option" where
  "tell_change oldState x =
     (if oldState = currentState (sb x) then Some x
      else do {
        e \<leftarrow> endpoints (mgr x) (endpoint (sb x));
        let e' = (if currentState (sb x) = ESTABLISHED then e\<lparr>notified := notified e + 1\<rparr> else e);
        Some (x\<lparr>mgr := put_endpoint (endpoint (sb x)) e' (mgr x), sb := (sb x)\<lparr>waitState := waitState (sb x) + 1\<rparr>\<rparr>) })"

definition store_block :: "rx \<Rightarrow> TcpManager" where
  "store_block x = (if address x = 0 then mgr x else put_block (address x) (sb x) (mgr x))"

definition finish :: "TcpState \<Rightarrow> rx \<Rightarrow> TcpManager option" where
  "finish oldState x = do {
     x \<leftarrow> tell_change oldState x;
     let m = store_block x;
     if currentState (sb x) = CLOSED \<and> (oldState = LAST_ACK \<or> oldState = CLOSING)
     then do {
       (_, m) \<leftarrow> TcpManager_removeConn (connId (sb x)) (m\<lparr>m_TcpMutex := False\<rparr>);
       Some (m\<lparr>m_TcpMutex := True\<rparr>) }
     else Some m }"

definition find_destination :: "tcp_segment \<Rightarrow> TcpManager \<Rightarrow> nat" where
  "find_destination s m =
     (let h = segment_handle s; a = handle_lookup h (m_StateBlocks m)
      in if a \<noteq> 0 then a else handle_lookup (h\<lparr>h_listen := True\<rparr>) (m_ListeningStateBlocks m))"

definition TcpManager_receive ::
  "(packet \<Rightarrow> bool) \<Rightarrow> tcp_segment \<Rightarrow> TcpManager \<Rightarrow> (unit \<times> TcpManager) option" where
  "TcpManager_receive ok s = locked (\<lambda>m.
     let a = find_destination s m
     in do {
          b \<leftarrow> (if a = 0 then Some (StateBlock_new\<lparr>currentState := CLOSED\<rparr>) else blocks m a);
          b \<leftarrow> note_window m (fill_segment s b);
          mss \<leftarrow> parse_options s (tcp_mss b);
          (w, x) \<leftarrow> rx_switch ok s mss \<lparr>mgr = m, address = a, sb = b\<lparr>fin_ack := False\<rparr>, acked = False\<rparr>;
          if w = Return then Some ((), store_block x)
          else do { m \<leftarrow> finish (currentState b) x; Some ((), m) } })"

end
