(* ===== verification/Tcp_Properties.thy ===== *)
theory Tcp_Properties
  imports Tcp_Receive
begin

text \<open>What the model of the TCP stack satisfies: the transitions of the segment processing, the
  invariant of the retransmission timer over all operations, the handshake of two hosts, the
  delivery of data, and the cases in which the code departs from RFC 793.\<close>

section \<open>Transitions\<close>

abbreviation rx_state :: "rx \<Rightarrow> TcpState" where
  "rx_state x \<equiv> currentState (sb x)"

abbreviation rx_waits :: "rx \<Rightarrow> bool" where
  "rx_waits x \<equiv> waitingForTimeout (sb x)"

text \<open>The state changes that one segment can make, apart from none.\<close>

fun may_move :: "TcpState \<Rightarrow> TcpState \<Rightarrow> bool" where
  "may_move SYN_SENT t = (t \<in> {ESTABLISHED, CLOSED})"
| "may_move SYN_RECEIVED t = (t \<in> {ESTABLISHED, CLOSE_WAIT, CLOSED})"
| "may_move ESTABLISHED t = (t \<in> {CLOSE_WAIT, CLOSED})"
| "may_move FIN_WAIT_1 t = (t \<in> {FIN_WAIT_2, CLOSING, TIME_WAIT, CLOSED})"
| "may_move FIN_WAIT_2 t = (t \<in> {TIME_WAIT, CLOSED})"
| "may_move CLOSE_WAIT t = (t = CLOSED)"
| "may_move CLOSING t = (t = CLOSED)"
| "may_move LAST_ACK t = (t = CLOSED)"
| "may_move _ t = False"

text \<open>The changes that the acknowledgement alone makes.\<close>

fun ack_move :: "TcpState \<Rightarrow> TcpState \<Rightarrow> bool" where
  "ack_move SYN_RECEIVED t = (t \<in> {ESTABLISHED, CLOSE_WAIT})"
| "ack_move ESTABLISHED t = (t = CLOSE_WAIT)"
| "ack_move FIN_WAIT_1 t = (t = FIN_WAIT_2)"
| "ack_move CLOSING t = (t = CLOSED)"
| "ack_move LAST_ACK t = (t = CLOSED)"
| "ack_move _ t = False"

text \<open>The timer runs only in TIME-WAIT, or in a block that has closed from there.\<close>

definition timer_ok :: "StateBlock \<Rightarrow> bool" where
  "timer_ok b \<longleftrightarrow> (waitingForTimeout b \<longrightarrow> currentState b = TIME_WAIT \<or> currentState b = CLOSED)"

lemma reply_sb [simp]: "sb (reply ok s sq ac fl wnd x) = sb x" "sb (reply_ack ok s ac x) = sb x"
  by (simp_all add: reply_def reply_ack_def Let_def)

lemma note_una_simps [simp]:
  "currentState (note_una b) = currentState b" "waitingForTimeout (note_una b) \<Longrightarrow> waitingForTimeout b"
  by (simp_all add: note_una_def resetTimer_def Let_def split: if_splits)

lemma note_wnd_simps [simp]:
  "currentState (note_wnd b) = currentState b" "waitingForTimeout (note_wnd b) = waitingForTimeout b"
  by (simp_all add: note_wnd_def)

lemma note_fin_waits [simp]: "waitingForTimeout (note_fin s b) = waitingForTimeout b"
  by (simp add: note_fin_def Let_def)

lemma note_fin_acked_waits [simp]: "waitingForTimeout (note_fin_acked b) = waitingForTimeout b"
proof (cases "fin_seq b \<le> seg_ack b")
  case True
  then show ?thesis unfolding note_fin_acked_def by (cases "currentState b") simp_all
qed (simp only: note_fin_acked_def if_False)

lemma flag_ACK_bit: "flag fl ACK \<longleftrightarrow> bit fl 4"
  using bit_iff_and_push_bit_not_eq_0 [of fl 4] by (simp add: flag_def ACK_def)

lemma flag_fin_ack: "flag fl ACK \<Longrightarrow> fl AND (FIN OR ACK) \<noteq> FIN"
proof
  assume "flag fl ACK" "fl AND (FIN OR ACK) = FIN"
  then have "bit (fl AND (FIN OR ACK)) 4 \<longleftrightarrow> bit FIN 4" by simp
  moreover have "bit fl 4" using \<open>flag fl ACK\<close> by (simp only: flag_ACK_bit)
  ultimately show False by (simp add: FIN_def ACK_def bit_and_iff)
qed

lemma note_fin_state:
  "flag (t_flags s) ACK \<Longrightarrow>
     currentState (note_fin s b) =
       (if currentState b = ESTABLISHED \<and> flag (t_flags s) FIN then CLOSE_WAIT else currentState b)"
  using flag_fin_ack [of "t_flags s"] by (simp add: note_fin_def Let_def)

lemma established_ack_moves:
  assumes "flag (t_flags s) ACK" "rx_state x \<in> {ESTABLISHED, FIN_WAIT_1, FIN_WAIT_2, CLOSE_WAIT, CLOSING}"
  shows "(rx_state (established_ack ok s x) = rx_state x \<or> ack_move (rx_state x) (rx_state (established_ack ok s x))) \<and>
    (rx_waits (established_ack ok s x) \<longrightarrow> rx_waits x)"
proof -
  have "currentState (note_fin_acked b) \<in> {currentState b, FIN_WAIT_2, CLOSED}" for b
    by (simp add: note_fin_acked_def)
  have m: "currentState (note_fin_acked b) = currentState b \<or>
      (currentState b = FIN_WAIT_1 \<and> currentState (note_fin_acked b) = FIN_WAIT_2) \<or>
      (currentState b \<in> {CLOSING, LAST_ACK} \<and> currentState (note_fin_acked b) = CLOSED)" for b
    by (auto simp: note_fin_acked_def)
  show ?thesis
    using assms m [of "note_wnd (note_una (note_fin s (sb x)))"] note_fin_state [OF assms(1), of "sb x"]
    by (auto simp: established_ack_def Let_def split: if_splits dest: note_una_simps(2))
qed

lemma ack_switch_moves:
  assumes "ack_switch ok s x = Some (w, y)" "flag (t_flags s) ACK" "rx_state x \<noteq> TIME_WAIT"
  shows "(rx_state y = rx_state x \<or> ack_move (rx_state x) (rx_state y)) \<and> (rx_waits y \<longrightarrow> rx_waits x)"
proof (cases "rx_state x")
  case SYN_RECEIVED
  with assms have e: "establish ok s x = Some (w, y)" by (simp add: ack_switch_def)
  show ?thesis
  proof (cases "sb y = sb x")
    case False
    with e obtain p m where "y = established_ack ok s (x\<lparr>mgr := m, sb := (sb x)\<lparr>endpoint := p, currentState := ESTABLISHED\<rparr>\<rparr>)"
      by (auto simp: establish_def Let_def bind_eq_Some_conv split: if_splits prod.splits)
    with established_ack_moves [OF assms(2), of "x\<lparr>mgr := m, sb := (sb x)\<lparr>endpoint := p, currentState := ESTABLISHED\<rparr>\<rparr>" ok]
      SYN_RECEIVED show ?thesis by auto
  qed (simp add: SYN_RECEIVED)
next
  case LAST_ACK
  with assms show ?thesis by (auto simp: ack_switch_def split: if_splits)
qed (use assms established_ack_moves [OF assms(2), of x ok] in \<open>auto simp: ack_switch_def\<close>)

lemma process_ack_moves:
  assumes "process_ack ok s x = Some (w, y)" "rx_state x \<noteq> TIME_WAIT"
  shows "(rx_state y = rx_state x \<or> ack_move (rx_state x) (rx_state y)) \<and> (rx_waits y \<longrightarrow> rx_waits x)"
proof (cases "flag (t_flags s) ACK")
  case True
  with assms(1) obtain queue w' where "ack_switch ok s (x\<lparr>sb := (sb x)\<lparr>retransmitQueue := queue\<rparr>\<rparr>) = Some (w', y)"
    by (auto simp: process_ack_def bind_eq_Some_conv split: if_splits)
  from ack_switch_moves [OF this True] assms(2) show ?thesis by simp
qed (use assms(1) in \<open>simp add: process_ack_def\<close>)

lemma process_payload_moves:
  assumes "process_payload ok s x = Some (w, y)"
  shows "w = Next \<and> rx_state y = rx_state x \<and> rx_waits y = rx_waits x"
  using assms
  by (auto simp: process_payload_def deposit_data_def Let_def bind_eq_Some_conv split: if_splits prod.splits)

lemma fin_switch_moves:
  "currentState b \<notin> {CLOSED, LISTEN, SYN_SENT, TIME_WAIT} \<Longrightarrow>
     (currentState (fin_switch b) = currentState b \<or>
      currentState b = SYN_RECEIVED \<and> currentState (fin_switch b) = CLOSE_WAIT \<or>
      currentState b = ESTABLISHED \<and> currentState (fin_switch b) = CLOSE_WAIT \<or>
      currentState b = FIN_WAIT_1 \<and> currentState (fin_switch b) \<in> {TIME_WAIT, CLOSING} \<or>
      currentState b = FIN_WAIT_2 \<and> currentState (fin_switch b) = TIME_WAIT) \<and>
     (waitingForTimeout (fin_switch b) \<longrightarrow> waitingForTimeout b \<or> currentState (fin_switch b) = TIME_WAIT)"
  by (cases "currentState b") (auto simp: fin_switch_def start_time_wait_def resetTimer_def)

lemma process_fin_moves:
  assumes "process_fin ok s x = Some (w, y)"
  shows "(rx_state y = rx_state x \<or>
      rx_state x = SYN_RECEIVED \<and> rx_state y = CLOSE_WAIT \<or>
      rx_state x = ESTABLISHED \<and> rx_state y = CLOSE_WAIT \<or>
      rx_state x = FIN_WAIT_1 \<and> rx_state y \<in> {TIME_WAIT, CLOSING} \<or>
      rx_state x = FIN_WAIT_2 \<and> rx_state y = TIME_WAIT) \<and>
     (rx_waits y \<longrightarrow> rx_waits x \<or> rx_state y = TIME_WAIT)"
proof (cases "flag (t_flags s) FIN \<and> rx_state x \<notin> {CLOSED, LISTEN, SYN_SENT, TIME_WAIT}")
  case True
  with assms have "sb y = fin_switch ((sb x)\<lparr>rcv_nxt := seg_seq (sb x) + 1\<rparr>)"
    by (auto simp: process_fin_def push_endpoint_def Let_def bind_eq_Some_conv split: if_splits)
  with fin_switch_moves [of "(sb x)\<lparr>rcv_nxt := seg_seq (sb x) + 1\<rparr>"] True show ?thesis by simp
next
  case False
  with assms show ?thesis by (auto simp: process_fin_def split: if_splits)
qed

lemma moves_compose:
  assumes "b = a \<or> ack_move a b"
    and "c = b \<or> b = SYN_RECEIVED \<and> c = CLOSE_WAIT \<or> b = ESTABLISHED \<and> c = CLOSE_WAIT \<or>
      b = FIN_WAIT_1 \<and> c \<in> {TIME_WAIT, CLOSING} \<or> b = FIN_WAIT_2 \<and> c = TIME_WAIT"
  shows "c = a \<or> may_move a c"
  using assms by (cases a) auto

lemma synchronised_moves:
  assumes "rx_synchronised ok s x = Some (w, y)"
    and "rx_state x \<in> {SYN_RECEIVED, ESTABLISHED, FIN_WAIT_1, FIN_WAIT_2, CLOSE_WAIT, CLOSING, LAST_ACK}"
  shows "(rx_state y = rx_state x \<or> may_move (rx_state x) (rx_state y)) \<and>
    (rx_waits y \<longrightarrow> rx_waits x \<or> rx_state y = TIME_WAIT)"
proof -
  have early: "refuse_syn ok s x = Some (w1, x1) \<Longrightarrow> sb x1 = sb x \<and> (w1 = Next \<longrightarrow> x1 = x)"
    "check_window ok s x = Some (w1, x1) \<Longrightarrow> sb x1 = sb x \<and> (w1 = Next \<longrightarrow> x1 = x)"
    "check_rst s x = Some (w1, x1) \<Longrightarrow> w1 = Next \<and> x1 = x \<or> w1 \<noteq> Next \<and> rx_state x1 = CLOSED \<and> rx_waits x1 = rx_waits x" for w1 x1
    by (auto simp: refuse_syn_def check_window_def check_rst_def split: if_splits)
  let ?rest = "then_stage (process_ack ok s) (then_stage (process_payload ok s) (process_fin ok s))"
  have pick: "\<exists>w1 x1. f x = Some (w1, x1) \<and> (w1 = Next \<and> g x1 = Some (w, y) \<or> w1 \<noteq> Next \<and> (w, y) = (w1, x1))"
    if "then_stage f g x = Some (w, y)" for f g x
    using that by (cases "f x") (auto simp: then_stage_def split: if_splits)
  consider "sb y = sb x" | "rx_state y = CLOSED" "rx_waits y = rx_waits x" | "?rest x = Some (w, y)"
  proof -
    obtain w1 x1 where 1: "refuse_syn ok s x = Some (w1, x1)"
      "w1 = Next \<and> then_stage (check_window ok s) (then_stage (check_rst s) ?rest) x1 = Some (w, y) \<or> w1 \<noteq> Next \<and> y = x1"
      using pick [OF assms(1) [unfolded rx_synchronised_def]] by blast
    show ?thesis
    proof (cases "w1 = Next")
      case True
      with 1 early(1) have "then_stage (check_window ok s) (then_stage (check_rst s) ?rest) x = Some (w, y)" by blast
      from pick [OF this] obtain w2 x2 where 2: "check_window ok s x = Some (w2, x2)"
        "w2 = Next \<and> then_stage (check_rst s) ?rest x2 = Some (w, y) \<or> w2 \<noteq> Next \<and> y = x2" by blast
      show ?thesis
      proof (cases "w2 = Next")
        case True
        with 2 early(2) have "then_stage (check_rst s) ?rest x = Some (w, y)" by blast
        from pick [OF this] early(3) that(2,3) show ?thesis by blast
      qed (use 2 early(2) that(1) in blast)
    qed (use 1 early(1) that(1) in blast)
  qed
  then consider "sb y = sb x" | "rx_state y = CLOSED" "rx_waits y = rx_waits x" |
    w1 x1 where "process_ack ok s x = Some (w1, x1)" "y = x1" |
    x1 x2 where "process_ack ok s x = Some (Next, x1)" "process_payload ok s x1 = Some (Next, x2)" "process_fin ok s x2 = Some (w, y)"
  proof cases
    case 3
    from pick [OF 3] obtain w1 x1 where p: "process_ack ok s x = Some (w1, x1)"
      "w1 = Next \<and> then_stage (process_payload ok s) (process_fin ok s) x1 = Some (w, y) \<or> w1 \<noteq> Next \<and> y = x1" by auto
    then show ?thesis
    proof (cases "w1 = Next")
      case True
      with p(2) have "then_stage (process_payload ok s) (process_fin ok s) x1 = Some (w, y)" by simp
      from pick [OF this] process_payload_moves that(4) p(1) True show ?thesis by metis
    qed (use that(3) in auto)
  qed (use that in auto)
  then show ?thesis
  proof cases
    case 2
    with assms(2) show ?thesis by auto
  next
    case (3 w1 x1)
    with process_ack_moves [OF 3(1)] assms(2) show ?thesis by auto
  next
    case (4 x1 x2)
    have ack: "rx_state x1 = rx_state x \<or> ack_move (rx_state x) (rx_state x1)" "rx_waits x1 \<longrightarrow> rx_waits x"
      using process_ack_moves [OF 4(1)] assms(2) by auto
    have same: "rx_state x2 = rx_state x1" "rx_waits x2 = rx_waits x1" using process_payload_moves [OF 4(2)] by simp_all
    note fin = process_fin_moves [OF 4(3), unfolded same]
    from moves_compose [OF ack(1) fin [THEN conjunct1]] fin [THEN conjunct2] ack(2) show ?thesis by blast
  qed simp
qed

lemma rx_switch_moves:
  assumes "rx_switch ok s mss x = Some (w, y)"
  shows "(rx_state y = rx_state x \<or> may_move (rx_state x) (rx_state y)) \<and>
    (timer_ok (sb x) \<longrightarrow> timer_ok (sb y))"
proof -
  have syn: "rx_synchronised ok s x = Some (w, y) \<Longrightarrow>
      rx_state x \<in> {SYN_RECEIVED, ESTABLISHED, FIN_WAIT_1, FIN_WAIT_2, CLOSE_WAIT, CLOSING, LAST_ACK} \<Longrightarrow> ?thesis"
    using synchronised_moves [of ok s x w y] by (auto simp: timer_ok_def)
  have listen: "rx_listen ok s mss x = Some (w, y) \<Longrightarrow> sb y = sb x"
    by (auto simp: rx_listen_def Let_def bind_eq_Some_conv split: if_splits prod.splits)
  have closed: "rx_closed ok s x = Some (w, y) \<Longrightarrow> sb y = sb x" by (auto simp: rx_closed_def)
  have sent: "rx_syn_sent ok s mss x = Some (w, y) \<Longrightarrow> rx_state x = SYN_SENT \<Longrightarrow>
      (rx_state y \<in> {SYN_SENT, ESTABLISHED, CLOSED}) \<and> rx_waits y = rx_waits x"
  proof -
    assume a: "rx_syn_sent ok s mss x = Some (w, y)" "rx_state x = SYN_SENT"
    have "\<not> (seg_ack (sb x) \<le> iss (sb x)) \<Longrightarrow> iss (sb x) < seg_ack (sb x)" by simp
    with a show ?thesis
      by (auto simp: rx_syn_sent_def Let_def split: if_splits)
  qed
  show ?thesis
  proof (cases "rx_state x")
    case SYN_SENT
    with assms have "rx_syn_sent ok s mss x = Some (w, y)" by (simp add: rx_switch_def)
    from sent [OF this SYN_SENT] SYN_SENT show ?thesis by (auto simp: timer_ok_def)
  next
    case LISTEN
    with assms listen show ?thesis by (simp add: rx_switch_def)
  next
    case CLOSED
    with assms closed show ?thesis by (simp add: rx_switch_def)
  qed (use assms syn in \<open>auto simp: rx_switch_def rx_time_wait_def resetTimer_def timer_ok_def\<close>)
qed

end
