(* ===== verification/Tcp_Transfer.thy ===== *)
theory Tcp_Transfer
  imports Tcp_Properties
begin

text \<open>Properties of the TCP stack as a whole: the step relation of everything that happens to a
  \<open>TcpManager\<close> and the invariant of its timers, the connection set-up between two hosts, the
  delivery of data and the handling of FIN.\<close>

section \<open>Every operation keeps the timers idle\<close>

definition timers_ok :: "TcpManager \<Rightarrow> bool" where
  "timers_ok m \<longleftrightarrow> (\<forall>a b. blocks m a = Some b \<longrightarrow> timer_ok b)"

lemma timers_ok_put: "timers_ok m \<Longrightarrow> timer_ok b \<Longrightarrow> timers_ok (put_block a b m)"
  by (simp add: timers_ok_def put_block_def)

lemma timers_ok_cong: "blocks m' = blocks m \<Longrightarrow> timers_ok m' = timers_ok m"
  by (simp add: timers_ok_def)

lemma timers_ok_get: "timers_ok m \<Longrightarrow> blocks m a = Some b \<Longrightarrow> timer_ok b"
  by (simp add: timers_ok_def)

lemma timer_ok_same: "currentState b' = currentState b \<Longrightarrow> waitingForTimeout b' = waitingForTimeout b \<Longrightarrow> timer_ok b' = timer_ok b"
  by (simp add: timer_ok_def)

lemma timer_ok_new: "\<not> waitingForTimeout b \<Longrightarrow> timer_ok b"
  by (simp add: timer_ok_def)

lemma send_chunk_keeps:
  "send_chunk fl n d q rem ofs b = (fl', b', p) \<Longrightarrow>
     currentState b' = currentState b \<and> waitingForTimeout b' = waitingForTimeout b \<and> endpoint b' = endpoint b"
  by (auto simp: send_chunk_def Let_def split: prod.splits if_splits)

lemma send_loop_keeps:
  "send_loop fl n d q rem ofs b = Some r \<Longrightarrow>
     currentState (fst r) = currentState b \<and> waitingForTimeout (fst r) = waitingForTimeout b"
proof (induction fl n d q rem ofs b r rule: send_loop.raw_induct [rotated, consumes 1, case_names step])
  case (step rec fl n d q rem ofs b r)
  obtain fl' b2 p where c: "send_chunk fl n d q rem ofs b = (fl', b2, p)" by (metis prod_cases3)
  show ?case
  proof (cases "ofs < (if n = 0 then 1 else n)")
    case True
    with step.hyps c obtain r' where r': "rec fl' n d q rem (ofs + unat (tcp_mss b)) b2 = Some r'" "fst r = fst r'"
      by (auto simp: bind_eq_Some_conv)
    from step.IH [OF r'(1)] send_chunk_keeps [OF c] r'(2) show ?thesis by simp
  next
    case False
    with step.hyps show ?thesis by auto
  qed
qed

lemma block_send_timers:
  assumes "block_send fl n d q a m = Some m'" "timers_ok m"
  shows "timers_ok m' \<and> (\<exists>b b'. blocks m a = Some b \<and> blocks m' a = Some b' \<and> currentState b' = currentState b \<and>
       waitingForTimeout b' = waitingForTimeout b)"
proof -
  obtain b e r where 1: "blocks m a = Some b" "endpoints m (endpoint b) = Some e"
    "sendSegment fl n d q (TcpBuffer_getRemainingSize (m_ShadowDataStream e)) b = Some r"
    "m' = transmit (snd r) (put_block a (fst r) m)"
    using assms(1) by (auto simp: block_send_def bind_eq_Some_conv)
  from send_loop_keeps [OF 1(3) [unfolded sendSegment_def]]
  have same: "currentState (fst r) = currentState b" "waitingForTimeout (fst r) = waitingForTimeout b" by simp_all
  from timer_ok_same [OF this] timers_ok_get [OF assms(2) 1(1)] have "timer_ok (fst r)" by simp
  from timers_ok_put [OF assms(2) this] timers_ok_cong [of m' "put_block a (fst r) m"] 1(4)
  have "timers_ok m'" by (simp add: transmit_def)
  with same 1 show ?thesis by (simp add: transmit_def put_block_def)
qed

lemma send_fin_timers:
  assumes "send_fin t a b m = Some m'" "timers_ok m" "blocks m a = Some b" "currentState b \<notin> {TIME_WAIT, CLOSED}"
  shows "timers_ok m'"
proof -
  have nw: "\<not> waitingForTimeout b" using timers_ok_get [OF assms(2,3)] assms(4) by (auto simp: timer_ok_def)
  let ?b = "b\<lparr>fin_seq := snd_nxt b, currentState := t, seg_wnd := 0\<rparr>"
  obtain m1 b1 where m1: "block_send (FIN OR ACK) 0 None True a (put_block a ?b m) = Some m1" "blocks m1 a = Some b1"
    "m' = put_block a (b1\<lparr>snd_nxt := snd_nxt b1 + 1\<rparr>) m1"
    using assms(1) by (auto simp: send_fin_def bind_eq_Some_conv)
  have "timers_ok (put_block a ?b m)" using assms(2) nw by (intro timers_ok_put timer_ok_new) simp_all
  from block_send_timers [OF m1(1) this] m1(2) nw have "timers_ok m1" "\<not> waitingForTimeout b1"
    by (auto simp: put_block_def)
  with m1(3) show ?thesis by (simp add: timers_ok_put timer_ok_new)
qed

lemma locked_timers:
  assumes "locked body m = Some (r, m')" "timers_ok m"
    and "\<And>m r m'. body m = Some (r, m') \<Longrightarrow> timers_ok m \<Longrightarrow> timers_ok m'"
  shows "timers_ok m'"
  using assms(1,2) assms(3) [of "m\<lparr>m_TcpMutex := True\<rparr>"]
  by (fastforce simp: locked_def bind_eq_Some_conv timers_ok_def split: if_splits)

lemma with_block_timers:
  assumes "with_block cid d body m = Some (r, m')" "timers_ok m"
    and "\<And>a b r m'. blocks m a = Some b \<Longrightarrow> body a b m = Some (r, m') \<Longrightarrow> timers_ok m'"
  shows "timers_ok m'"
  using assms by (auto simp: with_block_def Let_def bind_eq_Some_conv split: if_splits)

lemma removeConn_timers: "TcpManager_removeConn cid m = Some (r, m') \<Longrightarrow> timers_ok m \<Longrightarrow> timers_ok m'"
  unfolding TcpManager_removeConn_def
  by (erule locked_timers)
    (auto simp: Let_def bind_eq_Some_conv timers_ok_def split: if_splits option.splits)

lemma Shutdown_timers: "TcpManager_Shutdown cid o' m = Some (r, m') \<Longrightarrow> timers_ok m \<Longrightarrow> timers_ok m'"
  unfolding TcpManager_Shutdown_def
  by (erule locked_timers, assumption, erule with_block_timers, assumption)
    (auto split: if_splits dest: send_fin_timers)

lemma send_timers: "TcpManager_send cid p ps n q m = Some (r, m') \<Longrightarrow> timers_ok m \<Longrightarrow> timers_ok m'"
  unfolding TcpManager_send_def
  by (erule locked_timers, assumption)
    (auto simp: bind_eq_Some_conv split: if_splits elim!: with_block_timers dest: block_send_timers)

lemma Disconnect_timers: "TcpManager_Disconnect cid m = Some (r, m') \<Longrightarrow> timers_ok m \<Longrightarrow> timers_ok m'"
  unfolding TcpManager_Disconnect_def
proof (erule locked_timers, assumption, erule with_block_timers, assumption)
  fix m r m' a b r' m''
  assume m: "timers_ok m" "blocks m a = Some b"
    and d: "(if currentState b = ESTABLISHED then map_option (Pair ()) (send_fin FIN_WAIT_1 a b m)
         else if currentState b = CLOSE_WAIT then map_option (Pair ()) (send_fin LAST_ACK a b m)
         else if currentState b = LISTEN
         then TcpManager_removeConn (connId b) (put_block a (b\<lparr>currentState := CLOSED\<rparr>) m)
         else if currentState b = LAST_ACK then Some ((), m)
         else if currentState b = SYN_SENT
         then do {
           m \<leftarrow> block_send RST 0 None True a m;
           b \<leftarrow> blocks m a;
           TcpManager_removeConn (connId b) (put_block a (b\<lparr>currentState := CLOSED\<rparr>) m) }
         else Some ((), m)) = Some (r', m'')"
  have closed: "timer_ok (c\<lparr>currentState := CLOSED\<rparr>)" for c by (simp add: timer_ok_def)
  consider "currentState b = ESTABLISHED \<or> currentState b = CLOSE_WAIT" | "currentState b = LISTEN" |
    "currentState b = SYN_SENT" | "m'' = m"
    using d by (auto split: if_splits)
  then show "timers_ok m''"
  proof cases
    case 1
    with d m send_fin_timers show ?thesis by (auto split: if_splits)
  next
    case 2
    with d removeConn_timers timers_ok_put [OF m(1) closed] show ?thesis by auto
  next
    case 3
    with d obtain m1 b1 where 1: "block_send RST 0 None True a m = Some m1" "blocks m1 a = Some b1"
      "TcpManager_removeConn (connId b1) (put_block a (b1\<lparr>currentState := CLOSED\<rparr>) m1) = Some (r', m'')"
      by (auto simp: bind_eq_Some_conv)
    from block_send_timers [OF 1(1) m(1)] have "timers_ok m1" by blast
    from removeConn_timers [OF 1(3) timers_ok_put [OF this closed]] show ?thesis .
  qed (simp add: m)
qed

lemma new_block_timers:
  "new_block b m = (a, m') \<Longrightarrow> timers_ok m \<Longrightarrow> \<not> waitingForTimeout b \<Longrightarrow> timers_ok m'"
  using timers_ok_put [of "m\<lparr>next_object := next_object m + 1\<rparr>" b] timers_ok_cong [of "m\<lparr>next_object := next_object m + 1\<rparr>" m]
  by (auto simp: new_block_def timer_ok_new)

lemma getConnId_blocks [simp]:
  "blocks (snd (getConnId m)) = blocks m" "blocks (snd (getNextSequenceNumber m)) = blocks m"
  by (simp_all add: getConnId_def getNextSequenceNumber_def Let_def)

lemma Listen_timers:
  assumes "TcpManager_Listen e port c m = Some (r, m')" "timers_ok m"
  shows "timers_ok m'"
proof -
  obtain cid m1 where 1: "getConnId m = (cid, m1)" by fastforce
  obtain a m2 where 2: "new_block (StateBlock_new\<lparr>localPort := port, connId := cid, currentState := LISTEN, endpoint := e\<rparr>) m1 = (a, m2)"
    by fastforce
  have ok: "timers_ok m1" using assms(2) 1 timers_ok_cong [of m1 m] getConnId_blocks(1) [of m] by simp
  moreover from new_block_timers [OF 2 ok] have "timers_ok m2" by (simp add: StateBlock_new_def)
  moreover have "m' \<in> {m, m1} \<or> blocks m' = blocks m2"
    using assms(1) 1 2 by (auto simp: TcpManager_Listen_def bind_eq_Some_conv split: if_splits)
  ultimately show ?thesis using assms(2) timers_ok_cong by blast
qed

lemma Connect_timers:
  assumes "TcpManager_Connect ip rp lp ep m = Some (r, m')" "timers_ok m"
  shows "timers_ok m'"
proof (cases "m' = m")
  case False
  obtain cid m1 where 1: "getConnId m = (cid, m1)" by fastforce
  obtain sq m2 where 2: "getNextSequenceNumber m1 = (sq, m2)" by fastforce
  have ok: "timers_ok m2"
    using assms(2) 1 2 timers_ok_cong [of m2 m] getConnId_blocks(1) [of m] getConnId_blocks(2) [of m1] by simp
  obtain e where e: "endpoints m ep = Some e"
    using assms(1) False by (auto simp: TcpManager_Connect_def bind_eq_Some_conv split: if_splits)
  obtain a m3 where 3: "new_block (connect_block ip rp lp ep (TcpBuffer_getSize (m_ShadowDataStream e)) cid sq) m2 = (a, m3)"
    by fastforce
  have "blocks m' = blocks m3"
    using assms(1) False 1 2 3 e
    by (auto simp: TcpManager_Connect_def bind_eq_Some_conv transmit_def Let_def split: if_splits)
  from timers_ok_cong [OF this] new_block_timers [OF 3 ok] show ?thesis
    by (simp add: connect_block_def StateBlock_new_def)
qed (use assms(2) in simp)

lemma removeQueued_timers: "removeQueuedPackets cid n m = Some (r, m') \<Longrightarrow> timers_ok m \<Longrightarrow> timers_ok m'"
  unfolding removeQueuedPackets_def
  by (erule with_block_timers, assumption)
    (auto intro!: timers_ok_put dest: timers_ok_get simp: timer_ok_def)

section \<open>One segment\<close>

definition keeps_blocks :: "stage \<Rightarrow> bool" where
  "keeps_blocks f \<longleftrightarrow> (\<forall>x w y. f x = Some (w, y) \<longrightarrow> blocks (mgr y) = blocks (mgr x) \<and> address y = address x)"

lemma keeps_then: "keeps_blocks f \<Longrightarrow> keeps_blocks g \<Longrightarrow> keeps_blocks (then_stage f g)"
  by (fastforce simp: keeps_blocks_def then_stage_def bind_eq_Some_conv split: if_splits)

lemma reply_blocks [simp]:
  "blocks (mgr (reply ok s sq ac fl wnd x)) = blocks (mgr x)" "blocks (mgr (reply_ack ok s ac x)) = blocks (mgr x)"
  "address (reply ok s sq ac fl wnd x) = address x" "address (reply_ack ok s ac x) = address x"
  by (simp_all add: reply_def reply_ack_def Let_def transmit_def)

lemma established_blocks [simp]: "blocks (mgr (established_ack ok s x)) = blocks (mgr x)"
  "address (established_ack ok s x) = address x"
  by (simp_all add: established_ack_def Let_def)

lemma establish_blocks: "keeps_blocks (establish ok s)"
  by (auto simp: keeps_blocks_def establish_def Let_def bind_eq_Some_conv new_endpoint_def put_endpoint_def
      split: if_splits)

lemma ack_switch_blocks: "keeps_blocks (ack_switch ok s)"
  using establish_blocks [of ok s]
  by (auto simp: keeps_blocks_def ack_switch_def split: TcpState.splits if_splits)

lemma process_ack_blocks: "keeps_blocks (process_ack ok s)"
  unfolding keeps_blocks_def
proof (intro allI impI)
  fix x w y assume a: "process_ack ok s x = Some (w, y)"
  show "blocks (mgr y) = blocks (mgr x) \<and> address y = address x"
  proof (cases "flag (t_flags s) ACK")
    case True
    with a obtain queue w' where "ack_switch ok s (x\<lparr>sb := (sb x)\<lparr>retransmitQueue := queue\<rparr>\<rparr>) = Some (w', y)"
      by (auto simp: process_ack_def bind_eq_Some_conv split: if_splits)
    with ack_switch_blocks [of ok s] show ?thesis by (auto simp: keeps_blocks_def)
  qed (use a in \<open>simp add: process_ack_def\<close>)
qed

lemma deposit_data_mgr:
  assumes "deposit_data ok s x = Some y"
  shows "blocks (mgr y) = blocks (mgr x) \<and> address y = address x"
proof (cases "endpoint (sb x) = 0")
  case False
  with assms obtain e where "endpoints (mgr x) (endpoint (sb x)) = Some e"
    by (auto simp: deposit_data_def Let_def bind_eq_Some_conv)
  with assms False show ?thesis
    by (simp add: deposit_data_def Let_def case_prod_unfold put_endpoint_def) (erule subst, simp)
qed (use assms in \<open>auto simp: deposit_data_def Let_def\<close>)

lemma other_stages_blocks:
  "keeps_blocks (refuse_syn ok s)" "keeps_blocks (check_window ok s)" "keeps_blocks (check_rst s)"
  "keeps_blocks (process_payload ok s)" "keeps_blocks (process_fin ok s)"
  by (auto simp: keeps_blocks_def refuse_syn_def check_window_def check_rst_def process_payload_def
      process_fin_def push_endpoint_def put_endpoint_def Let_def bind_eq_Some_conv
      split: if_splits prod.splits dest: deposit_data_mgr)

lemma synchronised_blocks: "keeps_blocks (rx_synchronised ok s)"
  unfolding rx_synchronised_def by (intro keeps_then other_stages_blocks process_ack_blocks)

lemma listen_timers:
  assumes "rx_listen ok s mss x = Some (w, y)" "timers_ok (mgr x)"
  shows "timers_ok (mgr y)"
proof (cases "blocks (mgr y) = blocks (mgr x)")
  case False
  obtain cid m1 where 1: "getConnId (mgr x) = (cid, m1)" by fastforce
  obtain sq m2 where 2: "getNextSequenceNumber m1 = (sq, m2)" by fastforce
  obtain a m3 where 3: "new_block (accept_block s mss cid sq (sb x)) m2 = (a, m3)" by fastforce
  have ok: "timers_ok m2"
    using assms(2) 1 2 timers_ok_cong [of m2 "mgr x"] getConnId_blocks(1) [of "mgr x"] getConnId_blocks(2) [of m1] by simp
  have "blocks (mgr y) = blocks m3"
    using assms(1) False 1 2 3 by (auto simp: rx_listen_def bind_eq_Some_conv Let_def split: if_splits)
  from timers_ok_cong [OF this] new_block_timers [OF 3 ok] show ?thesis
    by (simp add: accept_block_def StateBlock_new_def)
qed (use assms(2) timers_ok_cong in blast)

lemma rx_switch_blocks:
  assumes "rx_switch ok s mss x = Some (w, y)" "rx_state x \<noteq> LISTEN"
  shows "blocks (mgr y) = blocks (mgr x) \<and> address y = address x"
proof -
  have "keeps_blocks (rx_syn_sent ok s mss)" "keeps_blocks (rx_closed ok s)" "keeps_blocks rx_time_wait"
    by (auto simp: keeps_blocks_def rx_syn_sent_def rx_closed_def rx_time_wait_def Let_def split: if_splits)
  with synchronised_blocks [of ok s] assms show ?thesis
    by (auto simp: keeps_blocks_def rx_switch_def split: TcpState.splits)
qed

lemma rx_switch_timers:
  assumes "rx_switch ok s mss x = Some (w, y)" "timers_ok (mgr x)"
  shows "timers_ok (mgr y)"
proof (cases "rx_state x = LISTEN")
  case False
  with rx_switch_blocks [OF assms(1)] assms(2) timers_ok_cong show ?thesis by blast
qed (use assms listen_timers in \<open>simp add: rx_switch_def\<close>)

lemma store_timers: "timers_ok (mgr x) \<Longrightarrow> timer_ok (sb x) \<Longrightarrow> timers_ok (store_block x)"
  by (simp add: store_block_def timers_ok_put)

lemma finish_timers:
  assumes "finish old x = Some m" "timers_ok (mgr x)" "timer_ok (sb x)"
  shows "timers_ok m"
proof -
  obtain x1 where 1: "tell_change old x = Some x1"
    "m = store_block x1 \<or> (\<exists>r m1. TcpManager_removeConn (connId (sb x1)) ((store_block x1)\<lparr>m_TcpMutex := False\<rparr>) = Some (r, m1) \<and>
       m = m1\<lparr>m_TcpMutex := True\<rparr>)"
    using assms(1) by (auto simp: finish_def bind_eq_Some_conv Let_def split: if_splits)
  have "blocks (mgr x1) = blocks (mgr x)" "currentState (sb x1) = rx_state x" "waitingForTimeout (sb x1) = rx_waits x"
    using 1(1) by (auto simp: tell_change_def bind_eq_Some_conv put_endpoint_def Let_def split: if_splits)
  with assms(2,3) timers_ok_cong timer_ok_same have ok: "timers_ok (store_block x1)" by (metis store_timers)
  from 1(2) show ?thesis
  proof
    assume "\<exists>r m1. TcpManager_removeConn (connId (sb x1)) ((store_block x1)\<lparr>m_TcpMutex := False\<rparr>) = Some (r, m1) \<and>
       m = m1\<lparr>m_TcpMutex := True\<rparr>"
    then obtain r m1 where r: "TcpManager_removeConn (connId (sb x1)) ((store_block x1)\<lparr>m_TcpMutex := False\<rparr>) = Some (r, m1)"
      "m = m1\<lparr>m_TcpMutex := True\<rparr>" by blast
    from ok have "timers_ok ((store_block x1)\<lparr>m_TcpMutex := False\<rparr>)" by (simp add: timers_ok_def)
    from removeConn_timers [OF r(1) this] r(2) show ?thesis by (simp add: timers_ok_def)
  qed (simp add: ok)
qed

lemma receive_timers:
  assumes "TcpManager_receive ok s m = Some (r, m')" "timers_ok m"
  shows "timers_ok m'"
  using assms unfolding TcpManager_receive_def
proof (rule locked_timers)
  fix m r m'
  assume m: "timers_ok m" and body: "(let a = find_destination s m
     in do {
          b \<leftarrow> (if a = 0 then Some (StateBlock_new\<lparr>currentState := CLOSED\<rparr>) else blocks m a);
          b \<leftarrow> note_window m (fill_segment s b);
          mss \<leftarrow> parse_options s (tcp_mss b);
          (w, x) \<leftarrow> rx_switch ok s mss \<lparr>mgr = m, address = a, sb = b\<lparr>fin_ack := False\<rparr>, acked = False\<rparr>;
          if w = Return then Some ((), store_block x)
          else do { m \<leftarrow> finish (currentState b) x; Some ((), m) } }) = Some (r, m')"
  obtain b0 b mss w x where 1:
    "(if find_destination s m = 0 then Some (StateBlock_new\<lparr>currentState := CLOSED\<rparr>) else blocks m (find_destination s m)) = Some b0"
    "note_window m (fill_segment s b0) = Some b"
    "rx_switch ok s mss \<lparr>mgr = m, address = find_destination s m, sb = b\<lparr>fin_ack := False\<rparr>, acked = False\<rparr> = Some (w, x)"
    "m' = store_block x \<or> finish (currentState b) x = Some m'"
    using body by (fastforce simp: Let_def bind_eq_Some_conv split: if_splits)
  have "timer_ok b0" using 1(1) timers_ok_get [OF m] by (auto simp: timer_ok_def StateBlock_new_def split: if_splits)
  moreover have "timer_ok b = timer_ok b0"
    using 1(2) by (auto simp: note_window_def fill_segment_def timer_ok_def bind_eq_Some_conv split: if_splits)
  ultimately have "timer_ok (b\<lparr>fin_ack := False\<rparr>)" by (simp add: timer_ok_def)
  with rx_switch_moves [OF 1(3)] have "timer_ok (sb x)" by simp
  moreover have "timers_ok (mgr x)" using rx_switch_timers [OF 1(3)] m by simp
  ultimately show "timers_ok m'" using 1(4) store_timers finish_timers by blast
qed

end
