(* ===== verification/Tcp_System.thy ===== *)
theory Tcp_System
  imports Tcp_Transfer
begin

text \<open>Everything that happens to a \<open>TcpManager\<close> as one step relation, the invariant of the
  reachable states, and what follows for the timers and the transitions of connections.\<close>

section \<open>Steps\<close>

inductive tcp_step :: "(packet \<Rightarrow> bool) \<Rightarrow> TcpManager \<Rightarrow> TcpManager \<Rightarrow> bool" for ok where
  tick: "tcp_step ok m (TcpManager_timer delta m)"
| block_tick: "blocks m a = Some b \<Longrightarrow> StateBlock_timer delta b = (b', ps, ended) \<Longrightarrow>
    tcp_step ok m (transmit ps (put_block a b' m))"
| receive: "TcpManager_receive ok s m = Some (u, m') \<Longrightarrow> tcp_step ok m m'"
| Listen: "TcpManager_Listen e port haveCard m = Some (cid, m') \<Longrightarrow> tcp_step ok m m'"
| Connect: "TcpManager_Connect ip rport lport ep m = Some (cid, m') \<Longrightarrow> tcp_step ok m m'"
| send: "TcpManager_send cid payload push nBytes addToRetransmitQueue m = Some (r, m') \<Longrightarrow> tcp_step ok m m'"
| Shutdown: "TcpManager_Shutdown cid bOnlyStopReceive m = Some (u, m') \<Longrightarrow> tcp_step ok m m'"
| Disconnect: "TcpManager_Disconnect cid m = Some (u, m') \<Longrightarrow> tcp_step ok m m'"
| removeConn: "TcpManager_removeConn cid m = Some (u, m') \<Longrightarrow> tcp_step ok m m'"
| removeQueued: "removeQueuedPackets cid n m = Some (u, m') \<Longrightarrow> tcp_step ok m m'"
| allocate: "allocatePort m = (p, m') \<Longrightarrow> tcp_step ok m m'"
| getEndpoint: "TcpManager_getEndpoint lport m = (a, m') \<Longrightarrow> tcp_step ok m m'"
| recv: "endpoints m a = Some e \<Longrightarrow> TcpEndpoint_recv closing maxSize bPeek e = (r, e') \<Longrightarrow>
    tcp_step ok m (put_endpoint a e' m)"
| accept: "endpoints m a = Some e \<Longrightarrow> TcpEndpoint_accept e = Some (c, e') \<Longrightarrow>
    tcp_step ok m (put_endpoint a e' m)"

inductive tcp_reachable :: "(packet \<Rightarrow> bool) \<Rightarrow> TcpManager \<Rightarrow> bool" for ok where
  start: "tcp_reachable ok TcpManager_new"
| step: "tcp_reachable ok m \<Longrightarrow> tcp_step ok m m' \<Longrightarrow> tcp_reachable ok m'"

lemma allocatePort_blocks: "allocatePort m = (p, m') \<Longrightarrow> blocks m' = blocks m"
  by (auto simp: allocatePort_def split: prod.splits if_splits)

lemma step_timers: "tcp_step ok m m' \<Longrightarrow> timers_ok m \<Longrightarrow> timers_ok m'"
proof (induction rule: tcp_step.induct)
  case (tick m delta)
  then show ?case by (simp add: timers_ok_def TcpManager_timer_def Let_def)
next
  case (block_tick m a b delta b' ps ended)
  have "timer_ok b'"
    using timer_state [of delta b] timers_ok_get [OF block_tick.prems block_tick.hyps(1)] block_tick.hyps(2) timer_idle [of b delta]
    by (cases "waitingForTimeout b") (auto simp: timer_ok_def)
  with timers_ok_put [OF block_tick.prems] show ?case by (simp add: timers_ok_def transmit_def)
next
  case (allocate m p m')
  from timers_ok_cong [OF allocatePort_blocks [OF allocate.hyps]] allocate.prems show ?case by simp
next
  case (getEndpoint lport m a m')
  have "blocks m' = blocks m"
    using getEndpoint.hyps allocatePort_blocks
    by (auto simp: TcpManager_getEndpoint_def new_endpoint_def put_endpoint_def split: if_splits prod.splits)
  from timers_ok_cong [OF this] getEndpoint.prems show ?case by simp
qed (auto simp: timers_ok_def put_endpoint_def intro: receive_timers [unfolded timers_ok_def, rule_format]
    Listen_timers [unfolded timers_ok_def, rule_format] Connect_timers [unfolded timers_ok_def, rule_format]
    send_timers [unfolded timers_ok_def, rule_format] Shutdown_timers [unfolded timers_ok_def, rule_format]
    Disconnect_timers [unfolded timers_ok_def, rule_format] removeConn_timers [unfolded timers_ok_def, rule_format]
    removeQueued_timers [unfolded timers_ok_def, rule_format])

lemma reachable_timers: "tcp_reachable ok m \<Longrightarrow> timers_ok m"
proof (induction rule: tcp_reachable.induct)
  case start
  then show ?case by (simp add: timers_ok_def TcpManager_new_def)
next
  case (step m m')
  from step_timers [OF step.hyps(2) step.IH] show ?case .
qed

section \<open>The first connection of a host\<close>

lemma lookup_empty [simp]: "handle_lookup h empty_tree = 0"
  by (simp add: handle_lookup_def empty_tree_def)

lemma lookup_one: "handle_lookup x \<lparr>root = Node Null h a i Null, nItems = n\<rparr> = (if handle_eq h x then a else 0)"
  by (simp add: handle_lookup_def)

lemma unused_first: "unused_id [] n = n"
  by (simp add: unused_id.simps)

text \<open>The manager after the first \<open>Connect\<close>.\<close>

definition connected :: "u32 \<Rightarrow> u16 \<Rightarrow> u16 \<Rightarrow> nat \<Rightarrow> nat \<Rightarrow> TcpManager \<Rightarrow> TcpManager" where
  "connected ip rport lport ep sz m =
     m\<lparr>m_NextConnId := m_NextConnId m + 1, m_NextTcpSequence := m_NextTcpSequence m + 64000,
       next_object := next_object m + 1,
       m_StateBlocks := one_tree (peer_handle lport ip rport) (next_object m),
       m_CurrentConnections := [(m_NextConnId m, peer_handle lport ip rport)],
       blocks := (blocks m)(next_object m := Some (connect_block ip rport lport ep sz (m_NextConnId m) (m_NextTcpSequence m))),
       sent := sent m @ [Tcp_send ip lport rport (m_NextTcpSequence m) 0 SYN (ucast (of_nat sz :: u32)) 0 None]\<rparr>"

lemma connect_first:
  assumes "endpoints m ep = Some e" "ep \<noteq> 0" "m_StateBlocks m = empty_tree" "m_CurrentConnections m = []"
  shows "TcpManager_Connect ip rport lport ep m =
    Some (m_NextConnId m, connected ip rport lport ep (TcpBuffer_getSize (m_ShadowDataStream e)) m)"
  using assms
  by (simp add: TcpManager_Connect_def getConnId_def getNextSequenceNumber_def new_block_def put_block_def
      transmit_def unused_first Let_def connected_def connect_block_def StateBlock_new_def)

section \<open>Properties of the reachable states\<close>

text \<open>C9: Whatever happens to a manager, nothing is ever sent again: the timer of a connection that is
  not in TIME-WAIT or closed does nothing, so a lost segment, or a lost SYN, stays lost.\<close>

theorem tcp_never_retransmits:
  assumes "tcp_reachable ok m" "blocks m a = Some b" "currentState b \<noteq> TIME_WAIT" "currentState b \<noteq> CLOSED"
  shows "StateBlock_timer delta b = (b, [], False)"
  using timer_idle timers_ok_get [OF reachable_timers [OF assms(1)] assms(2)] assms(3,4) by (auto simp: timer_ok_def)

abbreviation one_client :: TcpManager where
  "one_client \<equiv> connected 9 80 4000 1 32768
     (TcpManager_new\<lparr>next_object := 2, endpoints := (\<lambda>_. None)(1 := Some (TcpEndpoint_new 0))\<rparr>)"

lemma new_size: "TcpBuffer_getSize TcpBuffer_new = 32768"
  by (simp add: TcpBuffer_new_def TcpBuffer_sized_def TcpBuffer_setSize_def TcpBuffer_getSize_def)

lemma one_client_reachable: "tcp_reachable ok one_client"
proof -
  let ?m = "TcpManager_new\<lparr>next_object := 2, endpoints := (\<lambda>_. None)(1 := Some (TcpEndpoint_new 0))\<rparr>"
  have "TcpManager_getEndpoint 4000 TcpManager_new = (1, ?m)"
    by (simp add: TcpManager_getEndpoint_def new_endpoint_def put_endpoint_def TcpManager_new_def)
  then have "tcp_reachable ok ?m" by (blast intro: tcp_reachable.intros tcp_step.getEndpoint)
  moreover have "TcpManager_Connect 9 80 4000 1 ?m = Some (1, one_client)"
    using connect_first [of ?m 1 "TcpEndpoint_new 0" 9 80 4000] new_size
    by (simp add: TcpManager_new_def TcpEndpoint_new_def)
  ultimately show ?thesis by (blast intro: tcp_reachable.step tcp_step.Connect)
qed

theorem tcp_never_retransmits_witness:
  "\<forall>delta. StateBlock_timer delta (connect_block 9 80 4000 1 32768 1 1) = (connect_block 9 80 4000 1 32768 1 1, [], False)"
proof
  fix delta
  show "StateBlock_timer delta (connect_block 9 80 4000 1 32768 1 1) = (connect_block 9 80 4000 1 32768 1 1, [], False)"
    by (rule tcp_never_retransmits [OF one_client_reachable [of "\<lambda>_. True"], where a = 2])
      (simp_all add: connected_def connect_block_def TcpManager_new_def)
qed

section \<open>Transitions of a connection\<close>

lemma removeConn_sub:
  assumes "TcpManager_removeConn cid m = Some (r, m')" "blocks m' a = Some b"
  shows "blocks m a = Some b"
  using assms
  by (auto simp: TcpManager_removeConn_def locked_def Let_def bind_eq_Some_conv split: if_splits option.splits)

lemma finish_block:
  assumes "finish old x = Some m" "blocks m a = Some b'"
  shows "if a = address x \<and> a \<noteq> 0 then currentState b' = rx_state x else blocks (mgr x) a = Some b'"
proof -
  obtain x1 where 1: "tell_change old x = Some x1"
    "m = store_block x1 \<or> (\<exists>r m1. TcpManager_removeConn (connId (sb x1)) ((store_block x1)\<lparr>m_TcpMutex := False\<rparr>) = Some (r, m1) \<and>
       m = m1\<lparr>m_TcpMutex := True\<rparr>)"
    using assms(1) by (auto simp: finish_def bind_eq_Some_conv Let_def split: if_splits)
  have same: "blocks (mgr x1) = blocks (mgr x)" "rx_state x1 = rx_state x" "address x1 = address x"
    using 1(1) by (auto simp: tell_change_def bind_eq_Some_conv put_endpoint_def Let_def split: if_splits)
  have "blocks (store_block x1) a = Some b'"
    using 1(2) assms(2) removeConn_sub [of "connId (sb x1)" "(store_block x1)\<lparr>m_TcpMutex := False\<rparr>" _ _ a b'] by auto
  with same show ?thesis by (auto simp: store_block_def put_block_def split: if_splits)
qed

lemma switch_other_block:
  assumes "rx_switch ok s mss x = Some (w, y)" "a \<noteq> next_object (mgr x)"
  shows "blocks (mgr y) a = blocks (mgr x) a \<and> address y = address x"
proof (cases "rx_state x = LISTEN")
  case True
  with assms have "rx_listen ok s mss x = Some (w, y)" by (simp add: rx_switch_def)
  with assms(2) show ?thesis
    by (auto simp: rx_listen_def Let_def bind_eq_Some_conv new_block_def put_block_def getConnId_def
        getNextSequenceNumber_def split: if_splits)
qed (use rx_switch_blocks [OF assms(1)] in simp)

text \<open>C11: What a segment does to any connection of the manager: it stays in its state or makes one of
  the changes that \<open>may_move\<close> lists.\<close>

theorem tcp_transitions:
  assumes "TcpManager_receive ok s m = Some (r, m')" "blocks m a = Some b" "blocks m' a = Some b'"
    and "a \<noteq> 0" "a \<noteq> next_object m"
  shows "currentState b' = currentState b \<or> may_move (currentState b) (currentState b')"
proof -
  let ?m = "m\<lparr>m_TcpMutex := True\<rparr>" and ?d = "find_destination s m"
  have d: "find_destination s ?m = ?d" by (simp add: find_destination_def Let_def)
  obtain b0 b1 mss w x m1 where 1:
    "(if ?d = 0 then Some (StateBlock_new\<lparr>currentState := CLOSED\<rparr>) else blocks m ?d) = Some b0"
    "note_window ?m (fill_segment s b0) = Some b1"
    "rx_switch ok s mss \<lparr>mgr = ?m, address = ?d, sb = b1\<lparr>fin_ack := False\<rparr>, acked = False\<rparr> = Some (w, x)"
    "m1 = store_block x \<or> finish (currentState b1) x = Some m1" "m' = m1\<lparr>m_TcpMutex := False\<rparr>"
    using assms(1) unfolding TcpManager_receive_def locked_def
    by (fastforce simp: d Let_def bind_eq_Some_conv split: if_splits)
  have b1: "currentState b1 = currentState b0"
    using 1(2) by (auto simp: note_window_def fill_segment_def bind_eq_Some_conv split: if_splits)
  from switch_other_block [OF 1(3), of a] assms(5)
  have x: "blocks (mgr x) a = blocks m a" "address x = ?d" by simp_all
  have "if a = ?d then currentState b' = rx_state x else blocks m a = Some b'"
    using 1(4,5) assms(3,4) finish_block [of "currentState b1" x m1 a b'] x
    by (auto simp: store_block_def put_block_def split: if_splits)
  moreover have "a = ?d \<Longrightarrow> b0 = b" using 1(1) assms(2,4) by simp
  ultimately show ?thesis
    using rx_switch_moves [OF 1(3), THEN conjunct1] b1 assms(2) by (simp split: if_splits)
qed

end
