(* ===== verification/Tcp_Handshake.thy ===== *)
theory Tcp_Handshake
  imports Tcp_System
begin

text \<open>Two hosts at work: the connection is set up by the three segments of the handshake, data is
  delivered in order, and what becomes of a FIN.\<close>

section \<open>Segments that carry packets\<close>

text \<open>A segment that arrives carries the packet that was sent: its fields are those of the packet,
  and a SYN has the four bytes of the maximum segment size after the header.\<close>

definition carries :: "u32 \<Rightarrow> packet \<Rightarrow> tcp_segment \<Rightarrow> bool" where
  "carries src p s \<longleftrightarrow>
     t_from s = src \<and> t_srcPort s = p_srcPort p \<and> t_destPort s = p_destPort p \<and> t_seq s = p_seq p \<and>
     t_ack s = p_ack p \<and> t_flags s = p_flags p \<and> t_win s = p_window p \<and> t_payload s = p_payload p \<and>
     t_offset s = (case p_mss p of None \<Rightarrow> 5 | Some _ \<Rightarrow> 6) \<and>
     (case p_mss p of None \<Rightarrow> True
      | Some v \<Rightarrow> t_bytes s 20 = 2 \<and> t_bytes s 21 = 4 \<and> t_bytes s 22 = ucast (drop_bit 8 v) \<and> t_bytes s 23 = ucast v)"

lemma carried_options:
  assumes "carries src p s" "p_mss p = (if flag (p_flags p) SYN then Some 1460 else None)"
  shows "parse_options s mss = Some (if flag (p_flags p) SYN then 1460 else mss)"
proof (cases "flag (p_flags p) SYN")
  case True
  with assms have b: "t_bytes s 20 = 2" "t_bytes s 21 = 4" "t_bytes s 22 = 5" "t_bytes s 23 = 0xb4" "t_offset s = 6"
    "flag (t_flags s) SYN" by (simp_all add: carries_def)
  have "mss_options (t_bytes s) 24 24 1460 = Some 1460" by (subst mss_options.simps) simp
  with b have "mss_options (t_bytes s) 24 20 mss = Some 1460" by (subst mss_options.simps) (simp add: Let_def)
  with True b show ?thesis by (simp add: parse_options_def)
next
  case False
  with assms show ?thesis by (simp add: carries_def parse_options_def)
qed

lemma flag_bits [simp]:
  "flag SYN SYN" "\<not> flag SYN RST" "\<not> flag SYN ACK" "\<not> flag ACK RST" "\<not> flag ACK SYN" "flag ACK ACK" "\<not> flag ACK FIN"
  "flag (SYN OR ACK) ACK" "flag (SYN OR ACK) SYN" "\<not> flag (SYN OR ACK) RST"
  "flag (ACK OR PSH) ACK" "flag (ACK OR PSH) PSH" "\<not> flag (ACK OR PSH) SYN" "\<not> flag (ACK OR PSH) RST" "\<not> flag (ACK OR PSH) FIN"
  "flag (FIN OR ACK) ACK" "flag (FIN OR ACK) FIN" "\<not> flag (FIN OR ACK) SYN" "\<not> flag (FIN OR ACK) RST" "\<not> flag (FIN OR ACK) PSH"
  "\<not> flag ACK PSH"
  by (simp_all add: flag_def flag_defs)

section \<open>One segment for a known block\<close>

lemma receive_block:
  assumes "\<not> m_TcpMutex m" "find_destination s m = a" "a \<noteq> 0" "blocks m a = Some b"
    and "note_window m (fill_segment s b) = Some b1" "parse_options s (tcp_mss b1) = Some mss"
    and "rx_switch ok s mss \<lparr>mgr = m\<lparr>m_TcpMutex := True\<rparr>, address = a, sb = b1\<lparr>fin_ack := False\<rparr>, acked = False\<rparr> = Some (w, x)"
    and "w \<noteq> Return" "finish (currentState b1) x = Some m'"
  shows "TcpManager_receive ok s m = Some ((), m'\<lparr>m_TcpMutex := False\<rparr>)"
proof -
  have "find_destination s (m\<lparr>m_TcpMutex := True\<rparr>) = a"
    using assms(2) by (auto simp: find_destination_def Let_def split: if_splits)
  moreover have "note_window (m\<lparr>m_TcpMutex := True\<rparr>) (fill_segment s b) = Some b1"
    using assms(5) by (auto simp: note_window_def split: if_splits)
  ultimately show ?thesis
    using assms(1,3,4,6-9) by (simp add: TcpManager_receive_def locked_def Let_def)
qed

section \<open>The three segments\<close>

text \<open>A manager that listens on one port, and has no connections yet.\<close>

definition listening :: "u16 \<Rightarrow> nat \<Rightarrow> StateBlock \<Rightarrow> TcpEndpoint \<Rightarrow> TcpManager \<Rightarrow> bool" where
  "listening port la lb le m \<longleftrightarrow>
     \<not> m_TcpMutex m \<and> m_StateBlocks m = empty_tree \<and> m_ListeningStateBlocks m = one_tree (listen_handle port) la \<and>
     la \<noteq> 0 \<and> la \<noteq> next_object m \<and> next_object m \<noteq> 0 \<and> blocks m la = Some lb \<and> currentState lb = LISTEN \<and>
     endpoint lb \<noteq> 0 \<and> endpoint lb < next_object m \<and> endpoints m (endpoint lb) = Some le"

abbreviation fresh_id :: "TcpManager \<Rightarrow> nat" where
  "fresh_id m \<equiv> unused_id (map fst (m_CurrentConnections m)) (m_NextConnId m)"

definition server_block :: "tcp_segment \<Rightarrow> StateBlock \<Rightarrow> TcpManager \<Rightarrow> StateBlock" where
  "server_block s lb m = accept_block s 1460 (fresh_id m) (m_NextTcpSequence m) (fill_segment s lb)"

lemma listen_syn:
  assumes "listening (t_destPort s) la lb le m" "t_flags s = SYN"
    and "\<And>mss. parse_options s mss = Some 1460" "\<And>p. ok p"
  shows "\<exists>m'. TcpManager_receive ok s m = Some ((), m') \<and> \<not> m_TcpMutex m' \<and>
    m_StateBlocks m' = one_tree (segment_handle s) (next_object m) \<and>
    m_CurrentConnections m' = (fresh_id m, segment_handle s) # m_CurrentConnections m \<and>
    blocks m' (next_object m) = Some (server_block s lb m) \<and>
    endpoints m' = endpoints m \<and> next_object m' = next_object m + 1 \<and>
    sent m' = sent m @ [Tcp_send (t_from s) (t_destPort s) (t_srcPort s) (m_NextTcpSequence m) (t_seq s + 1) (SYN OR ACK) 16384 0 None]"
proof -
  note L = assms(1) [unfolded listening_def]
  let ?b1 = "(fill_segment s lb)\<lparr>snd_wnd := of_nat (TcpBuffer_getRemainingSize (m_ShadowDataStream le))\<rparr>"
  have d: "find_destination s m = la"
    using L by (simp add: find_destination_def segment_handle_def peer_handle_def listen_handle_def
        StateBlockHandle_new_def lookup_one [where i = 0] handle_eq_def)
  have b1: "note_window m (fill_segment s lb) = Some ?b1" "currentState ?b1 = LISTEN"
    using L by (simp_all add: note_window_def fill_segment_def)
  let ?m = "m\<lparr>m_TcpMutex := True\<rparr>" and ?a = "next_object m"
  let ?nb = "server_block s lb m"
  let ?m1 = "?m\<lparr>m_NextConnId := fresh_id m + 1, m_NextTcpSequence := m_NextTcpSequence m + 64000,
     next_object := ?a + 1, blocks := (blocks m)(?a := Some ?nb), m_StateBlocks := one_tree (segment_handle s) ?a,
     m_CurrentConnections := (fresh_id m, segment_handle s) # m_CurrentConnections m\<rparr>"
  have same: "accept_block s 1460 i q (?b1\<lparr>fin_ack := False\<rparr>) = accept_block s 1460 i q (fill_segment s lb)" for i q
    by (simp add: accept_block_def)
  let ?x = "reply ok s (m_NextTcpSequence m) (t_seq s + 1) (SYN OR ACK) 16384
     \<lparr>mgr = ?m1, address = la, sb = ?b1\<lparr>fin_ack := False\<rparr>, acked = False\<rparr>"
  have sw: "rx_switch ok s 1460 \<lparr>mgr = ?m, address = la, sb = ?b1\<lparr>fin_ack := False\<rparr>, acked = False\<rparr> = Some (Break, ?x)"
    using b1(2) L assms(2)
    by (simp add: rx_switch_def rx_listen_def getConnId_def getNextSequenceNumber_def new_block_def put_block_def Let_def
        same server_block_def [symmetric])
      (simp add: server_block_def accept_block_def fill_segment_def)
  have fin: "finish (currentState ?b1) ?x = Some (put_block la (?b1\<lparr>fin_ack := False\<rparr>) (mgr ?x))"
    using b1(2) L by (simp add: finish_def tell_change_def store_block_def)
  from L have m: "\<not> m_TcpMutex m" "la \<noteq> 0" "blocks m la = Some lb" by simp_all
  from receive_block [OF m(1) d m(2,3) b1(1) assms(3) sw _ fin] show ?thesis
    using L assms(4) by (simp add: put_block_def reply_def Let_def transmit_def)
qed

text \<open>The client's block when the answer has arrived.\<close>

definition client_block :: "tcp_segment \<Rightarrow> StateBlock \<Rightarrow> TcpEndpoint \<Rightarrow> StateBlock" where
  "client_block s b e =
     (fill_segment s b)\<lparr>snd_wnd := of_nat (TcpBuffer_getRemainingSize (m_ShadowDataStream e)), fin_ack := False,
       rcv_nxt := t_seq s + 1, irs := t_seq s, snd_una := t_ack s, currentState := ESTABLISHED, tcp_mss := 1460,
       waitState := waitState b + 1\<rparr>"

lemma find_connected:
  "handle_lookup (segment_handle s) (m_StateBlocks m) = a \<Longrightarrow> a \<noteq> 0 \<Longrightarrow> find_destination s m = a"
  by (simp add: find_destination_def Let_def)

lemma syn_sent_answer:
  assumes "\<not> m_TcpMutex m" "handle_lookup (segment_handle s) (m_StateBlocks m) = a" "a \<noteq> 0" "blocks m a = Some b"
    and "currentState b = SYN_SENT" "endpoint b \<noteq> 0" "endpoints m (endpoint b) = Some e"
    and "t_flags s = SYN OR ACK" "t_ack s = snd_nxt b" "iss b < snd_nxt b" "snd_una b \<le> snd_nxt b"
    and "\<And>mss. parse_options s mss = Some 1460" "\<And>p. ok p"
  shows "\<exists>m'. TcpManager_receive ok s m = Some ((), m') \<and> \<not> m_TcpMutex m' \<and> m_StateBlocks m' = m_StateBlocks m \<and>
    m_CurrentConnections m' = m_CurrentConnections m \<and>
    blocks m' = (blocks m)(a := Some (client_block s b e)) \<and>
    endpoints m' = (endpoints m)(endpoint b := Some (e\<lparr>notified := notified e + 1\<rparr>)) \<and>
    sent m' = sent m @ [Tcp_send (t_from s) (t_destPort s) (t_srcPort s) (snd_nxt b) (t_seq s + 1) ACK
      (ucast (snd_wnd (client_block s b e))) 0 None]"
proof -
  let ?w = "of_nat (TcpBuffer_getRemainingSize (m_ShadowDataStream e)) :: u32"
  let ?b1 = "(fill_segment s b)\<lparr>snd_wnd := ?w\<rparr>" and ?m = "m\<lparr>m_TcpMutex := True\<rparr>"
  let ?b2 = "?b1\<lparr>fin_ack := False, rcv_nxt := t_seq s + 1, irs := t_seq s, snd_una := t_ack s,
    currentState := ESTABLISHED, tcp_mss := 1460\<rparr>"
  have b1: "note_window m (fill_segment s b) = Some ?b1"
    using assms(6,7) by (simp add: note_window_def fill_segment_def)
  let ?x = "reply ok s (snd_nxt b) (t_seq s + 1) ACK (ucast ?w) \<lparr>mgr = ?m, address = a, sb = ?b2, acked = False\<rparr>"
  have "rx_switch ok s 1460 \<lparr>mgr = ?m, address = a, sb = ?b1\<lparr>fin_ack := False\<rparr>, acked = False\<rparr> = Some (Break, ?x)"
    using assms(5,8-11) by (simp add: rx_switch_def rx_syn_sent_def fill_segment_def Let_def not_le)
  moreover have "finish (currentState ?b1) ?x =
      Some (put_block a (client_block s b e) (put_endpoint (endpoint b) (e\<lparr>notified := notified e + 1\<rparr>) (mgr ?x)))"
    using assms(3,5,7,13)
    by (simp add: finish_def tell_change_def store_block_def fill_segment_def client_block_def reply_def transmit_def Let_def)
  ultimately show ?thesis
    using receive_block [OF assms(1) find_connected [OF assms(2,3)] assms(3,4) b1 assms(12)] assms(13)
    by (simp add: put_block_def put_endpoint_def reply_def Let_def transmit_def client_block_def)
qed

text \<open>The server's block when the acknowledgement has arrived, at the new endpoint \<open>a\<close>.\<close>

definition accepted_block :: "tcp_segment \<Rightarrow> StateBlock \<Rightarrow> TcpEndpoint \<Rightarrow> nat \<Rightarrow> StateBlock" where
  "accepted_block s b e a =
     (resetTimer 10 ((fill_segment s b)\<lparr>snd_wnd := of_nat (TcpBuffer_getRemainingSize (m_ShadowDataStream e)),
        fin_ack := False, endpoint := a, currentState := ESTABLISHED, snd_una := t_ack s\<rparr>))
     \<lparr>waitingForTimeout := False, waitState := waitState b + 1\<rparr>"

definition window_open :: "u32 \<Rightarrow> u16 \<Rightarrow> bool" where
  "window_open n wnd \<longleftrightarrow> wnd \<noteq> 0 \<longrightarrow> n < n + ucast wnd"

lemma window_zero: "(ucast (w :: u16) :: u32) = 0 \<longleftrightarrow> w = 0"
  by transfer (simp add: take_bit_eq_mod)

lemma established_pure_ack:
  assumes "t_flags s = ACK" "currentState b = ESTABLISHED" "snd_una b < seg_ack b" "seg_ack b = snd_nxt b"
  shows "established_ack ok s (x\<lparr>sb := b\<rparr>) =
    x\<lparr>sb := (resetTimer 10 (b\<lparr>snd_una := seg_ack b\<rparr>))\<lparr>waitingForTimeout := False\<rparr>\<rparr>"
proof -
  have "note_fin s b = b" using assms(1,2) by (simp add: note_fin_def)
  moreover have "note_una b = (resetTimer 10 (b\<lparr>snd_una := seg_ack b\<rparr>))\<lparr>waitingForTimeout := False\<rparr>"
    using assms(3,4) by (simp add: note_una_def resetTimer_def Let_def)
  ultimately show ?thesis
    using assms by (simp add: established_ack_def note_wnd_def note_fin_acked_def resetTimer_def Let_def)
qed

lemma process_ack_idle:
  assumes "flag (t_flags s) ACK" "retransmitQueue (sb x) = []"
  shows "process_ack ok s x =
    do { (w, y) \<leftarrow> ack_switch ok s x; if w = Next \<and> rx_state y = CLOSED then Some (Break, y) else Some (w, y) }"
proof -
  have same: "x\<lparr>sb := (sb x)\<lparr>retransmitQueue := []\<rparr>\<rparr> = x" using assms(2) by (cases x; cases "sb x") simp
  from assms show ?thesis by (simp add: process_ack_def same)
qed

lemma syn_received_ack:
  assumes "\<not> m_TcpMutex m" "handle_lookup (segment_handle s) (m_StateBlocks m) = a" "a \<noteq> 0" "blocks m a = Some b"
    and "currentState b = SYN_RECEIVED" "endpoint b \<noteq> 0" "endpoints m (endpoint b) = Some le" "endpoint b < next_object m"
    and "t_flags s = ACK" "t_payload s = []" "t_seq s = rcv_nxt b" "t_ack s = snd_nxt b" "snd_una b < snd_nxt b"
    and "retransmitQueue b = []" "window_open (rcv_nxt b) (t_win s)" "\<And>p. ok p"
  shows "\<exists>m'. TcpManager_receive ok s m = Some ((), m') \<and> \<not> m_TcpMutex m' \<and> m_StateBlocks m' = m_StateBlocks m \<and>
    m_CurrentConnections m' = m_CurrentConnections m \<and>
    blocks m' = (blocks m)(a := Some (accepted_block s b le (next_object m))) \<and>
    endpoints m' = (endpoints m)(next_object m := Some ((TcpEndpoint_new (connId b))\<lparr>notified := 1\<rparr>),
      endpoint b := Some (addIncomingConnection (next_object m) le)) \<and>
    sent m' = sent m"
proof -
  let ?b1 = "(fill_segment s b)\<lparr>snd_wnd := of_nat (TcpBuffer_getRemainingSize (m_ShadowDataStream le))\<rparr>"
  let ?m = "m\<lparr>m_TcpMutex := True\<rparr>" and ?e = "next_object m"
  let ?b0 = "?b1\<lparr>fin_ack := False\<rparr>"
  let ?b2 = "?b0\<lparr>endpoint := ?e, currentState := ESTABLISHED\<rparr>"
  let ?b3 = "(resetTimer 10 (?b2\<lparr>snd_una := t_ack s\<rparr>))\<lparr>waitingForTimeout := False\<rparr>"
  let ?x = "\<lparr>mgr = ?m, address = a, sb = ?b0, acked = False\<rparr>"
  let ?m2 = "put_endpoint (endpoint b) (addIncomingConnection ?e le) (put_endpoint ?e (TcpEndpoint_new (connId b)) (?m\<lparr>next_object := ?e + 1\<rparr>))"
  let ?y = "\<lparr>mgr = ?m2, address = a, sb = ?b3, acked = False\<rparr>"
  have b1: "note_window m (fill_segment s b) = Some ?b1"
    using assms(6,7) by (simp add: note_window_def fill_segment_def)
  have opts: "parse_options s (tcp_mss ?b1) = Some (tcp_mss b)"
    using assms(9) by (simp add: parse_options_def fill_segment_def)
  have acc: "acceptable ?b0"
    using assms(10,11,15) by (simp add: acceptable_def fill_segment_def window_open_def window_zero)
  have est: "establish ok s ?x = Some (Next, ?y)"
  proof -
    have "seg_ack ?b2 = snd_nxt ?b2" "snd_una ?b2 < seg_ack ?b2" using assms(12,13) by (simp_all add: fill_segment_def)
    with established_pure_ack [OF assms(9), where b = ?b2 and ok = ok and x = "\<lparr>mgr = ?m2, address = a, sb = ?b0, acked = False\<rparr>"]
    have "established_ack ok s \<lparr>mgr = ?m2, address = a, sb = ?b2, acked = False\<rparr> = ?y"
      by (simp add: fill_segment_def)
    then show ?thesis
      using assms(6,7,8,12,13)
      by (simp add: establish_def new_endpoint_def put_endpoint_def fill_segment_def Let_def)
  qed
  have "process_ack ok s ?x = Some (Next, ?y)"
    using est assms(5,9,14)
    by (subst process_ack_idle) (simp_all add: ack_switch_def fill_segment_def resetTimer_def)
  moreover have "process_payload ok s ?y = Some (Next, ?y)" "process_fin ok s ?y = Some (Break, ?y)"
    using assms(9,10,11) by (simp_all add: process_payload_def process_fin_def resetTimer_def fill_segment_def)
  ultimately have "rx_switch ok s (tcp_mss b) ?x = Some (Break, ?y)"
    using acc assms(5,9)
    by (simp add: rx_switch_def rx_synchronised_def then_stage_def refuse_syn_def check_window_def check_rst_def fill_segment_def)
  moreover have "finish (currentState ?b1) ?y =
      Some (put_block a (accepted_block s b le ?e) (put_endpoint ?e ((TcpEndpoint_new (connId b))\<lparr>notified := 1\<rparr>) ?m2))"
    using assms(3,5,8)
    by (simp add: finish_def tell_change_def store_block_def accepted_block_def resetTimer_def put_endpoint_def
        TcpEndpoint_new_def fill_segment_def)
  ultimately show ?thesis
    using receive_block [OF assms(1) find_connected [OF assms(2,3)] assms(3,4) b1 opts] assms(8)
    by (simp add: put_block_def put_endpoint_def accepted_block_def fun_upd_twist)
qed

section \<open>The handshake\<close>

text \<open>The block of a connection.\<close>

definition conn_block :: "nat \<Rightarrow> TcpManager \<Rightarrow> StateBlock option" where
  "conn_block cid m = (if find_block cid m = 0 then None else blocks m (find_block cid m))"

lemma conn_block_first:
  "m_CurrentConnections m = (cid, h) # cs \<Longrightarrow> m_StateBlocks m = one_tree h a \<Longrightarrow> a \<noteq> 0 \<Longrightarrow>
     conn_block cid m = blocks m a"
  by (simp add: conn_block_def find_block_def connection_def lookup_one [where i = 0])

text \<open>Two established connections that agree: each side expects the sequence number that the other
  sends next, and nothing is left unacknowledged.\<close>

definition peers :: "nat \<Rightarrow> TcpManager \<Rightarrow> nat \<Rightarrow> TcpManager \<Rightarrow> bool" where
  "peers cid c sid s \<longleftrightarrow>
     (case (conn_block cid c, conn_block sid s) of
        (Some b, Some b') \<Rightarrow> currentState b = ESTABLISHED \<and> currentState b' = ESTABLISHED \<and>
          rcv_nxt b = snd_nxt b' \<and> rcv_nxt b' = snd_nxt b \<and> snd_una b = snd_nxt b \<and> snd_una b' = snd_nxt b'
      | _ \<Rightarrow> False)"

text \<open>The connection that an endpoint will accept next after those it has already.\<close>

definition newly_accepted :: "nat \<Rightarrow> TcpManager \<Rightarrow> TcpManager \<Rightarrow> nat \<Rightarrow> bool" where
  "newly_accepted ep s s' cid \<longleftrightarrow>
     (\<exists>le le' b. endpoints s ep = Some le \<and> endpoints s' ep = Some le' \<and> conn_block cid s' = Some b \<and>
        m_IncomingConnections le' = m_IncomingConnections le @ [endpoint b])"

lemma handshake_answer:
  assumes "\<not> m_TcpMutex c0" "next_object c0 \<noteq> 0" "ep \<noteq> 0" "endpoints c0 ep = Some e"
    and "m_NextTcpSequence c0 < m_NextTcpSequence c0 + 1" "\<And>p. ok p"
    and "carries sip (Tcp_send cip sport cport sq (m_NextTcpSequence c0 + 1) (SYN OR ACK) 16384 0 None) s"
  shows "\<exists>c2. TcpManager_receive ok s (connected sip sport cport ep sz c0) = Some ((), c2) \<and>
    conn_block (m_NextConnId c0) c2 =
      Some (client_block s (connect_block sip sport cport ep sz (m_NextConnId c0) (m_NextTcpSequence c0)) e) \<and>
    sent c2 = sent (connected sip sport cport ep sz c0) @ [Tcp_send sip cport sport (m_NextTcpSequence c0 + 1) (sq + 1) ACK
      (ucast (of_nat (TcpBuffer_getRemainingSize (m_ShadowDataStream e)) :: u32)) 0 None]"
proof -
  let ?b = "connect_block sip sport cport ep sz (m_NextConnId c0) (m_NextTcpSequence c0)" and ?a = "next_object c0"
  let ?c = "connected sip sport cport ep sz c0"
  have f: "t_destPort s = cport" "t_flags s = SYN OR ACK" "t_from s = sip" "t_srcPort s = sport"
    "t_seq s = sq" "t_ack s = m_NextTcpSequence c0 + 1"
    using assms(7) by (simp_all add: carries_def Tcp_send_def)
  have o: "parse_options s mss = Some 1460" for mss
    using carried_options [OF assms(7)] by (simp add: Tcp_send_def)
  have h: "handle_lookup (segment_handle s) (m_StateBlocks ?c) = ?a"
    using f by (simp add: connected_def segment_handle_def lookup_one [where i = 0])
  have c: "\<not> m_TcpMutex ?c" "blocks ?c ?a = Some ?b" "currentState ?b = SYN_SENT" "endpoint ?b = ep"
    "endpoints ?c ep = Some e" "snd_nxt ?b = m_NextTcpSequence c0 + 1" "iss ?b = m_NextTcpSequence c0"
    "snd_una ?b = m_NextTcpSequence c0"
    using assms(1,4) by (simp_all add: connected_def connect_block_def)
  have "snd_una ?b \<le> snd_nxt ?b" using assms(5) c by simp
  from syn_sent_answer [of ?c s ?a ?b e ok, OF c(1) h assms(2) c(2,3) _ _ f(2) _ _ this o assms(6)] assms(3,5) c f
  obtain c2 where c2: "TcpManager_receive ok s ?c = Some ((), c2)" "m_StateBlocks c2 = m_StateBlocks ?c"
    "m_CurrentConnections c2 = m_CurrentConnections ?c" "blocks c2 ?a = Some (client_block s ?b e)"
    "sent c2 = sent ?c @ [Tcp_send sip cport sport (m_NextTcpSequence c0 + 1) (sq + 1) ACK
      (ucast (of_nat (TcpBuffer_getRemainingSize (m_ShadowDataStream e)) :: u32)) 0 None]"
    by (auto simp: client_block_def)
  have "conn_block (m_NextConnId c0) c2 = blocks c2 ?a"
    by (rule conn_block_first [where h = "peer_handle cport sip sport" and cs = "[]"])
      (use c2(2,3) assms(2) in \<open>simp_all add: connected_def\<close>)
  with c2 show ?thesis by auto
qed

lemma handshake_syn:
  assumes "listening sport la lb le s0" "\<And>p. ok p" "carries cip (Tcp_send sip cport sport q 0 SYN w 0 None) s"
  shows "\<exists>s1. TcpManager_receive ok s s0 = Some ((), s1) \<and> \<not> m_TcpMutex s1 \<and>
    m_StateBlocks s1 = one_tree (peer_handle sport cip cport) (next_object s0) \<and>
    m_CurrentConnections s1 = (fresh_id s0, peer_handle sport cip cport) # m_CurrentConnections s0 \<and>
    blocks s1 (next_object s0) = Some (server_block s lb s0) \<and> endpoints s1 = endpoints s0 \<and>
    next_object s1 = next_object s0 + 1 \<and>
    sent s1 = sent s0 @ [Tcp_send cip sport cport (m_NextTcpSequence s0) (q + 1) (SYN OR ACK) 16384 0 None]"
proof -
  have f: "t_destPort s = sport" "t_flags s = SYN" "t_from s = cip" "t_srcPort s = cport" "t_seq s = q"
    using assms(3) by (simp_all add: carries_def Tcp_send_def)
  have o: "parse_options s mss = Some 1460" for mss
    using carried_options [OF assms(3)] by (simp add: Tcp_send_def)
  from listen_syn [where ok = ok, OF assms(1) [folded f(1)] f(2) o assms(2)] f show ?thesis
    by (simp add: segment_handle_def)
qed

lemma handshake_ack:
  assumes "listening sport la lb le s0" "\<And>p. ok p" "m_NextTcpSequence s0 < m_NextTcpSequence s0 + 1" "window_open (q + 1) w'"
    and "carries cip (Tcp_send sip cport sport q 0 SYN w 0 None) s"
    and "\<not> m_TcpMutex s1" "m_StateBlocks s1 = one_tree (peer_handle sport cip cport) (next_object s0)"
    and "m_CurrentConnections s1 = (fresh_id s0, peer_handle sport cip cport) # m_CurrentConnections s0"
    and "blocks s1 (next_object s0) = Some (server_block s lb s0)" "endpoints s1 = endpoints s0" "next_object s1 = next_object s0 + 1"
    and "carries cip (Tcp_send sip cport sport (q + 1) (m_NextTcpSequence s0 + 1) ACK w' 0 None) s3"
  shows "\<exists>s2. TcpManager_receive ok s3 s1 = Some ((), s2) \<and>
    conn_block (fresh_id s0) s2 = Some (accepted_block s3 (server_block s lb s0) le (next_object s1)) \<and>
    endpoints s2 (endpoint lb) = Some (addIncomingConnection (next_object s1) le)"
proof -
  let ?b = "server_block s lb s0" and ?a = "next_object s0"
  note L = assms(1) [unfolded listening_def]
  have f: "t_destPort s3 = sport" "t_flags s3 = ACK" "t_from s3 = cip" "t_srcPort s3 = cport" "t_seq s3 = q + 1"
    "t_ack s3 = m_NextTcpSequence s0 + 1" "t_payload s3 = []" "t_win s3 = w'" "t_seq s = q"
    using assms(5,12) by (simp_all add: carries_def Tcp_send_def)
  have h: "handle_lookup (segment_handle s3) (m_StateBlocks s1) = ?a"
    using f assms(7) by (simp add: segment_handle_def lookup_one [where i = 0])
  have b: "currentState ?b = SYN_RECEIVED" "endpoint ?b = endpoint lb" "rcv_nxt ?b = q + 1" "snd_nxt ?b = m_NextTcpSequence s0 + 1"
    "snd_una ?b = m_NextTcpSequence s0" "retransmitQueue ?b = []"
    using f by (simp_all add: server_block_def accept_block_def StateBlock_new_def fill_segment_def)
  have a: "?a \<noteq> 0" "endpoint ?b \<noteq> 0" "endpoints s1 (endpoint ?b) = Some le" "endpoint ?b < next_object s1"
    using L assms(10,11) b(2) by simp_all
  from syn_received_ack [where ok = ok, OF assms(6) h a(1) assms(9) b(1) a(2-4) f(2,7) _ _ _ b(6) _ assms(2)] assms(3,4) b f
  obtain s2 where s2: "TcpManager_receive ok s3 s1 = Some ((), s2)" "m_StateBlocks s2 = m_StateBlocks s1"
    "m_CurrentConnections s2 = m_CurrentConnections s1" "blocks s2 ?a = Some (accepted_block s3 ?b le (next_object s1))"
    "endpoints s2 (endpoint lb) = Some (addIncomingConnection (next_object s1) le)"
    by auto
  have "conn_block (fresh_id s0) s2 = blocks s2 ?a"
    by (rule conn_block_first [where h = "peer_handle sport cip cport"])
      (use s2(2,3) assms(7,8) a(1) in simp_all)
  with s2 show ?thesis by auto
qed

text \<open>C7: A first connection from a host at \<open>cip\<close> to a host at \<open>sip\<close> that listens: after \<open>Connect\<close>,
  and whenever the segments that arrive carry the packets that were sent, the two managers
  process the three segments, both connections are established and agree, and the listening endpoint
  has the new connection to accept.\<close>

theorem tcp_handshake:
  assumes "\<not> m_TcpMutex c0" "m_StateBlocks c0 = empty_tree" "m_CurrentConnections c0 = []"
    and "endpoints c0 ep = Some e" "ep \<noteq> 0" "next_object c0 \<noteq> 0" "listening sport la lb le s0"
    and "m_NextTcpSequence c0 < m_NextTcpSequence c0 + 1" "m_NextTcpSequence s0 < m_NextTcpSequence s0 + 1"
    and "window_open (m_NextTcpSequence c0 + 1) (ucast (of_nat (TcpBuffer_getRemainingSize (m_ShadowDataStream e)) :: u32))"
    and "\<And>p. ok p"
  shows "\<exists>cid c1 p1. TcpManager_Connect sip sport cport ep c0 = Some (cid, c1) \<and> sent c1 = sent c0 @ [p1] \<and>
    (\<forall>seg1. carries cip p1 seg1 \<longrightarrow>
      (\<exists>s1 p2. TcpManager_receive ok seg1 s0 = Some ((), s1) \<and> sent s1 = sent s0 @ [p2] \<and>
        (\<forall>seg2. carries sip p2 seg2 \<longrightarrow>
          (\<exists>c2 p3. TcpManager_receive ok seg2 c1 = Some ((), c2) \<and> sent c2 = sent c1 @ [p3] \<and>
            (\<forall>seg3. carries cip p3 seg3 \<longrightarrow>
              (\<exists>s2 sid. TcpManager_receive ok seg3 s1 = Some ((), s2) \<and> peers cid c2 sid s2 \<and>
                 newly_accepted (endpoint lb) s0 s2 sid))))))"
proof -
  let ?sz = "TcpBuffer_getSize (m_ShadowDataStream e)" and ?q = "m_NextTcpSequence c0" and ?sq = "m_NextTcpSequence s0"
    and ?w = "ucast (of_nat (TcpBuffer_getRemainingSize (m_ShadowDataStream e)) :: u32) :: u16"
  let ?c1 = "connected sip sport cport ep ?sz c0"
    and ?b = "connect_block sip sport cport ep ?sz (m_NextConnId c0) ?q"
  let ?p1 = "Tcp_send sip cport sport ?q 0 SYN (ucast (of_nat ?sz :: u32)) 0 None"
    and ?p2 = "Tcp_send cip sport cport ?sq (?q + 1) (SYN OR ACK) 16384 0 None"
    and ?p3 = "Tcp_send sip cport sport (?q + 1) (?sq + 1) ACK ?w 0 None"
  have agree: "peers (m_NextConnId c0) c2 (fresh_id s0) s2 \<and> newly_accepted (endpoint lb) s0 s2 (fresh_id s0)"
    if "conn_block (m_NextConnId c0) c2 = Some (client_block seg2 ?b e)" "t_seq seg2 = ?sq" "t_ack seg2 = ?q + 1"
      "conn_block (fresh_id s0) s2 = Some (accepted_block seg3 (server_block seg1 lb s0) le a)" "t_seq seg1 = ?q" "t_ack seg3 = ?sq + 1"
      "endpoints s2 (endpoint lb) = Some (addIncomingConnection a le)" for c2 seg1 seg2 seg3 s2 a
    using that assms(7)
    by (simp add: peers_def newly_accepted_def client_block_def accepted_block_def server_block_def accept_block_def
        StateBlock_new_def fill_segment_def connect_block_def resetTimer_def listening_def addIncomingConnection_def)
  have f: "carries src (Tcp_send d p1 p2 sq ak fl w n d') seg \<Longrightarrow> t_seq seg = sq \<and> t_ack seg = ak"
    for src d p1 p2 sq ak fl w n d' seg by (simp add: carries_def Tcp_send_def)
  have answer: "\<exists>c2 p3. TcpManager_receive ok seg2 ?c1 = Some ((), c2) \<and> sent c2 = sent ?c1 @ [p3] \<and>
      (\<forall>seg3. carries cip p3 seg3 \<longrightarrow>
        (\<exists>s2 sid. TcpManager_receive ok seg3 s1 = Some ((), s2) \<and> peers (m_NextConnId c0) c2 sid s2 \<and>
           newly_accepted (endpoint lb) s0 s2 sid))"
    if 1: "carries cip ?p1 seg1" and 2: "carries sip ?p2 seg2" and s1: "\<not> m_TcpMutex s1"
      "m_StateBlocks s1 = one_tree (peer_handle sport cip cport) (next_object s0)"
      "m_CurrentConnections s1 = (fresh_id s0, peer_handle sport cip cport) # m_CurrentConnections s0"
      "blocks s1 (next_object s0) = Some (server_block seg1 lb s0)" "endpoints s1 = endpoints s0" "next_object s1 = next_object s0 + 1"
    for seg1 seg2 s1
  proof -
    obtain c2 where c2: "TcpManager_receive ok seg2 ?c1 = Some ((), c2)" "sent c2 = sent ?c1 @ [?p3]"
      "conn_block (m_NextConnId c0) c2 = Some (client_block seg2 ?b e)"
      using handshake_answer [where ok = ok, OF assms(1,6,5,4,8,11) 2] by blast
    have "\<exists>s2 sid. TcpManager_receive ok seg3 s1 = Some ((), s2) \<and> peers (m_NextConnId c0) c2 sid s2 \<and>
        newly_accepted (endpoint lb) s0 s2 sid" if 3: "carries cip ?p3 seg3" for seg3
      using handshake_ack [where ok = ok, OF assms(7,11,9,10) 1 s1 3] agree [OF c2(3)] f [OF 1] f [OF 2] f [OF 3] by blast
    with c2 show ?thesis by blast
  qed
  have "\<exists>s1 p2. TcpManager_receive ok seg1 s0 = Some ((), s1) \<and> sent s1 = sent s0 @ [p2] \<and>
        (\<forall>seg2. carries sip p2 seg2 \<longrightarrow>
          (\<exists>c2 p3. TcpManager_receive ok seg2 ?c1 = Some ((), c2) \<and> sent c2 = sent ?c1 @ [p3] \<and>
            (\<forall>seg3. carries cip p3 seg3 \<longrightarrow>
              (\<exists>s2 sid. TcpManager_receive ok seg3 s1 = Some ((), s2) \<and> peers (m_NextConnId c0) c2 sid s2 \<and>
                 newly_accepted (endpoint lb) s0 s2 sid))))" if 1: "carries cip ?p1 seg1" for seg1
    using handshake_syn [where ok = ok, OF assms(7,11) 1] answer [OF 1] by blast
  moreover have "TcpManager_Connect sip sport cport ep c0 = Some (m_NextConnId c0, ?c1)" "sent ?c1 = sent c0 @ [?p1]"
    using connect_first [OF assms(4,5,2,3)] by (simp_all add: connected_def)
  ultimately show ?thesis by blast
qed

abbreviation client_host :: TcpManager where
  "client_host \<equiv> TcpManager_new\<lparr>next_object := 2, endpoints := (\<lambda>_. None)(1 := Some (TcpEndpoint_new 0))\<rparr>"

abbreviation listen_block :: StateBlock where
  "listen_block \<equiv> StateBlock_new\<lparr>localPort := 80, connId := 1, currentState := LISTEN, endpoint := 1\<rparr>"

abbreviation server_host :: TcpManager where
  "server_host \<equiv> TcpManager_new\<lparr>m_NextConnId := 2, m_ListeningStateBlocks := one_tree (listen_handle 80) 2,
     m_CurrentConnections := [(1, listen_handle 80)], next_object := 3,
     blocks := (\<lambda>_. None)(2 := Some listen_block), endpoints := (\<lambda>_. None)(1 := Some (TcpEndpoint_new 0))\<rparr>"

theorem tcp_handshake_witness:
  "\<exists>cid c1 p1. TcpManager_Connect 8 80 4000 1 client_host = Some (cid, c1) \<and> sent c1 = [p1] \<and>
    (\<forall>seg1. carries 9 p1 seg1 \<longrightarrow>
      (\<exists>s1 p2. TcpManager_receive (\<lambda>_. True) seg1 server_host = Some ((), s1) \<and> sent s1 = [p2] \<and>
        (\<forall>seg2. carries 8 p2 seg2 \<longrightarrow>
          (\<exists>c2 p3. TcpManager_receive (\<lambda>_. True) seg2 c1 = Some ((), c2) \<and> sent c2 = sent c1 @ [p3] \<and>
            (\<forall>seg3. carries 9 p3 seg3 \<longrightarrow>
              (\<exists>s2 sid. TcpManager_receive (\<lambda>_. True) seg3 s1 = Some ((), s2) \<and> peers cid c2 sid s2 \<and>
                 newly_accepted 1 server_host s2 sid))))))"
proof -
  have n: "sent client_host = []" "sent server_host = []" "endpoint listen_block = 1" by (simp_all add: TcpManager_new_def)
  have "listening 80 2 listen_block (TcpEndpoint_new 0) server_host"
    by (simp add: listening_def TcpManager_new_def)
  from tcp_handshake [where ok = "\<lambda>_. True", OF _ _ _ _ _ _ this, of client_host 1 "TcpEndpoint_new 0" 8 4000 9] show ?thesis
    unfolding n
    by (simp add: TcpManager_new_def window_open_def TcpEndpoint_new_def TcpBuffer_new_def TcpBuffer_sized_def
        TcpBuffer_setSize_def TcpBuffer_getRemainingSize_def)
qed

end
