(* ===== verification/Tcp_Stream.thy ===== *)
theory Tcp_Stream
  imports Tcp_Handshake
begin

text \<open>Data on an established connection: segments that arrive in order are delivered and
  acknowledged, and what becomes of a FIN.\<close>

section \<open>One segment of data\<close>

text \<open>A connection at address \<open>a\<close> whose user has nothing outstanding, and whose endpoint holds the
  unread bytes \<open>xs\<close>.  The buffers still take fewer than \<open>r\<close> and \<open>r'\<close> bytes before they wrap.\<close>

definition receiving :: "tcp_segment \<Rightarrow> nat \<Rightarrow> u32 \<Rightarrow> nat \<Rightarrow> nat \<Rightarrow> u8 list \<Rightarrow> TcpManager \<Rightarrow> bool" where
  "receiving s a nxt r r' xs m \<longleftrightarrow>
     \<not> m_TcpMutex m \<and> a \<noteq> 0 \<and> handle_lookup (segment_handle s) (m_StateBlocks m) = a \<and>
     (\<exists>b e. blocks m a = Some b \<and> currentState b = ESTABLISHED \<and> rcv_nxt b = nxt \<and> retransmitQueue b = [] \<and>
        snd_una b = snd_nxt b \<and> t_ack s = snd_nxt b \<and>
        endpoint b \<noteq> 0 \<and> endpoints m (endpoint b) = Some e \<and>
        linear (m_ShadowDataStream e) r [] \<and> linear (m_DataStream e) r' xs)"

definition data_segment :: "u32 \<Rightarrow> u8 list \<Rightarrow> tcp_segment \<Rightarrow> bool" where
  "data_segment nxt d s \<longleftrightarrow>
     t_flags s = ACK OR PSH \<and> t_seq s = nxt \<and> t_payload s = d \<and> d \<noteq> [] \<and> length d \<le> 0xFFFF \<and>
     t_win s \<noteq> 0 \<and> nxt < nxt + ucast (t_win s)"

lemma established_idle:
  assumes "t_flags s = ACK OR PSH" "currentState b = ESTABLISHED" "snd_una b = seg_ack b" "seg_ack b = snd_nxt b"
  shows "established_ack ok s (x\<lparr>sb := b\<rparr>) = x\<lparr>sb := (resetTimer 10 b)\<lparr>waitingForTimeout := False\<rparr>\<rparr>"
proof -
  have "note_fin s b = b" using assms(1,2) by (simp add: note_fin_def)
  moreover have "note_una b = (resetTimer 10 b)\<lparr>waitingForTimeout := False\<rparr>"
    using assms(3,4) by (simp add: note_una_def resetTimer_def Let_def)
  ultimately show ?thesis
    using assms by (simp add: established_ack_def note_wnd_def note_fin_acked_def resetTimer_def Let_def)
qed

text \<open>The deposit of data for which there is room.\<close>

lemma deposit_room:
  assumes "endpoint (sb x) \<noteq> 0" "endpoints (mgr x) (endpoint (sb x)) = Some e"
    and "linear (m_ShadowDataStream e) r []" "linear (m_DataStream e) r' xs"
    and "length d < r" "length d < r'" "length d \<le> 0xFFFF"
    and "seg_len (sb x) = of_nat (length d)" "t_payload s = d" "t_flags s = ACK OR PSH" "\<And>p. ok p"
  shows "\<exists>y b e'. deposit_data ok s x = Some y \<and> sb y = b \<and> address y = address x \<and>
    b = (sb x)\<lparr>rcv_nxt := rcv_nxt (sb x) + of_nat (length d), snd_wnd := snd_wnd b, numEndpointPackets := numEndpointPackets (sb x) + 1\<rparr> \<and>
    mgr y = transmit [Tcp_send (t_from s) (t_destPort s) (t_srcPort s) (snd_nxt b) (rcv_nxt b) ACK (ucast (snd_wnd b)) 0 None]
      (put_endpoint (endpoint (sb x)) e' (mgr x)) \<and>
    linear (m_ShadowDataStream e') (r - length d) [] \<and> linear (m_DataStream e') (r' - length d) (xs @ d)"
proof -
  have len: "unat (seg_len (sb x)) = length d" using assms(7,8) by (simp add: unat_of_nat take_bit_eq_mod)
  have room: "\<not> unat (seg_len (sb x)) > TcpBuffer_getRemainingSize (m_ShadowDataStream e)"
    using linear_sizes [OF assms(3)] assms(5) len by simp
  obtain e' where e': "depositPayload (length d) (Some d) True e = (length d, e')"
    "linear (m_ShadowDataStream e') (r - length d) []" "linear (m_DataStream e') (r' - length d) (xs @ d)"
    using deposit_linear [OF assms(3,4,5,7), of True] assms(6) by auto
  then show ?thesis
    using assms(1,2,9,10,11) room len
    by (simp add: deposit_data_def Let_def reply_ack_def transmit_def) blast
qed

lemma receive_data:
  assumes "receiving s a nxt r r' xs m" "data_segment nxt d s" "length d < r" "length d < r'" "\<And>p. ok p"
  shows "\<exists>m' p. TcpManager_receive ok s m = Some ((), m') \<and> sent m' = sent m @ [p] \<and>
    p_ack p = nxt + of_nat (length d) \<and> m_StateBlocks m' = m_StateBlocks m \<and>
    (\<forall>s'. segment_handle s' = segment_handle s \<longrightarrow> t_ack s' = t_ack s \<longrightarrow>
       receiving s' a (nxt + of_nat (length d)) (r - length d) (r' - length d) (xs @ d) m') \<and>
    (\<exists>b b' e'. blocks m a = Some b \<and> blocks m' a = Some b' \<and> endpoint b' = endpoint b \<and> endpoints m' (endpoint b) = Some e' \<and>
       linear (m_DataStream e') (r' - length d) (xs @ d))"
proof -
  obtain b e where 1: "blocks m a = Some b" "currentState b = ESTABLISHED" "rcv_nxt b = nxt" "retransmitQueue b = []"
    "snd_una b = snd_nxt b" "t_ack s = snd_nxt b" "endpoint b \<noteq> 0" "endpoints m (endpoint b) = Some e"
    "linear (m_ShadowDataStream e) r []" "linear (m_DataStream e) r' xs" "\<not> m_TcpMutex m" "a \<noteq> 0"
    "handle_lookup (segment_handle s) (m_StateBlocks m) = a"
    using assms(1) unfolding receiving_def by blast
  note S = assms(2) [unfolded data_segment_def]
  let ?w = "of_nat (TcpBuffer_getRemainingSize (m_ShadowDataStream e)) :: u32" and ?m = "m\<lparr>m_TcpMutex := True\<rparr>"
  let ?b1 = "(fill_segment s b)\<lparr>snd_wnd := ?w\<rparr>"
  let ?b0 = "?b1\<lparr>fin_ack := False\<rparr>"
  let ?x = "\<lparr>mgr = ?m, address = a, sb = ?b0, acked = False\<rparr>"
  let ?y = "\<lparr>mgr = ?m, address = a, sb = (resetTimer 10 ?b0)\<lparr>waitingForTimeout := False\<rparr>, acked = False\<rparr>"
  have b1: "note_window m (fill_segment s b) = Some ?b1" using 1 by (simp add: note_window_def fill_segment_def)
  have opts: "parse_options s (tcp_mss ?b1) = Some (tcp_mss b)" using S by (simp add: parse_options_def fill_segment_def)
  have "unat (of_nat (length d) :: u32) = length d" using S by (simp add: unat_of_nat take_bit_eq_mod)
  then have len: "of_nat (length d) \<noteq> (0 :: u32)" using S by (metis unat_0 length_0_conv)
  have acc: "acceptable ?b0"
    using S 1(3) len by (simp add: acceptable_def fill_segment_def window_zero)
  have "process_ack ok s ?x = Some (Next, ?y)"
    using S 1 established_idle [of s ?b0 ok ?x]
    by (subst process_ack_idle) (simp_all add: ack_switch_def fill_segment_def resetTimer_def)
  moreover obtain y c e' where y: "deposit_data ok s ?y = Some y" "sb y = c" "address y = a"
    "c = (sb ?y)\<lparr>rcv_nxt := rcv_nxt (sb ?y) + of_nat (length d), snd_wnd := snd_wnd c, numEndpointPackets := numEndpointPackets (sb ?y) + 1\<rparr>"
    "mgr y = transmit [Tcp_send (t_from s) (t_destPort s) (t_srcPort s) (snd_nxt c) (rcv_nxt c) ACK (ucast (snd_wnd c)) 0 None]
      (put_endpoint (endpoint (sb ?y)) e' (mgr ?y))"
    "linear (m_ShadowDataStream e') (r - length d) []" "linear (m_DataStream e') (r' - length d) (xs @ d)"
    using deposit_room [where x = ?y and s = s and ok = ok, OF _ _ 1(9,10) assms(3,4) _ _ _ _ assms(5)] S 1
    by (auto simp: fill_segment_def resetTimer_def)
  have c: "currentState c = ESTABLISHED" "rcv_nxt c = nxt + of_nat (length d)" "retransmitQueue c = []" "snd_una c = snd_nxt c"
    "snd_nxt c = snd_nxt b" "endpoint c = endpoint b"
    by (subst y(4); simp add: 1 fill_segment_def resetTimer_def)+
  have "process_payload ok s ?y = Some (Next, y)"
    using y(1) 1(2,3) S len by (simp add: process_payload_def fill_segment_def resetTimer_def)
  moreover have "process_fin ok s y = Some (Break, y)" using S by (simp add: process_fin_def)
  ultimately have "rx_switch ok s (tcp_mss b) ?x = Some (Break, y)"
    using acc 1(2) S
    by (simp add: rx_switch_def rx_synchronised_def then_stage_def refuse_syn_def check_window_def check_rst_def fill_segment_def)
  moreover have "finish (currentState ?b1) y = Some (put_block a c (mgr y))"
    using 1(2,12) y(2,3) c(1) by (simp add: finish_def tell_change_def store_block_def fill_segment_def)
  ultimately have r: "TcpManager_receive ok s m = Some ((), (put_block a c (mgr y))\<lparr>m_TcpMutex := False\<rparr>)"
    using receive_block [OF 1(11) find_connected [OF 1(13,12)] 1(12,1) b1 opts] by simp
  show ?thesis
    unfolding r using y(5-7) c 1
    by (simp add: receiving_def put_block_def put_endpoint_def transmit_def fill_segment_def resetTimer_def Tcp_send_def)
qed

section \<open>A stream of segments\<close>






text \<open>A host with one established connection, and segments for it.\<close>

abbreviation peer_block :: StateBlock where
  "peer_block \<equiv> StateBlock_new\<lparr>currentState := ESTABLISHED, localPort := 80, remoteIp := 9, remotePort := 4000, connId := 1,
     snd_nxt := 50, snd_una := 50, rcv_nxt := 100, tcp_mss := 1460, endpoint := 3\<rparr>"

abbreviation peer_mgr :: TcpManager where
  "peer_mgr \<equiv> TcpManager_new\<lparr>m_StateBlocks := one_tree (peer_handle 80 9 4000) 5,
     m_CurrentConnections := [(1, peer_handle 80 9 4000)], next_object := 6,
     blocks := (\<lambda>_. None)(5 := Some peer_block), endpoints := (\<lambda>_. None)(3 := Some (TcpEndpoint_new 1))\<rparr>"

abbreviation peer_seg :: "u32 \<Rightarrow> u8 \<Rightarrow> u8 list \<Rightarrow> tcp_segment" where
  "peer_seg n fl d \<equiv> \<lparr>t_from = 9, t_srcPort = 4000, t_destPort = 80, t_seq = n, t_ack = 50, t_flags = fl, t_win = 1000,
     t_urg = 0, t_offset = 5, t_bytes = (\<lambda>_. 0), t_payload = d\<rparr>"

lemma peer_receiving: "receiving (peer_seg n fl d) 5 100 32768 32768 [] peer_mgr"
  using linear_new [of 32768]
  by (simp add: receiving_def TcpManager_new_def StateBlock_new_def segment_handle_def lookup_one [where i = 0]
      TcpEndpoint_new_def TcpBuffer_new_def)




theorem tcp_transitions_witness:
  "\<exists>m' b'. TcpManager_receive (\<lambda>_. True) (peer_seg 100 (ACK OR PSH) [1]) peer_mgr = Some ((), m') \<and> blocks m' 5 = Some b' \<and>
    (currentState b' = ESTABLISHED \<or> may_move ESTABLISHED (currentState b'))"
proof -
  obtain m' b' where m': "TcpManager_receive (\<lambda>_. True) (peer_seg 100 (ACK OR PSH) [1]) peer_mgr = Some ((), m')" "blocks m' 5 = Some b'"
    using receive_data [where ok = "\<lambda>_. True" and d = "[1]", OF peer_receiving [of 100 "ACK OR PSH" "[1]"]]
    by (auto simp: data_segment_def)
  from tcp_transitions [OF m'(1), of 5 peer_block b'] m' show ?thesis
    by (auto simp: StateBlock_new_def)
qed

section \<open>Data that comes with a FIN\<close>

text \<open>C15: On an established connection with nothing unacknowledged, the data of a segment in order that has exactly the
  flags FIN and ACK is lost: the acknowledgement
  moves the connection to CLOSE-WAIT before the payload is looked at, nothing is put into the
  endpoint, and the sequence number expected next is the one after the first byte of the data.\<close>

theorem tcp_fin_data_lost:
  assumes "receiving s a nxt r r' xs m" "blocks m a = Some b" "endpoints m (endpoint b) = Some e"
    and "t_flags s = FIN OR ACK" "t_seq s = nxt" "t_payload s = d" "d \<noteq> []" "length d \<le> 0xFFFF"
    and "t_win s \<noteq> 0" "nxt < nxt + ucast (t_win s)" "\<And>p. ok p"
  shows "\<exists>m' b' p. TcpManager_receive ok s m = Some ((), m') \<and> blocks m' a = Some b' \<and>
    currentState b' = CLOSE_WAIT \<and> rcv_nxt b' = nxt + 1 \<and> endpoints m' = endpoints m \<and>
    sent m' = sent m @ [p] \<and> p_ack p = nxt + 1"
proof -
  have 1: "currentState b = ESTABLISHED" "rcv_nxt b = nxt" "retransmitQueue b = []"
    "snd_una b = snd_nxt b" "t_ack s = snd_nxt b" "endpoint b \<noteq> 0" "linear (m_ShadowDataStream e) r []"
    "\<not> m_TcpMutex m" "a \<noteq> 0" "handle_lookup (segment_handle s) (m_StateBlocks m) = a"
    using assms(1-3) unfolding receiving_def by auto
  let ?w = "of_nat (TcpBuffer_getRemainingSize (m_ShadowDataStream e)) :: u32" and ?m = "m\<lparr>m_TcpMutex := True\<rparr>"
  let ?b1 = "(fill_segment s b)\<lparr>snd_wnd := ?w\<rparr>"
  let ?b0 = "?b1\<lparr>fin_ack := False\<rparr>"
  let ?b2 = "(resetTimer 10 (?b0\<lparr>currentState := CLOSE_WAIT\<rparr>))\<lparr>waitingForTimeout := False\<rparr>"
  let ?b3 = "?b2\<lparr>rcv_nxt := nxt + 1\<rparr>"
  let ?x = "\<lparr>mgr = ?m, address = a, sb = ?b0, acked = False\<rparr>" and ?y = "\<lparr>mgr = ?m, address = a, sb = ?b2, acked = False\<rparr>"
  let ?p = "Tcp_send (t_from s) (t_destPort s) (t_srcPort s) (snd_nxt b) (nxt + 1) ACK (ucast ?w) 0 None"
  let ?z = "\<lparr>mgr = transmit [?p] ?m, address = a, sb = ?b3, acked = True\<rparr>"
  have b1: "note_window m (fill_segment s b) = Some ?b1" using 1 assms(3) by (simp add: note_window_def fill_segment_def)
  have opts: "parse_options s (tcp_mss ?b1) = Some (tcp_mss b)" using assms(4) by (simp add: parse_options_def fill_segment_def)
  have "unat (of_nat (length d) :: u32) = length d" using assms(8) by (simp add: unat_of_nat take_bit_eq_mod)
  then have len: "of_nat (length d) \<noteq> (0 :: u32)" using assms(7) by (metis unat_0 length_0_conv)
  have acc: "acceptable ?b0" using assms(5,6,9,10) 1(2) len by (simp add: acceptable_def fill_segment_def window_zero)
  have "established_ack ok s ?x = ?y"
  proof -
    have fin: "note_fin s ?b0 = ?b0\<lparr>currentState := CLOSE_WAIT\<rparr>" using 1(1) assms(4) by (simp add: note_fin_def fill_segment_def)
    have una: "note_una (?b0\<lparr>currentState := CLOSE_WAIT\<rparr>) = ?b2"
      using 1(4,5) by (simp add: note_una_def fill_segment_def resetTimer_def Let_def)
    have "note_fin_acked (note_wnd ?b2) = ?b2" using 1(4,5) by (simp add: note_wnd_def note_fin_acked_def fill_segment_def resetTimer_def)
    with una fin 1(4,5) show ?thesis
      by (simp add: established_ack_def fin una) (simp add: fill_segment_def resetTimer_def)
  qed
  then have "process_ack ok s ?x = Some (Next, ?y)"
    using 1(1,3) assms(4) by (subst process_ack_idle) (simp_all add: ack_switch_def fill_segment_def resetTimer_def)
  moreover have "process_payload ok s ?y = Some (Next, ?y)" by (simp add: process_payload_def resetTimer_def)
  moreover have "process_fin ok s ?y = Some (Break, ?z)"
  proof -
    have "snd (depositPayload 0 None True e) = e"
      using linear_sizes [OF 1(7)] by (simp add: depositPayload_def Let_def)
    moreover have "put_endpoint (endpoint b) e ?m = ?m" using assms(3) by (simp add: put_endpoint_def fun_upd_idem)
    ultimately show ?thesis
      using assms(3-5,11) 1(6)
      by (simp add: process_fin_def push_endpoint_def reply_ack_def fin_switch_def fill_segment_def resetTimer_def Let_def)
  qed
  ultimately have "rx_switch ok s (tcp_mss b) ?x = Some (Break, ?z)"
    using acc 1(1) assms(4)
    by (simp add: rx_switch_def rx_synchronised_def then_stage_def refuse_syn_def check_window_def check_rst_def fill_segment_def)
  moreover have "finish (currentState ?b1) ?z = Some (put_block a (?b3\<lparr>waitState := waitState b + 1\<rparr>) (mgr ?z))"
  proof -
    have "put_endpoint (endpoint b) e (mgr ?z) = mgr ?z" using assms(3) by (simp add: put_endpoint_def fun_upd_idem transmit_def)
    then show ?thesis
      using 1(1,9) assms(3)
      by (simp add: finish_def tell_change_def store_block_def fill_segment_def resetTimer_def transmit_def)
  qed
  ultimately have r: "TcpManager_receive ok s m = Some ((), (put_block a (?b3\<lparr>waitState := waitState b + 1\<rparr>) (mgr ?z))\<lparr>m_TcpMutex := False\<rparr>)"
    using receive_block [OF 1(8) find_connected [OF 1(10,9)] 1(9) assms(2) b1 opts] by simp
  show ?thesis
    unfolding r by (simp add: put_block_def transmit_def resetTimer_def Tcp_send_def)
qed

theorem tcp_fin_data_lost_witness:
  "\<exists>m' b' p. TcpManager_receive (\<lambda>_. True) (peer_seg 100 (FIN OR ACK) [1, 2, 3]) peer_mgr = Some ((), m') \<and> blocks m' 5 = Some b' \<and>
    currentState b' = CLOSE_WAIT \<and> rcv_nxt b' = 101 \<and> endpoints m' = endpoints peer_mgr \<and> sent m' = [p] \<and> p_ack p = 101"
  using tcp_fin_data_lost [where ok = "\<lambda>_. True" and d = "[1, 2, 3]" and b = peer_block and e = "TcpEndpoint_new 1",
      OF peer_receiving [of 100 "FIN OR ACK" "[1, 2, 3]"]]
  by (simp add: TcpManager_new_def StateBlock_new_def)

section \<open>Options\<close>

lemma mss_options_stuck:
  "mss_options bytes h offset mss = Some r \<Longrightarrow> offset < h \<Longrightarrow> bytes offset \<noteq> 0 \<Longrightarrow> bytes offset \<noteq> 1 \<Longrightarrow>
     bytes (offset + 1) = 0 \<Longrightarrow> False"
proof (induction bytes h offset mss r rule: mss_options.raw_induct [rotated, consumes 1, case_names step])
  case (step rec bytes h offset mss r)
  from step.hyps step.prems obtain mss' where "rec bytes h offset mss' = Some r"
    by (auto simp: Let_def split: if_splits)
  from step.IH [OF this step.prems] show ?case .
qed

text \<open>C13: One segment stops the whole stack: whatever the state of the manager and whether or not there
  is a connection for it, a SYN with an option of length 0 is never done with, and the lock of the
  manager stays taken.\<close>

theorem tcp_options_hang:
  assumes "flag (t_flags s) SYN" "t_offset s > 5" "t_bytes s 20 \<noteq> 0" "t_bytes s 20 \<noteq> 1" "t_bytes s 21 = 0"
  shows "TcpManager_receive ok s m = None"
proof -
  have "mss_options (t_bytes s) (t_offset s * 4) 20 mss = None" for mss
    using mss_options_stuck [of "t_bytes s" "t_offset s * 4" 20 mss] assms
    by (cases "mss_options (t_bytes s) (t_offset s * 4) 20 mss") auto
  then have "parse_options s mss = None" for mss using assms(1,2) by (simp add: parse_options_def)
  then show ?thesis
    by (auto simp: TcpManager_receive_def locked_def Let_def bind_eq_None_conv)
qed

theorem tcp_options_hang_witness:
  "TcpManager_receive (\<lambda>_. True) ((peer_seg 100 SYN [])\<lparr>t_offset := 6, t_bytes := (\<lambda>_. 0)(20 := 3)\<rparr>) TcpManager_new = None"
  by (rule tcp_options_hang) simp_all

end
