(* ===== verification/Keymap_Compiler.thy ===== *)
theory Keymap_Compiler
  imports C_Memory "HOL-Library.Monad_Syntax"
begin

unbundle bit_operations_syntax

text \<open>
  The keymap compiler (\<^verbatim>\<open>user/applications/keymap/main.c\<close>): the commands of a keymap file fill a
  table of 2 ^ 19 entries, indexed by combinator, modifiers and scancode, and \<open>sparse\<close> turns the
  table into a binary tree with shared empty subtrees, which the kernel searches.  The tree and the
  entries go into two growing buffers; \<open>None\<close> is the \<^verbatim>\<open>exit(1)\<close> of a full buffer.  The parser that
  makes the commands is generated by bison; its commands are an argument.
\<close>

section \<open>The table\<close>

record table_entry =
  e_flags :: u32
  e_val :: u32

record cmd =
  c_scancode :: u32
  c_modifiers :: u32
  c_combinators :: u32
  c_unicode_point :: u32
  c_val :: "u32 option"
  c_set_modifiers :: u32

definition SPECIAL :: u32 where "SPECIAL = 0x80000000"

text \<open>\<^verbatim>\<open>TABLE_IDX\<close> and \<^verbatim>\<open>KEYMAP_INDEX\<close>: the three numbers masked and put side by side.\<close>

definition TABLE_IDX :: "u32 \<Rightarrow> u32 \<Rightarrow> u32 \<Rightarrow> nat" where
  "TABLE_IDX combinator modifiers scancode =
     unat (push_bit 11 (combinator AND 0xFF) OR push_bit 7 (modifiers AND 0xF) OR (scancode AND 0x7F))"

definition TABLE_MAX :: nat where "TABLE_MAX = 2 ^ 19 - 1"

type_synonym table = "nat \<Rightarrow> table_entry"

text \<open>The four characters of a special key are copied over the value as they are.\<close>

definition parse_cmd :: "cmd \<Rightarrow> table \<Rightarrow> table" where
  "parse_cmd c t =
     (let idx = TABLE_IDX (c_combinators c) (c_modifiers c) (c_scancode c);
          e = (t idx)\<lparr>e_flags := c_set_modifiers c\<rparr>
      in t(idx := if c_unicode_point c \<noteq> 0 then e\<lparr>e_val := c_unicode_point c\<rparr>
                  else case c_val c of
                         Some v \<Rightarrow> e\<lparr>e_flags := e_flags e OR SPECIAL, e_val := v\<rparr>
                       | None \<Rightarrow> e))"

definition empty_entry :: table_entry where
  "empty_entry = \<lparr>e_flags = 0, e_val = 0\<rparr>"

definition parse :: "cmd list \<Rightarrow> table" where
  "parse cmds = fold parse_cmd cmds (\<lambda>_. empty_entry)"

section \<open>The buffers\<close>

record compiler =
  sparse_pos :: nat
  sparse_buffsz :: nat
  sparse_buff :: mem
  data_pos :: nat
  data_buffsz :: nat
  data_buff :: mem

definition sparse_add :: "compiler \<Rightarrow> (nat \<times> compiler) option" where
  "sparse_add c =
     (let ret = sparse_pos c; sz = 4
      in if ret + sz > sparse_buffsz c
         then (if ret + sz \<ge> 32768 then None
               else Some (ret, c\<lparr>sparse_buffsz := sparse_buffsz c + sz + 32, sparse_pos := ret + sz\<rparr>))
         else Some (ret, c\<lparr>sparse_pos := ret + sz\<rparr>))"

definition entry_bytes :: "table_entry \<Rightarrow> u8 list" where
  "entry_bytes e = nat_le 4 (unat (e_flags e)) @ nat_le 4 (unat (e_val e))"

definition table_bytes :: "table \<Rightarrow> nat \<Rightarrow> nat \<Rightarrow> u8 list" where
  "table_bytes t lo hi = concat (map (entry_bytes \<circ> t) [lo..<hi])"

definition data_add :: "table \<Rightarrow> nat \<Rightarrow> nat \<Rightarrow> compiler \<Rightarrow> (nat \<times> compiler) option" where
  "data_add t start end c =
     (let ret = data_pos c; sz = 8 * (end - start);
          put = (\<lambda>c. (ret, c\<lparr>data_buff := store ret (table_bytes t start end) (data_buff c), data_pos := ret + sz\<rparr>))
      in if ret + sz > data_buffsz c
         then (if ret + sz \<ge> 32768 then None
               else Some (put (c\<lparr>data_buffsz := data_buffsz c + sz + 32\<rparr>)))
         else Some (put c))"

definition all_set :: "table \<Rightarrow> nat \<Rightarrow> nat \<Rightarrow> bool" where
  "all_set t start end \<longleftrightarrow> list_all (\<lambda>i. \<not> (e_flags (t i) = 0 \<and> e_val (t i) = 0)) [start..<end]"

definition all_clear :: "table \<Rightarrow> nat \<Rightarrow> nat \<Rightarrow> bool" where
  "all_clear t start end \<longleftrightarrow> list_all (\<lambda>i. \<not> (e_flags (t i) \<noteq> 0 \<or> e_val (t i) \<noteq> 0)) [start..<end]"

section \<open>The tree\<close>

text \<open>The two links of a node, 16 bits each.\<close>

definition SPARSE_DATA_FLAG :: nat where "SPARSE_DATA_FLAG = 0x8000"

definition set_link :: "nat \<Rightarrow> nat \<Rightarrow> compiler \<Rightarrow> compiler" where
  "set_link at v c = c\<lparr>sparse_buff := store at (nat_le 2 v) (sparse_buff c)\<rparr>"

function sparse :: "table \<Rightarrow> nat \<Rightarrow> nat \<Rightarrow> compiler \<Rightarrow> (nat \<times> compiler) option" where
  "sparse t idx bisect_size c = do {
     (ime, c) \<leftarrow> sparse_add c;
     c \<leftarrow> (if all_clear t (idx - bisect_size) idx then Some (set_link ime 0 c)
          else if all_set t (idx - bisect_size) idx \<or> odd bisect_size
          then do { (d, c) \<leftarrow> data_add t (idx - bisect_size) idx c; Some (set_link ime (d OR SPARSE_DATA_FLAG) c) }
          else do { (tmp, c) \<leftarrow> sparse t (idx - bisect_size div 2) (bisect_size div 2) c; Some (set_link ime tmp c) });
     c \<leftarrow> (if all_clear t idx (idx + bisect_size) then Some (set_link (ime + 2) 0 c)
          else if all_set t idx (idx + bisect_size) \<or> odd bisect_size
          then do { (d, c) \<leftarrow> data_add t idx (idx + bisect_size) c; Some (set_link (ime + 2) (d OR SPARSE_DATA_FLAG) c) }
          else do { (tmp, c) \<leftarrow> sparse t (idx + bisect_size div 2) (bisect_size div 2) c; Some (set_link (ime + 2) tmp c) });
     Some (ime, c) }"
  by pat_completeness auto
termination sparse
proof (relation "measure (\<lambda>(t, idx, bisect_size, c). bisect_size)", goal_cases)
  case (2 t idx bisect_size c x ime ca)
  then have "bisect_size \<noteq> 0" by (cases "bisect_size = 0") (auto simp: all_clear_def)
  then show ?case by simp
next
  case (3 t idx bisect_size c x ime ca xa)
  then have "bisect_size \<noteq> 0" by (cases "bisect_size = 0") (auto simp: all_clear_def)
  then show ?case by simp
qed simp

declare sparse.simps [simp del]

text \<open>\<open>compile\<close> writes two offsets, the tree and the entries; the buffers are written up to their
  allocated size.  \<open>buf\<close> and \<open>buf'\<close> are what the memory of the buffers holds before anything is put
  there.\<close>

definition compiler_new :: "mem \<Rightarrow> mem \<Rightarrow> compiler" where
  "compiler_new buf buf' =
     \<lparr>sparse_pos = 0, sparse_buffsz = 0, sparse_buff = buf, data_pos = 0, data_buffsz = 0, data_buff = buf'\<rparr>"

definition compile_table :: "table \<Rightarrow> mem \<Rightarrow> mem \<Rightarrow> compiler option" where
  "compile_table t buf buf' =
     map_option snd (sparse t ((TABLE_MAX + 1) div 2) ((TABLE_MAX + 1) div 2) (compiler_new buf buf'))"

definition kmc_file :: "compiler \<Rightarrow> u8 list" where
  "kmc_file c =
     nat_le 4 8 @ nat_le 4 (sparse_buffsz c + 8) @ load (sparse_buffsz c) 0 (sparse_buff c) @ load (data_buffsz c) 0 (data_buff c)"

definition compile :: "cmd list \<Rightarrow> mem \<Rightarrow> mem \<Rightarrow> u8 list option" where
  "compile cmds buf buf' = map_option kmc_file (compile_table (parse cmds) buf buf')"

end
