(* ===== verification/Keymap_Manager.thy ===== *)
theory Keymap_Manager
  imports Keymap_Compiler
begin

text \<open>
  The kernel's keymaps: \<open>KeymapManager\<close> (\<^verbatim>\<open>system/kernel/machine/KeymapManager.cc\<close>,
  \<^verbatim>\<open>system/include/machine/KeymapManager.h\<close>) and the system call that loads a compiled keymap
  (\<open>pedigree_load_keymap\<close> in \<^verbatim>\<open>subsys/pedigree-c/pedigree-syscalls.cc\<close>).  The tables of a keymap
  are memory, read wherever the links of the tree lead; reading them may not end, which is \<open>None\<close>.
\<close>

section \<open>Finding an entry\<close>

record KeymapManager =
  m_pSparseTable :: mem
  m_pDataTable :: mem
  m_bLeftCtrl :: bool
  m_bLeftShift :: bool
  m_bLeftAlt :: bool
  m_bRightCtrl :: bool
  m_bRightShift :: bool
  m_bRightAlt :: bool
  m_bCapsLock :: bool
  m_nCombinator :: u8

definition link :: "mem \<Rightarrow> nat \<Rightarrow> nat" where
  "link sp p = le_nat (load 2 p sp)"

definition DataFlag :: nat where "DataFlag = 0x8000"

text \<open>The walk down the tree; the result is the position of the entry in the data table, if there
  is one.\<close>

partial_function (option) keymap_walk :: "mem \<Rightarrow> nat \<Rightarrow> nat \<Rightarrow> nat \<Rightarrow> nat \<Rightarrow> nat option option" where
  "keymap_walk sp nIndex bisect sz p =
     (if nIndex < bisect
      then (if link sp p = 0 then Some None
            else if link sp p AND DataFlag \<noteq> 0
            then Some (Some ((link sp p AND 0x7FFF) + (nIndex - (bisect - sz)) * 8))
            else keymap_walk sp nIndex (bisect - sz div 2) (sz div 2) (link sp p))
      else (if link sp (p + 2) = 0 then Some None
            else if link sp (p + 2) AND DataFlag \<noteq> 0
            then Some (Some ((link sp (p + 2) AND 0x7FFF) + (nIndex - bisect) * 8))
            else keymap_walk sp nIndex (bisect + sz div 2) (sz div 2) (link sp (p + 2))))"

declare keymap_walk.simps [code]

definition modifier_index :: "bool \<Rightarrow> bool \<Rightarrow> bool \<Rightarrow> bool \<Rightarrow> u32" where
  "modifier_index bCtrl bShift bAlt bAltGr =
     (if bCtrl then 1 else 0) OR (if bShift then 2 else 0) OR (if bAlt then 4 else 0) OR (if bAltGr then 8 else 0)"

definition entry_at :: "mem \<Rightarrow> nat \<Rightarrow> table_entry" where
  "entry_at m p = \<lparr>e_flags = of_nat (le_nat (load 4 p m)), e_val = of_nat (le_nat (load 4 (p + 4) m))\<rparr>"

definition getKeymapEntry ::
  "bool \<Rightarrow> bool \<Rightarrow> bool \<Rightarrow> bool \<Rightarrow> u8 \<Rightarrow> u8 \<Rightarrow> KeymapManager \<Rightarrow> table_entry option option" where
  "getKeymapEntry bCtrl bShift bAlt bAltGr nCombinator keyCode k = do {
     r \<leftarrow> keymap_walk (m_pSparseTable k)
            (TABLE_IDX (ucast nCombinator) (modifier_index bCtrl bShift bAlt bAltGr) (ucast keyCode))
            ((TABLE_MAX + 1) div 2) ((TABLE_MAX + 1) div 2) 0;
     Some (map_option (entry_at (m_pDataTable k)) r) }"

section \<open>Keys\<close>

definition HidCapsLock :: u8 where "HidCapsLock = 0x39"
definition HidLeftCtrl :: u8 where "HidLeftCtrl = 0xE0"
definition HidLeftShift :: u8 where "HidLeftShift = 0xE1"
definition HidLeftAlt :: u8 where "HidLeftAlt = 0xE2"
definition HidRightCtrl :: u8 where "HidRightCtrl = 0xE4"
definition HidRightShift :: u8 where "HidRightShift = 0xE5"
definition HidRightAlt :: u8 where "HidRightAlt = 0xE6"
definition HidRightGui :: u8 where "HidRightGui = 0xE7"

definition handleHidModifier :: "u8 \<Rightarrow> bool \<Rightarrow> KeymapManager \<Rightarrow> bool \<times> KeymapManager" where
  "handleHidModifier keyCode bDown k =
     (if \<not> (HidLeftCtrl \<le> keyCode \<and> keyCode \<le> HidRightGui \<or> keyCode = HidCapsLock) then (False, k)
      else (True,
        if keyCode = HidLeftCtrl then k\<lparr>m_bLeftCtrl := bDown\<rparr>
        else if keyCode = HidRightCtrl then k\<lparr>m_bRightCtrl := bDown\<rparr>
        else if keyCode = HidLeftShift then k\<lparr>m_bLeftShift := bDown\<rparr>
        else if keyCode = HidRightShift then k\<lparr>m_bRightShift := bDown\<rparr>
        else if keyCode = HidLeftAlt then k\<lparr>m_bLeftAlt := bDown\<rparr>
        else if keyCode = HidRightAlt then k\<lparr>m_bRightAlt := bDown\<rparr>
        else if keyCode = HidCapsLock \<and> \<not> bDown then k\<lparr>m_bCapsLock := \<not> m_bCapsLock k\<rparr>
        else k))"

text \<open>\<^verbatim>\<open>!pKeymapEntry || (!pKeymapEntry->value && !pKeymapEntry->flags)\<close>\<close>

definition no_entry :: "table_entry option \<Rightarrow> bool" where
  "no_entry r = (case r of None \<Rightarrow> True | Some e \<Rightarrow> e_val e = 0 \<and> e_flags e = 0)"

text \<open>Each lookup is made only when the one before it found nothing.\<close>

fun first_entry :: "(bool \<times> bool \<times> bool \<times> bool \<times> u8) list \<Rightarrow> u8 \<Rightarrow> KeymapManager \<Rightarrow> table_entry option option" where
  "first_entry [] keyCode k = Some None"
| "first_entry ((bCtrl, bShift, bAlt, bAltGr, nCombinator) # rest) keyCode k = do {
     r \<leftarrow> getKeymapEntry bCtrl bShift bAlt bAltGr nCombinator keyCode k;
     if no_entry r then first_entry rest keyCode k else Some r }"

definition fallbacks :: "KeymapManager \<Rightarrow> (bool \<times> bool \<times> bool \<times> bool \<times> u8) list" where
  "fallbacks k =
     (let bCtrl = m_bLeftCtrl k \<or> m_bRightCtrl k; bShift = m_bLeftShift k \<or> m_bRightShift k;
          bAlt = m_bLeftAlt k; bAltGr = m_bRightAlt k
      in [(bCtrl, bShift, bAlt, bAltGr, m_nCombinator k), (bCtrl, bShift, bAlt, bAltGr, 0),
          (False, bShift, bAlt, bAltGr, 0), (False, bShift, False, False, 0), (False, False, False, False, 0)])"

text \<open>The bits of \<^verbatim>\<open>Keyboard.h\<close> in the upper half of a key.\<close>

definition Key_Special :: u64 where "Key_Special = push_bit 63 1"
definition Key_Ctrl :: u64 where "Key_Ctrl = push_bit 62 1"
definition Key_Shift :: u64 where "Key_Shift = push_bit 61 1"
definition Key_Alt :: u64 where "Key_Alt = push_bit 60 1"
definition Key_AltGr :: u64 where "Key_AltGr = push_bit 59 1"

definition key_of :: "table_entry \<Rightarrow> KeymapManager \<Rightarrow> u64" where
  "key_of e k =
     (let bCtrl = m_bLeftCtrl k \<or> m_bRightCtrl k; bShift = m_bLeftShift k \<or> m_bRightShift k;
          bUseUpper = (m_bCapsLock k \<noteq> bShift);
          key = ucast (e_val e) :: u64;
          key = (if e_flags e AND SPECIAL \<noteq> 0 then key OR Key_Special
                 else if bUseUpper \<and> 97 \<le> key \<and> key \<le> 122 then key - 32
                 else if \<not> bUseUpper \<and> 65 \<le> key \<and> key \<le> 90 then key + 32 else key);
          key = (if bCtrl then key OR Key_Ctrl else key);
          key = (if bShift then key OR Key_Shift else key);
          key = (if m_bLeftAlt k then key OR Key_Alt else key)
      in if m_bRightAlt k then key OR Key_AltGr else key)"

definition resolveHidKeycode :: "u8 \<Rightarrow> KeymapManager \<Rightarrow> (u64 \<times> KeymapManager) option" where
  "resolveHidKeycode keyCode k = do {
     r \<leftarrow> first_entry (fallbacks k) keyCode k;
     case r of
       None \<Rightarrow> Some (0, k)
     | Some e \<Rightarrow>
         (let nCombinator = e_flags e AND 0xFF
          in if nCombinator \<noteq> 0
             then (if nCombinator = ucast (m_nCombinator k) then Some (key_of e k, k\<lparr>m_nCombinator := 0\<rparr>)
                   else Some (0, k\<lparr>m_nCombinator := ucast nCombinator\<rparr>))
             else Some (key_of e k, k\<lparr>m_nCombinator := 0\<rparr>)) }"

section \<open>Scan codes\<close>

datatype EscapeState = EscapeNone | EscapeE0 | EscapeE1

definition pc102ToHidTableNormal :: "u8 list" where
  "pc102ToHidTableNormal =
    [0x00, 0x29, 0x1e, 0x1f, 0x20, 0x21, 0x22, 0x23,
     0x24, 0x25, 0x26, 0x27, 0x2d, 0x2e, 0x2a, 0x2b,
     0x14, 0x1a, 0x08, 0x15, 0x17, 0x1c, 0x18, 0x0c,
     0x12, 0x13, 0x2f, 0x30, 0x28, 0xe0, 0x04, 0x16,
     0x07, 0x09, 0x0a, 0x0b, 0x0d, 0x0e, 0x0f, 0x33,
     0x34, 0x35, 0xe1, 0x31, 0x1d, 0x1b, 0x06, 0x19,
     0x05, 0x11, 0x10, 0x36, 0x37, 0x38, 0xe5, 0x55,
     0xe2, 0x2c, 0x39, 0x3a, 0x3b, 0x3c, 0x3d, 0x3e,
     0x3f, 0x40, 0x41, 0x42, 0x43, 0x53, 0x47, 0x5f,
     0x60, 0x61, 0x56, 0x5c, 0x5d, 0x5e, 0x57, 0x59,
     0x5a, 0x5b, 0x62, 0x63, 0x00, 0x00, 0x64, 0x44,
     0x45, 0x68, 0x69, 0x6a, 0x6b, 0x6c, 0x6d, 0x6e,
     0x00, 0x00, 0x71, 0x72, 0x73, 0x00, 0x00, 0x00,
     0x00, 0x00, 0x00, 0x85, 0x00, 0x00, 0x00, 0x00,
     0x00, 0x00, 0x00, 0x00, 0x00, 0x00, 0x00, 0x00,
     0x00, 0x00, 0x00, 0x00, 0x00, 0xe3, 0xe7, 0x65]"

definition pc102ToHidTableEscape :: "u8 list" where
  "pc102ToHidTableEscape =
    [0x00, 0x00, 0x00, 0x00, 0x00, 0x00, 0x00, 0x00,
     0x00, 0x00, 0x00, 0x00, 0x00, 0x00, 0x00, 0x00,
     0x00, 0x00, 0x00, 0x00, 0x00, 0x00, 0x00, 0x00,
     0x00, 0x00, 0x00, 0x00, 0x58, 0xe4, 0x00, 0x00,
     0x00, 0x00, 0x00, 0x00, 0x00, 0x00, 0x00, 0x00,
     0x00, 0x00, 0x00, 0x00, 0x00, 0x00, 0x00, 0x00,
     0x00, 0x00, 0x00, 0x00, 0x00, 0x54, 0x00, 0x46,
     0xe6, 0x00, 0x00, 0x00, 0x00, 0x00, 0x00, 0x00,
     0x00, 0x00, 0x00, 0x00, 0x00, 0x48, 0x00, 0x4a,
     0x52, 0x4b, 0x00, 0x50, 0x00, 0x4f, 0x00, 0x4d,
     0x51, 0x4e, 0x49, 0x4c, 0x00, 0x00, 0x00, 0x00,
     0x00, 0x00, 0x00, 0x00, 0x00, 0x00, 0x00, 0x00,
     0x00, 0x00, 0x00, 0x00, 0x00, 0x00, 0x00, 0x00,
     0x00, 0x00, 0x00, 0x00, 0x00, 0x00, 0x00, 0x00,
     0x00, 0x00, 0x00, 0x00, 0x00, 0x00, 0x00, 0x00,
     0x00, 0x00, 0x00, 0x00, 0x00, 0x00, 0x00, 0x00]"

definition convertPc102ScancodeToHidKeycode :: "u8 \<Rightarrow> EscapeState \<Rightarrow> u8 \<times> EscapeState" where
  "convertPc102ScancodeToHidKeycode scancode escape =
     (if scancode = 0xE0 then (0, EscapeE0)
      else if scancode = 0xE1 then (0, EscapeE1)
      else if scancode = 0x1D \<and> escape = EscapeE1 then (0, EscapeE0)
      else if escape \<noteq> EscapeNone then (pc102ToHidTableEscape ! unat (scancode AND 0x7F), EscapeNone)
      else (pc102ToHidTableNormal ! unat (scancode AND 0x7F), EscapeNone))"

section \<open>Loading\<close>

text \<open>\<open>pedigree_load_keymap\<close>: the two tables are copied out of the user's buffer; \<open>junk\<close> is the
  memory behind them.  The sizes are 32-bit differences of the offsets in the file, which are not
  compared with the length of the buffer: \<open>None\<close> is a copy from outside it.\<close>

definition bytes_mem :: "u8 list \<Rightarrow> mem \<Rightarrow> mem" where
  "bytes_mem bs junk = (\<lambda>i. if i < length bs then bs ! i else junk i)"

definition load_keymap :: "u8 list \<Rightarrow> mem \<Rightarrow> mem \<Rightarrow> KeymapManager \<Rightarrow> KeymapManager option" where
  "load_keymap buf junk junk' k =
     (if length buf < 8 then None
      else
        (let sparseTableOffset = le_nat (take 4 buf); dataTableOffset = le_nat (take 4 (drop 4 buf));
             sparseTableSize = unat (of_nat dataTableOffset - of_nat sparseTableOffset :: u32)
         in if sparseTableOffset + sparseTableSize > length buf \<or> dataTableOffset > length buf then None
            else Some (k\<lparr>m_pSparseTable := bytes_mem (take sparseTableSize (drop sparseTableOffset buf)) junk,
                         m_pDataTable := bytes_mem (drop dataTableOffset buf) junk'\<rparr>)))"

end
