(* ===== verification/Keymap_Roundtrip.thy ===== *)
theory Keymap_Roundtrip
  imports Keymap_Manager
begin

text \<open>What the compiler puts into a keymap file, the kernel finds there: every lookup in the loaded
  keymap gives the entry of the table, and a keymap with few commands always compiles.\<close>

section \<open>The parts of the compiler\<close>

definition same_on :: "nat \<Rightarrow> nat \<Rightarrow> mem \<Rightarrow> mem \<Rightarrow> bool" where
  "same_on lo hi a b \<longleftrightarrow> (\<forall>i. lo \<le> i \<and> i < hi \<longrightarrow> a i = b i)"

lemma same_on_refl [simp]: "same_on lo hi a a"
  by (simp add: same_on_def)

lemma same_on_part: "same_on lo hi a b \<Longrightarrow> lo \<le> lo' \<Longrightarrow> hi' \<le> hi \<Longrightarrow> same_on lo' hi' a b"
  by (auto simp: same_on_def)

lemma same_on_trans: "same_on lo hi a b \<Longrightarrow> same_on lo hi b c \<Longrightarrow> same_on lo hi a c"
  by (auto simp: same_on_def)

lemma load_same: "same_on at (at + n) a b \<Longrightarrow> load n at a = load n at b"
  by (simp add: same_on_def load_def)

definition sizes_ok :: "compiler \<Rightarrow> bool" where
  "sizes_ok c \<longleftrightarrow> sparse_pos c \<le> sparse_buffsz c \<and> data_pos c \<le> data_buffsz c \<and>
     sparse_buffsz c \<le> 40000 \<and> data_buffsz c \<le> 70000"

text \<open>What every part of the compiler keeps: it adds at the end of the buffers, and changes nothing
  of the tree outside \<open>w\<close> to \<open>w'\<close>.\<close>

definition extends :: "nat \<Rightarrow> nat \<Rightarrow> compiler \<Rightarrow> compiler \<Rightarrow> bool" where
  "extends w w' c c' \<longleftrightarrow>
     sparse_pos c \<le> sparse_pos c' \<and> data_pos c \<le> data_pos c' \<and> (sizes_ok c \<longrightarrow> sizes_ok c') \<and>
     (\<forall>i < sparse_pos c. \<not> (w \<le> i \<and> i < w') \<longrightarrow> sparse_buff c' i = sparse_buff c i) \<and>
     same_on 0 (data_pos c) (data_buff c') (data_buff c)"

lemma extends_trans: "extends w w' a b \<Longrightarrow> extends w w' b c \<Longrightarrow> extends w w' a c"
  by (fastforce simp: extends_def same_on_def)

lemma extends_mono: "extends w w' a b \<Longrightarrow> v \<le> w \<Longrightarrow> w' \<le> v' \<Longrightarrow> extends v v' a b"
  by (simp add: extends_def) (meson le_trans less_le_trans)

lemma extends_beyond: "extends w w' a b \<Longrightarrow> sparse_pos a \<le> w \<Longrightarrow> extends 0 0 a b"
  by (auto simp: extends_def)

lemma add_node:
  assumes "sparse_add c = Some (i, c')"
  shows "i = sparse_pos c \<and> sparse_pos c' = sparse_pos c + 4 \<and> data_pos c' = data_pos c \<and> data_buff c' = data_buff c \<and>
    extends 0 0 c c'"
  using assms by (auto simp: sparse_add_def extends_def sizes_ok_def Let_def split: if_splits)

lemma set_link_simps [simp]:
  "sparse_pos (set_link at v c) = sparse_pos c" "data_pos (set_link at v c) = data_pos c"
  "data_buff (set_link at v c) = data_buff c"
  "sparse_buff (set_link at v c) = store at (nat_le 2 v) (sparse_buff c)"
  "sparse_buffsz (set_link at v c) = sparse_buffsz c" "data_buffsz (set_link at v c) = data_buffsz c"
  by (simp_all add: set_link_def)

lemma set_link_extends: "extends at (at + 2) c (set_link at v c)"
  by (simp add: extends_def sizes_ok_def store_def)

lemma length_table_bytes [simp]: "length (table_bytes t lo hi) = 8 * (hi - lo)"
  by (induction hi) (auto simp: table_bytes_def entry_bytes_def Suc_diff_le)

lemma add_data:
  assumes "data_add t lo hi c = Some (d, c')"
  shows "d = data_pos c \<and> data_pos c' = data_pos c + 8 * (hi - lo) \<and> sparse_pos c' = sparse_pos c \<and>
    sparse_buff c' = sparse_buff c \<and> data_buff c' = store d (table_bytes t lo hi) (data_buff c) \<and> extends 0 0 c c'"
  using assms
  by (auto simp: data_add_def extends_def sizes_ok_def same_on_def store_def Let_def split: if_splits)

text \<open>The entries of a block of the table, as they are read back.\<close>

lemma block_bytes:
  "j < n \<Longrightarrow> drop (8 * j) (take (8 * j + 8) (table_bytes t lo (lo + n))) = entry_bytes (t (lo + j))"
proof (induction n)
  case (Suc n)
  have split: "table_bytes t lo (lo + Suc n) = table_bytes t lo (lo + n) @ entry_bytes (t (lo + n))"
    by (simp add: table_bytes_def)
  show ?case
  proof (cases "j = n")
    case True
    then show ?thesis unfolding split by (simp add: entry_bytes_def)
  next
    case False
    with Suc show ?thesis unfolding split by simp
  qed
qed simp

lemma load_block:
  assumes "j < hi - lo" "same_on d (d + 8 * (hi - lo)) db (store d (table_bytes t lo hi) m)"
  shows "entry_at db (d + j * 8) = t (lo + j)"
proof -
  have w: "of_nat (unat x mod 4294967296) = x" for x :: u32
  proof -
    have "unat x < 2 ^ LENGTH(32)" by (rule unsigned_less)
    then show ?thesis by simp
  qed
  have "load 8 (d + j * 8) db = entry_bytes (t (lo + j))"
  proof -
    have "load 8 (d + j * 8) db = load 8 (d + j * 8) (store d (table_bytes t lo hi) m)"
      using assms by (intro load_same same_on_part [OF assms(2)]) auto
    also have "\<dots> = drop (8 * j) (take (8 * j + 8) (table_bytes t lo hi))"
      using assms(1) by (intro nth_equalityI) (auto simp: load_def store_def algebra_simps)
    also have "\<dots> = entry_bytes (t (lo + j))"
      using block_bytes [of j "hi - lo" t lo] assms(1) by simp
    finally show ?thesis .
  qed
  moreover have "load 8 (d + j * 8) db = load 4 (d + j * 8) db @ load 4 (d + j * 8 + 4) db"
    by (simp add: load_def eval_nat_numeral)
  ultimately have "load 4 (d + j * 8) db = nat_le 4 (unat (e_flags (t (lo + j))))"
    "load 4 (d + j * 8 + 4) db = nat_le 4 (unat (e_val (t (lo + j))))"
    by (simp_all add: entry_bytes_def load_def)
  then show ?thesis by (simp add: entry_at_def le_nat_nat_le w)
qed

section \<open>One link of a node\<close>

definition sparse_half :: "table \<Rightarrow> nat \<Rightarrow> nat \<Rightarrow> nat \<Rightarrow> nat \<Rightarrow> nat \<Rightarrow> compiler \<Rightarrow> compiler option" where
  "sparse_half t lo hi mid sz at c =
     (if all_clear t lo hi then Some (set_link at 0 c)
      else if all_set t lo hi \<or> odd sz
      then do { (d, c) \<leftarrow> data_add t lo hi c; Some (set_link at (d OR SPARSE_DATA_FLAG) c) }
      else do { (tmp, c) \<leftarrow> sparse t mid (sz div 2) c; Some (set_link at tmp c) })"

lemma sparse_parts:
  "sparse t idx sz c = do {
     (ime, c) \<leftarrow> sparse_add c;
     c \<leftarrow> sparse_half t (idx - sz) idx (idx - sz div 2) sz ime c;
     c \<leftarrow> sparse_half t idx (idx + sz) (idx + sz div 2) sz (ime + 2) c;
     Some (ime, c) }"
  unfolding sparse_half_def by (rule sparse.simps)

lemma clear_empty [simp]: "all_clear t n n"
  by (simp add: all_clear_def)

lemma extends_any: "extends 0 0 a b \<Longrightarrow> extends v v' a b"
  by (simp add: extends_def)

lemma half_extends:
  assumes "sparse_half t lo hi mid sz at c = Some c'" "at + 2 \<le> sparse_pos c"
    and "\<And>me c'. even sz \<Longrightarrow> sparse t mid (sz div 2) c = Some (me, c') \<Longrightarrow> extends 0 0 c c'"
  shows "extends at (at + 2) c c'"
proof -
  have "\<exists>d v. extends 0 0 c d \<and> c' = set_link at v d"
  proof (cases "all_clear t lo hi")
    case True
    with assms(1) have "c' = set_link at 0 c" by (simp add: sparse_half_def)
    moreover have "extends 0 0 c c" by (simp add: extends_def)
    ultimately show ?thesis by blast
  next
    case False
    show ?thesis
    proof (cases "all_set t lo hi \<or> odd sz")
      case True
      with False assms(1) obtain d v where "data_add t lo hi c = Some (v, d)" "c' = set_link at (v OR SPARSE_DATA_FLAG) d"
        by (auto simp: sparse_half_def bind_eq_Some_conv)
      with add_data show ?thesis by blast
    next
      case no: False
      with False assms(1) obtain d v where "sparse t mid (sz div 2) c = Some (v, d)" "c' = set_link at v d"
        by (auto simp: sparse_half_def bind_eq_Some_conv)
      with no assms(3) show ?thesis by blast
    qed
  qed
  then obtain d v where "extends 0 0 c d" "c' = set_link at v d" by blast
  then show ?thesis using extends_trans [OF extends_any set_link_extends] by blast
qed

lemma sparse_extends:
  "sparse t idx sz c = Some (me, c') \<Longrightarrow> sz \<noteq> 0 \<Longrightarrow> me = sparse_pos c \<and> sparse_pos c + 4 \<le> sparse_pos c' \<and> extends 0 0 c c'"
proof (induction sz arbitrary: idx c me c' rule: less_induct)
  case (less sz)
  obtain c1 c2 where 1: "sparse_add c = Some (me, c1)"
    "sparse_half t (idx - sz) idx (idx - sz div 2) sz me c1 = Some c2"
    "sparse_half t idx (idx + sz) (idx + sz div 2) sz (me + 2) c2 = Some c'"
    using less.prems(1) unfolding sparse_parts by (auto simp: bind_eq_Some_conv)
  have a: "me = sparse_pos c" "sparse_pos c1 = sparse_pos c + 4" "extends 0 0 c c1" using add_node [OF 1(1)] by simp_all
  have rec: "even sz \<Longrightarrow> sparse t i (sz div 2) d = Some (m, d') \<Longrightarrow> extends 0 0 d d'" for i d m d'
    using less.IH [of "sz div 2" i d m d'] less.prems(2) by (auto elim!: evenE)
  have e1: "extends me (me + 2) c1 c2" by (rule half_extends [OF 1(2) _ rec]) (use a in auto)
  then have p: "sparse_pos c + 4 \<le> sparse_pos c2" using a by (simp add: extends_def)
  have e2: "extends (me + 2) (me + 2 + 2) c2 c'" by (rule half_extends [OF 1(3) _ rec]) (use a p in auto)
  have "extends me (me + 4) c c'"
    using extends_trans [OF extends_any [OF a(3)] extends_trans [OF extends_mono [OF e1] extends_mono [OF e2]], of me "me + 4"]
    by simp
  then show ?case using a p e2 by (auto simp: extends_def)
qed

section \<open>Reading the tree\<close>

definition result_ok :: "table \<Rightarrow> mem \<Rightarrow> nat \<Rightarrow> nat option \<Rightarrow> bool" where
  "result_ok t db n r = (case r of None \<Rightarrow> t n = empty_entry | Some d \<Rightarrow> entry_at db d = t n)"

text \<open>What a link stands for: the entries from \<open>lo\<close> to \<open>hi\<close>.\<close>

definition link_ok :: "table \<Rightarrow> nat \<Rightarrow> nat \<Rightarrow> nat \<Rightarrow> nat \<Rightarrow> mem \<Rightarrow> mem \<Rightarrow> nat \<Rightarrow> bool" where
  "link_ok t lo hi mid sz sp db v \<longleftrightarrow> (\<forall>n. lo \<le> n \<and> n < hi \<longrightarrow>
     (if v = 0 then t n = empty_entry
      else if v AND DataFlag \<noteq> 0 then entry_at db ((v AND 0x7FFF) + (n - lo) * 8) = t n
      else \<exists>r. keymap_walk sp n mid sz v = Some r \<and> result_ok t db n r))"

lemma node_ok:
  assumes "link_ok t (idx - sz) idx (idx - sz div 2) (sz div 2) sp db (link sp p)"
    and "link_ok t idx (idx + sz) (idx + sz div 2) (sz div 2) sp db (link sp (p + 2))"
    and "idx - sz \<le> n" "n < idx + sz"
  shows "\<exists>r. keymap_walk sp n idx sz p = Some r \<and> result_ok t db n r"
proof (cases "n < idx")
  case True
  with assms(1,3) show ?thesis
    by (subst keymap_walk.simps) (auto simp: link_ok_def result_ok_def)
next
  case False
  with assms(2,4) show ?thesis
    by (subst keymap_walk.simps) (auto simp: link_ok_def result_ok_def)
qed

lemma data_flag:
  fixes d :: nat
  assumes "d < 32768"
  shows "(d OR SPARSE_DATA_FLAG) mod 65536 = d + 32768" "(d + 32768) AND DataFlag \<noteq> 0" "(d + 32768) AND 0x7FFF = d"
    "d AND DataFlag = 0"
proof -
  have b: "\<not> bit d 15" using assms by (simp add: bit_iff_odd)
  have f: "SPARSE_DATA_FLAG = 2 ^ 15" "DataFlag = 2 ^ 15" "0x7FFF = (mask 15 :: nat)"
    by (simp_all add: SPARSE_DATA_FLAG_def DataFlag_def mask_eq_exp_minus_1)
  have "d + 2 ^ 15 = d OR 2 ^ 15"
    by (rule disjunctive_add) (use b in \<open>auto simp only: bit_exp_iff\<close>)
  with assms show "(d OR SPARSE_DATA_FLAG) mod 65536 = d + 32768" by (simp add: f)
  have "(d + 32768) div 32768 = 1" using assms by simp
  then have "bit (d + 32768) 15" by (simp add: bit_iff_odd)
  then show "(d + 32768) AND DataFlag \<noteq> 0" unfolding f by (simp only: and_exp_eq_0_iff_not_bit not_not)
  show "(d + 32768) AND 0x7FFF = d" unfolding f using assms by (simp only: take_bit_eq_mask [symmetric]) (simp add: take_bit_eq_mod)
  show "d AND DataFlag = 0" unfolding f using b by (simp only: and_exp_eq_0_iff_not_bit) simp
qed

lemma link_read:
  assumes "same_on at (at + 2) sp (store at (nat_le 2 v) m)"
  shows "link sp at = v mod 65536"
proof -
  have "load 2 at sp = nat_le 2 v"
    using load_same [OF assms] load_store_same [of "nat_le 2 v" at m] by simp
  then show ?thesis by (simp add: link_def le_nat_nat_le)
qed

lemma half_ok:
  assumes "sparse_half t lo hi mid sz at c = Some c'" "at + 2 \<le> sparse_pos c" "sparse_pos c' \<le> 32768" "data_pos c' \<le> 32768"
    and rec: "\<And>me d n. even sz \<Longrightarrow> sparse t mid (sz div 2) c = Some (me, d) \<Longrightarrow> sparse_pos d \<le> 32768 \<Longrightarrow> data_pos d \<le> 32768 \<Longrightarrow>
      me = sparse_pos c \<and> sparse_pos c < sparse_pos d \<and>
      (same_on me (sparse_pos d) sp (sparse_buff d) \<longrightarrow> same_on (data_pos c) (data_pos d) db (data_buff d) \<longrightarrow>
       lo \<le> n \<longrightarrow> n < hi \<longrightarrow> (\<exists>r. keymap_walk sp n mid (sz div 2) me = Some r \<and> result_ok t db n r))"
    and same: "same_on at (at + 2) sp (sparse_buff c')" "same_on (sparse_pos c) (sparse_pos c') sp (sparse_buff c')"
      "same_on (data_pos c) (data_pos c') db (data_buff c')"
  shows "link_ok t lo hi mid (sz div 2) sp db (link sp at)"
proof (cases "all_clear t lo hi")
  case True
  with assms(1) have c': "c' = set_link at 0 c" by (simp add: sparse_half_def)
  have "link sp at = 0" using link_read [of at sp 0 "sparse_buff c"] same(1) unfolding c' by simp
  moreover have "lo \<le> n \<Longrightarrow> n < hi \<Longrightarrow> t n = empty_entry" for n
    using True by (auto simp: all_clear_def list_all_iff empty_entry_def)
  ultimately show ?thesis by (simp add: link_ok_def)
next
  case False
  show ?thesis
  proof (cases "all_set t lo hi \<or> odd sz")
    case True
    with False assms(1) obtain d v where d: "data_add t lo hi c = Some (v, d)" "c' = set_link at (v OR SPARSE_DATA_FLAG) d"
      by (auto simp: sparse_half_def bind_eq_Some_conv)
    note a = add_data [OF d(1)]
    have "lo < hi" using False by (cases "lo < hi") (auto simp: all_clear_def)
    then have v: "v < 32768" using a d(2) assms(4) by auto
    have "link sp at = v + 32768"
      using link_read [of at sp "v OR SPARSE_DATA_FLAG" "sparse_buff d"] same(1) d(2) data_flag(1) [OF v] by simp
    moreover have "entry_at db (v + (n - lo) * 8) = t n" if "lo \<le> n" "n < hi" for n
      using load_block [of "n - lo" hi lo v db t "data_buff c"] same(3) a d(2) that by simp
    ultimately show ?thesis using data_flag(2,3) [OF v] by (simp add: link_ok_def)
  next
    case no: False
    with False assms(1) obtain d v where d: "sparse t mid (sz div 2) c = Some (v, d)" "c' = set_link at v d"
      by (auto simp: sparse_half_def bind_eq_Some_conv)
    have b: "sparse_pos d \<le> 32768" "data_pos d \<le> 32768" using assms(3,4) d(2) by simp_all
    have even: "even sz" using no by simp
    note r = rec [OF even d(1) b]
    from r [of lo] have v: "v = sparse_pos c" "v < 32768" "v \<noteq> 0" using b assms(2) by simp_all
    have "same_on v (sparse_pos d) sp (sparse_buff d)"
      using same(2) assms(2) v(1) d(2) by (auto simp: same_on_def store_def)
    with r same(3) d(2) have "lo \<le> n \<Longrightarrow> n < hi \<Longrightarrow> \<exists>r. keymap_walk sp n mid (sz div 2) v = Some r \<and> result_ok t db n r" for n
      unfolding d(2) set_link_simps by blast
    moreover have "link sp at = v" using link_read [of at sp v "sparse_buff d"] same(1) d(2) v(2) by simp
    ultimately show ?thesis using v(3) data_flag(4) [OF v(2)] by (simp add: link_ok_def)
  qed
qed

lemma sparse_ok:
  assumes "sparse t idx sz c = Some (me, c')" "sz \<noteq> 0" "sz \<le> idx" "sparse_pos c' \<le> 32768" "data_pos c' \<le> 32768"
    and "same_on me (sparse_pos c') sp (sparse_buff c')" "same_on (data_pos c) (data_pos c') db (data_buff c')"
    and "idx - sz \<le> n" "n < idx + sz"
  shows "\<exists>r. keymap_walk sp n idx sz me = Some r \<and> result_ok t db n r"
  using assms
proof (induction sz arbitrary: idx c me c' n rule: less_induct)
  case (less sz)
  obtain c1 c2 where 1: "sparse_add c = Some (me, c1)"
    "sparse_half t (idx - sz) idx (idx - sz div 2) sz me c1 = Some c2"
    "sparse_half t idx (idx + sz) (idx + sz div 2) sz (me + 2) c2 = Some c'"
    using less.prems(1) unfolding sparse_parts by (auto simp: bind_eq_Some_conv)
  have a: "me = sparse_pos c" "sparse_pos c1 = sparse_pos c + 4" "data_pos c1 = data_pos c" using add_node [OF 1(1)] by simp_all
  have small: "even sz \<Longrightarrow> sz div 2 < sz \<and> sz div 2 \<noteq> 0" using less.prems(2) by (auto elim!: evenE)
  have rec: "even sz \<Longrightarrow> sparse t i (sz div 2) d = Some (m, d') \<Longrightarrow> extends 0 0 d d'" for i d m d'
    using sparse_extends small by blast
  have e1: "extends me (me + 2) c1 c2"
    by (rule half_extends [OF 1(2) _ rec]) (use a in auto)
  then have "me + 2 + 2 \<le> sparse_pos c2" using a by (simp add: extends_def)
  then have e2: "extends (me + 2) (me + 2 + 2) c2 c'" by (rule half_extends [OF 1(3) _ rec])
  have p: "sparse_pos c1 \<le> sparse_pos c2" "sparse_pos c2 \<le> sparse_pos c'" "data_pos c1 \<le> data_pos c2" "data_pos c2 \<le> data_pos c'"
    using e1 e2 by (simp_all add: extends_def)
  have "link_ok t (idx - sz) idx (idx - sz div 2) (sz div 2) sp db (link sp me)"
  proof (rule half_ok [OF 1(2)])
    show "same_on me (me + 2) sp (sparse_buff c2)" "same_on (sparse_pos c1) (sparse_pos c2) sp (sparse_buff c2)"
      "same_on (data_pos c1) (data_pos c2) db (data_buff c2)"
      using e2 less.prems(6,7) a p by (auto simp: same_on_def extends_def)
    fix m d n'
    assume r: "even sz" "sparse t (idx - sz div 2) (sz div 2) c1 = Some (m, d)" "sparse_pos d \<le> 32768" "data_pos d \<le> 32768"
    show "m = sparse_pos c1 \<and> sparse_pos c1 < sparse_pos d \<and>
      (same_on m (sparse_pos d) sp (sparse_buff d) \<longrightarrow> same_on (data_pos c1) (data_pos d) db (data_buff d) \<longrightarrow>
       idx - sz \<le> n' \<longrightarrow> n' < idx \<longrightarrow> (\<exists>r. keymap_walk sp n' (idx - sz div 2) (sz div 2) m = Some r \<and> result_ok t db n' r))"
      using sparse_extends [OF r(2)] small less.IH [of "sz div 2" "idx - sz div 2" c1 m d n', OF _ r(2) _ _ r(3,4)] less.prems(3) r(1)
      by (auto elim!: evenE)
  qed (use a p less.prems(4,5) in auto)
  moreover have "link_ok t idx (idx + sz) (idx + sz div 2) (sz div 2) sp db (link sp (me + 2))"
  proof (rule half_ok [OF 1(3)])
    show "same_on (me + 2) (me + 2 + 2) sp (sparse_buff c')" "same_on (sparse_pos c2) (sparse_pos c') sp (sparse_buff c')"
      "same_on (data_pos c2) (data_pos c') db (data_buff c')"
      using less.prems(6,7) a p by (auto simp: same_on_def)
    fix m d n'
    assume r: "even sz" "sparse t (idx + sz div 2) (sz div 2) c2 = Some (m, d)" "sparse_pos d \<le> 32768" "data_pos d \<le> 32768"
    show "m = sparse_pos c2 \<and> sparse_pos c2 < sparse_pos d \<and>
      (same_on m (sparse_pos d) sp (sparse_buff d) \<longrightarrow> same_on (data_pos c2) (data_pos d) db (data_buff d) \<longrightarrow>
       idx \<le> n' \<longrightarrow> n' < idx + sz \<longrightarrow> (\<exists>r. keymap_walk sp n' (idx + sz div 2) (sz div 2) m = Some r \<and> result_ok t db n' r))"
      using sparse_extends [OF r(2)] small less.IH [of "sz div 2" "idx + sz div 2" c2 m d n', OF _ r(2) _ _ r(3,4)] less.prems(3) r(1)
      by (auto elim!: evenE)
  qed (use a p less.prems(4,5) in auto)
  ultimately show ?case by (rule node_ok) (use less.prems(8,9) in auto)
qed

section \<open>How large a keymap may be\<close>

definition entries :: "table \<Rightarrow> nat \<Rightarrow> nat \<Rightarrow> nat" where
  "entries t lo hi = length (filter (\<lambda>i. t i \<noteq> empty_entry) [lo..<hi])"

lemma entries_split: "lo \<le> mid \<Longrightarrow> mid \<le> hi \<Longrightarrow> entries t lo hi = entries t lo mid + entries t mid hi"
  using upt_add_eq_append [of lo mid "hi - mid"] by (simp add: entries_def)

lemma empty_iff: "t i = empty_entry \<longleftrightarrow> e_flags (t i) = 0 \<and> e_val (t i) = 0"
  by (metis empty_entry_def table_entry.equality table_entry.select_convs(1,2) unit.exhaust)

lemma entries_set: "all_set t lo hi \<Longrightarrow> entries t lo hi = hi - lo"
proof -
  assume "all_set t lo hi"
  then have "filter (\<lambda>i. t i \<noteq> empty_entry) [lo..<hi] = [lo..<hi]"
    by (intro filter_True) (simp add: all_set_def list_all_iff empty_iff)
  then show ?thesis by (simp add: entries_def)
qed

lemma entries_pos: "\<not> all_clear t lo hi \<Longrightarrow> 0 < entries t lo hi"
  by (auto simp: all_clear_def list_all_iff entries_def length_greater_0_conv filter_empty_conv empty_iff)

text \<open>A subtree of height \<open>k\<close> with \<open>m\<close> entries needs at most \<open>1 + k * m\<close> nodes.\<close>

lemma half_fits:
  assumes "hi = lo + 2 ^ k" and m: "m = entries t lo hi"
    and room: "sparse_pos c + 4 * (k * m) < 32768" "data_pos c + 8 * m < 32768"
    and rec: "\<And>j. k = Suc j \<Longrightarrow> 0 < m \<Longrightarrow> \<exists>me d. sparse t mid (2 ^ j) c = Some (me, d) \<and>
      sparse_pos d \<le> sparse_pos c + 4 * (1 + j * m) \<and> data_pos d \<le> data_pos c + 8 * m"
  shows "\<exists>c'. sparse_half t lo hi mid (2 ^ k) at c = Some c' \<and>
    sparse_pos c' \<le> sparse_pos c + 4 * (k * m) \<and> data_pos c' \<le> data_pos c + 8 * m"
proof (cases "all_clear t lo hi")
  case True
  then show ?thesis by (simp add: sparse_half_def)
next
  case False
  then have pos: "0 < m" using entries_pos m by simp
  show ?thesis
  proof (cases "all_set t lo hi \<or> k = 0")
    case True
    have "m = hi - lo"
    proof (cases "k = 0")
      case True
      have "m \<le> length [lo..<hi]" unfolding m entries_def by (rule length_filter_le)
      with pos assms(1) True show ?thesis by simp
    qed (use True m entries_set in simp)
    with room(2) have "data_add t lo hi c \<noteq> None" by (simp add: data_add_def Let_def)
    then obtain v d where d: "data_add t lo hi c = Some (v, d)" by auto
    with add_data [OF d] \<open>m = hi - lo\<close> False True show ?thesis
      by (auto simp: sparse_half_def)
  next
    case no: False
    then obtain j where j: "k = Suc j" by (cases k) auto
    from rec [OF j pos] obtain me d where d: "sparse t mid (2 ^ j) c = Some (me, d)"
      "sparse_pos d \<le> sparse_pos c + 4 * (1 + j * m)" "data_pos d \<le> data_pos c + 8 * m" by blast
    moreover have "1 + j * m \<le> k * m" using pos j by simp
    ultimately show ?thesis using False no j by (auto simp: sparse_half_def)
  qed
qed

lemma sparse_fits:
  assumes "2 ^ k \<le> idx" "m = entries t (idx - 2 ^ k) (idx + 2 ^ k)"
    and "sparse_pos c + 4 * (1 + k * m) < 32768" "data_pos c + 8 * m < 32768"
  shows "\<exists>me c'. sparse t idx (2 ^ k) c = Some (me, c') \<and> sparse_pos c' \<le> sparse_pos c + 4 * (1 + k * m) \<and>
    data_pos c' \<le> data_pos c + 8 * m"
  using assms
proof (induction k arbitrary: idx c m rule: less_induct)
  case (less k)
  let ?lo = "idx - 2 ^ k" and ?hi = "idx + 2 ^ k"
  define m1 m2 where "m1 = entries t ?lo idx" and "m2 = entries t idx ?hi"
  have m: "m = m1 + m2" using less.prems(1,2) by (simp add: m1_def m2_def entries_split [of ?lo idx ?hi])
  then have km: "k * m = k * m1 + k * m2" by (simp add: distrib_left)
  have "sparse_add c \<noteq> None" using less.prems(3) by (simp add: sparse_add_def Let_def)
  then obtain i c1 where 1: "sparse_add c = Some (i, c1)" by auto
  have p1: "sparse_pos c1 = sparse_pos c + 4" "data_pos c1 = data_pos c" using add_node [OF 1] by simp_all
  have rec: "\<exists>me d'. sparse t x (2 ^ j) d = Some (me, d') \<and> sparse_pos d' \<le> sparse_pos d + 4 * (1 + j * n) \<and>
      data_pos d' \<le> data_pos d + 8 * n"
    if "k = Suc j" "0 < n" "n = entries t (x - 2 ^ j) (x + 2 ^ j)" "2 ^ j \<le> x"
      "sparse_pos d + 4 * (k * n) < 32768" "data_pos d + 8 * n < 32768" for j n d x
  proof -
    have "1 + j * n \<le> k * n" using that(1,2) by simp
    then have "sparse_pos d + 4 * (1 + j * n) \<le> sparse_pos d + 4 * (k * n)" by (intro add_left_mono mult_le_mono2)
    from this that(5) have "sparse_pos d + 4 * (1 + j * n) < 32768" by (rule le_less_trans)
    from less.IH [OF _ that(4,3) this that(6)] that(1) show ?thesis by simp
  qed
  have "\<exists>c2. sparse_half t ?lo idx (idx - 2 ^ k div 2) (2 ^ k) i c1 = Some c2 \<and>
      sparse_pos c2 \<le> sparse_pos c1 + 4 * (k * m1) \<and> data_pos c2 \<le> data_pos c1 + 8 * m1"
  proof (rule half_fits [OF _ m1_def])
    show room: "sparse_pos c1 + 4 * (k * m1) < 32768" "data_pos c1 + 8 * m1 < 32768"
      using less.prems(3,4) p1 km m by simp_all
    fix j assume "k = Suc j" "0 < m1"
    with rec [of j m1 "idx - 2 ^ j" c1] room less.prems(1)
    show "\<exists>me d. sparse t (idx - 2 ^ k div 2) (2 ^ j) c1 = Some (me, d) \<and> sparse_pos d \<le> sparse_pos c1 + 4 * (1 + j * m1) \<and>
        data_pos d \<le> data_pos c1 + 8 * m1" by (simp add: m1_def mult_2)
  qed (use less.prems(1) in simp)
  then obtain c2 where 2: "sparse_half t ?lo idx (idx - 2 ^ k div 2) (2 ^ k) i c1 = Some c2"
    "sparse_pos c2 \<le> sparse_pos c1 + 4 * (k * m1)" "data_pos c2 \<le> data_pos c1 + 8 * m1" by blast
  have "\<exists>c3. sparse_half t idx ?hi (idx + 2 ^ k div 2) (2 ^ k) (i + 2) c2 = Some c3 \<and>
      sparse_pos c3 \<le> sparse_pos c2 + 4 * (k * m2) \<and> data_pos c3 \<le> data_pos c2 + 8 * m2"
  proof (rule half_fits [OF _ m2_def])
    show room: "sparse_pos c2 + 4 * (k * m2) < 32768" "data_pos c2 + 8 * m2 < 32768"
      using less.prems(3,4) p1 km m 2(2,3) by simp_all
    fix j assume "k = Suc j" "0 < m2"
    with rec [of j m2 "idx + 2 ^ j" c2] room less.prems(1)
    show "\<exists>me d. sparse t (idx + 2 ^ k div 2) (2 ^ j) c2 = Some (me, d) \<and> sparse_pos d \<le> sparse_pos c2 + 4 * (1 + j * m2) \<and>
        data_pos d \<le> data_pos c2 + 8 * m2" by (simp add: m2_def mult_2 add.assoc)
  qed simp
  then obtain c3 where 3: "sparse_half t idx ?hi (idx + 2 ^ k div 2) (2 ^ k) (i + 2) c2 = Some c3"
    "sparse_pos c3 \<le> sparse_pos c2 + 4 * (k * m2)" "data_pos c3 \<le> data_pos c2 + 8 * m2" by blast
  have "sparse t idx (2 ^ k) c = Some (i, c3)" using 1 2(1) 3(1) by (simp add: sparse_parts)
  moreover have "sparse_pos c3 \<le> sparse_pos c + 4 * (1 + k * m)" "data_pos c3 \<le> data_pos c + 8 * m"
    using 2(2,3) 3(2,3) p1 km m by simp_all
  ultimately show ?case by blast
qed

section \<open>Commands and files\<close>

lemma parse_cmd_other: "n \<noteq> TABLE_IDX (c_combinators c) (c_modifiers c) (c_scancode c) \<Longrightarrow> parse_cmd c t n = t n"
  by (simp add: parse_cmd_def Let_def)

lemma parse_entries: "entries (parse cmds) lo hi \<le> length cmds"
proof -
  let ?I = "(\<lambda>c. TABLE_IDX (c_combinators c) (c_modifiers c) (c_scancode c)) ` set cmds"
  have "fold parse_cmd cs t n = t n" if "n \<notin> (\<lambda>c. TABLE_IDX (c_combinators c) (c_modifiers c) (c_scancode c)) ` set cs" for cs t n
    using that by (induction cs arbitrary: t) (auto simp: parse_cmd_other)
  then have "{i \<in> set [lo..<hi]. parse cmds i \<noteq> empty_entry} \<subseteq> ?I" by (auto simp: parse_def)
  then have "card {i \<in> set [lo..<hi]. parse cmds i \<noteq> empty_entry} \<le> card ?I" by (intro card_mono) auto
  moreover have "card ?I \<le> length cmds" by (meson card_image_le card_length finite_set le_trans)
  ultimately show ?thesis by (simp add: entries_def distinct_length_filter Int_def conj_commute)
qed

lemma index_bound: "TABLE_IDX cb md sc < 2 ^ 19"
proof -
  let ?w = "push_bit 11 (cb AND 0xFF) OR push_bit 7 (md AND 0xF) OR (sc AND 0x7F) :: u32"
  have m: "0xFF = (mask 8 :: u32)" "0xF = (mask 4 :: u32)" "0x7F = (mask 7 :: u32)" by (simp_all add: mask_eq_exp_minus_1)
  have n: "19 - 11 = (8 :: nat)" "19 - 7 = (12 :: nat)" "min 8 8 = (8 :: nat)" "min 12 4 = (4 :: nat)" "min 19 7 = (7 :: nat)"
    by simp_all
  have "take_bit 19 ?w = ?w"
    unfolding m take_bit_eq_mask [symmetric] by (simp only: take_bit_or take_bit_push_bit take_bit_take_bit n)
  then have "unat ?w = unat (take_bit 19 ?w)" by (simp only:)
  also have "\<dots> = take_bit 19 (unat ?w)" by (rule unsigned_take_bit_eq)
  also have "\<dots> < 2 ^ 19" by (rule take_bit_nat_less_exp)
  finally show ?thesis by (simp only: TABLE_IDX_def)
qed

lemma load_file:
  assumes "sizes_ok c"
  shows "\<exists>k'. load_keymap (kmc_file c) junk junk' k = Some k' \<and>
    same_on 0 (sparse_pos c) (m_pSparseTable k') (sparse_buff c) \<and> same_on 0 (data_pos c) (m_pDataTable k') (data_buff c)"
proof -
  let ?s = "sparse_buffsz c" and ?A = "load (sparse_buffsz c) 0 (sparse_buff c)" and ?D = "load (data_buffsz c) 0 (data_buff c)"
  have b: "?s \<le> 40000" using assms by (simp add: sizes_ok_def)
  have len: "length ?A = ?s" "length ?D = data_buffsz c" by (simp_all add: load_def)
  have f: "length (kmc_file c) = 8 + ?s + data_buffsz c" "take 4 (kmc_file c) = nat_le 4 8"
    "take 4 (drop 4 (kmc_file c)) = nat_le 4 (?s + 8)" "drop 8 (kmc_file c) = ?A @ ?D" "drop (?s + 8) (kmc_file c) = ?D"
    using len by (simp_all add: kmc_file_def)
  have off: "le_nat (nat_le 4 8) = 8" "le_nat (nat_le 4 (?s + 8)) = ?s + 8" using b by (simp_all add: le_nat_nat_le)
  have sz: "unat (of_nat (?s + 8) - of_nat 8 :: u32) = ?s"
    using b by (simp add: unat_of_nat take_bit_eq_mod)
  have "load_keymap (kmc_file c) junk junk' k = Some (k\<lparr>m_pSparseTable := bytes_mem ?A junk, m_pDataTable := bytes_mem ?D junk'\<rparr>)"
    unfolding load_keymap_def f off Let_def sz using len f(1) by simp
  then show ?thesis using assms by (auto simp: same_on_def bytes_mem_def load_def sizes_ok_def)
qed

section \<open>Properties\<close>

text \<open>C19: A keymap of at most 455 commands compiles, its file loads, and the kernel then finds for every
  combination of modifiers, combinator and key exactly the entry of the table that the commands make:
  no entry only where the table has none.\<close>

theorem keymap_roundtrip:
  assumes "length cmds \<le> 455"
  shows "\<exists>f k'. compile cmds buf buf' = Some f \<and> load_keymap f junk junk' k = Some k' \<and>
    (\<forall>bCtrl bShift bAlt bAltGr nCombinator keyCode.
       \<exists>r. getKeymapEntry bCtrl bShift bAlt bAltGr nCombinator keyCode k' = Some r \<and>
         parse cmds (TABLE_IDX (ucast nCombinator) (modifier_index bCtrl bShift bAlt bAltGr) (ucast keyCode)) =
           (case r of None \<Rightarrow> empty_entry | Some e \<Rightarrow> e))"
proof -
  let ?t = "parse cmds" and ?c = "compiler_new buf buf'" and ?h = "2 ^ 18 :: nat"
  have half: "(TABLE_MAX + 1) div 2 = ?h" by (simp add: TABLE_MAX_def)
  have c: "sparse_pos ?c = 0" "data_pos ?c = 0" "sizes_ok ?c" by (simp_all add: compiler_new_def sizes_ok_def)
  have n: "entries ?t 0 (2 ^ 19) \<le> 455" using parse_entries [of cmds 0 "2 ^ 19"] assms by simp
  then have "\<exists>me c'. sparse ?t ?h ?h ?c = Some (me, c') \<and> sparse_pos c' \<le> 32768 \<and> data_pos c' \<le> 32768"
    using sparse_fits [of 18 ?h "entries ?t 0 (2 ^ 19)" ?t ?c] c by fastforce
  then obtain me c' where c': "sparse ?t ?h ?h ?c = Some (me, c')" "sparse_pos c' \<le> 32768" "data_pos c' \<le> 32768" by blast
  have e: "me = 0" "sizes_ok c'" using sparse_extends [OF c'(1)] c by (simp_all add: extends_def)
  have comp: "compile cmds buf buf' = Some (kmc_file c')" 
    using c'(1) unfolding compile_def compile_table_def half by simp
  obtain k' where k': "load_keymap (kmc_file c') junk junk' k = Some k'"
    "same_on 0 (sparse_pos c') (m_pSparseTable k') (sparse_buff c')" "same_on 0 (data_pos c') (m_pDataTable k') (data_buff c')"
    using load_file [OF e(2)] by blast
  have "\<exists>r. getKeymapEntry bCtrl bShift bAlt bAltGr nCombinator keyCode k' = Some r \<and>
         ?t (TABLE_IDX (ucast nCombinator) (modifier_index bCtrl bShift bAlt bAltGr) (ucast keyCode)) =
           (case r of None \<Rightarrow> empty_entry | Some e \<Rightarrow> e)" for bCtrl bShift bAlt bAltGr nCombinator keyCode
  proof -
    let ?n = "TABLE_IDX (ucast nCombinator) (modifier_index bCtrl bShift bAlt bAltGr) (ucast keyCode)"
    have "?n < ?h + ?h" using index_bound [of "ucast nCombinator" "modifier_index bCtrl bShift bAlt bAltGr" "ucast keyCode"] by simp
    with sparse_ok [OF c'(1) _ _ c'(2,3), of "m_pSparseTable k'" "m_pDataTable k'" ?n] k'(2,3) e(1) c
    obtain r where "keymap_walk (m_pSparseTable k') ?n ?h ?h 0 = Some r" "result_ok ?t (m_pDataTable k') ?n r" by auto
    then show ?thesis unfolding getKeymapEntry_def half by (cases r) (auto simp: result_ok_def)
  qed
  with comp k'(1) show ?thesis by blast
qed

abbreviation letter_a :: cmd where
  "letter_a \<equiv> \<lparr>c_scancode = 4, c_modifiers = 0, c_combinators = 0, c_unicode_point = 97, c_val = None, c_set_modifiers = 0\<rparr>"

abbreviation us_keymap :: KeymapManager where
  "us_keymap \<equiv> \<lparr>m_pSparseTable = (\<lambda>_. 0), m_pDataTable = (\<lambda>_. 0), m_bLeftCtrl = False, m_bLeftShift = False, m_bLeftAlt = False,
     m_bRightCtrl = False, m_bRightShift = False, m_bRightAlt = False, m_bCapsLock = False, m_nCombinator = 0\<rparr>"

theorem keymap_roundtrip_witness:
  "\<exists>f k'. compile [letter_a] (\<lambda>_. 7) (\<lambda>_. 7) = Some f \<and> load_keymap f (\<lambda>_. 9) (\<lambda>_. 9) us_keymap = Some k' \<and>
     getKeymapEntry False False False False 0 4 k' = Some (Some \<lparr>e_flags = 0, e_val = 97\<rparr>)"
proof -
  have n: "length [letter_a] \<le> 455" by simp
  from keymap_roundtrip [OF n, of "\<lambda>_. 7" "\<lambda>_. 7" "\<lambda>_. 9" "\<lambda>_. 9" us_keymap] obtain f k' r where r:
    "compile [letter_a] (\<lambda>_. 7) (\<lambda>_. 7) = Some f" "load_keymap f (\<lambda>_. 9) (\<lambda>_. 9) us_keymap = Some k'"
    "getKeymapEntry False False False False 0 4 k' = Some r"
    "parse [letter_a] (TABLE_IDX (ucast (0 :: u8)) (modifier_index False False False False) (ucast (4 :: u8))) =
      (case r of None \<Rightarrow> empty_entry | Some e \<Rightarrow> e)" by blast
  have "parse [letter_a] (TABLE_IDX (ucast (0 :: u8)) (modifier_index False False False False) (ucast (4 :: u8))) =
      \<lparr>e_flags = 0, e_val = 97\<rparr>"
    by (simp add: parse_def parse_cmd_def TABLE_IDX_def modifier_index_def empty_entry_def)
  with r show ?thesis by (cases r) (auto simp: empty_entry_def)
qed

lemma cycle_walk:
  "keymap_walk sp n bisect sz p = Some r \<Longrightarrow> link sp p = q \<Longrightarrow> link sp (p + 2) = q \<Longrightarrow> link sp q = q \<Longrightarrow> link sp (q + 2) = q \<Longrightarrow>
     q \<noteq> 0 \<Longrightarrow> q AND DataFlag = 0 \<Longrightarrow> False"
proof (induction sp n bisect sz p r rule: keymap_walk.raw_induct [rotated, consumes 1, case_names step])
  case (step rec sp n bisect sz p r)
  from step.hyps step.prems(1,2,5,6) obtain b where "rec sp n b (sz div 2) q = Some r" by (auto split: if_splits)
  from step.IH [OF this step.prems(3,4,3,4,5,6)] show ?case .
qed

text \<open>A keymap comes from a user's program and is not checked: a tree in which a node links to
  itself makes the kernel search forever at the next key.\<close>

theorem keymap_cycle_hangs:
  "\<exists>k'. load_keymap (nat_le 4 8 @ nat_le 4 16 @ [4, 0, 4, 0, 4, 0, 4, 0]) junk junk' k = Some k' \<and>
     (\<forall>keyCode. resolveHidKeycode keyCode k' = None)"
proof -
  let ?f = "nat_le 4 8 @ nat_le 4 16 @ [4, 0, 4, 0, 4, 0, 4, 0]" and ?sp = "bytes_mem [4, 0, 4, 0, 4, 0, 4, 0] junk"
  have four: "nat_le 4 m = nat_le (Suc (Suc (Suc (Suc 0)))) m" for m by (rule arg_cong [of _ _ "\<lambda>i. nat_le i m"]) simp
  have n: "nat_le 4 8 = [8, 0, 0, 0]" "nat_le 4 16 = [16, 0, 0, 0]" unfolding four by simp_all
  have f: "length ?f = 16" "take 4 ?f = [8, 0, 0, 0]" "take 4 (drop 4 ?f) = [16, 0, 0, 0]" "drop 8 ?f = [4, 0, 4, 0, 4, 0, 4, 0]"
    "drop 16 ?f = []" unfolding n by simp_all
  have o: "le_nat [8, 0, 0, 0] = 8" "le_nat [16, 0, 0, 0] = 16" "unat (of_nat 16 - of_nat 8 :: u32) = 8" by simp_all
  have l: "load_keymap ?f junk junk' k = Some (k\<lparr>m_pSparseTable := ?sp, m_pDataTable := bytes_mem [] junk'\<rparr>)"
    unfolding load_keymap_def f o Let_def by simp
  have k: "link ?sp 0 = 4" "link ?sp (0 + 2) = 4" "link ?sp 4 = 4" "link ?sp (4 + 2) = 4"
    by (simp_all add: link_def bytes_mem_def load_def upt_rec)
  have "keymap_walk ?sp n b s 0 = None" for n b s
  proof (cases "keymap_walk ?sp n b s 0")
    case (Some r)
    from cycle_walk [OF this k] show ?thesis by (simp add: DataFlag_def)
  qed
  then have "getKeymapEntry c s a g n key (k\<lparr>m_pSparseTable := ?sp, m_pDataTable := bytes_mem [] junk'\<rparr>) = None" for c s a g n key
    by (simp add: getKeymapEntry_def)
  then have "resolveHidKeycode key (k\<lparr>m_pSparseTable := ?sp, m_pDataTable := bytes_mem [] junk'\<rparr>) = None" for key
    by (simp add: resolveHidKeycode_def fallbacks_def Let_def)
  with l show ?thesis by blast
qed

fun add_nodes :: "nat \<Rightarrow> compiler \<Rightarrow> compiler option" where
  "add_nodes 0 c = Some c"
| "add_nodes (Suc n) c = do { c \<leftarrow> add_nodes n c; map_option snd (sparse_add c) }"

lemma add_nodes_pos:
  "n \<le> 8199 \<Longrightarrow> \<exists>c. add_nodes n (compiler_new buf buf') = Some c \<and> sparse_pos c = 4 * n \<and> sparse_buffsz c = 36 * ((n + 8) div 9)"
proof (induction n)
  case (Suc n)
  then obtain c where c: "add_nodes n (compiler_new buf buf') = Some c" "sparse_pos c = 4 * n" "sparse_buffsz c = 36 * ((n + 8) div 9)"
    by auto
  have "36 * ((n + 8) div 9) < 4 * n + 4 \<longleftrightarrow> n mod 9 = 0" "(Suc n + 8) div 9 = (if n mod 9 = 0 then (n + 8) div 9 + 1 else (n + 8) div 9)"
    by presburger+
  moreover have "n mod 9 = 0 \<Longrightarrow> 4 * n + 4 < 32768" using Suc.prems by presburger
  ultimately show ?case using c by (auto simp: sparse_add_def Let_def)
qed (simp add: compiler_new_def)

text \<open>The limit on the number of nodes is only tested when the buffer grows: the compiler hands out
  the position 32768, which as a link is not a node but entry 0 of the data.\<close>

theorem sparse_limit_missed:
  "\<exists>c c'. add_nodes 8192 (compiler_new buf buf') = Some c \<and> sparse_add c = Some (32768, c') \<and>
     (32768 :: nat) AND DataFlag \<noteq> 0 \<and> (32768 :: nat) AND 0x7FFF = 0"
proof -
  obtain c where c: "add_nodes 8192 (compiler_new buf buf') = Some c" "sparse_pos c = 32768" "sparse_buffsz c = 36 * ((8192 + 8) div 9)"
    using add_nodes_pos [of 8192 buf buf'] by auto
  then show ?thesis by (simp add: sparse_add_def Let_def DataFlag_def)
qed

text \<open>A dead key: pressed once it only sets its combinator, and pressed again, when the keymap has
  nothing for it under that combinator, it gives its own character and leaves no combinator set.\<close>

theorem resolve_dead_key:
  assumes "m_nCombinator k = 0" "n \<noteq> 0" "e_flags e AND 0xFF = ucast n"
    and "getKeymapEntry (m_bLeftCtrl k \<or> m_bRightCtrl k) (m_bLeftShift k \<or> m_bRightShift k) (m_bLeftAlt k) (m_bRightAlt k) 0 keyCode k = Some (Some e)"
    and "getKeymapEntry (m_bLeftCtrl k \<or> m_bRightCtrl k) (m_bLeftShift k \<or> m_bRightShift k) (m_bLeftAlt k) (m_bRightAlt k) n keyCode k = Some r"
    and "no_entry r"
  shows "\<exists>k1. resolveHidKeycode keyCode k = Some (0, k1) \<and> m_nCombinator k1 = n \<and>
    resolveHidKeycode keyCode k1 = Some (key_of e k, k)"
proof -
  let ?k1 = "k\<lparr>m_nCombinator := n\<rparr>"
  have u: "ucast n \<noteq> (0 :: u32)" "ucast (ucast n :: u32) = n" using assms(2)
    by (transfer; simp add: take_bit_eq_mod)+
  have e: "\<not> no_entry (Some e)" using u(1) assms(3) by (auto simp: no_entry_def)
  have g: "getKeymapEntry c s a g m key ?k1 = getKeymapEntry c s a g m key k" for c s a g m key
    by (simp add: getKeymapEntry_def)
  have "first_entry (fallbacks k) keyCode k = Some (Some e)" "first_entry (fallbacks ?k1) keyCode ?k1 = Some (Some e)"
    using assms(1,4-6) e by (simp_all add: fallbacks_def Let_def g)
  moreover have "key_of e ?k1 = key_of e k" by (simp add: key_of_def)
  ultimately show ?thesis using assms(1-3) u by (simp add: resolveHidKeycode_def Let_def)
qed

abbreviation accent_keymap :: KeymapManager where
  "accent_keymap \<equiv> us_keymap\<lparr>m_pSparseTable := (\<lambda>i. if i = 1 then 0x80 else 0), m_pDataTable := (\<lambda>i. if i = 32 then 1 else if i = 36 then 94 else 0)\<rparr>"

theorem resolve_dead_key_witness:
  "\<exists>k1. resolveHidKeycode 4 accent_keymap = Some (0, k1) \<and> m_nCombinator k1 = 1 \<and>
    resolveHidKeycode 4 k1 = Some (key_of \<lparr>e_flags = 1, e_val = 94\<rparr> accent_keymap, accent_keymap)"
proof -
  have l: "link (m_pSparseTable accent_keymap) 0 = 32768" by (simp add: link_def load_def upt_rec)
  have i: "TABLE_IDX 0 0 4 = 4" "TABLE_IDX 1 0 4 = 2052" "modifier_index False False False False = 0"
    by (simp_all add: TABLE_IDX_def modifier_index_def push_bit_eq_mult)
  have h: "(TABLE_MAX + 1) div 2 = 262144" by (simp add: TABLE_MAX_def)
  have w: "keymap_walk (m_pSparseTable accent_keymap) 4 262144 262144 0 = Some (Some 32)"
    "keymap_walk (m_pSparseTable accent_keymap) 2052 262144 262144 0 = Some (Some 16416)"
    by (subst keymap_walk.simps, simp only: l, simp add: DataFlag_def)+
  have e: "entry_at (m_pDataTable accent_keymap) 32 = \<lparr>e_flags = 1, e_val = 94\<rparr>"
    "entry_at (m_pDataTable accent_keymap) 16416 = \<lparr>e_flags = 0, e_val = 0\<rparr>"
    by (simp_all add: entry_at_def load_def upt_rec)
  have g: "getKeymapEntry False False False False 0 4 accent_keymap = Some (Some \<lparr>e_flags = 1, e_val = 94\<rparr>)"
    "getKeymapEntry False False False False 1 4 accent_keymap = Some (Some \<lparr>e_flags = 0, e_val = 0\<rparr>)"
    using w e i unfolding getKeymapEntry_def h by simp_all
  show ?thesis
    by (rule resolve_dead_key [where r = "Some \<lparr>e_flags = 0, e_val = 0\<rparr>"]) (use g in \<open>simp_all add: no_entry_def\<close>)
qed

end
