(* ===== verification/Letter_Case.thy ===== *)
theory Letter_Case
  imports Pedigree_Prelude
begin

text \<open>Letters of either case (\<^verbatim>\<open>utilities/utility.h\<close>), shared by the keys of the radix tree and the names of files.\<close>

definition toUpper :: "u8 \<Rightarrow> u8" where
  "toUpper c = (if c < 97 \<or> c > 122 then c else c - 32)"

definition toLower :: "u8 \<Rightarrow> u8" where
  "toLower c = (if c < 65 \<or> c > 90 then c else c + 32)"

end
