(* ===== verification/Radix_Tree.thy ===== *)
theory Radix_Tree
  imports Letter_Case "HOL-Library.Monad_Syntax" "HOL-Library.Sublist"
begin

text \<open>
  \<open>RadixTree<void*>\<close> (\<^verbatim>\<open>utilities/RadixTree.h\<close>, \<^verbatim>\<open>kernel/utilities/RadixTree.cc\<close>): a map from
  strings to pointers, kept as a tree whose nodes carry fragments of the keys.  A node is a value of
  a datatype; its parent pointer is the flag \<open>m_pParent\<close>, which says whether the pointer leads to
  the node that holds this one or is null.  A pointer value is a number, null is 0, and a key is the list of
  its characters without the terminator.  \<open>None\<close> is a null dereference, a read behind the end of a
  key or a panic.
\<close>

section \<open>Nodes\<close>

datatype node = RNode (m_pKey: "u8 list") (m_value: nat) (m_Children: "node list") (m_pParent: bool) (m_bNodeCase: bool)

datatype MatchType = ExactMatch | NoMatch | PartialMatch | OverMatch

definition same_char :: "bool \<Rightarrow> u8 \<Rightarrow> u8 \<Rightarrow> bool" where
  "same_char cs a b \<longleftrightarrow> (if cs then a = b else toLower a = toLower b)"

text \<open>\<open>matchKey\<close>: the loop over both keys from position \<open>i\<close> on; the lists are what is left of them.\<close>

fun match_from :: "bool \<Rightarrow> nat \<Rightarrow> u8 list \<Rightarrow> u8 list \<Rightarrow> MatchType" where
  "match_from cs i (c # cp) (k # ks) =
     (if same_char cs c k then match_from cs (i + 1) cp ks else if i = 0 then NoMatch else PartialMatch)"
| "match_from cs i [] [] = ExactMatch"
| "match_from cs i [] (k # ks) = PartialMatch"
| "match_from cs i (c # cp) [] = OverMatch"

definition matchKey :: "u8 list \<Rightarrow> node \<Rightarrow> MatchType" where
  "matchKey cp n = match_from (m_bNodeCase n) 0 cp (m_pKey n)"

text \<open>The loop that finds the common prefix stops at the first difference, the terminators
  included; two equal keys would be read behind their ends.\<close>

fun common_prefix :: "bool \<Rightarrow> u8 list \<Rightarrow> u8 list \<Rightarrow> nat option" where
  "common_prefix cs (c # cp) (k # ks) = (if same_char cs c k then map_option Suc (common_prefix cs cp ks) else Some 0)"
| "common_prefix cs [] [] = None"
| "common_prefix cs [] (k # ks) = Some 0"
| "common_prefix cs (c # cp) [] = Some 0"

section \<open>Insertion and lookup\<close>

text \<open>\<open>insert_node\<close> gives the node that then stands in the place of \<open>pNode\<close> and the number of
  items added; \<open>insert_children\<close> is \<open>findChild\<close> with the step into the child found, or the new
  child at the end of the vector.\<close>

fun insert_node :: "bool \<Rightarrow> u8 list \<Rightarrow> nat \<Rightarrow> node \<Rightarrow> (node \<times> nat) option"
  and insert_children :: "bool \<Rightarrow> u8 list \<Rightarrow> nat \<Rightarrow> node list \<Rightarrow> (node list \<times> nat) option" where
  "insert_node cs cp v (RNode k x ch up ncs) =
     (case matchKey cp (RNode k x ch up ncs) of
        ExactMatch \<Rightarrow> Some (RNode k v ch up ncs, 0)
      | NoMatch \<Rightarrow> None
      | PartialMatch \<Rightarrow> do {
          i \<leftarrow> common_prefix cs cp k;
          (if \<not> up then None
           else Some
             (RNode (take i cp) (if drop i cp = [] then v else 0)
               ((if drop i cp = [] then [] else [RNode (drop i cp) v [] True cs]) @ [RNode (drop i k) x ch True ncs])
               True cs, 1)) }
      | OverMatch \<Rightarrow> do {
          (ch', j) \<leftarrow> insert_children cs (drop (length k) cp) v ch;
          Some (RNode k x ch' up ncs, j) })"
| "insert_children cs cp v [] = Some ([RNode cp v [] True cs], 1)"
| "insert_children cs cp v (c # chs) =
     (if matchKey cp c \<noteq> NoMatch
      then do { (c', j) \<leftarrow> insert_node cs cp v c; Some (c' # chs, j) }
      else do { (chs', j) \<leftarrow> insert_children cs cp v chs; Some (c # chs', j) })"

fun lookup_node :: "u8 list \<Rightarrow> node \<Rightarrow> nat"
  and lookup_children :: "u8 list \<Rightarrow> node list \<Rightarrow> nat" where
  "lookup_node cp (RNode k x ch up ncs) =
     (case matchKey cp (RNode k x ch up ncs) of
        ExactMatch \<Rightarrow> x
      | NoMatch \<Rightarrow> 0
      | PartialMatch \<Rightarrow> 0
      | OverMatch \<Rightarrow> lookup_children (drop (length k) cp) ch)"
| "lookup_children cp [] = 0"
| "lookup_children cp (c # chs) = (if matchKey cp c \<noteq> NoMatch then lookup_node cp c else lookup_children cp chs)"

section \<open>Removal\<close>

text \<open>What the removal of a key does to a node, seen from the list it is in: nothing, because the
  key is not there; a change inside it; its deletion; or its replacement by its only child, which goes to the
  end of the list.\<close>

datatype removal = Absent | Kept node | Deleted | Merged node

text \<open>What becomes of a node whose value or whose list of children has been reduced.\<close>

definition settle :: "node \<Rightarrow> removal option" where
  "settle n =
     (case (m_value n, m_Children n) of
        (0, []) \<Rightarrow> if m_pParent n then Some Deleted else None
      | (0, [RNode k x ch up ncs]) \<Rightarrow> if m_pParent n then Some (Merged (RNode (m_pKey n @ k) x ch True ncs)) else None
      | _ \<Rightarrow> Some (Kept n))"

datatype children_removal = CAbsent | CKept "node list" | CShrunk "node list"

fun remove_node :: "u8 list \<Rightarrow> node \<Rightarrow> removal option"
  and remove_children :: "u8 list \<Rightarrow> node list \<Rightarrow> children_removal option" where
  "remove_node cp (RNode k x ch up ncs) =
     (case matchKey cp (RNode k x ch up ncs) of
        ExactMatch \<Rightarrow> settle (RNode k 0 ch up ncs)
      | NoMatch \<Rightarrow> Some Absent
      | PartialMatch \<Rightarrow> Some Absent
      | OverMatch \<Rightarrow> do {
          r \<leftarrow> remove_children (drop (length k) cp) ch;
          (case r of
             CAbsent \<Rightarrow> Some Absent
           | CKept ch' \<Rightarrow> Some (Kept (RNode k x ch' up ncs))
           | CShrunk ch' \<Rightarrow> settle (RNode k x ch' up ncs)) })"
| "remove_children cp [] = Some CAbsent"
| "remove_children cp (c # chs) =
     (if matchKey cp c \<noteq> NoMatch
      then do {
        r \<leftarrow> remove_node cp c;
        Some (case r of
          Absent \<Rightarrow> CAbsent
        | Kept c' \<Rightarrow> CKept (c' # chs)
        | Deleted \<Rightarrow> CShrunk chs
        | Merged d \<Rightarrow> CKept (chs @ [d])) }
      else do {
        r \<leftarrow> remove_children cp chs;
        Some (case r of CAbsent \<Rightarrow> CAbsent | CKept chs' \<Rightarrow> CKept (c # chs') | CShrunk chs' \<Rightarrow> CShrunk (c # chs')) })"

section \<open>The tree\<close>

record RadixTree =
  m_nItems :: u64
  m_pRoot :: "node option"
  m_bCaseSensitive :: bool

definition RadixTree_new :: "bool \<Rightarrow> RadixTree" where
  "RadixTree_new bCaseSensitive = \<lparr>m_nItems = 0, m_pRoot = None, m_bCaseSensitive = bCaseSensitive\<rparr>"

definition empty_root :: "bool \<Rightarrow> node" where
  "empty_root cs = RNode [] 0 [] False cs"

definition root_of :: "RadixTree \<Rightarrow> node" where
  "root_of t = (case m_pRoot t of None \<Rightarrow> empty_root (m_bCaseSensitive t) | Some r \<Rightarrow> r)"

definition c_string :: "u8 list \<Rightarrow> u8 list" where
  "c_string s = takeWhile (\<lambda>c. c \<noteq> 0) s"

definition RadixTree_insert :: "u8 list \<Rightarrow> nat \<Rightarrow> RadixTree \<Rightarrow> RadixTree option" where
  "RadixTree_insert key v t = do {
     (r, j) \<leftarrow> insert_node (m_bCaseSensitive t) (c_string key) v (root_of t);
     Some (t\<lparr>m_pRoot := Some r, m_nItems := m_nItems t + of_nat j\<rparr>) }"

definition RadixTree_lookup :: "u8 list \<Rightarrow> RadixTree \<Rightarrow> nat" where
  "RadixTree_lookup key t = (case m_pRoot t of None \<Rightarrow> 0 | Some r \<Rightarrow> lookup_node (c_string key) r)"

text \<open>At the root an empty key only clears the value, without counting; the walk up the tree stops
  at the root.\<close>

definition RadixTree_remove :: "u8 list \<Rightarrow> RadixTree \<Rightarrow> RadixTree option" where
  "RadixTree_remove key t =
     (case root_of t of RNode k x ch up ncs \<Rightarrow>
        if c_string key = [] then Some (t\<lparr>m_pRoot := Some (RNode k 0 ch up ncs)\<rparr>)
        else if matchKey (c_string key) (RNode k x ch up ncs) \<noteq> OverMatch then None
        else do {
          r \<leftarrow> remove_children (drop (length k) (c_string key)) ch;
          Some (case r of
            CAbsent \<Rightarrow> t\<lparr>m_pRoot := Some (RNode k x ch up ncs)\<rparr>
          | CKept ch' \<Rightarrow> t\<lparr>m_pRoot := Some (RNode k x ch' up ncs), m_nItems := m_nItems t - 1\<rparr>
          | CShrunk ch' \<Rightarrow> t\<lparr>m_pRoot := Some (RNode k x ch' up ncs), m_nItems := m_nItems t - 1\<rparr>) })"

definition RadixTree_clear :: "RadixTree \<Rightarrow> RadixTree" where
  "RadixTree_clear t = t\<lparr>m_pRoot := Some (empty_root (m_bCaseSensitive t)), m_nItems := 0\<rparr>"

text \<open>\<open>cloneNode\<close> hands its own parent on to the recursive calls, which is null for the root: every
  node of a copy has a null parent.  The nodes get the case sensitivity of the tree copied into.\<close>

fun cloneNode :: "bool \<Rightarrow> node \<Rightarrow> node" where
  "cloneNode cs (RNode k x ch up ncs) = RNode k x (map (cloneNode cs) ch) False cs"

definition RadixTree_copy :: "RadixTree \<Rightarrow> RadixTree" where
  "RadixTree_copy x =
     \<lparr>m_nItems = m_nItems x, m_pRoot = map_option (cloneNode (m_bCaseSensitive x)) (m_pRoot x),
      m_bCaseSensitive = m_bCaseSensitive x\<rparr>"

definition RadixTree_assign :: "RadixTree \<Rightarrow> RadixTree \<Rightarrow> RadixTree" where
  "RadixTree_assign t x =
     \<lparr>m_nItems = m_nItems x, m_pRoot = map_option (cloneNode (m_bCaseSensitive t)) (m_pRoot x),
      m_bCaseSensitive = m_bCaseSensitive x\<rparr>"

section \<open>Iteration\<close>

text \<open>An iterator is a node, given by the way from the root to it.  \<open>climb\<close> is the inner loop of
  \<open>doNext\<close> and \<open>None\<close> there the end of the iteration.\<close>

fun node_at :: "node \<Rightarrow> nat list \<Rightarrow> node option" where
  "node_at n [] = Some n"
| "node_at n (i # p) = (if i < length (m_Children n) then node_at (m_Children n ! i) p else None)"

definition getNextSibling :: "node \<Rightarrow> nat list \<Rightarrow> nat list option" where
  "getNextSibling root p =
     (if p = [] then None
      else let q = butlast p @ [last p + 1] in if node_at root q = None then None else Some q)"

function climb :: "node \<Rightarrow> nat list \<Rightarrow> nat list option" where
  "climb root p =
     (if p = [] \<or> \<not> (case node_at root p of None \<Rightarrow> False | Some n \<Rightarrow> m_pParent n) then None
      else (case getNextSibling root p of Some q \<Rightarrow> Some q | None \<Rightarrow> climb root (butlast p)))"
  by pat_completeness auto
termination by (relation "measure (\<lambda>(root, p). length p)") auto

declare climb.simps [simp del]

definition step_next :: "node \<Rightarrow> nat list \<Rightarrow> nat list option" where
  "step_next root p =
     (case node_at root p of
        None \<Rightarrow> None
      | Some n \<Rightarrow> if m_Children n \<noteq> [] then Some (p @ [0]) else climb root p)"

partial_function (option) doNext :: "node \<Rightarrow> nat list \<Rightarrow> nat list option option" where
  "doNext root p =
     (case step_next root p of
        None \<Rightarrow> Some None
      | Some q \<Rightarrow> (case node_at root q of
           None \<Rightarrow> None
         | Some n \<Rightarrow> if m_value n = 0 then doNext root q else Some (Some q)))"

declare doNext.simps [code]

text \<open>The loop \<^verbatim>\<open>for (it = begin(); it != end(); ++it)\<close>, with the values it passes.\<close>

partial_function (option) values_from :: "node \<Rightarrow> nat list \<Rightarrow> nat list option" where
  "values_from root p = do {
     r \<leftarrow> doNext root p;
     (case r of
        None \<Rightarrow> Some []
      | Some q \<Rightarrow> (case node_at root q of
           None \<Rightarrow> None
         | Some n \<Rightarrow> do { vs \<leftarrow> values_from root q; Some (m_value n # vs) })) }"

declare values_from.simps [code]

definition RadixTree_values :: "RadixTree \<Rightarrow> nat list option" where
  "RadixTree_values t = (case m_pRoot t of None \<Rightarrow> None | Some r \<Rightarrow> values_from r [])"

text \<open>\<open>erase\<close> looks the fragment of the key up that the node holds, not the key of the element; the
  iterator it returns, a pointer, is not modelled.\<close>

definition RadixTree_erase :: "nat list \<Rightarrow> RadixTree \<Rightarrow> RadixTree option" where
  "RadixTree_erase p t = do {
     r \<leftarrow> m_pRoot t;
     n \<leftarrow> node_at r p;
     _ \<leftarrow> doNext r p;
     RadixTree_remove (m_pKey n) t }"

end
