(* ===== verification/Radix_Map.thy ===== *)
theory Radix_Map
  imports Radix_Tree
begin

text \<open>The radix tree is a map: under the invariant of well-formed nodes, insertion and removal update
  the lookup function at one key, up to the case of its letters when the tree ignores it.\<close>

section \<open>Keys up to case\<close>

definition fold_char :: "bool \<Rightarrow> u8 \<Rightarrow> u8" where
  "fold_char cs c = (if cs then c else toLower c)"

abbreviation fold_key :: "bool \<Rightarrow> u8 list \<Rightarrow> u8 list" where
  "fold_key cs \<equiv> map (fold_char cs)"

lemma same_char_fold: "same_char cs a b \<longleftrightarrow> fold_char cs a = fold_char cs b"
  by (simp add: same_char_def fold_char_def)

lemma match_from_Exact: "match_from cs i cp k = ExactMatch \<longleftrightarrow> fold_key cs cp = fold_key cs k"
  by (induction cs i cp k rule: match_from.induct) (auto simp: same_char_fold)

lemma match_from_Over: "match_from cs i cp k = OverMatch \<longleftrightarrow> strict_prefix (fold_key cs k) (fold_key cs cp)"
  by (induction cs i cp k rule: match_from.induct) (auto simp: same_char_fold)

lemma match_from_NoMatch:
  "match_from cs i cp k = NoMatch \<longleftrightarrow> i = 0 \<and> cp \<noteq> [] \<and> k \<noteq> [] \<and> fold_char cs (hd cp) \<noteq> fold_char cs (hd k)"
  by (induction cs i cp k rule: match_from.induct) (auto simp: same_char_fold)

lemma matchKey_simps:
  "matchKey cp (RNode k x ch up cs) = ExactMatch \<longleftrightarrow> fold_key cs cp = fold_key cs k"
  "matchKey cp (RNode k x ch up cs) = OverMatch \<longleftrightarrow> strict_prefix (fold_key cs k) (fold_key cs cp)"
  "matchKey cp (RNode k x ch up cs) = NoMatch \<longleftrightarrow> cp \<noteq> [] \<and> k \<noteq> [] \<and> fold_char cs (hd cp) \<noteq> fold_char cs (hd k)"
  by (simp_all add: matchKey_def match_from_Exact match_from_Over match_from_NoMatch)

lemma common_prefix_Partial:
  assumes "fold_key cs cp \<noteq> fold_key cs k" "\<not> strict_prefix (fold_key cs k) (fold_key cs cp)"
  shows "\<exists>i. common_prefix cs cp k = Some i \<and> i \<le> length cp \<and> i < length k \<and>
    take i (fold_key cs cp) = take i (fold_key cs k) \<and>
    (i < length cp \<longrightarrow> fold_char cs (cp ! i) \<noteq> fold_char cs (k ! i))"
  using assms
proof (induction cs cp k rule: common_prefix.induct)
  case (1 cs c cp k ks)
  then show ?case by (cases "fold_char cs c = fold_char cs k") (fastforce simp: same_char_fold)+
qed auto

section \<open>The invariant\<close>

fun node_ok :: "bool \<Rightarrow> node \<Rightarrow> bool" where
  "node_ok cs (RNode k x ch up ncs) \<longleftrightarrow>
     ncs = cs \<and> list_all (\<lambda>c. node_ok cs c \<and> m_pKey c \<noteq> [] \<and> m_pParent c) ch \<and>
     distinct (map (\<lambda>c. fold_char cs (hd (m_pKey c))) ch)"

definition children_ok :: "bool \<Rightarrow> node list \<Rightarrow> bool" where
  "children_ok cs ch \<longleftrightarrow> list_all (\<lambda>c. node_ok cs c \<and> m_pKey c \<noteq> [] \<and> m_pParent c) ch \<and>
     distinct (map (\<lambda>c. fold_char cs (hd (m_pKey c))) ch)"

abbreviation head_of :: "bool \<Rightarrow> node \<Rightarrow> u8" where
  "head_of cs c \<equiv> fold_char cs (hd (m_pKey c))"

lemma node_ok_simp: "node_ok cs (RNode k x ch up ncs) \<longleftrightarrow> ncs = cs \<and> children_ok cs ch"
  by (simp add: children_ok_def)

declare node_ok.simps [simp del]

lemma children_ok_Nil [simp]: "children_ok cs []"
  by (simp add: children_ok_def)

lemma children_ok_Cons:
  "children_ok cs (c # chs) \<longleftrightarrow> node_ok cs c \<and> m_pKey c \<noteq> [] \<and> m_pParent c \<and> head_of cs c \<notin> head_of cs ` set chs \<and> children_ok cs chs"
  by (auto simp: children_ok_def)

lemma matchKey_ok:
  assumes "node_ok cs n" "m_pKey n \<noteq> []" "cp \<noteq> []"
  shows "matchKey cp n = NoMatch \<longleftrightarrow> fold_char cs (hd cp) \<noteq> head_of cs n"
  using assms by (cases n) (simp add: matchKey_simps node_ok_simp)

section \<open>Lookup\<close>

lemma lookup_node_fold:
  assumes "node_ok cs (RNode k x ch up cs)"
  shows "lookup_node cp (RNode k x ch up cs) =
    (if fold_key cs cp = fold_key cs k then x
     else if strict_prefix (fold_key cs k) (fold_key cs cp) then lookup_children (drop (length k) cp) ch else 0)"
proof (cases "matchKey cp (RNode k x ch up cs)")
  case ExactMatch
  then show ?thesis using matchKey_simps(1) [of cp k x ch up cs] by simp
next
  case OverMatch
  then show ?thesis using matchKey_simps(1,2) [of cp k x ch up cs] by auto
qed (use matchKey_simps(1,2) [of cp k x ch up cs] in auto)

declare lookup_node.simps [simp del]

text \<open>Lookup in a list of children goes to the child with the first letter of the key.\<close>

lemma lookup_children_other:
  assumes "children_ok cs chs" "cp \<noteq> []" "fold_char cs (hd cp) \<notin> head_of cs ` set chs"
  shows "lookup_children cp chs = 0"
  using assms by (induction chs) (auto simp: children_ok_Cons matchKey_ok)

lemma lookup_children_Cons:
  assumes "children_ok cs (c # chs)" "cp \<noteq> []"
  shows "lookup_children cp (c # chs) =
    (if fold_char cs (hd cp) = head_of cs c then lookup_node cp c else lookup_children cp chs)"
  using assms matchKey_ok [of cs c cp] by (auto simp: children_ok_Cons)

section \<open>Insertion\<close>

definition inserted :: "bool \<Rightarrow> u8 list \<Rightarrow> nat \<Rightarrow> node \<Rightarrow> node \<Rightarrow> bool" where
  "inserted cs cp v n n' \<longleftrightarrow> node_ok cs n' \<and> m_pParent n' = m_pParent n \<and>
     (m_pKey n = [] \<longleftrightarrow> m_pKey n' = []) \<and> (m_pKey n \<noteq> [] \<longrightarrow> head_of cs n' = head_of cs n) \<and>
     (\<forall>cp'. lookup_node cp' n' = (if fold_key cs cp' = fold_key cs cp then v else lookup_node cp' n))"

definition inserted_children :: "bool \<Rightarrow> u8 list \<Rightarrow> nat \<Rightarrow> node list \<Rightarrow> node list \<Rightarrow> bool" where
  "inserted_children cs cp v ch ch' \<longleftrightarrow> children_ok cs ch' \<and>
     head_of cs ` set ch' \<subseteq> insert (fold_char cs (hd cp)) (head_of cs ` set ch) \<and>
     (\<forall>cp'. cp' \<noteq> [] \<longrightarrow> lookup_children cp' ch' = (if fold_key cs cp' = fold_key cs cp then v else lookup_children cp' ch))"

lemma fold_key_split:
  assumes "strict_prefix (fold_key cs k) (fold_key cs cp)"
  shows "fold_key cs cp = fold_key cs k @ fold_key cs (drop (length k) cp) \<and> drop (length k) cp \<noteq> []"
proof -
  from assms obtain z where z: "fold_key cs cp = fold_key cs k @ z" "z \<noteq> []" by (auto simp: strict_prefix_def prefix_def)
  then have "fold_key cs (drop (length k) cp) = z" by (simp flip: drop_map)
  with z show ?thesis by auto
qed

lemma insert_leaf: "cp \<noteq> [] \<Longrightarrow> inserted_children cs cp v [] [RNode cp v [] True cs]"
proof -
  assume cp: "cp \<noteq> []"
  have ok: "node_ok cs (RNode cp v [] True cs)" by (simp add: node_ok_simp)
  have "lookup_children cp' [RNode cp v [] True cs] = (if fold_key cs cp' = fold_key cs cp then v else 0)" if "cp' \<noteq> []" for cp'
  proof -
    have c: "children_ok cs [RNode cp v [] True cs]" using cp ok by (simp add: children_ok_Cons)
    have "fold_key cs cp' = fold_key cs cp \<Longrightarrow> fold_char cs (hd cp') = fold_char cs (hd cp)"
      using cp that by (cases cp; cases cp') auto
    then show ?thesis using lookup_children_Cons [OF c that] lookup_node_fold [OF ok, of cp'] by simp
  qed
  with ok cp show ?thesis by (simp add: inserted_children_def children_ok_Cons)
qed

lemma lookup_tail:
  assumes "fold_key cs c1 = fold_key cs k1" "node_ok cs (RNode (k1 @ k2) x ch up cs)"
  shows "lookup_node (c1 @ q) (RNode (k1 @ k2) x ch up cs) = lookup_node q (RNode k2 x ch True cs)"
proof -
  have "length c1 = length k1" using assms(1) by (rule map_eq_imp_length_eq)
  moreover have "node_ok cs (RNode k2 x ch True cs)" using assms(2) by (simp add: node_ok_simp)
  ultimately show ?thesis using assms by (auto simp: lookup_node_fold [where cs = cs] strict_prefix_def)
qed

lemma lookup_split:
  assumes ok: "node_ok cs (RNode k x ch up ncs)" and ch': "children_ok cs ch'" and c1: "fold_key cs c1 = fold_key cs k1"
    and k: "k = k1 @ k2" "k2 \<noteq> []"
    and tail: "\<And>q. q \<noteq> [] \<Longrightarrow> lookup_children q ch' = (if fold_key cs q = fold_key cs c2 then v else lookup_node q (RNode k2 x ch True cs))"
  shows "lookup_node cp' (RNode c1 (if c2 = [] then v else 0) ch' True cs) =
    (if fold_key cs cp' = fold_key cs (c1 @ c2) then v else lookup_node cp' (RNode k x ch up ncs))"
proof -
  have n: "ncs = cs" using ok by (simp add: node_ok_simp)
  have new: "node_ok cs (RNode c1 (if c2 = [] then v else 0) ch' True cs)" using ch' by (simp add: node_ok_simp)
  have len: "length c1 = length k1" using c1 by (rule map_eq_imp_length_eq)
  show ?thesis
  proof (cases "prefix (fold_key cs c1) (fold_key cs cp')")
    case False
    then have "fold_key cs cp' \<noteq> fold_key cs (c1 @ c2)" "fold_key cs cp' \<noteq> fold_key cs k" "\<not> strict_prefix (fold_key cs k) (fold_key cs cp')"
      "fold_key cs cp' \<noteq> fold_key cs c1" "\<not> strict_prefix (fold_key cs c1) (fold_key cs cp')"
      using k c1 by (auto simp: prefix_def strict_prefix_def)
    then show ?thesis using lookup_node_fold [OF new, of cp'] lookup_node_fold [OF ok [unfolded n], of cp'] n by simp
  next
    case True
    then obtain z where z: "fold_key cs cp' = fold_key cs c1 @ z" by (auto simp: prefix_def)
    define d q where "d = take (length c1) cp'" and "q = drop (length c1) cp'"
    have cp': "cp' = d @ q" "fold_key cs d = fold_key cs c1"
      using z by (simp_all add: d_def q_def flip: take_map)
    have old: "lookup_node cp' (RNode k x ch up ncs) = lookup_node q (RNode k2 x ch True cs)"
      using lookup_tail [of cs d k1 k2 x ch up q] cp' c1 ok n k by simp
    have eq: "fold_key cs cp' = fold_key cs (c1 @ c2) \<longleftrightarrow> fold_key cs q = fold_key cs c2" using cp' by simp
    show ?thesis
    proof (cases "q = []")
      case True
      have "lookup_node [] (RNode k2 x ch True cs) = 0"
        using k(2) by (cases k2) (simp_all add: lookup_node.simps matchKey_def)
      with True show ?thesis using lookup_node_fold [OF new, of cp'] cp' old eq by auto
    next
      case False
      have dl: "drop (length c1) cp' = q" by (simp add: q_def)
      have "lookup_node cp' (RNode c1 (if c2 = [] then v else 0) ch' True cs) = lookup_children q ch'"
        using lookup_node_fold [OF new, of cp'] cp' False dl by (simp add: strict_prefix_def)
      then show ?thesis using tail [OF False] old eq by simp
    qed
  qed
qed

lemma insert_split:
  assumes ok: "node_ok cs (RNode k x ch up ncs)" and cp: "cp \<noteq> []" "k \<noteq> []" and up: "up"
    and part: "matchKey cp (RNode k x ch up ncs) = PartialMatch"
  shows "\<exists>n' j. insert_node cs cp v (RNode k x ch up ncs) = Some (n', j) \<and> inserted cs cp v (RNode k x ch up ncs) n'"
proof -
  have n: "ncs = cs" using ok by (simp add: node_ok_simp)
  have p: "fold_key cs cp \<noteq> fold_key cs k" "\<not> strict_prefix (fold_key cs k) (fold_key cs cp)" "fold_char cs (hd cp) = fold_char cs (hd k)"
    using part matchKey_simps [of cp k x ch up cs] cp n by auto
  from common_prefix_Partial [OF p(1,2)] obtain i where i: "common_prefix cs cp k = Some i" "i \<le> length cp" "i < length k"
    "take i (fold_key cs cp) = take i (fold_key cs k)" "i < length cp \<longrightarrow> fold_char cs (cp ! i) \<noteq> fold_char cs (k ! i)" by blast
  have i0: "i \<noteq> 0" using i(5) p(3) cp by (metis hd_conv_nth length_greater_0_conv)
  let ?b = "RNode (drop i k) x ch True ncs" and ?a = "RNode (drop i cp) v [] True cs"
  let ?ch = "(if drop i cp = [] then [] else [?a]) @ [?b]"
  let ?n = "RNode (take i cp) (if drop i cp = [] then v else 0) ?ch True cs"
  have b: "node_ok cs ?b" "drop i k \<noteq> []" using ok i(3) by (simp_all add: node_ok_simp)
  have heads: "drop i cp \<noteq> [] \<Longrightarrow> head_of cs ?a \<noteq> head_of cs ?b" using i(3,5) by (simp add: hd_drop_conv_nth)
  have ch: "children_ok cs ?ch" using b heads by (auto simp: children_ok_Cons node_ok_simp)
  have tail: "lookup_children q ?ch = (if fold_key cs q = fold_key cs (drop i cp) then v else lookup_node q (RNode (drop i k) x ch True cs))"
    if q: "q \<noteq> []" for q
  proof -
    have b1: "children_ok cs [?b]" using b by (simp add: children_ok_Cons)
    have lb: "lookup_children q [?b] = lookup_node q ?b"
      using lookup_children_Cons [OF b1 q] lookup_node_fold [of cs "drop i k" x ch True q] b(1) n q b(2)
      by (cases q; cases "drop i k") (auto simp: strict_prefix_def prefix_def)
    show ?thesis
    proof (cases "drop i cp = []")
      case True
      with lb q n show ?thesis by simp
    next
      case False
      have la: "lookup_node q ?a = (if fold_key cs q = fold_key cs (drop i cp) then v else 0)"
        using lookup_node_fold [of cs "drop i cp" v "[]" True q] by (simp add: node_ok_simp)
      have hd: "fold_key cs q = fold_key cs r \<Longrightarrow> r \<noteq> [] \<Longrightarrow> fold_char cs (hd q) = fold_char cs (hd r)" for r
        using q by (cases q; cases r) auto
      have "lookup_node q ?b = 0" if "fold_char cs (hd q) \<noteq> head_of cs ?b"
        using that matchKey_ok [OF b(1), of q] b(2) q by (simp add: lookup_node.simps)
      with False ch q lb la hd [of "drop i cp"] heads n show ?thesis
        using lookup_children_Cons [of cs ?a "[?b]" q] by auto
    qed
  qed
  have t: "fold_key cs (take i cp) = fold_key cs (take i k)" using i(4) by (simp add: take_map)
  have "lookup_node cp' ?n = (if fold_key cs cp' = fold_key cs cp then v else lookup_node cp' (RNode k x ch up ncs))" for cp'
    using lookup_split [OF ok ch t _ b(2), of "drop i cp" v cp'] tail by simp
  moreover have "take i cp \<noteq> []" "head_of cs ?n = fold_char cs (hd k)" using i0 cp p(3) by simp_all
  ultimately have "inserted cs cp v (RNode k x ch up ncs) ?n"
    using ch up cp(2) unfolding inserted_def by (simp add: node_ok_simp)
  then show ?thesis using part i(1) up by simp
qed

lemma insert_correct:
  "node_ok cs n \<Longrightarrow> matchKey cp n \<noteq> NoMatch \<Longrightarrow> m_pParent n \<and> cp \<noteq> [] \<or> m_pKey n = [] \<Longrightarrow>
     \<exists>n' j. insert_node cs cp v n = Some (n', j) \<and> inserted cs cp v n n'"
  "children_ok cs ch \<Longrightarrow> cp \<noteq> [] \<Longrightarrow>
     \<exists>ch' j. insert_children cs cp v ch = Some (ch', j) \<and> inserted_children cs cp v ch ch'"
proof (induction cs cp v n and cs cp v ch rule: insert_node_insert_children.induct)
  case (1 cs cp v k x ch up ncs)
  have n: "ncs = cs" and ch: "children_ok cs ch" using "1.prems"(1) by (simp_all add: node_ok_simp)
  note old = lookup_node_fold [OF "1.prems"(1) [unfolded n]]
  show ?case
  proof (cases "matchKey cp (RNode k x ch up ncs)")
    case ExactMatch
    then have "fold_key cs cp = fold_key cs k" using matchKey_simps(1) [of cp k x ch up cs] n by simp
    moreover have "node_ok cs (RNode k v ch up cs)" using ch by (simp add: node_ok_simp)
    ultimately have "inserted cs cp v (RNode k x ch up ncs) (RNode k v ch up ncs)"
      using lookup_node_fold [of cs k v ch up] old n by (simp add: inserted_def)
    then show ?thesis using ExactMatch by simp
  next
    case PartialMatch
    then have "k \<noteq> []" using matchKey_simps [of cp k x ch up cs] n by (cases cp) (auto simp: strict_prefix_def)
    then show ?thesis using insert_split [OF "1.prems"(1) _ _ _ PartialMatch] "1.prems"(3) by simp
  next
    case OverMatch
    then have sp: "strict_prefix (fold_key cs k) (fold_key cs cp)" using matchKey_simps(2) [of cp k x ch up cs] n by simp
    note sq = fold_key_split [OF sp]
    from "1.IH" [OF OverMatch ch] sq obtain ch' j where
      c: "insert_children cs (drop (length k) cp) v ch = Some (ch', j)" "inserted_children cs (drop (length k) cp) v ch ch'" by blast
    have ok': "node_ok cs (RNode k x ch' up cs)" using c(2) by (simp add: node_ok_simp inserted_children_def)
    have "lookup_node cp' (RNode k x ch' up cs) = (if fold_key cs cp' = fold_key cs cp then v else lookup_node cp' (RNode k x ch up cs))" for cp'
    proof (cases "strict_prefix (fold_key cs k) (fold_key cs cp')")
      case True
      note sq' = fold_key_split [OF True]
      have "fold_key cs cp' = fold_key cs cp \<longleftrightarrow> fold_key cs (drop (length k) cp') = fold_key cs (drop (length k) cp)"
        using sq(1) sq'(1) by simp
      with True sq' c(2) show ?thesis unfolding lookup_node_fold [OF ok'] old by (auto simp: inserted_children_def)
    next
      case False
      with sp show ?thesis unfolding lookup_node_fold [OF ok'] old by auto
    qed
    with ok' n have "inserted cs cp v (RNode k x ch up ncs) (RNode k x ch' up ncs)" by (simp add: inserted_def)
    then show ?thesis using OverMatch c(1) by simp
  qed (use "1.prems"(2) in simp)
next
  case (2 cs cp v)
  then show ?case using insert_leaf [of cp cs v] by simp
next
  case (3 cs cp v c chs)
  from "3.prems"(1) have c: "node_ok cs c" "m_pKey c \<noteq> []" "m_pParent c" "head_of cs c \<notin> head_of cs ` set chs" "children_ok cs chs"
    by (simp_all add: children_ok_Cons)
  note m = matchKey_ok [OF c(1,2) "3.prems"(2)]
  have hd: "fold_key cs q = fold_key cs cp \<Longrightarrow> q \<noteq> [] \<Longrightarrow> fold_char cs (hd q) = fold_char cs (hd cp)" for q
    using "3.prems"(2) by (cases q; cases cp) auto
  show ?case
  proof (cases "matchKey cp c = NoMatch")
    case False
    with "3.IH"(1) c(1,3) "3.prems"(2) obtain c' j where i: "insert_node cs cp v c = Some (c', j)" "inserted cs cp v c c'" by blast
    have ok': "children_ok cs (c' # chs)" using c i(2) by (simp add: children_ok_Cons inserted_def)
    have "inserted_children cs cp v (c # chs) (c' # chs)"
      unfolding inserted_children_def
    proof (intro conjI allI impI ok')
      show "lookup_children q (c' # chs) = (if fold_key cs q = fold_key cs cp then v else lookup_children q (c # chs))" if "q \<noteq> []" for q
        using lookup_children_Cons [OF ok' that] lookup_children_Cons [OF "3.prems"(1) that] i(2) hd [of q] that m False c(2)
        by (auto simp: inserted_def)
    qed (use i(2) c(2) in \<open>auto simp: inserted_def\<close>)
    with i(1) False show ?thesis by simp
  next
    case True
    with "3.IH"(2) c(5) "3.prems"(2) obtain chs' j where
      i: "insert_children cs cp v chs = Some (chs', j)" "inserted_children cs cp v chs chs'" by blast
    have ok': "children_ok cs (c # chs')" using c i(2) True m by (auto simp: children_ok_Cons inserted_children_def)
    have "inserted_children cs cp v (c # chs) (c # chs')"
      unfolding inserted_children_def
    proof (intro conjI allI impI ok')
      show "lookup_children q (c # chs') = (if fold_key cs q = fold_key cs cp then v else lookup_children q (c # chs))" if "q \<noteq> []" for q
        using lookup_children_Cons [OF ok' that] lookup_children_Cons [OF "3.prems"(1) that] i(2) hd [of q] that m True
        by (auto simp: inserted_children_def)
    qed (use i(2) in \<open>auto simp: inserted_children_def\<close>)
    with i(1) True show ?thesis by simp
  qed
qed

section \<open>Removal\<close>

lemma lookup_children_append:
  assumes "children_ok cs (a @ b)" "cp \<noteq> []"
  shows "lookup_children cp (a @ b) =
    (if fold_char cs (hd cp) \<in> head_of cs ` set a then lookup_children cp a else lookup_children cp b)"
  using assms(1)
proof (induction a)
  case (Cons c a)
  have c: "children_ok cs (c # a)" using Cons.prems by (auto simp: children_ok_def)
  then show ?case
    using Cons.IH lookup_children_Cons [OF Cons.prems [unfolded append_Cons] assms(2)] lookup_children_Cons [OF c assms(2)] Cons.prems
    by (auto simp: children_ok_Cons)
qed simp

lemma lookup_merge:
  assumes "node_ok cs (RNode k2 x ch up2 cs)" "k2 \<noteq> []"
  shows "lookup_node cp (RNode (k @ k2) x ch True cs) = lookup_node cp (RNode k 0 [RNode k2 x ch up2 cs] up cs)"
proof -
  let ?c = "RNode k2 x ch True cs"
  have c: "node_ok cs ?c" "children_ok cs [?c]" and m: "node_ok cs (RNode (k @ k2) x ch True cs)"
    using assms by (simp_all add: node_ok_simp children_ok_Cons)
  have t: "lookup_children q [?c] = (if fold_key cs q = fold_key cs [] then 0 else lookup_node q ?c)" if "q \<noteq> []" for q
    using lookup_children_Cons [OF c(2) that] matchKey_ok [OF c(1), of q] assms(2) that by (auto simp: lookup_node.simps)
  have "\<not> strict_prefix (fold_key cs (k @ k2)) (fold_key cs k)" by (auto simp: strict_prefix_def prefix_def)
  then have z: "fold_key cs cp = fold_key cs k \<Longrightarrow> lookup_node cp (RNode (k @ k2) x ch True cs) = 0"
    using assms(2) lookup_node_fold [OF m, of cp] by simp
  have "lookup_node cp (RNode k 0 [RNode k2 x ch up2 cs] up cs) = lookup_node cp (RNode k 0 [?c] True cs)"
    by (cases "matchKey cp (RNode k 0 [?c] True cs)") (simp_all add: lookup_node.simps matchKey_def)
  then show ?thesis using lookup_split [OF m c(2) refl refl assms(2) t, of cp] z by simp
qed

definition settled :: "bool \<Rightarrow> node \<Rightarrow> removal \<Rightarrow> bool" where
  "settled cs n r =
     (case r of
        Absent \<Rightarrow> False
      | Kept n' \<Rightarrow> n' = n
      | Deleted \<Rightarrow> \<forall>cp. lookup_node cp n = 0
      | Merged m \<Rightarrow> node_ok cs m \<and> m_pParent m \<and> m_pKey m \<noteq> [] \<and> head_of cs m = head_of cs n \<and>
          (\<forall>cp. lookup_node cp m = lookup_node cp n))"

lemma settle_correct:
  assumes "node_ok cs n" "m_pParent n" "m_pKey n \<noteq> []"
  shows "\<exists>r. settle n = Some r \<and> settled cs n r"
proof (cases n)
  case [simp]: (RNode k x ch up ncs)
  have [simp]: "ncs = cs" and ch: "children_ok cs ch" using assms(1) by (simp_all add: node_ok_simp)
  consider "x = 0" "ch = []" | d where "x = 0" "ch = [d]" | "x \<noteq> 0 \<or> length ch > 1"
    by (cases ch rule: remdups_adj.cases) auto
  then show ?thesis
  proof cases
    case 1
    with assms show ?thesis by (simp add: settle_def settled_def lookup_node_fold [where cs = cs])
  next
    case 2
    obtain k2 x2 ch2 up2 ncs2 where [simp]: "d = RNode k2 x2 ch2 up2 ncs2" by (cases d)
    from ch 2 have d: "node_ok cs (RNode k2 x2 ch2 up2 cs)" "k2 \<noteq> []" "ncs2 = cs" by (simp_all add: children_ok_Cons node_ok_simp)
    then show ?thesis using 2 assms lookup_merge [OF d(1,2), of _ k up]
      by (auto simp: settle_def settled_def node_ok_simp)
  next
    case 3
    then have "settle n = Some (Kept n)" by (cases x; cases ch rule: remdups_adj.cases) (auto simp: settle_def split: node.splits)
    then show ?thesis by (simp add: settled_def)
  qed
qed

definition removed :: "bool \<Rightarrow> u8 list \<Rightarrow> node \<Rightarrow> removal \<Rightarrow> bool" where
  "removed cs cp n r =
     (case r of
        Absent \<Rightarrow> lookup_node cp n = 0
      | Kept n' \<Rightarrow> node_ok cs n' \<and> m_pParent n' \<and> m_pKey n' \<noteq> [] \<and> head_of cs n' = head_of cs n \<and>
          (\<forall>q. lookup_node q n' = (if fold_key cs q = fold_key cs cp then 0 else lookup_node q n))
      | Deleted \<Rightarrow> \<forall>q. fold_key cs q \<noteq> fold_key cs cp \<longrightarrow> lookup_node q n = 0
      | Merged n' \<Rightarrow> node_ok cs n' \<and> m_pParent n' \<and> m_pKey n' \<noteq> [] \<and> head_of cs n' = head_of cs n \<and>
          (\<forall>q. lookup_node q n' = (if fold_key cs q = fold_key cs cp then 0 else lookup_node q n)))"

definition removed_children :: "bool \<Rightarrow> u8 list \<Rightarrow> node list \<Rightarrow> node list \<Rightarrow> bool" where
  "removed_children cs cp ch ch' \<longleftrightarrow> children_ok cs ch' \<and> head_of cs ` set ch' \<subseteq> head_of cs ` set ch \<and>
     (\<forall>q. q \<noteq> [] \<longrightarrow> lookup_children q ch' = (if fold_key cs q = fold_key cs cp then 0 else lookup_children q ch))"

definition children_removed :: "bool \<Rightarrow> u8 list \<Rightarrow> node list \<Rightarrow> children_removal \<Rightarrow> bool" where
  "children_removed cs cp ch r =
     (case r of
        CAbsent \<Rightarrow> lookup_children cp ch = 0
      | CKept ch' \<Rightarrow> removed_children cs cp ch ch'
      | CShrunk ch' \<Rightarrow> removed_children cs cp ch ch')"

text \<open>A node changed at one key and then settled.\<close>

lemma settle_removed:
  assumes "node_ok cs n1" "m_pParent n1" "m_pKey n1 \<noteq> []" "head_of cs n1 = head_of cs n"
    and "\<And>q. lookup_node q n1 = (if fold_key cs q = fold_key cs cp then 0 else lookup_node q n)"
  shows "\<exists>r. settle n1 = Some r \<and> removed cs cp n r"
proof -
  obtain r where r: "settle n1 = Some r" "settled cs n1 r" using settle_correct [OF assms(1-3)] by blast
  have "removed cs cp n r"
  proof (cases r)
    case Deleted
    then have "\<forall>q. lookup_node q n1 = 0" using r(2) by (simp add: settled_def)
    then have "lookup_node q n = 0" if "fold_key cs q \<noteq> fold_key cs cp" for q
      using that assms(5) [of q] by simp
    then show ?thesis using Deleted by (simp add: removed_def)
  qed (use r(2) assms in \<open>auto simp: settled_def removed_def\<close>)
  with r(1) show ?thesis by blast
qed

lemma removed_children_Cons:
  assumes "children_ok cs (c # chs)" "cp \<noteq> []" "fold_char cs (hd cp) \<noteq> head_of cs c" "removed_children cs cp chs chs'"
  shows "removed_children cs cp (c # chs) (c # chs')"
proof -
  have ok': "children_ok cs (c # chs')" using assms(1,4) by (auto simp: children_ok_Cons removed_children_def)
  have hd: "fold_key cs q = fold_key cs cp \<Longrightarrow> q \<noteq> [] \<Longrightarrow> fold_char cs (hd q) = fold_char cs (hd cp)" for q
    using assms(2) by (cases q; cases cp) auto
  show ?thesis unfolding removed_children_def
  proof (intro conjI allI impI ok')
    show "lookup_children q (c # chs') = (if fold_key cs q = fold_key cs cp then 0 else lookup_children q (c # chs))" if "q \<noteq> []" for q
      using lookup_children_Cons [OF ok' that] lookup_children_Cons [OF assms(1) that] assms(3,4) hd [of q] that
      by (auto simp: removed_children_def)
  qed (use assms(4) in \<open>auto simp: removed_children_def\<close>)
qed

text \<open>The child with the first letter of the key is changed, deleted, or replaced by a node at the
  end.\<close>

lemma removed_children_hd:
  assumes ok: "children_ok cs (c # chs)" and cp: "cp \<noteq> []" "fold_char cs (hd cp) = head_of cs c"
    and r: "removed cs cp c r" "r \<noteq> Absent"
  shows "removed_children cs cp (c # chs) (case r of Kept c' \<Rightarrow> c' # chs | Merged d \<Rightarrow> chs @ [d] | _ \<Rightarrow> chs)"
proof -
  have c: "node_ok cs c" "m_pKey c \<noteq> []" "head_of cs c \<notin> head_of cs ` set chs" "children_ok cs chs"
    using ok by (simp_all add: children_ok_Cons)
  have hd: "fold_key cs q = fold_key cs cp \<Longrightarrow> q \<noteq> [] \<Longrightarrow> fold_char cs (hd q) = head_of cs c" for q
    using cp by (cases q; cases cp) auto
  note old = lookup_children_Cons [OF ok]
  have out: "lookup_children q chs = 0" if "q \<noteq> []" "fold_char cs (hd q) = head_of cs c" for q
    using lookup_children_other [OF c(4) that(1)] that(2) c(3) by simp
  show ?thesis
  proof (cases r)
    case (Kept c')
    with r(1) have ok': "children_ok cs (c' # chs)" using ok by (auto simp: removed_def children_ok_Cons)
    show ?thesis unfolding removed_children_def
      using r(1) Kept ok' c(3) old hd lookup_children_Cons [OF ok'] by (auto simp: removed_def)
  next
    case Deleted
    show ?thesis unfolding removed_children_def
      using r(1) Deleted c(3,4) old hd out by (auto simp: removed_def)
  next
    case (Merged d)
    with r(1) have d: "node_ok cs d" "m_pParent d" "m_pKey d \<noteq> []" "head_of cs d = head_of cs c"
      "\<And>q. lookup_node q d = (if fold_key cs q = fold_key cs cp then 0 else lookup_node q c)" by (auto simp: removed_def)
    have ok': "children_ok cs (chs @ [d])" using d c by (auto simp: children_ok_def)
    have d1: "children_ok cs [d]" using d by (simp add: children_ok_Cons)
    have "lookup_children q (chs @ [d]) = (if fold_key cs q = fold_key cs cp then 0 else lookup_children q (c # chs))" if q: "q \<noteq> []" for q
    proof (cases "fold_char cs (hd q) = head_of cs c")
      case True
      then show ?thesis
        using lookup_children_append [OF ok' q] lookup_children_Cons [OF d1 q] old [OF q] c(3) d(4,5) by simp
    next
      case False
      then show ?thesis
        using lookup_children_append [OF ok' q] lookup_children_Cons [OF d1 q] old [OF q] d(4) hd [OF _ q]
          lookup_children_other [OF c(4) q] by auto
    qed
    then show ?thesis unfolding removed_children_def using Merged ok' d(4) by auto
  qed (use r(2) in simp)
qed

lemma remove_correct:
  "node_ok cs n \<Longrightarrow> m_pParent n \<Longrightarrow> m_pKey n \<noteq> [] \<Longrightarrow> cp \<noteq> [] \<Longrightarrow> \<exists>r. remove_node cp n = Some r \<and> removed cs cp n r"
  "children_ok cs ch \<Longrightarrow> cp \<noteq> [] \<Longrightarrow> \<exists>r. remove_children cp ch = Some r \<and> children_removed cs cp ch r"
proof (induction cp n and cp ch rule: remove_node_remove_children.induct)
  case (1 cp k x ch up ncs)
  have n: "ncs = cs" and ch: "children_ok cs ch" using "1.prems"(1) by (simp_all add: node_ok_simp)
  note old = lookup_node_fold [OF "1.prems"(1) [unfolded n]]
  show ?case
  proof (cases "matchKey cp (RNode k x ch up ncs)")
    case ExactMatch
    then have "fold_key cs cp = fold_key cs k" using matchKey_simps(1) [of cp k x ch up cs] n by simp
    moreover have z: "node_ok cs (RNode k 0 ch up cs)" using ch by (simp add: node_ok_simp)
    ultimately have "\<exists>r. settle (RNode k 0 ch up cs) = Some r \<and> removed cs cp (RNode k x ch up ncs) r"
      using "1.prems" n old lookup_node_fold [OF z] by (intro settle_removed) simp_all
    then show ?thesis using ExactMatch n by simp
  next
    case OverMatch
    then have sp: "strict_prefix (fold_key cs k) (fold_key cs cp)" using matchKey_simps(2) [of cp k x ch up cs] n by simp
    note sq = fold_key_split [OF sp]
    from "1.IH" [OF OverMatch ch] sq obtain r where
      r: "remove_children (drop (length k) cp) ch = Some r" "children_removed cs (drop (length k) cp) ch r" by blast
    have change: "node_ok cs (RNode k x ch' up cs) \<and>
        (\<forall>q. lookup_node q (RNode k x ch' up cs) = (if fold_key cs q = fold_key cs cp then 0 else lookup_node q (RNode k x ch up ncs)))"
      if c: "removed_children cs (drop (length k) cp) ch ch'" for ch'
    proof -
      have ok': "node_ok cs (RNode k x ch' up cs)" using c by (simp add: node_ok_simp removed_children_def)
      have "lookup_node q (RNode k x ch' up cs) = (if fold_key cs q = fold_key cs cp then 0 else lookup_node q (RNode k x ch up cs))" for q
      proof (cases "strict_prefix (fold_key cs k) (fold_key cs q)")
        case True
        note sq' = fold_key_split [OF True]
        have "fold_key cs q = fold_key cs cp \<longleftrightarrow> fold_key cs (drop (length k) q) = fold_key cs (drop (length k) cp)"
          using sq(1) sq'(1) by simp
        with True sq' c show ?thesis unfolding lookup_node_fold [OF ok'] old by (auto simp: removed_children_def)
      next
        case False
        with sp show ?thesis unfolding lookup_node_fold [OF ok'] old by auto
      qed
      with ok' n show ?thesis by simp
    qed
    show ?thesis
    proof (cases r)
      case CAbsent
      then have "lookup_node cp (RNode k x ch up ncs) = 0"
        using r(2) sp old [of cp] n by (auto simp: children_removed_def)
      then show ?thesis using OverMatch r(1) CAbsent by (simp add: removed_def)
    next
      case (CKept ch')
      then show ?thesis using OverMatch r change [of ch'] "1.prems" n by (simp add: removed_def children_removed_def)
    next
      case (CShrunk ch')
      then have "\<exists>r. settle (RNode k x ch' up cs) = Some r \<and> removed cs cp (RNode k x ch up ncs) r"
        using r change [of ch'] "1.prems" n by (intro settle_removed) (simp_all add: children_removed_def)
      then show ?thesis using OverMatch r(1) CShrunk n by simp
    qed
  next
    case NoMatch
    then show ?thesis by (simp add: removed_def lookup_node.simps)
  next
    case PartialMatch
    then show ?thesis by (simp add: removed_def lookup_node.simps)
  qed
next
  case (2 cp)
  then show ?case by (simp add: children_removed_def)
next
  case (3 cp c chs)
  from "3.prems"(1) have c: "node_ok cs c" "m_pKey c \<noteq> []" "m_pParent c" "children_ok cs chs" by (simp_all add: children_ok_Cons)
  note m = matchKey_ok [OF c(1,2) "3.prems"(2)] and old = lookup_children_Cons [OF "3.prems"]
  show ?case
  proof (cases "matchKey cp c = NoMatch")
    case False
    with "3.IH"(1) c "3.prems"(2) obtain r where r: "remove_node cp c = Some r" "removed cs cp c r" by blast
    have "r \<noteq> Absent \<Longrightarrow> removed_children cs cp (c # chs) (case r of Kept c' \<Rightarrow> c' # chs | Merged d \<Rightarrow> chs @ [d] | _ \<Rightarrow> chs)"
      using removed_children_hd [OF "3.prems" _ r(2)] False m by simp
    then show ?thesis using r False m old by (cases r) (auto simp: children_removed_def removed_def)
  next
    case True
    with "3.IH"(2) c(4) "3.prems"(2) obtain r where r: "remove_children cp chs = Some r" "children_removed cs cp chs r" by blast
    then show ?thesis using True m old removed_children_Cons [OF "3.prems"]
      by (cases r) (auto simp: children_removed_def)
  qed
qed

end
