(* ===== verification/Keyed_Map.thy ===== *)
theory Keyed_Map
  imports Main "HOL-Library.Monad_Syntax"
begin

text \<open>The interface of a container that maps keys to values: what a lookup returns after an
  insertion and after a removal.  Keys with the same norm are the same key to the container, and
  \<open>none\<close> is what a lookup returns for a key that is not there.\<close>

datatype ('k, 'v) map_op = Insert 'k 'v | Remove 'k

fun run_ops :: "('k \<Rightarrow> 'v \<Rightarrow> 't \<Rightarrow> 't option) \<Rightarrow> ('k \<Rightarrow> 't \<Rightarrow> 't option) \<Rightarrow> ('k, 'v) map_op list \<Rightarrow> 't \<Rightarrow> 't option" where
  "run_ops ins del [] t = Some t"
| "run_ops ins del (Insert k v # ops) t = do { t' \<leftarrow> ins k v t; run_ops ins del ops t' }"
| "run_ops ins del (Remove k # ops) t = do { t' \<leftarrow> del k t; run_ops ins del ops t' }"

text \<open>The same operations on a function from norms to values.\<close>

fun map_ops :: "('k \<Rightarrow> 'n) \<Rightarrow> 'v \<Rightarrow> ('k, 'v) map_op list \<Rightarrow> ('n \<Rightarrow> 'v) \<Rightarrow> 'n \<Rightarrow> 'v" where
  "map_ops norm none [] m = m"
| "map_ops norm none (Insert k v # ops) m = map_ops norm none ops (m(norm k := v))"
| "map_ops norm none (Remove k # ops) m = map_ops norm none ops (m(norm k := none))"

locale keyed_map =
  fixes ok :: "'t \<Rightarrow> bool"
    and look :: "'k \<Rightarrow> 't \<Rightarrow> 'v"
    and ins :: "'k \<Rightarrow> 'v \<Rightarrow> 't \<Rightarrow> 't option"
    and del :: "'k \<Rightarrow> 't \<Rightarrow> 't option"
    and norm :: "'k \<Rightarrow> 'n"
    and none :: 'v
  assumes ins: "ok t \<Longrightarrow> \<exists>t'. ins k v t = Some t' \<and> ok t' \<and> (\<forall>q. look q t' = (if norm q = norm k then v else look q t))"
    and del: "ok t \<Longrightarrow> \<exists>t'. del k t = Some t' \<and> ok t' \<and> (\<forall>q. look q t' = (if norm q = norm k then none else look q t))"
begin

lemma run_refines:
  assumes "ok t" "\<And>q. look q t = m (norm q)"
  shows "\<exists>t'. run_ops ins del ops t = Some t' \<and> ok t' \<and> (\<forall>q. look q t' = map_ops norm none ops m (norm q))"
  using assms
proof (induction ops arbitrary: t m)
  case (Cons a ops)
  show ?case
  proof (cases a)
    case (Insert k v)
    obtain t' where t': "ins k v t = Some t'" "ok t'" "\<forall>q. look q t' = (if norm q = norm k then v else look q t)"
      using ins [OF Cons.prems(1)] by blast
    then have "\<exists>t''. run_ops ins del ops t' = Some t'' \<and> ok t'' \<and> (\<forall>q. look q t'' = map_ops norm none ops (m(norm k := v)) (norm q))"
      by (intro Cons.IH) (simp_all add: Cons.prems(2))
    with t'(1) Insert show ?thesis by simp
  next
    case (Remove k)
    obtain t' where t': "del k t = Some t'" "ok t'" "\<forall>q. look q t' = (if norm q = norm k then none else look q t)"
      using del [OF Cons.prems(1)] by blast
    then have "\<exists>t''. run_ops ins del ops t' = Some t'' \<and> ok t'' \<and> (\<forall>q. look q t'' = map_ops norm none ops (m(norm k := none)) (norm q))"
      by (intro Cons.IH) (simp_all add: Cons.prems(2))
    with t'(1) Remove show ?thesis by simp
  qed
qed simp

end

end
