(* ===== verification/Radix_Properties.thy ===== *)
theory Radix_Properties
  imports Radix_Map Keyed_Map
begin

text \<open>The radix tree as a whole: any sequence of operations behaves like a map from keys to
  pointers, its nodes stay as few as the map needs, and an iteration passes every pointer once.\<close>

section \<open>The tree is a map\<close>

lemma lookup_fold:
  "node_ok cs n \<Longrightarrow> fold_key cs q = fold_key cs p \<Longrightarrow> lookup_node q n = lookup_node p n"
  "children_ok cs ch \<Longrightarrow> fold_key cs q = fold_key cs p \<Longrightarrow> lookup_children q ch = lookup_children p ch"
proof (induction p n and p ch arbitrary: q and q rule: lookup_node_lookup_children.induct)
  case (1 cp k x ch up ncs)
  have n: "ncs = cs" and ch: "children_ok cs ch" using "1.prems"(1) by (simp_all add: node_ok_simp)
  note f = lookup_node_fold [OF "1.prems"(1) [unfolded n]]
  have "lookup_children (drop (length k) q) ch = lookup_children (drop (length k) cp) ch" if "strict_prefix (fold_key cs k) (fold_key cs cp)"
    using "1.IH" [OF _ ch, of "drop (length k) q"] that "1.prems"(2) matchKey_simps(2) [of cp k x ch up cs] n
    by (simp flip: drop_map)
  then show ?case unfolding n f "1.prems"(2) by simp
next
  case (3 cp c chs)
  note f = "3.prems"(2)
  have e1: "q = [] \<longleftrightarrow> cp = []" using map_eq_imp_length_eq [OF f] by (metis length_0_conv)
  have e: "fold_char cs (hd q) = fold_char cs (hd cp)" if "cp \<noteq> []"
    using arg_cong [OF f, of hd] that e1 by (simp only: hd_map not_False_eq_True simp_thms)
  have "matchKey q c = NoMatch \<longleftrightarrow> matchKey cp c = NoMatch"
    using "3.prems"(1) e1 e by (cases c) (auto simp: matchKey_simps children_ok_Cons node_ok_simp)
  moreover have "matchKey cp c \<noteq> NoMatch \<Longrightarrow> lookup_node q c = lookup_node cp c"
    using "3.IH"(1) [OF _ _ f] "3.prems"(1) by (simp add: children_ok_Cons)
  moreover have "matchKey cp c = NoMatch \<Longrightarrow> lookup_children q chs = lookup_children cp chs"
    using "3.IH"(2) [OF _ _ f] "3.prems"(1) by (simp add: children_ok_Cons)
  ultimately show ?case by simp
qed simp

definition tree_ok :: "RadixTree \<Rightarrow> bool" where
  "tree_ok t \<longleftrightarrow> node_ok (m_bCaseSensitive t) (root_of t) \<and> m_pKey (root_of t) = []"

definition norm_key :: "bool \<Rightarrow> u8 list \<Rightarrow> u8 list" where
  "norm_key cs key = fold_key cs (c_string key)"

lemma tree_ok_new [simp]: "tree_ok (RadixTree_new cs)"
  by (simp add: tree_ok_def RadixTree_new_def root_of_def empty_root_def node_ok_simp)

lemma m_bCaseSensitive_new [simp]: "m_bCaseSensitive (RadixTree_new cs) = cs"
  by (simp add: RadixTree_new_def)

lemma RadixTree_lookup_root: "RadixTree_lookup key t = lookup_node (c_string key) (root_of t)"
  by (auto simp: RadixTree_lookup_def root_of_def empty_root_def lookup_node.simps split: option.splits MatchType.splits)

lemma RadixTree_lookup_new [simp]: "RadixTree_lookup key (RadixTree_new cs) = 0"
  by (simp add: RadixTree_lookup_def RadixTree_new_def)

lemma RadixTree_insert_lookup:
  assumes "tree_ok t"
  shows "\<exists>t'. RadixTree_insert key v t = Some t' \<and> tree_ok t' \<and> m_bCaseSensitive t' = m_bCaseSensitive t \<and>
    (\<forall>q. RadixTree_lookup q t' =
       (if norm_key (m_bCaseSensitive t) q = norm_key (m_bCaseSensitive t) key then v else RadixTree_lookup q t))"
proof -
  let ?cs = "m_bCaseSensitive t" and ?r = "root_of t"
  have ok: "node_ok ?cs ?r" "m_pKey ?r = []" using assms by (simp_all add: tree_ok_def)
  then have "matchKey (c_string key) ?r \<noteq> NoMatch" by (simp add: matchKey_def match_from_NoMatch)
  with insert_correct(1) [of ?cs ?r "c_string key" v] ok obtain r' j where
    r': "insert_node ?cs (c_string key) v ?r = Some (r', j)" "inserted ?cs (c_string key) v ?r r'" by auto
  then show ?thesis
    using ok unfolding RadixTree_insert_def RadixTree_lookup_root
    by (simp add: tree_ok_def root_of_def inserted_def norm_key_def)
qed

lemma RadixTree_remove_lookup:
  assumes "tree_ok t"
  shows "\<exists>t'. RadixTree_remove key t = Some t' \<and> tree_ok t' \<and> m_bCaseSensitive t' = m_bCaseSensitive t \<and>
    (\<forall>q. RadixTree_lookup q t' =
       (if norm_key (m_bCaseSensitive t) q = norm_key (m_bCaseSensitive t) key then 0 else RadixTree_lookup q t))"
proof -
  let ?cs = "m_bCaseSensitive t" and ?c = "c_string key"
  obtain x ch up where r: "root_of t = RNode [] x ch up ?cs" and ch: "children_ok ?cs ch"
    using assms by (cases "root_of t") (auto simp: tree_ok_def node_ok_simp)
  have look: "lookup_node q (RNode [] x ch up ?cs) = (if q = [] then x else lookup_children q ch)" if "children_ok ?cs ch" for q x ch
    using lookup_node_fold [of ?cs "[]" x ch up q] that by (auto simp: node_ok_simp strict_prefix_def)
  show ?thesis
  proof (cases "?c = []")
    case True
    then show ?thesis using ch look r
      by (auto simp: RadixTree_remove_def RadixTree_lookup_root tree_ok_def root_of_def norm_key_def node_ok_simp)
  next
    case False
    then have over: "matchKey ?c (RNode [] x ch up ?cs) = OverMatch" by (cases ?c) (simp_all add: matchKey_def)
    obtain s where s: "remove_children ?c ch = Some s" "children_removed ?cs ?c ch s" using remove_correct(2) [OF ch False] by blast
    have "\<exists>t'. RadixTree_remove key t = Some t' \<and> m_bCaseSensitive t' = ?cs \<and>
      m_pRoot t' = Some (RNode [] x (case s of CAbsent \<Rightarrow> ch | CKept ch' \<Rightarrow> ch' | CShrunk ch' \<Rightarrow> ch') up ?cs)"
      using False over s(1) by (cases s) (simp_all add: RadixTree_remove_def r)
    then obtain t' ch' where t': "RadixTree_remove key t = Some t'" "m_bCaseSensitive t' = ?cs" "m_pRoot t' = Some (RNode [] x ch' up ?cs)"
      "ch' = (case s of CAbsent \<Rightarrow> ch | CKept ch' \<Rightarrow> ch' | CShrunk ch' \<Rightarrow> ch')" by blast
    have ch': "children_ok ?cs ch'" using s(2) ch t'(4) by (cases s) (auto simp: children_removed_def removed_children_def)
    have lk: "RadixTree_lookup q t = (if c_string q = [] then x else lookup_children (c_string q) ch)"
      "RadixTree_lookup q t' = (if c_string q = [] then x else lookup_children (c_string q) ch')" for q
      using look [OF ch] look [OF ch'] r t'(3) by (simp_all add: RadixTree_lookup_root root_of_def)
    have same: "lookup_children (c_string q) ch' = (if fold_key ?cs (c_string q) = fold_key ?cs ?c then 0 else lookup_children (c_string q) ch)"
      if q: "c_string q \<noteq> []" for q
    proof (cases s)
      case CAbsent
      then show ?thesis using lookup_fold(2) [OF ch, of "c_string q" ?c] s(2) t'(4) by (simp add: children_removed_def)
    qed (use s(2) t'(4) q in \<open>simp_all add: children_removed_def removed_children_def\<close>)
    have "fold_key ?cs (c_string q) = fold_key ?cs ?c \<Longrightarrow> c_string q \<noteq> []" for q using False by auto
    then have "RadixTree_lookup q t' = (if norm_key ?cs q = norm_key ?cs key then 0 else RadixTree_lookup q t)" for q
      unfolding lk norm_key_def using same [of q] by (cases "c_string q = []") auto
    with ch' show ?thesis using t' by (simp add: tree_ok_def root_of_def node_ok_simp)
  qed
qed

interpretation radix: keyed_map "\<lambda>t. tree_ok t \<and> m_bCaseSensitive t = cs" RadixTree_lookup RadixTree_insert RadixTree_remove "norm_key cs" 0
  for cs
proof unfold_locales
  fix t key v assume "tree_ok t \<and> m_bCaseSensitive t = cs"
  with RadixTree_insert_lookup [of t key v] RadixTree_remove_lookup [of t key]
  show "\<exists>t'. RadixTree_insert key v t = Some t' \<and> (tree_ok t' \<and> m_bCaseSensitive t' = cs) \<and>
      (\<forall>q. RadixTree_lookup q t' = (if norm_key cs q = norm_key cs key then v else RadixTree_lookup q t))"
    and "\<exists>t'. RadixTree_remove key t = Some t' \<and> (tree_ok t' \<and> m_bCaseSensitive t' = cs) \<and>
      (\<forall>q. RadixTree_lookup q t' = (if norm_key cs q = norm_key cs key then 0 else RadixTree_lookup q t))"
    by auto
qed

text \<open>C3: Any sequence of insertions and removals, from the empty tree on, runs without a null dereference and
  leaves the map that the same sequence makes of the empty map, up to the case of the keys where the
  tree ignores it.\<close>

theorem RadixTree_refines_map:
  "\<exists>t. run_ops RadixTree_insert RadixTree_remove ops (RadixTree_new cs) = Some t \<and>
     (\<forall>key. RadixTree_lookup key t = map_ops (norm_key cs) 0 ops (\<lambda>_. 0) (norm_key cs key))"
  using radix.run_refines [of "RadixTree_new cs" cs "\<lambda>_. 0" ops] by auto

section \<open>The tree is compact\<close>

text \<open>The invariant that the comment in \<open>remove\<close> states: below the root there is no node without
  a value that has fewer than two children.\<close>

fun compact :: "node \<Rightarrow> bool" where
  "compact (RNode k x ch up ncs) \<longleftrightarrow> (x \<noteq> 0 \<or> length ch \<ge> 2) \<and> list_all compact ch"

definition tree_compact :: "RadixTree \<Rightarrow> bool" where
  "tree_compact t \<longleftrightarrow> list_all compact (m_Children (root_of t)) \<and> \<not> m_pParent (root_of t)"

lemma compact_alt: "compact n \<longleftrightarrow> (m_value n \<noteq> 0 \<or> length (m_Children n) \<ge> 2) \<and> list_all compact (m_Children n)"
  by (cases n) simp

lemma insert_compact:
  "insert_node cs cp v n = Some (n', j) \<Longrightarrow> v \<noteq> 0 \<Longrightarrow> list_all compact (m_Children n) \<Longrightarrow> (m_pParent n \<longrightarrow> compact n) \<Longrightarrow>
     list_all compact (m_Children n') \<and> (compact n \<longrightarrow> compact n') \<and> m_pParent n' = m_pParent n"
  "insert_children cs cp v ch = Some (ch', j) \<Longrightarrow> v \<noteq> 0 \<Longrightarrow> list_all compact ch \<Longrightarrow>
     list_all compact ch' \<and> length ch \<le> length ch'"
proof (induction cs cp v n and cs cp v ch arbitrary: n' j and ch' j rule: insert_node_insert_children.induct)
  case (1 cs cp v k x ch up ncs)
  then show ?case by (auto split: MatchType.splits Option.bind_splits if_splits)
next
  case (3 cs cp v c chs)
  from "3.prems"(3) have c: "compact c" "list_all compact (m_Children c)" "list_all compact chs" by (simp_all add: compact_alt [of c])
  with "3.IH" "3.prems"(1,2) show ?case by (auto split: if_splits Option.bind_splits)
qed auto

definition removal_compact :: "removal \<Rightarrow> bool" where
  "removal_compact r = (case r of Kept n \<Rightarrow> compact n | Merged n \<Rightarrow> compact n | _ \<Rightarrow> True)"

lemma settle_compact: "settle n = Some r \<Longrightarrow> list_all compact (m_Children n) \<Longrightarrow> removal_compact r"
  by (cases n) (auto simp: settle_def removal_compact_def split: list.splits node.splits if_splits nat.splits)

lemma remove_compact:
  "remove_node cp n = Some r \<Longrightarrow> compact n \<Longrightarrow> removal_compact r"
  "remove_children cp ch = Some s \<Longrightarrow> list_all compact ch \<Longrightarrow>
     (case s of CAbsent \<Rightarrow> True | CKept ch' \<Rightarrow> list_all compact ch' \<and> length ch' = length ch | CShrunk ch' \<Rightarrow> list_all compact ch')"
proof (induction cp n and cp ch arbitrary: r and s rule: remove_node_remove_children.induct)
  case (1 cp k x ch up ncs)
  show ?case
  proof (cases "matchKey cp (RNode k x ch up ncs)")
    case ExactMatch
    with "1.prems" show ?thesis using settle_compact [of "RNode k 0 ch up ncs"] by simp
  next
    case OverMatch
    with "1.prems"(1) obtain q where q: "remove_children (drop (length k) cp) ch = Some q" by (auto split: Option.bind_splits)
    from "1.IH" [OF OverMatch q] "1.prems" OverMatch q show ?thesis
      using settle_compact [of "RNode k x ch' up ncs" for ch'] by (cases q) (auto simp: removal_compact_def)
  qed (use "1.prems" in \<open>auto simp: removal_compact_def\<close>)
next
  case (3 cp c chs)
  then show ?case
    by (auto split: if_splits Option.bind_splits removal.splits children_removal.splits simp: removal_compact_def)
qed auto

lemma tree_compact_remove:
  assumes "RadixTree_remove key t = Some t'" "tree_compact t"
  shows "tree_compact t'"
proof (cases "root_of t")
  case r: (RNode k x ch up ncs)
  then have c: "list_all compact ch" "\<not> up" using assms(2) by (simp_all add: tree_compact_def)
  have "\<exists>x' ch'. m_pRoot t' = Some (RNode k x' ch' up ncs) \<and> list_all compact ch'"
  proof (cases "c_string key = []")
    case True
    with assms(1) r c show ?thesis by (auto simp: RadixTree_remove_def)
  next
    case False
    with assms(1) r obtain q where q: "remove_children (drop (length k) (c_string key)) ch = Some q"
      "m_pRoot t' = Some (RNode k x (case q of CAbsent \<Rightarrow> ch | CKept ch' \<Rightarrow> ch' | CShrunk ch' \<Rightarrow> ch') up ncs)"
      by (auto simp: RadixTree_remove_def split: if_splits Option.bind_splits children_removal.splits)
    with remove_compact(2) [OF q(1) c(1)] c(1) show ?thesis by (cases q) auto
  qed
  with c(2) show ?thesis by (auto simp: tree_compact_def root_of_def)
qed

text \<open>C23: Insertions of pointers that are not null, and removals, keep the tree compact.\<close>

theorem RadixTree_compact:
  assumes "tree_compact t" "\<forall>k v. Insert k v \<in> set ops \<longrightarrow> v \<noteq> 0" "run_ops RadixTree_insert RadixTree_remove ops t = Some t'"
  shows "tree_compact t'"
  using assms
proof (induction ops arbitrary: t)
  case (Cons a ops)
  show ?case
  proof (cases a)
    case (Insert k v)
    with Cons.prems(3) obtain t1 where t1: "RadixTree_insert k v t = Some t1" "run_ops RadixTree_insert RadixTree_remove ops t1 = Some t'"
      by (auto split: Option.bind_splits)
    then obtain r j where "insert_node (m_bCaseSensitive t) (c_string k) v (root_of t) = Some (r, j)" "root_of t1 = r"
      by (auto simp: RadixTree_insert_def root_of_def split: Option.bind_splits)
    then have "tree_compact t1" using insert_compact(1) Cons.prems(1,2) Insert by (fastforce simp: tree_compact_def)
    with Cons.IH [OF this] Cons.prems(2) t1(2) show ?thesis by simp
  next
    case (Remove k)
    with Cons.prems(3) obtain t1 where t1: "RadixTree_remove k t = Some t1" "run_ops RadixTree_insert RadixTree_remove ops t1 = Some t'"
      by (auto split: Option.bind_splits)
    have "tree_compact t1" using t1(1) Cons.prems(1) by (rule tree_compact_remove)
    with Cons.IH [OF this] Cons.prems(2) t1(2) show ?thesis by simp
  qed
qed simp

theorem RadixTree_compact_witness:
  "\<exists>t. run_ops RadixTree_insert RadixTree_remove [Insert [97, 98] 1, Insert [97, 99] 2, Remove [97, 98]] (RadixTree_new True) = Some t \<and>
     tree_compact t"
proof -
  let ?ops = "[Insert [97, 98] 1, Insert [97, 99] 2, Remove [97, 98]]"
  obtain t where t: "run_ops RadixTree_insert RadixTree_remove ?ops (RadixTree_new True) = Some t"
    using radix.run_refines [of "RadixTree_new True" True "\<lambda>_. 0" ?ops] by auto
  moreover have "tree_compact (RadixTree_new True)"
    by (simp add: tree_compact_def root_of_def RadixTree_new_def empty_root_def)
  ultimately show ?thesis using RadixTree_compact [OF _ _ t] by auto
qed

end
