(* ===== verification/Radix_Iteration.thy ===== *)
theory Radix_Iteration
  imports Radix_Properties
begin

text \<open>Iteration over a radix tree: on a tree whose parent pointers are all there, the loop over the
  iterators ends after it has passed every pointer below the root that is not null, in the order of
  the tree.\<close>

section \<open>The order of the nodes\<close>

fun preorder :: "node \<Rightarrow> nat list" where
  "preorder (RNode k x ch up ncs) = x # concat (map preorder ch)"

lemma preorder_alt: "preorder n = m_value n # concat (map preorder (m_Children n))"
  by (cases n) simp

text \<open>The values behind the subtree at a position, and behind the position itself.\<close>

fun behind_subtree :: "node \<Rightarrow> nat list \<Rightarrow> nat list" where
  "behind_subtree n [] = []"
| "behind_subtree n (i # p) = behind_subtree (m_Children n ! i) p @ concat (map preorder (drop (Suc i) (m_Children n)))"

definition behind :: "node \<Rightarrow> nat list \<Rightarrow> nat list" where
  "behind n p = (case node_at n p of None \<Rightarrow> [] | Some m \<Rightarrow> concat (map preorder (m_Children m)) @ behind_subtree n p)"

lemma node_at_snoc:
  "node_at n (p @ [i]) =
     (case node_at n p of None \<Rightarrow> None | Some m \<Rightarrow> if i < length (m_Children m) then Some (m_Children m ! i) else None)"
  by (induction p arbitrary: n) auto

lemma behind_subtree_snoc:
  "node_at n p = Some m \<Longrightarrow> i < length (m_Children m) \<Longrightarrow>
     behind_subtree n (p @ [i]) = concat (map preorder (drop (Suc i) (m_Children m))) @ behind_subtree n p"
  by (induction p arbitrary: n) (auto split: if_splits)

fun linked :: "node \<Rightarrow> bool" where
  "linked (RNode k x ch up ncs) \<longleftrightarrow> list_all (\<lambda>c. m_pParent c \<and> linked c) ch"

lemma linked_child: "linked n \<Longrightarrow> i < length (m_Children n) \<Longrightarrow> m_pParent (m_Children n ! i) \<and> linked (m_Children n ! i)"
  by (cases n) (simp add: list_all_length)

lemma node_ok_linked: "node_ok cs n \<Longrightarrow> linked n"
  by (induction n) (auto simp: node_ok.simps list_all_iff)

lemma linked_node_at: "linked n \<Longrightarrow> node_at n p = Some m \<Longrightarrow> linked m"
proof (induction p arbitrary: n)
  case (Cons i p)
  then show ?case using linked_child [of n i] by (auto split: if_splits)
qed simp

lemma linked_parent: "linked n \<Longrightarrow> node_at n (p @ [i]) = Some m \<Longrightarrow> m_pParent m"
  by (auto simp: node_at_snoc linked_child split: option.splits if_splits dest: linked_node_at)

section \<open>One step\<close>

lemma climb_correct:
  assumes "linked root" "node_at root p = Some m"
  shows "case climb root p of
      None \<Rightarrow> behind_subtree root p = []
    | Some q \<Rightarrow> \<exists>m'. node_at root q = Some m' \<and> behind_subtree root p = preorder m' @ behind_subtree root q"
  using assms(2)
proof (induction p arbitrary: m rule: rev_induct)
  case Nil
  then show ?case by (simp add: climb.simps)
next
  case (snoc i p)
  from snoc.prems obtain m0 where m0: "node_at root p = Some m0" "i < length (m_Children m0)" "m = m_Children m0 ! i"
    by (auto simp: node_at_snoc split: option.splits if_splits)
  have up: "m_pParent m" using linked_parent [OF assms(1) snoc.prems] .
  show ?case
  proof (cases "Suc i < length (m_Children m0)")
    case True
    then have "climb root (p @ [i]) = Some (p @ [Suc i])"
      using snoc.prems m0 up by (subst climb.simps) (simp add: getNextSibling_def node_at_snoc)
    then show ?thesis using True m0
      by (simp add: behind_subtree_snoc [OF m0(1)] node_at_snoc Cons_nth_drop_Suc [symmetric])
  next
    case False
    then have "climb root (p @ [i]) = climb root p"
      using snoc.prems m0 up by (subst climb.simps) (simp add: getNextSibling_def node_at_snoc)
    then show ?thesis using snoc.IH [OF m0(1)] False
      by (cases "climb root p") (auto simp: behind_subtree_snoc [OF m0(1,2)])
  qed
qed

lemma step_next_correct:
  assumes "linked root" "node_at root p = Some m"
  shows "case step_next root p of
      None \<Rightarrow> behind root p = []
    | Some q \<Rightarrow> \<exists>m'. node_at root q = Some m' \<and> behind root p = m_value m' # behind root q"
proof (cases "m_Children m")
  case Nil
  then have s: "step_next root p = climb root p" "behind root p = behind_subtree root p"
    using assms(2) by (simp_all add: step_next_def behind_def)
  show ?thesis using climb_correct [OF assms] unfolding s
    by (cases "climb root p") (auto simp: behind_def preorder_alt)
next
  case (Cons c chs)
  then have "step_next root p = Some (p @ [0])" "node_at root (p @ [0]) = Some c"
    using assms(2) by (simp_all add: step_next_def node_at_snoc)
  then show ?thesis using Cons assms(2) behind_subtree_snoc [OF assms(2), of 0]
    by (simp add: behind_def preorder_alt [of c])
qed

section \<open>The loop\<close>

lemma doNext_correct:
  assumes "linked root" "node_at root p = Some m"
  shows "\<exists>r. doNext root p = Some r \<and>
    (case r of
       None \<Rightarrow> filter (\<lambda>v. v \<noteq> 0) (behind root p) = []
     | Some q \<Rightarrow> \<exists>m'. node_at root q = Some m' \<and> length (behind root q) < length (behind root p) \<and>
         filter (\<lambda>v. v \<noteq> 0) (behind root p) = m_value m' # filter (\<lambda>v. v \<noteq> 0) (behind root q))"
  using assms(2)
proof (induction "length (behind root p)" arbitrary: p m rule: less_induct)
  case less
  note step = step_next_correct [OF assms(1) less.prems]
  show ?case
  proof (cases "step_next root p")
    case None
    then show ?thesis using step by (subst doNext.simps) simp
  next
    case (Some q)
    with step obtain m' where q: "node_at root q = Some m'" "behind root p = m_value m' # behind root q" by auto
    show ?thesis
    proof (cases "m_value m' = 0")
      case True
      then have "doNext root p = doNext root q" using Some q by (subst doNext.simps) simp
      with less.hyps [OF _ q(1)] q(2) True show ?thesis by (fastforce split: option.splits)
    next
      case False
      then have "doNext root p = Some (Some q)" using Some q by (subst doNext.simps) simp
      with q False show ?thesis by simp
    qed
  qed
qed

lemma values_from_correct:
  assumes "linked root" "node_at root p = Some m"
  shows "values_from root p = Some (filter (\<lambda>v. v \<noteq> 0) (behind root p))"
  using assms(2)
proof (induction "length (behind root p)" arbitrary: p m rule: less_induct)
  case less
  obtain r where r: "doNext root p = Some r" "case r of
       None \<Rightarrow> filter (\<lambda>v. v \<noteq> 0) (behind root p) = []
     | Some q \<Rightarrow> \<exists>m'. node_at root q = Some m' \<and> length (behind root q) < length (behind root p) \<and>
         filter (\<lambda>v. v \<noteq> 0) (behind root p) = m_value m' # filter (\<lambda>v. v \<noteq> 0) (behind root q)"
    using doNext_correct [OF assms(1) less.prems] by blast
  show ?case
  proof (cases r)
    case None
    with r show ?thesis by (subst values_from.simps) simp
  next
    case (Some q)
    with r(2) obtain m' where q: "node_at root q = Some m'" "length (behind root q) < length (behind root p)"
      "filter (\<lambda>v. v \<noteq> 0) (behind root p) = m_value m' # filter (\<lambda>v. v \<noteq> 0) (behind root q)" by auto
    with less.hyps [OF q(2,1)] r(1) Some show ?thesis by (subst values_from.simps) simp
  qed
qed

section \<open>The keys in the tree\<close>

text \<open>The whole keys with their values, in the order of the iteration.\<close>

fun entries_of :: "node \<Rightarrow> (u8 list \<times> nat) list" where
  "entries_of (RNode k x ch up ncs) = (k, x) # concat (map (\<lambda>c. map (\<lambda>(q, v). (k @ q, v)) (entries_of c)) ch)"

lemma entries_preorder: "map snd (entries_of n) = preorder n"
  by (induction n) (auto simp: map_concat comp_def case_prod_beta intro!: arg_cong [where f = concat])

lemma entries_prefix: "(q, v) \<in> set (entries_of n) \<Longrightarrow> \<exists>z. q = m_pKey n @ z"
  by (cases n) auto

lemma lookup_children_mem:
  "children_ok cs ch \<Longrightarrow> c \<in> set ch \<Longrightarrow> q \<noteq> [] \<Longrightarrow> fold_char cs (hd q) = head_of cs c \<Longrightarrow> lookup_children q ch = lookup_node q c"
proof (induction ch)
  case (Cons d ch)
  show ?case
  proof (cases "c = d")
    case False
    with Cons.prems(2) have c: "c \<in> set ch" by simp
    then have "head_of cs c \<in> head_of cs ` set ch" by (rule imageI)
    with Cons.prems(1) have "head_of cs c \<noteq> head_of cs d" by (metis children_ok_Cons)
    with Cons c show ?thesis using lookup_children_Cons [OF Cons.prems(1,3)] by (simp add: children_ok_Cons)
  qed (use Cons.prems lookup_children_Cons [OF Cons.prems(1,3)] in simp)
qed simp

lemma lookup_children_found: "lookup_children q ch \<noteq> 0 \<Longrightarrow> \<exists>c \<in> set ch. lookup_node q c \<noteq> 0"
  by (induction ch) (auto split: if_splits)

lemma children_ok_mem: "children_ok cs ch \<Longrightarrow> c \<in> set ch \<Longrightarrow> node_ok cs c \<and> m_pKey c \<noteq> []"
  by (auto simp: children_ok_def list_all_iff)

lemma entries_lookup: "node_ok cs n \<Longrightarrow> (q, v) \<in> set (entries_of n) \<Longrightarrow> lookup_node q n = v"
proof (induction n arbitrary: q)
  case (RNode k x ch up ncs)
  then have n: "ncs = cs" and ch: "children_ok cs ch" by (simp_all add: node_ok_simp)
  note f = lookup_node_fold [OF RNode.prems(1) [unfolded n]]
  from RNode.prems(2) consider "q = k" "v = x" | c z where "c \<in> set ch" "(z, v) \<in> set (entries_of c)" "q = k @ z" by auto
  then show ?case
  proof cases
    case 1
    then show ?thesis using f [of q] n by simp
  next
    case 2
    from children_ok_mem [OF ch 2(1)] entries_prefix [OF 2(2)] obtain y where c: "node_ok cs c" "m_pKey c \<noteq> []" "z = m_pKey c @ y" by blast
    then have "lookup_children z ch = v"
      using lookup_children_mem [OF ch 2(1)] RNode.IH [OF 2(1) c(1) 2(2)] by simp
    then show ?thesis using f [of q] n 2(3) c by (simp add: strict_prefix_def)
  qed
qed

lemma entries_complete: "node_ok cs n \<Longrightarrow> lookup_node q n \<noteq> 0 \<Longrightarrow> \<exists>(p, v) \<in> set (entries_of n). fold_key cs p = fold_key cs q"
proof (induction n arbitrary: q)
  case (RNode k x ch up ncs)
  then have n: "ncs = cs" and ch: "children_ok cs ch" by (simp_all add: node_ok_simp)
  note f = lookup_node_fold [OF RNode.prems(1) [unfolded n]]
  show ?case
  proof (cases "fold_key cs q = fold_key cs k")
    case False
    with RNode.prems(2) f [of q] n have sp: "strict_prefix (fold_key cs k) (fold_key cs q)" "lookup_children (drop (length k) q) ch \<noteq> 0"
      by (auto split: if_splits)
    from lookup_children_found [OF sp(2)] obtain c where c: "c \<in> set ch" "lookup_node (drop (length k) q) c \<noteq> 0" by blast
    from RNode.IH [OF c(1) _ c(2)] children_ok_mem [OF ch c(1)] obtain p v where
      p: "(p, v) \<in> set (entries_of c)" "fold_key cs p = fold_key cs (drop (length k) q)" by blast
    then have "fold_key cs (k @ p) = fold_key cs q" using fold_key_split [OF sp(1)] by simp
    with p(1) c(1) show ?thesis by force
  qed auto
qed

lemma entries_distinct: "node_ok cs n \<Longrightarrow> distinct (map (fold_key cs \<circ> fst) (entries_of n))"
proof (induction n)
  case (RNode k x ch up ncs)
  then have ch: "children_ok cs ch" by (simp add: node_ok_simp)
  let ?E = "\<lambda>c. map (\<lambda>(q, v). (k @ q, v)) (entries_of c)"
  have "distinct (map (fold_key cs \<circ> fst) (concat (map ?E cs')))" if "set cs' \<subseteq> set ch" "children_ok cs cs'" for cs'
    using that
  proof (induction cs')
    case (Cons c cs')
    have c: "c \<in> set ch" "node_ok cs c" using children_ok_mem [OF Cons.prems(2), of c] Cons.prems(1) by simp_all
    from RNode.IH [OF this] have "distinct (map ((@) (fold_key cs k)) (map (fold_key cs \<circ> fst) (entries_of c)))" by (auto simp: distinct_map inj_on_def)
    then have 1: "distinct (map (fold_key cs \<circ> fst) (?E c))" by (simp add: comp_def case_prod_beta)
    have "fold_key cs p \<noteq> fold_key cs q" if "(p, v) \<in> set (entries_of c)" "d \<in> set cs'" "(q, w) \<in> set (entries_of d)" for p v d q w
    proof -
      have d: "m_pKey c \<noteq> []" "m_pKey d \<noteq> []" "head_of cs c \<noteq> head_of cs d"
        using Cons.prems(2) that(2) children_ok_mem [of cs cs' d] by (auto simp: children_ok_Cons)
      from entries_prefix [OF that(1)] entries_prefix [OF that(3)] d show ?thesis by (cases "m_pKey c"; cases "m_pKey d") auto
    qed
    then have 2: "set (map (fold_key cs \<circ> fst) (?E c)) \<inter> set (map (fold_key cs \<circ> fst) (concat (map ?E cs'))) = {}" by fastforce
    have 3: "distinct (map (fold_key cs \<circ> fst) (concat (map ?E cs')))"
      using Cons.prems by (intro Cons.IH) (simp_all add: children_ok_Cons)
    show ?case unfolding list.map concat.simps map_append distinct_append by (intro conjI 1 2 3)
  qed simp
  from this [OF _ ch] have "distinct (map (fold_key cs \<circ> fst) (concat (map ?E ch)))" by simp
  moreover have "q \<noteq> []" if "c \<in> set ch" "(q, v) \<in> set (entries_of c)" for c q v
    using children_ok_mem [OF ch that(1)] entries_prefix [OF that(2)] by auto
  then have "(fold_key cs \<circ> fst) (k, x) \<notin> set (map (fold_key cs \<circ> fst) (concat (map ?E ch)))" by fastforce
  ultimately show ?case by (simp only: entries_of.simps list.map distinct.simps simp_thms)
qed

section \<open>No terminator inside the keys\<close>

fun nul_free :: "node \<Rightarrow> bool" where
  "nul_free (RNode k x ch up ncs) \<longleftrightarrow> 0 \<notin> set k \<and> list_all nul_free ch"

lemma insert_nul_free:
  "insert_node cs cp v n = Some (n', j) \<Longrightarrow> 0 \<notin> set cp \<Longrightarrow> nul_free n \<Longrightarrow> nul_free n'"
  "insert_children cs cp v ch = Some (ch', j) \<Longrightarrow> 0 \<notin> set cp \<Longrightarrow> list_all nul_free ch \<Longrightarrow> list_all nul_free ch'"
proof (induction cs cp v n and cs cp v ch arbitrary: n' j and ch' j rule: insert_node_insert_children.induct)
  case (1 cs cp v k x ch up ncs)
  have "0 \<notin> set (drop (length k) cp)" using "1.prems"(2) by (auto dest: in_set_dropD)
  with 1 show ?case
    by (auto split: MatchType.splits Option.bind_splits if_splits dest: in_set_takeD in_set_dropD)
next
  case (3 cs cp v c chs)
  then show ?case by (auto split: if_splits Option.bind_splits)
qed auto

definition removal_nul_free :: "removal \<Rightarrow> bool" where
  "removal_nul_free r = (case r of Kept n \<Rightarrow> nul_free n | Merged n \<Rightarrow> nul_free n | _ \<Rightarrow> True)"

lemma settle_nul_free: "settle n = Some r \<Longrightarrow> nul_free n \<Longrightarrow> removal_nul_free r"
  by (cases n) (auto simp: settle_def removal_nul_free_def split: list.splits node.splits if_splits nat.splits)

lemma remove_nul_free:
  "remove_node cp n = Some r \<Longrightarrow> nul_free n \<Longrightarrow> removal_nul_free r"
  "remove_children cp ch = Some s \<Longrightarrow> list_all nul_free ch \<Longrightarrow>
     (case s of CAbsent \<Rightarrow> True | CKept ch' \<Rightarrow> list_all nul_free ch' | CShrunk ch' \<Rightarrow> list_all nul_free ch')"
proof (induction cp n and cp ch arbitrary: r and s rule: remove_node_remove_children.induct)
  case (1 cp k x ch up ncs)
  show ?case
  proof (cases "matchKey cp (RNode k x ch up ncs)")
    case ExactMatch
    with "1.prems" show ?thesis using settle_nul_free [of "RNode k 0 ch up ncs"] by simp
  next
    case OverMatch
    with "1.prems"(1) obtain q where q: "remove_children (drop (length k) cp) ch = Some q" by (auto split: Option.bind_splits)
    from "1.IH" [OF OverMatch q] "1.prems" OverMatch q show ?thesis
      using settle_nul_free [of "RNode k x ch' up ncs" for ch'] by (cases q) (auto simp: removal_nul_free_def)
  qed (use "1.prems" in \<open>auto simp: removal_nul_free_def\<close>)
next
  case (3 cp c chs)
  then show ?case
    by (auto split: if_splits Option.bind_splits removal.splits children_removal.splits simp: removal_nul_free_def)
qed auto

lemma c_string_nul_free: "0 \<notin> set (c_string s)" "0 \<notin> set s \<Longrightarrow> c_string s = s"
  by (auto simp: c_string_def takeWhile_eq_all_conv dest: set_takeWhileD)

lemma run_nul_free:
  "run_ops RadixTree_insert RadixTree_remove ops t = Some t' \<Longrightarrow> nul_free (root_of t) \<Longrightarrow> nul_free (root_of t')"
proof (induction ops arbitrary: t)
  case (Cons a ops)
  show ?case
  proof (cases a)
    case (Insert k v)
    with Cons.prems(1) obtain t1 where t1: "RadixTree_insert k v t = Some t1" "run_ops RadixTree_insert RadixTree_remove ops t1 = Some t'"
      by (auto split: Option.bind_splits)
    then have "nul_free (root_of t1)" using insert_nul_free(1) Cons.prems(2) c_string_nul_free(1)
      by (fastforce simp: RadixTree_insert_def root_of_def split: Option.bind_splits)
    with Cons.IH t1(2) show ?thesis by blast
  next
    case (Remove key)
    with Cons.prems(1) obtain t1 where t1: "RadixTree_remove key t = Some t1" "run_ops RadixTree_insert RadixTree_remove ops t1 = Some t'"
      by (auto split: Option.bind_splits)
    obtain k x ch up ncs where r: "root_of t = RNode k x ch up ncs" by (cases "root_of t")
    have c: "0 \<notin> set k" "list_all nul_free ch" using Cons.prems(2) r by simp_all
    have "nul_free (root_of t1)"
    proof (cases "c_string key = []")
      case True
      with t1(1) r c show ?thesis by (auto simp: RadixTree_remove_def root_of_def)
    next
      case False
      with t1(1) r obtain q where q: "remove_children (drop (length k) (c_string key)) ch = Some q"
        "m_pRoot t1 = Some (RNode k x (case q of CAbsent \<Rightarrow> ch | CKept ch' \<Rightarrow> ch' | CShrunk ch' \<Rightarrow> ch') up ncs)"
        by (auto simp: RadixTree_remove_def split: if_splits Option.bind_splits children_removal.splits)
      with remove_nul_free(2) [OF q(1) c(2)] c show ?thesis by (cases q) (auto simp: root_of_def)
    qed
    with Cons.IH t1(2) show ?thesis by blast
  qed
qed simp

lemma entries_nul_free: "nul_free n \<Longrightarrow> (q, v) \<in> set (entries_of n) \<Longrightarrow> 0 \<notin> set q"
  by (induction n arbitrary: q) (fastforce simp: list_all_iff)

section \<open>Properties\<close>

text \<open>C22: After any insertions and removals on an empty tree, when it has a root, the iteration ends, and it passes every
  key of the map but the empty one exactly once, with its pointer.\<close>

theorem RadixTree_iterates:
  assumes "run_ops RadixTree_insert RadixTree_remove ops (RadixTree_new cs) = Some t" "m_pRoot t \<noteq> None"
  shows "\<exists>ks. RadixTree_values t = Some (map (\<lambda>k. RadixTree_lookup k t) ks) \<and> distinct (map (norm_key cs) ks) \<and>
    norm_key cs ` set ks = {norm_key cs key |key. RadixTree_lookup key t \<noteq> 0 \<and> norm_key cs key \<noteq> []}"
proof -
  have t: "tree_ok t" "m_bCaseSensitive t = cs"
    using radix.run_refines [of "RadixTree_new cs" cs "\<lambda>_. 0" ops] assms(1) by auto
  obtain x ch up where r: "m_pRoot t = Some (RNode [] x ch up cs)" "root_of t = RNode [] x ch up cs"
    using assms(2) t by (cases "root_of t") (auto simp: tree_ok_def root_of_def node_ok_simp split: option.splits)
  let ?r = "RNode [] x ch up cs"
  have ok: "node_ok cs ?r" "nul_free ?r" "children_ok cs ch"
    using t r(2) run_nul_free [OF assms(1)] by (auto simp: tree_ok_def RadixTree_new_def root_of_def empty_root_def node_ok_simp)
  let ?es = "concat (map entries_of ch)"
  have es: "entries_of ?r = ([], x) # ?es" by (simp add: case_prod_beta)
  define ks where "ks = map fst (filter (\<lambda>(q, v). v \<noteq> 0) ?es)"
  have mem: "c_string q = q" "RadixTree_lookup q t = v" "q \<noteq> []" if "(q, v) \<in> set ?es" for q v
  proof -
    show 1: "c_string q = q" using c_string_nul_free(2) entries_nul_free [OF ok(2), of q v] that es by auto
    show "RadixTree_lookup q t = v" using entries_lookup [OF ok(1), of q v] that es 1 r(1) by (simp add: RadixTree_lookup_def)
    show "q \<noteq> []" using that children_ok_mem [OF ok(3)] entries_prefix by fastforce
  qed
  have "RadixTree_values t = Some (filter (\<lambda>v. v \<noteq> 0) (map snd ?es))"
    using values_from_correct [OF node_ok_linked [OF ok(1)], of "[]" ?r] r(1)
    by (simp add: RadixTree_values_def behind_def map_concat comp_def entries_preorder)
  also have "filter (\<lambda>v. v \<noteq> 0) (map snd ?es) = map snd (filter (\<lambda>(q, v). v \<noteq> 0) ?es)"
    by (simp only: filter_map comp_def case_prod_beta')
  also have "\<dots> = map (\<lambda>k. RadixTree_lookup k t) ks"
    unfolding ks_def map_map by (rule map_cong [OF refl]) (use mem(2) [symmetric] in \<open>force simp del: set_concat\<close>)
  finally have 1: "RadixTree_values t = Some (map (\<lambda>k. RadixTree_lookup k t) ks)" .
  have nk: "norm_key cs q = fold_key cs q" if "(q, v) \<in> set ?es" for q v using mem(1) [OF that] by (simp add: norm_key_def)
  have "distinct (map (fold_key cs \<circ> fst) ?es)" using entries_distinct [OF ok(1)] unfolding es by simp
  then have "distinct (map (fold_key cs \<circ> fst) (filter (\<lambda>(q, v). v \<noteq> 0) ?es))" by (rule distinct_map_filter)
  moreover have "map (norm_key cs) ks = map (fold_key cs \<circ> fst) (filter (\<lambda>(q, v). v \<noteq> 0) ?es)"
    using nk by (auto simp: ks_def)
  ultimately have 2: "distinct (map (norm_key cs) ks)" by simp
  have "norm_key cs key \<in> norm_key cs ` set ks" if "RadixTree_lookup key t \<noteq> 0" "norm_key cs key \<noteq> []" for key
  proof -
    have "lookup_node (c_string key) ?r \<noteq> 0" using that(1) r(1) by (simp add: RadixTree_lookup_def)
    from entries_complete [OF ok(1) this] obtain q v where q: "(q, v) \<in> set (entries_of ?r)" "fold_key cs q = norm_key cs key"
      by (auto simp: norm_key_def)
    with that(2) have m: "(q, v) \<in> set ?es" unfolding es by auto
    have "lookup_node (c_string key) ?r = lookup_node q ?r" by (rule lookup_fold(1) [OF ok(1)]) (simp add: q(2) norm_key_def [symmetric])
    then have "v \<noteq> 0" using that(1) mem(1,2) [OF m] r(1) by (simp add: RadixTree_lookup_def)
    with m have "(q, v) \<in> set (filter (\<lambda>(q, v). v \<noteq> 0) ?es)" unfolding set_filter by blast
    then have "q \<in> set ks" unfolding ks_def set_map by (rule image_eqI [rotated]) simp
    then have "norm_key cs q \<in> norm_key cs ` set ks" by (rule imageI)
    then show ?thesis unfolding nk [OF m] q(2) .
  qed
  moreover have "RadixTree_lookup q t \<noteq> 0 \<and> norm_key cs q \<noteq> []" if "q \<in> set ks" for q
    using that mem nk by (fastforce simp: ks_def)
  ultimately have "norm_key cs ` set ks = {norm_key cs key |key. RadixTree_lookup key t \<noteq> 0 \<and> norm_key cs key \<noteq> []}" by blast
  with 1 2 show ?thesis by blast
qed

theorem RadixTree_iterates_witness:
  "\<exists>t ks. run_ops RadixTree_insert RadixTree_remove [Insert [97, 98] 1, Insert [97, 99] 2] (RadixTree_new True) = Some t \<and>
     RadixTree_values t = Some (map (\<lambda>k. RadixTree_lookup k t) ks) \<and> distinct (map (norm_key True) ks)"
proof -
  let ?run = "run_ops RadixTree_insert RadixTree_remove [Insert [97, 98] 1, Insert [97, 99] 2] (RadixTree_new True)"
  have "case ?run of None \<Rightarrow> False | Some t \<Rightarrow> \<not> Option.is_none (m_pRoot t)" by code_simp
  then obtain t where t: "?run = Some t" "m_pRoot t \<noteq> None" by (cases ?run) (auto simp only: option.case Option.is_none_def)
  from RadixTree_iterates [OF t] t(1) show ?thesis by blast
qed

text \<open>A copy answers every lookup like the original.\<close>

lemma clone_lookup:
  "node_ok cs n \<Longrightarrow> lookup_node q (cloneNode cs n) = lookup_node q n"
proof (induction n arbitrary: q)
  case (RNode k x ch up ncs)
  then have n: "ncs = cs" and ch: "children_ok cs ch" by (simp_all add: node_ok_simp)
  have "lookup_children q (map (cloneNode cs) ch') = lookup_children q ch'" if "set ch' \<subseteq> set ch" for ch' q
    using that
  proof (induction ch')
    case (Cons c ch')
    then have "lookup_node q (cloneNode cs c) = lookup_node q c" "matchKey q (cloneNode cs c) = matchKey q c"
      using RNode.IH [of c q] children_ok_mem [OF ch, of c] by (auto simp: matchKey_def node_ok_simp intro: node.exhaust [of c])
    with Cons show ?case by simp
  qed simp
  then have "lookup_children (drop (length k) q) (map (cloneNode cs) ch) = lookup_children (drop (length k) q) ch" by blast
  then show ?case using n by (cases "match_from cs 0 q k") (simp_all add: lookup_node.simps matchKey_def)
qed

text \<open>A copy, whose nodes have no parents, loses elements from an iteration, and a null pointer is
  dereferenced when an insertion has to split a node or a removal to delete one.\<close>

theorem RadixTree_copy_broken:
  "case run_ops RadixTree_insert RadixTree_remove [Insert [97, 98] 1, Insert [98] 2] (RadixTree_new True) of
     None \<Rightarrow> False
   | Some t \<Rightarrow> RadixTree_values t = Some [1, 2] \<and> RadixTree_values (RadixTree_copy t) = Some [1] \<and>
       RadixTree_insert [97, 99] 3 (RadixTree_copy t) = None \<and> RadixTree_remove [98] (RadixTree_copy t) = None"
  by code_simp

text \<open>The count of the items is not the number of keys: a key that ends at an inner node is not
  counted, and its removal is counted every time it is tried, below zero.\<close>

theorem RadixTree_count_wrong:
  "case run_ops RadixTree_insert RadixTree_remove [Insert [97, 98] 1, Insert [97, 99] 2, Insert [97] 3] (RadixTree_new True) of
     None \<Rightarrow> False
   | Some t \<Rightarrow> RadixTree_values t = Some [3, 2, 1] \<and> m_nItems t = 2 \<and>
       (case run_ops RadixTree_insert RadixTree_remove [Remove [97], Remove [97], Remove [97]] t of
          None \<Rightarrow> False
        | Some t' \<Rightarrow> RadixTree_values t' = Some [2, 1] \<and> m_nItems t' = - 1)"
  by code_simp

text \<open>Erasing at an iterator removes what the fragment of the key at the node names: here another
  element.\<close>

theorem RadixTree_erase_wrong:
  "case run_ops RadixTree_insert RadixTree_remove [Insert [97, 98] 1, Insert [97, 99] 2, Insert [98] 3] (RadixTree_new True) of
     None \<Rightarrow> False
   | Some t \<Rightarrow> RadixTree_values t = Some [2, 1, 3] \<and>
       (case RadixTree_erase [0, 1] t of None \<Rightarrow> False | Some t' \<Rightarrow> RadixTree_values t' = Some [2, 1])"
  by code_simp

text \<open>Assignment takes over the flag of the other tree but builds the nodes with the old one: a tree
  that now ignores case still finds its keys only in the case they were inserted in.\<close>

theorem RadixTree_assign_case:
  "case run_ops RadixTree_insert RadixTree_remove [Insert [97] 1] (RadixTree_new False) of
     None \<Rightarrow> False
   | Some t \<Rightarrow> let u = RadixTree_assign (RadixTree_new True) t in
       RadixTree_lookup [65] t = 1 \<and> \<not> m_bCaseSensitive u \<and> RadixTree_lookup [97] u = 1 \<and> RadixTree_lookup [65] u = 0"
  by code_simp

lemma RadixTree_copy_lookup:
  assumes "tree_ok t"
  shows "RadixTree_lookup key (RadixTree_copy t) = RadixTree_lookup key t"
  using assms clone_lookup [of "m_bCaseSensitive t" "root_of t"]
  by (auto simp: RadixTree_lookup_def RadixTree_copy_def tree_ok_def root_of_def split: option.splits)

end
