(* ===== verification/Thread_Scheduler.thy ===== *)
theory Thread_Scheduler
  imports Semaphore_Sync "HOL-Library.Monad_Syntax"
begin

text \<open>
  The scheduler of one processor: the ready queues (\<open>RoundRobin\<close>,
  \<^verbatim>\<open>kernel/core/process/RoundRobin.cc\<close>), the switch between threads (\<open>PerProcessorScheduler\<close>,
  \<^verbatim>\<open>kernel/core/process/PerProcessorScheduler.cc\<close>) and the changes of a thread's status
  (\<^verbatim>\<open>kernel/core/process/Thread.cc\<close>).  The scheduler calls the ready queues through the abstract
  class \<open>SchedulingAlgorithm\<close>, here a record of its methods.  Threads are numbers, null is 0.  The
  operations run with interrupts disabled, so each is one step; \<open>None\<close> is a panic or a failed assertion.
  Switching stacks, address spaces and locks between processors is not modelled.
\<close>

section \<open>The ready queues\<close>

definition MAX_PRIORITIES :: nat where "MAX_PRIORITIES = 8"

definition DEFAULT_PRIORITY :: nat where "DEFAULT_PRIORITY = 1"

type_synonym ready_queues = "thread list list"

definition RoundRobin_new :: ready_queues where
  "RoundRobin_new = replicate MAX_PRIORITIES []"

definition RoundRobin_addThread :: "thread \<Rightarrow> ready_queues \<Rightarrow> ready_queues" where
  "RoundRobin_addThread t qs = qs"

fun RoundRobin_removeThread :: "thread \<Rightarrow> ready_queues \<Rightarrow> ready_queues" where
  "RoundRobin_removeThread t [] = []"
| "RoundRobin_removeThread t (q # qs) =
     (case take_first (\<lambda>x. x = t) q of
        Some (_, q') \<Rightarrow> q' # qs
      | None \<Rightarrow> q # RoundRobin_removeThread t qs)"

text \<open>The thread that is current is taken off its queue and passed over, and so is the rest of that
  queue: the loop goes on with the next priority.\<close>

fun RoundRobin_getNext :: "thread \<Rightarrow> ready_queues \<Rightarrow> thread \<times> ready_queues" where
  "RoundRobin_getNext cur [] = (0, [])"
| "RoundRobin_getNext cur (q # qs) =
     (case q of
        [] \<Rightarrow> (let (t, qs') = RoundRobin_getNext cur qs in (t, [] # qs'))
      | t # q' \<Rightarrow>
          if t = cur \<or> t = 0 then (let (u, qs') = RoundRobin_getNext cur qs in (u, q' # qs'))
          else (t, q' # qs))"

definition RoundRobin_threadStatusChanged :: "thread \<Rightarrow> ThreadStatus \<Rightarrow> nat \<Rightarrow> ready_queues \<Rightarrow> ready_queues option" where
  "RoundRobin_threadStatusChanged t s priority qs =
     (if s = Ready
      then (if \<not> priority < MAX_PRIORITIES then None
            else if t \<in> set (qs ! priority) then Some qs
            else Some (qs[priority := qs ! priority @ [t]]))
      else Some qs)"

text \<open>The methods of \<open>SchedulingAlgorithm\<close>; the status and the priority are read from the thread.\<close>

record 'q SchedulingAlgorithm =
  alg_addThread :: "thread \<Rightarrow> 'q \<Rightarrow> 'q"
  alg_removeThread :: "thread \<Rightarrow> 'q \<Rightarrow> 'q"
  alg_getNext :: "thread \<Rightarrow> 'q \<Rightarrow> thread \<times> 'q"
  alg_threadStatusChanged :: "thread \<Rightarrow> ThreadStatus \<Rightarrow> nat \<Rightarrow> 'q \<Rightarrow> 'q option"

definition RoundRobin :: "ready_queues SchedulingAlgorithm" where
  "RoundRobin =
     \<lparr>alg_addThread = RoundRobin_addThread, alg_removeThread = RoundRobin_removeThread,
      alg_getNext = RoundRobin_getNext, alg_threadStatusChanged = RoundRobin_threadStatusChanged\<rparr>"

section \<open>Threads and the processor\<close>

text \<open>\<open>t_alive\<close> holds from the constructor of a thread to its destructor.\<close>

record 'q processor =
  m_queues :: 'q
  m_pCurrentThread :: thread
  m_pIdleThread :: thread
  t_alive :: "thread \<Rightarrow> bool"
  t_status :: "thread \<Rightarrow> ThreadStatus"
  t_priority :: "thread \<Rightarrow> nat"
  t_pWaiter :: "thread \<Rightarrow> thread"
  t_bDetached :: "thread \<Rightarrow> bool"

text \<open>\<open>Thread::setStatus\<close>; that the parent is told of a zombie is not modelled.\<close>

definition setStatus :: "'q SchedulingAlgorithm \<Rightarrow> thread \<Rightarrow> ThreadStatus \<Rightarrow> 'q processor \<Rightarrow> 'q processor option" where
  "setStatus A t s p = do {
     q \<leftarrow> alg_threadStatusChanged A t s (t_priority p t) (m_queues p);
     Some (p\<lparr>t_status := (t_status p)(t := s), m_queues := q\<rparr>) }"

definition setPriority :: "thread \<Rightarrow> nat \<Rightarrow> 'q processor \<Rightarrow> 'q processor" where
  "setPriority t n p = p\<lparr>t_priority := (t_priority p)(t := n)\<rparr>"

text \<open>The part of \<open>schedule\<close> where neither thread can be moved.\<close>

definition switch_to :: "'q SchedulingAlgorithm \<Rightarrow> ThreadStatus \<Rightarrow> thread \<Rightarrow> 'q processor \<Rightarrow> 'q processor option" where
  "switch_to A nextStatus t p = do {
     p \<leftarrow> (if m_pCurrentThread p \<noteq> m_pIdleThread p then setStatus A (m_pCurrentThread p) nextStatus p else Some p);
     p \<leftarrow> setStatus A t Running p;
     Some (p\<lparr>m_pCurrentThread := t\<rparr>) }"

definition schedule :: "'q SchedulingAlgorithm \<Rightarrow> ThreadStatus \<Rightarrow> thread \<Rightarrow> 'q processor \<Rightarrow> 'q processor option" where
  "schedule A nextStatus pNewThread p =
     (if pNewThread = 0
      then (let (t, q) = alg_getNext A (m_pCurrentThread p) (m_queues p); p = p\<lparr>m_queues := q\<rparr>
            in if t = 0
               then (if nextStatus \<noteq> Ready
                     then (if m_pIdleThread p = 0 then None else switch_to A nextStatus (m_pIdleThread p) p)
                     else Some p)
               else switch_to A nextStatus t p)
      else switch_to A nextStatus pNewThread p)"

text \<open>The timer interrupt and \<open>Scheduler::yield\<close>, and \<open>sleep\<close> when there is no event to handle.\<close>

definition tick :: "'q SchedulingAlgorithm \<Rightarrow> 'q processor \<Rightarrow> 'q processor option" where
  "tick A p = schedule A Ready 0 p"

definition sleep :: "'q SchedulingAlgorithm \<Rightarrow> 'q processor \<Rightarrow> 'q processor option" where
  "sleep A p = schedule A Sleeping 0 p"

text \<open>\<open>addThread\<close>: the new thread runs at once.\<close>

definition addThread :: "'q SchedulingAlgorithm \<Rightarrow> thread \<Rightarrow> 'q processor \<Rightarrow> 'q processor option" where
  "addThread A t p = do {
     let p = p\<lparr>t_alive := (t_alive p)(t := True), t_priority := (t_priority p)(t := DEFAULT_PRIORITY),
               t_pWaiter := (t_pWaiter p)(t := 0), t_bDetached := (t_bDetached p)(t := False),
               m_queues := alg_addThread A t (m_queues p)\<rparr>;
     switch_to A Ready t p }"

section \<open>The end of a thread\<close>

text \<open>\<open>Thread::shutdown\<close> without the pending requests.\<close>

definition shutdown :: "'q SchedulingAlgorithm \<Rightarrow> thread \<Rightarrow> 'q processor \<Rightarrow> 'q processor option" where
  "shutdown A t p = do {
     p \<leftarrow> (if t_pWaiter p t \<noteq> 0 then setStatus A (t_pWaiter p t) Ready p else Some p);
     Some (if t_bDetached p t then p else p\<lparr>t_status := (t_status p)(t := AwaitingJoin)\<rparr>) }"

definition delete_thread :: "'q SchedulingAlgorithm \<Rightarrow> thread \<Rightarrow> 'q processor \<Rightarrow> 'q processor" where
  "delete_thread A t p = p\<lparr>m_queues := alg_removeThread A t (m_queues p), t_alive := (t_alive p)(t := False)\<rparr>"

definition killCurrentThread :: "'q SchedulingAlgorithm \<Rightarrow> 'q processor \<Rightarrow> 'q processor option" where
  "killCurrentThread A p = do {
     let t = m_pCurrentThread p;
     p \<leftarrow> shutdown A t p;
     let (n, q) = alg_getNext A t (m_queues p);
     let p = p\<lparr>m_queues := q\<rparr>;
     (if n = 0 \<and> m_pIdleThread p = 0 then None
      else do {
        let n = (if n = 0 then m_pIdleThread p else n);
        p \<leftarrow> setStatus A n Running p;
        let p = p\<lparr>m_pCurrentThread := n\<rparr>;
        Some (if t_bDetached p t then delete_thread A t p else p) }) }"

text \<open>\<open>Thread::join\<close> up to the point where the caller goes to sleep: the result says whether it may go
  on at once.\<close>

datatype join_result = Refused | Waits | Joined

definition join :: "'q SchedulingAlgorithm \<Rightarrow> thread \<Rightarrow> 'q processor \<Rightarrow> join_result \<times> 'q processor" where
  "join A t p =
     (if t_bDetached p t then (Refused, p)
      else if t_status p t \<noteq> AwaitingJoin
      then (if t_pWaiter p t \<noteq> 0 then (Refused, p)
            else (Waits, p\<lparr>t_pWaiter := (t_pWaiter p)(t := m_pCurrentThread p)\<rparr>))
      else (Joined, delete_thread A t p))"

definition detach :: "'q SchedulingAlgorithm \<Rightarrow> thread \<Rightarrow> 'q processor \<Rightarrow> bool \<times> 'q processor" where
  "detach A t p =
     (if t_status p t = AwaitingJoin then (let (r, p) = join A t p in (r = Joined, p))
      else if t_pWaiter p t \<noteq> 0 then (False, p)
      else (True, p\<lparr>t_bDetached := (t_bDetached p)(t := True)\<rparr>))"

text \<open>What the destructor of a process does to a thread of it that is not the current one, and what the
  delivery of a signal does to the thread it is sent to, when that is in another process.\<close>

definition terminate_child :: "'q SchedulingAlgorithm \<Rightarrow> thread \<Rightarrow> 'q processor \<Rightarrow> 'q processor option" where
  "terminate_child A t p = do {
     p \<leftarrow> setStatus A t Zombie p;
     p \<leftarrow> shutdown A t p;
     Some (if t_bDetached p t then delete_thread A t p else p) }"

definition wake_for_event :: "'q SchedulingAlgorithm \<Rightarrow> thread \<Rightarrow> 'q processor \<Rightarrow> 'q processor option" where
  "wake_for_event A t p = (if t_status p t = Sleeping then setStatus A t Ready p else Some p)"

definition kill_switch :: "'q SchedulingAlgorithm \<Rightarrow> thread \<Rightarrow> 'q processor \<Rightarrow> 'q processor option" where
  "kill_switch A t p = do { p \<leftarrow> wake_for_event A t p; schedule A Ready t p }"

end
