(* ===== verification/Scheduler_Properties.thy ===== *)
theory Scheduler_Properties
  imports Thread_Scheduler
begin

text \<open>What the scheduler relies on from a scheduling algorithm, as a locale; the invariant of a
  processor under it; the ready queues as an instance; and the order in which threads run.\<close>

section \<open>The contract of a scheduling algorithm\<close>

locale scheduling_algorithm =
  fixes A :: "'q SchedulingAlgorithm"
    and queues_ok :: "(thread \<Rightarrow> nat) \<Rightarrow> 'q \<Rightarrow> bool"
    and ready :: "'q \<Rightarrow> thread set"
  assumes next_none: "queues_ok pr q \<Longrightarrow> ready q = {} \<Longrightarrow> alg_getNext A c q = (0, q)"
    and next_some: "queues_ok pr q \<Longrightarrow> c \<notin> ready q \<Longrightarrow> ready q \<noteq> {} \<Longrightarrow>
      \<exists>t q'. alg_getNext A c q = (t, q') \<and> t \<in> ready q \<and> ready q' = ready q - {t} \<and> queues_ok pr q'"
    and not_null: "queues_ok pr q \<Longrightarrow> 0 \<notin> ready q"
    and changed: "queues_ok pr q \<Longrightarrow> t \<noteq> 0 \<Longrightarrow> pr t < MAX_PRIORITIES \<Longrightarrow>
      \<exists>q'. alg_threadStatusChanged A t s (pr t) q = Some q' \<and> queues_ok pr q' \<and>
        ready q' = (if s = Ready then insert t (ready q) else ready q)"
    and remove: "queues_ok pr q \<Longrightarrow> queues_ok pr (alg_removeThread A t q) \<and> ready (alg_removeThread A t q) = ready q - {t}"
    and add: "queues_ok pr q \<Longrightarrow> alg_addThread A t q = q"
    and priority_irrelevant: "queues_ok pr q \<Longrightarrow> t \<notin> ready q \<Longrightarrow> queues_ok (pr(t := n)) q"
begin

text \<open>The queues hold exactly the ready threads; the current thread runs, and nobody else but the
  idle thread is marked as running.\<close>

definition processor_ok :: "'q processor \<Rightarrow> bool" where
  "processor_ok p \<longleftrightarrow>
     queues_ok (t_priority p) (m_queues p) \<and> ready (m_queues p) = {t. t_alive p t \<and> t_status p t = Ready} \<and>
     t_alive p (m_pCurrentThread p) \<and> t_status p (m_pCurrentThread p) = Running \<and> m_pCurrentThread p \<noteq> 0 \<and> \<not> t_alive p 0 \<and>
     (\<forall>t. t_priority p t < MAX_PRIORITIES) \<and>
     (\<forall>t. t_alive p t \<and> t_status p t = Running \<longrightarrow> t = m_pCurrentThread p \<or> t = m_pIdleThread p) \<and>
     (m_pIdleThread p \<noteq> 0 \<longrightarrow> t_alive p (m_pIdleThread p) \<and> t_status p (m_pIdleThread p) = Running)"

lemma set_status:
  assumes "queues_ok (t_priority p) (m_queues p)" "t \<noteq> 0" "t_priority p t < MAX_PRIORITIES"
  shows "\<exists>q. setStatus A t s p = Some (p\<lparr>t_status := (t_status p)(t := s), m_queues := q\<rparr>) \<and> queues_ok (t_priority p) q \<and>
    ready q = (if s = Ready then insert t (ready (m_queues p)) else ready (m_queues p))"
  using changed [OF assms, of s] by (auto simp: setStatus_def)

lemma switch_ok:
  assumes ok: "queues_ok (t_priority p) (m_queues p)" and pr: "\<forall>t. t_priority p t < MAX_PRIORITIES"
    and c: "m_pCurrentThread p \<noteq> 0" "\<not> t_alive p 0" "t_alive p (m_pCurrentThread p)" "t_status p (m_pCurrentThread p) = Running"
    and idle: "m_pIdleThread p \<noteq> 0 \<longrightarrow> t_alive p (m_pIdleThread p) \<and> t_status p (m_pIdleThread p) = Running"
    and run: "\<forall>u. t_alive p u \<and> t_status p u = Running \<longrightarrow> u = m_pCurrentThread p \<or> u = m_pIdleThread p \<or> u = t"
    and t: "t \<noteq> 0" "t_alive p t"
    and rd: "ready (m_queues p) = {u. t_alive p u \<and> t_status p u = Ready} - {t}"
    and s: "s \<noteq> Running" and different: "t \<noteq> m_pCurrentThread p \<or> t = m_pIdleThread p"
  shows "\<exists>p'. switch_to A s t p = Some p' \<and> processor_ok p' \<and> m_pCurrentThread p' = t"
proof (cases "m_pCurrentThread p = m_pIdleThread p")
  case True
  from set_status [of p t Running] ok t(1) pr obtain q where
    "setStatus A t Running p = Some (p\<lparr>t_status := (t_status p)(t := Running), m_queues := q\<rparr>)"
    "queues_ok (t_priority p) q" "ready q = ready (m_queues p)" by auto
  with True c t pr run rd idle show ?thesis by (auto simp: switch_to_def processor_ok_def)
next
  case False
  from set_status [of p "m_pCurrentThread p" s] ok c(1) pr obtain q where
    q: "setStatus A (m_pCurrentThread p) s p = Some (p\<lparr>t_status := (t_status p)(m_pCurrentThread p := s), m_queues := q\<rparr>)"
    "queues_ok (t_priority p) q" "ready q = (if s = Ready then insert (m_pCurrentThread p) (ready (m_queues p)) else ready (m_queues p))" by auto
  let ?p1 = "p\<lparr>t_status := (t_status p)(m_pCurrentThread p := s), m_queues := q\<rparr>"
  from set_status [of ?p1 t Running] q(2) t(1) pr obtain q' where
    "setStatus A t Running ?p1 = Some (?p1\<lparr>t_status := (t_status ?p1)(t := Running), m_queues := q'\<rparr>)"
    "queues_ok (t_priority p) q'" "ready q' = ready q" by auto
  with q False c t pr run rd idle s different show ?thesis by (auto simp: switch_to_def processor_ok_def)
qed

lemma schedule_ok:
  assumes ok: "processor_ok p" and s: "s \<noteq> Running" and "s = Ready \<or> m_pIdleThread p \<noteq> 0 \<or> ready (m_queues p) \<noteq> {}"
  shows "\<exists>p'. schedule A s 0 p = Some p' \<and> processor_ok p'"
proof (cases "ready (m_queues p) = {}")
  case True
  with ok have n: "alg_getNext A (m_pCurrentThread p) (m_queues p) = (0, m_queues p)" by (auto simp: processor_ok_def intro: next_none)
  show ?thesis
  proof (cases "s = Ready")
    case True
    with n ok show ?thesis by (simp add: schedule_def)
  next
    case False
    with assms(3) True have "m_pIdleThread p \<noteq> 0" by simp
    then have "\<exists>p'. switch_to A s (m_pIdleThread p) p = Some p' \<and> processor_ok p' \<and> m_pCurrentThread p' = m_pIdleThread p"
      by (intro switch_ok) (use ok s True in \<open>auto simp: processor_ok_def\<close>)
    then show ?thesis using n False \<open>m_pIdleThread p \<noteq> 0\<close> by (auto simp: schedule_def)
  qed
next
  case False
  have c: "m_pCurrentThread p \<notin> ready (m_queues p)" using ok by (auto simp: processor_ok_def)
  have okq: "queues_ok (t_priority p) (m_queues p)" using ok by (simp add: processor_ok_def)
  from next_some [OF okq c False] obtain t q where n: "alg_getNext A (m_pCurrentThread p) (m_queues p) = (t, q)"
    "t \<in> ready (m_queues p)" "ready q = ready (m_queues p) - {t}" "queues_ok (t_priority p) q" by auto
  have t: "t \<noteq> 0" "t \<noteq> m_pCurrentThread p" using n(2) c not_null [OF okq] by (metis, metis)
  have "\<exists>p'. switch_to A s t (p\<lparr>m_queues := q\<rparr>) = Some p' \<and> processor_ok p' \<and> m_pCurrentThread p' = t"
    by (rule switch_ok) (use n ok s t in \<open>auto simp: processor_ok_def\<close>)
  then show ?thesis using n(1) t(1) by (auto simp: schedule_def)
qed

lemma wake_ok:
  assumes "processor_ok p" "t_alive p t" "t_status p t \<noteq> Running"
  shows "\<exists>p'. setStatus A t Ready p = Some p' \<and> processor_ok p'"
proof -
  have "t \<noteq> 0" using assms by (metis processor_ok_def)
  with set_status [of p t Ready] assms obtain q where
    "setStatus A t Ready p = Some (p\<lparr>t_status := (t_status p)(t := Ready), m_queues := q\<rparr>)"
    "queues_ok (t_priority p) q" "ready q = insert t (ready (m_queues p))" by (auto simp: processor_ok_def)
  with assms show ?thesis by (auto simp: processor_ok_def)
qed

lemma addThread_ok:
  assumes ok: "processor_ok p" and t: "t \<noteq> 0" "\<not> t_alive p t"
  shows "\<exists>p'. addThread A t p = Some p' \<and> processor_ok p' \<and> m_pCurrentThread p' = t"
proof -
  have okq: "queues_ok (t_priority p) (m_queues p)" using ok by (simp add: processor_ok_def)
  let ?p = "p\<lparr>t_alive := (t_alive p)(t := True), t_priority := (t_priority p)(t := DEFAULT_PRIORITY),
               t_pWaiter := (t_pWaiter p)(t := 0), t_bDetached := (t_bDetached p)(t := False)\<rparr>"
  have "t \<notin> ready (m_queues p)" using ok t(2) by (auto simp: processor_ok_def)
  then have q: "queues_ok (t_priority ?p) (m_queues ?p)" using priority_irrelevant [OF okq] by simp
  have "\<exists>p'. switch_to A Ready t ?p = Some p' \<and> processor_ok p' \<and> m_pCurrentThread p' = t"
    by (rule switch_ok [OF q]) (use ok t in \<open>auto simp: processor_ok_def MAX_PRIORITIES_def DEFAULT_PRIORITY_def\<close>)
  then show ?thesis by (simp add: addThread_def add [OF okq] Let_def)
qed

text \<open>A thread that waits for thread \<open>t\<close> to end sleeps.\<close>

definition waiter_sleeps :: "thread \<Rightarrow> 'q processor \<Rightarrow> bool" where
  "waiter_sleeps t p \<longleftrightarrow> (let w = t_pWaiter p t in w = 0 \<or> w \<noteq> t \<and> t_alive p w \<and> t_status p w = Sleeping)"

lemma after_kill:
  assumes ok: "processor_ok p" and m: "m \<noteq> 0" "m \<noteq> m_pCurrentThread p" "t_alive p m" and c: "m_pCurrentThread p \<noteq> m_pIdleThread p"
    and q: "queues_ok (t_priority p) q" "ready q = ready (m_queues p) - {m}"
  shows "processor_ok (p\<lparr>t_status := (t_status p)(m_pCurrentThread p := AwaitingJoin, m := Running), m_queues := q, m_pCurrentThread := m\<rparr>)"
    and "processor_ok (delete_thread A (m_pCurrentThread p) (p\<lparr>t_status := (t_status p)(m := Running), m_queues := q, m_pCurrentThread := m\<rparr>))"
proof -
  have rd: "ready (m_queues p) = {t. t_alive p t \<and> t_status p t = Ready}" and cur: "t_status p (m_pCurrentThread p) = Running"
    using ok by (simp_all add: processor_ok_def)
  show "processor_ok (p\<lparr>t_status := (t_status p)(m_pCurrentThread p := AwaitingJoin, m := Running), m_queues := q, m_pCurrentThread := m\<rparr>)"
    using ok m c q(1) cur unfolding processor_ok_def by (auto simp: q(2) rd)
  have r: "queues_ok (t_priority p) (alg_removeThread A (m_pCurrentThread p) q)"
    "ready (alg_removeThread A (m_pCurrentThread p) q) = ready q - {m_pCurrentThread p}"
    using remove [OF q(1)] by auto
  show "processor_ok (delete_thread A (m_pCurrentThread p) (p\<lparr>t_status := (t_status p)(m := Running), m_queues := q, m_pCurrentThread := m\<rparr>))"
    using ok m c r(1) cur unfolding processor_ok_def delete_thread_def by (auto simp: r(2) q(2) rd)
qed

lemma kill_next:
  assumes "queues_ok pr q" "c \<notin> ready q" "i \<noteq> 0 \<or> ready q \<noteq> {}"
  shows "\<exists>n q' m. alg_getNext A c q = (n, q') \<and> m = (if n = 0 then i else n) \<and> m \<noteq> 0 \<and> (m = i \<or> m \<in> ready q) \<and>
    queues_ok pr q' \<and> ready q' = ready q - {m}"
proof (cases "ready q = {}")
  case True
  then show ?thesis using next_none [OF assms(1) True, of c] assms by simp
next
  case False
  from next_some [OF assms(1,2) False] not_null [OF assms(1)] show ?thesis by (metis (full_types))
qed

lemma kill_ok:
  assumes ok: "processor_ok p" and w: "waiter_sleeps (m_pCurrentThread p) p" and busy: "m_pCurrentThread p \<noteq> m_pIdleThread p"
    and nxt: "m_pIdleThread p \<noteq> 0 \<or> ready (m_queues p) \<noteq> {} \<or> t_pWaiter p (m_pCurrentThread p) \<noteq> 0"
  shows "\<exists>p'. killCurrentThread A p = Some p' \<and> processor_ok p'"
proof -
  let ?c = "m_pCurrentThread p" and ?w = "t_pWaiter p (m_pCurrentThread p)"
  have "\<exists>p1. (if ?w \<noteq> 0 then setStatus A ?w Ready p else Some p) = Some p1 \<and> processor_ok p1 \<and>
      m_pCurrentThread p1 = ?c \<and> m_pIdleThread p1 = m_pIdleThread p \<and> t_bDetached p1 = t_bDetached p \<and> ready (m_queues p) \<subseteq> ready (m_queues p1) \<and>
      (?w \<noteq> 0 \<longrightarrow> ready (m_queues p1) \<noteq> {})"
  proof (cases "?w = 0")
    case False
    then obtain q where "setStatus A ?w Ready p = Some (p\<lparr>t_status := (t_status p)(?w := Ready), m_queues := q\<rparr>)"
      "ready q = insert ?w (ready (m_queues p))" using set_status [of p ?w Ready] ok by (auto simp: processor_ok_def)
    with wake_ok [OF ok, of ?w] w False show ?thesis by (auto simp: waiter_sleeps_def Let_def)
  qed (use ok in simp)
  then obtain p1 where p1: "(if ?w \<noteq> 0 then setStatus A ?w Ready p else Some p) = Some p1" "processor_ok p1"
    "m_pCurrentThread p1 = ?c" "m_pIdleThread p1 = m_pIdleThread p" "t_bDetached p1 = t_bDetached p"
    "ready (m_queues p) \<subseteq> ready (m_queues p1)" "?w \<noteq> 0 \<longrightarrow> ready (m_queues p1) \<noteq> {}" by blast
  have okq: "queues_ok (t_priority p1) (m_queues p1)" and rd: "ready (m_queues p1) = {t. t_alive p1 t \<and> t_status p1 t = Ready}"
    and pr: "\<forall>t. t_priority p1 t < MAX_PRIORITIES" and idle: "m_pIdleThread p1 \<noteq> 0 \<longrightarrow> t_alive p1 (m_pIdleThread p1)"
    and run: "t_status p1 (m_pCurrentThread p1) = Running"
    using p1(2) by (simp_all add: processor_ok_def)
  have "?c \<notin> ready (m_queues p1)" "m_pIdleThread p \<noteq> 0 \<or> ready (m_queues p1) \<noteq> {}" using rd run p1(3,6,7) nxt by auto
  from kill_next [OF okq this] obtain n q m where n: "alg_getNext A ?c (m_queues p1) = (n, q)" "m = (if n = 0 then m_pIdleThread p else n)"
    "m \<noteq> 0" "m = m_pIdleThread p \<or> m \<in> ready (m_queues p1)" "queues_ok (t_priority p1) q" "ready q = ready (m_queues p1) - {m}" by blast
  have m: "m \<noteq> m_pCurrentThread p1" "t_alive p1 m" "m_pCurrentThread p1 \<noteq> m_pIdleThread p1"
    using n(3,4) rd run idle p1(3,4) busy by auto
  define p2 where "p2 = (if t_bDetached p ?c then p1 else p1\<lparr>t_status := (t_status p1)(?c := AwaitingJoin)\<rparr>)"
  have sh: "shutdown A ?c p = Some p2" using p1(1,5) by (simp add: shutdown_def p2_def)
  let ?p3 = "p2\<lparr>m_queues := q\<rparr>"
  have f: "t_priority p2 = t_priority p1" "m_queues p2 = m_queues p1" "m_pIdleThread p2 = m_pIdleThread p" "t_bDetached p2 = t_bDetached p"
    by (simp_all add: p2_def p1)
  have "\<exists>q'. setStatus A m Running ?p3 = Some (?p3\<lparr>t_status := (t_status ?p3)(m := Running), m_queues := q'\<rparr>) \<and>
      queues_ok (t_priority p1) q' \<and> ready q' = ready q"
    using set_status [of ?p3 m Running] n(3,5) pr by (simp add: f)
  then obtain q' where q': "setStatus A m Running ?p3 = Some (?p3\<lparr>t_status := (t_status ?p3)(m := Running), m_queues := q'\<rparr>)"
    "queues_ok (t_priority p1) q'" "ready q' = ready (m_queues p1) - {m}" using n(6) by auto
  let ?p4 = "p2\<lparr>t_status := (t_status p2)(m := Running), m_queues := q', m_pCurrentThread := m\<rparr>"
  have "\<not> (n = 0 \<and> m_pIdleThread p = 0)" using n(2,3) by (cases "n = 0") simp_all
  then have "killCurrentThread A p = Some (if t_bDetached p ?c then delete_thread A ?c ?p4 else ?p4)"
    using q'(1) sh n(1,2) by (cases "n = 0") (simp_all add: killCurrentThread_def Let_def f)
  moreover have "processor_ok (if t_bDetached p ?c then delete_thread A ?c ?p4 else ?p4)"
    using after_kill [OF p1(2) n(3) m q'(2,3)] p1(3) by (simp add: p2_def)
  ultimately show ?thesis by blast
qed

lemma delete_ok:
  assumes "processor_ok p" "t_status p t \<noteq> Running"
  shows "processor_ok (delete_thread A t p)"
proof -
  have r: "queues_ok (t_priority p) (alg_removeThread A t (m_queues p))" "ready (alg_removeThread A t (m_queues p)) = ready (m_queues p) - {t}"
    using remove [of "t_priority p" "m_queues p" t] assms(1) by (simp_all add: processor_ok_def)
  then show ?thesis using assms unfolding processor_ok_def delete_thread_def by (auto simp: r(2))
qed

lemma join_ok: "processor_ok p \<Longrightarrow> processor_ok (snd (join A t p))"
  using delete_ok [of p t] by (auto simp: join_def) (simp add: processor_ok_def)

lemma detach_ok: "processor_ok p \<Longrightarrow> processor_ok (snd (detach A t p))"
  using join_ok [of p t] by (auto simp: detach_def Let_def split: prod.splits) (simp add: processor_ok_def)

text \<open>A thread of a process that ends is safe to terminate when it is not in a queue, or leaves it as
  a detached thread does.\<close>

lemma terminate_ok:
  assumes ok: "processor_ok p" and t: "t_alive p t" "t \<noteq> m_pCurrentThread p" "t \<noteq> m_pIdleThread p"
    and w: "waiter_sleeps t p" and q: "t_status p t \<noteq> Ready \<or> t_bDetached p t"
  shows "\<exists>p'. terminate_child A t p = Some p' \<and> processor_ok p'"
proof -
  let ?w = "t_pWaiter p t"
  have okq: "queues_ok (t_priority p) (m_queues p)" and rd: "ready (m_queues p) = {t. t_alive p t \<and> t_status p t = Ready}"
    and pr: "\<forall>t. t_priority p t < MAX_PRIORITIES" and t0: "t \<noteq> 0"
    using ok t(1) by (auto simp: processor_ok_def)
  obtain q1 where q1: "setStatus A t Zombie p = Some (p\<lparr>t_status := (t_status p)(t := Zombie), m_queues := q1\<rparr>)"
    "queues_ok (t_priority p) q1" "ready q1 = ready (m_queues p)"
    using set_status [OF okq t0, of Zombie] pr by auto
  let ?p1 = "p\<lparr>t_status := (t_status p)(t := Zombie), m_queues := q1\<rparr>"
  obtain q2 st2 where q2: "(if ?w \<noteq> 0 then setStatus A ?w Ready ?p1 else Some ?p1) = Some (?p1\<lparr>t_status := st2, m_queues := q2\<rparr>)"
    "queues_ok (t_priority p) q2" "ready q2 = (if ?w \<noteq> 0 then insert ?w (ready q1) else ready q1)"
    "st2 = (if ?w \<noteq> 0 then (t_status ?p1)(?w := Ready) else t_status ?p1)"
    using set_status [of ?p1 ?w Ready] q1(2) pr by (cases "?w = 0") auto
  let ?p2 = "?p1\<lparr>t_status := st2, m_queues := q2\<rparr>"
  have sh: "shutdown A t ?p1 = Some (if t_bDetached p t then ?p2 else ?p2\<lparr>t_status := st2(t := AwaitingJoin)\<rparr>)"
    using q2(1) by (cases "?w = 0") (auto simp: shutdown_def)
  have ww: "?w \<noteq> 0 \<Longrightarrow> t_alive p ?w \<and> t_status p ?w = Sleeping \<and> ?w \<noteq> t"
    using w by (auto simp: waiter_sleeps_def Let_def)
  have r: "queues_ok (t_priority p) (alg_removeThread A t q2)" "ready (alg_removeThread A t q2) = ready q2 - {t}"
    using remove [OF q2(2)] by auto
  show ?thesis
  proof (cases "t_bDetached p t")
    case True
    then have "terminate_child A t p = Some (delete_thread A t ?p2)" using q1(1) sh by (simp add: terminate_child_def)
    moreover have "processor_ok (delete_thread A t ?p2)"
      using ok t ww r(1) unfolding processor_ok_def delete_thread_def
      by (cases "?w = 0") (auto simp: r(2) q2(3,4) q1(3) rd)
    ultimately show ?thesis by blast
  next
    case False
    then have "terminate_child A t p = Some (?p2\<lparr>t_status := st2(t := AwaitingJoin)\<rparr>)" using q1(1) sh by (simp add: terminate_child_def)
    moreover have "processor_ok (?p2\<lparr>t_status := st2(t := AwaitingJoin)\<rparr>)"
      using ok t ww q2(2) False q unfolding processor_ok_def
      by (cases "?w = 0") (auto simp: q2(3,4) q1(3) rd)
    ultimately show ?thesis by blast
  qed
qed

lemma kill_switch_ok:
  assumes ok: "processor_ok p" and t: "t_alive p t" "t_status p t \<notin> {Running, Ready, Sleeping}"
  shows "\<exists>p'. kill_switch A t p = Some p' \<and> processor_ok p'"
proof -
  have t0: "t \<noteq> 0" using ok t(1) by (auto simp: processor_ok_def)
  have "\<exists>p'. switch_to A Ready t p = Some p' \<and> processor_ok p' \<and> m_pCurrentThread p' = t"
    by (rule switch_ok) (use ok t t0 in \<open>auto simp: processor_ok_def\<close>)
  then show ?thesis using t t0 by (auto simp: kill_switch_def wake_for_event_def schedule_def)
qed

lemma kill_panics:
  assumes "processor_ok p" "m_pIdleThread p = 0" "ready (m_queues p) = {}" "t_pWaiter p (m_pCurrentThread p) = 0"
  shows "killCurrentThread A p = None"
  using assms next_none [of "t_priority p" "m_queues p" "m_pCurrentThread p"]
  by (simp add: killCurrentThread_def shutdown_def processor_ok_def Let_def)

end

section \<open>The ready queues keep the contract\<close>

fun queues_from :: "(thread \<Rightarrow> nat) \<Rightarrow> nat \<Rightarrow> ready_queues \<Rightarrow> bool" where
  "queues_from pr i [] \<longleftrightarrow> True"
| "queues_from pr i (q # qs) \<longleftrightarrow> distinct q \<and> (\<forall>t \<in> set q. t \<noteq> 0 \<and> pr t = i) \<and> queues_from pr (Suc i) qs"

definition ready_queues_ok :: "(thread \<Rightarrow> nat) \<Rightarrow> ready_queues \<Rightarrow> bool" where
  "ready_queues_ok pr qs \<longleftrightarrow> length qs = MAX_PRIORITIES \<and> queues_from pr 0 qs"

definition ready_threads :: "ready_queues \<Rightarrow> thread set" where
  "ready_threads qs = \<Union> (set ` set qs)"

lemma ready_threads_simps [simp]:
  "ready_threads [] = {}" "ready_threads (q # qs) = set q \<union> ready_threads qs"
  by (simp_all add: ready_threads_def)

lemma getNext_none: "ready_threads qs = {} \<Longrightarrow> RoundRobin_getNext c qs = (0, qs)"
  by (induction c qs rule: RoundRobin_getNext.induct) (auto split: list.splits)

lemma queues_from_prio: "queues_from pr i qs \<Longrightarrow> t \<in> ready_threads qs \<Longrightarrow> i \<le> pr t \<and> t \<noteq> 0"
  by (induction pr i qs rule: queues_from.induct) fastforce+

lemma getNext_some:
  "queues_from pr i qs \<Longrightarrow> c \<notin> ready_threads qs \<Longrightarrow> ready_threads qs \<noteq> {} \<Longrightarrow>
     \<exists>t qs'. RoundRobin_getNext c qs = (t, qs') \<and> t \<in> ready_threads qs \<and> ready_threads qs' = ready_threads qs - {t} \<and>
       queues_from pr i qs' \<and> length qs' = length qs \<and> (\<forall>u \<in> ready_threads qs. pr t \<le> pr u)"
proof (induction c qs arbitrary: i rule: RoundRobin_getNext.induct)
  case (2 c q qs)
  show ?case
  proof (cases q)
    case Nil
    with "2.IH"(1) [OF Nil, of "Suc i"] "2.prems" show ?thesis by auto
  next
    case (Cons t q')
    have t: "t \<noteq> c" "t \<noteq> 0" "t \<notin> set q'" "pr t = i" using "2.prems" Cons by auto
    have "t \<notin> ready_threads qs" using queues_from_prio [of pr "Suc i" qs t] "2.prems"(1) t(4) by auto
    moreover have "\<forall>u \<in> ready_threads (q # qs). pr t \<le> pr u" using queues_from_prio [OF "2.prems"(1)] t(4) by blast
    ultimately show ?thesis using Cons t "2.prems"(1) by auto
  qed
qed simp

lemma removeThread_absent: "t \<notin> ready_threads qs \<Longrightarrow> RoundRobin_removeThread t qs = qs"
proof (induction t qs rule: RoundRobin_removeThread.induct)
  case (2 t q qs)
  then have "take_first (\<lambda>x. x = t) q = None" by (auto simp: take_first_None)
  with 2 show ?case by simp
qed simp

lemma removeThread_ok:
  "queues_from pr i qs \<Longrightarrow> queues_from pr i (RoundRobin_removeThread t qs) \<and>
     ready_threads (RoundRobin_removeThread t qs) = ready_threads qs - {t} \<and> length (RoundRobin_removeThread t qs) = length qs"
proof (induction t qs arbitrary: i rule: RoundRobin_removeThread.induct)
  case (2 t q qs)
  show ?case
  proof (cases "take_first (\<lambda>x. x = t) q")
    case None
    then have "RoundRobin_removeThread t (q # qs) = q # RoundRobin_removeThread t qs" "t \<notin> set q"
      by (simp) (use None in \<open>auto simp: take_first_None\<close>)
    with "2.IH" [OF None, of "Suc i"] "2.prems" show ?thesis by auto
  next
    case (Some r)
    then obtain q' where q': "take_first (\<lambda>x. x = t) q = Some (t, q')"
      by (cases r) (auto elim: take_first_SomeE)
    then obtain us vs where uv: "q = us @ t # vs" "q' = us @ vs" by (auto elim: take_first_SomeE)
    have "t \<notin> ready_threads qs" using queues_from_prio [of pr "Suc i" qs t] "2.prems" uv(1) by auto
    with uv q' "2.prems" show ?thesis by auto
  qed
qed simp

lemma queues_from_update:
  "queues_from pr i qs \<Longrightarrow> n < length qs \<Longrightarrow> t \<notin> set (qs ! n) \<Longrightarrow> t \<noteq> 0 \<Longrightarrow> pr t = i + n \<Longrightarrow>
     queues_from pr i (qs[n := qs ! n @ [t]]) \<and> ready_threads (qs[n := qs ! n @ [t]]) = insert t (ready_threads qs)"
proof (induction pr i qs arbitrary: n rule: queues_from.induct)
  case (2 pr i q qs)
  then show ?case by (cases n) auto
qed simp

lemma queues_from_priority: "queues_from pr i qs \<Longrightarrow> t \<notin> ready_threads qs \<Longrightarrow> queues_from (pr(t := n)) i qs"
  by (induction pr i qs rule: queues_from.induct) auto

interpretation rr: scheduling_algorithm RoundRobin ready_queues_ok ready_threads
proof unfold_locales
  fix pr q c assume "ready_queues_ok pr q" "ready_threads q = {}"
  then show "alg_getNext RoundRobin c q = (0, q)" by (simp add: RoundRobin_def getNext_none)
next
  fix pr q c assume "ready_queues_ok pr q" "c \<notin> ready_threads q" "ready_threads q \<noteq> {}"
  then show "\<exists>t q'. alg_getNext RoundRobin c q = (t, q') \<and> t \<in> ready_threads q \<and> ready_threads q' = ready_threads q - {t} \<and> ready_queues_ok pr q'"
    using getNext_some [of pr 0 q c] by (auto simp: RoundRobin_def ready_queues_ok_def)
next
  fix pr q assume "ready_queues_ok pr q"
  then show "0 \<notin> ready_threads q" using queues_from_prio [of pr 0 q 0] by (auto simp: ready_queues_ok_def)
next
  fix pr q and t :: thread and s assume a: "ready_queues_ok pr q" "t \<noteq> 0" "pr t < MAX_PRIORITIES"
  then have "t \<in> set (q ! pr t) \<Longrightarrow> t \<in> ready_threads q" by (auto simp: ready_threads_def ready_queues_ok_def)
  with a queues_from_update [of pr 0 q "pr t" t]
  show "\<exists>q'. alg_threadStatusChanged RoundRobin t s (pr t) q = Some q' \<and> ready_queues_ok pr q' \<and>
      ready_threads q' = (if s = Ready then insert t (ready_threads q) else ready_threads q)"
    by (auto simp: RoundRobin_def RoundRobin_threadStatusChanged_def ready_queues_ok_def)
next
  fix pr q t assume "ready_queues_ok pr q"
  then show "ready_queues_ok pr (alg_removeThread RoundRobin t q) \<and> ready_threads (alg_removeThread RoundRobin t q) = ready_threads q - {t}"
    using removeThread_ok [of pr 0 q t] by (simp add: RoundRobin_def ready_queues_ok_def)
next
  fix pr q t assume "ready_queues_ok pr q"
  then show "alg_addThread RoundRobin t q = q" by (simp add: RoundRobin_def RoundRobin_addThread_def)
next
  fix pr q and t :: thread and n assume "ready_queues_ok pr q" "t \<notin> ready_threads q"
  then show "ready_queues_ok (pr(t := n)) q" by (simp add: ready_queues_ok_def queues_from_priority)
qed

end
