(* ===== verification/Scheduler_Order.thy ===== *)
theory Scheduler_Order
  imports Scheduler_Properties
begin

text \<open>The runs of a processor: which thread runs next, in which order, and three interleavings
  that the code does not expect.\<close>

section \<open>Runs\<close>

type_synonym cpu = "ready_queues processor"

definition processor_init :: "thread \<Rightarrow> cpu" where
  "processor_init t =
     \<lparr>m_queues = RoundRobin_new, m_pCurrentThread = t, m_pIdleThread = 0, t_alive = (\<lambda>u. u = t),
      t_status = (\<lambda>_. Running), t_priority = (\<lambda>_. DEFAULT_PRIORITY), t_pWaiter = (\<lambda>_. 0), t_bDetached = (\<lambda>_. False)\<rparr>"

definition setIdle :: "thread \<Rightarrow> 'q processor \<Rightarrow> 'q processor" where
  "setIdle t p = p\<lparr>m_pIdleThread := t\<rparr>"

text \<open>Everything that changes the scheduler's state.  \<open>OpBlock\<close> leaves the processor with a status other
  than ready, \<open>OpWake\<close> is a release of a semaphore, an event or a request that is done; \<open>OpReap\<close> is the
  end of a join that had to wait.\<close>

datatype sched_op = OpTick | OpBlock ThreadStatus | OpWake thread | OpSpawn thread | OpExit | OpPriority thread nat | OpIdle |
  OpJoin thread | OpReap thread | OpDetach thread | OpTerminate thread | OpKillSwitch thread

inductive sched_step :: "sched_op \<Rightarrow> cpu \<Rightarrow> cpu \<Rightarrow> bool" where
  preempt: "tick RoundRobin p = Some p' \<Longrightarrow> sched_step OpTick p p'"
| leave: "s \<noteq> Running \<Longrightarrow> s \<noteq> Ready \<Longrightarrow> schedule RoundRobin s 0 p = Some p' \<Longrightarrow> sched_step (OpBlock s) p p'"
| wake: "t_alive p t \<Longrightarrow> t_status p t \<noteq> Running \<Longrightarrow> setStatus RoundRobin t Ready p = Some p' \<Longrightarrow> sched_step (OpWake t) p p'"
| spawn: "t \<noteq> 0 \<Longrightarrow> \<not> t_alive p t \<Longrightarrow> addThread RoundRobin t p = Some p' \<Longrightarrow> sched_step (OpSpawn t) p p'"
| exit: "m_pCurrentThread p \<noteq> m_pIdleThread p \<Longrightarrow> killCurrentThread RoundRobin p = Some p' \<Longrightarrow> sched_step OpExit p p'"
| prioritise: "n < MAX_PRIORITIES \<Longrightarrow> sched_step (OpPriority t n) p (setPriority t n p)"
| idle: "m_pIdleThread p = 0 \<Longrightarrow> sched_step OpIdle p (setIdle (m_pCurrentThread p) p)"
| joining: "t_alive p t \<Longrightarrow> sched_step (OpJoin t) p (snd (join RoundRobin t p))"
| reap: "t_alive p t \<Longrightarrow> t_pWaiter p t = m_pCurrentThread p \<Longrightarrow> sched_step (OpReap t) p (delete_thread RoundRobin t p)"
| detaching: "t_alive p t \<Longrightarrow> sched_step (OpDetach t) p (snd (detach RoundRobin t p))"
| terminate: "t_alive p t \<Longrightarrow> t \<noteq> m_pCurrentThread p \<Longrightarrow> t \<noteq> m_pIdleThread p \<Longrightarrow> terminate_child RoundRobin t p = Some p' \<Longrightarrow>
    sched_step (OpTerminate t) p p'"
| killing: "t_alive p t \<Longrightarrow> kill_switch RoundRobin t p = Some p' \<Longrightarrow> sched_step (OpKillSwitch t) p p'"

text \<open>The operations that leave the queues in order.  A thread that ends or is terminated must not have
  a waiter that is still (or again) awake; a thread that is ready must not be given another priority, be
  terminated unless it is detached, or be switched to; and a joined thread must have ended.\<close>

fun orderly :: "sched_op \<Rightarrow> cpu \<Rightarrow> bool" where
  "orderly OpExit p = rr.waiter_sleeps (m_pCurrentThread p) p"
| "orderly (OpPriority t n) p = (t_status p t \<noteq> Ready)"
| "orderly (OpReap t) p = (t_status p t = AwaitingJoin)"
| "orderly (OpTerminate t) p = (rr.waiter_sleeps t p \<and> (t_status p t \<noteq> Ready \<or> t_bDetached p t))"
| "orderly (OpKillSwitch t) p = (t_status p t \<notin> {Running, Ready, Sleeping})"
| "orderly _ p = True"

inductive sched_reachable :: "thread \<Rightarrow> cpu \<Rightarrow> bool" for t where
  init: "sched_reachable t (processor_init t)"
| step: "sched_reachable t p \<Longrightarrow> orderly op p \<Longrightarrow> sched_step op p p' \<Longrightarrow> sched_reachable t p'"

text \<open>Runs without that restriction.\<close>

inductive sched_run :: "thread \<Rightarrow> cpu \<Rightarrow> bool" for t where
  run_init: "sched_run t (processor_init t)"
| run_step: "sched_run t p \<Longrightarrow> sched_step op p p' \<Longrightarrow> sched_run t p'"

lemma queues_from_empty: "queues_from pr i (replicate n [])"
  by (induction n arbitrary: i) auto

lemma init_ok: "t \<noteq> 0 \<Longrightarrow> rr.processor_ok (processor_init t)"
  by (auto simp: rr.processor_ok_def processor_init_def ready_queues_ok_def RoundRobin_new_def queues_from_empty
      ready_threads_def MAX_PRIORITIES_def DEFAULT_PRIORITY_def)

lemma rr_next_none: "rr.processor_ok p \<Longrightarrow> ready_threads (m_queues p) = {} \<Longrightarrow> m_pIdleThread p = 0 \<Longrightarrow> s \<noteq> Ready \<Longrightarrow>
    schedule RoundRobin s 0 p = None"
  using rr.next_none [of "t_priority p" "m_queues p" "m_pCurrentThread p"] by (simp add: schedule_def rr.processor_ok_def)

lemma step_ok: "sched_step op p p' \<Longrightarrow> orderly op p \<Longrightarrow> rr.processor_ok p \<Longrightarrow> rr.processor_ok p'"
proof (induction rule: sched_step.induct)
  case (preempt p p')
  then show ?case using rr.schedule_ok [of p Ready] by (simp add: tick_def)
next
  case (leave s p p')
  then have "m_pIdleThread p \<noteq> 0 \<or> ready_threads (m_queues p) \<noteq> {}" using rr_next_none by fastforce
  with leave show ?case using rr.schedule_ok [of p s] by auto
next
  case (wake p t p')
  then show ?case using rr.wake_ok [of p t] by auto
next
  case (spawn t p p')
  then show ?case using rr.addThread_ok [of p t] by auto
next
  case (exit p p')
  then have "m_pIdleThread p \<noteq> 0 \<or> ready_threads (m_queues p) \<noteq> {} \<or> t_pWaiter p (m_pCurrentThread p) \<noteq> 0"
    using rr.kill_panics by fastforce
  with exit show ?case using rr.kill_ok [of p] by auto
next
  case (prioritise n t p)
  then have "t \<notin> ready_threads (m_queues p)" "ready_queues_ok (t_priority p) (m_queues p)" by (auto simp: rr.processor_ok_def)
  from rr.priority_irrelevant [OF this(2,1)] prioritise show ?case by (simp add: rr.processor_ok_def setPriority_def)
next
  case (idle p)
  then show ?case by (auto simp: rr.processor_ok_def setIdle_def)
next
  case (terminate p t p')
  then show ?case using rr.terminate_ok [of p t] by auto
next
  case (killing p t p')
  then show ?case using rr.kill_switch_ok [of p t] by auto
qed (simp_all add: rr.join_ok rr.detach_ok rr.delete_ok)

lemma reachable_ok: "sched_reachable t p \<Longrightarrow> t \<noteq> 0 \<Longrightarrow> rr.processor_ok p"
  by (induction rule: sched_reachable.induct) (auto intro: init_ok step_ok)

section \<open>Runs of any operations\<close>

definition queues_wf :: "ready_queues \<Rightarrow> bool" where
  "queues_wf qs \<longleftrightarrow> length qs = MAX_PRIORITIES \<and> (\<forall>q \<in> set qs. distinct q \<and> 0 \<notin> set q)"

text \<open>Every ready thread but those of \<open>X\<close> and the idle thread is in a queue.\<close>

definition kept :: "thread set \<Rightarrow> cpu \<Rightarrow> bool" where
  "kept X p \<longleftrightarrow> queues_wf (m_queues p) \<and> (\<forall>t. t_priority p t < MAX_PRIORITIES) \<and> \<not> t_alive p 0 \<and>
     {t. t_alive p t \<and> t_status p t = Ready} - insert (m_pIdleThread p) X \<subseteq> ready_threads (m_queues p)"

lemma kept_mono: "kept X p \<Longrightarrow> X \<subseteq> Y \<Longrightarrow> kept Y p"
  unfolding kept_def by blast

lemma alg_next: "alg_getNext RoundRobin = RoundRobin_getNext" "alg_addThread RoundRobin = RoundRobin_addThread"
  "alg_removeThread RoundRobin = RoundRobin_removeThread"
  by (simp_all add: RoundRobin_def)

lemma getNext_keeps:
  "RoundRobin_getNext c qs = (t, qs') \<Longrightarrow> \<forall>q \<in> set qs. distinct q \<and> 0 \<notin> set q \<Longrightarrow>
     length qs' = length qs \<and> (\<forall>q \<in> set qs'. distinct q \<and> 0 \<notin> set q) \<and> ready_threads qs - {c, t} \<subseteq> ready_threads qs'"
proof (induction c qs arbitrary: t qs' rule: RoundRobin_getNext.induct)
  case (2 c q qs)
  obtain u qs1 where n: "RoundRobin_getNext c qs = (u, qs1)" by force
  have ok: "\<forall>q \<in> set qs. distinct q \<and> 0 \<notin> set q" "distinct q" "0 \<notin> set q" using "2.prems"(2) by auto
  show ?case
  proof (cases q)
    case Nil
    have ih: "length qs1 = length qs" "\<forall>q \<in> set qs1. distinct q \<and> 0 \<notin> set q" "ready_threads qs - {c, u} \<subseteq> ready_threads qs1"
      using "2.IH"(1) [OF Nil n ok(1)] by blast+
    have r: "t = u" "qs' = [] # qs1" using "2.prems"(1) Nil n by simp_all
    show ?thesis using ih unfolding r Nil by simp
  next
    case (Cons v q')
    show ?thesis
    proof (cases "v = c \<or> v = 0")
      case True
      have ih: "length qs1 = length qs" "\<forall>q \<in> set qs1. distinct q \<and> 0 \<notin> set q" "ready_threads qs - {c, u} \<subseteq> ready_threads qs1"
        using "2.IH"(2) [OF Cons True n ok(1)] by blast+
      have "t = u" "qs' = q' # qs1" "v = c" using "2.prems"(1) Cons n True ok(3) by auto
      with ih ok Cons show ?thesis by auto
    next
      case False
      then have "t = v" "qs' = q' # qs" using "2.prems"(1) Cons by simp_all
      with ok Cons show ?thesis by auto
    qed
  qed
qed simp

lemma removeThread_keeps:
  "\<forall>q \<in> set qs. distinct q \<and> 0 \<notin> set q \<Longrightarrow> length (RoundRobin_removeThread t qs) = length qs \<and>
     (\<forall>q \<in> set (RoundRobin_removeThread t qs). distinct q \<and> 0 \<notin> set q) \<and> ready_threads qs - {t} \<subseteq> ready_threads (RoundRobin_removeThread t qs)"
proof (induction t qs rule: RoundRobin_removeThread.induct)
  case (2 t q qs)
  then show ?case by (cases "take_first (\<lambda>x. x = t) q") (auto elim!: take_first_SomeE)
qed simp

lemma ready_threads_update: "n < length qs \<Longrightarrow> ready_threads (qs[n := qs ! n @ [t]]) = insert t (ready_threads qs)"
proof (induction qs arbitrary: n)
  case (Cons q qs)
  then show ?case by (cases n) auto
qed simp

lemma kept_setStatus:
  assumes "kept X p" "t \<noteq> 0"
  shows "\<exists>p'. setStatus RoundRobin t s p = Some p' \<and> kept (X - {t}) p' \<and> t_status p' = (t_status p)(t := s) \<and>
    m_pCurrentThread p' = m_pCurrentThread p \<and> m_pIdleThread p' = m_pIdleThread p \<and> t_alive p' = t_alive p \<and>
    t_bDetached p' = t_bDetached p"
proof -
  have pr: "t_priority p t < length (m_queues p)" using assms(1) by (simp add: kept_def queues_wf_def)
  then have u: "t \<in> set (m_queues p ! t_priority p t) \<Longrightarrow> t \<in> ready_threads (m_queues p)" by (auto simp: ready_threads_def)
  have w: "\<forall>q \<in> set ((m_queues p)[t_priority p t := m_queues p ! t_priority p t @ [t]]). distinct q \<and> 0 \<notin> set q"
    if "t \<notin> set (m_queues p ! t_priority p t)"
    using assms that nth_mem [OF pr] set_update_subset_insert [of "m_queues p"] by (fastforce simp: kept_def queues_wf_def)
  show ?thesis
    using assms(1) pr u w ready_threads_update [OF pr, of t]
    by (cases "s = Ready"; cases "t \<in> set (m_queues p ! t_priority p t)")
      (auto simp: setStatus_def RoundRobin_def RoundRobin_threadStatusChanged_def kept_def queues_wf_def)
qed

lemma kept_switch:
  assumes "kept {m_pCurrentThread p, t} p" "m_pCurrentThread p \<noteq> 0" "t \<noteq> 0"
  shows "\<exists>p'. switch_to RoundRobin s t p = Some p' \<and> kept {t} p' \<and> m_pCurrentThread p' = t"
proof -
  obtain p1 where p1: "(if m_pCurrentThread p \<noteq> m_pIdleThread p then setStatus RoundRobin (m_pCurrentThread p) s p else Some p) = Some p1" "kept {t} p1"
  proof (cases "m_pCurrentThread p = m_pIdleThread p")
    case True
    with assms(1) have "kept {t} p" by (simp add: kept_def)
    with True that show thesis by simp
  next
    case False
    then show thesis using kept_setStatus [OF assms(1,2), of s] kept_mono [of "{m_pCurrentThread p, t} - {m_pCurrentThread p}" _ "{t}"] that by auto
  qed
  obtain p2 where "setStatus RoundRobin t Running p1 = Some p2" "kept {} p2" using kept_setStatus [OF p1(2) assms(3), of Running] by auto
  with p1(1) show ?thesis by (auto simp: switch_to_def kept_def)
qed

lemma kept_getNext:
  assumes "kept X p" "RoundRobin_getNext c (m_queues p) = (t, q)"
  shows "kept (insert c (insert t X)) (p\<lparr>m_queues := q\<rparr>)"
  using assms getNext_keeps [OF assms(2)] by (auto simp: kept_def queues_wf_def)

lemma kept_schedule:
  assumes "kept {m_pCurrentThread p} p" "m_pCurrentThread p \<noteq> 0"
  shows "schedule RoundRobin s n p = Some p' \<Longrightarrow> kept {m_pCurrentThread p'} p' \<and> m_pCurrentThread p' \<noteq> 0"
    and "schedule RoundRobin Ready n p \<noteq> None"
proof -
  obtain t q where tq: "RoundRobin_getNext (m_pCurrentThread p) (m_queues p) = (t, q)" by force
  let ?p = "p\<lparr>m_queues := q\<rparr>" and ?c = "m_pCurrentThread p"
  have k: "kept {?c, t} ?p" using kept_getNext [OF assms(1) tq] by (simp add: insert_commute)
  have swap: "\<exists>p'. switch_to RoundRobin s u r = Some p' \<and> kept {m_pCurrentThread p'} p' \<and> m_pCurrentThread p' \<noteq> 0"
    if "kept {?c, u} r" "m_pCurrentThread r = ?c" "u \<noteq> 0" for u r s
    using kept_switch [of r u s] that assms(2) by auto
  have all: "case schedule RoundRobin s n p of None \<Rightarrow> s \<noteq> Ready
     | Some p' \<Rightarrow> kept {m_pCurrentThread p'} p' \<and> m_pCurrentThread p' \<noteq> 0" for s
  proof (cases "n = 0")
    case n: True
    show ?thesis
    proof (cases "t = 0")
      case True
      have k0: "kept {?c} ?p" using k unfolding True kept_def by auto
      have d: "schedule RoundRobin s n p = (if s \<noteq> Ready then if m_pIdleThread p = 0 then None else switch_to RoundRobin s (m_pIdleThread p) ?p else Some ?p)"
        using n True tq by (simp add: schedule_def alg_next Let_def)
      have "kept {?c, m_pIdleThread p} ?p" using k0 by (rule kept_mono) blast
      from swap [OF this, of s] k0 assms(2) show ?thesis unfolding d by auto
    next
      case False
      have d: "schedule RoundRobin s n p = switch_to RoundRobin s t ?p" using n False tq by (simp add: schedule_def alg_next Let_def)
      from swap [OF k _ False, of s] show ?thesis unfolding d by auto
    qed
  next
    case False
    have d: "schedule RoundRobin s n p = switch_to RoundRobin s n p" using False by (simp add: schedule_def)
    have "kept {?c, n} p" using assms(1) by (rule kept_mono) blast
    from swap [OF this refl False, of s] show ?thesis unfolding d by auto
  qed
  show "schedule RoundRobin s n p = Some p' \<Longrightarrow> kept {m_pCurrentThread p'} p' \<and> m_pCurrentThread p' \<noteq> 0" using all [of s] by simp
  show "schedule RoundRobin Ready n p \<noteq> None" using all [of Ready] by (auto split: option.splits)
qed

definition run_ok :: "cpu \<Rightarrow> bool" where
  "run_ok p \<longleftrightarrow> kept {m_pCurrentThread p} p \<and> m_pCurrentThread p \<noteq> 0"

lemma kept_delete: "kept X p \<Longrightarrow> kept X (delete_thread RoundRobin t p)"
  using removeThread_keeps [of "m_queues p" t] by (auto simp: kept_def queues_wf_def delete_thread_def RoundRobin_def)

lemma kept_shutdown:
  assumes "kept X p" "shutdown RoundRobin t p = Some p'"
  shows "kept X p' \<and> m_pCurrentThread p' = m_pCurrentThread p \<and> m_pIdleThread p' = m_pIdleThread p \<and>
    t_bDetached p' = t_bDetached p \<and> (\<not> t_bDetached p t \<longrightarrow> t_status p' t = AwaitingJoin)"
proof -
  obtain p1 where p1: "(if t_pWaiter p t \<noteq> 0 then setStatus RoundRobin (t_pWaiter p t) Ready p else Some p) = Some p1" "kept X p1"
    "m_pCurrentThread p1 = m_pCurrentThread p" "m_pIdleThread p1 = m_pIdleThread p" "t_bDetached p1 = t_bDetached p"
  proof (cases "t_pWaiter p t = 0")
    case True
    with that assms(1) show thesis by simp
  next
    case False
    from kept_setStatus [OF assms(1) False, of Ready] obtain p1 where
      "setStatus RoundRobin (t_pWaiter p t) Ready p = Some p1" "kept (X - {t_pWaiter p t}) p1" "m_pCurrentThread p1 = m_pCurrentThread p"
      "m_pIdleThread p1 = m_pIdleThread p" "t_bDetached p1 = t_bDetached p" by blast
    with False show thesis using that [of p1] kept_mono [of "X - {t_pWaiter p t}" p1 X] by auto
  qed
  have "kept X (p1\<lparr>t_status := (t_status p1)(t := AwaitingJoin)\<rparr>)" using p1(2) by (auto simp: kept_def)
  with p1 assms(2) show ?thesis by (auto simp: shutdown_def)
qed

lemma kept_kill:
  assumes "run_ok p" "killCurrentThread RoundRobin p = Some p'"
  shows "run_ok p'"
proof -
  let ?c = "m_pCurrentThread p"
  obtain p1 where p1: "shutdown RoundRobin ?c p = Some p1" using assms(2) by (auto simp: killCurrentThread_def Let_def split: Option.bind_splits)
  note sh = kept_shutdown [OF _ p1, of "{?c}"]
  obtain n q where nq: "RoundRobin_getNext ?c (m_queues p1) = (n, q)" by force
  define m where "m = (if n = 0 then m_pIdleThread p1 else n)"
  let ?p2 = "p1\<lparr>m_queues := q\<rparr>"
  have k1: "kept {?c} p1" "m_pIdleThread p1 = m_pIdleThread p" "t_bDetached p1 = t_bDetached p"
    using sh assms(1) by (simp_all add: run_ok_def)
  have "kept {?c, n} ?p2" using kept_getNext [OF k1(1) nq] by (simp add: insert_commute)
  then have k2: "kept {?c, m} ?p2" by (auto simp: kept_def m_def)
  obtain p3 where p3: "setStatus RoundRobin m Running ?p2 = Some p3" and m0: "m \<noteq> 0"
    and p': "p' = (if t_bDetached p3 ?c then delete_thread RoundRobin ?c (p3\<lparr>m_pCurrentThread := m\<rparr>) else p3\<lparr>m_pCurrentThread := m\<rparr>)"
    using assms(2) p1 nq by (auto simp: killCurrentThread_def alg_next m_def Let_def k1(2) split: Option.bind_splits if_splits)
  from kept_setStatus [OF k2 m0, of Running] p3 have k3: "kept ({?c, m} - {m}) p3" "t_status p3 = (t_status p1)(m := Running)"
    "t_bDetached p3 = t_bDetached p" by (simp_all add: k1(3))
  have "kept {m} (p3\<lparr>m_pCurrentThread := m\<rparr>)" if nd: "\<not> t_bDetached p ?c"
  proof -
    have "t_status p1 ?c = AwaitingJoin" using sh assms(1) nd by (simp add: run_ok_def)
    with k3(1,2) show ?thesis by (auto simp: kept_def)
  qed
  moreover have "kept {m} (delete_thread RoundRobin ?c (p3\<lparr>m_pCurrentThread := m\<rparr>))"
    using kept_delete [OF k3(1), of ?c] by (auto simp: kept_def delete_thread_def)
  ultimately show ?thesis using m0 k3(3) by (simp add: p' run_ok_def delete_thread_def)
qed

lemma run_delete: "run_ok p \<Longrightarrow> run_ok (delete_thread RoundRobin t p)"
  using kept_delete [of "{m_pCurrentThread p}" p t] by (simp add: run_ok_def) (simp add: delete_thread_def)

lemma run_join: "run_ok p \<Longrightarrow> run_ok (snd (join RoundRobin t p))"
  using run_delete [of p t] by (auto simp: join_def) (simp add: run_ok_def kept_def)

lemma kept_wake:
  assumes "run_ok p" "t \<noteq> 0" "setStatus RoundRobin t s p = Some p'"
  shows "run_ok p'"
  using kept_setStatus [of "{m_pCurrentThread p}" p t s] assms kept_mono [of "{m_pCurrentThread p} - {t}" p' "{m_pCurrentThread p}"]
  by (auto simp: run_ok_def)

lemma run_step_ok: "sched_step op p p' \<Longrightarrow> run_ok p \<Longrightarrow> run_ok p'"
proof (induction rule: sched_step.induct)
  case (preempt p p')
  then show ?case using kept_schedule(1) [of p Ready 0 p'] by (simp add: tick_def run_ok_def)
next
  case (leave s p p')
  then show ?case using kept_schedule(1) [of p s 0 p'] by (simp add: run_ok_def)
next
  case (wake p t p')
  then have "t \<noteq> 0" by (metis kept_def run_ok_def)
  with wake show ?case using kept_wake by blast
next
  case (spawn t p p')
  let ?p = "p\<lparr>t_alive := (t_alive p)(t := True), t_priority := (t_priority p)(t := DEFAULT_PRIORITY),
               t_pWaiter := (t_pWaiter p)(t := 0), t_bDetached := (t_bDetached p)(t := False)\<rparr>"
  have "kept {m_pCurrentThread ?p, t} ?p" using spawn by (auto simp: run_ok_def kept_def DEFAULT_PRIORITY_def MAX_PRIORITIES_def)
  from kept_switch [OF this, of Ready] spawn show ?case
    by (auto simp: addThread_def run_ok_def RoundRobin_addThread_def alg_next Let_def)
next
  case (exit p p')
  then show ?case using kept_kill by blast
next
  case (detaching p t)
  then show ?case using run_join [of p t] by (auto simp: detach_def Let_def split: prod.splits) (simp add: run_ok_def kept_def)
next
  case (terminate p t p')
  obtain p1 p2 where p: "setStatus RoundRobin t Zombie p = Some p1" "shutdown RoundRobin t p1 = Some p2"
    "p' = (if t_bDetached p2 t then delete_thread RoundRobin t p2 else p2)"
    using terminate by (auto simp: terminate_child_def split: Option.bind_splits)
  have "t \<noteq> 0" using terminate by (metis kept_def run_ok_def)
  with p(1) have "run_ok p1" using kept_wake terminate.prems by blast
  then have "run_ok p2" using kept_shutdown [OF _ p(2), of "{m_pCurrentThread p1}"] by (simp add: run_ok_def)
  then show ?case using kept_delete [of _ p2 t] by (simp add: p(3) run_ok_def delete_thread_def)
next
  case (killing p t p')
  obtain p1 where p: "wake_for_event RoundRobin t p = Some p1" "schedule RoundRobin Ready t p1 = Some p'"
    using killing by (auto simp: kill_switch_def split: Option.bind_splits)
  have "t \<noteq> 0" using killing by (metis kept_def run_ok_def)
  then have "run_ok p1" using p(1) killing.prems kept_wake [of p t Ready p1] by (auto simp: wake_for_event_def split: if_splits)
  then show ?case using kept_schedule(1) [OF _ _ p(2)] by (simp add: run_ok_def)
next
  case (idle p)
  then show ?case by (simp add: run_ok_def kept_def setIdle_def) blast
qed (simp_all add: run_join run_delete, simp_all add: run_ok_def kept_def setPriority_def)

lemma run_run_ok: "sched_run t p \<Longrightarrow> t \<noteq> 0 \<Longrightarrow> run_ok p"
proof (induction rule: sched_run.induct)
  case run_init
  then show ?case by (simp add: run_ok_def kept_def processor_init_def queues_wf_def RoundRobin_new_def DEFAULT_PRIORITY_def MAX_PRIORITIES_def)
next
  case (run_step p op p')
  then show ?case using run_step_ok by blast
qed

section \<open>The order of the threads\<close>

fun ticks :: "nat \<Rightarrow> cpu \<Rightarrow> cpu option" where
  "ticks 0 p = Some p"
| "ticks (Suc k) p = do { p \<leftarrow> tick RoundRobin p; ticks k p }"

lemma switch_current: "switch_to A s t p = Some p' \<Longrightarrow> m_pCurrentThread p' = t"
  by (auto simp: switch_to_def split: Option.bind_splits)

lemma getNext_front: "t \<noteq> c \<Longrightarrow> t \<noteq> 0 \<Longrightarrow>
    RoundRobin_getNext c (replicate n [] @ (t # ts) # rest) = (t, replicate n [] @ ts # rest)"
  by (induction n) auto

lemma ready_front: "ready_threads (replicate n [] @ ts # rest) = set ts \<union> ready_threads rest"
  by (induction n) auto

lemma queues_from_front: "queues_from pr i (replicate n [] @ ts # rest) \<Longrightarrow> distinct ts \<and> (\<forall>t \<in> set ts. t \<noteq> 0 \<and> pr t = i + n)"
  by (induction n arbitrary: i) auto

lemma queues_from_rest: "queues_from pr 0 (replicate n [] @ ts # rest) \<Longrightarrow> queues_from pr (Suc n) rest"
proof -
  have "queues_from pr i (replicate n [] @ ts # rest) \<Longrightarrow> queues_from pr (Suc (i + n)) rest" for i
  proof (induction n arbitrary: i)
    case (Suc n)
    with Suc.IH [of "Suc i"] show ?case by simp
  qed simp
  from this [of 0] show "queues_from pr 0 (replicate n [] @ ts # rest) \<Longrightarrow> queues_from pr (Suc n) rest" by simp
qed

lemma tick_rotates:
  assumes ok: "rr.processor_ok p" and q: "m_queues p = replicate n [] @ (t # ts) # rest"
    and n: "t_priority p (m_pCurrentThread p) = n" and c: "m_pCurrentThread p \<noteq> m_pIdleThread p"
  shows "\<exists>p'. tick RoundRobin p = Some p' \<and> rr.processor_ok p' \<and> m_pCurrentThread p' = t \<and>
    m_queues p' = replicate n [] @ (ts @ [m_pCurrentThread p]) # rest \<and> t_priority p' t = n \<and> t \<noteq> m_pIdleThread p'"
proof -
  let ?c = "m_pCurrentThread p"
  have run: "t_status p ?c = Running" and len: "length (m_queues p) = MAX_PRIORITIES"
    and idle: "m_pIdleThread p \<noteq> 0 \<longrightarrow> t_status p (m_pIdleThread p) = Running"
    and qf: "queues_from (t_priority p) 0 (replicate n [] @ (t # ts) # rest)"
    and rq: "ready_threads (m_queues p) = {u. t_alive p u \<and> t_status p u = Ready}"
    using ok [unfolded rr.processor_ok_def ready_queues_ok_def] unfolding q [symmetric] by blast+
  have rd: "set (t # ts) \<subseteq> {u. t_alive p u \<and> t_status p u = Ready}"
    unfolding rq [symmetric] unfolding q ready_front by blast
  have t: "t \<noteq> ?c" "t \<noteq> 0" "?c \<notin> set ts" "t_priority p t = n" "n < MAX_PRIORITIES" "t \<noteq> m_pIdleThread p"
  proof -
    have s: "t_status p t = Ready" "\<forall>u \<in> set ts. t_status p u = Ready" using rd by auto
    show "t \<noteq> ?c" "?c \<notin> set ts" using s run by force+
    have f: "t \<noteq> 0" "t_priority p t = 0 + n" using queues_from_front [OF qf] by simp_all
    then show "t \<noteq> 0" "t_priority p t = n" by simp_all
    show "t \<noteq> m_pIdleThread p" using s(1) f(1) idle by force
    show "n < MAX_PRIORITIES" using len unfolding q by simp
  qed
  have "(replicate n [] @ ts # rest) ! n = ts" by (simp add: nth_append)
  then have "tick RoundRobin p = Some (p\<lparr>t_status := (t_status p)(?c := Ready, t := Running),
      m_queues := replicate n [] @ (ts @ [?c]) # rest, m_pCurrentThread := t\<rparr>)"
    using t c n by (simp add: tick_def schedule_def switch_to_def setStatus_def RoundRobin_def q getNext_front
        RoundRobin_threadStatusChanged_def list_update_append)
  moreover obtain p' where "tick RoundRobin p = Some p'" "rr.processor_ok p'"
    using rr.schedule_ok [OF ok, of Ready] by (auto simp: tick_def)
  ultimately show ?thesis using t by auto
qed

lemma ticks_rotate:
  assumes "rr.processor_ok p" "m_queues p = replicate n [] @ ts # rest" "ts \<noteq> []"
    and "t_priority p (m_pCurrentThread p) = n" "m_pCurrentThread p \<noteq> m_pIdleThread p"
  shows "\<exists>p' ts'. ticks k p = Some p' \<and> m_pCurrentThread p' # ts' = rotate k (m_pCurrentThread p # ts) \<and>
    m_queues p' = replicate n [] @ ts' # rest"
  using assms
proof (induction k arbitrary: p ts)
  case (Suc k)
  then obtain u us where ts: "ts = u # us" by (cases ts) auto
  from tick_rotates [OF Suc.prems(1) _ Suc.prems(4,5)] Suc.prems(2) ts obtain p1 where
    p1: "tick RoundRobin p = Some p1" "rr.processor_ok p1" "m_pCurrentThread p1 = u"
    "m_queues p1 = replicate n [] @ (us @ [m_pCurrentThread p]) # rest" "t_priority p1 u = n" "u \<noteq> m_pIdleThread p1" by blast
  from Suc.IH [OF p1(2,4)] p1 obtain p' ts' where "ticks k p1 = Some p'"
    "m_pCurrentThread p' # ts' = rotate k (u # us @ [m_pCurrentThread p])" "m_queues p' = replicate n [] @ ts' # rest" by auto
  moreover have "rotate (Suc k) (m_pCurrentThread p # ts) = rotate k (u # us @ [m_pCurrentThread p])"
    by (simp add: ts rotate1_rotate_swap)
  ultimately show ?case using p1(1) by auto
qed simp

section \<open>Properties\<close>

text \<open>C16: In every run of orderly operations (threads are started, preempted, block, are woken, end, are joined,
  detached and terminated, but none that is ready is given another priority or terminated without being
  detached, the kill switch meets none that runs, is ready or sleeps, none ends while its waiter is awake, and a join
  that had to wait goes on after its thread has ended) the queues hold exactly the ready threads,
  each at its priority and once; the current thread, and nobody else but the idle thread, is marked as
  running; and a timer tick succeeds.\<close>

theorem scheduler_invariant:
  assumes "sched_reachable t p" "t \<noteq> 0"
  shows "ready_threads (m_queues p) = {u. t_alive p u \<and> t_status p u = Ready} \<and> ready_queues_ok (t_priority p) (m_queues p) \<and>
    t_status p (m_pCurrentThread p) = Running \<and>
    (\<forall>u. t_alive p u \<and> t_status p u = Running \<longrightarrow> u = m_pCurrentThread p \<or> u = m_pIdleThread p) \<and>
    tick RoundRobin p \<noteq> None"
  using reachable_ok [OF assms] rr.schedule_ok [of p Ready] by (auto simp: rr.processor_ok_def tick_def)

text \<open>Without that restriction, in whatever order the operations come, no ready thread is lost: all but the
  current and the idle thread are in a queue (possibly that of another priority, or two), no queue holds
  null or a thread twice, and a timer tick succeeds.\<close>

theorem ready_threads_kept:
  assumes "sched_run t p" "t \<noteq> 0" "t_alive p u" "t_status p u = Ready" "u \<noteq> m_pCurrentThread p" "u \<noteq> m_pIdleThread p"
  shows "u \<in> ready_threads (m_queues p) \<and> (\<forall>q \<in> set (m_queues p). distinct q \<and> 0 \<notin> set q) \<and> tick RoundRobin p \<noteq> None"
proof -
  have k: "kept {m_pCurrentThread p} p" "m_pCurrentThread p \<noteq> 0" using run_run_ok [OF assms(1,2)] by (simp_all add: run_ok_def)
  have "tick RoundRobin p \<noteq> None" using kept_schedule(2) [OF k] by (simp add: tick_def)
  with k(1) assms(3-6) show ?thesis unfolding kept_def queues_wf_def by blast
qed

text \<open>The next thread is one of the highest priority among those in the queues; the priority of the
  thread that is running plays no part.\<close>

theorem scheduler_picks_highest:
  assumes "sched_reachable t p" "t \<noteq> 0" "ready_threads (m_queues p) \<noteq> {}"
  shows "\<exists>p'. tick RoundRobin p = Some p' \<and> m_pCurrentThread p' \<in> ready_threads (m_queues p) \<and>
    (\<forall>u \<in> ready_threads (m_queues p). t_priority p (m_pCurrentThread p') \<le> t_priority p u)"
proof -
  have ok: "rr.processor_ok p" by (rule reachable_ok [OF assms(1,2)])
  then have c: "m_pCurrentThread p \<notin> ready_threads (m_queues p)" and q: "queues_from (t_priority p) 0 (m_queues p)"
    by (auto simp: rr.processor_ok_def ready_queues_ok_def)
  from getNext_some [OF q c assms(3)] obtain u qs where u: "RoundRobin_getNext (m_pCurrentThread p) (m_queues p) = (u, qs)"
    "u \<in> ready_threads (m_queues p)" "\<forall>v \<in> ready_threads (m_queues p). t_priority p u \<le> t_priority p v" by blast
  obtain p' where p': "schedule RoundRobin Ready 0 p = Some p'" using rr.schedule_ok [OF ok, of Ready] by auto
  have "u \<noteq> 0" using queues_from_prio [OF q u(2)] by simp
  with p' u(1) have "switch_to RoundRobin Ready u (p\<lparr>m_queues := qs\<rparr>) = Some p'" by (simp add: schedule_def RoundRobin_def)
  from switch_current [OF this] u p' show ?thesis by (auto simp: tick_def)
qed

text \<open>C18: Threads of the same priority take turns: when nothing of a higher priority is ready, the thread
  at position \<open>k\<close> of the queue runs after \<open>k + 1\<close> ticks.\<close>

theorem round_robin_turn:
  assumes "sched_reachable t p" "t \<noteq> 0" "m_queues p = replicate n [] @ ts # rest" "t_priority p (m_pCurrentThread p) = n"
    and "m_pCurrentThread p \<noteq> m_pIdleThread p" "k < length ts"
  shows "\<exists>p'. ticks (Suc k) p = Some p' \<and> m_pCurrentThread p' = ts ! k"
proof -
  have "ts \<noteq> []" using assms(6) by auto
  from ticks_rotate [OF reachable_ok [OF assms(1,2)] assms(3) this assms(4,5), of "Suc k"] obtain p' ts' where
    p': "ticks (Suc k) p = Some p'" "m_pCurrentThread p' # ts' = rotate (Suc k) (m_pCurrentThread p # ts)" by blast
  have "hd (rotate (Suc k) (m_pCurrentThread p # ts)) = (m_pCurrentThread p # ts) ! Suc k"
    using assms(6) by (subst hd_rotate_conv_nth) auto
  then have "m_pCurrentThread p' = ts ! k" unfolding p'(2) [symmetric] by simp
  with p'(1) show ?thesis by blast
qed

text \<open>As long as two threads of a priority do not block, a ready thread of a lower priority never
  runs.\<close>

theorem lower_priority_starves:
  assumes "sched_reachable t p" "t \<noteq> 0" "m_queues p = replicate n [] @ ts # rest" "ts \<noteq> []"
    and "t_priority p (m_pCurrentThread p) = n" "m_pCurrentThread p \<noteq> m_pIdleThread p" "u \<in> ready_threads rest"
  shows "\<exists>p'. ticks k p = Some p' \<and> m_pCurrentThread p' \<noteq> u"
proof -
  have ok: "rr.processor_ok p" by (rule reachable_ok [OF assms(1,2)])
  from ticks_rotate [OF ok assms(3-6), of k] obtain p' ts' where
    p': "ticks k p = Some p'" "m_pCurrentThread p' # ts' = rotate k (m_pCurrentThread p # ts)" by blast
  have "u \<notin> set (m_pCurrentThread p # ts)"
  proof -
    have "u \<in> ready_threads (m_queues p)" "m_pCurrentThread p \<notin> ready_threads (m_queues p)"
      using assms(3,7) ready_front [of n ts rest] ok by (auto simp: rr.processor_ok_def)
    moreover have "u \<notin> set ts"
    proof
      assume "u \<in> set ts"
      have qf: "queues_from (t_priority p) 0 (replicate n [] @ ts # rest)" using ok assms(3) by (simp add: rr.processor_ok_def ready_queues_ok_def)
      then have "queues_from (t_priority p) (Suc n) rest" using queues_from_rest by blast
      with queues_from_prio assms(7) queues_from_front [OF qf] \<open>u \<in> set ts\<close> show False by force
    qed
    ultimately show ?thesis by auto
  qed
  moreover have "m_pCurrentThread p' \<in> set (rotate k (m_pCurrentThread p # ts))" unfolding p'(2) [symmetric] by simp
  ultimately have "m_pCurrentThread p' \<noteq> u" by auto
  with p'(1) show ?thesis by blast
qed

abbreviation three_threads :: "cpu option" where
  "three_threads \<equiv> do { p \<leftarrow> addThread RoundRobin 2 (processor_init 1); addThread RoundRobin 3 p }"

lemma three_threads: "\<exists>p. three_threads = Some p \<and> sched_reachable 1 p \<and> m_queues p = replicate 1 [] @ [1, 2] # replicate 6 [] \<and>
    m_pCurrentThread p = 3 \<and> m_pIdleThread p = 0 \<and> t_priority p 3 = 1 \<and> t_status p 3 = Running"
proof -
  have "case addThread RoundRobin 2 (processor_init 1) of None \<Rightarrow> False | Some p \<Rightarrow> \<not> t_alive p 3"
    "case three_threads of None \<Rightarrow> False | Some p \<Rightarrow> m_queues p = replicate 1 [] @ [1, 2] # replicate 6 [] \<and>
       m_pCurrentThread p = 3 \<and> m_pIdleThread p = 0 \<and> t_priority p 3 = 1 \<and> t_status p 3 = Running"
    by code_simp+
  then obtain p1 p where p: "addThread RoundRobin 2 (processor_init 1) = Some p1" "\<not> t_alive p1 3" "addThread RoundRobin 3 p1 = Some p"
    "m_queues p = replicate 1 [] @ [1, 2] # replicate 6 []" "m_pCurrentThread p = 3" "m_pIdleThread p = 0" "t_priority p 3 = 1"
    "t_status p 3 = Running"
    by (auto split: option.splits Option.bind_splits simp del: replicate.simps One_nat_def)
  have "sched_reachable 1 p1" by (rule sched_reachable.step [OF sched_reachable.init _ sched_step.spawn [OF _ _ p(1)]]) (simp_all add: processor_init_def)
  then have "sched_reachable 1 p" by (rule sched_reachable.step [OF _ _ sched_step.spawn [OF _ p(2,3)]]) simp_all
  moreover have "three_threads = Some p" using p(1,3) by simp
  ultimately show ?thesis using p(4-8) by blast
qed

theorem scheduler_invariant_witness:
  "\<exists>p. sched_reachable 1 p \<and> {u. t_alive p u \<and> t_status p u = Ready} = {1, 2}"
proof -
  obtain p where p: "sched_reachable 1 p" "m_queues p = replicate 1 [] @ [1, 2] # replicate 6 []" using three_threads by blast
  then have "ready_threads (m_queues p) = {1, 2}" by (simp only: ready_front) (simp add: ready_threads_def)
  with scheduler_invariant [OF p(1)] p(1) show ?thesis by auto
qed

lemma reachable_run: "sched_reachable t p \<Longrightarrow> sched_run t p"
  by (induction rule: sched_reachable.induct) (auto intro: run_init run_step)

text \<open>A ready thread is given another priority.\<close>

theorem ready_threads_kept_witness:
  "\<exists>p. sched_run 1 p \<and> t_priority p 2 = 0 \<and> 2 \<in> ready_threads (m_queues p)"
proof -
  obtain p where p: "sched_reachable 1 p" "m_queues p = replicate 1 [] @ [1, 2] # replicate 6 []" "m_pCurrentThread p = 3" "m_pIdleThread p = 0"
    using three_threads by blast
  then have "ready_threads (m_queues p) = {1, 2}" by (simp only: ready_front) (simp add: ready_threads_def)
  then have two: "t_alive p 2" "t_status p 2 = Ready" using reachable_ok [OF p(1)] by (auto simp: rr.processor_ok_def)
  let ?p = "setPriority 2 0 p"
  have r: "sched_run 1 ?p"
    by (rule run_step [OF reachable_run [OF p(1)] sched_step.prioritise]) (simp add: MAX_PRIORITIES_def)
  moreover have "2 \<in> ready_threads (m_queues ?p)"
    using ready_threads_kept [OF r, of 2] two p(3,4) by (simp add: setPriority_def)
  ultimately show ?thesis by (auto simp: setPriority_def)
qed

theorem scheduler_picks_highest_witness:
  "\<exists>p p'. sched_reachable 1 p \<and> tick RoundRobin p = Some p' \<and> m_pCurrentThread p' \<in> {1, 2}"
proof -
  obtain p where p: "sched_reachable 1 p" "m_queues p = replicate 1 [] @ [1, 2] # replicate 6 []" using three_threads by blast
  then have r: "ready_threads (m_queues p) = {1, 2}" by (simp only: ready_front) (simp add: ready_threads_def)
  with scheduler_picks_highest [OF p(1)] p(1) show ?thesis by auto
qed

theorem round_robin_turn_witness:
  "\<exists>p p'. sched_reachable 1 p \<and> m_pCurrentThread p = 3 \<and> ticks 2 p = Some p' \<and> m_pCurrentThread p' = 2"
proof -
  obtain p where p: "sched_reachable 1 p" "m_queues p = replicate 1 [] @ [1, 2] # replicate 6 []" "m_pCurrentThread p = 3"
    "m_pIdleThread p = 0" "t_priority p 3 = 1" using three_threads by blast
  from round_robin_turn [OF p(1) _ p(2), of 1] p show ?thesis by (auto simp: numeral_2_eq_2 simp del: ticks.simps)
qed

theorem lower_priority_starves_witness:
  "\<exists>p p'. sched_reachable 1 p \<and> t_status p 3 = Ready \<and> ticks 100 p = Some p' \<and> m_pCurrentThread p' \<noteq> 3"
proof -
  obtain p where p: "three_threads = Some p" "sched_reachable 1 p" "t_status p 3 = Running" using three_threads by blast
  have r1: "sched_reachable 1 (setPriority 3 2 p)"
    by (rule sched_reachable.step [OF p(2) _ sched_step.prioritise]) (simp_all add: p(3) MAX_PRIORITIES_def)
  have "case do { p \<leftarrow> three_threads; tick RoundRobin (setPriority 3 2 p) } of None \<Rightarrow> False
    | Some p2 \<Rightarrow> m_queues p2 = replicate 1 [] @ [2] # [3] # replicate 5 [] \<and> m_pCurrentThread p2 = 1 \<and> m_pIdleThread p2 = 0 \<and>
        t_priority p2 1 = 1 \<and> t_status p2 3 = Ready" by code_simp
  with p(1) obtain p2 where p2: "tick RoundRobin (setPriority 3 2 p) = Some p2" "m_queues p2 = replicate 1 [] @ [2] # [3] # replicate 5 []"
    "m_pCurrentThread p2 = 1" "m_pIdleThread p2 = 0" "t_priority p2 1 = 1" "t_status p2 3 = Ready"
    by (auto split: option.splits simp del: replicate.simps One_nat_def)
  have r2: "sched_reachable 1 p2" by (rule sched_reachable.step [OF r1 _ sched_step.preempt [OF p2(1)]]) simp
  show ?thesis using lower_priority_starves [OF r2 _ p2(2), of 3 100] r2 p2(3-6) by auto
qed

text \<open>A signal for a thread of another process wakes the thread and switches to it while it stays in
  its queue.  At the next tick it is passed over, and with it the rest of its queue: a thread of a lower
  priority runs although one of a higher priority is ready.\<close>

theorem kill_switch_skips_queue:
  "case do { p \<leftarrow> addThread RoundRobin 2 (processor_init 1); p \<leftarrow> sleep RoundRobin p; p \<leftarrow> addThread RoundRobin 3 p;
             p \<leftarrow> tick RoundRobin (setPriority 3 2 p); kill_switch RoundRobin 2 p } of
     None \<Rightarrow> False
   | Some p \<Rightarrow> m_pCurrentThread p = 2 \<and> 2 \<in> ready_threads (m_queues p) \<and> t_status p 1 = Ready \<and> t_priority p 1 = 1 \<and>
       (case tick RoundRobin p of None \<Rightarrow> False
        | Some p' \<Rightarrow> m_pCurrentThread p' = 3 \<and> t_priority p' 3 = 2 \<and> t_status p' 1 = Ready)"
  by code_simp

text \<open>Between the registration of a joining thread and its sleep the other thread can run and end: the
  wake-up then comes before the sleep, and nobody wakes the joining thread again.\<close>

theorem join_lost_wakeup:
  "case do { p \<leftarrow> addThread RoundRobin 1 (setIdle 9 (processor_init 9)); p \<leftarrow> addThread RoundRobin 2 p; tick RoundRobin p } of
     None \<Rightarrow> False
   | Some p \<Rightarrow> m_pCurrentThread p = 1 \<and>
       (case join RoundRobin 2 p of (r, p) \<Rightarrow> r = Waits \<and>
          (case do { p \<leftarrow> tick RoundRobin p; p \<leftarrow> killCurrentThread RoundRobin p; sleep RoundRobin p } of
             None \<Rightarrow> False
           | Some p' \<Rightarrow> t_status p' 1 = Sleeping \<and> t_status p' 2 = AwaitingJoin \<and> m_pCurrentThread p' = 9 \<and>
               ready_threads (m_queues p') = {}))"
  by code_simp

text \<open>The destructor of a process marks its other threads as zombies but leaves those that are ready and not
  detached in the queues: such a thread runs again.\<close>

theorem terminated_thread_runs:
  "case do { p \<leftarrow> addThread RoundRobin 2 (processor_init 1); terminate_child RoundRobin 1 p } of
     None \<Rightarrow> False
   | Some p \<Rightarrow> t_status p 1 = AwaitingJoin \<and>
       (case tick RoundRobin p of None \<Rightarrow> False | Some p' \<Rightarrow> m_pCurrentThread p' = 1 \<and> t_status p' 1 = Running)"
  by code_simp

end
