(* ===== verification/Thread_Events.thy ===== *)
theory Thread_Events
  imports Extensible_Bitmap Semaphore_Sync
begin

text \<open>
  The events of a thread: the queue and the stack of inhibit masks (\<^verbatim>\<open>kernel/core/process/Thread.cc\<close>,
  \<^verbatim>\<open>include/process/Thread.h\<close>), and their dispatch (\<open>PerProcessorScheduler::checkEventState\<close>,
  \<^verbatim>\<open>kernel/core/process/PerProcessorScheduler.cc\<close>).  An event is a record with an identity that stands
  for its address; a null pointer in the queue is \<open>None\<close>.  What the page tables say of an address is an
  argument of the dispatch, because the address spaces are machine code.
\<close>

definition MAX_NESTED_EVENTS :: nat where "MAX_NESTED_EVENTS = 16"

definition EVENT_TID_MAX :: nat where "EVENT_TID_MAX = 255"

definition EVENT_LIMIT :: nat where "EVENT_LIMIT = 4096"

definition EVENT_BASE :: nat where "EVENT_BASE = 0x80000000"

definition EVENT_HANDLER_BUFFER :: nat where "EVENT_HANDLER_BUFFER = EVENT_BASE + 0x1000"

definition EVENT_HANDLER_END :: nat where
  "EVENT_HANDLER_END = EVENT_HANDLER_BUFFER + (EVENT_TID_MAX * MAX_NESTED_EVENTS) * EVENT_LIMIT"

section \<open>The queue and the masks\<close>

text \<open>\<open>m_NestingLevel\<close> is \<open>None\<close> for the value \<^verbatim>\<open>~0UL\<close>.\<close>

record event =
  ev_id :: nat
  m_HandlerAddress :: u64
  m_bIsDeletable :: bool
  m_NestingLevel :: "nat option"
  ev_number :: nat

record event_thread =
  m_EventQueue :: "event option list"
  m_InhibitMask :: "ExtensibleBitmap list"
  m_pUserStack :: "u64 list"
  m_nStateLevel :: nat
  m_Status :: ThreadStatus
  m_Id :: nat

definition event_thread_new :: "nat \<Rightarrow> event_thread" where
  "event_thread_new i =
     \<lparr>m_EventQueue = [], m_InhibitMask = replicate MAX_NESTED_EVENTS ExtensibleBitmap_new,
      m_pUserStack = replicate MAX_NESTED_EVENTS 0, m_nStateLevel = 0, m_Status = Ready, m_Id = i\<rparr>"

definition current_mask :: "event_thread \<Rightarrow> ExtensibleBitmap" where
  "current_mask t = m_InhibitMask t ! m_nStateLevel t"

definition sendEvent :: "event option \<Rightarrow> event_thread \<Rightarrow> event_thread" where
  "sendEvent e t =
     (let t = t\<lparr>m_EventQueue := m_EventQueue t @ [e]\<rparr>
      in if m_Status t = Sleeping then t\<lparr>m_Status := Ready\<rparr> else t)"

definition inhibitEvent :: "nat \<Rightarrow> bool \<Rightarrow> event_thread \<Rightarrow> event_thread option" where
  "inhibitEvent n bInhibit t = do {
     m \<leftarrow> (if bInhibit then Some (ExtensibleBitmap_set n (current_mask t)) else ExtensibleBitmap_clear n (current_mask t));
     Some (t\<lparr>m_InhibitMask := (m_InhibitMask t)[m_nStateLevel t := m]\<rparr>) }"

text \<open>\<open>cullEvent\<close> of an event: \<open>erase\<close> returns the position of the next element, and the loop then
  steps over it.  \<open>cullEvent\<close> of a number reads every event, also a null one.\<close>

fun cull_event :: "nat \<Rightarrow> event option list \<Rightarrow> event option list" where
  "cull_event i [] = []"
| "cull_event i (x # xs) =
     (if map_option ev_id x = Some i then (case xs of [] \<Rightarrow> [] | y # ys \<Rightarrow> y # cull_event i ys)
      else x # cull_event i xs)"

definition cullEvent :: "nat \<Rightarrow> event_thread \<Rightarrow> event_thread" where
  "cullEvent i t = t\<lparr>m_EventQueue := cull_event i (m_EventQueue t)\<rparr>"

fun cull_number :: "nat \<Rightarrow> event option list \<Rightarrow> event option list option" where
  "cull_number n [] = Some []"
| "cull_number n (None # xs) = None"
| "cull_number n (Some e # xs) =
     map_option (\<lambda>ys. if ev_number e = n then ys else Some e # ys) (cull_number n xs)"

definition cullEvent_number :: "nat \<Rightarrow> event_thread \<Rightarrow> event_thread option" where
  "cullEvent_number n t = map_option (\<lambda>q. t\<lparr>m_EventQueue := q\<rparr>) (cull_number n (m_EventQueue t))"

definition hasEvents :: "event_thread \<Rightarrow> bool" where
  "hasEvents t = (length (m_EventQueue t) \<noteq> 0)"

definition held_back :: "ExtensibleBitmap \<Rightarrow> nat \<Rightarrow> event \<Rightarrow> bool" where
  "held_back inhibit level e =
     (ExtensibleBitmap_test (ev_number e) inhibit \<or> (m_NestingLevel e \<noteq> None \<and> m_NestingLevel e \<noteq> Some level))"

text \<open>The loop of \<open>getNextEvent\<close> asks for the length of the queue again in every round.\<close>

function next_event :: "ExtensibleBitmap \<Rightarrow> nat \<Rightarrow> nat \<Rightarrow> event option list \<Rightarrow> event option \<times> event option list" where
  "next_event inhibit level i q =
     (if i < length q
      then (case q of
              [] \<Rightarrow> (None, [])
            | None # q' \<Rightarrow> next_event inhibit level (i + 1) q'
            | Some e # q' \<Rightarrow>
                if held_back inhibit level e then next_event inhibit level (i + 1) (q' @ [Some e]) else (Some e, q'))
      else (None, q))"
  by auto
termination by (relation "measure (\<lambda>(inhibit, level, i, q). length q - i)") auto

declare next_event.simps [simp del]

definition getNextEvent :: "event_thread \<Rightarrow> event option \<times> event_thread" where
  "getNextEvent t =
     (let (e, q) = next_event (current_mask t) (m_nStateLevel t) 0 (m_EventQueue t)
      in (e, t\<lparr>m_EventQueue := q\<rparr>))"

section \<open>The stack of states\<close>

definition pushState :: "event_thread \<Rightarrow> event_thread" where
  "pushState t =
     (if m_nStateLevel t + 1 \<ge> MAX_NESTED_EVENTS then t
      else t\<lparr>m_nStateLevel := m_nStateLevel t + 1,
             m_InhibitMask := (m_InhibitMask t)[m_nStateLevel t + 1 :=
               ExtensibleBitmap_assign (m_InhibitMask t ! m_nStateLevel t) (m_InhibitMask t ! (m_nStateLevel t + 1))]\<rparr>)"

definition popState :: "event_thread \<Rightarrow> event_thread" where
  "popState t = (if m_nStateLevel t = 0 then t else t\<lparr>m_nStateLevel := m_nStateLevel t - 1\<rparr>)"

definition event_buffer :: "event_thread \<Rightarrow> u64" where
  "event_buffer t =
     of_nat EVENT_HANDLER_BUFFER + (of_nat (m_Id t) * of_nat MAX_NESTED_EVENTS + (of_nat (m_nStateLevel t) - 1)) * of_nat EVENT_LIMIT"

section \<open>Dispatch\<close>

text \<open>The address space: what \<open>isMapped\<close> says of an address, whether \<open>getMapping\<close> finds the page for the
  kernel only (it panics for a page that is not there or that is a large one), and the stack that
  \<open>allocateStack\<close> returns.\<close>

record address_space =
  va_mapped :: "u64 \<Rightarrow> bool"
  va_kernel :: "u64 \<Rightarrow> bool option"
  va_new_stack :: u64

text \<open>The result is what happens to the event: a handler in kernel mode has run, one in user mode is
  entered with a stack and the address of the event, or there is no stack to enter it with.  The buffers
  are taken to be mapped or mappable.\<close>

datatype dispatch = NoEvent | NotMapped event | Panic | PutBack event | NoStack event | CallKernel event u64 | JumpUser event u64 u64

definition own_stack :: "address_space \<Rightarrow> event_thread \<Rightarrow> u64 \<times> event_thread" where
  "own_stack va t =
     (let st = m_pUserStack t ! m_nStateLevel t
      in if st = 0 \<or> \<not> va_mapped va (st - 4096)
         then (va_new_stack va, t\<lparr>m_pUserStack := (m_pUserStack t)[m_nStateLevel t := va_new_stack va]\<rparr>)
         else (st, t))"

definition enter_handler :: "bool \<Rightarrow> event \<Rightarrow> u64 \<Rightarrow> event_thread \<Rightarrow> dispatch \<times> event_thread" where
  "enter_handler flags e userStack t =
     (if flags then (CallKernel e (event_buffer t), popState t)
      else if userStack \<noteq> 0 then (JumpUser e userStack (event_buffer t), t)
      else (NoStack e, t))"

text \<open>\<open>flags\<close> says kernel mode: first of the page of the handler, then of the page below the
  stack that was given, then of the page of that stack.\<close>

definition checkEventState :: "address_space \<Rightarrow> u64 \<Rightarrow> event_thread \<Rightarrow> dispatch \<times> event_thread" where
  "checkEventState va userStack t =
     (case getNextEvent t of
        (None, t) \<Rightarrow> (NoEvent, t)
      | (Some e, t) \<Rightarrow>
          if \<not> va_mapped va (m_HandlerAddress e) then (NotMapped e, t)
          else
            let t = pushState t
            in case va_kernel va (m_HandlerAddress e) of
                 None \<Rightarrow> (Panic, t)
               | Some flags \<Rightarrow>
                   if flags then enter_handler flags e userStack t
                   else
                     case (if userStack \<noteq> 0 then va_kernel va (userStack - 4096) else Some flags) of
                       None \<Rightarrow> (Panic, t)
                     | Some flags \<Rightarrow>
                         if userStack = 0 \<or> flags then (let (st, t) = own_stack va t in enter_handler flags e st t)
                         else
                           case va_kernel va userStack of
                             None \<Rightarrow> (Panic, t)
                           | Some flags \<Rightarrow>
                               if flags then (PutBack e, sendEvent (Some e) t) else enter_handler flags e userStack t)"

definition eventHandlerReturned :: "event_thread \<Rightarrow> event_thread" where
  "eventHandlerReturned t = popState t"

end
