(* ===== verification/Event_Properties.thy ===== *)
theory Event_Properties
  imports Thread_Events
begin

text \<open>What the events of a thread are worth: which event is delivered, that handlers nest, where the
  event is written, and when a handler of a user program runs in the kernel.\<close>

section \<open>Lemmas\<close>

lemma next_event_loop:
  fixes inhibit :: ExtensibleBitmap and level :: nat
  defines "p \<equiv> held_back inhibit level"
  shows "length seen = i \<Longrightarrow> next_event inhibit level i (map Some (q @ seen)) =
    (case dropWhile p q of [] \<Rightarrow> (None, map Some (seen @ q)) | e # post \<Rightarrow> (Some e, map Some (post @ seen @ takeWhile p q)))"
proof (induction q arbitrary: i seen)
  case (Cons e q)
  show ?case
  proof (cases "p e")
    case True
    with Cons.prems have "next_event inhibit level i (map Some ((e # q) @ seen)) =
        next_event inhibit level (Suc i) (map Some (q @ seen @ [e]))"
      by (subst next_event.simps) (simp add: p_def)
    with Cons.IH [of "seen @ [e]" "Suc i"] Cons.prems True show ?thesis by (cases "dropWhile p q") (simp_all del: dropWhile_eq_Nil_conv)
  qed (use Cons.prems in \<open>subst next_event.simps, simp add: p_def\<close>)
qed (subst next_event.simps, simp)

lemma getNextEvent_keeps: "getNextEvent t = (r, t') \<Longrightarrow>
    m_nStateLevel t' = m_nStateLevel t \<and> m_InhibitMask t' = m_InhibitMask t \<and> m_Id t' = m_Id t \<and> m_pUserStack t' = m_pUserStack t"
  by (auto simp: getNextEvent_def split: prod.splits)

lemma sendEvent_keeps: "m_nStateLevel (sendEvent e t) = m_nStateLevel t" "m_InhibitMask (sendEvent e t) = m_InhibitMask t"
  "m_Id (sendEvent e t) = m_Id t" "m_pUserStack (sendEvent e t) = m_pUserStack t"
  by (auto simp: sendEvent_def Let_def)

lemma own_stack_keeps: "own_stack va t = (st, t') \<Longrightarrow>
    m_nStateLevel t' = m_nStateLevel t \<and> m_InhibitMask t' = m_InhibitMask t \<and> m_Id t' = m_Id t"
  by (auto simp: own_stack_def Let_def split: if_splits)

lemma pushState_level: "m_nStateLevel t < 15 \<Longrightarrow> m_nStateLevel (pushState t) = Suc (m_nStateLevel t)"
  "15 \<le> m_nStateLevel t \<Longrightarrow> pushState t = t" "m_Id (pushState t) = m_Id t"
  "\<forall>l \<le> m_nStateLevel t. m_InhibitMask (pushState t) ! l = m_InhibitMask t ! l"
  by (auto simp: pushState_def MAX_NESTED_EVENTS_def)

lemma popState_keeps: "m_nStateLevel (popState t) = m_nStateLevel t - 1" "m_InhibitMask (popState t) = m_InhibitMask t"
  by (auto simp: popState_def)

lemmas dispatch_defs = checkEventState_def enter_handler_def Let_def

text \<open>What a dispatch does to the level and the masks, for each of its results.\<close>

fun level_after :: "dispatch \<Rightarrow> nat \<Rightarrow> nat" where
  "level_after NoEvent l = l"
| "level_after (NotMapped e) l = l"
| "level_after Panic l = (if l < 15 then Suc l else l)"
| "level_after (NoStack e) l = (if l < 15 then Suc l else l)"
| "level_after (PutBack e) l = (if l < 15 then Suc l else l)"
| "level_after (CallKernel e a) l = (if l < 15 then l else l - 1)"
| "level_after (JumpUser e s a) l = (if l < 15 then Suc l else l)"

lemma dispatch_level:
  assumes "checkEventState va st t = (r, t')"
  shows "m_nStateLevel t' = level_after r (m_nStateLevel t) \<and> (\<forall>l \<le> m_nStateLevel t. m_InhibitMask t' ! l = m_InhibitMask t ! l)"
proof -
  obtain e t1 where g: "getNextEvent t = (e, t1)" by force
  note k = getNextEvent_keeps [OF g]
  show ?thesis
  proof (cases e)
    case (Some ev)
    show ?thesis
    proof (cases "va_mapped va (m_HandlerAddress ev)")
      case True
      obtain s t2 where o: "own_stack va (pushState t1) = (s, t2)" by force
      note ok = own_stack_keeps [OF o]
      have "r = NoEvent \<Longrightarrow> False" "r = NotMapped e' \<Longrightarrow> False" for e'
        using assms True Some g o by (auto simp: dispatch_defs split: if_splits option.splits)
      moreover have "t' = popState (pushState t1) \<or> t' = popState t2" if "r = CallKernel e' a" for e' a
        using assms True Some g o that by (auto simp: dispatch_defs split: if_splits option.splits)
      moreover have "t' = pushState t1 \<or> t' = t2" if "r = JumpUser e' s' a \<or> r = Panic \<or> r = NoStack e'" for e' s' a
        using assms True Some g o that by (auto simp: dispatch_defs split: if_splits option.splits)
      moreover have "t' = sendEvent (Some ev) (pushState t1)" if "r = PutBack e'" for e'
        using assms True Some g o that by (auto simp: dispatch_defs split: if_splits option.splits)
      ultimately show ?thesis using k ok pushState_level [of t1]
        by (cases r; cases "m_nStateLevel t < 15") (auto simp: popState_keeps sendEvent_keeps)
    qed (use assms g Some k in \<open>auto simp: dispatch_defs\<close>)
  qed (use assms g k in \<open>auto simp: checkEventState_def\<close>)
qed

lemma inhibitEvent_keeps: "inhibitEvent n b t = Some t' \<Longrightarrow>
    m_nStateLevel t' = m_nStateLevel t \<and> (\<forall>l < m_nStateLevel t. m_InhibitMask t' ! l = m_InhibitMask t ! l)"
  by (auto simp: inhibitEvent_def split: Option.bind_splits if_splits)

section \<open>Nesting\<close>

text \<open>What can happen between the entry of a handler and its return: events are sent and culled, the
  handler changes its mask, and other handlers run inside of it and return.\<close>

inductive balanced :: "event_thread \<Rightarrow> event_thread \<Rightarrow> bool" where
  start: "balanced t t"
| send: "balanced t u \<Longrightarrow> balanced t (sendEvent e u)"
| inhibit: "balanced t u \<Longrightarrow> inhibitEvent n b u = Some v \<Longrightarrow> balanced t v"
| cull: "balanced t u \<Longrightarrow> balanced t (cullEvent i u)"
| cull_number: "balanced t u \<Longrightarrow> cullEvent_number n u = Some v \<Longrightarrow> balanced t v"
| kernel: "balanced t u \<Longrightarrow> checkEventState va st u = (CallKernel e a, v) \<Longrightarrow> m_nStateLevel u < 15 \<Longrightarrow> balanced t v"
| nested: "balanced t u \<Longrightarrow> checkEventState va st u = (JumpUser e s a, v) \<Longrightarrow> m_nStateLevel u < 15 \<Longrightarrow>
    balanced v w \<Longrightarrow> balanced t (eventHandlerReturned w)"

lemma balanced_keeps: "balanced t u \<Longrightarrow>
    m_nStateLevel u = m_nStateLevel t \<and> (\<forall>l < m_nStateLevel t. m_InhibitMask u ! l = m_InhibitMask t ! l)"
proof (induction rule: balanced.induct)
  case (inhibit t u n b v)
  then show ?case using inhibitEvent_keeps [of n b u v] by auto
next
  case (cull_number t u n v)
  then show ?case by (auto simp: cullEvent_number_def)
next
  case (kernel t u va st e a v)
  then show ?case using dispatch_level [of va st u] by auto
next
  case (nested t u va st e s a v w)
  then show ?case using dispatch_level [of va st u] by (auto simp: eventHandlerReturned_def popState_keeps)
qed (auto simp: sendEvent_keeps cullEvent_def)

section \<open>Properties\<close>

text \<open>The event that is delivered is the first of the queue that the mask and the nesting level allow;
  no event is lost, but those that were held back are now behind all the others.\<close>

theorem getNextEvent_delivers:
  assumes "m_EventQueue t = map Some q"
  shows "getNextEvent t =
    (case dropWhile (held_back (current_mask t) (m_nStateLevel t)) q of
       [] \<Rightarrow> (None, t)
     | e # post \<Rightarrow>
         (Some e, t\<lparr>m_EventQueue := map Some (post @ takeWhile (held_back (current_mask t) (m_nStateLevel t)) q)\<rparr>))"
  using next_event_loop [of "[]" 0 "current_mask t" "m_nStateLevel t" q] assms
  by (cases "dropWhile (held_back (current_mask t) (m_nStateLevel t)) q")
    (simp_all add: getNextEvent_def del: dropWhile_eq_Nil_conv)

text \<open>C26: When the handler of a user program that was entered below the highest level returns, the thread is
  at the level at which it was interrupted, with the masks of that level and of those below as they were,
  whatever the handler masked and whichever handlers, entered below the highest level, ran inside of it
  and returned.  (An event that is put back is not such a handler.)\<close>

theorem handler_restores_masks:
  assumes "checkEventState va st t = (JumpUser e s a, t1)" "m_nStateLevel t < 15" "balanced t1 t2"
  shows "m_nStateLevel (eventHandlerReturned t2) = m_nStateLevel t \<and>
    (\<forall>l \<le> m_nStateLevel t. m_InhibitMask (eventHandlerReturned t2) ! l = m_InhibitMask t ! l)"
  using dispatch_level [OF assms(1)] assms(2) balanced_keeps [OF assms(3)]
  by (auto simp: eventHandlerReturned_def popState_keeps less_Suc_eq_le)

text \<open>At the highest level the dispatch goes on although the push failed: the event is written over the
  event of the handler that is running, and the return goes to the level below that handler.\<close>

theorem nested_too_deep:
  assumes "checkEventState va st t = (JumpUser e s a, t1)" "m_nStateLevel t = 15"
  shows "a = event_buffer t \<and> m_nStateLevel t1 = 15 \<and> m_nStateLevel (eventHandlerReturned t1) = 14"
proof -
  obtain t0 where g: "getNextEvent t = (Some e, t0)" and a: "a = event_buffer t0"
  proof -
    obtain e' t0 where g: "getNextEvent t = (e', t0)" by force
    note k = getNextEvent_keeps [OF g]
    with assms g that show ?thesis
      by (auto simp: dispatch_defs pushState_level event_buffer_def own_stack_def split: option.splits if_splits)
  qed
  with getNextEvent_keeps [OF g] dispatch_level [OF assms(1)] assms(2) show ?thesis
    by (simp add: event_buffer_def eventHandlerReturned_def popState_keeps)
qed

text \<open>An event that is put back because the stack belongs to the kernel leaves the thread one level
  higher.\<close>

theorem put_back_keeps_level:
  assumes "checkEventState va st t = (PutBack e, t1)" "m_nStateLevel t < 15"
  shows "m_nStateLevel t1 = Suc (m_nStateLevel t)"
  using dispatch_level [OF assms(1)] assms(2) by simp

text \<open>C28: For an event that is delivered and whose handler is mapped: the handler runs in kernel mode when its page belongs to the kernel, but also when the page below the
  stack that was given does: then the handler of a user program is called in kernel mode.  (In 64 bits: the page
  below a stack in the first page is the last page of the address space.)\<close>

theorem handler_in_kernel_iff:
  assumes "getNextEvent t = (Some e, t')" "va_mapped va (m_HandlerAddress e)"
  shows "(\<exists>a t1. checkEventState va st t = (CallKernel e a, t1)) \<longleftrightarrow>
    va_kernel va (m_HandlerAddress e) = Some True \<or>
    va_kernel va (m_HandlerAddress e) = Some False \<and> st \<noteq> 0 \<and> va_kernel va (st - 4096) = Some True"
  using assms by (auto simp: dispatch_defs split: prod.splits option.splits)

text \<open>The look below the stack that was given panics when that page is not there.\<close>

theorem unmapped_stack_panics:
  assumes "getNextEvent t = (Some e, t')" "va_mapped va (m_HandlerAddress e)" "va_kernel va (m_HandlerAddress e) = Some False"
    and "st \<noteq> 0" "va_kernel va (st - 4096) = None"
  shows "fst (checkEventState va st t) = Panic"
  using assms by (simp add: dispatch_defs)

text \<open>The page an event is written to lies in the region for events exactly for thread numbers below 255,
  which nothing checks; and the pages of different threads and levels are apart.\<close>

lemma event_buffer_nat:
  assumes "1 \<le> m_nStateLevel t" "m_nStateLevel t < MAX_NESTED_EVENTS" "m_Id t < 2 ^ 40"
  shows "unat (event_buffer t) = EVENT_HANDLER_BUFFER + (m_Id t * MAX_NESTED_EVENTS + (m_nStateLevel t - 1)) * EVENT_LIMIT"
proof -
  let ?n = "EVENT_HANDLER_BUFFER + (m_Id t * MAX_NESTED_EVENTS + (m_nStateLevel t - 1)) * EVENT_LIMIT"
  have "event_buffer t = of_nat ?n" using assms(1) by (simp add: event_buffer_def of_nat_diff add_diff_eq)
  moreover have "?n < 2 ^ 64"
    using assms by (simp add: EVENT_HANDLER_BUFFER_def EVENT_BASE_def MAX_NESTED_EVENTS_def EVENT_LIMIT_def)
  ultimately show ?thesis by (simp only: unat_of_nat) simp
qed

theorem event_buffer_bounds:
  assumes "1 \<le> m_nStateLevel t" "m_nStateLevel t < MAX_NESTED_EVENTS" "m_Id t < 2 ^ 40"
    and "1 \<le> m_nStateLevel u" "m_nStateLevel u < MAX_NESTED_EVENTS" "m_Id u < 2 ^ 40"
    and "(m_Id t, m_nStateLevel t) \<noteq> (m_Id u, m_nStateLevel u)"
  shows "EVENT_HANDLER_BUFFER \<le> unat (event_buffer t) \<and>
    (unat (event_buffer t) + EVENT_LIMIT \<le> EVENT_HANDLER_END \<longleftrightarrow> m_Id t < EVENT_TID_MAX) \<and>
    (unat (event_buffer t) + EVENT_LIMIT \<le> unat (event_buffer u) \<or> unat (event_buffer u) + EVENT_LIMIT \<le> unat (event_buffer t))"
proof -
  have sep: "(i * 16 + k) * 4096 + 4096 \<le> (j * 16 + l) * 4096 \<or> (j * 16 + l) * 4096 + 4096 \<le> (i * 16 + k) * (4096 :: nat)"
    if "k < 16" "l < 16" "i \<noteq> j \<or> k \<noteq> l" for i j k l :: nat
  proof -
    have "(i * 16 + k) div 16 = i" "(j * 16 + l) div 16 = j" "(i * 16 + k) mod 16 = k" "(j * 16 + l) mod 16 = l" using that by auto
    then have "i * 16 + k \<noteq> j * 16 + l" using that(3) by metis
    then consider "i * 16 + k + 1 \<le> j * 16 + l" | "j * 16 + l + 1 \<le> i * 16 + k" by linarith
    then show ?thesis by cases (simp_all add: algebra_simps)
  qed
  have "m_nStateLevel t - 1 < 16" "m_nStateLevel u - 1 < 16" "m_Id t \<noteq> m_Id u \<or> m_nStateLevel t - 1 \<noteq> m_nStateLevel u - 1"
    using assms by (auto simp: MAX_NESTED_EVENTS_def)
  from sep [OF this] assms(1,2) show ?thesis
    unfolding event_buffer_nat [OF assms(1-3)] event_buffer_nat [OF assms(4-6)]
    by (auto simp: EVENT_HANDLER_END_def MAX_NESTED_EVENTS_def EVENT_LIMIT_def EVENT_TID_MAX_def)
qed

text \<open>A thread that inhibits the signal \<open>n\<close> inhibits the event \<open>n + 32\<close> too: with signal 5, the input
  events.\<close>

theorem signal_inhibits_event:
  assumes "inhibitEvent n True t = Some t'" "n < 32" "ev_number e = n + 32" "m_EventQueue t = [Some e]"
    and "bitmap_ok (current_mask t)" "m_nStateLevel t < length (m_InhibitMask t)"
  shows "fst (getNextEvent t') = None"
proof -
  have "ExtensibleBitmap_test (n + 32) c = ExtensibleBitmap_test n c" for c
    using assms(2) by (simp add: ExtensibleBitmap_test_def int_bit_def)
  with set_self [OF assms(5)] have "ExtensibleBitmap_test (n + 32) (ExtensibleBitmap_set n (current_mask t))" by simp
  moreover have "current_mask t' = ExtensibleBitmap_set n (current_mask t)" "m_EventQueue t' = map Some [e]"
    using assms(1,4,6) by (auto simp: inhibitEvent_def current_mask_def)
  ultimately show ?thesis
    using next_event_loop [of "[]" 0 "current_mask t'" "m_nStateLevel t'" "[e]"] assms(3)
    by (simp add: getNextEvent_def held_back_def split: prod.splits)
qed

text \<open>Culling an event leaves it in the queue exactly when it is there twice in a row.\<close>

lemma cull_event_head: "map_option ev_id x \<noteq> Some i \<Longrightarrow>
    (\<exists>us vs. map (map_option ev_id) (x # xs) = us @ [Some i, Some i] @ vs) \<longleftrightarrow>
    (\<exists>us vs. map (map_option ev_id) xs = us @ [Some i, Some i] @ vs)"
  by (auto simp: Cons_eq_append_conv)

lemma cull_event_left: "Some i \<in> map_option ev_id ` set (cull_event i q) \<longleftrightarrow>
    (\<exists>us vs. map (map_option ev_id) q = us @ [Some i, Some i] @ vs)"
proof (induction i q rule: cull_event.induct)
  case (2 i x xs)
  show ?case
  proof (cases "map_option ev_id x = Some i")
    case False
    then have "Some i \<noteq> map_option ev_id x" by metis
    moreover have "cull_event i (x # xs) = x # cull_event i xs" using False by (simp only: cull_event.simps if_False)
    ultimately have "Some i \<in> map_option ev_id ` set (cull_event i (x # xs)) \<longleftrightarrow> Some i \<in> map_option ev_id ` set (cull_event i xs)"
      by simp
    then show ?thesis using 2(2) [OF False] cull_event_head [OF False, of xs] by blast
  next
    case True
    show ?thesis
    proof (cases xs)
      case (Cons y ys)
      show ?thesis
      proof (cases "map_option ev_id y = Some i")
        case True
        then have "map (map_option ev_id) (x # xs) = [] @ [Some i, Some i] @ map (map_option ev_id) ys"
          using \<open>map_option ev_id x = Some i\<close> Cons by simp
        moreover have "Some i \<in> map_option ev_id ` set (cull_event i (x # xs))"
          using \<open>map_option ev_id x = Some i\<close> Cons True by (simp add: True)
        ultimately show ?thesis by blast
      next
        case False
        have "(\<exists>us vs. map (map_option ev_id) (x # xs) = us @ [Some i, Some i] @ vs) \<longleftrightarrow>
            (\<exists>us vs. map (map_option ev_id) xs = us @ [Some i, Some i] @ vs)"
          using False Cons by (auto simp: Cons_eq_append_conv) blast
        moreover have "Some i \<noteq> map_option ev_id y" using False by metis
        moreover have "cull_event i (x # xs) = y # cull_event i ys" using True Cons by simp
        ultimately show ?thesis using cull_event_head [OF False, of ys] 2(1) [OF True Cons] Cons by simp
      qed
    qed (use True in \<open>simp add: Cons_eq_append_conv\<close>)
  qed
qed simp

theorem cullEvent_incomplete_iff:
  "Some i \<in> map_option ev_id ` set (m_EventQueue (cullEvent i t)) \<longleftrightarrow>
     (\<exists>us vs. map (map_option ev_id) (m_EventQueue t) = us @ [Some i, Some i] @ vs)"
  using cull_event_left [of i "m_EventQueue t"] by (simp add: cullEvent_def)

section \<open>Instances\<close>

definition sample_event :: event where
  "sample_event = \<lparr>ev_id = 1, m_HandlerAddress = 0x2000, m_bIsDeletable = False, m_NestingLevel = None, ev_number = 5\<rparr>"

definition sample_space :: address_space where
  "sample_space = \<lparr>va_mapped = (\<lambda>_. True), va_kernel = (\<lambda>a. Some (0x100000 \<le> a)), va_new_stack = 0x6000\<rparr>"

definition sample_thread :: "nat \<Rightarrow> event_thread" where
  "sample_thread l = sendEvent (Some sample_event) ((event_thread_new 3)\<lparr>m_nStateLevel := l\<rparr>)"

lemmas sample_defs = sample_event_def sample_space_def sample_thread_def sendEvent_def event_thread_new_def MAX_NESTED_EVENTS_def

lemma sample_thread: "m_EventQueue (sample_thread l) = map Some [sample_event]" "m_nStateLevel (sample_thread l) = l"
  "m_Id (sample_thread l) = 3" "l < 16 \<Longrightarrow> current_mask (sample_thread l) = ExtensibleBitmap_new"
  "l < 16 \<Longrightarrow> m_InhibitMask (sample_thread l) ! l = ExtensibleBitmap_new"
  by (simp_all add: sample_defs current_mask_def)

lemma new_clear: "\<not> ExtensibleBitmap_test n ExtensibleBitmap_new"
  by (simp add: ExtensibleBitmap_test_def ExtensibleBitmap_new_def)

lemma sample_next:
  assumes "l < 16"
  shows "getNextEvent (sample_thread l) = (Some sample_event, sample_thread l\<lparr>m_EventQueue := []\<rparr>)"
proof -
  have "\<not> held_back (current_mask (sample_thread l)) l sample_event"
    using assms by (simp add: held_back_def sample_thread new_clear) (simp add: sample_event_def)
  then show ?thesis
    using next_event_loop [of "[]" 0 "current_mask (sample_thread l)" l "[sample_event]"]
    by (simp add: getNextEvent_def sample_thread)
qed

lemma sample_jump: "fst (checkEventState sample_space 0x8000 (sample_thread 0)) = JumpUser sample_event 0x8000 0x80031000"
  "fst (checkEventState sample_space 0x8000 (sample_thread 15)) = JumpUser sample_event 0x8000 0x8003f000"
  "fst (checkEventState sample_space 0x100000 (sample_thread 0)) = PutBack sample_event"
  by (simp_all add: checkEventState_def sample_next Let_def pushState_def event_buffer_def sample_thread)
    (simp_all add: sample_defs enter_handler_def event_buffer_def EVENT_HANDLER_BUFFER_def EVENT_BASE_def EVENT_LIMIT_def)

theorem getNextEvent_delivers_witness:
  "getNextEvent ((event_thread_new 3)\<lparr>m_EventQueue := map Some [sample_event\<lparr>m_NestingLevel := Some 2\<rparr>, sample_event]\<rparr>) =
    (Some sample_event, (event_thread_new 3)\<lparr>m_EventQueue := map Some [sample_event\<lparr>m_NestingLevel := Some 2\<rparr>]\<rparr>)"
proof -
  let ?q = "[sample_event\<lparr>m_NestingLevel := Some 2\<rparr>, sample_event]"
  let ?t = "(event_thread_new 3)\<lparr>m_EventQueue := map Some ?q\<rparr>"
  have h: "held_back (current_mask ?t) (m_nStateLevel ?t) (sample_event\<lparr>m_NestingLevel := Some 2\<rparr>)"
    "\<not> held_back (current_mask ?t) (m_nStateLevel ?t) sample_event"
    by (simp_all add: held_back_def event_thread_new_def current_mask_def MAX_NESTED_EVENTS_def new_clear sample_event_def)
  then show ?thesis using getNextEvent_delivers [of ?t ?q] by simp
qed

theorem handler_restores_masks_witness:
  "\<exists>t1 t2. checkEventState sample_space 0x8000 (sample_thread 0) = (JumpUser sample_event 0x8000 0x80031000, t1) \<and>
    inhibitEvent 7 True t1 = Some t2 \<and> m_InhibitMask (eventHandlerReturned t2) ! 0 = ExtensibleBitmap_new"
proof -
  obtain t1 where t1: "checkEventState sample_space 0x8000 (sample_thread 0) = (JumpUser sample_event 0x8000 0x80031000, t1)"
    using sample_jump(1) by (metis prod.collapse)
  obtain t2 where t2: "inhibitEvent 7 True t1 = Some t2" by (simp add: inhibitEvent_def)
  from handler_restores_masks [OF t1 _ balanced.inhibit [OF balanced.start t2]] sample_thread [of 0] t1 t2 show ?thesis by auto
qed

theorem nested_too_deep_witness:
  "\<exists>t1. checkEventState sample_space 0x8000 (sample_thread 15) = (JumpUser sample_event 0x8000 0x8003f000, t1) \<and>
    m_nStateLevel (eventHandlerReturned t1) = 14"
proof -
  obtain t1 where t1: "checkEventState sample_space 0x8000 (sample_thread 15) = (JumpUser sample_event 0x8000 0x8003f000, t1)"
    using sample_jump(2) by (metis prod.collapse)
  from nested_too_deep [OF t1] sample_thread [of 15] t1 show ?thesis by auto
qed

theorem put_back_keeps_level_witness:
  "\<exists>t1. checkEventState sample_space 0x100000 (sample_thread 0) = (PutBack sample_event, t1) \<and> m_nStateLevel t1 = 1"
proof -
  obtain t1 where t1: "checkEventState sample_space 0x100000 (sample_thread 0) = (PutBack sample_event, t1)"
    using sample_jump(3) by (metis prod.collapse)
  from put_back_keeps_level [OF t1] sample_thread [of 0] t1 show ?thesis by auto
qed

theorem handler_in_kernel_iff_witness:
  "va_kernel sample_space (m_HandlerAddress sample_event) = Some False \<and>
    (\<exists>a t1. checkEventState sample_space 0x101fff (sample_thread 0) = (CallKernel sample_event a, t1))"
proof -
  have m: "va_mapped sample_space (m_HandlerAddress sample_event)" by (simp add: sample_defs)
  note h = handler_in_kernel_iff [OF sample_next m, of 0 "0x101fff"]
  have "va_kernel sample_space (m_HandlerAddress sample_event) = Some False" "va_kernel sample_space (0x101fff - 4096) = Some True"
    by (simp_all add: sample_defs)
  then show ?thesis using h by simp
qed

text \<open>A stack in the first page, with nothing mapped at the end of the address space.\<close>

theorem unmapped_stack_panics_witness:
  "fst (checkEventState (sample_space\<lparr>va_kernel := (\<lambda>a. if a < 0x100000 then Some False else None)\<rparr>) 0x800 (sample_thread 0)) = Panic"
proof -
  have "va_mapped sample_space (m_HandlerAddress sample_event)" "m_HandlerAddress sample_event < 0x100000" by (simp_all add: sample_defs)
  then show ?thesis by (intro unmapped_stack_panics [OF sample_next]) simp_all
qed

theorem event_buffer_bounds_witness:
  "unat (event_buffer (sample_thread 1)) + EVENT_LIMIT \<le> EVENT_HANDLER_END \<and>
    (unat (event_buffer (sample_thread 1)) + EVENT_LIMIT \<le> unat (event_buffer (sample_thread 2)) \<or>
     unat (event_buffer (sample_thread 2)) + EVENT_LIMIT \<le> unat (event_buffer (sample_thread 1)))"
proof -
  have "1 \<le> m_nStateLevel (sample_thread 1)" "m_nStateLevel (sample_thread 1) < MAX_NESTED_EVENTS"
    "m_Id (sample_thread 1) < 2 ^ 40" "1 \<le> m_nStateLevel (sample_thread 2)" "m_nStateLevel (sample_thread 2) < MAX_NESTED_EVENTS" "m_Id (sample_thread 2) < 2 ^ 40"
    "(m_Id (sample_thread 1), m_nStateLevel (sample_thread 1)) \<noteq> (m_Id (sample_thread 2), m_nStateLevel (sample_thread 2))"
    "m_Id (sample_thread 1) < EVENT_TID_MAX"
    by (simp_all add: sample_thread MAX_NESTED_EVENTS_def EVENT_TID_MAX_def)
  with event_buffer_bounds [OF this(1-7)] show ?thesis by blast
qed

theorem signal_inhibits_event_witness:
  "\<exists>t'. inhibitEvent 5 True (sendEvent (Some (sample_event\<lparr>ev_number := 37\<rparr>)) (event_thread_new 3)) = Some t' \<and>
    fst (getNextEvent t') = None"
proof -
  let ?t = "sendEvent (Some (sample_event\<lparr>ev_number := 37\<rparr>)) (event_thread_new 3)"
  obtain t' where t': "inhibitEvent 5 True ?t = Some t'" by (simp add: inhibitEvent_def)
  have "m_EventQueue ?t = [Some (sample_event\<lparr>ev_number := 37\<rparr>)]" "current_mask ?t = ExtensibleBitmap_new"
    "m_nStateLevel ?t < length (m_InhibitMask ?t)"
    by (simp_all add: sendEvent_def event_thread_new_def current_mask_def MAX_NESTED_EVENTS_def)
  with signal_inhibits_event [OF t', of "sample_event\<lparr>ev_number := 37\<rparr>"] t' new_ok show ?thesis by simp
qed

end
