(* ===== verification/Disk_Bytes.thy ===== *)
theory Disk_Bytes
  imports Pedigree_Prelude
begin

unbundle bit_operations_syntax

text \<open>Numbers in the structures of a disk, lowest byte first, and the replacement of a part of a buffer.\<close>

section \<open>Numbers\<close>

definition le16 :: "u8 \<Rightarrow> u8 \<Rightarrow> u16" where
  "le16 a b = ucast a OR push_bit 8 (ucast b)"

definition le32 :: "u16 \<Rightarrow> u16 \<Rightarrow> u32" where
  "le32 a b = ucast a OR push_bit 16 (ucast b)"

definition bytes16 :: "u16 \<Rightarrow> u8 list" where
  "bytes16 w = [ucast w, ucast (drop_bit 8 w)]"

definition bytes32 :: "u32 \<Rightarrow> u8 list" where
  "bytes32 w = bytes16 (ucast w) @ bytes16 (ucast (drop_bit 16 w))"

lemma le16_bytes: "le16 (ucast w) (ucast (drop_bit 8 w)) = w"
  by (rule bit_word_eqI) (auto simp: le16_def bit_simps)

lemma le32_words: "le32 (ucast w) (ucast (drop_bit 16 w)) = w"
  by (rule bit_word_eqI) (auto simp: le32_def bit_simps)

lemma le32_low: "le32 a b AND 0xFFFF = ucast a"
proof -
  have "(0xFFFF :: u32) = mask 16" by (simp add: mask_eq_exp_minus_1)
  moreover have "le32 a b AND mask 16 = ucast a"
    by (rule bit_word_eqI) (auto simp: le32_def bit_simps dest: bit_imp_le_length)
  ultimately show ?thesis by simp
qed

lemma length_bytes [simp]: "length (bytes16 w) = 2" "length (bytes32 v) = 4"
  by (simp_all add: bytes16_def bytes32_def)

section \<open>Parts of a buffer\<close>

definition splice :: "nat \<Rightarrow> 'a list \<Rightarrow> 'a list \<Rightarrow> 'a list" where
  "splice i bs old = take i old @ bs @ drop (i + length bs) old"

lemma splice_all: "length bs = length old \<Longrightarrow> splice 0 bs old = bs"
  by (simp add: splice_def)

lemma splice_Nil [simp]: "splice i [] old = old"
  by (simp add: splice_def)

lemma length_splice: "i + length bs \<le> length old \<Longrightarrow> length (splice i bs old) = length old"
  by (simp add: splice_def)

lemma splice_append: "i + length bs \<le> length old \<Longrightarrow> splice i bs (old @ rest) = splice i bs old @ rest"
  by (simp add: splice_def)

lemma splice_over: "length old \<le> length bs \<Longrightarrow>
    splice 0 bs (old @ rest) = take (length old) bs @ splice 0 (drop (length old) bs) rest"
  by (simp add: splice_def)

lemma splice_skip: "n \<le> length pre \<Longrightarrow> length pre = n \<Longrightarrow> splice (n + i) bs (pre @ old) = pre @ splice i bs old"
  by (simp add: splice_def add.assoc)

lemma take_splice: "i + length bs \<le> length old \<Longrightarrow> take (length bs) (drop i (splice i bs old)) = bs"
  by (simp add: splice_def)

lemma nth_splice:
  "i + length bs \<le> length old \<Longrightarrow> j < length old \<Longrightarrow> splice i bs old ! j = (if i \<le> j \<and> j < i + length bs then bs ! (j - i) else old ! j)"
  by (auto simp: splice_def nth_append min_def not_less)

end
