(* ===== verification/Fat_Table.thy ===== *)
theory Fat_Table
  imports Disk_Bytes "HOL-Library.Monad_Syntax"
begin

unbundle bit_operations_syntax

text \<open>
  The FAT filesystem, first part: the volume, sectors and clusters, and the entries of the file
  allocation table (\<^verbatim>\<open>modules/system/fat/FatFilesystem.cc\<close>, \<^verbatim>\<open>fat.h\<close>).  The disk is the class
  \<open>Disk\<close>: \<open>read\<close> gives a pointer into a page that holds 4096 bytes of the disk, and null beyond its
  end; pages start at multiples of 4096.  A result \<open>None\<close> is a panic (\<^verbatim>\<open>FATAL\<close>), a null dereference, or
  a write past the end of such a page.

  The table is cached: a buffer holds two sectors of it, and the map \<open>m_FatCache\<close> takes the number of
  a sector to a pointer to the first or the second half of a buffer.  The bytes behind the end of a
  buffer are an argument of the model, \<open>behind\<close>, because the code reads them.
\<close>

datatype FatType = FAT12 | FAT16 | FAT32

record fat_fs =
  BPB_BytsPerSec :: nat
  BPB_SecPerClus :: nat
  BPB_TotSec16 :: nat
  BPB_TotSec32 :: nat
  BPB_RootClus :: u32
  FSI_NxtFree :: u32
  m_Type :: FatType
  m_DataAreaStart :: u32
  m_RootDirCount :: u32
  m_RootDir :: u32
  m_FatSector :: nat
  m_BlockSize :: nat
  m_FreeClusterHint :: u32
  m_FatCache :: "nat \<Rightarrow> (nat \<times> nat) option"
  fat_buffers :: "u8 list list"
  behind :: "nat \<Rightarrow> nat \<Rightarrow> u8"
  disk :: "nat \<Rightarrow> u8"
  disk_size :: nat

section \<open>Sectors and clusters\<close>

function read_chunks :: "fat_fs \<Rightarrow> nat \<Rightarrow> nat \<Rightarrow> u8 list option" where
  "read_chunks fs loc n =
     (if n = 0 then Some []
      else if disk_size fs \<le> loc then None
      else map_option (\<lambda>rest. map (disk fs) [loc ..< loc + min 512 n] @ rest)
             (read_chunks fs (loc + min 512 n) (n - min 512 n)))"
  by auto
termination by (relation "measure (\<lambda>(fs, loc, n). n)") auto

declare read_chunks.simps [simp del]

definition readSectorBlock :: "fat_fs \<Rightarrow> u32 \<Rightarrow> nat \<Rightarrow> u8 list option" where
  "readSectorBlock fs sec n = read_chunks fs (BPB_BytsPerSec fs * unat sec) n"

definition store_bytes :: "nat \<Rightarrow> u8 list \<Rightarrow> (nat \<Rightarrow> u8) \<Rightarrow> nat \<Rightarrow> u8" where
  "store_bytes loc bs d i = (if loc \<le> i \<and> i < loc + length bs then bs ! (i - loc) else d i)"

function write_chunks :: "nat \<Rightarrow> u8 list \<Rightarrow> fat_fs \<Rightarrow> fat_fs option" where
  "write_chunks loc bs fs =
     (if bs = [] then Some fs
      else
        let sz = min 4096 (length bs)
        in if disk_size fs \<le> loc \<or> 4096 < loc mod 4096 + sz then None
           else write_chunks (loc + sz) (drop sz bs) (fs\<lparr>disk := store_bytes loc (take sz bs) (disk fs)\<rparr>))"
  by auto
termination by (relation "measure (\<lambda>(loc, bs, fs). length bs)") (auto simp: Let_def)

declare write_chunks.simps [simp del]

definition writeSectorBlock :: "u32 \<Rightarrow> u8 list \<Rightarrow> fat_fs \<Rightarrow> fat_fs option" where
  "writeSectorBlock sec bs fs = write_chunks (BPB_BytsPerSec fs * unat sec) bs fs"

definition getSectorNumber :: "fat_fs \<Rightarrow> u32 \<Rightarrow> u32" where
  "getSectorNumber fs cluster = (cluster - 2) * of_nat (BPB_SecPerClus fs) + m_DataAreaStart fs"

definition readCluster :: "fat_fs \<Rightarrow> u32 \<Rightarrow> u8 list option" where
  "readCluster fs block = readSectorBlock fs (getSectorNumber fs block) (m_BlockSize fs)"

definition writeCluster :: "u32 \<Rightarrow> u8 list \<Rightarrow> fat_fs \<Rightarrow> fat_fs option" where
  "writeCluster block bs fs = writeSectorBlock (getSectorNumber fs block) bs fs"

section \<open>Entries of the table\<close>

definition eofValue :: "fat_fs \<Rightarrow> u32" where
  "eofValue fs = (case m_Type fs of FAT12 \<Rightarrow> 0x0FF8 | FAT16 \<Rightarrow> 0xFFF8 | FAT32 \<Rightarrow> 0x0FFFFFF8)"

definition isEof :: "fat_fs \<Rightarrow> u32 \<Rightarrow> bool" where
  "isEof fs cluster \<longleftrightarrow> cluster \<ge> eofValue fs"

definition fatOffset :: "FatType \<Rightarrow> u32 \<Rightarrow> nat" where
  "fatOffset ty cluster =
     unat (case ty of FAT12 \<Rightarrow> cluster + cluster div 2 | FAT16 \<Rightarrow> cluster * 2 | FAT32 \<Rightarrow> cluster * 4)"

text \<open>A byte at a pointer: buffer \<open>b\<close>, position \<open>i\<close> from its start.\<close>

definition buffer_byte :: "fat_fs \<Rightarrow> nat \<Rightarrow> nat \<Rightarrow> u8" where
  "buffer_byte fs b i =
     (if i < length (fat_buffers fs ! b) then fat_buffers fs ! b ! i else behind fs b (i - length (fat_buffers fs ! b)))"

definition read16 :: "fat_fs \<Rightarrow> nat \<Rightarrow> nat \<Rightarrow> u16" where
  "read16 fs b i = le16 (buffer_byte fs b i) (buffer_byte fs b (i + 1))"

definition read32 :: "fat_fs \<Rightarrow> nat \<Rightarrow> nat \<Rightarrow> u32" where
  "read32 fs b i = le32 (read16 fs b i) (read16 fs b (i + 2))"

text \<open>\<open>Tree::insert\<close> leaves a key that is there alone.\<close>

definition cache_insert :: "nat \<Rightarrow> nat \<times> nat \<Rightarrow> (nat \<Rightarrow> (nat \<times> nat) option) \<Rightarrow> nat \<Rightarrow> (nat \<times> nat) option" where
  "cache_insert s p m = (if m s = None then m(s \<mapsto> p) else m)"

definition load_sectors :: "nat \<Rightarrow> fat_fs \<Rightarrow> fat_fs option" where
  "load_sectors s fs = do {
     bs \<leftarrow> readSectorBlock fs (of_nat (m_FatSector fs + s)) (BPB_BytsPerSec fs * 2);
     let b = length (fat_buffers fs);
     Some (fs\<lparr>fat_buffers := fat_buffers fs @ [bs],
              m_FatCache := cache_insert (s + 1) (b, 1) (cache_insert s (b, 0) (m_FatCache fs))\<rparr>) }"

definition decode_entry :: "FatType \<Rightarrow> u32 \<Rightarrow> u32 \<Rightarrow> u32" where
  "decode_entry ty cluster fatEntry =
     (case ty of
        FAT12 \<Rightarrow> (if cluster AND 1 \<noteq> 0 then drop_bit 4 fatEntry else fatEntry AND 0x0FFF) AND 0xFFFF
      | FAT16 \<Rightarrow> fatEntry AND 0xFFFF
      | FAT32 \<Rightarrow> fatEntry AND 0x0FFFFFFF)"

definition getClusterEntry :: "u32 \<Rightarrow> fat_fs \<Rightarrow> (u32 \<times> fat_fs) option" where
  "getClusterEntry cluster fs =
     (let off = fatOffset (m_Type fs) cluster; s = off div BPB_BytsPerSec fs; i = off mod BPB_BytsPerSec fs
      in case m_FatCache fs s of
           Some (b, h) \<Rightarrow>
             if m_Type fs = FAT12 then None
             else Some (decode_entry (m_Type fs) cluster (read32 fs b (h * BPB_BytsPerSec fs + i)), fs)
         | None \<Rightarrow>
             (case load_sectors s fs of
                None \<Rightarrow> Some (0, fs)
              | Some fs' \<Rightarrow> Some (decode_entry (m_Type fs) cluster (read32 fs' (length (fat_buffers fs)) i), fs')))"

text \<open>\<open>setClusterEntry\<close> returns before it writes when the sector could not be read.\<close>

definition store_buffer :: "nat \<Rightarrow> nat \<Rightarrow> u8 list \<Rightarrow> fat_fs \<Rightarrow> fat_fs" where
  "store_buffer b i bs fs =
     fs\<lparr>fat_buffers := (fat_buffers fs)[b := (let old = fat_buffers fs ! b in take i old @ bs @ drop (i + length bs) old)]\<rparr>"

definition setClusterEntry :: "u32 \<Rightarrow> u32 \<Rightarrow> fat_fs \<Rightarrow> (u32 \<times> fat_fs) option" where
  "setClusterEntry cluster v fs =
     (if cluster = 0 then None
      else do {
        (ent, fs) \<leftarrow> getClusterEntry cluster fs;
        let off = fatOffset (m_Type fs) cluster;
        let s = off div BPB_BytsPerSec fs;
        let i = off mod BPB_BytsPerSec fs;
        (case m_FatCache fs s of
           None \<Rightarrow> Some (0, fs)
         | Some (b, h) \<Rightarrow>
             if m_Type fs = FAT12 then None
             else
               let setEnt = (if m_Type fs = FAT16 then v else (ent AND 0xF0000000) OR (v AND 0x0FFFFFFF));
                   bs = (if m_Type fs = FAT16 then bytes16 (ucast setEnt) else bytes32 setEnt);
                   p = h * BPB_BytsPerSec fs;
                   fs = store_buffer b (p + i) bs fs
               in map_option (Pair setEnt)
                    (writeSectorBlock (of_nat (m_FatSector fs + s)) (map (buffer_byte fs b) [p ..< p + 2 * BPB_BytsPerSec fs]) fs)) })"

section \<open>Free clusters\<close>

function find_free :: "nat \<Rightarrow> nat \<Rightarrow> fat_fs \<Rightarrow> (u32 \<times> fat_fs) option" where
  "find_free limit j fs =
     (if j < limit
      then do {
        (clus, fs) \<leftarrow> getClusterEntry (of_nat j) fs;
        (if clus AND (if m_Type fs = FAT32 then 0x0FFFFFFF else 0xFFFF) = 0
         then do {
           (_, fs) \<leftarrow> setClusterEntry (of_nat j) (eofValue fs) fs;
           Some (of_nat j, fs\<lparr>m_FreeClusterHint := of_nat (j + 1)\<rparr>) }
         else find_free limit (j + 1) fs) }
      else None)"
  by auto
termination by (relation "measure (\<lambda>(limit, j, fs). limit - j)") auto

declare find_free.simps [simp del]

definition findFreeCluster :: "fat_fs \<Rightarrow> (u32 \<times> fat_fs) option" where
  "findFreeCluster fs =
     (if BPB_TotSec32 fs = 0 \<and> m_Type fs = FAT32 then Some (0, fs)
      else
        let total = (if BPB_TotSec32 fs = 0 then BPB_TotSec16 fs else BPB_TotSec32 fs)
        in find_free (total div BPB_SecPerClus fs)
             (unat (if m_Type fs = FAT32 then FSI_NxtFree fs else m_FreeClusterHint fs)) fs)"

end
