(* ===== verification/Fat_Entries.thy ===== *)
theory Fat_Entries
  imports Fat_Table
begin

text \<open>The table as a map from clusters to entries: when \<open>getClusterEntry\<close> and \<open>setClusterEntry\<close> read and
  write the entry on the disk, and when they do not.\<close>

section \<open>Chunks\<close>

lemma read_chunks_ok: "loc + n \<le> disk_size fs \<Longrightarrow> read_chunks fs loc n = Some (map (disk fs) [loc ..< loc + n])"
proof (induction fs loc n rule: read_chunks.induct)
  case (1 fs loc n)
  show ?case
  proof (cases "n = 0")
    case False
    let ?k = "min 512 n"
    have "read_chunks fs (loc + ?k) (n - ?k) = Some (map (disk fs) [loc + ?k ..< loc + n])"
      using "1.IH" False "1.prems" by simp
    moreover have "[loc ..< loc + n] = [loc ..< loc + ?k] @ [loc + ?k ..< loc + n]"
      using upt_add_eq_append [of loc "loc + ?k" "n - ?k"] by simp
    ultimately show ?thesis using False "1.prems" by (subst read_chunks.simps) simp
  qed (simp add: read_chunks.simps)
qed

lemma store_bytes_split: "k \<le> length bs \<Longrightarrow> store_bytes (loc + k) (drop k bs) (store_bytes loc (take k bs) d) = store_bytes loc bs d"
  by (rule ext) (auto simp: store_bytes_def)

lemma store_bytes_Nil [simp]: "store_bytes loc [] d = d"
  by (rule ext) (auto simp: store_bytes_def)

definition fits :: "fat_fs \<Rightarrow> nat \<Rightarrow> nat \<Rightarrow> bool" where
  "fits fs loc n \<longleftrightarrow> loc + n \<le> disk_size fs \<and> (if n \<le> 4096 then loc mod 4096 + n \<le> 4096 else loc mod 4096 = 0)"

lemma write_chunks_ok: "fits fs loc (length bs) \<Longrightarrow> write_chunks loc bs fs = Some (fs\<lparr>disk := store_bytes loc bs (disk fs)\<rparr>)"
proof (induction loc bs fs rule: write_chunks.induct)
  case (1 loc bs fs)
  show ?case
  proof (cases "bs = []")
    case False
    let ?k = "min 4096 (length bs)" and ?fs = "fs\<lparr>disk := store_bytes loc (take (min 4096 (length bs)) bs) (disk fs)\<rparr>"
    have pos: "0 < length bs" using False by simp
    have c: "\<not> (disk_size fs \<le> loc \<or> 4096 < loc mod 4096 + ?k)"
      using "1.prems" pos by (cases "length bs \<le> 4096") (simp_all add: fits_def min_def not_le del: length_greater_0_conv)
    have "fits ?fs (loc + ?k) (length (drop ?k bs))"
      using "1.prems" by (auto simp: fits_def split: if_splits)
    from "1.IH" [OF False refl c this] have "write_chunks (loc + ?k) (drop ?k bs) ?fs =
        Some (?fs\<lparr>disk := store_bytes (loc + ?k) (drop ?k bs) (disk ?fs)\<rparr>)" .
    then show ?thesis using False c by (subst write_chunks.simps) (simp add: Let_def store_bytes_split)
  qed (simp add: write_chunks.simps)
qed

section \<open>The cache agrees with the disk\<close>

definition volume_ok :: "fat_fs \<Rightarrow> bool" where
  "volume_ok fs \<longleftrightarrow> m_Type fs \<noteq> FAT12 \<and> 0 < BPB_BytsPerSec fs \<and> 512 dvd BPB_BytsPerSec fs \<and>
     BPB_BytsPerSec fs < 2 ^ 16 \<and> m_FatSector fs < 2 ^ 16"

definition fat_sector :: "fat_fs \<Rightarrow> u32 \<Rightarrow> nat" where
  "fat_sector fs c = fatOffset (m_Type fs) c div BPB_BytsPerSec fs"

definition in_table :: "fat_fs \<Rightarrow> u32 \<Rightarrow> bool" where
  "in_table fs c \<longleftrightarrow> c \<noteq> 0 \<and> unat c < 2 ^ 30 \<and>
     BPB_BytsPerSec fs * (m_FatSector fs + fat_sector fs c + 2) \<le> disk_size fs"

definition width :: "fat_fs \<Rightarrow> nat" where
  "width fs = (if m_Type fs = FAT16 then 2 else 4)"

definition fat_pos :: "fat_fs \<Rightarrow> u32 \<Rightarrow> nat" where
  "fat_pos fs c = BPB_BytsPerSec fs * m_FatSector fs + width fs * unat c"

definition disk16 :: "fat_fs \<Rightarrow> nat \<Rightarrow> u16" where
  "disk16 fs p = le16 (disk fs p) (disk fs (p + 1))"

text \<open>The entry of a cluster in the table on the disk.\<close>

definition fat_entry :: "fat_fs \<Rightarrow> u32 \<Rightarrow> u32" where
  "fat_entry fs c =
     (let p = fat_pos fs c
      in if m_Type fs = FAT16 then ucast (disk16 fs p) else le32 (disk16 fs p) (disk16 fs (p + 2)) AND 0x0FFFFFFF)"

definition coherent :: "fat_fs \<Rightarrow> bool" where
  "coherent fs \<longleftrightarrow>
     (\<forall>s b h. m_FatCache fs s = Some (b, h) \<longrightarrow>
        b < length (fat_buffers fs) \<and> h < 2 \<and> length (fat_buffers fs ! b) = 2 * BPB_BytsPerSec fs \<and>
        (\<forall>i < BPB_BytsPerSec fs. fat_buffers fs ! b ! (h * BPB_BytsPerSec fs + i) = disk fs (BPB_BytsPerSec fs * (m_FatSector fs + s) + i))) \<and>
     (\<forall>s t p. m_FatCache fs s = Some p \<longrightarrow> m_FatCache fs t = Some p \<longrightarrow> s = t)"

lemma fatOffset_width: "volume_ok fs \<Longrightarrow> unat c < 2 ^ 30 \<Longrightarrow> fatOffset (m_Type fs) c = width fs * unat c"
  by (auto simp: fatOffset_def width_def volume_ok_def unat_word_ariths split: FatType.splits)

lemma width_pos:
  assumes "volume_ok fs" "unat c < 2 ^ 30"
  shows "fatOffset (m_Type fs) c mod BPB_BytsPerSec fs + width fs \<le> BPB_BytsPerSec fs"
    and "BPB_BytsPerSec fs * (m_FatSector fs + fat_sector fs c) + fatOffset (m_Type fs) c mod BPB_BytsPerSec fs = fat_pos fs c"
proof -
  let ?b = "BPB_BytsPerSec fs" and ?o = "width fs * unat c"
  have "width fs dvd 512" by (simp add: width_def)
  then have w: "width fs dvd ?b" "0 < ?b" using assms(1) by (auto simp: volume_ok_def intro: dvd_trans)
  then obtain k where k: "?b = width fs * k" by (elim dvdE)
  have wp: "0 < width fs" by (simp add: width_def)
  have "?o mod ?b = width fs * (unat c mod k)" unfolding k by (rule mult_mod_right [symmetric])
  moreover have "unat c mod k + 1 \<le> k" using k w(2) by (cases k) (auto intro: Suc_leI mod_less_divisor)
  ultimately show "fatOffset (m_Type fs) c mod ?b + width fs \<le> ?b"
    unfolding fatOffset_width [OF assms] using k wp by (metis add_mult_distrib2 mult.right_neutral mult_le_mono2)
  show "?b * (m_FatSector fs + fat_sector fs c) + fatOffset (m_Type fs) c mod ?b = fat_pos fs c"
    unfolding fat_pos_def fat_sector_def fatOffset_width [OF assms] by (simp add: distrib_left)
qed

lemma half_bound: "h < (2 :: nat) \<Longrightarrow> i < n \<Longrightarrow> h * n + i < 2 * n"
  by (auto simp: numeral_2_eq_2 less_Suc_eq)

lemma cell_byte:
  assumes "coherent fs" "m_FatCache fs s = Some (b, h)" "i < BPB_BytsPerSec fs"
  shows "buffer_byte fs b (h * BPB_BytsPerSec fs + i) = disk fs (BPB_BytsPerSec fs * (m_FatSector fs + s) + i)"
proof -
  have "h < 2" "length (fat_buffers fs ! b) = 2 * BPB_BytsPerSec fs"
    "fat_buffers fs ! b ! (h * BPB_BytsPerSec fs + i) = disk fs (BPB_BytsPerSec fs * (m_FatSector fs + s) + i)"
    using assms by (auto simp: coherent_def)
  moreover from this have "h * BPB_BytsPerSec fs + i < 2 * BPB_BytsPerSec fs"
    using assms(3) half_bound by blast
  ultimately show ?thesis by (simp add: buffer_byte_def)
qed

lemma cell_entry:
  assumes "volume_ok fs" "coherent fs" "in_table fs c" "m_FatCache fs (fat_sector fs c) = Some (b, h)"
  shows "decode_entry (m_Type fs) c (read32 fs b (h * BPB_BytsPerSec fs + fatOffset (m_Type fs) c mod BPB_BytsPerSec fs)) = fat_entry fs c"
proof -
  have u: "unat c < 2 ^ 30" using assms(3) by (simp add: in_table_def)
  let ?i = "fatOffset (m_Type fs) c mod BPB_BytsPerSec fs"
  note w = width_pos [OF assms(1) u]
  have byte: "buffer_byte fs b (h * BPB_BytsPerSec fs + ?i + k) = disk fs (fat_pos fs c + k)" if "k < width fs" for k
    using cell_byte [OF assms(2,4), of "?i + k"] w that by (simp flip: add.assoc)
  have b16: "read16 fs b (h * BPB_BytsPerSec fs + ?i + k) = disk16 fs (fat_pos fs c + k)" if "k + 1 < width fs" for k
    using byte [of k] byte [of "k + 1"] that by (simp add: read16_def disk16_def)
  show ?thesis
  proof (cases "m_Type fs = FAT16")
    case True
    then show ?thesis using b16 [of 0] by (simp add: decode_entry_def read32_def le32_low fat_entry_def width_def)
  next
    case False
    with assms(1) have "m_Type fs = FAT32" by (cases "m_Type fs") (auto simp: volume_ok_def)
    then show ?thesis using b16 [of 0] b16 [of 2]
      by (simp add: decode_entry_def read32_def fat_entry_def width_def Let_def add.assoc)
  qed
qed

text \<open>Loading two sectors.\<close>

definition loaded :: "nat \<Rightarrow> fat_fs \<Rightarrow> fat_fs" where
  "loaded s fs =
     (let b = length (fat_buffers fs); p = BPB_BytsPerSec fs * (m_FatSector fs + s)
      in fs\<lparr>fat_buffers := fat_buffers fs @ [map (disk fs) [p ..< p + 2 * BPB_BytsPerSec fs]],
            m_FatCache := cache_insert (s + 1) (b, 1) (cache_insert s (b, 0) (m_FatCache fs))\<rparr>)"

lemma unat_sec: "n < 2 ^ 32 \<Longrightarrow> unat (of_nat n :: u32) = n"
  by (simp only: unat_of_nat) (simp add: take_bit_nat_eq_self)

lemma load_sectors_ok:
  assumes "BPB_BytsPerSec fs * (m_FatSector fs + s + 2) \<le> disk_size fs" "m_FatSector fs + s < 2 ^ 32"
  shows "load_sectors s fs = Some (loaded s fs)"
proof -
  have "unat (of_nat (m_FatSector fs + s) :: u32) = m_FatSector fs + s" using assms(2) by (rule unat_sec)
  moreover have "BPB_BytsPerSec fs * (m_FatSector fs + s) + 2 * BPB_BytsPerSec fs \<le> disk_size fs"
    using assms(1) by (simp add: algebra_simps)
  ultimately show ?thesis
    using read_chunks_ok [of "BPB_BytsPerSec fs * (m_FatSector fs + s)" "2 * BPB_BytsPerSec fs" fs]
    by (simp add: load_sectors_def readSectorBlock_def loaded_def Let_def mult.commute [of _ 2])
qed

lemma loaded_coherent:
  assumes "coherent fs" "m_FatCache fs s = None"
  shows "coherent (loaded s fs)"
proof -
  let ?l = "loaded s fs" and ?n = "length (fat_buffers fs)" and ?bps = "BPB_BytsPerSec fs"
  have cells: "m_FatCache ?l t = Some (b, h) \<Longrightarrow>
      m_FatCache fs t = Some (b, h) \<or> (t = s \<and> b = ?n \<and> h = 0) \<or> (t = s + 1 \<and> b = ?n \<and> h = 1)" for t b h
    using assms(2) by (auto simp: loaded_def Let_def cache_insert_def split: if_splits)
  have old: "m_FatCache fs t = Some (b, h) \<Longrightarrow> b < ?n" for t b h using assms(1) by (auto simp: coherent_def)
  have buf: "fat_buffers ?l ! b = fat_buffers fs ! b" if "b < ?n" for b using that by (simp add: loaded_def Let_def nth_append)
  have new: "fat_buffers ?l ! ?n = map (disk fs) [?bps * (m_FatSector fs + s) ..< ?bps * (m_FatSector fs + s) + 2 * ?bps]"
    by (simp add: loaded_def Let_def)
  have sel: "BPB_BytsPerSec ?l = ?bps" "m_FatSector ?l = m_FatSector fs" "disk ?l = disk fs" "length (fat_buffers ?l) = Suc ?n"
    by (simp_all add: loaded_def Let_def)
  have new_i: "fat_buffers ?l ! ?n ! (h * ?bps + i) = disk fs (?bps * (m_FatSector fs + (s + h)) + i)" if "h < 2" "i < ?bps" for h i
  proof -
    have "h * ?bps + i < 2 * ?bps" using that half_bound by blast
    then show ?thesis unfolding new by (simp add: algebra_simps)
  qed
  show ?thesis unfolding coherent_def sel
  proof (rule conjI; intro allI impI)
    fix t b h assume "m_FatCache ?l t = Some (b, h)"
    from cells [OF this] consider "m_FatCache fs t = Some (b, h)" | "t = s \<and> b = ?n \<and> h = 0" | "t = s + 1 \<and> b = ?n \<and> h = 1" by blast
    then show "b < Suc ?n \<and> h < 2 \<and> length (fat_buffers ?l ! b) = 2 * ?bps \<and>
        (\<forall>i < ?bps. fat_buffers ?l ! b ! (h * ?bps + i) = disk fs (?bps * (m_FatSector fs + t) + i))"
    proof cases
      case 1
      then show ?thesis using assms(1) buf [OF old [OF 1]] less_SucI [OF old [OF 1]] by (auto simp: coherent_def)
    qed (use new_i [of h] new in \<open>auto simp del: upt_Suc\<close>)
  next
    fix t u p assume a: "m_FatCache ?l t = Some p" "m_FatCache ?l u = Some p"
    obtain b h where p: "p = (b, h)" by force
    from cells [OF a(1) [unfolded p]] cells [OF a(2) [unfolded p]] old [of t b h] old [of u b h] show "t = u"
      using assms(1) by (auto simp: coherent_def)
  qed
qed

definition grown :: "fat_fs \<Rightarrow> fat_fs \<Rightarrow> bool" where
  "grown fs fs' \<longleftrightarrow> fs' = fs\<lparr>m_FatCache := m_FatCache fs', fat_buffers := fat_buffers fs'\<rparr>"

lemma in_table_sector:
  assumes "volume_ok fs" "in_table fs c"
  shows "m_FatSector fs + fat_sector fs c < 2 ^ 32"
proof -
  have u: "unat c < 2 ^ 30" using assms(2) by (simp add: in_table_def)
  have "fatOffset (m_Type fs) c < 2 ^ 32" unfolding fatOffset_width [OF assms(1) u] using u by (simp add: width_def)
  then have "fatOffset (m_Type fs) c div 2 < 2 ^ 31" by simp
  moreover have "fat_sector fs c \<le> fatOffset (m_Type fs) c div 2"
    unfolding fat_sector_def using assms(1) dvd_imp_le [of 512 "BPB_BytsPerSec fs"] by (intro div_le_mono2) (auto simp: volume_ok_def)
  ultimately show ?thesis using assms(1) by (simp add: volume_ok_def)
qed

lemma getClusterEntry_cases:
  assumes "volume_ok fs" "coherent fs" "in_table fs c"
  shows "getClusterEntry c fs =
    Some (fat_entry fs c, if m_FatCache fs (fat_sector fs c) = None then loaded (fat_sector fs c) fs else fs)"
proof (cases "m_FatCache fs (fat_sector fs c)")
  case None
  let ?l = "loaded (fat_sector fs c) fs"
  have l: "load_sectors (fat_sector fs c) fs = Some ?l"
    using load_sectors_ok in_table_sector [OF assms(1,3)] assms(3) by (simp add: in_table_def)
  have same: "m_Type ?l = m_Type fs" "BPB_BytsPerSec ?l = BPB_BytsPerSec fs" "fat_sector ?l c = fat_sector fs c" "fat_entry ?l c = fat_entry fs c"
    "volume_ok ?l" "in_table ?l c"
    using assms(1,3) by (simp_all add: loaded_def Let_def fat_sector_def fat_entry_def fat_pos_def width_def disk16_def volume_ok_def in_table_def)
  have "m_FatCache ?l (fat_sector ?l c) = Some (length (fat_buffers fs), 0)"
    unfolding same(3) using None by (simp add: loaded_def Let_def cache_insert_def)
  from cell_entry [OF same(5) loaded_coherent [OF assms(2) None] same(6) this]
  show ?thesis using l None by (simp add: getClusterEntry_def Let_def same fat_sector_def [symmetric])
next
  case (Some p)
  obtain b h where p: "p = (b, h)" by force
  have "m_Type fs \<noteq> FAT12" using assms(1) by (simp add: volume_ok_def)
  then show ?thesis using cell_entry [OF assms] Some p by (simp add: getClusterEntry_def Let_def fat_sector_def [symmetric])
qed

section \<open>Writing an entry\<close>

text \<open>\<open>setClusterEntry\<close> writes two sectors from the half that holds the entry; that is right when this is
  the first half and the second half of the buffer agrees with the disk.\<close>

definition first_half :: "fat_fs \<Rightarrow> nat \<Rightarrow> bool" where
  "first_half fs s \<longleftrightarrow>
     (case m_FatCache fs s of
        None \<Rightarrow> True
      | Some (b, h) \<Rightarrow> h = 0 \<and> (\<forall>i < 2 * BPB_BytsPerSec fs. fat_buffers fs ! b ! i = disk fs (BPB_BytsPerSec fs * (m_FatSector fs + s) + i)))"

definition entry_bytes :: "fat_fs \<Rightarrow> u32 \<Rightarrow> u8 list" where
  "entry_bytes fs v = (if m_Type fs = FAT16 then bytes16 (ucast v) else bytes32 (v AND 0x0FFFFFFF))"

lemma length_entry_bytes [simp]: "length (entry_bytes fs v) = width fs"
  by (simp add: entry_bytes_def width_def)

lemma nth_store: "i + length bs \<le> length old \<Longrightarrow> k < length old \<Longrightarrow>
    (take i old @ bs @ drop (i + length bs) old) ! k = (if i \<le> k \<and> k < i + length bs then bs ! (k - i) else old ! k)"
  by (auto simp: nth_append)

lemma store_buffer_simps [simp]:
  "m_Type (store_buffer b i bs fs) = m_Type fs" "BPB_BytsPerSec (store_buffer b i bs fs) = BPB_BytsPerSec fs"
  "m_FatSector (store_buffer b i bs fs) = m_FatSector fs" "m_FatCache (store_buffer b i bs fs) = m_FatCache fs"
  "disk (store_buffer b i bs fs) = disk fs" "disk_size (store_buffer b i bs fs) = disk_size fs" "behind (store_buffer b i bs fs) = behind fs"
  by (simp_all add: store_buffer_def)

lemma FAT32_bits: "(x AND 0x0FFFFFFF) AND 0xF0000000 = (0 :: u32)"
  by (simp add: and.assoc)

text \<open>The state after an entry was written.\<close>

definition entry_set :: "u32 \<Rightarrow> u32 \<Rightarrow> fat_fs \<Rightarrow> fat_fs" where
  "entry_set c v fs =
     (let (b, h) = the (m_FatCache fs (fat_sector fs c))
      in (store_buffer b (fatOffset (m_Type fs) c mod BPB_BytsPerSec fs) (entry_bytes fs v) fs)
           \<lparr>disk := store_bytes (fat_pos fs c) (entry_bytes fs v) (disk fs)\<rparr>)"

lemma fat_entry_FAT32: "volume_ok fs \<Longrightarrow> m_Type fs \<noteq> FAT16 \<Longrightarrow> fat_entry fs c AND 0xF0000000 = 0"
  by (simp add: fat_entry_def Let_def FAT32_bits)

lemma set_cached:
  assumes ok: "volume_ok fs" "coherent fs" "in_table fs c" and b: "m_FatCache fs (fat_sector fs c) = Some (b, 0)"
    and fh: "first_half fs (fat_sector fs c)"
    and pg: "BPB_BytsPerSec fs * (m_FatSector fs + fat_sector fs c) mod 4096 + 2 * BPB_BytsPerSec fs \<le> 4096"
  shows "\<exists>r. setClusterEntry c v fs = Some (r, entry_set c v fs)"
proof -
  let ?bps = "BPB_BytsPerSec fs" and ?s = "fat_sector fs c" and ?i = "fatOffset (m_Type fs) c mod BPB_BytsPerSec fs"
  let ?base = "?bps * (m_FatSector fs + ?s)" and ?bs = "entry_bytes fs v"
  have u: "unat c < 2 ^ 30" using ok(3) by (simp add: in_table_def)
  note w = width_pos [OF ok(1) u]
  have len: "b < length (fat_buffers fs)" "length (fat_buffers fs ! b) = 2 * ?bps" using ok(2) b by (auto simp: coherent_def)
  have ty: "m_Type fs \<noteq> FAT12" "c \<noteq> 0" using ok(1,3) by (simp_all add: volume_ok_def in_table_def)
  let ?f = "store_buffer b ?i ?bs fs"
  have buf: "fat_buffers ?f ! b = take ?i (fat_buffers fs ! b) @ ?bs @ drop (?i + width fs) (fat_buffers fs ! b)"
    using len by (simp add: store_buffer_def Let_def)
  have data: "map (buffer_byte ?f b) [0 ..< 2 * ?bps] =
      map (store_bytes (fat_pos fs c) ?bs (disk fs)) [?base ..< ?base + 2 * ?bps]" (is "?l = ?r")
  proof (rule nth_equalityI)
    fix k assume "k < length ?l"
    then have k: "k < 2 * ?bps" by simp
    have o: "fat_buffers fs ! b ! k = disk fs (?base + k)" using fh b k by (simp add: first_half_def)
    have "buffer_byte ?f b k = (if ?i \<le> k \<and> k < ?i + width fs then ?bs ! (k - ?i) else fat_buffers fs ! b ! k)"
      using nth_store [of ?i ?bs "fat_buffers fs ! b" k] len w(1) k by (simp add: buffer_byte_def buf)
    also have "\<dots> = store_bytes (fat_pos fs c) ?bs (disk fs) (?base + k)"
      using o by (auto simp: store_bytes_def w(2) [symmetric])
    finally show "?l ! k = ?r ! k" using k by simp
  qed simp
  have "map (store_bytes loc bs d) [base ..< base + n] = map (store_bytes base (map (store_bytes loc bs d) [base ..< base + n]) d) [base ..< base + n]" for loc bs d base n
    by (auto simp: store_bytes_def)
  have whole: "store_bytes ?base ?r (disk fs) = store_bytes (fat_pos fs c) ?bs (disk fs)"
  proof (rule ext)
    fix x
    show "store_bytes ?base ?r (disk fs) x = store_bytes (fat_pos fs c) ?bs (disk fs) x"
      using w by (cases "?base \<le> x \<and> x < ?base + 2 * ?bps") (auto simp: store_bytes_def)
  qed
  have sz: "fits ?f ?base (length ?r)" using pg ok(3) by (simp add: fits_def in_table_def algebra_simps)
  have "writeSectorBlock (of_nat (m_FatSector fs + ?s)) ?r ?f = Some (?f\<lparr>disk := store_bytes ?base ?r (disk fs)\<rparr>)"
    using write_chunks_ok [OF sz] unat_sec [OF in_table_sector [OF ok(1,3)]] by (simp add: writeSectorBlock_def)
  then have wr: "writeSectorBlock (of_nat (m_FatSector fs + ?s)) (map (buffer_byte ?f b) [0 ..< 2 * ?bps]) ?f = Some (entry_set c v fs)"
    unfolding data whole by (simp add: entry_set_def b)
  have get: "getClusterEntry c fs = Some (fat_entry fs c, fs)" using getClusterEntry_cases [OF ok] b by simp
  show ?thesis
    using ty wr b fat_entry_FAT32 [OF ok(1), of c] unfolding setClusterEntry_def get fat_sector_def
    by (cases "m_Type fs = FAT16") (simp_all add: Let_def entry_bytes_def)
qed

text \<open>What the entries are afterwards.\<close>

lemma width_cases: "width fs = 2 \<or> width fs = 4"
  by (simp add: width_def)

lemma fat_pos_apart: "c \<noteq> d \<Longrightarrow> fat_pos fs c + width fs \<le> fat_pos fs d \<or> fat_pos fs d + width fs \<le> fat_pos fs c"
proof -
  assume "c \<noteq> d"
  then consider "unat c + 1 \<le> unat d" | "unat d + 1 \<le> unat c" by (metis Suc_eq_plus1 linorder_neqE_nat Suc_leI word_eq_unat)
  then show ?thesis using width_cases [of fs] by cases (auto simp: fat_pos_def)
qed

lemma entry_set_simps [simp]:
  "m_Type (entry_set c v fs) = m_Type fs" "BPB_BytsPerSec (entry_set c v fs) = BPB_BytsPerSec fs"
  "m_FatSector (entry_set c v fs) = m_FatSector fs" "m_FatCache (entry_set c v fs) = m_FatCache fs"
  "disk_size (entry_set c v fs) = disk_size fs" "behind (entry_set c v fs) = behind fs"
  "disk (entry_set c v fs) = store_bytes (fat_pos fs c) (entry_bytes fs v) (disk fs)"
  by (simp_all add: entry_set_def split: prod.splits)

lemma disk_bytes16: "le16 (bytes16 w ! 0) (bytes16 w ! Suc 0) = w"
  by (simp add: bytes16_def le16_bytes)

lemma fat_entry_set:
  "fat_entry (entry_set c v fs) d =
     (if d = c then if m_Type fs = FAT16 then v AND 0xFFFF else v AND 0x0FFFFFFF else fat_entry fs d)"
proof (cases "d = c")
  case True
  have p: "fat_pos (entry_set c v fs) d = fat_pos fs c" using True by (simp add: fat_pos_def width_def)
  have r: "store_bytes p bs f (p + k) = bs ! k" if "k < length bs" for p :: nat and bs :: "u8 list" and f k
    using that by (simp add: store_bytes_def)
  show ?thesis
  proof (cases "m_Type fs = FAT16")
    case True
    have "ucast (ucast v :: u16) = v AND 0xFFFF" using le32_low [of "ucast v" "ucast (drop_bit 16 v)"] by (simp add: le32_words)
    then show ?thesis using \<open>d = c\<close> True r [of 0 "bytes16 (ucast v)"] r [of "Suc 0" "bytes16 (ucast v)"] disk_bytes16 [of "ucast v"]
      unfolding fat_entry_def Let_def p by (simp add: disk16_def entry_bytes_def)
  next
    case False
    let ?w = "v AND 0x0FFFFFFF"
    have "bytes32 ?w ! k = bytes16 (ucast ?w) ! k" "bytes32 ?w ! (k + 2) = bytes16 (ucast (drop_bit 16 ?w)) ! k" if "k < 2" for k
      using that by (simp_all add: bytes32_def nth_append)
    from this [of 0] this [of 1] disk_bytes16 [of "ucast ?w"] disk_bytes16 [of "ucast (drop_bit 16 ?w)"]
    have "le32 (disk16 (entry_set c v fs) (fat_pos fs c)) (disk16 (entry_set c v fs) (fat_pos fs c + 2)) = ?w"
      using False r [of 0 "bytes32 ?w"] r [of "1" "bytes32 ?w"] r [of 2 "bytes32 ?w"] r [of 3 "bytes32 ?w"] le32_words [of ?w]
      by (simp add: disk16_def entry_bytes_def numeral_3_eq_3 numeral_2_eq_2)
    then show ?thesis using \<open>d = c\<close> False unfolding fat_entry_def Let_def p by simp
  qed
next
  case False
  have "disk (entry_set c v fs) (fat_pos fs d + k) = disk fs (fat_pos fs d + k)" if "k < width fs" for k
    using fat_pos_apart [OF False, of fs] that by (auto simp: store_bytes_def)
  from this [of 0] this [of 1] this [of 2] this [of 3] False show ?thesis
    by (auto simp: fat_entry_def fat_pos_def width_def disk16_def Let_def numeral_3_eq_3 simp del: entry_set_simps(7) split: if_splits)
qed

end
