(* ===== verification/Fat_Chain.thy ===== *)
theory Fat_Chain
  imports Fat_Entries
begin

text \<open>Chains of clusters: the interface that the operations on files use of the table, what these
  operations make of a chain, and the interpretation of the interface on the table of the volume.\<close>

section \<open>The operations on chains\<close>

text \<open>The loops of \<open>remove\<close>, \<open>truncate\<close> and \<open>extend\<close>, over the functions that read and write an entry.
  A loop that does not end is \<open>None\<close>.\<close>

partial_function (option) remove_loop ::
  "(u32 \<Rightarrow> 's \<Rightarrow> (u32 \<times> 's) option) \<Rightarrow> (u32 \<Rightarrow> u32 \<Rightarrow> 's \<Rightarrow> (u32 \<times> 's) option) \<Rightarrow> u32 \<Rightarrow> u32 \<Rightarrow> 's \<Rightarrow> 's option" where
  "remove_loop get put eof clus fs = do {
     (n, fs) \<leftarrow> get clus fs;
     (_, fs) \<leftarrow> put clus 0 fs;
     (if n = 0 \<or> n \<ge> eof then Some fs else remove_loop get put eof n fs) }"

partial_function (option) truncate_loop ::
  "(u32 \<Rightarrow> 's \<Rightarrow> (u32 \<times> 's) option) \<Rightarrow> (u32 \<Rightarrow> u32 \<Rightarrow> 's \<Rightarrow> (u32 \<times> 's) option) \<Rightarrow> u32 \<Rightarrow> u32 \<Rightarrow> u32 \<Rightarrow> 's \<Rightarrow> 's option" where
  "truncate_loop get put eof prev clus fs =
     (if clus \<ge> eof then map_option snd (put prev 0 fs)
      else do {
        (n, fs) \<leftarrow> get clus fs;
        (_, fs) \<leftarrow> put clus 0 fs;
        truncate_loop get put eof clus n fs })"

definition truncate_chain ::
  "(u32 \<Rightarrow> 's \<Rightarrow> (u32 \<times> 's) option) \<Rightarrow> (u32 \<Rightarrow> u32 \<Rightarrow> 's \<Rightarrow> (u32 \<times> 's) option) \<Rightarrow> u32 \<Rightarrow> u32 \<Rightarrow> 's \<Rightarrow> 's option" where
  "truncate_chain get put eof clus fs = do {
     (n, fs) \<leftarrow> get clus fs;
     (_, fs) \<leftarrow> put clus eof fs;
     (if n \<ge> eof then Some fs else truncate_loop get put eof clus n fs) }"

partial_function (option) last_cluster ::
  "(u32 \<Rightarrow> 's \<Rightarrow> (u32 \<times> 's) option) \<Rightarrow> u32 \<Rightarrow> u32 \<Rightarrow> u32 \<Rightarrow> 's \<Rightarrow> (u32 \<times> 's) option" where
  "last_cluster get eof l clus fs =
     (if clus \<ge> eof then Some (l, fs) else do { (n, fs) \<leftarrow> get clus fs; last_cluster get eof clus n fs })"

text \<open>Linking \<open>j\<close> new clusters; the result \<open>None\<close> of the inner option is the error for a full volume.\<close>

fun link_new ::
  "('s \<Rightarrow> (u32 \<times> 's) option) \<Rightarrow> (u32 \<Rightarrow> u32 \<Rightarrow> 's \<Rightarrow> (u32 \<times> 's) option) \<Rightarrow> nat \<Rightarrow> u32 \<Rightarrow> 's \<Rightarrow> (u32 option \<times> 's) option" where
  "link_new free put 0 l fs = Some (Some l, fs)"
| "link_new free put (Suc j) l fs = do {
     (n, fs) \<leftarrow> free fs;
     (if n = 0 then Some (None, fs)
      else do { (_, fs) \<leftarrow> put l n fs; link_new free put j n fs }) }"

definition append_clusters ::
  "(u32 \<Rightarrow> 's \<Rightarrow> (u32 \<times> 's) option) \<Rightarrow> (u32 \<Rightarrow> u32 \<Rightarrow> 's \<Rightarrow> (u32 \<times> 's) option) \<Rightarrow> ('s \<Rightarrow> (u32 \<times> 's) option) \<Rightarrow>
     u32 \<Rightarrow> nat \<Rightarrow> u32 \<Rightarrow> 's \<Rightarrow> (bool \<times> 's) option" where
  "append_clusters get put free eof j clus fs = do {
     (l, fs) \<leftarrow> last_cluster get eof clus clus fs;
     (r, fs) \<leftarrow> link_new free put j l fs;
     (case r of None \<Rightarrow> Some (False, fs) | Some l \<Rightarrow> map_option (\<lambda>(_, fs). (True, fs)) (put l eof fs)) }"

section \<open>Chains\<close>

text \<open>The clusters of a chain, from a first one to one whose entry is an end mark.\<close>

fun chain :: "(u32 \<Rightarrow> u32) \<Rightarrow> u32 \<Rightarrow> u32 \<Rightarrow> u32 list \<Rightarrow> bool" where
  "chain m eof c [] = False"
| "chain m eof c (x # xs) \<longleftrightarrow> x = c \<and> (if xs = [] then m c \<ge> eof else m c \<noteq> 0 \<and> m c < eof \<and> chain m eof (m c) xs)"

lemma chain_det: "chain m eof c xs \<Longrightarrow> chain m eof c ys \<Longrightarrow> xs = ys"
proof (induction xs arbitrary: c ys)
  case (Cons x xs)
  then obtain y ys' where ys: "ys = y # ys'" by (cases ys) auto
  with Cons show ?case by (auto split: if_splits)
qed simp

lemma chain_suffix: "chain m eof c (xs @ d # ys) \<Longrightarrow> chain m eof d (d # ys)"
proof (induction xs arbitrary: c)
  case (Cons x xs)
  then show ?case by (auto split: if_splits)
qed simp

lemma chain_distinct: "chain m eof c xs \<Longrightarrow> distinct xs"
proof (induction xs arbitrary: c)
  case (Cons x xs)
  have "x \<notin> set xs"
  proof
    assume "x \<in> set xs"
    then obtain us vs where xs: "xs = us @ x # vs" by (auto simp: in_set_conv_decomp)
    then have "chain m eof c ((x # us) @ x # vs)" using Cons.prems by (simp del: chain.simps)
    from chain_suffix [OF this] have v: "chain m eof x (x # vs)" .
    have "x = c" using Cons.prems by simp
    with Cons.prems have "chain m eof x (x # xs)" by (simp del: chain.simps)
    from chain_det [OF v this] xs show False by simp
  qed
  with Cons show ?case by (auto split: if_splits)
qed simp

lemma chain_cong: "chain m eof c xs \<Longrightarrow> (\<And>x. x \<in> set xs \<Longrightarrow> m' x = m x) \<Longrightarrow> chain m' eof c xs"
proof (induction xs arbitrary: c)
  case (Cons x xs)
  then show ?case by (auto split: if_splits)
qed simp

lemma chain_append:
  "chain m eof c xs \<Longrightarrow> chain m eof d ys \<Longrightarrow> d \<noteq> 0 \<Longrightarrow> d < eof \<Longrightarrow> set xs \<inter> set ys = {} \<Longrightarrow> chain (m(last xs := d)) eof c (xs @ ys)"
proof (induction xs arbitrary: c)
  case (Cons x xs)
  show ?case
  proof (cases "xs = []")
    case True
    have "chain (m(c := d)) eof d ys" using Cons.prems True by (intro chain_cong [OF Cons.prems(2)]) auto
    with Cons.prems True show ?thesis by (cases ys) (simp_all add: fun_upd_def)
  next
    case False
    have "x \<notin> set xs" using chain_distinct [OF Cons.prems(1)] by simp
    then have "x \<noteq> last xs" using False by (metis last_in_set)
    with Cons False show ?thesis by auto
  qed
qed simp

section \<open>The interface of the table\<close>

locale fat_table =
  fixes inv :: "'s \<Rightarrow> bool"
    and dom :: "u32 \<Rightarrow> bool"
    and entry :: "'s \<Rightarrow> u32 \<Rightarrow> u32"
    and get :: "u32 \<Rightarrow> 's \<Rightarrow> (u32 \<times> 's) option"
    and put :: "u32 \<Rightarrow> u32 \<Rightarrow> 's \<Rightarrow> (u32 \<times> 's) option"
    and limit :: u32
    and eof :: u32
  assumes get: "inv fs \<Longrightarrow> dom c \<Longrightarrow> \<exists>fs'. get c fs = Some (entry fs c, fs') \<and> inv fs' \<and> entry fs' = entry fs"
    and put: "inv fs \<Longrightarrow> dom c \<Longrightarrow> \<exists>r fs'. put c v fs = Some (r, fs') \<and> inv fs' \<and> entry fs' = (entry fs)(c := v AND limit)"
    and eof: "eof AND limit = eof"
begin

lemma remove_ok:
  assumes "inv fs" "chain (entry fs) eof c xs" "\<forall>x \<in> set xs. dom x"
  shows "\<exists>fs'. remove_loop get put eof c fs = Some fs' \<and> inv fs' \<and> entry fs' = (\<lambda>d. if d \<in> set xs then 0 else entry fs d)"
  using assms
proof (induction xs arbitrary: c fs)
  case (Cons x xs)
  then have x: "x = c" "dom c" by auto
  obtain f1 where f1: "get c fs = Some (entry fs c, f1)" "inv f1" "entry f1 = entry fs" using get [OF Cons.prems(1) x(2)] by blast
  obtain r f2 where f2: "put c 0 f1 = Some (r, f2)" "inv f2" "entry f2 = (entry fs)(c := 0)" using put [OF f1(2) x(2), of 0] f1(3) by auto
  show ?case
  proof (cases "xs = []")
    case True
    with Cons.prems(2) x have "eof \<le> entry fs c" by simp
    with f1 f2 x True show ?thesis by (subst remove_loop.simps) auto
  next
    case False
    with Cons.prems(2) x have n: "entry fs c \<noteq> 0" "entry fs c < eof" "chain (entry fs) eof (entry fs c) xs" by simp_all
    have "c \<notin> set xs" using chain_distinct [OF Cons.prems(2)] x by simp
    then have "chain (entry f2) eof (entry fs c) xs" by (intro chain_cong [OF n(3)]) (auto simp: f2(3))
    from Cons.IH [OF f2(2) this] Cons.prems(3) obtain fs' where
      "remove_loop get put eof (entry fs c) f2 = Some fs'" "inv fs'" "entry fs' = (\<lambda>d. if d \<in> set xs then 0 else entry f2 d)" by auto
    with f1 f2 n x show ?thesis by (subst remove_loop.simps) (auto simp: not_le)
  qed
qed simp

lemma truncate_loop_ok:
  assumes "inv fs" "chain (entry fs) eof c xs" "\<forall>x \<in> set xs. dom x" "c < eof"
  shows "\<exists>fs'. truncate_loop get put eof p c fs = Some fs' \<and> inv fs' \<and> entry fs' = (\<lambda>d. if d \<in> set xs then 0 else entry fs d)"
  using assms
proof (induction xs arbitrary: c fs p)
  case (Cons x xs)
  then have x: "x = c" "dom c" by auto
  obtain f1 where f1: "get c fs = Some (entry fs c, f1)" "inv f1" "entry f1 = entry fs" using get [OF Cons.prems(1) x(2)] by blast
  obtain r f2 where f2: "put c 0 f1 = Some (r, f2)" "inv f2" "entry f2 = (entry fs)(c := 0)" using put [OF f1(2) x(2), of 0] f1(3) by auto
  have step: "truncate_loop get put eof p c fs = truncate_loop get put eof c (entry fs c) f2"
    using Cons.prems(4) f1(1) f2(1) by (subst truncate_loop.simps) (simp add: not_le [symmetric])
  show ?case
  proof (cases "xs = []")
    case True
    with Cons.prems(2) x have e: "eof \<le> entry fs c" by simp
    obtain r' f3 where "put c 0 f2 = Some (r', f3)" "inv f3" "entry f3 = (entry fs)(c := 0)" using put [OF f2(2) x(2), of 0] f2(3) by auto
    with e x True show ?thesis unfolding step by (subst truncate_loop.simps) auto
  next
    case False
    with Cons.prems(2) x have n: "entry fs c < eof" "chain (entry fs) eof (entry fs c) xs" by simp_all
    have "c \<notin> set xs" using chain_distinct [OF Cons.prems(2)] x by simp
    then have "chain (entry f2) eof (entry fs c) xs" by (intro chain_cong [OF n(2)]) (auto simp: f2(3))
    from Cons.IH [OF f2(2) this _ n(1)] Cons.prems(3) obtain fs' where
      "truncate_loop get put eof c (entry fs c) f2 = Some fs'" "inv fs'" "entry fs' = (\<lambda>d. if d \<in> set xs then 0 else entry f2 d)" by auto
    with f2 x show ?thesis unfolding step by auto
  qed
qed simp

lemma truncate_ok:
  assumes "inv fs" "chain (entry fs) eof c xs" "\<forall>x \<in> set xs. dom x"
  shows "\<exists>fs'. truncate_chain get put eof c fs = Some fs' \<and> inv fs' \<and>
    entry fs' = (\<lambda>d. if d = c then eof else if d \<in> set xs then 0 else entry fs d)"
proof -
  obtain ys where xs: "xs = c # ys" using assms(2) by (cases xs) auto
  then have c: "dom c" using assms(3) by simp
  obtain f1 where f1: "get c fs = Some (entry fs c, f1)" "inv f1" "entry f1 = entry fs" using get [OF assms(1) c] by blast
  obtain r f2 where f2: "put c eof f1 = Some (r, f2)" "inv f2" "entry f2 = (entry fs)(c := eof)" using put [OF f1(2) c, of eof] f1(3) eof by auto
  show ?thesis
  proof (cases "ys = []")
    case True
    with assms(2) xs have "eof \<le> entry fs c" by simp
    with f1 f2 xs True show ?thesis by (auto simp: truncate_chain_def)
  next
    case False
    with assms(2) xs have n: "entry fs c < eof" "chain (entry fs) eof (entry fs c) ys" by simp_all
    have "c \<notin> set ys" using chain_distinct [OF assms(2)] xs by simp
    then have "chain (entry f2) eof (entry fs c) ys" by (intro chain_cong [OF n(2)]) (auto simp: f2(3))
    from truncate_loop_ok [OF f2(2) this _ n(1)] assms(3) xs obtain fs' where
      "truncate_loop get put eof c (entry fs c) f2 = Some fs'" "inv fs'" "entry fs' = (\<lambda>d. if d \<in> set ys then 0 else entry f2 d)" by auto
    with f1 f2 n(1) xs \<open>c \<notin> set ys\<close> show ?thesis by (auto simp: truncate_chain_def not_le [symmetric])
  qed
qed

end

text \<open>A table with a stock of free clusters: those that the search will find, in their order.\<close>

locale fat_alloc = fat_table inv dom entry get put limit eof
  for inv :: "'s \<Rightarrow> bool" and dom entry get put limit eof +
  fixes free :: "'s \<Rightarrow> (u32 \<times> 's) option"
    and stock :: "'s \<Rightarrow> u32 list"
  assumes stock: "inv fs \<Longrightarrow> distinct (stock fs) \<and> (\<forall>c \<in> set (stock fs). dom c \<and> c \<noteq> 0 \<and> c < eof \<and> c AND limit = c \<and> entry fs c = 0)"
    and get_stock: "inv fs \<Longrightarrow> dom c \<Longrightarrow> get c fs = Some (r, fs') \<Longrightarrow> stock fs' = stock fs"
    and put_stock: "inv fs \<Longrightarrow> dom c \<Longrightarrow> put c v fs = Some (r, fs') \<Longrightarrow> entry fs c \<noteq> 0 \<Longrightarrow> v AND limit \<noteq> 0 \<Longrightarrow> stock fs' = stock fs"
    and free: "inv fs \<Longrightarrow> stock fs = c # cs \<Longrightarrow>
      \<exists>fs'. free fs = Some (c, fs') \<and> inv fs' \<and> entry fs' = (entry fs)(c := eof) \<and> stock fs' = cs"
    and eof_pos: "eof \<noteq> 0"
begin

lemma last_cluster_stock:
  assumes "inv fs" "chain (entry fs) eof c xs" "\<forall>x \<in> set xs. dom x" "c < eof"
  shows "\<exists>fs'. last_cluster get eof l c fs = Some (last xs, fs') \<and> inv fs' \<and> entry fs' = entry fs \<and> stock fs' = stock fs"
  using assms
proof (induction xs arbitrary: c fs l)
  case (Cons x xs)
  then have x: "x = c" "dom c" by auto
  obtain f1 where f1: "get c fs = Some (entry fs c, f1)" "inv f1" "entry f1 = entry fs" using get [OF Cons.prems(1) x(2)] by blast
  note s = get_stock [OF Cons.prems(1) x(2) f1(1)]
  have step: "last_cluster get eof l c fs = last_cluster get eof c (entry fs c) f1"
    using Cons.prems(4) f1(1) by (subst last_cluster.simps) (simp add: not_le [symmetric])
  show ?case
  proof (cases "xs = []")
    case True
    with Cons.prems(2) x f1 s show ?thesis unfolding step by (subst last_cluster.simps) auto
  next
    case False
    with Cons.prems(2) x f1(3) have "chain (entry f1) eof (entry fs c) xs" "entry fs c < eof" by simp_all
    from Cons.IH [OF f1(2) this(1) _ this(2), of c] Cons.prems(3) f1(3) s False show ?thesis unfolding step by auto
  qed
qed simp

lemma chain_last: "chain m eof c xs \<Longrightarrow> m (last xs) \<ge> eof"
proof (induction xs arbitrary: c)
  case (Cons x xs)
  then show ?case by (auto split: if_splits)
qed simp

lemma link_new_ok:
  assumes "inv fs" "chain (entry fs) eof c xs" "\<forall>x \<in> set xs. dom x" "j \<le> length (stock fs)"
  shows "\<exists>fs'. link_new free put j (last xs) fs = Some (Some (last (xs @ take j (stock fs))), fs') \<and> inv fs' \<and>
    chain (entry fs') eof c (xs @ take j (stock fs)) \<and>
    (\<forall>d. d \<notin> set xs \<union> set (take j (stock fs)) \<longrightarrow> entry fs' d = entry fs d)"
  using assms
proof (induction j arbitrary: fs xs)
  case (Suc j)
  then obtain n cs where n: "stock fs = n # cs" by (cases "stock fs") auto
  have ne: "xs \<noteq> []" using Suc.prems(2) by auto
  then have dl: "dom (last xs)" using Suc.prems(3) by simp
  from stock [OF Suc.prems(1)] n have sn: "dom n" "n \<noteq> 0" "n < eof" "n AND limit = n" "entry fs n = 0" by auto
  have el: "eof \<le> entry fs (last xs)" by (rule chain_last [OF Suc.prems(2)])
  then have l0: "entry fs (last xs) \<noteq> 0" using eof_pos by auto
  have nx: "n \<notin> set xs"
  proof
    assume "n \<in> set xs"
    then obtain us vs where "xs = us @ n # vs" by (auto simp: in_set_conv_decomp)
    with chain_suffix [of "entry fs" eof c us n vs] Suc.prems(2) sn(5) eof_pos show False by (auto split: if_splits)
  qed
  obtain f1 where f1: "free fs = Some (n, f1)" "inv f1" "entry f1 = (entry fs)(n := eof)" "stock f1 = cs" using free [OF Suc.prems(1) n] by blast
  have "last xs \<noteq> n" using nx ne by (metis last_in_set)
  obtain r f2 where f2: "put (last xs) n f1 = Some (r, f2)" "inv f2" "entry f2 = (entry f1)(last xs := n)"
    using put [OF f1(2) dl, of n] sn(4) by auto
  have s2: "stock f2 = cs" using put_stock [OF f1(2) dl f2(1)] f1(3,4) l0 sn(2,4) \<open>last xs \<noteq> n\<close> by simp
  have "chain (entry f1) eof c xs" by (rule chain_cong [OF Suc.prems(2)]) (use nx f1(3) in auto)
  moreover have "chain (entry f1) eof n [n]" using f1(3) by simp
  ultimately have "chain (entry f2) eof c (xs @ [n])" unfolding f2(3) using nx sn(2,3) by (intro chain_append) auto
  from Suc.IH [OF f2(2) this] Suc.prems(3,4) sn(1) n s2 obtain fs' where fs':
    "link_new free put j n f2 = Some (Some (last ((xs @ [n]) @ take j cs)), fs')" "inv fs'"
    "chain (entry fs') eof c ((xs @ [n]) @ take j cs)" "\<forall>d. d \<notin> set (xs @ [n]) \<union> set (take j cs) \<longrightarrow> entry fs' d = entry f2 d"
    by auto
  have "link_new free put (Suc j) (last xs) fs = link_new free put j n f2" using f1(1) f2(1) sn(2) by simp
  moreover have "entry f2 d = entry fs d" if "d \<notin> set (xs @ [n])" for d using that ne f1(3) f2(3) by auto
  ultimately show ?case using fs' n by auto
qed simp

lemma append_ok:
  assumes "inv fs" "chain (entry fs) eof c xs" "\<forall>x \<in> set xs. dom x" "c < eof" "j \<le> length (stock fs)"
  shows "\<exists>fs'. append_clusters get put free eof j c fs = Some (True, fs') \<and> inv fs' \<and>
    chain (entry fs') eof c (xs @ take j (stock fs)) \<and>
    (\<forall>d. d \<notin> set xs \<union> set (take j (stock fs)) \<longrightarrow> entry fs' d = entry fs d)"
proof -
  let ?new = "take j (stock fs)"
  obtain f1 where f1: "last_cluster get eof c c fs = Some (last xs, f1)" "inv f1" "entry f1 = entry fs" "stock f1 = stock fs"
    using last_cluster_stock [OF assms(1-4)] by blast
  from link_new_ok [OF f1(2), of c xs j] assms f1 obtain f2 where f2:
    "link_new free put j (last xs) f1 = Some (Some (last (xs @ ?new)), f2)" "inv f2" "chain (entry f2) eof c (xs @ ?new)"
    "\<forall>d. d \<notin> set xs \<union> set ?new \<longrightarrow> entry f2 d = entry fs d" by auto
  have ne: "xs @ ?new \<noteq> []" using assms(2) by auto
  have "dom (last (xs @ ?new))"
  proof -
    have "last (xs @ ?new) \<in> set xs \<union> set ?new" using last_in_set [OF ne] by simp
    then show ?thesis using assms(3) stock [OF assms(1)] set_take_subset [of j "stock fs"] by blast
  qed
  from put [OF f2(2) this, of eof] eof obtain r f3 where f3: "put (last (xs @ ?new)) eof f2 = Some (r, f3)" "inv f3"
    "entry f3 = (entry f2)(last (xs @ ?new) := eof)" by auto
  have "chain m eof c ys \<Longrightarrow> chain (m(last ys := eof)) eof c ys" for m ys
  proof (induction ys arbitrary: c)
    case (Cons y ys)
    have "y \<notin> set ys" using chain_distinct [OF Cons.prems] by simp
    then have "ys \<noteq> [] \<Longrightarrow> y \<noteq> last ys" by (metis last_in_set)
    with Cons show ?case by (cases "ys = []") auto
  qed simp
  from this [OF f2(3)] f3(3) have "chain (entry f3) eof c (xs @ ?new)" by simp
  moreover have "entry f3 d = entry fs d" if "d \<notin> set xs \<union> set ?new" for d
    using that f2(4) f3(3) last_in_set [OF ne] by auto
  moreover have "append_clusters get put free eof j c fs = Some (True, f3)"
    using f1(1) f2(1) f3(1) by (simp add: append_clusters_def)
  ultimately show ?thesis using f3(2) by blast
qed

end

end
