(* ===== verification/Fat_File.thy ===== *)
theory Fat_File
  imports Fat_Chain
begin

text \<open>
  The operations of the FAT filesystem on the contents of a file (\<^verbatim>\<open>FatFilesystem.cc\<close>): \<open>read\<close>,
  \<open>write\<close>, \<open>extend\<close>, \<open>truncate\<close>, the clusters that \<open>remove\<close> frees, and the size and the first cluster in
  the directory entry.  Positions and sizes have 64 bits; where the code keeps them in 32 bits, they are
  cut.  \<open>None\<close> is, besides what \<open>Fat_Table\<close> says, an access outside of the buffer of one
  cluster, or the use of a buffer that a failed read of the disk left as it was.
\<close>

record fat_file =
  m_Inode :: u32
  m_Size :: nat
  m_bIsDirectory :: bool
  m_DirClus :: u32
  m_DirOffset :: nat

section \<open>Directory entries\<close>

text \<open>The inner \<open>None\<close> is the null pointer.\<close>

definition readDirectoryPortion :: "fat_fs \<Rightarrow> u32 \<Rightarrow> u8 list option option" where
  "readDirectoryPortion fs clus =
     (if clus = 0
      then if m_Type fs \<noteq> FAT32
           then map_option Some (readSectorBlock fs (m_RootDir fs) (unat (m_RootDirCount fs) * BPB_BytsPerSec fs))
           else Some None
      else map_option Some (readCluster fs clus))"

definition writeDirectoryPortion :: "u32 \<Rightarrow> u8 list \<Rightarrow> fat_fs \<Rightarrow> fat_fs option" where
  "writeDirectoryPortion clus p fs =
     (if clus = 0
      then if m_Type fs \<noteq> FAT32 then writeSectorBlock (m_RootDir fs) p fs else Some fs
      else writeCluster clus p fs)"

definition getDirectoryEntry :: "fat_fs \<Rightarrow> u32 \<Rightarrow> nat \<Rightarrow> u8 list option option" where
  "getDirectoryEntry fs clus offset =
     (case readDirectoryPortion fs clus of
        None \<Rightarrow> None
      | Some None \<Rightarrow> Some None
      | Some (Some buf) \<Rightarrow> if offset + 32 \<le> length buf then Some (Some (take 32 (drop offset buf))) else None)"

definition writeDirectoryEntry :: "u8 list \<Rightarrow> u32 \<Rightarrow> nat \<Rightarrow> fat_fs \<Rightarrow> fat_fs option" where
  "writeDirectoryEntry dir clus offset fs =
     (case readDirectoryPortion fs clus of
        None \<Rightarrow> None
      | Some None \<Rightarrow> Some fs
      | Some (Some buf) \<Rightarrow>
          if offset + 32 \<le> length buf then writeDirectoryPortion clus (splice offset dir buf) fs else None)"

definition DIR_FileSize :: "u8 list \<Rightarrow> u32" where
  "DIR_FileSize d = le32 (le16 (d ! 28) (d ! 29)) (le16 (d ! 30) (d ! 31))"

definition DIR_FstClusLO :: "u8 list \<Rightarrow> u16" where
  "DIR_FstClusLO d = le16 (d ! 26) (d ! 27)"

definition DIR_FstClusHI :: "u8 list \<Rightarrow> u16" where
  "DIR_FstClusHI d = le16 (d ! 20) (d ! 21)"

definition updateFileSize :: "fat_file \<Rightarrow> int \<Rightarrow> fat_fs \<Rightarrow> fat_fs option" where
  "updateFileSize f sizeChange fs =
     (if sizeChange = 0 then Some fs
      else
        (case getDirectoryEntry fs (m_DirClus f) (m_DirOffset f) of
           None \<Rightarrow> None
         | Some None \<Rightarrow> Some fs
         | Some (Some p) \<Rightarrow>
             writeDirectoryEntry (splice 28 (bytes32 (DIR_FileSize p + word_of_int sizeChange)) p) (m_DirClus f) (m_DirOffset f) fs))"

definition setCluster :: "fat_file \<Rightarrow> u32 \<Rightarrow> fat_fs \<Rightarrow> fat_fs option" where
  "setCluster f clus fs =
     (if clus = 0 then Some fs
      else
        (case getDirectoryEntry fs (m_DirClus f) (m_DirOffset f) of
           None \<Rightarrow> None
         | Some None \<Rightarrow> Some fs
         | Some (Some p) \<Rightarrow>
             writeDirectoryEntry
               (splice 20 (bytes16 (ucast (drop_bit 16 clus))) (splice 26 (bytes16 (ucast clus)) p)) (m_DirClus f) (m_DirOffset f) fs))"

section \<open>Reading\<close>

text \<open>Following the chain to the cluster of a position; the inner \<open>None\<close> is the early return.\<close>

fun skip_clusters :: "nat \<Rightarrow> u32 \<Rightarrow> fat_fs \<Rightarrow> (u32 option \<times> fat_fs) option" where
  "skip_clusters 0 clus fs = Some (Some clus, fs)"
| "skip_clusters (Suc n) clus fs = do {
     (clus, fs) \<leftarrow> getClusterEntry clus fs;
     (if clus = 0 \<or> isEof fs clus then Some (None, fs) else skip_clusters n clus fs) }"

text \<open>The loop of \<open>read\<close>: \<open>n\<close> bytes are left, and the result are the bytes copied, or \<open>None\<close> when the chain
  ends before.\<close>

function read_loop :: "nat \<Rightarrow> nat \<Rightarrow> u32 \<Rightarrow> fat_fs \<Rightarrow> (u8 list option \<times> fat_fs) option" where
  "read_loop n currOffset clus fs = do {
     tmp \<leftarrow> readCluster fs clus;
     let k = min n (m_BlockSize fs);
     (if currOffset + k > m_BlockSize fs \<or> k = 0 \<and> n \<noteq> 0 then None
      else if k = n then Some (Some (take k (drop currOffset tmp)), fs)
      else do {
        (clus, fs) \<leftarrow> getClusterEntry clus fs;
        (if clus = 0 \<or> isEof fs clus then Some (None, fs)
         else map_option (\<lambda>(r, fs). (map_option ((@) (take k (drop currOffset tmp))) r, fs)) (read_loop (n - k) 0 clus fs)) }) }"
  by auto
termination by (relation "measure (\<lambda>(n, i, c, fs). n)") auto

declare read_loop.simps [simp del]

definition fat_read :: "fat_file \<Rightarrow> nat \<Rightarrow> nat \<Rightarrow> fat_fs \<Rightarrow> (u8 list option \<times> fat_fs) option" where
  "fat_read f location n fs =
     (if m_bIsDirectory f \<or> m_Inode f = 0 \<or> location \<ge> m_Size f then Some (None, fs)
      else
        let finalSize = (if (location + n) mod 2 ^ 64 > m_Size f then m_Size f - location else n);
            clusSize = BPB_SecPerClus fs * BPB_BytsPerSec fs
        in do {
          (c, fs) \<leftarrow> skip_clusters (location div clusSize mod 2 ^ 32) (m_Inode f) fs;
          (case c of
             None \<Rightarrow> Some (None, fs)
           | Some clus \<Rightarrow> read_loop finalSize (location mod clusSize) clus fs) })"

section \<open>Writing\<close>

text \<open>How many clusters \<open>write\<close> and \<open>extend\<close> link in so that the file reaches \<open>finalOffset\<close>.  The
  offset, the number of clusters and their size in bytes have 32 bits.\<close>

definition extra_clusters :: "nat \<Rightarrow> nat \<Rightarrow> nat \<Rightarrow> nat" where
  "extra_clusters clusSize oldSize finalOffset =
     (let j = of_nat (oldSize div clusSize) + (if oldSize mod clusSize \<noteq> 0 then 1 else 0) :: u32;
          finalCluster = (if j = 0 then 1 else j) * of_nat clusSize;
          numExtraBytes = unat (of_nat finalOffset - finalCluster)
      in if of_nat finalOffset > finalCluster
         then numExtraBytes div clusSize + (if numExtraBytes mod clusSize \<noteq> 0 then 1 else 0)
         else 0)"

definition link_clusters :: "nat \<Rightarrow> u32 \<Rightarrow> fat_fs \<Rightarrow> (bool \<times> fat_fs) option" where
  "link_clusters j clus fs =
     (if j = 0 then Some (True, fs)
      else append_clusters getClusterEntry setClusterEntry findFreeCluster (eofValue fs) j clus fs)"

definition first_cluster :: "fat_file \<Rightarrow> fat_fs \<Rightarrow> (fat_file option \<times> fat_fs) option" where
  "first_cluster f fs =
     (if m_Inode f \<noteq> 0 then Some (Some f, fs)
      else do {
        (freeClus, fs) \<leftarrow> findFreeCluster fs;
        (if freeClus = 0 then Some (None, fs)
         else do {
           (_, fs) \<leftarrow> setClusterEntry freeClus (eofValue fs) fs;
           fs \<leftarrow> setCluster f freeClus fs;
           Some (Some (f\<lparr>m_Inode := freeClus\<rparr>), fs) }) })"

text \<open>The loop of \<open>write\<close>: \<open>bs\<close> are the bytes that are left; the result counts those that were written.\<close>

function write_loop :: "u8 list \<Rightarrow> nat \<Rightarrow> u32 \<Rightarrow> fat_fs \<Rightarrow> (nat \<times> fat_fs) option" where
  "write_loop bs currOffset clus fs =
     (if bs = [] then Some (0, fs)
      else do {
        tmp \<leftarrow> readCluster fs clus;
        let k = min (m_BlockSize fs) (length bs);
        (if currOffset + k > m_BlockSize fs \<or> k = 0 then None
         else do {
           fs \<leftarrow> writeCluster clus (splice currOffset (take k bs) tmp) fs;
           (clus, fs) \<leftarrow> getClusterEntry clus fs;
           (if clus = 0 then Some (k, fs)
            else if isEof fs clus then (if k < length bs then None else Some (k, fs))
            else map_option (\<lambda>(n, fs). (k + n, fs)) (write_loop (drop k bs) 0 clus fs)) }) })"
  by auto
termination by (relation "measure (\<lambda>(bs, i, c, fs). length bs)") auto

declare write_loop.simps [simp del]

definition fat_write :: "bool \<Rightarrow> fat_file \<Rightarrow> nat \<Rightarrow> u8 list \<Rightarrow> fat_fs \<Rightarrow> (nat \<times> fat_file \<times> fat_fs) option" where
  "fat_write m_bReadOnly f location bs fs =
     (if m_bReadOnly then Some (0, f, fs)
      else
        let fileSizeChange = (location + length bs) mod 2 ^ 64 - m_Size f;
            clusSize = BPB_SecPerClus fs * BPB_BytsPerSec fs
        in do {
          (f', fs) \<leftarrow> first_cluster f fs;
          (case f' of
             None \<Rightarrow> Some (0, f, fs)
           | Some f \<Rightarrow> do {
               (ok, fs) \<leftarrow> link_clusters (extra_clusters clusSize (m_Size f) (location + length bs)) (m_Inode f) fs;
               (if \<not> ok then Some (0, f, fs)
                else do {
                  (c, fs) \<leftarrow> skip_clusters (location div BPB_BytsPerSec fs mod 2 ^ 32 div BPB_SecPerClus fs) (m_Inode f) fs;
                  (case c of
                     None \<Rightarrow> Some (0, f, fs)
                   | Some clus \<Rightarrow> do {
                       (n, fs) \<leftarrow> write_loop bs (location mod clusSize) clus fs;
                       fs \<leftarrow> updateFileSize f (int fileSizeChange) fs;
                       Some (n, f\<lparr>m_Size := m_Size f + fileSizeChange\<rparr>, fs) }) }) }) })"

section \<open>Extending, truncating, removing\<close>

text \<open>\<open>FatFilesystem::extend\<close>; \<open>FatFile::extend\<close> then sets the size in the file.\<close>

definition fs_extend :: "fat_file \<Rightarrow> nat \<Rightarrow> fat_fs \<Rightarrow> (fat_file \<times> fat_fs) option" where
  "fs_extend f n fs =
     (if m_Size f \<ge> n then Some (f, fs)
      else
        let clusSize = BPB_SecPerClus fs * BPB_BytsPerSec fs
        in do {
          (f', fs) \<leftarrow> first_cluster f fs;
          (case f' of
             None \<Rightarrow> Some (f, fs)
           | Some f' \<Rightarrow>
               if m_Inode f = 0 \<and> clusSize \<ge> n then Some (f', fs)
               else do {
                 (ok, fs) \<leftarrow> link_clusters (extra_clusters clusSize (m_Size f) n) (m_Inode f') fs;
                 (if \<not> ok then Some (f', fs)
                  else map_option (Pair f') (updateFileSize f' (int n - int (m_Size f)) fs)) }) })"

definition FatFile_extend :: "fat_file \<Rightarrow> nat \<Rightarrow> fat_fs \<Rightarrow> (fat_file \<times> fat_fs) option" where
  "FatFile_extend f newSize fs =
     (if m_Size f < newSize then map_option (\<lambda>(f, fs). (f\<lparr>m_Size := newSize\<rparr>, fs)) (fs_extend f newSize fs) else Some (f, fs))"

definition fat_truncate :: "fat_file \<Rightarrow> fat_fs \<Rightarrow> (fat_file \<times> fat_fs) option" where
  "fat_truncate f fs = do {
     fs \<leftarrow> updateFileSize f (- int (m_Size f)) fs;
     let f = f\<lparr>m_Size := 0\<rparr>;
     (if m_Inode f = 0 then Some (f, fs)
      else map_option (Pair f) (truncate_chain getClusterEntry setClusterEntry (eofValue fs) (m_Inode f) fs)) }"

text \<open>The part of \<open>remove\<close> after the directory entry is gone.\<close>

definition remove_clusters :: "fat_file \<Rightarrow> fat_fs \<Rightarrow> fat_fs option" where
  "remove_clusters f fs =
     (if m_Inode f = 0 then Some fs else remove_loop getClusterEntry setClusterEntry (eofValue fs) (m_Inode f) fs)"

text \<open>\<open>FatFile::writeBlock\<close>: a write of a block does not go beyond the size of the file; from a position behind it,
  the number of bytes wraps around and goes beyond the block.\<close>

definition writeBlock :: "bool \<Rightarrow> fat_file \<Rightarrow> nat \<Rightarrow> u8 list \<Rightarrow> fat_fs \<Rightarrow> (nat \<times> fat_file \<times> fat_fs) option" where
  "writeBlock ro f location block fs =
     (let sz = (if (location + 4096) mod 2 ^ 64 > m_Size f then (m_Size f + 2 ^ 64 - location) mod 2 ^ 64 else 4096)
      in if sz > length block then None else fat_write ro f location (take sz block) fs)"

end
