(* ===== verification/Fat_Volume.thy ===== *)
theory Fat_Volume
  imports Fat_Chain
begin

text \<open>The table of a volume provides the interface of \<open>Fat_Chain\<close>, for the clusters whose entries lie in
  sectors that are cached in the first half of their buffer.\<close>

section \<open>The invariant\<close>

text \<open>What the operations on the table never change.\<close>

definition geometry :: "fat_fs \<Rightarrow> fat_fs" where
  "geometry fs = fs\<lparr>m_FreeClusterHint := 0, m_FatCache := (\<lambda>_. None), fat_buffers := [], disk := (\<lambda>_. 0)\<rparr>"

lemma geometry_simps [simp]:
  "BPB_BytsPerSec (geometry fs) = BPB_BytsPerSec fs" "m_Type (geometry fs) = m_Type fs" "m_FatSector (geometry fs) = m_FatSector fs"
  "disk_size (geometry fs) = disk_size fs" "BPB_TotSec32 (geometry fs) = BPB_TotSec32 fs" "BPB_TotSec16 (geometry fs) = BPB_TotSec16 fs"
  "BPB_SecPerClus (geometry fs) = BPB_SecPerClus fs" "FSI_NxtFree (geometry fs) = FSI_NxtFree fs"
  by (simp_all add: geometry_def)

lemma geometry_loaded [simp]: "geometry (loaded s fs) = geometry fs"
  by (simp add: geometry_def loaded_def Let_def)

lemma geometry_entry_set [simp]: "geometry (entry_set c v fs) = geometry fs"
  by (simp add: geometry_def entry_set_def store_buffer_def split: prod.splits)

lemma geometry_sector: "geometry fs = geometry fs' \<Longrightarrow> fat_sector fs c = fat_sector fs' c"
  by (metis fat_sector_def geometry_simps(1,2))

text \<open>Sectors are cached in pairs, the even one in the first half.\<close>

definition paired :: "fat_fs \<Rightarrow> bool" where
  "paired fs \<longleftrightarrow>
     (\<forall>s b h. m_FatCache fs s = Some (b, h) \<longrightarrow>
        h = s mod 2 \<and> m_FatCache fs (if even s then s + 1 else s - 1) = Some (b, 1 - h))"

definition safe :: "fat_fs \<Rightarrow> u32 \<Rightarrow> bool" where
  "safe g c \<longleftrightarrow> in_table g c \<and> even (fat_sector g c) \<and>
     BPB_BytsPerSec g * (m_FatSector g + fat_sector g c) mod 4096 + 2 * BPB_BytsPerSec g \<le> 4096"

definition search_limit :: "fat_fs \<Rightarrow> nat" where
  "search_limit g = (if BPB_TotSec32 g = 0 then BPB_TotSec16 g else BPB_TotSec32 g) div BPB_SecPerClus g"

definition table_inv :: "fat_fs \<Rightarrow> fat_fs \<Rightarrow> bool" where
  "table_inv g fs \<longleftrightarrow> geometry fs = g \<and> volume_ok fs \<and> coherent fs \<and> paired fs \<and> search_limit g < 2 ^ 32 \<and>
     (m_Type g = FAT32 \<longrightarrow> BPB_TotSec32 g \<noteq> 0)"

definition value_mask :: "fat_fs \<Rightarrow> u32" where
  "value_mask g = (if m_Type g = FAT16 then 0xFFFF else 0x0FFFFFFF)"

lemma safe_in_table: "safe (geometry fs) c \<Longrightarrow> in_table fs c"
  using geometry_sector [of fs "geometry fs" c] by (simp add: safe_def in_table_def geometry_def)

lemma safe_sector: "safe (geometry fs) c \<Longrightarrow> even (fat_sector fs c) \<and>
    BPB_BytsPerSec fs * (m_FatSector fs + fat_sector fs c) mod 4096 + 2 * BPB_BytsPerSec fs \<le> 4096"
  using geometry_sector [of fs "geometry fs" c] by (simp add: safe_def geometry_def)

lemma paired_loaded:
  assumes "paired fs" "even s" "m_FatCache fs s = None"
  shows "paired (loaded s fs)"
proof -
  have n: "m_FatCache fs (s + 1) = None"
  proof (rule ccontr)
    assume "m_FatCache fs (s + 1) \<noteq> None"
    then obtain b h where "m_FatCache fs (s + 1) = Some (b, h)" by auto
    with assms show False by (fastforce simp: paired_def)
  qed
  let ?m = "\<lambda>t. if t = s then Some (length (fat_buffers fs), 0) else if t = s + 1 then Some (length (fat_buffers fs), 1) else m_FatCache fs t"
  have m: "m_FatCache (loaded s fs) = ?m" using assms(3) n by (auto simp: loaded_def Let_def cache_insert_def)
  have "h = t mod 2 \<and> ?m (if even t then t + 1 else t - 1) = Some (b, 1 - h)" if t: "?m t = Some (b, h)" for t b h
  proof (cases "t = s \<or> t = s + 1")
    case True
    with t assms(2) show ?thesis by (auto simp: even_iff_mod_2_eq_zero split: if_splits)
  next
    case False
    then have o: "m_FatCache fs t = Some (b, h)" using t by simp
    with assms(1) have p: "h = t mod 2" "m_FatCache fs (if even t then t + 1 else t - 1) = Some (b, 1 - h)" by (auto simp: paired_def)
    have "(if even t then t + 1 else t - 1) \<noteq> s" "(if even t then t + 1 else t - 1) \<noteq> s + 1"
      using p(2) assms(3) n by (auto split: if_splits)
    with p show ?thesis by simp
  qed
  then show ?thesis by (simp add: paired_def m)
qed

lemma volume_ok_loaded [simp]: "volume_ok (loaded s fs) = volume_ok fs"
  by (simp add: volume_ok_def loaded_def Let_def)

lemma fat_entry_loaded [simp]: "fat_entry (loaded s fs) = fat_entry fs"
  by (rule ext) (simp add: loaded_def Let_def fat_entry_def fat_pos_def width_def disk16_def)

section \<open>Reading and writing entries\<close>

lemma get_safe:
  assumes "table_inv g fs" "safe g c"
  shows "\<exists>fs'. getClusterEntry c fs = Some (fat_entry fs c, fs') \<and> table_inv g fs' \<and> fat_entry fs' = fat_entry fs \<and>
    m_FreeClusterHint fs' = m_FreeClusterHint fs \<and> disk fs' = disk fs \<and> (\<exists>b. m_FatCache fs' (fat_sector fs' c) = Some (b, 0))"
proof -
  have g: "geometry fs = g" and ok: "volume_ok fs" "coherent fs" "paired fs" using assms(1) by (auto simp: table_inv_def)
  let ?s = "fat_sector fs c"
  note sf = safe_in_table [of fs c] safe_sector [of fs c]
  have s: "in_table fs c" "even ?s" using sf assms(2) g by auto
  show ?thesis
  proof (cases "m_FatCache fs ?s")
    case None
    have "fat_sector (loaded ?s fs) c = ?s" by (rule geometry_sector) simp
    with None loaded_coherent [OF ok(2) None] paired_loaded [OF ok(3) s(2) None] getClusterEntry_cases [OF ok(1,2) s(1)] assms(1) g show ?thesis
      by (auto simp: table_inv_def) (auto simp: loaded_def Let_def cache_insert_def)
  next
    case (Some p)
    then obtain b h where bh: "m_FatCache fs ?s = Some (b, h)" by (cases p) auto
    with ok(3) have "h = ?s mod 2" unfolding paired_def by blast
    with s(2) have "h = 0" by (simp add: even_iff_mod_2_eq_zero)
    with getClusterEntry_cases [OF ok(1,2) s(1)] bh assms(1) show ?thesis by auto
  qed
qed

lemma set_after_get: "getClusterEntry c fs = Some (e, f1) \<Longrightarrow> getClusterEntry c f1 = Some (e, f1) \<Longrightarrow> setClusterEntry c v fs = setClusterEntry c v f1"
  by (simp add: setClusterEntry_def)

text \<open>The second half of a buffer that belongs to a pair agrees with the disk too.\<close>

lemma paired_first_half:
  assumes "coherent fs" "paired fs" "even s" "m_FatCache fs s = Some (b, 0)"
  shows "first_half fs s"
proof -
  have n: "m_FatCache fs (s + 1) = Some (b, 1)" using assms(2-4) by (fastforce simp: paired_def)
  have "fat_buffers fs ! b ! i = disk fs (BPB_BytsPerSec fs * (m_FatSector fs + s) + i)" if i: "i < 2 * BPB_BytsPerSec fs" for i
  proof (cases "i < BPB_BytsPerSec fs")
    case True
    then show ?thesis using assms(1,4) by (fastforce simp: coherent_def)
  next
    case False
    let ?j = "i - BPB_BytsPerSec fs"
    have "?j < BPB_BytsPerSec fs" using i False by simp
    then have "fat_buffers fs ! b ! (1 * BPB_BytsPerSec fs + ?j) = disk fs (BPB_BytsPerSec fs * (m_FatSector fs + (s + 1)) + ?j)"
      using assms(1) n unfolding coherent_def by blast
    then show ?thesis using False by (simp add: algebra_simps)
  qed
  then show ?thesis using assms(4) by (simp add: first_half_def)
qed

lemma entry_set_coherent:
  assumes ok: "volume_ok fs" "coherent fs" "in_table fs c" and b: "m_FatCache fs (fat_sector fs c) = Some (b, 0)"
  shows "coherent (entry_set c v fs)"
proof -
  let ?bps = "BPB_BytsPerSec fs" and ?s = "fat_sector fs c" and ?i = "fatOffset (m_Type fs) c mod BPB_BytsPerSec fs" and ?e = "entry_set c v fs"
  have u: "unat c < 2 ^ 30" using ok(3) by (simp add: in_table_def)
  note w = width_pos [OF ok(1) u]
  have cell: "m_FatCache fs t = Some (x, h) \<Longrightarrow> x < length (fat_buffers fs) \<and> h < 2 \<and> length (fat_buffers fs ! x) = 2 * ?bps \<and>
      (\<forall>i < ?bps. fat_buffers fs ! x ! (h * ?bps + i) = disk fs (?bps * (m_FatSector fs + t) + i))" for t x h
    using ok(2) unfolding coherent_def by blast
  have inj: "m_FatCache fs t = Some p \<Longrightarrow> m_FatCache fs t' = Some p \<Longrightarrow> t = t'" for t t' p using ok(2) unfolding coherent_def by blast
  have len: "b < length (fat_buffers fs)" "length (fat_buffers fs ! b) = 2 * ?bps" using cell [OF b] by auto
  have bufs: "fat_buffers ?e = (fat_buffers fs)[b := take ?i (fat_buffers fs ! b) @ entry_bytes fs v @ drop (?i + width fs) (fat_buffers fs ! b)]"
    using b by (simp add: entry_set_def store_buffer_def Let_def)
  have same_disk: "disk ?e (?bps * (m_FatSector fs + t) + i) = disk fs (?bps * (m_FatSector fs + t) + i)" if "t \<noteq> ?s" "i < ?bps" for t i
  proof -
    consider "m_FatSector fs + t + 1 \<le> m_FatSector fs + ?s" | "m_FatSector fs + ?s + 1 \<le> m_FatSector fs + t" using \<open>t \<noteq> ?s\<close> by linarith
    then have "?bps * (m_FatSector fs + t) + ?bps \<le> ?bps * (m_FatSector fs + ?s) \<or> ?bps * (m_FatSector fs + ?s) + ?bps \<le> ?bps * (m_FatSector fs + t)"
    proof cases
      case 1
      then show ?thesis using mult_le_mono2 [OF 1, of ?bps] by simp
    next
      case 2
      then show ?thesis using mult_le_mono2 [OF 2, of ?bps] by simp
    qed
    then show ?thesis using w that(2) by (auto simp: store_bytes_def)
  qed
  have new: "x < length (fat_buffers ?e) \<and> h < 2 \<and> length (fat_buffers ?e ! x) = 2 * ?bps \<and>
      (\<forall>i < ?bps. fat_buffers ?e ! x ! (h * ?bps + i) = disk ?e (?bps * (m_FatSector fs + t) + i))" if t: "m_FatCache fs t = Some (x, h)" for t x h
  proof (cases "x = b")
    case False
    then have "t \<noteq> ?s" using t b by auto
    with same_disk [OF this] cell [OF t] False show ?thesis by (auto simp: bufs simp del: entry_set_simps(7))
  next
    case True
    have len': "length (fat_buffers ?e ! b) = 2 * ?bps" using len w(1) by (simp add: bufs)
    have nth: "fat_buffers ?e ! b ! k = (if ?i \<le> k \<and> k < ?i + width fs then entry_bytes fs v ! (k - ?i) else fat_buffers fs ! b ! k)" if "k < 2 * ?bps" for k
      using nth_store [of ?i "entry_bytes fs v" "fat_buffers fs ! b" k] len w(1) that by (simp add: bufs)
    have "fat_buffers ?e ! b ! (h * ?bps + i) = disk ?e (?bps * (m_FatSector fs + t) + i)" if i: "i < ?bps" for i
    proof (cases "h = 0")
      case True
      then have ts: "t = ?s" using inj [OF _ b] t \<open>x = b\<close> by simp
      have "fat_buffers fs ! b ! i = disk fs (?bps * (m_FatSector fs + ?s) + i)" using cell [OF b] i by simp
      then show ?thesis using nth [of i] i True ts by (auto simp: store_bytes_def w(2) [symmetric])
    next
      case False
      then have h: "h = 1" using cell [OF t] by auto
      then have "t \<noteq> ?s" using t b by auto
      with same_disk [OF this i] cell [OF t] nth [of "?bps + i"] w(1) i h \<open>x = b\<close> show ?thesis by (simp del: entry_set_simps(7))
    qed
    then show ?thesis using cell [OF t] len' True by (simp add: bufs)
  qed
  show ?thesis unfolding coherent_def entry_set_simps(2,3,4)
    by (rule conjI; intro allI impI) (use new inj in blast)+
qed

lemma put_safe:
  assumes "table_inv g fs" "safe g c"
  shows "\<exists>r fs'. setClusterEntry c v fs = Some (r, fs') \<and> table_inv g fs' \<and> fat_entry fs' = (fat_entry fs)(c := v AND value_mask g) \<and>
    m_FreeClusterHint fs' = m_FreeClusterHint fs \<and> disk fs' = store_bytes (fat_pos fs c) (entry_bytes fs v) (disk fs)"
proof -
  obtain f1 b where f1: "getClusterEntry c fs = Some (fat_entry fs c, f1)" "table_inv g f1" "fat_entry f1 = fat_entry fs"
    "m_FreeClusterHint f1 = m_FreeClusterHint fs" "disk f1 = disk fs" "m_FatCache f1 (fat_sector f1 c) = Some (b, 0)"
    using get_safe [OF assms] by blast
  have g: "geometry f1 = g" "geometry fs = g" and ok: "volume_ok f1" "coherent f1" "paired f1" using f1(2) assms(1) by (auto simp: table_inv_def)
  have s: "in_table f1 c" "even (fat_sector f1 c)"
    "BPB_BytsPerSec f1 * (m_FatSector f1 + fat_sector f1 c) mod 4096 + 2 * BPB_BytsPerSec f1 \<le> 4096"
    using safe_in_table [of f1 c] safe_sector [of f1 c] assms(2) g by auto
  have ty: "m_Type f1 = m_Type fs" "m_Type g = m_Type fs" "fat_pos f1 c = fat_pos fs c" "entry_bytes f1 v = entry_bytes fs v"
    using geometry_simps [of f1] geometry_simps [of fs] g by (simp_all add: fat_pos_def width_def entry_bytes_def)
  have "getClusterEntry c f1 = Some (fat_entry fs c, f1)" using getClusterEntry_cases [OF ok(1,2) s(1)] f1(3,6) by simp
  then have "setClusterEntry c v fs = setClusterEntry c v f1" by (rule set_after_get [OF f1(1)])
  moreover obtain r where "setClusterEntry c v f1 = Some (r, entry_set c v f1)"
    using set_cached [OF ok(1,2) s(1) f1(6) paired_first_half [OF ok(2,3) s(2) f1(6)] s(3)] by blast
  moreover have "table_inv g (entry_set c v f1)"
    using f1(2) entry_set_coherent [OF ok(1,2) s(1) f1(6)] ok(3) g by (simp add: table_inv_def volume_ok_def paired_def)
  moreover have "fat_entry (entry_set c v f1) = (fat_entry fs)(c := v AND value_mask g)"
    using ty f1(3) by (auto simp: fat_entry_set value_mask_def)
  moreover have "m_FreeClusterHint (entry_set c v f1) = m_FreeClusterHint fs"
    using f1(4) by (simp add: entry_set_def store_buffer_def split: prod.splits)
  ultimately show ?thesis using f1(5) ty by simp
qed

section \<open>Free clusters\<close>

definition search_start :: "fat_fs \<Rightarrow> nat" where
  "search_start fs = unat (if m_Type fs = FAT32 then FSI_NxtFree fs else m_FreeClusterHint fs)"

definition reachable_part :: "fat_fs \<Rightarrow> nat \<Rightarrow> nat list" where
  "reachable_part g j = takeWhile (\<lambda>k. safe g (of_nat k) \<and> of_nat k < eofValue g) [j ..< search_limit g]"

text \<open>The free clusters that the search finds before it leaves the safe part of the table.\<close>

definition free_stock :: "fat_fs \<Rightarrow> fat_fs \<Rightarrow> u32 list" where
  "free_stock g fs = filter (\<lambda>c. fat_entry fs c = 0) (map of_nat (reachable_part g (search_start fs)))"

lemma of_nat_u32_inj: "j < 2 ^ 32 \<Longrightarrow> k < 2 ^ 32 \<Longrightarrow> (of_nat j :: u32) = of_nat k \<Longrightarrow> j = k"
  using unat_sec by metis

lemma reachable_part_Cons: "j < search_limit g \<Longrightarrow> safe g (of_nat j) \<Longrightarrow> of_nat j < eofValue g \<Longrightarrow>
    reachable_part g j = j # reachable_part g (Suc j)"
  by (simp add: reachable_part_def upt_conv_Cons)

lemma reachable_part_end: "\<not> (j < search_limit g \<and> safe g (of_nat j) \<and> of_nat j < eofValue g) \<Longrightarrow> reachable_part g j = []"
  by (cases "j < search_limit g") (auto simp: reachable_part_def upt_conv_Cons)

lemma value_mask_entry: "geometry fs = g \<Longrightarrow> fat_entry fs c AND value_mask g = fat_entry fs c"
proof -
  assume "geometry fs = g"
  then have ty: "m_Type g = m_Type fs" using geometry_simps(2) [of fs] by simp
  have "ucast w AND 0xFFFF = (ucast w :: u32)" for w :: u16
    using le32_low [of w 0] by (simp add: le32_def)
  with ty show ?thesis by (simp add: fat_entry_def value_mask_def Let_def and.assoc)
qed

lemma find_free_ok:
  assumes "table_inv g fs" "search_limit g < 2 ^ 32" "filter (\<lambda>c. fat_entry fs c = 0) (map of_nat (reachable_part g j)) = c # cs"
  shows "\<exists>fs' k. find_free (search_limit g) j fs = Some (c, fs') \<and> table_inv g fs' \<and>
    fat_entry fs' = (fat_entry fs)(c := eofValue g AND value_mask g) \<and> c = of_nat k \<and> k < search_limit g \<and>
    m_FreeClusterHint fs' = of_nat (Suc k) \<and> filter (\<lambda>c. fat_entry fs c = 0) (map of_nat (reachable_part g (Suc k))) = cs"
  using assms
proof (induction "search_limit g" j fs rule: find_free.induct)
  case (1 j fs)
  have j: "j < search_limit g" "safe g (of_nat j)" "of_nat j < eofValue g"
    using "1.prems"(3) reachable_part_end [of j g] by (cases "j < search_limit g \<and> safe g (of_nat j) \<and> of_nat j < eofValue g"; fastforce)+
  note part = "1.prems"(3) [unfolded reachable_part_Cons [OF j]]
  obtain f1 where f1: "getClusterEntry (of_nat j) fs = Some (fat_entry fs (of_nat j), f1)" "table_inv g f1" "fat_entry f1 = fat_entry fs"
    "m_FreeClusterHint f1 = m_FreeClusterHint fs" using get_safe [OF "1.prems"(1) j(2)] by blast
  have g: "geometry fs = g" "geometry f1 = g" using "1.prems"(1) f1(2) by (auto simp: table_inv_def)
  have ty: "m_Type f1 = m_Type g" "eofValue f1 = eofValue g" "m_Type g \<noteq> FAT12"
    using g(2) geometry_simps(2) [of f1] f1(2) by (auto simp: eofValue_def table_inv_def volume_ok_def)
  then have mask: "(if m_Type f1 = FAT32 then 0x0FFFFFFF else 0xFFFF) = value_mask g"
    by (cases "m_Type g") (auto simp: value_mask_def)
  note m = value_mask_entry [OF g(1), of "of_nat j"]
  show ?case
  proof (cases "fat_entry fs (of_nat j) = 0")
    case True
    then have c: "c = of_nat j" "filter (\<lambda>c. fat_entry fs c = 0) (map of_nat (reachable_part g (Suc j))) = cs" using part by auto
    obtain r f2 where f2: "setClusterEntry (of_nat j) (eofValue g) f1 = Some (r, f2)" "table_inv g f2"
      "fat_entry f2 = (fat_entry fs)(of_nat j := eofValue g AND value_mask g)" using put_safe [OF f1(2) j(2), of "eofValue g"] f1(3) by auto
    let ?f = "f2\<lparr>m_FreeClusterHint := of_nat (j + 1)\<rparr>"
    have "find_free (search_limit g) j fs = Some (of_nat j, ?f)"
      using j(1) f1(1) f2(1) True ty mask by (subst find_free.simps) simp
    moreover have "table_inv g ?f" using f2(2) by (simp add: table_inv_def geometry_def volume_ok_def coherent_def paired_def)
    moreover have "fat_entry ?f = fat_entry f2" by (rule ext) (simp add: fat_entry_def fat_pos_def width_def disk16_def)
    ultimately show ?thesis using c j(1) f2(3) by auto
  next
    case False
    then have "filter (\<lambda>c. fat_entry f1 c = 0) (map of_nat (reachable_part g (Suc j))) = c # cs" using part f1(3) by auto
    then obtain fs' k where "find_free (search_limit g) (Suc j) f1 = Some (c, fs')" "table_inv g fs'"
      "fat_entry fs' = (fat_entry fs)(c := eofValue g AND value_mask g)" "c = of_nat k" "k < search_limit g"
      "m_FreeClusterHint fs' = of_nat (Suc k)" "filter (\<lambda>c. fat_entry fs c = 0) (map of_nat (reachable_part g (Suc k))) = cs"
      using "1.hyps" [OF j(1) f1(1) refl] False m mask f1(2,3) "1.prems"(2) by auto
    moreover have "find_free (search_limit g) j fs = find_free (search_limit g) (Suc j) f1"
      using j(1) f1(1) False m mask by (subst find_free.simps) simp
    ultimately show ?thesis by auto
  qed
qed

lemma findFreeCluster_search: "table_inv g fs \<Longrightarrow> findFreeCluster fs = find_free (search_limit g) (search_start fs) fs"
  using geometry_simps [of fs] by (auto simp: table_inv_def findFreeCluster_def search_limit_def search_start_def)

lemma eof_masked: "eofValue g AND value_mask g = eofValue g"
  by (cases "m_Type g") (simp_all add: eofValue_def value_mask_def)

lemma below_masked: "c < eofValue g \<Longrightarrow> c AND value_mask g = c"
proof -
  assume a: "c < eofValue g"
  have "value_mask g = (if m_Type g = FAT16 then mask 16 else mask 28)" by (simp add: value_mask_def mask_eq_exp_minus_1)
  moreover have "eofValue g < (if m_Type g = FAT16 then 2 ^ 16 else 2 ^ 28)" by (cases "m_Type g") (simp_all add: eofValue_def)
  from order.strict_trans [OF a this] have "c < (if m_Type g = FAT16 then 2 ^ 16 else 2 ^ 28)" .
  ultimately show ?thesis by (simp add: less_mask_eq split: if_splits)
qed

interpretation table: fat_table "table_inv g" "safe g" fat_entry getClusterEntry setClusterEntry "value_mask g" "eofValue g"
  for g
proof unfold_locales
  fix fs c v assume "table_inv g fs" "safe g c"
  then show "\<exists>fs'. getClusterEntry c fs = Some (fat_entry fs c, fs') \<and> table_inv g fs' \<and> fat_entry fs' = fat_entry fs"
    and "\<exists>r fs'. setClusterEntry c v fs = Some (r, fs') \<and> table_inv g fs' \<and> fat_entry fs' = (fat_entry fs)(c := v AND value_mask g)"
    using get_safe put_safe by blast+
qed (rule eof_masked)

lemma reachable_part_props: "k \<in> set (reachable_part g j) \<Longrightarrow> j \<le> k \<and> k < search_limit g \<and> safe g (of_nat k) \<and> of_nat k < eofValue g"
  unfolding reachable_part_def by (auto dest: set_takeWhileD)

lemma search_start_hint: "geometry fs = geometry fs' \<Longrightarrow> m_FreeClusterHint fs = m_FreeClusterHint fs' \<Longrightarrow> search_start fs = search_start fs'"
  using geometry_simps(2,8) [of fs] geometry_simps(2,8) [of fs'] by (simp add: search_start_def)

lemma filter_put: "x c \<noteq> 0 \<Longrightarrow> v \<noteq> 0 \<Longrightarrow> filter (\<lambda>d. (x(c := v)) d = (0 :: u32)) xs = filter (\<lambda>d. x d = 0) xs"
  by (rule filter_cong) auto

lemma stock_distinct:
  assumes "table_inv g fs"
  shows "distinct (free_stock g fs)"
proof -
  have "distinct (reachable_part g j)" for j unfolding reachable_part_def by (rule distinct_takeWhile) simp
  moreover have "inj_on (of_nat :: nat \<Rightarrow> u32) (set (reachable_part g j))" for j
    using of_nat_u32_inj reachable_part_props assms by (intro inj_onI) (meson order.strict_trans table_inv_def)
  ultimately show ?thesis by (simp add: free_stock_def distinct_map)
qed

interpretation alloc: fat_alloc "table_inv g" "safe g" fat_entry getClusterEntry setClusterEntry "value_mask g" "eofValue g"
    findFreeCluster "free_stock g"
  for g
proof unfold_locales
  fix fs assume inv: "table_inv g fs"
  have "distinct (free_stock g fs)" by (rule stock_distinct [OF inv])
  then show "distinct (free_stock g fs) \<and>
      (\<forall>c \<in> set (free_stock g fs). safe g c \<and> c \<noteq> 0 \<and> c < eofValue g \<and> c AND value_mask g = c \<and> fat_entry fs c = 0)"
    using reachable_part_props below_masked by (fastforce simp: free_stock_def safe_def in_table_def)
next
  fix fs c r fs' assume inv: "table_inv g fs" "safe g c" and get: "getClusterEntry c fs = Some (r, fs')"
  from get_safe [OF inv] get have f: "fat_entry fs' = fat_entry fs" "m_FreeClusterHint fs' = m_FreeClusterHint fs" "geometry fs' = geometry fs"
    using inv(1) by (auto simp: table_inv_def)
  from search_start_hint [OF f(3,2)] f(1) show "free_stock g fs' = free_stock g fs" by (simp add: free_stock_def)
next
  fix fs c v r fs' assume inv: "table_inv g fs" "safe g c" and put: "setClusterEntry c v fs = Some (r, fs')"
    and nz: "fat_entry fs c \<noteq> 0" "v AND value_mask g \<noteq> 0"
  from put_safe [OF inv, of v] put have f: "fat_entry fs' = (fat_entry fs)(c := v AND value_mask g)" "m_FreeClusterHint fs' = m_FreeClusterHint fs"
    "geometry fs' = geometry fs" using inv(1) by (auto simp: table_inv_def)
  from search_start_hint [OF f(3,2)] filter_put [of "fat_entry fs", OF nz] show "free_stock g fs' = free_stock g fs"
    unfolding free_stock_def f(1) by simp
next
  fix fs c cs assume inv: "table_inv g fs" and st: "free_stock g fs = c # cs"
  have lim: "search_limit g < 2 ^ 32" using inv by (simp add: table_inv_def)
  obtain fs' k where f: "find_free (search_limit g) (search_start fs) fs = Some (c, fs')" "table_inv g fs'"
    "fat_entry fs' = (fat_entry fs)(c := eofValue g)" "c = of_nat k" "k < search_limit g" "m_FreeClusterHint fs' = of_nat (Suc k)"
    "filter (\<lambda>c. fat_entry fs c = 0) (map of_nat (reachable_part g (Suc k))) = cs"
    using find_free_ok [OF inv lim, of "search_start fs" c cs] st eof_masked unfolding free_stock_def by metis
  have ty: "m_Type fs' = m_Type g" "m_Type fs = m_Type g" "FSI_NxtFree fs' = FSI_NxtFree fs"
    using inv f(2) geometry_simps(2,8) [of fs] geometry_simps(2,8) [of fs'] by (auto simp: table_inv_def)
  have c: "distinct (c # cs)" "(eofValue g :: u32) \<noteq> 0"
    using stock_distinct [OF inv] unfolding st by (simp_all add: eofValue_def split: FatType.splits)
  have "free_stock g fs' = cs"
  proof (cases "m_Type g = FAT32")
    case True
    then have ss: "search_start fs' = search_start fs" using ty by (simp add: search_start_def)
    have ff: "filter (\<lambda>d. ((fat_entry fs)(c := eofValue g)) d = 0) xs = filter (\<lambda>d. d \<noteq> c) (filter (\<lambda>d. fat_entry fs d = 0) xs)" for xs
      using c(2) by (auto intro: filter_cong)
    have "free_stock g fs' = filter (\<lambda>d. d \<noteq> c) (free_stock g fs)" unfolding free_stock_def f(3) ss by (rule ff)
    with c(1) show ?thesis unfolding st by (auto simp: filter_id_conv)
  next
    case False
    have "Suc k < 2 ^ 32 \<or> Suc k = search_limit g" using f(5) lim by auto
    then have "unat (of_nat (Suc k) :: u32) = Suc k" using lim by (intro unat_sec) auto
    then have s: "search_start fs' = Suc k" using False ty f(6) by (simp add: search_start_def)
    have "filter (\<lambda>d. ((fat_entry fs)(c := eofValue g)) d = 0) (map of_nat (reachable_part g (Suc k))) =
        filter (\<lambda>d. fat_entry fs d = 0) (map of_nat (reachable_part g (Suc k)))"
    proof (rule filter_cong [OF refl])
      fix d assume "d \<in> set (map of_nat (reachable_part g (Suc k)) :: u32 list)"
      then obtain j where j: "d = of_nat j" "Suc k \<le> j" "j < search_limit g" using reachable_part_props by fastforce
      then have "d \<noteq> c" using of_nat_u32_inj [of j k] f(4,5) lim by auto
      then show "(((fat_entry fs)(c := eofValue g)) d = 0) = (fat_entry fs d = 0)" by simp
    qed
    then show ?thesis using f(7) s unfolding free_stock_def f(3) by simp
  qed
  with f show "\<exists>fs'. findFreeCluster fs = Some (c, fs') \<and> table_inv g fs' \<and> fat_entry fs' = (fat_entry fs)(c := eofValue g) \<and> free_stock g fs' = cs"
    unfolding findFreeCluster_search [OF inv] by blast
qed (simp add: eofValue_def split: FatType.splits)

end
