(* ===== verification/Fat_Contents.thy ===== *)
theory Fat_Contents
  imports Fat_File Fat_Volume
begin

text \<open>What \<open>read\<close> returns and what \<open>write\<close> leaves on the disk, in terms of the bytes of the chain of a
  file.\<close>

section \<open>The bytes of a file\<close>

definition cluster_pos :: "fat_fs \<Rightarrow> u32 \<Rightarrow> nat" where
  "cluster_pos fs c = BPB_BytsPerSec fs * unat (getSectorNumber fs c)"

definition cluster_data :: "fat_fs \<Rightarrow> u32 \<Rightarrow> u8 list" where
  "cluster_data fs c = map (disk fs) [cluster_pos fs c ..< cluster_pos fs c + m_BlockSize fs]"

definition file_data :: "fat_fs \<Rightarrow> u32 list \<Rightarrow> u8 list" where
  "file_data fs xs = concat (map (cluster_data fs) xs)"

definition cluster_ok :: "fat_fs \<Rightarrow> u32 \<Rightarrow> bool" where
  "cluster_ok fs c \<longleftrightarrow> in_table fs c \<and> cluster_pos fs c + m_BlockSize fs \<le> disk_size fs"

definition readable :: "fat_fs \<Rightarrow> bool" where
  "readable fs \<longleftrightarrow> volume_ok fs \<and> coherent fs \<and> m_BlockSize fs = BPB_SecPerClus fs * BPB_BytsPerSec fs \<and> 0 < BPB_SecPerClus fs"

lemma readable_pos: "readable fs \<Longrightarrow> 0 < m_BlockSize fs"
  by (simp add: readable_def volume_ok_def)

lemma length_cluster_data [simp]: "length (cluster_data fs c) = m_BlockSize fs"
  by (simp add: cluster_data_def)

lemma file_data_simps [simp]: "file_data fs [] = []" "file_data fs (x # xs) = cluster_data fs x @ file_data fs xs"
  by (simp_all add: file_data_def)

lemma file_data_append: "file_data fs (xs @ ys) = file_data fs xs @ file_data fs ys"
  by (simp add: file_data_def)

lemma length_file_data [simp]: "length (file_data fs xs) = length xs * m_BlockSize fs"
  by (induction xs) auto

lemma drop_file_data: "n \<le> length xs \<Longrightarrow> drop (n * m_BlockSize fs) (file_data fs xs) = file_data fs (drop n xs)"
proof -
  assume n: "n \<le> length xs"
  have "drop (n * m_BlockSize fs) (file_data fs (take n xs @ drop n xs)) = file_data fs (drop n xs)"
    unfolding file_data_append using n by (simp add: min_absorb2)
  then show ?thesis by simp
qed

text \<open>A state that differs in what is cached only.\<close>

definition like :: "fat_fs \<Rightarrow> fat_fs \<Rightarrow> bool" where
  "like fs fs' \<longleftrightarrow> geometry fs' = geometry fs \<and> disk fs' = disk fs \<and> readable fs' \<and> m_FreeClusterHint fs' = m_FreeClusterHint fs"

lemma geometry_simps2:
  assumes "geometry fs' = geometry fs"
  shows "m_Type fs' = m_Type fs" "BPB_BytsPerSec fs' = BPB_BytsPerSec fs" "BPB_SecPerClus fs' = BPB_SecPerClus fs" "m_BlockSize fs' = m_BlockSize fs"
    "m_DataAreaStart fs' = m_DataAreaStart fs" "disk_size fs' = disk_size fs" "m_FatSector fs' = m_FatSector fs"
    "m_RootDir fs' = m_RootDir fs" "m_RootDirCount fs' = m_RootDirCount fs"
  using assms [THEN arg_cong, of m_Type] assms [THEN arg_cong, of BPB_BytsPerSec] assms [THEN arg_cong, of BPB_SecPerClus]
    assms [THEN arg_cong, of m_BlockSize] assms [THEN arg_cong, of m_DataAreaStart] assms [THEN arg_cong, of disk_size]
    assms [THEN arg_cong, of m_FatSector] assms [THEN arg_cong, of m_RootDir] assms [THEN arg_cong, of m_RootDirCount]
  by (simp_all add: geometry_def)

lemma like_simps:
  assumes "like fs fs'"
  shows "fat_entry fs' = fat_entry fs" "cluster_data fs' = cluster_data fs" "file_data fs' = file_data fs" "cluster_ok fs' = cluster_ok fs"
    "eofValue fs' = eofValue fs" "isEof fs' = isEof fs" "m_BlockSize fs' = m_BlockSize fs" "BPB_BytsPerSec fs' = BPB_BytsPerSec fs"
    "BPB_SecPerClus fs' = BPB_SecPerClus fs" "readable fs'"
proof -
  have d: "disk fs' = disk fs" and r: "readable fs'" and gg: "geometry fs' = geometry fs" using assms by (simp_all add: like_def)
  note g = geometry_simps2 [OF gg]
  show "fat_entry fs' = fat_entry fs" by (rule ext) (simp add: fat_entry_def fat_pos_def width_def disk16_def d g)
  have p: "cluster_pos fs' = cluster_pos fs" by (rule ext) (simp add: cluster_pos_def getSectorNumber_def g)
  show c: "cluster_data fs' = cluster_data fs" by (rule ext) (simp add: cluster_data_def p d g)
  show "file_data fs' = file_data fs" by (rule ext) (simp add: file_data_def c)
  show "cluster_ok fs' = cluster_ok fs" by (rule ext) (simp add: cluster_ok_def in_table_def fat_sector_def p g)
  show "eofValue fs' = eofValue fs" by (simp add: eofValue_def g)
  then show "isEof fs' = isEof fs" by (intro ext) (simp add: isEof_def)
  show "m_BlockSize fs' = m_BlockSize fs" "BPB_BytsPerSec fs' = BPB_BytsPerSec fs" "BPB_SecPerClus fs' = BPB_SecPerClus fs" "readable fs'"
    by (rule g r)+
qed

lemma not_eof: "x < eofValue fs \<Longrightarrow> \<not> isEof fs x"
  by (simp add: isEof_def)

lemma like_trans: "like a b \<Longrightarrow> like b c \<Longrightarrow> like a c"
  by (simp add: like_def)

lemma get_like:
  assumes "readable fs" "cluster_ok fs c"
  shows "\<exists>fs'. getClusterEntry c fs = Some (fat_entry fs c, fs') \<and> like fs fs'"
proof -
  have "volume_ok fs" "coherent fs" "in_table fs c" using assms by (auto simp: readable_def cluster_ok_def)
  note get = getClusterEntry_cases [OF this]
  show ?thesis
  proof (cases "m_FatCache fs (fat_sector fs c)")
    case None
    have "like fs (loaded (fat_sector fs c) fs)"
      using assms(1) loaded_coherent [OF _ None] by (simp add: like_def readable_def) (simp add: loaded_def Let_def)
    with get None show ?thesis by auto
  qed (use get assms(1) in \<open>auto simp: like_def\<close>)
qed

lemma readCluster_ok:
  assumes "readable fs" "cluster_ok fs c"
  shows "readCluster fs c = Some (cluster_data fs c)"
  using read_chunks_ok [of "cluster_pos fs c" "m_BlockSize fs" fs] assms(2)
  by (simp add: readCluster_def readSectorBlock_def cluster_ok_def cluster_data_def cluster_pos_def)

section \<open>Reading\<close>

lemma skip_ok:
  assumes "readable fs" "chain (fat_entry fs) (eofValue fs) c xs" "\<forall>x \<in> set xs. cluster_ok fs x" "n < length xs"
  shows "\<exists>fs'. skip_clusters n c fs = Some (Some (xs ! n), fs') \<and> like fs fs'"
  using assms
proof (induction n arbitrary: c fs xs)
  case 0
  then show ?case by (cases xs) (auto simp: like_def)
next
  case (Suc n)
  obtain ys where xs: "xs = c # ys" using Suc.prems(2) by (cases xs) simp_all
  moreover from this have "ys \<noteq> []" using Suc.prems(4) by auto
  ultimately have xs: "xs = c # ys" "ys \<noteq> []" by simp_all
  with Suc.prems have n: "fat_entry fs c \<noteq> 0" "fat_entry fs c < eofValue fs" "chain (fat_entry fs) (eofValue fs) (fat_entry fs c) ys" "cluster_ok fs c" by auto
  obtain f1 where f1: "getClusterEntry c fs = Some (fat_entry fs c, f1)" "like fs f1" using get_like [OF Suc.prems(1) n(4)] by blast
  note l = like_simps [OF f1(2)]
  from Suc.IH [of f1 "fat_entry fs c" ys] n(3) Suc.prems(3,4) xs l obtain fs' where
    s: "skip_clusters n (fat_entry fs c) f1 = Some (Some (ys ! n), fs')" "like f1 fs'" by auto
  have "\<not> isEof f1 (fat_entry fs c)" unfolding l(6) by (rule not_eof [OF n(2)])
  with s f1 n(1) xs like_trans [OF f1(2) s(2)] show ?case by simp
qed

lemma read_loop_ok:
  assumes "readable fs" "chain (fat_entry fs) (eofValue fs) c xs" "\<forall>x \<in> set xs. cluster_ok fs x"
    and "i + min n (m_BlockSize fs) \<le> m_BlockSize fs" "i + n \<le> length xs * m_BlockSize fs" "0 < n"
  shows "\<exists>fs'. read_loop n i c fs = Some (Some (take n (drop i (file_data fs xs))), fs') \<and> like fs fs'"
  using assms
proof (induction xs arbitrary: c fs i n)
  case (Cons x ys)
  let ?B = "m_BlockSize fs"
  have x: "x = c" "cluster_ok fs c" using Cons.prems(2,3) by auto
  note rd = readCluster_ok [OF Cons.prems(1) x(2)]
  have B: "0 < ?B" using Cons.prems(1) by (rule readable_pos)
  show ?case
  proof (cases "n \<le> ?B")
    case True
    then have "i + n \<le> ?B" using Cons.prems(4) by simp
    then have "take n (drop i (file_data fs (x # ys))) = take n (drop i (cluster_data fs c))" using x by simp
    moreover have "like fs fs" using Cons.prems(1) by (simp add: like_def)
    ultimately show ?thesis using rd True Cons.prems(4,6) by (subst read_loop.simps) (auto simp: Let_def)
  next
    case False
    then have i: "i = 0" "min n ?B = ?B" using Cons.prems(4) by auto
    then have "ys \<noteq> []" using Cons.prems(5) False by auto
    with Cons.prems(2) x have n: "fat_entry fs c \<noteq> 0" "fat_entry fs c < eofValue fs" "chain (fat_entry fs) (eofValue fs) (fat_entry fs c) ys" by auto
    obtain f1 where f1: "getClusterEntry c fs = Some (fat_entry fs c, f1)" "like fs f1" using get_like [OF Cons.prems(1) x(2)] by blast
    note l = like_simps [OF f1(2)]
    have le: "n - ?B \<le> length ys * ?B" using Cons.prems(5) i by simp
    from Cons.IH [of f1 "fat_entry fs c" 0 "n - ?B"] le n(3) Cons.prems(3) False l i obtain fs' where
      r: "read_loop (n - ?B) 0 (fat_entry fs c) f1 = Some (Some (take (n - ?B) (file_data fs ys)), fs')" "like f1 fs'" by auto
    have "\<not> isEof f1 (fat_entry fs c)" unfolding l(6) by (rule not_eof [OF n(2)])
    moreover have "take n (file_data fs (x # ys)) = cluster_data fs c @ take (n - ?B) (file_data fs ys)" using x False by simp
    ultimately show ?thesis using rd f1 i False B n(1) r like_trans [OF f1(2) r(2)]
      by (subst read_loop.simps) (simp add: Let_def)
  qed
qed simp

text \<open>A chain has no more clusters than there are numbers, so the index of one fits into 32 bits.\<close>

lemma chain_index: "chain m eof (c :: u32) xs \<Longrightarrow> n < length xs \<Longrightarrow> n mod 2 ^ 32 = n"
proof -
  assume a: "chain m eof c xs" "n < length xs"
  have "length xs = card (set xs)" using chain_distinct [OF a(1)] by (simp add: distinct_card)
  also have "\<dots> \<le> card (UNIV :: u32 set)" by (rule card_mono) simp_all
  finally show "n mod 2 ^ 32 = n" using a(2) by (simp add: card_word)
qed

lemma file_read_ok:
  assumes "readable fs" "chain (fat_entry fs) (eofValue fs) (m_Inode f) xs" "\<forall>x \<in> set xs. cluster_ok fs x"
    and "\<not> m_bIsDirectory f" "loc < m_Size f" "0 < n" "m_Size f \<le> length xs * m_BlockSize fs"
    and "loc mod m_BlockSize fs + min (min n (m_Size f - loc)) (m_BlockSize fs) \<le> m_BlockSize fs" "loc + n < 2 ^ 64"
  shows "\<exists>fs'. fat_read f loc n fs = Some (Some (take (min n (m_Size f - loc)) (drop loc (file_data fs xs))), fs') \<and>
    geometry fs' = geometry fs \<and> disk fs' = disk fs \<and> coherent fs'"
proof -
  let ?B = "m_BlockSize fs" and ?k = "min n (m_Size f - loc)"
  have B: "?B = BPB_SecPerClus fs * BPB_BytsPerSec fs" "0 < ?B" using assms(1) readable_pos [OF assms(1)] by (simp_all add: readable_def)
  have k: "(if (loc + n) mod 2 ^ 64 > m_Size f then m_Size f - loc else n) = ?k" using assms(5,9) by auto
  have c0: "m_Inode f \<noteq> 0" using assms(2,3) by (cases xs) (auto simp: cluster_ok_def in_table_def)
  have q: "loc div ?B < length xs" using assms(5,7) B(2) by (simp add: div_less_iff_less_mult mult.commute order_less_le_trans)
  from skip_ok [OF assms(1-3) q] obtain f1 where f1: "skip_clusters (loc div ?B) (m_Inode f) fs = Some (Some (xs ! (loc div ?B)), f1)" "like fs f1" by blast
  note l = like_simps [OF f1(2)]
  have split: "xs = take (loc div ?B) xs @ xs ! (loc div ?B) # drop (Suc (loc div ?B)) xs" using q by (rule id_take_nth_drop)
  then have "chain (fat_entry fs) (eofValue fs) (xs ! (loc div ?B)) (drop (loc div ?B) xs)"
    using chain_suffix [of "fat_entry fs" "eofValue fs" "m_Inode f"] assms(2) q by (metis Cons_nth_drop_Suc)
  moreover have "\<forall>x \<in> set (drop (loc div ?B) xs). cluster_ok fs x" using assms(3) by (meson in_set_dropD)
  moreover have "loc mod ?B + ?k \<le> length (drop (loc div ?B) xs) * ?B"
  proof -
    have "loc + ?k \<le> length xs * ?B" using assms(5,7) by auto
    moreover have "loc = loc div ?B * ?B + loc mod ?B" by simp
    ultimately have "loc mod ?B + ?k \<le> length xs * ?B - loc div ?B * ?B" by linarith
    then show ?thesis by (simp add: diff_mult_distrib)
  qed
  ultimately obtain f2 where f2: "read_loop ?k (loc mod ?B) (xs ! (loc div ?B)) f1 =
      Some (Some (take ?k (drop (loc mod ?B) (file_data fs (drop (loc div ?B) xs)))), f2)" "like f1 f2"
    using read_loop_ok [of f1 "xs ! (loc div ?B)" "drop (loc div ?B) xs" "loc mod ?B" ?k] l assms(5,6,8) by auto
  have "drop (loc mod ?B) (file_data fs (drop (loc div ?B) xs)) = drop loc (file_data fs xs)"
    using drop_file_data [of "loc div ?B" xs fs] q by (metis drop_drop div_mult_mod_eq add.commute less_imp_le)
  then have "fat_read f loc n fs = Some (Some (take ?k (drop loc (file_data fs xs))), f2)"
    using f1 f2 c0 assms(4,5) k chain_index [OF assms(2) q] unfolding fat_read_def by (simp add: Let_def B(1) [symmetric])
  with like_trans [OF f1(2) f2(2)] show ?thesis by (auto simp: like_def readable_def)
qed

section \<open>Writing\<close>

definition table_below :: "fat_fs \<Rightarrow> bool" where
  "table_below fs \<longleftrightarrow> (\<forall>s p. m_FatCache fs s = Some p \<longrightarrow> m_FatSector fs + s + 1 \<le> unat (m_DataAreaStart fs))"

text \<open>A cluster of the data area: its number does not wrap around, a write of it does not run over the end
  of a page of the disk's cache, and its entry is in the table proper.\<close>

definition data_ok :: "fat_fs \<Rightarrow> u32 \<Rightarrow> bool" where
  "data_ok fs c \<longleftrightarrow> cluster_ok fs c \<and> 2 \<le> unat c \<and>
     unat (m_DataAreaStart fs) + (unat c - 2) * BPB_SecPerClus fs < 2 ^ 32 \<and>
     fits fs (cluster_pos fs c) (m_BlockSize fs) \<and> m_FatSector fs + fat_sector fs c + 2 \<le> unat (m_DataAreaStart fs)"

definition data_start :: "fat_fs \<Rightarrow> nat" where
  "data_start fs = BPB_BytsPerSec fs * unat (m_DataAreaStart fs)"

lemma cluster_pos_data:
  assumes "readable fs" "data_ok fs c"
  shows "cluster_pos fs c = data_start fs + (unat c - 2) * m_BlockSize fs"
proof -
  let ?k = "unat c - 2" and ?n = "unat (m_DataAreaStart fs) + (unat c - 2) * BPB_SecPerClus fs"
  have "2 \<le> c" using assms(2) by (simp add: data_ok_def word_le_nat_alt)
  then have k: "unat (c - 2) = ?k" by (simp add: unat_sub)
  have "getSectorNumber fs c = of_nat ?n"
    unfolding getSectorNumber_def by (simp flip: k)
  then have "unat (getSectorNumber fs c) = ?n" using unat_sec [of ?n] assms(2) by (simp add: data_ok_def)
  then show ?thesis using assms(1) by (simp add: cluster_pos_def data_start_def readable_def algebra_simps)
qed

lemma cluster_apart:
  assumes "readable fs" "data_ok fs c" "data_ok fs d" "c \<noteq> d"
  shows "cluster_pos fs c + m_BlockSize fs \<le> cluster_pos fs d \<or> cluster_pos fs d + m_BlockSize fs \<le> cluster_pos fs c"
proof -
  have "2 \<le> unat c" "2 \<le> unat d" "unat c \<noteq> unat d" using assms by (auto simp: data_ok_def word_eq_unat)
  then consider "(unat c - 2) + 1 \<le> unat d - 2" | "(unat d - 2) + 1 \<le> unat c - 2" by linarith
  then have "(unat c - 2) * m_BlockSize fs + m_BlockSize fs \<le> (unat d - 2) * m_BlockSize fs \<or>
      (unat d - 2) * m_BlockSize fs + m_BlockSize fs \<le> (unat c - 2) * m_BlockSize fs"
  proof cases
    case 1
    from mult_le_mono1 [OF 1, of "m_BlockSize fs"] show ?thesis by simp
  next
    case 2
    from mult_le_mono1 [OF 2, of "m_BlockSize fs"] show ?thesis by simp
  qed
  then show ?thesis unfolding cluster_pos_data [OF assms(1,2)] cluster_pos_data [OF assms(1,3)] by linarith
qed

lemma entry_below:
  assumes "readable fs" "data_ok fs c"
  shows "fat_pos fs c + width fs \<le> data_start fs"
proof -
  have v: "volume_ok fs" "unat c < 2 ^ 30" using assms by (auto simp: readable_def data_ok_def cluster_ok_def in_table_def)
  from width_pos [OF v] have "fat_pos fs c + width fs \<le> BPB_BytsPerSec fs * (m_FatSector fs + fat_sector fs c + 1)" by simp
  also have "\<dots> \<le> data_start fs" unfolding data_start_def using assms(2) by (intro mult_le_mono2) (simp add: data_ok_def)
  finally show ?thesis .
qed

text \<open>A state with the same volume in which entries can be read and clusters written.\<close>

definition volume :: "fat_fs \<Rightarrow> fat_fs \<Rightarrow> bool" where
  "volume fs fs' \<longleftrightarrow> geometry fs' = geometry fs \<and> readable fs' \<and> table_below fs' \<and> (\<forall>d. data_ok fs d \<longrightarrow> fat_entry fs' d = fat_entry fs d)"

lemma volume_simps:
  assumes "geometry fs' = geometry fs"
  shows "cluster_ok fs' = cluster_ok fs" "data_ok fs' = data_ok fs" "cluster_pos fs' = cluster_pos fs" "eofValue fs' = eofValue fs"
    "isEof fs' = isEof fs" "m_BlockSize fs' = m_BlockSize fs" "data_start fs' = data_start fs" "width fs' = width fs" "fat_pos fs' = fat_pos fs"
proof -
  note g = geometry_simps2 [OF assms]
  show p: "cluster_pos fs' = cluster_pos fs" by (rule ext) (simp add: cluster_pos_def getSectorNumber_def g)
  show c: "cluster_ok fs' = cluster_ok fs" by (rule ext) (simp add: cluster_ok_def in_table_def fat_sector_def p g)
  show "data_ok fs' = data_ok fs" by (rule ext) (simp add: data_ok_def c p g fits_def fat_sector_def)
  show "eofValue fs' = eofValue fs" by (simp add: eofValue_def g)
  then show "isEof fs' = isEof fs" by (intro ext) (simp add: isEof_def)
  show "width fs' = width fs" by (simp add: width_def g)
  then show "fat_pos fs' = fat_pos fs" by (intro ext) (simp add: fat_pos_def g)
qed (simp_all add: geometry_simps2 [OF assms] data_start_def)

lemma volume_trans: "volume a b \<Longrightarrow> volume b c \<Longrightarrow> volume a c"
  using volume_simps(2) [of b a] by (auto simp: volume_def)

lemma get_volume:
  assumes "readable fs" "table_below fs" "data_ok fs c"
  shows "\<exists>fs'. getClusterEntry c fs = Some (fat_entry fs c, fs') \<and> volume fs fs' \<and> disk fs' = disk fs"
proof -
  have "cluster_ok fs c" using assms(3) by (simp add: data_ok_def)
  from get_like [OF assms(1) this] obtain fs' where f: "getClusterEntry c fs = Some (fat_entry fs c, fs')" "like fs fs'" by blast
  have "volume_ok fs" "coherent fs" "in_table fs c" using assms by (auto simp: readable_def data_ok_def cluster_ok_def)
  from getClusterEntry_cases [OF this] f(1) have "fs' = loaded (fat_sector fs c) fs \<or> fs' = fs" by (auto split: if_splits)
  then have "table_below fs'"
  proof
    assume "fs' = loaded (fat_sector fs c) fs"
    then show ?thesis using assms(2,3)
      by (auto simp: table_below_def loaded_def Let_def cache_insert_def data_ok_def split: if_splits)
  qed (use assms(2) in simp)
  with f like_simps(1) [OF f(2)] show ?thesis by (auto simp: volume_def like_def)
qed

lemma write_cluster_ok:
  assumes "readable fs" "table_below fs" "data_ok fs c" "length bs = m_BlockSize fs"
  shows "\<exists>fs'. writeCluster c bs fs = Some fs' \<and> volume fs fs' \<and>
    (\<forall>d. data_ok fs d \<longrightarrow> cluster_data fs' d = (if d = c then bs else cluster_data fs d))"
proof -
  let ?p = "cluster_pos fs c" and ?f = "fs\<lparr>disk := store_bytes (cluster_pos fs c) bs (disk fs)\<rparr>"
  have g: "geometry ?f = geometry fs" by (simp add: geometry_def)
  have "fits fs ?p (length bs)" using assms(3,4) by (simp add: data_ok_def)
  from write_chunks_ok [OF this] have w: "writeCluster c bs fs = Some ?f" by (simp add: writeCluster_def writeSectorBlock_def cluster_pos_def)
  have below: "disk ?f x = disk fs x" if "x < data_start fs" for x
    using that cluster_pos_data [OF assms(1,3)] by (simp add: store_bytes_def)
  have "coherent ?f"
  proof -
    have "disk ?f (BPB_BytsPerSec fs * (m_FatSector fs + s) + i) = disk fs (BPB_BytsPerSec fs * (m_FatSector fs + s) + i)"
      if "m_FatCache fs s = Some q" "i < BPB_BytsPerSec fs" for s q i
    proof (rule below)
      have "BPB_BytsPerSec fs * (m_FatSector fs + s + 1) \<le> data_start fs"
        unfolding data_start_def using assms(2) that(1) by (intro mult_le_mono2) (auto simp: table_below_def)
      with that(2) show "BPB_BytsPerSec fs * (m_FatSector fs + s) + i < data_start fs" by simp
    qed
    then show ?thesis using assms(1) by (auto simp: readable_def coherent_def simp del: fat_fs.select_convs(17))
  qed
  then have r: "readable ?f" using assms(1) by (simp add: readable_def volume_ok_def)
  have e: "fat_entry ?f d = fat_entry fs d" if "data_ok fs d" for d
  proof -
    have "disk ?f (fat_pos fs d + k) = disk fs (fat_pos fs d + k)" if "k < width fs" for k
      using entry_below [OF assms(1) \<open>data_ok fs d\<close>] that by (intro below) simp
    from this [of 0] this [of 1] this [of 2] this [of 3] show ?thesis
      using volume_simps(9) [OF g] by (auto simp: fat_entry_def disk16_def Let_def width_def numeral_3_eq_3 simp del: fat_fs.simps split: if_splits)
  qed
  have cd: "cluster_data ?f d = (if d = c then bs else cluster_data fs d)" if "data_ok fs d" for d
  proof (cases "d = c")
    case True
    have "map (disk ?f) [?p ..< ?p + m_BlockSize fs] = bs"
      by (rule nth_equalityI) (use assms(4) in \<open>auto simp: store_bytes_def\<close>)
    then show ?thesis using True volume_simps(3,6) [OF g] by (simp add: cluster_data_def)
  next
    case False
    have "disk ?f x = disk fs x" if "cluster_pos fs d \<le> x" "x < cluster_pos fs d + m_BlockSize fs" for x
      using cluster_apart [OF assms(1,3) \<open>data_ok fs d\<close>] False that assms(4) by (auto simp: store_bytes_def)
    then show ?thesis using False volume_simps(3,6) [OF g] by (simp add: cluster_data_def)
  qed
  have "table_below ?f" using assms(2) by (simp add: table_below_def)
  with w g r e cd show ?thesis by (auto simp: volume_def)
qed

end
