(* ===== verification/Fat_Writing.thy ===== *)
theory Fat_Writing
  imports Fat_Contents
begin

text \<open>Writing a file: the loop of \<open>write\<close>, what it leaves in the chain, and that a read then returns what was
  written.\<close>

lemma write_loop_ok:
  assumes "readable fs" "table_below fs" "chain (fat_entry fs) (eofValue fs) c xs" "\<forall>x \<in> set xs. data_ok fs x"
    and "i + min (m_BlockSize fs) (length bs) \<le> m_BlockSize fs" "i + length bs \<le> length xs * m_BlockSize fs"
  shows "\<exists>fs'. write_loop bs i c fs = Some (length bs, fs') \<and> volume fs fs' \<and> file_data fs' xs = splice i bs (file_data fs xs) \<and>
    (\<forall>d. data_ok fs d \<longrightarrow> d \<notin> set xs \<longrightarrow> cluster_data fs' d = cluster_data fs d)"
  using assms
proof (induction xs arbitrary: c fs i bs)
  case (Cons x ys)
  let ?B = "m_BlockSize fs" and ?k = "min (m_BlockSize fs) (length bs)"
  have x: "x = c" "data_ok fs c" "cluster_ok fs c" using Cons.prems(3,4) by (auto simp: data_ok_def)
  have B: "0 < ?B" by (rule readable_pos [OF Cons.prems(1)])
  show ?case
  proof (cases "bs = []")
    case True
    have "volume fs fs" using Cons.prems(1,2) by (simp add: volume_def)
    with True show ?thesis by (subst write_loop.simps) auto
  next
    case False
    let ?new = "splice i (take ?k bs) (cluster_data fs c)"
    have ln: "length ?new = ?B" using Cons.prems(5) by (subst length_splice) auto
    obtain f1 where f1: "writeCluster c ?new fs = Some f1" "volume fs f1"
      "\<forall>d. data_ok fs d \<longrightarrow> cluster_data f1 d = (if d = c then ?new else cluster_data fs d)"
      using write_cluster_ok [OF Cons.prems(1,2) x(2) ln] by blast
    have v1: "geometry f1 = geometry fs" "readable f1" "table_below f1" "\<forall>d. data_ok fs d \<longrightarrow> fat_entry f1 d = fat_entry fs d"
      using f1(2) by (auto simp: volume_def)
    note s1 = volume_simps [OF v1(1)]
    have d1: "data_ok f1 c" using x(2) s1 by simp
    obtain f2 where f2: "getClusterEntry c f1 = Some (fat_entry fs c, f2)" "volume f1 f2" "disk f2 = disk f1"
      using get_volume [OF v1(2,3) d1] v1(4) x(2) by auto
    have v2: "geometry f2 = geometry fs" "readable f2" "table_below f2" "volume fs f2"
      using f2(2) v1(1) volume_trans [OF f1(2) f2(2)] by (auto simp: volume_def)
    note s2 = volume_simps [OF v2(1)]
    have cd: "cluster_data f2 = cluster_data f1" by (rule ext) (simp add: cluster_data_def f2(3) s1 s2)
    have e2: "fat_entry f2 d = fat_entry fs d" if "data_ok fs d" for d using v2(4) that by (simp add: volume_def)
    have rd: "readCluster fs c = Some (cluster_data fs c)" by (rule readCluster_ok [OF Cons.prems(1) x(3)])
    have kp: "?k \<noteq> 0" using False B by simp
    have step: "write_loop bs i c fs =
        (if fat_entry fs c = 0 then Some (?k, f2)
         else if isEof f2 (fat_entry fs c) then (if ?k < length bs then None else Some (?k, f2))
         else map_option (\<lambda>(n, fs). (?k + n, fs)) (write_loop (drop ?k bs) 0 (fat_entry fs c) f2))"
      using False rd f1(1) f2(1) Cons.prems(5) kp by (subst write_loop.simps) (auto simp: Let_def min_def split: if_splits)
    have nc: "c \<notin> set ys" using chain_distinct [OF Cons.prems(3)] x(1) by simp
    have dys: "cluster_data f2 y = cluster_data fs y" if "y \<in> set ys" for y
      using f1(3) Cons.prems(4) that nc cd by auto
    have fys: "file_data f2 ys = file_data fs ys" using dys by (simp add: file_data_def cong: map_cong)
    have fx: "file_data f2 (x # ys) = ?new @ file_data fs ys" using f1(3) x cd fys by simp
    have oth: "cluster_data f2 d = cluster_data fs d" if "data_ok fs d" "d \<noteq> c" for d using that f1(3) cd by simp
    show ?thesis
    proof (cases "length bs \<le> ?B")
      case True
      then have k: "?k = length bs" by simp
      have sp: "splice i bs (file_data fs (x # ys)) = ?new @ file_data fs ys"
        using Cons.prems(5) k x(1) by (simp add: splice_append)
      have "write_loop [] 0 c' f2 = Some (0, f2)" for c' by (subst write_loop.simps) simp
      then have "write_loop bs i c fs = Some (length bs, f2)" unfolding step k by simp
      with v2(4) fx sp oth x(1) show ?thesis by auto
    next
      case long: False
      then have k: "?k = ?B" "i = 0" using Cons.prems(5) by auto
      then have "ys \<noteq> []" using Cons.prems(6) long by auto
      with Cons.prems(3) x have n: "fat_entry fs c \<noteq> 0" "fat_entry fs c < eofValue fs" "chain (fat_entry fs) (eofValue fs) (fat_entry fs c) ys" by auto
      have "chain (fat_entry f2) (eofValue f2) (fat_entry fs c) ys"
        unfolding s2 by (rule chain_cong [OF n(3)]) (use e2 Cons.prems(4) in auto)
      moreover have "\<forall>y \<in> set ys. data_ok f2 y" using Cons.prems(4) s2 by simp
      moreover have "length bs - ?B \<le> length ys * ?B" using Cons.prems(6) k(2) by simp
      ultimately obtain f3 where f3: "write_loop (drop ?B bs) 0 (fat_entry fs c) f2 = Some (length (drop ?B bs), f3)" "volume f2 f3"
        "file_data f3 ys = splice 0 (drop ?B bs) (file_data f2 ys)" "\<forall>d. data_ok f2 d \<longrightarrow> d \<notin> set ys \<longrightarrow> cluster_data f3 d = cluster_data f2 d"
        using Cons.IH [of f2 "fat_entry fs c" 0 "drop ?B bs"] v2(2,3) s2(6) Cons.prems(6) k by auto
      have "\<not> isEof f2 (fat_entry fs c)" unfolding s2 by (rule not_eof [OF n(2)])
      then have "write_loop bs i c fs = Some (length bs, f3)" unfolding step k(1) using n(1) f3(1) long by simp
      moreover have "file_data f3 (x # ys) = splice i bs (file_data fs (x # ys))"
      proof -
        have "cluster_data f3 x = ?new" using f3(4) nc x s2(2) f1(3) cd by simp
        moreover have "?new = take ?B bs" using k by (simp add: splice_all)
        ultimately show ?thesis using f3(3) fys k(2) splice_over [of "cluster_data fs x" bs "file_data fs ys"] long by simp
      qed
      ultimately show ?thesis using volume_trans [OF v2(4) f3(2)] f3(4) oth s2(2) x(1) by auto
    qed
  qed
qed simp

lemma no_extra_clusters:
  assumes "off \<le> old" "0 < C" "old + C \<le> 2 ^ 32"
  shows "extra_clusters C old off = 0"
proof -
  define q r where "q = old div C" and "r = old mod C"
  define n where "n = q + (if r \<noteq> 0 then 1 else 0)"
  define j where "j = (if n = 0 then 1 else n)"
  have old: "old = q * C + r" "r < C" using assms(2) by (simp_all add: q_def r_def)
  have nC: "old \<le> n * C" "n * C < old + C" using old by (auto simp: n_def algebra_simps)
  then have jC: "old \<le> j * C" "j * C < 2 ^ 32 \<or> j * C = 2 ^ 32 \<and> old = 0"
    using assms(3) by (auto simp: j_def)
  have small: "n < 2 ^ 32"
  proof -
    have "n \<le> n * C" using assms(2) by simp
    with nC(2) assms(3) show ?thesis by linarith
  qed
  let ?j = "of_nat (old div C) + (if old mod C \<noteq> 0 then 1 else 0) :: u32"
  have j1: "?j = of_nat n" by (simp add: n_def q_def r_def)
  have "(of_nat n :: u32) = 0 \<longleftrightarrow> n = 0" using small by (simp add: word_of_nat_eq_0_iff) (auto dest: dvd_imp_le)
  then have fc: "(if ?j = 0 then 1 else ?j) * of_nat C = (of_nat (j * C) :: u32)" unfolding j1 by (simp add: j_def)
  have "of_nat off \<le> (of_nat (j * C) :: u32)"
  proof (cases "j * C < 2 ^ 32")
    case True
    then show ?thesis unfolding word_le_nat_alt unat_of_nat using jC(1) assms(1) by simp
  next
    case False
    then have "off = 0" using jC(2) assms(1) by simp
    then show ?thesis by simp
  qed
  then have "\<not> (of_nat (j * C) :: u32) < of_nat off" by (simp add: not_less)
  then show ?thesis unfolding extra_clusters_def Let_def fc by simp
qed

lemma file_write_ok:
  assumes "readable fs" "table_below fs" "chain (fat_entry fs) (eofValue fs) (m_Inode f) xs" "\<forall>x \<in> set xs. data_ok fs x"
    and "bs \<noteq> []" "loc + length bs \<le> m_Size f" "m_Size f \<le> length xs * m_BlockSize fs"
    and "loc mod m_BlockSize fs + min (m_BlockSize fs) (length bs) \<le> m_BlockSize fs" "m_Size f + m_BlockSize fs \<le> 2 ^ 32"
  shows "\<exists>fs'. fat_write False f loc bs fs = Some (length bs, f, fs') \<and> volume fs fs' \<and>
    file_data fs' xs = splice loc bs (file_data fs xs) \<and>
    (\<forall>d. data_ok fs d \<longrightarrow> d \<notin> set xs \<longrightarrow> cluster_data fs' d = cluster_data fs d)"
proof -
  let ?B = "m_BlockSize fs" and ?q = "loc div m_BlockSize fs" and ?r = "loc mod m_BlockSize fs"
  have B: "?B = BPB_SecPerClus fs * BPB_BytsPerSec fs" "0 < ?B" using assms(1) readable_pos [OF assms(1)] by (simp_all add: readable_def)
  have len: "0 < length bs" using assms(5) by simp
  have c0: "m_Inode f \<noteq> 0" using assms(3,4) by (cases xs) (auto simp: data_ok_def cluster_ok_def in_table_def)
  have ok: "\<forall>x \<in> set xs. cluster_ok fs x" using assms(4) by (simp add: data_ok_def)
  have "loc < length xs * ?B" using assms(6,7) len by linarith
  then have q: "?q < length xs" using B(2) by (simp only: div_less_iff_less_mult)
  obtain f1 where f1: "skip_clusters ?q (m_Inode f) fs = Some (Some (xs ! ?q), f1)" "volume fs f1" "disk f1 = disk fs"
  proof -
    have "\<exists>f1. skip_clusters n c fs = Some (Some (xs ! n), f1) \<and> volume fs f1 \<and> disk f1 = disk fs"
      if "readable fs" "table_below fs" "chain (fat_entry fs) (eofValue fs) c xs" "\<forall>x \<in> set xs. data_ok fs x" "n < length xs" for n c fs xs
      using that
    proof (induction n arbitrary: c fs xs)
      case 0
      then show ?case by (cases xs) (auto simp: volume_def)
    next
      case (Suc n)
      obtain ys where ys: "xs = c # ys" using Suc.prems(3) by (cases xs) simp_all
      then have "ys \<noteq> []" using Suc.prems(5) by auto
      with ys Suc.prems(3,4) have n: "fat_entry fs c \<noteq> 0" "fat_entry fs c < eofValue fs" "chain (fat_entry fs) (eofValue fs) (fat_entry fs c) ys" "data_ok fs c" by auto
      obtain f1 where f1: "getClusterEntry c fs = Some (fat_entry fs c, f1)" "volume fs f1" "disk f1 = disk fs"
        using get_volume [OF Suc.prems(1,2) n(4)] by blast
      have v: "geometry f1 = geometry fs" "readable f1" "table_below f1" "\<And>d. data_ok fs d \<Longrightarrow> fat_entry f1 d = fat_entry fs d"
        using f1(2) by (auto simp: volume_def)
      note s = volume_simps [OF v(1)]
      have "chain (fat_entry f1) (eofValue f1) (fat_entry fs c) ys"
        unfolding s by (rule chain_cong [OF n(3)]) (use v(4) Suc.prems(4) ys in auto)
      from Suc.IH [OF v(2,3) this] Suc.prems(4,5) ys s(2) obtain f2 where
        f2: "skip_clusters n (fat_entry fs c) f1 = Some (Some (ys ! n), f2)" "volume f1 f2" "disk f2 = disk f1" by auto
      have "\<not> isEof f1 (fat_entry fs c)" unfolding s by (rule not_eof [OF n(2)])
      with f1 f2 n(1) ys volume_trans [OF f1(2) f2(2)] show ?case by simp
    qed
    from this [OF assms(1-4) q] that show ?thesis by blast
  qed
  have v: "geometry f1 = geometry fs" "readable f1" "table_below f1" "\<And>d. data_ok fs d \<Longrightarrow> fat_entry f1 d = fat_entry fs d"
    using f1(2) by (auto simp: volume_def)
  note s = volume_simps [OF v(1)]
  have cd: "cluster_data f1 = cluster_data fs" by (rule ext) (simp add: cluster_data_def f1(3) s)
  then have fd: "file_data f1 = file_data fs" by (intro ext) (simp add: file_data_def)
  let ?ys = "drop ?q xs"
  have ch: "chain (fat_entry fs) (eofValue fs) (xs ! ?q) ?ys"
    using chain_suffix [of "fat_entry fs" "eofValue fs" "m_Inode f" "take ?q xs" "xs ! ?q" "drop (Suc ?q) xs"] assms(3) q
    by (simp add: id_take_nth_drop [symmetric] Cons_nth_drop_Suc)
  have okys: "\<forall>y \<in> set ?ys. data_ok fs y" using assms(4) by (meson in_set_dropD)
  have "chain (fat_entry f1) (eofValue f1) (xs ! ?q) ?ys" unfolding s by (rule chain_cong [OF ch]) (use v(4) okys in auto)
  moreover have "?r + length bs \<le> length ?ys * m_BlockSize f1"
  proof -
    have "loc + length bs \<le> length xs * ?B" "loc = ?q * ?B + ?r" using assms(6,7) by auto
    then have "?r + length bs \<le> length xs * ?B - ?q * ?B" by linarith
    then show ?thesis by (simp add: s diff_mult_distrib)
  qed
  ultimately obtain f2 where f2: "write_loop bs ?r (xs ! ?q) f1 = Some (length bs, f2)" "volume f1 f2"
    "file_data f2 ?ys = splice ?r bs (file_data f1 ?ys)" "\<forall>d. data_ok f1 d \<longrightarrow> d \<notin> set ?ys \<longrightarrow> cluster_data f2 d = cluster_data f1 d"
    using write_loop_ok [OF v(2,3), of "xs ! ?q" ?ys ?r bs] okys assms(8) s by auto
  have dist: "distinct xs" by (rule chain_distinct [OF assms(3)])
  have pre: "file_data f2 (take ?q xs) = file_data fs (take ?q xs)"
  proof -
    have "cluster_data f2 y = cluster_data fs y" if "y \<in> set (take ?q xs)" for y
    proof -
      have "y \<notin> set ?ys" using that dist by (metis append_take_drop_id disjoint_iff distinct_append)
      moreover have "data_ok f1 y" using assms(4) in_set_takeD [OF that] unfolding s(2) by blast
      ultimately show ?thesis using f2(4) cd by simp
    qed
    then show ?thesis by (simp add: file_data_def cong: map_cong)
  qed
  have "file_data f2 (take ?q xs @ ?ys) = splice (?q * ?B + ?r) bs (file_data fs (take ?q xs @ ?ys))"
    unfolding file_data_append using pre f2(3) fd q splice_skip [of "?q * ?B" "file_data fs (take ?q xs)" ?r bs] by (simp add: min_absorb2)
  then have data: "file_data f2 xs = splice loc bs (file_data fs xs)" by simp
  have "extra_clusters ?B (m_Size f) (loc + length bs) = 0" using assms(6) B(2) assms(9) by (rule no_extra_clusters)
  moreover have "loc < 2 ^ 32" "(loc + length bs) mod 2 ^ 64 \<le> m_Size f"
    using assms(6,9) B(2) mod_less_eq_dividend [of "loc + length bs" "2 ^ 64"] by linarith+
  moreover have "loc div BPB_BytsPerSec fs mod 2 ^ 32 div BPB_SecPerClus fs = ?q"
    using order_le_less_trans [OF div_le_dividend [of loc "BPB_BytsPerSec fs"] calculation(2)]
    by (simp add: B(1) div_mult2_eq mult.commute)
  ultimately have "fat_write False f loc bs fs = Some (length bs, f, f2)"
    using f1(1) f2(1) c0 assms(6) by (simp add: fat_write_def Let_def first_cluster_def link_clusters_def updateFileSize_def B(1) [symmetric])
  moreover have "cluster_data f2 d = cluster_data fs d" if "data_ok fs d" "d \<notin> set xs" for d
    using that f2(4) cd s(2) in_set_dropD [of d ?q xs] by auto
  ultimately show ?thesis using data volume_trans [OF f1(2) f2(2)] by blast
qed

end
