(* ===== verification/Fat_Properties.thy ===== *)
theory Fat_Properties
  imports Fat_Writing
begin

text \<open>The properties of the FAT filesystem on disk: reading and writing back, the chains after the operations
  on files, and where the updates of the table go wrong.\<close>

section \<open>A small volume\<close>

text \<open>Sectors and clusters of 512 bytes, the table from sector 1 on, the data from sector 4 on, and a file of
  1000 bytes in the clusters 2 and 3.\<close>

definition sample_disk :: "nat \<Rightarrow> u8" where
  "sample_disk i = (if i = 516 then 3 else if i = 518 \<or> i = 519 then 0xFF else if i < 2048 then 0 else of_nat i)"

definition sample_fs :: fat_fs where
  "sample_fs =
     \<lparr>BPB_BytsPerSec = 512, BPB_SecPerClus = 1, BPB_TotSec16 = 20, BPB_TotSec32 = 0, BPB_RootClus = 0, FSI_NxtFree = 0,
      m_Type = FAT16, m_DataAreaStart = 4, m_RootDirCount = 1, m_RootDir = 3, m_FatSector = 1, m_BlockSize = 512,
      m_FreeClusterHint = 2, m_FatCache = (\<lambda>_. None), fat_buffers = [], behind = (\<lambda>_ _. 0), disk = sample_disk, disk_size = 10240\<rparr>"

definition sample_file :: fat_file where
  "sample_file = \<lparr>m_Inode = 2, m_Size = 1000, m_bIsDirectory = False, m_DirClus = 0, m_DirOffset = 0\<rparr>"

lemma sample_entry: "fat_entry sample_fs 2 = 3" "fat_entry sample_fs 3 = 0xFFFF" "fat_entry sample_fs 4 = 0" "fat_entry sample_fs 5 = 0"
  by (simp_all add: fat_entry_def fat_pos_def width_def disk16_def le16_def sample_fs_def sample_disk_def)

lemma sample_readable: "readable sample_fs" "table_below sample_fs"
  by (simp_all add: readable_def volume_ok_def coherent_def table_below_def sample_fs_def)

lemma sample_data: "data_ok sample_fs 2" "data_ok sample_fs 3" "data_ok sample_fs 4" "data_ok sample_fs 5"
  by (simp_all add: data_ok_def cluster_ok_def in_table_def fat_sector_def fatOffset_def cluster_pos_def getSectorNumber_def fits_def sample_fs_def)

lemma sample_chain: "chain (fat_entry sample_fs) (eofValue sample_fs) 2 [2, 3]"
  by (simp add: sample_entry) (simp add: eofValue_def sample_fs_def)

lemma sample_geometry: "m_BlockSize sample_fs = 512" "BPB_SecPerClus sample_fs = 1" "BPB_BytsPerSec sample_fs = 512"
  by (simp_all add: sample_fs_def)

lemma sample_table: "table_inv (geometry sample_fs) sample_fs"
  by (simp add: table_inv_def volume_ok_def coherent_def paired_def search_limit_def geometry_def sample_fs_def)

lemma sample_safe: "safe (geometry sample_fs) 2" "safe (geometry sample_fs) 3" "safe (geometry sample_fs) 4" "safe (geometry sample_fs) 5"
  by (simp_all add: safe_def in_table_def fat_sector_def fatOffset_def geometry_def sample_fs_def)

section \<open>Contents\<close>

text \<open>A read that does not cross a cluster boundary inside of its first cluster, as those of whole blocks do
  not, returns the bytes of the file; nothing but the cache of the table changes.\<close>

theorem fat_read_correct:
  assumes "readable fs" "chain (fat_entry fs) (eofValue fs) (m_Inode f) xs" "\<forall>x \<in> set xs. cluster_ok fs x"
    and "\<not> m_bIsDirectory f" "loc < m_Size f" "0 < n" "m_Size f \<le> length xs * m_BlockSize fs"
    and "loc mod m_BlockSize fs + min (min n (m_Size f - loc)) (m_BlockSize fs) \<le> m_BlockSize fs" "loc + n < 2 ^ 64"
  shows "\<exists>fs'. fat_read f loc n fs = Some (Some (take (min n (m_Size f - loc)) (drop loc (file_data fs xs))), fs') \<and>
    geometry fs' = geometry fs \<and> disk fs' = disk fs \<and> coherent fs'"
  by (rule file_read_ok [OF assms])

theorem fat_read_correct_witness:
  "\<exists>fs'. fat_read sample_file 512 512 sample_fs = Some (Some (take 488 (drop 512 (file_data sample_fs [2, 3]))), fs')"
  using fat_read_correct [of sample_fs sample_file "[2, 3]" 512 512] sample_readable sample_chain sample_data
  by (auto simp: sample_geometry sample_file_def data_ok_def)

text \<open>A read that does cross one takes bytes from behind the buffer of the cluster.\<close>

theorem fat_read_overrun:
  assumes "readable fs" "cluster_ok fs (m_Inode f)" "\<not> m_bIsDirectory f" "m_Inode f \<noteq> 0" "loc < m_Size f"
    and "loc < m_BlockSize fs" "m_BlockSize fs < loc + min (min n (m_Size f - loc)) (m_BlockSize fs)" "loc + n < 2 ^ 64"
  shows "fat_read f loc n fs = None"
proof -
  have B: "m_BlockSize fs = BPB_SecPerClus fs * BPB_BytsPerSec fs" using assms(1) by (simp add: readable_def)
  have k: "(if (loc + n) mod 2 ^ 64 > m_Size f then m_Size f - loc else n) = min n (m_Size f - loc)" using assms(5,8) by auto
  have "read_loop (min n (m_Size f - loc)) loc (m_Inode f) fs = None"
    using readCluster_ok [OF assms(1,2)] assms(7) by (subst read_loop.simps) (simp add: Let_def)
  then show ?thesis using assms(3-6) k by (simp add: fat_read_def Let_def B [symmetric])
qed

theorem fat_read_overrun_witness: "fat_read sample_file 100 512 sample_fs = None"
  using fat_read_overrun [of sample_fs sample_file 100 512] sample_readable sample_data
  by (simp add: sample_geometry sample_file_def data_ok_def)





text \<open>The size of the clusters of a file is kept in 32 bits: for a file that reaches into the last cluster below
  4 GiB it is 0, and a write inside of the file links in as many new clusters as lie before its end.\<close>

theorem write_below_4GiB:
  assumes "1 < C" "C dvd 2 ^ 32" "2 ^ 32 < old + C" "old < 2 ^ 32" "0 < off" "off \<le> old"
  shows "extra_clusters C old off = off div C + (if off mod C \<noteq> 0 then 1 else 0)"
proof -
  from assms(2) obtain k where "2 ^ 32 = C * k" by (rule dvdE)
  then have k: "2 ^ 32 = k * C" by (simp only: mult.commute)
  define q r where "q = old div C" and "r = old mod C"
  define n where "n = q + (if r \<noteq> 0 then 1 else 0)"
  have old: "old = q * C + r" "r < C" using assms(1) by (simp_all add: q_def r_def)
  have nC: "n * C < old + C" "old \<le> n * C" using old by (auto simp: n_def algebra_simps)
  have "n * C < (k + 1) * C" "k * C < (n + 1) * C"
    unfolding distrib_right mult_1 k [symmetric] using nC assms(3,4) by linarith+
  then have "n < k + 1" "k < n + 1" by (simp_all only: mult_less_cancel2)
  then have "n = k" by simp
  then have fc: "(of_nat n :: u32) * of_nat C = 0" using k by (simp flip: of_nat_mult add: word_of_nat_eq_0_iff)
  let ?j = "of_nat (old div C) + (if old mod C \<noteq> 0 then 1 else 0) :: u32"
  have j: "?j = of_nat n" by (simp add: n_def q_def r_def)
  have off: "unat (of_nat off :: u32) = off" using assms(4,6) by (simp add: unat_of_nat take_bit_nat_eq_self)
  have "0 < k" using k by (auto intro: ccontr)
  moreover have "k * 1 < k * C" using assms(1) calculation by (simp only: mult_less_cancel1)
  then have "k < 2 ^ 32" unfolding k by simp
  ultimately have "(of_nat n :: u32) \<noteq> 0" using \<open>n = k\<close> by (simp add: word_of_nat_eq_0_iff) (auto dest: dvd_imp_le)
  then show ?thesis unfolding extra_clusters_def Let_def j using fc off assms(5) by (simp add: word_less_nat_alt)
qed

theorem write_below_4GiB_witness: "extra_clusters 512 (2 ^ 32 - 1) 1000 = 2"
  using write_below_4GiB [of 512 "2 ^ 32 - 1" 1000] by simp

section \<open>The table\<close>



text \<open>Setting an entry writes two sectors, from the half of the buffer where the entry is: behind the sector of the
  entry, the disk gets the second half of the buffer, however old, or, when the entry is in the second half,
  whatever lies in memory behind the buffer.\<close>

lemma set_two_sectors:
  assumes "volume_ok fs" "coherent fs" "in_table fs c" "m_FatCache fs (fat_sector fs c) = Some (b, h)" "i < BPB_BytsPerSec fs"
    and "BPB_BytsPerSec fs * (m_FatSector fs + fat_sector fs c) mod 4096 + 2 * BPB_BytsPerSec fs \<le> 4096"
  shows "\<exists>r fs'. setClusterEntry c v fs = Some (r, fs') \<and>
    disk fs' (BPB_BytsPerSec fs * (m_FatSector fs + fat_sector fs c + 1) + i) = buffer_byte fs b ((h + 1) * BPB_BytsPerSec fs + i)"
proof -
  let ?bps = "BPB_BytsPerSec fs" and ?s = "fat_sector fs c" and ?i = "fatOffset (m_Type fs) c mod BPB_BytsPerSec fs"
  have u: "unat c < 2 ^ 30" using assms(3) by (simp add: in_table_def)
  note w = width_pos [OF assms(1) u]
  have ty: "m_Type fs \<noteq> FAT12" "c \<noteq> 0" using assms(1,3) by (simp_all add: volume_ok_def in_table_def)
  have cell: "b < length (fat_buffers fs)" "h < 2" "length (fat_buffers fs ! b) = 2 * ?bps" using assms(2,4) by (auto simp: coherent_def)
  have hb: "h * ?bps + ?i + width fs \<le> 2 * ?bps" using w(1) cell(2) by (auto simp: numeral_2_eq_2 less_Suc_eq)
  define bs where "bs = entry_bytes fs v"
  let ?f = "store_buffer b (h * ?bps + ?i) bs fs"
  have lb: "length bs = width fs" by (simp add: bs_def)
  have buf: "fat_buffers ?f ! b = take (h * ?bps + ?i) (fat_buffers fs ! b) @ bs @ drop (h * ?bps + ?i + width fs) (fat_buffers fs ! b)"
    using cell(1) lb by (simp add: store_buffer_def Let_def)
  have byte: "buffer_byte ?f b ((h + 1) * ?bps + i) = buffer_byte fs b ((h + 1) * ?bps + i)"
    using nth_store [of "h * ?bps + ?i" bs "fat_buffers fs ! b" "(h + 1) * ?bps + i"] hb cell(3) lb w(1)
    by (simp add: buffer_byte_def buf)
  let ?bytes = "map (buffer_byte ?f b) [h * ?bps ..< h * ?bps + 2 * ?bps]"
  let ?base = "?bps * (m_FatSector fs + ?s)"
  have "fits ?f ?base (length ?bytes)" using assms(3,6) by (simp add: fits_def in_table_def algebra_simps)
  from write_chunks_ok [OF this] have wr: "writeSectorBlock (of_nat (m_FatSector fs + ?s)) ?bytes ?f =
      Some (?f\<lparr>disk := store_bytes ?base ?bytes (disk fs)\<rparr>)"
    using unat_sec [OF in_table_sector [OF assms(1,3)]] by (simp add: writeSectorBlock_def)
  have get: "getClusterEntry c fs = Some (fat_entry fs c, fs)" using getClusterEntry_cases [OF assms(1-3)] assms(4) by simp
  have set: "\<exists>r. setClusterEntry c v fs = Some (r, ?f\<lparr>disk := store_bytes ?base ?bytes (disk fs)\<rparr>)"
    using ty wr assms(4) fat_entry_FAT32 [OF assms(1), of c] unfolding setClusterEntry_def get fat_sector_def
    by (cases "m_Type fs = FAT16") (simp_all add: Let_def entry_bytes_def bs_def)
  have "store_bytes ?base ?bytes (disk fs) (?base + ?bps + i) = buffer_byte ?f b ((h + 1) * ?bps + i)"
    using assms(5) by (simp add: store_bytes_def algebra_simps)
  with set byte show ?thesis by (auto simp: algebra_simps)
qed

theorem setClusterEntry_second_sector:
  assumes "volume_ok fs" "coherent fs" "in_table fs c" "m_FatCache fs (fat_sector fs c) = Some (b, h)" "i < BPB_BytsPerSec fs"
    and "BPB_BytsPerSec fs * (m_FatSector fs + fat_sector fs c) mod 4096 + 2 * BPB_BytsPerSec fs \<le> 4096"
  shows "\<exists>r fs'. setClusterEntry c v fs = Some (r, fs') \<and>
    disk fs' (BPB_BytsPerSec fs * (m_FatSector fs + fat_sector fs c + 1) + i) =
      (if h = 0 then fat_buffers fs ! b ! (BPB_BytsPerSec fs + i) else behind fs b i)"
proof -
  have "h < 2" "length (fat_buffers fs ! b) = 2 * BPB_BytsPerSec fs" using assms(2,4) by (auto simp: coherent_def)
  then have "buffer_byte fs b ((h + 1) * BPB_BytsPerSec fs + i) =
      (if h = 0 then fat_buffers fs ! b ! (BPB_BytsPerSec fs + i) else behind fs b i)"
    using assms(5) by (auto simp: buffer_byte_def numeral_2_eq_2 less_Suc_eq)
  with set_two_sectors [OF assms, of v] show ?thesis by simp
qed

theorem setClusterEntry_second_sector_witness:
  "\<exists>r fs'. setClusterEntry 256 0 (loaded 0 sample_fs) = Some (r, fs') \<and> disk fs' 1541 = behind sample_fs 0 5"
proof -
  let ?l = "loaded 0 sample_fs"
  have v: "volume_ok ?l" "coherent ?l" using sample_table loaded_coherent [of sample_fs 0]
    by (simp_all add: table_inv_def) (simp add: sample_fs_def)
  have sel: "BPB_BytsPerSec ?l = 512" "m_FatSector ?l = 1" "m_Type ?l = FAT16" "disk_size ?l = 10240" "behind ?l = behind sample_fs"
    "m_FatCache ?l 1 = Some (0, 1)" by (simp_all add: loaded_def Let_def cache_insert_def sample_fs_def)
  have sec: "fat_sector ?l 256 = 1" by (simp add: fat_sector_def fatOffset_def sel)
  from setClusterEntry_second_sector [OF v, of 256 0 1 5 0] sec sel show ?thesis by (simp add: in_table_def)
qed

text \<open>On a FAT12 volume, reading an entry a second time stops the system, and so does setting one.\<close>

theorem FAT12_panics:
  assumes "m_Type fs = FAT12" "getClusterEntry c fs = Some (r, fs')" "fs' \<noteq> fs"
  shows "getClusterEntry c fs' = None \<and> setClusterEntry c v fs = None"
proof -
  let ?s = "fatOffset FAT12 c div BPB_BytsPerSec fs"
  from assms obtain bs where n: "m_FatCache fs ?s = None" "fs' = fs\<lparr>fat_buffers := fat_buffers fs @ [bs],
      m_FatCache := cache_insert (?s + 1) (length (fat_buffers fs), 1) (cache_insert ?s (length (fat_buffers fs), 0) (m_FatCache fs))\<rparr>"
    by (auto simp: getClusterEntry_def Let_def load_sectors_def split: option.splits Option.bind_splits)
  then have "m_FatCache fs' ?s \<noteq> None" "m_Type fs' = FAT12" "BPB_BytsPerSec fs' = BPB_BytsPerSec fs"
    using assms(1) by (auto simp: cache_insert_def)
  then show ?thesis using assms(2) by (auto simp: getClusterEntry_def setClusterEntry_def Let_def)
qed

theorem FAT12_panics_witness:
  "\<exists>r fs'. getClusterEntry 2 (sample_fs\<lparr>m_Type := FAT12\<rparr>) = Some (r, fs') \<and> getClusterEntry 2 fs' = None"
proof -
  let ?f = "sample_fs\<lparr>m_Type := FAT12\<rparr>"
  have "load_sectors 0 ?f = Some (loaded 0 ?f)" by (rule load_sectors_ok) (simp_all add: sample_fs_def)
  moreover have "m_Type ?f = FAT12" "BPB_BytsPerSec ?f = 512" "m_FatCache ?f 0 = None" by (simp_all add: sample_fs_def)
  ultimately have "\<exists>r. getClusterEntry 2 ?f = Some (r, loaded 0 ?f)" by (simp add: getClusterEntry_def Let_def fatOffset_def)
  then obtain r where r: "getClusterEntry 2 ?f = Some (r, loaded 0 ?f)" by blast
  have "fat_buffers (loaded 0 ?f) \<noteq> fat_buffers ?f" by (simp add: loaded_def Let_def)
  then have "loaded 0 ?f \<noteq> ?f" by metis
  with FAT12_panics [OF _ r] r show ?thesis by auto
qed

section \<open>Chains\<close>

text \<open>Truncating a file, after its size was set in the directory, leaves its first cluster as a chain of one and
  frees all its others, and nothing else.\<close>

theorem fat_truncate_frees:
  assumes "updateFileSize f (- int (m_Size f)) fs = Some fs1" "table_inv g fs1" "m_Inode f \<noteq> 0"
    and "chain (fat_entry fs1) (eofValue g) (m_Inode f) xs" "\<forall>x \<in> set xs. safe g x"
  shows "\<exists>fs'. fat_truncate f fs = Some (f\<lparr>m_Size := 0\<rparr>, fs') \<and>
    fat_entry fs' = (\<lambda>d. if d = m_Inode f then eofValue g else if d \<in> set xs then 0 else fat_entry fs1 d)"
proof -
  have "geometry fs1 = g" using assms(2) by (simp add: table_inv_def)
  then have "eofValue fs1 = eofValue g" using geometry_simps(2) [of fs1] by (simp add: eofValue_def)
  with table.truncate_ok [OF assms(2,4,5)] assms(1,3) show ?thesis by (auto simp: fat_truncate_def)
qed

theorem fat_truncate_frees_witness:
  "\<exists>fs'. fat_truncate (sample_file\<lparr>m_Size := 0\<rparr>) sample_fs = Some (sample_file\<lparr>m_Size := 0\<rparr>, fs') \<and> fat_entry fs' 3 = 0"
proof -
  have "updateFileSize (sample_file\<lparr>m_Size := 0\<rparr>) (- int (m_Size (sample_file\<lparr>m_Size := 0\<rparr>))) sample_fs = Some sample_fs"
    by (simp add: updateFileSize_def)
  moreover have "eofValue (geometry sample_fs) = eofValue sample_fs" by (simp add: eofValue_def)
  ultimately show ?thesis using fat_truncate_frees [OF _ sample_table, of "sample_file\<lparr>m_Size := 0\<rparr>" sample_fs "[2, 3]"] sample_chain sample_safe
    by (auto simp: sample_file_def)
qed

text \<open>Removing a file frees the clusters of its chain, and no others.\<close>

theorem fat_remove_frees:
  assumes "table_inv g fs" "chain (fat_entry fs) (eofValue g) (m_Inode f) xs" "\<forall>x \<in> set xs. safe g x"
  shows "\<exists>fs'. remove_clusters f fs = Some fs' \<and> fat_entry fs' = (\<lambda>d. if d \<in> set xs then 0 else fat_entry fs d)"
proof -
  have "m_Inode f \<noteq> 0" using assms(2,3) by (cases xs) (auto simp: safe_def in_table_def)
  moreover have "geometry fs = g" using assms(1) by (simp add: table_inv_def)
  then have "eofValue fs = eofValue g" using geometry_simps(2) [of fs] by (simp add: eofValue_def)
  ultimately show ?thesis using table.remove_ok [OF assms] by (auto simp: remove_clusters_def)
qed

theorem fat_remove_frees_witness:
  "\<exists>fs'. remove_clusters sample_file sample_fs = Some fs' \<and> fat_entry fs' 2 = 0 \<and> fat_entry fs' 3 = 0"
proof -
  have "eofValue (geometry sample_fs) = eofValue sample_fs" by (simp add: eofValue_def)
  with fat_remove_frees [OF sample_table, of sample_file "[2, 3]"] sample_chain sample_safe show ?thesis by (auto simp: sample_file_def)
qed




text \<open>When no cluster from the hint on is free, the search stops the system: clusters that were freed before the
  hint are not found, and the callers' error for a full disk is never reached.\<close>

theorem findFreeCluster_exhausted:
  assumes "table_inv g fs" "\<forall>k. search_start fs \<le> k \<and> k < search_limit g \<longrightarrow> safe g (of_nat k) \<and> fat_entry fs (of_nat k) \<noteq> 0"
  shows "findFreeCluster fs = None"
proof -
  have "find_free (search_limit g) j fs = None"
    if "table_inv g fs" "\<forall>k. j \<le> k \<and> k < search_limit g \<longrightarrow> safe g (of_nat k) \<and> fat_entry fs (of_nat k) \<noteq> 0" for j fs
    using that
  proof (induction "search_limit g" j fs rule: find_free.induct)
    case (1 j fs)
    show ?case
    proof (cases "j < search_limit g")
      case True
      then have s: "safe g (of_nat j)" "fat_entry fs (of_nat j) \<noteq> 0" using "1.prems"(2) by auto
      obtain f1 where f1: "getClusterEntry (of_nat j) fs = Some (fat_entry fs (of_nat j), f1)" "table_inv g f1" "fat_entry f1 = fat_entry fs"
        using table.get [OF "1.prems"(1) s(1)] by blast
      have g: "geometry fs = g" "geometry f1 = g" using "1.prems"(1) f1(2) by (auto simp: table_inv_def)
      have "m_Type f1 = m_Type g" "m_Type g \<noteq> FAT12"
        using g(2) geometry_simps(2) [of f1] f1(2) by (auto simp: table_inv_def volume_ok_def)
      then have mask: "(if m_Type f1 = FAT32 then 0x0FFFFFFF else 0xFFFF) = value_mask g"
        by (cases "m_Type g") (auto simp: value_mask_def)
      note nz = value_mask_entry [OF g(1), of "of_nat j"]
      have "find_free (search_limit g) (j + 1) f1 = None"
        using "1.hyps" [OF True f1(1) refl] mask nz s(2) f1(2,3) "1.prems"(2) by auto
      then show ?thesis using True f1(1) mask nz s(2) by (subst find_free.simps) simp
    qed (subst find_free.simps, simp)
  qed
  from this [OF assms] show ?thesis using findFreeCluster_search [OF assms(1)] by simp
qed

theorem findFreeCluster_exhausted_witness:
  "findFreeCluster (sample_fs\<lparr>BPB_TotSec16 := 4\<rparr>) = None"
proof -
  let ?f = "sample_fs\<lparr>BPB_TotSec16 := 4\<rparr>"
  have t: "table_inv (geometry ?f) ?f"
    by (simp add: table_inv_def volume_ok_def coherent_def paired_def search_limit_def geometry_def sample_fs_def)
  have l: "search_start ?f = 2" "search_limit (geometry ?f) = 4" by (simp_all add: search_limit_def search_start_def geometry_def sample_fs_def)
  have s: "safe (geometry ?f) 2" "safe (geometry ?f) 3" by (simp_all add: safe_def in_table_def fat_sector_def fatOffset_def geometry_def sample_fs_def)
  have e: "fat_entry ?f 2 = 3" "fat_entry ?f 3 = 0xFFFF" 
    by (simp_all add: fat_entry_def fat_pos_def width_def disk16_def le16_def sample_fs_def sample_disk_def)
  have "safe (geometry ?f) (of_nat k) \<and> fat_entry ?f (of_nat k) \<noteq> 0" if "2 \<le> k" "k < 4" for k
  proof -
    have "k = 2 \<or> k = 3" using that by auto
    then show ?thesis using s e by auto
  qed
  with findFreeCluster_exhausted [OF t] l show ?thesis by auto
qed

end
