(* ===== verification/String_Class.thy ===== *)
theory String_Class
  imports C_Printf "HOL-Library.Sublist"
begin

text \<open>
  \<open>String\<close> (\<^verbatim>\<open>system/include/utilities/String.h\<close>, \<^verbatim>\<open>system/kernel/utilities/String.cc\<close>): a string of any length,
  in the object while it is shorter than 64 characters and in a block of the heap otherwise.  The object is its four members
  and \<open>fresh\<close>, the bytes that a new block holds.  \<open>None\<close> is an access outside of a block or through the null
  pointer, except that the byte just before the static part is followed: it is the highest byte of \<open>m_Size\<close>.
  An access of no bytes touches nothing.  Lengths and sizes are 64-bit numbers, and every sum that may leave their range is
  taken modulo \<open>2 ^ 64\<close>.  Objects do not overlap, so that a string is never assigned or appended to itself.  A \<open>const char *\<close> is
  the list of the characters before its terminator, and \<open>None\<close> when it is null.
\<close>

definition StaticSize :: nat where "StaticSize = 64"

record string_obj =
  m_Data :: "u8 list option"
  m_Length :: nat
  m_Size :: nat
  m_Static :: "u8 list"
  fresh :: "nat \<Rightarrow> u8"

definition peek :: "nat \<Rightarrow> nat \<Rightarrow> u8 list \<Rightarrow> u8 list option" where
  "peek i n blk = (if n = 0 \<or> i + n \<le> length blk then Some (take n (drop i blk)) else None)"

definition poke :: "nat \<Rightarrow> u8 list \<Rightarrow> u8 list \<Rightarrow> u8 list option" where
  "poke i bs blk = (if bs = [] \<or> i + length bs \<le> length blk then Some (take i blk @ bs @ drop (i + length bs) blk) else None)"

definition poke_data :: "nat \<Rightarrow> u8 list \<Rightarrow> string_obj \<Rightarrow> string_obj option" where
  "poke_data i bs s = (if bs = [] then Some s else do { d \<leftarrow> m_Data s; d \<leftarrow> poke i bs d; Some (s\<lparr>m_Data := Some d\<rparr>) })"

text \<open>The index \<open>2 ^ 64 - 1\<close> is the byte before the static part; the object is laid out as it is declared, with
  \<open>m_Size\<close> in front of it, the lowest byte first.\<close>

definition top_byte :: "u8 \<Rightarrow> nat \<Rightarrow> nat" where
  "top_byte b n = n mod 2 ^ 56 + unat b * 2 ^ 56"

definition poke_static :: "nat \<Rightarrow> u8 list \<Rightarrow> string_obj \<Rightarrow> string_obj option" where
  "poke_static i bs s =
     (if i = 2 ^ 64 - 1 \<and> bs \<noteq> []
      then do { d \<leftarrow> poke 0 (tl bs) (m_Static s); Some (s\<lparr>m_Static := d, m_Size := top_byte (hd bs) (m_Size s)\<rparr>) }
      else do { d \<leftarrow> poke i bs (m_Static s); Some (s\<lparr>m_Static := d\<rparr>) })"

text \<open>The bytes that \<open>memcpy\<close> takes from a pointer.\<close>

definition peek_from :: "u8 list option \<Rightarrow> nat \<Rightarrow> u8 list option" where
  "peek_from p n = (if n = 0 then Some [] else do { d \<leftarrow> p; peek 0 n d })"

text \<open>A length and the terminator.\<close>

definition with_end :: "nat \<Rightarrow> nat" where
  "with_end n = (n + 1) mod 2 ^ 64"

text \<open>The characters up to the terminator.\<close>

definition c_text :: "u8 list \<Rightarrow> u8 list option" where
  "c_text blk = (if 0 \<in> set blk then Some (takeWhile (\<lambda>c. c \<noteq> 0) blk) else None)"

section \<open>Construction, assignment, concatenation\<close>

definition String_new :: "(nat \<Rightarrow> u8) \<Rightarrow> string_obj" where
  "String_new j = \<lparr>m_Data = None, m_Length = 0, m_Size = 0, m_Static = replicate StaticSize 0, fresh = j\<rparr>"

definition reserve :: "nat \<Rightarrow> string_obj \<Rightarrow> string_obj option" where
  "reserve sz s =
     (if sz < StaticSize then Some s
      else
        let sz = (if sz = m_Size s \<and> m_Size s = StaticSize then sz + 1 else sz)
        in if sz > m_Size s
           then
             let new = map (fresh s) [0 ..< sz]
             in do {
               d \<leftarrow> (case m_Data s of
                        Some tmp \<Rightarrow> if m_Size s \<noteq> 0 then do { old \<leftarrow> peek 0 (m_Size s) tmp; poke 0 old new } else Some new
                      | None \<Rightarrow> Some new);
               Some (s\<lparr>m_Data := Some d, m_Size := sz\<rparr>) }
           else Some s)"

definition String_assign :: "string_obj \<Rightarrow> string_obj \<Rightarrow> string_obj option" where
  "String_assign x s =
     (let n = m_Length x; s = s\<lparr>m_Length := n\<rparr>
      in if n < StaticSize
         then do {
           bs \<leftarrow> peek 0 (n + 1) (m_Static x);
           s \<leftarrow> poke_static 0 bs s;
           Some (s\<lparr>m_Data := None\<rparr>) }
         else do {
           s \<leftarrow> reserve (with_end n) s;
           (case m_Data x of
              Some d \<Rightarrow> do { bs \<leftarrow> peek 0 (with_end n) d; poke_data 0 bs s }
            | None \<Rightarrow> poke_data 0 [0] s) })"

definition String_assign_c :: "u8 list option \<Rightarrow> string_obj \<Rightarrow> string_obj option" where
  "String_assign_c c s =
     (let n = (case c of None \<Rightarrow> 0 | Some t \<Rightarrow> length t); s = s\<lparr>m_Length := n\<rparr>
      in if n < StaticSize
         then do {
           t \<leftarrow> c;
           s \<leftarrow> poke_static 0 (t @ [0]) s;
           Some (s\<lparr>m_Data := None\<rparr>) }
         else do {
           s \<leftarrow> reserve (with_end n) s;
           (case c of Some t \<Rightarrow> poke_data 0 (t @ [0]) s | None \<Rightarrow> poke_data 0 [0] s) })"

definition String_from :: "(nat \<Rightarrow> u8) \<Rightarrow> u8 list option \<Rightarrow> string_obj option" where
  "String_from j c = String_assign_c c (String_new j)"

definition String_copy :: "string_obj \<Rightarrow> string_obj option" where
  "String_copy x = String_assign x (String_new (fresh x))"

definition String_free :: "string_obj \<Rightarrow> string_obj" where
  "String_free s = s\<lparr>m_Data := None, m_Length := 0, m_Size := 0\<rparr>"

definition const_char :: "string_obj \<Rightarrow> u8 list" where
  "const_char s = (if m_Length s < StaticSize then m_Static s else case m_Data s of None \<Rightarrow> [0] | Some d \<Rightarrow> d)"

definition to_dynamic :: "string_obj \<Rightarrow> string_obj option" where
  "to_dynamic s = (if m_Length s < StaticSize then do { bs \<leftarrow> peek 0 (m_Length s) (m_Static s); poke_data 0 bs s } else Some s)"

definition String_append :: "string_obj \<Rightarrow> string_obj \<Rightarrow> string_obj option" where
  "String_append x s =
     (let n = m_Length x; newLength = (n + m_Length s) mod 2 ^ 64
      in do {
        s \<leftarrow> (if newLength \<ge> StaticSize then do { s \<leftarrow> reserve (with_end newLength) s; to_dynamic s } else Some s);
        bs \<leftarrow> peek_from (if n > StaticSize then m_Data x else Some (m_Static x)) (with_end n);
        s \<leftarrow> (if newLength \<ge> StaticSize then poke_data (m_Length s) bs s else poke_static (m_Length s) bs s);
        Some (s\<lparr>m_Length := newLength\<rparr>) })"

definition String_append_c :: "u8 list \<Rightarrow> string_obj \<Rightarrow> string_obj option" where
  "String_append_c t s =
     (let newLength = (length t + m_Length s) mod 2 ^ 64
      in do {
        s \<leftarrow> (if newLength < StaticSize then poke_static (m_Length s) (t @ [0]) s
             else do {
               s \<leftarrow> reserve (with_end newLength) s;
               s \<leftarrow> to_dynamic s;
               poke_data (m_Length s) (t @ [0]) s });
        Some (s\<lparr>m_Length := newLength\<rparr>) })"

section \<open>Comparison\<close>

definition String_eq :: "string_obj \<Rightarrow> string_obj \<Rightarrow> bool option" where
  "String_eq x s =
     (if m_Length s \<noteq> m_Length x then Some False
      else if m_Length s < StaticSize
      then do { a \<leftarrow> c_text (m_Static s); b \<leftarrow> c_text (m_Static x); Some (a = b) }
      else
        (case (m_Data s, m_Data x) of
           (None, None) \<Rightarrow> Some True
         | (Some d, Some e) \<Rightarrow> do { a \<leftarrow> c_text d; b \<leftarrow> c_text e; Some (a = b) }
         | _ \<Rightarrow> Some False))"

definition buffer :: "string_obj \<Rightarrow> u8 list option" where
  "buffer s = (if m_Length s < StaticSize then Some (m_Static s) else m_Data s)"

definition String_eq_c :: "u8 list option \<Rightarrow> string_obj \<Rightarrow> bool option" where
  "String_eq_c c s =
     (case (buffer s, c) of
        (None, None) \<Rightarrow> Some True
      | (Some b, Some t) \<Rightarrow> map_option (\<lambda>a. a = t) (c_text b)
      | _ \<Rightarrow> Some False)"

definition endswith :: "string_obj \<Rightarrow> string_obj \<Rightarrow> bool option" where
  "endswith x s =
     (if m_Length s = m_Length x then String_eq x s
      else if m_Length s < m_Length x then Some False
      else do {
        b \<leftarrow> buffer s; a \<leftarrow> peek (m_Length s - m_Length x) (m_Length x) b;
        c \<leftarrow> buffer x; d \<leftarrow> peek 0 (m_Length x) c;
        Some (a = d) })"

definition startswith :: "string_obj \<Rightarrow> string_obj \<Rightarrow> bool option" where
  "startswith x s =
     (if m_Length s = m_Length x then String_eq x s
      else if m_Length s < m_Length x then Some False
      else do {
        b \<leftarrow> buffer s; a \<leftarrow> peek 0 (m_Length x) b;
        c \<leftarrow> buffer x; d \<leftarrow> peek 0 (m_Length x) c;
        Some (a = d) })"

section \<open>Shortening\<close>

text \<open>\<open>char\<close> is signed.\<close>

definition iswhitespace :: "u8 \<Rightarrow> bool" where
  "iswhitespace c \<longleftrightarrow> sint c \<le> 32 \<or> c = 0x7f"

definition poke_buffer :: "bool \<Rightarrow> nat \<Rightarrow> u8 list \<Rightarrow> string_obj \<Rightarrow> string_obj option" where
  "poke_buffer dyn i bs s = (if dyn then poke_data i bs s else poke_static i bs s)"

text \<open>The end of most operations that shorten a string; \<open>dyn\<close> says that the buffer was on the heap.\<close>

definition drop_to_static :: "bool \<Rightarrow> string_obj \<Rightarrow> string_obj option" where
  "drop_to_static dyn s =
     (if dyn \<and> m_Length s < StaticSize
      then do {
        d \<leftarrow> m_Data s;
        bs \<leftarrow> peek 0 (m_Length s + 1) d;
        s \<leftarrow> poke_static 0 bs s;
        Some (s\<lparr>m_Size := StaticSize, m_Data := None\<rparr>) }
      else Some s)"

text \<open>On the empty string, \<open>chomp\<close> clears the byte before the buffer, which is the highest byte of
  \<open>m_Size\<close>, and the length wraps around.\<close>

definition chomp :: "string_obj \<Rightarrow> string_obj option" where
  "chomp s =
     (let dyn = (m_Length s \<ge> StaticSize); n = (if m_Length s = 0 then 2 ^ 64 - 1 else m_Length s - 1)
      in do {
        s \<leftarrow> poke_buffer dyn n [0] (s\<lparr>m_Length := n\<rparr>);
        drop_to_static dyn s })"

fun leading :: "u8 list \<Rightarrow> nat \<Rightarrow> nat \<Rightarrow> nat" where
  "leading b n 0 = n"
| "leading b n (Suc k) = (if iswhitespace (b ! n) then leading b (n + 1) k else n)"

fun trailing :: "u8 list \<Rightarrow> nat \<Rightarrow> nat" where
  "trailing b 0 = 0"
| "trailing b (Suc n) = (if iswhitespace (b ! n) then trailing b n else Suc n)"

definition lstrip :: "string_obj \<Rightarrow> string_obj option" where
  "lstrip s =
     (let dyn = (m_Length s \<ge> StaticSize)
      in case buffer s of
           None \<Rightarrow> Some s
         | Some b \<Rightarrow>
             if b = [] then None
             else if \<not> iswhitespace (b ! 0) then Some s
             else
               let n = leading b 0 (m_Length s); l = m_Length s - n
               in do {
                 bs \<leftarrow> peek n l b;
                 s \<leftarrow> poke_buffer dyn 0 (bs @ [0]) (s\<lparr>m_Length := l\<rparr>);
                 drop_to_static dyn s })"

text \<open>On the empty string, \<open>rstrip\<close> looks at the highest byte of \<open>m_Size\<close>.\<close>

definition last_byte :: "u8 list \<Rightarrow> string_obj \<Rightarrow> u8" where
  "last_byte b s = (if m_Length s = 0 then word_of_nat (m_Size s div 2 ^ 56) else b ! (m_Length s - 1))"

definition rstrip :: "string_obj \<Rightarrow> string_obj option" where
  "rstrip s =
     (let dyn = (m_Length s \<ge> StaticSize)
      in case buffer s of
           None \<Rightarrow> Some s
         | Some b \<Rightarrow>
             if length b < m_Length s then None
             else if \<not> iswhitespace (last_byte b s) then Some s
             else
               let n = trailing b (m_Length s)
               in do {
                 s \<leftarrow> poke_buffer dyn n [0] (s\<lparr>m_Length := n\<rparr>);
                 drop_to_static dyn s })"

definition strip :: "string_obj \<Rightarrow> string_obj option" where
  "strip s = do { s \<leftarrow> lstrip s; rstrip s }"

section \<open>Splitting\<close>

text \<open>The string that \<open>split\<close> returns comes first.\<close>

definition split :: "nat \<Rightarrow> string_obj \<Rightarrow> (string_obj \<times> string_obj) option" where
  "split offset s =
     (let dyn = (m_Length s \<ge> StaticSize)
      in do {
        buf \<leftarrow> buffer s;
        t \<leftarrow> c_text (drop offset buf);
        r \<leftarrow> String_from (fresh s) (Some t);
        let s = s\<lparr>m_Length := offset\<rparr>;
        (if offset < StaticSize \<and> dyn
         then do {
           bs \<leftarrow> peek 0 offset buf;
           s \<leftarrow> poke_static 0 bs s;
           s \<leftarrow> poke_static offset [0] (s\<lparr>m_Data := None, m_Size := StaticSize\<rparr>);
           Some (r, s) }
         else do { s \<leftarrow> poke_buffer dyn offset [0] s; Some (r, s) }) })"

definition nextCharacter :: "nat \<Rightarrow> nat" where
  "nextCharacter c = c + 1"

definition char_at :: "nat \<Rightarrow> string_obj \<Rightarrow> u8 option" where
  "char_at i s = (if i < length (const_char s) then Some (const_char s ! i) else None)"

partial_function (option) tokenise_loop :: "u8 \<Rightarrow> nat \<Rightarrow> string_obj \<Rightarrow> string_obj list \<Rightarrow> (string_obj \<times> string_obj list) option" where
  "tokenise_loop token idx copy list =
     (if idx < m_Length copy
      then do {
        c \<leftarrow> char_at idx copy;
        (if c = token
         then do {
           (tmp, copy) \<leftarrow> split (idx + 1) copy;
           pStr \<leftarrow> String_copy copy;
           copy \<leftarrow> String_assign tmp copy;
           pStr \<leftarrow> chomp pStr;
           tokenise_loop token 0 copy (if m_Length pStr = 0 then list else list @ [pStr]) }
         else tokenise_loop token (nextCharacter idx) copy list) }
      else Some (copy, list))"

definition tokenise :: "u8 \<Rightarrow> string_obj \<Rightarrow> string_obj list option" where
  "tokenise token s = do {
     copy \<leftarrow> String_copy s;
     (copy, list) \<leftarrow> tokenise_loop token 0 copy [];
     (if m_Length copy > 0 then do { p \<leftarrow> String_copy copy; Some (list @ [p]) } else Some list) }"

section \<open>Formatting\<close>

definition String_sprintf :: "u8 list \<Rightarrow> vararg list \<Rightarrow> string_obj \<Rightarrow> string_obj option" where
  "String_sprintf fmt args s = do {
     s \<leftarrow> reserve 256 s;
     (out, n, _) \<leftarrow> vsprintf fmt args;
     s \<leftarrow> poke_data 0 out s;
     drop_to_static True (s\<lparr>m_Length := nat n\<rparr>) }"

end
