(* ===== verification/String_Text.thy ===== *)
theory String_Text
  imports String_Class
begin

text \<open>What the operations of \<open>String\<close> do to the text that a string holds, and the strings on which they fail.\<close>

section \<open>The text of a string\<close>

definition blocks_ok :: "string_obj \<Rightarrow> bool" where
  "blocks_ok s \<longleftrightarrow> length (m_Static s) = StaticSize \<and> (\<forall>d. m_Data s = Some d \<longrightarrow> length d = m_Size s)"

text \<open>A text and its terminator fit into the memory of the machine.\<close>

definition str_holds :: "string_obj \<Rightarrow> u8 list \<Rightarrow> bool" where
  "str_holds s t \<longleftrightarrow> blocks_ok s \<and> 0 \<notin> set t \<and> m_Length s = length t \<and> length t + 1 < 2 ^ 64 \<and> (\<exists>r. buffer s = Some (t @ 0 # r))"

lemma holds_end [simp]: "str_holds s t \<Longrightarrow> with_end (length t) = length t + 1"
  by (simp add: str_holds_def with_end_def)

text \<open>A string without a block that does not claim to have one.\<close>

definition usable :: "string_obj \<Rightarrow> bool" where
  "usable s \<longleftrightarrow> (m_Data s = None \<longrightarrow> m_Size s \<le> StaticSize)"

definition room_for :: "nat \<Rightarrow> string_obj \<Rightarrow> bool" where
  "room_for sz s \<longleftrightarrow> (m_Data s = None \<longrightarrow> m_Size s < sz \<or> m_Size s = StaticSize)"

lemma usable_room: "usable s \<Longrightarrow> StaticSize \<le> sz \<Longrightarrow> room_for sz s"
  by (auto simp: usable_def room_for_def)

lemma peek_prefix [simp]: "peek 0 (length t) (t @ r) = Some t" "peek 0 (Suc (length t)) (t @ x # r) = Some (t @ [x])"
  by (simp_all add: peek_def)

lemma poke_ok:
  assumes "i + length bs \<le> length b"
  shows "poke i bs b = Some (take i b @ bs @ drop (i + length bs) b)" "length (take i b @ bs @ drop (i + length bs) b) = length b"
  using assms by (simp_all add: poke_def)

lemma c_text_prefix [simp]: "0 \<notin> set t \<Longrightarrow> c_text (t @ 0 # r) = Some t"
  unfolding c_text_def by (subst takeWhile_append2) auto

lemma static_size [simp]: "StaticSize = 64"
  by (simp add: StaticSize_def)

lemma holds_static:
  assumes "length t < StaticSize"
  shows "str_holds s t \<longleftrightarrow> blocks_ok s \<and> 0 \<notin> set t \<and> m_Length s = length t \<and> (\<exists>r. m_Static s = t @ 0 # r)"
  using assms by (auto simp: str_holds_def buffer_def)

lemma holds_dynamic:
  assumes "StaticSize \<le> length t"
  shows "str_holds s t \<longleftrightarrow> blocks_ok s \<and> 0 \<notin> set t \<and> m_Length s = length t \<and> length t + 1 < 2 ^ 64 \<and> (\<exists>r. m_Data s = Some (t @ 0 # r))"
  using assms by (auto simp: str_holds_def buffer_def)

lemma holds_data: "str_holds s t \<Longrightarrow> \<not> length t < 64 \<Longrightarrow> m_Data s \<noteq> None"
  by (auto simp: str_holds_def buffer_def)

lemma holds_usable: "str_holds s t \<Longrightarrow> StaticSize \<le> length t \<Longrightarrow> usable s"
  by (auto simp: holds_dynamic usable_def)

lemma new_holds: "str_holds (String_new j) []" "usable (String_new j)" "blocks_ok (String_new j)"
proof -
  have "m_Static (String_new j) = [] @ 0 # replicate 63 0"
    by (simp add: String_new_def numeral_eq_Suc)
  then show "str_holds (String_new j) []"
    by (auto simp: str_holds_def blocks_ok_def buffer_def String_new_def)
qed (simp_all add: usable_def String_new_def blocks_ok_def)

section \<open>Blocks\<close>

lemma reserve_ok:
  assumes "blocks_ok s" "room_for sz s" "StaticSize \<le> sz"
  shows "\<exists>d. reserve sz s = Some (s\<lparr>m_Data := Some d, m_Size := length d\<rparr>) \<and> sz \<le> length d \<and>
    (\<forall>e. m_Data s = Some e \<longrightarrow> length e \<le> length d \<and> take (length e) d = e)"
proof -
  define z where "z = (if sz = m_Size s \<and> m_Size s = StaticSize then sz + 1 else sz)"
  let ?new = "map (fresh s) [0 ..< z]"
  have r: "reserve sz s = (if z > m_Size s
      then do {
        d \<leftarrow> (case m_Data s of
                 Some tmp \<Rightarrow> if m_Size s \<noteq> 0 then do { old \<leftarrow> peek 0 (m_Size s) tmp; poke 0 old ?new } else Some ?new
               | None \<Rightarrow> Some ?new);
        Some (s\<lparr>m_Data := Some d, m_Size := z\<rparr>) }
      else Some s)"
    unfolding reserve_def Let_def z_def [symmetric] using assms(3) by (simp add: not_less)
  show ?thesis
  proof (cases "z > m_Size s")
    case True
    show ?thesis
    proof (cases "m_Data s")
      case None
      then show ?thesis using True r by (intro exI [of _ ?new]) (auto simp: z_def)
    next
      case (Some e)
      then have e: "length e = m_Size s" using assms(1) by (simp add: blocks_ok_def)
      let ?d = "e @ drop (length e) ?new"
      have "reserve sz s = Some (s\<lparr>m_Data := Some ?d, m_Size := z\<rparr>)"
        using True Some e by (cases "e = []") (auto simp: r peek_def poke_def)
      moreover have "length ?d = z" using True e by simp
      ultimately show ?thesis using True Some e by (intro exI [of _ ?d]) (auto simp: z_def)
    qed
  next
    case False
    then have "m_Data s \<noteq> None" using assms(2,3) by (auto simp: z_def room_for_def split: if_splits)
    then obtain e where "m_Data s = Some e" by blast
    moreover from this have "length e = m_Size s" using assms(1) by (simp add: blocks_ok_def)
    moreover have "reserve sz s = Some s" using False r by simp
    moreover have "s\<lparr>m_Data := Some e, m_Size := length e\<rparr> = s" using calculation by (cases s) simp
    ultimately show ?thesis using False by (intro exI [of _ e]) (auto simp: z_def split: if_splits)
  qed
qed

text \<open>A string whose block was given back while its size was kept gets no new block.\<close>

lemma reserve_stale:
  assumes "m_Data s = None" "sz \<le> m_Size s" "StaticSize < sz"
  shows "reserve sz s = Some s"
  using assms by (auto simp: reserve_def Let_def)

section \<open>Assignment\<close>

lemma assign_static:
  assumes "str_holds x t" "length t < StaticSize" "blocks_ok s"
  shows "\<exists>s'. String_assign x s = Some s' \<and> str_holds s' t \<and> m_Data s' = None \<and> m_Size s' = m_Size s"
proof -
  obtain r where x: "m_Static x = t @ 0 # r" "m_Length x = length t" "0 \<notin> set t" using assms(1,2) by (auto simp: holds_static)
  have l: "length (m_Static s) = StaticSize" using assms(3) by (simp add: blocks_ok_def)
  let ?st = "(t @ [0]) @ drop (Suc (length t)) (m_Static s)"
  have "poke 0 (t @ [0]) (m_Static s) = Some ?st" using assms(2) l by (simp add: poke_def)
  then have "String_assign x s = Some (s\<lparr>m_Length := length t, m_Static := ?st, m_Data := None\<rparr>)"
    using x assms(2) by (simp add: String_assign_def poke_static_def Let_def)
  moreover have "str_holds (s\<lparr>m_Length := length t, m_Static := ?st, m_Data := None\<rparr>) t"
    using assms(2) l x(3) by (simp add: holds_static blocks_ok_def)
  ultimately show ?thesis by auto
qed

lemma poke_data_holds:
  assumes "blocks_ok s" "m_Data s = Some (u @ v)" "length t < length v" "0 \<notin> set (u @ t)" "StaticSize \<le> length (u @ t)"
    "length (u @ t) + 1 < 2 ^ 64"
  shows "\<exists>s'. poke_data (length u) (t @ [0]) s = Some s' \<and> str_holds (s'\<lparr>m_Length := length (u @ t)\<rparr>) (u @ t) \<and>
    m_Static s' = m_Static s \<and> m_Length s' = m_Length s"
proof -
  let ?d = "u @ (t @ [0]) @ drop (Suc (length t)) v"
  have p: "poke_data (length u) (t @ [0]) s = Some (s\<lparr>m_Data := Some ?d\<rparr>)"
    using assms(2,3) by (simp add: poke_data_def poke_def)
  have "m_Size s = length u + length v" "length (m_Static s) = StaticSize"
    using assms(1,2) by (auto simp: blocks_ok_def)
  then have "str_holds (s\<lparr>m_Data := Some ?d, m_Length := length (u @ t)\<rparr>) (u @ t)"
    using assms(3-6) by (simp add: holds_dynamic blocks_ok_def)
  with p show ?thesis by auto
qed

lemma assign_dynamic:
  assumes "str_holds x t" "StaticSize \<le> length t" "blocks_ok s" "room_for (length t + 1) s"
  shows "\<exists>s'. String_assign x s = Some s' \<and> str_holds s' t"
proof -
  obtain r where x: "m_Data x = Some (t @ 0 # r)" "m_Length x = length t" "0 \<notin> set t" "length t + 1 < 2 ^ 64"
    using assms(1,2) by (auto simp: holds_dynamic)
  let ?s = "s\<lparr>m_Length := length t\<rparr>"
  have b: "blocks_ok ?s" "room_for (length t + 1) ?s" using assms(3,4) by (simp_all add: blocks_ok_def room_for_def)
  from reserve_ok [OF this] assms(2) obtain d where
    d: "reserve (length t + 1) ?s = Some (?s\<lparr>m_Data := Some d, m_Size := length d\<rparr>)" "length t + 1 \<le> length d" by auto
  let ?r = "?s\<lparr>m_Data := Some d, m_Size := length d\<rparr>"
  have "blocks_ok ?r" using b(1) by (simp add: blocks_ok_def)
  from poke_data_holds [OF this, of "[]" d t] d(2) x(3) assms(2) x(4) obtain s' where
    s': "poke_data 0 (t @ [0]) ?r = Some s'" "str_holds (s'\<lparr>m_Length := length t\<rparr>) t" "m_Length s' = length t" by auto
  have "String_assign x s = Some s'"
    using x assms(2) d(1) s'(1) holds_end [OF assms(1)] by (simp add: String_assign_def Let_def)
  moreover have "s'\<lparr>m_Length := length t\<rparr> = s'" using s'(3) by (cases s') simp
  ultimately show ?thesis using s'(2) by simp
qed

lemma assign_ok:
  assumes "str_holds x t" "blocks_ok s" "length t < StaticSize \<or> room_for (length t + 1) s"
  shows "\<exists>s'. String_assign x s = Some s' \<and> str_holds s' t"
  using assign_static [OF assms(1) _ assms(2)] assign_dynamic [OF assms(1) _ assms(2)] assms(3) by (meson not_le)

lemma copy_ok: "str_holds x t \<Longrightarrow> \<exists>s'. String_copy x = Some s' \<and> str_holds s' t \<and> usable s'"
  using assign_static [of x t "String_new (fresh x)"] assign_dynamic [of x t "String_new (fresh x)"] new_holds [of "fresh x"]
  by (cases "length t < StaticSize") (auto simp: String_copy_def usable_def room_for_def String_new_def dest: holds_data)

text \<open>A \<open>const char *\<close> is assigned as a string that holds its characters would be.\<close>

lemma assign_c_eq:
  assumes "str_holds x t"
  shows "String_assign_c (Some t) s = String_assign x s"
proof (cases "length t < StaticSize")
  case True
  with assms obtain r where "m_Static x = t @ 0 # r" "m_Length x = length t" by (auto simp: holds_static)
  with True show ?thesis by (simp add: String_assign_c_def String_assign_def Let_def)
next
  case False
  with assms obtain r where "m_Data x = Some (t @ 0 # r)" "m_Length x = length t" by (auto simp: holds_dynamic)
  with False show ?thesis using holds_end [OF assms] by (simp add: String_assign_c_def String_assign_def Let_def)
qed

lemma exists_string: "0 \<notin> set t \<Longrightarrow> length t + 1 < 2 ^ 64 \<Longrightarrow> \<exists>x. str_holds x t"
proof (cases "length t < StaticSize")
  case True
  assume "0 \<notin> set t"
  then have "str_holds \<lparr>m_Data = None, m_Length = length t, m_Size = 0, m_Static = t @ 0 # replicate (63 - length t) 0, fresh = (\<lambda>_. 0)\<rparr> t"
    using True by (simp add: holds_static blocks_ok_def)
  then show ?thesis by blast
next
  case False
  assume "0 \<notin> set t" "length t + 1 < 2 ^ 64"
  then have "str_holds \<lparr>m_Data = Some (t @ [0]), m_Length = length t, m_Size = length t + 1, m_Static = replicate 64 0, fresh = (\<lambda>_. 0)\<rparr> t"
    using False by (simp add: holds_dynamic blocks_ok_def)
  then show ?thesis by blast
qed

lemma from_ok: "0 \<notin> set t \<Longrightarrow> length t + 1 < 2 ^ 64 \<Longrightarrow> \<exists>s. String_from j (Some t) = Some s \<and> str_holds s t \<and> usable s"
proof -
  assume "0 \<notin> set t" "length t + 1 < 2 ^ 64"
  then obtain x where x: "str_holds x t" using exists_string by blast
  from assign_c_eq [OF x] have "String_from j (Some t) = String_assign x (String_new j)"
    by (simp add: String_from_def)
  then show ?thesis using x assign_static [of x t "String_new j"] assign_dynamic [of x t "String_new j"] new_holds [of j]
    by (cases "length t < StaticSize") (auto simp: usable_def room_for_def String_new_def dest: holds_data)
qed

section \<open>Comparison\<close>

lemma eq_ok: "str_holds x t \<Longrightarrow> str_holds s u \<Longrightarrow> String_eq x s = Some (u = t)"
  by (cases "length t < StaticSize"; cases "length u < StaticSize") (auto simp: String_eq_def holds_static holds_dynamic)

lemma ends_ok:
  assumes "str_holds x t" "str_holds s u"
  shows "endswith x s = Some (suffix t u)" "startswith x s = Some (prefix t u)"
proof -
  obtain r r' where b: "buffer x = Some (t @ 0 # r)" "buffer s = Some (u @ 0 # r')" "m_Length x = length t" "m_Length s = length u"
    using assms by (auto simp: str_holds_def)
  have eq: "String_eq x s = Some (u = t)" by (rule eq_ok [OF assms])
  have p: "peek 0 (length t) (u @ 0 # r') = Some (take (length t) u)" if "length t < length u" using that by (simp add: peek_def)
  have q: "peek (length u - length t) (length t) (u @ 0 # r') = Some (drop (length u - length t) u)" if "length t < length u"
    using that by (simp add: peek_def)
  have s: "suffix t u \<longleftrightarrow> drop (length u - length t) u = t" if "length t < length u"
    using that by (metis suffix_def append_eq_conv_conj append_take_drop_id diff_diff_cancel less_imp_le length_append diff_add_inverse2)
  have pre: "prefix t u \<longleftrightarrow> take (length t) u = t" by (metis prefix_def append_eq_conv_conj append_take_drop_id)
  consider "length u = length t" | "length u < length t" | "length t < length u" by linarith
  then have "endswith x s = Some (suffix t u) \<and> startswith x s = Some (prefix t u)"
  proof (cases)
    case 1
    then show ?thesis using eq b by (auto simp: endswith_def startswith_def suffix_def prefix_def)
  next
    case 2
    then show ?thesis using b by (auto simp: endswith_def startswith_def dest: suffix_length_le prefix_length_le)
  next
    case 3
    then show ?thesis using b p q s pre by (auto simp: endswith_def startswith_def)
  qed
  then show "endswith x s = Some (suffix t u)" "startswith x s = Some (prefix t u)" by simp_all
qed

section \<open>Shortening\<close>

text \<open>A shorter text written over the old one, and the move out of the heap when it fits.\<close>

lemma rewrite_ok:
  assumes "str_holds s t" "0 \<notin> set w" "length w \<le> length t"
  shows "\<exists>s'. do { s \<leftarrow> poke_buffer (StaticSize \<le> length t) 0 (w @ [0]) (s\<lparr>m_Length := length w\<rparr>);
      drop_to_static (StaticSize \<le> length t) s } = Some s' \<and> str_holds s' w \<and> (usable s \<longrightarrow> usable s')"
proof -
  let ?s = "s\<lparr>m_Length := length w\<rparr>"
  have ok: "blocks_ok ?s" using assms(1) by (simp add: str_holds_def blocks_ok_def)
  have fits: "length w + 1 < 2 ^ 64" using assms(1,3) by (simp add: str_holds_def)
  show ?thesis
  proof (cases "StaticSize \<le> length t")
    case False
    with assms(1) obtain r where st: "m_Static s = t @ 0 # r" "length (m_Static s) = StaticSize"
      by (auto simp: holds_static blocks_ok_def)
    let ?st = "(w @ [0]) @ drop (Suc (length w)) (m_Static s)"
    have "poke 0 (w @ [0]) (m_Static s) = Some ?st" using st assms(3) by (simp add: poke_def)
    moreover have "str_holds (?s\<lparr>m_Static := ?st\<rparr>) w"
      using ok st(2) assms(2,3) False by (simp add: holds_static blocks_ok_def)
    ultimately show ?thesis using False by (simp add: poke_buffer_def poke_static_def drop_to_static_def usable_def)
  next
    case True
    with assms(1) obtain r where d: "m_Data s = Some (t @ 0 # r)" by (auto simp: holds_dynamic)
    let ?d = "(w @ [0]) @ drop (Suc (length w)) (t @ 0 # r)"
    have p: "poke_data 0 (w @ [0]) ?s = Some (?s\<lparr>m_Data := Some ?d\<rparr>)"
      using d assms(3) by (simp add: poke_data_def poke_def)
    have ms: "m_Size s = length (t @ 0 # r)" using ok d by (simp add: blocks_ok_def)
    have len: "length ?d = m_Size s" unfolding ms using poke_ok(2) [of 0 "w @ [0]" "t @ 0 # r"] assms(3) by (simp del: length_drop)
    show ?thesis
    proof (cases "length w < StaticSize")
      case False
      then have "str_holds (?s\<lparr>m_Data := Some ?d\<rparr>) w" using ok len assms(2) fits by (simp add: holds_dynamic blocks_ok_def)
      then show ?thesis using p True False by (simp add: poke_buffer_def drop_to_static_def usable_def)
    next
      case w: True
      have l: "length (m_Static s) = StaticSize" using ok by (simp add: blocks_ok_def)
      let ?st = "(w @ [0]) @ drop (Suc (length w)) (m_Static s)"
      have "poke 0 (w @ [0]) (m_Static s) = Some ?st" using l w by (simp add: poke_def)
      moreover have "str_holds (?s\<lparr>m_Static := ?st, m_Size := StaticSize, m_Data := None\<rparr>) w"
        using w l assms(2) by (simp add: holds_static blocks_ok_def)
      ultimately show ?thesis using p True w by (simp add: poke_buffer_def drop_to_static_def poke_static_def usable_def)
    qed
  qed
qed

lemma poke_end: "poke (length u) [0] (u @ v @ 0 # r) = poke 0 (u @ [0]) (u @ v @ 0 # r)"
  by (auto simp: poke_def)

lemma poke_buffer_end:
  assumes "buffer s = Some (u @ v @ 0 # r)" "dyn = (StaticSize \<le> m_Length s)" "length u < 2 ^ 64 - 1"
  shows "poke_buffer dyn (length u) [0] (s\<lparr>m_Length := n\<rparr>) = poke_buffer dyn 0 (u @ [0]) (s\<lparr>m_Length := n\<rparr>)"
  using assms by (auto simp: poke_buffer_def poke_static_def poke_data_def buffer_def poke_end split: if_splits)

lemma cut_ok:
  assumes "str_holds s (u @ v)"
  shows "\<exists>s'. do { s \<leftarrow> poke_buffer (StaticSize \<le> length (u @ v)) (length u) [0] (s\<lparr>m_Length := length u\<rparr>);
      drop_to_static (StaticSize \<le> length (u @ v)) s } = Some s' \<and> str_holds s' u \<and> (usable s \<longrightarrow> usable s')"
proof -
  obtain r where b: "buffer s = Some (u @ v @ 0 # r)" "m_Length s = length (u @ v)" "0 \<notin> set u" "length u < 2 ^ 64 - 1"
    using assms by (auto simp: str_holds_def)
  show ?thesis using rewrite_ok [OF assms b(3)] poke_buffer_end [OF b(1) refl b(4), of "length u"] b(2) by simp
qed

lemma chomp_ok: "str_holds s (t @ [c]) \<Longrightarrow> \<exists>s'. chomp s = Some s' \<and> str_holds s' t \<and> (usable s \<longrightarrow> usable s')"
  using cut_ok [of s t "[c]"] by (auto simp: chomp_def Let_def str_holds_def [of s "t @ [c]"])

lemma trailing_ok: "trailing (t @ r) (length t) = length (dropWhile iswhitespace (rev t))"
  by (induction t arbitrary: r rule: rev_induct) auto

lemma leading_ok: "leading (p @ t @ r) (length p) (length t) = length p + length (takeWhile iswhitespace t)"
proof (induction t arbitrary: p)
  case (Cons x t)
  from Cons.IH [of "p @ [x]"] show ?case by simp
qed simp

definition rstripped :: "u8 list \<Rightarrow> u8 list" where
  "rstripped t = rev (dropWhile iswhitespace (rev t))"

lemma rstripped_prefix: "t = rstripped t @ rev (takeWhile iswhitespace (rev t))"
  by (metis rstripped_def rev_append rev_rev_ident takeWhile_dropWhile_id)

lemma rstrip_ok:
  assumes "str_holds s t"
  shows "\<exists>s'. rstrip s = Some s' \<and> str_holds s' (rstripped t) \<and> (usable s \<longrightarrow> usable s')"
proof -
  obtain r where b: "buffer s = Some (t @ 0 # r)" "m_Length s = length t" using assms by (auto simp: str_holds_def)
  show ?thesis
  proof (cases "iswhitespace (last_byte (t @ 0 # r) s)")
    case False
    then have "rstrip s = Some s" using b by (simp add: rstrip_def)
    moreover have "rstripped t = t" if "t \<noteq> []"
    proof -
      from that obtain u c where t: "t = u @ [c]" by (metis rev_exhaust)
      with False b have "\<not> iswhitespace c" by (simp add: last_byte_def)
      with t show ?thesis by (simp add: rstripped_def)
    qed
    then have "rstripped t = t" by (cases "t = []") (simp_all add: rstripped_def)
    ultimately show ?thesis using assms by simp
  next
    case True
    let ?w = "rstripped t" and ?v = "rev (takeWhile iswhitespace (rev t))"
    have t: "t = ?w @ ?v" by (rule rstripped_prefix)
    have n: "trailing (t @ 0 # r) (length t) = length ?w" by (simp add: trailing_ok rstripped_def)
    have "rstrip s = do { s \<leftarrow> poke_buffer (StaticSize \<le> length t) (length ?w) [0] (s\<lparr>m_Length := length ?w\<rparr>);
        drop_to_static (StaticSize \<le> length t) s }"
      using True b n by (simp add: rstrip_def Let_def)
    then show ?thesis using cut_ok [of s ?w ?v] assms t by simp
  qed
qed

lemma lstrip_ok:
  assumes "str_holds s t"
  shows "\<exists>s'. lstrip s = Some s' \<and> str_holds s' (dropWhile iswhitespace t) \<and> (usable s \<longrightarrow> usable s')"
proof -
  obtain r where b: "buffer s = Some (t @ 0 # r)" "m_Length s = length t" "0 \<notin> set t" using assms by (auto simp: str_holds_def)
  let ?w = "dropWhile iswhitespace t"
  have first: "iswhitespace ((t @ 0 # r) ! 0) \<longleftrightarrow> t = [] \<or> iswhitespace (hd t)"
    by (cases t) (auto simp: iswhitespace_def)
  show ?thesis
  proof (cases "t \<noteq> [] \<and> \<not> iswhitespace (hd t)")
    case True
    then have "?w = t" by (cases t) auto
    moreover have "lstrip s = Some s" using b first True by (simp add: lstrip_def)
    ultimately show ?thesis using assms by simp
  next
    case False
    let ?n = "length (takeWhile iswhitespace t)"
    have n: "leading (t @ 0 # r) 0 (length t) = ?n" using leading_ok [of "[]" t "0 # r"] by simp
    have l: "length t - ?n = length ?w" "?n + length ?w = length t"
      by (metis diff_add_inverse length_append takeWhile_dropWhile_id) (metis length_append takeWhile_dropWhile_id)
    have "drop ?n (t @ 0 # r) = ?w @ 0 # r"
      by (metis append.assoc append_eq_conv_conj takeWhile_dropWhile_id)
    then have "peek ?n (length ?w) (t @ 0 # r) = Some ?w" using l(2) by (simp add: peek_def)
    then have "lstrip s = do { s \<leftarrow> poke_buffer (StaticSize \<le> length t) 0 (?w @ [0]) (s\<lparr>m_Length := length ?w\<rparr>);
        drop_to_static (StaticSize \<le> length t) s }"
      using False b n l(1) first by (auto simp: lstrip_def Let_def)
    moreover have "0 \<notin> set ?w" using b(3) by (auto dest: set_dropWhileD)
    ultimately show ?thesis using rewrite_ok [OF assms, of ?w] l(2) by simp
  qed
qed

end
