(* ===== verification/Fat_Names.thy ===== *)
theory Fat_Names
  imports String_Text Letter_Case
begin

text \<open>
  The names of the FAT filesystem (\<^verbatim>\<open>FatFilesystem.cc\<close>, \<open>convertFilenameTo\<close>, \<open>convertFilenameFrom\<close>) and its time
  stamps (\<^verbatim>\<open>FatFilesystem.h\<close>, \<open>getUnixTimestamp\<close>).  A \<open>String\<close> is its text, and so is a
  \<open>NormalStaticString\<close>, a \<open>StaticString<64>\<close>, as long as it has at most 63 characters; \<open>None\<close> is one that would get more, which
  overruns its buffer (\<open>Static_String\<close>).
\<close>

unbundle bit_operations_syntax

section \<open>Static strings\<close>

definition ss_add :: "u8 list \<Rightarrow> u8 list \<Rightarrow> u8 list option" where
  "ss_add s t = (if length s + length t < 64 then Some (s @ t) else None)"

definition ss_pad :: "nat \<Rightarrow> u8 list \<Rightarrow> u8 list" where
  "ss_pad n s = s @ replicate (n - length s) 32"

definition ss_truncate :: "nat \<Rightarrow> u8 list \<Rightarrow> u8 list" where
  "ss_truncate n s = take n s"

section \<open>Short names\<close>

definition no_short :: "u8 \<Rightarrow> bool" where
  "no_short c \<longleftrightarrow> c \<in> {32, 34, 47, 92, 91, 93, 58, 59, 61, 44}"

text \<open>The first loop: \<open>i\<close> is the position of the first of the characters that are left; the largest number
  stands for a name without a period.\<close>

fun convert_scan :: "nat \<Rightarrow> u8 list \<Rightarrow> u64 \<Rightarrow> u8 list \<Rightarrow> (u64 \<times> u8 list) option" where
  "convert_scan i [] lastPeriod filename = Some (lastPeriod, filename)"
| "convert_scan i (c # cs) lastPeriod filename =
     (if no_short c then convert_scan (i + 1) cs lastPeriod filename
      else if c = 46 then (if cs = [] then Some (lastPeriod, filename) else convert_scan (i + 1) cs (of_nat i) filename)
      else do { f \<leftarrow> ss_add filename [toUpper c]; convert_scan (i + 1) cs lastPeriod f })"

text \<open>Up to \<open>n\<close> characters from position \<open>i\<close> on.\<close>

definition upper_from :: "u8 list \<Rightarrow> u64 \<Rightarrow> nat \<Rightarrow> u8 list" where
  "upper_from fn i n = (if unat i < length fn then map toUpper (take n (drop (unat i) fn)) else [])"

definition convertFilenameTo :: "u8 list \<Rightarrow> u8 list option" where
  "convertFilenameTo fn =
     (if fn = [46] \<or> fn = [46, 46] then Some (ss_pad 11 fn)
      else
        let fn = rstripped fn
        in do {
          (lastPeriod, filename) \<leftarrow> convert_scan 0 fn (- 1) [];
          let filename = (if lastPeriod > 8 then ss_truncate 6 filename @ [126, 49]
                          else if lastPeriod \<noteq> - 1 then ss_truncate (unat lastPeriod) filename else filename);
          (if filename = []
           then Some (ss_pad 11 (upper_from fn (lastPeriod + 1) 6 @ [126, 49]))
           else Some (ss_pad 8 filename @ ss_pad 3 (upper_from fn (lastPeriod + 1) 3))) })"

definition convertFilenameFrom :: "u8 list \<Rightarrow> u8 list" where
  "convertFilenameFrom filename =
     (let name = takeWhile (\<lambda>c. c \<noteq> 32) (take 8 filename);
          ext = takeWhile (\<lambda>c. c \<noteq> 32) (take 3 (drop 8 filename))
      in map toLower name @ (if ext = [] then [] else 46 # map toLower ext))"

section \<open>Time stamps\<close>

text \<open>A time has 5, 6 and 5 bits for half the seconds, the minutes and the hours, a date 5, 4 and 7 bits for the
  day, the month and the years since 1980.  The table of the days before a month has 13 entries; a month beyond is \<open>None\<close>.\<close>

definition cumulativeDays :: "nat list" where
  "cumulativeDays = [0, 31, 59, 90, 120, 151, 181, 212, 243, 273, 304, 334, 365]"

definition getUnixTimestamp :: "u16 \<Rightarrow> u16 \<Rightarrow> nat option" where
  "getUnixTimestamp time date =
     (let secCount = unat time mod 32; minutes = unat time div 32 mod 64; hours = unat time div 2048;
          day = unat date mod 32; month = unat date div 32 mod 16; y = unat date div 512
      in if secCount + minutes + hours = 0 \<and> day + month + y = 0 then Some 0
         else
           let years = y + 10; realYear = years + 1970;
               leapDays = realYear div 4 - realYear div 100 + realYear div 400 - (1980 div 4 - 1980 div 100 + 1980 div 400);
               m = (if month = 0 then 0 else month - 1)
           in if m \<ge> length cumulativeDays then None
              else Some (secCount * 2 + minutes * 60 + hours * 60 * 60 + (day - 1) * 24 * 60 * 60 +
                         cumulativeDays ! m * 24 * 60 * 60 + leapDays * 24 * 60 * 60 + years * 365 * 24 * 60 * 60 mod 2 ^ 32))"

section \<open>Names with one period\<close>

definition plain :: "u8 \<Rightarrow> bool" where
  "plain c \<longleftrightarrow> 33 \<le> c \<and> c \<le> 126 \<and> c \<noteq> 46 \<and> \<not> no_short c"

lemma none_large: "(8 :: u64) < - 1"
proof -
  have "(- 1 :: u64) = 0xFFFFFFFFFFFFFFFF" by simp
  then show ?thesis by simp
qed

lemma scan_plain:
  "\<forall>c \<in> set cs. plain c \<Longrightarrow> length f + length cs < 64 \<Longrightarrow>
     convert_scan i (cs @ ds) lp f = convert_scan (i + length cs) ds lp (f @ map toUpper cs)"
  by (induction cs arbitrary: i f) (auto simp: plain_def ss_add_def)

lemma plain_space: "plain c \<Longrightarrow> \<not> iswhitespace c"
proof -
  assume p: "plain c"
  then have u: "33 \<le> uint c" "uint c \<le> 126" by (simp_all add: plain_def word_le_def)
  have "sint c = uint c - (if sint c < 0 then 256 else 0)" using sint_uint_if [of c] by (cases "sint c < 0") simp_all
  with u sint_greater_eq [of c] have "sint c = uint c" by (simp split: if_splits)
  with u show ?thesis by (auto simp: iswhitespace_def)
qed

lemma lower_upper: "\<not> (65 \<le> c \<and> c \<le> 90) \<Longrightarrow> toLower (toUpper c) = c"
proof -
  assume n: "\<not> (65 \<le> c \<and> c \<le> 90)"
  show ?thesis
  proof (cases "c < 97 \<or> c > 122")
    case True
    then show ?thesis using n by (auto simp: toUpper_def toLower_def not_le)
  next
    case False
    then have "97 \<le> uint c" "uint c \<le> 122" by (simp_all add: word_le_def word_less_def not_less)
    then have "uint (c - 32) = uint c - 32" by (simp add: uint_word_ariths)
    then show ?thesis using False \<open>97 \<le> uint c\<close> \<open>uint c \<le> 122\<close> by (auto simp: toUpper_def toLower_def word_less_def)
  qed
qed

lemma upper_not_space: "plain c \<Longrightarrow> toUpper c \<noteq> 32"
proof -
  assume p: "plain c"
  show ?thesis
  proof (cases "c < 97 \<or> c > 122")
    case True
    then show ?thesis using p by (auto simp: toUpper_def plain_def)
  next
    case False
    then have "97 \<le> uint c" "uint c \<le> 122" by (simp_all add: word_le_def word_less_def not_less)
    then have "uint (c - 32) = uint c - 32" by (simp add: uint_word_ariths)
    then have "c - 32 \<noteq> 32" using \<open>97 \<le> uint c\<close> by auto
    then show ?thesis using False by (simp add: toUpper_def)
  qed
qed

lemma rstripped_plain: "plain c \<Longrightarrow> rstripped (s @ [c]) = s @ [c]"
  by (simp add: rstripped_def plain_space)

lemma take_pad: "length s \<le> n \<Longrightarrow> 32 \<notin> set s \<Longrightarrow> takeWhile (\<lambda>c. c \<noteq> 32) (ss_pad n s) = s"
  by (cases "n - length s") (auto simp: ss_pad_def takeWhile_append)

lemma length_pad [simp]: "length (ss_pad n s) = max n (length s)"
  by (simp add: ss_pad_def)

text \<open>A short name that is written and read is the name again, when it has one period, one to eight characters
  before it and one to three behind, all of them lower case or neither case.\<close>

lemma convert_to_period:
  assumes "\<forall>c \<in> set (b @ e). plain c" "b \<noteq> []" "length b \<le> 8" "e \<noteq> []" "length e \<le> 3"
  shows "convertFilenameTo (b @ 46 # e) = Some (ss_pad 8 (map toUpper b) @ ss_pad 3 (map toUpper e))"
proof -
  let ?fn = "b @ 46 # e"
  obtain e' c where e: "e = e' @ [c]" using assms(4) by (metis rev_exhaust)
  have dots: "?fn \<noteq> [46]" "?fn \<noteq> [46, 46]" using assms(1,2) by (auto simp: plain_def Cons_eq_append_conv append_eq_Cons_conv)
  have strip: "rstripped ?fn = ?fn" using rstripped_plain [of c "b @ 46 # e'"] assms(1) e by simp
  have "convert_scan 0 ?fn (- 1) [] = convert_scan (length b) (46 # e) (- 1) (map toUpper b)"
    using scan_plain [of b "[]" 0 "46 # e" "- 1"] assms(1,3) by simp
  also have "\<dots> = convert_scan (length b + 1) e (of_nat (length b)) (map toUpper b)" using assms(4) by (simp add: no_short_def)
  also have "\<dots> = Some (of_nat (length b), map toUpper b @ map toUpper e)"
    using scan_plain [of e "map toUpper b" "length b + 1" "[]" "of_nat (length b)"] assms(1,3,5) by simp
  finally have scan: "convert_scan 0 ?fn (- 1) [] = Some (of_nat (length b), map toUpper (b @ e))" by simp
  have lb: "unat (of_nat (length b) :: u64) = length b" using assms(3) by (simp add: unat_of_nat take_bit_nat_eq_self)
  have lp: "\<not> (of_nat (length b) :: u64) > 8" "(of_nat (length b) :: u64) \<noteq> - 1"
    using assms(3) lb none_large by (auto simp: word_less_nat_alt)
  have next_pos: "unat (of_nat (length b) + 1 :: u64) = length b + 1"
    using lb assms(3) unat_add_lem [of "of_nat (length b) :: u64" 1] by simp
  have ext: "upper_from ?fn (of_nat (length b) + 1) 3 = map toUpper e" using assms(5) next_pos by (simp add: upper_from_def)
  show ?thesis using dots strip scan lp assms(2) lb ext by (simp add: convertFilenameTo_def ss_truncate_def)
qed

lemma convert_from_period:
  assumes "\<forall>c \<in> set (b @ e). plain c \<and> \<not> (65 \<le> c \<and> c \<le> 90)" "length b \<le> 8" "e \<noteq> []" "length e \<le> 3"
  shows "convertFilenameFrom (ss_pad 8 (map toUpper b) @ ss_pad 3 (map toUpper e)) = b @ 46 # e"
proof -
  have sp: "32 \<notin> set (map toUpper b)" "32 \<notin> set (map toUpper e)" using assms(1) upper_not_space by (auto dest!: bspec)
  have l: "map toLower (map toUpper b) = b" "map toLower (map toUpper e) = e"
    using assms(1) lower_upper by (auto intro!: map_idI)
  have "take 8 (ss_pad 8 (map toUpper b) @ ss_pad 3 (map toUpper e)) = ss_pad 8 (map toUpper b)"
    "drop 8 (ss_pad 8 (map toUpper b) @ ss_pad 3 (map toUpper e)) = ss_pad 3 (map toUpper e)" using assms(2) by simp_all
  moreover have "take 3 (ss_pad 3 (map toUpper e)) = ss_pad 3 (map toUpper e)" using assms(4) by simp
  ultimately show ?thesis using sp l assms(2-4) take_pad [of "map toUpper b" 8] take_pad [of "map toUpper e" 3]
    by (simp add: convertFilenameFrom_def Let_def)
qed

section \<open>Names without a period\<close>

lemma convert_to_no_period:
  assumes "\<forall>c \<in> set n. plain c" "n \<noteq> []" "length n < 64"
  shows "convertFilenameTo n = Some (ss_pad 8 (take 6 (map toUpper n) @ [126, 49]) @ ss_pad 3 (take 3 (map toUpper n)))"
proof -
  obtain n' c where n: "n = n' @ [c]" using assms(2) by (metis rev_exhaust)
  have dots: "n \<noteq> [46]" "n \<noteq> [46, 46]" using assms(1) by (auto simp: plain_def)
  have strip: "rstripped n = n" using rstripped_plain [of c n'] assms(1) n by simp
  have scan: "convert_scan 0 n (- 1) [] = Some (- 1, map toUpper n)"
    using scan_plain [of n "[]" 0 "[]" "- 1"] assms(1,3) by simp
  note none_large
  then show ?thesis using dots strip scan assms(2) by (simp add: convertFilenameTo_def ss_truncate_def upper_from_def take_map)
qed

section \<open>The length of a short name\<close>

lemma convert_length: "convertFilenameTo fn = Some s \<Longrightarrow> length s = 11"
proof -
  assume c: "convertFilenameTo fn = Some s"
  show ?thesis
  proof (cases "fn = [46] \<or> fn = [46, 46]")
    case True
    then show ?thesis using c by (auto simp: convertFilenameTo_def)
  next
    case False
    then obtain lp f where f: "convert_scan 0 (rstripped fn) (- 1) [] = Some (lp, f)" and
      s: "(let filename = (if lp > 8 then ss_truncate 6 f @ [126, 49] else if lp \<noteq> - 1 then ss_truncate (unat lp) f else f)
           in (if filename = [] then Some (ss_pad 11 (upper_from (rstripped fn) (lp + 1) 6 @ [126, 49]))
               else Some (ss_pad 8 filename @ ss_pad 3 (upper_from (rstripped fn) (lp + 1) 3)))) = Some s"
      using c by (auto simp: convertFilenameTo_def Let_def bind_eq_Some_conv)
    have u: "length (upper_from x i n) \<le> n" for x i n by (simp add: upper_from_def)
    have "length (if lp > 8 then ss_truncate 6 f @ [126, 49] else if lp \<noteq> - 1 then ss_truncate (unat lp) f else f) \<le> 8"
    proof (cases "lp > 8")
      case True
      then show ?thesis by (simp add: ss_truncate_def)
    next
      case False
      then have "unat lp \<le> 8" "lp \<noteq> - 1" using none_large by (auto simp: word_less_nat_alt)
      then show ?thesis using False by (simp add: ss_truncate_def)
    qed
    then show ?thesis using s u [of "rstripped fn" "lp + 1" 6] u [of "rstripped fn" "lp + 1" 3] by (auto simp: Let_def max_def split: if_splits)
  qed
qed

lemma scan_full:
  "\<forall>c \<in> set cs. plain c \<Longrightarrow> length f < 64 \<Longrightarrow> 64 \<le> length f + length cs \<Longrightarrow> convert_scan i cs lp f = None"
  by (induction cs arbitrary: i f) (auto simp: plain_def ss_add_def)

section \<open>Days\<close>

definition leap :: "nat \<Rightarrow> bool" where
  "leap y \<longleftrightarrow> y mod 4 = 0 \<and> (y mod 100 \<noteq> 0 \<or> y mod 400 = 0)"

definition leaps :: "nat \<Rightarrow> nat" where
  "leaps y = y div 4 - y div 100 + y div 400"

text \<open>The seconds from the start of 1970 to a date and a time in the Gregorian calendar.\<close>

definition civil_seconds :: "nat \<Rightarrow> nat \<Rightarrow> nat \<Rightarrow> nat \<Rightarrow> nat \<Rightarrow> nat \<Rightarrow> nat" where
  "civil_seconds year month day h m sec =
     ((year - 1970) * 365 + (leaps (year - 1) - leaps 1969) + cumulativeDays ! (month - 1) +
       (if leap year \<and> 2 < month then 1 else 0) + (day - 1)) * 86400 + h * 3600 + m * 60 + sec"

lemma leaps_Suc: "leaps (Suc y) = leaps y + (if leap (Suc y) then 1 else 0)"
proof -
  have d: "Suc y div 4 = y div 4 + (if Suc y mod 4 = 0 then 1 else 0)"
    "Suc y div 100 = y div 100 + (if Suc y mod 100 = 0 then 1 else 0)"
    "Suc y div 400 = y div 400 + (if Suc y mod 400 = 0 then 1 else 0)"
    by (simp_all add: div_Suc)
  have "Suc y mod 100 = 0 \<Longrightarrow> Suc y mod 4 = 0" "Suc y mod 400 = 0 \<Longrightarrow> Suc y mod 100 = 0"
    using mod_mod_cancel [of 4 100 "Suc y"] mod_mod_cancel [of 100 400 "Suc y"] by auto
  moreover have "y div 100 \<le> y div 4" by (rule div_le_mono2) simp_all
  ultimately show ?thesis unfolding leaps_def d leap_def by auto
qed

lemma encoded_fields:
  assumes "a < 32" "b < n" "c < k" "32 * n * k \<le> 65536" "0 < n"
  shows "unat (of_nat (a + 32 * b + 32 * n * c) :: u16) = a + 32 * b + 32 * n * c"
    "(a + 32 * b + 32 * n * c) mod 32 = a" "(a + 32 * b + 32 * n * c) div 32 mod n = b" "(a + 32 * b + 32 * n * c) div (32 * n) = c"
proof -
  let ?x = "a + 32 * b + 32 * n * c"
  have x: "?x = a + 32 * (b + n * c)" by (simp add: algebra_simps)
  have "b + n * c < n * k"
  proof -
    have "n * (c + 1) \<le> n * k" using assms(3) by (intro mult_le_mono2) simp
    then show ?thesis using assms(2) by simp
  qed
  moreover have "q < r \<Longrightarrow> a + 32 * q < 32 * r" for q r :: nat using assms(1) by linarith
  ultimately have less: "?x < 32 * (n * k)" unfolding x by blast
  note less
  also have "32 * (n * k) \<le> 2 ^ LENGTH(16)" using assms(4) by simp
  finally have "?x < 2 ^ LENGTH(16)" .
  then show "unat (of_nat ?x :: u16) = ?x" by (simp only: unat_of_nat mod_less)
  show "?x mod 32 = a" by (simp only: x mod_mult_self2 mod_less assms(1))
  have d: "?x div 32 = b + n * c" using assms(1) div_mult_self2 [of 32 a "b + n * c"] by (simp only: x)
  then show "?x div 32 mod n = b" using assms(2) by simp
  show "?x div (32 * n) = c" using d assms(2,5) by (simp add: div_mult2_eq)
qed

text \<open>The time stamps of a volume are two days early in January and February of a leap year, and three days early
  otherwise.\<close>

lemma timestamp_days:
  assumes "1980 \<le> year" "year \<le> 2106" "1 \<le> month" "month \<le> 12" "1 \<le> day" "day \<le> 31" "h < 24" "m < 60" "s < 30"
  shows "\<exists>r. getUnixTimestamp (of_nat (s + 32 * m + 32 * 64 * h)) (of_nat (day + 32 * month + 32 * 16 * (year - 1980))) = Some r \<and>
    r + (if leap year \<and> month \<le> 2 then 2 else 3) * 86400 = civil_seconds year month day h m (2 * s)"
proof -
  let ?t = "s + 32 * m + 32 * 64 * h" and ?d = "day + 32 * month + 32 * 16 * (year - 1980)"
  note t = encoded_fields [of s m 64 h 32] and d = encoded_fields [of day month 16 "year - 1980" 128]
  have fields: "unat (of_nat ?t :: u16) mod 32 = s" "unat (of_nat ?t :: u16) div 32 mod 64 = m" "unat (of_nat ?t :: u16) div 2048 = h"
    using t assms by simp_all
  have dates: "unat (of_nat ?d :: u16) mod 32 = day" "unat (of_nat ?d :: u16) div 32 mod 16 = month"
    "unat (of_nat ?d :: u16) div 512 = year - 1980"
    using d assms by simp_all
  define y where "y = year - 1970"
  have y: "year - 1980 + 10 = y" "y + 1970 = year" "10 \<le> y" "y \<le> 136" using assms(1,2) by (simp_all add: y_def)
  have idx: "month - 1 < length cumulativeDays" using assms(4) by (simp add: cumulativeDays_def)
  have mod: "y * 365 * 24 * 60 * 60 mod 2 ^ 32 = y * 365 * 86400" using y(4) by simp
  have l0: "1980 div 4 - 1980 div 100 + 1980 div 400 = leaps 1980" by (simp add: leaps_def)
  have l: "leaps year = leaps (year - 1) + (if leap year then 1 else 0)"
    using leaps_Suc [of "year - 1"] assms(1) by simp
  have l80: "leaps 1980 = leaps 1969 + 3" by (simp add: leaps_def)
  have "leaps 1980 \<le> leaps year"
    using lift_Suc_mono_le [of leaps 1980 year] leaps_Suc assms(1) by simp
  with l l80 obtain k where k: "leaps year = leaps 1980 + k" "leaps (year - 1) - leaps 1969 = k + (if leap year then 2 else 3)"
    by (cases "leap year") (auto dest!: le_Suc_ex)
  define c where "c = cumulativeDays ! (month - 1)"
  have "getUnixTimestamp (of_nat ?t) (of_nat ?d) =
      Some (s * 2 + m * 60 + h * 60 * 60 + (day - 1) * 24 * 60 * 60 + c * 24 * 60 * 60 + k * 24 * 60 * 60 + y * 365 * 86400)"
    unfolding getUnixTimestamp_def Let_def fields dates y(1,2) l0 leaps_def [of year, symmetric] mod
    using assms(3,5) idx k(1) by (simp add: c_def)
  then show ?thesis
    unfolding civil_seconds_def k(2) c_def [symmetric] y_def [symmetric] using assms(3) by (cases "leap year"; cases "2 < month") simp_all
qed

end
