(* ===== verification/Fat_Directory.thy ===== *)
theory Fat_Directory
  imports Fat_Names Fat_File
begin

text \<open>
  The directories of the FAT filesystem (\<^verbatim>\<open>FatDirectory.cc\<close>) and the operations that make and remove files
  (\<^verbatim>\<open>FatFilesystem.cc\<close>).  A directory is a \<open>fat_file\<close> whose first cluster is its inode; the cache of the virtual file
  system is the list of the nodes that are inserted into it.  The name in a directory entry is copied up to the next zero
  byte, of which the conversion uses the first 11.
\<close>

section \<open>Directories\<close>

text \<open>What \<open>setInode\<close> derives from the first cluster.\<close>

definition m_bRootDir :: "fat_fs \<Rightarrow> u32 \<Rightarrow> bool" where
  "m_bRootDir fs clus \<longleftrightarrow> clus = 0 \<and> m_Type fs \<noteq> FAT32 \<or> m_Type fs = FAT32 \<and> clus = BPB_RootClus fs"

definition m_DirBlockSize :: "fat_fs \<Rightarrow> u32 \<Rightarrow> nat" where
  "m_DirBlockSize fs clus =
     (if clus = 0 \<and> m_Type fs \<noteq> FAT32 then unat (m_RootDirCount fs) * BPB_BytsPerSec fs else m_BlockSize fs)"

datatype fat_kind = Regular | Symlink | Subdirectory

record fat_node =
  node_name :: "u8 list"
  node_kind :: fat_kind
  node_file :: fat_file
  node_times :: "nat \<times> nat \<times> nat"

definition symlinkSuffix :: "u8 list" where
  "symlinkSuffix = [46, 95, 95, 115, 121, 109]"

section \<open>Long names\<close>

text \<open>Where the 13 characters of an entry are.\<close>

definition lfn_positions :: "nat list" where
  "lfn_positions = [1, 3, 5, 7, 9, 14, 16, 18, 20, 22, 24, 28, 30]"

fun store_chars :: "nat list \<Rightarrow> u8 list \<Rightarrow> u8 list \<Rightarrow> u8 list" where
  "store_chars (p # ps) (c # cs) e = store_chars ps cs (e[p := c])"
| "store_chars _ _ e = e"

definition lfn_entry :: "u8 \<Rightarrow> u8 list \<Rightarrow> u8 list" where
  "lfn_entry ord cs = store_chars lfn_positions cs ((replicate 32 0)[0 := ord, 11 := 0x0F])"

text \<open>The entries for the rest of a name, the one with its last characters first: \<open>n\<close> entries are
  left, \<open>first\<close> says that this is the first of them, and \<open>off\<close> characters of the name are not yet stored.\<close>

fun lfn_entries :: "u8 list \<Rightarrow> nat \<Rightarrow> bool \<Rightarrow> nat \<Rightarrow> u8 list list" where
  "lfn_entries name 0 first off = []"
| "lfn_entries name (Suc n) first off =
     (let ord = (if first then 0x40 OR of_nat (Suc n) else of_nat (Suc n));
          k = (if off \<ge> 13 then 13 else off)
      in lfn_entry ord (take k (drop (off - k) name)) # lfn_entries name n False (off - k))"

definition lfn_count :: "u8 list \<Rightarrow> nat" where
  "lfn_count name = (if name \<in> {[], [46], [46, 46]} then 0 else (length name + 12) div 13)"

definition short_entry :: "u8 list \<Rightarrow> u8 \<Rightarrow> u32 \<Rightarrow> u8 list" where
  "short_entry name attr clus =
     splice 20 (bytes16 (ucast (drop_bit 16 clus)))
       (splice 26 (bytes16 (ucast clus)) (splice 0 name ((replicate 32 0)[11 := attr])))"

section \<open>Adding an entry\<close>

text \<open>The first run of \<open>need\<close> free entries; the result is the offset of its last.\<close>

function find_slot :: "nat \<Rightarrow> u8 list \<Rightarrow> nat \<Rightarrow> nat \<Rightarrow> nat \<Rightarrow> nat option option" where
  "find_slot bs buf need offset consecutiveFree =
     (if offset < bs
      then if length buf \<le> offset then None
           else
             let consecutiveFree = (if buf ! offset = 0 \<or> buf ! offset = 0xE5 then consecutiveFree + 1 else 0)
             in if consecutiveFree = need then Some (Some offset) else find_slot bs buf need (offset + 32) consecutiveFree
      else Some None)"
  by auto
termination by (relation "measure (\<lambda>(bs, buf, need, offset, k). bs - offset)") auto

declare find_slot.simps [simp del]

partial_function (option) find_space ::
  "nat \<Rightarrow> u32 \<Rightarrow> u8 list \<Rightarrow> fat_fs \<Rightarrow> ((u32 \<times> nat \<times> u8 list) option \<times> fat_fs) option" where
  "find_space need clus buf fs = do {
     slot \<leftarrow> find_slot (m_BlockSize fs) buf need 0 0;
     (case slot of
        Some offset \<Rightarrow> Some (Some (clus, offset, buf), fs)
      | None \<Rightarrow>
          if m_Type fs \<noteq> FAT32 \<and> clus = 0 then Some (None, fs)
          else do {
            (next_clus, fs) \<leftarrow> getClusterEntry clus fs;
            (new_clus, fs) \<leftarrow>
              (if isEof fs next_clus
               then do {
                 (new, fs) \<leftarrow> findFreeCluster fs;
                 (if new = 0 then Some (0, fs)
                  else do {
                    (_, fs) \<leftarrow> setClusterEntry clus new fs;
                    (_, fs) \<leftarrow> setClusterEntry new (eofValue fs) fs;
                    Some (new, fs) }) }
               else Some (next_clus, fs));
            (if isEof fs next_clus \<and> new_clus = 0 then Some (None, fs)
             else do { buf \<leftarrow> readCluster fs new_clus; find_space need new_clus buf fs }) }) }"

text \<open>The buffer with the entries of a file stored so that the short one is at \<open>offset\<close>.\<close>

definition store_entries :: "u8 list \<Rightarrow> u8 \<Rightarrow> u32 \<Rightarrow> nat \<Rightarrow> u8 list \<Rightarrow> u8 list option" where
  "store_entries filename attr clus offset buf = do {
     let n = lfn_count filename;
     short \<leftarrow> convertFilenameTo filename;
     let es = lfn_entries filename n True (length filename) @ [short_entry short attr clus];
     (if n * 32 \<le> offset \<and> offset + 32 \<le> length buf then Some (splice (offset - n * 32) (concat es) buf) else None) }"

definition addEntry :: "u32 \<Rightarrow> u8 list \<Rightarrow> fat_file \<Rightarrow> bool \<Rightarrow> fat_fs \<Rightarrow> (fat_file option \<times> fat_fs) option" where
  "addEntry dir filename f type fs =
     (case readDirectoryPortion fs dir of
        None \<Rightarrow> None
      | Some None \<Rightarrow> Some (None, fs)
      | Some (Some buf) \<Rightarrow> do {
          (r, fs) \<leftarrow> find_space (lfn_count filename + 1) dir buf fs;
          (case r of
             None \<Rightarrow> Some (None, fs)
           | Some (clus, offset, buf) \<Rightarrow> do {
               buf \<leftarrow> store_entries filename (if type then 0x10 else 0) (m_Inode f) offset buf;
               fs \<leftarrow> writeDirectoryPortion clus buf fs;
               Some (Some (f\<lparr>m_DirClus := clus, m_DirOffset := offset\<rparr>), fs) }) })"

section \<open>Removing an entry\<close>

definition is_lfn :: "u8 list \<Rightarrow> bool" where
  "is_lfn e \<longleftrightarrow> e ! 11 AND 0x3F = 0x0F"

fun remove_lfn :: "nat \<Rightarrow> u32 \<Rightarrow> nat \<Rightarrow> fat_fs \<Rightarrow> fat_fs option" where
  "remove_lfn 0 dirClus offset fs = Some fs"
| "remove_lfn (Suc n) dirClus offset fs =
     (if offset < 32 then Some fs
      else
        (case getDirectoryEntry fs dirClus (offset - 32) of
           None \<Rightarrow> None
         | Some None \<Rightarrow> Some fs
         | Some (Some e) \<Rightarrow>
             if \<not> is_lfn e then Some fs
             else do {
               fs \<leftarrow> writeDirectoryEntry (e[0 := 0xE5]) dirClus (offset - 32) fs;
               remove_lfn n dirClus (offset - 32) fs }))"

definition removeEntry :: "u8 list \<Rightarrow> fat_kind \<Rightarrow> fat_file \<Rightarrow> fat_fs \<Rightarrow> (bool \<times> fat_fs) option" where
  "removeEntry name kind f fs =
     (let filename = (if kind = Symlink then name @ symlinkSuffix else name)
      in case getDirectoryEntry fs (m_DirClus f) (m_DirOffset f) of
           None \<Rightarrow> None
         | Some None \<Rightarrow> Some (False, fs)
         | Some (Some dir) \<Rightarrow> do {
             (ok, fs) \<leftarrow> (if m_DirOffset f \<ge> 32
                   then
                     (case getDirectoryEntry fs (m_DirClus f) (m_DirOffset f - 32) of
                        None \<Rightarrow> None
                      | Some None \<Rightarrow> Some (False, fs)
                      | Some (Some prev) \<Rightarrow>
                          if is_lfn prev
                          then map_option (Pair True) (remove_lfn (length filename div 13 + 1) (m_DirClus f) (m_DirOffset f) fs)
                          else Some (True, fs))
                   else Some (True, fs));
             (if \<not> ok then Some (False, fs)
              else do {
                fs \<leftarrow> writeDirectoryEntry (dir[0 := 0xE5]) (m_DirClus f) (m_DirOffset f) fs;
                Some (True, fs) }) })"

section \<open>Listing a directory\<close>

record lfn_state =
  longFileName :: "u8 list"
  longFileNameIndex :: int
  nextIsEnd :: bool

definition lfn_reset :: lfn_state where
  "lfn_reset = \<lparr>longFileName = [], longFileNameIndex = 0, nextIsEnd = False\<rparr>"

definition lfn_chars :: "u8 list \<Rightarrow> u8 list" where
  "lfn_chars e = takeWhile (\<lambda>c. c \<noteq> 0) (map (\<lambda>p. e ! p) lfn_positions)"

definition lfn_step :: "u8 list \<Rightarrow> lfn_state \<Rightarrow> lfn_state option" where
  "lfn_step e st = do {
     let i = (if e ! 0 AND 0x40 \<noteq> 0 then uint (e ! 0 XOR 0x40) else longFileNameIndex st);
     name \<leftarrow> ss_add (lfn_chars e) (longFileName st);
     let i' = (if i = 0 then 0 else i - 1);
     Some \<lparr>longFileName = name, longFileNameIndex = i',
           nextIsEnd = (nextIsEnd st \<or> i = 0 \<or> i' \<le> 1)\<rparr> }"

definition read_word :: "nat \<Rightarrow> u8 list \<Rightarrow> u16" where
  "read_word i e = le16 (e ! i) (e ! (i + 1))"

definition make_node :: "u32 \<Rightarrow> nat \<Rightarrow> u8 list \<Rightarrow> lfn_state \<Rightarrow> fat_node option" where
  "make_node clus i e st = do {
     let filename = (if nextIsEnd st then longFileName st else convertFilenameFrom (takeWhile (\<lambda>c. c \<noteq> 0) (take 11 e)));
     writeTime \<leftarrow> getUnixTimestamp (read_word 22 e) (read_word 24 e);
     accTime \<leftarrow> getUnixTimestamp 0 (read_word 18 e);
     createTime \<leftarrow> getUnixTimestamp (read_word 14 e) (read_word 16 e);
     let inode = le32 (DIR_FstClusLO e) (DIR_FstClusHI e);
     let times = (accTime, writeTime, createTime);
     Some
       (if e ! 11 AND 0x10 = 0x10
        then \<lparr>node_name = filename, node_kind = Subdirectory,
              node_file = \<lparr>m_Inode = inode, m_Size = 0, m_bIsDirectory = True, m_DirClus = 0, m_DirOffset = 0\<rparr>, node_times = times\<rparr>
        else
          let f = \<lparr>m_Inode = inode, m_Size = unat (DIR_FileSize e), m_bIsDirectory = False, m_DirClus = clus, m_DirOffset = i\<rparr>
          in if suffix symlinkSuffix filename
             then \<lparr>node_name = take (length filename - length symlinkSuffix) filename, node_kind = Symlink, node_file = f, node_times = times\<rparr>
             else \<lparr>node_name = filename, node_kind = Regular, node_file = f, node_times = times\<rparr>) }"

text \<open>One entry that is not the end of the directory.\<close>

definition list_entry :: "u32 \<Rightarrow> nat \<Rightarrow> u8 list \<Rightarrow> lfn_state \<Rightarrow> (fat_node list \<times> lfn_state) option" where
  "list_entry clus i e st =
     (if e ! 0 = 0xE5 then Some ([], lfn_reset)
      else if is_lfn e then map_option (Pair []) (lfn_step e st)
      else if e ! 11 \<noteq> 0x08 then do { n \<leftarrow> make_node clus i e st; Some ([n], lfn_reset) }
      else Some ([], lfn_reset))"

text \<open>The entries of one buffer; the first result says whether the end of the directory was met.\<close>

function list_buffer :: "u32 \<Rightarrow> nat \<Rightarrow> u8 list \<Rightarrow> nat \<Rightarrow> lfn_state \<Rightarrow> (bool \<times> fat_node list \<times> lfn_state) option" where
  "list_buffer clus sz buf i st =
     (if i < sz
      then if length buf < i + 32 then None
           else
             let e = take 32 (drop i buf)
             in if e ! 0 = 0 then Some (True, [], st)
                else do {
                  (ns, st) \<leftarrow> list_entry clus i e st;
                  (endOfDir, ms, st) \<leftarrow> list_buffer clus sz buf (i + 32) st;
                  Some (endOfDir, ns @ ms, st) }
      else Some (False, [], st))"
  by auto
termination by (relation "measure (\<lambda>(clus, sz, buf, i, st). sz - i)") auto

declare list_buffer.simps [simp del]

partial_function (option) list_clusters ::
  "nat \<Rightarrow> u32 \<Rightarrow> u8 list \<Rightarrow> lfn_state \<Rightarrow> fat_node list \<Rightarrow> fat_fs \<Rightarrow> (fat_node list \<times> fat_fs) option" where
  "list_clusters sz clus buf st acc fs = do {
     (endOfDir, ns, st) \<leftarrow> list_buffer clus sz buf 0 st;
     (if endOfDir \<or> clus = 0 \<and> m_Type fs \<noteq> FAT32 then Some (acc @ ns, fs)
      else do {
        (clus, fs) \<leftarrow> getClusterEntry clus fs;
        (if clus = 0 \<or> isEof fs clus then Some (acc @ ns, fs)
         else do { buf \<leftarrow> readCluster fs clus; list_clusters sz clus buf st (acc @ ns) fs }) }) }"

definition dot_node :: "u32 \<Rightarrow> fat_node" where
  "dot_node clus =
     \<lparr>node_name = [46], node_kind = Subdirectory,
      node_file = \<lparr>m_Inode = clus, m_Size = 0, m_bIsDirectory = True, m_DirClus = 0, m_DirOffset = 0\<rparr>, node_times = (0, 0, 0)\<rparr>"

definition cacheDirectoryContents :: "u32 \<Rightarrow> fat_fs \<Rightarrow> (fat_node list \<times> fat_fs) option" where
  "cacheDirectoryContents dir fs =
     (let root = (if m_bRootDir fs dir then [dot_node dir] else [])
      in case readDirectoryPortion fs dir of
           None \<Rightarrow> None
         | Some None \<Rightarrow> Some (root, fs)
         | Some (Some buf) \<Rightarrow> list_clusters (m_DirBlockSize fs dir) dir buf lfn_reset root fs)"

section \<open>Making and removing files\<close>

text \<open>Writing zeros over the clusters of a new directory.\<close>

partial_function (option) clear_clusters :: "u32 \<Rightarrow> fat_fs \<Rightarrow> fat_fs option" where
  "clear_clusters clus fs = do {
     fs \<leftarrow> writeCluster clus (replicate (m_BlockSize fs) 0) fs;
     (clus, fs) \<leftarrow> getClusterEntry clus fs;
     (if isEof fs clus then Some fs else clear_clusters clus fs) }"

definition new_file :: "u32 \<Rightarrow> bool \<Rightarrow> fat_file" where
  "new_file clus directory =
     \<lparr>m_Inode = clus, m_Size = 0, m_bIsDirectory = directory,
      m_DirClus = (if directory then 0 else 0xdeadbeef), m_DirOffset = (if directory then 0 else 0xbeefdead)\<rparr>"

definition create :: "fat_file \<Rightarrow> u8 list \<Rightarrow> bool \<Rightarrow> u32 \<Rightarrow> fat_fs \<Rightarrow> (fat_file option \<times> fat_fs) option" where
  "create parent filename bDirectory dirClus fs =
     (if \<not> m_bIsDirectory parent then Some (None, fs)
      else do {
        (f, fs) \<leftarrow>
          (if bDirectory then do { fs \<leftarrow> clear_clusters dirClus fs; Some (new_file dirClus True, fs) }
           else do {
             (clus, fs) \<leftarrow> findFreeCluster fs;
             (_, fs) \<leftarrow> setClusterEntry clus (eofValue fs) fs;
             Some (new_file clus False, fs) });
        addEntry (m_Inode parent) filename f bDirectory fs })"

definition createFile :: "fat_file \<Rightarrow> u8 list \<Rightarrow> fat_fs \<Rightarrow> (bool \<times> fat_fs) option" where
  "createFile parent filename fs = map_option (\<lambda>(f, fs). (f \<noteq> None, fs)) (create parent filename False 0 fs)"

definition remove :: "u8 list \<Rightarrow> fat_kind \<Rightarrow> fat_file \<Rightarrow> fat_fs \<Rightarrow> (bool \<times> fat_fs) option" where
  "remove name kind f fs = do {
     (ok, fs) \<leftarrow> removeEntry name kind f fs;
     (if \<not> ok then Some (False, fs) else map_option (Pair True) (remove_clusters f fs)) }"

definition createDirectory :: "fat_file \<Rightarrow> u8 list \<Rightarrow> fat_fs \<Rightarrow> (bool \<times> fat_fs) option" where
  "createDirectory parent filename fs = do {
     (clus, fs) \<leftarrow> findFreeCluster fs;
     (if clus = 0 then Some (False, fs)
      else do {
        (f, fs) \<leftarrow> create parent filename True clus fs;
        (case f of
           None \<Rightarrow> do { (_, fs) \<leftarrow> setClusterEntry clus 0 fs; Some (False, fs) }
         | Some f \<Rightarrow> do {
             (_, fs) \<leftarrow> setClusterEntry clus (eofValue fs) fs;
             let f = f\<lparr>m_Inode := clus\<rparr>;
             fs \<leftarrow> setCluster f clus fs;
             (dot, fs) \<leftarrow> create f [46] True clus fs;
             (dotdot, fs) \<leftarrow> create f [46, 46] True (m_Inode parent) fs;
             (case (dot, dotdot) of
                (Some d, Some e) \<Rightarrow> do {
                  fs \<leftarrow> setCluster d (m_Inode d) fs;
                  fs \<leftarrow> setCluster e (m_Inode e) fs;
                  Some (True, fs) }
              | _ \<Rightarrow> do {
                  fs \<leftarrow> (case dot of None \<Rightarrow> Some fs | Some d \<Rightarrow> map_option snd (remove [46] Subdirectory d fs));
                  fs \<leftarrow> (case dotdot of None \<Rightarrow> Some fs | Some e \<Rightarrow> map_option snd (remove [46, 46] Subdirectory e fs));
                  (_, fs) \<leftarrow> remove filename Subdirectory f fs;
                  Some (False, fs) }) }) }) }"

text \<open>The target of a link is written through the virtual file system, the argument \<open>vfs_write\<close>.\<close>

definition createSymlink ::
  "(fat_file \<Rightarrow> nat \<Rightarrow> u8 list \<Rightarrow> fat_fs \<Rightarrow> fat_fs option) \<Rightarrow> fat_file \<Rightarrow> u8 list \<Rightarrow> u8 list \<Rightarrow> fat_fs \<Rightarrow> (bool \<times> fat_fs) option" where
  "createSymlink vfs_write parent filename target fs =
     (if \<not> m_bIsDirectory parent then Some (False, fs)
      else do {
        (clus, fs) \<leftarrow> findFreeCluster fs;
        (_, fs) \<leftarrow> setClusterEntry clus (eofValue fs) fs;
        (f, fs) \<leftarrow> addEntry (m_Inode parent) (filename @ symlinkSuffix) (new_file clus False) False fs;
        (case f of
           None \<Rightarrow> Some (False, fs)
         | Some f \<Rightarrow> map_option (Pair True) (vfs_write f 0 target fs)) })"

end
