(* ===== verification/Fat_Listing.thy ===== *)
theory Fat_Listing
  imports Fat_Directory Fat_Writing
begin

text \<open>The directory as a list of entries of 32 bytes: where a new entry goes, what listing the entries gives, and that
  a long name is read as it was stored.\<close>

section \<open>Lists of entries\<close>

lemma length_concat_32: "\<forall>e \<in> set es. length e = 32 \<Longrightarrow> length (concat es) = 32 * length es"
  by (induction es) auto

lemma drop_concat_32: "\<forall>e \<in> set es. length e = 32 \<Longrightarrow> k \<le> length es \<Longrightarrow> drop (32 * k) (concat es) = concat (drop k es)"
proof (induction k arbitrary: es)
  case (Suc k)
  then obtain e es' where "es = e # es'" by (cases es) auto
  with Suc show ?case by simp
qed simp

lemma take_concat_32: "\<forall>e \<in> set es. length e = 32 \<Longrightarrow> k \<le> length es \<Longrightarrow> take (32 * k) (concat es) = concat (take k es)"
proof (induction k arbitrary: es)
  case (Suc k)
  then obtain e es' where "es = e # es'" by (cases es) auto
  with Suc show ?case by simp
qed simp

lemma nth_concat_32: "\<forall>e \<in> set es. length e = 32 \<Longrightarrow> k < length es \<Longrightarrow> j < 32 \<Longrightarrow> concat es ! (32 * k + j) = es ! k ! j"
proof -
  assume a: "\<forall>e \<in> set es. length e = 32" "k < length es" "j < 32"
  have "concat es ! (32 * k + j) = drop (32 * k) (concat es) ! j" using a by (simp add: length_concat_32)
  also have "\<dots> = concat (es ! k # drop (Suc k) es) ! j" using a by (simp add: drop_concat_32 Cons_nth_drop_Suc)
  also have "\<dots> = es ! k ! j" using a by (simp add: nth_append)
  finally show ?thesis .
qed

lemma splice_concat:
  assumes "\<forall>e \<in> set (A @ F @ B). length e = 32" "\<forall>e \<in> set N. length e = 32" "length N = length F"
  shows "splice (32 * length A) (concat N) (concat (A @ F @ B)) = concat (A @ N @ B)"
proof -
  have "take (32 * length A) (concat (A @ F @ B)) = concat A" using take_concat_32 [OF assms(1), of "length A"] by simp
  moreover have "drop (32 * (length A + length F)) (concat (A @ F @ B)) = concat B"
    using drop_concat_32 [OF assms(1), of "length A + length F"] by simp
  moreover have "length (concat N) = 32 * length F" using length_concat_32 [OF assms(2)] assms(3) by simp
  ultimately show ?thesis by (simp add: splice_def algebra_simps)
qed

section \<open>Free entries\<close>

definition free_entry :: "u8 list \<Rightarrow> bool" where
  "free_entry e \<longleftrightarrow> e ! 0 = 0 \<or> e ! 0 = 0xE5"

lemma find_slot_run:
  assumes "\<forall>e \<in> set es. length e = 32" "find_slot (32 * length es) (concat es) need (32 * i) k = Some (Some offset)"
    and "i \<le> length es" "k \<le> i" "k < need" "\<forall>e \<in> set (drop (i - k) (take i es)). free_entry e"
    and "i = k \<or> \<not> free_entry (es ! (i - k - 1))"
  shows "\<exists>A F B. es = A @ F @ B \<and> length F = need \<and> (\<forall>e \<in> set F. free_entry e) \<and> offset = 32 * (length A + need - 1) \<and>
    (A = [] \<or> \<not> free_entry (last A))"
  using assms(2-)
proof (induction "length es - i" arbitrary: i k)
  case 0
  then show ?case by (subst (asm) find_slot.simps) simp
next
  case (Suc n)
  then have i: "i < length es" by simp
  have nth: "concat es ! (32 * i) = es ! i ! 0" using nth_concat_32 [OF assms(1) i, of 0] by simp
  have len: "32 * i < length (concat es)" using length_concat_32 [OF assms(1)] i by simp
  let ?k = "if free_entry (es ! i) then k + 1 else 0"
  have step: "(if ?k = need then Some (Some (32 * i)) else find_slot (32 * length es) (concat es) need (32 * Suc i) ?k) = Some (Some offset)"
    using Suc.prems(1) i len by (subst (asm) find_slot.simps) (auto simp: Let_def nth free_entry_def add.commute split: if_splits)
  show ?case
  proof (cases "?k = need")
    case True
    then have f: "free_entry (es ! i)" "k + 1 = need" "offset = 32 * i" using step Suc.prems(4) by (auto split: if_splits)
    let ?F = "drop (i - k) (take (Suc i) es)"
    have F: "?F = drop (i - k) (take i es) @ [es ! i]" using i Suc.prems(3) by (simp add: take_Suc_conv_app_nth)
    have "es = take (i - k) es @ ?F @ drop (Suc i) es"
      by (metis append.assoc append_take_drop_id take_take min.absorb1 diff_le_self le_SucI)
    moreover have "length ?F = need" using i f(2) Suc.prems(3) by simp
    moreover have "take (i - k) es = [] \<or> \<not> free_entry (last (take (i - k) es))"
    proof (cases "i = k")
      case False
      then have "i - k \<noteq> 0" "i - k \<le> length es" using Suc.prems(3) i by auto
      then have "last (take (i - k) es) = es ! (i - k - 1)" by (subst last_conv_nth) (auto simp: min_absorb2)
      then show ?thesis using Suc.prems(6) False by simp
    qed simp
    moreover have "\<forall>e \<in> set ?F. free_entry e" unfolding F using f(1) Suc.prems(5) by simp
    moreover have "offset = 32 * (length (take (i - k) es) + need - 1)" using f(2,3) Suc.prems(3) i by simp
    ultimately show ?thesis
      by (intro exI [of _ "take (i - k) es"] exI [of _ ?F] exI [of _ "drop (Suc i) es"] conjI)
  next
    case False
    have "drop (Suc i - ?k) (take (Suc i) es) = (if free_entry (es ! i) then drop (i - k) (take i es) @ [es ! i] else [])"
      using i Suc.prems(3) by (auto simp: take_Suc_conv_app_nth)
    then have r: "\<forall>e \<in> set (drop (Suc i - ?k) (take (Suc i) es)). free_entry e" using Suc.prems(5) by auto
    have e: "Suc i = ?k \<or> \<not> free_entry (es ! (Suc i - ?k - 1))" using Suc.prems(6) by auto
    have h: "find_slot (32 * length es) (concat es) need (32 * Suc i) ?k = Some (Some offset)"
      using step unfolding if_not_P [OF False] .
    have b: "n = length es - Suc i" "Suc i \<le> length es" "?k \<le> Suc i" "?k < need" using Suc.hyps(2) i Suc.prems(3,4) False by auto
    show ?thesis by (rule Suc.hyps(1) [OF b(1) h b(2-4) r e])
  qed
qed

section \<open>Listing entries\<close>

fun list_entries :: "u32 \<Rightarrow> nat \<Rightarrow> u8 list list \<Rightarrow> lfn_state \<Rightarrow> (bool \<times> fat_node list \<times> lfn_state) option" where
  "list_entries clus k [] st = Some (False, [], st)"
| "list_entries clus k (e # es) st =
     (if e ! 0 = 0 then Some (True, [], st)
      else do {
        (ns, st) \<leftarrow> list_entry clus (32 * k) e st;
        (endOfDir, ms, st) \<leftarrow> list_entries clus (k + 1) es st;
        Some (endOfDir, ns @ ms, st) })"

lemma list_buffer_entries:
  assumes "\<forall>e \<in> set es. length e = 32" "k \<le> length es"
  shows "list_buffer clus (32 * length es) (concat es) (32 * k) st = list_entries clus k (drop k es) st"
  using assms(2)
proof (induction "length es - k" arbitrary: k st)
  case 0
  then show ?case by (subst list_buffer.simps) simp
next
  case (Suc n)
  then have k: "k < length es" by simp
  have e: "take 32 (drop (32 * k) (concat es)) = es ! k"
    using drop_concat_32 [OF assms(1), of k] assms(1) k by (simp flip: Cons_nth_drop_Suc)
  have len: "\<not> length (concat es) < 32 * k + 32" using length_concat_32 [OF assms(1)] k by simp
  have IH: "list_buffer clus (32 * length es) (concat es) (32 * k + 32) st = list_entries clus (k + 1) (drop (k + 1) es) st" for st
    using Suc.hyps(1) [of "Suc k"] Suc.hyps(2) k by (simp add: algebra_simps)
  have d: "drop k es = es ! k # drop (k + 1) es" using k by (simp add: Cons_nth_drop_Suc)
  show ?case using k len by (subst list_buffer.simps) (simp add: e IH d Let_def)
qed

lemma list_entries_append:
  "list_entries clus k A st = Some (False, ns, st') \<Longrightarrow>
     list_entries clus k (A @ C) st = map_option (\<lambda>(b, ms, st). (b, ns @ ms, st)) (list_entries clus (k + length A) C st')"
proof (induction A arbitrary: k st ns)
  case (Cons e A)
  then obtain ns1 st1 ms where "e ! 0 \<noteq> 0" "list_entry clus (32 * k) e st = Some (ns1, st1)"
    "list_entries clus (k + 1) A st1 = Some (False, ms, st')" "ns = ns1 @ ms"
    by (auto simp: bind_eq_Some_conv split: if_splits)
  with Cons.IH [of "k + 1" st1 ms] show ?case
    by (cases "list_entries clus (Suc (k + length A)) C st'") auto
qed (simp add: option.map_id)

section \<open>Long names\<close>

lemma length_store_chars [simp]: "length (store_chars ps cs e) = length e"
  by (induction ps cs e rule: store_chars.induct) auto

lemma store_chars_other: "q \<notin> set ps \<Longrightarrow> store_chars ps cs e ! q = e ! q"
  by (induction ps cs e rule: store_chars.induct) auto

lemma store_chars_at:
  "distinct ps \<Longrightarrow> \<forall>p \<in> set ps. p < length e \<Longrightarrow> length cs \<le> length ps \<Longrightarrow>
     map ((!) (store_chars ps cs e)) ps = cs @ map ((!) e) (drop (length cs) ps)"
proof (induction ps cs e rule: store_chars.induct)
  case (1 p ps c cs e)
  have "store_chars ps cs (e[p := c]) ! p = c" using "1.prems" by (simp add: store_chars_other)
  moreover have "map ((!) (e[p := c])) (drop (length cs) ps) = map ((!) e) (drop (length cs) ps)"
    by (intro map_cong refl) (use "1.prems"(1) in \<open>metis distinct.simps(2) in_set_dropD nth_list_update_neq\<close>)
  ultimately show ?case using 1 by simp
qed auto

lemma lfn_entry_simps:
  assumes "0 \<notin> set cs" "length cs \<le> 13"
  shows "length (lfn_entry ord cs) = 32" "lfn_entry ord cs ! 0 = ord" "is_lfn (lfn_entry ord cs)" "lfn_chars (lfn_entry ord cs) = cs"
proof -
  let ?e = "(replicate 32 0)[0 := ord, 11 := 0x0F]"
  show "length (lfn_entry ord cs) = 32" by (simp add: lfn_entry_def)
  show "lfn_entry ord cs ! 0 = ord" by (simp add: lfn_entry_def store_chars_other lfn_positions_def)
  show "is_lfn (lfn_entry ord cs)" by (simp add: is_lfn_def lfn_entry_def store_chars_other lfn_positions_def)
  have "map ((!) (lfn_entry ord cs)) lfn_positions = cs @ map ((!) ?e) (drop (length cs) lfn_positions)"
    unfolding lfn_entry_def by (rule store_chars_at) (use assms(2) in \<open>simp_all add: lfn_positions_def\<close>)
  also have "map ((!) ?e) (drop (length cs) lfn_positions) = drop (length cs) (map ((!) ?e) lfn_positions)" by (simp add: drop_map)
  also have "map ((!) ?e) lfn_positions = replicate 13 0" by (simp add: lfn_positions_def numeral_eq_Suc)
  finally have "map ((!) (lfn_entry ord cs)) lfn_positions = cs @ replicate (13 - length cs) 0" by simp
  then have "lfn_chars (lfn_entry ord cs) = takeWhile (\<lambda>c. c \<noteq> 0) (cs @ replicate (13 - length cs) 0)" by (simp add: lfn_chars_def)
  also have "\<dots> = cs" using assms(1) by (subst takeWhile_append2) auto
  finally show "lfn_chars (lfn_entry ord cs) = cs" .
qed

text \<open>The entries of a name, met in the state in which the rest of the name was read, give the whole name.\<close>

lemma ord_facts:
  assumes "1 \<le> n" "n \<le> 5"
  shows "(of_nat n :: u8) \<noteq> 0" "(of_nat n :: u8) \<noteq> 0xE5" "(of_nat n :: u8) AND 0x40 = 0"
    "(0x40 OR of_nat n :: u8) \<noteq> 0" "(0x40 OR of_nat n :: u8) \<noteq> 0xE5" "(0x40 OR of_nat n :: u8) AND 0x40 \<noteq> 0"
    "uint ((0x40 OR of_nat n :: u8) XOR 0x40) = int n"
proof -
  have "n = 1 \<or> n = 2 \<or> n = 3 \<or> n = 4 \<or> n = 5" using assms by auto
  then show "(of_nat n :: u8) \<noteq> 0" "(of_nat n :: u8) \<noteq> 0xE5" "(of_nat n :: u8) AND 0x40 = 0"
    "(0x40 OR of_nat n :: u8) \<noteq> 0" "(0x40 OR of_nat n :: u8) \<noteq> 0xE5" "(0x40 OR of_nat n :: u8) AND 0x40 \<noteq> 0"
    "uint ((0x40 OR of_nat n :: u8) XOR 0x40) = int n" by auto
qed

lemma list_lfn_entries:
  assumes "0 \<notin> set name" "length name \<le> 63" "off \<le> length name" "off \<le> 13 * n" "13 * n < off + 13" "n \<le> 5"
    and "longFileName st = drop off name" "n = 0 \<longrightarrow> nextIsEnd st" "first \<or> longFileNameIndex st = int n"
  shows "\<exists>st'. list_entries clus k (lfn_entries name n first off) st = Some (False, [], st') \<and>
    longFileName st' = name \<and> nextIsEnd st'"
  using assms(3-)
proof (induction n arbitrary: first off st k)
  case 0
  then show ?case by simp
next
  case (Suc n)
  define m where "m = (if off \<ge> 13 then 13 else off)"
  define cs where "cs = take m (drop (off - m) name)"
  define ord :: u8 where "ord = (if first then 0x40 OR of_nat (Suc n) else of_nat (Suc n))"
  have m: "m \<le> 13" "m \<le> off" "off - m \<le> 13 * n" "13 * n < off - m + 13"
    using Suc.prems(2,3) by (auto simp: m_def)
  have cs: "0 \<notin> set cs" "length cs \<le> 13" using assms(1) m(1) by (auto simp: cs_def dest: in_set_takeD in_set_dropD)
  note e = lfn_entry_simps [OF cs]
  have name: "cs @ drop off name = drop (off - m) name"
    using Suc.prems(1) m(2) append_take_drop_id [of m "drop (off - m) name"] by (simp add: cs_def)
  have o1: "ord \<noteq> 0" "ord \<noteq> 0xE5" using ord_facts [of "Suc n"] Suc.prems(4) by (auto simp: ord_def)
  have idx: "(if ord AND 0x40 \<noteq> 0 then uint (ord XOR 0x40) else longFileNameIndex st) = int (Suc n)"
    using ord_facts [of "Suc n"] Suc.prems(4,7) by (auto simp: ord_def)
  have "length (cs @ drop off name) < 64" unfolding name using assms(2) by simp
  then have "length cs + length (drop off name) < 64" by (simp only: length_append)
  then have add: "ss_add cs (longFileName st) = Some (drop (off - m) name)"
    unfolding ss_add_def Suc.prems(5) using name by simp
  let ?st = "\<lparr>longFileName = drop (off - m) name, longFileNameIndex = int n, nextIsEnd = (nextIsEnd st \<or> int n \<le> 1)\<rparr>"
  have "lfn_step (lfn_entry ord cs) st = Some ?st"
    by (simp only: lfn_step_def e idx add Let_def) simp
  then have step: "list_entry clus (32 * k) (lfn_entry ord cs) st = Some ([], ?st)"
    using o1 by (simp add: list_entry_def e)
  have "off - m \<le> length name" using Suc.prems(1) by linarith
  then obtain st' where st': "list_entries clus (k + 1) (lfn_entries name n False (off - m)) ?st = Some (False, [], st')"
    "longFileName st' = name" "nextIsEnd st'"
    using Suc.IH [of "off - m" ?st False "k + 1"] Suc.prems(1,4) m(3,4) by auto
  have "lfn_entries name (Suc n) first off = lfn_entry ord cs # lfn_entries name n False (off - m)"
    by (simp only: lfn_entries.simps Let_def ord_def cs_def m_def)
  then show ?case using step st' o1 e(2) by simp
qed

lemma length_lfn_entries [simp]: "length (lfn_entries name n first off) = n"
  by (induction name n first off rule: lfn_entries.induct) (auto simp: Let_def)

lemma lfn_entries_32: "\<forall>e \<in> set (lfn_entries name n first off). length e = 32"
  by (induction name n first off rule: lfn_entries.induct) (auto simp: Let_def lfn_entry_def)

end
