(* ===== verification/Fat_Adding.thy ===== *)
theory Fat_Adding
  imports Fat_Listing
begin

text \<open>Adding an entry to a directory of one cluster: the listing afterwards is the listing before with the new file in
  it, and the other clusters of the volume stay as they were.\<close>

section \<open>The short entry\<close>

lemma short_entry_simps:
  assumes "length s = 11"
  shows "length (short_entry s attr clus) = 32" "short_entry s attr clus ! 0 = s ! 0" "short_entry s attr clus ! 11 = attr"
    "DIR_FstClusLO (short_entry s attr clus) = ucast clus" "DIR_FstClusHI (short_entry s attr clus) = ucast (drop_bit 16 clus)"
    "DIR_FileSize (short_entry s attr clus) = 0" "\<forall>i \<in> {14, 16, 18, 22, 24}. read_word i (short_entry s attr clus) = 0"
proof -
  let ?a = "(replicate 32 0)[11 := attr]" and ?e = "short_entry s attr clus"
  define b where "b = splice 0 s ?a"
  define c where "c = splice 26 (bytes16 (ucast clus)) b"
  have lb: "length b = 32" using assms by (simp add: b_def splice_def)
  have lc: "length c = 32" using lb by (simp add: c_def splice_def)
  have e: "?e = splice 20 (bytes16 (ucast (drop_bit 16 clus))) c" by (simp add: short_entry_def c_def b_def)
  show "length ?e = 32" using lc by (simp add: e splice_def)
  have nb: "j < 32 \<Longrightarrow> b ! j = (if j < 11 then s ! j else if j = 11 then attr else 0)" for j
    using nth_splice [of 0 s ?a j] assms by (auto simp: b_def nth_list_update)
  have nc: "j < 32 \<Longrightarrow> c ! j = (if j = 26 \<or> j = 27 then bytes16 (ucast clus) ! (j - 26) else b ! j)" for j
    using nth_splice [of 26 "bytes16 (ucast clus)" b j] lb by (auto simp: c_def)
  have ne: "j < 32 \<Longrightarrow> ?e ! j = (if j = 20 \<or> j = 21 then bytes16 (ucast (drop_bit 16 clus)) ! (j - 20) else c ! j)" for j
    using nth_splice [of 20 "bytes16 (ucast (drop_bit 16 clus))" c j] lc by (auto simp: e)
  show "?e ! 0 = s ! 0" "?e ! 11 = attr" by (simp_all add: ne nc nb)
  show "DIR_FstClusLO ?e = ucast clus" by (simp add: DIR_FstClusLO_def ne nc bytes16_def le16_bytes)
  show "DIR_FstClusHI ?e = ucast (drop_bit 16 clus)" by (simp add: DIR_FstClusHI_def ne bytes16_def le16_bytes)
  have z: "le16 0 0 = 0" "le32 0 0 = 0" by (simp_all add: le16_def le32_def)
  show "DIR_FileSize ?e = 0" by (simp add: DIR_FileSize_def ne nc nb z)
  show "\<forall>i \<in> {14, 16, 18, 22, 24}. read_word i ?e = 0" by (simp add: read_word_def ne nc nb z)
qed

text \<open>The node that a new entry is listed as.\<close>

definition new_node :: "u8 list \<Rightarrow> bool \<Rightarrow> u32 \<Rightarrow> nat \<Rightarrow> u32 \<Rightarrow> fat_node" where
  "new_node name directory clus i inode =
     (if directory
      then \<lparr>node_name = name, node_kind = Subdirectory,
            node_file = \<lparr>m_Inode = inode, m_Size = 0, m_bIsDirectory = True, m_DirClus = 0, m_DirOffset = 0\<rparr>, node_times = (0, 0, 0)\<rparr>
      else
        let f = \<lparr>m_Inode = inode, m_Size = 0, m_bIsDirectory = False, m_DirClus = clus, m_DirOffset = i\<rparr>
        in if suffix symlinkSuffix name
           then \<lparr>node_name = take (length name - length symlinkSuffix) name, node_kind = Symlink, node_file = f, node_times = (0, 0, 0)\<rparr>
           else \<lparr>node_name = name, node_kind = Regular, node_file = f, node_times = (0, 0, 0)\<rparr>)"

lemma list_short_entry:
  assumes "length s = 11" "s ! 0 \<noteq> 0xE5" "longFileName st = name" "nextIsEnd st"
  shows "list_entry clus i (short_entry s (if t then 0x10 else 0) inode) st = Some ([new_node name t clus i inode], lfn_reset)"
proof -
  let ?attr = "if t then 0x10 else 0 :: u8"
  let ?e = "short_entry s ?attr inode"
  note e = short_entry_simps [OF assms(1), of ?attr inode]
  have ts: "getUnixTimestamp 0 0 = Some 0" by (simp add: getUnixTimestamp_def)
  have w: "read_word 14 ?e = 0" "read_word 16 ?e = 0" "read_word 18 ?e = 0" "read_word 22 ?e = 0" "read_word 24 ?e = 0" using e(7) by simp_all
  have inode: "le32 (DIR_FstClusLO ?e) (DIR_FstClusHI ?e) = inode" unfolding e(4,5) by (rule le32_words)
  have n: "make_node clus i ?e st = Some (new_node name t clus i inode)"
    unfolding make_node_def w ts inode e(3,6) using assms(3,4) by (simp add: new_node_def Let_def)
  have "\<not> is_lfn ?e" "?e ! 11 \<noteq> 8" by (simp_all add: is_lfn_def e(3))
  then show ?thesis using n assms(2) by (simp add: list_entry_def e(2))
qed

section \<open>The entries of a file\<close>

definition long_name :: "u8 list \<Rightarrow> bool" where
  "long_name name \<longleftrightarrow> name \<notin> {[], [46], [46, 46]} \<and> 0 \<notin> set name \<and> length name \<le> 63"

definition file_entries :: "u8 list \<Rightarrow> u8 list \<Rightarrow> bool \<Rightarrow> u32 \<Rightarrow> u8 list list" where
  "file_entries name s t inode = lfn_entries name (lfn_count name) True (length name) @ [short_entry s (if t then 0x10 else 0) inode]"

lemma length_file_entries [simp]: "length (file_entries name s t inode) = lfn_count name + 1"
  by (simp add: file_entries_def)

lemma file_entries_32: "length s = 11 \<Longrightarrow> \<forall>e \<in> set (file_entries name s t inode). length e = 32"
  using lfn_entries_32 [of name "lfn_count name" True "length name"] short_entry_simps(1) by (auto simp: file_entries_def)

lemma list_file_entries:
  assumes "long_name name" "length s = 11" "s ! 0 \<noteq> 0" "s ! 0 \<noteq> 0xE5"
  shows "list_entries clus k (file_entries name s t inode @ B) lfn_reset =
    map_option (\<lambda>(b, ms, st). (b, new_node name t clus (32 * (k + lfn_count name)) inode # ms, st)) (list_entries clus (k + lfn_count name + 1) B lfn_reset)"
proof -
  let ?n = "lfn_count name" and ?e = "short_entry s (if t then 0x10 else 0) inode"
  have n: "?n = (length name + 12) div 13" "1 \<le> length name" "length name \<le> 63" "0 \<notin> set name"
    using assms(1) by (auto simp: long_name_def lfn_count_def Suc_le_eq)
  then have b: "length name \<le> 13 * ?n" "13 * ?n < length name + 13" "?n \<le> 5" "?n \<noteq> 0" by (simp_all add: div_le_mono)
  from list_lfn_entries [OF n(4,3) le_refl b(1-3), of lfn_reset True clus k] obtain st where
    st: "list_entries clus k (lfn_entries name ?n True (length name)) lfn_reset = Some (False, [], st)" "longFileName st = name" "nextIsEnd st"
    using b(4) by (auto simp: lfn_reset_def)
  have "list_entries clus (k + ?n) (?e # B) st =
      map_option (\<lambda>(b, ms, st). (b, new_node name t clus (32 * (k + ?n)) inode # ms, st)) (list_entries clus (k + ?n + 1) B lfn_reset)"
    using list_short_entry [OF assms(2,4) st(2,3), of clus "32 * (k + ?n)" t inode] assms(3) short_entry_simps(2) [OF assms(2)]
    by (cases "list_entries clus (Suc (k + ?n)) B lfn_reset") (auto simp: algebra_simps)
  then show ?thesis using list_entries_append [OF st(1), of "?e # B"]
    by (cases "list_entries clus (k + ?n + 1) B lfn_reset") (auto simp: file_entries_def)
qed

section \<open>Tidy directories\<close>

text \<open>Every free entry is reached with no long name pending, and behind the first end mark there are only end marks.\<close>

definition tidy :: "u32 \<Rightarrow> u8 list list \<Rightarrow> bool" where
  "tidy clus es \<longleftrightarrow> (\<forall>e \<in> set es. length e = 32) \<and>
     (\<forall>i < length es. \<forall>j < length es. i \<le> j \<and> es ! i ! 0 = 0 \<longrightarrow> es ! j ! 0 = 0) \<and>
     (\<forall>k < length es. free_entry (es ! k) \<and> (\<forall>j < k. es ! j ! 0 \<noteq> 0) \<longrightarrow>
        (\<exists>ns. list_entries clus 0 (take k es) lfn_reset = Some (False, ns, lfn_reset))) \<and>
     list_entries clus 0 es lfn_reset \<noteq> None"

lemma list_free:
  "\<forall>e \<in> set F. free_entry e \<Longrightarrow>
     list_entries clus k F lfn_reset = Some (\<exists>e \<in> set F. e ! 0 = 0, [], lfn_reset)"
  by (induction F arbitrary: k) (auto simp: free_entry_def list_entry_def)

lemma list_end: "\<forall>e \<in> set B. e ! 0 = 0 \<Longrightarrow> list_entries clus k B st = Some (B \<noteq> [], [], st)"
  by (cases B) auto

lemma tidy_insert:
  assumes "tidy clus (A @ F @ B)" "\<forall>e \<in> set F. free_entry e" "F \<noteq> []" "A = [] \<or> \<not> free_entry (last A)"
    and "long_name name" "length s = 11" "s ! 0 \<noteq> 0" "s ! 0 \<noteq> 0xE5" "length F = lfn_count name + 1"
  shows "\<exists>as bs b st b' st'. list_entries clus 0 (A @ F @ B) lfn_reset = Some (b, as @ bs, st) \<and>
    list_entries clus 0 (A @ file_entries name s t inode @ B) lfn_reset =
      Some (b', as @ new_node name t clus (32 * (length A + lfn_count name)) inode # bs, st')"
proof -
  let ?es = "A @ F @ B" and ?k = "length A" and ?n = "lfn_count name"
  have zero: "?es ! j ! 0 = 0" if "i < length ?es" "j < length ?es" "i \<le> j" "?es ! i ! 0 = 0" for i j
    using assms(1) that unfolding tidy_def by blast
  have A_used: "\<forall>j < ?k. ?es ! j ! 0 \<noteq> 0"
  proof (intro allI impI notI)
    fix j assume j: "j < ?k" "?es ! j ! 0 = 0"
    then have "A \<noteq> []" by auto
    then have "last A = ?es ! (?k - 1)" by (simp add: last_conv_nth nth_append)
    moreover have "?es ! (?k - 1) ! 0 = 0" using zero [of j "?k - 1"] j by auto
    ultimately show False using assms(4) \<open>A \<noteq> []\<close> by (simp add: free_entry_def)
  qed
  have "free_entry (?es ! ?k)" "?k < length ?es" using assms(2,3) by (auto simp: nth_append hd_conv_nth)
  with assms(1) A_used have "\<exists>ns. list_entries clus 0 (take ?k ?es) lfn_reset = Some (False, ns, lfn_reset)"
    unfolding tidy_def by blast
  then obtain as where as: "list_entries clus 0 A lfn_reset = Some (False, as, lfn_reset)" by auto
  note ap = list_entries_append [OF as]
  have old: "list_entries clus 0 ?es lfn_reset = map_option (\<lambda>(b, ms, st). (b, as @ ms, st)) (list_entries clus ?k (F @ B) lfn_reset)"
    using ap [of "F @ B"] by simp
  have new: "list_entries clus 0 (A @ file_entries name s t inode @ B) lfn_reset =
      map_option (\<lambda>(b, ms, st). (b, as @ new_node name t clus (32 * (?k + ?n)) inode # ms, st)) (list_entries clus (?k + ?n + 1) B lfn_reset)"
    using ap [of "file_entries name s t inode @ B"] list_file_entries [OF assms(5-8), of clus ?k t inode B]
    by (cases "list_entries clus (?k + ?n + 1) B lfn_reset") auto
  show ?thesis
  proof (cases "\<exists>e \<in> set F. e ! 0 = 0")
    case False
    then have "list_entries clus ?k F lfn_reset = Some (False, [], lfn_reset)" using list_free [OF assms(2)] by simp
    from list_entries_append [OF this, of B] have "list_entries clus ?k (F @ B) lfn_reset = list_entries clus (?k + ?n + 1) B lfn_reset"
      using assms(9) by (cases "list_entries clus (?k + ?n + 1) B lfn_reset") auto
    moreover have "list_entries clus 0 ?es lfn_reset \<noteq> None" using assms(1) by (simp add: tidy_def)
    ultimately show ?thesis using old new by (cases "list_entries clus (?k + ?n + 1) B lfn_reset") auto
  next
    case True
    then obtain i where i: "i < length F" "F ! i ! 0 = 0" by (auto simp: in_set_conv_nth)
    have "e ! 0 = 0" if mem: "e \<in> set B" for e
    proof -
      obtain j where j: "j < length B" "B ! j = e" using mem by (auto simp: in_set_conv_nth)
      have "?es ! (?k + i) = F ! i" "?es ! (?k + length F + j) = e" using i(1) j by (simp_all add: nth_append)
      then show ?thesis using zero [of "?k + i" "?k + length F + j"] i j(1) by simp
    qed
    then have B: "list_entries clus (?k + ?n + 1) B lfn_reset = Some (B \<noteq> [], [], lfn_reset)" by (intro list_end) simp
    obtain F1 e F2 where F: "F = F1 @ e # F2" "e ! 0 = 0" "\<forall>x \<in> set F1. x ! 0 \<noteq> 0" using split_list_first_prop [OF True] by blast
    then have "list_entries clus ?k F1 lfn_reset = Some (False, [], lfn_reset)" using list_free [of F1 clus ?k] assms(2) by simp
    from list_entries_append [OF this, of "e # F2 @ B"] F have "list_entries clus ?k (F @ B) lfn_reset = Some (True, [], lfn_reset)" by simp
    with old new B show ?thesis by auto
  qed
qed

section \<open>On the volume\<close>

lemma root_clus: "geometry fs' = geometry fs \<Longrightarrow> m_bRootDir fs' = m_bRootDir fs"
proof -
  assume g: "geometry fs' = geometry fs"
  have "BPB_RootClus fs' = BPB_RootClus fs" using arg_cong [OF g, of BPB_RootClus] by (simp add: geometry_def)
  then show ?thesis by (intro ext) (simp add: m_bRootDir_def geometry_simps2 [OF g])
qed

lemma list_directory:
  assumes "readable fs" "cluster_ok fs dir" "dir \<noteq> 0" "isEof fs (fat_entry fs dir)" "\<forall>e \<in> set es. length e = 32" "cluster_data fs dir = concat es"
    and "list_entries dir 0 es lfn_reset = Some (b, ns, st)"
  shows "\<exists>fs'. cacheDirectoryContents dir fs = Some ((if m_bRootDir fs dir then [dot_node dir] else []) @ ns, fs')"
proof -
  have len: "32 * length es = m_BlockSize fs" using length_concat_32 [OF assms(5)] assms(6) by (metis length_cluster_data)
  have l: "list_buffer dir (m_BlockSize fs) (concat es) 0 lfn_reset = Some (b, ns, st)"
    using list_buffer_entries [OF assms(5), of 0 dir lfn_reset] assms(7) len by simp
  have rd: "readDirectoryPortion fs dir = Some (Some (concat es))"
    using assms(3,6) readCluster_ok [OF assms(1,2)] by (simp add: readDirectoryPortion_def)
  obtain fs' where g: "getClusterEntry dir fs = Some (fat_entry fs dir, fs')" "like fs fs'" using get_like [OF assms(1,2)] by blast
  have "isEof fs' (fat_entry fs dir)" using assms(4) like_simps(6) [OF g(2)] by simp
  then have "\<exists>fs'. list_clusters (m_BlockSize fs) dir (concat es) lfn_reset acc fs = Some (acc @ ns, fs')" for acc
    using l g(1) assms(3) by (subst list_clusters.simps) auto
  then show ?thesis using rd assms(3) by (simp add: cacheDirectoryContents_def m_DirBlockSize_def Let_def)
qed

lemma add_entry_ok:
  assumes "readable fs" "table_below fs" "data_ok fs dir" "cluster_data fs dir = concat (A @ F @ B)" "\<forall>e \<in> set (A @ F @ B). length e = 32"
    and "find_slot (m_BlockSize fs) (concat (A @ F @ B)) (lfn_count name + 1) 0 0 = Some (Some (32 * (length A + lfn_count name)))"
    and "length F = lfn_count name + 1" "convertFilenameTo name = Some s"
  shows "\<exists>fs'. addEntry dir name f t fs = Some (Some (f\<lparr>m_DirClus := dir, m_DirOffset := 32 * (length A + lfn_count name)\<rparr>), fs') \<and> volume fs fs' \<and>
    (\<forall>d. data_ok fs d \<longrightarrow> cluster_data fs' d = (if d = dir then concat (A @ file_entries name s t (m_Inode f) @ B) else cluster_data fs d))"
proof -
  let ?n = "lfn_count name" and ?es = "A @ F @ B" and ?N = "file_entries name s t (m_Inode f)"
  have d: "cluster_ok fs dir" "dir \<noteq> 0" using assms(3) by (auto simp: data_ok_def)
  have rd: "readDirectoryPortion fs dir = Some (Some (concat ?es))"
    using d assms(4) readCluster_ok [OF assms(1)] by (simp add: readDirectoryPortion_def)
  have fs: "find_space (?n + 1) dir (concat ?es) fs = Some (Some (dir, 32 * (length A + ?n), concat ?es), fs)"
    using assms(6) by (subst find_space.simps) simp
  note s = convert_length [OF assms(8)]
  note N = file_entries_32 [OF s, of name t "m_Inode f"]
  have sp: "splice (32 * length A) (concat ?N) (concat ?es) = concat (A @ ?N @ B)"
    by (rule splice_concat [OF assms(5) N]) (simp add: assms(7))
  have "32 * (length A + ?n) + 32 \<le> length (concat ?es)" using length_concat_32 [OF assms(5)] assms(7) by simp
  then have st: "store_entries name (if t then 0x10 else 0) (m_Inode f) (32 * (length A + ?n)) (concat ?es) = Some (concat (A @ ?N @ B))"
    using assms(8) sp by (simp add: store_entries_def file_entries_def Let_def algebra_simps)
  have "length (concat (A @ ?N @ B)) = length (concat ?es)"
    using length_concat_32 [of "A @ ?N @ B"] length_concat_32 [OF assms(5)] assms(5,7) N by auto
  then have len: "length (concat (A @ ?N @ B)) = m_BlockSize fs" using assms(4) by (metis length_cluster_data)
  from write_cluster_ok [OF assms(1-3) len] obtain fs' where w: "writeCluster dir (concat (A @ ?N @ B)) fs = Some fs'" "volume fs fs'"
    "\<forall>d. data_ok fs d \<longrightarrow> cluster_data fs' d = (if d = dir then concat (A @ ?N @ B) else cluster_data fs d)" by blast
  have "addEntry dir name f t fs = Some (Some (f\<lparr>m_DirClus := dir, m_DirOffset := 32 * (length A + ?n)\<rparr>), fs')"
    unfolding addEntry_def rd by (simp only: option.case fs bind.bind_lunit case_prod_conv st writeDirectoryPortion_def d(2) if_False w(1))
  then show ?thesis using w(2,3) by blast
qed

end
