(* ===== verification/Fat_Naming.thy ===== *)
theory Fat_Naming
  imports Fat_Adding Fat_Properties
begin

text \<open>The properties of names, time stamps and directories of the FAT filesystem.\<close>

section \<open>Directories\<close>















section \<open>Names\<close>

text \<open>A name with one period, one to eight characters before it and one to three behind, without capitals and the
  characters that a short name cannot have, is the same after it was turned into a short name and back.\<close>

theorem short_name_roundtrip:
  assumes "\<forall>c \<in> set (b @ e). plain c \<and> \<not> (65 \<le> c \<and> c \<le> 90)" "b \<noteq> []" "length b \<le> 8" "e \<noteq> []" "length e \<le> 3"
  shows "\<exists>s. convertFilenameTo (b @ 46 # e) = Some s \<and> length s = 11 \<and> convertFilenameFrom s = b @ 46 # e"
  using convert_to_period [of b e] convert_from_period [of b e] convert_length [of "b @ 46 # e"] assms by fastforce

theorem short_name_roundtrip_witness:
  "\<exists>s. convertFilenameTo [97, 46, 116, 120, 116] = Some s \<and> length s = 11 \<and> convertFilenameFrom s = [97, 46, 116, 120, 116]"
  using short_name_roundtrip [of "[97]" "[116, 120, 116]"] by (simp add: plain_def no_short_def)

text \<open>A name without a period gets the tail \<open>~1\<close>, however short it is, and its own first letters as extension; names that
  share their first six characters get the same short name.\<close>

theorem no_period_short_name:
  assumes "\<forall>c \<in> set (p @ x). plain c" "length p = 6" "length (p @ x) < 64"
  shows "convertFilenameTo (p @ x) = Some (map toUpper p @ [126, 49] @ take 3 (map toUpper p))"
proof -
  have "p @ x \<noteq> []" using assms(2) by auto
  from convert_to_no_period [OF assms(1) this assms(3)] show ?thesis using assms(2) by (simp add: ss_pad_def)
qed

theorem no_period_short_name_witness:
  "convertFilenameTo [114, 101, 97, 100, 109, 101] = Some [82, 69, 65, 68, 77, 69, 126, 49, 82, 69, 65]"
  using no_period_short_name [of "[114, 101, 97, 100, 109, 101]" "[]"] by (simp add: plain_def no_short_def toUpper_def)

text \<open>Making the short name of a name with 64 or more characters overruns the buffer it is made in.\<close>

theorem long_name_overruns:
  assumes "\<forall>c \<in> set n. plain c" "64 \<le> length n"
  shows "convertFilenameTo n = None"
proof -
  obtain n' c where n: "n = n' @ [c]" using assms(2) by (cases n rule: rev_exhaust) auto
  then have "rstripped n = n" using rstripped_plain [of c n'] assms(1) by simp
  moreover have "convert_scan 0 n (- 1) [] = None" using scan_full [of n "[]" 0 "- 1"] assms by simp
  moreover have "n \<noteq> [46]" "n \<noteq> [46, 46]" using assms(2) by auto
  ultimately show ?thesis by (simp add: convertFilenameTo_def)
qed

theorem long_name_overruns_witness: "convertFilenameTo (replicate 64 97) = None"
  by (rule long_name_overruns) (simp_all add: plain_def no_short_def)

text \<open>Times on the volume come out two days early in January and February of a leap year, and three days early otherwise.\<close>

theorem timestamp_early:
  assumes "1980 \<le> year" "year \<le> 2106" "1 \<le> month" "month \<le> 12" "1 \<le> day" "day \<le> 31" "h < 24" "m < 60" "s < 30"
  shows "\<exists>r. getUnixTimestamp (of_nat (s + 32 * m + 32 * 64 * h)) (of_nat (day + 32 * month + 32 * 16 * (year - 1980))) = Some r \<and>
    r + (if leap year \<and> month \<le> 2 then 2 else 3) * 86400 = civil_seconds year month day h m (2 * s)"
  by (rule timestamp_days [OF assms])

theorem timestamp_early_witness: "\<exists>r. getUnixTimestamp 0 0x2A21 = Some r \<and> r + 259200 = civil_seconds 2001 1 1 0 0 0"
  using timestamp_early [of 2001 1 1 0 0 0] by (simp add: leap_def)

end
