(* ===== verification/Fat_Mount.thy ===== *)
theory Fat_Mount
  imports Fat_Directory Fat_Writing
begin

text \<open>
  Mounting a FAT volume (\<^verbatim>\<open>FatFilesystem.cc\<close>, \<open>initialise\<close>) and its label.  The outer \<open>None\<close> of \<open>initialise\<close> is a disk
  without a first page, the inner one the result false.
\<close>

unbundle bit_operations_syntax

section \<open>The boot sector\<close>

fun power_loop :: "nat \<Rightarrow> u32 \<Rightarrow> bool" where
  "power_loop 0 n = False"
| "power_loop (Suc k) n = (if n AND 1 \<noteq> 0 then drop_bit 1 n = 0 else power_loop k (drop_bit 1 n))"

definition isPowerOf2 :: "u32 \<Rightarrow> bool" where
  "isPowerOf2 n = power_loop 16 n"

definition get8 :: "(nat \<Rightarrow> u8) \<Rightarrow> nat \<Rightarrow> nat" where
  "get8 d i = unat (d i)"

definition get16 :: "(nat \<Rightarrow> u8) \<Rightarrow> nat \<Rightarrow> nat" where
  "get16 d i = unat (le16 (d i) (d (i + 1)))"

definition get32 :: "(nat \<Rightarrow> u8) \<Rightarrow> nat \<Rightarrow> u32" where
  "get32 d i = le32 (le16 (d i) (d (i + 1))) (le16 (d (i + 2)) (d (i + 3)))"

text \<open>The fields of the superblock at their offsets, and what is derived from them; the sizes are 32-bit numbers.\<close>

definition fat_size :: "(nat \<Rightarrow> u8) \<Rightarrow> u32" where
  "fat_size d = (if get16 d 22 \<noteq> 0 then of_nat (get16 d 22) else get32 d 36)"

definition root_sectors :: "(nat \<Rightarrow> u8) \<Rightarrow> u32" where
  "root_sectors d = of_nat ((get16 d 17 * 32 + (get16 d 11 - 1)) div get16 d 11)"

definition first_data :: "(nat \<Rightarrow> u8) \<Rightarrow> u32" where
  "first_data d = of_nat (get16 d 14) + of_nat (get8 d 16) * fat_size d + root_sectors d"

definition cluster_count :: "(nat \<Rightarrow> u8) \<Rightarrow> u32" where
  "cluster_count d = ((if get16 d 19 \<noteq> 0 then of_nat (get16 d 19) else get32 d 32) - first_data d) div of_nat (get8 d 13)"

definition fat_type :: "(nat \<Rightarrow> u8) \<Rightarrow> FatType" where
  "fat_type d = (if cluster_count d < 4085 then FAT12 else if cluster_count d < 65525 then FAT16 else FAT32)"

definition initialise :: "(nat \<Rightarrow> nat \<Rightarrow> u8) \<Rightarrow> nat \<Rightarrow> (nat \<Rightarrow> u8) \<Rightarrow> fat_fs option option" where
  "initialise beyond sz d =
     (if sz = 0 then None
      else if d 0 \<noteq> 0xE9 \<and> \<not> (d 0 = 0xEB \<and> d 2 = 0x90) then Some None
      else if \<not> isPowerOf2 (of_nat (get8 d 13)) then Some None
      else if get8 d 16 < 1 \<or> get8 d 16 > 2 then Some None
      else if get16 d 11 = 0 then Some None
      else if get8 d 13 = 0 then Some None
      else
        let fs = \<lparr>BPB_BytsPerSec = get16 d 11, BPB_SecPerClus = get8 d 13, BPB_TotSec16 = get16 d 19, BPB_TotSec32 = unat (get32 d 32),
                  BPB_RootClus = get32 d 44, FSI_NxtFree = 0, m_Type = fat_type d, m_DataAreaStart = first_data d,
                  m_RootDirCount = root_sectors d,
                  m_RootDir = (if fat_type d = FAT32 then get32 d 44 else of_nat (get16 d 14) + of_nat (get8 d 16) * fat_size d),
                  m_FatSector = get16 d 14, m_BlockSize = get8 d 13 * get16 d 11, m_FreeClusterHint = 2,
                  m_FatCache = (\<lambda>_. None), fat_buffers = [], behind = beyond, disk = d, disk_size = sz\<rparr>
        in Some (Some
             (if fat_type d = FAT32
              then (case readSectorBlock fs (of_nat (get16 d 48)) 512 of
                      Some bs \<Rightarrow> fs\<lparr>FSI_NxtFree := le32 (le16 (bs ! 492) (bs ! 493)) (le16 (bs ! 494) (bs ! 495))\<rparr>
                    | None \<Rightarrow> fs)
              else fs)))"

section \<open>The label\<close>

text \<open>The label is searched with a mask of the attributes that the entries of a long name pass, too: they have all four of
  its bits.\<close>

function label_in :: "nat \<Rightarrow> u8 list \<Rightarrow> nat \<Rightarrow> (bool \<times> u8 list option) option" where
  "label_in sz buf i =
     (if i < sz
      then if length buf < i + 32 then None
           else
             let e = take 32 (drop i buf)
             in if e ! 0 = 0 then Some (True, None)
                else if e ! 11 AND 0x08 \<noteq> 0 then Some (True, Some (convertFilenameFrom (takeWhile (\<lambda>c. c \<noteq> 0) (take 11 e))))
                else label_in sz buf (i + 32)
      else Some (False, None))"
  by auto
termination by (relation "measure (\<lambda>(sz, buf, i). sz - i)") auto

declare label_in.simps [simp del]

partial_function (option) label_clusters :: "u32 \<Rightarrow> u8 list \<Rightarrow> fat_fs \<Rightarrow> (u8 list option \<times> fat_fs) option" where
  "label_clusters clus buf fs = do {
     (done_here, r) \<leftarrow> label_in (m_BlockSize fs) buf 0;
     (if done_here \<or> clus = 0 \<and> m_Type fs \<noteq> FAT32 then Some (r, fs)
      else do {
        (clus, fs) \<leftarrow> getClusterEntry clus fs;
        (if clus = 0 \<or> isEof fs clus then Some (None, fs)
         else do { buf \<leftarrow> readCluster fs clus; label_clusters clus buf fs }) }) }"

text \<open>The default label, which has the address of the file system in it, is an argument.\<close>

definition getVolumeLabel :: "u8 list \<Rightarrow> fat_fs \<Rightarrow> (u8 list \<times> fat_fs) option" where
  "getVolumeLabel noLabel fs =
     (let clus = (if m_Type fs = FAT32 then m_RootDir fs else 0)
      in case readDirectoryPortion fs clus of
           Some (Some buf) \<Rightarrow> map_option (\<lambda>(r, fs). (case r of None \<Rightarrow> noLabel | Some l \<Rightarrow> l, fs)) (label_clusters clus buf fs)
         | _ \<Rightarrow> None)"

section \<open>Properties\<close>

lemma power_loop_spec: "power_loop k n \<longleftrightarrow> (\<exists>j < k. n = 2 ^ j \<and> j < 32)"
proof (induction k arbitrary: n)
  case (Suc k)
  show ?case
  proof (cases "n AND 1 = 0")
    case False
    then have odd: "bit n 0" by (auto simp: and_one_eq bit_0 odd_iff_mod_2_eq_one)
    have "drop_bit 1 n = 0 \<longleftrightarrow> n = 1"
    proof
      assume d: "drop_bit 1 n = 0"
      show "n = 1"
      proof (rule bit_word_eqI)
        fix i assume "i < LENGTH(32)"
        then show "bit n i \<longleftrightarrow> bit (1 :: u32) i"
          using arg_cong [OF d, of "\<lambda>w. bit w (i - 1)"] odd by (cases i) (auto simp: bit_simps bit_1_iff)
      qed
    qed simp
    moreover have "n = 2 ^ j \<and> j < 32 \<longrightarrow> j = 0" for j
      using odd by (auto simp: bit_exp_iff)
    ultimately have "drop_bit 1 n = 0 \<longleftrightarrow> (\<exists>j < Suc k. n = 2 ^ j \<and> j < 32)"
      by (metis power_0 zero_less_Suc zero_less_numeral)
    with False show ?thesis by simp
  next
    case True
    then have even: "\<not> bit n 0" by (simp add: and_one_eq bit_0 even_iff_mod_2_eq_zero)
    have "drop_bit 1 n = 2 ^ j \<and> j < 32 \<longleftrightarrow> n = 2 ^ Suc j \<and> Suc j < 32" for j
    proof
      assume d: "drop_bit 1 n = 2 ^ j \<and> j < 32"
      have "bit (drop_bit 1 n) j" using d by (simp add: bit_exp_iff)
      then have j: "Suc j < 32" using bit_imp_le_length [of n "Suc j"] by (simp add: bit_simps)
      moreover have "n = 2 ^ Suc j"
      proof (rule bit_word_eqI)
        fix i assume i: "i < LENGTH(32)"
        have "bit (drop_bit 1 n) (i - 1) \<longleftrightarrow> i - 1 = j" if "i \<noteq> 0" using d i by (auto simp: bit_exp_iff)
        then show "bit n i \<longleftrightarrow> bit (2 ^ Suc j :: u32) i" using even i by (cases i) (auto simp: bit_simps bit_exp_iff simp del: power_Suc)
      qed
      ultimately show "n = 2 ^ Suc j \<and> Suc j < 32" by blast
    next
      assume n: "n = 2 ^ Suc j \<and> Suc j < 32"
      have "drop_bit 1 n = 2 ^ j"
        by (rule bit_word_eqI) (use n in \<open>auto simp: bit_simps bit_exp_iff simp del: power_Suc\<close>)
      with n show "drop_bit 1 n = 2 ^ j \<and> j < 32" by simp
    qed
    moreover have "n \<noteq> 2 ^ 0" using even by auto
    ultimately show ?thesis using True Suc.IH by (auto simp: less_Suc_eq_0_disj)
  qed
qed simp

text \<open>The check for the size of a cluster accepts exactly the powers of two below \<open>2 ^ 16\<close>.\<close>

theorem isPowerOf2_correct: "isPowerOf2 n \<longleftrightarrow> (\<exists>j < 16. n = 2 ^ j)"
  by (auto simp: isPowerOf2_def power_loop_spec)

section \<open>What a mounted volume satisfies\<close>

lemma get_bounds: "get8 d i < 2 ^ 8" "get16 d i < 2 ^ 16"
  using unsigned_less [where ?'b = 8 and ?'a = nat, of "d i"] unsigned_less [where ?'b = 16 and ?'a = nat, of "le16 (d i) (d (i + 1))"]
  by (simp_all add: get8_def get16_def)

text \<open>A mounted volume of 16- or 32-bit entries with sectors of whole disk blocks is one that the other operations rely on,
  and its table is below its data: nothing of it is cached yet.\<close>

theorem mount_readable:
  assumes "initialise beyond sz d = Some (Some fs)" "m_Type fs \<noteq> FAT12" "512 dvd BPB_BytsPerSec fs"
  shows "readable fs \<and> table_below fs \<and> m_FreeClusterHint fs = 2 \<and> disk fs = d"
proof -
  have "m_FatCache fs = (\<lambda>_. None)" "m_FreeClusterHint fs = 2" "disk fs = d" "m_BlockSize fs = BPB_SecPerClus fs * BPB_BytsPerSec fs"
    "BPB_BytsPerSec fs = get16 d 11" "m_FatSector fs = get16 d 14" "0 < BPB_BytsPerSec fs" "0 < BPB_SecPerClus fs"
    using assms(1) by (auto simp: initialise_def Let_def split: if_splits option.splits)
  then show ?thesis using assms(2,3) get_bounds(2) [of d]
    by (simp add: readable_def volume_ok_def coherent_def table_below_def)
qed

definition sample_boot :: "nat \<Rightarrow> u8" where
  "sample_boot i = (if i = 0 then 0xEB else if i = 2 then 0x90 else if i = 12 then 2 else if i = 13 then 1 else if i = 14 then 1
     else if i = 16 then 2 else if i = 18 then 2 else if i = 20 then 0x40 else if i = 22 then 64 else 0)"

lemma mount_readable_witness: "\<exists>fs. initialise (\<lambda>_ _. 0) 8388608 sample_boot = Some (Some fs) \<and> m_Type fs = FAT16 \<and> readable fs"
proof -
  have f: "fat_type sample_boot = FAT16"
    by (simp add: fat_type_def cluster_count_def first_data_def root_sectors_def fat_size_def get8_def get16_def get32_def sample_boot_def le16_def le32_def)
  have p: "isPowerOf2 (of_nat (get8 sample_boot 13))" by (simp add: isPowerOf2_def get8_def sample_boot_def numeral_eq_Suc)
  obtain fs where i: "initialise (\<lambda>_ _. 0) 8388608 sample_boot = Some (Some fs)" "m_Type fs = FAT16" "BPB_BytsPerSec fs = 512"
    using f p by (simp add: initialise_def Let_def get8_def get16_def sample_boot_def le16_def)
  then show ?thesis using mount_readable [OF i(1)] by auto
qed

end
