(* ===== verification/String_Properties.thy ===== *)
theory String_Properties
  imports String_Text
begin

text \<open>Concatenation, splitting and formatting of strings, the invariant of their blocks, and the properties of the class.\<close>

section \<open>Concatenation\<close>

lemma str_grow_ok:
  assumes "str_holds s u" "StaticSize \<le> n" "length u \<le> n" "room_for (n + 1) s"
  shows "\<exists>s2 v. do { s \<leftarrow> reserve (n + 1) s; to_dynamic s } = Some s2 \<and> m_Data s2 = Some (u @ v) \<and>
    n - length u < length v \<and> blocks_ok s2 \<and> m_Length s2 = length u"
proof -
  have ok: "blocks_ok s" "m_Length s = length u" using assms(1) by (simp_all add: str_holds_def)
  from reserve_ok [OF ok(1) assms(4)] assms(2) obtain d where
    d: "reserve (n + 1) s = Some (s\<lparr>m_Data := Some d, m_Size := length d\<rparr>)" "n + 1 \<le> length d"
      "\<forall>e. m_Data s = Some e \<longrightarrow> length e \<le> length d \<and> take (length e) d = e" by auto
  show ?thesis
  proof (cases "length u < StaticSize")
    case True
    with assms(1) obtain r where st: "m_Static s = u @ 0 # r" by (auto simp: holds_static)
    have "poke 0 u d = Some (u @ drop (length u) d)" using d(2) assms(3) by (simp add: poke_def)
    then show ?thesis using True d(1,2) ok st assms(3)
      by (intro exI [of _ "s\<lparr>m_Data := Some (u @ drop (length u) d), m_Size := length d\<rparr>"] exI [of _ "drop (length u) d"])
        (auto simp: to_dynamic_def poke_data_def blocks_ok_def peek_def)
  next
    case False
    with assms(1) obtain r where e: "m_Data s = Some (u @ 0 # r)" by (auto simp: holds_dynamic)
    with d(3) have "d = (u @ 0 # r) @ drop (length (u @ 0 # r)) d" by (metis append_take_drop_id)
    then have "d = u @ drop (length u) d" by (metis append.assoc append_eq_conv_conj)
    then show ?thesis using False d(1,2) ok assms(3)
      by (intro exI [of _ "s\<lparr>m_Data := Some d, m_Size := length d\<rparr>"] exI [of _ "drop (length u) d"])
        (auto simp: to_dynamic_def blocks_ok_def)
  qed
qed

lemma put_end:
  assumes "str_holds s u" "0 \<notin> set t" "length u + length t < StaticSize \<or> room_for (length u + length t + 1) s"
    "length u + length t + 1 < 2 ^ 64"
  shows "\<exists>s'. (if length u + length t < StaticSize then poke_static (m_Length s) (t @ [0]) s
      else do { s \<leftarrow> reserve (length u + length t + 1) s; s \<leftarrow> to_dynamic s; poke_data (m_Length s) (t @ [0]) s }) = Some s' \<and>
    str_holds (s'\<lparr>m_Length := length u + length t\<rparr>) (u @ t)"
proof (cases "length u + length t < StaticSize")
  case True
  then have "length u < StaticSize" by simp
  with assms(1) obtain r where st: "m_Static s = u @ 0 # r" "length (m_Static s) = StaticSize" "0 \<notin> set u" "blocks_ok s" "m_Length s = length u"
    by (auto simp: holds_static blocks_ok_def)
  let ?st = "u @ (t @ [0]) @ drop (length u + Suc (length t)) (m_Static s)"
  have "poke (length u) (t @ [0]) (m_Static s) = Some ?st" using True st(1,2) by (simp add: poke_def)
  moreover have "length ?st = StaticSize" using True st(2) by simp
  then have "str_holds (s\<lparr>m_Static := ?st, m_Length := length u + length t\<rparr>) (u @ t)"
    using True st(3,4) assms(2) by (simp add: holds_static blocks_ok_def)
  ultimately show ?thesis using True st(5) by (simp add: poke_static_def)
next
  case False
  then obtain s2 v where g: "do { s \<leftarrow> reserve (length u + length t + 1) s; to_dynamic s } = Some s2" "m_Data s2 = Some (u @ v)"
    "length t < length v" "blocks_ok s2" "m_Length s2 = length u"
    using str_grow_ok [OF assms(1), of "length u + length t"] assms(3) by auto
  have "0 \<notin> set (u @ t)" using assms(1,2) by (auto simp: str_holds_def)
  from poke_data_holds [OF g(4,2,3) this] False assms(4) obtain s' where
    "poke_data (length u) (t @ [0]) s2 = Some s'" "str_holds (s'\<lparr>m_Length := length u + length t\<rparr>) (u @ t)" by auto
  moreover obtain s1 where "reserve (length u + length t + 1) s = Some s1" "to_dynamic s1 = Some s2"
    using g(1) by (auto simp: bind_eq_Some_conv)
  ultimately show ?thesis using False g(5) by simp
qed

lemma append_c_ok:
  assumes "str_holds s u" "0 \<notin> set t" "length u + length t < StaticSize \<or> room_for (length u + length t + 1) s"
    "length u + length t + 1 < 2 ^ 64"
  shows "\<exists>s'. String_append_c t s = Some s' \<and> str_holds s' (u @ t)"
proof -
  have "m_Length s = length u" using assms(1) by (simp add: str_holds_def)
  moreover have "(length t + length u) mod 2 ^ 64 = length u + length t" "with_end (length u + length t) = length u + length t + 1"
    using assms(4) by (simp_all add: with_end_def add.commute)
  ultimately show ?thesis using put_end [OF assms]
    by (auto simp: String_append_c_def Let_def bind_eq_Some_conv split: if_splits)
qed

lemma append_eq:
  assumes "str_holds x t" "str_holds s u" "length t \<noteq> StaticSize"
  shows "String_append x s = String_append_c t s"
proof -
  have l: "m_Length x = length t" "m_Length s = length u" using assms(1,2) by (simp_all add: str_holds_def)
  obtain r where src: "(if length t > StaticSize then m_Data x else Some (m_Static x)) = Some (t @ 0 # r)"
    using assms(1,3) by (cases "length t < StaticSize") (auto simp: holds_static holds_dynamic)
  have pk: "peek_from (if length t > StaticSize then m_Data x else Some (m_Static x)) (with_end (length t)) = Some (t @ [0])"
    unfolding src using holds_end [OF assms(1)] by (simp add: peek_from_def)
  show ?thesis
  proof (cases "(length t + length u) mod 2 ^ 64 < StaticSize")
    case True
    then show ?thesis using l pk by (simp add: String_append_def String_append_c_def Let_def)
  next
    case False
    then show ?thesis using l pk by (simp add: String_append_def String_append_c_def Let_def bind_assoc)
  qed
qed

text \<open>A string of exactly 64 characters is on the heap, but the test takes it for one that is not.\<close>

lemma append_64:
  assumes "str_holds x t" "length t = StaticSize"
  shows "String_append x s = None"
proof -
  have "peek_from (Some (m_Static x)) (with_end (length t)) = None" "m_Length x = length t"
    using assms holds_end [OF assms(1)] by (auto simp: str_holds_def blocks_ok_def peek_def peek_from_def)
  then show ?thesis using assms(2) by (simp add: String_append_def Let_def bind_eq_None_conv)
qed

section \<open>Splitting\<close>

lemma split_ok:
  assumes "str_holds s (u @ v)"
  shows "\<exists>r s'. split (length u) s = Some (r, s') \<and> str_holds r v \<and> str_holds s' u \<and> (usable s \<longrightarrow> usable s')"
proof -
  obtain rest where b: "buffer s = Some (u @ v @ 0 # rest)" "m_Length s = length (u @ v)" "0 \<notin> set u" "0 \<notin> set v"
    using assms by (auto simp: str_holds_def)
  have "length v + 1 < 2 ^ 64" using assms by (simp add: str_holds_def)
  from from_ok [OF b(4) this] obtain r where r: "String_from (fresh s) (Some v) = Some r" "str_holds r v" by blast
  obtain s' where c: "do { s \<leftarrow> poke_buffer (StaticSize \<le> length (u @ v)) (length u) [0] (s\<lparr>m_Length := length u\<rparr>);
      drop_to_static (StaticSize \<le> length (u @ v)) s } = Some s'" "str_holds s' u" "usable s \<longrightarrow> usable s'"
    using cut_ok [OF assms] by blast
  show ?thesis
  proof (cases "length u < StaticSize \<and> StaticSize \<le> length (u @ v)")
    case False
    then have "poke_buffer (StaticSize \<le> length (u @ v)) (length u) [0] (s\<lparr>m_Length := length u\<rparr>) = Some s'"
      using c(1) by (auto simp: drop_to_static_def bind_eq_Some_conv poke_buffer_def poke_data_def poke_static_def split: if_splits)
    then show ?thesis using False b r c(2,3) by (auto simp: split_def Let_def)
  next
    case True
    have l: "length (m_Static s) = StaticSize" "blocks_ok s" using assms by (auto simp: str_holds_def blocks_ok_def)
    let ?st = "u @ drop (length u) (m_Static s)" and ?st' = "u @ [0] @ drop (Suc (length u)) (m_Static s)"
    have "poke 0 u (m_Static s) = Some ?st" using True l(1) by (simp add: poke_def)
    moreover have "poke (length u) [0] ?st = Some ?st'" using True l(1) by (simp add: poke_def)
    moreover have "peek 0 (length u) (u @ v @ 0 # rest) = Some u" by simp
    ultimately have "split (length u) s = Some (r, s\<lparr>m_Length := length u, m_Data := None, m_Size := StaticSize, m_Static := ?st'\<rparr>)"
      using True b r by (simp add: split_def Let_def poke_static_def)
    moreover have "str_holds (s\<lparr>m_Length := length u, m_Data := None, m_Size := StaticSize, m_Static := ?st'\<rparr>) u"
      using True l b(3) by (simp add: holds_static blocks_ok_def)
    ultimately show ?thesis using r(2) by (auto simp: usable_def)
  qed
qed

text \<open>The pieces of a text between its tokens.\<close>

fun fields :: "'a \<Rightarrow> 'a list \<Rightarrow> 'a list list" where
  "fields c [] = [[]]"
| "fields c (x # xs) = (if x = c then [] # fields c xs else (x # hd (fields c xs)) # tl (fields c xs))"

lemma fields_append: "c \<notin> set u \<Longrightarrow> fields c (u @ c # v) = u # fields c v" "c \<notin> set u \<Longrightarrow> fields c u = [u]"
  by (induction u) auto

lemma holds_char:
  assumes "str_holds s (u @ c # w)"
  shows "char_at (length u) s = Some c"
proof -
  obtain r where "buffer s = Some (u @ c # w @ 0 # r)" "m_Length s = length (u @ c # w)" using assms by (auto simp: str_holds_def)
  then have "const_char s = u @ c # w @ 0 # r" by (auto simp: buffer_def const_char_def split: if_splits)
  then show ?thesis by (simp add: char_at_def nth_append)
qed

lemma tokenise_loop_ok:
  assumes "str_holds copy (u @ w)" "c \<notin> set u" "usable copy \<or> length (u @ w) < StaticSize"
  shows "\<exists>copy' ps t. tokenise_loop c (length u) copy list = Some (copy', list @ ps) \<and> str_holds copy' t \<and>
    list_all2 str_holds (ps @ (if t = [] then [] else [copy'])) (filter (\<lambda>f. f \<noteq> []) (fields c (u @ w)))"
  using assms
proof (induction w arbitrary: u copy list)
  case Nil
  then have "tokenise_loop c (length u) copy list = Some (copy, list @ [])"
    by (subst tokenise_loop.simps) (simp add: str_holds_def)
  then show ?case using Nil.prems by (fastforce simp: fields_append(2))
next
  case (Cons x w)
  note h = Cons.prems(1) and ch = holds_char [OF Cons.prems(1)]
  have len: "length u < m_Length copy" using h by (simp add: str_holds_def)
  show ?case
  proof (cases "x = c")
    case False
    from Cons.IH [of copy "u @ [x]" list] Cons.prems False show ?thesis
      using len ch by (subst tokenise_loop.simps) (simp add: nextCharacter_def)
  next
    case True
    obtain r s1 where s1: "split (length (u @ [c])) copy = Some (r, s1)" "str_holds r w" "str_holds s1 (u @ [c])" "usable copy \<longrightarrow> usable s1"
      using split_ok [of copy "u @ [c]" w] h True by auto
    from copy_ok [OF s1(3)] obtain p where p: "String_copy s1 = Some p" "str_holds p (u @ [c])" by blast
    have "blocks_ok s1" using s1(3) by (simp add: str_holds_def)
    moreover have "length w < StaticSize \<or> room_for (length w + 1) s1"
      using Cons.prems(3) s1(4) usable_room [of s1 "length w + 1"] by (cases "length w < StaticSize") auto
    ultimately obtain s2 where s2: "String_assign r s1 = Some s2" "str_holds s2 w" using assign_ok [OF s1(2)] by blast
    from chomp_ok [OF p(2)] obtain q where q: "chomp p = Some q" "str_holds q u" by blast
    have "usable s2 \<or> length w < StaticSize" using holds_usable [OF s2(2)] by auto
    with Cons.IH [of s2 "[]" "if m_Length q = 0 then list else list @ [q]"] s2(2) obtain copy' ps t where
      r: "tokenise_loop c 0 s2 (if m_Length q = 0 then list else list @ [q]) = Some (copy', (if m_Length q = 0 then list else list @ [q]) @ ps)"
        "str_holds copy' t" "list_all2 str_holds (ps @ (if t = [] then [] else [copy'])) (filter (\<lambda>f. f \<noteq> []) (fields c w))" by auto
    have mq: "m_Length q = length u" using q(2) by (simp add: str_holds_def)
    have "tokenise_loop c (length u) copy list = tokenise_loop c 0 s2 (if m_Length q = 0 then list else list @ [q])"
      using len ch True s1(1) p(1) s2(1) q(1) by (subst tokenise_loop.simps) simp
    moreover have "fields c (u @ x # w) = u # fields c w" using Cons.prems(2) True by (simp add: fields_append)
    ultimately show ?thesis using r q(2) mq
      by (intro exI [of _ copy'] exI [of _ "(if u = [] then [] else [q]) @ ps"] exI [of _ t]) auto
  qed
qed

lemma tokenise_ok:
  assumes "str_holds s t"
  shows "\<exists>ps. tokenise c s = Some ps \<and> list_all2 str_holds ps (filter (\<lambda>f. f \<noteq> []) (fields c t))"
proof -
  from copy_ok [OF assms] obtain s1 where s1: "String_copy s = Some s1" "str_holds s1 t" "usable s1" by blast
  from tokenise_loop_ok [of s1 "[]" t c "[]"] s1(2,3) obtain copy ps u where
    l: "tokenise_loop c 0 s1 [] = Some (copy, ps)" "str_holds copy u"
      "list_all2 str_holds (ps @ (if u = [] then [] else [copy])) (filter (\<lambda>f. f \<noteq> []) (fields c t))" by auto
  from copy_ok [OF l(2)] obtain p where p: "String_copy copy = Some p" "str_holds p u" by blast
  have m: "m_Length copy = length u" using l(2) by (simp add: str_holds_def)
  show ?thesis
  proof (cases "u = []")
    case True
    then show ?thesis using s1(1) l m by (simp add: tokenise_def)
  next
    case False
    then obtain fs f where "filter (\<lambda>f. f \<noteq> []) (fields c t) = fs @ [f]" "list_all2 str_holds ps fs" "str_holds copy f"
      using l(3) by (auto simp: list_all2_append1 list_all2_Cons1)
    moreover from this(3) l(2) have "f = u" using eq_ok [of copy u copy f] eq_ok [of copy u copy u] by simp
    ultimately have "list_all2 str_holds (ps @ [p]) (filter (\<lambda>f. f \<noteq> []) (fields c t))"
      using p(2) by (auto intro: list_all2_appendI)
    then show ?thesis using s1(1) l(1) m False p(1) by (simp add: tokenise_def)
  qed
qed

section \<open>Formatting\<close>

lemma sprintf_ok:
  assumes "str_holds s u" "room_for 256 s" "vsprintf fmt args = Some (t @ [0], int (length t), ns)" "0 \<notin> set t" "length t < 256"
  shows "\<exists>s'. String_sprintf fmt args s = Some s' \<and> str_holds s' t"
proof -
  have ok: "blocks_ok s" using assms(1) by (simp add: str_holds_def)
  from reserve_ok [OF this assms(2)] obtain d where
    d: "reserve 256 s = Some (s\<lparr>m_Data := Some d, m_Size := length d\<rparr>)" "256 \<le> length d" by auto
  let ?d = "t @ 0 # drop (Suc (length t)) d"
  let ?s = "s\<lparr>m_Data := Some ?d, m_Size := length d, m_Length := length t\<rparr>"
  have p: "poke_data 0 (t @ [0]) (s\<lparr>m_Data := Some d, m_Size := length d\<rparr>) = Some (s\<lparr>m_Data := Some ?d, m_Size := length d\<rparr>)"
    using d(2) assms(5) by (simp add: poke_data_def poke_def)
  have len: "length ?d = length d" using d(2) assms(5) by simp
  have bl: "blocks_ok ?s" using ok len by (simp add: blocks_ok_def)
  show ?thesis
  proof (cases "length t < StaticSize")
    case False
    then have "str_holds ?s t" using bl assms(4,5) by (simp add: holds_dynamic)
    then show ?thesis using d(1) p assms(3) False by (simp add: String_sprintf_def drop_to_static_def)
  next
    case True
    have l: "length (m_Static s) = StaticSize" using ok by (simp add: blocks_ok_def)
    let ?st = "(t @ [0]) @ drop (Suc (length t)) (m_Static s)"
    have "poke 0 (t @ [0]) (m_Static s) = Some ?st" using True l by (simp add: poke_def)
    then have "drop_to_static True ?s = Some (?s\<lparr>m_Static := ?st, m_Size := StaticSize, m_Data := None\<rparr>)"
      using True by (simp add: drop_to_static_def poke_static_def)
    moreover have "str_holds (?s\<lparr>m_Static := ?st, m_Size := StaticSize, m_Data := None\<rparr>) t"
      using True l assms(4) by (simp add: holds_static blocks_ok_def)
    ultimately show ?thesis using d(1) p assms(3) by (simp add: String_sprintf_def)
  qed
qed

section \<open>The blocks of a string\<close>

text \<open>Everything a program can do to strings, whether or not it makes sense, except for \<open>chomp\<close> on an empty string.\<close>

inductive string_reach :: "string_obj \<Rightarrow> bool" where
  "string_reach (String_new j)"
| "string_reach s \<Longrightarrow> string_reach (String_free s)"
| "string_reach x \<Longrightarrow> string_reach s \<Longrightarrow> String_assign x s = Some s' \<Longrightarrow> string_reach s'"
| "string_reach s \<Longrightarrow> \<forall>t. c = Some t \<longrightarrow> length t + 1 < 2 ^ 64 \<Longrightarrow> String_assign_c c s = Some s' \<Longrightarrow> string_reach s'"
| "string_reach x \<Longrightarrow> string_reach s \<Longrightarrow> String_append x s = Some s' \<Longrightarrow> string_reach s'"
| "string_reach s \<Longrightarrow> length t + 1 < 2 ^ 64 \<Longrightarrow> String_append_c t s = Some s' \<Longrightarrow> string_reach s'"
| "string_reach s \<Longrightarrow> n < 2 ^ 64 \<Longrightarrow> reserve n s = Some s' \<Longrightarrow> string_reach s'"
| "string_reach s \<Longrightarrow> m_Length s \<noteq> 0 \<Longrightarrow> chomp s = Some s' \<Longrightarrow> string_reach s'"
| "string_reach s \<Longrightarrow> lstrip s = Some s' \<Longrightarrow> string_reach s'"
| "string_reach s \<Longrightarrow> rstrip s = Some s' \<Longrightarrow> string_reach s'"
| "string_reach s \<Longrightarrow> split n s = Some (r, s') \<Longrightarrow> string_reach s'"
| "string_reach s \<Longrightarrow> String_sprintf fmt args s = Some s' \<Longrightarrow> string_reach s'"

definition sized :: "string_obj \<Rightarrow> bool" where
  "sized s \<longleftrightarrow> blocks_ok s \<and> m_Size s < 2 ^ 64"

lemma sized_simps [simp]:
  "sized (s\<lparr>m_Length := n\<rparr>) = sized s"
  "sized s \<Longrightarrow> sized (s\<lparr>m_Data := None\<rparr>)"
  "sized (s\<lparr>m_Data := None, m_Size := 64\<rparr>) \<longleftrightarrow> length (m_Static s) = StaticSize"
  "sized (s\<lparr>m_Size := 64, m_Data := None\<rparr>) \<longleftrightarrow> length (m_Static s) = StaticSize"
  by (auto simp: sized_def blocks_ok_def)

lemma sizedD: "sized s \<Longrightarrow> length (m_Static s) = StaticSize" "sized s \<Longrightarrow> m_Size s < 2 ^ 64"
  "sized s \<Longrightarrow> m_Data s = Some d \<Longrightarrow> length d = m_Size s"
  by (auto simp: sized_def blocks_ok_def)

lemma poke_length: "poke i bs b = Some d \<Longrightarrow> length d = length b \<and> (bs \<noteq> [] \<longrightarrow> i + length bs \<le> length b)"
  by (auto simp: poke_def split: if_splits)

lemma poke_data_sized:
  assumes "poke_data i bs s = Some s'" "sized s"
  shows "sized s' \<and> m_Length s' = m_Length s \<and> (bs \<noteq> [] \<longrightarrow> i + length bs < 2 ^ 64)"
  using assms by (auto simp: poke_data_def sized_def blocks_ok_def bind_eq_Some_conv dest!: poke_length split: if_splits)

lemma poke_static_sized:
  assumes "poke_static i bs s = Some s'" "sized s" "i \<noteq> 2 ^ 64 - 1"
  shows "sized s' \<and> m_Length s' = m_Length s \<and> (bs \<noteq> [] \<longrightarrow> i + length bs \<le> 64)"
  using assms by (auto simp: poke_static_def sized_def blocks_ok_def bind_eq_Some_conv dest!: poke_length split: if_splits)

lemma poke_buffer_sized:
  assumes "poke_buffer dyn i bs s = Some s'" "sized s" "i \<noteq> 2 ^ 64 - 1"
  shows "sized s' \<and> m_Length s' = m_Length s"
  using assms poke_data_sized poke_static_sized by (auto simp: poke_buffer_def split: if_splits)

lemma reserve_sized:
  assumes "reserve n s = Some s'" "sized s" "n < 2 ^ 64"
  shows "sized s' \<and> m_Length s' = m_Length s"
  using assms
  by (auto simp: reserve_def Let_def sized_def blocks_ok_def bind_eq_Some_conv split: if_splits option.splits dest!: poke_length)

lemma drop_sized:
  assumes "drop_to_static dyn s = Some s'" "sized s"
  shows "sized s' \<and> m_Length s' = m_Length s"
  using assms
  by (auto simp: drop_to_static_def bind_eq_Some_conv sizedD(1) dest!: poke_static_sized split: if_splits)

lemma to_dynamic_sized: "to_dynamic s = Some s' \<Longrightarrow> sized s \<Longrightarrow> sized s' \<and> m_Length s' = m_Length s"
  by (auto simp: to_dynamic_def bind_eq_Some_conv dest!: poke_data_sized split: if_splits)

definition str_sound :: "string_obj \<Rightarrow> bool" where
  "str_sound s \<longleftrightarrow> sized s \<and> m_Length s < 2 ^ 64 - 1"

lemma with_end_less: "with_end n < 2 ^ 64"
  by (simp add: with_end_def)

lemmas keep_sized = poke_data_sized poke_static_sized poke_buffer_sized reserve_sized [OF _ _ with_end_less] drop_sized to_dynamic_sized

lemma assign_sound:
  assumes "String_assign x s = Some s'" "str_sound s" "str_sound x"
  shows "str_sound s'"
  using assms by (auto simp: str_sound_def String_assign_def Let_def bind_eq_Some_conv sizedD split: if_splits option.splits
      dest!: keep_sized)

lemma assign_c_sound:
  assumes "String_assign_c c s = Some s'" "str_sound s" "\<forall>t. c = Some t \<longrightarrow> length t + 1 < 2 ^ 64"
  shows "str_sound s'"
  using assms by (auto simp: str_sound_def String_assign_c_def Let_def bind_eq_Some_conv sizedD split: if_splits option.splits
      dest!: keep_sized)

text \<open>The end of an append; a sum that wraps around would need a block that does not fit into the memory.\<close>

lemma append_end_sound:
  assumes "(if l \<ge> StaticSize then do { s \<leftarrow> reserve (with_end l) s; s \<leftarrow> to_dynamic s; poke_data (m_Length s) bs s }
      else poke_static (m_Length s) bs s) = Some s'"
    "str_sound s" "length bs = n + 1" "l = (n + m_Length s) mod 2 ^ 64"
  shows "str_sound (s'\<lparr>m_Length := l\<rparr>)"
proof (cases "l \<ge> StaticSize")
  case True
  with assms(1) obtain s1 s2 where r: "reserve (with_end l) s = Some s1" "to_dynamic s1 = Some s2" "poke_data (m_Length s2) bs s2 = Some s'"
    by (auto simp: bind_eq_Some_conv)
  from reserve_sized [OF r(1) _ with_end_less] assms(2) have 1: "sized s1" "m_Length s1 = m_Length s" by (auto simp: str_sound_def)
  from to_dynamic_sized [OF r(2) 1(1)] 1(2) have 2: "sized s2" "m_Length s2 = m_Length s" by auto
  from poke_data_sized [OF r(3) 2(1)] assms(3) 2(2) have "sized s'" "m_Length s + (n + 1) < 2 ^ 64" by auto
  then show ?thesis using assms(4) by (simp add: str_sound_def)
next
  case False
  with assms(1,2) show ?thesis by (auto simp: str_sound_def dest!: poke_static_sized)
qed

lemma append_sound:
  assumes "String_append x s = Some s'" "str_sound s" "str_sound x"
  shows "str_sound s'"
proof -
  let ?n = "m_Length x" let ?l = "(?n + m_Length s) mod 2 ^ 64"
  have n: "with_end ?n = ?n + 1" using assms(3) by (simp add: str_sound_def with_end_def)
  obtain bs u where u: "peek_from (if ?n > StaticSize then m_Data x else Some (m_Static x)) (with_end ?n) = Some bs"
    "(if ?l \<ge> StaticSize then do { s \<leftarrow> reserve (with_end ?l) s; s \<leftarrow> to_dynamic s; poke_data (m_Length s) bs s }
      else poke_static (m_Length s) bs s) = Some u" "s' = u\<lparr>m_Length := ?l\<rparr>"
    using assms(1) by (fastforce simp: String_append_def Let_def bind_eq_Some_conv split: if_splits)
  have "length bs = ?n + 1" using u(1) n by (auto simp: peek_from_def peek_def bind_eq_Some_conv split: if_splits)
  from append_end_sound [OF u(2) assms(2) this refl] u(3) show ?thesis by simp
qed

lemma append_c_sound:
  assumes "String_append_c t s = Some s'" "str_sound s"
  shows "str_sound s'"
proof -
  let ?l = "(length t + m_Length s) mod 2 ^ 64"
  obtain u where u: "(if ?l \<ge> StaticSize then do { s \<leftarrow> reserve (with_end ?l) s; s \<leftarrow> to_dynamic s; poke_data (m_Length s) (t @ [0]) s }
      else poke_static (m_Length s) (t @ [0]) s) = Some u" "s' = u\<lparr>m_Length := ?l\<rparr>"
    using assms(1) by (auto simp: String_append_c_def Let_def bind_eq_Some_conv split: if_splits)
  from append_end_sound [OF u(1) assms(2) _ refl] u(2) show ?thesis by simp
qed

lemma trailing_le: "trailing b n \<le> n"
  by (induction n) auto

lemma shorten_sound:
  assumes "poke_buffer dyn i bs (s\<lparr>m_Length := n\<rparr>) = Some s1" "drop_to_static dyn s1 = Some s'" "str_sound s" "n \<le> m_Length s" "i \<le> n"
  shows "str_sound s'"
proof -
  have "i \<noteq> 2 ^ 64 - 1" using assms(3-5) by (simp add: str_sound_def)
  from poke_buffer_sized [OF assms(1) _ this] assms(3) have "sized s1" "m_Length s1 = n" by (auto simp: str_sound_def)
  with drop_sized [OF assms(2)] assms(3,4) show ?thesis by (simp add: str_sound_def)
qed

lemma chomp_sound: "chomp s = Some s' \<Longrightarrow> m_Length s \<noteq> 0 \<Longrightarrow> str_sound s \<Longrightarrow> str_sound s'"
  by (auto simp: chomp_def Let_def bind_eq_Some_conv intro: shorten_sound)

lemma strip_sound: "lstrip s = Some s' \<Longrightarrow> str_sound s \<Longrightarrow> str_sound s'" "rstrip s = Some s' \<Longrightarrow> str_sound s \<Longrightarrow> str_sound s'"
  by (auto simp: lstrip_def rstrip_def Let_def bind_eq_Some_conv trailing_le intro: shorten_sound split: option.splits if_splits)

lemma split_sound:
  assumes "split n s = Some (r, s')" "str_sound s"
  shows "str_sound s'"
proof -
  obtain buf t where b: "buffer s = Some buf" "c_text (drop n buf) = Some t"
    using assms(1) by (auto simp: split_def Let_def bind_eq_Some_conv)
  have "n < length buf" using b(2) by (auto simp: c_text_def not_le [symmetric] split: if_splits)
  moreover have "length buf < 2 ^ 64"
    using b(1) assms(2) sizedD [of s] by (fastforce simp: buffer_def str_sound_def split: if_splits)
  ultimately have n: "n < 2 ^ 64 - 1" by simp
  from assms(1) consider bs s1 where "poke_static 0 bs (s\<lparr>m_Length := n\<rparr>) = Some s1"
      "poke_static n [0] (s1\<lparr>m_Data := None, m_Size := StaticSize\<rparr>) = Some s'"
    | dyn where "poke_buffer dyn n [0] (s\<lparr>m_Length := n\<rparr>) = Some s'"
    by (auto simp: split_def Let_def bind_eq_Some_conv split: if_splits)
  then show ?thesis
  proof (cases)
    case 1
    from poke_static_sized [OF 1(1)] assms(2) have s1: "sized s1" "m_Length s1 = n" by (auto simp: str_sound_def)
    from poke_static_sized [OF 1(2)] s1 n show ?thesis by (simp add: str_sound_def sizedD(1))
  next
    case 2
    from poke_buffer_sized [OF 2] assms(2) n show ?thesis by (simp add: str_sound_def)
  qed
qed

lemma sprintf_sound:
  assumes "String_sprintf fmt args s = Some s'" "str_sound s"
  shows "str_sound s'"
proof -
  obtain s1 out ns s2 where r: "reserve 256 s = Some s1" "vsprintf fmt args = Some (out @ [0], int (length out), ns)"
      "poke_data 0 (out @ [0]) s1 = Some s2" "drop_to_static True (s2\<lparr>m_Length := length out\<rparr>) = Some s'"
    using assms(1) by (auto simp: String_sprintf_def vsprintf_def bind_eq_Some_conv)
  from reserve_sized [OF r(1)] assms(2) have "sized s1" by (simp add: str_sound_def)
  from poke_data_sized [OF r(3) this] have "sized s2" "length out + 1 < 2 ^ 64" by auto
  with drop_sized [OF r(4)] show ?thesis by (simp add: str_sound_def)
qed

section \<open>Properties\<close>

text \<open>C38: In every string that a program can make, by whatever operations except for \<open>chomp\<close> on an empty string, the
  static part has 64 bytes, a block has as many as the string believes, and length and size stay in their range.\<close>

theorem String_blocks_ok:
  assumes "string_reach s"
  shows "length (m_Static s) = StaticSize \<and> (\<forall>d. m_Data s = Some d \<longrightarrow> length d = m_Size s) \<and>
    m_Size s < 2 ^ 64 \<and> m_Length s < 2 ^ 64 - 1"
proof -
  have "str_sound s" using assms
  proof (induction rule: string_reach.induct)
    case (1 j)
    then show ?case by (simp add: str_sound_def sized_def String_new_def blocks_ok_def)
  next
    case (2 s)
    then show ?case by (simp add: str_sound_def sized_def String_free_def blocks_ok_def)
  next
    case (7 s n s')
    then show ?case using reserve_sized [OF 7(3) _ 7(2)] by (simp add: str_sound_def)
  qed (auto dest: assign_sound assign_c_sound append_sound append_c_sound chomp_sound strip_sound split_sound sprintf_sound)
  then show ?thesis by (simp add: str_sound_def sized_def blocks_ok_def)
qed

theorem String_blocks_ok_witness:
  "\<exists>s. reserve 100 (String_new (\<lambda>_. 7)) = Some s \<and> length (m_Static s) = StaticSize \<and> m_Data s = Some (replicate 100 7) \<and> m_Size s = 100"
proof -
  have r: "reserve 100 (String_new (\<lambda>_. 7)) = Some ((String_new (\<lambda>_. 7))\<lparr>m_Data := Some (replicate 100 7), m_Size := 100\<rparr>)"
    by (simp add: reserve_def String_new_def Let_def map_replicate_const)
  with String_blocks_ok [OF string_reach.intros(7) [OF string_reach.intros(1) _ r]] show ?thesis by simp
qed

text \<open>The operation left out there breaks it: after \<open>chomp\<close> on an empty string, an append writes its first character
  into the highest byte of the size, and the block is no longer as long as the string believes.\<close>

theorem String_chomp_breaks:
  "\<exists>s s1 s2. reserve 100 (String_new (\<lambda>_. 7)) = Some s \<and> chomp s = Some s1 \<and> String_append_c [97, 98] s1 = Some s2 \<and>
     m_Data s2 = Some (replicate 100 7) \<and> m_Size s2 = 100 + 97 * 2 ^ 56 \<and> const_char s2 = 98 # 0 # replicate 62 0 \<and> m_Length s2 = 1"
proof -
  let ?s = "(String_new (\<lambda>_. 7))\<lparr>m_Data := Some (replicate 100 7), m_Size := 100\<rparr>"
  let ?s1 = "?s\<lparr>m_Length := 2 ^ 64 - 1\<rparr>"
  have "reserve 100 (String_new (\<lambda>_. 7)) = Some ?s"
    by (simp add: reserve_def String_new_def Let_def map_replicate_const)
  moreover have "chomp ?s = Some ?s1"
    by (simp add: chomp_def String_new_def poke_buffer_def poke_static_def poke_def drop_to_static_def top_byte_def)
  moreover have "String_append_c [97, 98] ?s1 = Some (?s1\<lparr>m_Length := 1, m_Size := 100 + 97 * 2 ^ 56, m_Static := 98 # 0 # replicate 62 0\<rparr>)"
    by (simp add: String_append_c_def String_new_def poke_static_def poke_def top_byte_def Let_def)
  ultimately show ?thesis
    by (intro exI [of _ ?s] exI [of _ ?s1] exI conjI) (assumption | simp add: const_char_def String_new_def)+
qed

text \<open>C30: Splitting a string at a character gives the pieces between its occurrences that are not empty, in order.\<close>

theorem String_tokenise_correct:
  assumes "str_holds s t"
  shows "\<exists>ps. tokenise c s = Some ps \<and> list_all2 str_holds ps (filter (\<lambda>f. f \<noteq> []) (fields c t))"
  by (rule tokenise_ok [OF assms])

theorem String_tokenise_correct_witness:
  "\<exists>s ps. String_from (\<lambda>_. 0) (Some [97, 32, 32, 98, 99]) = Some s \<and> tokenise 32 s = Some ps \<and> list_all2 str_holds ps [[97], [98, 99]]"
  using from_ok [of "[97, 32, 32, 98, 99]" "\<lambda>_. 0"] String_tokenise_correct [of _ "[97, 32, 32, 98, 99]" 32] by fastforce

text \<open>Assigning a string fails when it has 64 characters or more, the block of the target was given back, and its
  old size would still be enough; otherwise the target holds the text.\<close>

theorem String_assign_fails_iff:
  assumes "str_holds x t" "blocks_ok s"
  shows "(String_assign x s = None \<longleftrightarrow> StaticSize \<le> length t \<and> m_Data s = None \<and> length t < m_Size s) \<and>
    (\<forall>s'. String_assign x s = Some s' \<longrightarrow> str_holds s' t)"
proof (cases "length t < StaticSize \<or> room_for (length t + 1) s")
  case True
  then show ?thesis using assign_ok [OF assms True] by (auto simp: room_for_def)
next
  case False
  then have f: "64 \<le> length t" "m_Data s = None" "length t < m_Size s" by (auto simp: room_for_def)
  obtain r where x: "m_Data x = Some (t @ 0 # r)" "m_Length x = length t" using assms(1) f(1) by (auto simp: holds_dynamic)
  have "reserve (length t + 1) (s\<lparr>m_Length := length t\<rparr>) = Some (s\<lparr>m_Length := length t\<rparr>)"
    using f by (intro reserve_stale) auto
  then have "String_assign x s = None"
    using x f(1,2) holds_end [OF assms(1)] by (simp add: String_assign_def poke_data_def Let_def)
  then show ?thesis using f by simp
qed

text \<open>So a long string that is given a short text, and then a long one again, is lost.\<close>

theorem String_assign_fails_iff_witness:
  "\<exists>x y s s'. String_from (\<lambda>_. 0) (Some (replicate 70 97)) = Some x \<and> String_from (\<lambda>_. 0) (Some []) = Some y \<and>
     String_copy x = Some s \<and> String_assign y s = Some s' \<and> String_assign x s' = None"
proof -
  have "(0 :: u8) \<notin> set (replicate 70 97)" by simp
  from from_ok [OF this, of "\<lambda>_. 0"] obtain x
    where x: "String_from (\<lambda>_. 0) (Some (replicate 70 97)) = Some x" "str_holds x (replicate 70 97)" by auto
  from from_ok [of "[]" "\<lambda>_. 0"] obtain y where y: "String_from (\<lambda>_. 0) (Some []) = Some y" "str_holds y []" by auto
  from copy_ok [OF x(2)] obtain s where s: "String_copy x = Some s" "str_holds s (replicate 70 97)" by blast
  then obtain r where "m_Data s = Some (replicate 70 97 @ 0 # r)" "blocks_ok s" by (auto simp: holds_dynamic)
  then have m: "70 < m_Size s" "blocks_ok s" by (auto simp: blocks_ok_def)
  from assign_static [OF y(2) _ m(2)] obtain s' where s': "String_assign y s = Some s'" "str_holds s' []" "m_Data s' = None" "m_Size s' = m_Size s"
    by auto
  have "blocks_ok s'" using s'(2) by (simp add: str_holds_def)
  from String_assign_fails_iff [OF x(2) this] s'(3,4) m(1) have "String_assign x s' = None" by simp
  then show ?thesis using x(1) y(1) s(1) s'(1) by blast
qed

text \<open>Appending a string joins the texts, except for a string of exactly 64 characters, whose end is read from
  behind its object.\<close>

theorem String_append_correct:
  assumes "str_holds x t" "str_holds s u" "usable s" "length u + length t + 1 < 2 ^ 64"
  shows "(if length t = StaticSize then String_append x s = None else \<exists>s'. String_append x s = Some s' \<and> str_holds s' (u @ t))"
proof (cases "length t = StaticSize")
  case False
  have "0 \<notin> set t" using assms(1) by (simp add: str_holds_def)
  from append_c_ok [OF assms(2) this _ assms(4)] usable_room [OF assms(3), of "length u + length t + 1"] False
  show ?thesis using append_eq [OF assms(1,2) False] by (cases "length u + length t < StaticSize") auto
qed (simp add: append_64 [OF assms(1)])

theorem String_append_correct_witness:
  "\<exists>x y s. String_from (\<lambda>_. 0) (Some [97]) = Some x \<and> String_from (\<lambda>_. 0) (Some (replicate 64 98)) = Some y \<and>
     String_append x x = Some s \<and> str_holds s [97, 97] \<and> String_append y x = None"
proof -
  from from_ok [of "[97]" "\<lambda>_. 0"] obtain x where x: "String_from (\<lambda>_. 0) (Some [97]) = Some x" "str_holds x [97]" "usable x" by auto
  have "(0 :: u8) \<notin> set (replicate 64 98)" by simp
  from from_ok [OF this, of "\<lambda>_. 0"] obtain y where y: "String_from (\<lambda>_. 0) (Some (replicate 64 98)) = Some y" "str_holds y (replicate 64 98)" by auto
  show ?thesis using x y String_append_correct [OF x(2,2,3)] String_append_correct [OF y(2) x(2,3)] by auto
qed

text \<open>Stripping removes the white space at both ends, and with it every byte above 127: the end of a text in UTF-8
  that ends with a letter outside of ASCII is lost.\<close>

theorem String_strip_correct:
  assumes "str_holds s t"
  shows "\<exists>s'. strip s = Some s' \<and> str_holds s' (rstripped (dropWhile iswhitespace t))"
  using lstrip_ok [OF assms] rstrip_ok by (fastforce simp: strip_def)

theorem String_strip_correct_witness:
  "\<exists>s s'. String_from (\<lambda>_. 0) (Some [32, 97, 0xC3, 0xA9]) = Some s \<and> strip s = Some s' \<and> str_holds s' [97]"
proof -
  obtain s where s: "String_from (\<lambda>_. 0) (Some [32, 97, 0xC3, 0xA9]) = Some s" "str_holds s [32, 97, 0xC3, 0xA9]"
    using from_ok [of "[32, 97, 0xC3, 0xA9]" "\<lambda>_. 0"] by auto
  have "rstripped (dropWhile iswhitespace [32, 97, 0xC3, 0xA9]) = [97]" by (simp add: rstripped_def iswhitespace_def)
  with String_strip_correct [OF s(2)] s(1) show ?thesis by auto
qed

text \<open>The comparisons are those of the texts.\<close>

theorem String_compare_correct:
  assumes "str_holds x t" "str_holds s u"
  shows "String_eq x s = Some (u = t) \<and> endswith x s = Some (suffix t u) \<and> startswith x s = Some (prefix t u)"
  using eq_ok [OF assms] ends_ok [OF assms] by simp

theorem String_compare_correct_witness:
  "\<exists>x s. String_from (\<lambda>_. 0) (Some [98]) = Some x \<and> String_from (\<lambda>_. 0) (Some [97, 98]) = Some s \<and>
     String_eq x s = Some False \<and> endswith x s = Some True \<and> startswith x s = Some False"
proof -
  obtain x s where "String_from (\<lambda>_. 0) (Some [98]) = Some x" "str_holds x [98]"
    "String_from (\<lambda>_. 0) (Some [97, 98]) = Some s" "str_holds s [97, 98]"
    using from_ok [of "[98]" "\<lambda>_. 0"] from_ok [of "[97, 98]" "\<lambda>_. 0"] by auto
  with String_compare_correct [of x "[98]" s "[97, 98]"] show ?thesis by (auto simp: suffix_def)
qed

text \<open>Formatting into a string gives what \<open>vsprintf\<close> writes, up to 255 characters.\<close>

theorem String_sprintf_correct:
  assumes "str_holds s u" "usable s" "vsprintf fmt args = Some (t @ [0], int (length t), ns)" "0 \<notin> set t" "length t < 256"
  shows "\<exists>s'. String_sprintf fmt args s = Some s' \<and> str_holds s' t"
  using sprintf_ok [OF assms(1) _ assms(3-5)] usable_room [OF assms(2)] by simp

theorem String_sprintf_correct_witness:
  "\<exists>s. String_sprintf [37, 117] [ArgInt 42] (String_new (\<lambda>_. 0)) = Some s \<and> str_holds s [52, 50]"
proof -
  have "vsprintf [37, 117] [ArgInt 42] = Some ([52, 50] @ [0], int (length [52, 50 :: u8]), [])" by code_simp
  from String_sprintf_correct [OF new_holds(1,2) this] show ?thesis by simp
qed

text \<open>Taking the last character off an empty string leaves one whose length is the largest number there is.\<close>

theorem String_chomp_empty:
  "\<exists>s. chomp (String_new j) = Some s \<and> m_Length s = 2 ^ 64 - 1 \<and> const_char s = [0] \<and> String_eq_c (Some []) s = Some False"
  by (simp add: chomp_def String_new_def const_char_def String_eq_c_def buffer_def poke_buffer_def poke_static_def poke_def
      drop_to_static_def)

end
