(* ===== verification/Ext2_Volume.thy ===== *)
theory Ext2_Volume
  imports Disk_Bytes "HOL-Library.Monad_Syntax"
begin

unbundle bit_operations_syntax

text \<open>
  The ext2 filesystem, first part: the volume, its bitmaps and its inodes (\<^verbatim>\<open>modules/system/ext2/Ext2Filesystem.cc\<close>,
  \<^verbatim>\<open>ext2.h\<close>).  The class \<open>Disk\<close> gives pointers into a cache of the disk: a block has the contents that the cache has,
  and writing a block only schedules its way to the disk, so it does not show in the state.  The superblock, the descriptors of
  the groups and the inodes, which the code uses by pointers into the cache, are records.  Block 0 stands for a hole and is
  read as the block of zeros that is shared by all, \<open>g_pSparseBlock\<close>.  A result \<open>None\<close> is a failed assertion, a panic, a null
  dereference (\<open>Disk::read\<close> gives null beyond the end of the disk), a division by zero or an access outside of a block.
\<close>

section \<open>The state\<close>

record Superblock =
  s_inodes_count :: u32
  s_free_blocks_count :: u32
  s_free_inodes_count :: u32
  s_first_data_block :: u32
  s_log_block_size :: u32
  s_blocks_per_group :: u32
  s_inodes_per_group :: u32
  s_magic :: u16
  s_rev_level :: u32
  s_inode_size :: u16
  s_feature_compat :: u32
  s_feature_incompat :: u32
  s_feature_ro_compat :: u32
  s_volume_name :: "u8 list"
  s_algo_bitmap :: u32

record GroupDesc =
  bg_block_bitmap :: u32
  bg_inode_bitmap :: u32
  bg_inode_table :: u32
  bg_free_blocks_count :: u16
  bg_free_inodes_count :: u16

record Inode =
  i_mode :: u16
  i_uid :: u16
  i_size :: u32
  i_atime :: u32
  i_ctime :: u32
  i_mtime :: u32
  i_dtime :: u32
  i_gid :: u16
  i_links_count :: u16
  i_blocks :: u32
  i_flags :: u32
  i_block :: "u32 list"

record ext2_fs =
  m_pSuperblock :: Superblock
  m_pGroupDescriptors :: "GroupDesc option list"
  m_BlockSize :: nat
  m_InodeSize :: nat
  inodes :: "u32 \<Rightarrow> Inode"
  blocks :: "u32 \<Rightarrow> u8 list"
  disk_blocks :: nat
  g_pSparseBlock :: "u8 list"

section \<open>Blocks\<close>

definition readBlock :: "u32 \<Rightarrow> ext2_fs \<Rightarrow> u8 list option" where
  "readBlock block fs =
     (if block = 0 then Some (g_pSparseBlock fs)
      else if unat block < disk_blocks fs then Some (blocks fs block) else None)"

text \<open>What a pointer to a block is used for: a change of its contents.\<close>

definition modify_block :: "u32 \<Rightarrow> (u8 list \<Rightarrow> u8 list) \<Rightarrow> ext2_fs \<Rightarrow> ext2_fs" where
  "modify_block block f fs =
     (if block = 0 then fs\<lparr>g_pSparseBlock := f (g_pSparseBlock fs)\<rparr>
      else fs\<lparr>blocks := (blocks fs)(block := f (blocks fs block))\<rparr>)"

definition group_at :: "ext2_fs \<Rightarrow> nat \<Rightarrow> GroupDesc option" where
  "group_at fs g = (if g < length (m_pGroupDescriptors fs) then m_pGroupDescriptors fs ! g else None)"

definition modify_group :: "nat \<Rightarrow> (GroupDesc \<Rightarrow> GroupDesc) \<Rightarrow> ext2_fs \<Rightarrow> ext2_fs" where
  "modify_group g f fs = fs\<lparr>m_pGroupDescriptors := (m_pGroupDescriptors fs)[g := map_option f (m_pGroupDescriptors fs ! g)]\<rparr>"

definition modify_super :: "(Superblock \<Rightarrow> Superblock) \<Rightarrow> ext2_fs \<Rightarrow> ext2_fs" where
  "modify_super f fs = fs\<lparr>m_pSuperblock := f (m_pSuperblock fs)\<rparr>"

section \<open>Bitmaps\<close>

text \<open>How many blocks \<open>ensureFreeBlockBitmapLoaded\<close> and \<open>ensureFreeInodeBitmapLoaded\<close> load for a bitmap of so many bits.\<close>

definition bitmap_length :: "ext2_fs \<Rightarrow> u32 \<Rightarrow> nat" where
  "bitmap_length fs per_group =
     unat per_group div (m_BlockSize fs * 8) + (if unat per_group mod (m_BlockSize fs * 8) \<noteq> 0 then 1 else 0)"

definition word_at :: "nat \<Rightarrow> u8 list \<Rightarrow> u32" where
  "word_at off buf = le32 (le16 (buf ! off) (buf ! (off + 1))) (le16 (buf ! (off + 2)) (buf ! (off + 3)))"

fun zero_bit :: "nat \<Rightarrow> nat \<Rightarrow> u32 \<Rightarrow> nat option" where
  "zero_bit 0 j tmp = None"
| "zero_bit (Suc k) j tmp = (if tmp AND 1 = 0 then Some j else zero_bit k (j + 1) (drop_bit 1 tmp))"

text \<open>The search for a bit that is zero in the bitmap that starts at block \<open>start\<close>, from byte \<open>i\<close> on: the byte of its word and
  its place in the word.\<close>

function scan_bitmap :: "ext2_fs \<Rightarrow> u32 \<Rightarrow> u32 \<Rightarrow> nat \<Rightarrow> (nat \<times> nat) option option" where
  "scan_bitmap fs start per_group i =
     (if i < unat per_group div 8
      then
        let idx = i div (m_BlockSize fs * 8); off = i mod (m_BlockSize fs * 8)
        in if bitmap_length fs per_group \<le> idx \<or> m_BlockSize fs < off + 4 then None
           else do {
             buf \<leftarrow> readBlock (start + of_nat idx) fs;
             let tmp = word_at off buf;
             (if tmp = - 1 then scan_bitmap fs start per_group (i + 4)
              else map_option (\<lambda>j. Some (i, j)) (zero_bit 32 0 tmp)) }
      else Some None)"
  by auto
termination by (relation "measure (\<lambda>(fs, start, per_group, i). unat per_group div 8 - i)") auto

declare scan_bitmap.simps [simp del]

definition set_bit_at :: "u32 \<Rightarrow> nat \<Rightarrow> nat \<Rightarrow> ext2_fs \<Rightarrow> ext2_fs" where
  "set_bit_at start i j fs =
     (let idx = i div (m_BlockSize fs * 8); off = i mod (m_BlockSize fs * 8)
      in modify_block (start + of_nat idx) (\<lambda>buf. splice off (bytes32 (word_at off buf OR push_bit j 1)) buf) fs)"

definition clear_bit_at :: "u32 \<Rightarrow> nat \<Rightarrow> ext2_fs \<Rightarrow> ext2_fs" where
  "clear_bit_at start index fs =
     (let field = index div 8 div m_BlockSize fs; off = index div 8 mod m_BlockSize fs
      in modify_block (start + of_nat field) (\<lambda>buf. buf[off := buf ! off AND NOT (push_bit (index mod 8) 1)]) fs)"

section \<open>Taking blocks and inodes\<close>

function free_block_from :: "nat \<Rightarrow> ext2_fs \<Rightarrow> (u32 \<times> ext2_fs) option" where
  "free_block_from g fs =
     (if g < length (m_pGroupDescriptors fs)
      then do {
        d \<leftarrow> group_at fs g;
        (if bg_free_blocks_count d = 0 then free_block_from (g + 1) fs
         else do {
           let per_group = s_blocks_per_group (m_pSuperblock fs);
           found \<leftarrow> scan_bitmap fs (bg_block_bitmap d) per_group 0;
           (case found of
              None \<Rightarrow> free_block_from (g + 1) fs
            | Some (i, j) \<Rightarrow>
                let fs = set_bit_at (bg_block_bitmap d) i j fs;
                    fs = modify_group g (\<lambda>d. d\<lparr>bg_free_blocks_count := bg_free_blocks_count d - 1\<rparr>) fs;
                    fs = modify_super (\<lambda>s. s\<lparr>s_free_blocks_count := s_free_blocks_count s - 1\<rparr>) fs
                in Some (of_nat g * per_group + of_nat (i * 8) + of_nat j, fs)) }) }
      else Some (0, fs))"
  by auto
termination by (relation "measure (\<lambda>(g, fs). length (m_pGroupDescriptors fs) - g)") auto

declare free_block_from.simps [simp del]

definition findFreeBlock :: "u32 \<Rightarrow> ext2_fs \<Rightarrow> (u32 \<times> ext2_fs) option" where
  "findFreeBlock inode fs =
     (if s_inodes_per_group (m_pSuperblock fs) = 0 \<or> m_BlockSize fs = 0 then None
      else free_block_from (unat ((inode - 1) div s_inodes_per_group (m_pSuperblock fs))) fs)"

function free_inode_from :: "nat \<Rightarrow> ext2_fs \<Rightarrow> (u32 \<times> ext2_fs) option" where
  "free_inode_from g fs =
     (if g < length (m_pGroupDescriptors fs)
      then do {
        d \<leftarrow> group_at fs g;
        (if bg_free_inodes_count d = 0 then free_inode_from (g + 1) fs
         else do {
           let per_group = s_inodes_per_group (m_pSuperblock fs);
           found \<leftarrow> scan_bitmap fs (bg_inode_bitmap d) per_group 0;
           (case found of
              None \<Rightarrow> free_inode_from (g + 1) fs
            | Some (i, j) \<Rightarrow>
                let fs = set_bit_at (bg_inode_bitmap d) i j fs;
                    fs = modify_group g (\<lambda>d. d\<lparr>bg_free_inodes_count := bg_free_inodes_count d - 1\<rparr>) fs;
                    fs = modify_super (\<lambda>s. s\<lparr>s_free_inodes_count := s_free_inodes_count s - 1\<rparr>) fs
                in Some (of_nat g * per_group + of_nat (i * 8) + (of_nat j + 1), fs)) }) }
      else Some (0, fs))"
  by auto
termination by (relation "measure (\<lambda>(g, fs). length (m_pGroupDescriptors fs) - g)") auto

declare free_inode_from.simps [simp del]

definition findFreeInode :: "ext2_fs \<Rightarrow> (u32 \<times> ext2_fs) option" where
  "findFreeInode fs = (if m_BlockSize fs = 0 then None else free_inode_from 0 fs)"

section \<open>Giving back blocks\<close>

definition releaseBlock :: "u32 \<Rightarrow> ext2_fs \<Rightarrow> ext2_fs option" where
  "releaseBlock block fs =
     (let per_group = s_blocks_per_group (m_pSuperblock fs);
          g = unat (block div per_group); index = unat (block mod per_group)
      in if per_group = 0 \<or> m_BlockSize fs = 0 then None
         else do {
           d \<leftarrow> group_at fs g;
           let fs = modify_group g (\<lambda>d. d\<lparr>bg_free_blocks_count := bg_free_blocks_count d + 1\<rparr>) fs;
           let fs = modify_super (\<lambda>s. s\<lparr>s_free_blocks_count := s_free_blocks_count s + 1\<rparr>) fs;
           _ \<leftarrow> readBlock (bg_block_bitmap d + of_nat (index div 8 div m_BlockSize fs)) fs;
           Some (clear_bit_at (bg_block_bitmap d) index fs) })"

section \<open>Inodes\<close>

text \<open>The table of a group must be loaded, and a table smaller than a block is not (\<open>ensureInodeTableLoaded\<close>).\<close>

definition inode_ok :: "u32 \<Rightarrow> ext2_fs \<Rightarrow> bool" where
  "inode_ok inode fs \<longleftrightarrow>
     s_inodes_per_group (m_pSuperblock fs) \<noteq> 0 \<and> m_BlockSize fs \<noteq> 0 \<and>
     unat ((inode - 1) div s_inodes_per_group (m_pSuperblock fs)) < length (m_pGroupDescriptors fs) \<and>
     group_at fs (unat ((inode - 1) div s_inodes_per_group (m_pSuperblock fs))) \<noteq> None"

definition getInode :: "u32 \<Rightarrow> ext2_fs \<Rightarrow> Inode option" where
  "getInode inode fs =
     (if inode_ok inode fs \<and> m_BlockSize fs \<le> unat (s_inodes_per_group (m_pSuperblock fs)) * m_InodeSize fs
      then Some (inodes fs inode) else None)"

definition modify_inode :: "u32 \<Rightarrow> (Inode \<Rightarrow> Inode) \<Rightarrow> ext2_fs \<Rightarrow> ext2_fs" where
  "modify_inode inode f fs = fs\<lparr>inodes := (inodes fs)(inode := f (inodes fs inode))\<rparr>"

text \<open>\<open>writeInode\<close> schedules the block of an inode; what is left of it here is its assertion.\<close>

definition writeInode :: "u32 \<Rightarrow> ext2_fs \<Rightarrow> ext2_fs option" where
  "writeInode inode fs = (if inode_ok inode fs then Some fs else None)"

definition increaseInodeRefcount :: "u32 \<Rightarrow> ext2_fs \<Rightarrow> ext2_fs option" where
  "increaseInodeRefcount inode fs = do {
     _ \<leftarrow> getInode inode fs;
     writeInode inode (modify_inode inode (\<lambda>i. i\<lparr>i_links_count := i_links_count i + 1\<rparr>) fs) }"

definition decreaseInodeRefcount :: "u32 \<Rightarrow> ext2_fs \<Rightarrow> (bool \<times> ext2_fs) option" where
  "decreaseInodeRefcount inode fs = do {
     i \<leftarrow> getInode inode fs;
     let bRemove = (i_links_count i \<le> 1);
     fs \<leftarrow> writeInode inode
       (if i_links_count i \<noteq> 0 then modify_inode inode (\<lambda>i. i\<lparr>i_links_count := i_links_count i - 1\<rparr>) fs else fs);
     Some (bRemove, fs) }"

text \<open>The time is an argument.  The inode that is written at the end is the one before.\<close>

definition releaseInode :: "u32 \<Rightarrow> u32 \<Rightarrow> ext2_fs \<Rightarrow> (bool \<times> ext2_fs) option" where
  "releaseInode now inode fs = do {
     _ \<leftarrow> getInode inode fs;
     let per_group = s_inodes_per_group (m_pSuperblock fs);
     let g = unat ((inode - 1) div per_group);
     let index = unat ((inode - 1) mod per_group);
     (bRemove, fs) \<leftarrow> decreaseInodeRefcount inode fs;
     fs \<leftarrow>
       (if bRemove
        then do {
          let fs = modify_inode inode (\<lambda>i. i\<lparr>i_dtime := now\<rparr>) fs;
          d \<leftarrow> group_at fs g;
          let fs = modify_group g (\<lambda>d. d\<lparr>bg_free_inodes_count := bg_free_inodes_count d + 1\<rparr>) fs;
          let fs = modify_super (\<lambda>s. s\<lparr>s_free_inodes_count := s_free_inodes_count s + 1\<rparr>) fs;
          _ \<leftarrow> readBlock (bg_inode_bitmap d + of_nat (index div 8 div m_BlockSize fs)) fs;
          Some (clear_bit_at (bg_inode_bitmap d) index fs) }
        else Some fs);
     fs \<leftarrow> writeInode (inode - 1) fs;
     Some (bRemove, fs) }"

section \<open>Features\<close>

definition checkOptionalFeature :: "ext2_fs \<Rightarrow> u32 \<Rightarrow> bool" where
  "checkOptionalFeature fs feature \<longleftrightarrow> 1 \<le> s_rev_level (m_pSuperblock fs) \<and> s_feature_compat (m_pSuperblock fs) AND feature \<noteq> 0"

definition checkRequiredFeature :: "ext2_fs \<Rightarrow> u32 \<Rightarrow> bool" where
  "checkRequiredFeature fs feature \<longleftrightarrow> 1 \<le> s_rev_level (m_pSuperblock fs) \<and> s_feature_incompat (m_pSuperblock fs) AND feature \<noteq> 0"

definition checkReadOnlyFeature :: "ext2_fs \<Rightarrow> u32 \<Rightarrow> bool" where
  "checkReadOnlyFeature fs feature \<longleftrightarrow> 1 \<le> s_rev_level (m_pSuperblock fs) \<and> s_feature_ro_compat (m_pSuperblock fs) AND feature \<noteq> 0"

section \<open>Mounting\<close>

text \<open>The structures on the disk, byte by byte.\<close>

definition disk16 :: "(nat \<Rightarrow> u8) \<Rightarrow> nat \<Rightarrow> u16" where
  "disk16 d i = le16 (d i) (d (i + 1))"

definition disk32 :: "(nat \<Rightarrow> u8) \<Rightarrow> nat \<Rightarrow> u32" where
  "disk32 d i = le32 (disk16 d i) (disk16 d (i + 2))"

definition super_at :: "(nat \<Rightarrow> u8) \<Rightarrow> nat \<Rightarrow> Superblock" where
  "super_at d p =
     \<lparr>s_inodes_count = disk32 d p, s_free_blocks_count = disk32 d (p + 12), s_free_inodes_count = disk32 d (p + 16),
      s_first_data_block = disk32 d (p + 20), s_log_block_size = disk32 d (p + 24), s_blocks_per_group = disk32 d (p + 32),
      s_inodes_per_group = disk32 d (p + 40), s_magic = disk16 d (p + 56), s_rev_level = disk32 d (p + 76),
      s_inode_size = disk16 d (p + 88), s_feature_compat = disk32 d (p + 92), s_feature_incompat = disk32 d (p + 96),
      s_feature_ro_compat = disk32 d (p + 100), s_volume_name = map d [p + 120 ..< p + 136], s_algo_bitmap = disk32 d (p + 200)\<rparr>"

definition group_desc_at :: "(nat \<Rightarrow> u8) \<Rightarrow> nat \<Rightarrow> GroupDesc" where
  "group_desc_at d p =
     \<lparr>bg_block_bitmap = disk32 d p, bg_inode_bitmap = disk32 d (p + 4), bg_inode_table = disk32 d (p + 8),
      bg_free_blocks_count = disk16 d (p + 12), bg_free_inodes_count = disk16 d (p + 14)\<rparr>"

definition inode_at :: "(nat \<Rightarrow> u8) \<Rightarrow> nat \<Rightarrow> Inode" where
  "inode_at d p =
     \<lparr>i_mode = disk16 d p, i_uid = disk16 d (p + 2), i_size = disk32 d (p + 4), i_atime = disk32 d (p + 8),
      i_ctime = disk32 d (p + 12), i_mtime = disk32 d (p + 16), i_dtime = disk32 d (p + 20), i_gid = disk16 d (p + 24),
      i_links_count = disk16 d (p + 26), i_blocks = disk32 d (p + 28), i_flags = disk32 d (p + 32),
      i_block = map (\<lambda>k. disk32 d (p + 40 + 4 * k)) [0..<15]\<rparr>"

definition initialise :: "(nat \<Rightarrow> u8) \<Rightarrow> nat \<Rightarrow> ext2_fs option option" where
  "initialise d sz =
     (if sz \<le> 1024 then None
      else
        let s = super_at d 1024;
            compressed = (1 \<le> s_rev_level s \<and> s_feature_incompat s AND 1 \<noteq> 0)
        in if s_magic s \<noteq> 0xEF53 then Some None
           else if compressed \<and> s_algo_bitmap s \<notin> {1, 2, 4, 8, 16} then Some None
           else
             let isz = (if 1 \<le> s_rev_level s then unat (s_inode_size s) else 128);
                 bs = unat (push_bit (unat (s_log_block_size s) mod 32) (1024 :: u32));
                 gdBlock = s_first_data_block s + 1
             in if 4096 < bs \<or> bs = 0 \<or> s_inodes_per_group s = 0 then None
                else
                  let n = unat (s_inodes_count s div s_inodes_per_group s + s_inodes_count s mod s_inodes_per_group s);
                      place = (\<lambda>i. bs * unat (gdBlock + of_nat (i * 32 div bs)) + i * 32 mod bs);
                      descs = map (\<lambda>i. if place i < sz then Some (group_desc_at d (place i)) else None) [0..<n]
                  in Some (Some
                       \<lparr>m_pSuperblock = s, m_pGroupDescriptors = descs, m_BlockSize = bs, m_InodeSize = isz,
                        inodes = (\<lambda>k. let g = unat ((k - 1) div s_inodes_per_group s); p = unat ((k - 1) mod s_inodes_per_group s) * isz
                                       in inode_at d (bs * unat (bg_inode_table (the (descs ! g)) + of_nat (p div bs)) + p mod bs)),
                        blocks = (\<lambda>b. map d [bs * unat b ..< bs * unat b + bs]), disk_blocks = (sz + bs - 1) div bs,
                        g_pSparseBlock = replicate 4096 0\<rparr>))"

text \<open>The default label, which has the address of the file system in it, is an argument.\<close>

definition getVolumeLabel :: "u8 list \<Rightarrow> ext2_fs \<Rightarrow> u8 list" where
  "getVolumeLabel noLabel fs =
     (if s_rev_level (m_pSuperblock fs) < 1 \<or> s_volume_name (m_pSuperblock fs) ! 0 = 0 then noLabel
      else takeWhile (\<lambda>c. c \<noteq> 0) (take 16 (s_volume_name (m_pSuperblock fs))))"

end
