(* ===== verification/Ext2_Node.thy ===== *)
theory Ext2_Node
  imports Ext2_Volume
begin

text \<open>
  The files of the ext2 filesystem (\<^verbatim>\<open>Ext2Node.cc\<close>): the numbers of the blocks of a file, directly in its inode or in
  tables, reading, writing, growing and wiping it.  The pointer to the inode is its number; \<open>m_nBlocks\<close> is the length of
  \<open>m_pBlocks\<close>, in which the largest number stands for a block whose number was not loaded yet.  Sizes and
  positions are natural numbers.
\<close>

record ext2_node =
  m_InodeNumber :: u32
  m_pBlocks :: "u32 list"
  m_nSize :: nat

abbreviation m_nBlocks :: "ext2_node \<Rightarrow> nat" where
  "m_nBlocks nd \<equiv> length (m_pBlocks nd)"

definition m_pInode :: "ext2_fs \<Rightarrow> ext2_node \<Rightarrow> Inode" where
  "m_pInode fs nd = inodes fs (m_InodeNumber nd)"

definition modify_node :: "ext2_node \<Rightarrow> (Inode \<Rightarrow> Inode) \<Rightarrow> ext2_fs \<Rightarrow> ext2_fs" where
  "modify_node nd f fs = modify_inode (m_InodeNumber nd) f fs"

definition Ext2Node :: "u32 \<Rightarrow> ext2_fs \<Rightarrow> ext2_node" where
  "Ext2Node inode_num fs =
     (let i = inodes fs inode_num; n = unat (i_blocks i * 512) div m_BlockSize fs
      in \<lparr>m_InodeNumber = inode_num, m_pBlocks = map (\<lambda>k. if k < 12 then i_block i ! k else - 1) [0..<n],
          m_nSize = unat (i_size i)\<rparr>)"

section \<open>The numbers of the blocks\<close>

definition getBlockNumberIndirect :: "u32 \<Rightarrow> nat \<Rightarrow> ext2_node \<Rightarrow> ext2_fs \<Rightarrow> ext2_node option" where
  "getBlockNumberIndirect inode_block nBlocks nd fs = do {
     buffer \<leftarrow> readBlock inode_block fs;
     let k = min (m_BlockSize fs div 4) (m_nBlocks nd - nBlocks);
     Some (nd\<lparr>m_pBlocks := splice nBlocks (map (\<lambda>i. word_at (4 * i) buffer) [0..<k]) (m_pBlocks nd)\<rparr>) }"

definition getBlockNumberBiindirect :: "u32 \<Rightarrow> nat \<Rightarrow> nat \<Rightarrow> ext2_node \<Rightarrow> ext2_fs \<Rightarrow> ext2_node option" where
  "getBlockNumberBiindirect inode_block nBlocks nBlock nd fs = do {
     let nPerBlock = m_BlockSize fs div 4;
     buffer \<leftarrow> readBlock inode_block fs;
     let nIndirectBlock = (nBlock - nBlocks) div nPerBlock;
     (if nPerBlock \<le> nIndirectBlock then None
      else getBlockNumberIndirect (word_at (4 * nIndirectBlock) buffer) (nBlocks + nIndirectBlock * nPerBlock) nd fs) }"

definition getBlockNumberTriindirect :: "u32 \<Rightarrow> nat \<Rightarrow> nat \<Rightarrow> ext2_node \<Rightarrow> ext2_fs \<Rightarrow> ext2_node option" where
  "getBlockNumberTriindirect inode_block nBlocks nBlock nd fs = do {
     let nPerBlock = m_BlockSize fs div 4;
     buffer \<leftarrow> readBlock inode_block fs;
     let nBiBlock = (nBlock - nBlocks) div (nPerBlock * nPerBlock);
     (if nPerBlock \<le> nBiBlock then None
      else getBlockNumberBiindirect (word_at (4 * nBiBlock) buffer) (nBlocks + nBiBlock * nPerBlock * nPerBlock) nBlock nd fs) }"

definition getBlockNumber :: "nat \<Rightarrow> ext2_node \<Rightarrow> ext2_fs \<Rightarrow> ext2_node option" where
  "getBlockNumber nBlock nd fs =
     (let nPerBlock = m_BlockSize fs div 4; b = i_block (m_pInode fs nd)
      in if nBlock < 12 \<or> nPerBlock = 0 then None
         else if nBlock < nPerBlock + 12 then getBlockNumberIndirect (b ! 12) 12 nd fs
         else if nBlock < nPerBlock * nPerBlock + nPerBlock + 12 then getBlockNumberBiindirect (b ! 13) (nPerBlock + 12) nBlock nd fs
         else getBlockNumberTriindirect (b ! 14) (nPerBlock * nPerBlock + nPerBlock + 12) nBlock nd fs)"

definition ensureBlockLoaded :: "nat \<Rightarrow> ext2_node \<Rightarrow> ext2_fs \<Rightarrow> ext2_node option" where
  "ensureBlockLoaded nBlock nd fs =
     (if m_nBlocks nd \<le> nBlock then None
      else if m_pBlocks nd ! nBlock = - 1 then getBlockNumber nBlock nd fs else Some nd)"

section \<open>Growing\<close>

definition fileAttributeChanged :: "nat \<Rightarrow> u32 \<Rightarrow> u32 \<Rightarrow> u32 \<Rightarrow> ext2_node \<Rightarrow> ext2_fs \<Rightarrow> (ext2_node \<times> ext2_fs) option" where
  "fileAttributeChanged sz atime mtime ctime nd fs = do {
     let fs = modify_node nd (\<lambda>i. i\<lparr>i_blocks := of_nat (m_nBlocks nd * m_BlockSize fs) div 512, i_size := of_nat sz,
                                   i_atime := atime, i_mtime := mtime, i_ctime := ctime\<rparr>) fs;
     fs \<leftarrow> writeInode (m_InodeNumber nd) fs;
     Some (nd\<lparr>m_nSize := sz\<rparr>, fs) }"

definition updateMetadata :: "u16 \<Rightarrow> u16 \<Rightarrow> u32 \<Rightarrow> ext2_node \<Rightarrow> ext2_fs \<Rightarrow> ext2_fs option" where
  "updateMetadata uid gid perms nd fs =
     writeInode (m_InodeNumber nd)
       (modify_node nd (\<lambda>i. i\<lparr>i_uid := uid, i_gid := gid, i_mode := ucast ((ucast (i_mode i) AND NOT (0x1FF :: u32)) OR perms)\<rparr>) fs)"

definition trackBlock :: "u32 \<Rightarrow> ext2_node \<Rightarrow> ext2_fs \<Rightarrow> (ext2_node \<times> ext2_fs) option" where
  "trackBlock block nd fs = do {
     let nd = nd\<lparr>m_pBlocks := m_pBlocks nd @ [block]\<rparr>;
     fs \<leftarrow> writeInode (m_InodeNumber nd)
       (modify_node nd (\<lambda>i. i\<lparr>i_blocks := of_nat (m_nBlocks nd * m_BlockSize fs) div 512\<rparr>) fs);
     Some (nd, fs) }"

text \<open>A new table: the place for its number is in the inode.  The result says whether there was a free block.\<close>

definition zero_block :: "u32 \<Rightarrow> ext2_fs \<Rightarrow> ext2_fs option" where
  "zero_block block fs = do {
     _ \<leftarrow> readBlock block fs;
     Some (modify_block block (\<lambda>buf. splice 0 (replicate (m_BlockSize fs) 0) buf) fs) }"

definition new_table :: "nat \<Rightarrow> ext2_node \<Rightarrow> ext2_fs \<Rightarrow> (bool \<times> ext2_fs) option" where
  "new_table k nd fs = do {
     (newBlock, fs) \<leftarrow> findFreeBlock (m_InodeNumber nd) fs;
     let fs = modify_node nd (\<lambda>i. i\<lparr>i_block := (i_block i)[k := newBlock]\<rparr>) fs;
     (if newBlock = 0 then Some (False, fs) else map_option (Pair True) (zero_block newBlock fs)) }"

definition store_word :: "u32 \<Rightarrow> nat \<Rightarrow> u32 \<Rightarrow> ext2_fs \<Rightarrow> ext2_fs option" where
  "store_word block idx v fs = do {
     _ \<leftarrow> readBlock block fs;
     Some (modify_block block (\<lambda>buf. splice (4 * idx) (bytes32 v) buf) fs) }"

definition addIndirect :: "u32 \<Rightarrow> ext2_node \<Rightarrow> ext2_fs \<Rightarrow> (bool \<times> ext2_fs) option" where
  "addIndirect blockValue nd fs = do {
     (ok, fs) \<leftarrow> (if m_nBlocks nd = 12 then new_table 12 nd fs else Some (True, fs));
     (if \<not> ok then Some (False, fs)
      else map_option (Pair True) (store_word (i_block (m_pInode fs nd) ! 12) (m_nBlocks nd - 12) blockValue fs)) }"

definition new_indirect :: "u32 \<Rightarrow> nat \<Rightarrow> ext2_node \<Rightarrow> ext2_fs \<Rightarrow> (bool \<times> ext2_fs) option" where
  "new_indirect bufferBlock indirectBlock nd fs = do {
     (newBlock, fs) \<leftarrow> findFreeBlock (m_InodeNumber nd) fs;
     fs \<leftarrow> store_word bufferBlock indirectBlock newBlock fs;
     (if newBlock = 0 then Some (False, fs) else map_option (Pair True) (zero_block newBlock fs)) }"

definition addBiindirect :: "u32 \<Rightarrow> ext2_node \<Rightarrow> ext2_fs \<Rightarrow> (bool \<times> ext2_fs) option" where
  "addBiindirect blockValue nd fs = do {
     let nEntriesPerBlock = m_BlockSize fs div 4;
     let biIdx = m_nBlocks nd - 12 - nEntriesPerBlock;
     let indirectBlock = biIdx div nEntriesPerBlock;
     let indirectIdx = biIdx mod nEntriesPerBlock;
     (ok, fs) \<leftarrow> (if biIdx = 0 then new_table 13 nd fs else Some (True, fs));
     (if \<not> ok then Some (False, fs)
      else do {
        let bufferBlock = i_block (m_pInode fs nd) ! 13;
        _ \<leftarrow> readBlock bufferBlock fs;
        (ok, fs) \<leftarrow> (if indirectIdx = 0 then new_indirect bufferBlock indirectBlock nd fs else Some (True, fs));
        (if \<not> ok then Some (False, fs)
         else do {
           pBlock \<leftarrow> readBlock bufferBlock fs;
           map_option (Pair True) (store_word (word_at (4 * indirectBlock) pBlock) indirectIdx blockValue fs) }) }) }"

definition addBlock :: "u32 \<Rightarrow> ext2_node \<Rightarrow> ext2_fs \<Rightarrow> (bool \<times> ext2_node \<times> ext2_fs) option" where
  "addBlock blockValue nd fs = do {
     let nEntriesPerBlock = m_BlockSize fs div 4;
     (ok, fs) \<leftarrow>
       (if m_nBlocks nd < 12
        then Some (True, modify_node nd (\<lambda>i. i\<lparr>i_block := (i_block i)[m_nBlocks nd := blockValue]\<rparr>) fs)
        else if m_nBlocks nd < 12 + nEntriesPerBlock then addIndirect blockValue nd fs
        else if m_nBlocks nd < 12 + nEntriesPerBlock + nEntriesPerBlock * nEntriesPerBlock then addBiindirect blockValue nd fs
        else None);
     (if \<not> ok then Some (False, nd, fs) else map_option (Pair True) (trackBlock blockValue nd fs)) }"

partial_function (option) grow :: "nat \<Rightarrow> ext2_node \<Rightarrow> ext2_fs \<Rightarrow> (bool \<times> ext2_node \<times> ext2_fs) option" where
  "grow sz nd fs =
     (if sz \<le> unat (of_nat (m_nBlocks nd * m_BlockSize fs) :: u32) then Some (True, nd, fs)
      else do {
        (block, fs) \<leftarrow> findFreeBlock (m_InodeNumber nd) fs;
        (if block = 0 then Some (False, nd, fs)
         else do {
           (ok, nd, fs) \<leftarrow> addBlock block nd fs;
           (if \<not> ok then Some (False, nd, fs)
            else do { fs \<leftarrow> zero_block block fs; grow sz nd fs }) }) })"

definition ensureLargeEnough :: "nat \<Rightarrow> ext2_node \<Rightarrow> ext2_fs \<Rightarrow> (bool \<times> ext2_node \<times> ext2_fs) option" where
  "ensureLargeEnough sz nd fs = do {
     (nd, fs) \<leftarrow>
       (if m_nSize nd < sz
        then let i = m_pInode fs nd in fileAttributeChanged sz (i_atime i) (i_mtime i) (i_ctime i) nd fs
        else Some (nd, fs));
     grow sz nd fs }"

section \<open>Reading and writing\<close>

text \<open>How much of a block is copied when \<open>n\<close> bytes are left.\<close>

definition piece :: "nat \<Rightarrow> nat \<Rightarrow> nat \<Rightarrow> nat" where
  "piece bs location n =
     (if location mod bs = 0 \<and> bs \<le> n then bs
      else if bs \<le> location mod bs + n then bs - location mod bs else n)"

function read_blocks :: "nat \<Rightarrow> nat \<Rightarrow> nat \<Rightarrow> ext2_node \<Rightarrow> ext2_fs \<Rightarrow> (u8 list \<times> ext2_node) option" where
  "read_blocks nBytes location nBlock nd fs =
     (if nBytes = 0 then Some ([], nd)
      else if m_BlockSize fs = 0 then None
      else do {
        nd \<leftarrow> ensureBlockLoaded nBlock nd fs;
        buf \<leftarrow> readBlock (m_pBlocks nd ! nBlock) fs;
        let k = piece (m_BlockSize fs) location nBytes;
        (rest, nd) \<leftarrow> read_blocks (nBytes - k) (location + k) (nBlock + 1) nd fs;
        Some (take k (drop (location mod m_BlockSize fs) buf) @ rest, nd) })"
  by auto
termination by (relation "measure (\<lambda>(n, l, b, nd, fs). n)") (auto simp: piece_def not_le)

declare read_blocks.simps [simp del]

text \<open>The bytes and where in the caller's buffer they are put.  A link without blocks has its text in place of the numbers of
  its blocks.\<close>

definition doRead :: "nat \<Rightarrow> nat \<Rightarrow> ext2_node \<Rightarrow> ext2_fs \<Rightarrow> ((nat \<times> u8 list) \<times> ext2_node) option" where
  "doRead location sz nd fs =
     (if m_nSize nd \<le> location then Some ((0, []), nd)
      else
        let sz = (if m_nSize nd \<le> location + sz then m_nSize nd - location else sz)
        in if sz = 0 then Some ((0, []), nd)
           else if i_blocks (m_pInode fs nd) = 0
           then (if sz \<le> 60 then Some ((location, take sz (concat (map bytes32 (i_block (m_pInode fs nd))))), nd) else None)
           else if m_BlockSize fs = 0 then None
           else do {
             (bs, nd) \<leftarrow> read_blocks sz location (location div m_BlockSize fs) nd fs;
             Some ((0, bs), nd) })"

definition node_writeBlock :: "nat \<Rightarrow> ext2_node \<Rightarrow> ext2_fs \<Rightarrow> ext2_node option" where
  "node_writeBlock location nd fs =
     (if m_nBlocks nd < location div m_BlockSize fs \<or> m_nSize nd < location then Some nd
      else ensureBlockLoaded (location div m_BlockSize fs) nd fs)"

definition node_readBlock :: "nat \<Rightarrow> ext2_node \<Rightarrow> ext2_fs \<Rightarrow> (u8 list option \<times> ext2_node) option" where
  "node_readBlock location nd fs =
     (if m_nBlocks nd < location div m_BlockSize fs \<or> m_nSize nd < location then Some (None, nd)
      else do {
        nd \<leftarrow> ensureBlockLoaded (location div m_BlockSize fs) nd fs;
        Some (readBlock (m_pBlocks nd ! (location div m_BlockSize fs)) fs, nd) })"

function write_blocks :: "u8 list \<Rightarrow> nat \<Rightarrow> nat \<Rightarrow> ext2_node \<Rightarrow> ext2_fs \<Rightarrow> (ext2_node \<times> ext2_fs) option" where
  "write_blocks bs location nBlock nd fs =
     (if bs = [] then Some (nd, fs)
      else if m_BlockSize fs = 0 then None
      else do {
        nd \<leftarrow> ensureBlockLoaded nBlock nd fs;
        let block = m_pBlocks nd ! nBlock;
        _ \<leftarrow> readBlock block fs;
        let k = piece (m_BlockSize fs) location (length bs);
        let fs = modify_block block (splice (location mod m_BlockSize fs) (take k bs)) fs;
        nd \<leftarrow> node_writeBlock location nd fs;
        write_blocks (drop k bs) (location + k) (nBlock + 1) nd fs })"
  by auto
termination by (relation "measure (\<lambda>(bs, l, b, nd, fs). length bs)") (auto simp: piece_def not_le)

declare write_blocks.simps [simp del]

definition doWrite :: "nat \<Rightarrow> u8 list \<Rightarrow> ext2_node \<Rightarrow> ext2_fs \<Rightarrow> (nat \<times> ext2_node \<times> ext2_fs) option" where
  "doWrite location bs nd fs = do {
     (ok, nd, fs) \<leftarrow> ensureLargeEnough (location + length bs) nd fs;
     (if \<not> ok then Some (0, nd, fs)
      else if m_BlockSize fs = 0 then None
      else do {
        (nd, fs) \<leftarrow> write_blocks bs location (location div m_BlockSize fs) nd fs;
        Some (length bs, nd, fs) }) }"

section \<open>Wiping\<close>

fun release_blocks :: "nat \<Rightarrow> nat \<Rightarrow> ext2_node \<Rightarrow> ext2_fs \<Rightarrow> (ext2_node \<times> ext2_fs) option" where
  "release_blocks 0 i nd fs = Some (nd, fs)"
| "release_blocks (Suc n) i nd fs = do {
     nd \<leftarrow> ensureBlockLoaded i nd fs;
     fs \<leftarrow> releaseBlock (m_pBlocks nd ! i) fs;
     release_blocks n (i + 1) nd fs }"

definition wipe :: "ext2_node \<Rightarrow> ext2_fs \<Rightarrow> (ext2_node \<times> ext2_fs) option" where
  "wipe nd fs = do {
     (nd, fs) \<leftarrow> release_blocks (m_nBlocks nd) 0 nd fs;
     let nd = nd\<lparr>m_nSize := 0, m_pBlocks := []\<rparr>;
     fs \<leftarrow> writeInode (m_InodeNumber nd) (modify_node nd (\<lambda>i. i\<lparr>i_size := 0, i_blocks := 0, i_block := replicate 15 0\<rparr>) fs);
     Some (nd, fs) }"

end
