(* ===== verification/Ext2_Directory.thy ===== *)
theory Ext2_Directory
  imports Ext2_Node
begin

unbundle bit_operations_syntax

text \<open>
  The directories of the ext2 filesystem (\<^verbatim>\<open>Ext2Directory.cc\<close>) and the operations that make and remove files
  (\<^verbatim>\<open>Ext2Filesystem.cc\<close>).  A directory is its node, the times that its object has and the names in its cache with their
  inodes.  The entries of a block lie one behind the other: the inode, the length of the record, the length of the name, the kind, the name.
  Names have no zero bytes.
\<close>

record ext2_dir =
  d_node :: ext2_node
  m_AccessedTime :: u32
  m_ModifiedTime :: u32
  m_CreationTime :: u32
  m_Cache :: "(u8 list \<times> u32) list"

definition Ext2Directory :: "u32 \<Rightarrow> ext2_fs \<Rightarrow> ext2_dir" where
  "Ext2Directory inode_num fs =
     (let i = inodes fs inode_num
      in \<lparr>d_node = Ext2Node inode_num fs, m_AccessedTime = i_atime i, m_ModifiedTime = i_mtime i, m_CreationTime = i_ctime i, m_Cache = []\<rparr>)"

definition dir_attributeChanged :: "nat \<Rightarrow> ext2_dir \<Rightarrow> ext2_fs \<Rightarrow> (ext2_dir \<times> ext2_fs) option" where
  "dir_attributeChanged sz dir fs =
     map_option (\<lambda>(nd, fs). (dir\<lparr>d_node := nd\<rparr>, fs))
       (fileAttributeChanged sz (m_AccessedTime dir) (m_ModifiedTime dir) (m_CreationTime dir) (d_node dir) fs)"

section \<open>Entries\<close>

definition d_inode :: "nat \<Rightarrow> u8 list \<Rightarrow> u32" where
  "d_inode off buf = word_at off buf"

definition d_reclen :: "nat \<Rightarrow> u8 list \<Rightarrow> u16" where
  "d_reclen off buf = le16 (buf ! (off + 4)) (buf ! (off + 5))"

definition d_namelen :: "nat \<Rightarrow> u8 list \<Rightarrow> nat" where
  "d_namelen off buf = unat (buf ! (off + 6))"

definition d_file_type :: "nat \<Rightarrow> u8 list \<Rightarrow> u8" where
  "d_file_type off buf = buf ! (off + 7)"

definition d_name :: "nat \<Rightarrow> nat \<Rightarrow> u8 list \<Rightarrow> u8 list" where
  "d_name n off buf = take n (drop (off + 8) buf)"

text \<open>The least length of the record at an offset.\<close>

definition thisReclen :: "nat \<Rightarrow> u8 list \<Rightarrow> nat" where
  "thisReclen off buf =
     (let n = 8 + d_namelen off buf in if n mod 4 \<noteq> 0 then n + (4 - n mod 4) else n)"

section \<open>Adding an entry\<close>

datatype slot = Behind nat | Unused nat

text \<open>The search for room in a block; the differences are those of 64-bit numbers.\<close>

function find_room :: "nat \<Rightarrow> nat \<Rightarrow> u8 list \<Rightarrow> nat \<Rightarrow> slot option option" where
  "find_room bs len buf off =
     (if off < bs
      then if bs < off + 8 then None
           else
             let fits = (of_nat len \<le> (ucast (d_reclen off buf) - of_nat (thisReclen off buf) :: u64))
             in if d_inode off buf \<noteq> 0 \<and> fits then Some (Some (Behind off))
                else if d_inode off buf = 0 \<and> d_reclen off buf = 0 then Some None
                else if d_inode off buf = 0 \<and> fits then Some (Some (Unused off))
                else if d_reclen off buf = 0 then None
                else find_room bs len buf (off + unat (d_reclen off buf))
      else Some None)"
  by auto
termination
proof (relation "measure (\<lambda>(bs, len, buf, off). bs - off)", simp, clarify)
  fix bs len :: nat and buf :: "u8 list" and off :: nat
  assume "off < bs" "d_reclen off buf \<noteq> 0"
  then have "0 < unat (d_reclen off buf)" using unat_gt_0 by blast
  then show "((bs, len, buf, off + unat (d_reclen off buf)), bs, len, buf, off) \<in> measure (\<lambda>(bs, len, buf, off). bs - off)"
    using \<open>off < bs\<close> by simp
qed

declare find_room.simps [simp del]

fun find_room_from :: "nat \<Rightarrow> nat \<Rightarrow> nat \<Rightarrow> ext2_node \<Rightarrow> ext2_fs \<Rightarrow> ((nat \<times> slot) option \<times> ext2_node) option" where
  "find_room_from 0 i len nd fs = Some (None, nd)"
| "find_room_from (Suc n) i len nd fs = do {
     nd \<leftarrow> ensureBlockLoaded i nd fs;
     buf \<leftarrow> readBlock (m_pBlocks nd ! i) fs;
     found \<leftarrow> find_room (m_BlockSize fs) len buf 0;
     (case found of
        Some s \<Rightarrow> Some (Some (i, s), nd)
      | None \<Rightarrow> find_room_from n (i + 1) len nd fs) }"

text \<open>The record lengths for a new entry, and where it is.\<close>

definition set_reclen :: "nat \<Rightarrow> u16 \<Rightarrow> u8 list \<Rightarrow> u8 list" where
  "set_reclen off n buf = splice (off + 4) (bytes16 n) buf"

fun take_slot :: "slot \<Rightarrow> u8 list \<Rightarrow> nat \<times> u8 list" where
  "take_slot (Unused off) buf = (off, buf)"
| "take_slot (Behind off) buf =
     (let this = thisReclen off buf; old = d_reclen off buf
      in (off + this, set_reclen (off + this) (old - of_nat this) (set_reclen off (of_nat this) buf)))"

definition dirent_type :: "ext2_fs \<Rightarrow> u32 \<Rightarrow> u8" where
  "dirent_type fs type =
     (if checkRequiredFeature fs 2
      then (if type = 0x8000 then 1 else if type = 0x4000 then 2 else if type = 0xA000 then 7 else 0)
      else 0)"

text \<open>The bytes of an entry but for the length of its record.\<close>

definition fill_entry :: "nat \<Rightarrow> u32 \<Rightarrow> u8 \<Rightarrow> u8 list \<Rightarrow> u8 list \<Rightarrow> u8 list" where
  "fill_entry off inode kind name buf =
     splice (off + 6) ([of_nat (length name), kind] @ name) (splice off (bytes32 inode) buf)"

definition ext2_addEntry :: "u8 list \<Rightarrow> u32 \<Rightarrow> u32 \<Rightarrow> ext2_dir \<Rightarrow> ext2_fs \<Rightarrow> (bool \<times> ext2_dir \<times> ext2_fs) option" where
  "ext2_addEntry filename inode type dir fs = do {
     (found, nd) \<leftarrow> find_room_from (m_nBlocks (d_node dir)) 0 (8 + length filename) (d_node dir) fs;
     let dir = dir\<lparr>d_node := nd\<rparr>;
     (place, dir, fs) \<leftarrow>
       (case found of
          Some (i, s) \<Rightarrow> do {
            buf \<leftarrow> readBlock (m_pBlocks nd ! i) fs;
            let (off, buf) = take_slot s buf;
            (if m_BlockSize fs < off + 8 + length filename then None
             else Some (Some (i, off), dir, modify_block (m_pBlocks nd ! i) (\<lambda>_. buf) fs)) }
        | None \<Rightarrow> do {
            (block, fs) \<leftarrow> findFreeBlock (m_InodeNumber nd) fs;
            (if block = 0 then Some (None, dir, fs)
             else do {
               (ok, nd, fs) \<leftarrow> addBlock block nd fs;
               (if \<not> ok then Some (None, dir\<lparr>d_node := nd\<rparr>, fs)
                else do {
                  (dir, fs) \<leftarrow> dir_attributeChanged (m_nBlocks nd * m_BlockSize fs) (dir\<lparr>d_node := nd\<rparr>) fs;
                  nd \<leftarrow> ensureBlockLoaded (m_nBlocks nd - 1) (d_node dir) fs;
                  let b = m_pBlocks nd ! (m_nBlocks nd - 1);
                  fs \<leftarrow> zero_block b fs;
                  (if m_BlockSize fs < 8 + length filename then None
                   else Some (Some (m_nBlocks nd - 1, 0), dir\<lparr>d_node := nd\<rparr>, modify_block b (set_reclen 0 (of_nat (m_BlockSize fs))) fs)) }) }) });
     (case place of
        None \<Rightarrow> Some (False, dir, fs)
      | Some (i, off) \<Rightarrow> do {
          let b = m_pBlocks (d_node dir) ! i;
          fs \<leftarrow> increaseInodeRefcount inode fs;
          let fs = modify_block b (fill_entry off inode (dirent_type fs type) filename) fs;
          Some (True, dir\<lparr>m_Cache := m_Cache dir @ [(filename, inode)]\<rparr>, fs) }) }"

section \<open>Removing an entry\<close>

text \<open>The offset of the entry of a file in a block.\<close>

partial_function (option) find_entry :: "nat \<Rightarrow> u32 \<Rightarrow> u8 list \<Rightarrow> u8 list \<Rightarrow> nat \<Rightarrow> nat option option" where
  "find_entry bs inode name buf off =
     (if off < bs
      then if bs < off + 8 then None
           else if d_inode off buf = inode
           then (if d_namelen off buf = length name \<and> bs < off + 8 + length name then None
                 else if d_namelen off buf = length name \<and> d_name (length name) off buf = name then Some (Some off)
                 else find_entry bs inode name buf (off + unat (d_reclen off buf)))
           else if d_reclen off buf = 0 then Some None
           else find_entry bs inode name buf (off + unat (d_reclen off buf))
      else Some None)"

fun find_entry_from :: "nat \<Rightarrow> nat \<Rightarrow> u32 \<Rightarrow> u8 list \<Rightarrow> ext2_node \<Rightarrow> ext2_fs \<Rightarrow> ((nat \<times> nat) option \<times> ext2_node) option" where
  "find_entry_from 0 i inode name nd fs = Some (None, nd)"
| "find_entry_from (Suc n) i inode name nd fs = do {
     nd \<leftarrow> ensureBlockLoaded i nd fs;
     buf \<leftarrow> readBlock (m_pBlocks nd ! i) fs;
     found \<leftarrow> find_entry (m_BlockSize fs) inode name buf 0;
     (case found of
        Some off \<Rightarrow> Some (Some (i, off), nd)
      | None \<Rightarrow> find_entry_from n (i + 1) inode name nd fs) }"

definition clear_entry :: "nat \<Rightarrow> u8 list \<Rightarrow> u8 list" where
  "clear_entry off buf = set_reclen off (d_reclen off buf) (splice off (replicate (unat (d_reclen off buf)) 0) buf)"

definition ext2_removeEntry ::
  "u32 \<Rightarrow> u8 list \<Rightarrow> ext2_node \<Rightarrow> ext2_dir \<Rightarrow> ext2_fs \<Rightarrow> (bool \<times> ext2_node \<times> ext2_dir \<times> ext2_fs) option" where
  "ext2_removeEntry now filename file dir fs = do {
     (found, nd) \<leftarrow> find_entry_from (m_nBlocks (d_node dir)) 0 (m_InodeNumber file) filename (d_node dir) fs;
     let dir = dir\<lparr>d_node := nd\<rparr>;
     (case found of
        None \<Rightarrow> Some (False, file, dir, fs)
      | Some (i, off) \<Rightarrow> do {
          buf \<leftarrow> readBlock (m_pBlocks nd ! i) fs;
          (if m_BlockSize fs < off + unat (d_reclen off buf) then None
           else do {
             let fs = modify_block (m_pBlocks nd ! i) (clear_entry off) fs;
             (last, fs) \<leftarrow> releaseInode now (m_InodeNumber file) fs;
             (file, fs) \<leftarrow> (if last then wipe file fs else Some (file, fs));
             Some (True, file, dir, fs) }) }) }"

section \<open>Listing a directory\<close>

text \<open>The kind of an entry and the length of its name, with the end.\<close>

definition entry_kind :: "ext2_fs \<Rightarrow> nat \<Rightarrow> u8 list \<Rightarrow> (nat \<times> nat) option" where
  "entry_kind fs off buf =
     (if checkRequiredFeature fs 2 then Some (unat (d_file_type off buf), d_namelen off buf + 1)
      else do {
        i \<leftarrow> getInode (d_inode off buf) fs;
        let t = i_mode i AND 0xF000;
        Some (if t = 0xA000 then 7 else if t = 0x8000 then 1 else if t = 0x4000 then 2 else 0,
              (d_namelen off buf + 1) OR (push_bit 8 (unat (d_file_type off buf)))) })"

partial_function (option) list_dirents :: "ext2_fs \<Rightarrow> u8 list \<Rightarrow> nat \<Rightarrow> (u8 list \<times> u32 \<times> nat) list option" where
  "list_dirents fs buf off =
     (if off < m_BlockSize fs
      then if m_BlockSize fs < off + 8 then None
           else if d_inode off buf = 0
           then (if d_reclen off buf = 0 then Some [] else list_dirents fs buf (off + unat (d_reclen off buf)))
           else do {
             (kind, namelen) \<leftarrow> entry_kind fs off buf;
             (if m_BlockSize fs < off + 8 + (namelen - 1) then None
              else do {
                _ \<leftarrow> (if kind \<in> {1, 2, 7} then map_option (\<lambda>_. ()) (getInode (d_inode off buf) fs) else Some ());
                rest \<leftarrow> list_dirents fs buf (off + unat (d_reclen off buf));
                Some ((takeWhile (\<lambda>c. c \<noteq> 0) (d_name (namelen - 1) off buf), d_inode off buf, kind) # rest) }) }
      else Some [])"

fun list_blocks :: "nat \<Rightarrow> nat \<Rightarrow> ext2_node \<Rightarrow> ext2_fs \<Rightarrow> ((u8 list \<times> u32 \<times> nat) list \<times> ext2_node) option" where
  "list_blocks 0 i nd fs = Some ([], nd)"
| "list_blocks (Suc n) i nd fs = do {
     nd \<leftarrow> ensureBlockLoaded i nd fs;
     buf \<leftarrow> readBlock (m_pBlocks nd ! i) fs;
     es \<leftarrow> list_dirents fs buf 0;
     (rest, nd) \<leftarrow> list_blocks n (i + 1) nd fs;
     Some (es @ rest, nd) }"

definition ext2_cacheDirectoryContents :: "ext2_dir \<Rightarrow> ext2_fs \<Rightarrow> ((u8 list \<times> u32 \<times> nat) list \<times> ext2_dir) option" where
  "ext2_cacheDirectoryContents dir fs = do {
     (es, nd) \<leftarrow> list_blocks (m_nBlocks (d_node dir)) 0 (d_node dir) fs;
     Some (es, dir\<lparr>d_node := nd, m_Cache := m_Cache dir @ map (\<lambda>(n, i, k). (n, i)) es\<rparr>) }"

section \<open>Making and removing files\<close>

definition new_inode :: "u32 \<Rightarrow> u16 \<Rightarrow> u16 \<Rightarrow> u32 \<Rightarrow> u8 list \<Rightarrow> Inode" where
  "new_inode mode uid gid now val =
     (let small = (val \<noteq> [] \<and> length val < 60)
      in \<lparr>i_mode = ucast mode, i_uid = uid, i_size = (if small then of_nat (length val) else 0), i_atime = now, i_ctime = now,
          i_mtime = now, i_dtime = 0, i_gid = gid, i_links_count = 0, i_blocks = 0, i_flags = 0,
          i_block = (if small then map (\<lambda>k. word_at (4 * k) (val @ replicate 60 0)) [0..<15] else replicate 15 0)\<rparr>)"

text \<open>A new directory gets the entries for itself and its parent; whether that works is not checked.\<close>

definition add_dots :: "u32 \<Rightarrow> u32 \<Rightarrow> ext2_fs \<Rightarrow> ext2_fs option" where
  "add_dots inode_num parent fs = do {
     _ \<leftarrow> getInode parent fs;
     (_, dir, fs) \<leftarrow> ext2_addEntry [46] inode_num 0x4000 (Ext2Directory inode_num fs) fs;
     (_, dir, fs) \<leftarrow> ext2_addEntry [46, 46] parent 0x4000 dir fs;
     Some fs }"

definition touch :: "u32 \<Rightarrow> ext2_dir \<Rightarrow> ext2_fs \<Rightarrow> (ext2_dir \<times> ext2_fs) option" where
  "touch now dir fs = do {
     (dir, fs) \<leftarrow> dir_attributeChanged (m_nSize (d_node dir)) (dir\<lparr>m_AccessedTime := now\<rparr>) fs;
     dir_attributeChanged (m_nSize (d_node dir)) (dir\<lparr>m_ModifiedTime := now\<rparr>) fs }"

text \<open>The user, the group and the time are arguments.\<close>

definition createNode ::
  "u16 \<Rightarrow> u16 \<Rightarrow> u32 \<Rightarrow> ext2_dir \<Rightarrow> u8 list \<Rightarrow> u32 \<Rightarrow> u8 list \<Rightarrow> u32 \<Rightarrow> ext2_fs \<Rightarrow> (bool \<times> ext2_dir \<times> ext2_fs) option" where
  "createNode uid gid now parent filename mode val type fs =
     (if filename \<in> {[], [46], [46, 46]} then Some (False, parent, fs)
      else do {
        (inode_num, fs) \<leftarrow> findFreeInode fs;
        (if inode_num = 0 then Some (False, parent, fs)
         else do {
           _ \<leftarrow> getInode inode_num fs;
           let fs = modify_inode inode_num (\<lambda>_. new_inode (mode OR type) uid gid now val) fs;
           fs \<leftarrow> (if type \<notin> {0x8000, 0x4000, 0xA000} then None
                 else if type = 0x4000 then add_dots inode_num (m_InodeNumber (d_node parent)) fs else Some fs);
           fs \<leftarrow> (if 60 \<le> length val then map_option (\<lambda>(_, _, fs). fs) (doWrite 0 val (Ext2Node inode_num fs) fs) else Some fs);
           (ok, parent, fs) \<leftarrow> ext2_addEntry filename inode_num type parent fs;
           (if \<not> ok then Some (False, parent, fs)
            else do {
              (parent, fs) \<leftarrow> touch now parent fs;
              fs \<leftarrow> writeInode inode_num fs;
              fs \<leftarrow> writeInode (m_InodeNumber (d_node parent)) fs;
              Some (True, parent, fs) }) }) })"

definition ext2_createFile :: "u16 \<Rightarrow> u16 \<Rightarrow> u32 \<Rightarrow> ext2_dir \<Rightarrow> u8 list \<Rightarrow> u32 \<Rightarrow> ext2_fs \<Rightarrow> (bool \<times> ext2_dir \<times> ext2_fs) option" where
  "ext2_createFile uid gid now parent filename mode = createNode uid gid now parent filename mode [] 0x8000"

definition ext2_createDirectory :: "u16 \<Rightarrow> u16 \<Rightarrow> u32 \<Rightarrow> ext2_dir \<Rightarrow> u8 list \<Rightarrow> ext2_fs \<Rightarrow> (bool \<times> ext2_dir \<times> ext2_fs) option" where
  "ext2_createDirectory uid gid now parent filename = createNode uid gid now parent filename 0x1ED [] 0x4000"

definition ext2_createSymlink :: "u16 \<Rightarrow> u16 \<Rightarrow> u32 \<Rightarrow> ext2_dir \<Rightarrow> u8 list \<Rightarrow> u8 list \<Rightarrow> ext2_fs \<Rightarrow> (bool \<times> ext2_dir \<times> ext2_fs) option" where
  "ext2_createSymlink uid gid now parent filename val = createNode uid gid now parent filename 0x1FF val 0xA000"

end
