(* ===== verification/Ext2_Bitmap.thy ===== *)
theory Ext2_Bitmap
  imports Ext2_Volume
begin

text \<open>The bitmaps as sets of numbers: what the search for a free block or inode finds, and what taking and giving back a block
  changes.\<close>

section \<open>Bits of a buffer\<close>

definition bit_of :: "u8 list \<Rightarrow> nat \<Rightarrow> bool" where
  "bit_of buf k \<longleftrightarrow> bit (buf ! (k div 8)) (k mod 8)"

lemma bit_le16: "n < 16 \<Longrightarrow> bit (le16 a b) n \<longleftrightarrow> (if n < 8 then bit a n else bit b (n - 8))"
  by (auto simp: le16_def bit_simps dest: bit_imp_le_length)

lemma bit_le32: "n < 32 \<Longrightarrow> bit (le32 a b) n \<longleftrightarrow> (if n < 16 then bit a n else bit b (n - 16))"
  by (auto simp: le32_def bit_simps dest: bit_imp_le_length)

lemma bit_word_at:
  assumes "j < 32"
  shows "bit (word_at off buf) j \<longleftrightarrow> bit_of buf (8 * off + j)"
proof -
  have d: "bit_of buf (8 * off + j) \<longleftrightarrow> bit (buf ! (off + j div 8)) (j mod 8)" by (simp add: bit_of_def)
  consider "j div 8 = 0" | "j div 8 = 1" | "j div 8 = 2" | "j div 8 = 3" using assms by linarith
  then show ?thesis
  proof cases
    case 1
    then have "j < 8" "j mod 8 = j" by auto
    with 1 d show ?thesis by (simp add: word_at_def bit_le32 bit_le16)
  next
    case 2
    then have "8 \<le> j" "j < 16" "j mod 8 = j - 8" by presburger+
    with 2 d show ?thesis by (simp add: word_at_def bit_le32 bit_le16)
  next
    case 3
    then have "16 \<le> j" "j < 24" "j mod 8 = j - 16" by presburger+
    moreover have "j - 16 < 8" using \<open>j < 24\<close> by linarith
    ultimately show ?thesis using 3 d by (simp add: word_at_def bit_le32 bit_le16)
  next
    case 4
    then have j: "24 \<le> j" "j < 32" "j mod 8 = j - 24" by presburger+
    then have "j - 16 - 8 = j - 24" "\<not> j - 16 < 8" by linarith+
    with 4 d j show ?thesis by (simp add: word_at_def bit_le32 bit_le16)
  qed
qed

lemma nth_bytes32: "k < 4 \<Longrightarrow> bytes32 w ! k = ucast (drop_bit (8 * k) w)"
proof -
  assume "k < 4"
  then consider "k = 0" | "k = 1" | "k = 2" | "k = 3" by linarith
  then show ?thesis
    by cases (auto simp: bytes32_def bytes16_def numeral_eq_Suc intro!: bit_word_eqI simp: bit_simps)
qed

lemma nth_word_at: "k < 4 \<Longrightarrow> ucast (drop_bit (8 * k) (word_at off buf)) = buf ! (off + k)"
  by (rule bit_word_eqI) (simp add: bit_simps bit_word_at bit_of_def)

text \<open>Setting a bit of a word changes one byte.\<close>

lemma splice_set_bit:
  assumes "off + 4 \<le> length buf" "j < 32"
  shows "splice off (bytes32 (word_at off buf OR push_bit j 1)) buf =
    buf[off + j div 8 := buf ! (off + j div 8) OR push_bit (j mod 8) 1]" (is "?l = ?r")
proof (rule nth_equalityI)
  show "length ?l = length ?r" using assms by (simp add: length_splice)
  fix p assume "p < length ?l"
  then have p: "p < length buf" using assms by (simp add: length_splice)
  show "?l ! p = ?r ! p"
  proof (cases "off \<le> p \<and> p < off + 4")
    case True
    then obtain k where k: "p = off + k" "k < 4" by (metis add_less_cancel_left le_Suc_ex)
    have "?l ! p = ucast (drop_bit (8 * k) (word_at off buf OR push_bit j 1))"
      using assms p k by (simp add: nth_splice nth_bytes32)
    also have "\<dots> = buf ! (off + k) OR ucast (drop_bit (8 * k) (push_bit j (1 :: u32)))"
      using nth_word_at [OF k(2), of off buf] by (simp add: unsigned_or_eq)
    also have "ucast (drop_bit (8 * k) (push_bit j (1 :: u32))) = (if k = j div 8 then push_bit (j mod 8) 1 else (0 :: u8))"
    proof (rule bit_word_eqI)
      fix n assume "n < LENGTH(8)"
      then have "8 * k + n = j \<longleftrightarrow> k = j div 8 \<and> n = j mod 8" by auto
      then show "bit (ucast (drop_bit (8 * k) (push_bit j (1 :: u32))) :: u8) n \<longleftrightarrow> bit (if k = j div 8 then push_bit (j mod 8) 1 else (0 :: u8)) n"
        using k(2) assms(2) \<open>n < LENGTH(8)\<close> by (auto simp: bit_simps)
    qed
    finally show ?thesis using assms p k by (auto simp: nth_list_update)
  next
    case False
    moreover have "j div 8 < 4" using assms(2) by auto
    ultimately show ?thesis using assms p by (auto simp: nth_splice nth_list_update)
  qed
qed

lemma bit_of_set:
  assumes "i < length buf" "j < 8" "k < 8 * length buf"
  shows "bit_of (buf[i := buf ! i OR push_bit j 1]) k \<longleftrightarrow> k = 8 * i + j \<or> bit_of buf k"
proof -
  have "k div 8 < length buf" using assms(3) by auto
  moreover have "k = 8 * i + j \<longleftrightarrow> k div 8 = i \<and> k mod 8 = j" using assms(2) by auto
  ultimately show ?thesis using assms(1,2) by (auto simp: bit_of_def nth_list_update bit_simps)
qed

lemma set_clear_bit:
  assumes "i < length buf" "j < 8" "\<not> bit_of buf (8 * i + j)"
  shows "(buf[i := buf ! i OR push_bit j 1])[i := buf[i := buf ! i OR push_bit j 1] ! i AND NOT (push_bit j 1)] = buf"
proof -
  have "(buf ! i OR push_bit j 1) AND NOT (push_bit j 1) = buf ! i"
    using assms(2,3) by (intro bit_word_eqI) (auto simp: bit_simps bit_of_def)
  then show ?thesis using assms(1) by simp
qed

section \<open>The search\<close>

lemma zero_bit_Some:
  "zero_bit n j tmp = Some r \<Longrightarrow> j \<le> r \<and> r < j + n \<and> \<not> bit tmp (r - j) \<and> (\<forall>i < r - j. bit tmp i)"
proof (induction n arbitrary: j tmp)
  case (Suc n)
  have b: "tmp AND 1 = 0 \<longleftrightarrow> \<not> bit tmp 0" by (simp add: and_one_eq bit_0 even_iff_mod_2_eq_zero)
  show ?case
  proof (cases "tmp AND 1 = 0")
    case True
    then show ?thesis using Suc.prems b by auto
  next
    case False
    with Suc.prems have "zero_bit n (j + 1) (drop_bit 1 tmp) = Some r" by simp
    from Suc.IH [OF this] have r: "j + 1 \<le> r" "r < j + 1 + n" "\<not> bit tmp (Suc (r - (j + 1)))" "\<forall>i < r - (j + 1). bit tmp (Suc i)"
      by (auto simp: bit_simps)
    have "\<forall>i < r - j. bit tmp i"
    proof safe
      fix i assume "i < r - j"
      then show "bit tmp i" using r(4) False b by (cases i) auto
    qed
    moreover have "Suc (r - (j + 1)) = r - j" using r(1) by simp
    ultimately show ?thesis using r by simp
  qed
qed simp

lemma zero_bit_None: "zero_bit n j tmp = None \<Longrightarrow> i < n \<Longrightarrow> bit tmp i"
proof (induction n arbitrary: i j tmp)
  case (Suc n)
  have b: "tmp AND 1 = 0 \<longleftrightarrow> \<not> bit tmp 0" by (simp add: and_one_eq bit_0 even_iff_mod_2_eq_zero)
  have n: "tmp AND 1 \<noteq> 0" "zero_bit n (j + 1) (drop_bit 1 tmp) = None" using Suc.prems(1) by (auto split: if_splits)
  show ?case
  proof (cases i)
    case 0
    then show ?thesis using n b by simp
  next
    case (Suc k)
    with Suc.IH [OF n(2), of k] Suc.prems(2) show ?thesis by (simp add: bit_simps)
  qed
qed simp

lemma scan_bitmap_ok:
  assumes "0 < m_BlockSize fs" "4 dvd m_BlockSize fs" "32 dvd unat pg" "unat pg \<le> 8 * m_BlockSize fs"
    and "readBlock start fs = Some buf" "length buf = m_BlockSize fs" "4 dvd i"
  shows "(scan_bitmap fs start pg i = Some None \<and> (\<forall>k. 8 * i \<le> k \<and> k < unat pg \<longrightarrow> bit_of buf k)) \<or>
    (\<exists>p j. scan_bitmap fs start pg i = Some (Some (p, j)) \<and> j < 32 \<and> 4 dvd p \<and> p + 4 \<le> m_BlockSize fs \<and> 8 * p + j < unat pg \<and>
       \<not> bit_of buf (8 * p + j) \<and> (\<forall>k. 8 * i \<le> k \<and> k < 8 * p + j \<longrightarrow> bit_of buf k))"
  using assms
proof (induction fs start pg i rule: scan_bitmap.induct)
  case (1 fs start pg i)
  let ?bs = "m_BlockSize fs"
  show ?case
  proof (cases "i < unat pg div 8")
    case False
    have "\<not> (8 * i \<le> k \<and> k < unat pg)" for k using False "1.prems"(3) by auto
    then show ?thesis using False by (subst scan_bitmap.simps) (auto simp: scan_bitmap.simps)
  next
    case True
    obtain a where a: "?bs = 4 * a" using "1.prems"(2) by auto
    obtain c where c: "i = 4 * c" using "1.prems"(7) by auto
    obtain q where q: "unat pg = 32 * q" using "1.prems"(3) by auto
    have i: "i < ?bs" using True "1.prems"(4) by auto
    have off: "i div (?bs * 8) = 0" "i mod (?bs * 8) = i" using i by simp_all
    have in_block: "i + 4 \<le> ?bs" using a c i by auto
    have len: "0 < bitmap_length fs pg"
    proof -
      have "0 < unat pg" using True by auto
      then show ?thesis
        by (cases "unat pg mod (?bs * 8) = 0") (auto simp: bitmap_length_def mod_eq_0_iff_dvd dvd_imp_le div_greater_zero_iff "1.prems"(1))
    qed
    have c2: "\<not> (bitmap_length fs pg \<le> i div (?bs * 8) \<or> ?bs < i mod (?bs * 8) + 4)" using off len in_block by simp
    have rd: "readBlock (start + of_nat (i div (?bs * 8))) fs = Some buf" using "1.prems"(5) off by simp
    have word: "8 * i + 32 \<le> unat pg" using True c q by auto
    show ?thesis
    proof (cases "word_at i buf = - 1")
      case w: True
      have ones: "bit_of buf k" if "8 * i \<le> k" "k < 8 * i + 32" for k
        using bit_word_at [of "k - 8 * i" i buf] w that by simp
      have s: "scan_bitmap fs start pg i = scan_bitmap fs start pg (i + 4)"
        using True c2 rd w off by (subst scan_bitmap.simps) (simp add: Let_def)
      have "4 dvd i + 4" using "1.prems"(7) by simp
      from "1.IH" [OF True refl refl c2 rd refl _ "1.prems"(1-6) this] w off
      have "(scan_bitmap fs start pg (i + 4) = Some None \<and> (\<forall>k. 8 * (i + 4) \<le> k \<and> k < unat pg \<longrightarrow> bit_of buf k)) \<or>
        (\<exists>p j. scan_bitmap fs start pg (i + 4) = Some (Some (p, j)) \<and> j < 32 \<and> 4 dvd p \<and> p + 4 \<le> ?bs \<and> 8 * p + j < unat pg \<and>
           \<not> bit_of buf (8 * p + j) \<and> (\<forall>k. 8 * (i + 4) \<le> k \<and> k < 8 * p + j \<longrightarrow> bit_of buf k))" by simp
      moreover have "bit_of buf k" if "8 * i \<le> k" "8 * (i + 4) \<le> k \<Longrightarrow> bit_of buf k" for k
        using ones that by (cases "k < 8 * i + 32") simp_all
      ultimately show ?thesis unfolding s by blast
    next
      case w: False
      have "zero_bit 32 0 (word_at i buf) \<noteq> None"
      proof
        assume "zero_bit 32 0 (word_at i buf) = None"
        then have "word_at i buf = - 1" by (intro bit_word_eqI) (auto dest: zero_bit_None)
        with w show False by simp
      qed
      then obtain j where j: "zero_bit 32 0 (word_at i buf) = Some j" by auto
      from zero_bit_Some [OF j] have z: "j < 32" "\<not> bit_of buf (8 * i + j)" "\<forall>k < j. bit_of buf (8 * i + k)"
        by (auto simp: bit_word_at)
      have s: "scan_bitmap fs start pg i = Some (Some (i, j))"
        using True c2 rd w off j by (subst scan_bitmap.simps) (simp add: Let_def)
      have "bit_of buf k" if "8 * i \<le> k" "k < 8 * i + j" for k
        using z(3) [rule_format, of "k - 8 * i"] that by simp
      then show ?thesis using s z word in_block "1.prems"(7) by auto
    qed
  qed
qed

section \<open>Blocks in use\<close>

abbreviation per_group :: "ext2_fs \<Rightarrow> nat" where
  "per_group fs \<equiv> unat (s_blocks_per_group (m_pSuperblock fs))"

abbreviation group_count :: "ext2_fs \<Rightarrow> nat" where
  "group_count fs \<equiv> length (m_pGroupDescriptors fs)"

definition desc_of :: "ext2_fs \<Rightarrow> nat \<Rightarrow> GroupDesc" where
  "desc_of fs g = the (m_pGroupDescriptors fs ! g)"

definition bitmap_of :: "ext2_fs \<Rightarrow> nat \<Rightarrow> u32" where
  "bitmap_of fs g = bg_block_bitmap (desc_of fs g)"

text \<open>Each group has its bitmap in a block of its own, and its bits fit into that block.\<close>

definition bitmaps_ok :: "ext2_fs \<Rightarrow> bool" where
  "bitmaps_ok fs \<longleftrightarrow>
     0 < m_BlockSize fs \<and> 4 dvd m_BlockSize fs \<and> s_inodes_per_group (m_pSuperblock fs) \<noteq> 0 \<and>
     0 < per_group fs \<and> 32 dvd per_group fs \<and> per_group fs \<le> 8 * m_BlockSize fs \<and> group_count fs * per_group fs \<le> 2 ^ 32 \<and>
     (\<forall>g < group_count fs. m_pGroupDescriptors fs ! g \<noteq> None \<and> bitmap_of fs g \<noteq> 0 \<and> unat (bitmap_of fs g) < disk_blocks fs \<and>
        length (blocks fs (bitmap_of fs g)) = m_BlockSize fs) \<and>
     (\<forall>g < group_count fs. \<forall>h < group_count fs. bitmap_of fs g = bitmap_of fs h \<longrightarrow> g = h)"

definition block_used :: "ext2_fs \<Rightarrow> nat \<Rightarrow> bool" where
  "block_used fs b \<longleftrightarrow> bit_of (blocks fs (bitmap_of fs (b div per_group fs))) (b mod per_group fs)"

text \<open>What taking a block changes.\<close>

definition take_block :: "nat \<Rightarrow> ext2_fs \<Rightarrow> ext2_fs" where
  "take_block b fs =
     (let g = b div per_group fs; k = b mod per_group fs; buf = blocks fs (bitmap_of fs g)
      in modify_super (\<lambda>s. s\<lparr>s_free_blocks_count := s_free_blocks_count s - 1\<rparr>)
           (modify_group g (\<lambda>d. d\<lparr>bg_free_blocks_count := bg_free_blocks_count d - 1\<rparr>)
             (fs\<lparr>blocks := (blocks fs)(bitmap_of fs g := buf[k div 8 := buf ! (k div 8) OR push_bit (k mod 8) 1])\<rparr>)))"

lemma bitmaps_group:
  assumes "bitmaps_ok fs" "g < group_count fs"
  shows "group_at fs g = Some (desc_of fs g)" "m_pGroupDescriptors fs ! g = Some (desc_of fs g)"
    "readBlock (bitmap_of fs g) fs = Some (blocks fs (bitmap_of fs g))"
    "length (blocks fs (bitmap_of fs g)) = m_BlockSize fs" "bitmap_of fs g \<noteq> 0"
  using assms by (auto simp: bitmaps_ok_def group_at_def desc_of_def readBlock_def)

lemma take_block_set_bit:
  assumes "bitmaps_ok fs" "g < group_count fs" "j < 32" "p + 4 \<le> m_BlockSize fs" "8 * p + j < per_group fs"
  shows "modify_super (\<lambda>s. s\<lparr>s_free_blocks_count := s_free_blocks_count s - 1\<rparr>)
           (modify_group g (\<lambda>d. d\<lparr>bg_free_blocks_count := bg_free_blocks_count d - 1\<rparr>)
             (set_bit_at (bitmap_of fs g) p j fs)) = take_block (g * per_group fs + (8 * p + j)) fs"
proof -
  have k: "(g * per_group fs + (8 * p + j)) div per_group fs = g" "(g * per_group fs + (8 * p + j)) mod per_group fs = 8 * p + j"
    using assms(5) by (simp_all add: div_mult_self3)
  have p: "p div (m_BlockSize fs * 8) = 0" "p mod (m_BlockSize fs * 8) = p" using assms(4) by simp_all
  have d: "(8 * p + j) div 8 = p + j div 8" "(8 * p + j) mod 8 = j mod 8" by simp_all
  show ?thesis
    using splice_set_bit [of p "blocks fs (bitmap_of fs g)" j] bitmaps_group [OF assms(1,2)] assms(3,4)
    unfolding take_block_def set_bit_at_def Let_def modify_block_def k p d by simp
qed

lemma free_block_from_ok:
  assumes "bitmaps_ok fs"
  shows "(free_block_from g fs = Some (0, fs) \<and>
      (\<forall>h. g \<le> h \<and> h < group_count fs \<longrightarrow>
         bg_free_blocks_count (desc_of fs h) = 0 \<or> (\<forall>k < per_group fs. block_used fs (h * per_group fs + k)))) \<or>
    (\<exists>b. free_block_from g fs = Some (of_nat b, take_block b fs) \<and> b < group_count fs * per_group fs \<and> g \<le> b div per_group fs \<and>
       \<not> block_used fs b \<and> (\<forall>k < b mod per_group fs. block_used fs (b div per_group fs * per_group fs + k)))"
  using assms
proof (induction g fs rule: free_block_from.induct)
  case (1 g fs)
  note ok = "1.prems"
  let ?P = "per_group fs" and ?d = "desc_of fs g"
  show ?case
  proof (cases "g < group_count fs")
    case False
    then show ?thesis by (subst free_block_from.simps) (auto simp: free_block_from.simps)
  next
    case True
    note grp = bitmaps_group [OF ok True]
    have P: "0 < ?P" using ok by (simp add: bitmaps_ok_def)
    have used: "block_used fs (g * ?P + k) \<longleftrightarrow> bit_of (blocks fs (bitmap_of fs g)) k" if "k < ?P" for k
      using that by (simp add: block_used_def)
    have skip: ?thesis
      if s: "free_block_from g fs = free_block_from (g + 1) fs" and none: "bg_free_blocks_count ?d = 0 \<or> (\<forall>k < ?P. block_used fs (g * ?P + k))"
        and IH: "(free_block_from (g + 1) fs = Some (0, fs) \<and>
          (\<forall>h. g + 1 \<le> h \<and> h < group_count fs \<longrightarrow> bg_free_blocks_count (desc_of fs h) = 0 \<or> (\<forall>k < ?P. block_used fs (h * ?P + k)))) \<or>
          (\<exists>b. free_block_from (g + 1) fs = Some (of_nat b, take_block b fs) \<and> b < group_count fs * ?P \<and> g + 1 \<le> b div ?P \<and>
             \<not> block_used fs b \<and> (\<forall>k < b mod ?P. block_used fs (b div ?P * ?P + k)))"
    proof -
      from IH show ?thesis
      proof (elim disjE conjE exE)
        assume "free_block_from (g + 1) fs = Some (0, fs)"
          and h: "\<forall>h. g + 1 \<le> h \<and> h < group_count fs \<longrightarrow> bg_free_blocks_count (desc_of fs h) = 0 \<or> (\<forall>k < ?P. block_used fs (h * ?P + k))"
        moreover have "g \<le> h \<Longrightarrow> h = g \<or> g + 1 \<le> h" for h by auto
        ultimately show ?thesis using s none by metis
      next
        fix b assume "free_block_from (g + 1) fs = Some (of_nat b, take_block b fs)" "b < group_count fs * ?P" "g + 1 \<le> b div ?P"
          "\<not> block_used fs b" "\<forall>k < b mod ?P. block_used fs (b div ?P * ?P + k)"
        then show ?thesis using s by (intro disjI2 exI [of _ b]) simp
      qed
    qed
    show ?thesis
    proof (cases "bg_free_blocks_count ?d = 0")
      case c: True
      have s: "free_block_from g fs = free_block_from (g + 1) fs"
        using True c grp(1) by (subst free_block_from.simps) simp
      show ?thesis by (rule skip [OF s]) (use c "1.IH"(1) [OF True grp(1) c ok] in auto)
    next
      case c: False
      have start: "bg_block_bitmap ?d = bitmap_of fs g" by (simp add: bitmap_of_def)
      from ok have g: "0 < m_BlockSize fs" "4 dvd m_BlockSize fs" "32 dvd ?P" "?P \<le> 8 * m_BlockSize fs" by (simp_all add: bitmaps_ok_def)
      from scan_bitmap_ok [OF g grp(3,4), of 0]
      consider (none) "scan_bitmap fs (bitmap_of fs g) (s_blocks_per_group (m_pSuperblock fs)) 0 = Some None"
          "\<forall>k < ?P. bit_of (blocks fs (bitmap_of fs g)) k"
        | (found) p j where "scan_bitmap fs (bitmap_of fs g) (s_blocks_per_group (m_pSuperblock fs)) 0 = Some (Some (p, j))"
          "j < 32" "p + 4 \<le> m_BlockSize fs" "8 * p + j < ?P" "\<not> bit_of (blocks fs (bitmap_of fs g)) (8 * p + j)"
          "\<forall>k < 8 * p + j. bit_of (blocks fs (bitmap_of fs g)) k" by auto
      then show ?thesis
      proof cases
        case none
        have s: "free_block_from g fs = free_block_from (g + 1) fs"
          using True c grp(1) none(1) start by (subst free_block_from.simps) simp
        show ?thesis by (rule skip [OF s]) (use none used "1.IH"(2) [OF True grp(1) c refl _ _ ok] start in auto)
      next
        case found
        let ?b = "g * ?P + (8 * p + j)"
        have s: "free_block_from g fs = Some (of_nat ?b, take_block ?b fs)"
          using True c grp(1) found(1) start take_block_set_bit [OF ok True found(2-4)]
          by (subst free_block_from.simps) (simp add: Let_def ac_simps)
        have "?b < group_count fs * ?P"
        proof -
          have "?b < (g + 1) * ?P" using found(4) by simp
          also have "\<dots> \<le> group_count fs * ?P" using True by (intro mult_right_mono) auto
          finally show ?thesis .
        qed
        moreover have "?b div ?P = g" "?b mod ?P = 8 * p + j" using found(4) by (simp_all add: div_mult_self3)
        ultimately show ?thesis using s found(4,5,6) used by (intro disjI2 exI [of _ ?b]) auto
      qed
    qed
  qed
qed

section \<open>After taking a block\<close>

text \<open>The blocks of the bitmaps.\<close>

definition bitmap_blocks :: "ext2_fs \<Rightarrow> u32 set" where
  "bitmap_blocks fs = {bitmap_of fs g |g. g < group_count fs}"

lemma div_group: "b < group_count fs * per_group fs \<Longrightarrow> b div per_group fs < group_count fs"
  by (metis less_mult_imp_div_less)

lemma take_block_simps:
  "s_blocks_per_group (m_pSuperblock (take_block b fs)) = s_blocks_per_group (m_pSuperblock fs)"
  "s_inodes_per_group (m_pSuperblock (take_block b fs)) = s_inodes_per_group (m_pSuperblock fs)"
  "s_first_data_block (m_pSuperblock (take_block b fs)) = s_first_data_block (m_pSuperblock fs)"
  "group_count (take_block b fs) = group_count fs" "m_BlockSize (take_block b fs) = m_BlockSize fs"
  "disk_blocks (take_block b fs) = disk_blocks fs" "inodes (take_block b fs) = inodes fs" "g_pSparseBlock (take_block b fs) = g_pSparseBlock fs"
  "m_InodeSize (take_block b fs) = m_InodeSize fs"
  by (simp_all add: take_block_def modify_super_def modify_group_def Let_def)

lemma take_block_descs:
  "m_pGroupDescriptors (take_block b fs) =
     (m_pGroupDescriptors fs)[b div per_group fs :=
        map_option (\<lambda>d. d\<lparr>bg_free_blocks_count := bg_free_blocks_count d - 1\<rparr>) (m_pGroupDescriptors fs ! (b div per_group fs))]"
  by (simp add: take_block_def modify_super_def modify_group_def Let_def)

lemma take_block_desc:
  assumes "bitmaps_ok fs" "h < group_count fs"
  shows "m_pGroupDescriptors (take_block b fs) ! h = Some (if h = b div per_group fs
           then desc_of fs h\<lparr>bg_free_blocks_count := bg_free_blocks_count (desc_of fs h) - 1\<rparr> else desc_of fs h)" (is "_ = Some ?d")
    and "bitmap_of (take_block b fs) h = bitmap_of fs h"
proof -
  show d: "m_pGroupDescriptors (take_block b fs) ! h = Some ?d"
    using bitmaps_group(2) [OF assms] assms(2) by (cases "h = b div per_group fs") (simp_all add: take_block_descs)
  have "bg_block_bitmap ?d = bg_block_bitmap (desc_of fs h)" by simp
  then show "bitmap_of (take_block b fs) h = bitmap_of fs h"
    by (simp only: bitmap_of_def desc_of_def [of "take_block b fs"] d option.sel)
qed

lemma take_block_blocks:
  "blocks (take_block b fs) c =
     (if c = bitmap_of fs (b div per_group fs)
      then (blocks fs c)[b mod per_group fs div 8 := blocks fs c ! (b mod per_group fs div 8) OR push_bit (b mod per_group fs mod 8) 1]
      else blocks fs c)"
  by (simp add: take_block_def modify_super_def modify_group_def Let_def)

lemma take_block_length [simp]: "length (blocks (take_block b fs) c) = length (blocks fs c)"
  by (simp add: take_block_blocks)

lemma take_block_other: "b < group_count fs * per_group fs \<Longrightarrow> c \<notin> bitmap_blocks fs \<Longrightarrow> blocks (take_block b fs) c = blocks fs c"
  using div_group [of b fs] by (auto simp: take_block_blocks bitmap_blocks_def)

lemma take_block_ok:
  assumes "bitmaps_ok fs"
  shows "bitmaps_ok (take_block b fs)"
  using assms take_block_desc [OF assms] unfolding bitmaps_ok_def
  by (simp add: take_block_simps)

lemma take_block_used:
  assumes "bitmaps_ok fs" "b < group_count fs * per_group fs" "c < group_count fs * per_group fs"
  shows "block_used (take_block b fs) c \<longleftrightarrow> c = b \<or> block_used fs c"
proof -
  let ?P = "per_group fs"
  have P: "0 < ?P" "?P \<le> 8 * m_BlockSize fs" using assms(1) by (simp_all add: bitmaps_ok_def)
  note g = div_group [OF assms(2)] and h = div_group [OF assms(3)]
  have k: "b mod ?P < 8 * m_BlockSize fs" "c mod ?P < 8 * m_BlockSize fs"
    using P mod_less_divisor [OF P(1)] by (meson le_less_trans less_le_trans)+
  have u: "block_used (take_block b fs) c \<longleftrightarrow> bit_of (blocks (take_block b fs) (bitmap_of fs (c div ?P))) (c mod ?P)"
    using take_block_desc(2) [OF assms(1) h] by (simp add: block_used_def take_block_simps)
  show ?thesis
  proof (cases "c div ?P = b div ?P")
    case True
    then have "c = b \<longleftrightarrow> c mod ?P = b mod ?P" by (metis div_mult_mod_eq)
    moreover have "bit_of (blocks (take_block b fs) (bitmap_of fs (c div ?P))) (c mod ?P) \<longleftrightarrow>
        c mod ?P = 8 * (b mod ?P div 8) + b mod ?P mod 8 \<or> bit_of (blocks fs (bitmap_of fs (c div ?P))) (c mod ?P)"
      unfolding take_block_blocks True
      using bit_of_set [of "b mod ?P div 8" "blocks fs (bitmap_of fs (b div ?P))" "b mod ?P mod 8" "c mod ?P"]
        k bitmaps_group(4) [OF assms(1) g] by (simp add: less_mult_imp_div_less mult.commute)
    ultimately show ?thesis using u by (simp add: block_used_def)
  next
    case False
    then have "bitmap_of fs (c div ?P) \<noteq> bitmap_of fs (b div ?P)" using assms(1) g h by (auto simp: bitmaps_ok_def)
    then show ?thesis using u False by (auto simp: block_used_def take_block_blocks)
  qed
qed

lemma release_take:
  assumes "bitmaps_ok fs" "b < group_count fs * per_group fs" "\<not> block_used fs b"
  shows "releaseBlock (of_nat b) (take_block b fs) = Some fs"
proof -
  let ?P = "per_group fs" and ?g = "b div per_group fs" and ?k = "b mod per_group fs" and ?fs = "take_block b fs"
  let ?bm = "bitmap_of fs ?g"
  note g = div_group [OF assms(2)]
  have P: "0 < ?P" "?P \<le> 8 * m_BlockSize fs" "group_count fs * ?P \<le> 2 ^ 32" "0 < m_BlockSize fs" using assms(1) by (simp_all add: bitmaps_ok_def)
  have b: "unat (of_nat b :: u32) = b" using assms(2) P(3) by (simp add: unat_of_nat take_bit_nat_eq_self)
  have q: "unat (of_nat b div s_blocks_per_group (m_pSuperblock fs)) = ?g" "unat (of_nat b mod s_blocks_per_group (m_pSuperblock fs)) = ?k"
    by (simp_all add: unat_div_distrib unat_mod_distrib b)
  have k: "?k < 8 * m_BlockSize fs" using P mod_less_divisor [OF P(1)] by (meson less_le_trans)
  then have field: "?k div 8 div m_BlockSize fs = 0" "?k div 8 mod m_BlockSize fs = ?k div 8" by (simp_all add: less_mult_imp_div_less mult.commute)
  have d: "group_at ?fs ?g = Some (desc_of fs ?g\<lparr>bg_free_blocks_count := bg_free_blocks_count (desc_of fs ?g) - 1\<rparr>)"
    using g take_block_desc(1) [OF assms(1) g] by (simp add: group_at_def take_block_simps)
  have bm: "bg_block_bitmap (desc_of fs ?g) = ?bm" by (simp add: bitmap_of_def)
  have nz: "s_blocks_per_group (m_pSuperblock fs) \<noteq> 0" using P(1) by auto
  have bits: "(blocks ?fs ?bm)[?k div 8 := blocks ?fs ?bm ! (?k div 8) AND NOT (push_bit (?k mod 8) 1)] = blocks fs ?bm"
    using set_clear_bit [of "?k div 8" "blocks fs ?bm" "?k mod 8"] bitmaps_group(4) [OF assms(1) g] k assms(3)
    by (simp add: take_block_blocks block_used_def less_mult_imp_div_less mult.commute)
  have eq: "(blocks ?fs)(?bm := blocks fs ?bm) = blocks fs" by (rule ext) (simp add: take_block_blocks)
  have descs: "(m_pGroupDescriptors ?fs)[?g := map_option (\<lambda>d. d\<lparr>bg_free_blocks_count := bg_free_blocks_count d + 1\<rparr>) (m_pGroupDescriptors ?fs ! ?g)]
      = m_pGroupDescriptors fs"
    using bitmaps_group(2) [OF assms(1)] take_block_desc(1) [OF assms(1)] g
    by (intro nth_equalityI) (auto simp: take_block_simps nth_list_update)
  have sup: "(\<lambda>s. s\<lparr>s_free_blocks_count := s_free_blocks_count s + 1\<rparr>) (m_pSuperblock ?fs) = m_pSuperblock fs"
    by (simp add: take_block_def modify_super_def modify_group_def Let_def)
  have bound: "unat ?bm < disk_blocks fs" using assms(1) g by (auto simp: bitmaps_ok_def)
  show ?thesis
    using d q nz P(4) field bm bits eq descs sup bound bitmaps_group(5) [OF assms(1) g]
    by (simp add: releaseBlock_def Let_def take_block_simps clear_bit_at_def modify_block_def modify_group_def modify_super_def readBlock_def)
qed

section \<open>After giving back a block\<close>

lemma bit_of_clear:
  assumes "i < length buf" "j < 8" "k < 8 * length buf"
  shows "bit_of (buf[i := buf ! i AND NOT (push_bit j 1)]) k \<longleftrightarrow> k \<noteq> 8 * i + j \<and> bit_of buf k"
proof -
  have "k div 8 < length buf" using assms(3) by auto
  moreover have "k = 8 * i + j \<longleftrightarrow> k div 8 = i \<and> k mod 8 = j" using assms(2) by auto
  ultimately show ?thesis using assms(1,2) by (auto simp: bit_of_def nth_list_update bit_simps)
qed

text \<open>Everything but the bitmaps and the counts is as before.\<close>

definition same_but_bitmaps :: "ext2_fs \<Rightarrow> ext2_fs \<Rightarrow> bool" where
  "same_but_bitmaps fs fs' \<longleftrightarrow>
     inodes fs' = inodes fs \<and> g_pSparseBlock fs' = g_pSparseBlock fs \<and> m_BlockSize fs' = m_BlockSize fs \<and> m_InodeSize fs' = m_InodeSize fs \<and>
     disk_blocks fs' = disk_blocks fs \<and> group_count fs' = group_count fs \<and> per_group fs' = per_group fs \<and>
     s_inodes_per_group (m_pSuperblock fs') = s_inodes_per_group (m_pSuperblock fs) \<and>
     (\<forall>g < group_count fs. bitmap_of fs' g = bitmap_of fs g) \<and> (\<forall>c. c \<notin> bitmap_blocks fs \<longrightarrow> blocks fs' c = blocks fs c) \<and>
     (\<forall>c. length (blocks fs' c) = length (blocks fs c))"

lemma same_refl [simp]: "same_but_bitmaps fs fs"
  by (simp add: same_but_bitmaps_def)

lemma same_bitmap_blocks: "same_but_bitmaps fs fs' \<Longrightarrow> bitmap_blocks fs' = bitmap_blocks fs"
  unfolding same_but_bitmaps_def bitmap_blocks_def by (metis (mono_tags, lifting))

lemma same_trans: "same_but_bitmaps fs1 fs2 \<Longrightarrow> same_but_bitmaps fs2 fs3 \<Longrightarrow> same_but_bitmaps fs1 fs3"
  using same_bitmap_blocks [of fs1 fs2] unfolding same_but_bitmaps_def by simp

lemma take_block_same:
  assumes "bitmaps_ok fs" "b < group_count fs * per_group fs"
  shows "same_but_bitmaps fs (take_block b fs)"
  unfolding same_but_bitmaps_def by (simp add: take_block_simps take_block_desc [OF assms(1)] take_block_other [OF assms(2)])

lemma release_used:
  assumes "bitmaps_ok fs" "unat b < group_count fs * per_group fs"
  shows "\<exists>fs'. releaseBlock b fs = Some fs' \<and> bitmaps_ok fs' \<and> same_but_bitmaps fs fs' \<and>
    (\<forall>c < group_count fs * per_group fs. block_used fs' c \<longleftrightarrow> c \<noteq> unat b \<and> block_used fs c)"
proof -
  let ?P = "per_group fs" and ?g = "unat b div per_group fs" and ?k = "unat b mod per_group fs"
  let ?bm = "bitmap_of fs ?g" and ?inc = "\<lambda>d. d\<lparr>bg_free_blocks_count := bg_free_blocks_count d + 1\<rparr>"
  note g = div_group [OF assms(2)]
  have P: "0 < ?P" "?P \<le> 8 * m_BlockSize fs" "0 < m_BlockSize fs" using assms(1) by (simp_all add: bitmaps_ok_def)
  have q: "unat (b div s_blocks_per_group (m_pSuperblock fs)) = ?g" "unat (b mod s_blocks_per_group (m_pSuperblock fs)) = ?k"
    by (simp_all add: unat_div_distrib unat_mod_distrib)
  have k: "?k < 8 * m_BlockSize fs" using P mod_less_divisor [OF P(1)] by (meson less_le_trans)
  then have field: "?k div 8 div m_BlockSize fs = 0" "?k div 8 mod m_BlockSize fs = ?k div 8" "?k div 8 < m_BlockSize fs"
    by (simp_all add: less_mult_imp_div_less mult.commute)
  have nz: "s_blocks_per_group (m_pSuperblock fs) \<noteq> 0" using P(1) by auto
  define bl where "bl = (blocks fs)(?bm := (blocks fs ?bm)[?k div 8 := blocks fs ?bm ! (?k div 8) AND NOT (push_bit (?k mod 8) 1)])"
  define fs' where "fs' = (modify_super (\<lambda>s. s\<lparr>s_free_blocks_count := s_free_blocks_count s + 1\<rparr>) (modify_group ?g ?inc fs))\<lparr>blocks := bl\<rparr>"
  have bound: "unat ?bm < disk_blocks fs" using assms(1) g by (auto simp: bitmaps_ok_def)
  have r: "releaseBlock b fs = Some fs'"
    using q nz P(3) field bitmaps_group [OF assms(1) g] bound
    by (simp add: fs'_def bl_def releaseBlock_def Let_def clear_bit_at_def modify_block_def modify_group_def modify_super_def readBlock_def
        bitmap_of_def [symmetric])
  have d: "m_pGroupDescriptors fs' ! h = Some (if h = ?g then ?inc (desc_of fs h) else desc_of fs h)" if "h < group_count fs" for h
    using bitmaps_group(2) [OF assms(1) that] that by (cases "h = ?g") (simp_all add: fs'_def modify_super_def modify_group_def)
  have bms: "bitmap_of fs' h = bitmap_of fs h" if "h < group_count fs" for h
  proof -
    have "desc_of fs' h = (if h = ?g then ?inc (desc_of fs h) else desc_of fs h)"
      unfolding desc_of_def [of fs'] d [OF that] by (rule option.sel)
    then have "bg_block_bitmap (desc_of fs' h) = bg_block_bitmap (if h = ?g then ?inc (desc_of fs h) else desc_of fs h)" by (rule arg_cong)
    also have "\<dots> = bg_block_bitmap (desc_of fs h)" by simp
    finally show ?thesis unfolding bitmap_of_def [of fs' h] bitmap_of_def [of fs h] .
  qed
  have geo: "group_count fs' = group_count fs" "per_group fs' = ?P" "m_BlockSize fs' = m_BlockSize fs" "disk_blocks fs' = disk_blocks fs"
    "s_inodes_per_group (m_pSuperblock fs') = s_inodes_per_group (m_pSuperblock fs)" "inodes fs' = inodes fs"
    "g_pSparseBlock fs' = g_pSparseBlock fs" "m_InodeSize fs' = m_InodeSize fs" "blocks fs' = bl"
    by (simp_all add: fs'_def modify_super_def modify_group_def)
  have len: "length (bl c) = length (blocks fs c)" for c by (simp add: bl_def)
  have "bitmaps_ok fs'"
    using assms(1) unfolding bitmaps_ok_def geo by (simp add: bms d len)
  moreover have "same_but_bitmaps fs fs'"
    using g unfolding same_but_bitmaps_def geo by (auto simp: bms len bl_def bitmap_blocks_def)
  moreover have "block_used fs' c \<longleftrightarrow> c \<noteq> unat b \<and> block_used fs c" if "c < group_count fs * ?P" for c
  proof -
    note h = div_group [OF that]
    have kc: "c mod ?P < 8 * m_BlockSize fs" using P mod_less_divisor [OF P(1)] by (meson less_le_trans)
    have u: "block_used fs' c \<longleftrightarrow> bit_of (bl (bitmap_of fs (c div ?P))) (c mod ?P)"
      using bms [OF h] by (simp only: block_used_def geo)
    show ?thesis
    proof (cases "c div ?P = ?g")
      case True
      then have "c = unat b \<longleftrightarrow> c mod ?P = ?k" by (metis div_mult_mod_eq)
      then show ?thesis
        using u True bit_of_clear [of "?k div 8" "blocks fs ?bm" "?k mod 8" "c mod ?P"] kc field(3) bitmaps_group(4) [OF assms(1) g]
        by (simp add: block_used_def bl_def)
    next
      case False
      then have "bitmap_of fs (c div ?P) \<noteq> ?bm" using assms(1) g h by (auto simp: bitmaps_ok_def)
      then show ?thesis using u False by (auto simp: block_used_def bl_def)
    qed
  qed
  ultimately show ?thesis using r by blast
qed

end
