(* ===== verification/Ext2_Contents.thy ===== *)
theory Ext2_Contents
  imports Ext2_Node Ext2_Bitmap
begin

text \<open>The bytes of a file: what reading and writing do to them when the numbers of its blocks are loaded.\<close>

section \<open>The bytes of a file\<close>

definition content :: "ext2_fs \<Rightarrow> u32 \<Rightarrow> u8 list" where
  "content fs b = take (m_BlockSize fs) (if b = 0 then g_pSparseBlock fs else blocks fs b)"

definition file_data :: "ext2_fs \<Rightarrow> u32 list \<Rightarrow> u8 list" where
  "file_data fs bs = concat (map (content fs) bs)"

text \<open>Every block has the size of a block.\<close>

definition blocks_ok :: "ext2_fs \<Rightarrow> bool" where
  "blocks_ok fs \<longleftrightarrow> 0 < m_BlockSize fs \<and> m_BlockSize fs \<le> length (g_pSparseBlock fs) \<and> (\<forall>b. length (blocks fs b) = m_BlockSize fs)"

definition loaded :: "ext2_fs \<Rightarrow> ext2_node \<Rightarrow> bool" where
  "loaded fs nd \<longleftrightarrow> (\<forall>b \<in> set (m_pBlocks nd). b \<noteq> - 1 \<and> unat b < disk_blocks fs) \<and> m_nBlocks nd * m_BlockSize fs < 2 ^ 32"

lemma length_content: "blocks_ok fs \<Longrightarrow> length (content fs b) = m_BlockSize fs"
  by (simp add: content_def blocks_ok_def)

lemma length_ext2_data: "blocks_ok fs \<Longrightarrow> length (file_data fs bs) = length bs * m_BlockSize fs"
  by (induction bs) (simp_all add: file_data_def length_content)

lemma ensure_loaded: "loaded fs nd \<Longrightarrow> n < m_nBlocks nd \<Longrightarrow> ensureBlockLoaded n nd fs = Some nd"
  by (auto simp: ensureBlockLoaded_def loaded_def not_le)

lemma read_loaded:
  assumes "loaded fs nd" "n < m_nBlocks nd"
  shows "\<exists>buf. readBlock (m_pBlocks nd ! n) fs = Some buf \<and> take (m_BlockSize fs) buf = content fs (m_pBlocks nd ! n)"
  using assms nth_mem [OF assms(2)] by (auto simp: loaded_def readBlock_def content_def)

lemma piece_bounds:
  assumes "0 < bs" "0 < n"
  shows "0 < piece bs location n" "piece bs location n \<le> n" "location mod bs + piece bs location n \<le> bs"
    and "piece bs location n < n \<Longrightarrow> (location + piece bs location n) mod bs = 0"
proof -
  have m: "location mod bs < bs" using assms(1) by simp
  show "0 < piece bs location n" "piece bs location n \<le> n" "location mod bs + piece bs location n \<le> bs"
    using assms m by (auto simp: piece_def)
  assume "piece bs location n < n"
  then have "piece bs location n = bs - location mod bs" using assms m by (auto simp: piece_def split: if_splits)
  then have "location + piece bs location n = bs * (location div bs) + bs"
    using m by (metis add.assoc div_mult_mod_eq le_add_diff_inverse less_imp_le mult.commute)
  then show "(location + piece bs location n) mod bs = 0" by simp
qed

lemma drop_concat_block:
  assumes "\<forall>x \<in> set xs. length x = (b :: nat)" "n < length xs"
  shows "take k (drop (n * b + r) (concat xs)) = take k (drop r (xs ! n @ concat (drop (Suc n) xs)))"
proof -
  have "concat xs = concat (take n xs) @ xs ! n @ concat (drop (Suc n) xs)"
    using assms(2) by (metis append.assoc append_take_drop_id Cons_nth_drop_Suc concat.simps(2) concat_append)
  moreover have "length (concat (take n xs)) = n * b"
  proof -
    have "length (concat ys) = length ys * b" if "\<forall>x \<in> set ys. length x = b" for ys :: "'a list list"
      using that by (induction ys) auto
    moreover have "\<forall>x \<in> set (take n xs). length x = b" using assms(1) by (auto dest: in_set_takeD)
    ultimately show ?thesis using assms(2) by simp
  qed
  ultimately show ?thesis by simp
qed

lemma file_data_block:
  assumes "blocks_ok fs" "n < length bs" "r + k \<le> m_BlockSize fs"
  shows "take k (drop (n * m_BlockSize fs + r) (file_data fs bs)) = take k (drop r (content fs (bs ! n)))"
proof -
  have "take k (drop (n * m_BlockSize fs + r) (file_data fs bs)) =
      take k (drop r (content fs (bs ! n) @ concat (drop (Suc n) (map (content fs) bs))))"
    using drop_concat_block [of "map (content fs) bs" "m_BlockSize fs" n k r] assms(1,2)
    by (simp add: file_data_def length_content)
  also have "\<dots> = take k (drop r (content fs (bs ! n)))"
    using assms(3) length_content [OF assms(1), of "bs ! n"] by simp
  finally show ?thesis .
qed

section \<open>Reading\<close>

lemma read_blocks_ok:
  assumes "blocks_ok fs" "loaded fs nd" "location + n \<le> m_nBlocks nd * m_BlockSize fs"
  shows "read_blocks n location (location div m_BlockSize fs) nd fs = Some (take n (drop location (file_data fs (m_pBlocks nd))), nd)"
  using assms(3)
proof (induction n arbitrary: location rule: less_induct)
  case (less n)
  let ?bs = "m_BlockSize fs" and ?b = "location div m_BlockSize fs" and ?r = "location mod m_BlockSize fs"
  have bs: "0 < ?bs" using assms(1) by (simp add: blocks_ok_def)
  show ?case
  proof (cases "n = 0")
    case False
    let ?k = "piece ?bs location n"
    note p = piece_bounds [OF bs, of n location] 
    have n: "0 < n" using False by simp
    have b: "?b < m_nBlocks nd" using less.prems n bs by (metis add_lessD1 div_less_iff_less_mult less_add_same_cancel1 less_le_trans)
    obtain buf where buf: "readBlock (m_pBlocks nd ! ?b) fs = Some buf" "take ?bs buf = content fs (m_pBlocks nd ! ?b)"
      using read_loaded [OF assms(2) b] by blast
    have loc: "location = ?b * ?bs + ?r" by simp
    have now: "take ?k (drop ?r buf) = take ?k (drop location (file_data fs (m_pBlocks nd)))"
    proof -
      have "take ?k (drop ?r buf) = take ?k (drop ?r (take ?bs buf))" using p(3) [OF n] by (simp add: drop_take min_def)
      also have "\<dots> = take ?k (drop (?b * ?bs + ?r) (file_data fs (m_pBlocks nd)))"
        using file_data_block [OF assms(1) b p(3) [OF n]] buf(2) by simp
      finally show ?thesis by simp
    qed
    have rest: "read_blocks (n - ?k) (location + ?k) (?b + 1) nd fs =
        Some (take (n - ?k) (drop (location + ?k) (file_data fs (m_pBlocks nd))), nd)"
    proof (cases "?k = n")
      case True
      then show ?thesis by (subst read_blocks.simps) simp
    next
      case False
      then have lt: "?k < n" using p(2) [OF n] by simp
      then have "?k = ?bs - ?r" using bs by (auto simp: piece_def split: if_splits)
      then have "location + ?k = ?b * ?bs + ?bs"
        using loc bs by (metis add.assoc le_add_diff_inverse less_imp_le mod_less_divisor)
      then have "(location + ?k) div ?bs = ?b + 1" using bs by (metis add.commute div_mult_self3 div_self nat_neq_iff mult.commute)
      then show ?thesis using less.IH [of "n - ?k" "location + ?k"] p(1,2) [OF n] n less.prems by simp
    qed
    have "take n (drop location (file_data fs (m_pBlocks nd))) =
        take ?k (drop location (file_data fs (m_pBlocks nd))) @ take (n - ?k) (drop (location + ?k) (file_data fs (m_pBlocks nd)))"
      using p(2) [OF n] by (metis add.commute drop_drop le_add_diff_inverse take_add)
    then show ?thesis
      using n bs b buf(1) now rest ensure_loaded [OF assms(2) b] by (subst read_blocks.simps) (simp add: Let_def)
  qed (simp add: read_blocks.simps)
qed

lemma doRead_ok:
  assumes "blocks_ok fs" "loaded fs nd" "m_nSize nd \<le> m_nBlocks nd * m_BlockSize fs" "i_blocks (m_pInode fs nd) \<noteq> 0"
  shows "doRead location n nd fs = Some ((0, take n (drop location (take (m_nSize nd) (file_data fs (m_pBlocks nd))))), nd)"
proof (cases "m_nSize nd \<le> location \<or> n = 0")
  case True
  then show ?thesis by (auto simp: doRead_def)
next
  case False
  let ?n = "if m_nSize nd \<le> location + n then m_nSize nd - location else n"
  have "location + ?n \<le> m_nBlocks nd * m_BlockSize fs" using assms(3) False by auto
  note r = read_blocks_ok [OF assms(1,2) this]
  have "0 < m_BlockSize fs" using assms(1) by (simp add: blocks_ok_def)
  moreover have "take ?n (drop location (file_data fs (m_pBlocks nd))) = take n (drop location (take (m_nSize nd) (file_data fs (m_pBlocks nd))))"
  proof -
    have "?n = min n (m_nSize nd - location)" using False by auto
    then show ?thesis by (simp only: drop_take take_take)
  qed
  ultimately show ?thesis using False r assms(4) by (simp add: doRead_def Let_def)
qed

section \<open>Writing\<close>

lemma splice_splice:
  assumes "i + length (bs @ cs) \<le> length old"
  shows "splice (i + length bs) cs (splice i bs old) = splice i (bs @ cs) old"
proof -
  have "take (i + length bs) (splice i bs old) = take i old @ bs"
    using assms by (simp add: splice_def)
  moreover have "drop (i + length bs + length cs) (splice i bs old) = drop (i + length (bs @ cs)) old"
    using assms by (simp add: splice_def ac_simps)
  ultimately show ?thesis by (simp add: splice_def [of "i + length bs"] splice_def [of i "bs @ cs"])
qed

lemma file_data_update:
  assumes "blocks_ok fs" "distinct bl" "0 \<notin> set bl" "n < length bl" "r + length c \<le> m_BlockSize fs"
  shows "file_data (fs\<lparr>blocks := (blocks fs)(bl ! n := splice r c (blocks fs (bl ! n)))\<rparr>) bl =
    splice (n * m_BlockSize fs + r) c (file_data fs bl)" (is "file_data ?fs bl = _")
proof -
  let ?x = "bl ! n"
  have bl: "bl = take n bl @ ?x # drop (Suc n) bl" using assms(4) by (simp add: id_take_nth_drop)
  then have x: "?x \<notin> set (take n bl)" "?x \<notin> set (drop (Suc n) bl)" using assms(2)
    by (metis distinct.simps(2) distinct_append not_distinct_conv_prefix, metis distinct.simps(2) distinct_append)
  have nz: "?x \<noteq> 0" using assms(3,4) by (metis nth_mem)
  have other: "file_data ?fs ys = file_data fs ys" if "?x \<notin> set ys" for ys
    using that by (induction ys) (auto simp: file_data_def content_def)
  have here: "content ?fs ?x = splice r c (content fs ?x)"
    using nz assms(1,5) by (simp add: content_def blocks_ok_def length_splice)
  have split: "file_data f (take n bl @ ?x # drop (Suc n) bl) = file_data f (take n bl) @ content f ?x @ file_data f (drop (Suc n) bl)" for f
    by (simp add: file_data_def)
  have "file_data ?fs bl = file_data fs (take n bl) @ splice r c (content fs ?x) @ file_data fs (drop (Suc n) bl)"
    by (subst bl, subst split) (simp only: other [OF x(1)] other [OF x(2)] here)
  moreover have "length (file_data fs (take n bl)) = n * m_BlockSize fs" using assms(4) by (simp add: length_ext2_data [OF assms(1)])
  moreover have "file_data fs bl = file_data fs (take n bl) @ content fs ?x @ file_data fs (drop (Suc n) bl)"
    by (subst bl, subst split) simp
  ultimately show ?thesis
    using splice_skip [of "n * m_BlockSize fs" "file_data fs (take n bl)" r c] splice_append [of r c "content fs ?x"]
      length_content [OF assms(1), of ?x] assms(5) by simp
qed

lemma write_blocks_ok:
  assumes "blocks_ok fs" "loaded fs nd" "distinct (m_pBlocks nd)" "0 \<notin> set (m_pBlocks nd)"
    and "location + length bs \<le> m_nBlocks nd * m_BlockSize fs"
  shows "\<exists>bl. write_blocks bs location (location div m_BlockSize fs) nd fs = Some (nd, fs\<lparr>blocks := bl\<rparr>) \<and>
    blocks_ok (fs\<lparr>blocks := bl\<rparr>) \<and> (\<forall>b. b \<notin> set (m_pBlocks nd) \<longrightarrow> bl b = blocks fs b) \<and>
    file_data (fs\<lparr>blocks := bl\<rparr>) (m_pBlocks nd) = splice location bs (file_data fs (m_pBlocks nd))"
  using assms
proof (induction bs arbitrary: location fs rule: length_induct)
  case (1 bs)
  let ?B = "m_BlockSize fs" and ?n = "location div m_BlockSize fs" and ?r = "location mod m_BlockSize fs"
  have B: "0 < ?B" using "1.prems"(1) by (simp add: blocks_ok_def)
  show ?case
  proof (cases "bs = []")
    case True
    have "fs\<lparr>blocks := blocks fs\<rparr> = fs" by simp
    then show ?thesis using True "1.prems"(1) by (intro exI [of _ "blocks fs"]) (simp add: write_blocks.simps)
  next
    case False
    let ?k = "piece ?B location (length bs)"
    have len: "0 < length bs" using False by simp
    note p = piece_bounds [OF B, of "length bs" location]
    have n: "?n < m_nBlocks nd"
      using "1.prems"(5) len B by (metis add_lessD1 div_less_iff_less_mult less_add_same_cancel1 less_le_trans)
    let ?x = "m_pBlocks nd ! ?n"
    have x: "?x \<in> set (m_pBlocks nd)" "?x \<noteq> 0" using n "1.prems"(4) by (metis nth_mem)+
    obtain buf where buf: "readBlock ?x fs = Some buf" using read_loaded [OF "1.prems"(2) n] by blast
    let ?c = "take ?k bs"
    let ?fs = "fs\<lparr>blocks := (blocks fs)(?x := splice ?r ?c (blocks fs ?x))\<rparr>"
    have c: "length ?c = ?k" using p(2) [OF len] by simp
    have mod: "modify_block ?x (splice ?r ?c) fs = ?fs" using x(2) by (simp add: modify_block_def)
    have fd: "file_data ?fs (m_pBlocks nd) = splice location ?c (file_data fs (m_pBlocks nd))"
      using file_data_update [OF "1.prems"(1,3,4) n, of ?r ?c] p(3) [OF len] c by simp
    have ok: "blocks_ok ?fs" using "1.prems"(1) p(3) [OF len] c by (auto simp: blocks_ok_def length_splice)
    have ld: "loaded ?fs nd" using "1.prems"(2) by (simp add: loaded_def)
    have wb: "node_writeBlock location nd ?fs = Some nd"
      using ensure_loaded [OF ld, of ?n] n by (simp add: node_writeBlock_def)
    have step: "write_blocks bs location ?n nd fs = write_blocks (drop ?k bs) (location + ?k) (?n + 1) nd ?fs"
      using False B ensure_loaded [OF "1.prems"(2) n] buf mod wb by (subst write_blocks.simps) (simp add: Let_def)
    have nxt: "drop ?k bs = [] \<or> ?n + 1 = (location + ?k) div ?B"
    proof (cases "?k = length bs")
      case False
      then have "?k < length bs" using p(2) [OF len] by simp
      then have "?k = ?B - ?r" using B by (auto simp: piece_def split: if_splits)
      moreover have "location = ?n * ?B + ?r" by simp
      ultimately have "location + ?k = ?n * ?B + ?B" using B by (metis add.assoc le_add_diff_inverse less_imp_le mod_less_divisor)
      then show ?thesis using B by (metis add.commute div_mult_self3 div_self nat_neq_iff mult.commute)
    qed simp
    have "length (drop ?k bs) < length bs" using p(1) [OF len] len by simp
    moreover have "location + ?k + length (drop ?k bs) \<le> m_nBlocks nd * m_BlockSize ?fs" using "1.prems"(5) p(2) [OF len] by simp
    ultimately obtain bl where bl: "write_blocks (drop ?k bs) (location + ?k) ((location + ?k) div ?B) nd ?fs = Some (nd, ?fs\<lparr>blocks := bl\<rparr>)"
      "blocks_ok (?fs\<lparr>blocks := bl\<rparr>)" "\<forall>b. b \<notin> set (m_pBlocks nd) \<longrightarrow> bl b = blocks ?fs b"
      "file_data (?fs\<lparr>blocks := bl\<rparr>) (m_pBlocks nd) = splice (location + ?k) (drop ?k bs) (file_data ?fs (m_pBlocks nd))"
      using "1.IH" [rule_format, of "drop ?k bs" ?fs "location + ?k"] ok ld "1.prems"(3,4) by auto
    have w: "write_blocks (drop ?k bs) (location + ?k) (?n + 1) nd ?fs = Some (nd, ?fs\<lparr>blocks := bl\<rparr>)"
    proof (cases "drop ?k bs = []")
      case True
      have "write_blocks [] l b nd fs = Some (nd, fs)" for l b nd fs by (simp add: write_blocks.simps)
      then show ?thesis using bl(1) by (simp only: True)
    next
      case False
      then show ?thesis using nxt bl(1) by simp
    qed
    have all: "location + length (?c @ drop ?k bs) \<le> length (file_data fs (m_pBlocks nd))"
      using "1.prems"(5) by (simp add: length_ext2_data [OF "1.prems"(1)])
    have "splice (location + ?k) (drop ?k bs) (file_data ?fs (m_pBlocks nd)) = splice location bs (file_data fs (m_pBlocks nd))"
      using splice_splice [OF all] c by (simp add: fd)
    then show ?thesis
      using step w bl(2-4) x(1) by (intro exI [of _ bl]) auto
  qed
qed

end
