(* ===== verification/Ext2_Files.thy ===== *)
theory Ext2_Files
  imports Ext2_Contents
begin

text \<open>Whole operations on files: a write inside of the blocks that a file has, a write into a hole, a write on a full volume,
  and wiping.\<close>

section \<open>Writing inside of the blocks of a file\<close>

lemma unat_of_small: "n < 2 ^ 32 \<Longrightarrow> unat (of_nat n :: u32) = n"
  by (simp add: unat_of_nat take_bit_nat_eq_self)

lemma grow_enough: "sz \<le> m_nBlocks nd * m_BlockSize fs \<Longrightarrow> m_nBlocks nd * m_BlockSize fs < 2 ^ 32 \<Longrightarrow> grow sz nd fs = Some (True, nd, fs)"
  using unat_of_small [of "m_nBlocks nd * m_BlockSize fs"] by (subst grow.simps) (simp del: of_nat_mult)

text \<open>The node and the inode after the size was set.\<close>

definition resized :: "nat \<Rightarrow> ext2_node \<Rightarrow> ext2_node" where
  "resized sz nd = (if m_nSize nd < sz then nd\<lparr>m_nSize := sz\<rparr> else nd)"

definition resized_fs :: "nat \<Rightarrow> ext2_node \<Rightarrow> ext2_fs \<Rightarrow> ext2_fs" where
  "resized_fs sz nd fs =
     (if m_nSize nd < sz
      then modify_node nd (\<lambda>i. i\<lparr>i_blocks := of_nat (m_nBlocks nd * m_BlockSize fs) div 512, i_size := of_nat sz\<rparr>) fs else fs)"

lemma modify_node_simps [simp]:
  "blocks (modify_node nd f fs) = blocks fs" "g_pSparseBlock (modify_node nd f fs) = g_pSparseBlock fs"
  "m_BlockSize (modify_node nd f fs) = m_BlockSize fs" "disk_blocks (modify_node nd f fs) = disk_blocks fs"
  "m_pSuperblock (modify_node nd f fs) = m_pSuperblock fs" "m_pGroupDescriptors (modify_node nd f fs) = m_pGroupDescriptors fs"
  "m_InodeSize (modify_node nd f fs) = m_InodeSize fs"
  "inodes (modify_node nd f fs) = (inodes fs)(m_InodeNumber nd := f (m_pInode fs nd))"
  by (simp_all add: modify_node_def modify_inode_def m_pInode_def)

lemma resized_simps [simp]:
  "m_pBlocks (resized sz nd) = m_pBlocks nd" "m_InodeNumber (resized sz nd) = m_InodeNumber nd"
  "m_nSize (resized sz nd) = max (m_nSize nd) sz" "m_pInode fs (resized sz nd) = m_pInode fs nd"
  "blocks (resized_fs sz nd fs) = blocks fs" "g_pSparseBlock (resized_fs sz nd fs) = g_pSparseBlock fs"
  "m_BlockSize (resized_fs sz nd fs) = m_BlockSize fs" "disk_blocks (resized_fs sz nd fs) = disk_blocks fs"
  by (simp_all add: resized_def resized_fs_def m_pInode_def)

lemma inode_ok_modify [simp]: "inode_ok n (modify_node nd f fs) = inode_ok n fs"
  by (simp add: inode_ok_def group_at_def)

lemma modify_node_cong: "f (m_pInode fs nd) = g (m_pInode fs nd) \<Longrightarrow> modify_node nd f fs = modify_node nd g fs"
  by (simp add: modify_node_def modify_inode_def m_pInode_def)

lemma set_size:
  assumes "inode_ok (m_InodeNumber nd) fs"
  shows "(if m_nSize nd < sz
          then let i = m_pInode fs nd in fileAttributeChanged sz (i_atime i) (i_mtime i) (i_ctime i) nd fs
          else Some (nd, fs)) = Some (resized sz nd, resized_fs sz nd fs)"
proof -
  have "modify_node nd (\<lambda>i. i\<lparr>i_blocks := b, i_size := z, i_atime := i_atime (m_pInode fs nd), i_mtime := i_mtime (m_pInode fs nd),
      i_ctime := i_ctime (m_pInode fs nd)\<rparr>) fs = modify_node nd (\<lambda>i. i\<lparr>i_blocks := b, i_size := z\<rparr>) fs" for b z
    by (rule modify_node_cong) simp
  then show ?thesis using assms by (simp add: fileAttributeChanged_def writeInode_def resized_def resized_fs_def Let_def)
qed

lemma content_cong: "blocks fs' = blocks fs \<Longrightarrow> g_pSparseBlock fs' = g_pSparseBlock fs \<Longrightarrow> m_BlockSize fs' = m_BlockSize fs \<Longrightarrow> content fs' = content fs"
  by (rule ext) (simp add: content_def)

lemma file_data_resized [simp]: "file_data (resized_fs sz nd fs) = file_data fs"
  by (rule ext) (simp add: file_data_def content_cong [of "resized_fs sz nd fs" fs])

lemma resized_ok [simp]: "blocks_ok (resized_fs sz nd fs) = blocks_ok fs" "loaded (resized_fs sz nd fs) (resized sz nd) = loaded fs nd"
  by (simp_all add: blocks_ok_def loaded_def)

lemma resized_i_blocks:
  assumes "i_blocks (m_pInode fs nd) \<noteq> 0" "512 \<le> m_nBlocks nd * m_BlockSize fs" "m_nBlocks nd * m_BlockSize fs < 2 ^ 32"
  shows "i_blocks (m_pInode (resized_fs sz nd fs) nd) \<noteq> 0"
proof -
  have "(of_nat (m_nBlocks nd * m_BlockSize fs) div 512 :: u32) \<noteq> 0"
  proof
    assume "(of_nat (m_nBlocks nd * m_BlockSize fs) div 512 :: u32) = 0"
    then have "unat (of_nat (m_nBlocks nd * m_BlockSize fs) div 512 :: u32) = 0" by simp
    then have "m_nBlocks nd * m_BlockSize fs div 512 = 0"
      using unat_of_small [OF assms(3)] by (simp add: unat_div_distrib del: of_nat_mult)
    then show False using assms(2) by simp
  qed
  then show ?thesis using assms(1) by (simp add: resized_fs_def m_pInode_def)
qed

lemma doWrite_ok:
  assumes "blocks_ok fs" "loaded fs nd" "distinct (m_pBlocks nd)" "0 \<notin> set (m_pBlocks nd)" "inode_ok (m_InodeNumber nd) fs"
    and "location + length bs \<le> m_nBlocks nd * m_BlockSize fs"
  defines "sz \<equiv> location + length bs"
  shows "\<exists>bl. doWrite location bs nd fs = Some (length bs, resized sz nd, (resized_fs sz nd fs)\<lparr>blocks := bl\<rparr>) \<and>
    blocks_ok (fs\<lparr>blocks := bl\<rparr>) \<and> (\<forall>b. b \<notin> set (m_pBlocks nd) \<longrightarrow> bl b = blocks fs b) \<and>
    file_data (fs\<lparr>blocks := bl\<rparr>) (m_pBlocks nd) = splice location bs (file_data fs (m_pBlocks nd))"
proof -
  let ?fs = "resized_fs sz nd fs" and ?nd = "resized sz nd"
  have B: "0 < m_BlockSize fs" "m_nBlocks nd * m_BlockSize fs < 2 ^ 32" using assms(1,2) by (simp_all add: blocks_ok_def loaded_def)
  have e: "ensureLargeEnough sz nd fs = Some (True, ?nd, ?fs)"
    unfolding ensureLargeEnough_def set_size [OF assms(5)] using grow_enough [of sz ?nd ?fs] assms(6) B(2) by (simp add: sz_def)
  have w: "\<exists>bl. write_blocks bs location (location div m_BlockSize ?fs) ?nd ?fs = Some (?nd, ?fs\<lparr>blocks := bl\<rparr>) \<and>
      blocks_ok (?fs\<lparr>blocks := bl\<rparr>) \<and> (\<forall>b. b \<notin> set (m_pBlocks ?nd) \<longrightarrow> bl b = blocks ?fs b) \<and>
      file_data (?fs\<lparr>blocks := bl\<rparr>) (m_pBlocks ?nd) = splice location bs (file_data ?fs (m_pBlocks ?nd))"
    by (rule write_blocks_ok) (use assms(1-4,6) in simp_all)
  have "file_data (?fs\<lparr>blocks := bl\<rparr>) = file_data (fs\<lparr>blocks := bl\<rparr>)" "blocks_ok (?fs\<lparr>blocks := bl\<rparr>) = blocks_ok (fs\<lparr>blocks := bl\<rparr>)" for bl
    by (rule ext, simp add: file_data_def content_cong [of "?fs\<lparr>blocks := bl\<rparr>" "fs\<lparr>blocks := bl\<rparr>"]) (simp add: blocks_ok_def)
  then show ?thesis using w e B(1) by (auto simp: doWrite_def sz_def)
qed

section \<open>Writing into a hole\<close>

lemma write_hole:
  assumes "blocks_ok fs" "loaded fs nd" "location div m_BlockSize fs < m_nBlocks nd" "m_pBlocks nd ! (location div m_BlockSize fs) = 0"
    and "bs \<noteq> []" "location mod m_BlockSize fs + length bs \<le> m_BlockSize fs" "location + length bs \<le> m_nSize nd"
  shows "doWrite location bs nd fs =
    Some (length bs, nd, fs\<lparr>g_pSparseBlock := splice (location mod m_BlockSize fs) bs (g_pSparseBlock fs)\<rparr>)"
proof -
  let ?B = "m_BlockSize fs" and ?n = "location div m_BlockSize fs" and ?r = "location mod m_BlockSize fs"
  let ?fs = "fs\<lparr>g_pSparseBlock := splice ?r bs (g_pSparseBlock fs)\<rparr>"
  have B: "0 < ?B" "m_nBlocks nd * ?B < 2 ^ 32" using assms(1,2) by (simp_all add: blocks_ok_def loaded_def)
  have "location + length bs \<le> m_nBlocks nd * ?B"
  proof -
    have "location + length bs = ?n * ?B + (?r + length bs)" by simp
    also have "\<dots> \<le> ?n * ?B + ?B" using assms(6) by (rule add_left_mono)
    also have "\<dots> = (?n + 1) * ?B" by simp
    also have "\<dots> \<le> m_nBlocks nd * ?B" using assms(3) by (intro mult_right_mono) auto
    finally show ?thesis .
  qed
  then have e: "ensureLargeEnough (location + length bs) nd fs = Some (True, nd, fs)"
    using grow_enough B(2) assms(7) by (simp add: ensureLargeEnough_def)
  have k: "piece ?B location (length bs) = length bs" using assms(6) by (auto simp: piece_def)
  have ld: "ensureBlockLoaded ?n nd fs = Some nd" by (rule ensure_loaded [OF assms(2,3)])
  have "loaded ?fs nd" using assms(2) by (simp add: loaded_def)
  then have ld2: "node_writeBlock location nd ?fs = Some nd" using ensure_loaded [of ?fs nd ?n] assms(3) by (simp add: node_writeBlock_def)
  have "write_blocks [] l b nd fs' = Some (nd, fs')" for l b fs' by (simp add: write_blocks.simps)
  then have "write_blocks bs location ?n nd fs = Some (nd, ?fs)"
    using ld ld2 k assms(4,5) B(1) by (subst write_blocks.simps) (simp add: readBlock_def modify_block_def Let_def)
  then show ?thesis using e B(1) by (simp add: doWrite_def)
qed

lemma read_hole:
  assumes "blocks_ok fs" "loaded fs nd" "j < m_nBlocks nd" "m_pBlocks nd ! j = 0" "r + n \<le> m_BlockSize fs"
    and "j * m_BlockSize fs + r + n \<le> m_nSize nd" "m_nSize nd \<le> m_nBlocks nd * m_BlockSize fs" "i_blocks (m_pInode fs nd) \<noteq> 0"
  shows "doRead (j * m_BlockSize fs + r) n nd fs = Some ((0, take n (drop r (g_pSparseBlock fs))), nd)"
proof -
  let ?D = "file_data fs (m_pBlocks nd)" and ?l = "j * m_BlockSize fs + r"
  have "take n (drop ?l (take (m_nSize nd) ?D)) = take n (drop ?l ?D)" using assms(6) by (simp add: drop_take min_def)
  also have "\<dots> = take n (drop r (content fs 0))" using file_data_block [OF assms(1,3,5)] assms(4) by simp
  also have "\<dots> = take n (drop r (g_pSparseBlock fs))" using assms(5) by (simp add: content_def drop_take min_def)
  finally show ?thesis using doRead_ok [OF assms(1,2,7,8), of ?l n] by simp
qed

section \<open>A full volume\<close>

lemma no_free_block:
  assumes "\<forall>h < length (m_pGroupDescriptors fs). \<exists>d. m_pGroupDescriptors fs ! h = Some d \<and> bg_free_blocks_count d = 0"
  shows "free_block_from g fs = Some (0, fs)"
proof (induction "length (m_pGroupDescriptors fs) - g" arbitrary: g)
  case 0
  then show ?case by (subst free_block_from.simps) simp
next
  case (Suc n)
  then have "g < length (m_pGroupDescriptors fs)" by simp
  moreover have "free_block_from (g + 1) fs = Some (0, fs)" using Suc by simp
  ultimately show ?case using assms by (subst free_block_from.simps) (auto simp: group_at_def)
qed

section \<open>Wiping\<close>

definition in_volume :: "ext2_fs \<Rightarrow> u32 \<Rightarrow> bool" where
  "in_volume fs b \<longleftrightarrow> unat b < group_count fs * per_group fs"

lemma release_blocks_ok:
  assumes "bitmaps_ok fs" "loaded fs nd" "i + n = m_nBlocks nd" "\<forall>b \<in> set (m_pBlocks nd). in_volume fs b"
  shows "\<exists>fs'. release_blocks n i nd fs = Some (nd, fs') \<and> bitmaps_ok fs' \<and> same_but_bitmaps fs fs' \<and>
    (\<forall>c < group_count fs * per_group fs. block_used fs' c \<longleftrightarrow> block_used fs c \<and> c \<notin> unat ` set (drop i (m_pBlocks nd)))"
  using assms
proof (induction n arbitrary: i fs)
  case (Suc n)
  have i: "i < m_nBlocks nd" using Suc.prems(3) by simp
  let ?b = "m_pBlocks nd ! i"
  have "unat ?b < group_count fs * per_group fs" using Suc.prems(4) nth_mem [OF i] by (auto simp: in_volume_def)
  from release_used [OF Suc.prems(1) this] obtain f where f: "releaseBlock ?b fs = Some f" "bitmaps_ok f" "same_but_bitmaps fs f"
    "\<forall>c < group_count fs * per_group fs. block_used f c \<longleftrightarrow> c \<noteq> unat ?b \<and> block_used fs c" by blast
  have geo: "group_count f * per_group f = group_count fs * per_group fs" "disk_blocks f = disk_blocks fs" "m_BlockSize f = m_BlockSize fs"
    using f(3) by (simp_all add: same_but_bitmaps_def)
  have "loaded f nd" "\<forall>b \<in> set (m_pBlocks nd). in_volume f b" "Suc i + n = m_nBlocks nd"
    using Suc.prems(2-4) geo by (simp_all add: loaded_def in_volume_def)
  from Suc.IH [OF f(2) this(1,3,2)] obtain fs' where fs': "release_blocks n (Suc i) nd f = Some (nd, fs')" "bitmaps_ok fs'" "same_but_bitmaps f fs'"
    "\<forall>c < group_count fs * per_group fs. block_used fs' c \<longleftrightarrow> block_used f c \<and> c \<notin> unat ` set (drop (Suc i) (m_pBlocks nd))"
    unfolding geo by blast
  have "set (drop i (m_pBlocks nd)) = insert ?b (set (drop (Suc i) (m_pBlocks nd)))" using i by (simp add: Cons_nth_drop_Suc [symmetric])
  then show ?case
    using fs' f ensure_loaded [OF Suc.prems(2) i] same_trans [OF f(3) fs'(3)] by (intro exI [of _ fs']) auto
qed simp

end
