(* ===== verification/Ext2_Tables.thy ===== *)
theory Ext2_Tables
  imports Ext2_Files
begin

text \<open>The map from the positions in a file to the numbers of its blocks, through the inode and the tables, and what adding a
  block does to it.\<close>

section \<open>The map\<close>

definition table_entry :: "ext2_fs \<Rightarrow> u32 \<Rightarrow> nat \<Rightarrow> u32" where
  "table_entry fs t k = word_at (4 * k) (if t = 0 then g_pSparseBlock fs else blocks fs t)"

abbreviation entries :: "ext2_fs \<Rightarrow> nat" where
  "entries fs \<equiv> m_BlockSize fs div 4"

definition block_number :: "ext2_fs \<Rightarrow> Inode \<Rightarrow> nat \<Rightarrow> u32" where
  "block_number fs i n =
     (let p = entries fs
      in if n < 12 then i_block i ! n
         else if n < 12 + p then table_entry fs (i_block i ! 12) (n - 12)
         else table_entry fs (table_entry fs (i_block i ! 13) ((n - 12 - p) div p)) ((n - 12 - p) mod p))"

text \<open>The tables of a file of \<open>n\<close> blocks.\<close>

definition tables :: "ext2_fs \<Rightarrow> Inode \<Rightarrow> nat \<Rightarrow> u32 list" where
  "tables fs i n =
     (let p = entries fs
      in (if 12 < n then [i_block i ! 12] else []) @
         (if 12 + p < n then i_block i ! 13 # map (table_entry fs (i_block i ! 13)) [0 ..< (n - 12 - p + p - 1) div p] else []))"

definition own_block :: "ext2_fs \<Rightarrow> u32 \<Rightarrow> bool" where
  "own_block fs t \<longleftrightarrow> t \<noteq> 0 \<and> unat t < disk_blocks fs \<and> in_volume fs t \<and> t \<notin> bitmap_blocks fs \<and> block_used fs (unat t)"

definition tables_ok :: "ext2_fs \<Rightarrow> Inode \<Rightarrow> nat \<Rightarrow> bool" where
  "tables_ok fs i n \<longleftrightarrow> length (i_block i) = 15 \<and> distinct (tables fs i n) \<and> (\<forall>t \<in> set (tables fs i n). own_block fs t)"

text \<open>Block 0, the bitmaps and what is beyond the disk are in use.\<close>

definition volume_ok :: "ext2_fs \<Rightarrow> bool" where
  "volume_ok fs \<longleftrightarrow> bitmaps_ok fs \<and> (\<forall>b. length (blocks fs b) = m_BlockSize fs) \<and> block_used fs 0 \<and>
     (\<forall>g < group_count fs. in_volume fs (bitmap_of fs g) \<and> block_used fs (unat (bitmap_of fs g))) \<and>
     (\<forall>c < group_count fs * per_group fs. disk_blocks fs \<le> c \<longrightarrow> block_used fs c)"

section \<open>Changing a block that is no bitmap\<close>

definition poke :: "u32 \<Rightarrow> u8 list \<Rightarrow> ext2_fs \<Rightarrow> ext2_fs" where
  "poke t buf fs = fs\<lparr>blocks := (blocks fs)(t := buf)\<rparr>"

lemma poke_simps [simp]:
  "inodes (poke t buf fs) = inodes fs" "g_pSparseBlock (poke t buf fs) = g_pSparseBlock fs" "m_BlockSize (poke t buf fs) = m_BlockSize fs"
  "disk_blocks (poke t buf fs) = disk_blocks fs" "m_pSuperblock (poke t buf fs) = m_pSuperblock fs"
  "m_pGroupDescriptors (poke t buf fs) = m_pGroupDescriptors fs" "blocks (poke t buf fs) = (blocks fs)(t := buf)"
  "m_pInode (poke t buf fs) = m_pInode fs" "m_InodeSize (poke t buf fs) = m_InodeSize fs"
  by (auto simp: poke_def m_pInode_def)

lemma bitmap_of_same:
  assumes "m_pGroupDescriptors fs' = m_pGroupDescriptors fs"
  shows "bitmap_of fs' = bitmap_of fs" "bitmap_blocks fs' = bitmap_blocks fs"
  using assms by (auto simp: bitmap_of_def desc_of_def bitmap_blocks_def)

lemma used_same:
  assumes "m_pGroupDescriptors fs' = m_pGroupDescriptors fs" "m_pSuperblock fs' = m_pSuperblock fs"
    and "\<forall>b \<in> bitmap_blocks fs. blocks fs' b = blocks fs b" "c < group_count fs * per_group fs"
  shows "block_used fs' c = block_used fs c"
proof -
  have "bitmap_of fs (c div per_group fs) \<in> bitmap_blocks fs" using div_group [OF assms(4)] by (auto simp: bitmap_blocks_def)
  then show ?thesis using assms(1-3) bitmap_of_same [OF assms(1)] by (simp add: block_used_def)
qed

lemma volume_pos: "volume_ok fs \<Longrightarrow> 0 < group_count fs * per_group fs \<or> group_count fs = 0"
  by (simp add: volume_ok_def bitmaps_ok_def)

lemma volume_ok_change:
  assumes "volume_ok fs" "m_pGroupDescriptors fs' = m_pGroupDescriptors fs" "m_pSuperblock fs' = m_pSuperblock fs"
    and "\<forall>b \<in> bitmap_blocks fs. blocks fs' b = blocks fs b" "\<forall>b. length (blocks fs' b) = length (blocks fs b)"
    and "m_BlockSize fs' = m_BlockSize fs" "disk_blocks fs' = disk_blocks fs" "0 < group_count fs"
  shows "volume_ok fs'" "in_volume fs' = in_volume fs" "own_block fs' = own_block fs"
proof -
  note bm = bitmap_of_same [OF assms(2)]
  have v: "in_volume fs' = in_volume fs" using assms(2,3) by (auto simp: in_volume_def)
  note used = used_same [OF assms(2-4)]
  have zero: "0 < group_count fs * per_group fs" using assms(1,8) by (simp add: volume_ok_def bitmaps_ok_def)
  show "in_volume fs' = in_volume fs" by (rule v)
  show "own_block fs' = own_block fs"
    by (rule ext) (use used v bm assms(7) in \<open>auto simp: own_block_def in_volume_def\<close>)
  have "bitmaps_ok fs'" using assms unfolding volume_ok_def bitmaps_ok_def bm by simp
  then show "volume_ok fs'"
    using assms(1,2,3,5,6,7) used zero unfolding volume_ok_def bm v by (auto simp: in_volume_def)
qed

lemma poke_volume_ok:
  assumes "volume_ok fs" "0 < group_count fs" "t \<notin> bitmap_blocks fs" "length buf = m_BlockSize fs"
  shows "volume_ok (poke t buf fs)" "in_volume (poke t buf fs) = in_volume fs" "own_block (poke t buf fs) = own_block fs"
    "bitmap_blocks (poke t buf fs) = bitmap_blocks fs"
proof -
  have "\<forall>b \<in> bitmap_blocks fs. blocks (poke t buf fs) b = blocks fs b" using assms(3) by auto
  moreover have "\<forall>b. length (blocks (poke t buf fs) b) = length (blocks fs b)" using assms(1,4) by (simp add: volume_ok_def)
  ultimately show "volume_ok (poke t buf fs)" "in_volume (poke t buf fs) = in_volume fs" "own_block (poke t buf fs) = own_block fs"
    using volume_ok_change [OF assms(1), of "poke t buf fs"] assms(2) by simp_all
  show "bitmap_blocks (poke t buf fs) = bitmap_blocks fs" by (rule bitmap_of_same) simp
qed

lemma node_change_ok:
  assumes "volume_ok fs" "0 < group_count fs"
  shows "volume_ok (modify_node nd f fs)" "in_volume (modify_node nd f fs) = in_volume fs" "own_block (modify_node nd f fs) = own_block fs"
    "bitmap_blocks (modify_node nd f fs) = bitmap_blocks fs"
  using volume_ok_change [OF assms(1), of "modify_node nd f fs"] assms(2) bitmap_of_same(2) [of "modify_node nd f fs" fs] by simp_all

section \<open>Words of a table\<close>

lemma bytes32_word: "word_at 0 (bytes32 v) = v"
  by (simp add: word_at_def bytes32_def bytes16_def le16_bytes le32_words)

lemma word_at_splice:
  assumes "4 * idx + 4 \<le> length buf" "4 * k + 4 \<le> length buf"
  shows "word_at (4 * k) (splice (4 * idx) (bytes32 v) buf) = (if k = idx then v else word_at (4 * k) buf)"
proof (cases "k = idx")
  case True
  have "word_at (4 * k) (splice (4 * k) (bytes32 v) buf) = word_at 0 (bytes32 v)"
    using assms True by (simp add: word_at_def nth_splice numeral_2_eq_2)
  with True show ?thesis by (simp add: bytes32_word)
next
  case False
  then have "splice (4 * idx) (bytes32 v) buf ! (4 * k + j) = buf ! (4 * k + j)" if "j < 4" for j
    using assms that by (cases "k < idx") (simp_all add: nth_splice)
  from this [of 0] this [of 1] this [of 2] this [of 3] show ?thesis using False by (simp add: word_at_def)
qed

lemma store_word_ok:
  assumes "own_block fs t"
  shows "store_word t idx v fs = Some (poke t (splice (4 * idx) (bytes32 v) (blocks fs t)) fs)"
  using assms by (simp add: store_word_def readBlock_def own_block_def modify_block_def poke_def)

lemma zero_block_ok:
  assumes "own_block fs t" "length (blocks fs t) = m_BlockSize fs"
  shows "zero_block t fs = Some (poke t (replicate (m_BlockSize fs) 0) fs)"
  using assms by (simp add: zero_block_def readBlock_def own_block_def modify_block_def poke_def splice_all)

lemma entry_poke:
  assumes "own_block fs t" "length (blocks fs t) = m_BlockSize fs" "idx < entries fs" "k < entries fs"
  shows "table_entry (poke t (splice (4 * idx) (bytes32 v) (blocks fs t)) fs) s k = (if s = t \<and> k = idx then v else table_entry fs s k)"
  using assms word_at_splice [of idx "blocks fs t" k v] by (auto simp: table_entry_def own_block_def)

lemma poke_entry_other: "s \<noteq> t \<Longrightarrow> table_entry (poke t buf fs) s k = table_entry fs s k"
  by (simp add: table_entry_def)

section \<open>Taking a block\<close>

lemma alloc_ok:
  assumes "volume_ok fs" "0 < group_count fs"
  shows "\<exists>nb fs1. findFreeBlock ino fs = Some (nb, fs1) \<and> volume_ok fs1 \<and> same_but_bitmaps fs fs1 \<and> in_volume fs1 = in_volume fs \<and>
    (\<forall>t. own_block fs t \<longrightarrow> own_block fs1 t \<and> t \<noteq> nb) \<and> (nb \<noteq> 0 \<longrightarrow> own_block fs1 nb \<and> \<not> block_used fs (unat nb))"
proof -
  have ok: "bitmaps_ok fs" using assms(1) by (simp add: volume_ok_def)
  have pos: "0 < group_count fs * per_group fs" using ok assms(2) by (simp add: bitmaps_ok_def)
  let ?g = "unat ((ino - 1) div s_inodes_per_group (m_pSuperblock fs))"
  have f: "findFreeBlock ino fs = free_block_from ?g fs" using ok by (auto simp: findFreeBlock_def bitmaps_ok_def)
  consider "free_block_from ?g fs = Some (0, fs)"
    | (b) b where "free_block_from ?g fs = Some (of_nat b, take_block b fs)" "b < group_count fs * per_group fs" "\<not> block_used fs b"
    using free_block_from_ok [OF ok, of ?g] by blast
  then show ?thesis
  proof cases
    case 1
    then show ?thesis using f assms(1) by (auto simp: own_block_def)
  next
    case b
    let ?fs = "take_block b fs" and ?nb = "of_nat b :: u32"
    have nb: "unat ?nb = b" using b(2) ok by (simp add: bitmaps_ok_def unat_of_nat take_bit_nat_eq_self)
    note same = take_block_same [OF ok b(2)]
    have geo: "group_count ?fs = group_count fs" "per_group ?fs = per_group fs" by (simp_all add: take_block_simps)
    have inv: "in_volume ?fs = in_volume fs" by (rule ext) (simp add: in_volume_def geo)
    have bms: "bitmap_of ?fs g = bitmap_of fs g" if "g < group_count fs" for g using take_block_desc(2) [OF ok that] .
    have bmb: "bitmap_blocks ?fs = bitmap_blocks fs" by (rule same_bitmap_blocks [OF same])
    note used = take_block_used [OF ok b(2)]
    have "volume_ok ?fs"
      using assms(1) take_block_ok [OF ok, of b] used pos unfolding volume_ok_def inv geo
      by (auto simp: bms take_block_simps in_volume_def)
    moreover have "own_block ?fs t \<and> t \<noteq> ?nb" if "own_block fs t" for t
      using that b(3) nb used by (auto simp: own_block_def inv in_volume_def bmb take_block_simps)
    moreover have "own_block ?fs ?nb"
    proof -
      have "?nb \<noteq> 0" using nb b(3) assms(1) by (metis unat_0 volume_ok_def)
      moreover have "unat ?nb < disk_blocks fs" using nb b(2,3) assms(1) by (metis not_le volume_ok_def)
      moreover have "?nb \<notin> bitmap_blocks fs" using nb b(3) assms(1) by (auto simp: bitmap_blocks_def volume_ok_def)
      ultimately show ?thesis using nb b(2) used [OF b(2)] by (simp add: own_block_def inv bmb take_block_simps in_volume_def)
    qed
    ultimately show ?thesis using b f nb same inv by (intro exI [of _ ?nb] exI [of _ ?fs]) simp
  qed
qed

section \<open>Steps that keep the blocks in use\<close>

text \<open>The blocks in use before are in use, and those outside of \<open>S\<close> have the same contents.\<close>

definition frame :: "u32 set \<Rightarrow> ext2_fs \<Rightarrow> ext2_fs \<Rightarrow> bool" where
  "frame S fs fs' \<longleftrightarrow> volume_ok fs' \<and> group_count fs' = group_count fs \<and> m_BlockSize fs' = m_BlockSize fs \<and>
     s_inodes_per_group (m_pSuperblock fs') = s_inodes_per_group (m_pSuperblock fs) \<and>
     (\<forall>t. own_block fs t \<longrightarrow> own_block fs' t \<and> (t \<notin> S \<longrightarrow> blocks fs' t = blocks fs t))"

lemma frame_trans: "frame S fs1 fs2 \<Longrightarrow> frame S fs2 fs3 \<Longrightarrow> frame S fs1 fs3"
  by (simp add: frame_def)

lemma frame_mono: "frame S fs fs' \<Longrightarrow> S \<subseteq> T \<Longrightarrow> frame T fs fs'"
  by (auto simp: frame_def)

lemma frame_entry: "frame S fs fs' \<Longrightarrow> own_block fs t \<Longrightarrow> t \<notin> S \<Longrightarrow> table_entry fs' t k = table_entry fs t k"
  by (simp add: frame_def table_entry_def own_block_def)

lemma frame_refl: "volume_ok fs \<Longrightarrow> frame S fs fs"
  by (simp add: frame_def)

lemma frame_drop: "frame {t} fs fs' \<Longrightarrow> \<forall>s. own_block fs s \<longrightarrow> s \<noteq> t \<Longrightarrow> frame {} fs fs'"
  by (auto simp: frame_def)

lemma poke_frame:
  assumes "volume_ok fs" "0 < group_count fs" "own_block fs t" "length buf = m_BlockSize fs"
  shows "frame {t} fs (poke t buf fs)"
  using poke_volume_ok [OF assms(1,2) _ assms(4), of t] assms(3) by (simp add: frame_def own_block_def)

lemma node_frame: "volume_ok fs \<Longrightarrow> 0 < group_count fs \<Longrightarrow> frame {} fs (modify_node nd f fs)"
  using node_change_ok by (simp add: frame_def)

lemma frame_inode_ok: "frame S fs fs' \<Longrightarrow> inode_ok k fs \<Longrightarrow> inode_ok k fs'"
  by (auto simp: frame_def inode_ok_def volume_ok_def bitmaps_ok_def group_at_def)

lemma alloc_frame:
  assumes "volume_ok fs" "0 < group_count fs"
  shows "\<exists>nb fs1. findFreeBlock ino fs = Some (nb, fs1) \<and> frame {} fs fs1 \<and> inodes fs1 = inodes fs \<and>
    (nb \<noteq> 0 \<longrightarrow> own_block fs1 nb \<and> (\<forall>t. own_block fs t \<longrightarrow> t \<noteq> nb))"
proof -
  from alloc_ok [OF assms, of ino] obtain nb fs1 where a: "findFreeBlock ino fs = Some (nb, fs1)" "volume_ok fs1" "same_but_bitmaps fs fs1"
    "\<forall>t. own_block fs t \<longrightarrow> own_block fs1 t \<and> t \<noteq> nb" "nb \<noteq> 0 \<longrightarrow> own_block fs1 nb \<and> \<not> block_used fs (unat nb)" by blast
  moreover have "frame {} fs fs1" using a(2-4) by (auto simp: frame_def same_but_bitmaps_def own_block_def)
  moreover have "inodes fs1 = inodes fs" using a(3) by (simp add: same_but_bitmaps_def)
  ultimately show ?thesis by blast
qed

text \<open>A fresh block filled with zeros changes nothing of the blocks in use.\<close>

lemma zero_frame:
  assumes "frame {} fs fs1" "0 < group_count fs" "own_block fs1 nb" "\<forall>t. own_block fs t \<longrightarrow> t \<noteq> nb"
  shows "\<exists>fs2. zero_block nb fs1 = Some fs2 \<and> frame {} fs fs2 \<and> own_block fs2 nb \<and> inodes fs2 = inodes fs1 \<and>
    (\<forall>t k. t \<noteq> nb \<longrightarrow> table_entry fs2 t k = table_entry fs1 t k)"
proof -
  have v: "volume_ok fs1" "0 < group_count fs1" using assms(1,2) by (simp_all add: frame_def)
  let ?fs = "poke nb (replicate (m_BlockSize fs1) 0) fs1"
  have "zero_block nb fs1 = Some ?fs" using zero_block_ok [OF assms(3)] v(1) by (simp add: volume_ok_def)
  moreover have f: "frame {nb} fs1 ?fs" by (rule poke_frame [OF v assms(3)]) simp
  moreover have "frame {} fs ?fs"
    by (rule frame_drop [OF frame_trans [OF frame_mono [OF assms(1)] f] assms(4)]) simp
  moreover have "own_block ?fs nb" using f assms(3) by (simp add: frame_def)
  moreover have "\<forall>t k. t \<noteq> nb \<longrightarrow> table_entry ?fs t k = table_entry fs1 t k" by (simp add: table_entry_def)
  ultimately show ?thesis by (intro exI [of _ ?fs]) simp
qed

lemma new_table_ok:
  assumes "volume_ok fs" "0 < group_count fs"
  shows "\<exists>ok fs' nb. new_table k nd fs = Some (ok, fs') \<and> frame {} fs fs' \<and>
    inodes fs' = (inodes fs)(m_InodeNumber nd := (m_pInode fs nd)\<lparr>i_block := (i_block (m_pInode fs nd))[k := nb]\<rparr>) \<and>
    (ok \<longrightarrow> own_block fs' nb \<and> (\<forall>t. own_block fs t \<longrightarrow> t \<noteq> nb))"
proof -
  obtain nb fs1 where a: "findFreeBlock (m_InodeNumber nd) fs = Some (nb, fs1)" "frame {} fs fs1" "inodes fs1 = inodes fs"
    "nb \<noteq> 0 \<longrightarrow> own_block fs1 nb \<and> (\<forall>t. own_block fs t \<longrightarrow> t \<noteq> nb)" using alloc_frame [OF assms, of "m_InodeNumber nd"] by blast
  let ?fs = "modify_node nd (\<lambda>i. i\<lparr>i_block := (i_block i)[k := nb]\<rparr>) fs1"
  have v: "volume_ok fs1" "0 < group_count fs1" using a(2) assms(2) by (simp_all add: frame_def)
  have f: "frame {} fs ?fs" by (rule frame_trans [OF a(2) node_frame [OF v]])
  have i: "inodes ?fs = (inodes fs)(m_InodeNumber nd := (m_pInode fs nd)\<lparr>i_block := (i_block (m_pInode fs nd))[k := nb]\<rparr>)"
    using a(3) by (simp add: m_pInode_def)
  show ?thesis
  proof (cases "nb = 0")
    case True
    have "new_table k nd fs = Some (False, ?fs)" using True a(1) by (simp add: new_table_def)
    then show ?thesis using f i by blast
  next
    case False
    then have nb: "own_block ?fs nb" "\<forall>t. own_block fs t \<longrightarrow> t \<noteq> nb" using a(4) node_change_ok [OF v] by simp_all
    from zero_frame [OF f assms(2) nb] obtain fs2 where z: "zero_block nb ?fs = Some fs2" "frame {} fs fs2" "own_block fs2 nb" "inodes fs2 = inodes ?fs"
      by blast
    then show ?thesis using False a(1) nb(2) i by (simp add: new_table_def) blast
  qed
qed

section \<open>The last step: storing the number\<close>

lemma number_same:
  assumes "\<forall>k < 12. i_block i' ! k = i_block i ! k" "m_BlockSize fs' = m_BlockSize fs"
    and "12 \<le> m \<and> m < 12 + entries fs \<Longrightarrow> i_block i' ! 12 = i_block i ! 12 \<and>
      table_entry fs' (i_block i ! 12) (m - 12) = table_entry fs (i_block i ! 12) (m - 12)"
    and "12 + entries fs \<le> m \<Longrightarrow> i_block i' ! 13 = i_block i ! 13 \<and>
      table_entry fs' (i_block i ! 13) ((m - 12 - entries fs) div entries fs) = table_entry fs (i_block i ! 13) ((m - 12 - entries fs) div entries fs) \<and>
      table_entry fs' (table_entry fs (i_block i ! 13) ((m - 12 - entries fs) div entries fs)) ((m - 12 - entries fs) mod entries fs) =
      table_entry fs (table_entry fs (i_block i ! 13) ((m - 12 - entries fs) div entries fs)) ((m - 12 - entries fs) mod entries fs)"
  shows "block_number fs' i' m = block_number fs i m"
  using assms by (auto simp: block_number_def Let_def not_less)

lemma store_frame:
  assumes "volume_ok fs" "0 < group_count fs" "own_block fs t" "idx < entries fs"
  shows "frame {t} fs (poke t (splice (4 * idx) (bytes32 v) (blocks fs t)) fs)"
    and "k < entries fs \<Longrightarrow> table_entry (poke t (splice (4 * idx) (bytes32 v) (blocks fs t)) fs) s k =
      (if s = t \<and> k = idx then v else table_entry fs s k)"
proof -
  have len: "length (blocks fs t) = m_BlockSize fs" using assms(1) by (simp add: volume_ok_def)
  have "4 * idx + 4 \<le> m_BlockSize fs" using assms(4) by auto
  then show "frame {t} fs (poke t (splice (4 * idx) (bytes32 v) (blocks fs t)) fs)"
    by (intro poke_frame [OF assms(1-3)]) (simp add: length_splice len)
  show "k < entries fs \<Longrightarrow> table_entry (poke t (splice (4 * idx) (bytes32 v) (blocks fs t)) fs) s k =
      (if s = t \<and> k = idx then v else table_entry fs s k)"
    by (rule entry_poke [OF assms(3) len assms(4)])
qed

lemma table_entries_pos: "volume_ok fs \<Longrightarrow> 0 < entries fs"
  by (auto simp: volume_ok_def bitmaps_ok_def)

lemma store_indirect:
  fixes v :: u32
  assumes "volume_ok fs" "0 < group_count fs" "tables_ok fs i (n + 1)" "12 \<le> n" "n < 12 + entries fs"
  defines "fs' \<equiv> poke (i_block i ! 12) (splice (4 * (n - 12)) (bytes32 v) (blocks fs (i_block i ! 12))) fs"
  shows "tables_ok fs' i (n + 1)" "block_number fs' i n = v" "\<forall>m < n. block_number fs' i m = block_number fs i m"
proof -
  have t: "own_block fs (i_block i ! 12)" "tables fs i (n + 1) = [i_block i ! 12]"
    using assms(3-5) by (auto simp: tables_ok_def tables_def Let_def)
  have idx: "n - 12 < entries fs" using assms(4,5) by simp
  note st = store_frame [OF assms(1,2) t(1) idx, where v = v, folded fs'_def]
  have bs: "m_BlockSize fs' = m_BlockSize fs" by (simp add: fs'_def)
  have "tables fs' i (n + 1) = [i_block i ! 12]" using assms(4,5) by (simp add: tables_def Let_def bs)
  then show "tables_ok fs' i (n + 1)" using assms(3) t st(1) by (simp add: tables_ok_def frame_def)
  show "block_number fs' i n = v" using assms(4,5) st(2) [OF idx] by (simp add: block_number_def Let_def bs)
  show "\<forall>m < n. block_number fs' i m = block_number fs i m"
  proof safe
    fix m assume "m < n"
    then show "block_number fs' i m = block_number fs i m"
      using st(2) [of "m - 12" "i_block i ! 12"] assms(4,5) by (intro number_same) (auto simp: bs)
  qed
qed

lemma ceil_full: "0 < p \<Longrightarrow> (c * p + p - 1) div p = (c :: nat)"
proof -
  assume p: "0 < p"
  then have "c * p + p - 1 = (p - 1) + c * p" by simp
  moreover have "((p - 1) + c * p) div p = c + (p - 1) div p" using p by (intro div_mult_self1) simp
  ultimately show ?thesis using p by (simp only:) simp
qed

lemma ceil_part: "0 < p \<Longrightarrow> q mod p \<noteq> 0 \<Longrightarrow> (q + p - 1) div p = q div p + (1 :: nat)"
proof -
  assume p: "0 < p" "q mod p \<noteq> 0"
  define d r where "d = q div p" "r = q mod p"
  have q: "q = d * p + r" "r < p" "0 < r" using p by (simp_all add: d_r_def)
  then have "q + p - 1 = (r - 1) + (d + 1) * p" by simp
  moreover have "(r - 1) div p = 0" using q(2) by simp
  ultimately have "(q + p - 1) div p = d + 1" using p(1) by (simp del: One_nat_def)
  then show ?thesis by (simp add: d_r_def)
qed

text \<open>The tables of a file with blocks behind a second table, of which \<open>c\<close> have numbers there.\<close>

definition two_level :: "ext2_fs \<Rightarrow> Inode \<Rightarrow> nat \<Rightarrow> bool" where
  "two_level fs i c \<longleftrightarrow> length (i_block i) = 15 \<and>
     distinct (i_block i ! 12 # i_block i ! 13 # map (table_entry fs (i_block i ! 13)) [0..<c]) \<and>
     own_block fs (i_block i ! 12) \<and> own_block fs (i_block i ! 13) \<and> (\<forall>k < c. own_block fs (table_entry fs (i_block i ! 13) k))"

lemma two_level_iff:
  assumes "12 + entries fs < n" "(n - 12 - entries fs + entries fs - 1) div entries fs = c"
  shows "tables_ok fs i n \<longleftrightarrow> two_level fs i c"
proof -
  have "12 < n" using assms(1) by simp
  then have t: "tables fs i n = i_block i ! 12 # i_block i ! 13 # map (table_entry fs (i_block i ! 13)) [0..<c]"
    using assms by (simp only: tables_def Let_def if_True append_Cons append_Nil)
  have "set (map (table_entry fs (i_block i ! 13)) [0..<c]) = {table_entry fs (i_block i ! 13) k |k. k < c}" by auto
  then show ?thesis unfolding tables_ok_def two_level_def t by (auto simp del: set_map)
qed

lemma two_level_tables:
  assumes "0 < entries fs" "12 + entries fs \<le> n"
  shows "tables_ok fs i (n + 1) \<longleftrightarrow> two_level fs i ((n - 12 - entries fs) div entries fs + 1)"
proof (rule two_level_iff)
  have "n + 1 - 12 - entries fs + entries fs - 1 = (n - 12 - entries fs) + entries fs" using assms by linarith
  then show "(n + 1 - 12 - entries fs + entries fs - 1) div entries fs = (n - 12 - entries fs) div entries fs + 1"
    using assms(1) by (simp only: div_add_self2)
qed (use assms(2) in simp)

lemma two_level_tables_full:
  assumes "0 < entries fs" "12 + entries fs < n" "(n - 12 - entries fs) mod entries fs = 0"
  shows "tables_ok fs i n \<longleftrightarrow> two_level fs i ((n - 12 - entries fs) div entries fs)"
proof (rule two_level_iff [OF assms(2)])
  obtain c where c: "n - 12 - entries fs = c * entries fs" using assms(3) by (metis mod_eq_0_iff_dvd dvd_div_mult_self)
  show "(n - 12 - entries fs + entries fs - 1) div entries fs = (n - 12 - entries fs) div entries fs"
    unfolding c ceil_full [OF assms(1)] using assms(1) by simp
qed

lemma two_level_tables_part:
  assumes "0 < entries fs" "12 + entries fs < n" "(n - 12 - entries fs) mod entries fs \<noteq> 0"
  shows "tables_ok fs i n \<longleftrightarrow> two_level fs i ((n - 12 - entries fs) div entries fs + 1)"
  by (rule two_level_iff [OF assms(2) ceil_part [OF assms(1,3)]])

lemma two_level_distinct:
  assumes "two_level fs i c"
  shows "i_block i ! 12 \<noteq> i_block i ! 13" "k < c \<Longrightarrow> table_entry fs (i_block i ! 13) k \<noteq> i_block i ! 13"
    "k < c \<Longrightarrow> table_entry fs (i_block i ! 13) k \<noteq> i_block i ! 12"
    "k < c \<Longrightarrow> l < c \<Longrightarrow> table_entry fs (i_block i ! 13) k = table_entry fs (i_block i ! 13) l \<longleftrightarrow> k = l"
proof -
  from assms have d: "i_block i ! 12 \<noteq> i_block i ! 13" "i_block i ! 12 \<notin> table_entry fs (i_block i ! 13) ` {0..<c}"
    "i_block i ! 13 \<notin> table_entry fs (i_block i ! 13) ` {0..<c}" "inj_on (table_entry fs (i_block i ! 13)) {0..<c}"
    by (auto simp: two_level_def distinct_map)
  show "i_block i ! 12 \<noteq> i_block i ! 13" by (rule d(1))
  show "k < c \<Longrightarrow> table_entry fs (i_block i ! 13) k \<noteq> i_block i ! 13" using d(3) by force
  show "k < c \<Longrightarrow> table_entry fs (i_block i ! 13) k \<noteq> i_block i ! 12" using d(2) by force
  show "k < c \<Longrightarrow> l < c \<Longrightarrow> table_entry fs (i_block i ! 13) k = table_entry fs (i_block i ! 13) l \<longleftrightarrow> k = l"
    using d(4) by (auto simp: inj_on_def)
qed

lemma store_biindirect:
  fixes v :: u32
  assumes "volume_ok fs" "0 < group_count fs" "two_level fs i (q div entries fs + 1)" "q div entries fs < entries fs"
  defines "t \<equiv> table_entry fs (i_block i ! 13) (q div entries fs)"
  defines "fs' \<equiv> poke t (splice (4 * (q mod entries fs)) (bytes32 v) (blocks fs t)) fs"
  shows "own_block fs t" "frame {t} fs fs'" "two_level fs' i (q div entries fs + 1)" "block_number fs' i (q + 12 + entries fs) = v"
    "\<forall>m < q + 12 + entries fs. block_number fs' i m = block_number fs i m"
proof -
  let ?p = "entries fs" and ?b = "i_block i ! 13" and ?c = "q div entries fs"
  have p: "0 < ?p" by (rule table_entries_pos [OF assms(1)])
  show t: "own_block fs t" using assms(3) by (simp add: two_level_def t_def)
  have idx: "q mod ?p < ?p" using p by simp
  note st = store_frame [OF assms(1,2) t idx, where v = v, folded fs'_def]
  show "frame {t} fs fs'" by (rule st(1))
  have bs: "m_BlockSize fs' = m_BlockSize fs" by (simp add: fs'_def)
  note dis = two_level_distinct [OF assms(3)]
  have bt: "?b \<noteq> t" "i_block i ! 12 \<noteq> t" using dis(2) [of ?c] dis(3) [of ?c] by (auto simp: t_def)
  have b: "table_entry fs' ?b k = table_entry fs ?b k" if "k < ?p" for k using st(2) [OF that] bt(1) by simp
  show "two_level fs' i (?c + 1)"
  proof -
    have e: "table_entry fs' ?b k = table_entry fs ?b k" if "k < ?c + 1" for k using b assms(4) that by simp
    have m: "map (table_entry fs' ?b) [0..<?c + 1] = map (table_entry fs ?b) [0..<?c + 1]" using e by (intro map_cong) auto
    have own: "own_block fs' s" if "own_block fs s" for s using st(1) that by (simp add: frame_def)
    have "\<forall>k < ?c + 1. own_block fs' (table_entry fs' ?b k)" using e assms(3) own by (auto simp: two_level_def)
    then show ?thesis using assms(3) own unfolding two_level_def m by blast
  qed
  show "block_number fs' i (q + 12 + ?p) = v"
    using b [OF assms(4)] st(2) [OF idx, of t] by (simp add: block_number_def Let_def bs t_def)
  show "\<forall>m < q + 12 + ?p. block_number fs' i m = block_number fs i m"
  proof safe
    fix m assume m: "m < q + 12 + ?p"
    show "block_number fs' i m = block_number fs i m"
    proof (rule number_same)
      assume "12 \<le> m \<and> m < 12 + ?p"
      then have "m - 12 < ?p" by linarith
      then show "i_block i ! 12 = i_block i ! 12 \<and> table_entry fs' (i_block i ! 12) (m - 12) = table_entry fs (i_block i ! 12) (m - 12)"
        using st(2) [of "m - 12" "i_block i ! 12"] bt(2) by simp
    next
      let ?q = "m - 12 - ?p"
      assume "12 + ?p \<le> m"
      then have q: "?q < q" using m by simp
      then have d: "?q div ?p \<le> ?c" by (simp add: div_le_mono)
      then have e: "table_entry fs' ?b (?q div ?p) = table_entry fs ?b (?q div ?p)" using b assms(4) by simp
      have "\<not> (table_entry fs ?b (?q div ?p) = t \<and> ?q mod ?p = q mod ?p)"
      proof
        assume "table_entry fs ?b (?q div ?p) = t \<and> ?q mod ?p = q mod ?p"
        then have "?q div ?p = ?c \<and> ?q mod ?p = q mod ?p" using dis(4) [of "?q div ?p" ?c] d by (simp add: t_def)
        then have "?q = q" by (metis div_mult_mod_eq)
        then show False using q by simp
      qed
      then show "?b = ?b \<and> table_entry fs' ?b (?q div ?p) = table_entry fs ?b (?q div ?p) \<and>
          table_entry fs' (table_entry fs ?b (?q div ?p)) (?q mod ?p) = table_entry fs (table_entry fs ?b (?q div ?p)) (?q mod ?p)"
        using e st(2) [of "?q mod ?p" "table_entry fs ?b (?q div ?p)"] p by auto
    qed (simp_all add: bs)
  qed
qed

section \<open>Adding a block\<close>

text \<open>What holds after a number was stored, or not stored for want of a block for a table: only the numbers in the inode and
  the tables of the file have changed.\<close>

definition kept :: "ext2_node \<Rightarrow> ext2_fs \<Rightarrow> ext2_fs \<Rightarrow> bool" where
  "kept nd fs fs' \<longleftrightarrow> frame (set (tables fs (m_pInode fs nd) (m_nBlocks nd))) fs fs' \<and>
     (\<forall>k. k \<noteq> m_InodeNumber nd \<longrightarrow> inodes fs' k = inodes fs k) \<and>
     (\<exists>bl. m_pInode fs' nd = (m_pInode fs nd)\<lparr>i_block := bl\<rparr>)"

lemma kept_same:
  assumes "frame (set (tables fs (m_pInode fs nd) (m_nBlocks nd))) fs fs'" "inodes fs' = inodes fs"
  shows "kept nd fs fs'"
proof -
  have "m_pInode fs' nd = (m_pInode fs nd)\<lparr>i_block := i_block (m_pInode fs nd)\<rparr>" using assms(2) by (simp add: m_pInode_def)
  then have "\<exists>bl. m_pInode fs' nd = (m_pInode fs nd)\<lparr>i_block := bl\<rparr>" by (rule exI)
  with assms show ?thesis by (simp add: kept_def)
qed

definition added :: "u32 \<Rightarrow> ext2_node \<Rightarrow> ext2_fs \<Rightarrow> ext2_fs \<Rightarrow> bool" where
  "added v nd fs fs' \<longleftrightarrow> tables_ok fs' (m_pInode fs' nd) (m_nBlocks nd + 1) \<and>
     block_number fs' (m_pInode fs' nd) (m_nBlocks nd) = v \<and>
     (\<forall>m < m_nBlocks nd. block_number fs' (m_pInode fs' nd) m = block_number fs (m_pInode fs nd) m)"

lemma addIndirect_ok:
  assumes "volume_ok fs" "0 < group_count fs" "tables_ok fs (m_pInode fs nd) (m_nBlocks nd)"
    and "12 \<le> m_nBlocks nd" "m_nBlocks nd < 12 + entries fs"
  shows "\<exists>ok fs'. addIndirect v nd fs = Some (ok, fs') \<and> kept nd fs fs' \<and> (ok \<longrightarrow> added v nd fs fs')"
proof (cases "m_nBlocks nd = 12")
  case False
  let ?i = "m_pInode fs nd" and ?n = "m_nBlocks nd"
  let ?t = "i_block ?i ! 12"
  have tab: "tables fs ?i ?n = [?t]" "tables fs ?i (?n + 1) = [?t]" using assms(4,5) False by (simp_all add: tables_def Let_def)
  then have own: "own_block fs ?t" and ok: "tables_ok fs ?i (?n + 1)" using assms(3) by (simp_all add: tables_ok_def)
  let ?fs = "poke ?t (splice (4 * (?n - 12)) (bytes32 v) (blocks fs ?t)) fs"
  note st = store_indirect [OF assms(1,2) ok assms(4,5), of v]
  have "addIndirect v nd fs = Some (True, ?fs)" using False store_word_ok [OF own] by (simp add: addIndirect_def)
  moreover have "kept nd fs ?fs"
    using store_frame(1) [OF assms(1,2) own, of "?n - 12" v] assms(4,5) tab(1) by (intro kept_same) auto
  moreover have "added v nd fs ?fs" using st by (simp add: added_def)
  ultimately show ?thesis by blast
next
  case True
  let ?i = "m_pInode fs nd" and ?n = "m_nBlocks nd"
  obtain ok fs1 nb where nt: "new_table 12 nd fs = Some (ok, fs1)" "frame {} fs fs1"
    "inodes fs1 = (inodes fs)(m_InodeNumber nd := ?i\<lparr>i_block := (i_block ?i)[12 := nb]\<rparr>)"
    "ok \<longrightarrow> own_block fs1 nb \<and> (\<forall>t. own_block fs t \<longrightarrow> t \<noteq> nb)" using new_table_ok [OF assms(1,2), of 12 nd] by blast
  have i1: "m_pInode fs1 nd = ?i\<lparr>i_block := (i_block ?i)[12 := nb]\<rparr>" using nt(3) by (simp add: m_pInode_def)
  have empty: "tables fs ?i ?n = []" using True by (simp add: tables_def)
  show ?thesis
  proof (cases ok)
    case False
    then have "addIndirect v nd fs = Some (False, fs1)" using True nt(1) by (simp add: addIndirect_def)
    moreover have "kept nd fs fs1" using nt(2,3) i1 empty by (auto simp: kept_def)
    ultimately show ?thesis by blast
  next
    case ok: True
    then have nb: "own_block fs1 nb" "\<forall>t. own_block fs t \<longrightarrow> t \<noteq> nb" using nt(4) by auto
    have v: "volume_ok fs1" "0 < group_count fs1" "entries fs1 = entries fs" using nt(2) assms(2) by (simp_all add: frame_def)
    have len: "length (i_block ?i) = 15" using assms(3) by (simp add: tables_ok_def)
    have t: "i_block (m_pInode fs1 nd) ! 12 = nb" using len i1 by simp
    have "tables_ok fs1 (m_pInode fs1 nd) (12 + 1)"
      using table_entries_pos [OF v(1)] nb(1) t len i1 by (simp add: tables_ok_def tables_def Let_def)
    from store_indirect [OF v(1,2) this order_refl _, of v] table_entries_pos [OF v(1)] t
    have st: "tables_ok (poke nb (splice 0 (bytes32 v) (blocks fs1 nb)) fs1) (m_pInode fs1 nd) 13"
      "block_number (poke nb (splice 0 (bytes32 v) (blocks fs1 nb)) fs1) (m_pInode fs1 nd) 12 = v"
      "\<forall>m < 12. block_number (poke nb (splice 0 (bytes32 v) (blocks fs1 nb)) fs1) (m_pInode fs1 nd) m = block_number fs1 (m_pInode fs1 nd) m"
      by simp_all
    let ?fs = "poke nb (splice 0 (bytes32 v) (blocks fs1 nb)) fs1"
    have "frame {nb} fs1 ?fs" using store_frame(1) [OF v(1,2) nb(1), of 0 v] table_entries_pos [OF v(1)] by simp
    then have f: "frame {} fs ?fs"
      by (intro frame_drop [OF frame_trans [OF frame_mono [OF nt(2)]] nb(2)]) simp_all
    have "addIndirect v nd fs = Some (True, ?fs)" using True ok nt(1) t store_word_ok [OF nb(1), of 0 v] by (simp add: addIndirect_def)
    moreover have "kept nd fs ?fs" using f nt(3) i1 empty by (auto simp: kept_def)
    moreover have "added v nd fs ?fs"
    proof -
      have "block_number fs1 (m_pInode fs1 nd) m = block_number fs ?i m" if "m < 12" for m
        using that i1 by (simp add: block_number_def)
      then show ?thesis using st True by (simp add: added_def)
    qed
    ultimately show ?thesis by blast
  qed
qed

text \<open>The second step of a bi-indirect addition: a new table for its numbers.\<close>

lemma second_table_ok:
  assumes "volume_ok fs" "0 < group_count fs" "two_level fs i c" "c < entries fs"
  defines "b \<equiv> i_block i ! 13"
  shows "\<exists>nb fs2 fs3. findFreeBlock ino fs = Some (nb, fs2) \<and> store_word b c nb fs2 = Some fs3 \<and> inodes fs3 = inodes fs \<and> frame {b} fs fs3 \<and>
    (nb \<noteq> 0 \<longrightarrow> (\<exists>fs4. zero_block nb fs3 = Some fs4 \<and> frame {b} fs fs4 \<and> inodes fs4 = inodes fs \<and> two_level fs4 i (c + 1) \<and>
       (\<forall>m < 12 + entries fs + c * entries fs. block_number fs4 i m = block_number fs i m) \<and> \<not> own_block fs (table_entry fs4 b c)))"
proof -
  let ?p = "entries fs"
  have own: "own_block fs b" using assms(3) by (simp add: two_level_def b_def)
  obtain nb fs2 where a: "findFreeBlock ino fs = Some (nb, fs2)" "frame {} fs fs2" "inodes fs2 = inodes fs"
    "nb \<noteq> 0 \<longrightarrow> own_block fs2 nb \<and> (\<forall>t. own_block fs t \<longrightarrow> t \<noteq> nb)" using alloc_frame [OF assms(1,2), of ino] by blast
  have v2: "volume_ok fs2" "0 < group_count fs2" "entries fs2 = ?p" "m_BlockSize fs2 = m_BlockSize fs" and own2: "own_block fs2 b"
    using a(2) assms(2) own by (simp_all add: frame_def)
  let ?fs3 = "poke b (splice (4 * c) (bytes32 nb) (blocks fs2 b)) fs2"
  note st = store_frame [OF v2(1,2) own2, where idx = c and v = nb, unfolded v2(3), OF assms(4)]
  have f3: "frame {b} fs ?fs3" by (rule frame_trans [OF frame_mono [OF a(2)] st(1)]) simp
  have e3: "table_entry ?fs3 s k = (if s = b \<and> k = c then nb else table_entry fs s k)" if "own_block fs s" "k < ?p" for s k
    using st(2) [OF that(2)] frame_entry [OF a(2) that(1)] by simp
  have s3: "store_word b c nb fs2 = Some ?fs3" by (rule store_word_ok [OF own2])
  have i3: "inodes ?fs3 = inodes fs" using a(3) by simp
  have "\<exists>fs4. zero_block nb ?fs3 = Some fs4 \<and> frame {b} fs fs4 \<and> inodes fs4 = inodes fs \<and> two_level fs4 i (c + 1) \<and>
       (\<forall>m < 12 + ?p + c * ?p. block_number fs4 i m = block_number fs i m) \<and> \<not> own_block fs (table_entry fs4 b c)" if nz: "nb \<noteq> 0"
  proof -
    have nb: "own_block fs2 nb" "\<And>t. own_block fs t \<Longrightarrow> t \<noteq> nb" using a(4) nz by auto
    have v3: "volume_ok ?fs3" "0 < group_count ?fs3" "own_block ?fs3 nb" using st(1) v2(2) nb(1) by (simp_all add: frame_def)
    let ?fs4 = "poke nb (replicate (m_BlockSize ?fs3) 0) ?fs3"
    have z: "zero_block nb ?fs3 = Some ?fs4" using zero_block_ok [OF v3(3)] v3(1) by (simp add: volume_ok_def)
    have g: "frame {nb} ?fs3 ?fs4" by (rule poke_frame [OF v3]) simp
    have f4: "frame {b} fs ?fs4" using f3 g nb(2) by (auto simp: frame_def)
    have own4: "own_block ?fs4 t" if "own_block fs t \<or> t = nb" for t using that f4 g v3(3) by (auto simp: frame_def)
    have e4: "table_entry ?fs4 s k = (if s = b \<and> k = c then nb else table_entry fs s k)" if "own_block fs s" "k < ?p" for s k
      using e3 [OF that] poke_entry_other [OF nb(2) [OF that(1)]] by simp
    have old: "table_entry ?fs4 b k = table_entry fs b k" if "k < c" for k using e4 [OF own, of k] that assms(4) by simp
    have new: "table_entry ?fs4 b c = nb" using e4 [OF own assms(4)] by simp
    have map: "map (table_entry ?fs4 b) [0..<c + 1] = map (table_entry fs b) [0..<c] @ [nb]" using old new by simp
    have ownk: "own_block fs (table_entry fs b k)" if "k < c" for k using assms(3) that by (simp add: two_level_def b_def)
    have "two_level ?fs4 i (c + 1)"
    proof -
      have "nb \<notin> table_entry fs b ` {0..<c}" using nb(2) ownk by fastforce
      then have "distinct (i_block i ! 12 # b # map (table_entry ?fs4 b) [0..<c + 1])"
        unfolding map using assms(3) nb(2) own by (auto simp: two_level_def b_def)
      moreover have "\<forall>k < c + 1. own_block ?fs4 (table_entry ?fs4 b k)"
      proof safe
        fix k assume "k < c + 1"
        then show "own_block ?fs4 (table_entry ?fs4 b k)"
          using old [of k] new own4 [of "table_entry fs b k"] own4 [of nb] ownk [of k] by (cases "k = c") simp_all
      qed
      moreover have "own_block ?fs4 (i_block i ! 12)" "own_block ?fs4 b" "length (i_block i) = 15"
        using assms(3) own4 own by (simp_all add: two_level_def)
      ultimately show ?thesis unfolding two_level_def b_def by blast
    qed
    moreover have "block_number ?fs4 i m = block_number fs i m" if "m < 12 + ?p + c * ?p" for m
    proof (rule number_same)
      note dis = two_level_distinct [OF assms(3), folded b_def]
      have o12: "own_block fs (i_block i ! 12)" using assms(3) by (simp add: two_level_def)
      {
        assume "12 \<le> m \<and> m < 12 + ?p"
        then have "m - 12 < ?p" by linarith
        then show "i_block i ! 12 = i_block i ! 12 \<and> table_entry ?fs4 (i_block i ! 12) (m - 12) = table_entry fs (i_block i ! 12) (m - 12)"
          using e4 [OF o12] dis(1) by simp
      next
        let ?q = "m - 12 - ?p"
        assume "12 + ?p \<le> m"
        then have "?q < c * ?p" using that by linarith
        then have q: "?q div ?p < c" by (simp add: less_mult_imp_div_less)
        have r: "?q mod ?p < ?p" using table_entries_pos [OF assms(1)] by simp
        have "table_entry fs b (?q div ?p) \<noteq> b" by (rule dis(2) [OF q])
        then show "i_block i ! 13 = i_block i ! 13 \<and> table_entry ?fs4 (i_block i ! 13) (?q div ?p) = table_entry fs (i_block i ! 13) (?q div ?p) \<and>
            table_entry ?fs4 (table_entry fs (i_block i ! 13) (?q div ?p)) (?q mod ?p) =
            table_entry fs (table_entry fs (i_block i ! 13) (?q div ?p)) (?q mod ?p)"
          using old [OF q] e4 [OF ownk [OF q] r] unfolding b_def by simp
      }
    qed (simp_all add: v2(4))
    moreover have "\<not> own_block fs (table_entry ?fs4 b c)" unfolding new using nb(2) by blast
    ultimately show ?thesis using z f4 a(3) by (intro exI [of _ ?fs4]) simp
  qed
  then show ?thesis using a(1) s3 i3 f3 by blast
qed

lemma first_table_ok:
  assumes "volume_ok fs" "0 < group_count fs" "tables_ok fs (m_pInode fs nd) (m_nBlocks nd)" "m_nBlocks nd = 12 + entries fs"
  shows "\<exists>ok fs1. new_table 13 nd fs = Some (ok, fs1) \<and> kept nd fs fs1 \<and>
    (ok \<longrightarrow> two_level fs1 (m_pInode fs1 nd) 0 \<and> \<not> own_block fs (i_block (m_pInode fs1 nd) ! 13) \<and>
       (\<forall>m < m_nBlocks nd. block_number fs1 (m_pInode fs1 nd) m = block_number fs (m_pInode fs nd) m))"
proof -
  let ?i = "m_pInode fs nd"
  obtain ok fs1 nb where nt: "new_table 13 nd fs = Some (ok, fs1)" "frame {} fs fs1"
    "inodes fs1 = (inodes fs)(m_InodeNumber nd := ?i\<lparr>i_block := (i_block ?i)[13 := nb]\<rparr>)"
    "ok \<longrightarrow> own_block fs1 nb \<and> (\<forall>t. own_block fs t \<longrightarrow> t \<noteq> nb)" using new_table_ok [OF assms(1,2), of 13 nd] by blast
  have i1: "m_pInode fs1 nd = ?i\<lparr>i_block := (i_block ?i)[13 := nb]\<rparr>" using nt(3) by (simp add: m_pInode_def)
  have p: "0 < entries fs" by (rule table_entries_pos [OF assms(1)])
  have tab: "tables fs ?i (m_nBlocks nd) = [i_block ?i ! 12]" using assms(4) p by (simp add: tables_def Let_def)
  then have t: "own_block fs (i_block ?i ! 12)" "length (i_block ?i) = 15" using assms(3) by (simp_all add: tables_ok_def)
  have k: "kept nd fs fs1" using frame_mono [OF nt(2)] nt(3) i1 by (auto simp: kept_def)
  have bs: "m_BlockSize fs1 = m_BlockSize fs" using nt(2) by (simp add: frame_def)
  have "two_level fs1 (m_pInode fs1 nd) 0 \<and> \<not> own_block fs (i_block (m_pInode fs1 nd) ! 13) \<and>
       (\<forall>m < m_nBlocks nd. block_number fs1 (m_pInode fs1 nd) m = block_number fs (m_pInode fs nd) m)" if ok
  proof (intro conjI allI impI)
    have nb: "own_block fs1 nb" "\<And>t. own_block fs t \<Longrightarrow> t \<noteq> nb" using nt(4) that by auto
    have t1: "own_block fs1 (i_block ?i ! 12)" using nt(2) t(1) by (simp add: frame_def)
    show "two_level fs1 (m_pInode fs1 nd) 0" using i1 t nb t1 by (auto simp: two_level_def)
    show "\<not> own_block fs (i_block (m_pInode fs1 nd) ! 13)" using i1 t(2) nb(2) by auto
    fix m assume m: "m < m_nBlocks nd"
    show "block_number fs1 (m_pInode fs1 nd) m = block_number fs ?i m"
      using frame_entry [OF nt(2) t(1)] m assms(4) by (intro number_same) (simp_all add: i1 bs)
  qed
  then show ?thesis using nt(1) k by blast
qed

lemma kept_extend:
  assumes "kept nd fs fs1" "frame {b} fs1 fs2" "inodes fs2 = inodes fs1"
    and "b \<in> set (tables fs (m_pInode fs nd) (m_nBlocks nd)) \<or> \<not> own_block fs b"
  shows "kept nd fs fs2"
proof -
  have "frame (set (tables fs (m_pInode fs nd) (m_nBlocks nd))) fs fs2" using assms(1,2,4) by (auto simp: kept_def frame_def)
  moreover have "m_pInode fs2 nd = m_pInode fs1 nd" using assms(3) by (simp add: m_pInode_def)
  ultimately show ?thesis using assms(1,3) by (simp add: kept_def)
qed

lemma bi_first:
  assumes "volume_ok fs" "0 < group_count fs" "tables_ok fs (m_pInode fs nd) (m_nBlocks nd)" "m_nBlocks nd = 12 + entries fs + q"
  defines "T \<equiv> set (tables fs (m_pInode fs nd) (m_nBlocks nd))" and "c \<equiv> q div entries fs"
  shows "\<exists>ok fs1. (if q = 0 then new_table 13 nd fs else Some (True, fs)) = Some (ok, fs1) \<and> kept nd fs fs1 \<and>
    (ok \<longrightarrow> two_level fs1 (m_pInode fs1 nd) (if q mod entries fs = 0 then c else c + 1) \<and>
       (i_block (m_pInode fs1 nd) ! 13 \<in> T \<or> \<not> own_block fs (i_block (m_pInode fs1 nd) ! 13)) \<and>
       (q mod entries fs \<noteq> 0 \<longrightarrow> table_entry fs1 (i_block (m_pInode fs1 nd) ! 13) c \<in> T) \<and>
       (\<forall>m < m_nBlocks nd. block_number fs1 (m_pInode fs1 nd) m = block_number fs (m_pInode fs nd) m))"
proof (cases "q = 0")
  case True
  have "m_nBlocks nd = 12 + entries fs" using assms(4) True by simp
  from first_table_ok [OF assms(1-3) this] show ?thesis using True by (auto simp: c_def)
next
  case False
  let ?i = "m_pInode fs nd" and ?p = "entries fs"
  have p: "0 < ?p" by (rule table_entries_pos [OF assms(1)])
  have n: "12 + ?p < m_nBlocks nd" "m_nBlocks nd - 12 - ?p = q" using assms(4) False by simp_all
  have two: "two_level fs ?i (if q mod ?p = 0 then c else c + 1)"
    using two_level_tables_full [OF p n(1), of ?i, unfolded n(2)] two_level_tables_part [OF p n(1), of ?i, unfolded n(2)] assms(3)
    by (simp add: c_def)
  have t: "T = set (i_block ?i ! 12 # i_block ?i ! 13 # map (table_entry fs (i_block ?i ! 13)) [0..<(q + ?p - 1) div ?p])"
    using n by (simp add: T_def tables_def Let_def)
  have "q mod ?p \<noteq> 0 \<Longrightarrow> c < (q + ?p - 1) div ?p" using ceil_part [OF p, of q] by (simp add: c_def)
  then have "q mod ?p \<noteq> 0 \<longrightarrow> table_entry fs (i_block ?i ! 13) c \<in> T" unfolding t by auto
  moreover have "i_block ?i ! 13 \<in> T" unfolding t by simp
  moreover have "kept nd fs fs" by (rule kept_same [OF frame_refl [OF assms(1)] refl])
  ultimately show ?thesis using False two by auto
qed

lemma bi_second:
  fixes nd :: ext2_node and fs fs1 :: ext2_fs and q :: nat
  defines "i1 \<equiv> m_pInode fs1 nd" and "T \<equiv> set (tables fs (m_pInode fs nd) (m_nBlocks nd))"
  defines "b \<equiv> i_block i1 ! 13" and "c \<equiv> q div entries fs"
  assumes "kept nd fs fs1" "0 < group_count fs" "two_level fs1 i1 (if q mod entries fs = 0 then c else c + 1)" "c < entries fs"
    and "b \<in> T \<or> \<not> own_block fs b" "q mod entries fs \<noteq> 0 \<Longrightarrow> table_entry fs1 b c \<in> T"
    and "\<forall>m < 12 + entries fs + q. block_number fs1 i1 m = block_number fs (m_pInode fs nd) m"
  shows "\<exists>ok fs4. (if q mod entries fs = 0 then new_indirect b c nd fs1 else Some (True, fs1)) = Some (ok, fs4) \<and>
    kept nd fs fs4 \<and> inodes fs4 = inodes fs1 \<and>
    (ok \<longrightarrow> two_level fs4 i1 (c + 1) \<and> (table_entry fs4 b c \<in> T \<or> \<not> own_block fs (table_entry fs4 b c)) \<and>
       (\<forall>m < 12 + entries fs + q. block_number fs4 i1 m = block_number fs (m_pInode fs nd) m))"
proof (cases "q mod entries fs = 0")
  case False
  then show ?thesis using assms by (intro exI [of _ True] exI [of _ fs1]) simp
next
  case r: True
  let ?p = "entries fs"
  have f1: "frame T fs fs1" using assms(5) by (simp add: kept_def T_def)
  have v1: "volume_ok fs1" "entries fs1 = ?p" "0 < group_count fs1"
    using f1 assms(6) by (simp_all add: frame_def del: length_greater_0_conv)
  have two: "two_level fs1 i1 c" "c < entries fs1" using assms(7,8) r v1(2) by simp_all
  from second_table_ok [OF v1(1,3) two, of "m_InodeNumber nd"] obtain nb fs2 fs3 where
    a: "findFreeBlock (m_InodeNumber nd) fs1 = Some (nb, fs2)" "store_word b c nb fs2 = Some fs3" "inodes fs3 = inodes fs1" "frame {b} fs1 fs3"
    and z: "nb \<noteq> 0 \<longrightarrow> (\<exists>fs4. zero_block nb fs3 = Some fs4 \<and> frame {b} fs1 fs4 \<and> inodes fs4 = inodes fs1 \<and> two_level fs4 i1 (c + 1) \<and>
      (\<forall>m < 12 + ?p + c * ?p. block_number fs4 i1 m = block_number fs1 i1 m) \<and> \<not> own_block fs1 (table_entry fs4 b c))"
    unfolding v1(2) b_def by blast
  note ext = kept_extend [OF assms(5) _ _ assms(9) [unfolded T_def]]
  show ?thesis
  proof (cases "nb = 0")
    case True
    then have "new_indirect b c nd fs1 = Some (False, fs3)" using a by (simp add: new_indirect_def)
    then show ?thesis using r ext [OF a(4,3)] a(3) by (intro exI [of _ False] exI [of _ fs3]) simp
  next
    case False
    with z obtain fs4 where z4: "zero_block nb fs3 = Some fs4" "frame {b} fs1 fs4" "inodes fs4 = inodes fs1" "two_level fs4 i1 (c + 1)"
      "\<forall>m < 12 + ?p + c * ?p. block_number fs4 i1 m = block_number fs1 i1 m" "\<not> own_block fs1 (table_entry fs4 b c)" by blast
    have "c * ?p = q" using r by (auto simp: c_def)
    then have "\<forall>m < 12 + ?p + q. block_number fs4 i1 m = block_number fs (m_pInode fs nd) m" using z4(5) assms(11) by simp
    moreover have "\<not> own_block fs (table_entry fs4 b c)" using z4(6) f1 by (auto simp: frame_def)
    moreover have "new_indirect b c nd fs1 = Some (True, fs4)" using a z4(1) False by (simp add: new_indirect_def)
    ultimately show ?thesis using r ext [OF z4(2,3)] z4(3,4) by (intro exI [of _ True] exI [of _ fs4]) simp
  qed
qed

lemma bi_third:
  fixes v :: u32 and nd :: ext2_node and fs fs4 :: ext2_fs and q :: nat
  defines "i1 \<equiv> m_pInode fs4 nd" and "T \<equiv> set (tables fs (m_pInode fs nd) (m_nBlocks nd))"
  defines "b \<equiv> i_block i1 ! 13" and "c \<equiv> q div entries fs"
  assumes "kept nd fs fs4" "0 < group_count fs" "two_level fs4 i1 (c + 1)" "c < entries fs"
    and "table_entry fs4 b c \<in> T \<or> \<not> own_block fs (table_entry fs4 b c)"
    and "\<forall>m < 12 + entries fs + q. block_number fs4 i1 m = block_number fs (m_pInode fs nd) m" "m_nBlocks nd = 12 + entries fs + q"
  shows "\<exists>pBlock fs'. readBlock b fs4 = Some pBlock \<and> store_word (word_at (4 * c) pBlock) (q mod entries fs) v fs4 = Some fs' \<and>
    kept nd fs fs' \<and> added v nd fs fs'"
proof -
  let ?p = "entries fs" and ?t = "table_entry fs4 b c" and ?r = "q mod entries fs"
  have f: "frame T fs fs4" using assms(5) by (simp add: kept_def T_def)
  have v4: "volume_ok fs4" "m_BlockSize fs4 = m_BlockSize fs" "0 < group_count fs4"
    using f assms(6) by (simp_all add: frame_def del: length_greater_0_conv)
  have p: "0 < ?p" using table_entries_pos [OF v4(1)] v4(2) by simp
  let ?fs = "poke ?t (splice (4 * ?r) (bytes32 v) (blocks fs4 ?t)) fs4"
  note st0 = store_biindirect(1) [OF v4(1,3), where i = i1 and q = q, unfolded v4(2), folded b_def c_def, OF assms(7,8)]
  note st = store_biindirect(2-5) [OF v4(1,3), where i = i1 and q = q and v = v, unfolded v4(2), folded b_def c_def, OF assms(7,8)]
  have "own_block fs4 b" using assms(7) by (simp add: two_level_def b_def)
  then obtain buf where buf: "readBlock b fs4 = Some buf" "word_at (4 * c) buf = ?t"
    by (auto simp: own_block_def readBlock_def table_entry_def)
  have "store_word ?t ?r v fs4 = Some ?fs" by (rule store_word_ok [OF st0])
  moreover have "kept nd fs ?fs" by (rule kept_extend [OF assms(5) st(1) _ assms(9) [unfolded T_def]]) simp
  moreover have "added v nd fs ?fs"
  proof -
    have i': "m_pInode ?fs nd = i1" by (simp add: i1_def)
    have bs: "entries ?fs = ?p" using v4(2) by simp
    have q: "m_nBlocks nd - 12 - ?p = q" "12 + ?p \<le> m_nBlocks nd" "q + 12 + ?p = m_nBlocks nd" using assms(11) by simp_all
    have "tables_ok ?fs i1 (m_nBlocks nd + 1)"
      using two_level_tables [of ?fs "m_nBlocks nd" i1, unfolded bs q(1), OF p q(2)] st(2) by (simp add: c_def)
    then show ?thesis using st(3,4) assms(10) q(3) unfolding added_def i' by (simp add: ac_simps)
  qed
  ultimately show ?thesis using buf by auto
qed

lemma addBiindirect_ok:
  assumes "volume_ok fs" "0 < group_count fs" "tables_ok fs (m_pInode fs nd) (m_nBlocks nd)"
    and "12 + entries fs \<le> m_nBlocks nd" "m_nBlocks nd < 12 + entries fs + entries fs * entries fs"
  shows "\<exists>ok fs'. addBiindirect v nd fs = Some (ok, fs') \<and> kept nd fs fs' \<and> (ok \<longrightarrow> added v nd fs fs')"
proof -
  let ?i = "m_pInode fs nd" and ?p = "entries fs"
  define q where "q = m_nBlocks nd - 12 - ?p"
  let ?c = "q div ?p" and ?r = "q mod ?p"
  have n: "m_nBlocks nd = 12 + ?p + q" and nq: "m_nBlocks nd - 12 - ?p = q" using assms(4) by (simp_all add: q_def)
  have c: "?c < ?p" using assms(5) n by (simp add: less_mult_imp_div_less)
  from bi_first [OF assms(1-3) n] obtain ok fs1 where 1: "(if q = 0 then new_table 13 nd fs else Some (True, fs)) = Some (ok, fs1)" "kept nd fs fs1"
    "ok \<longrightarrow> two_level fs1 (m_pInode fs1 nd) (if ?r = 0 then ?c else ?c + 1) \<and>
       (i_block (m_pInode fs1 nd) ! 13 \<in> set (tables fs ?i (m_nBlocks nd)) \<or> \<not> own_block fs (i_block (m_pInode fs1 nd) ! 13)) \<and>
       (?r \<noteq> 0 \<longrightarrow> table_entry fs1 (i_block (m_pInode fs1 nd) ! 13) ?c \<in> set (tables fs ?i (m_nBlocks nd))) \<and>
       (\<forall>m < m_nBlocks nd. block_number fs1 (m_pInode fs1 nd) m = block_number fs ?i m)" by blast
  show ?thesis
  proof (cases ok)
    case False
    then have "addBiindirect v nd fs = Some (False, fs1)" using 1(1) by (simp add: addBiindirect_def Let_def q_def)
    then show ?thesis using 1(2) by blast
  next
    case True
    let ?b = "i_block (m_pInode fs1 nd) ! 13"
    have two: "two_level fs1 (m_pInode fs1 nd) (if ?r = 0 then ?c else ?c + 1)" using 1(3) True by simp
    then have "own_block fs1 ?b" by (simp add: two_level_def)
    then obtain buf0 where buf0: "readBlock ?b fs1 = Some buf0" by (auto simp: own_block_def readBlock_def)
    have run: "addBiindirect v nd fs = do {
        (ok, fs) \<leftarrow> (if ?r = 0 then new_indirect ?b ?c nd fs1 else Some (True, fs1));
        (if \<not> ok then Some (False, fs)
         else do {
           pBlock \<leftarrow> readBlock ?b fs;
           map_option (Pair True) (store_word (word_at (4 * ?c) pBlock) ?r v fs) }) }"
      using 1(1) True buf0 unfolding addBiindirect_def Let_def nq by simp
    from bi_second [OF 1(2) assms(2) two c] 1(3) True n obtain ok4 fs4 where
      s4: "(if ?r = 0 then new_indirect ?b ?c nd fs1 else Some (True, fs1)) = Some (ok4, fs4)" "kept nd fs fs4" "inodes fs4 = inodes fs1"
      "ok4 \<longrightarrow> two_level fs4 (m_pInode fs1 nd) (?c + 1) \<and>
        (table_entry fs4 ?b ?c \<in> set (tables fs ?i (m_nBlocks nd)) \<or> \<not> own_block fs (table_entry fs4 ?b ?c)) \<and>
        (\<forall>m < 12 + ?p + q. block_number fs4 (m_pInode fs1 nd) m = block_number fs ?i m)" by auto
    show ?thesis
    proof (cases ok4)
      case False
      then show ?thesis using run s4(1,2) by auto
    next
      case ok4: True
      have i1: "m_pInode fs1 nd = m_pInode fs4 nd" using s4(3) by (simp add: m_pInode_def)
      from s4(4) ok4 bi_third [OF s4(2) assms(2) _ c _ _ n, of v]
      obtain pBlock fs' where "readBlock ?b fs4 = Some pBlock" "store_word (word_at (4 * ?c) pBlock) ?r v fs4 = Some fs'"
        "kept nd fs fs'" "added v nd fs fs'" unfolding i1 by auto
      then show ?thesis using run s4(1) ok4 by auto
    qed
  qed
qed

text \<open>Adding a block: what \<open>trackBlock\<close> changes after that does not matter to the map.\<close>

lemma added_track:
  assumes "added v nd fs fs'" "kept nd fs fs'" "0 < group_count fs"
  shows "added v nd fs (modify_node nd (\<lambda>i. i\<lparr>i_blocks := k\<rparr>) fs')"
proof -
  let ?fs = "modify_node nd (\<lambda>i. i\<lparr>i_blocks := k\<rparr>) fs'"
  have v: "volume_ok fs'" "0 < group_count fs'"
    using assms(2,3) by (simp_all add: kept_def frame_def del: length_greater_0_conv)
  have e: "table_entry ?fs = table_entry fs'" by (intro ext) (simp add: table_entry_def)
  have i: "m_pInode ?fs nd = (m_pInode fs' nd)\<lparr>i_blocks := k\<rparr>" by (simp add: m_pInode_def)
  have "block_number ?fs (m_pInode ?fs nd) = block_number fs' (m_pInode fs' nd)" unfolding block_number_def e i by (rule ext) (simp add: Let_def)
  moreover have "tables ?fs (m_pInode ?fs nd) = tables fs' (m_pInode fs' nd)" unfolding tables_def e i by (rule ext) (simp add: Let_def)
  ultimately show "added v nd fs ?fs"
    using assms(1) node_change_ok(3) [OF v] i by (simp add: added_def tables_ok_def)
qed

lemma addBlock_ok:
  assumes "volume_ok fs" "0 < group_count fs" "tables_ok fs (m_pInode fs nd) (m_nBlocks nd)" "inode_ok (m_InodeNumber nd) fs"
    and "m_nBlocks nd < 12 + entries fs + entries fs * entries fs"
  shows "\<exists>ok nd' fs'. addBlock v nd fs = Some (ok, nd', fs') \<and>
    frame (set (tables fs (m_pInode fs nd) (m_nBlocks nd))) fs fs' \<and> (\<forall>k. k \<noteq> m_InodeNumber nd \<longrightarrow> inodes fs' k = inodes fs k) \<and>
    (if ok then nd' = nd\<lparr>m_pBlocks := m_pBlocks nd @ [v]\<rparr> \<and> added v nd fs fs' else nd' = nd)"
proof -
  let ?i = "m_pInode fs nd" and ?n = "m_nBlocks nd" and ?p = "entries fs"
  define first where "first =
    (if ?n < 12 then Some (True, modify_node nd (\<lambda>i. i\<lparr>i_block := (i_block i)[?n := v]\<rparr>) fs)
     else if ?n < 12 + ?p then addIndirect v nd fs else addBiindirect v nd fs)"
  have "\<exists>ok fs1. first = Some (ok, fs1) \<and> kept nd fs fs1 \<and> (ok \<longrightarrow> added v nd fs fs1)"
  proof (cases "?n < 12")
    case True
    let ?fs = "modify_node nd (\<lambda>i. i\<lparr>i_block := (i_block i)[?n := v]\<rparr>) fs"
    have i: "m_pInode ?fs nd = ?i\<lparr>i_block := (i_block ?i)[?n := v]\<rparr>" by (simp add: m_pInode_def)
    have "kept nd fs ?fs" using frame_mono [OF node_frame [OF assms(1,2)]] i by (auto simp: kept_def)
    moreover have "added v nd fs ?fs"
      using True assms(3) i by (auto simp: added_def tables_ok_def tables_def block_number_def)
    ultimately show ?thesis using True by (intro exI [of _ True] exI [of _ ?fs]) (simp add: first_def)
  next
    case False
    then show ?thesis using addIndirect_ok [OF assms(1-3), of v] addBiindirect_ok [OF assms(1-3) _ assms(5), of v]
      by (cases "?n < 12 + ?p") (simp_all add: first_def)
  qed
  then obtain ok fs1 where f: "first = Some (ok, fs1)" "kept nd fs fs1" "ok \<longrightarrow> added v nd fs fs1" by blast
  have run: "addBlock v nd fs = (if \<not> ok then Some (False, nd, fs1) else map_option (Pair True) (trackBlock v nd fs1))"
    using f(1) assms(5) unfolding addBlock_def Let_def first_def by (simp split: if_splits)
  show ?thesis
  proof (cases ok)
    case False
    then show ?thesis using run f(2) by (auto simp: kept_def)
  next
    case True
    let ?k = "of_nat ((?n + 1) * m_BlockSize fs1) div 512 :: u32"
    let ?fs = "modify_node nd (\<lambda>i. i\<lparr>i_blocks := ?k\<rparr>) fs1"
    have ind: "modify_node (nd\<lparr>m_pBlocks := bl\<rparr>) g fs1 = modify_node nd g fs1" for bl g by (simp add: modify_node_def)
    have fr: "frame (set (tables fs ?i ?n)) fs fs1" using f(2) by (simp add: kept_def)
    have v: "volume_ok fs1" "0 < group_count fs1" using fr assms(2) by (simp_all add: frame_def del: length_greater_0_conv)
    have "inode_ok (m_InodeNumber nd) ?fs" using frame_inode_ok [OF fr assms(4)] by simp
    then have "trackBlock v nd fs1 = Some (nd\<lparr>m_pBlocks := m_pBlocks nd @ [v]\<rparr>, ?fs)"
      unfolding trackBlock_def Let_def by (simp add: writeInode_def ind)
    moreover have "frame (set (tables fs ?i ?n)) fs ?fs"
      by (rule frame_trans [OF fr frame_mono [OF node_frame [OF v]]]) simp
    moreover have "\<forall>k. k \<noteq> m_InodeNumber nd \<longrightarrow> inodes ?fs k = inodes fs k" using f(2) by (simp add: kept_def)
    moreover have "added v nd fs ?fs" using added_track [OF _ f(2) assms(2)] f(3) True by blast
    ultimately show ?thesis using run True by auto
  qed
qed

end
