(* ===== verification/Ext2_Dirents.thy ===== *)
theory Ext2_Dirents
  imports Ext2_Directory Ext2_Tables
begin

text \<open>The entries of the blocks of a directory: adding one puts it between the others, removing one takes it out.\<close>

section \<open>Chains of entries\<close>

text \<open>From an offset on, the records follow each other up to the end of the block, and each is long enough for its name, also when it is not in use.\<close>

inductive chain :: "nat \<Rightarrow> u8 list \<Rightarrow> nat \<Rightarrow> bool" for bs buf where
  chain_end: "off = bs \<Longrightarrow> chain bs buf off"
| chain_step: "off < bs \<Longrightarrow> 4 dvd unat (d_reclen off buf) \<Longrightarrow> thisReclen off buf \<le> unat (d_reclen off buf) \<Longrightarrow>
    off + unat (d_reclen off buf) \<le> bs \<Longrightarrow> chain bs buf (off + unat (d_reclen off buf)) \<Longrightarrow> chain bs buf off"

inductive_cases chain_cases: "chain bs buf off"

text \<open>The entries, without the file system: the name, the inode and the kind that the entry has.\<close>

function dirents :: "nat \<Rightarrow> u8 list \<Rightarrow> nat \<Rightarrow> (u8 list \<times> u32 \<times> nat) list" where
  "dirents bs buf off =
     (if bs \<le> off \<or> d_reclen off buf = 0 then []
      else
        let rest = dirents bs buf (off + unat (d_reclen off buf))
        in if d_inode off buf = 0 then rest
           else (takeWhile (\<lambda>c. c \<noteq> 0) (d_name (d_namelen off buf) off buf), d_inode off buf, unat (d_file_type off buf)) # rest)"
  by auto
termination by (relation "measure (\<lambda>(bs, buf, off). bs - off)") (auto intro!: diff_less_mono2 simp: unat_gt_0 not_le)

declare dirents.simps [simp del]

lemma thisReclen_bounds: "8 + d_namelen off buf \<le> thisReclen off buf" "thisReclen off buf < 8 + d_namelen off buf + 4"
proof -
  have "(8 + d_namelen off buf) mod 4 < 4" by simp
  then show "8 + d_namelen off buf \<le> thisReclen off buf" "thisReclen off buf < 8 + d_namelen off buf + 4"
    by (auto simp: thisReclen_def Let_def)
qed

text \<open>Every entry of a known kind has an inode that can be read.\<close>

definition inodes_there :: "ext2_fs \<Rightarrow> (u8 list \<times> u32 \<times> nat) list \<Rightarrow> bool" where
  "inodes_there fs es \<longleftrightarrow> (\<forall>(n, i, k) \<in> set es. k \<in> {1, 2, 7} \<longrightarrow> getInode i fs \<noteq> None)"

lemma list_dirents_chain:
  assumes "chain (m_BlockSize fs) buf off" "checkRequiredFeature fs 2" "inodes_there fs (dirents (m_BlockSize fs) buf off)"
  shows "list_dirents fs buf off = Some (dirents (m_BlockSize fs) buf off)"
  using assms(1,3)
proof (induction rule: chain.induct)
  case (chain_end off)
  then show ?case by (subst list_dirents.simps) (simp add: dirents.simps)
next
  case (chain_step off)
  let ?bs = "m_BlockSize fs"
  have ge: "8 \<le> unat (d_reclen off buf)" using chain_step.hyps(3) thisReclen_bounds(1) [of off buf] by simp
  then have nz: "d_reclen off buf \<noteq> 0" by auto
  have d: "dirents ?bs buf off = (let rest = dirents ?bs buf (off + unat (d_reclen off buf))
        in if d_inode off buf = 0 then rest
           else (takeWhile (\<lambda>c. c \<noteq> 0) (d_name (d_namelen off buf) off buf), d_inode off buf, unat (d_file_type off buf)) # rest)"
    using chain_step.hyps(1) nz by (subst dirents.simps) simp
  have IH: "list_dirents fs buf (off + unat (d_reclen off buf)) = Some (dirents ?bs buf (off + unat (d_reclen off buf)))"
    using chain_step.IH chain_step.prems d by (auto simp: inodes_there_def Let_def split: if_splits)
  show ?case
  proof (cases "d_inode off buf = 0")
    case True
    then show ?thesis using chain_step.hyps(1,4) ge nz IH d by (subst list_dirents.simps) simp
  next
    case False
    have "off + 8 + d_namelen off buf \<le> ?bs" using chain_step.hyps(3,4) thisReclen_bounds(1) [of off buf] by simp
    moreover have "unat (d_file_type off buf) \<in> {1, 2, 7} \<longrightarrow> getInode (d_inode off buf) fs \<noteq> None"
      using chain_step.prems d False by (auto simp: inodes_there_def Let_def)
    ultimately show ?thesis
      using chain_step.hyps(1,4) ge nz IH d False assms(2) by (subst list_dirents.simps) (auto simp: entry_kind_def Let_def)
  qed
qed

text \<open>Only the bytes from the offset on matter.\<close>

definition agree_from :: "nat \<Rightarrow> u8 list \<Rightarrow> u8 list \<Rightarrow> bool" where
  "agree_from off buf buf' \<longleftrightarrow> length buf' = length buf \<and> drop off buf' = drop off buf"

lemma agree_nth:
  assumes "agree_from off buf buf'" "off \<le> k" "k < length buf"
  shows "buf' ! k = buf ! k"
proof -
  have n: "b ! k = drop off b ! (k - off)" if "length b = length buf" for b :: "u8 list" using that assms(2,3) by simp
  show ?thesis using n [of buf] n [of buf'] assms(1) by (simp only: agree_from_def)
qed

lemma agree_mono:
  assumes "agree_from off buf buf'" "off \<le> p"
  shows "agree_from p buf buf'"
proof -
  have "drop (p - off) (drop off buf') = drop (p - off) (drop off buf)" using assms(1) by (simp add: agree_from_def)
  then show ?thesis using assms by (simp add: agree_from_def)
qed

lemma agree_fields:
  assumes "agree_from off buf buf'" "off + 8 \<le> length buf"
  shows "d_inode off buf' = d_inode off buf" "d_reclen off buf' = d_reclen off buf" "d_namelen off buf' = d_namelen off buf"
    "d_file_type off buf' = d_file_type off buf" "d_name n off buf' = d_name n off buf" "thisReclen off buf' = thisReclen off buf"
proof -
  have n: "buf' ! (off + k) = buf ! (off + k)" if "k < 8" for k using agree_nth [OF assms(1)] that assms(2) by simp
  from n [of 0] n [of 1] n [of 2] n [of 3] n [of 4] n [of 5] n [of 6] n [of 7]
  show "d_inode off buf' = d_inode off buf" "d_reclen off buf' = d_reclen off buf" "d_namelen off buf' = d_namelen off buf"
    "d_file_type off buf' = d_file_type off buf"
    by (simp_all add: d_inode_def d_reclen_def d_namelen_def d_file_type_def word_at_def)
  then show "thisReclen off buf' = thisReclen off buf" by (simp add: thisReclen_def)
  show "d_name n off buf' = d_name n off buf" using agree_mono [OF assms(1), of "off + 8"] by (simp add: d_name_def agree_from_def)
qed

lemma agree_chain:
  assumes "chain bs buf off" "agree_from off buf buf'" "bs = length buf"
  shows "chain bs buf' off \<and> dirents bs buf' off = dirents bs buf off"
  using assms(1,2)
proof (induction rule: chain.induct)
  case (chain_end off)
  then show ?case by (simp add: dirents.simps chain.chain_end)
next
  case (chain_step off)
  have le: "off + 8 \<le> length buf" using chain_step.hyps(3,4) thisReclen_bounds(1) [of off buf] assms(3) by simp
  note f = agree_fields [OF chain_step.prems le]
  have "agree_from (off + unat (d_reclen off buf)) buf buf'" by (rule agree_mono [OF chain_step.prems]) simp
  note IH = chain_step.IH [OF this]
  have "chain bs buf' off" by (rule chain.chain_step) (use chain_step.hyps(1-4) IH f in simp_all)
  moreover have "dirents bs buf' off = dirents bs buf off"
    using IH f by (simp add: dirents.simps [of bs buf off] dirents.simps [of bs buf' off] Let_def)
  ultimately show ?case ..
qed

text \<open>Only the bytes of the record matter for what it says.\<close>

definition agree_until :: "nat \<Rightarrow> u8 list \<Rightarrow> u8 list \<Rightarrow> bool" where
  "agree_until q buf buf' \<longleftrightarrow> length buf' = length buf \<and> (\<forall>k < q. k < length buf \<longrightarrow> buf' ! k = buf ! k)"

lemma until_fields:
  assumes "agree_until q buf buf'" "off + thisReclen off buf \<le> q" "q \<le> length buf"
  shows "d_inode off buf' = d_inode off buf" "d_reclen off buf' = d_reclen off buf" "d_namelen off buf' = d_namelen off buf"
    "d_file_type off buf' = d_file_type off buf" "d_name (d_namelen off buf) off buf' = d_name (d_namelen off buf) off buf"
    "thisReclen off buf' = thisReclen off buf"
proof -
  have b: "off + 8 + d_namelen off buf \<le> q" using thisReclen_bounds(1) [of off buf] assms(2) by simp
  have n: "buf' ! (off + k) = buf ! (off + k)" if "k < 8" for k using assms(1,3) b that by (simp add: agree_until_def)
  from n [of 0] n [of 1] n [of 2] n [of 3] n [of 4] n [of 5] n [of 6] n [of 7]
  show "d_inode off buf' = d_inode off buf" "d_reclen off buf' = d_reclen off buf" "d_namelen off buf' = d_namelen off buf"
    "d_file_type off buf' = d_file_type off buf"
    by (simp_all add: d_inode_def d_reclen_def d_namelen_def d_file_type_def word_at_def)
  then show "thisReclen off buf' = thisReclen off buf" by (simp add: thisReclen_def)
  show "d_name (d_namelen off buf) off buf' = d_name (d_namelen off buf) off buf"
    using assms(1,3) b by (intro nth_equalityI) (auto simp: d_name_def agree_until_def)
qed

section \<open>One record\<close>

text \<open>The entry of the record at an offset, and the list with it in front.\<close>

definition entry_at :: "nat \<Rightarrow> u8 list \<Rightarrow> u8 list \<times> u32 \<times> nat" where
  "entry_at off buf = (takeWhile (\<lambda>c. c \<noteq> 0) (d_name (d_namelen off buf) off buf), d_inode off buf, unat (d_file_type off buf))"

lemma dirents_step:
  assumes "off < bs" "thisReclen off buf \<le> unat (d_reclen off buf)"
  shows "dirents bs buf off = (if d_inode off buf = 0 then [] else [entry_at off buf]) @ dirents bs buf (off + unat (d_reclen off buf))"
proof -
  have "d_reclen off buf \<noteq> 0" using assms(2) thisReclen_bounds(1) [of off buf] by auto
  then show ?thesis using assms(1) by (subst dirents.simps) (simp add: entry_at_def Let_def)
qed

lemma until_entry:
  assumes "agree_until q buf buf'" "off + thisReclen off buf \<le> q" "q \<le> length buf"
  shows "entry_at off buf' = entry_at off buf"
  using until_fields [OF assms] by (simp add: entry_at_def)

text \<open>A record that is kept in front of a part that changes.\<close>

lemma keep_record:
  assumes "off < bs" "4 dvd unat (d_reclen off buf)" "thisReclen off buf \<le> unat (d_reclen off buf)" "off + unat (d_reclen off buf) \<le> bs"
    and "agree_until (off + unat (d_reclen off buf)) buf buf'" "bs = length buf"
    and "chain bs buf' (off + unat (d_reclen off buf))"
  shows "chain bs buf' off"
    and "dirents bs buf' off = (if d_inode off buf = 0 then [] else [entry_at off buf]) @ dirents bs buf' (off + unat (d_reclen off buf))"
proof -
  let ?q = "off + unat (d_reclen off buf)"
  have q: "off + thisReclen off buf \<le> ?q" "?q \<le> length buf" using assms(3,4,6) by simp_all
  note f = until_fields [OF assms(5) q] until_entry [OF assms(5) q]
  show "chain bs buf' off" by (rule chain.chain_step) (use assms(1-4,7) f in simp_all)
  show "dirents bs buf' off = (if d_inode off buf = 0 then [] else [entry_at off buf]) @ dirents bs buf' ?q"
    using dirents_step [of off bs buf'] assms(1,3) f by simp
qed

section \<open>Writing a record\<close>

lemma set_reclen_nth:
  assumes "off + 8 \<le> length buf" "k < length buf"
  shows "set_reclen off n buf ! k = (if k = off + 4 then ucast n else if k = off + 5 then ucast (drop_bit 8 n) else buf ! k)"
  using assms by (auto simp: set_reclen_def nth_splice bytes16_def nth_Cons')

lemma length_set_reclen [simp]: "off + 8 \<le> length buf \<Longrightarrow> length (set_reclen off n buf) = length buf"
  by (simp add: set_reclen_def length_splice)

lemma set_reclen_fields:
  assumes "off + 8 \<le> length buf"
  shows "d_reclen off (set_reclen off n buf) = n" "d_inode off (set_reclen off n buf) = d_inode off buf"
    "d_namelen off (set_reclen off n buf) = d_namelen off buf" "d_file_type off (set_reclen off n buf) = d_file_type off buf"
    "d_name m off (set_reclen off n buf) = d_name m off buf" "thisReclen off (set_reclen off n buf) = thisReclen off buf"
proof -
  note s = set_reclen_nth [OF assms]
  show "d_reclen off (set_reclen off n buf) = n" "d_inode off (set_reclen off n buf) = d_inode off buf"
    "d_namelen off (set_reclen off n buf) = d_namelen off buf" "d_file_type off (set_reclen off n buf) = d_file_type off buf"
    using assms by (simp_all add: d_reclen_def d_inode_def d_namelen_def d_file_type_def word_at_def s le16_bytes)
  then show "thisReclen off (set_reclen off n buf) = thisReclen off buf" by (simp add: thisReclen_def)
  show "d_name m off (set_reclen off n buf) = d_name m off buf"
    using assms unfolding d_name_def by (intro nth_equalityI) (auto simp: s)
qed

lemma length_fill_entry [simp]: "off + 8 + length name \<le> length buf \<Longrightarrow> length (fill_entry off ino kind name buf) = length buf"
  by (simp add: fill_entry_def length_splice)

lemma fill_entry_nth:
  assumes "off + 8 + length name \<le> length buf" "k < length buf"
  shows "fill_entry off ino kind name buf ! k =
    (if off \<le> k \<and> k < off + 4 then bytes32 ino ! (k - off)
     else if off + 6 \<le> k \<and> k < off + 8 + length name then ([of_nat (length name), kind] @ name) ! (k - (off + 6)) else buf ! k)"
  using assms by (simp add: fill_entry_def nth_splice length_splice)

lemma fill_entry_fields:
  assumes "off + 8 + length name \<le> length buf" "length name < 256"
  shows "d_inode off (fill_entry off ino kind name buf) = ino" "d_reclen off (fill_entry off ino kind name buf) = d_reclen off buf"
    "d_namelen off (fill_entry off ino kind name buf) = length name" "d_file_type off (fill_entry off ino kind name buf) = kind"
    "d_name (length name) off (fill_entry off ino kind name buf) = name"
proof -
  note s = fill_entry_nth [OF assms(1)]
  have w: "word_at 0 (bytes32 ino) = ino" by (rule bytes32_word)
  have b: "fill_entry off ino kind name buf ! (off + k) = bytes32 ino ! k" if "k < 4" for k using s [of "off + k"] that assms(1) by simp
  have "word_at off (fill_entry off ino kind name buf) = word_at 0 (bytes32 ino)"
    using b [of 0] b [of 1] b [of 2] b [of 3] by (simp add: word_at_def numeral_2_eq_2)
  then show "d_inode off (fill_entry off ino kind name buf) = ino" by (simp only: d_inode_def w)
  show "d_reclen off (fill_entry off ino kind name buf) = d_reclen off buf" "d_file_type off (fill_entry off ino kind name buf) = kind"
    using assms(1) by (simp_all add: d_reclen_def d_file_type_def s)
  show "d_namelen off (fill_entry off ino kind name buf) = length name"
    using assms by (simp add: d_namelen_def s unat_of_nat take_bit_nat_eq_self)
  show "d_name (length name) off (fill_entry off ino kind name buf) = name"
    using assms(1) unfolding d_name_def by (intro nth_equalityI) (auto simp: s nth_Cons')
qed

lemma round_up:
  fixes m n :: nat
  defines "u \<equiv> (if m mod 4 \<noteq> 0 then m + (4 - m mod 4) else m)"
  shows "m \<le> n \<Longrightarrow> 4 dvd n \<Longrightarrow> u \<le> n" "4 dvd u"
proof -
  have m: "m = 4 * (m div 4) + m mod 4" "m mod 4 < 4" by simp_all
  have u: "u = 4 * (if m mod 4 \<noteq> 0 then m div 4 + 1 else m div 4)"
  proof (cases "m mod 4 = 0")
    case False
    have "m + (4 - r) = 4 * (q + 1)" if "m = 4 * q + r" "r < 4" for q r using that by simp
    from this [OF m] show ?thesis using False by (simp add: u_def)
  qed (use m in \<open>auto simp: u_def\<close>)
  then show "4 dvd u" by simp
  show "u \<le> n" if le: "m \<le> n" and dv: "4 dvd n"
  proof -
    obtain k where k: "n = 4 * k" using dv by (elim dvdE)
    have "(if r \<noteq> 0 then q + 1 else q) \<le> k" if "m = 4 * q + r" "r < 4" for q r using that le k by auto
    from this [OF m] show "u \<le> n" unfolding u k by (rule mult_le_mono2)
  qed
qed

lemma thisReclen_le: "8 + d_namelen off buf \<le> n \<Longrightarrow> 4 dvd n \<Longrightarrow> thisReclen off buf \<le> n"
  unfolding thisReclen_def Let_def by (rule round_up(1))

lemma thisReclen_dvd: "4 dvd thisReclen off buf"
  unfolding thisReclen_def Let_def by (rule round_up(2))

lemma agree_fromI: "length buf' = length buf \<Longrightarrow> (\<And>k. p \<le> k \<Longrightarrow> k < length buf \<Longrightarrow> buf' ! k = buf ! k) \<Longrightarrow> agree_from p buf buf'"
  unfolding agree_from_def by (auto intro!: nth_equalityI)

text \<open>The record at \<open>off\<close> gets a name.\<close>

lemma record_written:
  fixes kind :: u8
  assumes "off + 8 + length name \<le> off + unat (d_reclen off buf)" "off + unat (d_reclen off buf) \<le> bs" "bs = length buf"
    and "4 dvd unat (d_reclen off buf)" "length name < 256" "0 \<notin> set name" "ino \<noteq> 0" "chain bs buf (off + unat (d_reclen off buf))"
  defines "buf' \<equiv> fill_entry off ino kind name buf"
  shows "chain bs buf' off" and "dirents bs buf' off = (name, ino, unat kind) # dirents bs buf (off + unat (d_reclen off buf))"
proof -
  let ?r = "unat (d_reclen off buf)"
  have b: "off + 8 + length name \<le> length buf" using assms(1-3) by simp
  note f = fill_entry_fields [OF b assms(5), of ino kind, folded buf'_def]
  have "agree_from (off + ?r) buf buf'"
    by (rule agree_fromI) (use assms(1,2) b in \<open>simp_all add: buf'_def fill_entry_nth\<close>)
  from agree_chain [OF assms(8) this assms(3)] have c: "chain bs buf' (off + ?r)" "dirents bs buf' (off + ?r) = dirents bs buf (off + ?r)" by simp_all
  have t: "thisReclen off buf' \<le> ?r" using thisReclen_le [of off buf' ?r] assms(1,4) f(3) by simp
  have "off < bs" using b assms(3) by simp
  then show "chain bs buf' off" using assms(2,4) t c(1) f(2) by (simp add: chain.chain_step)
  have "takeWhile (\<lambda>c. c \<noteq> 0) name = name" using assms(6) by (auto simp: takeWhile_eq_all_conv)
  then show "dirents bs buf' off = (name, ino, unat kind) # dirents bs buf (off + ?r)"
    using dirents_step [of off bs buf'] \<open>off < bs\<close> t c(2) f assms(7) by (simp add: entry_at_def)
qed

lemma fits_nat:
  assumes "of_nat len \<le> (ucast (r :: u16) - of_nat t :: u64)" "t \<le> unat r" "len < 2 ^ 16"
  shows "t + len \<le> unat r"
proof -
  have r: "unat r < 2 ^ 16" using unsigned_less [of r] by simp
  have "(of_nat (unat r - t) :: u64) = ucast r - of_nat t" using assms(2) by (simp add: of_nat_diff)
  then have "unat (of_nat len :: u64) \<le> unat (of_nat (unat r - t) :: u64)" using assms(1) by (simp add: word_le_nat_alt)
  moreover have "unat (of_nat len :: u64) = len" "unat (of_nat (unat r - t) :: u64) = unat r - t"
    using assms(3) r by (simp_all add: unat_of_nat take_bit_nat_eq_self)
  ultimately show ?thesis using assms(2) by simp
qed

section \<open>Adding an entry to a block\<close>

lemma split_record:
  assumes "off < bs" "4 dvd unat (d_reclen off buf)" "off + unat (d_reclen off buf) \<le> bs" "chain bs buf (off + unat (d_reclen off buf))"
    and "bs = length buf" "thisReclen off buf + (8 + length name) \<le> unat (d_reclen off buf)"
    and "length name < 256" "0 \<notin> set name" "ino \<noteq> 0" "d_inode off buf \<noteq> 0" "take_slot (Behind off) buf = (p, b)"
  shows "p + 8 + length name \<le> bs" "p = off + thisReclen off buf" "chain bs (fill_entry p ino kind name b) off"
    and "dirents bs (fill_entry p ino kind name b) off =
      entry_at off buf # (name, ino, unat kind) # dirents bs buf (off + unat (d_reclen off buf))"
    and "agree_until off buf (fill_entry p ino kind name b)"
proof -
  let ?t = "thisReclen off buf" and ?r = "unat (d_reclen off buf)" and ?rest = "d_reclen off buf - of_nat (thisReclen off buf)"
  define b1 where "b1 = set_reclen off (of_nat ?t) buf"
  have r: "?r < 2 ^ 16" using unsigned_less [of "d_reclen off buf"] by simp
  have t: "8 \<le> ?t" using thisReclen_bounds(1) [of off buf] by simp
  have len1: "off + 8 \<le> length buf" and len2: "off + ?t + 8 \<le> length buf" using assms(3,5,6) t by simp_all
  have pb: "p = off + ?t" "b = set_reclen p ?rest b1" using assms(11) by (auto simp: Let_def b1_def)
  show "p + 8 + length name \<le> bs" "p = off + ?t" using pb assms(3,6) by simp_all
  have ut: "unat (of_nat ?t :: u16) = ?t" using assms(6) r by (simp add: unat_of_nat take_bit_nat_eq_self)
  then have ur: "unat ?rest = ?r - ?t" using assms(6) by (simp add: unat_sub word_le_nat_alt)
  have l: "length b1 = length buf" "length b = length buf" using len1 len2 pb by (simp_all add: b1_def)
  have rb: "d_reclen p b = ?rest" using set_reclen_fields(1) [of p b1] l len2 pb by simp
  have past: "p + unat (d_reclen p b) = off + ?r" using rb ur pb(1) assms(6) by simp
  have "agree_from (off + ?r) buf b"
    by (rule agree_fromI) (use len1 len2 l pb assms(6) t in \<open>simp_all add: b1_def set_reclen_nth\<close>)
  from agree_chain [OF assms(4) this assms(5)] have c: "chain bs b (off + ?r)" "dirents bs b (off + ?r) = dirents bs buf (off + ?r)" by simp_all
  have dv: "4 dvd unat (d_reclen p b)" using rb ur assms(2) thisReclen_dvd [of off buf] by (simp add: dvd_diff_nat)
  note w = record_written [of p name b bs ino, OF _ _ _ dv assms(7-9), unfolded past, of kind]
  have wc: "chain bs (fill_entry p ino kind name b) p" "dirents bs (fill_entry p ino kind name b) p = (name, ino, unat kind) # dirents bs b (off + ?r)"
    using w past assms(3,5,6) l(2) c(1) pb(1) by simp_all
  have f1: "d_reclen off b1 = of_nat ?t" "d_inode off b1 = d_inode off buf" "thisReclen off b1 = ?t" "entry_at off b1 = entry_at off buf"
    using set_reclen_fields [OF len1, where n = "of_nat ?t"] by (simp_all add: b1_def entry_at_def)
  have room: "p + 8 + length name \<le> length b" using pb(1) l(2) assms(3,5,6) by simp
  have un: "agree_until p b1 (fill_entry p ino kind name b)"
    unfolding agree_until_def using l room len2 pb by (simp add: fill_entry_nth set_reclen_nth)
  have k: "off < bs" "4 dvd unat (d_reclen off b1)" "thisReclen off b1 \<le> unat (d_reclen off b1)" "off + unat (d_reclen off b1) \<le> bs"
    "agree_until (off + unat (d_reclen off b1)) b1 (fill_entry p ino kind name b)" "bs = length b1"
    "chain bs (fill_entry p ino kind name b) (off + unat (d_reclen off b1))"
    using assms(1,3,5,6) f1 ut thisReclen_dvd [of off buf] un wc(1) pb(1) l(1) by simp_all
  show "chain bs (fill_entry p ino kind name b) off" by (rule keep_record(1) [OF k])
  show "dirents bs (fill_entry p ino kind name b) off = entry_at off buf # (name, ino, unat kind) # dirents bs buf (off + ?r)"
    using keep_record(2) [OF k] f1 ut wc(2) c(2) pb(1) assms(10) by simp
  have "agree_until off buf b1" unfolding agree_until_def using len1 by (simp add: b1_def set_reclen_nth)
  then show "agree_until off buf (fill_entry p ino kind name b)" using un pb(1) l by (simp add: agree_until_def)
qed

lemma find_room_chain:
  assumes "chain bs buf off" "bs = length buf" "find_room bs (8 + length name) buf off = Some (Some s)" "take_slot s buf = (p, b)"
    and "length name < 256" "0 \<notin> set name" "ino \<noteq> 0"
  shows "p + 8 + length name \<le> bs \<and> chain bs (fill_entry p ino kind name b) off \<and> agree_until off buf (fill_entry p ino kind name b) \<and>
    (\<exists>xs ys. dirents bs buf off = xs @ ys \<and> dirents bs (fill_entry p ino kind name b) off = xs @ (name, ino, unat kind) # ys)"
  using assms(1,3)
proof (induction rule: chain.induct)
  case (chain_end off)
  then show ?case by (simp add: find_room.simps)
next
  case (chain_step off)
  let ?r = "unat (d_reclen off buf)" and ?fits = "of_nat (8 + length name) \<le> (ucast (d_reclen off buf) - of_nat (thisReclen off buf) :: u64)"
  have t: "8 \<le> thisReclen off buf" using thisReclen_bounds(1) [of off buf] by simp
  then have nz: "d_reclen off buf \<noteq> 0" "\<not> bs < off + 8" using chain_step.hyps(3,4) by auto
  have fits: "thisReclen off buf + (8 + length name) \<le> ?r" if ?fits
    by (rule fits_nat [OF that chain_step.hyps(3)]) (use assms(5) in simp)
  have room: "find_room bs (8 + length name) buf off =
      (if d_inode off buf \<noteq> 0 \<and> ?fits then Some (Some (Behind off)) else if d_inode off buf = 0 \<and> ?fits then Some (Some (Unused off))
       else find_room bs (8 + length name) buf (off + ?r))"
    using chain_step.hyps(1) nz by (subst find_room.simps) (simp add: Let_def)
  consider (behind) "d_inode off buf \<noteq> 0" ?fits | (unused) "d_inode off buf = 0" ?fits | (on) "\<not> ?fits" by blast
  then show ?case
  proof cases
    case behind
    then have s: "take_slot (Behind off) buf = (p, b)" using room chain_step.prems assms(4) by simp
    note w = split_record [OF chain_step.hyps(1,2,4,5) assms(2) fits [OF behind(2)] assms(5-7) behind(1) s]
    have "dirents bs buf off = [entry_at off buf] @ dirents bs buf (off + ?r)"
      using dirents_step [OF chain_step.hyps(1,3)] behind(1) by simp
    then show ?thesis using w by (intro conjI exI [of _ "[entry_at off buf]"] exI [of _ "dirents bs buf (off + ?r)"]) simp_all
  next
    case unused
    then have s: "p = off" "b = buf" using room chain_step.prems assms(4) by auto
    have le: "off + 8 + length name \<le> off + ?r" using fits [OF unused(2)] by simp
    note w = record_written [OF le chain_step.hyps(4) assms(2) chain_step.hyps(2) assms(5-7) chain_step.hyps(5), of kind]
    have "agree_until off buf (fill_entry off ino kind name buf)"
      unfolding agree_until_def using le chain_step.hyps(4) assms(2) by (simp add: fill_entry_nth)
    moreover have "dirents bs buf off = dirents bs buf (off + ?r)" using dirents_step [OF chain_step.hyps(1,3)] unused(1) by simp
    ultimately show ?thesis
      using w s le chain_step.hyps(4) by (intro conjI exI [of _ "[]"] exI [of _ "dirents bs buf (off + ?r)"]) simp_all
  next
    case on
    then have "find_room bs (8 + length name) buf (off + ?r) = Some (Some s)" using room chain_step.prems by simp
    from chain_step.IH [OF this] obtain xs ys where IH: "p + 8 + length name \<le> bs" "chain bs (fill_entry p ino kind name b) (off + ?r)"
      "agree_until (off + ?r) buf (fill_entry p ino kind name b)" "dirents bs buf (off + ?r) = xs @ ys"
      "dirents bs (fill_entry p ino kind name b) (off + ?r) = xs @ (name, ino, unat kind) # ys" by blast
    note k = keep_record [OF chain_step.hyps(1-4) IH(3) assms(2) IH(2)]
    have "agree_until off buf (fill_entry p ino kind name b)" using IH(3) by (simp add: agree_until_def)
    moreover have "dirents bs buf off = (if d_inode off buf = 0 then [] else [entry_at off buf]) @ xs @ ys"
      using dirents_step [OF chain_step.hyps(1,3)] IH(4) by simp
    ultimately show ?thesis
      using k IH by (intro conjI exI [of _ "(if d_inode off buf = 0 then [] else [entry_at off buf]) @ xs"] exI [of _ ys]) simp_all
  qed
qed

section \<open>Taking an entry out of a block\<close>

lemma clear_entry_nth:
  assumes "8 \<le> unat (d_reclen off buf)" "off + unat (d_reclen off buf) \<le> length buf" "k < length buf"
  shows "clear_entry off buf ! k =
    (if k = off + 4 then ucast (d_reclen off buf) else if k = off + 5 then ucast (drop_bit 8 (d_reclen off buf))
     else if off \<le> k \<and> k < off + unat (d_reclen off buf) then 0 else buf ! k)"
  using assms by (auto simp: clear_entry_def set_reclen_nth length_splice nth_splice)

lemma length_clear_entry [simp]:
  "8 \<le> unat (d_reclen off buf) \<Longrightarrow> off + unat (d_reclen off buf) \<le> length buf \<Longrightarrow> length (clear_entry off buf) = length buf"
  by (simp add: clear_entry_def length_splice)

lemma clear_entry_fields:
  assumes "8 \<le> unat (d_reclen off buf)" "off + unat (d_reclen off buf) \<le> length buf"
  shows "d_inode off (clear_entry off buf) = 0" "d_reclen off (clear_entry off buf) = d_reclen off buf" "thisReclen off (clear_entry off buf) = 8"
proof -
  note s = clear_entry_nth [OF assms]
  have l: "off + 8 \<le> length (clear_entry off buf)" "off + 8 \<le> length buf" using assms by simp_all
  have "le32 (le16 0 0) (le16 0 0) = 0" by (simp add: le32_def le16_def)
  then show "d_inode off (clear_entry off buf) = 0" using l assms by (simp add: d_inode_def word_at_def s)
  show "d_reclen off (clear_entry off buf) = d_reclen off buf"
    unfolding clear_entry_def by (rule set_reclen_fields(1)) (use assms in \<open>simp add: length_splice\<close>)
  show "thisReclen off (clear_entry off buf) = 8" using l assms by (simp add: thisReclen_def d_namelen_def s)
qed

lemma clear_record:
  assumes "off < bs" "4 dvd unat (d_reclen off buf)" "thisReclen off buf \<le> unat (d_reclen off buf)" "off + unat (d_reclen off buf) \<le> bs"
    and "chain bs buf (off + unat (d_reclen off buf))" "bs = length buf"
  shows "chain bs (clear_entry off buf) off" "dirents bs (clear_entry off buf) off = dirents bs buf (off + unat (d_reclen off buf))"
    and "agree_until off buf (clear_entry off buf)"
proof -
  let ?r = "unat (d_reclen off buf)" and ?b = "clear_entry off buf"
  have r: "8 \<le> ?r" "off + ?r \<le> length buf" using assms(3,4,6) thisReclen_bounds(1) [of off buf] by simp_all
  note f = clear_entry_fields [OF r] and s = clear_entry_nth [OF r]
  have "agree_from (off + ?r) buf ?b" by (rule agree_fromI) (use r s in simp_all)
  from agree_chain [OF assms(5) this assms(6)] have c: "chain bs ?b (off + ?r)" "dirents bs ?b (off + ?r) = dirents bs buf (off + ?r)" by simp_all
  show "chain bs ?b off" by (rule chain.chain_step) (use assms(1,2,4) f r c in simp_all)
  show "dirents bs ?b off = dirents bs buf (off + ?r)" using dirents_step [of off bs ?b] assms(1) f r(1) c(2) by simp
  show "agree_until off buf ?b" unfolding agree_until_def using r s by simp
qed

lemma find_entry_chain:
  assumes "chain bs buf off" "bs = length buf" "find_entry bs ino name buf off = Some (Some p)" "ino \<noteq> 0"
  shows "p + unat (d_reclen p buf) \<le> bs \<and> chain bs (clear_entry p buf) off \<and> agree_until off buf (clear_entry p buf) \<and>
    (\<exists>xs k ys. dirents bs buf off = xs @ (takeWhile (\<lambda>c. c \<noteq> 0) name, ino, k) # ys \<and> dirents bs (clear_entry p buf) off = xs @ ys)"
  using assms(1,3)
proof (induction rule: chain.induct)
  case (chain_end off)
  then show ?case by (subst (asm) find_entry.simps) simp
next
  case (chain_step off)
  let ?r = "unat (d_reclen off buf)" and ?here = "d_inode off buf = ino \<and> d_namelen off buf = length name \<and> d_name (length name) off buf = name"
  have t: "8 + d_namelen off buf \<le> ?r" using thisReclen_bounds(1) [of off buf] chain_step.hyps(3) by simp
  then have nz: "d_reclen off buf \<noteq> 0" "off + 8 + d_namelen off buf \<le> bs" using chain_step.hyps(4) by auto
  have s: "find_entry bs ino name buf off = (if ?here then Some (Some off) else find_entry bs ino name buf (off + ?r))"
    using chain_step.hyps(1) nz by (subst find_entry.simps) auto
  show ?case
  proof (cases ?here)
    case True
    then have p: "p = off" using s chain_step.prems by simp
    note c = clear_record [OF chain_step.hyps(1-5) assms(2)]
    have "dirents bs buf off = (takeWhile (\<lambda>c. c \<noteq> 0) name, ino, unat (d_file_type off buf)) # dirents bs buf (off + ?r)"
      using dirents_step [OF chain_step.hyps(1,3)] True assms(4) by (auto simp: entry_at_def)
    then show ?thesis
      using c p chain_step.hyps(4)
      by (intro conjI exI [of _ "[]"] exI [of _ "unat (d_file_type off buf)"] exI [of _ "dirents bs buf (off + ?r)"]) simp_all
  next
    case False
    then have "find_entry bs ino name buf (off + ?r) = Some (Some p)" using s chain_step.prems by (simp only: if_False)
    from chain_step.IH [OF this] obtain xs k ys where IH: "p + unat (d_reclen p buf) \<le> bs" "chain bs (clear_entry p buf) (off + ?r)"
      "agree_until (off + ?r) buf (clear_entry p buf)" "dirents bs buf (off + ?r) = xs @ (takeWhile (\<lambda>c. c \<noteq> 0) name, ino, k) # ys"
      "dirents bs (clear_entry p buf) (off + ?r) = xs @ ys" by blast
    note kr = keep_record [OF chain_step.hyps(1-4) IH(3) assms(2) IH(2)]
    have "agree_until off buf (clear_entry p buf)" using IH(3) by (simp add: agree_until_def)
    moreover have "dirents bs buf off = (if d_inode off buf = 0 then [] else [entry_at off buf]) @ xs @ (takeWhile (\<lambda>c. c \<noteq> 0) name, ino, k) # ys"
      using dirents_step [OF chain_step.hyps(1,3)] IH(4) by simp
    ultimately show ?thesis
      using kr IH by (intro conjI exI [of _ "(if d_inode off buf = 0 then [] else [entry_at off buf]) @ xs"] exI [of _ k] exI [of _ ys]) simp_all
  qed
qed

section \<open>The blocks of a directory\<close>

definition dir_entries :: "ext2_fs \<Rightarrow> u32 list \<Rightarrow> (u8 list \<times> u32 \<times> nat) list" where
  "dir_entries fs bl = concat (map (\<lambda>b. dirents (m_BlockSize fs) (blocks fs b) 0) bl)"

definition dir_ok :: "ext2_fs \<Rightarrow> ext2_node \<Rightarrow> bool" where
  "dir_ok fs nd \<longleftrightarrow> blocks_ok fs \<and> loaded fs nd \<and> distinct (m_pBlocks nd) \<and> 0 \<notin> set (m_pBlocks nd) \<and>
     (\<forall>b \<in> set (m_pBlocks nd). chain (m_BlockSize fs) (blocks fs b) 0)"

lemma dir_ok_block:
  assumes "dir_ok fs nd" "i < m_nBlocks nd"
  shows "ensureBlockLoaded i nd fs = Some nd" "readBlock (m_pBlocks nd ! i) fs = Some (blocks fs (m_pBlocks nd ! i))"
    and "chain (m_BlockSize fs) (blocks fs (m_pBlocks nd ! i)) 0" "m_pBlocks nd ! i \<noteq> 0"
    and "length (blocks fs (m_pBlocks nd ! i)) = m_BlockSize fs"
proof -
  have m: "m_pBlocks nd ! i \<in> set (m_pBlocks nd)" using assms(2) by simp
  with assms(1) show nz: "m_pBlocks nd ! i \<noteq> 0" unfolding dir_ok_def by metis
  show "ensureBlockLoaded i nd fs = Some nd" using assms ensure_loaded by (simp add: dir_ok_def)
  show "readBlock (m_pBlocks nd ! i) fs = Some (blocks fs (m_pBlocks nd ! i))" "chain (m_BlockSize fs) (blocks fs (m_pBlocks nd ! i)) 0"
    "length (blocks fs (m_pBlocks nd ! i)) = m_BlockSize fs"
    using assms(1) m nz by (simp_all add: dir_ok_def loaded_def readBlock_def blocks_ok_def)
qed

lemma find_room_from_ok:
  assumes "dir_ok fs nd" "i + n = m_nBlocks nd" "find_room_from n i len nd fs = Some (Some (k, s), nd')"
  shows "nd' = nd \<and> k < m_nBlocks nd \<and> find_room (m_BlockSize fs) len (blocks fs (m_pBlocks nd ! k)) 0 = Some (Some s)"
  using assms(2,3)
proof (induction n arbitrary: i)
  case (Suc n)
  then have i: "i < m_nBlocks nd" by simp
  show ?case using Suc.prems Suc.IH [of "Suc i"] dir_ok_block [OF assms(1) i] i by (auto split: bind_splits option.splits)
qed simp

lemma find_entry_from_ok:
  assumes "dir_ok fs nd" "i + n = m_nBlocks nd" "find_entry_from n i ino name nd fs = Some (Some (k, p), nd')"
  shows "nd' = nd \<and> k < m_nBlocks nd \<and> find_entry (m_BlockSize fs) ino name (blocks fs (m_pBlocks nd ! k)) 0 = Some (Some p)"
  using assms(2,3)
proof (induction n arbitrary: i)
  case (Suc n)
  then have i: "i < m_nBlocks nd" by simp
  show ?case using Suc.prems Suc.IH [of "Suc i"] dir_ok_block [OF assms(1) i] i by (auto split: bind_splits option.splits)
qed simp

text \<open>Listing gives the entries.\<close>

lemma list_blocks_ok:
  assumes "dir_ok fs nd" "checkRequiredFeature fs 2" "i + n = m_nBlocks nd" "inodes_there fs (dir_entries fs (drop i (m_pBlocks nd)))"
  shows "list_blocks n i nd fs = Some (dir_entries fs (drop i (m_pBlocks nd)), nd)"
  using assms(3,4)
proof (induction n arbitrary: i)
  case (Suc n)
  then have i: "i < m_nBlocks nd" by simp
  then have d: "drop i (m_pBlocks nd) = m_pBlocks nd ! i # drop (Suc i) (m_pBlocks nd)" by (simp add: Cons_nth_drop_Suc)
  have e: "inodes_there fs (dirents (m_BlockSize fs) (blocks fs (m_pBlocks nd ! i)) 0)"
    "inodes_there fs (dir_entries fs (drop (Suc i) (m_pBlocks nd)))"
    using Suc.prems(2) unfolding d by (auto simp: dir_entries_def inodes_there_def)
  have "list_blocks n (Suc i) nd fs = Some (dir_entries fs (drop (Suc i) (m_pBlocks nd)), nd)" using Suc.IH [OF _ e(2)] Suc.prems(1) by simp
  then show ?case
    using list_dirents_chain [OF dir_ok_block(3) [OF assms(1) i] assms(2) e(1)] dir_ok_block [OF assms(1) i] unfolding d by (simp add: dir_entries_def)
qed (simp add: dir_entries_def)

text \<open>A change of one block.\<close>

lemma dir_block_change:
  assumes "dir_ok fs nd" "i < m_nBlocks nd" "length buf = m_BlockSize fs" "chain (m_BlockSize fs) buf 0"
    and "blocks fs' = (blocks fs)(m_pBlocks nd ! i := buf)" "m_BlockSize fs' = m_BlockSize fs" "disk_blocks fs' = disk_blocks fs"
    and "g_pSparseBlock fs' = g_pSparseBlock fs" "m_pBlocks nd' = m_pBlocks nd"
  shows "dir_ok fs' nd'"
    and "dir_entries fs' (m_pBlocks nd) = dir_entries fs (take i (m_pBlocks nd)) @ dirents (m_BlockSize fs) buf 0 @ dir_entries fs (drop (Suc i) (m_pBlocks nd))"
    and "dir_entries fs (m_pBlocks nd) = dir_entries fs (take i (m_pBlocks nd)) @ dirents (m_BlockSize fs) (blocks fs (m_pBlocks nd ! i)) 0 @
      dir_entries fs (drop (Suc i) (m_pBlocks nd))"
proof -
  let ?bl = "m_pBlocks nd" and ?x = "m_pBlocks nd ! i"
  show "dir_ok fs' nd'" using assms by (auto simp: dir_ok_def blocks_ok_def loaded_def)
  have bl: "?bl = take i ?bl @ ?x # drop (Suc i) ?bl" using assms(2) by (simp add: id_take_nth_drop)
  moreover have "distinct ?bl" using assms(1) by (simp add: dir_ok_def)
  ultimately have x: "?x \<notin> set (take i ?bl)" "?x \<notin> set (drop (Suc i) ?bl)"
    by (metis distinct.simps(2) distinct_append not_distinct_conv_prefix, metis bl distinct.simps(2) distinct_append)
  have other: "dir_entries fs' ys = dir_entries fs ys" if "?x \<notin> set ys" for ys
    using that assms(5,6) by (induction ys) (auto simp: dir_entries_def)
  have split: "dir_entries f (take i ?bl @ ?x # drop (Suc i) ?bl) =
      dir_entries f (take i ?bl) @ dirents (m_BlockSize f) (blocks f ?x) 0 @ dir_entries f (drop (Suc i) ?bl)" for f
    by (simp add: dir_entries_def)
  show "dir_entries fs' ?bl = dir_entries fs (take i ?bl) @ dirents (m_BlockSize fs) buf 0 @ dir_entries fs (drop (Suc i) ?bl)"
    by (subst bl, subst split) (simp add: other [OF x(1)] other [OF x(2)] assms(5,6))
  show "dir_entries fs ?bl = dir_entries fs (take i ?bl) @ dirents (m_BlockSize fs) (blocks fs ?x) 0 @ dir_entries fs (drop (Suc i) ?bl)"
    by (subst bl, subst split) (rule refl)
qed

section \<open>Adding and removing\<close>

lemma inode_ok_inodes [simp]: "inode_ok k (fs\<lparr>inodes := f\<rparr>) = inode_ok k fs" "inode_ok k (fs\<lparr>blocks := g\<rparr>) = inode_ok k fs"
  by (simp_all add: inode_ok_def group_at_def)

lemma getInode_same: "getInode k (fs\<lparr>blocks := g\<rparr>) = getInode k fs"
  by (simp add: getInode_def inode_ok_def group_at_def)

lemma getInode_SomeD: "getInode k fs \<noteq> None \<Longrightarrow> inode_ok k fs \<and> getInode k fs = Some (inodes fs k)"
  by (simp add: getInode_def split: if_splits)

definition same_volume :: "ext2_fs \<Rightarrow> ext2_fs \<Rightarrow> bool" where
  "same_volume fs fs' \<longleftrightarrow> m_pSuperblock fs' = m_pSuperblock fs \<and> m_pGroupDescriptors fs' = m_pGroupDescriptors fs \<and>
     m_BlockSize fs' = m_BlockSize fs \<and> m_InodeSize fs' = m_InodeSize fs"

lemma same_volume_inodes: "same_volume fs fs' \<Longrightarrow> getInode k fs' = None \<longleftrightarrow> getInode k fs = None"
  by (simp add: same_volume_def getInode_def inode_ok_def group_at_def)

lemma same_volume_there: "same_volume fs fs' \<Longrightarrow> inodes_there fs' = inodes_there fs"
  by (rule ext) (simp add: inodes_there_def same_volume_inodes)

lemma same_volume_feature: "same_volume fs fs' \<Longrightarrow> checkRequiredFeature fs' k = checkRequiredFeature fs k"
  by (simp add: same_volume_def checkRequiredFeature_def)

lemma addEntry_ok:
  assumes "dir_ok fs (d_node dir)" "find_room_from (m_nBlocks (d_node dir)) 0 (8 + length name) (d_node dir) fs = Some (Some (i, s), nd)"
    and "length name < 256" "0 \<notin> set name" "inode \<noteq> 0" "getInode inode fs \<noteq> None"
  shows "\<exists>fs'. ext2_addEntry name inode type dir fs = Some (True, dir\<lparr>m_Cache := m_Cache dir @ [(name, inode)]\<rparr>, fs') \<and>
    dir_ok fs' (d_node dir) \<and> same_volume fs fs' \<and> (\<forall>b. b \<notin> set (m_pBlocks (d_node dir)) \<longrightarrow> blocks fs' b = blocks fs b) \<and>
    inodes fs' = (inodes fs)(inode := inodes fs inode\<lparr>i_links_count := i_links_count (inodes fs inode) + 1\<rparr>) \<and>
    (\<exists>xs ys. dir_entries fs (m_pBlocks (d_node dir)) = xs @ ys \<and>
       dir_entries fs' (m_pBlocks (d_node dir)) = xs @ (name, inode, unat (dirent_type fs type)) # ys)"
proof -
  let ?nd = "d_node dir" and ?k = "dirent_type fs type"
  from find_room_from_ok [OF assms(1) _ assms(2)] have nd: "nd = ?nd" and i: "i < m_nBlocks ?nd"
    and r: "find_room (m_BlockSize fs) (8 + length name) (blocks fs (m_pBlocks ?nd ! i)) 0 = Some (Some s)" by simp_all
  let ?x = "m_pBlocks ?nd ! i"
  note blk = dir_ok_block [OF assms(1) i]
  obtain p b where slot: "take_slot s (blocks fs ?x) = (p, b)" by fastforce
  define buf where "buf = fill_entry p inode ?k name b"
  from find_room_chain [OF blk(3) blk(5) [symmetric] r slot assms(3-5), of ?k] obtain xs ys where
    c: "p + 8 + length name \<le> m_BlockSize fs" "chain (m_BlockSize fs) buf 0" "agree_until 0 (blocks fs ?x) buf"
    "dirents (m_BlockSize fs) (blocks fs ?x) 0 = xs @ ys" "dirents (m_BlockSize fs) buf 0 = xs @ (name, inode, unat ?k) # ys"
    unfolding buf_def by blast
  define fs' where "fs' = fs\<lparr>inodes := (inodes fs)(inode := inodes fs inode\<lparr>i_links_count := i_links_count (inodes fs inode) + 1\<rparr>),
    blocks := (blocks fs)(?x := buf)\<rparr>"
  have g: "inode_ok inode fs" "\<And>g. getInode inode (fs\<lparr>blocks := g\<rparr>) = Some (inodes fs inode)"
    using getInode_SomeD [OF assms(6)] by (simp_all add: getInode_same)
  have k: "dirent_type (fs\<lparr>blocks := h, inodes := g\<rparr>) type = ?k" for h g by (simp add: dirent_type_def checkRequiredFeature_def)
  have run: "ext2_addEntry name inode type dir fs = Some (True, dir\<lparr>m_Cache := m_Cache dir @ [(name, inode)]\<rparr>, fs')"
    using blk(2,4) slot c(1) g nd k assms(2)
    by (simp add: ext2_addEntry_def Let_def increaseInodeRefcount_def writeInode_def modify_block_def modify_inode_def fs'_def buf_def)
  have l: "length buf = m_BlockSize fs" using c(3) blk(5) by (simp add: agree_until_def)
  note ch = dir_block_change [OF assms(1) i l c(2), of fs' ?nd]
  have f: "blocks fs' = (blocks fs)(?x := buf)" "m_BlockSize fs' = m_BlockSize fs" "disk_blocks fs' = disk_blocks fs"
    "g_pSparseBlock fs' = g_pSparseBlock fs" "m_pBlocks ?nd = m_pBlocks ?nd" by (simp_all add: fs'_def)
  have "\<exists>xs ys. dir_entries fs (m_pBlocks ?nd) = xs @ ys \<and> dir_entries fs' (m_pBlocks ?nd) = xs @ (name, inode, unat ?k) # ys"
    using ch(2) [OF f] ch(3) [OF f] c(4,5)
    by (intro exI [of _ "dir_entries fs (take i (m_pBlocks ?nd)) @ xs"] exI [of _ "ys @ dir_entries fs (drop (Suc i) (m_pBlocks ?nd))"]) simp
  moreover have "\<forall>b. b \<notin> set (m_pBlocks ?nd) \<longrightarrow> blocks fs' b = blocks fs b" using nth_mem [OF i] by (auto simp: f(1))
  moreover have "inodes fs' = (inodes fs)(inode := inodes fs inode\<lparr>i_links_count := i_links_count (inodes fs inode) + 1\<rparr>)" by (simp add: fs'_def)
  moreover have "same_volume fs fs'" by (simp add: same_volume_def fs'_def)
  ultimately show ?thesis using run ch(1) [OF f] by blast
qed

lemma release_linked:
  assumes "getInode k fs \<noteq> None" "1 < i_links_count (inodes fs k)" "inode_ok (k - 1) fs"
  shows "releaseInode now k fs =
    Some (False, modify_inode k (\<lambda>i. i\<lparr>i_links_count := i_links_count i - 1\<rparr>) fs)"
proof -
  have "\<not> i_links_count (inodes fs k) \<le> 1" "i_links_count (inodes fs k) \<noteq> 0" using assms(2) by auto
  then show ?thesis
    using getInode_SomeD [OF assms(1)] assms(3)
    by (simp add: releaseInode_def decreaseInodeRefcount_def writeInode_def modify_inode_def Let_def)
qed

lemma removeEntry_ok:
  assumes "dir_ok fs (d_node dir)"
    "find_entry_from (m_nBlocks (d_node dir)) 0 (m_InodeNumber file) name (d_node dir) fs = Some (Some (i, p), nd)"
    and "m_InodeNumber file \<noteq> 0" "getInode (m_InodeNumber file) fs \<noteq> None" "1 < i_links_count (inodes fs (m_InodeNumber file))"
    and "inode_ok (m_InodeNumber file - 1) fs"
  shows "\<exists>fs'. ext2_removeEntry now name file dir fs = Some (True, file, dir, fs') \<and>
    dir_ok fs' (d_node dir) \<and> same_volume fs fs' \<and> (\<forall>b. b \<notin> set (m_pBlocks (d_node dir)) \<longrightarrow> blocks fs' b = blocks fs b) \<and>
    inodes fs' = (inodes fs)(m_InodeNumber file := inodes fs (m_InodeNumber file)\<lparr>i_links_count := i_links_count (inodes fs (m_InodeNumber file)) - 1\<rparr>) \<and>
    (\<exists>xs k ys. dir_entries fs (m_pBlocks (d_node dir)) = xs @ (takeWhile (\<lambda>c. c \<noteq> 0) name, m_InodeNumber file, k) # ys \<and>
       dir_entries fs' (m_pBlocks (d_node dir)) = xs @ ys)"
proof -
  let ?nd = "d_node dir" and ?ino = "m_InodeNumber file"
  from find_entry_from_ok [OF assms(1) _ assms(2)] have nd: "nd = ?nd" and i: "i < m_nBlocks ?nd"
    and r: "find_entry (m_BlockSize fs) ?ino name (blocks fs (m_pBlocks ?nd ! i)) 0 = Some (Some p)" by simp_all
  let ?x = "m_pBlocks ?nd ! i"
  note blk = dir_ok_block [OF assms(1) i]
  define buf where "buf = clear_entry p (blocks fs ?x)"
  from find_entry_chain [OF blk(3) blk(5) [symmetric] r assms(3)] obtain xs k ys where
    c: "p + unat (d_reclen p (blocks fs ?x)) \<le> m_BlockSize fs" "chain (m_BlockSize fs) buf 0" "agree_until 0 (blocks fs ?x) buf"
    "dirents (m_BlockSize fs) (blocks fs ?x) 0 = xs @ (takeWhile (\<lambda>c. c \<noteq> 0) name, ?ino, k) # ys" "dirents (m_BlockSize fs) buf 0 = xs @ ys"
    unfolding buf_def by blast
  define fs1 where "fs1 = fs\<lparr>blocks := (blocks fs)(?x := buf)\<rparr>"
  define fs' where "fs' = modify_inode ?ino (\<lambda>i. i\<lparr>i_links_count := i_links_count i - 1\<rparr>) fs1"
  have "releaseInode now ?ino fs1 = Some (False, fs')"
    unfolding fs'_def by (rule release_linked) (use assms(4-6) in \<open>simp_all add: fs1_def getInode_same\<close>)
  then have run: "ext2_removeEntry now name file dir fs = Some (True, file, dir, fs')"
    using blk(2,4) c(1) nd assms(2)
    by (simp add: ext2_removeEntry_def Let_def modify_block_def fs1_def buf_def)
  have l: "length buf = m_BlockSize fs" using c(3) blk(5) by (simp add: agree_until_def)
  note ch = dir_block_change [OF assms(1) i l c(2), of fs' ?nd]
  have f: "blocks fs' = (blocks fs)(?x := buf)" "m_BlockSize fs' = m_BlockSize fs" "disk_blocks fs' = disk_blocks fs"
    "g_pSparseBlock fs' = g_pSparseBlock fs" "m_pBlocks ?nd = m_pBlocks ?nd" by (simp_all add: fs'_def fs1_def modify_inode_def)
  have "\<exists>xs k ys. dir_entries fs (m_pBlocks ?nd) = xs @ (takeWhile (\<lambda>c. c \<noteq> 0) name, ?ino, k) # ys \<and> dir_entries fs' (m_pBlocks ?nd) = xs @ ys"
    using ch(2) [OF f] ch(3) [OF f] c(4,5)
    by (intro exI [of _ "dir_entries fs (take i (m_pBlocks ?nd)) @ xs"] exI [of _ k] exI [of _ "ys @ dir_entries fs (drop (Suc i) (m_pBlocks ?nd))"]) simp
  moreover have "\<forall>b. b \<notin> set (m_pBlocks ?nd) \<longrightarrow> blocks fs' b = blocks fs b" using nth_mem [OF i] by (auto simp: f(1))
  moreover have "inodes fs' = (inodes fs)(?ino := inodes fs ?ino\<lparr>i_links_count := i_links_count (inodes fs ?ino) - 1\<rparr>)"
    by (simp add: fs'_def fs1_def modify_inode_def)
  moreover have "same_volume fs fs'" by (simp add: same_volume_def fs'_def fs1_def modify_inode_def)
  ultimately show ?thesis using run ch(1) [OF f] by blast
qed

text \<open>The listing of a directory whose blocks are in order.\<close>

lemma cache_ok:
  assumes "dir_ok fs (d_node dir)" "checkRequiredFeature fs 2" "inodes_there fs (dir_entries fs (m_pBlocks (d_node dir)))"
  shows "\<exists>dir'. ext2_cacheDirectoryContents dir fs = Some (dir_entries fs (m_pBlocks (d_node dir)), dir')"
  using list_blocks_ok [OF assms(1,2), of 0 "m_nBlocks (d_node dir)"] assms(3) by (simp add: ext2_cacheDirectoryContents_def)

end
