(* ===== verification/Ext2_Properties.thy ===== *)
theory Ext2_Properties
  imports Ext2_Dirents
begin

unbundle bit_operations_syntax

text \<open>The properties of the ext2 filesystem: the bitmaps, the files and the directories.\<close>

section \<open>A small volume\<close>

text \<open>Forty blocks of 1024 bytes in one group of 64; the bitmap is in block 3, the first sixteen blocks are in use.  The inode 12 is
  a file in the blocks 10 and 11, the inode 13 one with a hole, the inode 14 a directory with one entry.\<close>

definition sample_bitmap :: "u8 list" where
  "sample_bitmap = [0xFF, 0xFF, 0, 0, 0, 0xFF, 0xFF, 0xFF] @ replicate 1016 0"

definition sample_dir_block :: "u8 list" where
  "sample_dir_block = [12, 0, 0, 0, 0, 4, 1, 1, 97] @ replicate 1015 0"

definition sample_inode :: "u32 \<Rightarrow> Inode" where
  "sample_inode k =
     \<lparr>i_mode = 0x81A4, i_uid = 0, i_size = 2000, i_atime = 0, i_ctime = 0, i_mtime = 0, i_dtime = 0, i_gid = 0, i_links_count = 2,
      i_blocks = 4, i_flags = 0, i_block = (if k = 12 then [10, 11] else if k = 13 then [12, 0] else [14, 15]) @ replicate 13 0\<rparr>"

definition sample_super :: Superblock where
  "sample_super =
     \<lparr>s_inodes_count = 64, s_free_blocks_count = 24, s_free_inodes_count = 32, s_first_data_block = 1, s_log_block_size = 0,
      s_blocks_per_group = 64, s_inodes_per_group = 64, s_magic = 0xEF53, s_rev_level = 1, s_inode_size = 128, s_feature_compat = 0,
      s_feature_incompat = 2, s_feature_ro_compat = 0, s_volume_name = replicate 16 0, s_algo_bitmap = 0\<rparr>"

definition sample_ext2 :: "u16 \<Rightarrow> ext2_fs" where
  "sample_ext2 free =
     \<lparr>m_pSuperblock = sample_super,
      m_pGroupDescriptors = [Some \<lparr>bg_block_bitmap = 3, bg_inode_bitmap = 4, bg_inode_table = 5, bg_free_blocks_count = free,
        bg_free_inodes_count = 32\<rparr>],
      m_BlockSize = 1024, m_InodeSize = 128, inodes = sample_inode,
      blocks = (\<lambda>b. if b = 3 then sample_bitmap else if b = 14 then sample_dir_block else replicate 1024 0),
      disk_blocks = 40, g_pSparseBlock = replicate 4096 0\<rparr>"

definition sample_node :: "u32 \<Rightarrow> u32 list \<Rightarrow> ext2_node" where
  "sample_node k bl = \<lparr>m_InodeNumber = k, m_pBlocks = bl, m_nSize = 2000\<rparr>"

lemma sample_length: "length sample_bitmap = 1024" "length sample_dir_block = 1024" "length (blocks (sample_ext2 n) b) = 1024"
  by (simp_all add: sample_bitmap_def sample_dir_block_def sample_ext2_def)

lemma sample_simps:
  "m_BlockSize (sample_ext2 n) = 1024" "disk_blocks (sample_ext2 n) = 40" "group_count (sample_ext2 n) = 1"
  "m_pSuperblock (sample_ext2 n) = sample_super" "inodes (sample_ext2 n) = sample_inode" "m_InodeSize (sample_ext2 n) = 128"
  "g_pSparseBlock (sample_ext2 n) = replicate 4096 0" "bitmap_of (sample_ext2 n) 0 = 3" "per_group (sample_ext2 n) = 64"
  "desc_of (sample_ext2 n) 0 = \<lparr>bg_block_bitmap = 3, bg_inode_bitmap = 4, bg_inode_table = 5, bg_free_blocks_count = n,
        bg_free_inodes_count = 32\<rparr>"
  "m_pGroupDescriptors (sample_ext2 n) ! 0 \<noteq> None" "s_inodes_per_group sample_super = 64" "s_first_data_block sample_super = 1"
  "s_blocks_per_group sample_super = 64"
  by (simp_all add: sample_ext2_def sample_super_def bitmap_of_def desc_of_def)

lemma sample_bitmaps: "bitmaps_ok (sample_ext2 n)"
  unfolding bitmaps_ok_def using sample_length(3) [of n] by (simp add: sample_simps)

lemma sample_used: "c < 64 \<Longrightarrow> block_used (sample_ext2 n) c \<longleftrightarrow> c < 16 \<or> 40 \<le> c"
proof -
  have "list_all (\<lambda>c. bit (sample_bitmap ! (c div 8)) (c mod 8) \<longleftrightarrow> c < 16 \<or> 40 \<le> c) [0..<64]"
    by code_simp
  then have "\<forall>c < 64. bit (sample_bitmap ! (c div 8)) (c mod 8) \<longleftrightarrow> c < 16 \<or> 40 \<le> c"
    by (simp add: list_all_iff atLeast0LessThan del: upt_conv_Cons)
  moreover have "blocks (sample_ext2 n) 3 = sample_bitmap" by (simp add: sample_ext2_def)
  ultimately show "c < 64 \<Longrightarrow> ?thesis" by (simp add: block_used_def bit_of_def sample_simps)
qed

lemma sample_blocks_ok: "blocks_ok (sample_ext2 n)"
  by (simp add: blocks_ok_def sample_length sample_simps)

lemma sample_loaded: "loaded (sample_ext2 n) (sample_node k [10, 11])" "loaded (sample_ext2 n) (sample_node k [12, 0])"
  "loaded (sample_ext2 n) (sample_node k [14, 15])"
  by (simp_all add: loaded_def sample_node_def sample_simps)

lemma sample_inode_ok: "inode_ok 11 (sample_ext2 n)" "inode_ok 12 (sample_ext2 n)" "inode_ok 13 (sample_ext2 n)"
  by (simp_all add: inode_ok_def group_at_def sample_simps)

section \<open>The bitmaps\<close>

abbreviation inode_group :: "ext2_fs \<Rightarrow> u32 \<Rightarrow> nat" where
  "inode_group fs inode \<equiv> unat ((inode - 1) div s_inodes_per_group (m_pSuperblock fs))"

lemma find_is_scan: "bitmaps_ok fs \<Longrightarrow> findFreeBlock inode fs = free_block_from (inode_group fs inode) fs"
  by (simp add: findFreeBlock_def bitmaps_ok_def)

text \<open>Looking for a free block either finds every group from that of the inode on full (or said to be full), or it
  takes the first block of a group that is not in use; then that block, and no other, is in use in addition.\<close>

theorem findFreeBlock_correct:
  assumes "bitmaps_ok fs"
  shows "(findFreeBlock inode fs = Some (0, fs) \<and>
      (\<forall>h. inode_group fs inode \<le> h \<and> h < group_count fs \<longrightarrow>
         bg_free_blocks_count (desc_of fs h) = 0 \<or> (\<forall>k < per_group fs. block_used fs (h * per_group fs + k)))) \<or>
    (\<exists>b fs'. findFreeBlock inode fs = Some (of_nat b, fs') \<and> b < group_count fs * per_group fs \<and> inode_group fs inode \<le> b div per_group fs \<and>
       \<not> block_used fs b \<and> (\<forall>k < b mod per_group fs. block_used fs (b div per_group fs * per_group fs + k)) \<and>
       bitmaps_ok fs' \<and> (\<forall>c < group_count fs * per_group fs. block_used fs' c \<longleftrightarrow> c = b \<or> block_used fs c) \<and>
       (\<forall>c. c \<notin> bitmap_blocks fs \<longrightarrow> blocks fs' c = blocks fs c))"
proof -
  from free_block_from_ok [OF assms, of "inode_group fs inode", folded find_is_scan [OF assms]] show ?thesis
  proof (elim disjE exE conjE)
    fix b assume "findFreeBlock inode fs = Some (of_nat b, take_block b fs)" and b: "b < group_count fs * per_group fs"
      and "inode_group fs inode \<le> b div per_group fs" "\<not> block_used fs b" "\<forall>k < b mod per_group fs. block_used fs (b div per_group fs * per_group fs + k)"
    then show ?thesis
      using take_block_ok [OF assms] take_block_used [OF assms b] take_block_other [OF b]
      by (intro disjI2 exI [of _ b] exI [of _ "take_block b fs"]) simp
  qed simp
qed

lemma sample_free: "\<not> (\<forall>k < 64. block_used (sample_ext2 24) k)"
proof
  assume "\<forall>k < 64. block_used (sample_ext2 24) k"
  from this [rule_format, of 16] show False using sample_used [of 16 24] by simp
qed

lemma sample_find: "findFreeBlock 12 (sample_ext2 24) = Some (16, take_block 16 (sample_ext2 24))"
proof -
  let ?fs = "sample_ext2 24"
  have f: "findFreeBlock 12 ?fs = free_block_from 0 ?fs" by (simp add: find_is_scan [OF sample_bitmaps] sample_simps)
  from free_block_from_ok [OF sample_bitmaps, of 0 24] sample_free obtain b where b: "free_block_from 0 ?fs = Some (of_nat b, take_block b ?fs)" "b < 64"
    "\<not> block_used ?fs b" "\<forall>k < b. block_used ?fs k" by (auto simp: sample_simps)
  then have "\<not> 16 < b" using sample_used [of 16 24] by auto
  moreover have "16 \<le> b" using b(2,3) sample_used [of b 24] by simp
  ultimately have "b = 16" by simp
  with b(1) f show ?thesis by simp
qed

theorem findFreeBlock_correct_witness:
  "\<exists>b fs'. findFreeBlock 12 (sample_ext2 24) = Some (of_nat b, fs') \<and> \<not> block_used (sample_ext2 24) b \<and> block_used fs' b"
  using sample_free findFreeBlock_correct [OF sample_bitmaps [of 24], of 12] by (auto simp: sample_simps)

text \<open>Giving back the block that was found puts everything back as it was.\<close>

theorem release_undoes_find:
  assumes "bitmaps_ok fs" "findFreeBlock inode fs = Some (b, fs')" "b \<noteq> 0"
  shows "releaseBlock b fs' = Some fs"
proof -
  obtain c where "b = of_nat c" "fs' = take_block c fs" "c < group_count fs * per_group fs" "\<not> block_used fs c"
    using free_block_from_ok [OF assms(1), of "inode_group fs inode"] assms(2,3) find_is_scan [OF assms(1), of inode] by auto
  then show ?thesis using release_take [OF assms(1)] by simp
qed

theorem release_undoes_find_witness:
  "releaseBlock 16 (take_block 16 (sample_ext2 24)) = Some (sample_ext2 24)"
  by (rule release_undoes_find [OF sample_bitmaps sample_find]) simp

definition standard_used :: "ext2_fs \<Rightarrow> nat \<Rightarrow> bool" where
  "standard_used fs n = block_used fs (n - unat (s_first_data_block (m_pSuperblock fs)))"

text \<open>C27: On a volume whose first block is number 1, as with blocks of 1024 bytes, the bits of the bitmap stand for the blocks
  from 1 on.  The search counts them from 0 on, so a block that it returns is in use, unless it is the first of a group (or 0, when none is free).\<close>

theorem findFreeBlock_1k:
  assumes "bitmaps_ok fs" "s_first_data_block (m_pSuperblock fs) = 1"
    and "findFreeBlock inode fs = Some (b, fs')" "unat b mod per_group fs \<noteq> 0"
  shows "standard_used fs (unat b)"
proof -
  let ?P = "per_group fs"
  have "b \<noteq> 0" using assms(4) by auto
  then obtain c where c: "b = of_nat c" "c < group_count fs * ?P" "\<forall>k < c mod ?P. block_used fs (c div ?P * ?P + k)"
    using free_block_from_ok [OF assms(1), of "inode_group fs inode"] assms(3) find_is_scan [OF assms(1), of inode] by auto
  have "group_count fs * ?P \<le> 2 ^ 32" using assms(1) by (simp add: bitmaps_ok_def)
  then have u: "unat b = c" using c(1,2) unat_of_small [of c] by simp
  then have "0 < c mod ?P" using assms(4) by simp
  have "block_used fs (c div ?P * ?P + (c mod ?P - 1))"
    using \<open>0 < c mod ?P\<close> by (intro c(3) [rule_format]) simp
  moreover have "c div ?P * ?P + (c mod ?P - 1) = c - 1" using \<open>0 < c mod ?P\<close> by (metis Nat.add_diff_assoc Suc_leI One_nat_def div_mult_mod_eq)
  ultimately show ?thesis using u assms(2) by (simp add: standard_used_def)
qed

theorem findFreeBlock_1k_witness:
  "findFreeBlock 12 (sample_ext2 24) = Some (16, take_block 16 (sample_ext2 24)) \<and> standard_used (sample_ext2 24) 16"
  using sample_find findFreeBlock_1k [OF sample_bitmaps _ sample_find] by (simp add: sample_simps)

section \<open>Files\<close>

text \<open>C32: What is written inside of the blocks of a file is read back, the rest of the file is as before, and no other
  block changes.\<close>

theorem ext2_write_read:
  assumes "blocks_ok fs" "loaded fs nd" "distinct (m_pBlocks nd)" "0 \<notin> set (m_pBlocks nd)" "inode_ok (m_InodeNumber nd) fs"
    and "location + length bs \<le> m_nBlocks nd * m_BlockSize fs" "m_nSize nd \<le> m_nBlocks nd * m_BlockSize fs" "bs \<noteq> []"
    and "i_blocks (m_pInode fs nd) \<noteq> 0" "512 \<le> m_nBlocks nd * m_BlockSize fs"
  shows "\<exists>nd' fs'. doWrite location bs nd fs = Some (length bs, nd', fs') \<and> doRead location (length bs) nd' fs' = Some ((0, bs), nd') \<and>
    m_pBlocks nd' = m_pBlocks nd \<and> file_data fs' (m_pBlocks nd) = splice location bs (file_data fs (m_pBlocks nd)) \<and>
    (\<forall>b. b \<notin> set (m_pBlocks nd) \<longrightarrow> blocks fs' b = blocks fs b)"
proof -
  let ?sz = "location + length bs" and ?D = "file_data fs (m_pBlocks nd)"
  let ?nd = "resized ?sz nd" and ?fs = "resized_fs ?sz nd fs"
  obtain bl where w: "doWrite location bs nd fs = Some (length bs, ?nd, ?fs\<lparr>blocks := bl\<rparr>)" "blocks_ok (fs\<lparr>blocks := bl\<rparr>)"
    "\<forall>b. b \<notin> set (m_pBlocks nd) \<longrightarrow> bl b = blocks fs b" "file_data (fs\<lparr>blocks := bl\<rparr>) (m_pBlocks nd) = splice location bs ?D"
    using doWrite_ok [OF assms(1-6)] by blast
  let ?fs' = "?fs\<lparr>blocks := bl\<rparr>"
  have D: "file_data ?fs' (m_pBlocks nd) = splice location bs ?D"
    using w(4) by (simp add: file_data_def content_cong [of ?fs' "fs\<lparr>blocks := bl\<rparr>"])
  have ok: "blocks_ok ?fs'" using w(2) by (simp add: blocks_ok_def)
  have ld: "loaded ?fs' ?nd" using assms(2) by (simp add: loaded_def)
  have lt: "m_nBlocks nd * m_BlockSize fs < 2 ^ 32" using assms(2) by (simp add: loaded_def)
  have ib: "i_blocks (m_pInode ?fs' ?nd) \<noteq> 0" using resized_i_blocks [OF assms(9,10) lt, of ?sz] by (simp add: m_pInode_def)
  have sz: "m_nSize ?nd \<le> m_nBlocks ?nd * m_BlockSize ?fs'" using assms(6,7) by simp
  have len: "location + length bs \<le> length ?D" using assms(6) length_ext2_data [OF assms(1)] by simp
  have "take (length bs) (drop location (take (m_nSize ?nd) (splice location bs ?D))) = take (length bs) (drop location (splice location bs ?D))"
    by (simp add: drop_take min_def)
  then have "doRead location (length bs) ?nd ?fs' = Some ((0, bs), ?nd)"
    using doRead_ok [OF ok ld sz ib, of location "length bs"] D take_splice [OF len] by simp
  then show ?thesis using w(1,3) D by (intro exI [of _ ?nd] exI [of _ ?fs']) simp
qed

theorem ext2_write_read_witness:
  "\<exists>nd' fs'. doWrite 1020 (replicate 6 7) (sample_node 12 [10, 11]) (sample_ext2 24) = Some (6, nd', fs') \<and>
    doRead 1020 6 nd' fs' = Some ((0, replicate 6 7), nd')"
  using ext2_write_read [OF sample_blocks_ok [of 24] sample_loaded(1) [of 24 12], of 1020 "replicate 6 7"] sample_inode_ok(2) [of 24]
  by (auto simp: sample_node_def sample_simps sample_inode_def m_pInode_def)

text \<open>C17: A write into a hole of one file changes what every other file has in its holes.\<close>

theorem hole_write_shared:
  assumes "blocks_ok fs" "loaded fs nd" "location div m_BlockSize fs < m_nBlocks nd" "m_pBlocks nd ! (location div m_BlockSize fs) = 0"
    and "bs \<noteq> []" "location mod m_BlockSize fs + length bs \<le> m_BlockSize fs" "location + length bs \<le> m_nSize nd"
    and "loaded fs nd2" "j < m_nBlocks nd2" "m_pBlocks nd2 ! j = 0" "i_blocks (m_pInode fs nd2) \<noteq> 0"
    and "j * m_BlockSize fs + location mod m_BlockSize fs + length bs \<le> m_nSize nd2" "m_nSize nd2 \<le> m_nBlocks nd2 * m_BlockSize fs"
  shows "\<exists>fs'. doWrite location bs nd fs = Some (length bs, nd, fs') \<and>
    doRead (j * m_BlockSize fs + location mod m_BlockSize fs) (length bs) nd2 fs' = Some ((0, bs), nd2)"
proof -
  let ?r = "location mod m_BlockSize fs"
  let ?fs = "fs\<lparr>g_pSparseBlock := splice ?r bs (g_pSparseBlock fs)\<rparr>"
  have r: "?r + length bs \<le> length (g_pSparseBlock fs)" using assms(1,6) by (simp add: blocks_ok_def)
  have "blocks_ok ?fs" using assms(1) r by (simp add: blocks_ok_def length_splice)
  moreover have "loaded ?fs nd2" using assms(8) by (simp add: loaded_def)
  ultimately have "doRead (j * m_BlockSize fs + ?r) (length bs) nd2 ?fs = Some ((0, bs), nd2)"
    using read_hole [of ?fs nd2 j ?r "length bs"] assms(6,9-13) take_splice [OF r] by (simp add: m_pInode_def)
  then show ?thesis using write_hole [OF assms(1-7)] by blast
qed

theorem hole_write_shared_witness:
  "\<exists>fs'. doWrite 1024 (replicate 3 9) (sample_node 13 [12, 0]) (sample_ext2 24) = Some (3, sample_node 13 [12, 0], fs') \<and>
    doRead 0 3 (sample_node 14 [0, 15]) fs' = Some ((0, replicate 3 9), sample_node 14 [0, 15])"
proof -
  have "loaded (sample_ext2 24) (sample_node 14 [0, 15])" by (simp add: loaded_def sample_node_def sample_simps)
  from hole_write_shared [OF sample_blocks_ok sample_loaded(2) [where k = 13] _ _ _ _ _ this, of 1024 "replicate 3 9" 0] show ?thesis
    by (simp add: sample_node_def sample_simps sample_inode_def m_pInode_def)
qed

text \<open>On a full volume a write beyond the blocks of a file writes nothing, but the size of the file grows all the same, and reading
  where there is no block then ends in a panic.\<close>

theorem full_write_grows:
  assumes "loaded fs nd" "inode_ok (m_InodeNumber nd) fs" "0 < m_BlockSize fs"
    and "\<forall>h < length (m_pGroupDescriptors fs). \<exists>d. m_pGroupDescriptors fs ! h = Some d \<and> bg_free_blocks_count d = 0"
    and "m_nSize nd \<le> m_nBlocks nd * m_BlockSize fs" "m_nBlocks nd * m_BlockSize fs < location + length bs"
    and "512 \<le> m_nBlocks nd * m_BlockSize fs"
  shows "\<exists>nd' fs'. doWrite location bs nd fs = Some (0, nd', fs') \<and> m_nSize nd' = location + length bs \<and> m_pBlocks nd' = m_pBlocks nd \<and>
    blocks fs' = blocks fs \<and> doRead (m_nBlocks nd * m_BlockSize fs) 1 nd' fs' = None"
proof -
  let ?sz = "location + length bs"
  let ?nd = "resized ?sz nd" and ?fs = "resized_fs ?sz nd fs"
  have lt: "m_nBlocks nd * m_BlockSize fs < 2 ^ 32" using assms(1) by (simp add: loaded_def)
  have sup: "m_pSuperblock ?fs = m_pSuperblock fs" "m_pGroupDescriptors ?fs = m_pGroupDescriptors fs" by (simp_all add: resized_fs_def)
  have "free_block_from g ?fs = Some (0, ?fs)" for g by (rule no_free_block) (use assms(4) sup in simp)
  then have "findFreeBlock (m_InodeNumber nd) ?fs = Some (0, ?fs)"
    using assms(2,3) sup by (simp add: findFreeBlock_def inode_ok_def)
  then have g: "grow ?sz ?nd ?fs = Some (False, ?nd, ?fs)"
    using assms(6) unat_of_small [OF lt] by (subst grow.simps) (simp del: of_nat_mult)
  have w: "doWrite location bs nd fs = Some (0, ?nd, ?fs)"
    unfolding doWrite_def ensureLargeEnough_def set_size [OF assms(2)] using g by simp
  have z: "m_nSize nd < ?sz" using assms(5,6) by simp
  have "i_blocks (m_pInode ?fs ?nd) \<noteq> 0"
  proof -
    have "i_blocks (m_pInode ?fs nd) = of_nat (m_nBlocks nd * m_BlockSize fs) div 512" using z by (simp add: resized_fs_def m_pInode_def)
    moreover have "unat (of_nat (m_nBlocks nd * m_BlockSize fs) div 512 :: u32) = m_nBlocks nd * m_BlockSize fs div 512"
      using unat_of_small [OF lt] by (simp add: unat_div_distrib del: of_nat_mult)
    moreover have "0 < m_nBlocks nd * m_BlockSize fs div 512" using assms(7) by (simp add: div_greater_zero_iff)
    ultimately show ?thesis by (metis less_irrefl resized_simps(4) unsigned_0)
  qed
  moreover have "ensureBlockLoaded (m_nBlocks nd) ?nd ?fs = None" by (simp add: ensureBlockLoaded_def)
  ultimately have "doRead (m_nBlocks nd * m_BlockSize fs) 1 ?nd ?fs = None"
    using assms(3,6) z by (simp add: doRead_def Let_def) (simp add: read_blocks.simps)
  then show ?thesis using w z by (intro exI [of _ ?nd] exI [of _ ?fs]) simp
qed

theorem full_write_grows_witness:
  "\<exists>nd' fs'. doWrite 2040 (replicate 100 1) (sample_node 12 [10, 11]) (sample_ext2 0) = Some (0, nd', fs') \<and> m_nSize nd' = 2140 \<and>
    doRead 2048 1 nd' fs' = None"
proof -
  let ?fs = "sample_ext2 0"
  have f: "\<forall>h < length (m_pGroupDescriptors ?fs). \<exists>d. m_pGroupDescriptors ?fs ! h = Some d \<and> bg_free_blocks_count d = 0"
    by (simp add: sample_ext2_def)
  show ?thesis
    using full_write_grows [OF sample_loaded(1) [of 0 12] _ _ f, of 2040 "replicate 100 1"] sample_inode_ok(2) [of 0]
    by (auto simp: sample_node_def sample_simps)
qed




text \<open>Wiping a file frees the blocks of its list and no others, so the blocks of its tables stay in use; the file is empty.\<close>

theorem wipe_frees:
  assumes "bitmaps_ok fs" "loaded fs nd" "\<forall>b \<in> set (m_pBlocks nd). in_volume fs b" "inode_ok (m_InodeNumber nd) fs"
  shows "\<exists>nd' fs'. wipe nd fs = Some (nd', fs') \<and> m_pBlocks nd' = [] \<and> m_nSize nd' = 0 \<and> bitmaps_ok fs' \<and>
    i_blocks (m_pInode fs' nd) = 0 \<and> i_block (m_pInode fs' nd) = replicate 15 0 \<and>
    (\<forall>c < group_count fs * per_group fs. block_used fs' c \<longleftrightarrow> block_used fs c \<and> c \<notin> unat ` set (m_pBlocks nd))"
proof -
  let ?zero = "\<lambda>i. i\<lparr>i_size := 0, i_blocks := 0, i_block := replicate 15 0\<rparr>"
  obtain f where f: "release_blocks (m_nBlocks nd) 0 nd fs = Some (nd, f)" "bitmaps_ok f" "same_but_bitmaps fs f"
    "\<forall>c < group_count fs * per_group fs. block_used f c \<longleftrightarrow> block_used fs c \<and> c \<notin> unat ` set (m_pBlocks nd)"
    using release_blocks_ok [OF assms(1,2) _ assms(3), of 0 "m_nBlocks nd"] by auto
  let ?fs = "modify_node nd ?zero f"
  have n: "modify_node (nd\<lparr>m_nSize := 0, m_pBlocks := []\<rparr>) ?zero f = ?fs" by (simp add: modify_node_def)
  have "inode_ok (m_InodeNumber nd) f"
    using assms(1,4) f(2,3) by (auto simp: inode_ok_def same_but_bitmaps_def bitmaps_ok_def group_at_def)
  then have w: "wipe nd fs = Some (nd\<lparr>m_nSize := 0, m_pBlocks := []\<rparr>, ?fs)"
    using f(1) n by (simp add: wipe_def Let_def writeInode_def)
  have "bitmap_of ?fs = bitmap_of f" by (rule ext) (simp add: bitmap_of_def desc_of_def)
  then have "bitmaps_ok ?fs" "block_used ?fs = block_used f"
    using f(2) by (simp_all add: bitmaps_ok_def block_used_def fun_eq_iff)
  then show ?thesis using w f(4) by (intro exI [of _ "nd\<lparr>m_nSize := 0, m_pBlocks := []\<rparr>"] exI [of _ ?fs]) (simp add: m_pInode_def)
qed

theorem wipe_frees_witness:
  "\<exists>nd' fs'. wipe (sample_node 12 [10, 11]) (sample_ext2 24) = Some (nd', fs') \<and> \<not> block_used fs' 10 \<and> block_used fs' 12"
proof -
  from wipe_frees [OF sample_bitmaps [of 24] sample_loaded(1) [of 24 12]] sample_inode_ok(2) [of 24] obtain nd' fs' where
    w: "wipe (sample_node 12 [10, 11]) (sample_ext2 24) = Some (nd', fs')"
    "\<forall>c < 64. block_used fs' c \<longleftrightarrow> block_used (sample_ext2 24) c \<and> c \<notin> {10, 11}"
    by (auto simp: sample_node_def sample_simps in_volume_def)
  from w(2) [rule_format, of 10] w(2) [rule_format, of 12] sample_used [of 12 24] w(1) show ?thesis by simp
qed

section \<open>Directories\<close>


definition sample_dir :: ext2_dir where
  "sample_dir = \<lparr>d_node = sample_node 14 [14], m_AccessedTime = 0, m_ModifiedTime = 0, m_CreationTime = 0, m_Cache = []\<rparr>"

lemma sample_dir_fields:
  "d_inode 0 sample_dir_block = 12" "d_reclen 0 sample_dir_block = 1024" "d_namelen 0 sample_dir_block = 1" "d_file_type 0 sample_dir_block = 1"
  "d_name 1 0 sample_dir_block = [97]" "thisReclen 0 sample_dir_block = 12"
  by (simp_all add: d_inode_def d_reclen_def d_namelen_def d_file_type_def d_name_def thisReclen_def word_at_def le32_def le16_def sample_dir_block_def)

lemma sample_dir_chain: "chain 1024 sample_dir_block 0" "dirents 1024 sample_dir_block 0 = [([97], 12, 1)]"
proof -
  show "chain 1024 sample_dir_block 0" by (rule chain.chain_step) (simp_all add: sample_dir_fields chain.chain_end)
  have "dirents 1024 sample_dir_block 1024 = []" by (simp add: dirents.simps)
  then show "dirents 1024 sample_dir_block 0 = [([97], 12, 1)]"
    using dirents_step [of 0 1024 sample_dir_block] sample_dir_fields by (simp add: entry_at_def)
qed

lemma sample_dir_ok: "dir_ok (sample_ext2 n) (d_node sample_dir)" "checkRequiredFeature (sample_ext2 n) 2"
  "dir_entries (sample_ext2 n) (m_pBlocks (d_node sample_dir)) = [([97], 12, 1)]"
proof -
  have b: "blocks (sample_ext2 n) 14 = sample_dir_block" by (simp add: sample_ext2_def)
  show "dir_ok (sample_ext2 n) (d_node sample_dir)"
    using sample_blocks_ok [of n] b sample_dir_chain(1) by (simp add: dir_ok_def sample_dir_def sample_node_def loaded_def sample_simps)
  show "dir_entries (sample_ext2 n) (m_pBlocks (d_node sample_dir)) = [([97], 12, 1)]"
    using b sample_dir_chain(2) by (simp add: dir_entries_def sample_dir_def sample_node_def sample_simps)
  show "checkRequiredFeature (sample_ext2 n) 2" by (simp add: checkRequiredFeature_def sample_simps) (simp add: sample_super_def)
qed

lemma sample_getInode: "k \<in> {12, 13, 14} \<Longrightarrow> getInode k (sample_ext2 n) = Some (sample_inode k)"
  using bitmaps_group(2) [OF sample_bitmaps [of n], of 0] by (auto simp: getInode_def inode_ok_def group_at_def sample_simps)


text \<open>Removing an entry takes it out of the list and takes one link of its inode; while there are links left, nothing else
  changes.  A new directory has two links, that of its entry and that of its own entry ``.'': removing its entry leaves the inode and its
  blocks in use, although nothing leads to them.\<close>

theorem ext2_remove_linked:
  assumes "dir_ok fs (d_node dir)"
    "find_entry_from (m_nBlocks (d_node dir)) 0 (m_InodeNumber file) name (d_node dir) fs = Some (Some (i, p), nd)"
    and "m_InodeNumber file \<noteq> 0" "getInode (m_InodeNumber file) fs \<noteq> None" "1 < i_links_count (inodes fs (m_InodeNumber file))"
    and "inode_ok (m_InodeNumber file - 1) fs" "0 \<notin> set name"
  shows "\<exists>fs' xs k ys. ext2_removeEntry now name file dir fs = Some (True, file, dir, fs') \<and>
    dir_entries fs (m_pBlocks (d_node dir)) = xs @ (name, m_InodeNumber file, k) # ys \<and> dir_entries fs' (m_pBlocks (d_node dir)) = xs @ ys \<and>
    inodes fs' = (inodes fs)(m_InodeNumber file := inodes fs (m_InodeNumber file)\<lparr>i_links_count := i_links_count (inodes fs (m_InodeNumber file)) - 1\<rparr>) \<and>
    m_pGroupDescriptors fs' = m_pGroupDescriptors fs \<and> (\<forall>b. b \<notin> set (m_pBlocks (d_node dir)) \<longrightarrow> blocks fs' b = blocks fs b)"
proof -
  have n: "takeWhile (\<lambda>c. c \<noteq> 0) name = name" using assms(7) by (auto simp: takeWhile_eq_all_conv)
  show ?thesis using removeEntry_ok [OF assms(1-6), of now] unfolding n same_volume_def by blast
qed

theorem ext2_remove_linked_witness:
  "\<exists>fs'. ext2_removeEntry 0 [97] (sample_node 12 [10, 11]) sample_dir (sample_ext2 24) = Some (True, sample_node 12 [10, 11], sample_dir, fs') \<and>
    i_links_count (inodes fs' 12) = 1 \<and> dir_entries fs' [14] = []"
proof -
  let ?fs = "sample_ext2 24" and ?nd = "d_node sample_dir" and ?f = "sample_node 12 [10, 11]"
  have m: "m_nBlocks ?nd = 1" "m_pBlocks ?nd = [14]" "m_BlockSize ?fs = 1024" "m_InodeNumber ?f = 12"
    by (simp_all add: sample_dir_def sample_node_def sample_simps)
  have b: "blocks ?fs 14 = sample_dir_block" by (simp add: sample_ext2_def)
  have "find_entry 1024 12 [97] sample_dir_block 0 = Some (Some 0)"
    using sample_dir_fields by (subst find_entry.simps) simp
  then have "find_entry_from (Suc 0) 0 12 [97] ?nd ?fs = Some (Some (0, 0), ?nd)"
    using dir_ok_block [OF sample_dir_ok(1) [of 24], of 0] m b by simp
  then have r: "find_entry_from (m_nBlocks ?nd) 0 (m_InodeNumber ?f) [97] ?nd ?fs = Some (Some (0, 0), ?nd)" using m by simp
  have g: "getInode 12 ?fs \<noteq> None" "1 < i_links_count (inodes ?fs 12)" "i_links_count (inodes ?fs 12) - 1 = 1"
    using sample_getInode [of 12 24] by (simp_all add: sample_simps sample_inode_def)
  from ext2_remove_linked [OF sample_dir_ok(1) r, of 0] g sample_inode_ok(1) [of 24] m sample_dir_ok(3) [of 24] show ?thesis
    by (auto simp: append_eq_Cons_conv Cons_eq_append_conv)
qed

end
