(* ===== verification/Vector_Array.thy ===== *)
theory Vector_Array
  imports Pedigree_Prelude "HOL-Library.Monad_Syntax"
begin

text \<open>
  The dynamic array \<open>Vector<void*>\<close> (\<^verbatim>\<open>system/kernel/utilities/Vector.cc\<close>, to which the other instances of
  \<^verbatim>\<open>system/include/utilities/Vector.h\<close> forward).  Its memory is a list of as many elements as were allocated, in which
  \<open>None\<close> is an element never written.  A result \<open>None\<close> is an access outside of that memory, a copy of a negative number of elements,
  or the use of an element never written.
\<close>

section \<open>The state and the operations\<close>

record 'a vec =
  m_Size :: nat
  m_Count :: nat
  m_Data :: "'a option list"

definition Vector_empty :: "'a vec" where
  "Vector_empty = \<lparr>m_Size = 0, m_Count = 0, m_Data = []\<rparr>"

definition Vector_reserve :: "nat \<Rightarrow> bool \<Rightarrow> 'a vec \<Rightarrow> 'a vec" where
  "Vector_reserve sz copy v =
     (if sz \<le> m_Size v then v
      else v\<lparr>m_Data := (if copy then take (m_Size v) (m_Data v) else []) @ replicate (sz - (if copy then m_Size v else 0)) None, m_Size := sz\<rparr>)"

definition Vector_at :: "nat \<Rightarrow> 'a vec \<Rightarrow> 'a option" where
  "Vector_at index v = (if index < length (m_Data v) then m_Data v ! index else None)"

text \<open>\<open>memmove\<close> of \<open>n\<close> elements inside of the array.\<close>

definition move_elements :: "nat \<Rightarrow> nat \<Rightarrow> nat \<Rightarrow> 'a option list \<Rightarrow> 'a option list option" where
  "move_elements dst src n xs =
     (if n \<noteq> 0 \<and> (length xs < dst + n \<or> length xs < src + n) then None
      else Some (take dst xs @ take n (drop src xs) @ drop (dst + n) xs))"

definition Vector_pushBack :: "'a \<Rightarrow> 'a vec \<Rightarrow> 'a vec option" where
  "Vector_pushBack x v =
     (let v = Vector_reserve (m_Count v + 1) True v
      in if m_Count v < length (m_Data v) then Some (v\<lparr>m_Data := (m_Data v)[m_Count v := Some x], m_Count := m_Count v + 1\<rparr>) else None)"

definition Vector_popBack :: "'a vec \<Rightarrow> ('a \<times> 'a vec) option" where
  "Vector_popBack v =
     (if m_Count v = 0 then None
      else do { x \<leftarrow> Vector_at (m_Count v - 1) v; Some (x, v\<lparr>m_Count := m_Count v - 1\<rparr>) })"

definition Vector_pushFront :: "'a \<Rightarrow> 'a vec \<Rightarrow> 'a vec option" where
  "Vector_pushFront x v =
     (let v = Vector_reserve (m_Count v + 1) True v
      in do {
        d \<leftarrow> move_elements 1 0 (m_Count v) (m_Data v);
        (if d = [] then None else Some (v\<lparr>m_Data := d[0 := Some x], m_Count := m_Count v + 1\<rparr>)) })"

definition Vector_popFront :: "'a vec \<Rightarrow> ('a \<times> 'a vec) option" where
  "Vector_popFront v = do {
     x \<leftarrow> Vector_at 0 v;
     (if m_Count v = 0 then None
      else do {
        d \<leftarrow> move_elements 0 1 (m_Count v - 1) (m_Data v);
        Some (x, v\<lparr>m_Data := d, m_Count := m_Count v - 1\<rparr>) }) }"

definition Vector_setAt :: "nat \<Rightarrow> 'a \<Rightarrow> 'a vec \<Rightarrow> 'a vec option" where
  "Vector_setAt idx x v =
     (if idx < m_Count v then (if idx < length (m_Data v) then Some (v\<lparr>m_Data := (m_Data v)[idx := Some x]\<rparr>) else None) else Some v)"

definition Vector_clear :: "'a vec \<Rightarrow> 'a vec" where
  "Vector_clear v = v\<lparr>m_Count := 0\<rparr>"

text \<open>The iterator is the index of its element.\<close>

definition Vector_erase :: "nat \<Rightarrow> 'a vec \<Rightarrow> 'a vec option" where
  "Vector_erase i v =
     (if m_Count v < i + 1 then None
      else do {
        d \<leftarrow> move_elements i (i + 1) (m_Count v - 1 - i) (m_Data v);
        Some (v\<lparr>m_Data := d, m_Count := m_Count v - 1\<rparr>) })"

definition Vector_assign :: "'a vec \<Rightarrow> 'a vec \<Rightarrow> 'a vec option" where
  "Vector_assign x v =
     (let v = Vector_reserve (m_Count x) False v
      in if length (m_Data x) < m_Count x \<or> length (m_Data v) < m_Count x then None
         else Some (v\<lparr>m_Data := take (m_Count x) (m_Data x) @ drop (m_Count x) (m_Data v), m_Count := m_Count x\<rparr>))"

section \<open>The list that a vector holds\<close>

definition vec_ok :: "'a vec \<Rightarrow> bool" where
  "vec_ok v \<longleftrightarrow> length (m_Data v) = m_Size v \<and> m_Count v \<le> m_Size v \<and> None \<notin> set (take (m_Count v) (m_Data v))"

definition elems :: "'a vec \<Rightarrow> 'a list" where
  "elems v = map the (take (m_Count v) (m_Data v))"

text \<open>Another view of both: the memory starts with the elements.\<close>

lemma holds_iff: "vec_ok v \<and> elems v = xs \<longleftrightarrow>
    length (m_Data v) = m_Size v \<and> m_Count v = length xs \<and> (\<exists>rest. m_Data v = map Some xs @ rest)"
proof (intro iffI conjI; elim conjE exE)
  assume a: "vec_ok v" "elems v = xs"
  have "length (elems v) = m_Count v" using a(1) by (simp add: vec_ok_def elems_def)
  with a show "length (m_Data v) = m_Size v" "m_Count v = length xs" by (simp_all add: vec_ok_def)
  have "map Some (elems v) = take (m_Count v) (m_Data v)"
    unfolding elems_def map_map
  proof (rule map_idI)
    fix y assume y: "y \<in> set (take (m_Count v) (m_Data v))"
    show "(Some \<circ> the) y = y" by (cases y) (use y a(1) in \<open>auto simp: vec_ok_def\<close>)
  qed
  then have "m_Data v = map Some xs @ drop (m_Count v) (m_Data v)" using a(2) by simp
  then show "\<exists>rest. m_Data v = map Some xs @ rest" by (rule exI)
next
  fix rest assume "length (m_Data v) = m_Size v" "m_Count v = length xs" "m_Data v = map Some xs @ rest"
  then show "vec_ok v" "elems v = xs" by (auto simp: vec_ok_def elems_def)
qed

lemma vec_cases:
  assumes "vec_ok v"
  obtains rest where "m_Data v = map Some (elems v) @ rest" "m_Count v = length (elems v)" "m_Size v = length (elems v) + length rest"
  using assms holds_iff [of v "elems v"] by auto

lemma holdsI: "length (m_Data v) = m_Size v \<Longrightarrow> m_Count v = length xs \<Longrightarrow> m_Data v = map Some xs @ rest \<Longrightarrow> vec_ok v \<and> elems v = xs"
  using holds_iff [of v xs] by blast

lemma empty_ok [simp]: "vec_ok Vector_empty" "elems Vector_empty = []"
  by (simp_all add: vec_ok_def elems_def Vector_empty_def)

lemma vector_reserve_ok:
  assumes "vec_ok v"
  shows "vec_ok (Vector_reserve sz True v) \<and> elems (Vector_reserve sz True v) = elems v \<and> m_Size (Vector_reserve sz True v) = max (m_Size v) sz \<and>
    m_Count (Vector_reserve sz True v) = m_Count v"
proof (cases "sz \<le> m_Size v")
  case True
  then show ?thesis using assms by (simp add: Vector_reserve_def)
next
  case False
  from vec_cases [OF assms] obtain rest where v: "m_Data v = map Some (elems v) @ rest" "m_Count v = length (elems v)"
    "m_Size v = length (elems v) + length rest" .
  have "vec_ok (Vector_reserve sz True v) \<and> elems (Vector_reserve sz True v) = elems v"
    by (rule holdsI [where rest = "rest @ replicate (sz - m_Size v) None"]) (use False v in \<open>simp_all add: Vector_reserve_def\<close>)
  then show ?thesis using False by (simp add: Vector_reserve_def)
qed

lemma pushBack_ok:
  assumes "vec_ok v"
  shows "\<exists>v'. Vector_pushBack x v = Some v' \<and> vec_ok v' \<and> elems v' = elems v @ [x]"
proof -
  define w where "w = Vector_reserve (m_Count v + 1) True v"
  note r = vector_reserve_ok [OF assms, of "m_Count v + 1", folded w_def]
  from vec_cases [of w] r obtain rest where w: "m_Data w = map Some (elems v) @ rest" "m_Count w = length (elems v)"
    "m_Size w = length (elems v) + length rest" by metis
  moreover have "m_Count w < m_Size w" using r by simp
  ultimately obtain y ys where y: "rest = y # ys" by (cases rest) auto
  let ?v = "w\<lparr>m_Data := (m_Data w)[m_Count w := Some x], m_Count := m_Count w + 1\<rparr>"
  have "vec_ok ?v \<and> elems ?v = elems v @ [x]"
    by (rule holdsI [where rest = ys]) (use w y in \<open>simp_all add: list_update_append\<close>)
  moreover have "Vector_pushBack x v = Some ?v" using w y r unfolding Vector_pushBack_def Let_def w_def [symmetric] by simp
  ultimately show ?thesis by blast
qed

lemma pushFront_ok:
  assumes "vec_ok v"
  shows "\<exists>v'. Vector_pushFront x v = Some v' \<and> vec_ok v' \<and> elems v' = x # elems v"
proof -
  define w where "w = Vector_reserve (m_Count v + 1) True v"
  note r = vector_reserve_ok [OF assms, of "m_Count v + 1", folded w_def]
  from vec_cases [of w] r obtain rest where w: "m_Data w = map Some (elems v) @ rest" "m_Count w = length (elems v)"
    "m_Size w = length (elems v) + length rest" by metis
  moreover have "m_Count w < m_Size w" using r by simp
  ultimately obtain y ys where y: "rest = y # ys" by (cases rest) auto
  let ?d = "take 1 (m_Data w) @ map Some (elems v) @ ys"
  have m: "move_elements 1 0 (m_Count w) (m_Data w) = Some ?d" using w y by (simp add: move_elements_def)
  let ?v = "w\<lparr>m_Data := ?d[0 := Some x], m_Count := m_Count w + 1\<rparr>"
  have t: "take 1 (m_Data w) \<noteq> []" using w y by auto
  obtain z zs where "m_Data w = z # zs" using t by (cases "m_Data w") auto
  then have d: "?d[0 := Some x] = Some x # map Some (elems v) @ ys" by simp
  have "vec_ok ?v \<and> elems ?v = x # elems v"
    by (rule holdsI [where rest = ys]) (use w y d in simp_all)
  moreover have "Vector_pushFront x v = Some ?v" using m t r unfolding Vector_pushFront_def Let_def w_def [symmetric] by simp
  ultimately show ?thesis by blast
qed

lemma popBack_ok:
  assumes "vec_ok v"
  shows "if elems v = [] then Vector_popBack v = None
    else \<exists>v'. Vector_popBack v = Some (last (elems v), v') \<and> vec_ok v' \<and> elems v' = butlast (elems v)"
proof (cases "elems v" rule: rev_cases)
  case Nil
  with vec_cases [OF assms] have "m_Count v = 0" by auto
  then show ?thesis using Nil by (simp add: Vector_popBack_def)
next
  case (snoc xs x)
  from vec_cases [OF assms] obtain rest where v: "m_Data v = map Some (xs @ [x]) @ rest" "m_Count v = length (xs @ [x])"
    "m_Size v = length (xs @ [x]) + length rest" unfolding snoc .
  let ?v = "v\<lparr>m_Count := m_Count v - 1\<rparr>"
  have "vec_ok ?v \<and> elems ?v = xs" by (rule holdsI [where rest = "Some x # rest"]) (use v in simp_all)
  moreover have "Vector_popBack v = Some (x, ?v)" using v by (simp add: Vector_popBack_def Vector_at_def nth_append)
  ultimately show ?thesis using snoc by simp
qed

lemma erase_ok:
  assumes "vec_ok v"
  shows "if i < length (elems v) then \<exists>v'. Vector_erase i v = Some v' \<and> vec_ok v' \<and> elems v' = take i (elems v) @ drop (Suc i) (elems v)
    else Vector_erase i v = None"
proof (cases "i < length (elems v)")
  case False
  with vec_cases [OF assms] have "m_Count v < i + 1" by (metis leI le_imp_less_Suc Suc_eq_plus1)
  then show ?thesis using False by (simp add: Vector_erase_def)
next
  case True
  let ?xs = "elems v" and ?n = "length (elems v)"
  from vec_cases [OF assms] obtain rest where v: "m_Data v = map Some ?xs @ rest" "m_Count v = ?n" "m_Size v = ?n + length rest" .
  let ?d = "map Some (take i ?xs) @ map Some (drop (Suc i) ?xs) @ drop (?n - 1) (m_Data v)"
  have m: "move_elements i (i + 1) (?n - 1 - i) (m_Data v) = Some ?d"
    using True v by (auto simp: move_elements_def take_map drop_map)
  let ?v = "v\<lparr>m_Data := ?d, m_Count := m_Count v - 1\<rparr>"
  have "vec_ok ?v \<and> elems ?v = take i ?xs @ drop (Suc i) ?xs"
    by (rule holdsI [where rest = "drop (?n - 1) (m_Data v)"]) (use True v in simp_all)
  moreover have "Vector_erase i v = Some ?v" using True v(2) m by (simp add: Vector_erase_def)
  ultimately show ?thesis using True by simp
qed

lemma popFront_ok:
  assumes "vec_ok v"
  shows "if elems v = [] then Vector_popFront v = None
    else \<exists>v'. Vector_popFront v = Some (hd (elems v), v') \<and> vec_ok v' \<and> elems v' = tl (elems v)"
proof (cases "elems v")
  case Nil
  with vec_cases [OF assms] have "m_Count v = 0" by auto
  then show ?thesis using Nil by (cases "Vector_at 0 v") (simp_all add: Vector_popFront_def)
next
  case (Cons x xs)
  from vec_cases [OF assms] obtain rest where v: "m_Data v = map Some (x # xs) @ rest" "m_Count v = length (x # xs)"
    "m_Size v = length (x # xs) + length rest" unfolding Cons .
  let ?d = "map Some xs @ drop (length xs) (m_Data v)"
  have m: "move_elements 0 1 (length xs) (m_Data v) = Some ?d" using v by (simp add: move_elements_def)
  let ?v = "v\<lparr>m_Data := ?d, m_Count := m_Count v - 1\<rparr>"
  have "vec_ok ?v \<and> elems ?v = xs" by (rule holdsI [where rest = "drop (length xs) (m_Data v)"]) (use v in simp_all)
  moreover have "Vector_popFront v = Some (x, ?v)" using v m by (simp add: Vector_popFront_def Vector_at_def)
  ultimately show ?thesis using Cons by simp
qed

lemma setAt_ok:
  assumes "vec_ok v"
  shows "\<exists>v'. Vector_setAt i x v = Some v' \<and> vec_ok v' \<and> elems v' = (elems v)[i := x]"
proof (cases "i < length (elems v)")
  case False
  with vec_cases [OF assms] have "\<not> i < m_Count v" by metis
  then show ?thesis using False assms by (simp add: Vector_setAt_def list_update_beyond)
next
  case True
  let ?xs = "elems v"
  from vec_cases [OF assms] obtain rest where v: "m_Data v = map Some ?xs @ rest" "m_Count v = length ?xs" "m_Size v = length ?xs + length rest" .
  let ?v = "v\<lparr>m_Data := (m_Data v)[i := Some x]\<rparr>"
  have "vec_ok ?v \<and> elems ?v = ?xs[i := x]"
    by (rule holdsI [where rest = rest]) (use True v in \<open>simp_all add: list_update_append map_update\<close>)
  moreover have "Vector_setAt i x v = Some ?v" using True v by (simp add: Vector_setAt_def)
  ultimately show ?thesis by blast
qed

lemma clear_ok: "vec_ok v \<Longrightarrow> vec_ok (Vector_clear v) \<and> elems (Vector_clear v) = []"
  by (auto simp: vec_ok_def elems_def Vector_clear_def)

lemma vector_assign_ok:
  assumes "vec_ok v" "vec_ok x"
  shows "\<exists>v'. Vector_assign x v = Some v' \<and> vec_ok v' \<and> elems v' = elems x"
proof -
  let ?w = "Vector_reserve (m_Count x) False v"
  from vec_cases [OF assms(2)] obtain rest where x: "m_Data x = map Some (elems x) @ rest" "m_Count x = length (elems x)"
    "m_Size x = length (elems x) + length rest" .
  have w: "length (m_Data ?w) = m_Size ?w" "m_Count x \<le> m_Size ?w" using assms(1) by (simp_all add: Vector_reserve_def vec_ok_def)
  let ?v = "?w\<lparr>m_Data := take (m_Count x) (m_Data x) @ drop (m_Count x) (m_Data ?w), m_Count := m_Count x\<rparr>"
  have "vec_ok ?v \<and> elems ?v = elems x"
    by (rule holdsI [where rest = "drop (m_Count x) (m_Data ?w)"]) (use x w in simp_all)
  moreover have "Vector_assign x v = Some ?v" using x w by (simp add: Vector_assign_def Let_def)
  ultimately show ?thesis by blast
qed

section \<open>Sequences of operations\<close>

datatype 'a vec_op = PushBack 'a | PopBack | PushFront 'a | PopFront | SetAt nat 'a | Erase nat | Clear | Reserve nat

fun vec_step :: "'a vec_op \<Rightarrow> 'a vec \<Rightarrow> ('a option \<times> 'a vec) option" where
  "vec_step (PushBack x) v = map_option (Pair None) (Vector_pushBack x v)"
| "vec_step PopBack v = map_option (map_prod Some id) (Vector_popBack v)"
| "vec_step (PushFront x) v = map_option (Pair None) (Vector_pushFront x v)"
| "vec_step PopFront v = map_option (map_prod Some id) (Vector_popFront v)"
| "vec_step (SetAt i x) v = map_option (Pair None) (Vector_setAt i x v)"
| "vec_step (Erase i) v = map_option (Pair None) (Vector_erase i v)"
| "vec_step Clear v = Some (None, Vector_clear v)"
| "vec_step (Reserve n) v = Some (None, Vector_reserve n True v)"

fun list_step :: "'a vec_op \<Rightarrow> 'a list \<Rightarrow> ('a option \<times> 'a list) option" where
  "list_step (PushBack x) xs = Some (None, xs @ [x])"
| "list_step PopBack xs = (if xs = [] then None else Some (Some (last xs), butlast xs))"
| "list_step (PushFront x) xs = Some (None, x # xs)"
| "list_step PopFront xs = (if xs = [] then None else Some (Some (hd xs), tl xs))"
| "list_step (SetAt i x) xs = Some (None, xs[i := x])"
| "list_step (Erase i) xs = (if i < length xs then Some (None, take i xs @ drop (Suc i) xs) else None)"
| "list_step Clear xs = Some (None, [])"
| "list_step (Reserve n) xs = Some (None, xs)"

fun run_steps :: "('op \<Rightarrow> 's \<Rightarrow> ('r \<times> 's) option) \<Rightarrow> 'op list \<Rightarrow> 's \<Rightarrow> ('r list \<times> 's) option" where
  "run_steps step [] s = Some ([], s)"
| "run_steps step (p # ps) s = do { (r, s) \<leftarrow> step p s; (rs, s) \<leftarrow> run_steps step ps s; Some (r # rs, s) }"

text \<open>A container whose steps are those of an abstract one, failures included.\<close>

locale refines_steps =
  fixes ok :: "'s \<Rightarrow> bool"
    and abs :: "'s \<Rightarrow> 'a"
    and step :: "'op \<Rightarrow> 's \<Rightarrow> ('r \<times> 's) option"
    and astep :: "'op \<Rightarrow> 'a \<Rightarrow> ('r \<times> 'a) option"
  assumes fails: "ok s \<Longrightarrow> astep p (abs s) = None \<Longrightarrow> step p s = None"
    and follows: "ok s \<Longrightarrow> astep p (abs s) = Some (r, a) \<Longrightarrow> \<exists>s'. step p s = Some (r, s') \<and> ok s' \<and> abs s' = a"
begin

lemma run_follows:
  assumes "ok s" "run_steps astep ps (abs s) = Some (rs, a)"
  shows "\<exists>s'. run_steps step ps s = Some (rs, s') \<and> ok s' \<and> abs s' = a"
  using assms
proof (induction ps arbitrary: s rs)
  case (Cons p ps)
  then obtain r b rs' where b: "astep p (abs s) = Some (r, b)" "run_steps astep ps b = Some (rs', a)" "rs = r # rs'"
    by (auto split: bind_splits)
  obtain s1 where s1: "step p s = Some (r, s1)" "ok s1" "abs s1 = b" using follows [OF Cons.prems(1) b(1)] by blast
  then show ?case using Cons.IH [of s1 rs'] b by auto
qed simp

lemma run_fails:
  assumes "ok s" "run_steps astep ps (abs s) = None"
  shows "run_steps step ps s = None"
  using assms
proof (induction ps arbitrary: s)
  case (Cons p ps)
  show ?case
  proof (cases "astep p (abs s)")
    case None
    then show ?thesis using fails [OF Cons.prems(1)] by simp
  next
    case (Some rb)
    obtain r b where b: "rb = (r, b)" by (cases rb)
    obtain s1 where "step p s = Some (r, s1)" "ok s1" "abs s1 = b" using follows [OF Cons.prems(1)] Some b by blast
    then show ?thesis using Cons.IH [of s1] Cons.prems(2) Some b by (auto split: bind_splits)
  qed
qed simp

end

interpretation vr: refines_steps vec_ok elems vec_step list_step
proof
  fix v :: "'a vec" and p :: "'a vec_op"
  assume ok: "vec_ok v"
  note l = pushBack_ok [OF ok] pushFront_ok [OF ok] popBack_ok [OF ok] popFront_ok [OF ok] setAt_ok [OF ok] erase_ok [OF ok] clear_ok [OF ok] vector_reserve_ok [OF ok]
  show "vec_step p v = None" if "list_step p (elems v) = None" using that l by (cases p) (auto split: if_splits)
  show "\<exists>v'. vec_step p v = Some (r, v') \<and> vec_ok v' \<and> elems v' = a" if "list_step p (elems v) = Some (r, a)" for r a
    using that l by (cases p) (auto split: if_splits)
qed

text \<open>C33: Every sequence of operations on a vector gives what it gives on the list of its elements, and goes wrong exactly when an element
  is taken from an empty list or erased behind its end.\<close>

theorem Vector_refines_list:
  "(case run_steps list_step ps [] of
      None \<Rightarrow> run_steps vec_step ps Vector_empty = None
    | Some (rs, xs) \<Rightarrow> \<exists>v. run_steps vec_step ps Vector_empty = Some (rs, v) \<and> vec_ok v \<and> elems v = xs)"
  using vr.run_follows [of Vector_empty ps] vr.run_fails [of Vector_empty ps] by (auto split: option.splits)

text \<open>An assignment makes the elements those of the other vector.\<close>

theorem Vector_assign_correct:
  assumes "vec_ok v" "vec_ok x"
  shows "\<exists>v'. Vector_assign x v = Some v' \<and> vec_ok v' \<and> elems v' = elems x"
  by (rule vector_assign_ok [OF assms])

theorem Vector_assign_correct_witness:
  "\<exists>v'. Vector_assign \<lparr>m_Size = 3, m_Count = 2, m_Data = [Some 7, Some 8, None]\<rparr> (Vector_empty :: nat vec) = Some v' \<and> elems v' = [7, 8]"
  using Vector_assign_correct [of "Vector_empty :: nat vec" "\<lparr>m_Size = 3, m_Count = 2, m_Data = [Some 7, Some 8, None]\<rparr>"]
  by (auto simp: vec_ok_def Vector_empty_def) (simp add: elems_def)

end
