(* ===== verification/Hash_Table.thy ===== *)
theory Hash_Table
  imports Pedigree_Prelude "HOL-Library.Monad_Syntax"
begin

text \<open>
  The hash table of the kernel (\<^verbatim>\<open>system/include/utilities/HashTable.h\<close>).  The hash function of the keys is an argument.  A bucket is
  the list of its chain; a pointer to a value is \<open>None\<close> when it is null.  A result \<open>None\<close> is an access outside of the array of
  buckets, a null dereference or a second \<open>delete\<close> of the same object.
\<close>

section \<open>The state and the operations\<close>

record ('k, 'v) hash_table =
  m_Buckets :: "('k \<times> 'v option) list list option"
  m_MaxBucket :: nat

definition HashTable :: "nat \<Rightarrow> ('k, 'v) hash_table" where
  "HashTable numbuckets = \<lparr>m_Buckets = None, m_MaxBucket = numbuckets\<rparr>"

definition HashTable_initialise :: "nat \<Rightarrow> ('k, 'v) hash_table \<Rightarrow> ('k, 'v) hash_table" where
  "HashTable_initialise numbuckets t = (if m_Buckets t \<noteq> None then t else t\<lparr>m_MaxBucket := numbuckets\<rparr>)"

fun chain_lookup :: "'k \<Rightarrow> ('k \<times> 'v option) list \<Rightarrow> 'v option" where
  "chain_lookup k [] = None"
| "chain_lookup k ((key, v) # b) = (if key \<noteq> k then chain_lookup k b else v)"

definition HashTable_lookup :: "('k \<Rightarrow> nat) \<Rightarrow> 'k \<Rightarrow> ('k, 'v) hash_table \<Rightarrow> 'v option option" where
  "HashTable_lookup hash k t =
     (case m_Buckets t of
        None \<Rightarrow> Some None
      | Some bs \<Rightarrow>
          if m_MaxBucket t < hash k then Some None
          else if length bs \<le> hash k then None
          else Some (chain_lookup k (bs ! hash k)))"

definition HashTable_insert :: "('k \<Rightarrow> nat) \<Rightarrow> 'k \<Rightarrow> 'v option \<Rightarrow> ('k, 'v) hash_table \<Rightarrow> ('k, 'v) hash_table option" where
  "HashTable_insert hash k v t = do {
     old \<leftarrow> HashTable_lookup hash k t;
     (if old \<noteq> None \<or> m_Buckets t = None \<and> m_MaxBucket t = 0 then Some t
      else
        let t = (if m_Buckets t = None then t\<lparr>m_Buckets := Some (replicate (m_MaxBucket t) [])\<rparr> else t);
            bs = the (m_Buckets t)
        in if m_MaxBucket t < hash k then Some t
           else if length bs \<le> hash k then None
           else Some (t\<lparr>m_Buckets := Some (bs[hash k := bs ! hash k @ [(k, v)]])\<rparr>)) }"

text \<open>Taking a key out of a chain: behind the first bucket the one that is taken out is deleted twice.\<close>

definition chain_remove :: "'k \<Rightarrow> ('k \<times> 'v option) list \<Rightarrow> ('k \<times> 'v option) list option" where
  "chain_remove k b =
     (case b of
        [] \<Rightarrow> None
      | (key, v) # next \<Rightarrow> if key = k then Some next else if k \<in> fst ` set next then None else Some b)"

definition HashTable_remove :: "('k \<Rightarrow> nat) \<Rightarrow> 'k \<Rightarrow> ('k, 'v) hash_table \<Rightarrow> ('k, 'v) hash_table option" where
  "HashTable_remove hash k t = do {
     old \<leftarrow> HashTable_lookup hash k t;
     (case m_Buckets t of
        None \<Rightarrow> Some t
      | Some bs \<Rightarrow>
          if old = None \<or> m_MaxBucket t < hash k then Some t
          else if length bs \<le> hash k then None
          else do { b \<leftarrow> chain_remove k (bs ! hash k); Some (t\<lparr>m_Buckets := Some (bs[hash k := b])\<rparr>) }) }"

section \<open>As a map\<close>

definition table_ok :: "('k \<Rightarrow> nat) \<Rightarrow> ('k, 'v) hash_table \<Rightarrow> bool" where
  "table_ok hash t \<longleftrightarrow>
     (case m_Buckets t of
        None \<Rightarrow> True
      | Some bs \<Rightarrow> length bs = m_MaxBucket t \<and>
          (\<forall>i < length bs. distinct (map fst (bs ! i)) \<and> (\<forall>(k, v) \<in> set (bs ! i). hash k = i \<and> v \<noteq> None)))"

definition ht_map :: "('k \<Rightarrow> nat) \<Rightarrow> ('k, 'v) hash_table \<Rightarrow> 'k \<Rightarrow> 'v option" where
  "ht_map hash t k = (case m_Buckets t of None \<Rightarrow> None | Some bs \<Rightarrow> if hash k < length bs then chain_lookup k (bs ! hash k) else None)"

lemma lookup_in_range: "table_ok hash t \<Longrightarrow> hash k \<noteq> m_MaxBucket t \<Longrightarrow> HashTable_lookup hash k t = Some (ht_map hash t k)"
  by (auto simp: HashTable_lookup_def ht_map_def table_ok_def split: option.splits)

lemma chain_lookup_notin: "k \<notin> fst ` set b \<Longrightarrow> chain_lookup k b = None"
  by (induction k b rule: chain_lookup.induct) auto

lemma chain_lookup_append: "chain_lookup q (b @ [(k, v)]) = (if q \<in> fst ` set b then chain_lookup q b else if q = k then v else None)"
proof (induction b)
  case (Cons x b)
  then show ?case by (cases x; cases "q \<in> fst ` set b") simp_all
qed simp

lemma chain_lookup_Some: "k \<in> fst ` set b \<Longrightarrow> \<forall>(k, v) \<in> set b. v \<noteq> None \<Longrightarrow> chain_lookup k b \<noteq> None"
  by (induction k b rule: chain_lookup.induct) auto

lemma insert_ok:
  assumes "table_ok hash t" "hash k < m_MaxBucket t" "v \<noteq> None"
  shows "\<exists>t'. HashTable_insert hash k v t = Some t' \<and> table_ok hash t' \<and> m_MaxBucket t' = m_MaxBucket t \<and>
    ht_map hash t' = (ht_map hash t)(k := (if ht_map hash t k = None then v else ht_map hash t k))"
proof (cases "ht_map hash t k")
  case (Some w)
  then have "HashTable_insert hash k v t = Some t"
    using lookup_in_range [OF assms(1), of k] assms(2) by (simp add: HashTable_insert_def)
  moreover have "(ht_map hash t)(k := Some w) = ht_map hash t" using Some by auto
  ultimately show ?thesis using assms(1) Some by simp
next
  case None
  define t1 where "t1 = (if m_Buckets t = None then t\<lparr>m_Buckets := Some (replicate (m_MaxBucket t) [])\<rparr> else t)"
  define bs where "bs = the (m_Buckets t1)"
  have t1: "m_Buckets t1 = Some bs" "m_MaxBucket t1 = m_MaxBucket t" "table_ok hash t1" "ht_map hash t1 = ht_map hash t"
    using assms(1) by (auto simp: t1_def bs_def table_ok_def ht_map_def fun_eq_iff)
  have len: "length bs = m_MaxBucket t" "hash k < length bs" using t1 assms(2) by (simp_all add: table_ok_def)
  have inv: "distinct (map fst (bs ! i))" "\<forall>(q, w) \<in> set (bs ! i). hash q = i \<and> w \<noteq> None" if "i < length bs" for i
    using t1(1,3) that by (simp_all add: table_ok_def)
  let ?b = "bs ! hash k @ [(k, v)]"
  let ?t = "t1\<lparr>m_Buckets := Some (bs[hash k := ?b])\<rparr>"
  have run: "HashTable_insert hash k v t = Some ?t"
    using lookup_in_range [OF assms(1), of k] assms(2) None len t1(1,2)
    unfolding HashTable_insert_def Let_def t1_def [symmetric] bs_def [symmetric] by (auto simp: t1_def bs_def)
  have out: "k \<notin> fst ` set (bs ! hash k)"
  proof
    assume "k \<in> fst ` set (bs ! hash k)"
    moreover have "\<forall>(q, w) \<in> set (bs ! hash k). w \<noteq> None" using inv(2) [OF len(2)] by auto
    ultimately have "chain_lookup k (bs ! hash k) \<noteq> None" by (rule chain_lookup_Some)
    moreover have "ht_map hash t1 k = chain_lookup k (bs ! hash k)" using t1(1) len(2) by (simp add: ht_map_def)
    ultimately show False using None t1(4) by simp
  qed
  have "table_ok hash ?t"
    using inv len out assms(3) t1(2) by (auto simp: table_ok_def nth_list_update)
  moreover have "ht_map hash ?t q = ((ht_map hash t)(k := v)) q" for q
  proof -
    have "ht_map hash t q = (if hash q < length bs then chain_lookup q (bs ! hash q) else None)"
      unfolding t1(4) [symmetric] by (simp add: ht_map_def t1(1))
    then show ?thesis
      using len(2) out chain_lookup_notin [of q "bs ! hash k"] by (auto simp: ht_map_def nth_list_update chain_lookup_append)
  qed
  ultimately show ?thesis using run None t1(2) by (intro exI [of _ ?t]) auto
qed

lemma table_remove_ok:
  assumes "table_ok hash t" "hash k < m_MaxBucket t"
  shows "if ht_map hash t k = None then HashTable_remove hash k t = Some t
    else if fst (hd (the (m_Buckets t) ! hash k)) \<noteq> k then HashTable_remove hash k t = None
    else \<exists>t'. HashTable_remove hash k t = Some t' \<and> table_ok hash t' \<and> ht_map hash t' = (ht_map hash t)(k := None)"
proof (cases "m_Buckets t")
  case None
  then show ?thesis by (simp add: HashTable_remove_def HashTable_lookup_def ht_map_def)
next
  case (Some bs)
  have len: "length bs = m_MaxBucket t" "hash k < length bs" using Some assms by (simp_all add: table_ok_def)
  have inv: "distinct (map fst (bs ! i))" "\<forall>(q, w) \<in> set (bs ! i). hash q = i \<and> w \<noteq> None" if "i < length bs" for i
    using Some assms(1) that by (simp_all add: table_ok_def)
  have look: "HashTable_lookup hash k t = Some (ht_map hash t k)" "ht_map hash t k = chain_lookup k (bs ! hash k)"
    using lookup_in_range [OF assms(1), of k] assms(2) Some len(2) by (simp_all add: ht_map_def)
  have rm: "HashTable_remove hash k t = (if ht_map hash t k = None then Some t
      else do { b \<leftarrow> chain_remove k (bs ! hash k); Some (t\<lparr>m_Buckets := Some (bs[hash k := b])\<rparr>) })"
    using look(1) Some len assms(2) by (simp add: HashTable_remove_def)
  show ?thesis
  proof (cases "bs ! hash k")
    case Nil
    then show ?thesis using look(2) rm by simp
  next
    case (Cons x b)
    obtain key w where x: "x = (key, w)" by (cases x)
    have d: "key \<notin> fst ` set b" using inv(1) [OF len(2)] Cons x by (auto simp: image_iff)
    show ?thesis
    proof (cases "key = k")
      case False
      have "ht_map hash t k \<noteq> None \<Longrightarrow> k \<in> fst ` set b" using look(2) Cons x False chain_lookup_notin by fastforce
      then show ?thesis using rm Cons x False Some by (auto simp: chain_remove_def)
    next
      case True
      let ?t = "t\<lparr>m_Buckets := Some (bs[hash k := b])\<rparr>"
      have w: "w \<noteq> None" using inv(2) [OF len(2)] Cons x by auto
      have "table_ok hash ?t"
        using inv len Cons by (auto simp: table_ok_def nth_list_update) (metis distinct.simps(2) list.simps(9))
      moreover have "ht_map hash ?t q = ((ht_map hash t)(k := None)) q" for q
        using len(2) d True Cons x Some chain_lookup_notin [of q b] by (auto simp: ht_map_def nth_list_update)
      ultimately show ?thesis using rm look(2) Cons x True w Some by (auto simp: chain_remove_def)
    qed
  qed
qed

section \<open>Properties\<close>

text \<open>The hash of the sample: a number modulo 4.\<close>

definition sample_table :: "(nat, nat) hash_table" where
  "sample_table = \<lparr>m_Buckets = Some [[], [(1, Some 10), (5, Some 50)], [], []], m_MaxBucket = 4\<rparr>"

lemma four: "(\<forall>i < Suc (Suc (Suc (Suc 0))). P i) \<longleftrightarrow> P 0 \<and> P 1 \<and> P 2 \<and> P 3"
  by (auto simp: less_Suc_eq numeral_eq_Suc)

lemma sample_table_ok: "table_ok (\<lambda>k. k mod 4) sample_table"
  by (simp add: table_ok_def sample_table_def four)

text \<open>An insertion with a hash in range adds its key, and leaves a key that is there with its old value.\<close>

theorem HashTable_insert_correct:
  assumes "table_ok hash t" "hash k < m_MaxBucket t" "v \<noteq> None"
  shows "\<exists>t'. HashTable_insert hash k v t = Some t' \<and> table_ok hash t' \<and>
    (\<forall>q. hash q \<noteq> m_MaxBucket t \<longrightarrow> HashTable_lookup hash q t' =
       (if q = k \<and> HashTable_lookup hash k t = Some None then Some v else HashTable_lookup hash q t))"
proof -
  from insert_ok [OF assms] obtain t' where t': "HashTable_insert hash k v t = Some t'" "table_ok hash t'" "m_MaxBucket t' = m_MaxBucket t"
    "ht_map hash t' = (ht_map hash t)(k := (if ht_map hash t k = None then v else ht_map hash t k))" by blast
  have "HashTable_lookup hash q t' = (if q = k \<and> HashTable_lookup hash k t = Some None then Some v else HashTable_lookup hash q t)"
    if "hash q \<noteq> m_MaxBucket t" for q
    using lookup_in_range [OF t'(2), of q] lookup_in_range [OF assms(1), of q] lookup_in_range [OF assms(1), of k] t'(3,4) that assms(2) by auto
  then show ?thesis using t'(1,2) by blast
qed

theorem HashTable_insert_correct_witness:
  "\<exists>t'. HashTable_insert (\<lambda>k. k mod 4) 6 (Some 60) sample_table = Some t' \<and> HashTable_lookup (\<lambda>k. k mod 4) 6 t' = Some (Some 60)"
  using HashTable_insert_correct [OF sample_table_ok, of 6 "Some 60"]
  by (auto simp: sample_table_def HashTable_lookup_def)

text \<open>Removing works for the first key of a bucket and for a key that is not there; any other key is taken out of its chain, but
  deleted twice.\<close>

theorem HashTable_remove_iff:
  assumes "table_ok hash t" "hash k < m_MaxBucket t" "HashTable_lookup hash k t = Some (Some v)"
  shows "if fst (hd (the (m_Buckets t) ! hash k)) = k
    then \<exists>t'. HashTable_remove hash k t = Some t' \<and> table_ok hash t' \<and> ht_map hash t' = (ht_map hash t)(k := None)
    else HashTable_remove hash k t = None"
proof -
  have "ht_map hash t k = Some v" using lookup_in_range [OF assms(1), of k] assms(2,3) by simp
  then show ?thesis using table_remove_ok [OF assms(1,2)] by (cases "fst (hd (the (m_Buckets t) ! hash k)) = k") simp_all
qed

theorem HashTable_remove_iff_witness:
  "HashTable_remove (\<lambda>k. k mod 4) 5 sample_table = None"
  using HashTable_remove_iff [OF sample_table_ok, of 5 50] by (simp add: sample_table_def HashTable_lookup_def)

text \<open>A key whose hash is the number of buckets, which the tests let through, is looked for behind the array.\<close>

theorem HashTable_hash_at_end:
  assumes "table_ok hash t" "m_Buckets t \<noteq> None" "hash k = m_MaxBucket t"
  shows "HashTable_lookup hash k t = None \<and> HashTable_insert hash k v t = None \<and> HashTable_remove hash k t = None"
  using assms by (auto simp: HashTable_lookup_def HashTable_insert_def HashTable_remove_def table_ok_def)

theorem HashTable_hash_at_end_witness:
  "HashTable_lookup (\<lambda>k. if k = 9 then 4 else k mod 4) 9 sample_table = None"
proof (rule HashTable_hash_at_end [THEN conjunct1])
  show "table_ok (\<lambda>k. if k = 9 then 4 else k mod 4) sample_table"
    by (simp add: table_ok_def sample_table_def four)
qed (simp_all add: sample_table_def)

end
