(* ===== verification/Page_Cache.thy ===== *)
theory Page_Cache
  imports Range_List "HOL-Library.Monad_Syntax"
begin

unbundle bit_operations_syntax

text \<open>
  The page cache of the kernel (\<^verbatim>\<open>system/kernel/utilities/Cache.cc\<close>) on the allocator of address ranges.  The tree of pages is the map
  that \<open>AVL_Tree\<close> shows it to be; the order in which it is walked is an argument.  The physical page that an address is mapped to, when there is
  one, is an argument, too; what is called from outside of the cache is recorded: callbacks, pages given back, requests.
  A result \<open>None\<close> is a failed assertion or a fatal error.  The allocator is one for all caches.
\<close>

section \<open>The state\<close>

record CachePage =
  location :: u64
  refcnt :: nat
  timeAllocated :: u32

datatype cache_event = WriteBack u64 u64 | Eviction u64 u64 | PageFreed u64 | Requested u64 u64

record page_cache =
  m_Pages :: "u64 \<rightharpoonup> CachePage"
  m_Callback :: bool
  m_Allocator :: "u64 RangeList"
  mapped :: "u64 \<rightharpoonup> u64 \<times> bool"
  events :: "cache_event list"

text \<open>The constructor on x86-64, for the first cache.\<close>

definition Cache_allocator :: "u64 RangeList" where
  "Cache_allocator = RangeList_free (RangeList_free (RangeList_empty False) 0xFFFFFFFFD0000000 0x10000000) 0xFFFFFFFF40000000 0x3FC00000"

definition Cache_new :: "bool \<Rightarrow> u64 RangeList \<Rightarrow> page_cache" where
  "Cache_new callback a = \<lparr>m_Pages = Map.empty, m_Callback = callback, m_Allocator = a, mapped = Map.empty, events = []\<rparr>"

section \<open>The operations\<close>

definition Cache_lookup :: "u64 \<Rightarrow> page_cache \<Rightarrow> u64 \<times> page_cache" where
  "Cache_lookup key c =
     (case m_Pages c key of
        None \<Rightarrow> (0, c)
      | Some p \<Rightarrow> (location p, c\<lparr>m_Pages := (m_Pages c)(key \<mapsto> p\<lparr>refcnt := refcnt p + 1\<rparr>)\<rparr>))"

definition new_page :: "u64 \<Rightarrow> u64 \<Rightarrow> nat \<Rightarrow> u32 \<Rightarrow> u64 \<Rightarrow> page_cache \<Rightarrow> page_cache" where
  "new_page key loc refs now phys c =
     c\<lparr>m_Pages := (m_Pages c)(key \<mapsto> \<lparr>location = loc, refcnt = refs, timeAllocated = now\<rparr>), mapped := (mapped c)(loc \<mapsto> (phys, False))\<rparr>"

definition Cache_insert :: "u64 \<Rightarrow> u32 \<Rightarrow> u64 option \<Rightarrow> page_cache \<Rightarrow> (u64 \<times> page_cache) option" where
  "Cache_insert key now phys c =
     (case m_Pages c key of
        Some p \<Rightarrow> Some (location p, c)
      | None \<Rightarrow> do {
          (loc, a) \<leftarrow> RangeList_allocate (m_Allocator c) 4096;
          a \<leftarrow> a;
          phys \<leftarrow> phys;
          Some (loc, new_page key loc 1 now phys (c\<lparr>m_Allocator := a\<rparr>)) })"

text \<open>The pages of a block: one that is there already is left alone and takes no address.\<close>

fun insert_pages :: "nat \<Rightarrow> u64 \<Rightarrow> u64 \<Rightarrow> u32 \<Rightarrow> (u64 \<Rightarrow> u64 option) \<Rightarrow> bool \<Rightarrow> page_cache \<Rightarrow> (bool \<times> page_cache) option" where
  "insert_pages 0 key loc now phys bOverlap c = Some (bOverlap, c)"
| "insert_pages (Suc n) key loc now phys bOverlap c =
     (if m_Pages c key \<noteq> None then insert_pages n (key + 4096) loc now phys True c
      else do {
        p \<leftarrow> phys loc;
        insert_pages n (key + 4096) (loc + 4096) now phys bOverlap (new_page key loc (if m_Callback c then 0 else 1) now p c) })"

definition Cache_insert_block :: "u64 \<Rightarrow> u64 \<Rightarrow> u32 \<Rightarrow> (u64 \<Rightarrow> u64 option) \<Rightarrow> page_cache \<Rightarrow> (u64 \<times> page_cache) option" where
  "Cache_insert_block key sz now phys c =
     (let sz = sz AND NOT 0xFFF; nPages = unat (sz div 4096)
      in case m_Pages c key of
           Some p \<Rightarrow> Some (location p, c)
         | None \<Rightarrow>
             (case RangeList_allocate (m_Allocator c) sz of
                None \<Rightarrow> Some (0, c)
              | Some (loc, a) \<Rightarrow> do {
                  a \<leftarrow> a;
                  (bOverlap, c) \<leftarrow> insert_pages nPages key loc now phys False (c\<lparr>m_Allocator := a\<rparr>);
                  Some (if bOverlap then 0 else loc, c) }))"

text \<open>Eviction: a page in use stays.  With a callback a page counts as not in use up to one reference.\<close>

definition evictable :: "bool \<Rightarrow> CachePage \<Rightarrow> bool" where
  "evictable callback p \<longleftrightarrow> (if callback then refcnt p \<le> 1 else refcnt p = 0)"

definition unmap_page :: "u64 \<Rightarrow> u64 \<Rightarrow> page_cache \<Rightarrow> page_cache" where
  "unmap_page key loc c =
     (case mapped c loc of
        None \<Rightarrow> c
      | Some (phys, dirty) \<Rightarrow>
          c\<lparr>mapped := (mapped c)(loc := None),
            events := events c @ (if m_Callback c \<and> dirty then [WriteBack key loc] else []) @ [PageFreed phys]\<rparr>)"

definition evict_page :: "u64 \<Rightarrow> bool \<Rightarrow> page_cache \<Rightarrow> page_cache" where
  "evict_page key bRemove c =
     (case m_Pages c key of
        None \<Rightarrow> c
      | Some p \<Rightarrow>
          if evictable (m_Callback c) p
          then
            let c = unmap_page key (location p) c;
                c = c\<lparr>m_Allocator := RangeList_free (m_Allocator c) (location p) 4096\<rparr>;
                c = (if bRemove then c\<lparr>m_Pages := (m_Pages c)(key := None)\<rparr> else c)
            in c\<lparr>events := events c @ (if m_Callback c then [Eviction key (location p)] else [])\<rparr>
          else c)"

definition Cache_evict :: "u64 \<Rightarrow> page_cache \<Rightarrow> page_cache" where
  "Cache_evict key c = evict_page key True c"

fun empty_pages :: "u64 list \<Rightarrow> page_cache \<Rightarrow> page_cache" where
  "empty_pages [] c = c"
| "empty_pages (key # keys) c =
     empty_pages keys (evict_page key False (c\<lparr>m_Pages := (m_Pages c)(key := map_option (\<lambda>p. p\<lparr>refcnt := 0\<rparr>) (m_Pages c key))\<rparr>))"

definition Cache_empty :: "u64 list \<Rightarrow> page_cache \<Rightarrow> page_cache" where
  "Cache_empty order c = (empty_pages order c)\<lparr>m_Pages := Map.empty\<rparr>"

definition Cache_pin :: "u64 \<Rightarrow> page_cache \<Rightarrow> page_cache" where
  "Cache_pin key c = snd (Cache_lookup key c)"

definition Cache_release :: "u64 \<Rightarrow> page_cache \<Rightarrow> page_cache option" where
  "Cache_release key c =
     (case m_Pages c key of
        None \<Rightarrow> Some c
      | Some p \<Rightarrow>
          if refcnt p = 0 then None
          else
            let c = c\<lparr>m_Pages := (m_Pages c)(key \<mapsto> p\<lparr>refcnt := refcnt p - 1\<rparr>)\<rparr>
            in Some (if refcnt p - 1 = 0 then evict_page key True c else c))"

text \<open>A write-back is a request to the thread of the cache manager, which calls back while the page is pinned.\<close>

definition Cache_sync :: "u64 \<Rightarrow> page_cache \<Rightarrow> page_cache" where
  "Cache_sync key c =
     (if \<not> m_Callback c then c
      else case m_Pages c key of None \<Rightarrow> c | Some p \<Rightarrow> c\<lparr>events := events c @ [Requested key (location p)]\<rparr>)"

definition Cache_executeRequest :: "u64 \<Rightarrow> u64 \<Rightarrow> page_cache \<Rightarrow> page_cache option" where
  "Cache_executeRequest key loc c =
     (if \<not> m_Callback c then Some c
      else
        let c = Cache_pin key c; c = c\<lparr>events := events c @ [WriteBack key loc]\<rparr>
        in Cache_release key c)"

text \<open>The timer: a page that is dirty gets a request and is clean from then on.\<close>

fun timer_pages :: "u64 list \<Rightarrow> page_cache \<Rightarrow> page_cache" where
  "timer_pages [] c = c"
| "timer_pages (key # keys) c =
     timer_pages keys
       (case m_Pages c key of
          None \<Rightarrow> c
        | Some p \<Rightarrow>
            (case mapped c (location p) of
               Some (phys, True) \<Rightarrow>
                 c\<lparr>mapped := (mapped c)(location p \<mapsto> (phys, False)), events := events c @ [Requested key (location p)]\<rparr>
             | _ \<Rightarrow> c))"

section \<open>Addresses\<close>

abbreviation page_span :: "CachePage \<Rightarrow> nat set" where
  "page_span p \<equiv> span (location p) 4096"

definition used :: "page_cache \<Rightarrow> nat set" where
  "used c = (\<Union>k \<in> dom (m_Pages c). page_span (the (m_Pages c k)))"

text \<open>The pages lie apart from each other and from the free addresses.\<close>

definition cache_inv :: "page_cache \<Rightarrow> bool" where
  "cache_inv c \<longleftrightarrow> RangeList_inv (m_Allocator c) \<and>
     (\<forall>k p. m_Pages c k = Some p \<longrightarrow> unat (location p) + 4096 < 2 ^ 64 \<and> page_span p \<inter> free_addresses (m_Allocator c) = {}) \<and>
     (\<forall>k l p q. m_Pages c k = Some p \<longrightarrow> m_Pages c l = Some q \<longrightarrow> k \<noteq> l \<longrightarrow> page_span p \<inter> page_span q = {})"

abbreviation owned :: "page_cache \<Rightarrow> nat set" where
  "owned c \<equiv> free_addresses (m_Allocator c) \<union> used c"

lemma unmap_simps [simp]: "m_Pages (unmap_page k l c) = m_Pages c" "m_Allocator (unmap_page k l c) = m_Allocator c"
  "m_Callback (unmap_page k l c) = m_Callback c"
  by (auto simp: unmap_page_def split: option.splits)

lemma used_minus: "used (c\<lparr>m_Pages := (m_Pages c)(k := None)\<rparr>) = (\<Union>l \<in> dom (m_Pages c) - {k}. page_span (the (m_Pages c l)))"
  by (auto simp: used_def)

lemma used_cong: "m_Pages c' = m_Pages c \<Longrightarrow> used c' = used c"
  by (simp add: used_def)

lemma evict_simps:
  assumes "m_Pages c k = Some p" "evictable (m_Callback c) p"
  shows "m_Pages (evict_page k True c) = (m_Pages c)(k := None)"
    "m_Allocator (evict_page k True c) = RangeList_free (m_Allocator c) (location p) 4096" "m_Callback (evict_page k True c) = m_Callback c"
  using assms by (simp_all add: evict_page_def Let_def)

lemma evict_none: "m_Pages c k = None \<Longrightarrow> evict_page k b c = c"
  by (simp add: evict_page_def)

lemma evict_kept: "m_Pages c k = Some p \<Longrightarrow> \<not> evictable (m_Callback c) p \<Longrightarrow> evict_page k b c = c"
  by (simp add: evict_page_def)

lemma evict_inv:
  assumes "cache_inv c"
  shows "cache_inv (evict_page k True c) \<and> owned (evict_page k True c) = owned c"
proof (cases "m_Pages c k")
  case None
  then show ?thesis using assms evict_none by simp
next
  case (Some p)
  show ?thesis
  proof (cases "evictable (m_Callback c) p")
    case False
    then show ?thesis using assms evict_kept [OF Some] by simp
  next
    case True
    note e = evict_simps [OF Some True]
    have p: "unat (location p) + 4096 < 2 ^ 64" "page_span p \<inter> free_addresses (m_Allocator c) = {}"
      using assms Some by (auto simp: cache_inv_def)
    have l: "(4096 :: u64) \<noteq> 0" "unat (4096 :: u64) = 4096" by simp_all
    have f: "RangeList_inv (RangeList_free (m_Allocator c) (location p) 4096) \<and>
        free_addresses (RangeList_free (m_Allocator c) (location p) 4096) = free_addresses (m_Allocator c) \<union> page_span p"
      by (rule free_spec) (use assms p in \<open>simp_all add: cache_inv_def\<close>)
    have apart: "page_span q \<inter> page_span p = {}" if "m_Pages c j = Some q" "j \<noteq> k" for j q
      using assms Some that unfolding cache_inv_def by blast
    have "cache_inv (evict_page k True c)"
      unfolding cache_inv_def e
    proof (intro conjI allI impI)
      fix j q assume q: "((m_Pages c)(k := None)) j = Some q"
      then have q': "m_Pages c j = Some q" "j \<noteq> k" by (auto split: if_splits)
      show "unat (location q) + 4096 < 2 ^ 64" using assms q'(1) unfolding cache_inv_def by blast
      have "page_span q \<inter> free_addresses (m_Allocator c) = {}" using assms q'(1) unfolding cache_inv_def by blast
      then show "page_span q \<inter> free_addresses (RangeList_free (m_Allocator c) (location p) 4096) = {}" using f apart [OF q'] by blast
    next
      fix j l q r
      assume "((m_Pages c)(k := None)) j = Some q" "((m_Pages c)(k := None)) l = Some r" "j \<noteq> l"
      then have "m_Pages c j = Some q" "m_Pages c l = Some r" by (auto split: if_splits)
      with \<open>j \<noteq> l\<close> show "page_span q \<inter> page_span r = {}" using assms unfolding cache_inv_def by blast
    qed (use f in blast)
    moreover have "used (evict_page k True c) \<union> page_span p = used c"
      using Some by (auto simp: used_def e(1) split: if_splits)
    ultimately show ?thesis using f e(2) by auto
  qed
qed

text \<open>Counting references does not change addresses.\<close>

lemma refcnt_inv:
  assumes "cache_inv c" "m_Pages c k = Some p" "location p' = location p"
  shows "cache_inv (c\<lparr>m_Pages := (m_Pages c)(k \<mapsto> p')\<rparr>) \<and> owned (c\<lparr>m_Pages := (m_Pages c)(k \<mapsto> p')\<rparr>) = owned c"
proof -
  let ?c = "c\<lparr>m_Pages := (m_Pages c)(k \<mapsto> p')\<rparr>"
  have old: "\<exists>q'. m_Pages c j = Some q' \<and> location q' = location q" if "m_Pages ?c j = Some q" for j q
    using that assms(2,3) by (auto split: if_splits)
  have "cache_inv ?c"
    unfolding cache_inv_def
  proof (intro conjI allI impI)
    fix j q assume "m_Pages ?c j = Some q"
    then obtain q' where "m_Pages c j = Some q'" "location q' = location q" using old by blast
    then show "unat (location q) + 4096 < 2 ^ 64" "page_span q \<inter> free_addresses (m_Allocator ?c) = {}"
      using assms(1) by (force simp: cache_inv_def)+
  next
    fix j l q r assume "m_Pages ?c j = Some q" "m_Pages ?c l = Some r" "j \<noteq> l"
    then obtain q' r' where "m_Pages c j = Some q'" "location q' = location q" "m_Pages c l = Some r'" "location r' = location r"
      using old by metis
    then show "page_span q \<inter> page_span r = {}" using assms(1) \<open>j \<noteq> l\<close> unfolding cache_inv_def by metis
  qed (use assms(1) in \<open>simp add: cache_inv_def\<close>)
  moreover have "used ?c = used c"
    unfolding used_def by (rule SUP_cong) (use assms(2,3) in \<open>auto simp: dom_def\<close>)
  ultimately show ?thesis by simp
qed

lemma cache_inv_cong: "m_Pages c' = m_Pages c \<Longrightarrow> m_Allocator c' = m_Allocator c \<Longrightarrow> cache_inv c' = cache_inv c"
  by (simp add: cache_inv_def)

lemma owned_cong: "m_Pages c' = m_Pages c \<Longrightarrow> m_Allocator c' = m_Allocator c \<Longrightarrow> owned c' = owned c"
  by (simp add: used_def)

section \<open>New pages\<close>

lemma new_page_inv:
  assumes "cache_inv c" "m_Pages c key = None" "unat loc + 4096 < 2 ^ 64"
    and "span loc (4096 :: u64) \<inter> free_addresses (m_Allocator c) = {}" "span loc (4096 :: u64) \<inter> used c = {}"
  shows "cache_inv (new_page key loc r now phys c)" "used (new_page key loc r now phys c) = used c \<union> span loc (4096 :: u64)"
proof -
  let ?p = "\<lparr>location = loc, refcnt = r, timeAllocated = now\<rparr>" and ?c = "new_page key loc r now phys c"
  have pages: "m_Pages ?c = (m_Pages c)(key \<mapsto> ?p)" "m_Allocator ?c = m_Allocator c" by (simp_all add: new_page_def)
  have old: "page_span q \<inter> page_span ?p = {}" if "m_Pages c j = Some q" for j q
  proof -
    have "page_span q \<subseteq> used c" using that by (force simp: used_def)
    then have "page_span q \<inter> span loc (4096 :: u64) = {}" using assms(5) by blast
    then show ?thesis by simp
  qed
  show "cache_inv ?c"
    unfolding cache_inv_def pages
  proof (intro conjI allI impI)
    show "RangeList_inv (m_Allocator c)" using assms(1) by (simp add: cache_inv_def)
  next
    fix j q assume "((m_Pages c)(key \<mapsto> ?p)) j = Some q"
    then have q: "(j = key \<and> q = ?p) \<or> m_Pages c j = Some q" by (auto split: if_splits)
    then show "unat (location q) + 4096 < 2 ^ 64" using assms(1,3) unfolding cache_inv_def by force
    from q show "page_span q \<inter> free_addresses (m_Allocator c) = {}"
    proof
      assume "j = key \<and> q = ?p" then show ?thesis using assms(4) by simp
    next
      assume "m_Pages c j = Some q" then show ?thesis using assms(1) unfolding cache_inv_def by blast
    qed
  next
    fix j l q t assume a: "((m_Pages c)(key \<mapsto> ?p)) j = Some q" "((m_Pages c)(key \<mapsto> ?p)) l = Some t" "j \<noteq> l"
    consider "j = key" "?p = q" "m_Pages c l = Some t" | "l = key" "?p = t" "m_Pages c j = Some q" | "m_Pages c j = Some q" "m_Pages c l = Some t"
      using a by (cases "j = key"; cases "l = key") simp_all
    then show "page_span q \<inter> page_span t = {}"
    proof cases
      case 1 then show ?thesis using old [of l t] by blast
    next
      case 2 then show ?thesis using old [of j q] by blast
    next
      case 3 then show ?thesis using assms(1) a(3) unfolding cache_inv_def by blast
    qed
  qed
  have "used ?c = page_span ?p \<union> (\<Union>k \<in> dom (m_Pages c). page_span (the (((m_Pages c)(key \<mapsto> ?p)) k)))"
    by (simp add: used_def pages)
  also have "(\<Union>k \<in> dom (m_Pages c). page_span (the (((m_Pages c)(key \<mapsto> ?p)) k))) = used c"
    unfolding used_def by (rule SUP_cong) (use assms(2) in auto)
  finally show "used ?c = used c \<union> span loc (4096 :: u64)" by (simp add: Un_commute)
qed

lemma allocated:
  fixes a :: "u64 RangeList"
  assumes "RangeList_inv a" "RangeList_allocate a l = Some (loc, Some a')"
  shows "span loc l \<subseteq> free_addresses a" "RangeList_inv a'" "free_addresses a' = free_addresses a - span loc l"
    and "l \<noteq> 0 \<Longrightarrow> unat loc + unat l < 2 ^ 64"
proof -
  show s: "span loc l \<subseteq> free_addresses a" "RangeList_inv a'" "free_addresses a' = free_addresses a - span loc l"
    using allocate_spec [OF assms] by simp_all
  show "unat loc + unat l < 2 ^ 64" if "l \<noteq> 0"
  proof -
    have "0 < unat l" using that by (simp add: unat_gt_0)
    then have "unat loc + unat l - 1 \<in> span loc l" by auto
    then obtain r where r: "r \<in> set (m_List a)" "unat loc + unat l - 1 < rend r" using s(1) by (auto simp: free_set_def range_set_def)
    have "rend r < 2 ^ 64" using assms(1) r(1) by (auto simp: RangeList_inv_def ranges_inv_def range_ok_def)
    then show ?thesis using r(2) by simp
  qed
qed

text \<open>An allocator with fewer free addresses.\<close>

lemma shrink_inv:
  assumes "cache_inv c" "RangeList_inv a" "free_addresses a \<subseteq> free_addresses (m_Allocator c)"
  shows "cache_inv (c\<lparr>m_Allocator := a\<rparr>)" "used (c\<lparr>m_Allocator := a\<rparr>) = used c"
proof -
  have "page_span p \<inter> free_addresses a = {}" if "m_Pages c k = Some p" for k p
  proof -
    have "page_span p \<inter> free_addresses (m_Allocator c) = {}" using assms(1) that unfolding cache_inv_def by blast
    then show ?thesis using assms(3) by blast
  qed
  then show "cache_inv (c\<lparr>m_Allocator := a\<rparr>)" using assms(1,2) by (simp add: cache_inv_def)
  show "used (c\<lparr>m_Allocator := a\<rparr>) = used c" by (simp add: used_def)
qed

lemma used_apart: "cache_inv c \<Longrightarrow> used c \<inter> free_addresses (m_Allocator c) = {}"
  unfolding cache_inv_def used_def by fastforce

lemma insert_inv:
  assumes "cache_inv c" "Cache_insert key now phys c = Some (loc, c')"
  shows "cache_inv c' \<and> owned c' = owned c"
proof (cases "m_Pages c key")
  case (Some p)
  then show ?thesis using assms by (simp add: Cache_insert_def)
next
  case None
  then obtain a q where a: "RangeList_allocate (m_Allocator c) 4096 = Some (loc, Some a)"
    and c': "c' = new_page key loc 1 now q (c\<lparr>m_Allocator := a\<rparr>)"
    using assms(2) by (auto simp: Cache_insert_def split: bind_splits)
  have "RangeList_inv (m_Allocator c)" using assms(1) by (simp add: cache_inv_def)
  note al = allocated [OF this a]
  have "free_addresses a \<subseteq> free_addresses (m_Allocator c)" using al(3) by blast
  note sh = shrink_inv [OF assms(1) al(2) this]
  have d: "span loc 4096 \<inter> used c = {}" using used_apart [OF assms(1)] al(1) by blast
  have n: "cache_inv c'" "used c' = used c \<union> span loc (4096 :: u64)"
    unfolding c' using new_page_inv [OF sh(1), of key loc 1 now q] None al(3,4) d sh(2) by simp_all
  have "m_Allocator c' = a" by (simp add: c' new_page_def)
  then show ?thesis using n al(1,3) by blast
qed

lemma insert_pages_inv:
  assumes "cache_inv c" "insert_pages n key loc now phys b c = Some (b', c')" "unat loc + 4096 * n < 2 ^ 64"
    and "{unat loc ..< unat loc + 4096 * n} \<inter> free_addresses (m_Allocator c) = {}" "{unat loc ..< unat loc + 4096 * n} \<inter> used c = {}"
  shows "cache_inv c' \<and> m_Allocator c' = m_Allocator c \<and> used c \<subseteq> used c' \<and> used c' \<subseteq> used c \<union> {unat loc ..< unat loc + 4096 * n} \<and>
    (\<not> b' \<longrightarrow> used c' = used c \<union> {unat loc ..< unat loc + 4096 * n})"
  using assms
proof (induction n arbitrary: key loc b c)
  case 0
  then show ?case by simp
next
  case (Suc n)
  show ?case
  proof (cases "m_Pages c key")
    case (Some p)
    then have s: "insert_pages n (key + 4096) loc now phys True c = Some (b', c')" using Suc.prems(2) by simp
    have true: "b'" if "insert_pages m k l now phys True d = Some (b', d')" for m k l d d'
      using that by (induction m k l now phys "True" d rule: insert_pages.induct) (auto split: if_splits bind_splits)
    have sub: "{unat loc ..< unat loc + 4096 * n} \<subseteq> {unat loc ..< unat loc + 4096 * Suc n}" by auto
    have "{unat loc ..< unat loc + 4096 * n} \<inter> free_addresses (m_Allocator c) = {}" "{unat loc ..< unat loc + 4096 * n} \<inter> used c = {}"
      using Suc.prems(4,5) sub by blast+
    then have IH: "cache_inv c' \<and> m_Allocator c' = m_Allocator c \<and> used c \<subseteq> used c' \<and> used c' \<subseteq> used c \<union> {unat loc ..< unat loc + 4096 * n}"
      using Suc.IH [OF Suc.prems(1) s] Suc.prems(3) by simp
    then show ?thesis using true [OF s] sub by blast
  next
    case None
    then obtain q where q: "insert_pages n (key + 4096) (loc + 4096) now phys b (new_page key loc (if m_Callback c then 0 else 1) now q c) = Some (b', c')"
      using Suc.prems(2) by (auto split: bind_splits)
    let ?c = "new_page key loc (if m_Callback c then 0 else 1) now q c"
    have u: "unat (loc + 4096) = unat loc + 4096"
      using unat_add_lem [of loc 4096] Suc.prems(3) by simp
    have head: "span loc (4096 :: u64) \<subseteq> {unat loc ..< unat loc + 4096 * Suc n}" by auto
    have "span loc (4096 :: u64) \<inter> free_addresses (m_Allocator c) = {}" "span loc (4096 :: u64) \<inter> used c = {}"
      using Suc.prems(4,5) head by blast+
    moreover have "unat loc + 4096 < 2 ^ 64" using Suc.prems(3) by simp
    ultimately have n: "cache_inv ?c" "used ?c = used c \<union> span loc (4096 :: u64)" using new_page_inv [OF Suc.prems(1) None] by blast+
    have alc: "m_Allocator ?c = m_Allocator c" by (simp add: new_page_def)
    let ?R = "{unat (loc + 4096) ..< unat (loc + 4096) + 4096 * n}"
    have R: "?R \<subseteq> {unat loc ..< unat loc + 4096 * Suc n}" "?R \<inter> span loc (4096 :: u64) = {}"
      "span loc (4096 :: u64) \<union> ?R = {unat loc ..< unat loc + 4096 * Suc n}" unfolding u by auto
    have x1: "?R \<inter> free_addresses (m_Allocator ?c) = {}" unfolding alc using Suc.prems(4) R(1) by blast
    have x2: "?R \<inter> used ?c = {}" unfolding n(2) using Suc.prems(5) R(1,2) by blast
    have "unat (loc + 4096) + 4096 * n < 2 ^ 64" using Suc.prems(3) u by simp
    note IH = Suc.IH [OF n(1) q this x1 x2]
    have U: "used ?c \<union> ?R = used c \<union> {unat loc ..< unat loc + 4096 * Suc n}" unfolding n(2) R(3) [symmetric] by (rule Un_assoc)
    have sub: "used c \<subseteq> used ?c" unfolding n(2) by (rule Un_upper1)
    from IH [unfolded U alc] show ?thesis using subset_trans [OF sub] by simp
  qed
qed

lemma insert_block_inv:
  assumes "cache_inv c" "Cache_insert_block key sz now phys c = Some (loc, c')"
  shows "cache_inv c' \<and> owned c' \<subseteq> owned c"
proof -
  define s where "s = sz AND NOT 0xFFF"
  let ?n = "unat (s div 4096)"
  have inv: "RangeList_inv (m_Allocator c)" using assms(1) by (simp add: cache_inv_def)
  consider "c' = c" | l a b where "RangeList_allocate (m_Allocator c) s = Some (l, Some a)"
      "insert_pages ?n key l now phys False (c\<lparr>m_Allocator := a\<rparr>) = Some (b, c')"
    using assms(2) unfolding Cache_insert_block_def Let_def s_def [symmetric] by (auto split: option.splits bind_splits)
  then show ?thesis
  proof cases
    case 2
    note al = allocated [OF inv 2(1)]
    have n: "4096 * ?n \<le> unat s" by (simp add: unat_div_distrib)
    have e: "unat l + 4096 * ?n < 2 ^ 64"
    proof (cases "s = 0")
      case True
      then show ?thesis using unsigned_less [of l] by simp
    next
      case False
      then show ?thesis using al(4) n by simp
    qed
    let ?R = "{unat l ..< unat l + 4096 * ?n}"
    have R: "?R \<subseteq> span l s" using n by auto
    have fr: "free_addresses a \<subseteq> free_addresses (m_Allocator c)" using al(3) by blast
    note sh = shrink_inv [OF assms(1) al(2) fr]
    have x1: "?R \<inter> free_addresses (m_Allocator (c\<lparr>m_Allocator := a\<rparr>)) = {}" using al(3) R by auto
    have x2: "?R \<inter> used (c\<lparr>m_Allocator := a\<rparr>) = {}" unfolding sh(2) using used_apart [OF assms(1)] al(1) R by blast
    note ip = insert_pages_inv [OF sh(1) 2(2) e x1 x2, unfolded sh(2)]
    then have "free_addresses (m_Allocator c') = free_addresses a" "used c' \<subseteq> used c \<union> ?R" by simp_all
    then show ?thesis using ip fr al(1) R by blast
  qed (use assms(1) in simp)
qed

section \<open>Sequences of operations\<close>

lemma lookup_inv: "cache_inv c \<Longrightarrow> cache_inv (snd (Cache_lookup key c)) \<and> owned (snd (Cache_lookup key c)) = owned c"
  using refcnt_inv [of c key] by (auto simp: Cache_lookup_def split: option.splits)

lemma release_inv:
  assumes "cache_inv c" "Cache_release key c = Some c'"
  shows "cache_inv c' \<and> owned c' = owned c"
proof (cases "m_Pages c key")
  case None
  then show ?thesis using assms by (simp add: Cache_release_def)
next
  case (Some p)
  let ?c = "c\<lparr>m_Pages := (m_Pages c)(key \<mapsto> p\<lparr>refcnt := refcnt p - 1\<rparr>)\<rparr>"
  have r: "cache_inv ?c" "owned ?c = owned c" using refcnt_inv [OF assms(1) Some, of "p\<lparr>refcnt := refcnt p - 1\<rparr>"] by simp_all
  have "c' = ?c \<or> c' = evict_page key True ?c" using assms(2) Some by (auto simp: Cache_release_def Let_def split: if_splits)
  then show ?thesis
  proof
    assume "c' = ?c" then show ?thesis using r by simp
  next
    assume "c' = evict_page key True ?c" then show ?thesis using evict_inv [OF r(1), of key] r(2) by simp
  qed
qed

lemma evict_keep:
  "m_Allocator (evict_page k False c) = m_Allocator (evict_page k True c)" "m_Pages (evict_page k False c) = m_Pages c"
  by (auto simp: evict_page_def Let_def split: option.splits)

text \<open>Emptying gives back the pages one by one.\<close>

lemma evict_page_cong:
  assumes "m_Pages c k = m_Pages d k" "m_Allocator c = m_Allocator d" "m_Callback c = m_Callback d"
  shows "m_Allocator (evict_page k b c) = m_Allocator (evict_page k b d)"
  using assms by (auto simp: evict_page_def Let_def split: option.splits)

lemma evict_callback [simp]: "m_Callback (evict_page k b c) = m_Callback c"
  by (auto simp: evict_page_def Let_def split: option.splits)

lemma empty_pages_inv:
  assumes "cache_inv (c\<lparr>m_Pages := (m_Pages c) |` set order\<rparr>)" "distinct order"
  shows "RangeList_inv (m_Allocator (empty_pages order c))"
  using assms
proof (induction order arbitrary: c)
  case Nil
  then show ?case by (simp add: cache_inv_def)
next
  case (Cons k ks)
  let ?zero = "map_option (\<lambda>p. p\<lparr>refcnt := 0\<rparr>) (m_Pages c k)"
  let ?d = "c\<lparr>m_Pages := (m_Pages c)(k := ?zero)\<rparr>" and ?r = "c\<lparr>m_Pages := (m_Pages c) |` set (k # ks)\<rparr>"
  let ?e = "?r\<lparr>m_Pages := (m_Pages ?r)(k := ?zero)\<rparr>"
  have e: "cache_inv ?e"
  proof (cases "m_Pages c k")
    case None
    then have "m_Pages ?e = m_Pages ?r" by (intro ext) (simp add: restrict_map_def)
    then show ?thesis using Cons.prems(1) cache_inv_cong [of ?e ?r] by simp
  next
    case (Some p)
    then show ?thesis using refcnt_inv [OF Cons.prems(1), of k p "p\<lparr>refcnt := 0\<rparr>"] by simp
  qed
  let ?c = "evict_page k False ?d"
  have pages: "m_Pages ?c |` set ks = m_Pages (evict_page k True ?e)"
  proof (cases "m_Pages c k")
    case None
    then have "evict_page k True ?e = ?e" by (simp add: evict_none)
    then show ?thesis using None Cons.prems(2) unfolding evict_keep by (intro ext) (auto simp add: restrict_map_def)
  next
    case (Some p)
    then have "m_Pages (evict_page k True ?e) = (m_Pages ?e)(k := None)" using evict_simps(1) [of ?e k "p\<lparr>refcnt := 0\<rparr>"] by (simp add: evictable_def)
    then show ?thesis using Cons.prems(2) unfolding evict_keep by (intro ext) (auto simp add: restrict_map_def)
  qed
  have "m_Allocator ?c = m_Allocator (evict_page k True ?e)"
    unfolding evict_keep(1) by (rule evict_page_cong) simp_all
  with pages have "cache_inv (?c\<lparr>m_Pages := m_Pages ?c |` set ks\<rparr>)"
    using evict_inv [OF e, of k] cache_inv_cong [of "?c\<lparr>m_Pages := m_Pages ?c |` set ks\<rparr>" "evict_page k True ?e"] by simp
  then have "RangeList_inv (m_Allocator (empty_pages ks ?c))" by (rule Cons.IH) (use Cons.prems(2) in simp)
  then show ?case by simp
qed

lemma timer_keeps: "m_Pages (timer_pages order c) = m_Pages c" "m_Allocator (timer_pages order c) = m_Allocator c"
  by (induction order arbitrary: c) (auto split: option.splits bool.splits)

text \<open>The operations of a cache; a walk through its pages visits each once.\<close>

datatype cache_op = Lookup u64 | Insert u64 u32 "u64 option" | InsertBlock u64 u64 u32 "u64 \<Rightarrow> u64 option" | Evict u64 | Empty "u64 list"
  | Pin u64 | Release u64 | Sync u64 | Execute u64 u64 | Timer "u64 list"

fun cache_step :: "cache_op \<Rightarrow> page_cache \<Rightarrow> page_cache option" where
  "cache_step (Lookup k) c = Some (snd (Cache_lookup k c))"
| "cache_step (Insert k now phys) c = map_option snd (Cache_insert k now phys c)"
| "cache_step (InsertBlock k sz now phys) c = map_option snd (Cache_insert_block k sz now phys c)"
| "cache_step (Evict k) c = Some (Cache_evict k c)"
| "cache_step (Empty order) c = (if distinct order then Some (Cache_empty order c) else None)"
| "cache_step (Pin k) c = Some (Cache_pin k c)"
| "cache_step (Release k) c = Cache_release k c"
| "cache_step (Sync k) c = Some (Cache_sync k c)"
| "cache_step (Execute k loc) c = Cache_executeRequest k loc c"
| "cache_step (Timer order) c = Some (timer_pages order c)"

fun run_cache :: "cache_op list \<Rightarrow> page_cache \<Rightarrow> page_cache option" where
  "run_cache [] c = Some c"
| "run_cache (p # ps) c = do { c \<leftarrow> cache_step p c; run_cache ps c }"

lemma step_inv:
  assumes "cache_inv c" "cache_step p c = Some c'"
  shows "cache_inv c'"
proof (cases p)
  case (Empty order)
  then have c': "distinct order" "c' = Cache_empty order c" using assms(2) by (simp_all split: if_splits)
  have "cache_inv (c\<lparr>m_Pages := (m_Pages c) |` set order\<rparr>)"
    using assms(1) by (auto simp: cache_inv_def restrict_map_def split: if_splits)
  from empty_pages_inv [OF this c'(1)] show ?thesis by (simp add: c'(2) Cache_empty_def cache_inv_def)
next
  case (Execute k loc)
  let ?d = "(Cache_pin k c)\<lparr>events := events (Cache_pin k c) @ [WriteBack k loc]\<rparr>"
  have "cache_inv ?d" using lookup_inv [OF assms(1), of k] cache_inv_cong [of ?d "Cache_pin k c"] by (simp add: Cache_pin_def)
  moreover have "c' = c \<or> Cache_release k ?d = Some c'" using assms(2) Execute by (auto simp: Cache_executeRequest_def Let_def split: if_splits)
  ultimately show ?thesis using release_inv [of ?d k c'] assms(1) by auto
next
  case (Sync k)
  then have "m_Pages c' = m_Pages c" "m_Allocator c' = m_Allocator c" using assms(2) by (auto simp: Cache_sync_def split: if_splits option.splits)
  then show ?thesis using assms(1) cache_inv_cong by blast
next
  case (Timer order)
  then have "c' = timer_pages order c" using assms(2) by simp
  then show ?thesis using assms(1) cache_inv_cong timer_keeps by blast
next
  case (Lookup k)
  then show ?thesis using assms lookup_inv [of c k] by auto
next
  case (Pin k)
  then show ?thesis using assms lookup_inv [of c k] by (auto simp: Cache_pin_def)
next
  case (Insert k now phys)
  then obtain loc where "Cache_insert k now phys c = Some (loc, c')" using assms(2) by auto
  from insert_inv [OF assms(1) this] show ?thesis ..
next
  case (InsertBlock k sz now phys)
  then obtain loc where "Cache_insert_block k sz now phys c = Some (loc, c')" using assms(2) by auto
  from insert_block_inv [OF assms(1) this] show ?thesis ..
next
  case (Evict k)
  then show ?thesis using assms(2) evict_inv [OF assms(1), of k] by (simp add: Cache_evict_def)
next
  case (Release k)
  then show ?thesis using assms(2) release_inv [OF assms(1)] by simp
qed

lemma run_inv: "cache_inv c \<Longrightarrow> run_cache ps c = Some c' \<Longrightarrow> cache_inv c'"
  by (induction ps arbitrary: c) (auto split: bind_splits dest: step_inv)

section \<open>Properties\<close>

lemma allocator_inv: "RangeList_inv Cache_allocator"
proof -
  have e: "RangeList_inv (RangeList_empty False :: u64 RangeList)" by (simp add: RangeList_inv_def RangeList_empty_def)
  have a: "RangeList_inv (RangeList_free (RangeList_empty False) (0xFFFFFFFFD0000000 :: u64) 0x10000000) \<and>
      free_addresses (RangeList_free (RangeList_empty False) (0xFFFFFFFFD0000000 :: u64) 0x10000000) =
      free_addresses (RangeList_empty False :: u64 RangeList) \<union> span (0xFFFFFFFFD0000000 :: u64) 0x10000000"
    by (rule free_spec [OF e]) (simp_all add: RangeList_empty_def)
  have "RangeList_inv (RangeList_free (RangeList_free (RangeList_empty False) (0xFFFFFFFFD0000000 :: u64) 0x10000000) 0xFFFFFFFF40000000 0x3FC00000)"
    by (rule conjunct1 [OF free_spec]) (use a in \<open>simp_all add: RangeList_empty_def\<close>)
  then show ?thesis by (simp only: Cache_allocator_def)
qed

lemma new_inv: "cache_inv (Cache_new callback Cache_allocator)"
  using allocator_inv by (simp add: cache_inv_def Cache_new_def)

text \<open>C29: After any sequence of operations the pages of two keys do not share an address, and no address of a page is free.\<close>

theorem cache_pages_apart:
  assumes "run_cache ps (Cache_new callback Cache_allocator) = Some c" "m_Pages c k = Some p"
  shows "page_span p \<inter> free_addresses (m_Allocator c) = {} \<and>
    (\<forall>l q. m_Pages c l = Some q \<longrightarrow> l \<noteq> k \<longrightarrow> page_span p \<inter> page_span q = {})"
  using run_inv [OF new_inv assms(1)] assms(2) unfolding cache_inv_def by metis

lemma sample_allocate: "RangeList_allocate Cache_allocator 4096 = Some (0xFFFFFFFFD0000000,
    Some \<lparr>m_List = [Range 0xFFFFFFFFD0001000 0xFFFF000, Range 0xFFFFFFFF40000000 0x3FC00000], m_bReverse = False\<rparr>)"
  by (simp add: Cache_allocator_def RangeList_free_def RangeList_empty_def absorb_preceding_def absorb_following_def RangeList_allocate_def)

theorem cache_pages_apart_witness:
  "\<exists>c p. run_cache [Insert 8 0 (Some 77), Pin 8] (Cache_new False Cache_allocator) = Some c \<and> m_Pages c 8 = Some p \<and>
    page_span p \<inter> free_addresses (m_Allocator c) = {}"
proof -
  define a where "a = \<lparr>m_List = [Range 0xFFFFFFFFD0001000 0xFFFF000, Range (0xFFFFFFFF40000000 :: u64) 0x3FC00000], m_bReverse = False\<rparr>"
  define p where "p = \<lparr>location = 0xFFFFFFFFD0000000, refcnt = 2, timeAllocated = 0\<rparr>"
  obtain c where "run_cache [Insert 8 0 (Some 77), Pin 8] (Cache_new False Cache_allocator) = Some c" "m_Pages c 8 = Some p"
    using sample_allocate by (simp add: Cache_insert_def Cache_new_def new_page_def Cache_pin_def Cache_lookup_def p_def)
  with cache_pages_apart [OF this] show ?thesis by blast
qed

text \<open>A page that is inserted without a callback and released again leaves no trace in the pages and the free addresses.\<close>

theorem insert_release_restores:
  assumes "cache_inv c" "\<not> m_Callback c" "m_Pages c key = None" "Cache_insert key now phys c = Some (loc, c1)"
  shows "\<exists>c2. Cache_release key c1 = Some c2 \<and> m_Pages c2 = m_Pages c \<and> free_addresses (m_Allocator c2) = free_addresses (m_Allocator c) \<and>
    cache_inv c2"
proof -
  obtain a q where a: "RangeList_allocate (m_Allocator c) 4096 = Some (loc, Some a)"
    and c1: "c1 = new_page key loc 1 now q (c\<lparr>m_Allocator := a\<rparr>)"
    using assms(3,4) by (auto simp: Cache_insert_def split: bind_splits)
  let ?p = "\<lparr>location = loc, refcnt = 0, timeAllocated = now\<rparr>"
  let ?d = "c1\<lparr>m_Pages := (m_Pages c1)(key \<mapsto> ?p)\<rparr>"
  let ?e = "evict_page key True ?d"
  have r: "Cache_release key c1 = Some ?e" by (simp add: c1 new_page_def Cache_release_def Let_def)
  have ev: "m_Pages ?e = (m_Pages ?d)(key := None)" "m_Callback ?d = m_Callback c"
    using evict_simps(1) [of ?d key ?p] assms(2) by (simp_all add: c1 new_page_def evictable_def)
  have pages: "m_Pages ?e = m_Pages c" unfolding ev(1) using assms(3) by (auto simp: c1 new_page_def)
  have inv: "cache_inv ?e \<and> owned ?e = owned c"
    using release_inv [OF _ r] insert_inv [OF assms(1,4)] by simp
  have "free_addresses (m_Allocator ?e) = free_addresses (m_Allocator c)"
    using inv used_apart [OF assms(1)] used_apart [of ?e] used_cong [OF pages] by blast
  then show ?thesis using r pages inv by blast
qed

lemma sample_insert: "\<exists>c1. Cache_insert 8 0 (Some 77) (Cache_new callback Cache_allocator) = Some (0xFFFFFFFFD0000000, c1)"
  using sample_allocate by (simp add: Cache_insert_def Cache_new_def)

theorem insert_release_restores_witness:
  "\<exists>c1 c2. Cache_insert 8 0 (Some 77) (Cache_new False Cache_allocator) = Some (0xFFFFFFFFD0000000, c1) \<and> Cache_release 8 c1 = Some c2 \<and>
    m_Pages c2 = Map.empty"
proof -
  obtain c1 where c1: "Cache_insert 8 0 (Some 77) (Cache_new False Cache_allocator) = Some (0xFFFFFFFFD0000000, c1)" using sample_insert by blast
  from insert_release_restores [OF new_inv _ _ c1] c1 show ?thesis by (auto simp: Cache_new_def)
qed

text \<open>Inserting a key that is there takes no reference: with two users, the release of the first evicts the page of the
  second.\<close>

theorem second_insert_unpinned:
  assumes "cache_inv c" "\<not> m_Callback c" "m_Pages c key = None" "Cache_insert key now phys c = Some (loc, c1)"
  shows "Cache_insert key now2 phys2 c1 = Some (loc, c1) \<and> (\<exists>c2. Cache_release key c1 = Some c2 \<and> m_Pages c2 key = None \<and>
    span loc (4096 :: u64) \<subseteq> free_addresses (m_Allocator c2))"
proof -
  have "\<exists>r. m_Pages c1 key = Some \<lparr>location = loc, refcnt = r, timeAllocated = now\<rparr>"
    using assms(3,4) by (auto simp: Cache_insert_def new_page_def split: bind_splits)
  then have again: "Cache_insert key now2 phys2 c1 = Some (loc, c1)" by (auto simp: Cache_insert_def)
  obtain a where a: "RangeList_allocate (m_Allocator c) 4096 = Some (loc, Some a)"
    using assms(3,4) by (auto simp: Cache_insert_def split: bind_splits)
  have "RangeList_inv (m_Allocator c)" using assms(1) by (simp add: cache_inv_def)
  from allocated(1) [OF this a] insert_release_restores [OF assms] assms(3) again show ?thesis by auto
qed

theorem second_insert_unpinned_witness:
  "\<exists>c1 c2. Cache_insert 8 5 None c1 = Some (0xFFFFFFFFD0000000, c1) \<and> Cache_release 8 c1 = Some c2 \<and> m_Pages c2 8 = None"
proof -
  obtain c1 where c1: "Cache_insert 8 0 (Some 77) (Cache_new False Cache_allocator) = Some (0xFFFFFFFFD0000000, c1)" using sample_insert by blast
  from second_insert_unpinned [OF new_inv _ _ c1, of 5 None] show ?thesis by (auto simp: Cache_new_def)
qed

lemma evict_frees:
  assumes "cache_inv c" "m_Pages c k = Some p" "evictable (m_Callback c) p"
  shows "m_Pages (evict_page k True c) k = None" "page_span p \<subseteq> free_addresses (m_Allocator (evict_page k True c))"
proof -
  show "m_Pages (evict_page k True c) k = None" using evict_simps(1) [OF assms(2,3)] by simp
  have "page_span p \<subseteq> used c" using assms(2) by (force simp: used_def)
  then have o: "page_span p \<subseteq> owned (evict_page k True c)" using evict_inv [OF assms(1), of k] by blast
  have "page_span p \<inter> page_span q = {}" if "m_Pages (evict_page k True c) l = Some q" for l q
  proof -
    have "m_Pages c l = Some q" "l \<noteq> k" using that evict_simps(1) [OF assms(2,3)] by (auto split: if_splits)
    then show ?thesis using assms(1,2) unfolding cache_inv_def by metis
  qed
  then have "page_span p \<inter> used (evict_page k True c) = {}" by (fastforce simp: used_def)
  with o show "page_span p \<subseteq> free_addresses (m_Allocator (evict_page k True c))" by blast
qed

lemma one_page_block:
  assumes "m_Callback c" "m_Pages c key = None" "Cache_insert_block key 4096 now phys c = Some (loc, c1)" "m_Pages c1 key \<noteq> None"
  shows "m_Pages c1 key = Some \<lparr>location = loc, refcnt = 0, timeAllocated = now\<rparr>" "m_Callback c1"
proof -
  have "m_Pages c1 key = Some \<lparr>location = loc, refcnt = 0, timeAllocated = now\<rparr> \<and> m_Callback c1"
    using assms by (auto simp: Cache_insert_block_def Let_def new_page_def split: option.splits bind_splits)
  then show "m_Pages c1 key = Some \<lparr>location = loc, refcnt = 0, timeAllocated = now\<rparr>" "m_Callback c1" by simp_all
qed

text \<open>C36: With a callback the pages of a block start without a reference.  Such a page is evicted even when it is pinned once, and its
  address is free for the next page although the holder of the pin still uses it.\<close>

theorem pinned_block_evicted:
  assumes "cache_inv c" "m_Callback c" "m_Pages c key = None"
    and "Cache_insert_block key 4096 now phys c = Some (loc, c1)" "m_Pages c1 key \<noteq> None"
  shows "m_Pages (Cache_evict key (Cache_pin key c1)) key = None \<and>
    span loc (4096 :: u64) \<subseteq> free_addresses (m_Allocator (Cache_evict key (Cache_pin key c1)))"
proof -
  note b = one_page_block [OF assms(2-5)]
  have i: "cache_inv (Cache_pin key c1)" using lookup_inv insert_block_inv [OF assms(1,4)] by (simp add: Cache_pin_def)
  have p: "m_Pages (Cache_pin key c1) key = Some \<lparr>location = loc, refcnt = 1, timeAllocated = now\<rparr>" "m_Callback (Cache_pin key c1)"
    using b by (simp_all add: Cache_pin_def Cache_lookup_def)
  have "evictable (m_Callback (Cache_pin key c1)) \<lparr>location = loc, refcnt = 1, timeAllocated = now\<rparr>" using p(2) by (simp add: evictable_def)
  from evict_frees [OF i p(1) this] show ?thesis by (simp add: Cache_evict_def)
qed

lemma sample_block: "\<exists>c1. Cache_insert_block 8 4096 0 (\<lambda>_. Some 77) (Cache_new True Cache_allocator) = Some (0xFFFFFFFFD0000000, c1) \<and> m_Pages c1 8 \<noteq> None"
  using sample_allocate by (simp add: Cache_insert_block_def Cache_new_def Let_def new_page_def)

theorem pinned_block_evicted_witness:
  "\<exists>c1. Cache_insert_block 8 4096 0 (\<lambda>_. Some 77) (Cache_new True Cache_allocator) = Some (0xFFFFFFFFD0000000, c1) \<and>
    m_Pages (Cache_evict 8 (Cache_pin 8 c1)) 8 = None"
proof -
  obtain c1 where c1: "Cache_insert_block 8 4096 0 (\<lambda>_. Some 77) (Cache_new True Cache_allocator) = Some (0xFFFFFFFFD0000000, c1)" "m_Pages c1 8 \<noteq> None"
    using sample_block by blast
  from pinned_block_evicted [OF new_inv _ _ c1] c1(1) show ?thesis by (auto simp: Cache_new_def)
qed

text \<open>The write-back of such a page, during which it is pinned, evicts it at the end.\<close>

theorem writeback_evicts_block:
  assumes "cache_inv c" "m_Callback c" "m_Pages c key = None"
    and "Cache_insert_block key 4096 now phys c = Some (loc, c1)" "m_Pages c1 key \<noteq> None"
  shows "\<exists>c2. Cache_executeRequest key loc c1 = Some c2 \<and> m_Pages c2 key = None \<and> span loc (4096 :: u64) \<subseteq> free_addresses (m_Allocator c2)"
proof -
  note b = one_page_block [OF assms(2-5)]
  let ?p = "\<lparr>location = loc, refcnt = 0, timeAllocated = now\<rparr>"
  let ?d = "(Cache_pin key c1)\<lparr>events := events (Cache_pin key c1) @ [WriteBack key loc]\<rparr>"
  let ?e = "?d\<lparr>m_Pages := (m_Pages ?d)(key \<mapsto> ?p)\<rparr>"
  have pd: "m_Pages ?d key = Some \<lparr>location = loc, refcnt = 1, timeAllocated = now\<rparr>" using b(1) by (simp add: Cache_pin_def Cache_lookup_def)
  have run: "Cache_executeRequest key loc c1 = Some (evict_page key True ?e)"
    using b(2) pd by (simp add: Cache_executeRequest_def Let_def Cache_release_def)
  have "cache_inv (Cache_pin key c1)" using lookup_inv insert_block_inv [OF assms(1,4)] by (simp add: Cache_pin_def)
  then have "cache_inv ?d" using cache_inv_cong [of ?d "Cache_pin key c1"] by simp
  then have i: "cache_inv ?e" using refcnt_inv [OF _ pd, of ?p] by simp
  have "m_Pages ?e key = Some ?p" "evictable (m_Callback ?e) ?p" by (simp_all add: evictable_def)
  from evict_frees [OF i this] run show ?thesis by simp
qed

theorem writeback_evicts_block_witness:
  "\<exists>c1 c2. Cache_insert_block 8 4096 0 (\<lambda>_. Some 77) (Cache_new True Cache_allocator) = Some (0xFFFFFFFFD0000000, c1) \<and>
    Cache_executeRequest 8 0xFFFFFFFFD0000000 c1 = Some c2 \<and> m_Pages c2 8 = None"
proof -
  obtain c1 where c1: "Cache_insert_block 8 4096 0 (\<lambda>_. Some 77) (Cache_new True Cache_allocator) = Some (0xFFFFFFFFD0000000, c1)" "m_Pages c1 8 \<noteq> None"
    using sample_block by blast
  from writeback_evicts_block [OF new_inv _ _ c1] c1(1) show ?thesis by (auto simp: Cache_new_def)
qed

text \<open>A block of two pages of which the second is in the cache already returns 0, although its first page was entered, and the
  addresses meant for the second are lost: they are neither free nor those of a page.\<close>

theorem block_overlap_leaks:
  assumes "cache_inv c" "m_Pages c key = None" "m_Pages c (key + 4096) = Some q"
    and "Cache_insert_block key 8192 now phys c = Some (r, c1)" "m_Pages c1 key \<noteq> None"
  shows "r = 0 \<and> (\<exists>p. m_Pages c1 key = Some p \<and>
    {unat (location p) + 4096 ..< unat (location p) + 8192} \<subseteq> owned c \<and> {unat (location p) + 4096 ..< unat (location p) + 8192} \<inter> owned c1 = {})"
proof -
  let ?k = "if m_Callback c then 0 else 1 :: nat"
  obtain loc a f where a: "RangeList_allocate (m_Allocator c) 8192 = Some (loc, Some a)"
    and c1: "c1 = new_page key loc ?k now f (c\<lparr>m_Allocator := a\<rparr>)" and r: "r = 0"
  proof -
    have two: "insert_pages 2 k l now phys b d =
        (if m_Pages d k \<noteq> None then insert_pages 1 (k + 4096) l now phys True d
         else do { p \<leftarrow> phys l; insert_pages 1 (k + 4096) (l + 4096) now phys b (new_page k l (if m_Callback d then 0 else 1) now p d) })" for k l b d
      by (simp add: numeral_2_eq_2)
    have ne: "key + 4096 \<noteq> key" by simp
    show thesis
      using assms(2-5) that ne by (auto simp: Cache_insert_block_def Let_def two new_page_def split: option.splits bind_splits)
  qed
  have inv: "RangeList_inv (m_Allocator c)" using assms(1) by (simp add: cache_inv_def)
  note al = allocated [OF inv a]
  have p: "m_Pages c1 key = Some \<lparr>location = loc, refcnt = ?k, timeAllocated = now\<rparr>" "m_Allocator c1 = a" by (simp_all add: c1 new_page_def)
  let ?R = "{unat loc + 4096 ..< unat loc + 8192}"
  have R: "?R \<subseteq> span loc (8192 :: u64)" "?R \<inter> span loc (4096 :: u64) = {}" "span loc (4096 :: u64) \<subseteq> span loc (8192 :: u64)" by auto
  have fr: "free_addresses a \<subseteq> free_addresses (m_Allocator c)" using al(3) by blast
  note sh = shrink_inv [OF assms(1) al(2) fr]
  have d: "span loc (8192 :: u64) \<inter> used c = {}" using used_apart [OF assms(1)] al(1) by blast
  have "used c1 = used c \<union> span loc (4096 :: u64)"
    unfolding c1 sh(2) [symmetric]
  proof (rule new_page_inv(2) [OF sh(1)])
    show "unat loc + 4096 < 2 ^ 64" using al(4) by simp
    show "span loc (4096 :: u64) \<inter> free_addresses (m_Allocator (c\<lparr>m_Allocator := a\<rparr>)) = {}" using al(3) R(3) by auto
    show "span loc (4096 :: u64) \<inter> used (c\<lparr>m_Allocator := a\<rparr>) = {}" unfolding sh(2) using d R(3) by blast
  qed (use assms(2) in simp)
  then have "?R \<inter> owned c1 = {}" using R(1,2) d al(3) p(2) by blast
  moreover have "?R \<subseteq> owned c" using R(1) al(1) by blast
  ultimately show ?thesis using r p(1) by (intro conjI exI [of _ "\<lparr>location = loc, refcnt = ?k, timeAllocated = now\<rparr>"]) simp_all
qed

theorem block_overlap_leaks_witness:
  "\<exists>c c1 p. Cache_insert 0x1008 0 (Some 77) (Cache_new False Cache_allocator) = Some (0xFFFFFFFFD0000000, c) \<and>
    Cache_insert_block 8 8192 0 (\<lambda>_. Some 77) c = Some (0, c1) \<and> m_Pages c1 8 = Some p \<and>
    {unat (location p) + 4096 ..< unat (location p) + 8192} \<inter> owned c1 = {}"
proof -
  obtain c where c: "Cache_insert 0x1008 0 (Some 77) (Cache_new False Cache_allocator) = Some (0xFFFFFFFFD0000000, c)"
    "m_Allocator c = \<lparr>m_List = [Range 0xFFFFFFFFD0001000 0xFFFF000, Range 0xFFFFFFFF40000000 0x3FC00000], m_bReverse = False\<rparr>"
    "m_Pages c 8 = None" "m_Pages c (8 + 4096) \<noteq> None"
    using sample_allocate by (simp add: Cache_insert_def Cache_new_def new_page_def)
  obtain q where q: "m_Pages c (8 + 4096) = Some q" using c(4) by blast
  have two: "insert_pages 2 8 l 0 f False d =
      (if m_Pages d 8 \<noteq> None then insert_pages 1 (8 + 4096) l 0 f True d
       else do { p \<leftarrow> f l; insert_pages 1 (8 + 4096) (l + 4096) 0 f False (new_page 8 l (if m_Callback d then 0 else 1) 0 p d) })" for l f d
    by (simp add: numeral_2_eq_2)
  obtain r c1 where c1: "Cache_insert_block 8 8192 0 (\<lambda>_. Some 77) c = Some (r, c1)" "m_Pages c1 8 \<noteq> None"
    using c(2,3) q by (simp add: Cache_insert_block_def Let_def RangeList_allocate_def two new_page_def)
  have i: "cache_inv c" using insert_inv [OF new_inv c(1)] by simp
  from block_overlap_leaks [OF i c(3) q c1] c(1) c1(1) show ?thesis by blast
qed

end
