(* ===== verification/Spec2Isabelle.thy ===== *)
theory Spec2Isabelle
  imports Range_List Semaphore_Sync Ring_Buffer AVL_Tree C_Printf Static_String Tcp_Stream Keymap_Roundtrip
    Radix_Iteration Scheduler_Order Event_Properties Fat_Properties Fat_Naming Fat_Mount String_Properties Ext2_Properties
    Vector_Array Hash_Table Page_Cache
begin

text \<open>
  A model of the core of the Pedigree operating system, and what makes it correct.  Paths are those
  under \<^verbatim>\<open>src/src\<close>; \<^verbatim>\<open>system\<close> is the kernel, \<^verbatim>\<open>modules/system\<close> its loadable modules.

  \<^bold>\<open>The parts, and the theories that model them.\<close>  Each group starts with the state of the component, then its
  operations in the order of the source, then its lemmas.

  \<^item> \<open>Pedigree_Prelude\<close>: integer types (\<^verbatim>\<open>processor/types.h\<close>) and facts shared by all.
  \<^item> Containers (\<^verbatim>\<open>system/include/utilities\<close>, \<^verbatim>\<open>system/kernel/utilities\<close>): \<open>Linked_List\<close> is \<open>List\<close>, with an explicit
    store of nodes; \<open>Range_List\<close> is \<open>RangeList\<close>, the allocator of address ranges; \<open>Ring_Buffer\<close> is \<open>RingBuffer\<close>, on the
    list and on two semaphores; \<open>AVL_Tree\<close> is \<open>Tree\<close>; \<open>Radix_Tree\<close> is \<open>RadixTree\<close>, with \<open>Radix_Map\<close>, \<open>Radix_Properties\<close>
    and \<open>Radix_Iteration\<close> for what it does as a map; \<open>Extensible_Bitmap\<close>, \<open>Static_String\<close> and \<open>String_Class\<close> are the classes of these
    names; \<open>String_Text\<close> and \<open>String_Properties\<close> relate the last to texts.  \<open>Keyed_Map\<close> is the interface of a map that a radix tree provides.  \<open>Vector_Array\<close> is \<open>Vector\<close>, \<open>Hash_Table\<close> is \<open>HashTable\<close>, and
    \<open>Page_Cache\<close> is \<open>Cache\<close>, the page cache, on the allocator of \<open>Range_List\<close>.
  \<^item> The C library of the kernel (\<^verbatim>\<open>system/kernel/core/lib\<close>): \<open>C_Memory\<close> is \<^verbatim>\<open>memory.c\<close>, \<open>C_String\<close> is \<^verbatim>\<open>string.c\<close>,
    \<open>C_Printf\<close> is \<^verbatim>\<open>vsprintf.c\<close> with the generator of \<^verbatim>\<open>random.c\<close>.  They work on a memory of bytes, a function from
    addresses; \<open>Static_String\<close> calls them.
  \<^item> Threads (\<^verbatim>\<open>system/kernel/core/process\<close>): \<open>Semaphore_Sync\<close> is \<open>Semaphore\<close> and \<open>Mutex\<close>, as functions and as a step relation
    of threads that interleave; \<open>Thread_Scheduler\<close>, \<open>Scheduler_Properties\<close> and \<open>Scheduler_Order\<close> are the ready
    queues, the switch and the status of threads on one processor; \<open>Thread_Events\<close> and \<open>Event_Properties\<close> are the
    events sent to a thread, their masks and their dispatch.
  \<^item> TCP (\<^verbatim>\<open>modules/system/network-stack\<close>): \<open>Handle_Tree\<close> and \<open>Tcp_Buffer\<close> are the tables and the streams of
    \<^verbatim>\<open>TcpMisc.cc\<close>, \<open>Tcp_State\<close> a connection, \<open>Tcp_Manager\<close> the calls of applications, \<open>Tcp_Receive\<close> the arrival of
    a segment; \<open>Tcp_System\<close> is everything that can happen as one step relation, \<open>Tcp_Handshake\<close> and \<open>Tcp_Stream\<close> put two
    hosts together.  Which packets find a route is a parameter.
  \<^item> Keymaps: \<open>Keymap_Compiler\<close> is \<^verbatim>\<open>user/applications/keymap/main.c\<close> from the commands to the bytes of the file,
    \<open>Keymap_Manager\<close> the kernel's side, \<open>Keymap_Roundtrip\<close> joins them.
  \<^item> The FAT file system (\<^verbatim>\<open>modules/system/fat\<close>): \<open>Fat_Table\<close> is sectors, clusters and the cached table;
    \<open>Fat_Chain\<close> the loops over chains, generic in the table and proved once in the locales \<open>fat_table\<close> and
    \<open>fat_alloc\<close>, which \<open>Fat_Volume\<close> interprets on the table of a volume; \<open>Fat_File\<close> is reading, writing, extending and
    truncating, with \<open>Fat_Contents\<close> and \<open>Fat_Writing\<close> for the bytes of a file; \<open>Fat_Names\<close> and \<open>Fat_Directory\<close> are names and
    directory entries, \<open>Fat_Listing\<close>, \<open>Fat_Adding\<close> and \<open>Fat_Naming\<close> what listing and adding do; \<open>Fat_Mount\<close> is the mounting of a
    volume.  \<open>Disk_Bytes\<close> is numbers in disk structures and \<open>Letter_Case\<close> the case of letters, for all that use them.
  \<^item> The ext2 file system (\<^verbatim>\<open>modules/system/ext2\<close>): \<open>Ext2_Volume\<close> is \<^verbatim>\<open>Ext2Filesystem.cc\<close> (superblock, bitmaps, inodes),
    \<open>Ext2_Node\<close> is \<^verbatim>\<open>Ext2Node.cc\<close> (the blocks of a file, reading, writing, growing, wiping) and \<open>Ext2_Directory\<close> is
    \<^verbatim>\<open>Ext2Directory.cc\<close> with the making of files; \<open>Ext2_Bitmap\<close>, \<open>Ext2_Contents\<close>, \<open>Ext2_Files\<close>, \<open>Ext2_Tables\<close>,
    \<open>Ext2_Dirents\<close> and \<open>Ext2_Properties\<close> show what these do to the set of blocks in use, the bytes of a file, the map from positions to
    blocks and the list of entries.

  \<^bold>\<open>Conventions.\<close>  A call that panics, dereferences a null pointer, reads or writes outside of its object, or
  waits for ever is \<open>None\<close>; an error the code returns is a value of the result.  A loop that may not end is a
  \<open>partial_function\<close>, so that a run without end is \<open>None\<close> as well, and a claim that a call returns says that the result is \<open>Some\<close>.
  All other loops are total with a measure or structural; there is no fuel.  Integers are words where their
  wrap-around can be observed; sizes and offsets that the code keeps below \<open>2 ^ 32\<close> are natural numbers, with the wrap-around written out
  where a sum or product can leave its width: the sizes of clusters and files of FAT (32 bits; a sum of position and length,
  64), the lengths of \<open>String\<close> (64, with the byte before its buffer as part of \<open>m_Size\<close>), the counter of a semaphore (\<open>ssize_t\<close>)
  and the addresses of events and stacks (64).  Every
  keymap of at most 455 commands compiles (\<open>Keymap_Roundtrip\<close>), which bounds the size of the tree in the file.

  \<^bold>\<open>What the lemmas show.\<close>  Containers refine lists, maps or sets: each operation is related to that of the
  abstract type under an invariant that every operation keeps, and where the code departs from it, a
  theorem says when.  The C functions meet their specification on every input, overlap and alignment
  included, or the theorem states the inputs on which they do not.  For the semaphore, the scheduler, the events and TCP there
  are invariants over all reachable states of a step relation, and theorems on orders of steps that lose a
  wake-up, a thread or data.  The counter of a semaphore is compared with the books of its callers, kept when calls begin and
  return.  The queues of the scheduler are in order in runs of orderly operations (\<open>orderly\<close>); in runs of any operations no ready
  thread is lost.  The dispatch of an event can panic on an unmapped stack.  The blocks of a string are sound unless \<open>chomp\<close> meets an
  empty one.  For the file system, a file is the bytes of the clusters of its chain; reading, writing, extending,
  truncating and removing are proved against that, for volumes whose table is cached in whole pairs of sectors.  For ext2 the blocks
  in use are a set of numbers, the map of a file a function into blocks, and a directory a list of entries.
  Interfaces are locales: \<open>keyed_map\<close>, \<open>refines_steps\<close> of a container whose steps are those of an abstract one, the contract of a scheduling algorithm, and the two
  of the table; each is interpreted on the model of the code.

  \<^bold>\<open>Not modelled.\<close>  Locks that only guard single accesses, and the destruction of objects.  Drivers, the machine layer, the
  debugger, the system call tables and the user programs, whose behaviour is that of hardware or of other programs; vendored
  code (SQLite, SDL, x86emu, udis86, dlmalloc).  The kernel's allocators thread their free lists through mapped pages, and the
  request queue and the virtual file system are callbacks and pointers between objects over hardware state; the protocols below TCP
  build packets for the cards; routes are queries on the configuration database.
\<close>

section \<open>Printing and parsing\<close>

lemma strtoul_of_digits:
  assumes "2 \<le> base" "base \<le> 36" "bytes_at m p (magnitude_digits fl (nat base) w @ [0])" "\<not> SIGN fl"
  shows "strtoul p base m = Some (ucast w :: u64, p + length (magnitude_digits fl (nat base) w))"
proof -
  let ?ds = "magnitude_digits fl (nat base) w"
  have base: "int (nat base) = base" "2 \<le> nat base" "nat base \<le> 36" using assms(1,2) by auto
  note mag = magnitude_value [OF base(2,3), of fl w, unfolded base(1)]
  have "num_value base 0 ?ds = uint w" using mag(1) assms(4) by (simp add: printed_value_def)
  moreover have "uint w < 2 ^ 64" using uint_bounded [of w] by simp
  moreover have "word_of_int (uint w) = (ucast w :: u64)" by (rule ucast_eq [symmetric])
  moreover have "bytes_at m p ([] @ [] @ [] @ ?ds @ [0])" using assms(3) by simp
  moreover have "base_used base [] ?ds 0 base" using assms(1,2) by (simp add: base_used_def)
  ultimately show ?thesis
    using strtoul_value [of m p "[]" "[]" "[]" ?ds 0 base base, where ?'l = 64] mag(2,3) nul_not_digit
    by (simp add: sign_neg_def)
qed

text \<open>What \<open>vsprintf\<close> prints, \<open>strtoul\<close> reads back: a 32-bit number written with \<open>%u\<close> or
  \<open>%x\<close> and parsed in the same base is the number again, and the end pointer is at the terminator.\<close>

theorem vsprintf_strtoul_roundtrip:
  assumes "vsprintf [37, 117] [ArgInt w] = Some (dec, nd, sd)" "bytes_at m p dec"
    and "vsprintf [37, 120] [ArgInt w] = Some (hex, nh, sh)" "bytes_at m q hex"
  shows "strtoul p 10 m = Some (ucast w :: u64, p + nat nd) \<and> strtoul q 16 m = Some (ucast w :: u64, q + nat nh)"
  using assms strtoul_of_digits [of 10 m p no_flags w]
    strtoul_of_digits [of 16 m q "no_flags\<lparr>SMALL := True\<rparr>" w]
  by (auto simp: vsprintf_unsigned vsprintf_hex)

theorem vsprintf_strtoul_roundtrip_witness:
  "strtoul 10 10 ((\<lambda>_. 0)(10 := 52, 11 := 50, 20 := 50, 21 := 97)) = Some (ucast (42 :: u32) :: u64, 10 + nat 2) \<and>
   strtoul 20 16 ((\<lambda>_. 0)(10 := 52, 11 := 50, 20 := 50, 21 := 97)) = Some (ucast (42 :: u32) :: u64, 20 + nat 2)"
proof (rule vsprintf_strtoul_roundtrip)
  show "vsprintf [37, 117] [ArgInt 42] = Some ([52, 50, 0], 2, [])" by code_simp
  show "vsprintf [37, 120] [ArgInt 42] = Some ([50, 97, 0], 2, [])" by code_simp
qed simp_all

end
